(* ===== verification/Prelude.thy ===== *)
theory Prelude
  imports Main "HOL-Library.Word"
begin

unbundle bit_operations_syntax

text \<open>
  The prelude of the development: the machine the C code runs on and the lemmas
  every component shares.

  \<^item> Memory is a total map from addresses to bytes. An address is an \<open>int\<close>, so the
    pointer arithmetic of the code is plain linear arithmetic; \<open>NULL\<close> is \<open>0\<close>. A
    pointer stored in memory is the 64-bit little-endian word of its address. The
    platform is the one the application is built for (64-bit ARM): \<open>size_t\<close> and
    pointers have 64 bits, \<open>unsigned\<close> has 32, \<open>bool\<close> and \<open>uint_fast8_t\<close> have 8.
  \<^item> A C function that returns \<open>bool\<close> and works on a mutable object of type \<open>'s\<close>
    is a function \<open>'s \<Rightarrow> (bool \<times> 's) option\<close>. The value \<open>None\<close> means that the C
    semantics gives no result (a call through a null function pointer, or a recursion
    deeper than the fuel given). The combinator \<open>andthen\<close> is the idiom
    \<^verbatim>\<open>if (!f(x)) return false; g(x)\<close>.
\<close>

named_theorems mem_simps \<open>rewrite rules for loads and stores\<close>
named_theorems le_simps \<open>rewrite rules for little-endian encodings\<close>

type_synonym byte = "8 word"
type_synonym addr = int
type_synonym mem = "addr \<Rightarrow> byte"
type_synonym 's act = "'s \<Rightarrow> (bool \<times> 's) option"

abbreviation (input) NULL :: addr where "NULL \<equiv> 0"

section \<open>Loads and stores\<close>

fun loads :: "mem \<Rightarrow> addr \<Rightarrow> nat \<Rightarrow> byte list" where
  "loads m a 0 = []"
| "loads m a (Suc n) = m a # loads m (a + 1) n"

fun stores :: "mem \<Rightarrow> addr \<Rightarrow> byte list \<Rightarrow> mem" where
  "stores m a [] = m"
| "stores m a (b # bs) = stores (m(a := b)) (a + 1) bs"

fun le_bytes :: "nat \<Rightarrow> 'a::len word \<Rightarrow> byte list" where
  "le_bytes 0 w = []"
| "le_bytes (Suc n) w = ucast w # le_bytes n (drop_bit 8 w)"

fun of_le :: "byte list \<Rightarrow> 'a::len word" where
  "of_le [] = 0"
| "of_le (b # bs) = (ucast b OR push_bit 8 (of_le bs))"

definition ld16 :: "mem \<Rightarrow> addr \<Rightarrow> 16 word" where "ld16 m a = of_le (loads m a 2)"
definition ld32 :: "mem \<Rightarrow> addr \<Rightarrow> 32 word" where "ld32 m a = of_le (loads m a 4)"
definition ld64 :: "mem \<Rightarrow> addr \<Rightarrow> 64 word" where "ld64 m a = of_le (loads m a 8)"
definition ldptr :: "mem \<Rightarrow> addr \<Rightarrow> addr" where "ldptr m a = uint (ld64 m a)"

definition st16 :: "mem \<Rightarrow> addr \<Rightarrow> 16 word \<Rightarrow> mem" where "st16 m a v = stores m a (le_bytes 2 v)"
definition st32 :: "mem \<Rightarrow> addr \<Rightarrow> 32 word \<Rightarrow> mem" where "st32 m a v = stores m a (le_bytes 4 v)"
definition st64 :: "mem \<Rightarrow> addr \<Rightarrow> 64 word \<Rightarrow> mem" where "st64 m a v = stores m a (le_bytes 8 v)"
definition stptr :: "mem \<Rightarrow> addr \<Rightarrow> addr \<Rightarrow> mem" where "stptr m a p = st64 m a (word_of_int p)"

lemma length_loads [simp]: "length (loads m a n) = n"
  by (induction n arbitrary: a) auto

lemma length_le_bytes [simp]: "length (le_bytes n w) = n"
  by (induction n arbitrary: w) auto

lemma loads_nth: "i < n \<Longrightarrow> loads m a n ! i = m (a + int i)"
proof (induction n arbitrary: a i)
  case (Suc n)
  then show ?case by (cases i) (auto simp: algebra_simps)
qed simp

lemma loads_append: "loads m a (n + k) = loads m a n @ loads m (a + int n) k"
  by (induction n arbitrary: a) (auto simp: algebra_simps)

lemma loads_cong: "(\<And>x. a \<le> x \<Longrightarrow> x < a + int n \<Longrightarrow> m x = m' x) \<Longrightarrow> loads m a n = loads m' a n"
  by (induction n arbitrary: a) auto

lemma take_loads: "k \<le> n \<Longrightarrow> take k (loads m a n) = loads m a k"
  by (metis append_eq_conv_conj le_add_diff_inverse length_loads loads_append)

lemma stores_outside [mem_simps]:
  "x < a \<or> a + int (length bs) \<le> x \<Longrightarrow> stores m a bs x = m x"
  by (induction bs arbitrary: m a) auto

lemma stores_inside:
  "i < length bs \<Longrightarrow> stores m a bs (a + int i) = bs ! i"
proof (induction bs arbitrary: m a i)
  case (Cons b bs)
  show ?case
  proof (cases i)
    case 0
    then show ?thesis by (simp add: stores_outside)
  next
    case (Suc j)
    with Cons.prems have "j < length bs" by simp
    then have "stores (m(a := b)) (a + 1) bs ((a + 1) + int j) = bs ! j"
      by (rule Cons.IH)
    moreover have "a + int i = (a + 1) + int j" by (simp add: Suc)
    ultimately show ?thesis by (simp only: stores.simps Suc nth_Cons_Suc)
  qed
qed simp

lemma stores_append: "stores m a (xs @ ys) = stores (stores m a xs) (a + int (length xs)) ys"
  by (induction xs arbitrary: m a) (auto simp: algebra_simps)

lemma loads_stores_same [mem_simps]:
  "n = length bs \<Longrightarrow> loads (stores m a bs) a n = bs"
  by (rule nth_equalityI) (auto simp: loads_nth stores_inside)

lemma loads_stores_disjoint [mem_simps]:
  "a + int n \<le> b \<or> b + int (length bs) \<le> a \<Longrightarrow> loads (stores m b bs) a n = loads m a n"
  by (rule loads_cong) (auto simp: stores_outside)

lemma stores_loads [simp]: "stores m a (loads m a n) = m"
proof
  fix x
  show "stores m a (loads m a n) x = m x"
  proof (cases "a \<le> x \<and> x < a + int n")
    case True
    then have "x = a + int (nat (x - a))" and "nat (x - a) < n" by auto
    then show ?thesis
      by (metis length_loads loads_nth stores_inside)
  qed (auto simp: stores_outside)
qed

section \<open>Little-endian words\<close>

lemma bit_of_le:
  "bit (of_le bs :: 'a::len word) i \<longleftrightarrow>
     i < LENGTH('a) \<and> i div 8 < length bs \<and> bit (bs ! (i div 8)) (i mod 8)"
proof (induction bs arbitrary: i)
  case (Cons b bs)
  show ?case
  proof (cases "i < 8")
    case True
    then show ?thesis by (auto simp: bit_simps)
  next
    case False
    then have d: "i div 8 = Suc ((i - 8) div 8)" and m: "i mod 8 = (i - 8) mod 8"
      by (auto simp: le_div_geq le_mod_geq)
    have "\<not> bit b i" using False bit_imp_le_length[of b i] by auto
    then show ?thesis using False
      by (auto simp: bit_simps Cons.IH d m)
  qed
qed simp

lemma nth_le_bytes: "i < n \<Longrightarrow> le_bytes n w ! i = ucast (drop_bit (8 * i) w)"
proof (induction n arbitrary: w i)
  case (Suc n)
  then show ?case by (cases i) (auto simp: algebra_simps)
qed simp

lemma of_le_le_bytes [le_simps]:
  "of_le (le_bytes n (w :: 'a::len word)) = take_bit (8 * n) w"
proof (rule bit_word_eqI)
  fix i assume "i < LENGTH('a)"
  have "i div 8 < n \<longleftrightarrow> i < 8 * n" by auto
  moreover have "8 * (i div 8) + i mod 8 = i" by simp
  ultimately show "bit (of_le (le_bytes n w) :: 'a word) i \<longleftrightarrow> bit (take_bit (8 * n) w) i"
    using \<open>i < LENGTH('a)\<close> by (auto simp: bit_of_le nth_le_bytes bit_simps)
qed

lemma le_bytes_of_le [le_simps]:
  assumes "length bs = n" "8 * n \<le> LENGTH('a)"
  shows "le_bytes n (of_le bs :: 'a::len word) = bs"
proof (rule nth_equalityI)
  fix i assume "i < length (le_bytes n (of_le bs :: 'a word))"
  then have i: "i < n" by simp
  show "le_bytes n (of_le bs :: 'a word) ! i = bs ! i"
  proof (rule bit_word_eqI)
    fix k assume "k < LENGTH(8)"
    then have k: "k < 8" by simp
    have "(8 * i + k) div 8 = i" "(8 * i + k) mod 8 = k" "8 * i + k < LENGTH('a)"
      using k i assms(2) by auto
    then show "bit (le_bytes n (of_le bs :: 'a word) ! i) k \<longleftrightarrow> bit (bs ! i) k"
      using i k assms by (simp add: nth_le_bytes bit_simps bit_of_le)
  qed
qed (use assms in simp)

lemma ld16_st16 [mem_simps]: "ld16 (st16 m a v) a = v"
  by (simp add: ld16_def st16_def mem_simps le_simps take_bit_word_eq_self)

lemma ld32_st32 [mem_simps]: "ld32 (st32 m a v) a = v"
  by (simp add: ld32_def st32_def mem_simps le_simps take_bit_word_eq_self)

lemma ld64_st64 [mem_simps]: "ld64 (st64 m a v) a = v"
  by (simp add: ld64_def st64_def mem_simps le_simps take_bit_word_eq_self)

lemma ldptr_stptr: "0 \<le> p \<Longrightarrow> p < 2 ^ 64 \<Longrightarrow> ldptr (stptr m a p) a = p"
  by (simp add: ldptr_def stptr_def mem_simps uint_word_of_int_eq take_bit_int_eq_self)

lemma le_bytes_4:
  "le_bytes 4 w = [ucast w, ucast (drop_bit 8 w), ucast (drop_bit 16 w), ucast (drop_bit 24 w)]"
proof -
  have e: "(4::nat) = Suc (Suc (Suc (Suc 0)))" by simp
  show ?thesis unfolding e le_bytes.simps by simp
qed

lemma le_bytes_add: "le_bytes (n + k) w = le_bytes n w @ le_bytes k (drop_bit (8 * n) w)"
  by (induction n arbitrary: w) (auto simp: algebra_simps)

lemma le_bytes_8:
  "le_bytes 8 w =
     [ucast w, ucast (drop_bit 8 w), ucast (drop_bit 16 w), ucast (drop_bit 24 w),
      ucast (drop_bit 32 w), ucast (drop_bit 40 w), ucast (drop_bit 48 w), ucast (drop_bit 56 w)]"
  using le_bytes_add[of 4 4 w] by (simp add: le_bytes_4)

section \<open>Sequencing of fallible actions\<close>

definition andthen :: "(bool \<times> 's) option \<Rightarrow> 's act \<Rightarrow> (bool \<times> 's) option" where
  "andthen r k = (case r of None \<Rightarrow> None | Some (ok, s) \<Rightarrow> if ok then k s else Some (False, s))"

lemma andthen_simps [simp]:
  "andthen None k = None"
  "andthen (Some (True, s)) k = k s"
  "andthen (Some (False, s)) k = Some (False, s)"
  by (auto simp: andthen_def)

lemma andthen_assoc: "andthen (andthen r k) h = andthen r (\<lambda>s. andthen (k s) h)"
  by (auto simp: andthen_def split: option.splits)

lemma andthen_eq_Some:
  "andthen r k = Some (ok, s') \<longleftrightarrow>
     (\<exists>s. r = Some (True, s) \<and> k s = Some (ok, s')) \<or> (r = Some (False, s') \<and> \<not> ok)"
  by (auto simp: andthen_def split: option.splits if_splits)

lemma andthen_cong [fundef_cong]:
  "r = r' \<Longrightarrow> (\<And>s. r' = Some (True, s) \<Longrightarrow> k s = k' s) \<Longrightarrow> andthen r k = andthen r' k'"
  by (auto simp: andthen_def split: option.splits)

section \<open>Bits\<close>

lemma and_127: "(v :: 'a::len word) AND 127 = take_bit 7 v"
  by (simp add: take_bit_eq_mask mask_eq_exp_minus_1)

lemma and_255: "(v :: 'a::len word) AND 255 = take_bit 8 v"
  by (simp add: take_bit_eq_mask mask_eq_exp_minus_1)

lemma bit_128: "bit (128 :: int) n \<longleftrightarrow> n = 7"
  using bit_exp_iff[where 'a = int, of 7 n] by auto

lemma take_bit_small: "unat (w :: 'a::len word) < 2 ^ n \<Longrightarrow> take_bit n w = w"
  by (rule unsigned_word_eqI[where 'a = nat]) (simp add: unsigned_take_bit_eq take_bit_nat_eq_self)

lemma ucast_take_bit_8: "(ucast (take_bit 8 (v :: 'a::len word)) :: byte) = ucast v"
  by (rule bit_word_eqI) (auto simp: bit_simps)

section \<open>Words as numbers\<close>

lemma unat_bound_64: "unat (w :: 64 word) < 2 ^ 64"
  using unsigned_less[of w] by simp

lemma unat_bound_32: "unat (w :: 32 word) < 2 ^ 32"
  using unsigned_less[of w] by simp

lemma unat_bound_8: "unat (w :: 8 word) < 2 ^ 8"
  using unsigned_less[of w] by simp

lemma unat_ucast_32_64 [simp]: "unat (ucast (w :: 32 word) :: 64 word) = unat w"
  using unat_bound_32[of w] by (simp add: unsigned_ucast_eq take_bit_nat_eq_self)

lemma ucast_of_nat_64_8: "n < 2 ^ 64 \<Longrightarrow> (ucast (of_nat n :: 64 word) :: byte) = of_nat n"
  by (simp add: unsigned_of_nat take_bit_nat_eq_self)

lemma take_bit_7_nat: "take_bit 7 (v :: 64 word) = of_nat (unat v mod 128)"
  by (rule unsigned_word_eqI[where 'a = nat])
     (simp add: unsigned_take_bit_eq take_bit_eq_mod unsigned_of_nat unat_mod)

lemma unat_of_nat_64: "n < 2 ^ 64 \<Longrightarrow> unat (of_nat n :: 64 word) = n"
  by (simp add: unat_of_nat take_bit_nat_eq_self)

lemma unat_plus_64:
  "unat a + n < 2 ^ 64 \<Longrightarrow> unat (a + of_nat n :: 64 word) = unat a + n"
  by (simp add: unat_word_ariths unat_of_nat take_bit_nat_eq_self)

lemma unat_minus_le: "(b :: 'a::len word) \<le> a \<Longrightarrow> unat (a - b) = unat a - unat b"
  by (simp add: unat_sub)

end
