(* ===== verification/Pb_Types.thy ===== *)
theory Pb_Types
  imports Prelude
begin

text \<open>
  The constants, types and macros of \<^verbatim>\<open>nanopb/pb.h\<close>, in the configuration of the
  application's build (\<^verbatim>\<open>PB_FIELD_32BIT\<close>, \<^verbatim>\<open>PB_NO_PACKED_STRUCTS\<close>,
  \<^verbatim>\<open>PB_ENABLE_MALLOC\<close>; error messages on, custom streams on, 64-bit integers on).

  A field descriptor \<open>pb_field_t\<close> is a datatype with the members of the C struct. Its
  member \<open>ptr\<close> is a null pointer, the descriptor array of a submessage, or the bytes of a
  default value. A descriptor array is the list of its entries, with the terminator
  \<^verbatim>\<open>PB_LAST_FIELD\<close> as its last entry; reading past the list gives the terminator.
\<close>

section \<open>Constants\<close>

definition PB_MAX_REQUIRED_FIELDS :: "32 word" where [simp]: "PB_MAX_REQUIRED_FIELDS = 64"

type_synonym pb_type_t = "8 word"
type_synonym pb_size_t = "32 word"

definition PB_LTYPE_BOOL :: pb_type_t where [simp]: "PB_LTYPE_BOOL = 0x00"
definition PB_LTYPE_VARINT :: pb_type_t where [simp]: "PB_LTYPE_VARINT = 0x01"
definition PB_LTYPE_UVARINT :: pb_type_t where [simp]: "PB_LTYPE_UVARINT = 0x02"
definition PB_LTYPE_SVARINT :: pb_type_t where [simp]: "PB_LTYPE_SVARINT = 0x03"
definition PB_LTYPE_FIXED32 :: pb_type_t where [simp]: "PB_LTYPE_FIXED32 = 0x04"
definition PB_LTYPE_FIXED64 :: pb_type_t where [simp]: "PB_LTYPE_FIXED64 = 0x05"
definition PB_LTYPE_LAST_PACKABLE :: pb_type_t where [simp]: "PB_LTYPE_LAST_PACKABLE = 0x05"
definition PB_LTYPE_BYTES :: pb_type_t where [simp]: "PB_LTYPE_BYTES = 0x06"
definition PB_LTYPE_STRING :: pb_type_t where [simp]: "PB_LTYPE_STRING = 0x07"
definition PB_LTYPE_SUBMESSAGE :: pb_type_t where [simp]: "PB_LTYPE_SUBMESSAGE = 0x08"
definition PB_LTYPE_EXTENSION :: pb_type_t where [simp]: "PB_LTYPE_EXTENSION = 0x09"
definition PB_LTYPE_FIXED_LENGTH_BYTES :: pb_type_t where
  [simp]: "PB_LTYPE_FIXED_LENGTH_BYTES = 0x0A"
definition PB_LTYPE_MASK :: pb_type_t where [simp]: "PB_LTYPE_MASK = 0x0F"

definition PB_HTYPE_REQUIRED :: pb_type_t where [simp]: "PB_HTYPE_REQUIRED = 0x00"
definition PB_HTYPE_OPTIONAL :: pb_type_t where [simp]: "PB_HTYPE_OPTIONAL = 0x10"
definition PB_HTYPE_REPEATED :: pb_type_t where [simp]: "PB_HTYPE_REPEATED = 0x20"
definition PB_HTYPE_ONEOF :: pb_type_t where [simp]: "PB_HTYPE_ONEOF = 0x30"
definition PB_HTYPE_MASK :: pb_type_t where [simp]: "PB_HTYPE_MASK = 0x30"

definition PB_ATYPE_STATIC :: pb_type_t where [simp]: "PB_ATYPE_STATIC = 0x00"
definition PB_ATYPE_POINTER :: pb_type_t where [simp]: "PB_ATYPE_POINTER = 0x80"
definition PB_ATYPE_CALLBACK :: pb_type_t where [simp]: "PB_ATYPE_CALLBACK = 0x40"
definition PB_ATYPE_MASK :: pb_type_t where [simp]: "PB_ATYPE_MASK = 0xC0"

definition PB_ATYPE :: "pb_type_t \<Rightarrow> pb_type_t" where "PB_ATYPE x = x AND PB_ATYPE_MASK"
definition PB_HTYPE :: "pb_type_t \<Rightarrow> pb_type_t" where "PB_HTYPE x = x AND PB_HTYPE_MASK"
definition PB_LTYPE :: "pb_type_t \<Rightarrow> pb_type_t" where "PB_LTYPE x = x AND PB_LTYPE_MASK"

definition PB_SIZE_MAX :: pb_size_t where [simp]: "PB_SIZE_MAX = -1"

text \<open>The sizes of C types on the platform.\<close>

definition sizeof_ptr :: int where [simp]: "sizeof_ptr = 8"
definition offsetof_bytes :: nat where [simp]: "offsetof_bytes = 4"

text \<open>\<^verbatim>\<open>PB_BYTES_ARRAY_T_ALLOCSIZE\<close>: the size of a length-prefixed byte array.\<close>

definition PB_BYTES_ARRAY_T_ALLOCSIZE :: "32 word \<Rightarrow> 64 word" where
  "PB_BYTES_ARRAY_T_ALLOCSIZE n = ucast n + of_nat offsetof_bytes"

section \<open>Field descriptors\<close>

datatype pb_field_t =
  PbField (tag: pb_size_t) (ftype: pb_type_t) (data_offset: pb_size_t) (size_offset: "32 word")
    (data_size: pb_size_t) (array_size: pb_size_t) (ptr: pb_ptr)
and pb_ptr = NullPtr | SubFields (sub_fields: "pb_field_t list") | DefaultValue "byte list"

definition PB_LAST_FIELD :: pb_field_t where
  "PB_LAST_FIELD = PbField 0 0 0 0 0 0 NullPtr"

lemma PB_LAST_FIELD_sel [simp]:
  "tag PB_LAST_FIELD = 0" "ftype PB_LAST_FIELD = 0" "data_offset PB_LAST_FIELD = 0"
  "size_offset PB_LAST_FIELD = 0" "data_size PB_LAST_FIELD = 0" "array_size PB_LAST_FIELD = 0"
  "ptr PB_LAST_FIELD = NullPtr"
  by (simp_all add: PB_LAST_FIELD_def)

text \<open>The wire types of \<open>pb_wire_type_t\<close>. The decoder casts any three bits of a tag to
  this enum, so a wire type is kept as the number it has on the wire.\<close>

type_synonym pb_wire_type_t = "32 word"

definition PB_WT_VARINT :: pb_wire_type_t where [simp]: "PB_WT_VARINT = 0"
definition PB_WT_64BIT :: pb_wire_type_t where [simp]: "PB_WT_64BIT = 1"
definition PB_WT_STRING :: pb_wire_type_t where [simp]: "PB_WT_STRING = 2"
definition PB_WT_32BIT :: pb_wire_type_t where [simp]: "PB_WT_32BIT = 5"

section \<open>The layout of the user structures\<close>

text \<open>\<open>pb_callback_t\<close>: the function pointer at offset 0, the argument at offset 8.\<close>

definition callback_funcs :: "mem \<Rightarrow> addr \<Rightarrow> addr" where "callback_funcs m p = ldptr m p"
definition callback_arg :: "addr \<Rightarrow> addr" where "callback_arg p = p + 8"

text \<open>\<open>pb_extension_t\<close>: \<open>type\<close>, \<open>dest\<close>, \<open>next\<close>, \<open>found\<close>;
  \<open>pb_extension_type_t\<close>: \<open>decode\<close>, \<open>encode\<close>, \<open>arg\<close>.\<close>

definition ext_type :: "mem \<Rightarrow> addr \<Rightarrow> addr" where "ext_type m e = ldptr m e"
definition ext_dest_addr :: "addr \<Rightarrow> addr" where "ext_dest_addr e = e + 8"
definition ext_dest :: "mem \<Rightarrow> addr \<Rightarrow> addr" where "ext_dest m e = ldptr m (ext_dest_addr e)"
definition ext_next :: "mem \<Rightarrow> addr \<Rightarrow> addr" where "ext_next m e = ldptr m (e + 16)"
definition ext_found_addr :: "addr \<Rightarrow> addr" where "ext_found_addr e = e + 24"
definition exttype_decode :: "mem \<Rightarrow> addr \<Rightarrow> addr" where "exttype_decode m t = ldptr m t"
definition exttype_encode :: "mem \<Rightarrow> addr \<Rightarrow> addr" where "exttype_encode m t = ldptr m (t + 8)"
definition exttype_arg :: "mem \<Rightarrow> addr \<Rightarrow> addr" where "exttype_arg m t = ldptr m (t + 16)"

section \<open>The macros that fill in descriptors\<close>

text \<open>
  The macros read a C struct with \<open>offsetof\<close> and \<open>sizeof\<close>. Here a struct member is a
  record of what they read: its offset, its size, the size of \<^verbatim>\<open>m[0]\<close>, and the offset of
  the \<^verbatim>\<open>has_\<close>, \<^verbatim>\<open>_count\<close> or \<^verbatim>\<open>which_\<close> member that belongs to it.
\<close>

record member =
  m_offset :: int
  m_size :: int
  m_elem :: int
  m_sizeoff :: int

definition pb_membersize :: "member \<Rightarrow> pb_size_t" where "pb_membersize m = word_of_int (m_size m)"
definition pb_elemsize :: "member \<Rightarrow> pb_size_t" where "pb_elemsize m = word_of_int (m_elem m)"
definition pb_arraysize :: "member \<Rightarrow> pb_size_t" where
  "pb_arraysize m = word_of_int (m_size m div m_elem m)"
definition pb_delta :: "member \<Rightarrow> 32 word" where
  "pb_delta m = word_of_int (m_sizeoff m - m_offset m)"

definition PB_DATAOFFSET_FIRST :: "member \<Rightarrow> member \<Rightarrow> pb_size_t" where
  "PB_DATAOFFSET_FIRST m1 m2 = word_of_int (m_offset m1)"
definition PB_DATAOFFSET_OTHER :: "member \<Rightarrow> member \<Rightarrow> pb_size_t" where
  "PB_DATAOFFSET_OTHER m1 m2 = word_of_int (m_offset m1 - m_offset m2 - m_size m2)"
definition PB_DATAOFFSET_UNION :: "member \<Rightarrow> member \<Rightarrow> pb_size_t" where
  "PB_DATAOFFSET_UNION m1 m2 = PB_SIZE_MAX"

type_synonym pb_entry = "pb_size_t \<Rightarrow> member \<Rightarrow> pb_size_t \<Rightarrow> pb_type_t \<Rightarrow> pb_ptr \<Rightarrow> pb_field_t"

definition PB_REQUIRED_STATIC :: pb_entry where
  "PB_REQUIRED_STATIC t m fd ltype p =
     PbField t (PB_ATYPE_STATIC OR PB_HTYPE_REQUIRED OR ltype) fd 0 (pb_membersize m) 0 p"
definition PB_OPTIONAL_STATIC :: pb_entry where
  "PB_OPTIONAL_STATIC t m fd ltype p =
     PbField t (PB_ATYPE_STATIC OR PB_HTYPE_OPTIONAL OR ltype) fd (pb_delta m) (pb_membersize m) 0 p"
definition PB_SINGULAR_STATIC :: pb_entry where
  "PB_SINGULAR_STATIC t m fd ltype p =
     PbField t (PB_ATYPE_STATIC OR PB_HTYPE_OPTIONAL OR ltype) fd 0 (pb_membersize m) 0 p"
definition PB_REPEATED_STATIC :: pb_entry where
  "PB_REPEATED_STATIC t m fd ltype p =
     PbField t (PB_ATYPE_STATIC OR PB_HTYPE_REPEATED OR ltype) fd (pb_delta m)
       (pb_elemsize m) (pb_arraysize m) p"
definition PB_REQUIRED_POINTER :: pb_entry where
  "PB_REQUIRED_POINTER t m fd ltype p =
     PbField t (PB_ATYPE_POINTER OR PB_HTYPE_REQUIRED OR ltype) fd 0 (pb_elemsize m) 0 p"
definition PB_OPTIONAL_POINTER :: pb_entry where
  "PB_OPTIONAL_POINTER t m fd ltype p =
     PbField t (PB_ATYPE_POINTER OR PB_HTYPE_OPTIONAL OR ltype) fd 0 (pb_elemsize m) 0 p"
definition PB_SINGULAR_POINTER :: pb_entry where
  "PB_SINGULAR_POINTER t m fd ltype p =
     PbField t (PB_ATYPE_POINTER OR PB_HTYPE_OPTIONAL OR ltype) fd 0 (pb_elemsize m) 0 p"
definition PB_REPEATED_POINTER :: pb_entry where
  "PB_REPEATED_POINTER t m fd ltype p =
     PbField t (PB_ATYPE_POINTER OR PB_HTYPE_REPEATED OR ltype) fd (pb_delta m)
       (pb_elemsize m) 0 p"
definition PB_REQUIRED_CALLBACK :: pb_entry where
  "PB_REQUIRED_CALLBACK t m fd ltype p =
     PbField t (PB_ATYPE_CALLBACK OR PB_HTYPE_REQUIRED OR ltype) fd 0 (pb_membersize m) 0 p"
definition PB_OPTIONAL_CALLBACK :: pb_entry where
  "PB_OPTIONAL_CALLBACK t m fd ltype p =
     PbField t (PB_ATYPE_CALLBACK OR PB_HTYPE_OPTIONAL OR ltype) fd 0 (pb_membersize m) 0 p"
definition PB_SINGULAR_CALLBACK :: pb_entry where
  "PB_SINGULAR_CALLBACK t m fd ltype p =
     PbField t (PB_ATYPE_CALLBACK OR PB_HTYPE_OPTIONAL OR ltype) fd 0 (pb_membersize m) 0 p"
definition PB_REPEATED_CALLBACK :: pb_entry where
  "PB_REPEATED_CALLBACK t m fd ltype p =
     PbField t (PB_ATYPE_CALLBACK OR PB_HTYPE_REPEATED OR ltype) fd 0 (pb_membersize m) 0 p"
definition PB_OPTEXT_STATIC :: pb_entry where
  "PB_OPTEXT_STATIC t m fd ltype p =
     PbField t (PB_ATYPE_STATIC OR PB_HTYPE_REQUIRED OR ltype) 0 0 (pb_membersize m) 0 p"
definition PB_OPTEXT_POINTER :: pb_entry where "PB_OPTEXT_POINTER = PB_OPTIONAL_POINTER"
definition PB_OPTEXT_CALLBACK :: pb_entry where "PB_OPTEXT_CALLBACK = PB_OPTIONAL_CALLBACK"
definition PB_REPEATED_FIXED_COUNT :: pb_entry where
  "PB_REPEATED_FIXED_COUNT t m fd ltype p =
     PbField t (PB_ATYPE_STATIC OR PB_HTYPE_REPEATED OR ltype) fd 0
       (pb_elemsize m) (pb_arraysize m) p"
definition PB_ONEOF_STATIC :: pb_entry where
  "PB_ONEOF_STATIC t m fd ltype p =
     PbField t (PB_ATYPE_STATIC OR PB_HTYPE_ONEOF OR ltype) fd (pb_delta m) (pb_membersize m) 0 p"
definition PB_ONEOF_POINTER :: pb_entry where
  "PB_ONEOF_POINTER t m fd ltype p =
     PbField t (PB_ATYPE_POINTER OR PB_HTYPE_ONEOF OR ltype) fd (pb_delta m) (pb_elemsize m) 0 p"

section \<open>Types of the \<^verbatim>\<open>.proto\<close> language\<close>

datatype proto_type = BOOL | BYTES | DOUBLE | ENUM | UENUM | FIXED32 | FIXED64 | FLOAT
  | INT32 | INT64 | MESSAGE | SFIXED32 | SFIXED64 | SINT32 | SINT64 | STRING | UINT32 | UINT64
  | EXTENSION | FIXED_LENGTH_BYTES

fun PB_LTYPE_MAP :: "proto_type \<Rightarrow> pb_type_t" where
  "PB_LTYPE_MAP BOOL = PB_LTYPE_BOOL"
| "PB_LTYPE_MAP BYTES = PB_LTYPE_BYTES"
| "PB_LTYPE_MAP DOUBLE = PB_LTYPE_FIXED64"
| "PB_LTYPE_MAP ENUM = PB_LTYPE_VARINT"
| "PB_LTYPE_MAP UENUM = PB_LTYPE_UVARINT"
| "PB_LTYPE_MAP FIXED32 = PB_LTYPE_FIXED32"
| "PB_LTYPE_MAP FIXED64 = PB_LTYPE_FIXED64"
| "PB_LTYPE_MAP FLOAT = PB_LTYPE_FIXED32"
| "PB_LTYPE_MAP INT32 = PB_LTYPE_VARINT"
| "PB_LTYPE_MAP INT64 = PB_LTYPE_VARINT"
| "PB_LTYPE_MAP MESSAGE = PB_LTYPE_SUBMESSAGE"
| "PB_LTYPE_MAP SFIXED32 = PB_LTYPE_FIXED32"
| "PB_LTYPE_MAP SFIXED64 = PB_LTYPE_FIXED64"
| "PB_LTYPE_MAP SINT32 = PB_LTYPE_SVARINT"
| "PB_LTYPE_MAP SINT64 = PB_LTYPE_SVARINT"
| "PB_LTYPE_MAP STRING = PB_LTYPE_STRING"
| "PB_LTYPE_MAP UINT32 = PB_LTYPE_UVARINT"
| "PB_LTYPE_MAP UINT64 = PB_LTYPE_UVARINT"
| "PB_LTYPE_MAP EXTENSION = PB_LTYPE_EXTENSION"
| "PB_LTYPE_MAP FIXED_LENGTH_BYTES = PB_LTYPE_FIXED_LENGTH_BYTES"

text \<open>\<^verbatim>\<open>PB_FIELD(tag, type, rules, allocation, placement, message, field, prevfield, ptr)\<close>:
  the rule and allocation select the entry macro, the placement selects the offset macro.\<close>

definition PB_FIELD ::
  "pb_size_t \<Rightarrow> proto_type \<Rightarrow> pb_entry \<Rightarrow> (member \<Rightarrow> member \<Rightarrow> pb_size_t) \<Rightarrow> member \<Rightarrow> member \<Rightarrow>
    pb_ptr \<Rightarrow> pb_field_t" where
  "PB_FIELD t ty entry placement field prevfield p =
     entry t field (placement field prevfield) (PB_LTYPE_MAP ty) p"

section \<open>Lemmas on type codes\<close>

text \<open>The three parts of a type code do not overlap, so a code built by the entry macros
  gives them back.\<close>

lemma type_code_parts:
  assumes "a \<in> {PB_ATYPE_STATIC, PB_ATYPE_POINTER, PB_ATYPE_CALLBACK}"
    and "h \<in> {PB_HTYPE_REQUIRED, PB_HTYPE_OPTIONAL, PB_HTYPE_REPEATED, PB_HTYPE_ONEOF}"
  shows "PB_ATYPE (a OR h OR PB_LTYPE_MAP t) = a"
    and "PB_HTYPE (a OR h OR PB_LTYPE_MAP t) = h"
    and "PB_LTYPE (a OR h OR PB_LTYPE_MAP t) = PB_LTYPE_MAP t"
  using assms by (cases t; auto simp: PB_ATYPE_def PB_HTYPE_def PB_LTYPE_def)+

end
