(* ===== verification/Pb_Common.thy ===== *)
theory Pb_Common
  imports Pb_Types
begin

text \<open>
  The field iterator of \<^verbatim>\<open>nanopb/pb_common.c\<close>: it walks a descriptor array and, in step
  with it, the C structure the descriptors describe. The position is an index into the
  descriptor list. The member \<open>pSize\<close> is an address in memory, except in
  \<^verbatim>\<open>pb_decode_noinit\<close>, which points it to its local variable \<^verbatim>\<open>fixed_count_size\<close>.

  The lemmas show that a walk started by \<open>pb_field_iter_begin\<close> visits the entries before
  the terminator once each and in order, that \<open>pb_field_iter_find\<close> always stops and finds a
  field exactly when there is one, and that the addresses the iterator computes are the
  struct offsets the descriptor macros were given.
\<close>

datatype size_ref = InMem addr | FixedCountSize

record pb_field_iter_t =
  start :: "pb_field_t list"
  pos :: nat
  required_field_index :: "32 word"
  dest_struct :: addr
  pData :: addr
  pSize :: size_ref

definition field_at :: "pb_field_t list \<Rightarrow> nat \<Rightarrow> pb_field_t" where
  "field_at fs i = (if i < length fs then fs ! i else PB_LAST_FIELD)"

definition cur :: "pb_field_iter_t \<Rightarrow> pb_field_t" where
  "cur it = field_at (start it) (pos it)"

definition pb_field_iter_begin :: "pb_field_t list \<Rightarrow> addr \<Rightarrow> bool \<times> pb_field_iter_t" where
  "pb_field_iter_begin flds dest =
     (let f = field_at flds 0;
          d = (if dest = NULL then NULL else dest + uint (data_offset f));
          z = (if dest = NULL then NULL else d + sint (size_offset f))
      in (tag f \<noteq> 0,
          \<lparr>start = flds, pos = 0, required_field_index = 0, dest_struct = dest,
           pData = d, pSize = InMem z\<rparr>))"

text \<open>The room a field takes in the structure (the local \<^verbatim>\<open>prev_size\<close>).\<close>

definition field_span :: "pb_field_t \<Rightarrow> int" where
  "field_span f =
     (if PB_ATYPE (ftype f) = PB_ATYPE_STATIC \<and> PB_HTYPE (ftype f) = PB_HTYPE_REPEATED
      then uint (ucast (data_size f) * ucast (array_size f) :: 64 word)
      else if PB_ATYPE (ftype f) = PB_ATYPE_POINTER then sizeof_ptr
      else uint (data_size f))"

definition pb_field_iter_next :: "pb_field_iter_t \<Rightarrow> bool \<times> pb_field_iter_t" where
  "pb_field_iter_next it =
     (let prev_field = cur it in
      if tag prev_field = 0 then (False, it)
      else
        let it = it\<lparr>pos := Suc (pos it)\<rparr> in
        if tag (cur it) = 0
        then (False, snd (pb_field_iter_begin (start it) (dest_struct it)))
        else if PB_HTYPE (ftype prev_field) = PB_HTYPE_ONEOF \<and>
                PB_HTYPE (ftype (cur it)) = PB_HTYPE_ONEOF \<and>
                data_offset (cur it) = PB_SIZE_MAX
        then (True, it)
        else
          let prev_size = field_span prev_field;
              req = (if PB_HTYPE (ftype prev_field) = PB_HTYPE_REQUIRED
                     then required_field_index it + 1 else required_field_index it);
              d = pData it + prev_size + uint (data_offset (cur it))
          in (True, it\<lparr>required_field_index := req, pData := d,
                       pSize := InMem (d + sint (size_offset (cur it)))\<rparr>))"

text \<open>The loop of \<open>pb_field_iter_find\<close>; \<open>p0\<close> is the position it started from.\<close>

fun iter_find_loop ::
  "nat \<Rightarrow> nat \<Rightarrow> (pb_field_t \<Rightarrow> bool) \<Rightarrow> pb_field_iter_t \<Rightarrow> (bool \<times> pb_field_iter_t) option" where
  "iter_find_loop 0 p0 P it = None"
| "iter_find_loop (Suc n) p0 P it =
     (if P (cur it) then Some (True, it)
      else let it' = snd (pb_field_iter_next it)
           in if pos it' \<noteq> p0 then iter_find_loop n p0 P it' else Some (False, it'))"

definition tag_matches :: "32 word \<Rightarrow> pb_field_t \<Rightarrow> bool" where
  "tag_matches t f \<longleftrightarrow> tag f = t \<and> PB_LTYPE (ftype f) \<noteq> PB_LTYPE_EXTENSION"

definition pb_field_iter_find ::
  "32 word \<Rightarrow> pb_field_iter_t \<Rightarrow> (bool \<times> pb_field_iter_t) option" where
  "pb_field_iter_find t it =
     iter_find_loop (Suc (length (start it))) (pos it) (tag_matches t) it"

section \<open>The loop over all fields\<close>

text \<open>\<^verbatim>\<open>do { body } while (pb_field_iter_next(&iter));\<close> where the body may return false.\<close>

lemma iter_next_True:
  "pb_field_iter_next it = (True, it') \<Longrightarrow>
     pos it' = Suc (pos it) \<and> start it' = start it \<and> pos it' < length (start it)"
  by (auto simp: pb_field_iter_next_def Let_def cur_def field_at_def PB_LAST_FIELD_def split: if_splits)

function fields_loop :: "(pb_field_iter_t \<Rightarrow> 's act) \<Rightarrow> pb_field_iter_t \<Rightarrow> 's act" where
  "fields_loop body it s =
     andthen (body it s)
       (\<lambda>s. case pb_field_iter_next it of
              (ok, it') \<Rightarrow> if ok then fields_loop body it' s else Some (True, s))"
  by pat_completeness auto
termination
  by (relation "measure (\<lambda>(body, it, s). length (start it) - pos it)")
     (auto dest!: iter_next_True[OF sym])

declare fields_loop.simps [simp del]

section \<open>The walk\<close>

definition nfields :: "pb_field_t list \<Rightarrow> nat" where
  "nfields fs = length (takeWhile (\<lambda>f. tag f \<noteq> 0) fs)"

text \<open>The iterator after \<open>i\<close> successful steps.\<close>

fun iter_at :: "pb_field_t list \<Rightarrow> addr \<Rightarrow> nat \<Rightarrow> pb_field_iter_t" where
  "iter_at fs d 0 = snd (pb_field_iter_begin fs d)"
| "iter_at fs d (Suc i) = snd (pb_field_iter_next (iter_at fs d i))"

lemma tag_field_at: "i < nfields fs \<Longrightarrow> tag (field_at fs i) \<noteq> 0"
proof -
  assume i: "i < nfields fs"
  then have "takeWhile (\<lambda>f. tag f \<noteq> 0) fs ! i = fs ! i" and "i < length fs"
    using length_takeWhile_le[of "\<lambda>f. tag f \<noteq> 0" fs]
    by (auto simp: nfields_def takeWhile_nth intro: less_le_trans)
  moreover have "takeWhile (\<lambda>f. tag f \<noteq> 0) fs ! i \<in> set (takeWhile (\<lambda>f. tag f \<noteq> 0) fs)"
    using i by (simp add: nfields_def)
  ultimately show ?thesis by (auto dest: set_takeWhileD simp: field_at_def)
qed

lemma tag_field_at_nfields [simp]: "tag (field_at fs (nfields fs)) = 0"
  using nth_length_takeWhile[of "\<lambda>f. tag f \<noteq> 0" fs] by (auto simp: field_at_def nfields_def)

lemma tag_field_at_0: "tag (field_at fs 0) \<noteq> 0 \<Longrightarrow> 0 < nfields fs"
  by (rule gr0I) (metis tag_field_at_nfields)

lemma nfields_le: "nfields fs \<le> length fs"
  by (simp add: nfields_def length_takeWhile_le)

lemma iter_begin_start [simp]:
  "start (snd (pb_field_iter_begin fs d)) = fs" "pos (snd (pb_field_iter_begin fs d)) = 0"
  "dest_struct (snd (pb_field_iter_begin fs d)) = d"
  "fst (pb_field_iter_begin fs d) = (0 < nfields fs)"
  using tag_field_at[of 0 fs] tag_field_at_0
  by (auto simp: pb_field_iter_begin_def Let_def)

lemma iter_next_frame [simp]:
  "start (snd (pb_field_iter_next it)) = start it"
  "dest_struct (snd (pb_field_iter_next it)) = dest_struct it"
  by (auto simp: pb_field_iter_next_def Let_def)

lemma iter_at_start [simp]: "start (iter_at fs d i) = fs" "dest_struct (iter_at fs d i) = d"
  by (induction i) auto

lemma iter_next_more:
  assumes "tag (cur it) \<noteq> 0" "tag (field_at (start it) (Suc (pos it))) \<noteq> 0"
  shows "fst (pb_field_iter_next it)" "pos (snd (pb_field_iter_next it)) = Suc (pos it)"
  using assms by (auto simp: pb_field_iter_next_def Let_def cur_def)

lemma iter_next_wrap:
  assumes "tag (cur it) \<noteq> 0" "tag (field_at (start it) (Suc (pos it))) = 0"
  shows "pb_field_iter_next it = (False, iter_at (start it) (dest_struct it) 0)"
  using assms by (auto simp: pb_field_iter_next_def Let_def cur_def)

lemma pos_iter_at: "i < nfields fs \<Longrightarrow> pos (iter_at fs d i) = i"
proof (induction i)
  case (Suc i)
  then have "pos (iter_at fs d i) = i" by simp
  with Suc.prems tag_field_at[of i fs] tag_field_at[of "Suc i" fs] show ?case
    by (simp add: iter_next_more cur_def)
qed simp

lemma cur_iter_at: "i < nfields fs \<Longrightarrow> cur (iter_at fs d i) = field_at fs i"
  by (simp add: cur_def pos_iter_at)

lemma cur_iter_at_tag: "i < nfields fs \<Longrightarrow> tag (cur (iter_at fs d i)) \<noteq> 0"
  by (simp add: cur_iter_at tag_field_at)

lemma iter_next_at:
  assumes "i < nfields fs"
  shows "pb_field_iter_next (iter_at fs d i) =
    (if Suc i < nfields fs then (True, iter_at fs d (Suc i)) else (False, iter_at fs d 0))"
proof (cases "Suc i < nfields fs")
  case True
  with assms show ?thesis
    using iter_next_more[of "iter_at fs d i"] tag_field_at[of "Suc i" fs]
    by (simp add: cur_iter_at_tag pos_iter_at prod_eq_iff)
next
  case False
  with assms have "Suc i = nfields fs" by simp
  then have "tag (field_at fs (Suc i)) = 0" by simp
  with assms False show ?thesis
    using iter_next_wrap[of "iter_at fs d i"] by (simp add: cur_iter_at_tag pos_iter_at)
qed

text \<open>A sequence of actions, stopped by the first that fails.\<close>

fun seq_acts :: "'s act list \<Rightarrow> 's act" where
  "seq_acts [] = (\<lambda>s. Some (True, s))"
| "seq_acts (a # as) = (\<lambda>s. andthen (a s) (seq_acts as))"

lemma seq_acts_append: "seq_acts (xs @ ys) = (\<lambda>s. andthen (seq_acts xs s) (seq_acts ys))"
  by (induction xs) (auto simp: andthen_assoc)

text \<open>
  The interface of an effect that composes: \<open>eff f xs\<close> says what an action \<open>f\<close> adds to a
  trace. Doing nothing adds nothing, and doing one thing after another appends.
\<close>

locale sequential_output =
  fixes eff :: "'s act \<Rightarrow> 'a list \<Rightarrow> bool"
  assumes eff_skip: "eff (\<lambda>s. Some (True, s)) []"
    and eff_andthen: "eff f xs \<Longrightarrow> eff g ys \<Longrightarrow> eff (\<lambda>s. andthen (f s) g) (xs @ ys)"
begin

lemma eff_seq: "list_all2 eff fs xss \<Longrightarrow> eff (seq_acts fs) (concat xss)"
proof (induction fs xss rule: list_all2_induct)
  case Nil
  show ?case by (simp add: eff_skip)
next
  case (Cons f fs xs xss)
  then show ?case by (simp add: eff_andthen)
qed

lemma eff_seq_map:
  assumes "\<And>x. x \<in> set zs \<Longrightarrow> eff (body x) (out x)"
  shows "eff (seq_acts (map body zs)) (concat (map out zs))"
  by (rule eff_seq) (use assms in \<open>auto simp: list_all2_conv_all_nth\<close>)

end

lemma fields_loop_from:
  "i < nfields fs \<Longrightarrow>
   fields_loop body (iter_at fs d i) s =
     seq_acts (map (\<lambda>j. body (iter_at fs d j)) [i..<nfields fs]) s"
proof (induction "nfields fs - i" arbitrary: i s)
  case 0
  then show ?case by simp
next
  case (Suc k)
  show ?case
  proof (cases "Suc i < nfields fs")
    case True
    with Suc show ?thesis
      by (subst fields_loop.simps) (simp add: iter_next_at upt_conv_Cons del: iter_at.simps)
  next
    case False
    with Suc.prems have "Suc i = nfields fs" by simp
    then have "[i..<nfields fs] = [i]" using Suc.prems by (simp add: upt_conv_Cons)
    with False Suc.prems show ?thesis
      by (subst fields_loop.simps) (simp add: iter_next_at del: iter_at.simps)
  qed
qed

lemma fields_loop_walk:
  "0 < nfields fs \<Longrightarrow>
   fields_loop body (snd (pb_field_iter_begin fs d)) s =
     seq_acts (map (\<lambda>j. body (iter_at fs d j)) [0..<nfields fs]) s"
  using fields_loop_from[of 0 fs body d s] by simp

section \<open>Finding a field\<close>

lemma iter_find_loop_walk:
  assumes "i < nfields fs" "0 < k" "k \<le> nfields fs" "(i + k) mod nfields fs = p0" "k \<le> fuel"
  shows "(\<exists>q. q < nfields fs \<and> P (field_at fs q) \<and>
           iter_find_loop fuel p0 P (iter_at fs d i) = Some (True, iter_at fs d q)) \<or>
         ((\<forall>j<k. \<not> P (field_at fs ((i + j) mod nfields fs))) \<and>
           iter_find_loop fuel p0 P (iter_at fs d i) = Some (False, iter_at fs d p0))"
  using assms
proof (induction fuel arbitrary: i k)
  case 0
  then show ?case by simp
next
  case (Suc fuel)
  let ?n = "nfields fs" and ?it = "iter_at fs d i"
  let ?i' = "(i + 1) mod ?n"
  show ?case
  proof (cases "P (field_at fs i)")
    case True
    with Suc.prems show ?thesis by (auto simp: cur_iter_at)
  next
    case False
    have i': "?i' < ?n" using Suc.prems by simp
    have nx: "snd (pb_field_iter_next ?it) = iter_at fs d ?i'"
    proof (cases "Suc i < ?n")
      case True
      with Suc.prems show ?thesis by (simp add: iter_next_at del: iter_at.simps)
    next
      case False
      with Suc.prems have "Suc i = ?n" by simp
      with Suc.prems show ?thesis by (simp add: iter_next_at del: iter_at.simps)
    qed
    have unf: "iter_find_loop (Suc fuel) p0 P ?it =
        (if ?i' \<noteq> p0 then iter_find_loop fuel p0 P (iter_at fs d ?i')
         else Some (False, iter_at fs d ?i'))"
      using False Suc.prems(1) i' by (simp add: cur_iter_at nx pos_iter_at Let_def)
    show ?thesis
    proof (cases "k = 1")
      case True
      with Suc.prems(4) have "?i' = p0" by simp
      with unf False True Suc.prems(1) show ?thesis by simp
    next
      case k1: False
      have ne: "?i' \<noteq> p0"
      proof
        assume "?i' = p0"
        with Suc.prems(4) have "(i + 1) mod ?n = (i + k) mod ?n" by simp
        then have "?n dvd (i + k) - (i + 1)"
          using Suc.prems(2) by (intro mod_eq_dvd_iff_nat[THEN iffD1]) auto
        then have "?n dvd k - 1" by simp
        moreover have "0 < k - 1" "k - 1 < ?n" using k1 Suc.prems by auto
        ultimately show False by (auto dest: dvd_imp_le)
      qed
      have m: "(?i' + j) mod ?n = (i + Suc j) mod ?n" for j
        by (simp add: mod_simps)
      have e: "(?i' + (k - 1)) mod ?n = p0"
        using Suc.prems(2,4) m[of "k - 1"] by simp
      have nk: "\<not> P (field_at fs ((i + j) mod ?n))"
        if h: "\<forall>j<k - 1. \<not> P (field_at fs ((?i' + j) mod ?n))" and "j < k" for j
      proof (cases j)
        case 0
        then show ?thesis using False Suc.prems(1) by simp
      next
        case (Suc j')
        with that(2) have "j' < k - 1" by simp
        with h have "\<not> P (field_at fs ((?i' + j') mod ?n))" by blast
        then show ?thesis by (simp only: m Suc not_False_eq_True)
      qed
      from Suc.IH[OF i' _ _ e] k1 Suc.prems unf ne nk show ?thesis by auto
    qed
  qed
qed

lemma iter_find_loop_correct:
  assumes "i < nfields fs" "nfields fs \<le> fuel"
  shows "\<exists>found q. q < nfields fs \<and>
           iter_find_loop fuel i P (iter_at fs d i) = Some (found, iter_at fs d q) \<and>
           (found \<longleftrightarrow> (\<exists>j<nfields fs. P (field_at fs j))) \<and>
           (if found then P (field_at fs q) else q = i)"
proof -
  let ?n = "nfields fs"
  have "(i + ?n) mod ?n = i" using assms(1) by simp
  from iter_find_loop_walk[OF assms(1) _ _ this, of fuel P d] assms
  consider (found) q where "q < ?n" "P (field_at fs q)"
      "iter_find_loop fuel i P (iter_at fs d i) = Some (True, iter_at fs d q)"
    | (none) "\<forall>j<?n. \<not> P (field_at fs ((i + j) mod ?n))"
      "iter_find_loop fuel i P (iter_at fs d i) = Some (False, iter_at fs d i)"
    by auto
  then show ?thesis
  proof cases
    case found
    then show ?thesis by (intro exI[of _ True] exI[of _ q]) auto
  next
    case none
    have "\<not> P (field_at fs j)" if "j < ?n" for j
    proof -
      have "(i + (j + ?n - i) mod ?n) mod ?n = (i + (j + ?n - i)) mod ?n"
        by (simp add: mod_simps)
      also have "\<dots> = j" using that assms(1) by simp
      finally show ?thesis using none(1) that
        by (metis mod_less_divisor gr_implies_not0 neq0_conv)
    qed
    with none assms(1) show ?thesis by auto
  qed
qed

section \<open>The addresses of the walk\<close>

text \<open>
  \<open>placed f m g k\<close>: the entry \<open>g\<close> of member \<open>k\<close> follows the entry \<open>f\<close> of member
  \<open>m\<close> as the macros put it: with the gap between the two members, or in the same union.
\<close>

definition placed :: "pb_field_t \<Rightarrow> member \<Rightarrow> pb_field_t \<Rightarrow> member \<Rightarrow> bool" where
  "placed f m g k \<longleftrightarrow>
     (if PB_HTYPE (ftype f) = PB_HTYPE_ONEOF \<and> PB_HTYPE (ftype g) = PB_HTYPE_ONEOF \<and>
         data_offset g = PB_SIZE_MAX
      then m_offset k = m_offset m
      else data_offset g = PB_DATAOFFSET_OTHER k m \<and> field_span f = m_size m \<and>
           m_offset m + m_size m \<le> m_offset k \<and> 0 \<le> m_offset m \<and> 0 \<le> m_size m \<and>
           m_offset k < 2 ^ 31)"

definition layout_ok :: "pb_field_t list \<Rightarrow> member list \<Rightarrow> bool" where
  "layout_ok fs ms \<longleftrightarrow>
     length ms = nfields fs \<and>
     (ms = [] \<or> data_offset (field_at fs 0) = PB_DATAOFFSET_FIRST (hd ms) (hd ms) \<and>
                0 \<le> m_offset (hd ms) \<and> m_offset (hd ms) < 2 ^ 31) \<and>
     list_all (\<lambda>i. placed (field_at fs i) (ms ! i) (field_at fs (Suc i)) (ms ! Suc i))
       [0..<length ms - 1]"

lemma uint_dataoffset_other:
  assumes "m_offset m + m_size m \<le> m_offset k" "0 \<le> m_offset m" "0 \<le> m_size m"
    and "m_offset k < 2 ^ 31"
  shows "uint (PB_DATAOFFSET_OTHER k m) = m_offset k - m_offset m - m_size m"
  unfolding PB_DATAOFFSET_OTHER_def uint_word_of_int_eq
  using assms by (intro take_bit_int_eq_self) auto

lemma pData_next:
  assumes "tag (cur it) \<noteq> 0" "tag (field_at (start it) (Suc (pos it))) \<noteq> 0"
    and "placed (cur it) m (field_at (start it) (Suc (pos it))) k"
    and "pData it = d + m_offset m"
  shows "pData (snd (pb_field_iter_next it)) = d + m_offset k"
  using assms
  by (auto simp: pb_field_iter_next_def Let_def cur_def placed_def uint_dataoffset_other
      split: if_splits)

lemma iter_at_offset:
  assumes "layout_ok fs ms" "d \<noteq> 0" "i < nfields fs"
  shows "pData (iter_at fs d i) = d + m_offset (ms ! i)"
  using assms(3)
proof (induction i)
  case 0
  then have "ms \<noteq> []" using assms(1) by (auto simp: layout_ok_def)
  with assms(1,2) show ?case
    by (auto simp: layout_ok_def pb_field_iter_begin_def Let_def PB_DATAOFFSET_FIRST_def
        uint_word_of_int_eq take_bit_int_eq_self hd_conv_nth)
next
  case (Suc i)
  then have ih: "pData (iter_at fs d i) = d + m_offset (ms ! i)" by simp
  have "placed (field_at fs i) (ms ! i) (field_at fs (Suc i)) (ms ! Suc i)"
    using assms(1) Suc.prems by (auto simp: layout_ok_def list_all_iff)
  with Suc.prems ih show ?case
    using pData_next[of "iter_at fs d i" "ms ! i" "ms ! Suc i" d] tag_field_at[of "Suc i" fs]
    by (simp add: cur_iter_at pos_iter_at tag_field_at)
qed

end
