(* ===== verification/Varint.thy ===== *)
theory Varint
  imports Prelude
begin

text \<open>
  The varint format, which nanopb and leveldb share: \<open>vbytes n\<close> is the reference for the
  bytes of the number \<open>n\<close>, and the lemmas are the arithmetic of one step of a loop that
  writes or reads seven bits at a time.
\<close>

section \<open>The format\<close>

text \<open>The wire format of an unsigned number: base 128, least significant group first, the
  top bit of every byte but the last set.\<close>

fun vbytes :: "nat \<Rightarrow> byte list" where
  "vbytes n = (if n < 128 then [of_nat n] else of_nat (n mod 128 + 128) # vbytes (n div 128))"

declare vbytes.simps [simp del]

lemma vbytes_nonempty [simp]: "vbytes n \<noteq> []"
  by (subst vbytes.simps) simp

lemma length_vbytes_le: "n < 2 ^ (7 * k) \<Longrightarrow> 0 < k \<Longrightarrow> length (vbytes n) \<le> k"
proof (induction k arbitrary: n)
  case (Suc k)
  show ?case
  proof (cases "n < 128")
    case True
    then show ?thesis by (subst vbytes.simps) simp
  next
    case False
    then have "0 < k" using Suc.prems by (cases k) auto
    moreover have "n div 128 < 2 ^ (7 * k)"
      using Suc.prems(1) by (simp add: less_mult_imp_div_less power_add mult.commute)
    ultimately have "length (vbytes (n div 128)) \<le> k" by (rule Suc.IH[rotated])
    then show ?thesis using False by (subst vbytes.simps) simp
  qed
qed simp

lemma length_vbytes_64: "length (vbytes (unat (v :: 64 word))) \<le> 10"
  by (rule length_vbytes_le) (use unat_bound_64[of v] in auto)

section \<open>One step of a reader\<close>

lemma or_push_bit: "unat (r :: 'a::len word) < 2 ^ j \<Longrightarrow> r OR push_bit j w = r + push_bit j w"
proof (rule disjunctive_add[symmetric])
  fix i assume "unat r < 2 ^ j"
  then have "take_bit j r = r" by (rule take_bit_small)
  then have "bit r i \<Longrightarrow> i < j" by (metis bit_take_bit_iff)
  then show "\<not> bit r i \<or> \<not> bit (push_bit j w) i" by (auto simp: bit_simps)
qed

lemma byte_low: "x < 256 \<Longrightarrow> (of_nat x :: byte) AND 0x7F = of_nat (x mod 128)"
  unfolding and_127
  by (rule unsigned_word_eqI[where 'a = nat])
     (simp add: unsigned_take_bit_eq unsigned_of_nat take_bit_eq_mod unat_mod)

lemma byte_high: "x < 256 \<Longrightarrow> (of_nat x :: byte) AND 0x80 = 0 \<longleftrightarrow> x < 128"
proof -
  assume x: "x < 256"
  have "(of_nat x :: byte) AND 2 ^ 7 = 0 \<longleftrightarrow> \<not> bit (of_nat x :: byte) 7"
    by (rule and_exp_eq_0_iff_not_bit)
  also have "bit (of_nat x :: byte) 7 \<longleftrightarrow> bit x 7" by (simp add: bit_simps)
  also have "\<dots> \<longleftrightarrow> \<not> x < 128"
  proof -
    have "x div 128 < 2" using x by (simp add: less_mult_imp_div_less)
    then have "odd (x div 128) \<longleftrightarrow> x div 128 = 1" by (auto elim: oddE)
    also have "\<dots> \<longleftrightarrow> \<not> x < 128" using x by auto
    finally show ?thesis by (simp add: bit_iff_odd)
  qed
  finally show ?thesis by simp
qed

lemma vbytes_Cons:
  "128 \<le> n \<Longrightarrow> vbytes n = of_nat (n mod 128 + 128) # vbytes (n div 128)"
  "n < 128 \<Longrightarrow> vbytes n = [of_nat n]"
  by (subst vbytes.simps, simp)+

lemma unat_push_bit_small:
  assumes "x * 2 ^ j < 2 ^ LENGTH('a)"
  shows "unat (push_bit j (of_nat x) :: 'a::len word) = x * 2 ^ j"
proof -
  have "push_bit j (of_nat x) = (of_nat (x * 2 ^ j) :: 'a word)"
    by (simp add: push_bit_eq_mult)
  then show ?thesis using assms by (simp add: unat_of_nat take_bit_nat_eq_self del: of_nat_mult)
qed

text \<open>One step of the two loops: adding the next seven bits.\<close>

lemma varint_step:
  assumes r: "unat (r :: 'a::len word) < 2 ^ j" and x: "x < 128"
    and lt: "x * 2 ^ j < 2 ^ LENGTH('a)" and j: "j \<le> LENGTH('a)"
  shows "unat (r OR push_bit j (of_nat x)) = unat r + x * 2 ^ j"
    and "unat (r OR push_bit j (of_nat x)) < 2 ^ (j + 7)"
proof -
  have p: "(2::nat) ^ LENGTH('a) = 2 ^ (LENGTH('a) - j) * 2 ^ j" using j by (simp flip: power_add)
  with lt have "x < 2 ^ (LENGTH('a) - j)" by simp
  then have "(x + 1) * 2 ^ j \<le> 2 ^ (LENGTH('a) - j) * 2 ^ j" by (intro mult_right_mono) auto
  then have "unat r + x * 2 ^ j < 2 ^ LENGTH('a)" using r p by simp
  then show u: "unat (r OR push_bit j (of_nat x)) = unat r + x * 2 ^ j"
    using or_push_bit[OF r] unat_push_bit_small[OF lt]
    by (simp add: unat_word_ariths unsigned_of_nat)
  have "unat r + x * 2 ^ j < (x + 1) * 2 ^ j" using r by simp
  also have "\<dots> \<le> 128 * 2 ^ j" using x by (intro mult_right_mono) auto
  finally show "unat (r OR push_bit j (of_nat x)) < 2 ^ (j + 7)" using u by (simp add: power_add)
qed

lemma len64: "LENGTH(64) = 64" by simp
lemma len32: "LENGTH(32) = 32" by simp

lemma unat_of_nat_8: "n < 256 \<Longrightarrow> unat (of_nat n :: byte) = n"
  by (simp add: unat_of_nat take_bit_nat_eq_self)

lemma ucast_of_nat_8: "n < 256 \<Longrightarrow> (ucast (of_nat n :: byte) :: 'a::len word) = of_nat n"
  by (simp add: unsigned_of_nat take_bit_nat_eq_self)

lemma mult_split_128: "n * 2 ^ j = (n mod 128) * 2 ^ j + (n div 128) * 2 ^ (j + 7)" for n :: nat
proof -
  have "n * 2 ^ j = (n mod 128 + n div 128 * 128) * 2 ^ j" by simp
  then show ?thesis by (simp only: add_mult_distrib power_add) simp
qed

end
