(* ===== verification/Pb_Write.thy ===== *)
theory Pb_Write
  imports Pb_Common Varint
begin

text \<open>
  Output streams and the primitive encoders of \<^verbatim>\<open>nanopb/pb_encode.c\<close>.

  The encoder reads the message through \<^verbatim>\<open>const\<close> pointers and writes through the
  stream only, so the two memories are kept apart: \<open>env_mem\<close> is the memory of the message
  (never written) and \<open>os_out\<close> is the memory the stream writes to. The function pointers a
  user can install (stream callbacks, field callbacks, extension handlers) are numbers, and
  the record \<open>pb_enc_env\<close> says what each of them does: they are parameters of the model.

  The central notion is \<open>emits f bs\<close>: on a sizing stream and on a buffer stream the action
  \<open>f\<close> behaves exactly as writing the bytes \<open>bs\<close>, and when they do not fit it fails with
  ``stream full'' having written at most what fits. It is closed under sequencing, which is
  stated once in the locale \<open>sequential_output\<close>.
\<close>

section \<open>Streams\<close>

datatype ocallback = OC_NULL | OC_buf_write | OC_custom addr

record pb_ostream_t =
  os_callback :: ocallback
  os_state :: addr
  os_out :: mem
  max_size :: "64 word"
  bytes_written :: "64 word"
  os_errmsg :: "string option"

record pb_enc_env =
  env_mem :: mem
  env_write :: "addr \<Rightarrow> addr \<Rightarrow> mem \<Rightarrow> byte list \<Rightarrow> bool \<times> addr \<times> mem"
  env_encode :: "addr \<Rightarrow> pb_field_t \<Rightarrow> addr \<Rightarrow> pb_ostream_t act"
  env_ext_encode :: "addr \<Rightarrow> addr \<Rightarrow> pb_ostream_t act"
  env_ext_fields :: "addr \<Rightarrow> pb_field_t list"

definition OS_SET_ERROR :: "string \<Rightarrow> pb_ostream_t \<Rightarrow> pb_ostream_t" where
  "OS_SET_ERROR msg s =
     s\<lparr>os_errmsg := (case os_errmsg s of Some e \<Rightarrow> Some e | None \<Rightarrow> Some msg)\<rparr>"

definition OS_RETURN_ERROR :: "string \<Rightarrow> pb_ostream_t act" where
  "OS_RETURN_ERROR msg s = Some (False, OS_SET_ERROR msg s)"

definition PB_OSTREAM_SIZING :: pb_ostream_t where
  "PB_OSTREAM_SIZING = \<lparr>os_callback = OC_NULL, os_state = NULL, os_out = (\<lambda>_. 0),
     max_size = 0, bytes_written = 0, os_errmsg = None\<rparr>"

definition buf_write :: "byte list \<Rightarrow> 64 word \<Rightarrow> pb_ostream_t act" where
  "buf_write buf count s =
     Some (True, s\<lparr>os_state := os_state s + uint count,
                   os_out := stores (os_out s) (os_state s) (take (unat count) buf)\<rparr>)"

definition pb_ostream_from_buffer :: "mem \<Rightarrow> addr \<Rightarrow> 64 word \<Rightarrow> pb_ostream_t" where
  "pb_ostream_from_buffer m buf bufsize =
     \<lparr>os_callback = OC_buf_write, os_state = buf, os_out = m,
      max_size = bufsize, bytes_written = 0, os_errmsg = None\<rparr>"

text \<open>\<^verbatim>\<open>stream->callback(stream, buf, count)\<close>\<close>

definition ostream_callback :: "pb_enc_env \<Rightarrow> byte list \<Rightarrow> 64 word \<Rightarrow> pb_ostream_t act" where
  "ostream_callback E buf count s =
     (case os_callback s of
        OC_NULL \<Rightarrow> None
      | OC_buf_write \<Rightarrow> buf_write buf count s
      | OC_custom p \<Rightarrow>
          (case env_write E p (os_state s) (os_out s) (take (unat count) buf) of
             (ok, st, out) \<Rightarrow> Some (ok, s\<lparr>os_state := st, os_out := out\<rparr>)))"

definition pb_write :: "pb_enc_env \<Rightarrow> byte list \<Rightarrow> 64 word \<Rightarrow> pb_ostream_t act" where
  "pb_write E buf count s =
     (if count > 0 \<and> os_callback s \<noteq> OC_NULL
      then if bytes_written s + count < bytes_written s \<or> bytes_written s + count > max_size s
           then OS_RETURN_ERROR ''stream full'' s
           else case ostream_callback E buf count s of
                  None \<Rightarrow> None
                | Some (False, s) \<Rightarrow> OS_RETURN_ERROR ''io error'' s
                | Some (True, s) \<Rightarrow> Some (True, s\<lparr>bytes_written := bytes_written s + count\<rparr>)
      else Some (True, s\<lparr>bytes_written := bytes_written s + count\<rparr>))"

section \<open>Primitive encoders\<close>

text \<open>The loop of \<open>pb_encode_varint\<close>: the bytes it puts into \<^verbatim>\<open>buffer\<close>.\<close>

function varint_loop :: "64 word \<Rightarrow> byte list" where
  "varint_loop value =
     (if value = 0 then []
      else ucast ((value AND 0x7F) OR 0x80) # varint_loop (drop_bit 7 value))"
  by pat_completeness auto
termination
proof (relation "measure unat")
  fix v :: "64 word" assume "v \<noteq> 0"
  then have "0 < unat v" by (simp add: unat_gt_0)
  then show "(drop_bit 7 v, v) \<in> measure unat"
    by (simp add: drop_bit_eq_div unat_div div_less_dividend)
qed simp

declare varint_loop.simps [simp del]

definition pb_encode_varint :: "pb_enc_env \<Rightarrow> 64 word \<Rightarrow> pb_ostream_t act" where
  "pb_encode_varint E value s =
     (if value \<le> 0x7F then pb_write E [ucast value] 1 s
      else let buffer = varint_loop value;
               buffer = buffer[length buffer - 1 := last buffer AND 0x7F]
           in pb_write E buffer (of_nat (length buffer)) s)"

definition zigzag :: "64 word \<Rightarrow> 64 word" where
  "zigzag value = (if sint value < 0 then NOT (push_bit 1 value) else push_bit 1 value)"

definition pb_encode_svarint :: "pb_enc_env \<Rightarrow> 64 word \<Rightarrow> pb_ostream_t act" where
  "pb_encode_svarint E value s = pb_encode_varint E (zigzag value) s"

definition pb_encode_fixed32 :: "pb_enc_env \<Rightarrow> addr \<Rightarrow> pb_ostream_t act" where
  "pb_encode_fixed32 E p s =
     (let val = ld32 (env_mem E) p in
      pb_write E [ucast (val AND 0xFF), ucast (drop_bit 8 val AND 0xFF),
                  ucast (drop_bit 16 val AND 0xFF), ucast (drop_bit 24 val AND 0xFF)] 4 s)"

definition pb_encode_fixed64 :: "pb_enc_env \<Rightarrow> addr \<Rightarrow> pb_ostream_t act" where
  "pb_encode_fixed64 E p s =
     (let val = ld64 (env_mem E) p in
      pb_write E [ucast (val AND 0xFF), ucast (drop_bit 8 val AND 0xFF),
                  ucast (drop_bit 16 val AND 0xFF), ucast (drop_bit 24 val AND 0xFF),
                  ucast (drop_bit 32 val AND 0xFF), ucast (drop_bit 40 val AND 0xFF),
                  ucast (drop_bit 48 val AND 0xFF), ucast (drop_bit 56 val AND 0xFF)] 8 s)"

definition pb_encode_tag :: "pb_enc_env \<Rightarrow> pb_wire_type_t \<Rightarrow> 32 word \<Rightarrow> pb_ostream_t act" where
  "pb_encode_tag E wiretype field_number s =
     pb_encode_varint E (push_bit 3 (ucast field_number) OR ucast wiretype) s"

text \<open>The \<^verbatim>\<open>switch\<close> of \<open>pb_encode_tag_for_field\<close>.\<close>

definition wiretype_of :: "pb_type_t \<Rightarrow> pb_wire_type_t option" where
  "wiretype_of l =
     (if l = PB_LTYPE_BOOL \<or> l = PB_LTYPE_VARINT \<or> l = PB_LTYPE_UVARINT \<or> l = PB_LTYPE_SVARINT
      then Some PB_WT_VARINT
      else if l = PB_LTYPE_FIXED32 then Some PB_WT_32BIT
      else if l = PB_LTYPE_FIXED64 then Some PB_WT_64BIT
      else if l = PB_LTYPE_BYTES \<or> l = PB_LTYPE_STRING \<or> l = PB_LTYPE_SUBMESSAGE \<or>
              l = PB_LTYPE_FIXED_LENGTH_BYTES then Some PB_WT_STRING
      else None)"

definition pb_encode_tag_for_field :: "pb_enc_env \<Rightarrow> pb_field_t \<Rightarrow> pb_ostream_t act" where
  "pb_encode_tag_for_field E f s =
     (case wiretype_of (PB_LTYPE (ftype f)) of
        None \<Rightarrow> OS_RETURN_ERROR ''invalid field type'' s
      | Some wiretype \<Rightarrow> pb_encode_tag E wiretype (tag f) s)"

definition pb_encode_string :: "pb_enc_env \<Rightarrow> addr \<Rightarrow> 64 word \<Rightarrow> pb_ostream_t act" where
  "pb_encode_string E buffer sz s =
     andthen (pb_encode_varint E sz s)
       (pb_write E (loads (env_mem E) buffer (unat sz)) sz)"

section \<open>What an action writes\<close>

text \<open>A stream is ready when no error is pending and it is a sizing stream, or a buffer
  stream within its bound. No C object is larger than \<open>PTRDIFF_MAX\<close>, so a buffer has less
  than \<open>2 ^ 63\<close> bytes.\<close>

definition os_ready :: "pb_ostream_t \<Rightarrow> bool" where
  "os_ready s \<longleftrightarrow> os_errmsg s = None \<and>
     (os_callback s = OC_NULL \<or>
      os_callback s = OC_buf_write \<and> bytes_written s \<le> max_size s \<and> unat (max_size s) < 2 ^ 63)"

definition os_append :: "pb_ostream_t \<Rightarrow> byte list \<Rightarrow> pb_ostream_t" where
  "os_append s bs =
     (let s' = s\<lparr>bytes_written := bytes_written s + of_nat (length bs)\<rparr> in
      if os_callback s = OC_NULL then s'
      else s'\<lparr>os_state := os_state s + int (length bs), os_out := stores (os_out s) (os_state s) bs\<rparr>)"

definition os_fits :: "pb_ostream_t \<Rightarrow> nat \<Rightarrow> bool" where
  "os_fits s n \<longleftrightarrow> os_callback s = OC_NULL \<or> unat (bytes_written s) + n \<le> unat (max_size s)"

definition emits :: "pb_ostream_t act \<Rightarrow> byte list \<Rightarrow> bool" where
  "emits f bs \<longleftrightarrow>
     (\<forall>s. os_ready s \<longrightarrow>
        (if os_fits s (length bs) then f s = Some (True, os_append s bs)
         else \<exists>k. os_fits s k \<and> k \<le> length bs \<and>
                f s = Some (False, (os_append s (take k bs))\<lparr>os_errmsg := Some ''stream full''\<rparr>)))"

lemma os_append_Nil [simp]: "os_append s [] = s"
  by (simp add: os_append_def Let_def)

lemma os_append_simps [simp]:
  "os_callback (os_append s bs) = os_callback s"
  "max_size (os_append s bs) = max_size s"
  "os_errmsg (os_append s bs) = os_errmsg s"
  "bytes_written (os_append s bs) = bytes_written s + of_nat (length bs)"
  by (auto simp: os_append_def Let_def)

lemma os_append_append: "os_append (os_append s xs) ys = os_append s (xs @ ys)"
  by (auto simp: os_append_def Let_def stores_append algebra_simps)

lemma unat_bytes_written:
  "os_callback s = OC_buf_write \<Longrightarrow> os_fits s n \<Longrightarrow>
   unat (bytes_written s + of_nat n) = unat (bytes_written s) + n"
  using unat_bound_64[of "max_size s"] by (auto simp: os_fits_def intro!: unat_plus_64)

lemma os_ready_append [simp]:
  "os_ready s \<Longrightarrow> os_fits s (length bs) \<Longrightarrow> os_ready (os_append s bs)"
  using unat_bytes_written[of s "length bs"]
  by (auto simp: os_ready_def word_le_nat_alt) (auto simp: os_fits_def)

lemma os_fits_append:
  assumes "os_ready s" "os_fits s (length xs)"
  shows "os_fits (os_append s xs) n \<longleftrightarrow> os_fits s (length xs + n)"
  using assms unat_bytes_written[of s "length xs"] by (auto simp: os_fits_def os_ready_def)

lemma emitsD:
  assumes "emits f bs" "os_ready s"
  shows "os_fits s (length bs) \<Longrightarrow> f s = Some (True, os_append s bs)"
    and "\<not> os_fits s (length bs) \<Longrightarrow> \<exists>k. os_fits s k \<and> k \<le> length bs \<and>
           f s = Some (False, (os_append s (take k bs))\<lparr>os_errmsg := Some ''stream full''\<rparr>)"
  using assms by (auto simp: emits_def)

lemma emits_cong: "(\<And>s. f s = g s) \<Longrightarrow> emits g bs \<Longrightarrow> emits f bs"
  by (simp add: emits_def)

lemma emits_skip: "emits (\<lambda>s. Some (True, s)) []"
  by (auto simp: emits_def os_fits_def os_ready_def word_le_nat_alt)

lemma emits_andthen:
  assumes f: "emits f xs" and g: "emits g ys"
  shows "emits (\<lambda>s. andthen (f s) g) (xs @ ys)"
  unfolding emits_def
proof (intro allI impI)
  fix s assume r: "os_ready s"
  let ?full = "\<lambda>s. s\<lparr>os_errmsg := Some ''stream full''\<rparr>"
  show "if os_fits s (length (xs @ ys)) then andthen (f s) g = Some (True, os_append s (xs @ ys))
    else \<exists>k. os_fits s k \<and> k \<le> length (xs @ ys) \<and>
           andthen (f s) g = Some (False, ?full (os_append s (take k (xs @ ys))))"
  proof (cases "os_fits s (length xs)")
    case True
    have r': "os_ready (os_append s xs)" using r True by simp
    note fits = os_fits_append[OF r True]
    note step = emitsD(1)[OF f r True]
    show ?thesis
    proof (cases "os_fits s (length xs + length ys)")
      case True
      with emitsD(1)[OF g r'] fits step show ?thesis by (simp add: os_append_append)
    next
      case False
      with emitsD(2)[OF g r'] fits obtain k where
        k: "os_fits s (length xs + k)" "k \<le> length ys"
           "g (os_append s xs) = Some (False, ?full (os_append (os_append s xs) (take k ys)))"
        by auto
      with step False show ?thesis
        by (auto simp: os_append_append intro!: exI[of _ "length xs + k"])
    qed
  next
    case False
    then have nf: "\<not> os_fits s (length (xs @ ys))" by (auto simp: os_fits_def)
    from emitsD(2)[OF f r False] obtain k where
      "os_fits s k" "k \<le> length xs" "f s = Some (False, ?full (os_append s (take k xs)))" by auto
    with nf show ?thesis by (auto intro!: exI[of _ k])
  qed
qed

interpretation em: sequential_output emits
  by unfold_locales (rule emits_skip, rule emits_andthen)

section \<open>What the primitive encoders write\<close>

lemma pb_write_full:
  "(bytes_written s + count < bytes_written s \<or> max_size s < bytes_written s + count) \<longleftrightarrow>
     unat (max_size s) < unat (bytes_written s) + unat count"
proof (cases "unat (bytes_written s) + unat count < 2 ^ 64")
  case True
  then have "unat (bytes_written s + count) = unat (bytes_written s) + unat count"
    by (simp add: unat_word_ariths)
  then show ?thesis by (auto simp: word_less_nat_alt)
next
  case False
  have w: "unat (bytes_written s + count) = unat (bytes_written s) + unat count - 2 ^ 64"
    using False unat_bound_64[of "bytes_written s"] unat_bound_64[of count]
    by (simp add: unat_word_ariths le_mod_geq)
  then have "bytes_written s + count < bytes_written s"
    using False unat_bound_64[of count] by (simp add: word_less_nat_alt)
  then show ?thesis using False unat_bound_64[of "max_size s"] by auto
qed

lemma emits_pb_write:
  assumes "unat count = length buf"
  shows "emits (pb_write E buf count) buf"
  unfolding emits_def
proof (intro allI impI)
  fix s assume r: "os_ready s"
  have c: "count = of_nat (length buf)" by (simp flip: assms)
  show "if os_fits s (length buf) then pb_write E buf count s = Some (True, os_append s buf)
    else \<exists>k. os_fits s k \<and> k \<le> length buf \<and> pb_write E buf count s =
           Some (False, (os_append s (take k buf))\<lparr>os_errmsg := Some ''stream full''\<rparr>)"
  proof (cases "0 < count \<and> os_callback s \<noteq> OC_NULL")
    case False
    then have "os_callback s = OC_NULL \<or> buf = []"
      using assms by (auto simp: word_less_nat_alt)
    then show ?thesis using r False c
      by (auto simp: pb_write_def os_append_def Let_def os_fits_def os_ready_def word_le_nat_alt)
  next
    case True
    then have b: "os_callback s = OC_buf_write" using r by (auto simp: os_ready_def)
    have full: "os_fits s (length buf) \<longleftrightarrow>
        \<not> (bytes_written s + count < bytes_written s \<or> max_size s < bytes_written s + count)"
      using b assms by (simp only: pb_write_full os_fits_def) auto
    show ?thesis
    proof (cases "os_fits s (length buf)")
      case fits: True
      with full True b show ?thesis
        by (simp add: pb_write_def ostream_callback_def buf_write_def os_append_def Let_def
            c assms[unfolded c] uint_nat)
    next
      case False
      with full True b r show ?thesis
        by (auto simp: pb_write_def OS_RETURN_ERROR_def OS_SET_ERROR_def os_ready_def os_fits_def
            word_le_nat_alt intro!: exI[of _ 0])
    qed
  qed
qed

definition clear_last :: "byte list \<Rightarrow> byte list" where
  "clear_last buf = buf[length buf - 1 := last buf AND 0x7F]"

lemma clear_last_Cons: "xs \<noteq> [] \<Longrightarrow> clear_last (x # xs) = x # clear_last xs"
  by (cases xs) (auto simp: clear_last_def)

lemma varint_head:
  fixes v :: "64 word"
  shows "(ucast ((v AND 0x7F) OR 0x80) :: byte) = of_nat (unat v mod 128 + 128)"
proof -
  have "(v AND 0x7F) OR 0x80 = (v AND 0x7F) + 0x80"
    by (rule disjunctive_add[symmetric]) (auto simp: and_127 bit_simps bit_128)
  moreover have "v AND 0x7F = of_nat (unat v mod 128)"
    by (simp only: and_127 take_bit_7_nat)
  ultimately have "(v AND 0x7F) OR 0x80 = of_nat (unat v mod 128 + 128)" by simp
  then have "(ucast ((v AND 0x7F) OR 0x80) :: byte) = ucast (of_nat (unat v mod 128 + 128) :: 64 word)"
    by (rule arg_cong)
  also have "\<dots> = of_nat (unat v mod 128 + 128)"
    by (rule ucast_of_nat_64_8) simp
  finally show ?thesis .
qed

lemma varint_last:
  fixes v :: "64 word"
  assumes "unat v < 128"
  shows "(ucast ((v AND 0x7F) OR 0x80) :: byte) AND 0x7F = of_nat (unat v)"
proof -
  have "(ucast ((v AND 0x7F) OR 0x80) :: byte) AND 0x7F = ucast (take_bit 7 v)"
    by (rule bit_word_eqI) (auto simp: and_127 bit_simps bit_128)
  also have "take_bit 7 v = v"
    using assms by (intro take_bit_small) simp
  finally show ?thesis by simp
qed

lemma clear_last_varint_loop: "v \<noteq> 0 \<Longrightarrow> clear_last (varint_loop v) = vbytes (unat v)"
proof (induction v rule: varint_loop.induct)
  case (1 v)
  have dv: "unat (drop_bit 7 v) = unat v div 128"
    by (simp add: drop_bit_eq_div unat_div)
  show ?case
  proof (cases "unat v < 128")
    case True
    then have "drop_bit 7 v = 0" using dv by (metis div_less unat_eq_zero)
    with 1 True show ?thesis
      by (subst varint_loop.simps, subst vbytes.simps)
         (simp add: varint_loop.simps[of 0] clear_last_def varint_last)
  next
    case False
    then have ne: "drop_bit 7 v \<noteq> 0" using dv by (metis div_eq_0_iff unat_0 zero_neq_numeral)
    then have "varint_loop (drop_bit 7 v) \<noteq> []" by (subst varint_loop.simps) simp
    with 1 ne False dv show ?thesis
      by (subst varint_loop.simps, subst vbytes.simps)
         (simp add: clear_last_Cons varint_head del: of_nat_add)
  qed
qed

lemma emits_varint: "emits (pb_encode_varint E v) (vbytes (unat v))"
proof (cases "v \<le> 0x7F")
  case True
  then have "unat v < 128" by (simp add: word_le_nat_alt)
  then have "vbytes (unat v) = [ucast v]" by (subst vbytes.simps) simp
  moreover have "emits (pb_write E [ucast v] 1) [ucast v]" by (rule emits_pb_write) simp
  ultimately show ?thesis
    using True by (auto simp: pb_encode_varint_def intro: emits_cong)
next
  case False
  then have "v \<noteq> 0" by auto
  then have e: "clear_last (varint_loop v) = vbytes (unat v)" by (rule clear_last_varint_loop)
  have "emits (pb_write E (vbytes (unat v)) (of_nat (length (vbytes (unat v))))) (vbytes (unat v))"
    using length_vbytes_64[of v] by (intro emits_pb_write) (simp add: unat_of_nat_64)
  moreover have "pb_encode_varint E v =
      pb_write E (vbytes (unat v)) (of_nat (length (vbytes (unat v))))"
  proof -
    have "length (varint_loop v) = length (vbytes (unat v))"
      using arg_cong[OF e, of length] by (simp add: clear_last_def)
    with False e show ?thesis
      by (auto simp: fun_eq_iff pb_encode_varint_def Let_def clear_last_def)
  qed
  ultimately show ?thesis by simp
qed

lemma emits_svarint: "emits (pb_encode_svarint E v) (vbytes (unat (zigzag v)))"
  by (rule emits_cong[OF _ emits_varint]) (simp add: pb_encode_svarint_def)

lemma emits_fixed32: "emits (pb_encode_fixed32 E p) (le_bytes 4 (ld32 (env_mem E) p))"
  by (rule emits_cong[OF _ emits_pb_write[of 4]])
     (auto simp: pb_encode_fixed32_def Let_def le_bytes_4 and_255 ucast_take_bit_8)

lemma emits_fixed64: "emits (pb_encode_fixed64 E p) (le_bytes 8 (ld64 (env_mem E) p))"
  by (rule emits_cong[OF _ emits_pb_write[of 8]])
     (auto simp: pb_encode_fixed64_def Let_def le_bytes_8 and_255 ucast_take_bit_8)

text \<open>The tag of a field: the field number and the wire type in one varint.\<close>

definition tag_bytes :: "pb_wire_type_t \<Rightarrow> 32 word \<Rightarrow> byte list" where
  "tag_bytes wt n = vbytes (unat n * 8 + unat wt)"

lemma tag_number:
  fixes wt n :: "32 word"
  assumes "unat wt < 8"
  shows "unat (push_bit 3 (ucast n) OR ucast wt :: 64 word) = unat n * 8 + unat wt"
    (is "unat (?a OR ?b) = _")
proof -
  have "take_bit 3 wt = wt" using assms by (intro take_bit_small) simp
  then have b: "\<not> bit wt i" if "3 \<le> i" for i
    using that by (metis bit_take_bit_iff not_le)
  have "?a OR ?b = ?a + ?b"
    by (rule disjunctive_add[symmetric]) (use b in \<open>auto simp: bit_simps\<close>)
  moreover have "unat ?a = unat n * 8"
    using unat_bound_32[of n] by (simp add: push_bit_eq_mult unat_word_ariths)
  ultimately show ?thesis
    using assms unat_bound_32[of n] by (simp add: unat_word_ariths)
qed

lemma emits_tag: "unat wt < 8 \<Longrightarrow> emits (pb_encode_tag E wt n) (tag_bytes wt n)"
  using emits_varint[of E "push_bit 3 (ucast n) OR ucast wt"]
  by (auto simp: tag_number tag_bytes_def pb_encode_tag_def intro: emits_cong)

lemma wiretype_of_bound: "wiretype_of l = Some wt \<Longrightarrow> unat wt < 8"
  by (auto simp: wiretype_of_def split: if_splits)

lemma emits_tag_for_field:
  "wiretype_of (PB_LTYPE (ftype f)) = Some wt \<Longrightarrow>
   emits (pb_encode_tag_for_field E f) (tag_bytes wt (tag f))"
  by (rule emits_cong[OF _ emits_tag]) (auto simp: pb_encode_tag_for_field_def wiretype_of_bound)

lemma emits_string:
  "emits (pb_encode_string E p sz) (vbytes (unat sz) @ loads (env_mem E) p (unat sz))"
  by (rule emits_cong[OF _ emits_andthen[OF emits_varint emits_pb_write]])
     (auto simp: pb_encode_string_def)

end
