(* ===== verification/Pb_Encode.thy ===== *)
theory Pb_Encode
  imports Pb_Write
begin

text \<open>
  The field and message encoders of \<^verbatim>\<open>nanopb/pb_encode.c\<close>.

  The C functions call each other in a cycle (a message encodes its fields, a submessage
  field encodes a message, once on a sizing stream and once for real). Each of them is one
  definition here; those on the cycle take the message encoder they call as the argument
  \<open>rec\<close>, and \<open>pb_encode\<close> closes the cycle with a fuel argument that bounds the nesting depth
  of messages and the length of extension lists. Running out of fuel is \<open>None\<close>.

  \<open>wire_message\<close> is the specification: the bytes of a message, as a function of its
  descriptors and its memory, with no stream in sight. The main lemma says that whenever the
  specification gives bytes, \<open>pb_encode\<close> emits exactly these, on a sizing stream and on a
  buffer.
\<close>

section \<open>Reading the message\<close>

definition safe_read_bool :: "mem \<Rightarrow> addr \<Rightarrow> bool" where
  "safe_read_bool m p \<longleftrightarrow> list_ex (\<lambda>b. b \<noteq> 0) (loads m p 1)"

text \<open>The \<^verbatim>\<open>if\<close> chains on \<open>data_size\<close> in \<open>pb_enc_varint\<close>, \<open>pb_enc_svarint\<close> and
  \<open>pb_enc_uvarint\<close>.\<close>

definition read_signed :: "mem \<Rightarrow> pb_field_t \<Rightarrow> addr \<Rightarrow> 64 word option" where
  "read_signed m f src =
     (if data_size f = 1 then Some (scast (m src))
      else if data_size f = 2 then Some (scast (ld16 m src))
      else if data_size f = 4 then Some (scast (ld32 m src))
      else if data_size f = 8 then Some (ld64 m src)
      else None)"

definition read_unsigned :: "mem \<Rightarrow> pb_field_t \<Rightarrow> addr \<Rightarrow> 64 word option" where
  "read_unsigned m f src =
     (if data_size f = 1 then Some (ucast (m src))
      else if data_size f = 2 then Some (ucast (ld16 m src))
      else if data_size f = 4 then Some (ucast (ld32 m src))
      else if data_size f = 8 then Some (ld64 m src)
      else None)"

text \<open>The \<^verbatim>\<open>strnlen\<close> loop of \<open>pb_enc_string\<close>.\<close>

function string_scan :: "mem \<Rightarrow> addr \<Rightarrow> 64 word \<Rightarrow> 64 word \<Rightarrow> 64 word" where
  "string_scan m p sz max_sz =
     (if sz < max_sz \<and> m p \<noteq> 0 then string_scan m (p + 1) (sz + 1) max_sz else sz)"
  by pat_completeness auto
termination
proof (relation "measure (\<lambda>(m, p, sz, max_sz). unat max_sz - unat sz)")
  fix m :: mem and p :: addr and sz max_sz :: "64 word"
  assume "sz < max_sz \<and> m p \<noteq> 0"
  then have "unat sz < unat max_sz" by (simp add: word_less_nat_alt)
  moreover have "unat (sz + 1) = unat sz + 1"
    using calculation unat_bound_64[of max_sz] by (simp add: unat_word_ariths)
  ultimately show "((m, p + 1, sz + 1, max_sz), m, p, sz, max_sz)
      \<in> measure (\<lambda>(m, p, sz, max_sz). unat max_sz - unat sz)" by simp
qed simp

declare string_scan.simps [simp del]

section \<open>Field encoders\<close>

type_synonym pb_encoder_t = "pb_field_t \<Rightarrow> addr \<Rightarrow> pb_ostream_t act"
type_synonym msg_encoder = "pb_field_t list \<Rightarrow> addr \<Rightarrow> pb_ostream_t act"

definition pb_enc_bool :: "pb_enc_env \<Rightarrow> pb_encoder_t" where
  "pb_enc_bool E f src s = pb_encode_varint E (if safe_read_bool (env_mem E) src then 1 else 0) s"

definition pb_enc_varint :: "pb_enc_env \<Rightarrow> pb_encoder_t" where
  "pb_enc_varint E f src s =
     (case read_signed (env_mem E) f src of
        None \<Rightarrow> OS_RETURN_ERROR ''invalid data_size'' s
      | Some value \<Rightarrow> pb_encode_varint E value s)"

definition pb_enc_uvarint :: "pb_enc_env \<Rightarrow> pb_encoder_t" where
  "pb_enc_uvarint E f src s =
     (case read_unsigned (env_mem E) f src of
        None \<Rightarrow> OS_RETURN_ERROR ''invalid data_size'' s
      | Some value \<Rightarrow> pb_encode_varint E value s)"

definition pb_enc_svarint :: "pb_enc_env \<Rightarrow> pb_encoder_t" where
  "pb_enc_svarint E f src s =
     (case read_signed (env_mem E) f src of
        None \<Rightarrow> OS_RETURN_ERROR ''invalid data_size'' s
      | Some value \<Rightarrow> pb_encode_svarint E value s)"

definition pb_enc_fixed64 :: "pb_enc_env \<Rightarrow> pb_encoder_t" where
  "pb_enc_fixed64 E f src s = pb_encode_fixed64 E src s"

definition pb_enc_fixed32 :: "pb_enc_env \<Rightarrow> pb_encoder_t" where
  "pb_enc_fixed32 E f src s = pb_encode_fixed32 E src s"

definition pb_enc_bytes :: "pb_enc_env \<Rightarrow> pb_encoder_t" where
  "pb_enc_bytes E f src s =
     (if src = NULL then pb_encode_string E NULL 0 s
      else let sz = ucast (ld32 (env_mem E) src) in
        if PB_ATYPE (ftype f) = PB_ATYPE_STATIC \<and>
           sz > ucast (data_size f) - of_nat offsetof_bytes
        then OS_RETURN_ERROR ''bytes size exceeded'' s
        else pb_encode_string E (src + int offsetof_bytes) sz s)"

definition string_size :: "mem \<Rightarrow> pb_field_t \<Rightarrow> addr \<Rightarrow> 64 word" where
  "string_size m f src =
     (let max_sz = (if PB_ATYPE (ftype f) = PB_ATYPE_POINTER then -1 else ucast (data_size f))
      in if src = NULL then 0 else string_scan m src 0 max_sz)"

definition pb_enc_string :: "pb_enc_env \<Rightarrow> pb_encoder_t" where
  "pb_enc_string E f src s = pb_encode_string E src (string_size (env_mem E) f src) s"

definition pb_enc_fixed_length_bytes :: "pb_enc_env \<Rightarrow> pb_encoder_t" where
  "pb_enc_fixed_length_bytes E f src s = pb_encode_string E src (ucast (data_size f)) s"

text \<open>The second half of \<open>pb_encode_submessage\<close>, after the length prefix \<open>sz\<close> is written.\<close>

definition encode_submessage_data :: "msg_encoder \<Rightarrow> pb_enc_env \<Rightarrow> 64 word \<Rightarrow> msg_encoder" where
  "encode_submessage_data rec E sz flds src s =
     (if os_callback s = OC_NULL then pb_write E [] sz s
      else if bytes_written s + sz > max_size s then OS_RETURN_ERROR ''stream full'' s
      else
        let substream = \<lparr>os_callback = os_callback s, os_state = os_state s,
              os_out = os_out s, max_size = sz, bytes_written = 0, os_errmsg = None\<rparr>
        in case rec flds src substream of
             None \<Rightarrow> None
           | Some (status, substream) \<Rightarrow>
               let s = s\<lparr>bytes_written := bytes_written s + bytes_written substream,
                         os_state := os_state substream, os_out := os_out substream,
                         os_errmsg := os_errmsg substream\<rparr>
               in if bytes_written substream \<noteq> sz
                  then OS_RETURN_ERROR ''submsg size changed'' s
                  else Some (status, s))"

definition pb_encode_submessage :: "msg_encoder \<Rightarrow> pb_enc_env \<Rightarrow> msg_encoder" where
  "pb_encode_submessage rec E flds src s =
     (case rec flds src PB_OSTREAM_SIZING of
        None \<Rightarrow> None
      | Some (False, substream) \<Rightarrow> Some (False, s\<lparr>os_errmsg := os_errmsg substream\<rparr>)
      | Some (True, substream) \<Rightarrow>
          let sz = bytes_written substream in
          andthen (pb_encode_varint E sz s) (encode_submessage_data rec E sz flds src))"

definition pb_enc_submessage :: "msg_encoder \<Rightarrow> pb_enc_env \<Rightarrow> pb_encoder_t" where
  "pb_enc_submessage rec E f src s =
     (case ptr f of
        NullPtr \<Rightarrow> OS_RETURN_ERROR ''invalid field descriptor'' s
      | SubFields fs \<Rightarrow> pb_encode_submessage rec E fs src s
      | DefaultValue _ \<Rightarrow> None)"

text \<open>The table of function pointers; \<open>None\<close> is its null entry, or no entry.\<close>

definition PB_ENCODERS :: "msg_encoder \<Rightarrow> pb_enc_env \<Rightarrow> pb_type_t \<Rightarrow> pb_encoder_t option" where
  "PB_ENCODERS rec E l =
     (if l = PB_LTYPE_BOOL then Some (pb_enc_bool E)
      else if l = PB_LTYPE_VARINT then Some (pb_enc_varint E)
      else if l = PB_LTYPE_UVARINT then Some (pb_enc_uvarint E)
      else if l = PB_LTYPE_SVARINT then Some (pb_enc_svarint E)
      else if l = PB_LTYPE_FIXED32 then Some (pb_enc_fixed32 E)
      else if l = PB_LTYPE_FIXED64 then Some (pb_enc_fixed64 E)
      else if l = PB_LTYPE_BYTES then Some (pb_enc_bytes E)
      else if l = PB_LTYPE_STRING then Some (pb_enc_string E)
      else if l = PB_LTYPE_SUBMESSAGE then Some (pb_enc_submessage rec E)
      else if l = PB_LTYPE_EXTENSION then None
      else if l = PB_LTYPE_FIXED_LENGTH_BYTES then Some (pb_enc_fixed_length_bytes E)
      else None)"

text \<open>A call through an entry of the table.\<close>

definition call_encoder :: "pb_encoder_t option \<Rightarrow> pb_encoder_t" where
  "call_encoder func f p s = (case func of None \<Rightarrow> None | Some fn \<Rightarrow> fn f p s)"

section \<open>Arrays\<close>

text \<open>\<^verbatim>\<open>for (i = 0; i < count; i++) { if (!func(stream, field, p)) return false; p += data_size; }\<close>\<close>

fun array_loop :: "(addr \<Rightarrow> pb_ostream_t act) \<Rightarrow> int \<Rightarrow> addr \<Rightarrow> nat \<Rightarrow> pb_ostream_t act" where
  "array_loop body stride p 0 s = Some (True, s)"
| "array_loop body stride p (Suc n) s =
     andthen (body p s) (array_loop body stride (p + stride) n)"

text \<open>The size of a packed array: \<open>Some None\<close> when an element encoder fails.\<close>

definition packed_size ::
  "pb_encoder_t option \<Rightarrow> pb_field_t \<Rightarrow> addr \<Rightarrow> 64 word \<Rightarrow> 64 word option option" where
  "packed_size func f p count =
     (if PB_LTYPE (ftype f) = PB_LTYPE_FIXED32 then Some (Some (4 * count))
      else if PB_LTYPE (ftype f) = PB_LTYPE_FIXED64 then Some (Some (8 * count))
      else case array_loop (call_encoder func f) (uint (data_size f)) p (unat count)
                  PB_OSTREAM_SIZING of
             None \<Rightarrow> None
           | Some (False, sizestream) \<Rightarrow> Some None
           | Some (True, sizestream) \<Rightarrow> Some (Some (bytes_written sizestream)))"

definition array_elem :: "mem \<Rightarrow> pb_field_t \<Rightarrow> addr \<Rightarrow> addr" where
  "array_elem m f p =
     (if PB_ATYPE (ftype f) = PB_ATYPE_POINTER \<and>
         (PB_LTYPE (ftype f) = PB_LTYPE_STRING \<or> PB_LTYPE (ftype f) = PB_LTYPE_BYTES)
      then ldptr m p else p)"

definition encode_array ::
  "pb_enc_env \<Rightarrow> pb_encoder_t option \<Rightarrow> pb_field_t \<Rightarrow> addr \<Rightarrow> 64 word \<Rightarrow> pb_ostream_t act" where
  "encode_array E func f p count s =
     (if count = 0 then Some (True, s)
      else if PB_ATYPE (ftype f) \<noteq> PB_ATYPE_POINTER \<and> count > ucast (array_size f)
      then OS_RETURN_ERROR ''array max size exceeded'' s
      else if PB_LTYPE (ftype f) \<le> PB_LTYPE_LAST_PACKABLE
      then andthen (pb_encode_tag E PB_WT_STRING (tag f) s) (\<lambda>s.
             case packed_size func f p count of
               None \<Rightarrow> None
             | Some None \<Rightarrow> Some (False, s)
             | Some (Some sz) \<Rightarrow>
                 andthen (pb_encode_varint E sz s) (\<lambda>s.
                   if os_callback s = OC_NULL then pb_write E [] sz s
                   else array_loop (call_encoder func f) (uint (data_size f)) p (unat count) s))
      else array_loop
             (\<lambda>p s. andthen (pb_encode_tag_for_field E f s)
                      (call_encoder func f (array_elem (env_mem E) f p)))
             (uint (data_size f)) p (unat count) s)"

section \<open>The zero test for proto3 fields\<close>

text \<open>The cast that drops \<^verbatim>\<open>const\<close>, to share the field iterator with the decoder.\<close>

definition pb_const_cast :: "addr \<Rightarrow> addr" where
  [simp]: "pb_const_cast p = p"

fun pb_check_proto3_default_value :: "nat \<Rightarrow> mem \<Rightarrow> pb_field_t \<Rightarrow> addr \<Rightarrow> bool option" where
  "pb_check_proto3_default_value 0 m f p = None"
| "pb_check_proto3_default_value (Suc d) m f p =
     (let type = ftype f; psize = p + sint (size_offset f) in
      if PB_HTYPE type = PB_HTYPE_REQUIRED then Some False
      else if PB_HTYPE type = PB_HTYPE_REPEATED \<and> size_offset f \<noteq> 0 then Some (ld32 m psize = 0)
      else if PB_HTYPE type = PB_HTYPE_REPEATED \<and> PB_ATYPE type = PB_ATYPE_STATIC then Some False
      else if PB_HTYPE type = PB_HTYPE_ONEOF then Some (ld32 m psize = 0)
      else if PB_HTYPE type = PB_HTYPE_OPTIONAL \<and> size_offset f \<noteq> 0
      then Some (\<not> safe_read_bool m psize)
      else if PB_ATYPE type = PB_ATYPE_STATIC \<and> PB_LTYPE type = PB_LTYPE_BYTES
      then Some (ld32 m p = 0)
      else if PB_ATYPE type = PB_ATYPE_STATIC \<and> PB_LTYPE type = PB_LTYPE_STRING
      then Some (m p = 0)
      else if PB_ATYPE type = PB_ATYPE_STATIC \<and> PB_LTYPE type = PB_LTYPE_FIXED_LENGTH_BYTES
      then Some (data_size f = 0)
      else if PB_ATYPE type = PB_ATYPE_STATIC \<and> PB_LTYPE type = PB_LTYPE_SUBMESSAGE
      then case ptr f of
             SubFields fs \<Rightarrow>
               (case pb_field_iter_begin fs (pb_const_cast p) of
                  (ok, it) \<Rightarrow>
                    if ok then
                      map_option fst
                        (fields_loop (\<lambda>it (u::unit).
                           map_option (\<lambda>b. (b, ())) (pb_check_proto3_default_value d m (cur it) (pData it)))
                         it ())
                    else Some True)
           | _ \<Rightarrow> None
      else if PB_ATYPE type = PB_ATYPE_POINTER \<and> PB_LTYPE type > PB_LTYPE_LAST_PACKABLE
      then Some (ldptr m p = NULL)
      else Some (list_all (\<lambda>b. b = 0) (loads m p (unat (data_size f)))))"

section \<open>Fields and messages\<close>

definition encode_basic_field :: "nat \<Rightarrow> msg_encoder \<Rightarrow> pb_enc_env \<Rightarrow> pb_encoder_t" where
  "encode_basic_field d rec E f p s =
     (let m = env_mem E;
          func = PB_ENCODERS rec E (PB_LTYPE (ftype f));
          psize = p + sint (size_offset f);
          is_ptr = (PB_ATYPE (ftype f) = PB_ATYPE_POINTER);
          data = (if is_ptr then ldptr m p else p)
      in case (if size_offset f = 0 \<and> PB_HTYPE (ftype f) = PB_HTYPE_OPTIONAL
               then map_option Not (pb_check_proto3_default_value d m f p) else Some True) of
           None \<Rightarrow> None
         | Some zero_test \<Rightarrow>
             let implicit_has = (if is_ptr then data \<noteq> NULL else zero_test);
                 emit = (\<lambda>s. andthen (pb_encode_tag_for_field E f s) (call_encoder func f data))
             in if PB_HTYPE (ftype f) = PB_HTYPE_REQUIRED
                then if data = NULL then OS_RETURN_ERROR ''missing required field'' s else emit s
                else if PB_HTYPE (ftype f) = PB_HTYPE_OPTIONAL
                then if (if size_offset f \<noteq> 0 then safe_read_bool m psize else implicit_has)
                     then emit s else Some (True, s)
                else if PB_HTYPE (ftype f) = PB_HTYPE_REPEATED
                then encode_array E func f data
                       (ucast (if size_offset f \<noteq> 0 then ld32 m psize else array_size f)) s
                else if size_offset f = 0 then None
                else if ld32 m psize = tag f then emit s else Some (True, s))"

definition encode_callback_field :: "pb_enc_env \<Rightarrow> pb_encoder_t" where
  "encode_callback_field E f p s =
     (let fn = callback_funcs (env_mem E) p in
      if fn \<noteq> NULL
      then case env_encode E fn f (callback_arg p) s of
             None \<Rightarrow> None
           | Some (False, s) \<Rightarrow> OS_RETURN_ERROR ''callback error'' s
           | Some (True, s) \<Rightarrow> Some (True, s)
      else Some (True, s))"

definition encode_field :: "nat \<Rightarrow> msg_encoder \<Rightarrow> pb_enc_env \<Rightarrow> pb_encoder_t" where
  "encode_field d rec E f p s =
     (if PB_ATYPE (ftype f) = PB_ATYPE_STATIC \<or> PB_ATYPE (ftype f) = PB_ATYPE_POINTER
      then encode_basic_field d rec E f p s
      else if PB_ATYPE (ftype f) = PB_ATYPE_CALLBACK then encode_callback_field E f p s
      else OS_RETURN_ERROR ''invalid field type'' s)"

definition default_extension_encoder ::
  "nat \<Rightarrow> msg_encoder \<Rightarrow> pb_enc_env \<Rightarrow> addr \<Rightarrow> pb_ostream_t act" where
  "default_extension_encoder d rec E ext s =
     (let m = env_mem E; f = field_at (env_ext_fields E (exttype_arg m (ext_type m ext))) 0 in
      if PB_ATYPE (ftype f) = PB_ATYPE_POINTER
      then encode_field d rec E f (ext_dest_addr ext) s
      else encode_field d rec E f (ext_dest m ext) s)"

fun extension_loop :: "nat \<Rightarrow> nat \<Rightarrow> msg_encoder \<Rightarrow> pb_enc_env \<Rightarrow> addr \<Rightarrow> pb_ostream_t act" where
  "extension_loop 0 d rec E ext s = (if ext = NULL then Some (True, s) else None)"
| "extension_loop (Suc n) d rec E ext s =
     (if ext = NULL then Some (True, s)
      else let m = env_mem E; fn = exttype_encode m (ext_type m ext) in
        andthen (if fn \<noteq> NULL then env_ext_encode E fn ext s
                 else default_extension_encoder d rec E ext s)
          (extension_loop n d rec E (ext_next m ext)))"

definition encode_extension_field :: "nat \<Rightarrow> msg_encoder \<Rightarrow> pb_enc_env \<Rightarrow> pb_encoder_t" where
  "encode_extension_field d rec E f p s = extension_loop d d rec E (ldptr (env_mem E) p) s"

text \<open>The body of the loop of \<open>pb_encode\<close>.\<close>

definition encode_one :: "nat \<Rightarrow> msg_encoder \<Rightarrow> pb_enc_env \<Rightarrow> pb_field_iter_t \<Rightarrow> pb_ostream_t act" where
  "encode_one d rec E it s =
     (if PB_LTYPE (ftype (cur it)) = PB_LTYPE_EXTENSION
      then encode_extension_field d rec E (cur it) (pData it) s
      else encode_field d rec E (cur it) (pData it) s)"

fun pb_encode :: "nat \<Rightarrow> pb_enc_env \<Rightarrow> msg_encoder" where
  "pb_encode 0 E flds src s = None"
| "pb_encode (Suc d) E flds src s =
     (case pb_field_iter_begin flds (pb_const_cast src) of
        (ok, it) \<Rightarrow> if ok then fields_loop (encode_one d (pb_encode d E) E) it s
                    else Some (True, s))"

definition pb_encode_delimited :: "nat \<Rightarrow> pb_enc_env \<Rightarrow> msg_encoder" where
  "pb_encode_delimited d E flds src s = pb_encode_submessage (pb_encode d E) E flds src s"

definition pb_encode_nullterminated :: "nat \<Rightarrow> pb_enc_env \<Rightarrow> msg_encoder" where
  "pb_encode_nullterminated d E flds src s =
     andthen (pb_encode d E flds src s) (pb_write E [0] 1)"

definition pb_get_encoded_size ::
  "nat \<Rightarrow> pb_enc_env \<Rightarrow> pb_field_t list \<Rightarrow> addr \<Rightarrow> 64 word option option" where
  "pb_get_encoded_size d E flds src =
     (case pb_encode d E flds src PB_OSTREAM_SIZING of
        None \<Rightarrow> None
      | Some (ok, s) \<Rightarrow> Some (if ok then Some (bytes_written s) else None))"

end
