(* ===== verification/Pb_Wire.thy ===== *)
theory Pb_Wire
  imports Pb_Encode
begin

text \<open>
  The wire format as a function on messages, and the refinement of it by \<open>pb_encode\<close>.

  \<open>wire_message d E fs p\<close> is the byte string of the message described by \<open>fs\<close> at address
  \<open>p\<close>: the concatenation of the encodings of its fields in descriptor order. It is \<open>None\<close>
  where the encoder reports an error (a missing required field, an array count above its
  bound, an unknown data size) and where user code would be called (a callback field with a
  function installed, a non-empty extension list), about which nothing can be said.
\<close>

section \<open>Specification\<close>

type_synonym msg_spec = "pb_field_t list \<Rightarrow> addr \<Rightarrow> byte list option"

definition delimited :: "byte list \<Rightarrow> byte list option" where
  "delimited bs = (if length bs < 2 ^ 63 then Some (vbytes (length bs) @ bs) else None)"

definition wire_string :: "mem \<Rightarrow> addr \<Rightarrow> 64 word \<Rightarrow> byte list" where
  "wire_string m p sz = vbytes (unat sz) @ loads m p (unat sz)"

text \<open>The payload of one value.\<close>

definition wire_value :: "msg_spec \<Rightarrow> mem \<Rightarrow> pb_field_t \<Rightarrow> addr \<Rightarrow> byte list option" where
  "wire_value wrec m f p =
     (let l = PB_LTYPE (ftype f) in
      if l = PB_LTYPE_BOOL then Some (vbytes (if m p = 0 then 0 else 1))
      else if l = PB_LTYPE_VARINT then map_option (\<lambda>v. vbytes (unat v)) (read_signed m f p)
      else if l = PB_LTYPE_UVARINT then map_option (\<lambda>v. vbytes (unat v)) (read_unsigned m f p)
      else if l = PB_LTYPE_SVARINT
      then map_option (\<lambda>v. vbytes (unat (zigzag v))) (read_signed m f p)
      else if l = PB_LTYPE_FIXED32 then Some (loads m p 4)
      else if l = PB_LTYPE_FIXED64 then Some (loads m p 8)
      else if l = PB_LTYPE_BYTES
      then if p = NULL then Some (vbytes 0)
           else if PB_ATYPE (ftype f) = PB_ATYPE_STATIC \<and>
                   ucast (ld32 m p) > (ucast (data_size f) - of_nat offsetof_bytes :: 64 word)
           then None else Some (wire_string m (p + int offsetof_bytes) (ucast (ld32 m p)))
      else if l = PB_LTYPE_STRING then Some (wire_string m p (string_size m f p))
      else if l = PB_LTYPE_SUBMESSAGE
      then case ptr f of SubFields fs \<Rightarrow> Option.bind (wrec fs p) delimited | _ \<Rightarrow> None
      else if l = PB_LTYPE_FIXED_LENGTH_BYTES then Some (wire_string m p (ucast (data_size f)))
      else None)"

definition wire_tag :: "pb_field_t \<Rightarrow> byte list option" where
  "wire_tag f = map_option (\<lambda>wt. tag_bytes wt (tag f)) (wiretype_of (PB_LTYPE (ftype f)))"

definition wire_tagged :: "msg_spec \<Rightarrow> mem \<Rightarrow> pb_field_t \<Rightarrow> addr \<Rightarrow> byte list option" where
  "wire_tagged wrec m f p =
     (case (wire_tag f, wire_value wrec m f p) of
        (Some t, Some v) \<Rightarrow> Some (t @ v) | _ \<Rightarrow> None)"

text \<open>All-or-nothing concatenation.\<close>

fun concat_opt :: "'a list option list \<Rightarrow> 'a list option" where
  "concat_opt [] = Some []"
| "concat_opt (x # xs) =
     (case (x, concat_opt xs) of (Some a, Some b) \<Rightarrow> Some (a @ b) | _ \<Rightarrow> None)"

definition elem_addrs :: "pb_field_t \<Rightarrow> addr \<Rightarrow> nat \<Rightarrow> addr list" where
  "elem_addrs f p n = map (\<lambda>i. p + uint (data_size f) * int i) [0..<n]"

definition wire_array :: "msg_spec \<Rightarrow> mem \<Rightarrow> pb_field_t \<Rightarrow> addr \<Rightarrow> 64 word \<Rightarrow> byte list option" where
  "wire_array wrec m f p count =
     (if count = 0 then Some []
      else if PB_ATYPE (ftype f) \<noteq> PB_ATYPE_POINTER \<and> count > ucast (array_size f) then None
      else if PB_LTYPE (ftype f) \<le> PB_LTYPE_LAST_PACKABLE
      then map_option (\<lambda>bs. tag_bytes PB_WT_STRING (tag f) @ bs)
             (Option.bind (concat_opt (map (wire_value wrec m f) (elem_addrs f p (unat count)))) delimited)
      else concat_opt (map (\<lambda>a. wire_tagged wrec m f (array_elem m f a)) (elem_addrs f p (unat count))))"

definition wire_field :: "nat \<Rightarrow> msg_spec \<Rightarrow> mem \<Rightarrow> pb_field_t \<Rightarrow> addr \<Rightarrow> byte list option" where
  "wire_field d wrec m f p =
     (let data = (if PB_ATYPE (ftype f) = PB_ATYPE_POINTER then ldptr m p else p);
          psize = p + sint (size_offset f)
      in if PB_LTYPE (ftype f) = PB_LTYPE_EXTENSION
         then if ldptr m p = NULL then Some [] else None
         else if PB_ATYPE (ftype f) = PB_ATYPE_CALLBACK
         then if callback_funcs m p = NULL then Some [] else None
         else if PB_ATYPE (ftype f) \<noteq> PB_ATYPE_STATIC \<and> PB_ATYPE (ftype f) \<noteq> PB_ATYPE_POINTER
         then None
         else if PB_HTYPE (ftype f) = PB_HTYPE_REQUIRED
         then if data = NULL then None else wire_tagged wrec m f data
         else if PB_HTYPE (ftype f) = PB_HTYPE_OPTIONAL
         then if size_offset f \<noteq> 0
              then if safe_read_bool m psize then wire_tagged wrec m f data else Some []
              else (case pb_check_proto3_default_value d m f p of
                      None \<Rightarrow> None
                    | Some zero \<Rightarrow>
                        if (if PB_ATYPE (ftype f) = PB_ATYPE_POINTER then data \<noteq> NULL else \<not> zero)
                        then wire_tagged wrec m f data else Some [])
         else if PB_HTYPE (ftype f) = PB_HTYPE_REPEATED
         then wire_array wrec m f data
                (ucast (if size_offset f \<noteq> 0 then ld32 m psize else array_size f))
         else if size_offset f = 0 then None
         else if ld32 m psize = tag f then wire_tagged wrec m f data else Some [])"

fun wire_message :: "nat \<Rightarrow> pb_enc_env \<Rightarrow> msg_spec" where
  "wire_message 0 E fs p = None"
| "wire_message (Suc d) E fs p =
     concat_opt (map (\<lambda>i. wire_field d (wire_message d E) (env_mem E) (field_at fs i)
                            (pData (iter_at fs p i))) [0..<nfields fs])"

section \<open>Refinement\<close>

lemma concat_opt_Some:
  "concat_opt xs = Some bs \<longleftrightarrow> (\<exists>ys. xs = map Some ys \<and> bs = concat ys)"
proof (induction xs arbitrary: bs)
  case (Cons x xs)
  show ?case
  proof
    assume "concat_opt (x # xs) = Some bs"
    then obtain a b where "x = Some a" "concat_opt xs = Some b" "bs = a @ b"
      by (auto split: option.splits prod.splits)
    with Cons obtain ys where "xs = map Some ys" "b = concat ys" by auto
    then show "\<exists>ys. x # xs = map Some ys \<and> bs = concat ys"
      using \<open>x = Some a\<close> \<open>bs = a @ b\<close> by (intro exI[of _ "a # ys"]) simp
  next
    assume "\<exists>ys. x # xs = map Some ys \<and> bs = concat ys"
    then obtain y ys where "x = Some y" "xs = map Some ys" "bs = y @ concat ys"
      by (auto simp: Cons_eq_map_conv)
    moreover have "concat_opt xs = Some (concat ys)" using Cons \<open>xs = map Some ys\<close> by blast
    ultimately show "concat_opt (x # xs) = Some bs" by simp
  qed
qed auto

lemma emits_concat_opt:
  assumes "concat_opt (map spec zs) = Some bs"
    and "\<And>z b. z \<in> set zs \<Longrightarrow> spec z = Some b \<Longrightarrow> emits (body z) b"
  shows "emits (seq_acts (map body zs)) bs"
proof -
  from assms(1) obtain ys where ys: "map spec zs = map Some ys" "bs = concat ys"
    by (auto simp: concat_opt_Some)
  then have l: "length zs = length ys" by (metis length_map)
  have "list_all2 emits (map body zs) ys"
    unfolding list_all2_conv_all_nth
  proof (intro conjI allI impI)
    fix i assume i: "i < length (map body zs)"
    then have "spec (zs ! i) = Some (ys ! i)"
      using ys(1) l by (metis length_map nth_map)
    then show "emits (map body zs ! i) (ys ! i)" using i assms(2) by simp
  qed (simp add: l)
  then show ?thesis using ys(2) by (simp add: em.eff_seq)
qed

lemma array_loop_seq:
  "array_loop body (uint (data_size f)) p n = seq_acts (map body (elem_addrs f p n))"
proof (induction n arbitrary: p)
  case 0
  show ?case by (auto simp: elem_addrs_def)
next
  case (Suc n)
  have "elem_addrs f p (Suc n) = p # elem_addrs f (p + uint (data_size f)) n"
    by (simp add: elem_addrs_def upt_conv_Cons map_Suc_upt[symmetric] algebra_simps del: upt_Suc map_Suc_upt)
  then show ?case by (auto simp: Suc.IH)
qed

lemma os_ready_sizing [simp]: "os_ready PB_OSTREAM_SIZING"
  by (simp add: os_ready_def PB_OSTREAM_SIZING_def)

lemma os_fits_sizing [simp]: "os_fits PB_OSTREAM_SIZING n"
  by (simp add: os_fits_def PB_OSTREAM_SIZING_def)

lemma bytes_written_sizing [simp]: "bytes_written PB_OSTREAM_SIZING = 0"
  by (simp add: PB_OSTREAM_SIZING_def)

lemma emits_sizing:
  "emits f bs \<Longrightarrow> f PB_OSTREAM_SIZING = Some (True, os_append PB_OSTREAM_SIZING bs)"
  by (simp add: emitsD(1))

text \<open>On a sizing stream, writing nothing at a null pointer only counts.\<close>

lemma pb_write_sizing:
  "os_callback s = OC_NULL \<Longrightarrow> pb_write E buf count s = Some (True, s\<lparr>bytes_written := bytes_written s + count\<rparr>)"
  by (simp add: pb_write_def)

lemma unat_room:
  assumes "os_ready s" "os_callback s = OC_buf_write" "n < 2 ^ 63"
  shows "os_fits s n \<longleftrightarrow> \<not> max_size s < bytes_written s + of_nat n"
proof -
  have "unat (bytes_written s) + n < 2 ^ 64"
    using assms by (auto simp: os_ready_def word_le_nat_alt)
  then have "unat (bytes_written s + of_nat n) = unat (bytes_written s) + n"
    by (rule unat_plus_64)
  with assms(2) show ?thesis by (auto simp: os_fits_def word_less_nat_alt)
qed

lemma emits_sizing_shortcut:
  assumes "emits h bs"
  shows "emits (\<lambda>s. if os_callback s = OC_NULL then pb_write E [] (of_nat (length bs)) s else h s) bs"
  using assms by (auto simp: emits_def pb_write_sizing os_fits_def os_append_def Let_def)

lemma concat_opt_length:
  assumes "concat_opt (map f xs) = Some bs" "\<And>x b. f x = Some b \<Longrightarrow> length b = k"
  shows "length bs = k * length xs"
  using assms(1)
proof (induction xs arbitrary: bs)
  case (Cons x xs)
  then obtain a b where "f x = Some a" "concat_opt (map f xs) = Some b" "bs = a @ b"
    by (auto split: option.splits)
  with Cons.IH assms(2) show ?case by simp
qed simp

subsection \<open>The field encoders\<close>

lemma emits_call: "emits (fn f p) bs \<Longrightarrow> emits (call_encoder (Some fn) f p) bs"
  by (rule emits_cong) (auto simp: call_encoder_def)

lemma loads_le_bytes:
  "loads m p 4 = le_bytes 4 (ld32 m p)" "loads m p 8 = le_bytes 8 (ld64 m p)"
  by (simp_all add: ld32_def ld64_def le_bytes_of_le)

lemma emits_enc_bool:
  "env_mem E p = 0 \<Longrightarrow> emits (pb_enc_bool E f p) (vbytes 0)"
  "env_mem E p \<noteq> 0 \<Longrightarrow> emits (pb_enc_bool E f p) (vbytes (Suc 0))"
  using emits_varint[of E 0] emits_varint[of E 1]
  by (auto simp: pb_enc_bool_def safe_read_bool_def intro: emits_cong)

lemma emits_enc_varint:
  "read_signed (env_mem E) f p = Some v \<Longrightarrow> emits (pb_enc_varint E f p) (vbytes (unat v))"
  by (rule emits_cong[OF _ emits_varint]) (auto simp: pb_enc_varint_def)

lemma emits_enc_uvarint:
  "read_unsigned (env_mem E) f p = Some v \<Longrightarrow> emits (pb_enc_uvarint E f p) (vbytes (unat v))"
  by (rule emits_cong[OF _ emits_varint]) (auto simp: pb_enc_uvarint_def)

lemma emits_enc_svarint:
  "read_signed (env_mem E) f p = Some v \<Longrightarrow>
   emits (pb_enc_svarint E f p) (vbytes (unat (zigzag v)))"
  by (rule emits_cong[OF _ emits_svarint]) (auto simp: pb_enc_svarint_def)

lemma emits_enc_fixed32: "emits (pb_enc_fixed32 E f p) (loads (env_mem E) p 4)"
  unfolding loads_le_bytes by (rule emits_cong[OF _ emits_fixed32]) (auto simp: pb_enc_fixed32_def)

lemma emits_enc_fixed64: "emits (pb_enc_fixed64 E f p) (loads (env_mem E) p 8)"
  unfolding loads_le_bytes by (rule emits_cong[OF _ emits_fixed64]) (auto simp: pb_enc_fixed64_def)

lemma emits_wire_string: "emits (pb_encode_string E p sz) (wire_string (env_mem E) p sz)"
  using emits_string by (simp add: wire_string_def)

lemma emits_enc_bytes_null: "emits (pb_enc_bytes E f 0) (vbytes 0)"
  using emits_string[of E 0 0] by (auto simp: pb_enc_bytes_def intro: emits_cong)

lemma emits_enc_bytes:
  assumes "p \<noteq> 0" "\<not> (PB_ATYPE (ftype f) = PB_ATYPE_STATIC \<and>
      ucast (ld32 (env_mem E) p) > (ucast (data_size f) - of_nat offsetof_bytes :: 64 word))"
  shows "emits (pb_enc_bytes E f p)
    (wire_string (env_mem E) (p + int offsetof_bytes) (ucast (ld32 (env_mem E) p)))"
  by (rule emits_cong[OF _ emits_wire_string]) (use assms in \<open>auto simp: pb_enc_bytes_def Let_def\<close>)

lemma emits_enc_string:
  "emits (pb_enc_string E f p) (wire_string (env_mem E) p (string_size (env_mem E) f p))"
  by (rule emits_cong[OF _ emits_wire_string]) (auto simp: pb_enc_string_def)

lemma emits_enc_fixed_length_bytes:
  "emits (pb_enc_fixed_length_bytes E f p) (wire_string (env_mem E) p (ucast (data_size f)))"
  by (rule emits_cong[OF _ emits_wire_string]) (auto simp: pb_enc_fixed_length_bytes_def)

lemmas emits_scalar = emits_enc_bool emits_enc_varint emits_enc_uvarint emits_enc_svarint
  emits_enc_fixed32 emits_enc_fixed64 emits_enc_bytes_null emits_enc_bytes[simplified] emits_enc_string
  emits_enc_fixed_length_bytes

locale message_encoder =
  fixes rec :: msg_encoder and wrec :: msg_spec
  assumes rec_emits: "wrec fs p = Some bs \<Longrightarrow> emits (rec fs p) bs"
begin

lemma submessage_sub:
  assumes "wrec fs p = Some bs" "length bs < 2 ^ 63" "os_ready s" "os_callback s = OC_buf_write"
    and "os_fits s (length bs)"
  defines "sub \<equiv> \<lparr>os_callback = os_callback s, os_state = os_state s, os_out = os_out s,
             max_size = of_nat (length bs), bytes_written = 0, os_errmsg = None\<rparr>"
  shows "rec fs p sub = Some (True, os_append sub bs)"
proof (rule emitsD(1)[OF rec_emits[OF assms(1)]])
  have "unat (of_nat (length bs) :: 64 word) = length bs"
    using assms(2) by (intro unat_of_nat_64) simp
  then show "os_ready sub" "os_fits sub (length bs)"
    using assms(2,4) by (auto simp: sub_def os_ready_def os_fits_def)
qed

lemma submessage_emits:
  assumes w: "wrec fs p = Some bs" and d: "delimited bs = Some out"
  shows "emits (pb_encode_submessage rec E fs p) out"
proof -
  from d have l: "length bs < 2 ^ 63" and out: "out = vbytes (length bs) @ bs"
    by (auto simp: delimited_def split: if_splits)
  let ?sz = "of_nat (length bs) :: 64 word"
  have usz: "unat ?sz = length bs" using l by (intro unat_of_nat_64) simp
  note sizing = emits_sizing[OF rec_emits[OF w]]
  let ?g = "encode_submessage_data rec E ?sz fs p"
  have split: "pb_encode_submessage rec E fs p s = andthen (pb_encode_varint E ?sz s) ?g" for s
    using sizing by (simp add: pb_encode_submessage_def Let_def)
  have "emits ?g bs"
    unfolding emits_def
  proof (intro allI impI)
    fix s assume r: "os_ready s"
    show "if os_fits s (length bs) then ?g s = Some (True, os_append s bs)
      else \<exists>k. os_fits s k \<and> k \<le> length bs \<and>
        ?g s = Some (False, (os_append s (take k bs))\<lparr>os_errmsg := Some ''stream full''\<rparr>)"
    proof (cases "os_callback s = OC_NULL")
      case True
      then show ?thesis
        by (simp add: encode_submessage_data_def pb_write_sizing os_fits_def os_append_def Let_def)
    next
      case False
      with r have b: "os_callback s = OC_buf_write" by (auto simp: os_ready_def)
      note room = unat_room[OF r b l]
      show ?thesis
      proof (cases "os_fits s (length bs)")
        case True
        with submessage_sub[OF w l r b True] room r b show ?thesis
          by (simp add: encode_submessage_data_def Let_def os_append_def os_ready_def)
      next
        case False
        with room b r show ?thesis
          by (auto simp: encode_submessage_data_def OS_RETURN_ERROR_def OS_SET_ERROR_def os_ready_def os_fits_def
              word_le_nat_alt intro!: exI[of _ 0])
      qed
    qed
  qed
  with emits_andthen[OF emits_varint[of E ?sz]] have
    "emits (\<lambda>s. andthen (pb_encode_varint E ?sz s) ?g) out"
    by (simp add: out usz)
  then show ?thesis by (rule emits_cong[OF split])
qed

lemma submessage_field_emits:
  assumes "ptr f = SubFields fs" "wrec fs p = Some bs" "delimited bs = Some out"
  shows "emits (pb_enc_submessage rec E f p) out"
  by (rule emits_cong[OF _ submessage_emits[OF assms(2,3)]])
     (simp add: pb_enc_submessage_def assms(1))

lemma value_emits:
  assumes "wire_value wrec (env_mem E) f p = Some bs"
  shows "emits (call_encoder (PB_ENCODERS rec E (PB_LTYPE (ftype f))) f p) bs"
  using assms unfolding wire_value_def PB_ENCODERS_def Let_def
  by (auto split: if_splits pb_ptr.splits simp: bind_eq_Some_conv
      intro: emits_call emits_scalar submessage_field_emits)

lemma tagged_emits:
  assumes "wire_tagged wrec (env_mem E) f p = Some bs"
  shows "emits (\<lambda>s. andthen (pb_encode_tag_for_field E f s)
           (call_encoder (PB_ENCODERS rec E (PB_LTYPE (ftype f))) f p)) bs"
  using assms
  by (auto simp: wire_tagged_def wire_tag_def split: option.splits
      intro!: emits_andthen emits_tag_for_field value_emits)

lemma array_values_emit:
  assumes "concat_opt (map (wire_value wrec (env_mem E) f) (elem_addrs f p n)) = Some bs"
  shows "emits (array_loop (call_encoder (PB_ENCODERS rec E (PB_LTYPE (ftype f))) f)
           (uint (data_size f)) p n) bs"
  unfolding array_loop_seq by (rule emits_concat_opt[OF assms]) (rule value_emits)

lemma packed_size_eq:
  assumes "concat_opt (map (wire_value wrec (env_mem E) f) (elem_addrs f p (unat count))) = Some bs"
  shows "packed_size (PB_ENCODERS rec E (PB_LTYPE (ftype f))) f p count =
           Some (Some (of_nat (length bs)))"
proof -
  have n: "length (elem_addrs f p (unat count)) = unat count" by (simp add: elem_addrs_def)
  consider "PB_LTYPE (ftype f) = PB_LTYPE_FIXED32" | "PB_LTYPE (ftype f) = PB_LTYPE_FIXED64"
    | "PB_LTYPE (ftype f) \<noteq> PB_LTYPE_FIXED32" "PB_LTYPE (ftype f) \<noteq> PB_LTYPE_FIXED64" by blast
  then show ?thesis
  proof cases
    case 1
    then have "length bs = 4 * unat count"
      using concat_opt_length[OF assms, of 4] n by (auto simp: wire_value_def)
    with 1 show ?thesis by (simp add: packed_size_def)
  next
    case 2
    then have "length bs = 8 * unat count"
      using concat_opt_length[OF assms, of 8] n by (auto simp: wire_value_def)
    with 2 show ?thesis by (simp add: packed_size_def)
  next
    case 3
    with emits_sizing[OF array_values_emit[OF assms]] show ?thesis by (simp add: packed_size_def)
  qed
qed

lemma array_emits:
  assumes "wire_array wrec (env_mem E) f p count = Some bs"
  shows "emits (encode_array E (PB_ENCODERS rec E (PB_LTYPE (ftype f))) f p count) bs"
proof -
  let ?func = "PB_ENCODERS rec E (PB_LTYPE (ftype f))" and ?n = "unat count"
  consider (zero) "count = 0" "bs = []"
    | (packed) vs out where "count \<noteq> 0" "PB_LTYPE (ftype f) \<le> PB_LTYPE_LAST_PACKABLE"
        "\<not> (PB_ATYPE (ftype f) \<noteq> PB_ATYPE_POINTER \<and> count > ucast (array_size f))"
        "concat_opt (map (wire_value wrec (env_mem E) f) (elem_addrs f p ?n)) = Some vs"
        "delimited vs = Some out" "bs = tag_bytes PB_WT_STRING (tag f) @ out"
    | (unpacked) "count \<noteq> 0" "\<not> PB_LTYPE (ftype f) \<le> PB_LTYPE_LAST_PACKABLE"
        "\<not> (PB_ATYPE (ftype f) \<noteq> PB_ATYPE_POINTER \<and> count > ucast (array_size f))"
        "concat_opt (map (\<lambda>a. wire_tagged wrec (env_mem E) f (array_elem (env_mem E) f a))
           (elem_addrs f p ?n)) = Some bs"
    using assms by (auto simp: wire_array_def bind_eq_Some_conv split: if_splits)
  then show ?thesis
  proof cases
    case zero
    then show ?thesis using emits_skip by (auto simp: encode_array_def intro: emits_cong)
  next
    case packed
    from packed(5) have l: "length vs < 2 ^ 63" and out: "out = vbytes (length vs) @ vs"
      by (auto simp: delimited_def split: if_splits)
    let ?sz = "of_nat (length vs) :: 64 word"
    let ?data = "\<lambda>s. if os_callback s = OC_NULL then pb_write E [] ?sz s
                   else array_loop (call_encoder ?func f) (uint (data_size f)) p ?n s"
    have "emits ?data vs"
      by (rule emits_sizing_shortcut[OF array_values_emit[OF packed(4)]])
    moreover have "emits (pb_encode_varint E ?sz) (vbytes (length vs))"
      using emits_varint[of E ?sz] l by (simp add: unat_of_nat_64)
    moreover have "emits (pb_encode_tag E PB_WT_STRING (tag f)) (tag_bytes PB_WT_STRING (tag f))"
      by (rule emits_tag) simp
    ultimately have "emits (\<lambda>s. andthen (pb_encode_tag E PB_WT_STRING (tag f) s)
        (\<lambda>s. andthen (pb_encode_varint E ?sz s) ?data)) bs"
      unfolding packed(6) out by (intro emits_andthen)
    then show ?thesis
      by (rule emits_cong[rotated])
         (use packed(1-3) packed_size_eq[OF packed(4)] in \<open>auto simp: encode_array_def\<close>)
  next
    case unpacked
    have "emits (array_loop (\<lambda>p s. andthen (pb_encode_tag_for_field E f s)
        (call_encoder ?func f (array_elem (env_mem E) f p))) (uint (data_size f)) p ?n) bs"
      unfolding array_loop_seq by (rule emits_concat_opt[OF unpacked(4)]) (rule tagged_emits)
    then show ?thesis
      by (rule emits_cong[rotated]) (use unpacked(1-3) in \<open>auto simp: encode_array_def\<close>)
  qed
qed

lemma basic_field_emits:
  assumes w: "wire_field d wrec (env_mem E) f p = Some bs"
    and a: "PB_ATYPE (ftype f) = PB_ATYPE_STATIC \<or> PB_ATYPE (ftype f) = PB_ATYPE_POINTER"
    and e: "PB_LTYPE (ftype f) \<noteq> PB_LTYPE_EXTENSION"
  shows "emits (encode_basic_field d rec E f p) bs"
proof -
  let ?m = "env_mem E" and ?psize = "p + sint (size_offset f)"
  let ?data = "if PB_ATYPE (ftype f) = PB_ATYPE_POINTER then ldptr ?m p else p"
  let ?count = "ucast (if size_offset f \<noteq> 0 then ld32 ?m ?psize else array_size f) :: 64 word"
  let ?func = "PB_ENCODERS rec E (PB_LTYPE (ftype f))"
  let ?emit = "\<lambda>s. andthen (pb_encode_tag_for_field E f s) (call_encoder ?func f ?data)"
  have "wire_tagged wrec ?m f ?data = Some bs \<and> (\<forall>s. encode_basic_field d rec E f p s = ?emit s) \<or>
        bs = [] \<and> (\<forall>s. encode_basic_field d rec E f p s = Some (True, s)) \<or>
        wire_array wrec ?m f ?data ?count = Some bs \<and>
          (\<forall>s. encode_basic_field d rec E f p s = encode_array E ?func f ?data ?count s)"
    using assms unfolding wire_field_def encode_basic_field_def Let_def
    by (auto split: if_splits option.splits)
  then show ?thesis
    using tagged_emits[of E f ?data bs] array_emits[of E f ?data ?count bs] emits_skip
    by (auto intro: emits_cong)
qed

lemma one_emits:
  assumes "wire_field d wrec (env_mem E) (cur it) (pData it) = Some bs"
  shows "emits (encode_one d rec E it) bs"
proof (cases "PB_LTYPE (ftype (cur it)) = PB_LTYPE_EXTENSION")
  case True
  with assms have "bs = []" "ldptr (env_mem E) (pData it) = NULL"
    by (auto simp: wire_field_def split: if_splits)
  moreover have "extension_loop d d rec E NULL s = Some (True, s)" for s
    by (cases d) auto
  ultimately show ?thesis using True emits_skip
    by (auto simp: encode_one_def encode_extension_field_def intro: emits_cong)
next
  case False
  let ?f = "cur it"
  consider (cb) "PB_ATYPE (ftype ?f) = PB_ATYPE_CALLBACK" "bs = []"
      "callback_funcs (env_mem E) (pData it) = NULL"
    | (basic) "PB_ATYPE (ftype ?f) = PB_ATYPE_STATIC \<or> PB_ATYPE (ftype ?f) = PB_ATYPE_POINTER"
    using assms False by (auto simp: wire_field_def Let_def split: if_splits)
  then show ?thesis
  proof cases
    case cb
    with False emits_skip show ?thesis
      by (auto simp: encode_one_def encode_field_def encode_callback_field_def intro: emits_cong)
  next
    case basic
    show ?thesis
      by (rule emits_cong[OF _ basic_field_emits[OF assms basic False]])
         (use basic False in \<open>auto simp: encode_one_def encode_field_def\<close>)
  qed
qed

end

text \<open>The refinement: the fuel of the two sides is the same.\<close>

lemma message_emits:
  assumes "message_encoder (pb_encode d E) (wire_message d E)"
    and w: "wire_message (Suc d) E fs p = Some bs"
  shows "emits (pb_encode (Suc d) E fs p) bs"
proof (cases "0 < nfields fs")
  case True
  let ?body = "\<lambda>i. encode_one d (pb_encode d E) E (iter_at fs p i)"
  have "emits (seq_acts (map ?body [0..<nfields fs])) bs"
    by (rule emits_concat_opt[OF w[simplified]])
       (auto intro!: message_encoder.one_emits[OF assms(1)] simp: cur_iter_at)
  moreover have "pb_encode (Suc d) E fs p s = seq_acts (map ?body [0..<nfields fs]) s" for s
    using True fields_loop_walk[OF True, of "encode_one d (pb_encode d E) E" p s]
    by (simp add: split_beta)
  ultimately show ?thesis by (rule emits_cong[rotated])
next
  case False
  then show ?thesis using w emits_skip by (auto simp: split_beta intro: emits_cong)
qed

lemma pb_encode_emits: "wire_message d E fs p = Some bs \<Longrightarrow> emits (pb_encode d E fs p) bs"
proof (induction d arbitrary: fs p bs)
  case (Suc d)
  from Suc.IH have "message_encoder (pb_encode d E) (wire_message d E)" by unfold_locales
  then show ?case by (rule message_emits) (rule Suc.prems)
qed simp

interpretation enc: message_encoder "pb_encode d E" "wire_message d E" for d E
  by unfold_locales (rule pb_encode_emits)

section \<open>Buffer streams\<close>

lemma os_ready_from_buffer [simp]:
  "unat bufsize < 2 ^ 63 \<Longrightarrow> os_ready (pb_ostream_from_buffer m buf bufsize)"
  by (simp add: os_ready_def pb_ostream_from_buffer_def)

lemma os_fits_from_buffer [simp]:
  "os_fits (pb_ostream_from_buffer m buf bufsize) n \<longleftrightarrow> n \<le> unat bufsize"
  by (simp add: os_fits_def pb_ostream_from_buffer_def)

lemma os_append_from_buffer [simp]:
  "os_out (os_append (pb_ostream_from_buffer m buf bufsize) bs) = stores m buf bs"
  "bytes_written (pb_ostream_from_buffer m buf bufsize) = 0"
  by (simp_all add: os_append_def pb_ostream_from_buffer_def Let_def)

text \<open>What a buffer stream has done after an action with a known output.\<close>

definition buffer_result :: "byte list \<Rightarrow> mem \<Rightarrow> addr \<Rightarrow> 64 word \<Rightarrow> bool \<times> pb_ostream_t \<Rightarrow> bool" where
  "buffer_result bs m buf bufsize r \<longleftrightarrow>
     (case r of (ok, s') \<Rightarrow>
        ok = (length bs \<le> unat bufsize) \<and>
        (\<forall>x. x < buf \<or> buf + uint bufsize \<le> x \<longrightarrow> os_out s' x = m x) \<and>
        (if ok then bytes_written s' = of_nat (length bs) \<and> loads (os_out s') buf (length bs) = bs
         else os_errmsg s' = Some ''stream full''))"

lemma emits_buffer:
  assumes e: "emits f bs" and b: "unat bufsize < 2 ^ 63"
  shows "\<exists>r. f (pb_ostream_from_buffer m buf bufsize) = Some r \<and> buffer_result bs m buf bufsize r"
proof -
  let ?s = "pb_ostream_from_buffer m buf bufsize"
  have out: "stores m buf (take k bs) x = m x"
    if "k \<le> unat bufsize" "x < buf \<or> buf + uint bufsize \<le> x" for k x
  proof (rule stores_outside)
    have "int k \<le> uint bufsize" using that(1) by (metis of_nat_le_iff uint_nat)
    then show "x < buf \<or> buf + int (length (take k bs)) \<le> x" using that(2) by auto
  qed
  show ?thesis
  proof (cases "length bs \<le> unat bufsize")
    case True
    have "f ?s = Some (True, os_append ?s bs)"
      by (rule emitsD(1)[OF e]) (use b True in simp_all)
    moreover have "buffer_result bs m buf bufsize (True, os_append ?s bs)"
      using True out[of "length bs"]
      by (auto simp: buffer_result_def loads_stores_same)
    ultimately show ?thesis by blast
  next
    case False
    with emitsD(2)[OF e, of ?s] b obtain k where k: "k \<le> unat bufsize"
       "f ?s = Some (False, (os_append ?s (take k bs))\<lparr>os_errmsg := Some ''stream full''\<rparr>)"
      by auto
    then have "buffer_result bs m buf bufsize
        (False, (os_append ?s (take k bs))\<lparr>os_errmsg := Some ''stream full''\<rparr>)"
      using False out[of k]
      by (auto simp: buffer_result_def)
    with k show ?thesis by blast
  qed
qed

section \<open>Properties of the message encoder\<close>

text \<open>C1. Encoding a message into a buffer of \<open>bufsize\<close> bytes always returns. It succeeds
  exactly when the wire form of the message fits; then the buffer holds the wire form and
  \<open>bytes_written\<close> is its length. Otherwise the error is ``stream full''. In both cases no
  byte outside the buffer is changed.\<close>

theorem pb_encode_buffer:
  assumes "wire_message d E fs src = Some bs" and "unat bufsize < 2 ^ 63"
  shows "\<exists>r. pb_encode d E fs src (pb_ostream_from_buffer m buf bufsize) = Some r \<and>
             buffer_result bs m buf bufsize r"
  using assms by (rule emits_buffer[OF pb_encode_emits])

text \<open>\<open>pb_get_encoded_size\<close> gives the exact size: a buffer of that many bytes is
  enough for \<open>pb_encode\<close> and a buffer of one byte less is not.\<close>

theorem pb_get_encoded_size_exact:
  assumes "wire_message d E fs src = Some bs" and "length bs < 2 ^ 63"
  shows "\<exists>sz. pb_get_encoded_size d E fs src = Some (Some sz) \<and> unat sz = length bs \<and>
     (\<forall>m buf bufsize. unat bufsize < 2 ^ 63 \<longrightarrow>
        (\<exists>s'. pb_encode d E fs src (pb_ostream_from_buffer m buf bufsize) =
                Some (sz \<le> bufsize, s')))"
proof (intro exI[of _ "of_nat (length bs)"] conjI allI impI)
  show "pb_get_encoded_size d E fs src = Some (Some (of_nat (length bs)))"
    using emits_sizing[OF pb_encode_emits[OF assms(1)]] by (simp add: pb_get_encoded_size_def)
  show u: "unat (of_nat (length bs) :: 64 word) = length bs"
    using assms(2) by (intro unat_of_nat_64) simp
  fix m buf and bufsize :: "64 word"
  assume "unat bufsize < 2 ^ 63"
  then show "\<exists>s'. pb_encode d E fs src (pb_ostream_from_buffer m buf bufsize) =
      Some (of_nat (length bs) \<le> bufsize, s')"
    using emits_buffer[OF pb_encode_emits[OF assms(1)], of bufsize m buf] u
    by (auto simp: buffer_result_def word_le_nat_alt)
qed

text \<open>C2. The delimited form: the length as a varint, then the message. The length that was
  computed on a sizing stream is always the length of the bytes that follow, so the error
  ``submsg size changed'' is never reported.\<close>

theorem pb_encode_delimited_buffer:
  assumes "wire_message d E fs src = Some bs" and "length bs < 2 ^ 63" and "unat bufsize < 2 ^ 63"
  shows "\<exists>r. pb_encode_delimited d E fs src (pb_ostream_from_buffer m buf bufsize) = Some r \<and>
             buffer_result (vbytes (length bs) @ bs) m buf bufsize r"
proof -
  have "delimited bs = Some (vbytes (length bs) @ bs)" using assms(2) by (simp add: delimited_def)
  then have "emits (pb_encode_submessage (pb_encode d E) E fs src) (vbytes (length bs) @ bs)"
    by (rule enc.submessage_emits[OF assms(1)])
  then have "emits (pb_encode_delimited d E fs src) (vbytes (length bs) @ bs)"
    by (rule emits_cong[rotated]) (simp add: pb_encode_delimited_def)
  then show ?thesis using assms(3) by (rule emits_buffer)
qed

text \<open>The null-terminated form: the message, then a zero byte.\<close>

theorem pb_encode_nullterminated_buffer:
  assumes "wire_message d E fs src = Some bs" and "unat bufsize < 2 ^ 63"
  shows "\<exists>r. pb_encode_nullterminated d E fs src (pb_ostream_from_buffer m buf bufsize) = Some r \<and>
             buffer_result (bs @ [0]) m buf bufsize r"
proof -
  have "emits (\<lambda>s. andthen (pb_encode d E fs src s) (pb_write E [0] 1)) (bs @ [0])"
    by (rule emits_andthen[OF pb_encode_emits[OF assms(1)] emits_pb_write]) simp
  then have "emits (pb_encode_nullterminated d E fs src) (bs @ [0])"
    by (rule emits_cong[rotated]) (simp add: pb_encode_nullterminated_def)
  then show ?thesis using assms(2) by (rule emits_buffer)
qed

end
