(* ===== verification/Pb_Encode_Total.thy ===== *)
theory Pb_Encode_Total
  imports Pb_Wire
begin

text \<open>
  The encoder returns. The model of \<open>pb_encode\<close> has a fuel argument, which bounds the nesting
  of messages. Here it is shown that fuel above the depth of the descriptors is always enough,
  and that more fuel does not change a result, so the fuel is no part of what the code does.
\<close>

section \<open>Termination of the encoder\<close>

fun field_depth :: "pb_field_t \<Rightarrow> nat" and ptr_depth :: "pb_ptr \<Rightarrow> nat" where
  "field_depth (PbField t ty off so ds n p) = ptr_depth p"
| "ptr_depth (SubFields fs) = Suc (fold max (map field_depth fs) 0)"
| "ptr_depth NullPtr = 0"
| "ptr_depth (DefaultValue v) = 0"

fun enc_field_ok :: "pb_field_t \<Rightarrow> bool" and enc_ptr_ok :: "pb_ptr \<Rightarrow> bool" where
  "enc_field_ok (PbField t ty off so ds n p) \<longleftrightarrow>
     PB_LTYPE ty \<le> PB_LTYPE_FIXED_LENGTH_BYTES \<and> PB_LTYPE ty \<noteq> PB_LTYPE_EXTENSION \<and>
     (PB_HTYPE ty = PB_HTYPE_ONEOF \<longrightarrow> so \<noteq> 0) \<and>
     (PB_LTYPE ty = PB_LTYPE_SUBMESSAGE \<longrightarrow> enc_ptr_ok p)"
| "enc_ptr_ok (SubFields fs) = list_all enc_field_ok fs"
| "enc_ptr_ok NullPtr = False"
| "enc_ptr_ok (DefaultValue v) = False"

definition msg_depth :: "pb_field_t list \<Rightarrow> nat" where
  "msg_depth fs = ptr_depth (SubFields fs)"

lemma fold_max_ge: "(x::nat) \<in> set xs \<Longrightarrow> x \<le> fold max xs a"
proof (induction xs arbitrary: a)
  case (Cons y ys)
  have "b \<le> fold max zs b" for b :: nat and zs
  proof (induction zs arbitrary: b)
    case (Cons z zs)
    from Cons[of "max z b"] show ?case by simp
  qed simp
  from this[of "max y a" ys] Cons show ?case by auto
qed simp

lemma field_depth_ptr: "field_depth f = ptr_depth (ptr f)"
  by (cases f) simp

lemma enc_field_ok_sel:
  "enc_field_ok f \<longleftrightarrow>
     PB_LTYPE (ftype f) \<le> PB_LTYPE_FIXED_LENGTH_BYTES \<and> PB_LTYPE (ftype f) \<noteq> PB_LTYPE_EXTENSION \<and>
     (PB_HTYPE (ftype f) = PB_HTYPE_ONEOF \<longrightarrow> size_offset f \<noteq> 0) \<and>
     (PB_LTYPE (ftype f) = PB_LTYPE_SUBMESSAGE \<longrightarrow> enc_ptr_ok (ptr f))"
  by (cases f) simp

lemma submessage_cases:
  assumes "enc_field_ok f" "PB_LTYPE (ftype f) = PB_LTYPE_SUBMESSAGE"
  obtains fs where "ptr f = SubFields fs" "list_all enc_field_ok fs" "msg_depth fs = field_depth f"
  using assms by (cases "ptr f") (auto simp: enc_field_ok_sel field_depth_ptr msg_depth_def)

lemma field_at_ok:
  assumes "list_all enc_field_ok fs"
  shows "i < length fs \<Longrightarrow> enc_field_ok (field_at fs i)" "i < length fs \<Longrightarrow> field_depth (field_at fs i) < msg_depth fs"
  using assms by (auto simp: field_at_def list_all_length msg_depth_def less_Suc_eq_le intro!: fold_max_ge)

definition returns :: "'s act \<Rightarrow> bool" where "returns f \<longleftrightarrow> (\<forall>s. f s \<noteq> None)"

lemma returnsD: "returns f \<Longrightarrow> f s \<noteq> None" by (simp add: returns_def)

lemma returns_skip: "returns (\<lambda>s. Some (b, g s))" by (simp add: returns_def)

lemma returns_andthen: "returns f \<Longrightarrow> returns g \<Longrightarrow> returns (\<lambda>s. andthen (f s) g)"
  by (auto simp: returns_def andthen_def split: option.splits) 

lemma returns_seq: "(\<And>f. f \<in> set fs \<Longrightarrow> returns f) \<Longrightarrow> returns (seq_acts fs)"
  by (induction fs) (simp_all add: returns_skip[where g="\<lambda>s. s"] returns_andthen)

lemma returns_cong: "(\<And>s. f s = g s) \<Longrightarrow> returns g \<Longrightarrow> returns f" by (simp add: returns_def)

lemma returns_write: "returns (pb_write E buf n)"
  by (auto simp: returns_def pb_write_def ostream_callback_def buf_write_def OS_RETURN_ERROR_def
      split: option.splits ocallback.splits bool.splits prod.splits)

lemma returns_error: "returns (OS_RETURN_ERROR msg)" by (simp add: returns_def OS_RETURN_ERROR_def)

lemma returns_varint: "returns (pb_encode_varint E v)"
  using returns_write by (auto simp: returns_def pb_encode_varint_def Let_def)

lemma returns_string: "returns (pb_encode_string E p n)"
  by (rule returns_cong[OF _ returns_andthen[OF returns_varint returns_write]])
     (simp add: pb_encode_string_def)

lemma returns_tag_for_field: "returns (pb_encode_tag_for_field E f)"
  using returns_varint returns_error
  by (auto simp: returns_def pb_encode_tag_for_field_def pb_encode_tag_def split: option.splits)

lemma returns_tag: "returns (pb_encode_tag E wt n)"
  by (rule returns_cong[OF _ returns_varint]) (simp add: pb_encode_tag_def)

lemma returns_option_case:
  "returns (\<lambda>s. case x of None \<Rightarrow> Some (b, s) | Some y \<Rightarrow> h y s) \<longleftrightarrow> (\<forall>y. x = Some y \<longrightarrow> returns (h y))"
  by (cases x) (auto simp: returns_def)

lemmas returns_prims = returns_write returns_error returns_varint returns_string

lemma fields_loop_returns:
  assumes "\<And>i. i < nfields fs \<Longrightarrow> returns (body (iter_at fs p i))" "0 < nfields fs"
  shows "returns (fields_loop body (snd (pb_field_iter_begin fs p)))"
  by (rule returns_cong[OF fields_loop_walk[OF assms(2)] returns_seq]) (use assms(1) in auto)

lemma proto3_returns:
  "field_depth f < d \<Longrightarrow> enc_field_ok f \<Longrightarrow> pb_check_proto3_default_value d m f p \<noteq> None"
proof (induction d arbitrary: f p)
  case (Suc d)
  let ?body = "\<lambda>it u. map_option (\<lambda>b. (b, ())) (pb_check_proto3_default_value d m (cur it) (pData it))"
  show ?case
  proof (cases "PB_LTYPE (ftype f) = PB_LTYPE_SUBMESSAGE")
    case True
    from submessage_cases[OF Suc.prems(2) True] obtain fs where
      fs: "ptr f = SubFields fs" "list_all enc_field_ok fs" "msg_depth fs = field_depth f" .
    have "returns (?body (iter_at fs p i))" if "i < nfields fs" for i
      using Suc.IH[of "field_at fs i" "pData (iter_at fs p i)"] field_at_ok[OF fs(2), of i]
        fs(3) Suc.prems(1) that nfields_le[of fs]
      by (auto simp: returns_def cur_iter_at)
    from fields_loop_returns[where body = ?body, OF this]
    have "0 < nfields fs \<Longrightarrow> fields_loop ?body (snd (pb_field_iter_begin fs p)) () \<noteq> None"
      by (blast dest: returnsD)
    with True fs(1) show ?thesis by (simp add: Let_def split_beta del: not_None_eq)
  qed (simp add: Let_def del: not_None_eq)
qed simp

lemma htype_cases: "PB_HTYPE t \<in> {0, 0x10, 0x20, 0x30}"
proof -
  have "PB_HTYPE t = (if bit t 4 then 0x10 else 0) OR (if bit t 5 then 0x20 else 0)"
  proof (rule bit_word_eqI)
    fix n :: nat assume "n < LENGTH(8)"
    have b: "bit (0x10::int) n \<longleftrightarrow> n = 4" "bit (0x20::int) n \<longleftrightarrow> n = 5"
      using bit_exp_iff[where 'a = int, of 4 n] bit_exp_iff[where 'a = int, of 5 n] by auto
    have "(0x30::int) = 0x10 OR 0x20" by simp
    with b have "bit (0x30::int) n \<longleftrightarrow> n = 4 \<or> n = 5" by (simp only: bit_or_iff)
    with b \<open>n < LENGTH(8)\<close> show "bit (PB_HTYPE t) n \<longleftrightarrow>
        bit ((if bit t 4 then 0x10 else 0) OR (if bit t 5 then 0x20 else 0) :: 8 word) n"
      by (auto simp: PB_HTYPE_def bit_simps)
  qed
  then show ?thesis by auto
qed

text \<open>The interface: the message encoder returns on every message of smaller depth, and the user's
  field callbacks return.\<close>

definition env_returns :: "pb_enc_env \<Rightarrow> bool" where
  "env_returns E \<longleftrightarrow> (\<forall>fn f arg. returns (env_encode E fn f arg))"

locale returning_encoder =
  fixes rec :: msg_encoder and E :: pb_enc_env and d :: nat
  assumes rec_returns:
    "env_returns E \<Longrightarrow> list_all enc_field_ok fs \<Longrightarrow> msg_depth fs < d \<Longrightarrow> returns (rec fs p)"
begin

lemma submessage_returns:
  assumes "env_returns E" "list_all enc_field_ok fs" "msg_depth fs < d"
  shows "returns (pb_encode_submessage rec E fs p)"
  unfolding returns_def
proof
  fix s
  have "returns (encode_submessage_data rec E sz fs p)" for sz
    by (auto simp: returns_def encode_submessage_data_def OS_RETURN_ERROR_def Let_def
        rec_returns[OF assms, THEN returnsD] returns_write[THEN returnsD]
        split: option.splits simp del: not_None_eq)
  then have "returns (\<lambda>s. andthen (pb_encode_varint E sz s) (encode_submessage_data rec E sz fs p))" for sz
    by (intro returns_andthen returns_varint)
  note data = this[THEN returnsD]
  show "pb_encode_submessage rec E fs p s \<noteq> None"
    by (auto simp: pb_encode_submessage_def Let_def data rec_returns[OF assms, THEN returnsD]
        split: option.splits bool.splits simp del: not_None_eq)
qed

lemma ltype_cases:
  assumes "enc_field_ok f"
  shows "PB_LTYPE (ftype f) \<in> {0,1,2,3,4,5,6,7,8,10}"
proof -
  have "unat (PB_LTYPE (ftype f)) \<le> 10" "unat (PB_LTYPE (ftype f)) \<noteq> 9"
    using assms by (auto simp: enc_field_ok_sel word_le_nat_alt word_unat_eq_iff)
  then have "unat (PB_LTYPE (ftype f)) \<in> {0,1,2,3,4,5,6,7,8,10}" by (simp, arith)
  then show ?thesis by (auto simp: word_unat_eq_iff)
qed

lemma value_returns:
  assumes "env_returns E" "enc_field_ok f" "field_depth f < d"
  shows "returns (call_encoder (PB_ENCODERS rec E (PB_LTYPE (ftype f))) f p)"
proof (cases "PB_LTYPE (ftype f) = PB_LTYPE_SUBMESSAGE")
  case True
  then obtain fs where "ptr f = SubFields fs" "list_all enc_field_ok fs" "msg_depth fs = field_depth f"
    by (rule submessage_cases[OF assms(2)])
  with True submessage_returns[of fs p] assms show ?thesis
    by (auto simp: returns_def call_encoder_def PB_ENCODERS_def pb_enc_submessage_def)
next
  case False
  with ltype_cases[OF assms(2)] show ?thesis
    using returns_prims unfolding returns_def
    by (auto simp: call_encoder_def PB_ENCODERS_def pb_enc_bool_def pb_enc_varint_def
        pb_enc_uvarint_def pb_enc_svarint_def pb_encode_svarint_def pb_enc_fixed32_def pb_enc_fixed64_def
        pb_encode_fixed32_def pb_encode_fixed64_def pb_enc_bytes_def pb_enc_string_def
        pb_enc_fixed_length_bytes_def Let_def split: option.splits)
qed

lemma tagged_returns:
  assumes "env_returns E" "enc_field_ok f" "field_depth f < d"
  shows "returns (\<lambda>s. andthen (pb_encode_tag_for_field E f s)
           (call_encoder (PB_ENCODERS rec E (PB_LTYPE (ftype f))) f p))"
  by (intro returns_andthen returns_tag_for_field value_returns assms)

lemma array_loop_returns: "(\<And>q. returns (body q)) \<Longrightarrow> returns (array_loop body k p n)"
proof (induction n arbitrary: p)
  case 0
  show ?case by (simp add: returns_def)
next
  case (Suc n)
  then have "returns (\<lambda>s. andthen (body p s) (array_loop body k (p + k) n))"
    by (intro returns_andthen) auto
  then show ?case by (simp add: returns_def)
qed

lemma array_returns:
  assumes "env_returns E" "enc_field_ok f" "field_depth f < d"
  shows "returns (encode_array E (PB_ENCODERS rec E (PB_LTYPE (ftype f))) f p count)"
proof -
  let ?func = "PB_ENCODERS rec E (PB_LTYPE (ftype f))"
  note vals = array_loop_returns[where body = "call_encoder ?func f", OF value_returns[OF assms]]
  have "packed_size ?func f p count \<noteq> None"
    by (auto simp: packed_size_def vals[THEN returnsD] split: option.splits bool.splits
        simp del: not_None_eq)
  then obtain psz where psz: "packed_size ?func f p count = Some psz" by auto
  have "returns (\<lambda>s. if os_callback s = OC_NULL then pb_write E [] sz s
      else array_loop (call_encoder ?func f) (uint (data_size f)) p (unat count) s)" for sz
    by (auto simp: returns_def vals[THEN returnsD] returns_write[THEN returnsD] simp del: not_None_eq)
  then have "returns (\<lambda>s. andthen (pb_encode_tag E PB_WT_STRING (tag f) s) (\<lambda>s. case psz of
      None \<Rightarrow> Some (False, s)
    | Some sz \<Rightarrow> andthen (pb_encode_varint E sz s) (\<lambda>s.
        if os_callback s = OC_NULL then pb_write E [] sz s
        else array_loop (call_encoder ?func f) (uint (data_size f)) p (unat count) s)))"
    by (intro returns_andthen returns_tag) (auto simp: returns_option_case intro!: returns_andthen returns_varint)
  moreover have "returns (array_loop (\<lambda>p s. andthen (pb_encode_tag_for_field E f s)
      (call_encoder ?func f (array_elem (env_mem E) f p))) (uint (data_size f)) p (unat count))"
    by (rule array_loop_returns) (rule tagged_returns[OF assms])
  note both = this[THEN returnsD] calculation[THEN returnsD, unfolded PB_WT_STRING_def]
  show ?thesis
    by (auto simp: returns_def encode_array_def OS_RETURN_ERROR_def psz both simp del: not_None_eq)
qed

lemma basic_field_returns:
  assumes "env_returns E" "enc_field_ok f" "field_depth f < d"
  shows "returns (encode_basic_field d rec E f p)"
proof -
  obtain z where "pb_check_proto3_default_value d (env_mem E) f p = Some z"
    using proto3_returns[OF assms(3,2)] by blast
  moreover have "PB_HTYPE (ftype f) \<in> {0, 0x10, 0x20, 0x30}" by (rule htype_cases)
  ultimately show ?thesis
    using assms(2)
    by (auto simp: returns_def encode_basic_field_def enc_field_ok_sel OS_RETURN_ERROR_def Let_def
        tagged_returns[OF assms, THEN returnsD] array_returns[OF assms, THEN returnsD]
        simp del: not_None_eq)
qed

lemma callback_field_returns: "env_returns E \<Longrightarrow> returns (encode_callback_field E f p)"
  by (auto simp: returns_def encode_callback_field_def OS_RETURN_ERROR_def Let_def
      env_returns_def simp del: not_None_eq split: option.splits bool.splits)

lemma one_returns:
  assumes "env_returns E" "enc_field_ok (cur it)" "field_depth (cur it) < d"
  shows "returns (encode_one d rec E it)"
  using assms(2)
  by (auto simp: returns_def encode_one_def encode_field_def enc_field_ok_sel OS_RETURN_ERROR_def
      basic_field_returns[OF assms, THEN returnsD] callback_field_returns[OF assms(1), THEN returnsD]
      simp del: not_None_eq)

end

lemma pb_encode_total:
  assumes "env_returns E"
  shows "list_all enc_field_ok fs \<Longrightarrow> msg_depth fs < d \<Longrightarrow> returns (pb_encode d E fs p)"
proof (induction d arbitrary: fs p)
  case (Suc d)
  have "returning_encoder (pb_encode d E) E d" by unfold_locales (rule Suc.IH)
  note one = returning_encoder.one_returns[OF this assms]
  show ?case
  proof (cases "0 < nfields fs")
    case True
    have "returns (encode_one d (pb_encode d E) E (iter_at fs p i))" if "i < nfields fs" for i
      using field_at_ok[OF Suc.prems(1), of i] Suc.prems(2) that nfields_le[of fs]
      by (intro one) (auto simp: cur_iter_at)
    from fields_loop_returns[where body = "encode_one d (pb_encode d E) E", OF this True] True
    show ?thesis by (auto simp: returns_def split_beta)
  qed (simp add: returns_def split_beta)
qed simp

interpretation tot: returning_encoder "pb_encode d E" E d for d E
  by unfold_locales (rule pb_encode_total)

text \<open>C3. For a message whose descriptors satisfy \<open>enc_field_ok\<close> (no extension field, a known type of the data, a nonzero offset to the tag
  of a oneof, the descriptors of every submessage) and an environment whose callbacks return, the encoder returns on every stream and every
  memory: fuel above the nesting depth of the descriptors is enough. Nothing is claimed for extension fields, whose list in
  memory may be cyclic.\<close>

theorem pb_encode_terminates:
  assumes "env_returns E" and "list_all enc_field_ok fs" and "msg_depth fs < d"
  shows "\<exists>ok s'. pb_encode d E fs p s = Some (ok, s')"
  using pb_encode_total[OF assms, of p] by (auto simp: returns_def)

section \<open>More fuel does not change the result\<close>

definition le_opt :: "'a option \<Rightarrow> 'a option \<Rightarrow> bool" where
  "le_opt a b \<longleftrightarrow> a = None \<or> a = b"

lemma le_opt_refl [simp]: "le_opt a a" by (simp add: le_opt_def)
lemma le_opt_None [simp]: "le_opt None a" by (simp add: le_opt_def)
lemma le_opt_Some: "le_opt a b \<Longrightarrow> a = Some r \<Longrightarrow> b = Some r" by (auto simp: le_opt_def)

lemma le_opt_andthen:
  "le_opt r r' \<Longrightarrow> (\<And>s. le_opt (k s) (k' s)) \<Longrightarrow> le_opt (andthen r k) (andthen r' k')"
  by (auto simp: le_opt_def andthen_def split: option.splits prod.splits) 

lemma le_opt_if:
  "(c \<Longrightarrow> le_opt a b) \<Longrightarrow> (\<not> c \<Longrightarrow> le_opt a' b') \<Longrightarrow> le_opt (if c then a else a') (if c then b else b')"
  by simp

lemma le_opt_case:
  "le_opt r r' \<Longrightarrow> (\<And>x. le_opt (h x) (h' x)) \<Longrightarrow>
   le_opt (case r of None \<Rightarrow> None | Some x \<Rightarrow> h x) (case r' of None \<Rightarrow> None | Some x \<Rightarrow> h' x)"
  by (auto simp: le_opt_def split: option.splits)

lemma le_opt_map: "le_opt r r' \<Longrightarrow> le_opt (map_option h r) (map_option h r')"
  by (auto simp: le_opt_def)

lemma le_opt_seq:
  "list_all2 (\<lambda>f g. \<forall>s. le_opt (f s) (g s)) fs gs \<Longrightarrow> le_opt (seq_acts fs s) (seq_acts gs s)"
  by (induction arbitrary: s rule: list_all2_induct) (auto intro: le_opt_andthen)

lemmas le_opt_intros = le_opt_refl le_opt_None le_opt_andthen le_opt_if le_opt_case le_opt_map

lemma le_opt_fields_loop:
  assumes "\<And>it s. le_opt (body it s) (body' it s)"
  shows "le_opt (fields_loop body it s) (fields_loop body' it s)"
proof (induction "length (start it) - pos it" arbitrary: it s rule: less_induct)
  case less
  have "le_opt (fields_loop body it' s) (fields_loop body' it' s)"
    if "pb_field_iter_next it = (True, it')" for it' s
    using iter_next_True[OF that] by (intro less) auto
  then have "le_opt (andthen (body it s) (\<lambda>s. case pb_field_iter_next it of
        (ok, it') \<Rightarrow> if ok then fields_loop body it' s else Some (True, s)))
      (andthen (body' it s) (\<lambda>s. case pb_field_iter_next it of
        (ok, it') \<Rightarrow> if ok then fields_loop body' it' s else Some (True, s)))"
    by (intro le_opt_andthen assms) (auto split: prod.splits)
  then show ?case
    by (subst fields_loop.simps, subst (2) fields_loop.simps)
qed

lemma proto3_fuel:
  "le_opt (pb_check_proto3_default_value d m f p) (pb_check_proto3_default_value (Suc d) m f p)"
proof (induction d arbitrary: f p)
  case (Suc d)
  have "le_opt (fields_loop (\<lambda>it u. map_option (\<lambda>b. (b, ())) (pb_check_proto3_default_value d m (cur it) (pData it))) it ())
      (fields_loop (\<lambda>it u. map_option (\<lambda>b. (b, ())) (pb_check_proto3_default_value (Suc d) m (cur it) (pData it))) it ())" for it
    by (intro le_opt_fields_loop le_opt_map Suc.IH)
  then show ?case
    by (subst pb_check_proto3_default_value.simps(2), subst pb_check_proto3_default_value.simps(2))
       (auto simp del: pb_check_proto3_default_value.simps simp: Let_def
         intro!: le_opt_if le_opt_map split: pb_ptr.splits prod.splits)
qed simp

text \<open>The interface: an encoder with one more unit of fuel agrees where the first returns.\<close>

locale fuel_step =
  fixes rec rec' :: msg_encoder
  assumes rec_le: "le_opt (rec fs p s) (rec' fs p s)"
begin

lemma submessage_data_le:
  "le_opt (encode_submessage_data rec E sz fs p s) (encode_submessage_data rec' E sz fs p s)"
  unfolding encode_submessage_data_def Let_def by (intro le_opt_intros rec_le)

lemma submessage_le:
  "le_opt (pb_encode_submessage rec E fs p s) (pb_encode_submessage rec' E fs p s)"
  using rec_le[of fs p PB_OSTREAM_SIZING] submessage_data_le
  by (auto simp: pb_encode_submessage_def Let_def le_opt_def[of "rec _ _ _"]
      split: option.splits bool.splits intro!: le_opt_andthen)

lemma value_le:
  "le_opt (call_encoder (PB_ENCODERS rec E l) f p s) (call_encoder (PB_ENCODERS rec' E l) f p s)"
  using submessage_le by (auto simp: call_encoder_def PB_ENCODERS_def pb_enc_submessage_def split: pb_ptr.splits)

lemma array_loop_le:
  "(\<And>q s. le_opt (body q s) (body' q s)) \<Longrightarrow> le_opt (array_loop body k p n s) (array_loop body' k p n s)"
  by (induction n arbitrary: p s) (auto intro: le_opt_andthen)

lemma packed_size_le:
  "le_opt (packed_size (PB_ENCODERS rec E l) f p count) (packed_size (PB_ENCODERS rec' E l) f p count)"
  using array_loop_le[of "call_encoder (PB_ENCODERS rec E l) f" "call_encoder (PB_ENCODERS rec' E l) f",
      OF value_le]
  unfolding packed_size_def by (intro le_opt_intros) auto

lemma array_le:
  "le_opt (encode_array E (PB_ENCODERS rec E l) f p count s) (encode_array E (PB_ENCODERS rec' E l) f p count s)"
proof -
  note vals = array_loop_le[of "call_encoder (PB_ENCODERS rec E l) f" "call_encoder (PB_ENCODERS rec' E l) f",
      OF value_le]
  have "le_opt
      (case packed_size (PB_ENCODERS rec E l) f p count of None \<Rightarrow> None
       | Some None \<Rightarrow> Some (False, s)
       | Some (Some sz) \<Rightarrow> andthen (pb_encode_varint E sz s) (\<lambda>s.
           if os_callback s = OC_NULL then pb_write E [] sz s
           else array_loop (call_encoder (PB_ENCODERS rec E l) f) (uint (data_size f)) p (unat count) s))
      (case packed_size (PB_ENCODERS rec' E l) f p count of None \<Rightarrow> None
       | Some None \<Rightarrow> Some (False, s)
       | Some (Some sz) \<Rightarrow> andthen (pb_encode_varint E sz s) (\<lambda>s.
           if os_callback s = OC_NULL then pb_write E [] sz s
           else array_loop (call_encoder (PB_ENCODERS rec' E l) f) (uint (data_size f)) p (unat count) s))"
    for s
    by (rule le_opt_case[OF packed_size_le])
       (auto split: option.splits intro!: le_opt_andthen vals)
  then show ?thesis
    unfolding encode_array_def by (intro le_opt_if le_opt_andthen array_loop_le value_le) auto
qed

lemma field_le: "le_opt (encode_field d rec E f p s) (encode_field (Suc d) rec' E f p s)"
proof -
  have "le_opt (encode_basic_field d rec E f p s) (encode_basic_field (Suc d) rec' E f p s)"
    unfolding encode_basic_field_def Let_def
    by (intro le_opt_intros proto3_fuel array_le value_le)
  then show ?thesis unfolding encode_field_def by (intro le_opt_if) auto
qed

lemma extension_le: "le_opt (extension_loop n d rec E x s) (extension_loop (Suc n) (Suc d) rec' E x s)"
proof (induction n arbitrary: x s)
  case (Suc n)
  have "le_opt (default_extension_encoder d rec E x s) (default_extension_encoder (Suc d) rec' E x s)" for s
    unfolding default_extension_encoder_def Let_def by (intro le_opt_intros field_le)
  then show ?case
    by (subst extension_loop.simps(2), subst extension_loop.simps(2))
       (auto simp only: Let_def intro!: le_opt_intros Suc.IH)
qed simp

lemma one_le: "le_opt (encode_one d rec E it s) (encode_one (Suc d) rec' E it s)"
  unfolding encode_one_def encode_extension_field_def
  by (intro le_opt_if extension_le field_le)

end

lemma pb_encode_fuel: "le_opt (pb_encode d E fs p s) (pb_encode (Suc d) E fs p s)"
proof (induction d arbitrary: fs p s)
  case (Suc d)
  then have "fuel_step (pb_encode d E) (pb_encode (Suc d) E)" by unfold_locales
  from le_opt_fields_loop[OF fuel_step.one_le[OF this]] show ?case
    by (subst pb_encode.simps(2), subst pb_encode.simps(2)) (auto split: prod.splits simp del: pb_encode.simps)
qed simp

interpretation fuel: fuel_step "pb_encode d E" "pb_encode (Suc d) E" for d E
  by unfold_locales (rule pb_encode_fuel)

lemma pb_encode_more_fuel: "le_opt (pb_encode d E fs p s) (pb_encode (d + k) E fs p s)"
proof (induction k)
  case (Suc k)
  with fuel.rec_le[of "d + k" E fs p s] show ?case by (auto simp: le_opt_def)
qed simp

text \<open>The fuel only decides whether the model returns, never what it returns: two runs that
  return give the same verdict and the same stream.\<close>

theorem pb_encode_fuel_irrelevant:
  assumes "pb_encode d E fs p s = Some r" and "pb_encode d' E fs p s = Some r'"
  shows "r = r'"
proof -
  have "le_opt (pb_encode d E fs p s) (pb_encode (max d d') E fs p s)"
    and "le_opt (pb_encode d' E fs p s) (pb_encode (max d d') E fs p s)"
    using pb_encode_more_fuel[of d E fs p s "d' - d"] pb_encode_more_fuel[of d' E fs p s "d - d'"]
    by (auto simp: max_def)
  then show ?thesis using assms by (metis le_opt_Some option.inject)
qed

end
