(* ===== verification/Pb_Read.thy ===== *)
theory Pb_Read
  imports Pb_Write
begin

text \<open>
  Input streams and the primitive decoders of \<^verbatim>\<open>nanopb/pb_decode.c\<close>.

  The input is read through \<^verbatim>\<open>const\<close> pointers or through a user callback, so it has a memory
  of its own, \<open>is_in\<close>. A user callback is a number; the parameter \<open>R\<close> says what each does. A
  callback that succeeds has filled the buffer; one that fails may have filled a part of it,
  and may report the end of the input by setting \<open>bytes_left\<close> to zero, which is what
  \<open>pb_decode_varint32_eof\<close> looks at.

  A primitive decoder is a function from a stream to an optional value and a stream; \<open>None\<close>
  is the return value \<^verbatim>\<open>false\<close>. The central notion is \<open>reads f bs v\<close>: on a buffer stream whose
  input starts with \<open>bs\<close>, the decoder \<open>f\<close> gives \<open>v\<close> and consumes exactly \<open>bs\<close>.
\<close>

section \<open>Streams\<close>

datatype icallback = IC_buf_read | IC_custom addr

record pb_istream_t =
  is_callback :: icallback
  is_state :: addr
  is_in :: mem
  bytes_left :: "64 word"
  is_errmsg :: "string option"

datatype read_result = ReadOk "nat \<Rightarrow> byte" addr mem | ReadError "byte list" bool addr mem

type_synonym read_env = "addr \<Rightarrow> addr \<Rightarrow> mem \<Rightarrow> nat \<Rightarrow> read_result"
type_synonym 'a reader = "pb_istream_t \<Rightarrow> 'a option \<times> pb_istream_t"

definition IS_SET_ERROR :: "string \<Rightarrow> pb_istream_t \<Rightarrow> pb_istream_t" where
  "IS_SET_ERROR msg s =
     s\<lparr>is_errmsg := (case is_errmsg s of Some e \<Rightarrow> Some e | None \<Rightarrow> Some msg)\<rparr>"

definition IS_RETURN_ERROR :: "string \<Rightarrow> 'a reader" where
  "IS_RETURN_ERROR msg s = (None, IS_SET_ERROR msg s)"

text \<open>\<^verbatim>\<open>if (!f(stream, &v)) return false; g(stream, v)\<close>\<close>

definition rbind :: "'a reader \<Rightarrow> ('a \<Rightarrow> 'b reader) \<Rightarrow> 'b reader" where
  "rbind f g s = (case f s of (None, s') \<Rightarrow> (None, s') | (Some v, s') \<Rightarrow> g v s')"

definition rreturn :: "'a \<Rightarrow> 'a reader" where
  "rreturn v s = (Some v, s)"

lemma rbind_cong [fundef_cong]:
  "f s = f' s' \<Longrightarrow> (\<And>v t. f' s' = (Some v, t) \<Longrightarrow> g v t = g' v t) \<Longrightarrow> rbind f g s = rbind f' g' s'"
  by (auto simp: rbind_def split: option.splits prod.splits)

text \<open>The argument \<open>nullbuf\<close> says that the buffer pointer is null; the list is what was put
  into the buffer.\<close>

definition buf_read :: "bool \<Rightarrow> 64 word \<Rightarrow> pb_istream_t \<Rightarrow> bool \<times> byte list \<times> pb_istream_t" where
  "buf_read nullbuf count s =
     (True, if nullbuf then [] else loads (is_in s) (is_state s) (unat count),
      s\<lparr>is_state := is_state s + uint count\<rparr>)"

text \<open>\<^verbatim>\<open>stream->callback(stream, buf, count)\<close>\<close>

definition istream_callback ::
  "read_env \<Rightarrow> bool \<Rightarrow> 64 word \<Rightarrow> pb_istream_t \<Rightarrow> bool \<times> byte list \<times> pb_istream_t" where
  "istream_callback R nullbuf count s =
     (case is_callback s of
        IC_buf_read \<Rightarrow> buf_read nullbuf count s
      | IC_custom fn \<Rightarrow>
          (case R fn (is_state s) (is_in s) (unat count) of
             ReadOk g st inp \<Rightarrow> (True, map g [0..<unat count], s\<lparr>is_state := st, is_in := inp\<rparr>)
           | ReadError bs eof st inp \<Rightarrow>
               (False, take (unat count) bs,
                s\<lparr>is_state := st, is_in := inp, bytes_left := (if eof then 0 else bytes_left s)\<rparr>)))"

text \<open>\<open>pb_read\<close> behind the loop that skips input of a user stream.\<close>

definition pb_read_some ::
  "read_env \<Rightarrow> bool \<Rightarrow> 64 word \<Rightarrow> pb_istream_t \<Rightarrow> bool \<times> byte list \<times> pb_istream_t" where
  "pb_read_some R nullbuf count s =
     (if bytes_left s < count then (False, [], IS_SET_ERROR ''end-of-stream'' s)
      else case istream_callback R nullbuf count s of
             (False, bs, s) \<Rightarrow> (False, bs, IS_SET_ERROR ''io error'' s)
           | (True, bs, s) \<Rightarrow> (True, bs, s\<lparr>bytes_left := bytes_left s - count\<rparr>))"

function pb_read_skip :: "read_env \<Rightarrow> 64 word \<Rightarrow> pb_istream_t \<Rightarrow> bool \<times> pb_istream_t" where
  "pb_read_skip R count s =
     (if count > 16
      then case pb_read_some R False 16 s of
             (ok, _, s) \<Rightarrow> if ok then pb_read_skip R (count - 16) s else (False, s)
      else case pb_read_some R False count s of (ok, _, s) \<Rightarrow> (ok, s))"
  by pat_completeness auto
termination
proof (relation "measure (\<lambda>(R, count, s). unat count)")
  fix R :: read_env and count :: "64 word" and s s' :: pb_istream_t
  assume "16 < count"
  then have "unat (count - 16) = unat count - 16" "16 < unat count"
    by (simp_all add: unat_minus_le word_less_nat_alt word_le_nat_alt)
  then show "((R, count - 16, s'), R, count, s) \<in> measure (\<lambda>(R, count, s). unat count)" by simp
qed simp

declare pb_read_skip.simps [simp del]

definition pb_read ::
  "read_env \<Rightarrow> bool \<Rightarrow> 64 word \<Rightarrow> pb_istream_t \<Rightarrow> bool \<times> byte list \<times> pb_istream_t" where
  "pb_read R nullbuf count s =
     (if count = 0 then (True, [], s)
      else if nullbuf \<and> is_callback s \<noteq> IC_buf_read
      then case pb_read_skip R count s of (ok, s) \<Rightarrow> (ok, [], s)
      else pb_read_some R nullbuf count s)"

text \<open>\<open>pb_read\<close> into a local array, and \<open>pb_read\<close> with a null buffer.\<close>

definition pb_read_local :: "read_env \<Rightarrow> 64 word \<Rightarrow> byte list reader" where
  "pb_read_local R count s =
     (case pb_read R False count s of (ok, bs, s) \<Rightarrow> (if ok then Some bs else None, s))"

definition pb_read_null :: "read_env \<Rightarrow> 64 word \<Rightarrow> unit reader" where
  "pb_read_null R count s =
     (case pb_read R True count s of (ok, bs, s) \<Rightarrow> (if ok then Some () else None, s))"

definition pb_readbyte :: "read_env \<Rightarrow> byte reader" where
  "pb_readbyte R s =
     (if bytes_left s = 0 then IS_RETURN_ERROR ''end-of-stream'' s
      else case istream_callback R False 1 s of
             (False, bs, s) \<Rightarrow> IS_RETURN_ERROR ''io error'' s
           | (True, bs, s) \<Rightarrow> (Some (hd bs), s\<lparr>bytes_left := bytes_left s - 1\<rparr>))"

definition pb_istream_from_buffer :: "mem \<Rightarrow> addr \<Rightarrow> 64 word \<Rightarrow> pb_istream_t" where
  "pb_istream_from_buffer m buf bufsize =
     \<lparr>is_callback = IC_buf_read, is_state = buf, is_in = m, bytes_left = bufsize, is_errmsg = None\<rparr>"

section \<open>Varints\<close>

lemma istream_callback_True:
  "istream_callback R nb count s = (True, bs, s') \<Longrightarrow> bytes_left s' = bytes_left s"
  by (auto simp: istream_callback_def buf_read_def split: icallback.splits read_result.splits)

lemma word_minus_one_less: "(w :: 'a::len word) \<noteq> 0 \<Longrightarrow> unat (w - 1) < unat w"
  using unat_gt_0[of w] by (simp add: unat_minus_one)

lemma pb_readbyte_less:
  "pb_readbyte R s = (Some b, s') \<Longrightarrow> unat (bytes_left s') < unat (bytes_left s)"
  by (auto simp: pb_readbyte_def IS_RETURN_ERROR_def word_minus_one_less
      dest!: istream_callback_True split: if_splits prod.splits bool.splits)

text \<open>The loop of \<open>pb_decode_varint32_eof\<close>, from the second byte on. The type
  \<^verbatim>\<open>uint_fast8_t\<close> of \<open>bitpos\<close> has eight bits.\<close>

function varint32_loop :: "read_env \<Rightarrow> 8 word \<Rightarrow> 32 word \<Rightarrow> 32 word reader" where
  "varint32_loop R bitpos result s =
     rbind (pb_readbyte R) (\<lambda>byte s.
       if bitpos \<ge> 32 \<and> byte AND 0x7F \<noteq> 0 \<and>
          (drop_bit 31 result = 0 \<or> byte \<noteq> (if bitpos < 63 then 0xFF else 0x01))
       then IS_RETURN_ERROR ''varint overflow'' s
       else
         let result = (if bitpos \<ge> 32 then result
                       else result OR push_bit (unat bitpos) (ucast (byte AND 0x7F)));
             bitpos = bitpos + 7
         in if byte AND 0x80 \<noteq> 0 then varint32_loop R bitpos result s
            else if bitpos = 35 \<and> byte AND 0x70 \<noteq> 0
            then IS_RETURN_ERROR ''varint overflow'' s
            else (Some result, s)) s"
  by pat_completeness auto
termination
  by (relation "measure (\<lambda>(R, bitpos, result, s). unat (bytes_left s))") (auto dest: pb_readbyte_less)

declare varint32_loop.simps [simp del]

text \<open>The flag is true when the caller's \<open>eof\<close> variable is set.\<close>

definition pb_decode_varint32_eof :: "read_env \<Rightarrow> pb_istream_t \<Rightarrow> 32 word option \<times> bool \<times> pb_istream_t" where
  "pb_decode_varint32_eof R s =
     (case pb_readbyte R s of
        (None, s) \<Rightarrow> (None, bytes_left s = 0, s)
      | (Some byte, s) \<Rightarrow>
          if byte AND 0x80 = 0 then (Some (ucast byte), False, s)
          else case varint32_loop R 7 (ucast (byte AND 0x7F)) s of (r, s) \<Rightarrow> (r, False, s))"

definition pb_decode_varint32 :: "read_env \<Rightarrow> 32 word reader" where
  "pb_decode_varint32 R s = (case pb_decode_varint32_eof R s of (r, eof, s) \<Rightarrow> (r, s))"

function varint64_loop :: "read_env \<Rightarrow> 8 word \<Rightarrow> 64 word \<Rightarrow> 64 word reader" where
  "varint64_loop R bitpos result s =
     (if bitpos \<ge> 64 then IS_RETURN_ERROR ''varint overflow'' s
      else rbind (pb_readbyte R) (\<lambda>byte s.
        let result = result OR push_bit (unat bitpos) (ucast (byte AND 0x7F));
            bitpos = bitpos + 7
        in if byte AND 0x80 \<noteq> 0 then varint64_loop R bitpos result s else (Some result, s)) s)"
  by pat_completeness auto
termination
  by (relation "measure (\<lambda>(R, bitpos, result, s). unat (bytes_left s))") (auto dest: pb_readbyte_less)

declare varint64_loop.simps [simp del]

definition pb_decode_varint :: "read_env \<Rightarrow> 64 word reader" where
  "pb_decode_varint R s = varint64_loop R 0 0 s"

lemma pb_read_local_less:
  "pb_read_local R 1 s = (Some bs, s') \<Longrightarrow> unat (bytes_left s') < unat (bytes_left s)"
  by (auto simp: pb_read_local_def pb_read_def pb_read_some_def word_less_nat_alt unat_minus_le
      word_le_nat_alt dest!: istream_callback_True split: if_splits prod.splits bool.splits)

function pb_skip_varint :: "read_env \<Rightarrow> unit reader" where
  "pb_skip_varint R s =
     rbind (pb_read_local R 1) (\<lambda>bs s.
       if hd bs AND 0x80 \<noteq> 0 then pb_skip_varint R s else (Some (), s)) s"
  by pat_completeness auto
termination
  by (relation "measure (\<lambda>(R, s). unat (bytes_left s))") (auto dest: pb_read_local_less)

declare pb_skip_varint.simps [simp del]

definition pb_skip_string :: "read_env \<Rightarrow> unit reader" where
  "pb_skip_string R = rbind (pb_decode_varint32 R) (\<lambda>len. pb_read_null R (ucast len))"

section \<open>Tags, fields and substreams\<close>

text \<open>\<open>pb_decode_tag\<close> gives the wire type and the tag, or the value of \<open>eof\<close> on failure.\<close>

definition pb_decode_tag ::
  "read_env \<Rightarrow> pb_istream_t \<Rightarrow> (bool + pb_wire_type_t \<times> 32 word) \<times> pb_istream_t" where
  "pb_decode_tag R s =
     (case pb_decode_varint32_eof R s of
        (None, eof, s) \<Rightarrow> (Inl eof, s)
      | (Some temp, eof, s) \<Rightarrow>
          if temp = 0 then (Inl True, s) else (Inr (temp AND 7, drop_bit 3 temp), s))"

definition pb_skip_field :: "read_env \<Rightarrow> pb_wire_type_t \<Rightarrow> unit reader" where
  "pb_skip_field R wire_type s =
     (if wire_type = PB_WT_VARINT then pb_skip_varint R s
      else if wire_type = PB_WT_64BIT then pb_read_null R 8 s
      else if wire_type = PB_WT_STRING then pb_skip_string R s
      else if wire_type = PB_WT_32BIT then pb_read_null R 4 s
      else IS_RETURN_ERROR ''invalid wire_type'' s)"

text \<open>The bytes a failing \<open>read_raw_value\<close> has put into its buffer are not looked at by its
  caller.\<close>

fun raw_varint_loop :: "read_env \<Rightarrow> nat \<Rightarrow> byte list reader" where
  "raw_varint_loop R 0 s = (None, s)"
| "raw_varint_loop R (Suc n) s =
     rbind (pb_read_local R 1) (\<lambda>bs.
       if hd bs AND 0x80 \<noteq> 0
       then rbind (raw_varint_loop R n) (\<lambda>rest. rreturn (hd bs # rest))
       else rreturn [hd bs]) s"

definition read_raw_value :: "read_env \<Rightarrow> pb_wire_type_t \<Rightarrow> nat \<Rightarrow> byte list reader" where
  "read_raw_value R wire_type max_sz s =
     (if wire_type = PB_WT_VARINT then raw_varint_loop R max_sz s
      else if wire_type = PB_WT_64BIT then pb_read_local R 8 s
      else if wire_type = PB_WT_32BIT then pb_read_local R 4 s
      else IS_RETURN_ERROR ''invalid wire_type'' s)"

definition pb_make_string_substream :: "read_env \<Rightarrow> pb_istream_t reader" where
  "pb_make_string_substream R =
     rbind (pb_decode_varint32 R) (\<lambda>sz s.
       if bytes_left s < ucast sz then IS_RETURN_ERROR ''parent stream too short'' s
       else (Some (s\<lparr>bytes_left := ucast sz\<rparr>), s\<lparr>bytes_left := bytes_left s - ucast sz\<rparr>))"

definition pb_close_string_substream :: "read_env \<Rightarrow> pb_istream_t \<Rightarrow> unit reader" where
  "pb_close_string_substream R substream s =
     (case (if bytes_left substream \<noteq> 0 then pb_read_null R (bytes_left substream) substream
            else (Some (), substream)) of
        (None, substream) \<Rightarrow> (None, s\<lparr>is_in := is_in substream\<rparr>)
      | (Some _, substream) \<Rightarrow>
          (Some (), s\<lparr>is_state := is_state substream, is_in := is_in substream,
                      is_errmsg := is_errmsg substream\<rparr>))"

section \<open>Numbers\<close>

definition unzigzag :: "64 word \<Rightarrow> 64 word" where
  "unzigzag value = (if value AND 1 \<noteq> 0 then NOT (drop_bit 1 value) else drop_bit 1 value)"

definition pb_decode_svarint :: "read_env \<Rightarrow> 64 word reader" where
  "pb_decode_svarint R = rbind (pb_decode_varint R) (\<lambda>value. rreturn (unzigzag value))"

definition pb_decode_fixed32 :: "read_env \<Rightarrow> 32 word reader" where
  "pb_decode_fixed32 R =
     rbind (pb_read_local R 4) (\<lambda>bytes. rreturn
       (push_bit 0 (ucast (bytes ! 0)) OR push_bit 8 (ucast (bytes ! 1)) OR
        push_bit 16 (ucast (bytes ! 2)) OR push_bit 24 (ucast (bytes ! 3))))"

definition pb_decode_fixed64 :: "read_env \<Rightarrow> 64 word reader" where
  "pb_decode_fixed64 R =
     rbind (pb_read_local R 8) (\<lambda>bytes. rreturn
       (push_bit 0 (ucast (bytes ! 0)) OR push_bit 8 (ucast (bytes ! 1)) OR
        push_bit 16 (ucast (bytes ! 2)) OR push_bit 24 (ucast (bytes ! 3)) OR
        push_bit 32 (ucast (bytes ! 4)) OR push_bit 40 (ucast (bytes ! 5)) OR
        push_bit 48 (ucast (bytes ! 6)) OR push_bit 56 (ucast (bytes ! 7))))"

definition pb_decode_bool :: "read_env \<Rightarrow> bool reader" where
  "pb_decode_bool R = rbind (pb_decode_varint32 R) (\<lambda>value. rreturn (value \<noteq> 0))"

section \<open>What a decoder reads\<close>

definition is_input :: "pb_istream_t \<Rightarrow> byte list \<Rightarrow> bool" where
  "is_input s bs \<longleftrightarrow> is_callback s = IC_buf_read \<and> length bs \<le> unat (bytes_left s) \<and>
     loads (is_in s) (is_state s) (length bs) = bs"

definition is_adv :: "pb_istream_t \<Rightarrow> nat \<Rightarrow> pb_istream_t" where
  "is_adv s n = s\<lparr>is_state := is_state s + int n, bytes_left := bytes_left s - of_nat n\<rparr>"

definition reads :: "'a reader \<Rightarrow> byte list \<Rightarrow> 'a \<Rightarrow> bool" where
  "reads f bs v \<longleftrightarrow> (\<forall>s. is_input s bs \<longrightarrow> f s = (Some v, is_adv s (length bs)))"

lemma is_adv_simps [simp]:
  "is_adv s 0 = s" "is_callback (is_adv s n) = is_callback s" "is_in (is_adv s n) = is_in s"
  "is_errmsg (is_adv s n) = is_errmsg s" "is_state (is_adv s n) = is_state s + int n"
  "bytes_left (is_adv s n) = bytes_left s - of_nat n"
  by (auto simp: is_adv_def)

lemma is_adv_add [simp]: "is_adv (is_adv s m) n = is_adv s (m + n)"
  by (simp add: is_adv_def algebra_simps)

lemma unat_minus_of_nat:
  assumes "n \<le> unat (w :: 64 word)"
  shows "unat (w - of_nat n) = unat w - n"
proof -
  have "unat (of_nat n :: 64 word) = n" using assms unat_bound_64[of w] by (intro unat_of_nat_64) simp
  with assms show ?thesis by (simp add: unat_minus_le word_le_nat_alt)
qed

lemma is_input_append:
  assumes "is_input s (xs @ ys)"
  shows "is_input s xs" "is_input (is_adv s (length xs)) ys"
  using assms unat_minus_of_nat[of "length xs" "bytes_left s"]
  by (auto simp: is_input_def loads_append)

lemma reads_bind:
  assumes "reads f xs v" "reads (g v) ys w"
  shows "reads (rbind f g) (xs @ ys) w"
  unfolding reads_def
proof (intro allI impI)
  fix s assume "is_input s (xs @ ys)"
  from is_input_append[OF this] assms show "rbind f g s = (Some w, is_adv s (length (xs @ ys)))"
    by (simp add: reads_def rbind_def)
qed

lemma reads_return: "reads (rreturn v) [] v"
  by (simp add: reads_def rreturn_def)

lemma reads_map: "reads f xs v \<Longrightarrow> reads (rbind f (\<lambda>v. rreturn (h v))) xs (h v)"
  using reads_bind[OF _ reads_return, of f xs v "\<lambda>v. rreturn (h v)"]
  by (auto simp: reads_def rbind_def rreturn_def)

lemma readsD: "reads f bs v \<Longrightarrow> is_input s bs \<Longrightarrow> f s = (Some v, is_adv s (length bs))"
  by (simp add: reads_def)

lemma reads_cong: "(\<And>s. f s = g s) \<Longrightarrow> reads g bs v \<Longrightarrow> reads f bs v"
  by (simp add: reads_def)

lemma is_input_Cons:
  "is_input s (b # bs) \<Longrightarrow> bytes_left s \<noteq> 0 \<and> is_callback s = IC_buf_read \<and> is_in s (is_state s) = b"
  by (auto simp: is_input_def)

lemma reads_byte: "reads (pb_readbyte R) [b] b"
  by (auto simp: reads_def pb_readbyte_def istream_callback_def buf_read_def is_adv_def
      dest!: is_input_Cons)

lemma pb_read_input:
  assumes "unat n = length bs" "is_input s bs"
  shows "pb_read R nb n s = (True, if nb then [] else bs, is_adv s (length bs))"
proof -
  have "\<not> bytes_left s < n" using assms by (simp add: is_input_def word_less_nat_alt)
  with assms(2) show ?thesis
    by (auto simp: pb_read_def pb_read_some_def istream_callback_def buf_read_def is_input_def
        is_adv_def simp flip: assms(1))
qed

lemma reads_local: "unat n = length bs \<Longrightarrow> reads (pb_read_local R n) bs bs"
  by (simp add: reads_def pb_read_local_def pb_read_input)

lemma reads_null: "unat n = length bs \<Longrightarrow> reads (pb_read_null R n) bs ()"
  by (simp add: reads_def pb_read_null_def pb_read_input)

section \<open>Varints\<close>

lemma reads_byte_then: "reads (K b) rest v \<Longrightarrow> reads (rbind (pb_readbyte R) K) (b # rest) v"
  using reads_bind[OF reads_byte] by force

lemma varint64_loop_reads:
  assumes "n * 2 ^ (7 * k) < 2 ^ 64" "k \<le> 9" "unat r < 2 ^ (7 * k)"
    and "unat v = unat r + n * 2 ^ (7 * k)"
  shows "reads (varint64_loop R (of_nat (7 * k)) r) (vbytes n) v"
  using assms
proof (induction n arbitrary: k r rule: vbytes.induct)
  case (1 n)
  let ?x = "n mod 128" and ?bp = "of_nat (7 * k) :: byte"
  let ?r = "r OR push_bit (7 * k) (of_nat ?x)"
  have bp: "unat ?bp = 7 * k" "\<not> ?bp \<ge> 64" using "1.prems"(2)
    by (simp_all add: unat_of_nat_8 word_le_nat_alt del: of_nat_mult)
  have "?x * 2 ^ (7 * k) \<le> n * 2 ^ (7 * k)" by simp
  then have lt: "?x * 2 ^ (7 * k) < 2 ^ LENGTH(64)" using "1.prems"(1) unfolding len64 by (rule order.strict_trans1)
  note step = varint_step[OF "1.prems"(3) _ lt, simplified]
  let ?K = "\<lambda>b s.
      if b AND 0x80 \<noteq> 0 then varint64_loop R (?bp + 7) (r OR push_bit (7 * k) (ucast (b AND 0x7F))) s
      else (Some (r OR push_bit (7 * k) (ucast (b AND 0x7F))), s)"
  have unf: "varint64_loop R ?bp r s = rbind (pb_readbyte R) ?K s" for s
    using bp by (subst varint64_loop.simps) (simp add: Let_def del: of_nat_mult)
  show ?case
  proof (cases "n < 128")
    case True
    have "unat ?r = unat v" using step(1) "1.prems" True by simp
    then have "?r = v" by (simp add: word_unat_eq_iff)
    then have "reads (rreturn ?r) [] v" using reads_return by auto
    then have "reads (rbind (pb_readbyte R) ?K) [of_nat n] v"
      by (intro reads_byte_then, elim reads_cong[rotated])
         (use True in \<open>auto simp: byte_high byte_low ucast_of_nat_8 rreturn_def\<close>)
    then show ?thesis
      unfolding vbytes_Cons(2)[OF True] by (rule reads_cong[OF unf])
  next
    case False
    have sp: "?x * 2 ^ (7 * k) + (n div 128) * 2 ^ (7 * Suc k) = n * 2 ^ (7 * k)"
      using mult_split_128[of n "7 * k"] by (simp add: algebra_simps)
    then have lt': "(n div 128) * 2 ^ (7 * Suc k) < 2 ^ 64" using "1.prems"(1) by linarith
    have "k \<noteq> 9"
    proof
      assume "k = 9"
      with lt' have "(n div 128) * 2 ^ 70 < 2 ^ 64" by simp
      with False show False by (simp add: div_greater_zero_iff)
    qed
    moreover have "unat ?r < 2 ^ (7 * Suc k)"
      using step(2) "1.prems"(2) by (simp add: algebra_simps)
    moreover have "unat v = unat ?r + (n div 128) * 2 ^ (7 * Suc k)"
      using step(1) "1.prems"(2,4) sp by simp
    ultimately have "reads (varint64_loop R (of_nat (7 * Suc k)) ?r) (vbytes (n div 128)) v"
      using "1.prems"(2) lt' False by (intro "1.IH") auto
    moreover have "of_nat (7 * Suc k) = ?bp + 7" by simp
    ultimately have "reads (varint64_loop R (?bp + 7) ?r) (vbytes (n div 128)) v" by (simp only:)
    then have "reads (rbind (pb_readbyte R) ?K) (of_nat (?x + 128) # vbytes (n div 128)) v"
      by (intro reads_byte_then, elim reads_cong[rotated])
         (simp add: byte_high byte_low ucast_of_nat_8 del: of_nat_add of_nat_mult)
    then show ?thesis
      using False unfolding vbytes_Cons(1)[OF False[unfolded not_less]]
      by (intro reads_cong[OF unf])
  qed
qed


lemma and_70_small: "n < 16 \<Longrightarrow> (of_nat n :: byte) AND 0x70 = 0"
proof -
  assume "n < 16"
  then have "n \<in> set [0..<16]" by simp
  then show ?thesis by (simp add: upt_rec) (elim disjE; simp)
qed

lemma varint32_loop_reads:
  assumes "n * 2 ^ (7 * k) < 2 ^ 32" "k \<le> 4" "unat r < 2 ^ (7 * k)"
    and "unat v = unat r + n * 2 ^ (7 * k)"
  shows "reads (varint32_loop R (of_nat (7 * k)) r) (vbytes n) v"
  using assms
proof (induction n arbitrary: k r rule: vbytes.induct)
  case (1 n)
  let ?x = "n mod 128" and ?bp = "of_nat (7 * k) :: byte"
  let ?r = "r OR push_bit (7 * k) (of_nat ?x)"
  have bp: "unat ?bp = 7 * k" "\<not> 32 \<le> ?bp" "unat (?bp + 7) = 7 * k + 7" using "1.prems"(2)
    by (simp_all add: unat_of_nat_8 word_le_nat_alt unat_word_ariths del: of_nat_mult)
  have "?x * 2 ^ (7 * k) \<le> n * 2 ^ (7 * k)" by simp
  then have lt: "?x * 2 ^ (7 * k) < 2 ^ LENGTH(32)"
    using "1.prems"(1) unfolding len32 by (rule order.strict_trans1)
  note step = varint_step[OF "1.prems"(3) _ lt, simplified]
  let ?K = "\<lambda>b s.
      if b AND 0x80 \<noteq> 0 then varint32_loop R (?bp + 7) (r OR push_bit (7 * k) (ucast (b AND 0x7F))) s
      else if ?bp + 7 = 35 \<and> b AND 0x70 \<noteq> 0 then IS_RETURN_ERROR ''varint overflow'' s
      else (Some (r OR push_bit (7 * k) (ucast (b AND 0x7F))), s)"
  have unf: "varint32_loop R ?bp r s = rbind (pb_readbyte R) ?K s" for s
    by (subst varint32_loop.simps) (simp only: bp if_False Let_def simp_thms)
  show ?case
  proof (cases "n < 128")
    case True
    have "?bp + 7 = 35 \<Longrightarrow> (of_nat n :: byte) AND 0x70 = 0"
    proof -
      assume "?bp + 7 = 35"
      then have "7 * k + 7 = 35" using bp(3) by simp
      then have "k = 4" by simp
      with "1.prems"(1) show ?thesis by (intro and_70_small) simp
    qed
    moreover have "unat ?r = unat v" using step(1) "1.prems" True by simp
    then have "?r = v" by (simp add: word_unat_eq_iff)
    then have "reads (rreturn ?r) [] v" using reads_return by auto
    ultimately have "reads (rbind (pb_readbyte R) ?K) [of_nat n] v"
      by (intro reads_byte_then, elim reads_cong[rotated])
         (use True in \<open>auto simp: byte_high byte_low ucast_of_nat_8 rreturn_def\<close>)
    then show ?thesis
      unfolding vbytes_Cons(2)[OF True] by (rule reads_cong[OF unf])
  next
    case False
    have sp: "?x * 2 ^ (7 * k) + (n div 128) * 2 ^ (7 * Suc k) = n * 2 ^ (7 * k)"
      using mult_split_128[of n "7 * k"] by (simp add: algebra_simps)
    then have lt': "(n div 128) * 2 ^ (7 * Suc k) < 2 ^ 32" using "1.prems"(1) by linarith
    have "k \<noteq> 4"
    proof
      assume "k = 4"
      with lt' have "(n div 128) * 2 ^ 35 < 2 ^ 32" by simp
      with False show False by (simp add: div_greater_zero_iff)
    qed
    moreover have "unat ?r < 2 ^ (7 * Suc k)"
      using step(2) "1.prems"(2) by (simp add: algebra_simps)
    moreover have "unat v = unat ?r + (n div 128) * 2 ^ (7 * Suc k)"
      using step(1) "1.prems"(2,4) sp by simp
    ultimately have "reads (varint32_loop R (of_nat (7 * Suc k)) ?r) (vbytes (n div 128)) v"
      using "1.prems"(2) lt' False by (intro "1.IH") auto
    moreover have "of_nat (7 * Suc k) = ?bp + 7" by simp
    ultimately have "reads (varint32_loop R (?bp + 7) ?r) (vbytes (n div 128)) v" by (simp only:)
    then have "reads (rbind (pb_readbyte R) ?K) (of_nat (?x + 128) # vbytes (n div 128)) v"
      by (intro reads_byte_then, elim reads_cong[rotated])
         (simp add: byte_high byte_low ucast_of_nat_8 del: of_nat_add of_nat_mult)
    then show ?thesis
      using False unfolding vbytes_Cons(1)[OF False[unfolded not_less]]
      by (intro reads_cong[OF unf])
  qed
qed

lemma reads_varint: "reads (pb_decode_varint R) (vbytes (unat v)) v"
  using varint64_loop_reads[of "unat v" 0 0 v R] unat_bound_64[of v]
  by (auto simp: pb_decode_varint_def intro: reads_cong)

lemma varint32_rbind:
  "pb_decode_varint32 R s = rbind (pb_readbyte R) (\<lambda>b s.
     if b AND 0x80 = 0 then (Some (ucast b), s)
     else varint32_loop R 7 (ucast (b AND 0x7F)) s) s"
  by (auto simp: pb_decode_varint32_def pb_decode_varint32_eof_def rbind_def
      split: option.splits prod.splits)

lemma varint32_eof_Some:
  "pb_decode_varint32 R s = (Some v, s') \<Longrightarrow> pb_decode_varint32_eof R s = (Some v, False, s')"
  by (auto simp: pb_decode_varint32_def pb_decode_varint32_eof_def
      split: option.splits prod.splits if_splits)

lemma reads_varint32: "reads (pb_decode_varint32 R) (vbytes (unat v)) v"
proof (rule reads_cong[OF varint32_rbind])
  let ?n = "unat v" and ?K = "\<lambda>b s. if b AND 0x80 = 0 then (Some (ucast b), s)
     else varint32_loop R 7 (ucast (b AND 0x7F)) s"
  show "reads (rbind (pb_readbyte R) ?K) (vbytes ?n) v"
  proof (cases "?n < 128")
    case True
    have h: "(of_nat ?n :: byte) AND 0x80 = 0" using True by (simp only: byte_high)
    have u: "(ucast (of_nat ?n :: byte) :: 32 word) = v" using True by (subst ucast_of_nat_8) simp_all
    have "reads (rreturn v) [] v" by (rule reads_return)
    then have "reads (rbind (pb_readbyte R) ?K) [of_nat ?n] v"
      by (intro reads_byte_then, elim reads_cong[rotated])
         (simp only: h u rreturn_def if_True simp_thms)
    then show ?thesis unfolding vbytes_Cons(2)[OF True] .
  next
    case False
    have "reads (varint32_loop R (of_nat (7 * 1)) (of_nat (?n mod 128))) (vbytes (?n div 128)) v"
    proof (rule varint32_loop_reads)
      have u: "unat (of_nat (?n mod 128) :: 32 word) = ?n mod 128"
        by (simp add: unat_of_nat take_bit_nat_eq_self)
      then show "unat (of_nat (?n mod 128) :: 32 word) < 2 ^ (7 * 1)"
        and "unat v = unat (of_nat (?n mod 128) :: 32 word) + ?n div 128 * 2 ^ (7 * 1)" by simp_all
      show "?n div 128 * 2 ^ (7 * 1) < 2 ^ 32" using unat_bound_32[of v] by simp
    qed simp
    then have "reads (rbind (pb_readbyte R) ?K) (of_nat (?n mod 128 + 128) # vbytes (?n div 128)) v"
      by (intro reads_byte_then, elim reads_cong[rotated])
         (simp add: byte_high byte_low ucast_of_nat_8 del: of_nat_add)
    then show ?thesis unfolding vbytes_Cons(1)[OF False[unfolded not_less]] .
  qed
qed

lemma unzigzag_zigzag: "unzigzag (zigzag v) = v"
proof -
  have b0: "(w :: 64 word) AND 1 \<noteq> 0 \<longleftrightarrow> bit w 0" for w
    by (simp add: and_one_eq bit_0 odd_iff_mod_2_eq_one)
  have top: "sint v < 0 \<longleftrightarrow> bit v 63"
    using bit_last_iff[of v] by simp
  define q where "q = push_bit 1 v"
  have q: "bit q n \<longleftrightarrow> 0 < n \<and> n < 64 \<and> bit v (n - 1)" for n
    unfolding q_def bit_push_bit_iff by auto
  have last: "n < 64 \<Longrightarrow> \<not> n < 63 \<Longrightarrow> n = 63" for n :: nat by simp
  show ?thesis
    unfolding unzigzag_def zigzag_def b0 top q_def[symmetric]
    by (rule bit_word_eqI) (auto simp: bit_simps q dest: last)
qed

lemma reads_svarint: "reads (pb_decode_svarint R) (vbytes (unat (zigzag v))) v"
  using reads_map[OF reads_varint, of R unzigzag "zigzag v"]
  by (simp add: pb_decode_svarint_def unzigzag_zigzag)

lemma fixed32_of_le:
  assumes "length bs = 4"
  shows "push_bit 0 (ucast (bs ! 0)) OR push_bit 8 (ucast (bs ! 1)) OR
        push_bit 16 (ucast (bs ! 2)) OR push_bit 24 (ucast (bs ! 3)) = (of_le bs :: 32 word)"
proof -
  have "length bs = Suc (Suc (Suc (Suc 0)))" using assms by simp
  then obtain a b c d where "bs = [a, b, c, d]" by (auto simp: length_Suc_conv)
  then show ?thesis by (simp add: push_bit_or push_bit_push_bit or.assoc)
qed

lemma fixed64_of_le:
  assumes "length bs = 8"
  shows "push_bit 0 (ucast (bs ! 0)) OR push_bit 8 (ucast (bs ! 1)) OR
        push_bit 16 (ucast (bs ! 2)) OR push_bit 24 (ucast (bs ! 3)) OR
        push_bit 32 (ucast (bs ! 4)) OR push_bit 40 (ucast (bs ! 5)) OR
        push_bit 48 (ucast (bs ! 6)) OR push_bit 56 (ucast (bs ! 7)) = (of_le bs :: 64 word)"
proof -
  have "length bs = Suc (Suc (Suc (Suc (Suc (Suc (Suc (Suc 0)))))))" using assms by simp
  then obtain a b c d e f g h where "bs = [a, b, c, d, e, f, g, h]" by (auto simp: length_Suc_conv)
  then show ?thesis by (simp add: push_bit_or push_bit_push_bit or.assoc)
qed

lemma reads_fixed32: "reads (pb_decode_fixed32 R) (le_bytes 4 v) v"
proof -
  have "reads (pb_decode_fixed32 R) bs (of_le bs)" if "length bs = 4" for bs
    using reads_map[OF reads_local[of 4 bs R]] that
    unfolding pb_decode_fixed32_def by (simp flip: fixed32_of_le)
  from this[of "le_bytes 4 v"] show ?thesis by (simp add: of_le_le_bytes take_bit_word_eq_self)
qed

lemma reads_fixed64: "reads (pb_decode_fixed64 R) (le_bytes 8 v) v"
proof -
  have "reads (pb_decode_fixed64 R) bs (of_le bs)" if "length bs = 8" for bs
    using reads_map[OF reads_local[of 8 bs R]] that
    unfolding pb_decode_fixed64_def by (simp flip: fixed64_of_le)
  from this[of "le_bytes 8 v"] show ?thesis by (simp add: of_le_le_bytes take_bit_word_eq_self)
qed

lemma drop_tag:
  assumes "unat (wt :: 32 word) < 8" "n < 2 ^ 29" "unat t = n * 8 + unat wt"
  shows "t AND 7 = wt" "drop_bit 3 t = (of_nat n :: 32 word)"
proof -
  have "t AND 7 = take_bit 3 t" by (simp add: take_bit_eq_mask mask_eq_exp_minus_1)
  moreover have "unat (take_bit 3 t) = unat wt"
    using assms by (simp add: unsigned_take_bit_eq take_bit_eq_mod unat_mod)
  ultimately show "t AND 7 = wt" by (simp add: word_unat_eq_iff)
  have "unat (drop_bit 3 t) = n"
    using assms by (simp add: drop_bit_eq_div unat_div)
  then show "drop_bit 3 t = (of_nat n :: 32 word)" by auto
qed

lemma tag_decoded:
  assumes "unat wt < 8" "unat n < 2 ^ 29" "wt \<noteq> 0 \<or> n \<noteq> 0" "is_input s (tag_bytes wt n)"
  shows "pb_decode_tag R s = (Inr (wt, n), is_adv s (length (tag_bytes wt n)))"
proof -
  let ?t = "of_nat (unat n * 8 + unat wt) :: 32 word"
  have lt: "unat n * 8 + unat wt < 2 ^ 32" using assms by simp
  then have u: "unat ?t = unat n * 8 + unat wt" by (simp add: unat_of_nat take_bit_nat_eq_self del: of_nat_add of_nat_mult)
  have "?t \<noteq> 0" using u assms(3) by (auto simp: word_unat_eq_iff)
  moreover have "pb_decode_varint32 R s = (Some ?t, is_adv s (length (tag_bytes wt n)))"
    using readsD[OF reads_varint32[of R ?t]] assms(4) by (simp only: u tag_bytes_def)
  note varint32_eof_Some[OF this]
  ultimately show ?thesis
    using drop_tag[OF assms(1,2) u] by (simp add: pb_decode_tag_def)
qed

lemma reads_skip_varint: "reads (pb_skip_varint R) (vbytes n) ()"
proof (induction n rule: vbytes.induct)
  case (1 n)
  let ?K = "\<lambda>(bs :: byte list) s. if hd bs AND 0x80 \<noteq> 0 then pb_skip_varint R s else (Some (), s)"
  have one: "reads (rbind (pb_read_local R 1) ?K) ([b] @ rest) ()" if "reads (?K [b]) rest ()" for b rest
    by (rule reads_bind[where v = "[b]"]) (use that in \<open>simp_all add: reads_local\<close>)
  have "reads (rbind (pb_read_local R 1) ?K) (vbytes n) ()"
  proof (cases "n < 128")
    case True
    have "reads (?K [of_nat n]) [] ()" using True by (simp add: byte_high reads_def)
    from one[OF this] show ?thesis by (simp add: vbytes_Cons True)
  next
    case False
    with 1 have "reads (?K [of_nat (n mod 128 + 128)]) (vbytes (n div 128)) ()"
      by (simp add: byte_high del: of_nat_add)
    from one[OF this] False show ?thesis by (simp add: vbytes_Cons)
  qed
  then show ?case by (rule reads_cong[OF pb_skip_varint.simps])
qed

lemma reads_skip_string:
  assumes "length bs < 2 ^ 32"
  shows "reads (pb_skip_string R) (vbytes (length bs) @ bs) ()"
proof -
  let ?len = "of_nat (length bs) :: 32 word"
  have u: "unat ?len = length bs" using assms by (simp add: unat_of_nat take_bit_nat_eq_self)
  have "reads (pb_decode_varint32 R) (vbytes (length bs)) ?len" using reads_varint32[of R ?len] u by simp
  then show ?thesis unfolding pb_skip_string_def by (rule reads_bind) (simp add: reads_null u)
qed

section \<open>Reading stays inside the buffer\<close>

text \<open>A buffer stream stands for the window from \<open>is_state\<close> to \<open>is_state + bytes_left\<close>. A
  decoder stays inside when it only moves the start of the window forward and its result does
  not depend on memory outside the window.\<close>

definition same_window :: "pb_istream_t \<Rightarrow> pb_istream_t \<Rightarrow> bool" where
  "same_window s s' \<longleftrightarrow> is_callback s' = is_callback s \<and> is_in s' = is_in s \<and> is_state s \<le> is_state s' \<and>
     is_state s' + uint (bytes_left s') = is_state s + uint (bytes_left s)"

definition agree :: "pb_istream_t \<Rightarrow> mem \<Rightarrow> bool" where
  "agree s m \<longleftrightarrow> (\<forall>x. is_state s \<le> x \<and> x < is_state s + uint (bytes_left s) \<longrightarrow> m x = is_in s x)"

definition inside :: "'a reader \<Rightarrow> pb_istream_t \<Rightarrow> bool" where
  "inside f s \<longleftrightarrow> (is_callback s = IC_buf_read \<longrightarrow>
     same_window s (snd (f s)) \<and>
     (\<forall>m. agree s m \<longrightarrow> f (s\<lparr>is_in := m\<rparr>) = (fst (f s), (snd (f s))\<lparr>is_in := m\<rparr>)))"

lemma same_window_refl [simp]: "same_window s s" by (simp add: same_window_def)

lemma same_window_trans: "same_window s t \<Longrightarrow> same_window t u \<Longrightarrow> same_window s u"
  by (auto simp: same_window_def)

lemma agree_window: "agree s m \<Longrightarrow> same_window s t \<Longrightarrow> agree t m"
  by (auto simp: agree_def same_window_def)

lemma inside_return: "inside (\<lambda>s. (Some v, s)) s" by (simp add: inside_def)

lemma inside_error: "inside (IS_RETURN_ERROR msg) s"
  by (auto simp: inside_def IS_RETURN_ERROR_def IS_SET_ERROR_def same_window_def split: option.splits)

lemma inside_cong: "(\<And>s. f s = g s) \<Longrightarrow> inside g s \<Longrightarrow> inside f s" by (simp add: inside_def)

lemma inside_if:
  "(c \<Longrightarrow> inside f s) \<Longrightarrow> (\<not> c \<Longrightarrow> inside g s) \<Longrightarrow> inside (\<lambda>s. if c then f s else g s) s"
  by (cases c) auto

lemma inside_rbind:
  assumes f: "inside f s" and g: "\<And>v s'. f s = (Some v, s') \<Longrightarrow> inside (g v) s'"
  shows "inside (rbind f g) s"
proof (cases "is_callback s = IC_buf_read")
  case True
  obtain r t where ft: "f s = (r, t)" by force
  from f ft True have w: "same_window s t"
    and fm: "\<And>m. agree s m \<Longrightarrow> f (s\<lparr>is_in := m\<rparr>) = (r, t\<lparr>is_in := m\<rparr>)"
    by (auto simp: inside_def)
  show ?thesis
  proof (cases r)
    case None
    with True ft w fm show ?thesis by (auto simp: inside_def rbind_def)
  next
    case (Some v)
    with ft g have "inside (g v) t" by simp
    moreover have "is_callback t = IC_buf_read" using w True by (simp add: same_window_def)
    ultimately show ?thesis
      using True ft w fm Some agree_window[OF _ w]
      by (auto simp: inside_def rbind_def intro: same_window_trans)
  qed
qed (simp add: inside_def)

lemma loads_agree:
  "agree s m \<Longrightarrow> n \<le> bytes_left s \<Longrightarrow>
   loads m (is_state s) (unat n) = loads (is_in s) (is_state s) (unat n)"
  by (rule loads_cong) (auto simp: agree_def word_le_def)

lemma uint_minus_le: "(n :: 'a::len word) \<le> w \<Longrightarrow> uint (w - n) = uint w - uint n"
  by (simp add: uint_sub_if' word_le_def)

lemma pb_read_some_inside:
  assumes "is_callback s = IC_buf_read" "pb_read_some R nb n s = (ok, bs, s')"
  shows "same_window s s'"
    and "agree s m \<Longrightarrow> pb_read_some R nb n (s\<lparr>is_in := m\<rparr>) = (ok, bs, s'\<lparr>is_in := m\<rparr>)"
  using assms
  by (auto simp: pb_read_some_def istream_callback_def buf_read_def IS_SET_ERROR_def same_window_def
      uint_minus_le loads_agree split: if_splits option.splits)

lemma pb_read_inside:
  assumes "is_callback s = IC_buf_read" "pb_read R nb n s = (ok, bs, s')"
  shows "same_window s s'"
    and "agree s m \<Longrightarrow> pb_read R nb n (s\<lparr>is_in := m\<rparr>) = (ok, bs, s'\<lparr>is_in := m\<rparr>)"
  using assms pb_read_some_inside[OF assms(1)]
  by (auto simp: pb_read_def split: if_splits)

lemma inside_local: "inside (pb_read_local R n) s"
  using pb_read_inside[of s R False n]
  by (auto simp: inside_def pb_read_local_def split: prod.splits)

lemma inside_null: "inside (pb_read_null R n) s"
  using pb_read_inside[of s R True n]
  by (auto simp: inside_def pb_read_null_def split: prod.splits)

lemma pb_readbyte_local:
  "pb_readbyte R s = rbind (pb_read_local R 1) (\<lambda>bs. rreturn (hd bs)) s"
proof -
  have "bytes_left s < 1 \<longleftrightarrow> bytes_left s = 0" by (simp add: word_less_nat_alt unat_eq_0)
  then show ?thesis
    by (auto simp: pb_readbyte_def pb_read_local_def pb_read_def pb_read_some_def rbind_def rreturn_def
        IS_RETURN_ERROR_def split: prod.splits bool.splits)
qed

lemma inside_byte: "inside (pb_readbyte R) s"
  by (rule inside_cong[OF pb_readbyte_local], rule inside_rbind[OF inside_local])
     (simp add: inside_def rreturn_def)

lemma inside_varint32_loop: "inside (varint32_loop R bp r) s"
proof (induction R bp r s rule: varint32_loop.induct)
  case (1 R bp r s)
  show ?case
    by (rule inside_cong[OF varint32_loop.simps], rule inside_rbind[OF inside_byte])
       (auto simp only: Let_def intro!: inside_if inside_error inside_return 1)
qed

lemma inside_varint64_loop: "inside (varint64_loop R bp r) s"
proof (induction R bp r s rule: varint64_loop.induct)
  case (1 R bp r s)
  show ?case
    by (rule inside_cong[OF varint64_loop.simps], rule inside_if, rule inside_error,
        rule inside_rbind[OF inside_byte])
       (auto simp only: Let_def intro!: inside_if inside_error inside_return 1)
qed

lemma inside_skip_varint: "inside (pb_skip_varint R) s"
proof (induction R s rule: pb_skip_varint.induct)
  case (1 R s)
  show ?case
    by (rule inside_cong[OF pb_skip_varint.simps], rule inside_rbind[OF inside_local])
       (auto intro!: inside_if inside_return 1)
qed

lemma inside_varint32: "inside (pb_decode_varint32 R) s"
  by (rule inside_cong[OF varint32_rbind], rule inside_rbind[OF inside_byte])
     (auto intro!: inside_if inside_varint32_loop inside_return)

lemma inside_varint: "inside (pb_decode_varint R) s"
  by (rule inside_cong[OF _ inside_varint64_loop]) (simp add: pb_decode_varint_def)

lemma inside_skip_field: "inside (pb_skip_field R wt) s"
  unfolding pb_skip_field_def pb_skip_string_def
  by (intro inside_if inside_rbind inside_skip_varint inside_null inside_varint32 inside_error)

end
