(* ===== verification/Pb_Roundtrip.thy ===== *)
theory Pb_Roundtrip
  imports Pb_Wire Pb_Read
begin

text \<open>
  The primitive decoders undo the primitive encoders: what an encoder writes into a buffer
  is read back from that buffer as the same value, to the last byte.
\<close>

text \<open>\<open>roundtrips f g v n\<close>: in every buffer of at least \<open>n\<close> bytes the encoder \<open>f\<close> succeeds,
  and the decoder \<open>g\<close>, run on the bytes written, gives \<open>v\<close> and consumes all of them.\<close>

definition roundtrips :: "pb_ostream_t act \<Rightarrow> 'a reader \<Rightarrow> 'a \<Rightarrow> nat \<Rightarrow> bool" where
  "roundtrips f g v n \<longleftrightarrow>
     (\<forall>m buf bufsize. n \<le> unat bufsize \<and> unat bufsize < 2 ^ 63 \<longrightarrow>
        (\<exists>s. f (pb_ostream_from_buffer m buf bufsize) = Some (True, s) \<and>
             g (pb_istream_from_buffer (os_out s) buf (bytes_written s)) =
               (Some v, pb_istream_from_buffer (os_out s) (buf + uint (bytes_written s)) 0)))"

lemma roundtripsI:
  assumes f: "emits f bs" and g: "reads g bs v" and n: "length bs \<le> n"
  shows "roundtrips f g v n"
  unfolding roundtrips_def
proof (intro allI impI)
  fix m buf and bufsize :: "64 word"
  assume "n \<le> unat bufsize \<and> unat bufsize < 2 ^ 63"
  then have fits: "length bs \<le> unat bufsize" and b: "unat bufsize < 2 ^ 63" using n by auto
  from emits_buffer[OF f b, of m buf] fits obtain s where
    s: "f (pb_ostream_from_buffer m buf bufsize) = Some (True, s)"
      "bytes_written s = of_nat (length bs)" "loads (os_out s) buf (length bs) = bs"
    by (auto simp: buffer_result_def)
  have u: "unat (of_nat (length bs) :: 64 word) = length bs"
    using fits b by (intro unat_of_nat_64) simp
  then have ui: "uint (of_nat (length bs) :: 64 word) = int (length bs)" by (metis uint_nat)
  from u have "is_input (pb_istream_from_buffer (os_out s) buf (bytes_written s)) bs"
    using s by (simp add: is_input_def pb_istream_from_buffer_def)
  from readsD[OF g this] have "g (pb_istream_from_buffer (os_out s) buf (bytes_written s)) =
      (Some v, pb_istream_from_buffer (os_out s) (buf + uint (bytes_written s)) 0)"
    using s(2) ui by (simp add: is_adv_def pb_istream_from_buffer_def)
  with s(1) show "\<exists>s. f (pb_ostream_from_buffer m buf bufsize) = Some (True, s) \<and>
             g (pb_istream_from_buffer (os_out s) buf (bytes_written s)) =
               (Some v, pb_istream_from_buffer (os_out s) (buf + uint (bytes_written s)) 0)" by blast
qed

text \<open>A 64-bit number survives the trip through the varint encoding, which takes at most
  ten bytes.\<close>

theorem varint_roundtrip: "roundtrips (pb_encode_varint E v) (pb_decode_varint R) v 10"
  by (rule roundtripsI[OF emits_varint reads_varint length_vbytes_64])

text \<open>A signed 64-bit number survives the trip through the zigzag encoding.\<close>

theorem svarint_roundtrip: "roundtrips (pb_encode_svarint E v) (pb_decode_svarint R) v 10"
  by (rule roundtripsI[OF emits_svarint reads_svarint length_vbytes_64])

text \<open>A 64-bit fixed-size number is written with eight bytes and read back.\<close>

theorem fixed64_roundtrip:
  "roundtrips (pb_encode_fixed64 E p) (pb_decode_fixed64 R) (ld64 (env_mem E) p) 8"
  by (rule roundtripsI[OF emits_fixed64 reads_fixed64]) simp

text \<open>A field tag is read back as the field number and the wire type, for every field
  number below 2 to the 29 (the limit of the protobuf format).\<close>

theorem tag_roundtrip:
  assumes "unat wt < 8" and "unat n < 2 ^ 29" and "n \<noteq> 0"
  shows "roundtrips (pb_encode_tag E wt n)
    (\<lambda>s. case pb_decode_tag R s of (Inl eof, s) \<Rightarrow> (None, s) | (Inr x, s) \<Rightarrow> (Some x, s)) (wt, n) 5"
proof (rule roundtripsI[OF emits_tag[OF assms(1)]])
  show "reads (\<lambda>s. case pb_decode_tag R s of (Inl eof, s) \<Rightarrow> (None, s) | (Inr x, s) \<Rightarrow> (Some x, s))
      (tag_bytes wt n) (wt, n)"
    unfolding reads_def using tag_decoded[OF assms(1,2)] assms(3) by simp
  show "length (tag_bytes wt n) \<le> 5"
    unfolding tag_bytes_def by (rule length_vbytes_le) (use assms in auto)
qed

text \<open>Environments without user code, for the concrete cases.\<close>

definition quiet_enc :: "mem \<Rightarrow> pb_enc_env" where
  "quiet_enc m = \<lparr>env_mem = m, env_write = (\<lambda>fn st m bs. (False, st, m)),
     env_encode = (\<lambda>fn f arg s. Some (True, s)), env_ext_encode = (\<lambda>fn x s. Some (True, s)),
     env_ext_fields = (\<lambda>a. [])\<rparr>"

definition quiet_read :: read_env where
  "quiet_read fn st m n = ReadError [] True st m"

theorem tag_roundtrip_witness:
  "roundtrips (pb_encode_tag (quiet_enc (\<lambda>_. 0)) 2 7)
    (\<lambda>s. case pb_decode_tag quiet_read s of (Inl eof, s) \<Rightarrow> (None, s) | (Inr x, s) \<Rightarrow> (Some x, s)) (2, 7) 5"
  by (rule tag_roundtrip) simp_all

text \<open>\<open>pb_skip_field\<close> skips exactly one encoded value: of a varint, of a fixed-size number,
  or of a length-delimited string of any content.\<close>

theorem skip_field_exact:
  "roundtrips (pb_encode_varint E v) (pb_skip_field R PB_WT_VARINT) () 10 \<and>
   roundtrips (pb_encode_fixed32 E p) (pb_skip_field R PB_WT_32BIT) () 4 \<and>
   roundtrips (pb_encode_fixed64 E p) (pb_skip_field R PB_WT_64BIT) () 8 \<and>
   (\<forall>sz. unat sz < 2 ^ 32 \<longrightarrow>
      roundtrips (pb_encode_string E p sz) (pb_skip_field R PB_WT_STRING) () (unat sz + 10))"
proof (intro conjI allI impI)
  show "roundtrips (pb_encode_varint E v) (pb_skip_field R PB_WT_VARINT) () 10"
    by (rule roundtripsI[OF emits_varint reads_cong[OF _ reads_skip_varint] length_vbytes_64])
       (simp add: pb_skip_field_def)
  show "roundtrips (pb_encode_fixed32 E p) (pb_skip_field R PB_WT_32BIT) () 4"
    by (rule roundtripsI[OF emits_fixed32 reads_cong[OF _ reads_null[of 4]]])
       (simp_all add: pb_skip_field_def)
  show "roundtrips (pb_encode_fixed64 E p) (pb_skip_field R PB_WT_64BIT) () 8"
    by (rule roundtripsI[OF emits_fixed64 reads_cong[OF _ reads_null[of 8]]])
       (simp_all add: pb_skip_field_def)
  fix sz :: "64 word" assume "unat sz < 2 ^ 32"
  then have "reads (pb_skip_string R) (vbytes (unat sz) @ loads (env_mem E) p (unat sz)) ()"
    using reads_skip_string[of "loads (env_mem E) p (unat sz)" R] by simp
  then show "roundtrips (pb_encode_string E p sz) (pb_skip_field R PB_WT_STRING) () (unat sz + 10)"
    by (intro roundtripsI[OF emits_string reads_cong])
       (use length_vbytes_64[of sz] in \<open>simp_all add: pb_skip_field_def\<close>)
qed

theorem skip_field_exact_witness:
  "roundtrips (pb_encode_string (quiet_enc (\<lambda>_. 65)) 4096 3) (pb_skip_field quiet_read PB_WT_STRING) () 13"
  using skip_field_exact[of "quiet_enc (\<lambda>_. 65)" 0 quiet_read 4096] by (auto dest: spec[of _ 3])

text \<open>The decoder of 32-bit varints counts bits in an eight-bit variable, which wraps
  around: after thirty-seven padding bytes the thirty-eighth byte is shifted in at bit three,
  and a number is reported where the input is longer than any varint can be.\<close>

theorem varint32_bitpos_wraps:
  "fst (pb_decode_varint32 R (pb_istream_from_buffer (\<lambda>x. if x < 37 then 0x80 else 1) 0 38)) = Some 8 \<and>
   fst (pb_decode_varint R (pb_istream_from_buffer (\<lambda>x. if x < 37 then 0x80 else 1) 0 38)) = None"
  by code_simp

end
