(* ===== verification/Pb_Decode.thy ===== *)
theory Pb_Decode
  imports Pb_Read
begin

text \<open>
  The field and message decoders of \<^verbatim>\<open>nanopb/pb_decode.c\<close>.

  The state of a decoder is the record \<open>dec_state\<close>: the current input stream, the memory of
  the decoded message, the live blocks of the heap (their sizes), and the local variable
  \<^verbatim>\<open>fixed_count_size\<close> of the running \<open>pb_decode_noinit\<close>, which the iterator may point to.
  \<open>realloc\<close> chooses addresses by the parameter \<open>denv_realloc\<close>; a call of \<open>realloc\<close> or
  \<open>free\<close> with a pointer that is no live block is undefined and gives \<open>None\<close>. User functions
  are parameters as in the encoder.

  The functions on the cycle through submessages take the decoder of submessages as the
  argument \<open>rec\<close>; \<open>pb_decode_noinit\<close> closes the cycle with fuel, which bounds the nesting
  of messages, the length of extension lists and the calls of a field callback on one
  substream. A C function without a result is a function to \<open>dec_state option\<close>.
\<close>

section \<open>State\<close>

record dec_state =
  instr :: pb_istream_t
  dmem :: mem
  blocks :: "addr \<rightharpoonup> nat"
  fixed_count_size :: "32 word"

record pb_dec_env =
  denv_read :: read_env
  denv_decode :: "addr \<Rightarrow> pb_field_t \<Rightarrow> addr \<Rightarrow> dec_state act"
  denv_ext_decode :: "addr \<Rightarrow> addr \<Rightarrow> 32 word \<Rightarrow> pb_wire_type_t \<Rightarrow> dec_state act"
  denv_ext_fields :: "addr \<Rightarrow> pb_field_t list"
  denv_realloc :: "(addr \<rightharpoonup> nat) \<Rightarrow> addr \<Rightarrow> nat \<Rightarrow> addr"

type_synonym pb_decoder_t = "pb_field_t \<Rightarrow> addr \<Rightarrow> dec_state act"
type_synonym msg_decoder = "pb_field_t list \<Rightarrow> addr \<Rightarrow> dec_state act"

definition DS_RETURN_ERROR :: "string \<Rightarrow> dec_state act" where
  "DS_RETURN_ERROR msg s = Some (False, s\<lparr>instr := IS_SET_ERROR msg (instr s)\<rparr>)"

text \<open>\<^verbatim>\<open>if (!r(stream, &v)) return false; k(v)\<close>\<close>

definition with_value :: "'a reader \<Rightarrow> ('a \<Rightarrow> dec_state act) \<Rightarrow> dec_state act" where
  "with_value r k s =
     (case r (instr s) of
        (None, i) \<Rightarrow> Some (False, s\<lparr>instr := i\<rparr>)
      | (Some v, i) \<Rightarrow> k v (s\<lparr>instr := i\<rparr>))"

text \<open>\<open>pb_read\<close> into the message, \<open>memset\<close> to zero, and the variable \<open>iter->pSize\<close> points to.\<close>

definition read_to :: "pb_dec_env \<Rightarrow> addr \<Rightarrow> 64 word \<Rightarrow> dec_state act" where
  "read_to E dest count s =
     (case pb_read (denv_read E) (dest = NULL) count (instr s) of
        (ok, bs, i) \<Rightarrow> Some (ok, s\<lparr>instr := i, dmem := stores (dmem s) dest bs\<rparr>))"

definition memset0 :: "addr \<Rightarrow> 32 word \<Rightarrow> dec_state \<Rightarrow> dec_state" where
  "memset0 p n s = s\<lparr>dmem := stores (dmem s) p (replicate (unat n) 0)\<rparr>"

definition size_get :: "pb_field_iter_t \<Rightarrow> dec_state \<Rightarrow> 32 word" where
  "size_get it s = (case pSize it of InMem a \<Rightarrow> ld32 (dmem s) a | FixedCountSize \<Rightarrow> fixed_count_size s)"

definition size_set :: "pb_field_iter_t \<Rightarrow> 32 word \<Rightarrow> dec_state \<Rightarrow> dec_state" where
  "size_set it v s =
     (case pSize it of
        InMem a \<Rightarrow> s\<lparr>dmem := st32 (dmem s) a v\<rparr>
      | FixedCountSize \<Rightarrow> s\<lparr>fixed_count_size := v\<rparr>)"

definition has_set :: "pb_field_iter_t \<Rightarrow> bool \<Rightarrow> dec_state \<Rightarrow> dec_state" where
  "has_set it b s =
     (case pSize it of
        InMem a \<Rightarrow> s\<lparr>dmem := (dmem s)(a := if b then 1 else 0)\<rparr>
      | FixedCountSize \<Rightarrow>
          s\<lparr>fixed_count_size := (fixed_count_size s AND NOT 0xFF) OR (if b then 1 else 0)\<rparr>)"

text \<open>The address of array item number \<open>n\<close>: the product is computed in 32 bits.\<close>

definition item_at :: "addr \<Rightarrow> pb_field_t \<Rightarrow> 32 word \<Rightarrow> addr" where
  "item_at base f n = base + uint (data_size f * n)"

section \<open>The heap\<close>

definition pb_realloc :: "pb_dec_env \<Rightarrow> addr \<Rightarrow> 64 word \<Rightarrow> dec_state \<Rightarrow> (addr \<times> dec_state) option" where
  "pb_realloc E old n s =
     (if old \<noteq> NULL \<and> blocks s old = None then None
      else let new = denv_realloc E (blocks s) old (unat n) in
        if new = NULL then Some (NULL, s)
        else let keep = (case blocks s old of None \<Rightarrow> 0 | Some k \<Rightarrow> min k (unat n)) in
          Some (new, s\<lparr>blocks := (blocks s)(old := None, new \<mapsto> unat n),
                       dmem := stores (dmem s) new (loads (dmem s) old keep)\<rparr>))"

definition pb_free :: "addr \<Rightarrow> dec_state \<Rightarrow> dec_state option" where
  "pb_free p s =
     (if p = NULL then Some s
      else if blocks s p = None then None
      else Some (s\<lparr>blocks := (blocks s)(p := None)\<rparr>))"

definition allocate_field :: "pb_dec_env \<Rightarrow> addr \<Rightarrow> 64 word \<Rightarrow> 64 word \<Rightarrow> dec_state act" where
  "allocate_field E pdata data_sz array_sz s =
     (let p = ldptr (dmem s) pdata; check_limit = push_bit 32 (1 :: 64 word) in
      if data_sz = 0 \<or> array_sz = 0 then DS_RETURN_ERROR ''invalid size'' s
      else if (data_sz \<ge> check_limit \<or> array_sz \<ge> check_limit) \<and> (-1) div array_sz < data_sz
      then DS_RETURN_ERROR ''size too large'' s
      else case pb_realloc E p (array_sz * data_sz) s of
             None \<Rightarrow> None
           | Some (p, s) \<Rightarrow>
               if p = NULL then DS_RETURN_ERROR ''realloc failed'' s
               else Some (True, s\<lparr>dmem := stptr (dmem s) pdata p\<rparr>))"

section \<open>Extensions\<close>

definition iter_from_extension :: "pb_dec_env \<Rightarrow> addr \<Rightarrow> mem \<Rightarrow> pb_field_iter_t" where
  "iter_from_extension E ext m =
     (let fs = denv_ext_fields E (exttype_arg m (ext_type m ext));
          it = snd (pb_field_iter_begin fs (ext_dest m ext));
          it = it\<lparr>pData := ext_dest m ext, pSize := InMem (ext_found_addr ext)\<rparr>
      in if PB_ATYPE (ftype (field_at fs 0)) = PB_ATYPE_POINTER
         then it\<lparr>pData := ext_dest_addr ext\<rparr> else it)"

section \<open>Default values\<close>

text \<open>The initialisation of the data of a static field.\<close>

definition init_static_data ::
  "(pb_field_t list \<Rightarrow> addr \<Rightarrow> dec_state \<Rightarrow> dec_state option) \<Rightarrow> pb_field_t \<Rightarrow> addr \<Rightarrow>
    dec_state \<Rightarrow> dec_state option" where
  "init_static_data mset f p s =
     (if PB_LTYPE (ftype f) = PB_LTYPE_SUBMESSAGE
      then case ptr f of SubFields fs \<Rightarrow> mset fs p s | _ \<Rightarrow> None
      else case ptr f of
             DefaultValue bs \<Rightarrow> Some (s\<lparr>dmem := stores (dmem s) p (take (unat (data_size f)) bs)\<rparr>)
           | SubFields fs \<Rightarrow> None
           | NullPtr \<Rightarrow> Some (memset0 p (data_size f) s))"

text \<open>\<^verbatim>\<open>do { body(&iter); } while (pb_field_iter_next(&iter));\<close> for a body without a result.\<close>

definition void_fields_loop ::
  "(pb_field_iter_t \<Rightarrow> dec_state \<Rightarrow> dec_state option) \<Rightarrow> pb_field_iter_t \<Rightarrow> dec_state \<Rightarrow> dec_state option" where
  "void_fields_loop body it s =
     map_option snd (fields_loop (\<lambda>it s. map_option (Pair True) (body it s)) it s)"

fun pb_field_set_to_default :: "nat \<Rightarrow> pb_dec_env \<Rightarrow> pb_field_iter_t \<Rightarrow> dec_state \<Rightarrow> dec_state option"
and extensions_set_to_default :: "nat \<Rightarrow> pb_dec_env \<Rightarrow> addr \<Rightarrow> dec_state \<Rightarrow> dec_state option"
and pb_message_set_to_defaults ::
  "nat \<Rightarrow> pb_dec_env \<Rightarrow> pb_field_t list \<Rightarrow> addr \<Rightarrow> dec_state \<Rightarrow> dec_state option" where
  "pb_field_set_to_default 0 E it s = None"
| "pb_field_set_to_default (Suc d) E it s =
     (let f = cur it; type = ftype f in
      if PB_LTYPE type = PB_LTYPE_EXTENSION
      then extensions_set_to_default d E (ldptr (dmem s) (pData it)) s
      else if PB_ATYPE type = PB_ATYPE_STATIC
      then if PB_HTYPE type = PB_HTYPE_OPTIONAL \<and> pSize it \<noteq> InMem (pData it)
           then init_static_data (pb_message_set_to_defaults d E) f (pData it) (has_set it False s)
           else if PB_HTYPE type = PB_HTYPE_REPEATED \<or> PB_HTYPE type = PB_HTYPE_ONEOF
           then Some (size_set it 0 s)
           else init_static_data (pb_message_set_to_defaults d E) f (pData it) s
      else if PB_ATYPE type = PB_ATYPE_POINTER
      then let s = s\<lparr>dmem := stptr (dmem s) (pData it) NULL\<rparr> in
           if PB_HTYPE type = PB_HTYPE_REPEATED \<or> PB_HTYPE type = PB_HTYPE_ONEOF
           then Some (size_set it 0 s) else Some s
      else Some s)"
| "extensions_set_to_default 0 E ext s = (if ext = NULL then Some s else None)"
| "extensions_set_to_default (Suc d) E ext s =
     (if ext = NULL then Some s
      else let s = s\<lparr>dmem := (dmem s)(ext_found_addr ext := 0)\<rparr> in
        case pb_field_set_to_default d E (iter_from_extension E ext (dmem s)) s of
          None \<Rightarrow> None
        | Some s \<Rightarrow> extensions_set_to_default d E (ext_next (dmem s) ext) s)"
| "pb_message_set_to_defaults 0 E flds dest s = None"
| "pb_message_set_to_defaults (Suc d) E flds dest s =
     (case pb_field_iter_begin flds dest of
        (ok, it) \<Rightarrow> if ok then void_fields_loop (pb_field_set_to_default d E) it s else Some s)"

section \<open>Releasing\<close>

fun void_loop :: "(addr \<Rightarrow> dec_state \<Rightarrow> dec_state option) \<Rightarrow> int \<Rightarrow> addr \<Rightarrow> nat \<Rightarrow> dec_state \<Rightarrow> dec_state option" where
  "void_loop body stride p 0 s = Some s"
| "void_loop body stride p (Suc n) s =
     (case body p s of None \<Rightarrow> None | Some s \<Rightarrow> void_loop body stride (p + stride) n s)"

definition free_item :: "addr \<Rightarrow> dec_state \<Rightarrow> dec_state option" where
  "free_item p s =
     (case pb_free (ldptr (dmem s) p) s of
        None \<Rightarrow> None | Some s \<Rightarrow> Some (s\<lparr>dmem := stptr (dmem s) p NULL\<rparr>))"

text \<open>How many submessages a field holds, as \<open>pb_release_single_field\<close> counts them.\<close>

definition release_count :: "pb_field_iter_t \<Rightarrow> dec_state \<Rightarrow> 32 word" where
  "release_count it s =
     (let f = cur it; static = (PB_ATYPE (ftype f) = PB_ATYPE_STATIC) in
      if PB_HTYPE (ftype f) = PB_HTYPE_REPEATED
      then let count = (if static \<and> pSize it = InMem (pData it) then array_size f else size_get it s)
           in if static \<and> count > array_size f then array_size f else count
      else 1)"

text \<open>The last part of \<open>pb_release_single_field\<close>.\<close>

definition release_pointer :: "pb_field_iter_t \<Rightarrow> dec_state \<Rightarrow> dec_state option" where
  "release_pointer it s =
     (let f = cur it; type = ftype f in
      if PB_ATYPE type = PB_ATYPE_POINTER
      then case (if PB_HTYPE type = PB_HTYPE_REPEATED \<and>
                    (PB_LTYPE type = PB_LTYPE_STRING \<or> PB_LTYPE type = PB_LTYPE_BYTES)
                 then void_loop free_item sizeof_ptr (ldptr (dmem s) (pData it)) (unat (size_get it s)) s
                 else Some s) of
             None \<Rightarrow> None
           | Some s \<Rightarrow>
               let s = (if PB_HTYPE type = PB_HTYPE_REPEATED then size_set it 0 s else s) in
               free_item (pData it) s
      else Some s)"

fun pb_release_single_field :: "nat \<Rightarrow> pb_dec_env \<Rightarrow> pb_field_iter_t \<Rightarrow> dec_state \<Rightarrow> dec_state option"
and extensions_release :: "nat \<Rightarrow> pb_dec_env \<Rightarrow> addr \<Rightarrow> dec_state \<Rightarrow> dec_state option"
and pb_release :: "nat \<Rightarrow> pb_dec_env \<Rightarrow> pb_field_t list \<Rightarrow> addr \<Rightarrow> dec_state \<Rightarrow> dec_state option" where
  "pb_release_single_field 0 E it s = None"
| "pb_release_single_field (Suc d) E it s =
     (let f = cur it; type = ftype f in
      if PB_HTYPE type = PB_HTYPE_ONEOF \<and> size_get it s \<noteq> tag f then Some s
      else case (if PB_LTYPE type = PB_LTYPE_EXTENSION
                 then extensions_release d E (ldptr (dmem s) (pData it)) s
                 else if PB_LTYPE type = PB_LTYPE_SUBMESSAGE \<and> PB_ATYPE type \<noteq> PB_ATYPE_CALLBACK
                 then let pItem = (if PB_ATYPE type = PB_ATYPE_POINTER
                                   then ldptr (dmem s) (pData it) else pData it)
                      in if pItem \<noteq> NULL
                         then void_loop (\<lambda>p s. case ptr f of SubFields fs \<Rightarrow> pb_release d E fs p s | _ \<Rightarrow> None)
                                (uint (data_size f)) pItem (unat (release_count it s)) s
                         else Some s
                 else Some s) of
             None \<Rightarrow> None
           | Some s \<Rightarrow> release_pointer it s)"
| "extensions_release 0 E ext s = (if ext = NULL then Some s else None)"
| "extensions_release (Suc d) E ext s =
     (if ext = NULL then Some s
      else case pb_release_single_field d E (iter_from_extension E ext (dmem s)) s of
             None \<Rightarrow> None
           | Some s \<Rightarrow> extensions_release d E (ext_next (dmem s) ext) s)"
| "pb_release 0 E flds dest s = None"
| "pb_release (Suc d) E flds dest s =
     (if dest = NULL then Some s
      else case pb_field_iter_begin flds dest of
             (ok, it) \<Rightarrow> if ok then void_fields_loop (pb_release_single_field d E) it s else Some s)"

section \<open>Decoders of single values\<close>

definition pb_dec_bool :: "pb_dec_env \<Rightarrow> pb_decoder_t" where
  "pb_dec_bool E f dest =
     with_value (pb_decode_varint32 (denv_read E)) (\<lambda>v s.
       Some (True, s\<lparr>dmem := (dmem s)(dest := if v \<noteq> 0 then 1 else 0)\<rparr>))"

text \<open>The \<^verbatim>\<open>if\<close> chains that store a number of \<open>data_size\<close> bytes: the new memory and the value
  that was stored (\<open>clamped\<close>).\<close>

definition store_signed :: "pb_field_t \<Rightarrow> addr \<Rightarrow> 64 word \<Rightarrow> mem \<Rightarrow> (mem \<times> 64 word) option" where
  "store_signed f dest v m =
     (if data_size f = 8 then Some (st64 m dest v, v)
      else if data_size f = 4 then Some (st32 m dest (ucast v), scast (ucast v :: 32 word))
      else if data_size f = 2 then Some (st16 m dest (ucast v), scast (ucast v :: 16 word))
      else if data_size f = 1 then Some (m(dest := ucast v), scast (ucast v :: 8 word))
      else None)"

definition store_unsigned :: "pb_field_t \<Rightarrow> addr \<Rightarrow> 64 word \<Rightarrow> mem \<Rightarrow> (mem \<times> 64 word) option" where
  "store_unsigned f dest v m =
     (if data_size f = 8 then Some (st64 m dest v, v)
      else if data_size f = 4 then Some (st32 m dest (ucast v), ucast (ucast v :: 32 word))
      else if data_size f = 2 then Some (st16 m dest (ucast v), ucast (ucast v :: 16 word))
      else if data_size f = 1 then Some (m(dest := ucast v), ucast (ucast v :: 8 word))
      else None)"

definition store_checked :: "(mem \<Rightarrow> (mem \<times> 64 word) option) \<Rightarrow> 64 word \<Rightarrow> dec_state act" where
  "store_checked store v s =
     (case store (dmem s) of
        None \<Rightarrow> DS_RETURN_ERROR ''invalid data_size'' s
      | Some (m, clamped) \<Rightarrow>
          if clamped \<noteq> v then DS_RETURN_ERROR ''integer too large'' (s\<lparr>dmem := m\<rparr>)
          else Some (True, s\<lparr>dmem := m\<rparr>))"

definition pb_dec_varint :: "pb_dec_env \<Rightarrow> pb_decoder_t" where
  "pb_dec_varint E f dest =
     with_value (pb_decode_varint (denv_read E)) (\<lambda>v.
       let svalue = (if data_size f = 8 then v else scast (ucast v :: 32 word))
       in store_checked (store_signed f dest svalue) svalue)"

definition pb_dec_uvarint :: "pb_dec_env \<Rightarrow> pb_decoder_t" where
  "pb_dec_uvarint E f dest =
     with_value (pb_decode_varint (denv_read E)) (\<lambda>v. store_checked (store_unsigned f dest v) v)"

definition pb_dec_svarint :: "pb_dec_env \<Rightarrow> pb_decoder_t" where
  "pb_dec_svarint E f dest =
     with_value (pb_decode_svarint (denv_read E)) (\<lambda>v. store_checked (store_signed f dest v) v)"

definition pb_dec_fixed32 :: "pb_dec_env \<Rightarrow> pb_decoder_t" where
  "pb_dec_fixed32 E f dest =
     with_value (pb_decode_fixed32 (denv_read E)) (\<lambda>v s. Some (True, s\<lparr>dmem := st32 (dmem s) dest v\<rparr>))"

definition pb_dec_fixed64 :: "pb_dec_env \<Rightarrow> pb_decoder_t" where
  "pb_dec_fixed64 E f dest =
     with_value (pb_decode_fixed64 (denv_read E)) (\<lambda>v s. Some (True, s\<lparr>dmem := st64 (dmem s) dest v\<rparr>))"

text \<open>The end of \<open>pb_dec_bytes\<close>: the size, then the bytes.\<close>

definition fill_bytes :: "pb_dec_env \<Rightarrow> addr \<Rightarrow> 32 word \<Rightarrow> dec_state act" where
  "fill_bytes E bdest sz s =
     read_to E (bdest + int offsetof_bytes) (ucast sz) (s\<lparr>dmem := st32 (dmem s) bdest sz\<rparr>)"

definition pb_dec_bytes :: "pb_dec_env \<Rightarrow> pb_decoder_t" where
  "pb_dec_bytes E f dest =
     with_value (pb_decode_varint32 (denv_read E)) (\<lambda>sz s.
       let alloc_size = PB_BYTES_ARRAY_T_ALLOCSIZE sz in
       if sz > PB_SIZE_MAX then DS_RETURN_ERROR ''bytes overflow'' s
       else if ucast sz > alloc_size then DS_RETURN_ERROR ''size too large'' s
       else if PB_ATYPE (ftype f) = PB_ATYPE_POINTER
       then if bytes_left (instr s) < ucast sz then DS_RETURN_ERROR ''end-of-stream'' s
            else andthen (allocate_field E dest alloc_size 1 s) (\<lambda>s.
                   fill_bytes E (ldptr (dmem s) dest) sz s)
       else if alloc_size > ucast (data_size f) then DS_RETURN_ERROR ''bytes overflow'' s
       else fill_bytes E dest sz s)"

text \<open>The end of \<open>pb_dec_string\<close>: the characters, then the terminator, also on failure.\<close>

definition fill_string :: "pb_dec_env \<Rightarrow> addr \<Rightarrow> 32 word \<Rightarrow> dec_state act" where
  "fill_string E dest sz s =
     (case read_to E dest (ucast sz) s of
        None \<Rightarrow> None
      | Some (status, s) \<Rightarrow> Some (status, s\<lparr>dmem := (dmem s)(dest + uint sz := 0)\<rparr>))"

definition pb_dec_string :: "pb_dec_env \<Rightarrow> pb_decoder_t" where
  "pb_dec_string E f dest =
     with_value (pb_decode_varint32 (denv_read E)) (\<lambda>sz s.
       let alloc_size = ucast (sz + 1) :: 64 word in
       if alloc_size < ucast sz then DS_RETURN_ERROR ''size too large'' s
       else if PB_ATYPE (ftype f) = PB_ATYPE_POINTER
       then if bytes_left (instr s) < ucast sz then DS_RETURN_ERROR ''end-of-stream'' s
            else andthen (allocate_field E dest alloc_size 1 s) (\<lambda>s.
                   fill_string E (ldptr (dmem s) dest) sz s)
       else if alloc_size > ucast (data_size f) then DS_RETURN_ERROR ''string overflow'' s
       else fill_string E dest sz s)"

definition pb_dec_fixed_length_bytes :: "pb_dec_env \<Rightarrow> pb_decoder_t" where
  "pb_dec_fixed_length_bytes E f dest =
     with_value (pb_decode_varint32 (denv_read E)) (\<lambda>sz s.
       if sz > PB_SIZE_MAX then DS_RETURN_ERROR ''bytes overflow'' s
       else if sz = 0 then Some (True, memset0 dest (data_size f) s)
       else if sz \<noteq> data_size f then DS_RETURN_ERROR ''incorrect fixed length bytes size'' s
       else read_to E dest (ucast (data_size f)) s)"

section \<open>Submessages\<close>

text \<open>Run an action on a substream. The input memory is shared with the parent stream.\<close>

definition enter_substream :: "pb_dec_env \<Rightarrow> (pb_istream_t \<Rightarrow> dec_state act) \<Rightarrow> dec_state act" where
  "enter_substream E k s =
     (case pb_make_string_substream (denv_read E) (instr s) of
        (None, i) \<Rightarrow> Some (False, s\<lparr>instr := i\<rparr>)
      | (Some substream, parent) \<Rightarrow> k parent (s\<lparr>instr := substream\<rparr>))"

definition leave_substream :: "pb_dec_env \<Rightarrow> pb_istream_t \<Rightarrow> bool \<Rightarrow> dec_state act" where
  "leave_substream E parent status s =
     (case pb_close_string_substream (denv_read E) (instr s) (parent\<lparr>is_in := is_in (instr s)\<rparr>) of
        (None, i) \<Rightarrow> Some (False, s\<lparr>instr := i\<rparr>)
      | (Some _, i) \<Rightarrow> Some (status, s\<lparr>instr := i\<rparr>))"

definition parent_error :: "pb_istream_t \<Rightarrow> string \<Rightarrow> dec_state act" where
  "parent_error parent msg s =
     Some (False, s\<lparr>instr := IS_SET_ERROR msg (parent\<lparr>is_in := is_in (instr s)\<rparr>)\<rparr>)"

text \<open>\<open>pb_decode\<close>, given the \<open>pb_decode_noinit\<close> it calls.\<close>

definition pb_decode_with :: "nat \<Rightarrow> msg_decoder \<Rightarrow> pb_dec_env \<Rightarrow> msg_decoder" where
  "pb_decode_with d rec E flds dest s =
     (case pb_message_set_to_defaults d E flds dest s of
        None \<Rightarrow> None
      | Some s \<Rightarrow>
          (case rec flds dest s of
             None \<Rightarrow> None
           | Some (True, s) \<Rightarrow> Some (True, s)
           | Some (False, s) \<Rightarrow> map_option (Pair False) (pb_release d E flds dest s)))"

definition pb_dec_submessage :: "nat \<Rightarrow> msg_decoder \<Rightarrow> pb_dec_env \<Rightarrow> pb_decoder_t" where
  "pb_dec_submessage d rec E f dest =
     enter_substream E (\<lambda>parent s.
       case ptr f of
         NullPtr \<Rightarrow> parent_error parent ''invalid field descriptor'' s
       | DefaultValue _ \<Rightarrow> None
       | SubFields fs \<Rightarrow>
           (case (if PB_HTYPE (ftype f) = PB_HTYPE_REPEATED
                  then pb_decode_with d rec E fs dest s else rec fs dest s) of
              None \<Rightarrow> None
            | Some (status, s) \<Rightarrow> leave_substream E parent status s))"

definition PB_DECODERS :: "nat \<Rightarrow> msg_decoder \<Rightarrow> pb_dec_env \<Rightarrow> pb_type_t \<Rightarrow> pb_decoder_t option" where
  "PB_DECODERS d rec E l =
     (if l = PB_LTYPE_BOOL then Some (pb_dec_bool E)
      else if l = PB_LTYPE_VARINT then Some (pb_dec_varint E)
      else if l = PB_LTYPE_UVARINT then Some (pb_dec_uvarint E)
      else if l = PB_LTYPE_SVARINT then Some (pb_dec_svarint E)
      else if l = PB_LTYPE_FIXED32 then Some (pb_dec_fixed32 E)
      else if l = PB_LTYPE_FIXED64 then Some (pb_dec_fixed64 E)
      else if l = PB_LTYPE_BYTES then Some (pb_dec_bytes E)
      else if l = PB_LTYPE_STRING then Some (pb_dec_string E)
      else if l = PB_LTYPE_SUBMESSAGE then Some (pb_dec_submessage d rec E)
      else if l = PB_LTYPE_EXTENSION then None
      else if l = PB_LTYPE_FIXED_LENGTH_BYTES then Some (pb_dec_fixed_length_bytes E)
      else None)"

definition call_decoder :: "pb_decoder_t option \<Rightarrow> pb_decoder_t" where
  "call_decoder func f p s = (case func of None \<Rightarrow> None | Some fn \<Rightarrow> fn f p s)"

section \<open>Static fields\<close>

text \<open>The loop over a packed array, on the substream. Every item consumes at least one byte,
  so the number of bytes bounds the number of rounds.\<close>

fun packed_static_loop :: "nat \<Rightarrow> pb_decoder_t option \<Rightarrow> pb_field_iter_t \<Rightarrow> dec_state act" where
  "packed_static_loop 0 func it s = None"
| "packed_static_loop (Suc n) func it s =
     (if bytes_left (instr s) > 0 \<and> size_get it s < array_size (cur it)
      then andthen (call_decoder func (cur it) (item_at (pData it) (cur it) (size_get it s)) s)
             (\<lambda>s. packed_static_loop n func it (size_set it (size_get it s + 1) s))
      else Some (True, s))"

definition decode_static_field ::
  "nat \<Rightarrow> msg_decoder \<Rightarrow> pb_dec_env \<Rightarrow> pb_wire_type_t \<Rightarrow> pb_field_iter_t \<Rightarrow> dec_state act" where
  "decode_static_field d rec E wire_type it s =
     (let f = cur it; type = ftype f; func = PB_DECODERS d rec E (PB_LTYPE type) in
      if PB_HTYPE type = PB_HTYPE_REQUIRED then call_decoder func f (pData it) s
      else if PB_HTYPE type = PB_HTYPE_OPTIONAL
      then call_decoder func f (pData it)
             (if pSize it \<noteq> InMem (pData it) then has_set it True s else s)
      else if PB_HTYPE type = PB_HTYPE_REPEATED
      then if wire_type = PB_WT_STRING \<and> PB_LTYPE type \<le> PB_LTYPE_LAST_PACKABLE
           then enter_substream E (\<lambda>parent s.
                  case packed_static_loop (Suc (unat (bytes_left (instr s)))) func it s of
                    None \<Rightarrow> None
                  | Some (status, s) \<Rightarrow>
                      if bytes_left (instr s) \<noteq> 0 then parent_error parent ''array overflow'' s
                      else leave_substream E parent status s) s
           else let n = size_get it s; s = size_set it (n + 1) s in
                if n \<ge> array_size f then DS_RETURN_ERROR ''array overflow'' s
                else call_decoder func f (item_at (pData it) f n) s
      else case (if PB_LTYPE type = PB_LTYPE_SUBMESSAGE \<and> size_get it s \<noteq> tag f
                 then case ptr f of
                        SubFields fs \<Rightarrow>
                          pb_message_set_to_defaults d E fs (pData it) (memset0 (pData it) (data_size f) s)
                      | _ \<Rightarrow> None
                 else Some s) of
             None \<Rightarrow> None
           | Some s \<Rightarrow> call_decoder func f (pData it) (size_set it (tag f) s))"

section \<open>Pointer fields\<close>

definition initialize_pointer_field ::
  "nat \<Rightarrow> pb_dec_env \<Rightarrow> addr \<Rightarrow> pb_field_iter_t \<Rightarrow> dec_state \<Rightarrow> dec_state option" where
  "initialize_pointer_field d E pItem it s =
     (let f = cur it; l = PB_LTYPE (ftype f) in
      if l = PB_LTYPE_STRING \<or> l = PB_LTYPE_BYTES
      then Some (s\<lparr>dmem := stptr (dmem s) pItem NULL\<rparr>)
      else if l = PB_LTYPE_SUBMESSAGE
      then case ptr f of
             SubFields fs \<Rightarrow> pb_message_set_to_defaults d E fs pItem (memset0 pItem (data_size f) s)
           | _ \<Rightarrow> None
      else Some s)"

text \<open>The size to which the array of a packed pointer field grows.\<close>

definition grown_size :: "64 word \<Rightarrow> pb_field_t \<Rightarrow> 64 word \<Rightarrow> 64 word" where
  "grown_size left f allocated =
     (let remain = (left - 1) div ucast (data_size f) + 1 in
      if remain < ucast PB_SIZE_MAX - allocated then allocated + remain else allocated + 1)"

text \<open>The loop over a packed array. The middle component of the result says that the parent
  stream gets the message ``too many array entries''.\<close>

fun packed_pointer_loop ::
  "nat \<Rightarrow> nat \<Rightarrow> pb_dec_env \<Rightarrow> pb_decoder_t option \<Rightarrow> pb_field_iter_t \<Rightarrow> 64 word \<Rightarrow> dec_state \<Rightarrow>
    (bool \<times> bool \<times> dec_state) option" where
  "packed_pointer_loop 0 d E func it allocated s = None"
| "packed_pointer_loop (Suc n) d E func it allocated s =
     (let f = cur it; cnt = size_get it s in
      if bytes_left (instr s) = 0 then Some (True, False, s)
      else if cnt = PB_SIZE_MAX then Some (False, True, s)
      else
        let grow = (ucast cnt + 1 > allocated);
            allocated = (if grow then grown_size (bytes_left (instr s)) f allocated else allocated)
        in if grow \<and> data_size f = 0 then None
        else case (if grow then allocate_field E (pData it) (ucast (data_size f)) allocated s
                   else Some (True, s)) of
               None \<Rightarrow> None
             | Some (False, s) \<Rightarrow> Some (False, False, s)
             | Some (True, s) \<Rightarrow>
                 let pItem = item_at (ldptr (dmem s) (pData it)) f (size_get it s) in
                 if pItem = NULL then Some (False, False, s)
                 else case initialize_pointer_field d E pItem it s of
                        None \<Rightarrow> None
                      | Some s \<Rightarrow>
                          (case call_decoder func f pItem s of
                             None \<Rightarrow> None
                           | Some (False, s) \<Rightarrow> Some (False, False, s)
                           | Some (True, s) \<Rightarrow>
                               packed_pointer_loop n d E func it allocated
                                 (size_set it (size_get it s + 1) s)))"

definition decode_pointer_field ::
  "nat \<Rightarrow> msg_decoder \<Rightarrow> pb_dec_env \<Rightarrow> pb_wire_type_t \<Rightarrow> pb_field_iter_t \<Rightarrow> dec_state act" where
  "decode_pointer_field d rec E wire_type it s =
     (let f = cur it; type = ftype f; func = PB_DECODERS d rec E (PB_LTYPE type) in
      if PB_HTYPE type \<noteq> PB_HTYPE_REPEATED
      then case (if PB_LTYPE type = PB_LTYPE_SUBMESSAGE \<and> ldptr (dmem s) (pData it) \<noteq> NULL
                 then pb_release_single_field d E it s else Some s) of
             None \<Rightarrow> None
           | Some s \<Rightarrow>
               let s = (if PB_HTYPE type = PB_HTYPE_ONEOF then size_set it (tag f) s else s) in
               if PB_LTYPE type = PB_LTYPE_STRING \<or> PB_LTYPE type = PB_LTYPE_BYTES
               then call_decoder func f (pData it) s
               else andthen (allocate_field E (pData it) (ucast (data_size f)) 1 s) (\<lambda>s.
                      case initialize_pointer_field d E (ldptr (dmem s) (pData it)) it s of
                        None \<Rightarrow> None
                      | Some s \<Rightarrow> call_decoder func f (ldptr (dmem s) (pData it)) s)
      else if wire_type = PB_WT_STRING \<and> PB_LTYPE type \<le> PB_LTYPE_LAST_PACKABLE
      then let allocated = ucast (size_get it s) in
           enter_substream E (\<lambda>parent s.
             case packed_pointer_loop (Suc (unat (bytes_left (instr s)))) d E func it allocated s of
               None \<Rightarrow> None
             | Some (status, too_many, s) \<Rightarrow>
                 leave_substream E
                   (if too_many then parent\<lparr>is_errmsg := Some ''too many array entries''\<rparr> else parent)
                   status s) s
      else let n = size_get it s in
           if n = PB_SIZE_MAX then DS_RETURN_ERROR ''too many array entries'' s
           else andthen (allocate_field E (pData it) (ucast (data_size f)) (ucast (n + 1)) s) (\<lambda>s.
                  let pItem = item_at (ldptr (dmem s) (pData it)) f (size_get it s);
                      s = size_set it (size_get it s + 1) s
                  in case initialize_pointer_field d E pItem it s of
                       None \<Rightarrow> None
                     | Some s \<Rightarrow> call_decoder func f pItem s))"

section \<open>Callback fields\<close>

text \<open>\<^verbatim>\<open>do { if (!decode(&substream, ...)) ...; } while (substream.bytes_left);\<close>\<close>

fun callback_loop :: "nat \<Rightarrow> dec_state act \<Rightarrow> dec_state act" where
  "callback_loop 0 fn s = None"
| "callback_loop (Suc n) fn s =
     andthen (fn s) (\<lambda>s. if bytes_left (instr s) \<noteq> 0 then callback_loop n fn s else Some (True, s))"

definition decode_callback_field ::
  "nat \<Rightarrow> pb_dec_env \<Rightarrow> pb_wire_type_t \<Rightarrow> pb_field_iter_t \<Rightarrow> dec_state act" where
  "decode_callback_field d E wire_type it s =
     (let R = denv_read E; pcb = pData it in
      if pcb = NULL \<or> callback_funcs (dmem s) pcb = NULL
      then with_value (pb_skip_field R wire_type) (\<lambda>_ s. Some (True, s)) s
      else
        let call = denv_decode E (callback_funcs (dmem s) pcb) (cur it) (callback_arg pcb) in
        if wire_type = PB_WT_STRING
        then enter_substream E (\<lambda>parent s.
               case callback_loop d call s of
                 None \<Rightarrow> None
               | Some (False, s) \<Rightarrow> parent_error parent ''callback failed'' s
               | Some (True, s) \<Rightarrow> leave_substream E parent True s) s
        else with_value (read_raw_value R wire_type 10) (\<lambda>bytes s.
               let parent = instr s;
                   substream = pb_istream_from_buffer (stores (\<lambda>_. 0) 1 bytes) 1 (of_nat (length bytes))
               in case call (s\<lparr>instr := substream\<rparr>) of
                    None \<Rightarrow> None
                  | Some (ok, s) \<Rightarrow> Some (ok, s\<lparr>instr := parent\<rparr>)) s)"

section \<open>Fields\<close>

definition pb_release_union_field ::
  "nat \<Rightarrow> pb_dec_env \<Rightarrow> pb_field_iter_t \<Rightarrow> dec_state \<Rightarrow> (bool \<times> pb_field_iter_t \<times> dec_state) option" where
  "pb_release_union_field d E it s =
     (let old_tag = size_get it s; new_tag = tag (cur it);
          fail = (\<lambda>msg it s. Some (False, it, s\<lparr>instr := IS_SET_ERROR msg (instr s)\<rparr>))
      in if old_tag = 0 \<or> old_tag = new_tag then Some (True, it, s)
         else case pb_field_iter_find old_tag it of
                None \<Rightarrow> None
              | Some (False, it) \<Rightarrow> fail ''invalid union tag'' it s
              | Some (True, it) \<Rightarrow>
                  (case pb_release_single_field d E it s of
                     None \<Rightarrow> None
                   | Some s \<Rightarrow>
                       (case pb_field_iter_find new_tag it of
                          None \<Rightarrow> None
                        | Some (False, it) \<Rightarrow> fail ''iterator error'' it s
                        | Some (True, it) \<Rightarrow>
                            Some (True, it,
                              if PB_ATYPE (ftype (cur it)) = PB_ATYPE_POINTER
                              then s\<lparr>dmem := stptr (dmem s) (pData it) NULL\<rparr> else s))))"

definition decode_field ::
  "nat \<Rightarrow> msg_decoder \<Rightarrow> pb_dec_env \<Rightarrow> pb_wire_type_t \<Rightarrow> pb_field_iter_t \<Rightarrow> dec_state \<Rightarrow>
    (bool \<times> pb_field_iter_t \<times> dec_state) option" where
  "decode_field d rec E wire_type it s =
     (case (if PB_HTYPE (ftype (cur it)) = PB_HTYPE_ONEOF
            then pb_release_union_field d E it s else Some (True, it, s)) of
        None \<Rightarrow> None
      | Some (False, it, s) \<Rightarrow> Some (False, it, s)
      | Some (True, it, s) \<Rightarrow>
          map_option (\<lambda>(ok, s). (ok, it, s))
            (let a = PB_ATYPE (ftype (cur it)) in
             if a = PB_ATYPE_STATIC then decode_static_field d rec E wire_type it s
             else if a = PB_ATYPE_POINTER then decode_pointer_field d rec E wire_type it s
             else if a = PB_ATYPE_CALLBACK then decode_callback_field d E wire_type it s
             else DS_RETURN_ERROR ''invalid field type'' s))"

definition default_extension_decoder ::
  "nat \<Rightarrow> msg_decoder \<Rightarrow> pb_dec_env \<Rightarrow> addr \<Rightarrow> 32 word \<Rightarrow> pb_wire_type_t \<Rightarrow> dec_state act" where
  "default_extension_decoder d rec E ext t wire_type s =
     (let f = field_at (denv_ext_fields E (exttype_arg (dmem s) (ext_type (dmem s) ext))) 0 in
      if tag f \<noteq> t then Some (True, s)
      else let it = iter_from_extension E ext (dmem s);
               s = s\<lparr>dmem := (dmem s)(ext_found_addr ext := 1)\<rparr>
           in map_option (\<lambda>(ok, it, s). (ok, s)) (decode_field d rec E wire_type it s))"

fun decode_extension_loop ::
  "nat \<Rightarrow> nat \<Rightarrow> msg_decoder \<Rightarrow> pb_dec_env \<Rightarrow> 64 word \<Rightarrow> 32 word \<Rightarrow> pb_wire_type_t \<Rightarrow> addr \<Rightarrow> dec_state act" where
  "decode_extension_loop 0 d rec E p t wire_type ext s =
     (if ext \<noteq> NULL \<and> p = bytes_left (instr s) then None else Some (True, s))"
| "decode_extension_loop (Suc n) d rec E p t wire_type ext s =
     (if ext \<noteq> NULL \<and> p = bytes_left (instr s)
      then let fn = exttype_decode (dmem s) (ext_type (dmem s) ext) in
        andthen (if fn \<noteq> NULL then denv_ext_decode E fn ext t wire_type s
                 else default_extension_decoder d rec E ext t wire_type s)
          (\<lambda>s. decode_extension_loop n d rec E p t wire_type (ext_next (dmem s) ext) s)
      else Some (True, s))"

definition decode_extension ::
  "nat \<Rightarrow> msg_decoder \<Rightarrow> pb_dec_env \<Rightarrow> 32 word \<Rightarrow> pb_wire_type_t \<Rightarrow> pb_field_iter_t \<Rightarrow> dec_state act" where
  "decode_extension d rec E t wire_type it s =
     decode_extension_loop d d rec E (bytes_left (instr s)) t wire_type (ldptr (dmem s) (pData it)) s"

definition find_extension_field :: "pb_field_iter_t \<Rightarrow> (bool \<times> pb_field_iter_t) option" where
  "find_extension_field it =
     iter_find_loop (Suc (length (start it))) (pos it) (\<lambda>f. PB_LTYPE (ftype f) = PB_LTYPE_EXTENSION) it"

section \<open>Messages\<close>

text \<open>The local variables of \<open>pb_decode_noinit\<close>; \<open>fixed_count_field\<close> is the position of the
  descriptor the C variable points to.\<close>

record noinit_locals =
  nl_iter :: pb_field_iter_t
  fields_seen :: "32 word list"
  extension_range_start :: "32 word"
  fixed_count_field :: "nat option"

datatype loop_ctl = Continue | Break | Return bool

text \<open>The branch for a tag that no field of the message has.\<close>

definition unknown_field ::
  "nat \<Rightarrow> msg_decoder \<Rightarrow> pb_dec_env \<Rightarrow> 32 word \<Rightarrow> pb_wire_type_t \<Rightarrow> noinit_locals \<Rightarrow> dec_state \<Rightarrow>
    (loop_ctl \<times> noinit_locals \<times> dec_state) option" where
  "unknown_field d rec E t wire_type l s =
     (let skip = (\<lambda>l s. case pb_skip_field (denv_read E) wire_type (instr s) of
                    (r, i) \<Rightarrow> Some (if r = None then Return False else Continue, l, s\<lparr>instr := i\<rparr>))
      in if t \<ge> extension_range_start l
         then case find_extension_field (nl_iter l) of
                None \<Rightarrow> None
              | Some (found, it) \<Rightarrow>
                  let l = l\<lparr>nl_iter := it, extension_range_start := (if found then tag (cur it) else -1)\<rparr> in
                  if t \<ge> extension_range_start l
                  then case decode_extension d rec E t wire_type it s of
                         None \<Rightarrow> None
                       | Some (False, s') \<Rightarrow> Some (Return False, l, s')
                       | Some (True, s') \<Rightarrow>
                           if bytes_left (instr s) \<noteq> bytes_left (instr s')
                           then Some (Continue, l, s') else skip l s'
                  else skip l s
         else skip l s)"

text \<open>The bookkeeping for repeated fields of fixed count: \<open>None\<close> when the previous one is not
  complete.\<close>

definition fixed_count_check :: "noinit_locals \<Rightarrow> dec_state \<Rightarrow> bool" where
  "fixed_count_check l s \<longleftrightarrow>
     (case fixed_count_field l of
        None \<Rightarrow> True
      | Some p \<Rightarrow> fixed_count_size s = array_size (field_at (start (nl_iter l)) p))"

definition enter_fixed_count :: "noinit_locals \<Rightarrow> dec_state \<Rightarrow> (noinit_locals \<times> dec_state) option" where
  "enter_fixed_count l s =
     (let it = nl_iter l in
      if PB_HTYPE (ftype (cur it)) = PB_HTYPE_REPEATED \<and> pSize it = InMem (pData it)
      then if fixed_count_field l \<noteq> Some (pos it)
           then if fixed_count_check l s
                then Some (l\<lparr>fixed_count_field := Some (pos it), nl_iter := it\<lparr>pSize := FixedCountSize\<rparr>\<rparr>,
                           s\<lparr>fixed_count_size := 0\<rparr>)
                else None
           else Some (l\<lparr>nl_iter := it\<lparr>pSize := FixedCountSize\<rparr>\<rparr>, s)
      else Some (l, s))"

definition mark_seen :: "noinit_locals \<Rightarrow> noinit_locals" where
  "mark_seen l =
     (let it = nl_iter l; i = required_field_index it in
      if PB_HTYPE (ftype (cur it)) = PB_HTYPE_REQUIRED \<and> i < PB_MAX_REQUIRED_FIELDS
      then l\<lparr>fields_seen := (fields_seen l)[unat (drop_bit 5 i) :=
             (fields_seen l ! unat (drop_bit 5 i)) OR push_bit (unat (i AND 31)) 1]\<rparr>
      else l)"

text \<open>The body of the \<^verbatim>\<open>while\<close> loop.\<close>

definition noinit_step ::
  "nat \<Rightarrow> msg_decoder \<Rightarrow> pb_dec_env \<Rightarrow> noinit_locals \<Rightarrow> dec_state \<Rightarrow>
    (loop_ctl \<times> noinit_locals \<times> dec_state) option" where
  "noinit_step d rec E l s =
     (case pb_decode_tag (denv_read E) (instr s) of
        (Inl eof, i) \<Rightarrow> Some (if eof then Break else Return False, l, s\<lparr>instr := i\<rparr>)
      | (Inr (wire_type, t), i) \<Rightarrow>
          let s = s\<lparr>instr := i\<rparr> in
          case pb_field_iter_find t (nl_iter l) of
            None \<Rightarrow> None
          | Some (False, it) \<Rightarrow> unknown_field d rec E t wire_type (l\<lparr>nl_iter := it\<rparr>) s
          | Some (True, it) \<Rightarrow>
              (case enter_fixed_count (l\<lparr>nl_iter := it\<rparr>) s of
                 None \<Rightarrow> Some (Return False, l\<lparr>nl_iter := it\<rparr>,
                           s\<lparr>instr := IS_SET_ERROR ''wrong size for fixed count field'' (instr s)\<rparr>)
               | Some (l, s) \<Rightarrow>
                   let l = mark_seen l in
                   case decode_field d rec E wire_type (nl_iter l) s of
                     None \<Rightarrow> None
                   | Some (ok, it, s) \<Rightarrow>
                       Some (if ok then Continue else Return False, l\<lparr>nl_iter := it\<rparr>, s)))"

text \<open>Every round consumes at least one byte, so the number of bytes bounds the rounds. The
  result is \<open>Break\<close> or \<open>Return\<close>.\<close>

fun noinit_loop ::
  "nat \<Rightarrow> nat \<Rightarrow> msg_decoder \<Rightarrow> pb_dec_env \<Rightarrow> noinit_locals \<Rightarrow> dec_state \<Rightarrow>
    (loop_ctl \<times> noinit_locals \<times> dec_state) option" where
  "noinit_loop 0 d rec E l s = None"
| "noinit_loop (Suc n) d rec E l s =
     (if bytes_left (instr s) = 0 then Some (Break, l, s)
      else case noinit_step d rec E l s of
             None \<Rightarrow> None
           | Some (Continue, l, s) \<Rightarrow> noinit_loop n d rec E l s
           | Some (c, l, s) \<Rightarrow> Some (c, l, s))"

text \<open>The number of required fields, found by walking to the end of the descriptors.\<close>

function req_scan :: "pb_field_iter_t \<Rightarrow> 32 word \<times> pb_type_t \<times> pb_field_iter_t" where
  "req_scan it =
     (case pb_field_iter_next it of
        (ok, it') \<Rightarrow> if ok then req_scan it' else (required_field_index it, ftype (cur it), it'))"
  by pat_completeness auto
termination
  by (relation "measure (\<lambda>it. length (start it) - pos it)") (auto dest!: iter_next_True[OF sym])

declare req_scan.simps [simp del]

definition req_field_count :: "pb_field_iter_t \<Rightarrow> 32 word" where
  "req_field_count it =
     (case req_scan it of
        (n, last_type, it') \<Rightarrow>
          let n = (if PB_HTYPE last_type = PB_HTYPE_REQUIRED \<and> tag (cur it') \<noteq> 0 then n + 1 else n)
          in if n > PB_MAX_REQUIRED_FIELDS then PB_MAX_REQUIRED_FIELDS else n)"

definition required_present :: "32 word list \<Rightarrow> 32 word \<Rightarrow> bool" where
  "required_present seen n \<longleftrightarrow>
     n = 0 \<or>
     list_all (\<lambda>i. seen ! i = -1) [0..<unat (drop_bit 5 n)] \<and>
     (n AND 31 = 0 \<or>
      seen ! unat (drop_bit 5 n) = drop_bit (unat (32 - (n AND 31))) (-1))"

text \<open>\<open>pb_decode_noinit\<close>, given the decoder of submessages. The caller's \<open>fixed_count_size\<close> is
  another variable, so it is put back at the end.\<close>

definition noinit_body :: "nat \<Rightarrow> msg_decoder \<Rightarrow> pb_dec_env \<Rightarrow> msg_decoder" where
  "noinit_body d rec E flds dest s =
     (let outer = fixed_count_size s;
          l = \<lparr>nl_iter = snd (pb_field_iter_begin flds dest), fields_seen = [0, 0],
               extension_range_start = 0, fixed_count_field = None\<rparr>
      in map_option (\<lambda>(ok, s). (ok, s\<lparr>fixed_count_size := outer\<rparr>))
        (case noinit_loop (Suc (unat (bytes_left (instr s)))) d rec E l (s\<lparr>fixed_count_size := 0\<rparr>) of
           None \<Rightarrow> None
         | Some (Return ok, l, s) \<Rightarrow> Some (ok, s)
         | Some (_, l, s) \<Rightarrow>
             if \<not> fixed_count_check l s
             then DS_RETURN_ERROR ''wrong size for fixed count field'' s
             else if \<not> required_present (fields_seen l) (req_field_count (nl_iter l))
             then DS_RETURN_ERROR ''missing required field'' s
             else Some (True, s)))"

fun pb_decode_noinit :: "nat \<Rightarrow> pb_dec_env \<Rightarrow> msg_decoder" where
  "pb_decode_noinit 0 E flds dest s = None"
| "pb_decode_noinit (Suc d) E flds dest s = noinit_body d (pb_decode_noinit d E) E flds dest s"

definition pb_decode :: "nat \<Rightarrow> pb_dec_env \<Rightarrow> msg_decoder" where
  "pb_decode d E flds dest s = pb_decode_with d (pb_decode_noinit d E) E flds dest s"

definition pb_decode_delimited_noinit :: "nat \<Rightarrow> pb_dec_env \<Rightarrow> msg_decoder" where
  "pb_decode_delimited_noinit d E flds dest =
     enter_substream E (\<lambda>parent s.
       case pb_decode_noinit d E flds dest s of
         None \<Rightarrow> None
       | Some (status, s) \<Rightarrow> leave_substream E parent status s)"

definition pb_decode_delimited :: "nat \<Rightarrow> pb_dec_env \<Rightarrow> msg_decoder" where
  "pb_decode_delimited d E flds dest =
     enter_substream E (\<lambda>parent s.
       case pb_decode d E flds dest s of
         None \<Rightarrow> None
       | Some (status, s) \<Rightarrow> leave_substream E parent status s)"

definition pb_decode_nullterminated :: "nat \<Rightarrow> pb_dec_env \<Rightarrow> msg_decoder" where
  "pb_decode_nullterminated d E flds dest s = pb_decode d E flds dest s"

end
