(* ===== verification/Pb_Messages.thy ===== *)
theory Pb_Messages
  imports Pb_Encode_Total Pb_Roundtrip Pb_Decode
begin

text \<open>
  The messages of the application's generated code: the analytics upload of Google Data
  Transport (\<^verbatim>\<open>cct.nanopb.h\<close>, \<^verbatim>\<open>cct.nanopb.c\<close>) and the diagnostics of Firebase Core
  (\<^verbatim>\<open>firebasecore.nanopb.h\<close>, \<^verbatim>\<open>firebasecore.nanopb.c\<close>).

  The C structures are values of the datatype \<open>ctype\<close>, and \<open>csizeof\<close>, \<open>calignof\<close> and
  \<open>coffsetof\<close> lay them out by the rules of the platform: every member at the next multiple of
  its alignment, the size of a structure a multiple of its own. The descriptors are then the
  generated initialisers, through the same macros.
\<close>

section \<open>C types and their layout\<close>

datatype ctype = CBool | CInt32 | CInt64 | CSize | CEnum | CByte | CPtr ctype
  | CStruct "(string \<times> ctype) list"

definition align_up :: "int \<Rightarrow> int \<Rightarrow> int" where
  "align_up off a = ((off + a - 1) div a) * a"

text \<open>The offsets of members with the given sizes and alignments, and the end of the last.\<close>

fun place_members :: "int \<Rightarrow> (int \<times> int) list \<Rightarrow> int list \<times> int" where
  "place_members off [] = ([], off)"
| "place_members off ((sz, al) # rest) =
     (let o1 = align_up off al; r = place_members (o1 + sz) rest in (o1 # fst r, snd r))"

fun calignof :: "ctype \<Rightarrow> int" where
  "calignof CBool = 1"
| "calignof CByte = 1"
| "calignof CInt32 = 4"
| "calignof CInt64 = 8"
| "calignof CSize = 4"
| "calignof CEnum = 4"
| "calignof (CPtr t) = sizeof_ptr"
| "calignof (CStruct ms) = fold max (map (\<lambda>m. calignof (snd m)) ms) 1"

fun csizeof :: "ctype \<Rightarrow> int" where
  "csizeof CBool = 1"
| "csizeof CByte = 1"
| "csizeof CInt32 = 4"
| "csizeof CInt64 = 8"
| "csizeof CSize = 4"
| "csizeof CEnum = 4"
| "csizeof (CPtr t) = sizeof_ptr"
| "csizeof (CStruct ms) =
     align_up (snd (place_members 0 (map (\<lambda>m. (csizeof (snd m), calignof (snd m))) ms)))
       (calignof (CStruct ms))"

fun cmembers :: "ctype \<Rightarrow> (string \<times> ctype) list" where
  "cmembers (CStruct ms) = ms"
| "cmembers t = []"

definition offset_map :: "ctype \<Rightarrow> string \<rightharpoonup> int" where
  "offset_map st =
     map_of (zip (map fst (cmembers st))
       (fst (place_members 0 (map (\<lambda>m. (csizeof (snd m), calignof (snd m))) (cmembers st)))))"

definition coffsetof :: "ctype \<Rightarrow> string \<Rightarrow> int" where
  "coffsetof st n = (case offset_map st n of Some i \<Rightarrow> i | None \<Rightarrow> 0)"

definition ctypeof :: "ctype \<Rightarrow> string \<Rightarrow> ctype" where
  "ctypeof st n = (case map_of (cmembers st) n of Some t \<Rightarrow> t | None \<Rightarrow> CByte)"

text \<open>What the descriptor macros read of member \<open>n\<close>: its offset, its size, the size of what it
  points to, and the offset of \<^verbatim>\<open>has_n\<close> or \<^verbatim>\<open>n_count\<close>.\<close>

definition member_of :: "ctype \<Rightarrow> string \<Rightarrow> member" where
  "member_of st n =
     \<lparr>m_offset = coffsetof st n, m_size = csizeof (ctypeof st n),
      m_elem = (case ctypeof st n of CPtr t \<Rightarrow> csizeof t | t \<Rightarrow> csizeof t),
      m_sizeoff = (case offset_map st (''has_'' @ n) of
                     Some i \<Rightarrow> i
                   | None \<Rightarrow> (case offset_map st (n @ ''_count'') of
                                Some i \<Rightarrow> i | None \<Rightarrow> coffsetof st n))\<rparr>"

definition pb_bytes_array_t :: ctype where
  "pb_bytes_array_t = CStruct [(''size'', CSize), (''bytes'', CByte)]"

section \<open>Enumerations\<close>

datatype gdt_cct_NetworkConnectionInfo_NetworkType =
    gdt_cct_NetworkConnectionInfo_NetworkType_NONE
  | gdt_cct_NetworkConnectionInfo_NetworkType_MOBILE
  | gdt_cct_NetworkConnectionInfo_NetworkType_WIFI
  | gdt_cct_NetworkConnectionInfo_NetworkType_MOBILE_MMS
  | gdt_cct_NetworkConnectionInfo_NetworkType_MOBILE_SUPL
  | gdt_cct_NetworkConnectionInfo_NetworkType_MOBILE_DUN
  | gdt_cct_NetworkConnectionInfo_NetworkType_MOBILE_HIPRI
  | gdt_cct_NetworkConnectionInfo_NetworkType_WIMAX
  | gdt_cct_NetworkConnectionInfo_NetworkType_BLUETOOTH
  | gdt_cct_NetworkConnectionInfo_NetworkType_DUMMY
  | gdt_cct_NetworkConnectionInfo_NetworkType_ETHERNET
  | gdt_cct_NetworkConnectionInfo_NetworkType_MOBILE_FOTA
  | gdt_cct_NetworkConnectionInfo_NetworkType_MOBILE_IMS
  | gdt_cct_NetworkConnectionInfo_NetworkType_MOBILE_CBS
  | gdt_cct_NetworkConnectionInfo_NetworkType_WIFI_P2P
  | gdt_cct_NetworkConnectionInfo_NetworkType_MOBILE_IA
  | gdt_cct_NetworkConnectionInfo_NetworkType_MOBILE_EMERGENCY
  | gdt_cct_NetworkConnectionInfo_NetworkType_PROXY
  | gdt_cct_NetworkConnectionInfo_NetworkType_VPN

primrec gdt_cct_NetworkConnectionInfo_NetworkType_value :: "gdt_cct_NetworkConnectionInfo_NetworkType \<Rightarrow> int" where
  "gdt_cct_NetworkConnectionInfo_NetworkType_value gdt_cct_NetworkConnectionInfo_NetworkType_NONE = -1"
| "gdt_cct_NetworkConnectionInfo_NetworkType_value gdt_cct_NetworkConnectionInfo_NetworkType_MOBILE = 0"
| "gdt_cct_NetworkConnectionInfo_NetworkType_value gdt_cct_NetworkConnectionInfo_NetworkType_WIFI = 1"
| "gdt_cct_NetworkConnectionInfo_NetworkType_value gdt_cct_NetworkConnectionInfo_NetworkType_MOBILE_MMS = 2"
| "gdt_cct_NetworkConnectionInfo_NetworkType_value gdt_cct_NetworkConnectionInfo_NetworkType_MOBILE_SUPL = 3"
| "gdt_cct_NetworkConnectionInfo_NetworkType_value gdt_cct_NetworkConnectionInfo_NetworkType_MOBILE_DUN = 4"
| "gdt_cct_NetworkConnectionInfo_NetworkType_value gdt_cct_NetworkConnectionInfo_NetworkType_MOBILE_HIPRI = 5"
| "gdt_cct_NetworkConnectionInfo_NetworkType_value gdt_cct_NetworkConnectionInfo_NetworkType_WIMAX = 6"
| "gdt_cct_NetworkConnectionInfo_NetworkType_value gdt_cct_NetworkConnectionInfo_NetworkType_BLUETOOTH = 7"
| "gdt_cct_NetworkConnectionInfo_NetworkType_value gdt_cct_NetworkConnectionInfo_NetworkType_DUMMY = 8"
| "gdt_cct_NetworkConnectionInfo_NetworkType_value gdt_cct_NetworkConnectionInfo_NetworkType_ETHERNET = 9"
| "gdt_cct_NetworkConnectionInfo_NetworkType_value gdt_cct_NetworkConnectionInfo_NetworkType_MOBILE_FOTA = 10"
| "gdt_cct_NetworkConnectionInfo_NetworkType_value gdt_cct_NetworkConnectionInfo_NetworkType_MOBILE_IMS = 11"
| "gdt_cct_NetworkConnectionInfo_NetworkType_value gdt_cct_NetworkConnectionInfo_NetworkType_MOBILE_CBS = 12"
| "gdt_cct_NetworkConnectionInfo_NetworkType_value gdt_cct_NetworkConnectionInfo_NetworkType_WIFI_P2P = 13"
| "gdt_cct_NetworkConnectionInfo_NetworkType_value gdt_cct_NetworkConnectionInfo_NetworkType_MOBILE_IA = 14"
| "gdt_cct_NetworkConnectionInfo_NetworkType_value gdt_cct_NetworkConnectionInfo_NetworkType_MOBILE_EMERGENCY = 15"
| "gdt_cct_NetworkConnectionInfo_NetworkType_value gdt_cct_NetworkConnectionInfo_NetworkType_PROXY = 16"
| "gdt_cct_NetworkConnectionInfo_NetworkType_value gdt_cct_NetworkConnectionInfo_NetworkType_VPN = 17"

definition gdt_cct_NetworkConnectionInfo_NetworkType_MIN :: gdt_cct_NetworkConnectionInfo_NetworkType where
  "gdt_cct_NetworkConnectionInfo_NetworkType_MIN = gdt_cct_NetworkConnectionInfo_NetworkType_NONE"

definition gdt_cct_NetworkConnectionInfo_NetworkType_MAX :: gdt_cct_NetworkConnectionInfo_NetworkType where
  "gdt_cct_NetworkConnectionInfo_NetworkType_MAX = gdt_cct_NetworkConnectionInfo_NetworkType_VPN"

datatype gdt_cct_NetworkConnectionInfo_MobileSubtype =
    gdt_cct_NetworkConnectionInfo_MobileSubtype_UNKNOWN_MOBILE_SUBTYPE
  | gdt_cct_NetworkConnectionInfo_MobileSubtype_GPRS
  | gdt_cct_NetworkConnectionInfo_MobileSubtype_EDGE
  | gdt_cct_NetworkConnectionInfo_MobileSubtype_UMTS
  | gdt_cct_NetworkConnectionInfo_MobileSubtype_CDMA
  | gdt_cct_NetworkConnectionInfo_MobileSubtype_EVDO_0
  | gdt_cct_NetworkConnectionInfo_MobileSubtype_EVDO_A
  | gdt_cct_NetworkConnectionInfo_MobileSubtype_RTT
  | gdt_cct_NetworkConnectionInfo_MobileSubtype_HSDPA
  | gdt_cct_NetworkConnectionInfo_MobileSubtype_HSUPA
  | gdt_cct_NetworkConnectionInfo_MobileSubtype_HSPA
  | gdt_cct_NetworkConnectionInfo_MobileSubtype_IDEN
  | gdt_cct_NetworkConnectionInfo_MobileSubtype_EVDO_B
  | gdt_cct_NetworkConnectionInfo_MobileSubtype_LTE
  | gdt_cct_NetworkConnectionInfo_MobileSubtype_EHRPD
  | gdt_cct_NetworkConnectionInfo_MobileSubtype_HSPAP
  | gdt_cct_NetworkConnectionInfo_MobileSubtype_GSM
  | gdt_cct_NetworkConnectionInfo_MobileSubtype_TD_SCDMA
  | gdt_cct_NetworkConnectionInfo_MobileSubtype_IWLAN
  | gdt_cct_NetworkConnectionInfo_MobileSubtype_LTE_CA
  | gdt_cct_NetworkConnectionInfo_MobileSubtype_COMBINED

primrec gdt_cct_NetworkConnectionInfo_MobileSubtype_value :: "gdt_cct_NetworkConnectionInfo_MobileSubtype \<Rightarrow> int" where
  "gdt_cct_NetworkConnectionInfo_MobileSubtype_value gdt_cct_NetworkConnectionInfo_MobileSubtype_UNKNOWN_MOBILE_SUBTYPE = 0"
| "gdt_cct_NetworkConnectionInfo_MobileSubtype_value gdt_cct_NetworkConnectionInfo_MobileSubtype_GPRS = 1"
| "gdt_cct_NetworkConnectionInfo_MobileSubtype_value gdt_cct_NetworkConnectionInfo_MobileSubtype_EDGE = 2"
| "gdt_cct_NetworkConnectionInfo_MobileSubtype_value gdt_cct_NetworkConnectionInfo_MobileSubtype_UMTS = 3"
| "gdt_cct_NetworkConnectionInfo_MobileSubtype_value gdt_cct_NetworkConnectionInfo_MobileSubtype_CDMA = 4"
| "gdt_cct_NetworkConnectionInfo_MobileSubtype_value gdt_cct_NetworkConnectionInfo_MobileSubtype_EVDO_0 = 5"
| "gdt_cct_NetworkConnectionInfo_MobileSubtype_value gdt_cct_NetworkConnectionInfo_MobileSubtype_EVDO_A = 6"
| "gdt_cct_NetworkConnectionInfo_MobileSubtype_value gdt_cct_NetworkConnectionInfo_MobileSubtype_RTT = 7"
| "gdt_cct_NetworkConnectionInfo_MobileSubtype_value gdt_cct_NetworkConnectionInfo_MobileSubtype_HSDPA = 8"
| "gdt_cct_NetworkConnectionInfo_MobileSubtype_value gdt_cct_NetworkConnectionInfo_MobileSubtype_HSUPA = 9"
| "gdt_cct_NetworkConnectionInfo_MobileSubtype_value gdt_cct_NetworkConnectionInfo_MobileSubtype_HSPA = 10"
| "gdt_cct_NetworkConnectionInfo_MobileSubtype_value gdt_cct_NetworkConnectionInfo_MobileSubtype_IDEN = 11"
| "gdt_cct_NetworkConnectionInfo_MobileSubtype_value gdt_cct_NetworkConnectionInfo_MobileSubtype_EVDO_B = 12"
| "gdt_cct_NetworkConnectionInfo_MobileSubtype_value gdt_cct_NetworkConnectionInfo_MobileSubtype_LTE = 13"
| "gdt_cct_NetworkConnectionInfo_MobileSubtype_value gdt_cct_NetworkConnectionInfo_MobileSubtype_EHRPD = 14"
| "gdt_cct_NetworkConnectionInfo_MobileSubtype_value gdt_cct_NetworkConnectionInfo_MobileSubtype_HSPAP = 15"
| "gdt_cct_NetworkConnectionInfo_MobileSubtype_value gdt_cct_NetworkConnectionInfo_MobileSubtype_GSM = 16"
| "gdt_cct_NetworkConnectionInfo_MobileSubtype_value gdt_cct_NetworkConnectionInfo_MobileSubtype_TD_SCDMA = 17"
| "gdt_cct_NetworkConnectionInfo_MobileSubtype_value gdt_cct_NetworkConnectionInfo_MobileSubtype_IWLAN = 18"
| "gdt_cct_NetworkConnectionInfo_MobileSubtype_value gdt_cct_NetworkConnectionInfo_MobileSubtype_LTE_CA = 19"
| "gdt_cct_NetworkConnectionInfo_MobileSubtype_value gdt_cct_NetworkConnectionInfo_MobileSubtype_COMBINED = 100"

definition gdt_cct_NetworkConnectionInfo_MobileSubtype_MIN :: gdt_cct_NetworkConnectionInfo_MobileSubtype where
  "gdt_cct_NetworkConnectionInfo_MobileSubtype_MIN = gdt_cct_NetworkConnectionInfo_MobileSubtype_UNKNOWN_MOBILE_SUBTYPE"

definition gdt_cct_NetworkConnectionInfo_MobileSubtype_MAX :: gdt_cct_NetworkConnectionInfo_MobileSubtype where
  "gdt_cct_NetworkConnectionInfo_MobileSubtype_MAX = gdt_cct_NetworkConnectionInfo_MobileSubtype_COMBINED"

datatype gdt_cct_ClientInfo_ClientType =
    gdt_cct_ClientInfo_ClientType_CLIENT_UNKNOWN
  | gdt_cct_ClientInfo_ClientType_IOS_FIREBASE

primrec gdt_cct_ClientInfo_ClientType_value :: "gdt_cct_ClientInfo_ClientType \<Rightarrow> int" where
  "gdt_cct_ClientInfo_ClientType_value gdt_cct_ClientInfo_ClientType_CLIENT_UNKNOWN = 0"
| "gdt_cct_ClientInfo_ClientType_value gdt_cct_ClientInfo_ClientType_IOS_FIREBASE = 15"

definition gdt_cct_ClientInfo_ClientType_MIN :: gdt_cct_ClientInfo_ClientType where
  "gdt_cct_ClientInfo_ClientType_MIN = gdt_cct_ClientInfo_ClientType_CLIENT_UNKNOWN"

definition gdt_cct_ClientInfo_ClientType_MAX :: gdt_cct_ClientInfo_ClientType where
  "gdt_cct_ClientInfo_ClientType_MAX = gdt_cct_ClientInfo_ClientType_IOS_FIREBASE"

datatype gdt_cct_QosTierConfiguration_QosTier =
    gdt_cct_QosTierConfiguration_QosTier_DEFAULT
  | gdt_cct_QosTierConfiguration_QosTier_UNMETERED_ONLY
  | gdt_cct_QosTierConfiguration_QosTier_UNMETERED_OR_DAILY
  | gdt_cct_QosTierConfiguration_QosTier_FAST_IF_RADIO_AWAKE
  | gdt_cct_QosTierConfiguration_QosTier_NEVER

primrec gdt_cct_QosTierConfiguration_QosTier_value :: "gdt_cct_QosTierConfiguration_QosTier \<Rightarrow> int" where
  "gdt_cct_QosTierConfiguration_QosTier_value gdt_cct_QosTierConfiguration_QosTier_DEFAULT = 0"
| "gdt_cct_QosTierConfiguration_QosTier_value gdt_cct_QosTierConfiguration_QosTier_UNMETERED_ONLY = 1"
| "gdt_cct_QosTierConfiguration_QosTier_value gdt_cct_QosTierConfiguration_QosTier_UNMETERED_OR_DAILY = 2"
| "gdt_cct_QosTierConfiguration_QosTier_value gdt_cct_QosTierConfiguration_QosTier_FAST_IF_RADIO_AWAKE = 3"
| "gdt_cct_QosTierConfiguration_QosTier_value gdt_cct_QosTierConfiguration_QosTier_NEVER = 4"

definition gdt_cct_QosTierConfiguration_QosTier_MIN :: gdt_cct_QosTierConfiguration_QosTier where
  "gdt_cct_QosTierConfiguration_QosTier_MIN = gdt_cct_QosTierConfiguration_QosTier_DEFAULT"

definition gdt_cct_QosTierConfiguration_QosTier_MAX :: gdt_cct_QosTierConfiguration_QosTier where
  "gdt_cct_QosTierConfiguration_QosTier_MAX = gdt_cct_QosTierConfiguration_QosTier_NEVER"

datatype logs_proto_mobilesdk_ios_ICoreConfiguration_ConfigurationType =
    logs_proto_mobilesdk_ios_ICoreConfiguration_ConfigurationType_UNKNOWN_CONFIGURATION_TYPE
  | logs_proto_mobilesdk_ios_ICoreConfiguration_ConfigurationType_CORE
  | logs_proto_mobilesdk_ios_ICoreConfiguration_ConfigurationType_SDK

primrec logs_proto_mobilesdk_ios_ICoreConfiguration_ConfigurationType_value :: "logs_proto_mobilesdk_ios_ICoreConfiguration_ConfigurationType \<Rightarrow> int" where
  "logs_proto_mobilesdk_ios_ICoreConfiguration_ConfigurationType_value logs_proto_mobilesdk_ios_ICoreConfiguration_ConfigurationType_UNKNOWN_CONFIGURATION_TYPE = 0"
| "logs_proto_mobilesdk_ios_ICoreConfiguration_ConfigurationType_value logs_proto_mobilesdk_ios_ICoreConfiguration_ConfigurationType_CORE = 1"
| "logs_proto_mobilesdk_ios_ICoreConfiguration_ConfigurationType_value logs_proto_mobilesdk_ios_ICoreConfiguration_ConfigurationType_SDK = 2"

definition logs_proto_mobilesdk_ios_ICoreConfiguration_ConfigurationType_MIN :: logs_proto_mobilesdk_ios_ICoreConfiguration_ConfigurationType where
  "logs_proto_mobilesdk_ios_ICoreConfiguration_ConfigurationType_MIN = logs_proto_mobilesdk_ios_ICoreConfiguration_ConfigurationType_UNKNOWN_CONFIGURATION_TYPE"

definition logs_proto_mobilesdk_ios_ICoreConfiguration_ConfigurationType_MAX :: logs_proto_mobilesdk_ios_ICoreConfiguration_ConfigurationType where
  "logs_proto_mobilesdk_ios_ICoreConfiguration_ConfigurationType_MAX = logs_proto_mobilesdk_ios_ICoreConfiguration_ConfigurationType_SDK"

datatype logs_proto_mobilesdk_ios_ICoreConfiguration_BuildType =
    logs_proto_mobilesdk_ios_ICoreConfiguration_BuildType_UNKNOWN_BUILD_TYPE
  | logs_proto_mobilesdk_ios_ICoreConfiguration_BuildType_INTERNAL
  | logs_proto_mobilesdk_ios_ICoreConfiguration_BuildType_EAP
  | logs_proto_mobilesdk_ios_ICoreConfiguration_BuildType_PROD

primrec logs_proto_mobilesdk_ios_ICoreConfiguration_BuildType_value :: "logs_proto_mobilesdk_ios_ICoreConfiguration_BuildType \<Rightarrow> int" where
  "logs_proto_mobilesdk_ios_ICoreConfiguration_BuildType_value logs_proto_mobilesdk_ios_ICoreConfiguration_BuildType_UNKNOWN_BUILD_TYPE = 0"
| "logs_proto_mobilesdk_ios_ICoreConfiguration_BuildType_value logs_proto_mobilesdk_ios_ICoreConfiguration_BuildType_INTERNAL = 1"
| "logs_proto_mobilesdk_ios_ICoreConfiguration_BuildType_value logs_proto_mobilesdk_ios_ICoreConfiguration_BuildType_EAP = 2"
| "logs_proto_mobilesdk_ios_ICoreConfiguration_BuildType_value logs_proto_mobilesdk_ios_ICoreConfiguration_BuildType_PROD = 3"

definition logs_proto_mobilesdk_ios_ICoreConfiguration_BuildType_MIN :: logs_proto_mobilesdk_ios_ICoreConfiguration_BuildType where
  "logs_proto_mobilesdk_ios_ICoreConfiguration_BuildType_MIN = logs_proto_mobilesdk_ios_ICoreConfiguration_BuildType_UNKNOWN_BUILD_TYPE"

definition logs_proto_mobilesdk_ios_ICoreConfiguration_BuildType_MAX :: logs_proto_mobilesdk_ios_ICoreConfiguration_BuildType where
  "logs_proto_mobilesdk_ios_ICoreConfiguration_BuildType_MAX = logs_proto_mobilesdk_ios_ICoreConfiguration_BuildType_PROD"

datatype logs_proto_mobilesdk_ios_ICoreConfiguration_ServiceType =
    logs_proto_mobilesdk_ios_ICoreConfiguration_ServiceType_UNKNOWN_SDK_SERVICE
  | logs_proto_mobilesdk_ios_ICoreConfiguration_ServiceType_ICORE
  | logs_proto_mobilesdk_ios_ICoreConfiguration_ServiceType_ADMOB
  | logs_proto_mobilesdk_ios_ICoreConfiguration_ServiceType_APP_INVITE
  | logs_proto_mobilesdk_ios_ICoreConfiguration_ServiceType_SIGN_IN
  | logs_proto_mobilesdk_ios_ICoreConfiguration_ServiceType_GCM
  | logs_proto_mobilesdk_ios_ICoreConfiguration_ServiceType_MAPS
  | logs_proto_mobilesdk_ios_ICoreConfiguration_ServiceType_SCION
  | logs_proto_mobilesdk_ios_ICoreConfiguration_ServiceType_ANALYTICS
  | logs_proto_mobilesdk_ios_ICoreConfiguration_ServiceType_APP_INDEXING
  | logs_proto_mobilesdk_ios_ICoreConfiguration_ServiceType_CONFIG
  | logs_proto_mobilesdk_ios_ICoreConfiguration_ServiceType_DURABLE_DEEP_LINKS
  | logs_proto_mobilesdk_ios_ICoreConfiguration_ServiceType_CRASH
  | logs_proto_mobilesdk_ios_ICoreConfiguration_ServiceType_AUTH
  | logs_proto_mobilesdk_ios_ICoreConfiguration_ServiceType_DATABASE
  | logs_proto_mobilesdk_ios_ICoreConfiguration_ServiceType_STORAGE
  | logs_proto_mobilesdk_ios_ICoreConfiguration_ServiceType_MESSAGING
  | logs_proto_mobilesdk_ios_ICoreConfiguration_ServiceType_MEASUREMENT
  | logs_proto_mobilesdk_ios_ICoreConfiguration_ServiceType_REMOTE_CONFIG
  | logs_proto_mobilesdk_ios_ICoreConfiguration_ServiceType_DYNAMIC_LINKS
  | logs_proto_mobilesdk_ios_ICoreConfiguration_ServiceType_INVITES
  | logs_proto_mobilesdk_ios_ICoreConfiguration_ServiceType_AUTH_UI
  | logs_proto_mobilesdk_ios_ICoreConfiguration_ServiceType_FIRESTORE
  | logs_proto_mobilesdk_ios_ICoreConfiguration_ServiceType_PERFORMANCE
  | logs_proto_mobilesdk_ios_ICoreConfiguration_ServiceType_ML_VISION_ON_DEVICE_FACE
  | logs_proto_mobilesdk_ios_ICoreConfiguration_ServiceType_ML_VISION_ON_DEVICE_BARCODE
  | logs_proto_mobilesdk_ios_ICoreConfiguration_ServiceType_ML_VISION_ON_DEVICE_TEXT
  | logs_proto_mobilesdk_ios_ICoreConfiguration_ServiceType_ML_VISION_ON_DEVICE_LABEL
  | logs_proto_mobilesdk_ios_ICoreConfiguration_ServiceType_ML_MODEL_INTERPRETER
  | logs_proto_mobilesdk_ios_ICoreConfiguration_ServiceType_IN_APP_MESSAGING
  | logs_proto_mobilesdk_ios_ICoreConfiguration_ServiceType_FUNCTIONS
  | logs_proto_mobilesdk_ios_ICoreConfiguration_ServiceType_ML_NATURAL_LANGUAGE
  | logs_proto_mobilesdk_ios_ICoreConfiguration_ServiceType_ML_VISION_ON_DEVICE_AUTOML
  | logs_proto_mobilesdk_ios_ICoreConfiguration_ServiceType_ML_VISION_ON_DEVICE_OBJECT_DETECTION

primrec logs_proto_mobilesdk_ios_ICoreConfiguration_ServiceType_value :: "logs_proto_mobilesdk_ios_ICoreConfiguration_ServiceType \<Rightarrow> int" where
  "logs_proto_mobilesdk_ios_ICoreConfiguration_ServiceType_value logs_proto_mobilesdk_ios_ICoreConfiguration_ServiceType_UNKNOWN_SDK_SERVICE = 0"
| "logs_proto_mobilesdk_ios_ICoreConfiguration_ServiceType_value logs_proto_mobilesdk_ios_ICoreConfiguration_ServiceType_ICORE = 1"
| "logs_proto_mobilesdk_ios_ICoreConfiguration_ServiceType_value logs_proto_mobilesdk_ios_ICoreConfiguration_ServiceType_ADMOB = 2"
| "logs_proto_mobilesdk_ios_ICoreConfiguration_ServiceType_value logs_proto_mobilesdk_ios_ICoreConfiguration_ServiceType_APP_INVITE = 3"
| "logs_proto_mobilesdk_ios_ICoreConfiguration_ServiceType_value logs_proto_mobilesdk_ios_ICoreConfiguration_ServiceType_SIGN_IN = 5"
| "logs_proto_mobilesdk_ios_ICoreConfiguration_ServiceType_value logs_proto_mobilesdk_ios_ICoreConfiguration_ServiceType_GCM = 6"
| "logs_proto_mobilesdk_ios_ICoreConfiguration_ServiceType_value logs_proto_mobilesdk_ios_ICoreConfiguration_ServiceType_MAPS = 7"
| "logs_proto_mobilesdk_ios_ICoreConfiguration_ServiceType_value logs_proto_mobilesdk_ios_ICoreConfiguration_ServiceType_SCION = 8"
| "logs_proto_mobilesdk_ios_ICoreConfiguration_ServiceType_value logs_proto_mobilesdk_ios_ICoreConfiguration_ServiceType_ANALYTICS = 9"
| "logs_proto_mobilesdk_ios_ICoreConfiguration_ServiceType_value logs_proto_mobilesdk_ios_ICoreConfiguration_ServiceType_APP_INDEXING = 10"
| "logs_proto_mobilesdk_ios_ICoreConfiguration_ServiceType_value logs_proto_mobilesdk_ios_ICoreConfiguration_ServiceType_CONFIG = 11"
| "logs_proto_mobilesdk_ios_ICoreConfiguration_ServiceType_value logs_proto_mobilesdk_ios_ICoreConfiguration_ServiceType_DURABLE_DEEP_LINKS = 12"
| "logs_proto_mobilesdk_ios_ICoreConfiguration_ServiceType_value logs_proto_mobilesdk_ios_ICoreConfiguration_ServiceType_CRASH = 13"
| "logs_proto_mobilesdk_ios_ICoreConfiguration_ServiceType_value logs_proto_mobilesdk_ios_ICoreConfiguration_ServiceType_AUTH = 14"
| "logs_proto_mobilesdk_ios_ICoreConfiguration_ServiceType_value logs_proto_mobilesdk_ios_ICoreConfiguration_ServiceType_DATABASE = 15"
| "logs_proto_mobilesdk_ios_ICoreConfiguration_ServiceType_value logs_proto_mobilesdk_ios_ICoreConfiguration_ServiceType_STORAGE = 16"
| "logs_proto_mobilesdk_ios_ICoreConfiguration_ServiceType_value logs_proto_mobilesdk_ios_ICoreConfiguration_ServiceType_MESSAGING = 17"
| "logs_proto_mobilesdk_ios_ICoreConfiguration_ServiceType_value logs_proto_mobilesdk_ios_ICoreConfiguration_ServiceType_MEASUREMENT = 18"
| "logs_proto_mobilesdk_ios_ICoreConfiguration_ServiceType_value logs_proto_mobilesdk_ios_ICoreConfiguration_ServiceType_REMOTE_CONFIG = 19"
| "logs_proto_mobilesdk_ios_ICoreConfiguration_ServiceType_value logs_proto_mobilesdk_ios_ICoreConfiguration_ServiceType_DYNAMIC_LINKS = 20"
| "logs_proto_mobilesdk_ios_ICoreConfiguration_ServiceType_value logs_proto_mobilesdk_ios_ICoreConfiguration_ServiceType_INVITES = 21"
| "logs_proto_mobilesdk_ios_ICoreConfiguration_ServiceType_value logs_proto_mobilesdk_ios_ICoreConfiguration_ServiceType_AUTH_UI = 22"
| "logs_proto_mobilesdk_ios_ICoreConfiguration_ServiceType_value logs_proto_mobilesdk_ios_ICoreConfiguration_ServiceType_FIRESTORE = 23"
| "logs_proto_mobilesdk_ios_ICoreConfiguration_ServiceType_value logs_proto_mobilesdk_ios_ICoreConfiguration_ServiceType_PERFORMANCE = 24"
| "logs_proto_mobilesdk_ios_ICoreConfiguration_ServiceType_value logs_proto_mobilesdk_ios_ICoreConfiguration_ServiceType_ML_VISION_ON_DEVICE_FACE = 26"
| "logs_proto_mobilesdk_ios_ICoreConfiguration_ServiceType_value logs_proto_mobilesdk_ios_ICoreConfiguration_ServiceType_ML_VISION_ON_DEVICE_BARCODE = 27"
| "logs_proto_mobilesdk_ios_ICoreConfiguration_ServiceType_value logs_proto_mobilesdk_ios_ICoreConfiguration_ServiceType_ML_VISION_ON_DEVICE_TEXT = 28"
| "logs_proto_mobilesdk_ios_ICoreConfiguration_ServiceType_value logs_proto_mobilesdk_ios_ICoreConfiguration_ServiceType_ML_VISION_ON_DEVICE_LABEL = 29"
| "logs_proto_mobilesdk_ios_ICoreConfiguration_ServiceType_value logs_proto_mobilesdk_ios_ICoreConfiguration_ServiceType_ML_MODEL_INTERPRETER = 30"
| "logs_proto_mobilesdk_ios_ICoreConfiguration_ServiceType_value logs_proto_mobilesdk_ios_ICoreConfiguration_ServiceType_IN_APP_MESSAGING = 31"
| "logs_proto_mobilesdk_ios_ICoreConfiguration_ServiceType_value logs_proto_mobilesdk_ios_ICoreConfiguration_ServiceType_FUNCTIONS = 32"
| "logs_proto_mobilesdk_ios_ICoreConfiguration_ServiceType_value logs_proto_mobilesdk_ios_ICoreConfiguration_ServiceType_ML_NATURAL_LANGUAGE = 33"
| "logs_proto_mobilesdk_ios_ICoreConfiguration_ServiceType_value logs_proto_mobilesdk_ios_ICoreConfiguration_ServiceType_ML_VISION_ON_DEVICE_AUTOML = 34"
| "logs_proto_mobilesdk_ios_ICoreConfiguration_ServiceType_value logs_proto_mobilesdk_ios_ICoreConfiguration_ServiceType_ML_VISION_ON_DEVICE_OBJECT_DETECTION = 35"

definition logs_proto_mobilesdk_ios_ICoreConfiguration_ServiceType_MIN :: logs_proto_mobilesdk_ios_ICoreConfiguration_ServiceType where
  "logs_proto_mobilesdk_ios_ICoreConfiguration_ServiceType_MIN = logs_proto_mobilesdk_ios_ICoreConfiguration_ServiceType_UNKNOWN_SDK_SERVICE"

definition logs_proto_mobilesdk_ios_ICoreConfiguration_ServiceType_MAX :: logs_proto_mobilesdk_ios_ICoreConfiguration_ServiceType where
  "logs_proto_mobilesdk_ios_ICoreConfiguration_ServiceType_MAX = logs_proto_mobilesdk_ios_ICoreConfiguration_ServiceType_ML_VISION_ON_DEVICE_OBJECT_DETECTION"

datatype logs_proto_mobilesdk_ios_ICoreConfiguration_PodName =
    logs_proto_mobilesdk_ios_ICoreConfiguration_PodName_UNKNOWN_POD_NAME
  | logs_proto_mobilesdk_ios_ICoreConfiguration_PodName_GOOGLE
  | logs_proto_mobilesdk_ios_ICoreConfiguration_PodName_FIREBASE

primrec logs_proto_mobilesdk_ios_ICoreConfiguration_PodName_value :: "logs_proto_mobilesdk_ios_ICoreConfiguration_PodName \<Rightarrow> int" where
  "logs_proto_mobilesdk_ios_ICoreConfiguration_PodName_value logs_proto_mobilesdk_ios_ICoreConfiguration_PodName_UNKNOWN_POD_NAME = 0"
| "logs_proto_mobilesdk_ios_ICoreConfiguration_PodName_value logs_proto_mobilesdk_ios_ICoreConfiguration_PodName_GOOGLE = 1"
| "logs_proto_mobilesdk_ios_ICoreConfiguration_PodName_value logs_proto_mobilesdk_ios_ICoreConfiguration_PodName_FIREBASE = 2"

definition logs_proto_mobilesdk_ios_ICoreConfiguration_PodName_MIN :: logs_proto_mobilesdk_ios_ICoreConfiguration_PodName where
  "logs_proto_mobilesdk_ios_ICoreConfiguration_PodName_MIN = logs_proto_mobilesdk_ios_ICoreConfiguration_PodName_UNKNOWN_POD_NAME"

definition logs_proto_mobilesdk_ios_ICoreConfiguration_PodName_MAX :: logs_proto_mobilesdk_ios_ICoreConfiguration_PodName where
  "logs_proto_mobilesdk_ios_ICoreConfiguration_PodName_MAX = logs_proto_mobilesdk_ios_ICoreConfiguration_PodName_FIREBASE"

datatype logs_proto_mobilesdk_ios_ICoreConfiguration_DeploymentType =
    logs_proto_mobilesdk_ios_ICoreConfiguration_DeploymentType_UNKNOWN
  | logs_proto_mobilesdk_ios_ICoreConfiguration_DeploymentType_COCOAPODS
  | logs_proto_mobilesdk_ios_ICoreConfiguration_DeploymentType_ZIP_FILE
  | logs_proto_mobilesdk_ios_ICoreConfiguration_DeploymentType_CARTHAGE
  | logs_proto_mobilesdk_ios_ICoreConfiguration_DeploymentType_SPM

primrec logs_proto_mobilesdk_ios_ICoreConfiguration_DeploymentType_value :: "logs_proto_mobilesdk_ios_ICoreConfiguration_DeploymentType \<Rightarrow> int" where
  "logs_proto_mobilesdk_ios_ICoreConfiguration_DeploymentType_value logs_proto_mobilesdk_ios_ICoreConfiguration_DeploymentType_UNKNOWN = 0"
| "logs_proto_mobilesdk_ios_ICoreConfiguration_DeploymentType_value logs_proto_mobilesdk_ios_ICoreConfiguration_DeploymentType_COCOAPODS = 1"
| "logs_proto_mobilesdk_ios_ICoreConfiguration_DeploymentType_value logs_proto_mobilesdk_ios_ICoreConfiguration_DeploymentType_ZIP_FILE = 2"
| "logs_proto_mobilesdk_ios_ICoreConfiguration_DeploymentType_value logs_proto_mobilesdk_ios_ICoreConfiguration_DeploymentType_CARTHAGE = 3"
| "logs_proto_mobilesdk_ios_ICoreConfiguration_DeploymentType_value logs_proto_mobilesdk_ios_ICoreConfiguration_DeploymentType_SPM = 4"

definition logs_proto_mobilesdk_ios_ICoreConfiguration_DeploymentType_MIN :: logs_proto_mobilesdk_ios_ICoreConfiguration_DeploymentType where
  "logs_proto_mobilesdk_ios_ICoreConfiguration_DeploymentType_MIN = logs_proto_mobilesdk_ios_ICoreConfiguration_DeploymentType_UNKNOWN"

definition logs_proto_mobilesdk_ios_ICoreConfiguration_DeploymentType_MAX :: logs_proto_mobilesdk_ios_ICoreConfiguration_DeploymentType where
  "logs_proto_mobilesdk_ios_ICoreConfiguration_DeploymentType_MAX = logs_proto_mobilesdk_ios_ICoreConfiguration_DeploymentType_SPM"

section \<open>Structures\<close>

definition gdt_cct_IosClientInfo :: ctype where
  "gdt_cct_IosClientInfo = CStruct [
     (''os_major_version'', (CPtr pb_bytes_array_t)),
     (''os_full_version'', (CPtr pb_bytes_array_t)),
     (''application_build'', (CPtr pb_bytes_array_t)),
     (''country'', (CPtr pb_bytes_array_t)),
     (''model'', (CPtr pb_bytes_array_t)),
     (''language_code'', (CPtr pb_bytes_array_t)),
     (''application_bundle_id'', (CPtr pb_bytes_array_t))]"

definition gdt_cct_ClientInfo :: ctype where
  "gdt_cct_ClientInfo = CStruct [
     (''has_client_type'', CBool),
     (''client_type'', CEnum),
     (''has_ios_client_info'', CBool),
     (''ios_client_info'', gdt_cct_IosClientInfo)]"

definition gdt_cct_NetworkConnectionInfo :: ctype where
  "gdt_cct_NetworkConnectionInfo = CStruct [
     (''has_network_type'', CBool),
     (''network_type'', CEnum),
     (''has_mobile_subtype'', CBool),
     (''mobile_subtype'', CEnum)]"

definition gdt_cct_LogEvent :: ctype where
  "gdt_cct_LogEvent = CStruct [
     (''has_event_time_ms'', CBool),
     (''event_time_ms'', CInt64),
     (''source_extension'', (CPtr pb_bytes_array_t)),
     (''has_event_code'', CBool),
     (''event_code'', CInt32),
     (''has_timezone_offset_seconds'', CBool),
     (''timezone_offset_seconds'', CInt64),
     (''has_event_uptime_ms'', CBool),
     (''event_uptime_ms'', CInt64),
     (''has_network_connection_info'', CBool),
     (''network_connection_info'', gdt_cct_NetworkConnectionInfo)]"

definition gdt_cct_LogRequest :: ctype where
  "gdt_cct_LogRequest = CStruct [
     (''has_client_info'', CBool),
     (''client_info'', gdt_cct_ClientInfo),
     (''has_log_source'', CBool),
     (''log_source'', CInt32),
     (''log_event_count'', CSize),
     (''log_event'', (CPtr gdt_cct_LogEvent)),
     (''has_request_time_ms'', CBool),
     (''request_time_ms'', CInt64),
     (''has_request_uptime_ms'', CBool),
     (''request_uptime_ms'', CInt64),
     (''has_qos_tier'', CBool),
     (''qos_tier'', CEnum)]"

definition gdt_cct_BatchedLogRequest :: ctype where
  "gdt_cct_BatchedLogRequest = CStruct [
     (''log_request_count'', CSize),
     (''log_request'', (CPtr gdt_cct_LogRequest))]"

definition gdt_cct_QosTierConfiguration :: ctype where
  "gdt_cct_QosTierConfiguration = CStruct [
     (''has_qos_tier'', CBool),
     (''qos_tier'', CEnum),
     (''has_log_source'', CBool),
     (''log_source'', CInt32)]"

definition gdt_cct_QosTiersOverride :: ctype where
  "gdt_cct_QosTiersOverride = CStruct [
     (''qos_tier_configuration_count'', CSize),
     (''qos_tier_configuration'', (CPtr gdt_cct_QosTierConfiguration)),
     (''has_qos_tier_fingerprint'', CBool),
     (''qos_tier_fingerprint'', CInt64)]"

definition gdt_cct_LogResponse :: ctype where
  "gdt_cct_LogResponse = CStruct [
     (''has_next_request_wait_millis'', CBool),
     (''next_request_wait_millis'', CInt64),
     (''has_qos_tier'', CBool),
     (''qos_tier'', gdt_cct_QosTiersOverride)]"

definition logs_proto_mobilesdk_ios_ICoreConfiguration :: ctype where
  "logs_proto_mobilesdk_ios_ICoreConfiguration = CStruct [
     (''has_configuration_type'', CBool),
     (''configuration_type'', CEnum),
     (''sdk_service_installed_count'', CSize),
     (''sdk_service_installed'', (CPtr CEnum)),
     (''device_model'', (CPtr pb_bytes_array_t)),
     (''app_id'', (CPtr pb_bytes_array_t)),
     (''bundle_id'', (CPtr pb_bytes_array_t)),
     (''has_pod_name'', CBool),
     (''pod_name'', CEnum),
     (''icore_version'', (CPtr pb_bytes_array_t)),
     (''sdk_version'', (CPtr pb_bytes_array_t)),
     (''has_sdk_name'', CBool),
     (''sdk_name'', CEnum),
     (''has_app_count'', CBool),
     (''app_count'', CInt32),
     (''os_version'', (CPtr pb_bytes_array_t)),
     (''min_supported_ios_version'', (CPtr pb_bytes_array_t)),
     (''has_use_default_app'', CBool),
     (''use_default_app'', CBool),
     (''has_deployed_in_app_store'', CBool),
     (''deployed_in_app_store'', CBool),
     (''has_dynamic_framework_count'', CBool),
     (''dynamic_framework_count'', CInt32),
     (''apple_framework_version'', (CPtr pb_bytes_array_t)),
     (''has_using_zip_file'', CBool),
     (''using_zip_file'', CBool),
     (''has_deployment_type'', CBool),
     (''deployment_type'', CEnum),
     (''platform_info'', (CPtr pb_bytes_array_t)),
     (''has_swizzling_enabled'', CBool),
     (''swizzling_enabled'', CBool),
     (''has_using_gdt'', CBool),
     (''using_gdt'', CBool)]"

section \<open>Descriptors\<close>

definition gdt_cct_NetworkConnectionInfo_network_type_default :: "byte list" where
  "gdt_cct_NetworkConnectionInfo_network_type_default = le_bytes 4 (word_of_int (gdt_cct_NetworkConnectionInfo_NetworkType_value gdt_cct_NetworkConnectionInfo_NetworkType_NONE) :: 32 word)"

definition gdt_cct_NetworkConnectionInfo_mobile_subtype_default :: "byte list" where
  "gdt_cct_NetworkConnectionInfo_mobile_subtype_default = le_bytes 4 (word_of_int (gdt_cct_NetworkConnectionInfo_MobileSubtype_value gdt_cct_NetworkConnectionInfo_MobileSubtype_UNKNOWN_MOBILE_SUBTYPE) :: 32 word)"

definition gdt_cct_LogRequest_qos_tier_default :: "byte list" where
  "gdt_cct_LogRequest_qos_tier_default = le_bytes 4 (word_of_int (gdt_cct_QosTierConfiguration_QosTier_value gdt_cct_QosTierConfiguration_QosTier_DEFAULT) :: 32 word)"

definition gdt_cct_QosTierConfiguration_log_source_default :: "byte list" where
  "gdt_cct_QosTierConfiguration_log_source_default = le_bytes 4 (word_of_int 0 :: 32 word)"

definition gdt_cct_IosClientInfo_fields :: "pb_field_t list" where
  "gdt_cct_IosClientInfo_fields = [
     PB_FIELD 3 BYTES PB_OPTIONAL_POINTER PB_DATAOFFSET_FIRST
        (member_of gdt_cct_IosClientInfo ''os_major_version'') (member_of gdt_cct_IosClientInfo ''os_major_version'') NullPtr,
     PB_FIELD 4 BYTES PB_OPTIONAL_POINTER PB_DATAOFFSET_OTHER
        (member_of gdt_cct_IosClientInfo ''os_full_version'') (member_of gdt_cct_IosClientInfo ''os_major_version'') NullPtr,
     PB_FIELD 5 BYTES PB_OPTIONAL_POINTER PB_DATAOFFSET_OTHER
        (member_of gdt_cct_IosClientInfo ''application_build'') (member_of gdt_cct_IosClientInfo ''os_full_version'') NullPtr,
     PB_FIELD 6 BYTES PB_OPTIONAL_POINTER PB_DATAOFFSET_OTHER
        (member_of gdt_cct_IosClientInfo ''country'') (member_of gdt_cct_IosClientInfo ''application_build'') NullPtr,
     PB_FIELD 7 BYTES PB_OPTIONAL_POINTER PB_DATAOFFSET_OTHER
        (member_of gdt_cct_IosClientInfo ''model'') (member_of gdt_cct_IosClientInfo ''country'') NullPtr,
     PB_FIELD 8 BYTES PB_OPTIONAL_POINTER PB_DATAOFFSET_OTHER
        (member_of gdt_cct_IosClientInfo ''language_code'') (member_of gdt_cct_IosClientInfo ''model'') NullPtr,
     PB_FIELD 11 BYTES PB_OPTIONAL_POINTER PB_DATAOFFSET_OTHER
        (member_of gdt_cct_IosClientInfo ''application_bundle_id'') (member_of gdt_cct_IosClientInfo ''language_code'') NullPtr,
     PB_LAST_FIELD]"

definition gdt_cct_IosClientInfo_members :: "member list" where
  "gdt_cct_IosClientInfo_members = map (member_of gdt_cct_IosClientInfo) [
     ''os_major_version'',
     ''os_full_version'',
     ''application_build'',
     ''country'',
     ''model'',
     ''language_code'',
     ''application_bundle_id'']"

definition gdt_cct_ClientInfo_fields :: "pb_field_t list" where
  "gdt_cct_ClientInfo_fields = [
     PB_FIELD 1 UENUM PB_OPTIONAL_STATIC PB_DATAOFFSET_FIRST
        (member_of gdt_cct_ClientInfo ''client_type'') (member_of gdt_cct_ClientInfo ''client_type'') NullPtr,
     PB_FIELD 4 MESSAGE PB_OPTIONAL_STATIC PB_DATAOFFSET_OTHER
        (member_of gdt_cct_ClientInfo ''ios_client_info'') (member_of gdt_cct_ClientInfo ''client_type'') (SubFields gdt_cct_IosClientInfo_fields),
     PB_LAST_FIELD]"

definition gdt_cct_ClientInfo_members :: "member list" where
  "gdt_cct_ClientInfo_members = map (member_of gdt_cct_ClientInfo) [
     ''client_type'',
     ''ios_client_info'']"

definition gdt_cct_NetworkConnectionInfo_fields :: "pb_field_t list" where
  "gdt_cct_NetworkConnectionInfo_fields = [
     PB_FIELD 1 ENUM PB_OPTIONAL_STATIC PB_DATAOFFSET_FIRST
        (member_of gdt_cct_NetworkConnectionInfo ''network_type'') (member_of gdt_cct_NetworkConnectionInfo ''network_type'') (DefaultValue gdt_cct_NetworkConnectionInfo_network_type_default),
     PB_FIELD 2 UENUM PB_OPTIONAL_STATIC PB_DATAOFFSET_OTHER
        (member_of gdt_cct_NetworkConnectionInfo ''mobile_subtype'') (member_of gdt_cct_NetworkConnectionInfo ''network_type'') (DefaultValue gdt_cct_NetworkConnectionInfo_mobile_subtype_default),
     PB_LAST_FIELD]"

definition gdt_cct_NetworkConnectionInfo_members :: "member list" where
  "gdt_cct_NetworkConnectionInfo_members = map (member_of gdt_cct_NetworkConnectionInfo) [
     ''network_type'',
     ''mobile_subtype'']"

definition gdt_cct_LogEvent_fields :: "pb_field_t list" where
  "gdt_cct_LogEvent_fields = [
     PB_FIELD 1 INT64 PB_OPTIONAL_STATIC PB_DATAOFFSET_FIRST
        (member_of gdt_cct_LogEvent ''event_time_ms'') (member_of gdt_cct_LogEvent ''event_time_ms'') NullPtr,
     PB_FIELD 6 BYTES PB_OPTIONAL_POINTER PB_DATAOFFSET_OTHER
        (member_of gdt_cct_LogEvent ''source_extension'') (member_of gdt_cct_LogEvent ''event_time_ms'') NullPtr,
     PB_FIELD 11 INT32 PB_OPTIONAL_STATIC PB_DATAOFFSET_OTHER
        (member_of gdt_cct_LogEvent ''event_code'') (member_of gdt_cct_LogEvent ''source_extension'') NullPtr,
     PB_FIELD 15 SINT64 PB_OPTIONAL_STATIC PB_DATAOFFSET_OTHER
        (member_of gdt_cct_LogEvent ''timezone_offset_seconds'') (member_of gdt_cct_LogEvent ''event_code'') NullPtr,
     PB_FIELD 17 INT64 PB_OPTIONAL_STATIC PB_DATAOFFSET_OTHER
        (member_of gdt_cct_LogEvent ''event_uptime_ms'') (member_of gdt_cct_LogEvent ''timezone_offset_seconds'') NullPtr,
     PB_FIELD 23 MESSAGE PB_OPTIONAL_STATIC PB_DATAOFFSET_OTHER
        (member_of gdt_cct_LogEvent ''network_connection_info'') (member_of gdt_cct_LogEvent ''event_uptime_ms'') (SubFields gdt_cct_NetworkConnectionInfo_fields),
     PB_LAST_FIELD]"

definition gdt_cct_LogEvent_members :: "member list" where
  "gdt_cct_LogEvent_members = map (member_of gdt_cct_LogEvent) [
     ''event_time_ms'',
     ''source_extension'',
     ''event_code'',
     ''timezone_offset_seconds'',
     ''event_uptime_ms'',
     ''network_connection_info'']"

definition gdt_cct_LogRequest_fields :: "pb_field_t list" where
  "gdt_cct_LogRequest_fields = [
     PB_FIELD 1 MESSAGE PB_OPTIONAL_STATIC PB_DATAOFFSET_FIRST
        (member_of gdt_cct_LogRequest ''client_info'') (member_of gdt_cct_LogRequest ''client_info'') (SubFields gdt_cct_ClientInfo_fields),
     PB_FIELD 2 INT32 PB_OPTIONAL_STATIC PB_DATAOFFSET_OTHER
        (member_of gdt_cct_LogRequest ''log_source'') (member_of gdt_cct_LogRequest ''client_info'') NullPtr,
     PB_FIELD 3 MESSAGE PB_REPEATED_POINTER PB_DATAOFFSET_OTHER
        (member_of gdt_cct_LogRequest ''log_event'') (member_of gdt_cct_LogRequest ''log_source'') (SubFields gdt_cct_LogEvent_fields),
     PB_FIELD 4 INT64 PB_OPTIONAL_STATIC PB_DATAOFFSET_OTHER
        (member_of gdt_cct_LogRequest ''request_time_ms'') (member_of gdt_cct_LogRequest ''log_event'') NullPtr,
     PB_FIELD 8 INT64 PB_OPTIONAL_STATIC PB_DATAOFFSET_OTHER
        (member_of gdt_cct_LogRequest ''request_uptime_ms'') (member_of gdt_cct_LogRequest ''request_time_ms'') NullPtr,
     PB_FIELD 9 UENUM PB_OPTIONAL_STATIC PB_DATAOFFSET_OTHER
        (member_of gdt_cct_LogRequest ''qos_tier'') (member_of gdt_cct_LogRequest ''request_uptime_ms'') (DefaultValue gdt_cct_LogRequest_qos_tier_default),
     PB_LAST_FIELD]"

definition gdt_cct_LogRequest_members :: "member list" where
  "gdt_cct_LogRequest_members = map (member_of gdt_cct_LogRequest) [
     ''client_info'',
     ''log_source'',
     ''log_event'',
     ''request_time_ms'',
     ''request_uptime_ms'',
     ''qos_tier'']"

definition gdt_cct_BatchedLogRequest_fields :: "pb_field_t list" where
  "gdt_cct_BatchedLogRequest_fields = [
     PB_FIELD 1 MESSAGE PB_REPEATED_POINTER PB_DATAOFFSET_FIRST
        (member_of gdt_cct_BatchedLogRequest ''log_request'') (member_of gdt_cct_BatchedLogRequest ''log_request'') (SubFields gdt_cct_LogRequest_fields),
     PB_LAST_FIELD]"

definition gdt_cct_BatchedLogRequest_members :: "member list" where
  "gdt_cct_BatchedLogRequest_members = map (member_of gdt_cct_BatchedLogRequest) [
     ''log_request'']"

definition gdt_cct_QosTierConfiguration_fields :: "pb_field_t list" where
  "gdt_cct_QosTierConfiguration_fields = [
     PB_FIELD 2 UENUM PB_OPTIONAL_STATIC PB_DATAOFFSET_FIRST
        (member_of gdt_cct_QosTierConfiguration ''qos_tier'') (member_of gdt_cct_QosTierConfiguration ''qos_tier'') NullPtr,
     PB_FIELD 3 INT32 PB_OPTIONAL_STATIC PB_DATAOFFSET_OTHER
        (member_of gdt_cct_QosTierConfiguration ''log_source'') (member_of gdt_cct_QosTierConfiguration ''qos_tier'') (DefaultValue gdt_cct_QosTierConfiguration_log_source_default),
     PB_LAST_FIELD]"

definition gdt_cct_QosTierConfiguration_members :: "member list" where
  "gdt_cct_QosTierConfiguration_members = map (member_of gdt_cct_QosTierConfiguration) [
     ''qos_tier'',
     ''log_source'']"

definition gdt_cct_QosTiersOverride_fields :: "pb_field_t list" where
  "gdt_cct_QosTiersOverride_fields = [
     PB_FIELD 1 MESSAGE PB_REPEATED_POINTER PB_DATAOFFSET_FIRST
        (member_of gdt_cct_QosTiersOverride ''qos_tier_configuration'') (member_of gdt_cct_QosTiersOverride ''qos_tier_configuration'') (SubFields gdt_cct_QosTierConfiguration_fields),
     PB_FIELD 2 INT64 PB_OPTIONAL_STATIC PB_DATAOFFSET_OTHER
        (member_of gdt_cct_QosTiersOverride ''qos_tier_fingerprint'') (member_of gdt_cct_QosTiersOverride ''qos_tier_configuration'') NullPtr,
     PB_LAST_FIELD]"

definition gdt_cct_QosTiersOverride_members :: "member list" where
  "gdt_cct_QosTiersOverride_members = map (member_of gdt_cct_QosTiersOverride) [
     ''qos_tier_configuration'',
     ''qos_tier_fingerprint'']"

definition gdt_cct_LogResponse_fields :: "pb_field_t list" where
  "gdt_cct_LogResponse_fields = [
     PB_FIELD 1 INT64 PB_OPTIONAL_STATIC PB_DATAOFFSET_FIRST
        (member_of gdt_cct_LogResponse ''next_request_wait_millis'') (member_of gdt_cct_LogResponse ''next_request_wait_millis'') NullPtr,
     PB_FIELD 3 MESSAGE PB_OPTIONAL_STATIC PB_DATAOFFSET_OTHER
        (member_of gdt_cct_LogResponse ''qos_tier'') (member_of gdt_cct_LogResponse ''next_request_wait_millis'') (SubFields gdt_cct_QosTiersOverride_fields),
     PB_LAST_FIELD]"

definition gdt_cct_LogResponse_members :: "member list" where
  "gdt_cct_LogResponse_members = map (member_of gdt_cct_LogResponse) [
     ''next_request_wait_millis'',
     ''qos_tier'']"

definition logs_proto_mobilesdk_ios_ICoreConfiguration_fields :: "pb_field_t list" where
  "logs_proto_mobilesdk_ios_ICoreConfiguration_fields = [
     PB_FIELD 1 UENUM PB_OPTIONAL_STATIC PB_DATAOFFSET_FIRST
        (member_of logs_proto_mobilesdk_ios_ICoreConfiguration ''configuration_type'') (member_of logs_proto_mobilesdk_ios_ICoreConfiguration ''configuration_type'') NullPtr,
     PB_FIELD 7 UENUM PB_REPEATED_POINTER PB_DATAOFFSET_OTHER
        (member_of logs_proto_mobilesdk_ios_ICoreConfiguration ''sdk_service_installed'') (member_of logs_proto_mobilesdk_ios_ICoreConfiguration ''configuration_type'') NullPtr,
     PB_FIELD 9 BYTES PB_OPTIONAL_POINTER PB_DATAOFFSET_OTHER
        (member_of logs_proto_mobilesdk_ios_ICoreConfiguration ''device_model'') (member_of logs_proto_mobilesdk_ios_ICoreConfiguration ''sdk_service_installed'') NullPtr,
     PB_FIELD 10 BYTES PB_OPTIONAL_POINTER PB_DATAOFFSET_OTHER
        (member_of logs_proto_mobilesdk_ios_ICoreConfiguration ''app_id'') (member_of logs_proto_mobilesdk_ios_ICoreConfiguration ''device_model'') NullPtr,
     PB_FIELD 12 BYTES PB_OPTIONAL_POINTER PB_DATAOFFSET_OTHER
        (member_of logs_proto_mobilesdk_ios_ICoreConfiguration ''bundle_id'') (member_of logs_proto_mobilesdk_ios_ICoreConfiguration ''app_id'') NullPtr,
     PB_FIELD 16 UENUM PB_OPTIONAL_STATIC PB_DATAOFFSET_OTHER
        (member_of logs_proto_mobilesdk_ios_ICoreConfiguration ''pod_name'') (member_of logs_proto_mobilesdk_ios_ICoreConfiguration ''bundle_id'') NullPtr,
     PB_FIELD 18 BYTES PB_OPTIONAL_POINTER PB_DATAOFFSET_OTHER
        (member_of logs_proto_mobilesdk_ios_ICoreConfiguration ''icore_version'') (member_of logs_proto_mobilesdk_ios_ICoreConfiguration ''pod_name'') NullPtr,
     PB_FIELD 19 BYTES PB_OPTIONAL_POINTER PB_DATAOFFSET_OTHER
        (member_of logs_proto_mobilesdk_ios_ICoreConfiguration ''sdk_version'') (member_of logs_proto_mobilesdk_ios_ICoreConfiguration ''icore_version'') NullPtr,
     PB_FIELD 20 UENUM PB_OPTIONAL_STATIC PB_DATAOFFSET_OTHER
        (member_of logs_proto_mobilesdk_ios_ICoreConfiguration ''sdk_name'') (member_of logs_proto_mobilesdk_ios_ICoreConfiguration ''sdk_version'') NullPtr,
     PB_FIELD 21 INT32 PB_OPTIONAL_STATIC PB_DATAOFFSET_OTHER
        (member_of logs_proto_mobilesdk_ios_ICoreConfiguration ''app_count'') (member_of logs_proto_mobilesdk_ios_ICoreConfiguration ''sdk_name'') NullPtr,
     PB_FIELD 22 BYTES PB_OPTIONAL_POINTER PB_DATAOFFSET_OTHER
        (member_of logs_proto_mobilesdk_ios_ICoreConfiguration ''os_version'') (member_of logs_proto_mobilesdk_ios_ICoreConfiguration ''app_count'') NullPtr,
     PB_FIELD 24 BYTES PB_OPTIONAL_POINTER PB_DATAOFFSET_OTHER
        (member_of logs_proto_mobilesdk_ios_ICoreConfiguration ''min_supported_ios_version'') (member_of logs_proto_mobilesdk_ios_ICoreConfiguration ''os_version'') NullPtr,
     PB_FIELD 25 BOOL PB_OPTIONAL_STATIC PB_DATAOFFSET_OTHER
        (member_of logs_proto_mobilesdk_ios_ICoreConfiguration ''use_default_app'') (member_of logs_proto_mobilesdk_ios_ICoreConfiguration ''min_supported_ios_version'') NullPtr,
     PB_FIELD 26 BOOL PB_OPTIONAL_STATIC PB_DATAOFFSET_OTHER
        (member_of logs_proto_mobilesdk_ios_ICoreConfiguration ''deployed_in_app_store'') (member_of logs_proto_mobilesdk_ios_ICoreConfiguration ''use_default_app'') NullPtr,
     PB_FIELD 27 INT32 PB_OPTIONAL_STATIC PB_DATAOFFSET_OTHER
        (member_of logs_proto_mobilesdk_ios_ICoreConfiguration ''dynamic_framework_count'') (member_of logs_proto_mobilesdk_ios_ICoreConfiguration ''deployed_in_app_store'') NullPtr,
     PB_FIELD 28 BYTES PB_OPTIONAL_POINTER PB_DATAOFFSET_OTHER
        (member_of logs_proto_mobilesdk_ios_ICoreConfiguration ''apple_framework_version'') (member_of logs_proto_mobilesdk_ios_ICoreConfiguration ''dynamic_framework_count'') NullPtr,
     PB_FIELD 29 BOOL PB_OPTIONAL_STATIC PB_DATAOFFSET_OTHER
        (member_of logs_proto_mobilesdk_ios_ICoreConfiguration ''using_zip_file'') (member_of logs_proto_mobilesdk_ios_ICoreConfiguration ''apple_framework_version'') NullPtr,
     PB_FIELD 30 UENUM PB_OPTIONAL_STATIC PB_DATAOFFSET_OTHER
        (member_of logs_proto_mobilesdk_ios_ICoreConfiguration ''deployment_type'') (member_of logs_proto_mobilesdk_ios_ICoreConfiguration ''using_zip_file'') NullPtr,
     PB_FIELD 31 BYTES PB_OPTIONAL_POINTER PB_DATAOFFSET_OTHER
        (member_of logs_proto_mobilesdk_ios_ICoreConfiguration ''platform_info'') (member_of logs_proto_mobilesdk_ios_ICoreConfiguration ''deployment_type'') NullPtr,
     PB_FIELD 33 BOOL PB_OPTIONAL_STATIC PB_DATAOFFSET_OTHER
        (member_of logs_proto_mobilesdk_ios_ICoreConfiguration ''swizzling_enabled'') (member_of logs_proto_mobilesdk_ios_ICoreConfiguration ''platform_info'') NullPtr,
     PB_FIELD 36 BOOL PB_OPTIONAL_STATIC PB_DATAOFFSET_OTHER
        (member_of logs_proto_mobilesdk_ios_ICoreConfiguration ''using_gdt'') (member_of logs_proto_mobilesdk_ios_ICoreConfiguration ''swizzling_enabled'') NullPtr,
     PB_LAST_FIELD]"

definition logs_proto_mobilesdk_ios_ICoreConfiguration_members :: "member list" where
  "logs_proto_mobilesdk_ios_ICoreConfiguration_members = map (member_of logs_proto_mobilesdk_ios_ICoreConfiguration) [
     ''configuration_type'',
     ''sdk_service_installed'',
     ''device_model'',
     ''app_id'',
     ''bundle_id'',
     ''pod_name'',
     ''icore_version'',
     ''sdk_version'',
     ''sdk_name'',
     ''app_count'',
     ''os_version'',
     ''min_supported_ios_version'',
     ''use_default_app'',
     ''deployed_in_app_store'',
     ''dynamic_framework_count'',
     ''apple_framework_version'',
     ''using_zip_file'',
     ''deployment_type'',
     ''platform_info'',
     ''swizzling_enabled'',
     ''using_gdt'']"

section \<open>Field tags\<close>

definition gdt_cct_BatchedLogRequest_tags :: "(string \<times> pb_size_t) list" where
  "gdt_cct_BatchedLogRequest_tags = [
     (''log_request'', 1)]"

definition gdt_cct_IosClientInfo_tags :: "(string \<times> pb_size_t) list" where
  "gdt_cct_IosClientInfo_tags = [
     (''os_major_version'', 3),
     (''os_full_version'', 4),
     (''application_build'', 5),
     (''country'', 6),
     (''model'', 7),
     (''language_code'', 8),
     (''application_bundle_id'', 11)]"

definition gdt_cct_ClientInfo_tags :: "(string \<times> pb_size_t) list" where
  "gdt_cct_ClientInfo_tags = [
     (''client_type'', 1),
     (''ios_client_info'', 4)]"

definition gdt_cct_NetworkConnectionInfo_tags :: "(string \<times> pb_size_t) list" where
  "gdt_cct_NetworkConnectionInfo_tags = [
     (''network_type'', 1),
     (''mobile_subtype'', 2)]"

definition gdt_cct_QosTierConfiguration_tags :: "(string \<times> pb_size_t) list" where
  "gdt_cct_QosTierConfiguration_tags = [
     (''qos_tier'', 2),
     (''log_source'', 3)]"

definition gdt_cct_QosTiersOverride_tags :: "(string \<times> pb_size_t) list" where
  "gdt_cct_QosTiersOverride_tags = [
     (''qos_tier_configuration'', 1),
     (''qos_tier_fingerprint'', 2)]"

definition gdt_cct_LogEvent_tags :: "(string \<times> pb_size_t) list" where
  "gdt_cct_LogEvent_tags = [
     (''event_time_ms'', 1),
     (''event_code'', 11),
     (''event_uptime_ms'', 17),
     (''source_extension'', 6),
     (''timezone_offset_seconds'', 15),
     (''network_connection_info'', 23)]"

definition gdt_cct_LogRequest_tags :: "(string \<times> pb_size_t) list" where
  "gdt_cct_LogRequest_tags = [
     (''request_time_ms'', 4),
     (''request_uptime_ms'', 8),
     (''client_info'', 1),
     (''log_source'', 2),
     (''log_event'', 3),
     (''qos_tier'', 9)]"

definition gdt_cct_LogResponse_tags :: "(string \<times> pb_size_t) list" where
  "gdt_cct_LogResponse_tags = [
     (''next_request_wait_millis'', 1),
     (''qos_tier'', 3)]"

definition logs_proto_mobilesdk_ios_ICoreConfiguration_tags :: "(string \<times> pb_size_t) list" where
  "logs_proto_mobilesdk_ios_ICoreConfiguration_tags = [
     (''pod_name'', 16),
     (''configuration_type'', 1),
     (''icore_version'', 18),
     (''sdk_version'', 19),
     (''sdk_service_installed'', 7),
     (''sdk_name'', 20),
     (''device_model'', 9),
     (''os_version'', 22),
     (''app_id'', 10),
     (''bundle_id'', 12),
     (''min_supported_ios_version'', 24),
     (''use_default_app'', 25),
     (''app_count'', 21),
     (''deployed_in_app_store'', 26),
     (''dynamic_framework_count'', 27),
     (''apple_framework_version'', 28),
     (''using_zip_file'', 29),
     (''deployment_type'', 30),
     (''platform_info'', 31),
     (''swizzling_enabled'', 33),
     (''using_gdt'', 36)]"

text \<open>All message types.\<close>

definition shipped :: "(ctype \<times> pb_field_t list \<times> member list \<times> (string \<times> pb_size_t) list) list" where
  "shipped = [
     (gdt_cct_IosClientInfo, gdt_cct_IosClientInfo_fields, gdt_cct_IosClientInfo_members, gdt_cct_IosClientInfo_tags),
     (gdt_cct_ClientInfo, gdt_cct_ClientInfo_fields, gdt_cct_ClientInfo_members, gdt_cct_ClientInfo_tags),
     (gdt_cct_NetworkConnectionInfo, gdt_cct_NetworkConnectionInfo_fields, gdt_cct_NetworkConnectionInfo_members, gdt_cct_NetworkConnectionInfo_tags),
     (gdt_cct_LogEvent, gdt_cct_LogEvent_fields, gdt_cct_LogEvent_members, gdt_cct_LogEvent_tags),
     (gdt_cct_LogRequest, gdt_cct_LogRequest_fields, gdt_cct_LogRequest_members, gdt_cct_LogRequest_tags),
     (gdt_cct_BatchedLogRequest, gdt_cct_BatchedLogRequest_fields, gdt_cct_BatchedLogRequest_members, gdt_cct_BatchedLogRequest_tags),
     (gdt_cct_QosTierConfiguration, gdt_cct_QosTierConfiguration_fields, gdt_cct_QosTierConfiguration_members, gdt_cct_QosTierConfiguration_tags),
     (gdt_cct_QosTiersOverride, gdt_cct_QosTiersOverride_fields, gdt_cct_QosTiersOverride_members, gdt_cct_QosTiersOverride_tags),
     (gdt_cct_LogResponse, gdt_cct_LogResponse_fields, gdt_cct_LogResponse_members, gdt_cct_LogResponse_tags),
     (logs_proto_mobilesdk_ios_ICoreConfiguration, logs_proto_mobilesdk_ios_ICoreConfiguration_fields, logs_proto_mobilesdk_ios_ICoreConfiguration_members, logs_proto_mobilesdk_ios_ICoreConfiguration_tags)]"

section \<open>Normal forms\<close>

text \<open>The layouts and the descriptors in numbers, computed once.\<close>

lemmas macro_defs = PB_FIELD_def PB_OPTIONAL_STATIC_def PB_OPTIONAL_POINTER_def
  PB_REPEATED_POINTER_def PB_DATAOFFSET_FIRST_def PB_DATAOFFSET_OTHER_def
  pb_membersize_def pb_elemsize_def pb_delta_def

lemma gdt_cct_IosClientInfo_members_nf [code]:
  "gdt_cct_IosClientInfo_members =
    [\<lparr>m_offset = 0, m_size = 8, m_elem = 8, m_sizeoff = 0\<rparr>,
     \<lparr>m_offset = 8, m_size = 8, m_elem = 8, m_sizeoff = 8\<rparr>,
     \<lparr>m_offset = 16, m_size = 8, m_elem = 8, m_sizeoff = 16\<rparr>,
     \<lparr>m_offset = 24, m_size = 8, m_elem = 8, m_sizeoff = 24\<rparr>,
     \<lparr>m_offset = 32, m_size = 8, m_elem = 8, m_sizeoff = 32\<rparr>,
     \<lparr>m_offset = 40, m_size = 8, m_elem = 8, m_sizeoff = 40\<rparr>,
     \<lparr>m_offset = 48, m_size = 8, m_elem = 8, m_sizeoff = 48\<rparr>]"
  by code_simp

lemmas gdt_cct_IosClientInfo_member_of = gdt_cct_IosClientInfo_members_nf[unfolded gdt_cct_IosClientInfo_members_def list.map list.inject]

lemma gdt_cct_IosClientInfo_fields_nf [code]:
  "gdt_cct_IosClientInfo_fields = [
     PbField 3 150 0 0 8 0 NullPtr,
     PbField 4 150 0 0 8 0 NullPtr,
     PbField 5 150 0 0 8 0 NullPtr,
     PbField 6 150 0 0 8 0 NullPtr,
     PbField 7 150 0 0 8 0 NullPtr,
     PbField 8 150 0 0 8 0 NullPtr,
     PbField 11 150 0 0 8 0 NullPtr,
     PB_LAST_FIELD]"
  unfolding gdt_cct_IosClientInfo_fields_def by (simp add: gdt_cct_IosClientInfo_member_of macro_defs)

lemma gdt_cct_ClientInfo_members_nf [code]:
  "gdt_cct_ClientInfo_members =
    [\<lparr>m_offset = 4, m_size = 4, m_elem = 4, m_sizeoff = 0\<rparr>,
     \<lparr>m_offset = 16, m_size = 56, m_elem = 56, m_sizeoff = 8\<rparr>]"
  by code_simp

lemmas gdt_cct_ClientInfo_member_of = gdt_cct_ClientInfo_members_nf[unfolded gdt_cct_ClientInfo_members_def list.map list.inject]

lemma gdt_cct_ClientInfo_fields_nf [code]:
  "gdt_cct_ClientInfo_fields = [
     PbField 1 18 4 (-4) 4 0 NullPtr,
     PbField 4 24 8 (-8) 56 0 (SubFields gdt_cct_IosClientInfo_fields),
     PB_LAST_FIELD]"
  unfolding gdt_cct_ClientInfo_fields_def by (simp add: gdt_cct_ClientInfo_member_of macro_defs)

lemma gdt_cct_NetworkConnectionInfo_members_nf [code]:
  "gdt_cct_NetworkConnectionInfo_members =
    [\<lparr>m_offset = 4, m_size = 4, m_elem = 4, m_sizeoff = 0\<rparr>,
     \<lparr>m_offset = 12, m_size = 4, m_elem = 4, m_sizeoff = 8\<rparr>]"
  by code_simp

lemmas gdt_cct_NetworkConnectionInfo_member_of = gdt_cct_NetworkConnectionInfo_members_nf[unfolded gdt_cct_NetworkConnectionInfo_members_def list.map list.inject]

lemma gdt_cct_NetworkConnectionInfo_fields_nf [code]:
  "gdt_cct_NetworkConnectionInfo_fields = [
     PbField 1 17 4 (-4) 4 0 (DefaultValue gdt_cct_NetworkConnectionInfo_network_type_default),
     PbField 2 18 4 (-4) 4 0 (DefaultValue gdt_cct_NetworkConnectionInfo_mobile_subtype_default),
     PB_LAST_FIELD]"
  unfolding gdt_cct_NetworkConnectionInfo_fields_def by (simp add: gdt_cct_NetworkConnectionInfo_member_of macro_defs)

lemma gdt_cct_LogEvent_members_nf [code]:
  "gdt_cct_LogEvent_members =
    [\<lparr>m_offset = 8, m_size = 8, m_elem = 8, m_sizeoff = 0\<rparr>,
     \<lparr>m_offset = 16, m_size = 8, m_elem = 8, m_sizeoff = 16\<rparr>,
     \<lparr>m_offset = 28, m_size = 4, m_elem = 4, m_sizeoff = 24\<rparr>,
     \<lparr>m_offset = 40, m_size = 8, m_elem = 8, m_sizeoff = 32\<rparr>,
     \<lparr>m_offset = 56, m_size = 8, m_elem = 8, m_sizeoff = 48\<rparr>,
     \<lparr>m_offset = 68, m_size = 16, m_elem = 16, m_sizeoff = 64\<rparr>]"
  by code_simp

lemmas gdt_cct_LogEvent_member_of = gdt_cct_LogEvent_members_nf[unfolded gdt_cct_LogEvent_members_def list.map list.inject]

lemma gdt_cct_LogEvent_fields_nf [code]:
  "gdt_cct_LogEvent_fields = [
     PbField 1 17 8 (-8) 8 0 NullPtr,
     PbField 6 150 0 0 8 0 NullPtr,
     PbField 11 17 4 (-4) 4 0 NullPtr,
     PbField 15 19 8 (-8) 8 0 NullPtr,
     PbField 17 17 8 (-8) 8 0 NullPtr,
     PbField 23 24 4 (-4) 16 0 (SubFields gdt_cct_NetworkConnectionInfo_fields),
     PB_LAST_FIELD]"
  unfolding gdt_cct_LogEvent_fields_def by (simp add: gdt_cct_LogEvent_member_of macro_defs)

lemma gdt_cct_LogRequest_members_nf [code]:
  "gdt_cct_LogRequest_members =
    [\<lparr>m_offset = 8, m_size = 72, m_elem = 72, m_sizeoff = 0\<rparr>,
     \<lparr>m_offset = 84, m_size = 4, m_elem = 4, m_sizeoff = 80\<rparr>,
     \<lparr>m_offset = 96, m_size = 8, m_elem = 88, m_sizeoff = 88\<rparr>,
     \<lparr>m_offset = 112, m_size = 8, m_elem = 8, m_sizeoff = 104\<rparr>,
     \<lparr>m_offset = 128, m_size = 8, m_elem = 8, m_sizeoff = 120\<rparr>,
     \<lparr>m_offset = 140, m_size = 4, m_elem = 4, m_sizeoff = 136\<rparr>]"
  by code_simp

lemmas gdt_cct_LogRequest_member_of = gdt_cct_LogRequest_members_nf[unfolded gdt_cct_LogRequest_members_def list.map list.inject]

lemma gdt_cct_LogRequest_fields_nf [code]:
  "gdt_cct_LogRequest_fields = [
     PbField 1 24 8 (-8) 72 0 (SubFields gdt_cct_ClientInfo_fields),
     PbField 2 17 4 (-4) 4 0 NullPtr,
     PbField 3 168 8 (-8) 88 0 (SubFields gdt_cct_LogEvent_fields),
     PbField 4 17 8 (-8) 8 0 NullPtr,
     PbField 8 17 8 (-8) 8 0 NullPtr,
     PbField 9 18 4 (-4) 4 0 (DefaultValue gdt_cct_LogRequest_qos_tier_default),
     PB_LAST_FIELD]"
  unfolding gdt_cct_LogRequest_fields_def by (simp add: gdt_cct_LogRequest_member_of macro_defs)

lemma gdt_cct_BatchedLogRequest_members_nf [code]:
  "gdt_cct_BatchedLogRequest_members =
    [\<lparr>m_offset = 8, m_size = 8, m_elem = 144, m_sizeoff = 0\<rparr>]"
  by code_simp

lemmas gdt_cct_BatchedLogRequest_member_of = gdt_cct_BatchedLogRequest_members_nf[unfolded gdt_cct_BatchedLogRequest_members_def list.map list.inject]

lemma gdt_cct_BatchedLogRequest_fields_nf [code]:
  "gdt_cct_BatchedLogRequest_fields = [
     PbField 1 168 8 (-8) 144 0 (SubFields gdt_cct_LogRequest_fields),
     PB_LAST_FIELD]"
  unfolding gdt_cct_BatchedLogRequest_fields_def by (simp add: gdt_cct_BatchedLogRequest_member_of macro_defs)

lemma gdt_cct_QosTierConfiguration_members_nf [code]:
  "gdt_cct_QosTierConfiguration_members =
    [\<lparr>m_offset = 4, m_size = 4, m_elem = 4, m_sizeoff = 0\<rparr>,
     \<lparr>m_offset = 12, m_size = 4, m_elem = 4, m_sizeoff = 8\<rparr>]"
  by code_simp

lemmas gdt_cct_QosTierConfiguration_member_of = gdt_cct_QosTierConfiguration_members_nf[unfolded gdt_cct_QosTierConfiguration_members_def list.map list.inject]

lemma gdt_cct_QosTierConfiguration_fields_nf [code]:
  "gdt_cct_QosTierConfiguration_fields = [
     PbField 2 18 4 (-4) 4 0 NullPtr,
     PbField 3 17 4 (-4) 4 0 (DefaultValue gdt_cct_QosTierConfiguration_log_source_default),
     PB_LAST_FIELD]"
  unfolding gdt_cct_QosTierConfiguration_fields_def by (simp add: gdt_cct_QosTierConfiguration_member_of macro_defs)

lemma gdt_cct_QosTiersOverride_members_nf [code]:
  "gdt_cct_QosTiersOverride_members =
    [\<lparr>m_offset = 8, m_size = 8, m_elem = 16, m_sizeoff = 0\<rparr>,
     \<lparr>m_offset = 24, m_size = 8, m_elem = 8, m_sizeoff = 16\<rparr>]"
  by code_simp

lemmas gdt_cct_QosTiersOverride_member_of = gdt_cct_QosTiersOverride_members_nf[unfolded gdt_cct_QosTiersOverride_members_def list.map list.inject]

lemma gdt_cct_QosTiersOverride_fields_nf [code]:
  "gdt_cct_QosTiersOverride_fields = [
     PbField 1 168 8 (-8) 16 0 (SubFields gdt_cct_QosTierConfiguration_fields),
     PbField 2 17 8 (-8) 8 0 NullPtr,
     PB_LAST_FIELD]"
  unfolding gdt_cct_QosTiersOverride_fields_def by (simp add: gdt_cct_QosTiersOverride_member_of macro_defs)

lemma gdt_cct_LogResponse_members_nf [code]:
  "gdt_cct_LogResponse_members =
    [\<lparr>m_offset = 8, m_size = 8, m_elem = 8, m_sizeoff = 0\<rparr>,
     \<lparr>m_offset = 24, m_size = 32, m_elem = 32, m_sizeoff = 16\<rparr>]"
  by code_simp

lemmas gdt_cct_LogResponse_member_of = gdt_cct_LogResponse_members_nf[unfolded gdt_cct_LogResponse_members_def list.map list.inject]

lemma gdt_cct_LogResponse_fields_nf [code]:
  "gdt_cct_LogResponse_fields = [
     PbField 1 17 8 (-8) 8 0 NullPtr,
     PbField 3 24 8 (-8) 32 0 (SubFields gdt_cct_QosTiersOverride_fields),
     PB_LAST_FIELD]"
  unfolding gdt_cct_LogResponse_fields_def by (simp add: gdt_cct_LogResponse_member_of macro_defs)

lemma logs_proto_mobilesdk_ios_ICoreConfiguration_members_nf [code]:
  "logs_proto_mobilesdk_ios_ICoreConfiguration_members =
    [\<lparr>m_offset = 4, m_size = 4, m_elem = 4, m_sizeoff = 0\<rparr>,
     \<lparr>m_offset = 16, m_size = 8, m_elem = 4, m_sizeoff = 8\<rparr>,
     \<lparr>m_offset = 24, m_size = 8, m_elem = 8, m_sizeoff = 24\<rparr>,
     \<lparr>m_offset = 32, m_size = 8, m_elem = 8, m_sizeoff = 32\<rparr>,
     \<lparr>m_offset = 40, m_size = 8, m_elem = 8, m_sizeoff = 40\<rparr>,
     \<lparr>m_offset = 52, m_size = 4, m_elem = 4, m_sizeoff = 48\<rparr>,
     \<lparr>m_offset = 56, m_size = 8, m_elem = 8, m_sizeoff = 56\<rparr>,
     \<lparr>m_offset = 64, m_size = 8, m_elem = 8, m_sizeoff = 64\<rparr>,
     \<lparr>m_offset = 76, m_size = 4, m_elem = 4, m_sizeoff = 72\<rparr>,
     \<lparr>m_offset = 84, m_size = 4, m_elem = 4, m_sizeoff = 80\<rparr>,
     \<lparr>m_offset = 88, m_size = 8, m_elem = 8, m_sizeoff = 88\<rparr>,
     \<lparr>m_offset = 96, m_size = 8, m_elem = 8, m_sizeoff = 96\<rparr>,
     \<lparr>m_offset = 105, m_size = 1, m_elem = 1, m_sizeoff = 104\<rparr>,
     \<lparr>m_offset = 107, m_size = 1, m_elem = 1, m_sizeoff = 106\<rparr>,
     \<lparr>m_offset = 112, m_size = 4, m_elem = 4, m_sizeoff = 108\<rparr>,
     \<lparr>m_offset = 120, m_size = 8, m_elem = 8, m_sizeoff = 120\<rparr>,
     \<lparr>m_offset = 129, m_size = 1, m_elem = 1, m_sizeoff = 128\<rparr>,
     \<lparr>m_offset = 132, m_size = 4, m_elem = 4, m_sizeoff = 130\<rparr>,
     \<lparr>m_offset = 136, m_size = 8, m_elem = 8, m_sizeoff = 136\<rparr>,
     \<lparr>m_offset = 145, m_size = 1, m_elem = 1, m_sizeoff = 144\<rparr>,
     \<lparr>m_offset = 147, m_size = 1, m_elem = 1, m_sizeoff = 146\<rparr>]"
  by code_simp

lemmas logs_proto_mobilesdk_ios_ICoreConfiguration_member_of = logs_proto_mobilesdk_ios_ICoreConfiguration_members_nf[unfolded logs_proto_mobilesdk_ios_ICoreConfiguration_members_def list.map list.inject]

lemma logs_proto_mobilesdk_ios_ICoreConfiguration_fields_nf [code]:
  "logs_proto_mobilesdk_ios_ICoreConfiguration_fields = [
     PbField 1 18 4 (-4) 4 0 NullPtr,
     PbField 7 162 8 (-8) 4 0 NullPtr,
     PbField 9 150 0 0 8 0 NullPtr,
     PbField 10 150 0 0 8 0 NullPtr,
     PbField 12 150 0 0 8 0 NullPtr,
     PbField 16 18 4 (-4) 4 0 NullPtr,
     PbField 18 150 0 0 8 0 NullPtr,
     PbField 19 150 0 0 8 0 NullPtr,
     PbField 20 18 4 (-4) 4 0 NullPtr,
     PbField 21 17 4 (-4) 4 0 NullPtr,
     PbField 22 150 0 0 8 0 NullPtr,
     PbField 24 150 0 0 8 0 NullPtr,
     PbField 25 16 1 (-1) 1 0 NullPtr,
     PbField 26 16 1 (-1) 1 0 NullPtr,
     PbField 27 17 4 (-4) 4 0 NullPtr,
     PbField 28 150 4 0 8 0 NullPtr,
     PbField 29 16 1 (-1) 1 0 NullPtr,
     PbField 30 18 2 (-2) 4 0 NullPtr,
     PbField 31 150 0 0 8 0 NullPtr,
     PbField 33 16 1 (-1) 1 0 NullPtr,
     PbField 36 16 1 (-1) 1 0 NullPtr,
     PB_LAST_FIELD]"
  unfolding logs_proto_mobilesdk_ios_ICoreConfiguration_fields_def by (simp add: logs_proto_mobilesdk_ios_ICoreConfiguration_member_of macro_defs)

section \<open>Properties of the messages\<close>

lemma shipped_layout: "list_all (\<lambda>(st, fs, ms, tags). layout_ok fs ms) shipped"
  by code_simp

lemma shipped_enc_ok:
  "list_all (\<lambda>(st, fs, ms, tags). list_all enc_field_ok fs \<and> msg_depth fs < 5) shipped"
  by code_simp

text \<open>C38. The iterator reads every field of every message of the application at the address
  the C compiler gave it: the offsets that the macros turn into gaps between fields add up
  again.\<close>

theorem shipped_addresses:
  assumes "(st, fs, ms, tags) \<in> set shipped" and "d \<noteq> 0" and "i < nfields fs"
  shows "cur (iter_at fs d i) = fs ! i \<and> pData (iter_at fs d i) = d + m_offset (ms ! i)"
proof
  have "layout_ok fs ms" using shipped_layout assms(1) by (auto simp: list_all_iff)
  then show "pData (iter_at fs d i) = d + m_offset (ms ! i)" by (rule iter_at_offset[OF _ assms(2,3)])
  show "cur (iter_at fs d i) = fs ! i"
    using assms(3) nfields_le[of fs] by (simp add: cur_iter_at field_at_def)
qed

lemma NetworkConnectionInfo_layout: "layout_ok gdt_cct_NetworkConnectionInfo_fields gdt_cct_NetworkConnectionInfo_members"
  by code_simp

lemma QosTierConfiguration_layout: "layout_ok gdt_cct_QosTierConfiguration_fields gdt_cct_QosTierConfiguration_members"
  by code_simp

lemma nfields_small:
  "nfields gdt_cct_NetworkConnectionInfo_fields = 2" "nfields gdt_cct_QosTierConfiguration_fields = 2"
  by code_simp+

lemma length_vbytes_128: "n < 128 \<Longrightarrow> length (vbytes n) = 1"
  by (subst vbytes.simps) simp

text \<open>An optional number of four bytes.\<close>

lemma wire_field_optional32:
  assumes "f = PbField t ty off so 4 0 q" "PB_ATYPE ty = PB_ATYPE_STATIC" "PB_HTYPE ty = PB_HTYPE_OPTIONAL"
    and "so \<noteq> 0" "unat t < 16"
  shows "PB_LTYPE ty = PB_LTYPE_VARINT \<Longrightarrow> \<exists>bs. wire_field d w m f p = Some bs \<and> length bs \<le> 11"
    and "PB_LTYPE ty = PB_LTYPE_UVARINT \<Longrightarrow> unat (ld32 m p) < 128 \<Longrightarrow>
      \<exists>bs. wire_field d w m f p = Some bs \<and> length bs \<le> 2"
  using assms length_vbytes_64[of "scast (ld32 m p)"]
  by (auto simp: wire_field_def wire_tagged_def wire_tag_def wiretype_of_def wire_value_def
      read_signed_def read_unsigned_def tag_bytes_def length_vbytes_128)

lemma unat_less_uint: "uint w < int n \<Longrightarrow> unat w < n"
  by (metis of_nat_less_iff uint_nat)

lemma wire_message_two:
  assumes "nfields fs = 2" "layout_ok fs ms" "p \<noteq> 0" 
    and "\<exists>a. wire_field d (wire_message d E) (env_mem E) (field_at fs 0) (p + m_offset (ms ! 0)) = Some a \<and> length a \<le> k"
    and "\<exists>b. wire_field d (wire_message d E) (env_mem E) (field_at fs 1) (p + m_offset (ms ! 1)) = Some b \<and> length b \<le> l"
  shows "\<exists>bs. wire_message (Suc d) E fs p = Some bs \<and> length bs \<le> k + l"
proof -
  have "[0..<nfields fs] = [0, 1]" using assms(1) by (simp add: upt_rec)
  moreover have "pData (iter_at fs p 0) = p + m_offset (ms ! 0)" "pData (iter_at fs p 1) = p + m_offset (ms ! 1)"
    using iter_at_offset[OF assms(2,3)] assms(1) by (simp_all del: iter_at.simps)
  ultimately show ?thesis using assms(4,5) by (auto simp del: iter_at.simps)
qed

text \<open>The maximal encoded sizes of the header.\<close>

definition gdt_cct_NetworkConnectionInfo_size :: "64 word" where
  "gdt_cct_NetworkConnectionInfo_size = 13"

definition gdt_cct_QosTierConfiguration_size :: "64 word" where
  "gdt_cct_QosTierConfiguration_size = 13"

lemma encoded_within:
  assumes "\<exists>bs. wire_message d E fs src = Some bs \<and> length bs \<le> n" and n: "n < 2 ^ 63"
  shows "(\<exists>sz. pb_get_encoded_size d E fs src = Some (Some sz) \<and> sz \<le> of_nat n) \<and>
    (\<forall>m buf. \<exists>s'. pb_encode d E fs src (pb_ostream_from_buffer m buf (of_nat n)) = Some (True, s'))"
proof -
  obtain bs where bs: "wire_message d E fs src = Some bs" "length bs \<le> n" using assms(1) by blast
  have u: "unat (of_nat n :: 64 word) = n" using n by (intro unat_of_nat_64) simp
  obtain sz where sz: "pb_get_encoded_size d E fs src = Some (Some sz)" "unat sz = length bs"
    "\<And>m buf bufsize. unat bufsize < 2 ^ 63 \<Longrightarrow> \<exists>s'. pb_encode d E fs src (pb_ostream_from_buffer m buf bufsize) = Some (sz \<le> bufsize, s')"
    using pb_get_encoded_size_exact[OF bs(1)] bs(2) n by auto
  have "sz \<le> of_nat n" using sz(2) bs(2) u by (simp add: word_le_nat_alt)
  then show ?thesis using sz(1) sz(3)[of "of_nat n"] u n by simp
qed

text \<open>C39. The generated header promises that an encoded \<open>NetworkConnectionInfo\<close> and an encoded
  \<open>QosTierConfiguration\<close> have at most thirteen bytes. For every memory in which the
  unsigned enumerations have one of their values, \<open>pb_get_encoded_size\<close> returns at most this size, and \<open>pb_encode\<close> into a buffer of
  this size succeeds; the other fields may hold any bits.\<close>

theorem encoded_size_bounds:
  assumes "p \<noteq> 0"
    and "uint (ld32 (env_mem E) (p + 12)) \<le>
           gdt_cct_NetworkConnectionInfo_MobileSubtype_value gdt_cct_NetworkConnectionInfo_MobileSubtype_MAX"
    and "q \<noteq> 0"
    and "uint (ld32 (env_mem E) (q + 4)) \<le>
           gdt_cct_QosTierConfiguration_QosTier_value gdt_cct_QosTierConfiguration_QosTier_MAX"
  shows "((\<exists>sz. pb_get_encoded_size (Suc d) E gdt_cct_NetworkConnectionInfo_fields p = Some (Some sz) \<and> sz \<le> gdt_cct_NetworkConnectionInfo_size) \<and>
      (\<forall>m buf. \<exists>s'. pb_encode (Suc d) E gdt_cct_NetworkConnectionInfo_fields p
         (pb_ostream_from_buffer m buf gdt_cct_NetworkConnectionInfo_size) = Some (True, s'))) \<and>
    ((\<exists>sz. pb_get_encoded_size (Suc d) E gdt_cct_QosTierConfiguration_fields q = Some (Some sz) \<and> sz \<le> gdt_cct_QosTierConfiguration_size) \<and>
      (\<forall>m buf. \<exists>s'. pb_encode (Suc d) E gdt_cct_QosTierConfiguration_fields q
         (pb_ostream_from_buffer m buf gdt_cct_QosTierConfiguration_size) = Some (True, s')))"
proof -
  note codes = PB_ATYPE_def PB_HTYPE_def PB_LTYPE_def
  note net = gdt_cct_NetworkConnectionInfo_fields_nf gdt_cct_NetworkConnectionInfo_members_nf
  note qos = gdt_cct_QosTierConfiguration_fields_nf gdt_cct_QosTierConfiguration_members_nf
  have "unat (ld32 (env_mem E) (p + 12)) < 128" "unat (ld32 (env_mem E) (q + 4)) < 128"
    using assms(2,4) by (auto simp: gdt_cct_NetworkConnectionInfo_MobileSubtype_MAX_def
        gdt_cct_QosTierConfiguration_QosTier_MAX_def intro!: unat_less_uint)
  note small = this
  have "\<exists>bs. wire_message (Suc d) E gdt_cct_NetworkConnectionInfo_fields p = Some bs \<and> length bs \<le> 11 + 2"
    by (rule wire_message_two[OF nfields_small(1) NetworkConnectionInfo_layout assms(1)];
        simp add: field_at_def net; rule wire_field_optional32[OF refl]; simp add: codes small)
  moreover have "\<exists>bs. wire_message (Suc d) E gdt_cct_QosTierConfiguration_fields q = Some bs \<and> length bs \<le> 2 + 11"
    by (rule wire_message_two[OF nfields_small(2) QosTierConfiguration_layout assms(3)];
        simp add: field_at_def qos; rule wire_field_optional32[OF refl]; simp add: codes small)
  ultimately show ?thesis
    using encoded_within[of "Suc d" E gdt_cct_NetworkConnectionInfo_fields p 13] encoded_within[of "Suc d" E gdt_cct_QosTierConfiguration_fields q 13]
    by (simp add: gdt_cct_NetworkConnectionInfo_size_def gdt_cct_QosTierConfiguration_size_def)
qed

text \<open>Encoding any message of the application terminates, on every stream and whatever the
  memory holds: five levels of nesting are enough for all of them.\<close>

theorem shipped_encode_terminates:
  assumes "(st, fs, ms, tags) \<in> set shipped" and "env_returns E"
  shows "\<exists>ok s'. pb_encode 5 E fs p s = Some (ok, s')"
proof -
  have "list_all enc_field_ok fs" "msg_depth fs < 5"
    using shipped_enc_ok assms(1) by (auto simp: list_all_iff)
  from pb_encode_total[OF assms(2) this, of p] show ?thesis by (auto simp: returns_def)
qed

section \<open>A concrete message\<close>

text \<open>A \<open>NetworkConnectionInfo\<close> at address 4096 with both fields present: the network type is
  \<open>WIFI\<close> and the subtype is \<open>LTE\<close>.\<close>

definition net_mem :: mem where
  "net_mem = (\<lambda>_. 0)(4096 := 1, 4100 := 1, 4104 := 1, 4108 := 13)"

definition net_env :: pb_enc_env where
  "net_env = quiet_enc net_mem"

lemma net_wire: "wire_message 2 net_env gdt_cct_NetworkConnectionInfo_fields 4096 = Some [8, 1, 16, 13]"
  by code_simp

lemma net_returns: "env_returns net_env"
  by (simp add: env_returns_def returns_def net_env_def quiet_enc_def)

theorem pb_encode_buffer_witness:
  "\<exists>r. pb_encode 2 net_env gdt_cct_NetworkConnectionInfo_fields 4096 (pb_ostream_from_buffer (\<lambda>_. 0) 64 16) =
         Some r \<and> buffer_result [8, 1, 16, 13] (\<lambda>_. 0) 64 16 r"
  by (rule pb_encode_buffer[OF net_wire]) simp

theorem pb_get_encoded_size_exact_witness:
  "\<exists>sz. pb_get_encoded_size 2 net_env gdt_cct_NetworkConnectionInfo_fields 4096 = Some (Some sz) \<and> unat sz = 4"
  using pb_get_encoded_size_exact[OF net_wire] by auto

theorem pb_encode_delimited_buffer_witness:
  "\<exists>r. pb_encode_delimited 2 net_env gdt_cct_NetworkConnectionInfo_fields 4096
         (pb_ostream_from_buffer (\<lambda>_. 0) 64 16) = Some r \<and>
       buffer_result (vbytes 4 @ [8, 1, 16, 13]) (\<lambda>_. 0) 64 16 r"
proof -
  have "length [8, 1, 16, 13 :: byte] = 4" by simp
  then show ?thesis using pb_encode_delimited_buffer[OF net_wire, of 16 "\<lambda>_. 0" 64] by (simp only:) simp
qed

theorem pb_encode_nullterminated_buffer_witness:
  "\<exists>r. pb_encode_nullterminated 2 net_env gdt_cct_NetworkConnectionInfo_fields 4096
         (pb_ostream_from_buffer (\<lambda>_. 0) 64 16) = Some r \<and>
       buffer_result [8, 1, 16, 13, 0] (\<lambda>_. 0) 64 16 r"
  using pb_encode_nullterminated_buffer[OF net_wire, of 16 "\<lambda>_. 0" 64] by simp

theorem pb_encode_terminates_witness:
  "\<exists>ok s'. pb_encode 5 net_env gdt_cct_BatchedLogRequest_fields 4096 PB_OSTREAM_SIZING = Some (ok, s')"
proof (rule pb_encode_terminates[OF net_returns])
  show "list_all enc_field_ok gdt_cct_BatchedLogRequest_fields" "msg_depth gdt_cct_BatchedLogRequest_fields < 5"
    by code_simp+
qed

theorem pb_encode_fuel_irrelevant_witness:
  "the (pb_encode 2 net_env gdt_cct_NetworkConnectionInfo_fields 4096 PB_OSTREAM_SIZING) =
   the (pb_encode 5 net_env gdt_cct_NetworkConnectionInfo_fields 4096 PB_OSTREAM_SIZING)"
proof -
  have "list_all enc_field_ok gdt_cct_NetworkConnectionInfo_fields"
    "msg_depth gdt_cct_NetworkConnectionInfo_fields < 2" by code_simp+
  then have "returns (pb_encode 2 net_env gdt_cct_NetworkConnectionInfo_fields 4096)"
    "returns (pb_encode 5 net_env gdt_cct_NetworkConnectionInfo_fields 4096)"
    by (auto intro: pb_encode_total[OF net_returns])
  then obtain r r' where "pb_encode 2 net_env gdt_cct_NetworkConnectionInfo_fields 4096 PB_OSTREAM_SIZING = Some r"
    "pb_encode 5 net_env gdt_cct_NetworkConnectionInfo_fields 4096 PB_OSTREAM_SIZING = Some r'"
    by (meson returnsD not_None_eq)
  with pb_encode_fuel_irrelevant[OF this] show ?thesis by simp
qed

theorem shipped_addresses_witness:
  "cur (iter_at gdt_cct_ClientInfo_fields 4096 1) = gdt_cct_ClientInfo_fields ! 1 \<and>
   pData (iter_at gdt_cct_ClientInfo_fields 4096 1) = 4096 + 16"
proof -
  have "cur (iter_at gdt_cct_ClientInfo_fields 4096 1) = gdt_cct_ClientInfo_fields ! 1 \<and>
    pData (iter_at gdt_cct_ClientInfo_fields 4096 1) = 4096 + m_offset (gdt_cct_ClientInfo_members ! 1)"
  proof (rule shipped_addresses)
    show "(gdt_cct_ClientInfo, gdt_cct_ClientInfo_fields, gdt_cct_ClientInfo_members, gdt_cct_ClientInfo_tags)
        \<in> set shipped"
      by (simp add: shipped_def)
    show "1 < nfields gdt_cct_ClientInfo_fields" by code_simp
  qed simp
  then show ?thesis by (simp add: gdt_cct_ClientInfo_members_nf)
qed

theorem encoded_size_bounds_witness:
  "\<exists>sz s'. pb_get_encoded_size 2 net_env gdt_cct_NetworkConnectionInfo_fields 4096 = Some (Some sz) \<and> sz \<le> 13 \<and>
     pb_encode 2 net_env gdt_cct_NetworkConnectionInfo_fields 4096 (pb_ostream_from_buffer (\<lambda>_. 0) 64 13) = Some (True, s')"
proof -
  have "uint (ld32 (env_mem net_env) (4096 + 12)) \<le>
      gdt_cct_NetworkConnectionInfo_MobileSubtype_value gdt_cct_NetworkConnectionInfo_MobileSubtype_MAX"
    "uint (ld32 (env_mem net_env) (4096 + 4)) \<le>
      gdt_cct_QosTierConfiguration_QosTier_value gdt_cct_QosTierConfiguration_QosTier_MAX"
    by code_simp+
  moreover have "(4096 :: addr) \<noteq> 0" "Suc 1 = 2" by simp_all
  ultimately show ?thesis
    using encoded_size_bounds[of 4096 net_env 4096 1] by (simp only: gdt_cct_NetworkConnectionInfo_size_def) blast
qed

theorem shipped_encode_terminates_witness:
  "\<exists>ok s'. pb_encode 5 net_env gdt_cct_LogRequest_fields 4096 PB_OSTREAM_SIZING = Some (ok, s')"
  by (rule shipped_encode_terminates[of gdt_cct_LogRequest _ gdt_cct_LogRequest_members gdt_cct_LogRequest_tags,
        OF _ net_returns]) (simp add: shipped_def)

end
