(* ===== verification/Pb_Progress.thy ===== *)
theory Pb_Progress
  imports Pb_Read
begin

text \<open>
  Every reader of \<^verbatim>\<open>nanopb/pb_decode.c\<close> makes progress: no reader gives bytes back
  (\<open>shrinks\<close>), and a reader that returns a value has consumed at least one byte
  (\<open>consumes\<close>). The loops of the decoder, which run as long as there are bytes left, end
  because of this.
\<close>

section \<open>Readers make progress\<close>

abbreviation left :: "pb_istream_t \<Rightarrow> nat" where "left i \<equiv> unat (bytes_left i)"

definition shrinks :: "'a reader \<Rightarrow> bool" where
  "shrinks r \<longleftrightarrow> (\<forall>i. left (snd (r i)) \<le> left i)"

definition consumes :: "'a reader \<Rightarrow> bool" where
  "consumes r \<longleftrightarrow> (\<forall>i v i'. r i = (Some v, i') \<longrightarrow> left i' < left i)"

lemma left_error [simp]: "bytes_left (IS_SET_ERROR msg i) = bytes_left i"
  by (simp add: IS_SET_ERROR_def)

lemma shrinks_return: "shrinks (\<lambda>i. (Some v, i))" "shrinks (rreturn v)"
  by (simp_all add: shrinks_def rreturn_def)

lemma shrinks_error: "shrinks (IS_RETURN_ERROR msg)"
  by (simp add: shrinks_def IS_RETURN_ERROR_def)

text \<open>The induction over loops needs the statement at one stream.\<close>

lemma shrink_at_rbind:
  assumes "shrinks f" "\<And>v i'. f i = (Some v, i') \<Longrightarrow> left (snd (g v i')) \<le> left i'"
  shows "left (snd (rbind f g i)) \<le> left i"
proof (cases "f i")
  case (Pair r i')
  moreover have "left i' \<le> left i" using assms(1) Pair by (metis shrinks_def snd_conv)
  ultimately show ?thesis using assms(2)[of _ i'] by (auto simp: rbind_def split: option.splits intro: order_trans)
qed

lemma shrinks_rbind: "shrinks f \<Longrightarrow> (\<And>v. shrinks (g v)) \<Longrightarrow> shrinks (rbind f g)"
  unfolding shrinks_def[of "rbind f g"] by (intro allI shrink_at_rbind) (simp_all add: shrinks_def)

lemma consumes_rbind: "consumes f \<Longrightarrow> (\<And>v. shrinks (g v)) \<Longrightarrow> consumes (rbind f g)"
  unfolding consumes_def shrinks_def rbind_def
  by (auto split: option.splits prod.splits) (metis order_le_less_trans snd_conv)

lemma left_minus: "\<not> bytes_left i < n \<Longrightarrow> unat (bytes_left i - n) = left i - unat n"
  by (simp add: unat_minus_le not_less)

lemma left_callback:
  "istream_callback R nb n i = (ok, bs, i') \<Longrightarrow> left i' \<le> left i"
  by (auto simp: istream_callback_def buf_read_def split: icallback.splits read_result.splits)

lemma left_read_some:
  "pb_read_some R nb n i = (ok, bs, i') \<Longrightarrow> left i' \<le> left i \<and> (ok \<longrightarrow> left i' = left i - unat n)"
  by (auto simp: pb_read_some_def left_minus dest: left_callback istream_callback_True
      split: if_splits prod.splits bool.splits)

lemma left_read_skip: "pb_read_skip R n i = (ok, i') \<Longrightarrow> left i' \<le> left i"
proof (induction R n i arbitrary: ok i' rule: pb_read_skip.induct)
  case (1 R n i)
  show ?case
  proof (cases "16 < n")
    case True
    obtain ok1 bs j where j: "pb_read_some R False 16 i = (ok1, bs, j)" by (cases "pb_read_some R False 16 i")
    have "left j \<le> left i" using left_read_some[OF j] by simp
    with 1 True j show ?thesis by (fastforce simp: pb_read_skip.simps[of R n] split: if_splits)
  next
    case False
    with 1 show ?thesis by (auto simp: pb_read_skip.simps[of R n] dest: left_read_some split: prod.splits)
  qed
qed

lemma left_read: "pb_read R nb n i = (ok, bs, i') \<Longrightarrow> left i' \<le> left i"
  by (auto simp: pb_read_def dest: left_read_some left_read_skip split: if_splits prod.splits)

lemma length_read: "pb_read R nb n i = (ok, bs, i') \<Longrightarrow> length bs \<le> unat n"
  by (auto simp: pb_read_def pb_read_some_def istream_callback_def buf_read_def
      split: if_splits prod.splits bool.splits icallback.splits read_result.splits)

lemma shrinks_local: "shrinks (pb_read_local R n)"
  by (auto simp: shrinks_def pb_read_local_def dest: left_read split: prod.splits)

lemma shrinks_null: "shrinks (pb_read_null R n)"
  by (auto simp: shrinks_def pb_read_null_def dest: left_read split: prod.splits)

lemma consumes_local: "n \<noteq> 0 \<Longrightarrow> consumes (pb_read_local R n)"
proof -
  assume n: "n \<noteq> 0"
  have "left i' < left i" if "pb_read R False n i = (True, bs, i')" for i bs i'
  proof -
    from that n have r: "pb_read_some R False n i = (True, bs, i')" by (simp add: pb_read_def)
    then have "\<not> bytes_left i < n" by (auto simp: pb_read_some_def split: if_splits)
    then have "unat n \<le> left i" by (simp add: word_le_nat_alt not_less)
    moreover have "0 < unat n" using n by (simp add: unat_gt_0)
    ultimately show ?thesis using left_read_some[OF r] by auto
  qed
  then show ?thesis by (auto simp: consumes_def pb_read_local_def split: prod.splits if_splits)
qed

lemma shrinks_cong: "(\<And>i. f i = g i) \<Longrightarrow> shrinks g \<Longrightarrow> shrinks f" by (simp add: shrinks_def)
lemma consumes_cong: "(\<And>i. f i = g i) \<Longrightarrow> consumes g \<Longrightarrow> consumes f" by (simp add: consumes_def)

lemma shrinks_byte: "shrinks (pb_readbyte R)"
  by (rule shrinks_cong[OF pb_readbyte_local]) (intro shrinks_rbind shrinks_local shrinks_return)

lemma consumes_byte: "consumes (pb_readbyte R)"
  by (rule consumes_cong[OF pb_readbyte_local]) (intro consumes_rbind consumes_local shrinks_return; simp)

lemma shrinks_if: "(c \<Longrightarrow> shrinks f) \<Longrightarrow> (\<not> c \<Longrightarrow> shrinks g) \<Longrightarrow> shrinks (\<lambda>i. if c then f i else g i)"
  by (cases c) auto

lemma shrinks_varint32_loop: "shrinks (varint32_loop R bp r)"
proof -
  have "left (snd (varint32_loop R bp r i)) \<le> left i" for i
  proof (induction R bp r i rule: varint32_loop.induct)
    case (1 R bp r i)
    show ?case
      by (subst varint32_loop.simps, rule shrink_at_rbind[OF shrinks_byte])
         (use 1 in \<open>auto simp: Let_def IS_RETURN_ERROR_def\<close>)
  qed
  then show ?thesis by (simp add: shrinks_def)
qed

lemma shrinks_varint64_loop: "shrinks (varint64_loop R bp r)"
proof -
  have "left (snd (varint64_loop R bp r i)) \<le> left i" for i
  proof (induction R bp r i rule: varint64_loop.induct)
    case (1 R bp r i)
    have "left (snd (rbind (pb_readbyte R) (\<lambda>byte s.
        let r = r OR push_bit (unat bp) (ucast (byte AND 0x7F)); bp = bp + 7
        in if byte AND 0x80 \<noteq> 0 then varint64_loop R bp r s else (Some r, s)) i)) \<le> left i" if "\<not> 64 \<le> bp"
      by (rule shrink_at_rbind[OF shrinks_byte]) (use 1 that in \<open>auto simp: Let_def\<close>)
    then show ?case
      by (subst varint64_loop.simps) (auto simp: IS_RETURN_ERROR_def)
  qed
  then show ?thesis by (simp add: shrinks_def)
qed

lemma consumes_varint32: "consumes (pb_decode_varint32 R)"
  by (rule consumes_cong[OF varint32_rbind], rule consumes_rbind[OF consumes_byte])
     (intro shrinks_if shrinks_return shrinks_varint32_loop)

lemma shrinks_varint32: "shrinks (pb_decode_varint32 R)"
  by (rule shrinks_cong[OF varint32_rbind], rule shrinks_rbind[OF shrinks_byte])
     (intro shrinks_if shrinks_return shrinks_varint32_loop)

lemma consumes_varint: "consumes (pb_decode_varint R)"
proof (rule consumes_cong)
  show "pb_decode_varint R i = rbind (pb_readbyte R) (\<lambda>byte.
      if byte AND 0x80 \<noteq> 0 then varint64_loop R 7 (0 OR push_bit 0 (ucast (byte AND 0x7F)))
      else rreturn (0 OR push_bit 0 (ucast (byte AND 0x7F)))) i" for i
    unfolding pb_decode_varint_def
    by (subst varint64_loop.simps) (auto simp: Let_def rbind_def rreturn_def split: option.splits prod.splits)
  show "consumes (rbind (pb_readbyte R) (\<lambda>byte.
      if byte AND 0x80 \<noteq> 0 then varint64_loop R 7 (0 OR push_bit 0 (ucast (byte AND 0x7F)))
      else rreturn (0 OR push_bit 0 (ucast (byte AND 0x7F)))))"
    by (rule consumes_rbind[OF consumes_byte]) (simp add: shrinks_varint64_loop shrinks_return)
qed

lemma shrinks_varint: "shrinks (pb_decode_varint R)"
  by (rule shrinks_cong[OF _ shrinks_varint64_loop]) (simp add: pb_decode_varint_def)

lemma numbers_shrink:
  "shrinks (pb_decode_svarint R)" "shrinks (pb_decode_fixed32 R)" "shrinks (pb_decode_fixed64 R)"
  unfolding pb_decode_svarint_def pb_decode_fixed32_def pb_decode_fixed64_def
  by (intro shrinks_rbind shrinks_varint shrinks_local shrinks_return)+

lemma numbers_consume:
  "consumes (pb_decode_svarint R)" "consumes (pb_decode_fixed32 R)" "consumes (pb_decode_fixed64 R)"
  unfolding pb_decode_svarint_def pb_decode_fixed32_def pb_decode_fixed64_def
  by (intro consumes_rbind consumes_varint consumes_local shrinks_return; simp)+

lemma shrinks_skip_varint: "shrinks (pb_skip_varint R)"
proof -
  have "left (snd (pb_skip_varint R i)) \<le> left i" for i
  proof (induction R i rule: pb_skip_varint.induct)
    case (1 R i)
    show ?case
      by (subst pb_skip_varint.simps, rule shrink_at_rbind[OF shrinks_local]) (use 1 in auto)
  qed
  then show ?thesis by (simp add: shrinks_def)
qed

lemma shrinks_skip_field: "shrinks (pb_skip_field R wt)"
  unfolding pb_skip_field_def pb_skip_string_def
  by (intro shrinks_if shrinks_rbind shrinks_skip_varint shrinks_null shrinks_varint32 shrinks_error)

lemma left_tag:
  "pb_decode_tag R i = (r, i') \<Longrightarrow> left i' \<le> left i \<and> (\<forall>x. r = Inr x \<longrightarrow> left i' < left i)"
proof -
  assume t: "pb_decode_tag R i = (r, i')"
  obtain v eof j where j: "pb_decode_varint32_eof R i = (v, eof, j)" by (cases "pb_decode_varint32_eof R i")
  then have v: "pb_decode_varint32 R i = (v, j)" by (simp add: pb_decode_varint32_def)
  have "left j \<le> left i" using shrinks_varint32 v by (metis shrinks_def snd_conv)
  moreover have "v = Some x \<Longrightarrow> left j < left i" for x using consumes_varint32 v by (auto simp: consumes_def)
  ultimately show ?thesis using t j by (auto simp: pb_decode_tag_def split: option.splits if_splits)
qed

lemma left_substream:
  assumes "pb_make_string_substream R i = (r, i')"
  shows "left i' \<le> left i" and "r = Some sub \<Longrightarrow> left sub < left i"
proof -
  obtain v j where j: "pb_decode_varint32 R i = (v, j)" by (cases "pb_decode_varint32 R i")
  have le: "left j \<le> left i" using shrinks_varint32 j by (metis shrinks_def snd_conv)
  have lt: "v = Some x \<Longrightarrow> left j < left i" for x using consumes_varint32 j by (auto simp: consumes_def)
  show "left i' \<le> left i"
    using assms j le left_minus[of j]
    by (auto simp: pb_make_string_substream_def rbind_def IS_RETURN_ERROR_def split: option.splits if_splits)
  show "r = Some sub \<Longrightarrow> left sub < left i"
    using assms j lt
    by (auto simp: pb_make_string_substream_def rbind_def IS_RETURN_ERROR_def word_le_nat_alt not_less
        split: option.splits if_splits)
qed

lemma left_close: "pb_close_string_substream R sub i = (r, i') \<Longrightarrow> bytes_left i' = bytes_left i"
  by (auto simp: pb_close_string_substream_def split: option.splits prod.splits if_splits)

end
