(* ===== verification/Pb_Decode_Safe.thy ===== *)
theory Pb_Decode_Safe
  imports Pb_Decode Pb_Progress Pb_Encode_Total
begin

text \<open>
  Memory safety and termination of the decoder on messages whose fields are all static. For
  every input, also a malformed one, \<open>pb_decode\<close> returns, changes no memory outside the
  structure it decodes into, allocates nothing and gives no bytes back.

  An action is \<open>safe lo hi\<close> when it returns and changes only \<open>[lo, hi)\<close>. The value decoders are
  safe on the room of their field; \<open>static_msg_ok\<close> says that the rooms of the fields, of their
  flags and counts lie in the structure; the locale \<open>safe_decoder\<close> is the contract between
  a message decoder and the field decoders that call it for submessages.
\<close>

section \<open>Safe actions\<close>

text \<open>\<open>frame lo hi s s'\<close>: from \<open>s\<close> to \<open>s'\<close> only memory in \<open>[lo, hi)\<close> has changed, and the heap
  has not.\<close>

definition frame :: "addr \<Rightarrow> addr \<Rightarrow> dec_state \<Rightarrow> dec_state \<Rightarrow> bool" where
  "frame lo hi s s' \<longleftrightarrow> (\<forall>x. x < lo \<or> hi \<le> x \<longrightarrow> dmem s' x = dmem s x) \<and> blocks s' = blocks s"

text \<open>\<open>ends lo hi s r\<close>: the run from \<open>s\<close> has returned, inside the frame, without giving bytes
  back.\<close>

abbreviation ends :: "addr \<Rightarrow> addr \<Rightarrow> dec_state \<Rightarrow> (bool \<times> dec_state) option \<Rightarrow> bool" where
  "ends lo hi s r \<equiv> \<exists>ok s'. r = Some (ok, s') \<and> frame lo hi s s' \<and> left (instr s') \<le> left (instr s)"

definition safe :: "addr \<Rightarrow> addr \<Rightarrow> dec_state act \<Rightarrow> bool" where
  "safe lo hi f \<longleftrightarrow> (\<forall>s. ends lo hi s (f s))"

lemma frame_refl [simp]: "frame lo hi s s" by (simp add: frame_def)

lemma frame_trans: "frame lo hi s t \<Longrightarrow> frame lo hi t u \<Longrightarrow> frame lo hi s u"
  by (simp add: frame_def)

lemma frame_mono: "frame lo hi s t \<Longrightarrow> lo' \<le> lo \<Longrightarrow> hi \<le> hi' \<Longrightarrow> frame lo' hi' s t"
  by (auto simp: frame_def)

lemma frame_instr [simp]:
  "frame lo hi s (t\<lparr>instr := i\<rparr>) = frame lo hi s t" "frame lo hi (s\<lparr>instr := i\<rparr>) t = frame lo hi s t"
  "frame lo hi s (t\<lparr>fixed_count_size := n\<rparr>) = frame lo hi s t"
  "frame lo hi (s\<lparr>fixed_count_size := n\<rparr>) t = frame lo hi s t"
  by (auto simp: frame_def)

lemma frame_stores: "lo \<le> a \<Longrightarrow> a + int (length bs) \<le> hi \<Longrightarrow> frame lo hi s (s\<lparr>dmem := stores (dmem s) a bs\<rparr>)"
  by (auto simp: frame_def intro!: stores_outside)

lemma frame_upd: "lo \<le> a \<Longrightarrow> a < hi \<Longrightarrow> frame lo hi s (s\<lparr>dmem := (dmem s)(a := b)\<rparr>)"
  by (auto simp: frame_def)

lemma safeE:
  assumes "safe lo hi f"
  obtains ok s' where "f s = Some (ok, s')" "frame lo hi s s'" "left (instr s') \<le> left (instr s)"
  using assms unfolding safe_def by blast

lemma safe_mono: "safe lo hi f \<Longrightarrow> lo' \<le> lo \<Longrightarrow> hi \<le> hi' \<Longrightarrow> safe lo' hi' f"
  unfolding safe_def by (meson frame_mono)

lemma safe_cong: "(\<And>s. f s = g s) \<Longrightarrow> safe lo hi g \<Longrightarrow> safe lo hi f" by (simp add: safe_def)

lemma safe_skip: "safe lo hi (\<lambda>s. Some (b, s))" by (simp add: safe_def)

lemma safe_error: "safe lo hi (DS_RETURN_ERROR msg)"
  by (auto simp: safe_def DS_RETURN_ERROR_def)

lemma safe_andthen: "safe lo hi f \<Longrightarrow> safe lo hi g \<Longrightarrow> safe lo hi (\<lambda>s. andthen (f s) g)"
  unfolding safe_def
proof
  fix s assume f: "\<forall>s. \<exists>ok s'. f s = Some (ok, s') \<and> frame lo hi s s' \<and> left (instr s') \<le> left (instr s)"
    and g: "\<forall>s. \<exists>ok s'. g s = Some (ok, s') \<and> frame lo hi s s' \<and> left (instr s') \<le> left (instr s)"
  from f obtain ok t where t: "f s = Some (ok, t)" "frame lo hi s t" "left (instr t) \<le> left (instr s)" by blast
  from g obtain ok' u where "g t = Some (ok', u)" "frame lo hi t u" "left (instr u) \<le> left (instr t)" by blast
  with t show "\<exists>ok s'. andthen (f s) g = Some (ok, s') \<and> frame lo hi s s' \<and> left (instr s') \<le> left (instr s)"
    by (cases ok) (auto intro: frame_trans order_trans)
qed

lemma safe_if: "(c \<Longrightarrow> safe lo hi f) \<Longrightarrow> (\<not> c \<Longrightarrow> safe lo hi g) \<Longrightarrow> safe lo hi (\<lambda>s. if c then f s else g s)"
  by (cases c) auto

lemma safe_if_state:
  "safe lo hi f \<Longrightarrow> safe lo hi g \<Longrightarrow> safe lo hi (\<lambda>s. if c s then f s else g s)"
  by (auto simp: safe_def)

lemma safe_with_value:
  assumes "shrinks r" "\<And>v. safe lo hi (k v)"
  shows "safe lo hi (with_value r k)"
  unfolding safe_def
proof
  fix s :: dec_state
  obtain v i where r: "r (instr s) = (v, i)" by force
  have le: "left i \<le> left (instr s)" using assms(1) r by (metis shrinks_def snd_conv)
  show "\<exists>ok s'. with_value r k s = Some (ok, s') \<and> frame lo hi s s' \<and> left (instr s') \<le> left (instr s)"
  proof (cases v)
    case (Some x)
    obtain ok t where "k x (s\<lparr>instr := i\<rparr>) = Some (ok, t)" "frame lo hi (s\<lparr>instr := i\<rparr>) t"
        "left (instr t) \<le> left (instr (s\<lparr>instr := i\<rparr>))" by (rule safeE[OF assms(2)])
    with Some r le show ?thesis by (auto simp: with_value_def)
  qed (use r le in \<open>auto simp: with_value_def\<close>)
qed

lemma safe_write:
  assumes "\<And>s. frame lo hi s (h s)" "\<And>s. instr (h s) = instr s"
  shows "safe lo hi (\<lambda>s. Some (b, h s))"
  using assms by (simp add: safe_def)

lemma safe_before:
  assumes "\<And>s. frame lo hi s (h s)" "\<And>s. instr (h s) = instr s" "safe lo hi f"
  shows "safe lo hi (\<lambda>s. f (h s))"
  unfolding safe_def
proof
  fix s :: dec_state
  obtain ok t where "f (h s) = Some (ok, t)" "frame lo hi (h s) t" "left (instr t) \<le> left (instr (h s))"
    by (rule safeE[OF assms(3)])
  with assms(1,2)[of s] show "\<exists>ok s'. f (h s) = Some (ok, s') \<and> frame lo hi s s' \<and> left (instr s') \<le> left (instr s)"
    by (auto intro: frame_trans)
qed

lemma safe_read_to:
  assumes "lo \<le> dest" "dest + uint n \<le> hi"
  shows "safe lo hi (read_to E dest n)"
  unfolding safe_def
proof
  fix s :: dec_state
  obtain ok bs i where r: "pb_read (denv_read E) (dest = NULL) n (instr s) = (ok, bs, i)"
    by (cases "pb_read (denv_read E) (dest = NULL) n (instr s)")
  have "int (length bs) \<le> uint n" using length_read[OF r] by (metis of_nat_le_iff uint_nat)
  then have "frame lo hi s (s\<lparr>instr := i, dmem := stores (dmem s) dest bs\<rparr>)"
    using assms by (auto simp: frame_def intro!: stores_outside)
  then show "\<exists>ok s'. read_to E dest n s = Some (ok, s') \<and> frame lo hi s s' \<and> left (instr s') \<le> left (instr s)"
    using r left_read[OF r] by (simp add: read_to_def)
qed


section \<open>Value decoders\<close>

lemma uint_ucast_32_64 [simp]: "uint (ucast (w :: 32 word) :: 64 word) = uint w"
  by (metis unat_ucast_32_64 uint_nat)

lemma uint_bound_32: "0 \<le> uint (w :: 32 word)" "uint (w :: 32 word) < 2 ^ 32"
  using unsigned_less[where 'a = int, of w] by simp_all

lemma safe_dec_bool: "1 \<le> uint (data_size f) \<Longrightarrow> safe p (p + uint (data_size f)) (pb_dec_bool E f p)"
  unfolding pb_dec_bool_def
  by (intro safe_with_value shrinks_varint32 safe_write) (auto intro: frame_upd)

lemma frame_st:
  "lo \<le> a \<Longrightarrow> a + 2 \<le> hi \<Longrightarrow> frame lo hi s (s\<lparr>dmem := st16 (dmem s) a u\<rparr>)"
  "lo \<le> a \<Longrightarrow> a + 4 \<le> hi \<Longrightarrow> frame lo hi s (s\<lparr>dmem := st32 (dmem s) a v\<rparr>)"
  "lo \<le> a \<Longrightarrow> a + 8 \<le> hi \<Longrightarrow> frame lo hi s (s\<lparr>dmem := st64 (dmem s) a w\<rparr>)"
  by (auto simp: st16_def st32_def st64_def intro!: frame_stores)

lemma safe_store_checked:
  assumes "\<And>s m c. store (dmem s) = Some (m, c) \<Longrightarrow> frame lo hi s (s\<lparr>dmem := m\<rparr>)"
  shows "safe lo hi (store_checked store v)"
  using assms
  by (auto simp: safe_def store_checked_def DS_RETURN_ERROR_def split: option.splits) 

lemma frame_store_signed:
  "store_signed f p v (dmem s) = Some (m, c) \<Longrightarrow> frame p (p + uint (data_size f)) s (s\<lparr>dmem := m\<rparr>)"
  by (auto simp: store_signed_def split: if_splits intro: frame_st frame_upd)

lemma frame_store_unsigned:
  "store_unsigned f p v (dmem s) = Some (m, c) \<Longrightarrow> frame p (p + uint (data_size f)) s (s\<lparr>dmem := m\<rparr>)"
  by (auto simp: store_unsigned_def split: if_splits intro: frame_st frame_upd)

lemma safe_dec_varints:
  "safe p (p + uint (data_size f)) (pb_dec_varint E f p)"
  "safe p (p + uint (data_size f)) (pb_dec_uvarint E f p)"
  "safe p (p + uint (data_size f)) (pb_dec_svarint E f p)"
  unfolding pb_dec_varint_def pb_dec_uvarint_def pb_dec_svarint_def Let_def
  by (intro safe_with_value shrinks_varint numbers_shrink safe_store_checked
      frame_store_signed frame_store_unsigned; assumption)+

lemma safe_dec_fixed:
  "4 \<le> uint (data_size f) \<Longrightarrow> safe p (p + uint (data_size f)) (pb_dec_fixed32 E f p)"
  "8 \<le> uint (data_size f) \<Longrightarrow> safe p (p + uint (data_size f)) (pb_dec_fixed64 E f p)"
  unfolding pb_dec_fixed32_def pb_dec_fixed64_def
  by (intro safe_with_value numbers_shrink safe_write; auto intro: frame_st)+

lemma safe_dec_bytes:
  assumes "PB_ATYPE (ftype f) \<noteq> PB_ATYPE_POINTER"
  shows "safe p (p + uint (data_size f)) (pb_dec_bytes E f p)"
proof -
  have "safe p (p + uint (data_size f)) (fill_bytes E p sz)"
    if "\<not> ucast (data_size f) < PB_BYTES_ARRAY_T_ALLOCSIZE sz" for sz
  proof -
    have "uint (ucast sz + 4 :: 64 word) = uint sz + 4"
      using uint_bound_32[of sz] by (simp add: uint_word_ariths)
    then have b: "uint sz + 4 \<le> uint (data_size f)"
      using that by (simp add: PB_BYTES_ARRAY_T_ALLOCSIZE_def word_less_def)
    then have "4 \<le> uint (data_size f)" using uint_bound_32(1)[of sz] by linarith
    with b show ?thesis
      unfolding fill_bytes_def
      by (intro safe_before[where h = "\<lambda>s. s\<lparr>dmem := st32 (dmem s) p sz\<rparr>"] safe_read_to
          frame_st(2)) auto
  qed
  then show ?thesis
    unfolding pb_dec_bytes_def Let_def using assms
    by (intro safe_with_value shrinks_varint32) (auto intro!: safe_if_state safe_if safe_error)
qed

lemma uint_succ_32:
  assumes "\<not> (ucast (sz + 1 :: 32 word) :: 64 word) < ucast sz"
  shows "uint (sz + 1) = uint sz + 1"
proof -
  have "uint sz \<le> uint (sz + 1)" using assms by (simp add: word_less_def)
  moreover have "uint (sz + 1) = (uint sz + 1) mod 2 ^ 32" by (simp add: uint_word_ariths)
  ultimately show ?thesis using uint_bound_32[of sz] by (cases "uint sz + 1 = 2 ^ 32") auto
qed

lemma safe_fill_string:
  assumes "uint sz < n"
  shows "safe p (p + n) (fill_string E p sz)"
proof -
  have r: "safe p (p + n) (read_to E p (ucast sz))" using assms by (intro safe_read_to) auto
  show ?thesis
    unfolding safe_def
  proof
    fix s :: dec_state
    obtain ok t where t: "read_to E p (ucast sz) s = Some (ok, t)" "frame p (p + n) s t"
        "left (instr t) \<le> left (instr s)" by (rule safeE[OF r])
    have "frame p (p + n) t (t\<lparr>dmem := (dmem t)(p + uint sz := 0)\<rparr>)" using assms by (intro frame_upd) auto
    with t show "\<exists>ok s'. fill_string E p sz s = Some (ok, s') \<and> frame p (p + n) s s' \<and>
        left (instr s') \<le> left (instr s)"
      by (auto simp: fill_string_def intro: frame_trans)
  qed
qed

lemma safe_dec_string:
  assumes "PB_ATYPE (ftype f) \<noteq> PB_ATYPE_POINTER"
  shows "safe p (p + uint (data_size f)) (pb_dec_string E f p)"
proof -
  have "safe p (p + uint (data_size f)) (fill_string E p sz)"
    if "\<not> (ucast (sz + 1) :: 64 word) < ucast sz" "\<not> (ucast (data_size f) :: 64 word) < ucast (sz + 1)" for sz
  proof (rule safe_fill_string)
    show "uint sz < uint (data_size f)" using that(2) uint_succ_32[OF that(1)] by (simp add: word_less_def)
  qed
  then show ?thesis
    unfolding pb_dec_string_def Let_def using assms
    by (intro safe_with_value shrinks_varint32) (auto intro!: safe_if_state safe_if safe_error)
qed

lemma frame_memset0: "frame p (p + uint n) s (memset0 p n s)"
  by (auto simp: frame_def memset0_def intro!: stores_outside)

lemma instr_memset0 [simp]: "instr (memset0 p n s) = instr s"
  by (simp add: memset0_def)

lemma safe_dec_fixed_length_bytes:
  "safe p (p + uint (data_size f)) (pb_dec_fixed_length_bytes E f p)"
  unfolding pb_dec_fixed_length_bytes_def
  by (intro safe_with_value shrinks_varint32 safe_if safe_error safe_write frame_memset0 safe_read_to) auto


section \<open>Well-formed static messages\<close>

text \<open>
  The places of a message of \<open>n\<close> bytes: the data of every field, its \<^verbatim>\<open>has_\<close> flag (one byte), its
  \<^verbatim>\<open>_count\<close> or \<^verbatim>\<open>which_\<close> member (four bytes) lie in the structure. The addresses are those the
  iterator computes for a structure at address 1.
\<close>

definition in_struct :: "int \<Rightarrow> pb_field_iter_t \<Rightarrow> bool" where
  "in_struct n it \<longleftrightarrow>
     (let f = cur it; h = PB_HTYPE (ftype f); p = dest_struct it in
      p \<le> pData it \<and> pData it + field_span f \<le> p + n \<and>
      (case pSize it of
         FixedCountSize \<Rightarrow> False
       | InMem a \<Rightarrow>
           (h = PB_HTYPE_REPEATED \<or> h = PB_HTYPE_ONEOF \<longrightarrow> p \<le> a \<and> a + 4 \<le> p + n) \<and>
           (h = PB_HTYPE_OPTIONAL \<and> a \<noteq> pData it \<longrightarrow> p \<le> a \<and> a + 1 \<le> p + n)))"

definition struct_ok :: "pb_field_t list \<Rightarrow> int \<Rightarrow> bool" where
  "struct_ok fs n \<longleftrightarrow> 0 < nfields fs \<and> list_all (\<lambda>i. in_struct n (iter_at fs 1 i)) [0..<nfields fs]"

definition min_size :: "pb_type_t \<Rightarrow> pb_size_t" where
  "min_size l = (if l = PB_LTYPE_BOOL then 1 else if l = PB_LTYPE_FIXED32 then 4
                 else if l = PB_LTYPE_FIXED64 then 8 else 0)"

fun static_field_ok :: "pb_field_t \<Rightarrow> bool" and static_ptr_ok :: "int \<Rightarrow> pb_ptr \<Rightarrow> bool" where
  "static_field_ok (PbField t ty off so ds n p) \<longleftrightarrow>
     t = 0 \<or>
     PB_ATYPE ty = PB_ATYPE_STATIC \<and>
     PB_LTYPE ty \<in> set [PB_LTYPE_BOOL, PB_LTYPE_VARINT, PB_LTYPE_UVARINT, PB_LTYPE_SVARINT,
       PB_LTYPE_FIXED32, PB_LTYPE_FIXED64, PB_LTYPE_BYTES, PB_LTYPE_STRING, PB_LTYPE_SUBMESSAGE,
       PB_LTYPE_FIXED_LENGTH_BYTES] \<and>
     min_size (PB_LTYPE ty) \<le> ds \<and>
     (if PB_LTYPE ty = PB_LTYPE_SUBMESSAGE then static_ptr_ok (uint ds) p
      else case p of SubFields fs \<Rightarrow> False | _ \<Rightarrow> True)"
| "static_ptr_ok n (SubFields fs) \<longleftrightarrow> struct_ok fs n \<and> list_all static_field_ok fs"
| "static_ptr_ok n NullPtr = False"
| "static_ptr_ok n (DefaultValue v) = False"

definition static_msg_ok :: "pb_field_t list \<Rightarrow> int \<Rightarrow> bool" where
  "static_msg_ok fs n \<longleftrightarrow> static_ptr_ok n (SubFields fs)"

lemma static_field_ok_sel:
  "static_field_ok f \<longleftrightarrow>
     tag f = 0 \<or>
     PB_ATYPE (ftype f) = PB_ATYPE_STATIC \<and>
     PB_LTYPE (ftype f) \<in> set [PB_LTYPE_BOOL, PB_LTYPE_VARINT, PB_LTYPE_UVARINT, PB_LTYPE_SVARINT,
       PB_LTYPE_FIXED32, PB_LTYPE_FIXED64, PB_LTYPE_BYTES, PB_LTYPE_STRING, PB_LTYPE_SUBMESSAGE,
       PB_LTYPE_FIXED_LENGTH_BYTES] \<and>
     min_size (PB_LTYPE (ftype f)) \<le> data_size f \<and>
     (if PB_LTYPE (ftype f) = PB_LTYPE_SUBMESSAGE then static_ptr_ok (uint (data_size f)) (ptr f)
      else case ptr f of SubFields fs \<Rightarrow> False | _ \<Rightarrow> True)"
  by (cases f) simp

text \<open>A field of the message: its descriptor is one of the entries before the terminator.\<close>

lemma msg_field:
  assumes "static_msg_ok fs n" "i < nfields fs"
  shows "static_field_ok (field_at fs i)" "tag (field_at fs i) \<noteq> 0" "field_depth (field_at fs i) < msg_depth fs"
proof -
  have i: "i < length fs" using assms(2) nfields_le[of fs] by simp
  show "static_field_ok (field_at fs i)"
    using assms(1) i by (auto simp: static_msg_ok_def field_at_def list_all_length)
  show "tag (field_at fs i) \<noteq> 0" by (rule tag_field_at[OF assms(2)])
  show "field_depth (field_at fs i) < msg_depth fs"
    using i by (auto simp: field_at_def msg_depth_def less_Suc_eq_le intro!: fold_max_ge)
qed

lemma sub_msg_ok:
  assumes "static_field_ok f" "tag f \<noteq> 0" "PB_LTYPE (ftype f) = PB_LTYPE_SUBMESSAGE"
  obtains fs where "ptr f = SubFields fs" "static_msg_ok fs (uint (data_size f))" "msg_depth fs = field_depth f"
  using assms by (cases "ptr f") (auto simp: static_field_ok_sel static_msg_ok_def field_depth_ptr msg_depth_def)

section \<open>Addresses do not depend on where the structure is\<close>

definition shift :: "int \<Rightarrow> pb_field_iter_t \<Rightarrow> pb_field_iter_t" where
  "shift k it = it\<lparr>dest_struct := dest_struct it + k, pData := pData it + k,
     pSize := (case pSize it of InMem a \<Rightarrow> InMem (a + k) | FixedCountSize \<Rightarrow> FixedCountSize)\<rparr>"

lemma shift_sel [simp]:
  "start (shift k it) = start it" "pos (shift k it) = pos it" "cur (shift k it) = cur it"
  "dest_struct (shift k it) = dest_struct it + k" "pData (shift k it) = pData it + k"
  "required_field_index (shift k it) = required_field_index it"
  by (simp_all add: shift_def cur_def)

lemma begin_shift:
  assumes "p \<noteq> 0" "p + k \<noteq> 0"
  shows "snd (pb_field_iter_begin fs (p + k)) = shift k (snd (pb_field_iter_begin fs p))"
  using assms by (simp add: pb_field_iter_begin_def shift_def Let_def)

lemma next_shift:
  assumes "dest_struct it \<noteq> 0" "dest_struct it + k \<noteq> 0"
  shows "snd (pb_field_iter_next (shift k it)) = shift k (snd (pb_field_iter_next it))"
  using assms begin_shift[OF assms, of "start it"]
  by (auto simp: pb_field_iter_next_def shift_def Let_def cur_def)

lemma iter_at_shift:
  assumes "p \<noteq> 0" "p + k \<noteq> 0"
  shows "iter_at fs (p + k) i = shift k (iter_at fs p i)"
  using assms by (induction i) (simp_all add: begin_shift next_shift)

lemma in_struct_shift: "in_struct n (shift k it) = in_struct n it"
  by (auto simp: in_struct_def Let_def shift_def cur_def split: size_ref.splits)

lemma in_struct_iter_at:
  assumes "static_msg_ok fs n" "0 < p" "i < nfields fs"
  shows "in_struct n (iter_at fs p i)"
proof -
  have "in_struct n (iter_at fs 1 i)"
    using assms(1,3) by (auto simp: static_msg_ok_def struct_ok_def list_all_iff)
  then show ?thesis using iter_at_shift[of 1 "p - 1" fs i] assms(2) by (simp add: in_struct_shift)
qed

section \<open>The iterator of the decoder\<close>

text \<open>In \<open>pb_decode_noinit\<close> the iterator is one of the walk, except that the count of an array may
  be the local variable.\<close>

definition it_like :: "pb_field_t list \<Rightarrow> addr \<Rightarrow> pb_field_iter_t \<Rightarrow> bool" where
  "it_like fs p it \<longleftrightarrow>
     (\<exists>i<nfields fs. it = iter_at fs p i \<or>
        PB_HTYPE (ftype (field_at fs i)) = PB_HTYPE_REPEATED \<and> it = (iter_at fs p i)\<lparr>pSize := FixedCountSize\<rparr>)"

lemma cur_pSize [simp]: "cur (it\<lparr>pSize := x\<rparr>) = cur it"
  by (simp add: cur_def)

lemma it_like_iter_at: "i < nfields fs \<Longrightarrow> it_like fs p (iter_at fs p i)"
  by (auto simp: it_like_def)

lemma it_likeE:
  assumes "it_like fs p it"
  obtains i where "i < nfields fs" "cur it = field_at fs i" "start it = fs" "pos it = i"
    "dest_struct it = p" "pData it = pData (iter_at fs p i)"
    "pSize it = pSize (iter_at fs p i) \<or> PB_HTYPE (ftype (cur it)) = PB_HTYPE_REPEATED \<and> pSize it = FixedCountSize"
  using assms by (auto simp: it_like_def cur_iter_at pos_iter_at)

lemma it_like_fixed_count:
  assumes "it_like fs p it" "PB_HTYPE (ftype (cur it)) = PB_HTYPE_REPEATED"
  shows "it_like fs p (it\<lparr>pSize := FixedCountSize\<rparr>)"
  using assms by (auto simp: it_like_def cur_iter_at)

text \<open>Leaving an array resets \<open>pSize\<close>, so the search goes on as in the walk.\<close>

lemma next_pSize:
  assumes "PB_HTYPE (ftype (cur it)) = PB_HTYPE_REPEATED" "tag (cur it) \<noteq> 0"
  shows "pb_field_iter_next (it\<lparr>pSize := x\<rparr>) = pb_field_iter_next it"
  using assms by (auto simp: pb_field_iter_next_def Let_def cur_def)

lemma find_pSize:
  assumes "PB_HTYPE (ftype (cur it)) = PB_HTYPE_REPEATED" "tag (cur it) \<noteq> 0"
  shows "iter_find_loop (Suc n) p0 P (it\<lparr>pSize := x\<rparr>) =
    (if P (cur it) then Some (True, it\<lparr>pSize := x\<rparr>) else iter_find_loop (Suc n) p0 P it)"
  using next_pSize[OF assms] by (simp add: Let_def)

lemma find_like:
  assumes "it_like fs p it"
  shows "\<exists>found it'. iter_find_loop (Suc (length (start it))) (pos it) P it = Some (found, it') \<and>
     it_like fs p it' \<and> (found \<longrightarrow> P (cur it')) \<and> (found \<longleftrightarrow> (\<exists>j<nfields fs. P (field_at fs j)))"
proof -
  from assms obtain i where i: "i < nfields fs" and
    it: "it = iter_at fs p i \<or>
      PB_HTYPE (ftype (field_at fs i)) = PB_HTYPE_REPEATED \<and> it = (iter_at fs p i)\<lparr>pSize := FixedCountSize\<rparr>"
    by (auto simp: it_like_def)
  from iter_find_loop_correct[OF i, of "Suc (length fs)" P p] nfields_le[of fs]
  obtain found q where q: "q < nfields fs" "iter_find_loop (Suc (length fs)) i P (iter_at fs p i) = Some (found, iter_at fs p q)"
    "found \<longleftrightarrow> (\<exists>j<nfields fs. P (field_at fs j))" "if found then P (field_at fs q) else q = i" by auto
  have sp: "start it = fs" "pos it = i" using it i by (auto simp: pos_iter_at)
  have "found \<longrightarrow> P (cur (iter_at fs p q))" using q(1,4) by (simp add: cur_iter_at)
  then have walk: ?thesis if "iter_find_loop (Suc (length fs)) i P it = Some (found, iter_at fs p q)"
    unfolding sp using that q(3) it_like_iter_at[OF q(1)] by blast
  show ?thesis
  proof (cases "it = iter_at fs p i")
    case True
    with q walk show ?thesis by simp
  next
    case False
    with it have r: "PB_HTYPE (ftype (cur (iter_at fs p i))) = PB_HTYPE_REPEATED"
      and e: "it = (iter_at fs p i)\<lparr>pSize := FixedCountSize\<rparr>" using i by (auto simp: cur_iter_at)
    show ?thesis
    proof (cases "P (field_at fs i)")
      case True
      have "iter_find_loop (Suc (length (start it))) (pos it) P it = Some (True, it)"
        using True e i by (simp add: cur_iter_at)
      with True assms e i show ?thesis by (auto simp: cur_iter_at)
    next
      case False
      with find_pSize[OF r cur_iter_at_tag[OF i], of "length fs" i P FixedCountSize] q e i walk show ?thesis
        by (simp add: cur_iter_at del: iter_find_loop.simps)
    qed
  qed
qed

text \<open>The places the decoder writes through the iterator.\<close>

lemma it_places:
  assumes "static_msg_ok fs n" "0 < p" "it_like fs p it"
  shows "p \<le> pData it" "pData it + field_span (cur it) \<le> p + n"
    and "PB_HTYPE (ftype (cur it)) \<in> {PB_HTYPE_REPEATED, PB_HTYPE_ONEOF} \<Longrightarrow> frame p (p + n) s (size_set it v s)"
    and "PB_HTYPE (ftype (cur it)) = PB_HTYPE_OPTIONAL \<Longrightarrow> pSize it \<noteq> InMem (pData it) \<Longrightarrow>
      frame p (p + n) s (has_set it b s)"
proof -
  obtain i where i: "i < nfields fs" "cur it = field_at fs i" "dest_struct it = p" "pData it = pData (iter_at fs p i)"
    "pSize it = pSize (iter_at fs p i) \<or> PB_HTYPE (ftype (cur it)) = PB_HTYPE_REPEATED \<and> pSize it = FixedCountSize"
    using assms(3) by (elim it_likeE) blast
  note s = in_struct_iter_at[OF assms(1,2) i(1), unfolded in_struct_def Let_def]
  show "p \<le> pData it" "pData it + field_span (cur it) \<le> p + n"
    using s i by (auto simp: cur_iter_at)
  show "PB_HTYPE (ftype (cur it)) \<in> {PB_HTYPE_REPEATED, PB_HTYPE_ONEOF} \<Longrightarrow> frame p (p + n) s (size_set it v s)"
    using s i by (auto simp: cur_iter_at size_set_def split: size_ref.splits intro!: frame_st(2))
  show "PB_HTYPE (ftype (cur it)) = PB_HTYPE_OPTIONAL \<Longrightarrow> pSize it \<noteq> InMem (pData it) \<Longrightarrow>
      frame p (p + n) s (has_set it b s)"
    using s i by (auto simp: cur_iter_at has_set_def split: size_ref.splits intro!: frame_upd)
qed

lemma instr_set [simp]: "instr (size_set it v s) = instr s" "instr (has_set it b s) = instr s"
  by (auto simp: size_set_def has_set_def split: size_ref.splits)

lemma field_span_static:
  assumes "PB_ATYPE (ftype f) = PB_ATYPE_STATIC"
  shows "field_span f = (if PB_HTYPE (ftype f) = PB_HTYPE_REPEATED
           then uint (data_size f) * uint (array_size f) else uint (data_size f))"
proof -
  have "uint (data_size f) * uint (array_size f) < 2 ^ 32 * 2 ^ 32"
    by (intro mult_strict_mono') (use uint_bound_32 in auto)
  then have "uint (ucast (data_size f) * ucast (array_size f) :: 64 word) = uint (data_size f) * uint (array_size f)"
    by (simp add: uint_word_ariths)
  with assms show ?thesis by (simp add: field_span_def)
qed

text \<open>The item address, computed in 32 bits, never leaves the array.\<close>

lemma item_in_array:
  assumes "n < array_size f"
  shows "b \<le> item_at b f n" "item_at b f n + uint (data_size f) \<le> b + uint (data_size f) * uint (array_size f)"
proof -
  have le: "uint (data_size f * n) \<le> uint (data_size f) * uint n"
    by (simp add: uint_word_ariths zmod_le_nonneg_dividend)
  have "uint n + 1 \<le> uint (array_size f)" using assms by (simp add: word_less_def)
  then have "uint (data_size f) * (uint n + 1) \<le> uint (data_size f) * uint (array_size f)"
    by (intro mult_left_mono) auto
  with le show "item_at b f n + uint (data_size f) \<le> b + uint (data_size f) * uint (array_size f)"
    by (simp add: item_at_def algebra_simps)
  show "b \<le> item_at b f n" by (simp add: item_at_def)
qed

section \<open>Releasing and initialising static messages\<close>

definition vsafe :: "addr \<Rightarrow> addr \<Rightarrow> (dec_state \<Rightarrow> dec_state option) \<Rightarrow> bool" where
  "vsafe lo hi f \<longleftrightarrow> (\<forall>s. \<exists>s'. f s = Some s' \<and> frame lo hi s s' \<and> instr s' = instr s)"

lemma vsafe_Some: "(\<And>s. frame lo hi s (h s)) \<Longrightarrow> (\<And>s. instr (h s) = instr s) \<Longrightarrow> vsafe lo hi (\<lambda>s. Some (h s))"
  by (simp add: vsafe_def)

lemma vsafe_mono: "vsafe lo hi f \<Longrightarrow> lo' \<le> lo \<Longrightarrow> hi \<le> hi' \<Longrightarrow> vsafe lo' hi' f"
  unfolding vsafe_def by (meson frame_mono)

lemma vsafe_after:
  assumes "vsafe lo hi f" "\<And>s. frame lo hi s (h s)" "\<And>s. instr (h s) = instr s"
  shows "vsafe lo hi (\<lambda>s. f (h s))"
  unfolding vsafe_def
proof
  fix s :: dec_state
  from assms(1) obtain s' where "f (h s) = Some s'" "frame lo hi (h s) s'" "instr s' = instr (h s)"
    unfolding vsafe_def by blast
  with assms(2,3)[of s] show "\<exists>s'. f (h s) = Some s' \<and> frame lo hi s s' \<and> instr s' = instr s"
    by (auto intro: frame_trans)
qed

lemma void_seq:
  assumes "\<And>j. j \<in> set js \<Longrightarrow> vsafe lo hi (body j)"
  shows "\<exists>s'. seq_acts (map (\<lambda>j s. map_option (Pair True) (body j s)) js) s = Some (True, s') \<and>
    frame lo hi s s' \<and> instr s' = instr s"
  using assms
proof (induction js arbitrary: s)
  case (Cons j js)
  from Cons.prems[of j] obtain t where t: "body j s = Some t" "frame lo hi s t" "instr t = instr s"
    unfolding vsafe_def by fastforce
  from Cons.IH[of t] Cons.prems t show ?case by (auto intro: frame_trans)
qed simp

lemma vsafe_void_fields_loop:
  assumes "0 < nfields fs" "\<And>i. i < nfields fs \<Longrightarrow> vsafe lo hi (body (iter_at fs p i))"
  shows "vsafe lo hi (void_fields_loop body (snd (pb_field_iter_begin fs p)))"
  unfolding vsafe_def
proof
  fix s
  have "\<exists>s'. seq_acts (map (\<lambda>j s. map_option (Pair True) (body (iter_at fs p j) s)) [0..<nfields fs]) s =
      Some (True, s') \<and> frame lo hi s s' \<and> instr s' = instr s"
    by (rule void_seq[where body = "\<lambda>j. body (iter_at fs p j)"]) (use assms(2) in simp)
  then show "\<exists>s'. void_fields_loop body (snd (pb_field_iter_begin fs p)) s = Some s' \<and> frame lo hi s s' \<and> instr s' = instr s"
    by (auto simp: void_fields_loop_def fields_loop_walk[OF assms(1)])
qed

lemma void_fields_loop_same:
  assumes "0 < nfields fs" "\<And>i s. i < nfields fs \<Longrightarrow> body (iter_at fs p i) s = Some s"
  shows "void_fields_loop body (snd (pb_field_iter_begin fs p)) s = Some s"
proof -
  have "seq_acts (map (\<lambda>j s. map_option (Pair True) (body (iter_at fs p j) s)) js) s = Some (True, s)"
    if "set js \<subseteq> {0..<nfields fs}" for js
    using that assms(2) by (induction js) auto
  from this[of "[0..<nfields fs]"] show ?thesis by (simp add: void_fields_loop_def fields_loop_walk[OF assms(1)])
qed

lemma void_loop_same: "(\<And>p s. body p s = Some s) \<Longrightarrow> void_loop body k p n s = Some s"
  by (induction n arbitrary: p) auto

text \<open>A static message owns no memory, so \<open>pb_release\<close> does nothing.\<close>

lemma release_field_static:
  assumes "static_field_ok (cur it)" "tag (cur it) \<noteq> 0"
    and "\<And>fs n p s. static_msg_ok fs n \<Longrightarrow> msg_depth fs = field_depth (cur it) \<Longrightarrow> pb_release d E fs p s = Some s"
  shows "pb_release_single_field (Suc d) E it s = Some s"
proof -
  have st: "PB_ATYPE (ftype (cur it)) = PB_ATYPE_STATIC" "PB_LTYPE (ftype (cur it)) \<noteq> PB_LTYPE_EXTENSION"
    using assms(1,2) by (auto simp: static_field_ok_sel)
  have r: "release_pointer it s = Some s" using st by (simp add: release_pointer_def)
  show ?thesis
  proof (cases "PB_LTYPE (ftype (cur it)) = PB_LTYPE_SUBMESSAGE")
    case True
    obtain fs where fs: "ptr (cur it) = SubFields fs" "static_msg_ok fs (uint (data_size (cur it)))"
      "msg_depth fs = field_depth (cur it)" by (rule sub_msg_ok[OF assms(1,2) True])
    have "void_loop (pb_release d E fs) k p n s = Some s" for k p n
      by (rule void_loop_same) (rule assms(3)[OF fs(2,3)])
    with True st r fs show ?thesis by (simp add: Let_def)
  next
    case False
    with st r show ?thesis by (simp add: Let_def)
  qed
qed

lemma release_static:
  "static_msg_ok fs n \<Longrightarrow> 2 * msg_depth fs \<le> d \<Longrightarrow> pb_release d E fs p s = Some s"
proof (induction "msg_depth fs" arbitrary: fs n d p s rule: less_induct)
  case less
  have "0 < msg_depth fs" by (simp add: msg_depth_def)
  with less.prems(2) obtain e where d: "d = Suc (Suc e)" by (cases d; cases "d - 1") auto
  have nf: "0 < nfields fs" using less.prems(1) by (simp add: static_msg_ok_def struct_ok_def)
  have "pb_release_single_field (Suc e) E (iter_at fs p i) s = Some s" if "i < nfields fs" for i s
  proof (rule release_field_static)
    note f = msg_field[OF less.prems(1) that]
    show "static_field_ok (cur (iter_at fs p i))" "tag (cur (iter_at fs p i)) \<noteq> 0"
      using f that by (simp_all add: cur_iter_at)
    show "pb_release e E fs' p' s' = Some s'"
      if "static_msg_ok fs' n'" "msg_depth fs' = field_depth (cur (iter_at fs p i))" for fs' n' p' s'
      using less.hyps[OF _ that(1)] that(2) f(3) \<open>i < nfields fs\<close> less.prems(2) d by (simp add: cur_iter_at)
  qed
  with nf d show ?case
    using void_fields_loop_same[OF nf, of "pb_release_single_field (Suc e) E" p s]
    by (simp add: split_beta del: pb_release_single_field.simps)
qed

lemma vsafe_init_static_data:
  assumes "static_field_ok f" "tag f \<noteq> 0"
    and "\<And>fs n. static_msg_ok fs n \<Longrightarrow> msg_depth fs = field_depth f \<Longrightarrow> vsafe p (p + n) (mset fs p)"
  shows "vsafe p (p + uint (data_size f)) (init_static_data mset f p)"
proof (cases "PB_LTYPE (ftype f) = PB_LTYPE_SUBMESSAGE")
  case True
  obtain fs where "ptr f = SubFields fs" "static_msg_ok fs (uint (data_size f))" "msg_depth fs = field_depth f"
    by (rule sub_msg_ok[OF assms(1,2) True])
  with True assms(3) show ?thesis by (simp add: init_static_data_def[abs_def])
next
  case False
  have "vsafe p (p + uint (data_size f)) (\<lambda>s. Some (s\<lparr>dmem := stores (dmem s) p (take (unat (data_size f)) bs)\<rparr>))" for bs
  proof (intro vsafe_Some frame_stores)
    have "length (take (unat (data_size f)) bs) \<le> unat (data_size f)" by simp
    then show "p + int (length (take (unat (data_size f)) bs)) \<le> p + uint (data_size f)"
      by (metis add_le_cancel_left of_nat_le_iff uint_nat)
  qed auto
  with False assms(1,2) frame_memset0 show ?thesis
    by (cases "ptr f") (auto simp: init_static_data_def[abs_def] static_field_ok_sel intro!: vsafe_Some)
qed

lemma vsafe_field_default:
  assumes ok: "static_msg_ok fs n" "0 < p" "i < nfields fs"
    and rec: "\<And>fs' n' p'. static_msg_ok fs' n' \<Longrightarrow> msg_depth fs' < msg_depth fs \<Longrightarrow> 0 < p' \<Longrightarrow>
      vsafe p' (p' + n') (pb_message_set_to_defaults d E fs' p')"
  shows "vsafe p (p + n) (pb_field_set_to_default (Suc d) E (iter_at fs p i))"
proof -
  let ?it = "iter_at fs p i" and ?f = "field_at fs i"
  note f = msg_field[OF ok(1,3)] and pl = it_places[OF ok(1,2) it_like_iter_at[OF ok(3)]]
  have c: "cur ?it = ?f" using ok(3) by (simp add: cur_iter_at)
  have st: "PB_ATYPE (ftype ?f) = PB_ATYPE_STATIC" "PB_LTYPE (ftype ?f) \<noteq> PB_LTYPE_EXTENSION"
    using f by (auto simp: static_field_ok_sel)
  have init: "vsafe p (p + n) (init_static_data (pb_message_set_to_defaults d E) ?f (pData ?it))"
    if "PB_HTYPE (ftype ?f) \<noteq> PB_HTYPE_REPEATED"
  proof (rule vsafe_mono)
    show "vsafe (pData ?it) (pData ?it + uint (data_size ?f))
        (init_static_data (pb_message_set_to_defaults d E) ?f (pData ?it))"
      by (rule vsafe_init_static_data[OF f(1,2)]) (use rec pl(1) ok(2) f(3) in auto)
    show "p \<le> pData ?it" "pData ?it + uint (data_size ?f) \<le> p + n"
      using pl(1,2) that st by (simp_all add: c field_span_static)
  qed
  have sz: "vsafe p (p + n) (\<lambda>s. Some (size_set ?it 0 s))"
    if "PB_HTYPE (ftype ?f) \<in> {PB_HTYPE_REPEATED, PB_HTYPE_ONEOF}"
    using that pl(3) c by (intro vsafe_Some) auto
  have opt: "vsafe p (p + n) (\<lambda>s. init_static_data (pb_message_set_to_defaults d E) ?f (pData ?it) (has_set ?it False s))"
    if "PB_HTYPE (ftype ?f) = PB_HTYPE_OPTIONAL" "pSize ?it \<noteq> InMem (pData ?it)"
    by (rule vsafe_after[OF init]) (use that pl(4) c in auto)
  show ?thesis
    using st init sz opt by (auto simp: c Let_def fun_eq_iff vsafe_def)
qed

lemma vsafe_defaults:
  "static_msg_ok fs n \<Longrightarrow> 2 * msg_depth fs \<le> d \<Longrightarrow> 0 < p \<Longrightarrow>
     vsafe p (p + n) (pb_message_set_to_defaults d E fs p)"
proof (induction "msg_depth fs" arbitrary: fs n d p rule: less_induct)
  case less
  have "0 < msg_depth fs" by (simp add: msg_depth_def)
  with less.prems(2) obtain e where d: "d = Suc (Suc e)" by (cases d; cases "d - 1") auto
  have nf: "0 < nfields fs" using less.prems(1) by (simp add: static_msg_ok_def struct_ok_def)
  have "vsafe p (p + n) (pb_field_set_to_default (Suc e) E (iter_at fs p i))" if "i < nfields fs" for i
    by (rule vsafe_field_default[OF less.prems(1,3) that]) (use less.hyps less.prems(2) d in auto)
  from vsafe_void_fields_loop[where body = "pb_field_set_to_default (Suc e) E", OF nf this] nf d show ?case
    by (simp add: vsafe_def split_beta del: pb_field_set_to_default.simps)
qed

section \<open>Substreams\<close>

text \<open>What runs on a substream ends with the parent stream.\<close>

abbreviation ends_in :: "addr \<Rightarrow> addr \<Rightarrow> pb_istream_t \<Rightarrow> dec_state \<Rightarrow> (bool \<times> dec_state) option \<Rightarrow> bool" where
  "ends_in lo hi parent s r \<equiv>
     \<exists>ok s'. r = Some (ok, s') \<and> frame lo hi s s' \<and> bytes_left (instr s') = bytes_left parent"

lemma leave_ends:
  assumes "frame lo hi s t"
  shows "ends_in lo hi parent s (leave_substream E parent ok t)"
proof -
  let ?p = "parent\<lparr>is_in := is_in (instr t)\<rparr>"
  obtain r i where c: "pb_close_string_substream (denv_read E) (instr t) ?p = (r, i)"
    by (cases "pb_close_string_substream (denv_read E) (instr t) ?p")
  with assms left_close[OF c] show ?thesis by (cases r) (auto simp: leave_substream_def)
qed

lemma parent_error_ends:
  assumes "frame lo hi s t"
  shows "ends_in lo hi parent s (parent_error parent msg t)"
  using assms by (auto simp: parent_error_def)

lemma safe_substream:
  assumes "\<And>parent s. ends_in lo hi parent s (k parent s)"
  shows "safe lo hi (enter_substream E k)"
  unfolding safe_def
proof
  fix s :: dec_state
  obtain r i where r: "pb_make_string_substream (denv_read E) (instr s) = (r, i)"
    by (cases "pb_make_string_substream (denv_read E) (instr s)")
  note left_substream(1)[OF r]
  then show "ends lo hi s (enter_substream E k s)"
    using r assms[of i] by (cases r) (fastforce simp: enter_substream_def)+
qed

section \<open>Fields of static messages\<close>

text \<open>A packable decoder that succeeds has consumed something, so the loop over a packed array ends.\<close>

definition eats :: "dec_state act \<Rightarrow> bool" where
  "eats f \<longleftrightarrow> (\<forall>s s'. f s = Some (True, s') \<longrightarrow> left (instr s') < left (instr s))"

lemma eats_with_value:
  assumes "consumes r" "\<And>v. safe lo hi (k v)"
  shows "eats (with_value r k)"
  unfolding eats_def
proof (intro allI impI)
  fix s s' :: dec_state
  assume w: "with_value r k s = Some (True, s')"
  obtain v i where r: "r (instr s) = (v, i)" by force
  with w obtain x where x: "v = Some x" "k x (s\<lparr>instr := i\<rparr>) = Some (True, s')"
    by (cases v) (auto simp: with_value_def)
  then have "left i < left (instr s)" using assms(1) r by (auto simp: consumes_def)
  moreover have "left (instr s') \<le> left i"
    using x(2) safeE[OF assms(2), of x "s\<lparr>instr := i\<rparr>"] by fastforce
  ultimately show "left (instr s') < left (instr s)" by simp
qed

lemma packable_eats:
  assumes "static_field_ok f" "tag f \<noteq> 0" "PB_LTYPE (ftype f) \<le> PB_LTYPE_LAST_PACKABLE"
  shows "eats (call_decoder (PB_DECODERS d rec E (PB_LTYPE (ftype f))) f p)"
proof -
  have sz: "min_size (PB_LTYPE (ftype f)) \<le> data_size f" using assms(1,2) by (simp add: static_field_ok_sel)
  have b: "safe p (p + uint (data_size f)) (\<lambda>s. Some (True, s\<lparr>dmem := (dmem s)(p := if v \<noteq> 0 then 1 else 0)\<rparr>))"
    if "1 \<le> uint (data_size f)" for v :: "32 word"
    using that by (intro safe_write) (auto intro: frame_upd)
  have f: "safe p (p + 4) (\<lambda>s. Some (True, s\<lparr>dmem := st32 (dmem s) p v\<rparr>))"
    "safe p (p + 8) (\<lambda>s. Some (True, s\<lparr>dmem := st64 (dmem s) p w\<rparr>))" for v w
    by (intro safe_write; auto intro: frame_st)+
  have "eats (pb_dec_bool E f p)" if "1 \<le> uint (data_size f)"
    unfolding pb_dec_bool_def by (rule eats_with_value[OF consumes_varint32 b[OF that]])
  moreover have "eats (pb_dec_varint E f p)" "eats (pb_dec_uvarint E f p)" "eats (pb_dec_svarint E f p)"
    unfolding pb_dec_varint_def pb_dec_uvarint_def pb_dec_svarint_def Let_def
    by (intro eats_with_value[where lo = p and hi = "p + uint (data_size f)"] consumes_varint numbers_consume
        safe_store_checked frame_store_signed frame_store_unsigned; assumption)+
  moreover have "eats (pb_dec_fixed32 E f p)" "eats (pb_dec_fixed64 E f p)"
    unfolding pb_dec_fixed32_def pb_dec_fixed64_def
    by (rule eats_with_value[OF numbers_consume(2) f(1)], rule eats_with_value[OF numbers_consume(3) f(2)])
  ultimately show ?thesis
    using assms sz by (auto simp: static_field_ok_sel PB_DECODERS_def call_decoder_def[abs_def] min_size_def word_le_def)
qed

text \<open>
  The interface between a message decoder and the field decoders it calls: a decoder of
  submessages that returns and stays inside the structure it is given.
\<close>

locale safe_decoder =
  fixes rec :: msg_decoder and E :: pb_dec_env and d :: nat
  assumes rec_safe: "static_msg_ok fs n \<Longrightarrow> 2 * msg_depth fs < d \<Longrightarrow> 0 < p \<Longrightarrow> safe p (p + n) (rec fs p)"
begin

lemma decode_with_safe:
  assumes "static_msg_ok fs n" "2 * msg_depth fs < d" "0 < p"
  shows "safe p (p + n) (pb_decode_with d rec E fs p)"
  unfolding safe_def
proof
  fix s :: dec_state
  have "vsafe p (p + n) (pb_message_set_to_defaults d E fs p)"
    using assms by (intro vsafe_defaults) auto
  then obtain t where t: "pb_message_set_to_defaults d E fs p s = Some t" "frame p (p + n) s t" "instr t = instr s"
    unfolding vsafe_def by blast
  obtain ok u where u: "rec fs p t = Some (ok, u)" "frame p (p + n) t u" "left (instr u) \<le> left (instr t)"
    by (rule safeE[OF rec_safe[OF assms]])
  have "pb_release d E fs p u = Some u" using assms by (intro release_static) auto
  with t u show "ends p (p + n) s (pb_decode_with d rec E fs p s)"
    by (cases ok) (auto simp: pb_decode_with_def intro: frame_trans)
qed

lemma submessage_safe:
  assumes "static_field_ok f" "tag f \<noteq> 0" "PB_LTYPE (ftype f) = PB_LTYPE_SUBMESSAGE"
    and "2 * field_depth f < d" "0 < p"
  shows "safe p (p + uint (data_size f)) (pb_dec_submessage d rec E f p)"
  unfolding pb_dec_submessage_def
proof (rule safe_substream)
  fix parent and s :: dec_state
  obtain fs where fs: "ptr f = SubFields fs" "static_msg_ok fs (uint (data_size f))" "msg_depth fs = field_depth f"
    by (rule sub_msg_ok[OF assms(1-3)])
  have d: "2 * msg_depth fs < d" using fs(3) assms(4) by simp
  obtain ok t where "(if PB_HTYPE (ftype f) = PB_HTYPE_REPEATED then pb_decode_with d rec E fs p s else rec fs p s) =
      Some (ok, t)" "frame p (p + uint (data_size f)) s t"
    using safeE[OF decode_with_safe[OF fs(2) d assms(5)], of s] safeE[OF rec_safe[OF fs(2) d assms(5)], of s]
    by (metis (full_types))
  with fs(1) leave_ends show "ends_in p (p + uint (data_size f)) parent s
      (case ptr f of NullPtr \<Rightarrow> parent_error parent ''invalid field descriptor'' s | DefaultValue _ \<Rightarrow> None
       | SubFields fs \<Rightarrow>
           (case (if PB_HTYPE (ftype f) = PB_HTYPE_REPEATED then pb_decode_with d rec E fs p s else rec fs p s) of
              None \<Rightarrow> None | Some (status, s) \<Rightarrow> leave_substream E parent status s))"
    by simp
qed

lemma call_safe:
  assumes "static_field_ok f" "tag f \<noteq> 0" "2 * field_depth f < d" "0 < p"
  shows "safe p (p + uint (data_size f)) (call_decoder (PB_DECODERS d rec E (PB_LTYPE (ftype f))) f p)"
proof -
  have sz: "min_size (PB_LTYPE (ftype f)) \<le> data_size f" and st: "PB_ATYPE (ftype f) \<noteq> PB_ATYPE_POINTER"
    using assms(1,2) by (simp_all add: static_field_ok_sel)
  note safe_dec_varints[of p f E] safe_dec_fixed_length_bytes[of p f E]
    safe_dec_string[OF st, of p E] safe_dec_bytes[OF st, of p E]
    safe_dec_bool[of f p E] safe_dec_fixed[of f p E] submessage_safe[OF assms(1,2) _ assms(3,4)]
  with assms(1,2) sz show ?thesis
    by (auto simp: static_field_ok_sel PB_DECODERS_def call_decoder_def[abs_def] min_size_def word_le_def)
qed

text \<open>One field: the iterator \<open>it\<close> stands on a field of the message \<open>fs\<close> at \<open>p\<close>.\<close>

lemma at_field:
  assumes "static_msg_ok fs n" "2 * msg_depth fs \<le> d" "0 < p" "it_like fs p it"
  shows "static_field_ok (cur it)" "tag (cur it) \<noteq> 0" "2 * field_depth (cur it) < d" "0 < pData it"
    and "PB_ATYPE (ftype (cur it)) = PB_ATYPE_STATIC"
proof -
  obtain i where i: "i < nfields fs" "cur it = field_at fs i" using assms(4) by (elim it_likeE) blast
  note f = msg_field[OF assms(1) i(1)]
  show "static_field_ok (cur it)" "tag (cur it) \<noteq> 0" "2 * field_depth (cur it) < d"
    using f i(2) assms(2) by simp_all
  then show "PB_ATYPE (ftype (cur it)) = PB_ATYPE_STATIC" by (simp add: static_field_ok_sel)
  show "0 < pData it" using it_places(1)[OF assms(1,3,4)] assms(3) by simp
qed

lemma item_safe:
  assumes "static_msg_ok fs n" "2 * msg_depth fs \<le> d" "0 < p" "it_like fs p it"
    and "PB_HTYPE (ftype (cur it)) = PB_HTYPE_REPEATED" "k < array_size (cur it)"
  shows "safe p (p + n) (call_decoder (PB_DECODERS d rec E (PB_LTYPE (ftype (cur it)))) (cur it)
    (item_at (pData it) (cur it) k))"
proof (rule safe_mono)
  note f = at_field[OF assms(1-4)] and pl = it_places[OF assms(1,3,4)] and ar = item_in_array[OF assms(6), of "pData it"]
  show "safe (item_at (pData it) (cur it) k) (item_at (pData it) (cur it) k + uint (data_size (cur it)))
      (call_decoder (PB_DECODERS d rec E (PB_LTYPE (ftype (cur it)))) (cur it) (item_at (pData it) (cur it) k))"
    by (rule call_safe[OF f(1-3)]) (use f(4) ar in simp)
  show "p \<le> item_at (pData it) (cur it) k" using pl(1) ar(1) by simp
  show "item_at (pData it) (cur it) k + uint (data_size (cur it)) \<le> p + n"
    using pl(2) ar(2) f(5) assms(5) by (simp add: field_span_static)
qed

lemma packed_loop_ends:
  assumes ok: "static_msg_ok fs n" "2 * msg_depth fs \<le> d" "0 < p" "it_like fs p it"
    and r: "PB_HTYPE (ftype (cur it)) = PB_HTYPE_REPEATED" and pk: "PB_LTYPE (ftype (cur it)) \<le> PB_LTYPE_LAST_PACKABLE"
  shows "left (instr s) < k \<Longrightarrow>
    ends p (p + n) s (packed_static_loop k (PB_DECODERS d rec E (PB_LTYPE (ftype (cur it)))) it s)"
proof (induction k arbitrary: s)
  case (Suc k)
  let ?call = "\<lambda>k. call_decoder (PB_DECODERS d rec E (PB_LTYPE (ftype (cur it)))) (cur it) (item_at (pData it) (cur it) k)"
  show ?case
  proof (cases "bytes_left (instr s) > 0 \<and> size_get it s < array_size (cur it)")
    case True
    obtain ok t where t: "?call (size_get it s) s = Some (ok, t)" "frame p (p + n) s t" "left (instr t) \<le> left (instr s)"
      using True by (elim conjE) (rule safeE[OF item_safe[OF ok r]])
    show ?thesis
    proof (cases ok)
      case True
      let ?t = "size_set it (size_get it t + 1) t"
      have "left (instr t) < left (instr s)"
        using packable_eats[OF at_field(1,2)[OF ok] pk, of d rec E "item_at (pData it) (cur it) (size_get it s)"] t(1) True
        by (simp add: eats_def)
      with Suc.prems have "left (instr ?t) < k" by simp
      from Suc.IH[OF this] have "ends p (p + n) ?t (packed_static_loop k (PB_DECODERS d rec E (PB_LTYPE (ftype (cur it)))) it ?t)" .
      moreover have "frame p (p + n) s ?t" using it_places(3)[OF ok(1,3,4)] r by (intro frame_trans[OF t(2)]) simp
      ultimately show ?thesis
        using \<open>bytes_left (instr s) > 0 \<and> size_get it s < array_size (cur it)\<close> True t
        by (auto intro: frame_trans)
    next
      case False
      with \<open>bytes_left (instr s) > 0 \<and> size_get it s < array_size (cur it)\<close> t show ?thesis by auto
    qed
  qed auto
qed simp

lemma packed_safe:
  assumes ok: "static_msg_ok fs n" "2 * msg_depth fs \<le> d" "0 < p" "it_like fs p it"
    and r: "PB_HTYPE (ftype (cur it)) = PB_HTYPE_REPEATED" and pk: "PB_LTYPE (ftype (cur it)) \<le> PB_LTYPE_LAST_PACKABLE"
  shows "safe p (p + n) (enter_substream E (\<lambda>parent s.
    case packed_static_loop (Suc (unat (bytes_left (instr s)))) (PB_DECODERS d rec E (PB_LTYPE (ftype (cur it)))) it s of
      None \<Rightarrow> None
    | Some (status, s) \<Rightarrow>
        if bytes_left (instr s) \<noteq> 0 then parent_error parent ''array overflow'' s
        else leave_substream E parent status s))"
    (is "safe _ _ (enter_substream E (\<lambda>parent s. case packed_static_loop _ ?func it s of None \<Rightarrow> None | Some (st, s') \<Rightarrow> ?k parent st s'))")
proof (rule safe_substream)
  fix parent and s :: dec_state
  have "ends p (p + n) s (packed_static_loop (Suc (unat (bytes_left (instr s)))) ?func it s)"
    by (rule packed_loop_ends[OF ok r pk]) simp
  then obtain st t where "packed_static_loop (Suc (unat (bytes_left (instr s)))) ?func it s = Some (st, t)" "frame p (p + n) s t"
    by blast
  with leave_ends parent_error_ends show "ends_in p (p + n) parent s
      (case packed_static_loop (Suc (unat (bytes_left (instr s)))) ?func it s of
         None \<Rightarrow> None | Some (st, s') \<Rightarrow> ?k parent st s')" by simp
qed

lemma next_item_ends:
  assumes ok: "static_msg_ok fs n" "2 * msg_depth fs \<le> d" "0 < p" "it_like fs p it"
    and r: "PB_HTYPE (ftype (cur it)) = PB_HTYPE_REPEATED"
  shows "ends p (p + n) s
    (if k \<ge> array_size (cur it) then DS_RETURN_ERROR ''array overflow'' (size_set it (k + 1) s)
     else call_decoder (PB_DECODERS d rec E (PB_LTYPE (ftype (cur it)))) (cur it) (item_at (pData it) (cur it) k)
            (size_set it (k + 1) s))"
proof -
  have pl: "frame p (p + n) s (size_set it (k + 1) s)" for s using it_places(3)[OF ok(1,3,4)] r by simp
  show ?thesis
  proof (cases "k \<ge> array_size (cur it)")
    case True
    then show ?thesis using pl[of s] by (auto simp: DS_RETURN_ERROR_def)
  next
    case False
    then have "k < array_size (cur it)" by simp
    from safe_before[where h = "size_set it (k + 1)", OF pl _ item_safe[OF ok r this]]
    show ?thesis using False by (simp add: safe_def)
  qed
qed

text \<open>A oneof submessage is initialised when it was not the chosen member.\<close>

lemma oneof_init:
  assumes ok: "static_msg_ok fs n" "2 * msg_depth fs \<le> d" "0 < p" "it_like fs p it"
    and h: "PB_HTYPE (ftype (cur it)) = PB_HTYPE_ONEOF"
  shows "\<exists>t. (if PB_LTYPE (ftype (cur it)) = PB_LTYPE_SUBMESSAGE \<and> size_get it s \<noteq> tag (cur it)
      then case ptr (cur it) of
             SubFields fs \<Rightarrow> pb_message_set_to_defaults d E fs (pData it) (memset0 (pData it) (data_size (cur it)) s)
           | _ \<Rightarrow> None
      else Some s) = Some t \<and> frame p (p + n) s t \<and> instr t = instr s"
proof (cases "PB_LTYPE (ftype (cur it)) = PB_LTYPE_SUBMESSAGE")
  case True
  let ?f = "cur it"
  note f = at_field[OF ok] and pl = it_places[OF ok(1,3,4)]
  obtain fs' where fs': "ptr ?f = SubFields fs'" "static_msg_ok fs' (uint (data_size ?f))" "msg_depth fs' = field_depth ?f"
    by (rule sub_msg_ok[OF f(1,2) True])
  have "vsafe (pData it) (pData it + uint (data_size ?f)) (pb_message_set_to_defaults d E fs' (pData it))"
    using fs' f(3,4) by (intro vsafe_defaults) auto
  then have "vsafe (pData it) (pData it + uint (data_size ?f))
      (\<lambda>s. pb_message_set_to_defaults d E fs' (pData it) (memset0 (pData it) (data_size ?f) s))"
    by (rule vsafe_after) (simp_all add: frame_memset0)
  then have "vsafe p (p + n) (\<lambda>s. pb_message_set_to_defaults d E fs' (pData it) (memset0 (pData it) (data_size ?f) s))"
    by (rule vsafe_mono) (use pl(1,2) f(5) h in \<open>simp_all add: field_span_static\<close>)
  with fs'(1) True show ?thesis unfolding vsafe_def by auto
qed auto

lemma static_field_safe:
  assumes ok: "static_msg_ok fs n" "2 * msg_depth fs \<le> d" "0 < p" "it_like fs p it"
  shows "safe p (p + n) (decode_static_field d rec E wt it)"
proof -
  let ?f = "cur it" and ?func = "PB_DECODERS d rec E (PB_LTYPE (ftype (cur it)))"
  note f = at_field[OF ok] and pl = it_places[OF ok(1,3,4)]
  have one: "safe p (p + n) (call_decoder ?func ?f (pData it))" if "PB_HTYPE (ftype ?f) \<noteq> PB_HTYPE_REPEATED"
    by (rule safe_mono[OF call_safe[OF f(1-4)]]) (use pl f(5) that in \<open>simp_all add: field_span_static\<close>)
  consider (req) "PB_HTYPE (ftype ?f) = PB_HTYPE_REQUIRED" | (opt) "PB_HTYPE (ftype ?f) = PB_HTYPE_OPTIONAL"
    | (rep) "PB_HTYPE (ftype ?f) = PB_HTYPE_REPEATED" | (oneof) "PB_HTYPE (ftype ?f) = PB_HTYPE_ONEOF"
    using htype_cases[of "ftype ?f"] by auto
  then show ?thesis
  proof cases
    case req
    with one show ?thesis by (simp add: decode_static_field_def[abs_def] Let_def)
  next
    case opt
    have "safe p (p + n) (\<lambda>s. call_decoder ?func ?f (pData it) (has_set it True s))" if "pSize it \<noteq> InMem (pData it)"
      by (rule safe_before) (use one pl(4) that opt in auto)
    with opt one show ?thesis
      by (cases "pSize it = InMem (pData it)") (simp_all add: decode_static_field_def[abs_def] Let_def)
  next
    case rep
    with packed_safe[OF ok rep] next_item_ends[OF ok rep] show ?thesis
      unfolding safe_def by (auto simp: decode_static_field_def Let_def)
  next
    case oneof
    have s: "safe p (p + n) (\<lambda>s. call_decoder ?func ?f (pData it) (size_set it (tag ?f) s))"
      by (rule safe_before) (use one pl(3) oneof in auto)
    have "ends p (p + n) s (decode_static_field d rec E wt it s)" for s
    proof -
      note oneof_init[OF ok oneof, of s]
      then obtain t where t: "frame p (p + n) s t" "instr t = instr s" and
        e: "decode_static_field d rec E wt it s = call_decoder ?func ?f (pData it) (size_set it (tag ?f) t)"
        using oneof by (auto simp: decode_static_field_def Let_def)
      from safeE[OF s, of t] t e show ?thesis by (metis frame_trans)
    qed
    then show ?thesis by (simp add: safe_def)
  qed
qed

lemma release_union_static:
  assumes ok: "static_msg_ok fs n" "2 * msg_depth fs \<le> d" "0 < p" "it_like fs p it"
  shows "\<exists>b it' s'. pb_release_union_field d E it s = Some (b, it', s') \<and> it_like fs p it' \<and>
    frame p (p + n) s s' \<and> bytes_left (instr s') = bytes_left (instr s)"
proof -
  have find: "\<exists>b it'. pb_field_iter_find t it = Some (b, it') \<and> it_like fs p it'" if "it_like fs p it" for t it
    unfolding pb_field_iter_find_def using find_like[OF that] by blast
  have rel: "pb_release_single_field d E it s = Some s" if "it_like fs p it" for it
  proof -
    have "0 < msg_depth fs" by (simp add: msg_depth_def)
    with ok(2) obtain e where d: "d = Suc (Suc e)" by (cases d; cases "d - 1") auto
    note f = at_field[OF ok(1-3) that]
    have "pb_release (Suc e) E fs' p' s' = Some s'" if "static_msg_ok fs' n'" "msg_depth fs' = field_depth (cur it)" for fs' n' p' s'
      using that f(3) d by (intro release_static) auto
    from release_field_static[OF f(1,2) this] show ?thesis unfolding d .
  qed
  show ?thesis
  proof (cases "size_get it s = 0 \<or> size_get it s = tag (cur it)")
    case True
    with ok(4) show ?thesis by (auto simp: pb_release_union_field_def Let_def)
  next
    case False
    obtain b it1 where it1: "pb_field_iter_find (size_get it s) it = Some (b, it1)" "it_like fs p it1"
      using find[OF ok(4)] by blast
    obtain b' it2 where it2: "pb_field_iter_find (tag (cur it)) it1 = Some (b', it2)" "it_like fs p it2"
      using find[OF it1(2)] by blast
    have "PB_ATYPE (ftype (cur it2)) \<noteq> PB_ATYPE_POINTER" using at_field(5)[OF ok(1-3) it2(2)] by simp
    with False it1 it2 rel[OF it1(2)] show ?thesis
      by (cases b; cases b') (auto simp: pb_release_union_field_def Let_def)
  qed
qed

lemma field_ends:
  assumes ok: "static_msg_ok fs n" "2 * msg_depth fs \<le> d" "0 < p" "it_like fs p it"
  shows "\<exists>b it' s'. decode_field d rec E wt it s = Some (b, it', s') \<and> it_like fs p it' \<and> frame p (p + n) s s' \<and>
    left (instr s') \<le> left (instr s)"
proof -
  obtain b it' t where r: "(if PB_HTYPE (ftype (cur it)) = PB_HTYPE_ONEOF then pb_release_union_field d E it s
        else Some (True, it, s)) = Some (b, it', t)"
    and t: "it_like fs p it'" "frame p (p + n) s t" "bytes_left (instr t) = bytes_left (instr s)"
  proof (cases "PB_HTYPE (ftype (cur it)) = PB_HTYPE_ONEOF")
    case True
    with release_union_static[OF ok, of s] that show ?thesis by fastforce
  qed (use ok(4) that in simp)
  have "PB_ATYPE (ftype (cur it')) = PB_ATYPE_STATIC" by (rule at_field(5)[OF ok(1-3) t(1)])
  moreover obtain b' u where "decode_static_field d rec E wt it' t = Some (b', u)" "frame p (p + n) t u"
      "left (instr u) \<le> left (instr t)"
    by (rule safeE[OF static_field_safe[OF ok(1-3) t(1)]])
  ultimately show ?thesis
    using r t by (cases b) (auto simp: decode_field_def Let_def intro: frame_trans)
qed

section \<open>The message loop\<close>

lemma enter_fixed_count_like:
  assumes "it_like fs p (nl_iter l)" "enter_fixed_count l s = Some (l', s')"
  shows "it_like fs p (nl_iter l')" "frame lo hi s s'" "instr s' = instr s"
  using assms by (auto simp: enter_fixed_count_def Let_def intro: it_like_fixed_count[simplified] split: if_splits)

lemma mark_seen_iter [simp]: "nl_iter (mark_seen l) = nl_iter l"
  by (simp add: mark_seen_def Let_def)

text \<open>A static message has no extension field, and no tag is the largest number.\<close>

lemma unknown_ends:
  assumes ok: "static_msg_ok fs n" "it_like fs p (nl_iter l)" and t: "t \<noteq> -1"
  shows "\<exists>c l' s'. unknown_field d rec E t wt l s = Some (c, l', s') \<and> c \<noteq> Break \<and> it_like fs p (nl_iter l') \<and>
    frame p (p + n) s s' \<and> left (instr s') \<le> left (instr s)"
proof -
  obtain r i where r: "pb_skip_field (denv_read E) wt (instr s) = (r, i)" by (cases "pb_skip_field (denv_read E) wt (instr s)")
  have le: "left i \<le> left (instr s)" using shrinks_skip_field r by (metis shrinks_def snd_conv)
  obtain found it' where f: "find_extension_field (nl_iter l) = Some (found, it')" "it_like fs p it'"
    "found \<longleftrightarrow> (\<exists>j<nfields fs. PB_LTYPE (ftype (field_at fs j)) = PB_LTYPE_EXTENSION)"
    unfolding find_extension_field_def using find_like[OF ok(2)] by blast
  have "\<not> found" using f(3) msg_field(1,2)[OF ok(1)] by (fastforce simp: static_field_ok_sel)
  moreover have "\<not> -1 \<le> t" using t by (simp add: word_order.extremum_unique)
  ultimately show ?thesis
    using r le f ok(2) by (auto simp: unknown_field_def Let_def)
qed

lemma tag_bound:
  assumes "pb_decode_tag R i = (Inr (wt, t), i')"
  shows "t \<noteq> -1"
proof -
  have "drop_bit 3 v \<noteq> (-1 :: 32 word)" for v :: "32 word"
  proof
    assume "drop_bit 3 v = (-1 :: 32 word)"
    then have "bit (drop_bit 3 v) 31 \<longleftrightarrow> bit (-1 :: 32 word) 31" by simp
    then show False using bit_imp_le_length[of v 34] by (simp add: bit_simps)
  qed
  with assms show ?thesis by (auto simp: pb_decode_tag_def split: prod.splits option.splits if_splits)
qed

lemma step_ends:
  assumes ok: "static_msg_ok fs n" "2 * msg_depth fs \<le> d" "0 < p" "it_like fs p (nl_iter l)"
  shows "\<exists>c l' s'. noinit_step d rec E l s = Some (c, l', s') \<and> it_like fs p (nl_iter l') \<and>
    frame p (p + n) s s' \<and> left (instr s') \<le> left (instr s) \<and> (c = Continue \<longrightarrow> left (instr s') < left (instr s))"
proof -
  obtain r i where r: "pb_decode_tag (denv_read E) (instr s) = (r, i)" by (cases "pb_decode_tag (denv_read E) (instr s)")
  note lt = left_tag[OF r]
  show ?thesis
  proof (cases r)
    case (Inl eof)
    with r lt ok(4) show ?thesis by (auto simp: noinit_step_def)
  next
    case (Inr x)
    obtain wt t where x: "x = (wt, t)" by (cases x)
    have t: "t \<noteq> -1" using tag_bound r Inr x by blast
    obtain found it where f: "pb_field_iter_find t (nl_iter l) = Some (found, it)" and it: "it_like fs p it"
      unfolding pb_field_iter_find_def using find_like[OF ok(4)] by blast
    let ?l = "l\<lparr>nl_iter := it\<rparr>" and ?s = "s\<lparr>instr := i\<rparr>"
    show ?thesis
    proof (cases found)
      case False
      from unknown_ends[of fs n p ?l t wt ?s] ok(1) it t obtain c l' s' where
        u: "unknown_field d rec E t wt ?l ?s = Some (c, l', s')" "it_like fs p (nl_iter l')"
          "frame p (p + n) ?s s'" "left (instr s') \<le> left (instr ?s)" by auto
      with False r Inr x f lt show ?thesis by (auto simp: noinit_step_def)
    next
      case True
      show ?thesis
      proof (cases "enter_fixed_count ?l ?s")
        case None
        with True r Inr x f lt it show ?thesis by (auto simp: noinit_step_def)
      next
        case (Some ls)
        obtain l1 s1 where e: "enter_fixed_count ?l ?s = Some (l1, s1)" using Some by (cases ls) auto
        have e': "it_like fs p (nl_iter l1)" "frame p (p + n) ?s s1" "instr s1 = i"
          using enter_fixed_count_like[OF _ e] it by auto
        from field_ends[OF ok(1-3), of "nl_iter (mark_seen l1)" wt s1] e'(1) obtain b it' s' where
          "decode_field d rec E wt (nl_iter (mark_seen l1)) s1 = Some (b, it', s')" "it_like fs p it'"
          "frame p (p + n) s1 s'" "left (instr s') \<le> left (instr s1)" by auto
        moreover from this e'(2) have "frame p (p + n) s s'" by (auto intro: frame_trans)
        ultimately show ?thesis
          using True r Inr x f lt e e' by (auto simp: noinit_step_def)
      qed
    qed
  qed
qed

lemma loop_ends:
  assumes "static_msg_ok fs n" "2 * msg_depth fs \<le> d" "0 < p"
  shows "it_like fs p (nl_iter l) \<Longrightarrow> left (instr s) < k \<Longrightarrow>
    \<exists>c l' s'. noinit_loop k d rec E l s = Some (c, l', s') \<and> frame p (p + n) s s' \<and> left (instr s') \<le> left (instr s)"
proof (induction k arbitrary: l s)
  case (Suc k)
  obtain c l' s' where st: "noinit_step d rec E l s = Some (c, l', s')" "it_like fs p (nl_iter l')" "frame p (p + n) s s'"
    "left (instr s') \<le> left (instr s)" "c = Continue \<longrightarrow> left (instr s') < left (instr s)"
    using step_ends[OF assms Suc.prems(1)] by blast
  show ?case
  proof (cases "c = Continue")
    case True
    with st Suc.prems(2) have "left (instr s') < k" by simp
    from Suc.IH[OF st(2) this] True st show ?thesis by (fastforce intro: frame_trans)
  qed (use st in \<open>cases c; simp\<close>)
qed simp

lemma body_safe:
  assumes "static_msg_ok fs n" "2 * msg_depth fs \<le> d" "0 < p"
  shows "safe p (p + n) (noinit_body d rec E fs p)"
  unfolding safe_def
proof
  fix s :: dec_state
  let ?l = "\<lparr>nl_iter = snd (pb_field_iter_begin fs p), fields_seen = [0, 0],
    extension_range_start = 0, fixed_count_field = None\<rparr>" and ?s = "s\<lparr>fixed_count_size := 0\<rparr>"
  have "0 < nfields fs" using assms(1) by (simp add: static_msg_ok_def struct_ok_def)
  then have "it_like fs p (nl_iter ?l)" using it_like_iter_at[of 0 fs p] by simp
  from loop_ends[OF assms this, of ?s "Suc (unat (bytes_left (instr s)))"]
  obtain c l' s' where "noinit_loop (Suc (unat (bytes_left (instr s)))) d rec E ?l ?s = Some (c, l', s')"
    "frame p (p + n) s s'" "left (instr s') \<le> left (instr s)" by auto
  then show "ends p (p + n) s (noinit_body d rec E fs p s)"
    by (cases c) (auto simp: noinit_body_def DS_RETURN_ERROR_def)
qed

end

lemma pb_decode_noinit_safe:
  "static_msg_ok fs n \<Longrightarrow> 2 * msg_depth fs < d \<Longrightarrow> 0 < p \<Longrightarrow> safe p (p + n) (pb_decode_noinit d E fs p)"
proof (induction d arbitrary: fs n p)
  case (Suc d)
  have "safe_decoder (pb_decode_noinit d E) d" by unfold_locales (rule Suc.IH)
  from safe_decoder.body_safe[OF this Suc.prems(1) _ Suc.prems(3)] Suc.prems(2) show ?case
    by (simp add: safe_def)
qed simp

interpretation sdec: safe_decoder "pb_decode_noinit d E" E d for d E
  by unfold_locales (rule pb_decode_noinit_safe)

text \<open>C4. Decoding any input into a message with static fields only is memory safe and terminates:
  \<open>pb_decode\<close> returns, writes only inside the structure, neither allocates nor frees, and never
  moves the stream back. The structure needs only to have the layout that the descriptors say.\<close>

theorem pb_decode_contained:
  assumes "static_msg_ok fs n" and "2 * msg_depth fs < d" and "0 < p"
  shows "\<exists>ok s'. pb_decode d E fs p s = Some (ok, s') \<and>
    (\<forall>x. x < p \<or> p + n \<le> x \<longrightarrow> dmem s' x = dmem s x) \<and>
    blocks s' = blocks s \<and> bytes_left (instr s') \<le> bytes_left (instr s)"
proof -
  obtain ok s' where "pb_decode d E fs p s = Some (ok, s')" "frame p (p + n) s s'" "left (instr s') \<le> left (instr s)"
    using sdec.decode_with_safe[OF assms, of E] unfolding safe_def pb_decode_def by blast
  then show ?thesis by (auto simp: frame_def word_le_nat_alt)
qed

end
