(* ===== verification/FBase64.thy ===== *)
theory FBase64
  imports Prelude
begin

text \<open>
  The base64 routines of \<^verbatim>\<open>SocketRocket/fbase64.c\<close>, with which the Firebase database client
  encodes the keys of its web socket handshake, and the proof that the encoder \<open>f_b64_ntop\<close>
  writes what RFC 1521 says.

  Source and target are addresses in one memory. \<open>char\<close> is a byte, \<open>size_t\<close> a 64-bit word,
  \<open>u_int\<close> a 32-bit word. The decoder reads its source up to a terminator, which may be missing,
  so its loops are partial functions: \<open>None\<close> is a run that does not end. \<open>isspace\<close> is the
  one of the C locale.

  The reference \<open>base64\<close> takes the input in groups of 24 bits and writes each group in base 64;
  it uses division and remainder, no shifts.
\<close>

section \<open>The C library\<close>

definition chars :: "string \<Rightarrow> byte list" where "chars s = map of_char s"

definition isspace :: "byte \<Rightarrow> bool" where
  "isspace ch \<longleftrightarrow> ch = 32 \<or> 9 \<le> ch \<and> ch \<le> 13"

fun strchr :: "byte list \<Rightarrow> byte \<Rightarrow> nat option" where
  "strchr [] ch = None"
| "strchr (c # cs) ch = (if c = ch then Some 0 else map_option Suc (strchr cs ch))"

section \<open>The alphabet\<close>

definition Base64 :: "byte list" where
  "Base64 = chars ''ABCDEFGHIJKLMNOPQRSTUVWXYZabcdefghijklmnopqrstuvwxyz0123456789+/''"

definition Pad64 :: byte where "Pad64 = 61"

definition sextet :: "byte \<Rightarrow> byte" where "sextet v = Base64 ! unat v"

section \<open>Encoding\<close>

definition out0 :: "byte \<Rightarrow> byte" where "out0 i0 = drop_bit 2 i0"
definition out1 :: "byte \<Rightarrow> byte \<Rightarrow> byte" where "out1 i0 i1 = push_bit 4 (i0 AND 3) + drop_bit 4 i1"
definition out2 :: "byte \<Rightarrow> byte \<Rightarrow> byte" where "out2 i1 i2 = push_bit 2 (i1 AND 15) + drop_bit 6 i2"
definition out3 :: "byte \<Rightarrow> byte" where "out3 i2 = i2 AND 63"

function ntop_loop ::
  "addr \<Rightarrow> 64 word \<Rightarrow> addr \<Rightarrow> 64 word \<Rightarrow> 64 word \<Rightarrow> mem \<Rightarrow> (addr \<times> 64 word \<times> 64 word) option \<times> mem" where
  "ntop_loop src srclength target targsize datalength m =
     (if 2 < srclength
      then let i0 = m src; i1 = m (src + 1); i2 = m (src + 2) in
        if datalength + 4 > targsize then (None, m)
        else ntop_loop (src + 3) (srclength - 3) target targsize (datalength + 4)
               (stores m (target + uint datalength)
                  [sextet (out0 i0), sextet (out1 i0 i1), sextet (out2 i1 i2), sextet (out3 i2)])
      else (Some (src, srclength, datalength), m))"
  by pat_completeness auto
termination
  by (relation "measure (\<lambda>(src, n, t, ts, dl, m). unat n)")
     (auto simp: word_less_nat_alt unat_sub word_le_nat_alt)

declare ntop_loop.simps [simp del]

text \<open>The code after the loop: padding and the terminator.\<close>

definition ntop_tail :: "addr \<Rightarrow> 64 word \<Rightarrow> addr \<Rightarrow> 64 word \<Rightarrow> 64 word \<Rightarrow> mem \<Rightarrow> int \<times> mem" where
  "ntop_tail src srclength target targsize datalength m =
     (case (if srclength \<noteq> 0
            then let i0 = m src; i1 = (if srclength = 2 then m (src + 1) else 0) in
              if datalength + 4 > targsize then None
              else Some (datalength + 4, stores m (target + uint datalength)
                     [sextet (out0 i0), sextet (out1 i0 i1),
                      if srclength = 1 then Pad64 else sextet (out2 i1 0), Pad64])
            else Some (datalength, m)) of
        None \<Rightarrow> (-1, m)
      | Some (datalength, m) \<Rightarrow>
          if datalength \<ge> targsize then (-1, m)
          else (sint (ucast datalength :: 32 word), m(target + uint datalength := 0)))"

definition f_b64_ntop :: "addr \<Rightarrow> 64 word \<Rightarrow> addr \<Rightarrow> 64 word \<Rightarrow> mem \<Rightarrow> int \<times> mem" where
  "f_b64_ntop src srclength target targsize m =
     (case ntop_loop src srclength target targsize 0 m of
        (None, m) \<Rightarrow> (-1, m)
      | (Some (src, srclength, datalength), m) \<Rightarrow> ntop_tail src srclength target targsize datalength m)"

section \<open>Decoding\<close>

definition pton_char ::
  "addr \<Rightarrow> 64 word \<Rightarrow> byte \<Rightarrow> 32 word \<Rightarrow> 32 word \<Rightarrow> mem \<Rightarrow> (32 word \<times> 32 word \<times> mem) option" where
  "pton_char target targsize v state tarindex m =
     (let tgt = target \<noteq> NULL;
          at = target + uint tarindex; at1 = target + uint (tarindex + 1);
          big = (ucast tarindex :: 64 word) \<ge> targsize; big1 = (ucast (tarindex + 1) :: 64 word) \<ge> targsize in
      if state = 0
      then if tgt \<and> big then None
           else Some (1, tarindex, if tgt then m(at := push_bit 2 v) else m)
      else if state = 1
      then if tgt \<and> big1 then None
           else Some (2, tarindex + 1,
                  if tgt then m(at := m at OR drop_bit 4 v, at1 := push_bit 4 (v AND 15)) else m)
      else if state = 2
      then if tgt \<and> big1 then None
           else Some (3, tarindex + 1,
                  if tgt then m(at := m at OR drop_bit 2 v, at1 := push_bit 6 (v AND 3)) else m)
      else if state = 3
      then if tgt \<and> big then None
           else Some (0, tarindex + 1, if tgt then m(at := m at OR v) else m)
      else Some (state, tarindex, m))"

partial_function (option) pton_loop ::
  "addr \<Rightarrow> 64 word \<Rightarrow> addr \<Rightarrow> 32 word \<Rightarrow> 32 word \<Rightarrow> mem \<Rightarrow>
    ((byte \<times> addr \<times> 32 word \<times> 32 word) option \<times> mem) option" where
  "pton_loop target targsize src state tarindex m =
     (let ch = m src; src = src + 1 in
      if ch = 0 then Some (Some (ch, src, state, tarindex), m)
      else if isspace ch then pton_loop target targsize src state tarindex m
      else if ch = Pad64 then Some (Some (ch, src, state, tarindex), m)
      else case strchr Base64 ch of
             None \<Rightarrow> Some (None, m)
           | Some pos \<Rightarrow>
               (case pton_char target targsize (of_nat pos) state tarindex m of
                  None \<Rightarrow> Some (None, m)
                | Some (state, tarindex, m) \<Rightarrow> pton_loop target targsize src state tarindex m))"

partial_function (option) skip_spaces :: "mem \<Rightarrow> byte \<Rightarrow> addr \<Rightarrow> (byte \<times> addr) option" where
  "skip_spaces m ch src =
     (if ch = 0 \<or> \<not> isspace ch then Some (ch, src) else skip_spaces m (m src) (src + 1))"

definition pton_pad1 :: "addr \<Rightarrow> byte \<Rightarrow> addr \<Rightarrow> 32 word \<Rightarrow> mem \<Rightarrow> int option" where
  "pton_pad1 target ch src tarindex m =
     (case skip_spaces m ch src of
        None \<Rightarrow> None
      | Some (ch, src) \<Rightarrow>
          Some (if ch \<noteq> 0 then -1
                else if target \<noteq> NULL \<and> m (target + uint tarindex) \<noteq> 0 then -1
                else sint tarindex))"

text \<open>The code after the loop.\<close>

definition pton_end :: "addr \<Rightarrow> byte \<Rightarrow> addr \<Rightarrow> 32 word \<Rightarrow> 32 word \<Rightarrow> mem \<Rightarrow> int option" where
  "pton_end target ch src state tarindex m =
     (if ch = Pad64
      then let ch = m src; src = src + 1 in
        if state = 0 \<or> state = 1 then Some (-1)
        else if state = 2
        then case skip_spaces m ch src of
               None \<Rightarrow> None
             | Some (ch, src) \<Rightarrow>
                 if ch \<noteq> Pad64 then Some (-1) else pton_pad1 target (m src) (src + 1) tarindex m
        else if state = 3 then pton_pad1 target ch src tarindex m
        else Some (sint tarindex)
      else Some (if state \<noteq> 0 then -1 else sint tarindex))"

definition f_b64_pton :: "addr \<Rightarrow> addr \<Rightarrow> 64 word \<Rightarrow> mem \<Rightarrow> (int \<times> mem) option" where
  "f_b64_pton src target targsize m =
     (case pton_loop target targsize src 0 0 m of
        None \<Rightarrow> None
      | Some (None, m) \<Rightarrow> Some (-1, m)
      | Some (Some (ch, src, state, tarindex), m) \<Rightarrow>
          map_option (\<lambda>r. (r, m)) (pton_end target ch src state tarindex m))"

section \<open>Reference\<close>

definition digit :: "nat \<Rightarrow> nat \<Rightarrow> byte" where "digit n k = Base64 ! (n div 64 ^ k mod 64)"

definition group24 :: "byte \<Rightarrow> byte \<Rightarrow> byte \<Rightarrow> nat" where
  "group24 a b c = 65536 * unat a + 256 * unat b + unat c"

fun base64 :: "byte list \<Rightarrow> byte list" where
  "base64 [] = []"
| "base64 [a] = [digit (group24 a 0 0) 3, digit (group24 a 0 0) 2, Pad64, Pad64]"
| "base64 [a, b] = [digit (group24 a b 0) 3, digit (group24 a b 0) 2, digit (group24 a b 0) 1, Pad64]"
| "base64 (a # b # c # xs) =
     (let n = group24 a b c in [digit n 3, digit n 2, digit n 1, digit n 0]) @ base64 xs"

lemma length_base64: "length (base64 xs) = 4 * ((length xs + 2) div 3)"
proof (induction xs rule: base64.induct)
  case (4 a b c xs)
  have "(length xs + 2 + 3) div 3 = (length xs + 2) div 3 + 1" by simp
  with 4 show ?case by (simp add: Let_def)
qed simp_all

lemma and_masks: "(w :: byte) AND 3 = w mod 4" "(w :: byte) AND 15 = w mod 16" "(w :: byte) AND 63 = w mod 64"
proof -
  have "w AND 3 = take_bit 2 w" "w AND 15 = take_bit 4 w" "w AND 63 = take_bit 6 w"
    by (simp_all add: take_bit_eq_mask mask_eq_exp_minus_1)
  then show "(w :: byte) AND 3 = w mod 4" "(w :: byte) AND 15 = w mod 16" "(w :: byte) AND 63 = w mod 64"
    by (simp_all add: take_bit_eq_mod)
qed

lemma unat_out:
  "unat (out0 a) = unat a div 4"
  "unat (out1 a b) = 16 * (unat a mod 4) + unat b div 16"
  "unat (out2 b c) = 4 * (unat b mod 16) + unat c div 64"
  "unat (out3 c) = unat c mod 64"
proof -
  note b = unat_bound_8[of a] unat_bound_8[of b] unat_bound_8[of c]
  show "unat (out0 a) = unat a div 4" by (simp add: out0_def drop_bit_eq_div unat_div)
  show "unat (out3 c) = unat c mod 64" by (simp add: out3_def and_masks unat_mod)
  show "unat (out1 a b) = 16 * (unat a mod 4) + unat b div 16"
    using b by (simp add: out1_def push_bit_eq_mult drop_bit_eq_div and_masks unat_word_ariths unat_div unat_mod)
  show "unat (out2 b c) = 4 * (unat b mod 16) + unat c div 64"
    using b by (simp add: out2_def push_bit_eq_mult drop_bit_eq_div and_masks unat_word_ariths unat_div unat_mod)
qed

lemma digits:
  fixes w x y z :: nat
  assumes "w < 64" "x < 64" "y < 64" "z < 64"
  shows "(262144 * w + 4096 * x + 64 * y + z) div 262144 mod 64 = w"
    "(262144 * w + 4096 * x + 64 * y + z) div 4096 mod 64 = x"
    "(262144 * w + 4096 * x + 64 * y + z) div 64 mod 64 = y"
    "(262144 * w + 4096 * x + 64 * y + z) mod 64 = z"
proof -
  let ?n = "262144 * w + 4096 * x + 64 * y + z"
  have 1: "?n = 64 * (4096 * w + 64 * x + y) + z" by simp
  have 2: "4096 * w + 64 * x + y = 64 * (64 * w + x) + y" by simp
  have "?n div 64 = 4096 * w + 64 * x + y" "?n mod 64 = z" using assms(4) unfolding 1 by (simp, simp only: mod_mult_self4 mod_less)
  moreover have "(4096 * w + 64 * x + y) div 64 = 64 * w + x" "(4096 * w + 64 * x + y) mod 64 = y"
    using assms(3) unfolding 2 by (simp, simp only: mod_mult_self4 mod_less)
  moreover have "(64 * w + x) div 64 = w" "(64 * w + x) mod 64 = x" using assms(2) by simp_all
  moreover have "?n div 4096 = ?n div 64 div 64" "?n div 262144 = ?n div 64 div 64 div 64" by (simp_all add: div_mult2_eq[symmetric])
  ultimately show "?n div 262144 mod 64 = w" "?n div 4096 mod 64 = x" "?n div 64 mod 64 = y" "?n mod 64 = z"
    using assms(1) by (simp_all only: mod_less)
qed

lemma lt64: "q < 4 \<Longrightarrow> r < 16 \<Longrightarrow> 16 * q + r < (64 :: nat)" and lt64': "r < 16 \<Longrightarrow> q < 4 \<Longrightarrow> 4 * r + q < (64 :: nat)"
  by linarith+

lemma sextet_digit:
  "sextet (out0 a) = digit (group24 a b c) 3" "sextet (out1 a b) = digit (group24 a b c) 2"
  "sextet (out2 b c) = digit (group24 a b c) 1" "sextet (out3 c) = digit (group24 a b c) 0"
proof -
  note b = unat_bound_8[of a] unat_bound_8[of b] unat_bound_8[of c]
  have e: "group24 a b c = 262144 * (unat a div 4) + 4096 * (16 * (unat a mod 4) + unat b div 16) +
      64 * (4 * (unat b mod 16) + unat c div 64) + unat c mod 64"
  proof -
    have "65536 * i + 256 * j + k = 262144 * p + 4096 * (16 * q + r) + 64 * (4 * s + t) + u"
      if "4 * p + q = i" "16 * r + s = j" "64 * t + u = k" for i j k p q r s t u :: nat
      unfolding that[symmetric] by simp
    then show ?thesis unfolding group24_def by (simp only: mult_div_mod_eq)
  qed
  have lt: "unat a div 4 < 64" "16 * (unat a mod 4) + unat b div 16 < 64" "4 * (unat b mod 16) + unat c div 64 < 64"
    "unat c mod 64 < 64"
    using b mod_less_divisor[of 4 "unat a"] mod_less_divisor[of 16 "unat b"]
      lt64[of "unat a mod 4" "unat b div 16"] lt64'[of "unat b mod 16" "unat c div 64"]
    by (simp_all add: less_mult_imp_div_less)
  note d = digits[OF lt, folded e]
  have pow: "(64 :: nat) ^ 3 = 262144" "(64 :: nat) ^ 2 = 4096" "(64 :: nat) ^ 1 = 64" "(64 :: nat) ^ 0 = 1" by simp_all
  show "sextet (out0 a) = digit (group24 a b c) 3" "sextet (out1 a b) = digit (group24 a b c) 2"
  "sextet (out2 b c) = digit (group24 a b c) 1" "sextet (out3 c) = digit (group24 a b c) 0"
    using d by (simp_all only: sextet_def digit_def unat_out pow div_by_1)
qed

section \<open>The encoder meets the reference\<close>

lemma take_loads_3:
  assumes "loads m src (Suc (Suc (Suc n))) = a # b # c # xs"
  shows "m src = a" "m (src + 1) = b" "m (src + 2) = c" "loads m (src + 3) n = xs"
  using assms by (auto simp: algebra_simps)

definition quad64 :: "byte \<Rightarrow> byte \<Rightarrow> byte \<Rightarrow> byte list" where
  "quad64 a b c = [sextet (out0 a), sextet (out1 a b), sextet (out2 b c), sextet (out3 c)]"

lemma length_quad64 [simp]: "length (quad64 a b c) = 4" by (simp add: quad64_def)

lemma base64_nonempty: "base64 (a # b # c # xs) = quad64 a b c @ base64 xs"
  by (simp add: Let_def quad64_def sextet_digit(1)[of a b c] sextet_digit(2)[of a b c] sextet_digit(3)[of b c a] sextet_digit(4)[of c a b])

text \<open>The writes of the encoder stay in the buffer.\<close>

lemma dl_step:
  assumes "\<not> targsize < dl + 4" "unat dl + 4 < 2 ^ 64"
  shows "unat (dl + 4 :: 64 word) = unat dl + 4" "uint (dl + 4) = uint dl + 4" "uint dl + 4 \<le> uint targsize"
proof -
  have "unat (dl + of_nat 4) = unat dl + 4" by (rule unat_plus_64[OF assms(2)])
  then show u: "unat (dl + 4) = unat dl + 4" by simp
  then show "uint (dl + 4) = uint dl + 4" by (metis of_nat_add of_nat_numeral uint_nat)
  with assms(1) show "uint dl + 4 \<le> uint targsize" by (simp add: word_less_def)
qed

lemma ntop_loop_short: "length xs < 3 \<Longrightarrow> length xs = unat n \<Longrightarrow> ntop_loop src n target ts dl m = (Some (src, n, dl), m)"
  by (subst ntop_loop.simps) (simp add: word_less_nat_alt)

definition apart :: "addr \<Rightarrow> nat \<Rightarrow> addr \<Rightarrow> 64 word \<Rightarrow> bool" where
  "apart src n target targsize \<longleftrightarrow> src + int n \<le> target \<or> target + uint targsize \<le> src"

lemma take_3: "take (3 * Suc k) (a # b # c # xs) = a # b # c # take (3 * k) xs"
proof -
  have "3 * Suc k = Suc (Suc (Suc (3 * k)))" by simp
  then show ?thesis by (simp only: take_Suc_Cons)
qed

lemma div3_step: "length (a # b # c # xs) div 3 = Suc (length xs div 3)"
  by simp

lemma ntop_loop_step:
  assumes "loads m src (length (a # b # c # xs)) = a # b # c # xs" "length (a # b # c # xs) = unat n"
  shows "ntop_loop src n target ts dl m =
    (if ts < dl + 4 then (None, m)
     else ntop_loop (src + 3) (n - 3) target ts (dl + 4)
            (stores m (target + uint dl) (quad64 a b c)))"
proof -
  have "2 < n" using assms(2) by (simp add: word_less_nat_alt)
  moreover have "m src = a" "m (src + 1) = b" "m (src + 2) = c"
    using take_loads_3[of m src "length xs" a b c xs] assms(1) by simp_all
  ultimately show ?thesis by (subst ntop_loop.simps) (simp add: Let_def quad64_def)
qed

lemma ntop_loop_rest:
  assumes "loads m src (length (a # b # c # xs)) = a # b # c # xs" "length (a # b # c # xs) = unat (n :: 64 word)"
    and "apart src (length (a # b # c # xs)) target ts" "\<not> ts < (dl :: 64 word) + 4" "unat dl + 4 < 2 ^ 64" "length ys = 4"
  shows "loads (stores m (target + uint dl) ys) (src + 3) (length xs) = xs" "length xs = unat (n - 3)"
    "apart (src + 3) (length xs) target ts"
proof -
  note d = dl_step[OF assms(4,5)]
  have "loads m (src + 3) (length xs) = xs" using take_loads_3(4)[of m src "length xs" a b c xs] assms(1) by simp
  moreover have "src + 3 + int (length xs) \<le> target + uint dl \<or> target + uint dl + int (length ys) \<le> src + 3"
  proof -
    have "int (length (a # b # c # xs)) = int (length xs) + 3" "int (length ys) = 4" using assms(6) by simp_all
    with assms(3) d(3) uint_nonnegative[of dl] show ?thesis unfolding apart_def by linarith
  qed
  ultimately show "loads (stores m (target + uint dl) ys) (src + 3) (length xs) = xs"
    by (simp add: loads_stores_disjoint)
  have "3 \<le> n" using assms(2) by (simp add: word_le_nat_alt)
  then show "length xs = unat (n - 3)" using assms(2) by (simp add: unat_sub)
  show "apart (src + 3) (length xs) target ts" using assms(3) by (auto simp: apart_def)
qed

lemma ntop_loop_frame:
  assumes "loads m src (length xs) = xs" "length xs = unat n" "apart src (length xs) target ts"
    and "unat dl + 4 * (length xs div 3) + 4 < 2 ^ 64" "x < target \<or> target + uint ts \<le> x"
  shows "snd (ntop_loop src n target ts dl m) x = m x"
  using assms
proof (induction xs arbitrary: m src n dl rule: base64.induct)
  case (4 a b c xs)
  show ?case
  proof (cases "ts < dl + 4")
    case False
    have dl: "unat dl + 4 < 2 ^ 64" using 4(5) by simp
    note r = ntop_loop_rest[OF 4(2-4) False dl, of "quad64 a b c"]
      and d = dl_step[OF False dl] and k = 4(5,6)[unfolded div3_step]
    let ?m = "stores m (target + uint dl) (quad64 a b c)"
    have "snd (ntop_loop (src + 3) (n - 3) target ts (dl + 4) ?m) x = ?m x"
      by (rule 4(1)) (use r d k in simp_all)
    moreover have "?m x = m x" using 4(6) d(3) uint_nonnegative[of dl] by (intro stores_outside) (unfold length_quad64, linarith)
    ultimately show ?thesis using False by (simp add: ntop_loop_step[OF 4(2,3)])
  qed (simp add: ntop_loop_step[OF 4(2,3)])
qed (simp_all add: ntop_loop_short[of "[]"] ntop_loop_short[of "[a]" for a] ntop_loop_short[of "[a, b]" for a b])

lemma ntop_loop_full:
  assumes "loads m src (length xs) = xs" "length xs = unat n" "apart src (length xs) target ts"
    and "unat dl + 4 * (length xs div 3) + 4 < 2 ^ 64" "unat ts < unat dl + 4 * (length xs div 3)" "unat dl \<le> unat ts"
  shows "fst (ntop_loop src n target ts dl m) = None"
  using assms
proof (induction xs arbitrary: m src n dl rule: base64.induct)
  case (4 a b c xs)
  show ?case
  proof (cases "ts < dl + 4")
    case False
    have dl: "unat dl + 4 < 2 ^ 64" using 4(5) by simp
    note r = ntop_loop_rest[OF 4(2-4) False dl, of "quad64 a b c"]
      and d = dl_step[OF False dl] and k = 4(5,6)[unfolded div3_step]
    let ?m = "stores m (target + uint dl) (quad64 a b c)"
    have "unat dl + 4 \<le> unat ts" using d(1) False by (simp add: word_less_nat_alt)
    then have "fst (ntop_loop (src + 3) (n - 3) target ts (dl + 4) ?m) = None"
      by (intro 4(1)) (use r d k in simp_all)
    then show ?thesis using False by (simp add: ntop_loop_step[OF 4(2,3)])
  qed (simp add: ntop_loop_step[OF 4(2,3)])
qed simp_all

lemma ntop_loop_spec:
  assumes "loads m src (length xs) = xs" "length xs = unat n" "apart src (length xs) target ts"
    and "unat dl + 4 * (length xs div 3) + 4 < 2 ^ 64" "unat dl + 4 * (length xs div 3) \<le> unat ts"
  shows "ntop_loop src n target ts dl m =
    (Some (src + int (3 * (length xs div 3)), of_nat (length xs mod 3), dl + of_nat (4 * (length xs div 3))),
     stores m (target + uint dl) (base64 (take (3 * (length xs div 3)) xs)))"
  using assms
proof (induction xs arbitrary: m src n dl rule: base64.induct)
  case (4 a b c xs)
  have dl: "unat dl + 4 < 2 ^ 64" using 4(5) by simp
  have "unat (dl + of_nat 4) = unat dl + 4" by (rule unat_plus_64[OF dl])
  then have False': "\<not> ts < dl + 4" using 4(6)[unfolded div3_step] by (simp add: word_less_nat_alt)
  let ?ys = "quad64 a b c"
  note r = ntop_loop_rest[OF 4(2-4) False' dl, of ?ys] and d = dl_step[OF False' dl] and k = 4(5,6)[unfolded div3_step]
  let ?m = "stores m (target + uint dl) ?ys" and ?k = "length xs div 3"
  have "ntop_loop (src + 3) (n - 3) target ts (dl + 4) ?m =
     (Some (src + 3 + int (3 * ?k), of_nat (length xs mod 3), (dl + 4) + of_nat (4 * ?k)),
      stores ?m (target + uint (dl + 4)) (base64 (take (3 * ?k) xs)))"
    by (rule 4(1)) (use r d k in simp_all)
  moreover have e: "base64 (take (3 * Suc ?k) (a # b # c # xs)) = quad64 a b c @ base64 (take (3 * ?k) xs)"
    by (simp only: take_3 base64_nonempty)
  moreover have s: "stores m (target + uint dl) (?ys @ zs) = stores ?m (target + uint (dl + 4)) zs" for zs
    using d(2) by (simp add: stores_append algebra_simps)
  moreover have "length (a # b # c # xs) mod 3 = length xs mod 3" by simp
  ultimately show ?case
    using False' unfolding ntop_loop_step[OF 4(2,3)] div3_step e s by (simp add: algebra_simps)
qed (auto simp: word_unat_eq_iff ntop_loop_short[of "[]"] ntop_loop_short[of "[a]" for a] ntop_loop_short[of "[a, b]" for a b])


lemma base64_append: "length xs mod 3 = 0 \<Longrightarrow> base64 (xs @ ys) = base64 xs @ base64 ys"
proof (induction xs rule: base64.induct)
  case (4 a b c xs)
  then have "length xs mod 3 = 0" by (simp add: mod_Suc split: if_splits)
  with 4(1) show ?case by (simp only: append_Cons base64_nonempty append_assoc)
qed (auto simp: mod_Suc)

text \<open>The last one or two bytes.\<close>

lemma base64_tail:
  "base64 [a] = [sextet (out0 a), sextet (out1 a 0), Pad64, Pad64]"
  "base64 [a, b] = [sextet (out0 a), sextet (out1 a b), sextet (out2 b 0), Pad64]"
  using sextet_digit(1)[of a 0 0] sextet_digit(2)[of a 0 0] sextet_digit(1)[of a b 0] sextet_digit(2)[of a b 0]
    sextet_digit(3)[of b 0 a] by simp_all

lemma sint_of_length:
  assumes "unat (w :: 64 word) < 2 ^ 31"
  shows "sint (ucast w :: 32 word) = int (unat w)"
proof -
  have "unat (ucast w :: 32 word) = unat w" using assms by (simp add: unsigned_ucast_eq take_bit_nat_eq_self)
  then have "uint (ucast w :: 32 word) = int (unat w)" by (metis uint_nat)
  then have "sint (ucast w :: 32 word) = signed_take_bit 31 (int (unat w))" by (simp only: sint_uint) simp
  also have "\<dots> = int (unat w)"
  proof (rule signed_take_bit_int_eq_self)
    have "unat w < 2147483648" using assms by simp
    then have "int (unat w) < 2147483648" by linarith
    moreover have "(2 :: int) ^ 31 = 2147483648" by simp
    ultimately show "int (unat w) < 2 ^ 31" by presburger
  qed (rule order_trans[of _ 0], simp, rule of_nat_0_le_iff)
  finally show ?thesis .
qed

lemma ntop_tail_spec:
  assumes "loads m src (length rest) = rest" "n = of_nat (length rest)" "length rest < 3" "unat dl + 4 < 2 ^ 31" "unat dl \<le> unat ts"
  shows "unat dl + length (base64 rest) < unat ts \<Longrightarrow>
      ntop_tail src n target ts dl m =
        (int (unat dl + length (base64 rest)), stores m (target + uint dl) (base64 rest @ [0]))"
    and "unat ts \<le> unat dl + length (base64 rest) \<Longrightarrow> fst (ntop_tail src n target ts dl m) = -1"
    and "x < target \<or> target + uint ts \<le> x \<Longrightarrow> snd (ntop_tail src n target ts dl m) x = m x"
proof -
  have d: "unat (dl + 4) = unat dl + 4" using unat_plus_64[of dl 4] assms(4) by simp
  have d': "uint (dl + 4) = uint dl + 4" by (metis d of_nat_add of_nat_numeral uint_nat)
  have s: "sint (ucast dl :: 32 word) = int (unat dl)" "sint (ucast (dl + 4) :: 32 word) = int (unat dl + 4)"
    using assms(4) d by (simp_all add: sint_of_length)
  consider "rest = []" | a where "rest = [a]" | a b where "rest = [a, b]"
    using assms(3) by (cases rest; cases "tl rest"; cases "tl (tl rest)") auto
  note cases3 = this
  show "unat dl + length (base64 rest) < unat ts \<Longrightarrow>
      ntop_tail src n target ts dl m =
        (int (unat dl + length (base64 rest)), stores m (target + uint dl) (base64 rest @ [0]))"
    using cases3
    by cases (use assms(1,2) d d' s in \<open>simp_all add: ntop_tail_def Let_def word_less_nat_alt word_le_nat_alt base64_tail
        del: base64.simps, simp_all add: stores_append algebra_simps\<close>)
  show "unat ts \<le> unat dl + length (base64 rest) \<Longrightarrow> fst (ntop_tail src n target ts dl m) = -1"
    using cases3
    by cases (use assms(1,2) d s in \<open>auto simp: ntop_tail_def Let_def word_less_nat_alt word_le_nat_alt\<close>)
  have st: "stores m (target + uint dl) ys x = m x"
    if "x < target \<or> target + uint ts \<le> x" "length ys = 4" "\<not> ts < dl + 4" for ys
  proof -
    have "uint dl + 4 \<le> uint ts" using that(3) d' by (simp add: word_less_def)
    with that(1,2) uint_nonnegative[of dl] show ?thesis by (intro stores_outside) (simp only:, linarith)
  qed
  have up: "x \<noteq> target + uint w" if "x < target \<or> target + uint ts \<le> x" "\<not> ts \<le> w" for w :: "64 word"
    using that uint_nonnegative[of w] unfolding word_le_def by linarith
  show "x < target \<or> target + uint ts \<le> x \<Longrightarrow> snd (ntop_tail src n target ts dl m) x = m x"
    using st up by (auto simp: ntop_tail_def Let_def simp del: stores.simps)
qed

text \<open>The whole function, on a source that does not overlap the target.\<close>

lemma ntop_result:
  assumes "loads m src (length xs) = xs" "length xs = unat n" "apart src (length xs) target ts"
    and "4 * ((length xs + 2) div 3) < 2 ^ 30"
  defines "need \<equiv> 4 * ((length xs + 2) div 3)"
  shows "need < unat ts \<Longrightarrow> f_b64_ntop src n target ts m = (int need, stores m target (base64 xs @ [0]))"
    and "unat ts \<le> need \<Longrightarrow> fst (f_b64_ntop src n target ts m) = -1"
    and "x < target \<or> target + uint ts \<le> x \<Longrightarrow> snd (f_b64_ntop src n target ts m) x = m x"
proof -
  let ?k = "length xs div 3"
  define full rest where "full = take (3 * ?k) xs" and "rest = drop (3 * ?k) xs"
  have lr: "length rest = length xs mod 3" by (simp add: rest_def minus_mult_div_eq_mod)
  have lf: "length full = 3 * ?k" by (simp add: full_def)
  have xs: "xs = full @ rest" by (simp add: full_def rest_def)
  have b64: "base64 xs = base64 full @ base64 rest" using lf by (subst xs, subst base64_append) auto
  have lb: "length (base64 full) = 4 * ?k" using length_base64[of full] unfolding lf by simp
  have need: "need = 4 * ?k + length (base64 rest)"
    using length_base64[of xs] lb b64 by (simp add: need_def)
  let ?m = "stores m target (base64 full)" and ?dl = "of_nat (4 * ?k) :: 64 word"
  have udl: "unat ?dl = 4 * ?k" using need assms(4) need_def by (intro unat_of_nat_64) simp
  then have idl: "uint ?dl = int (4 * ?k)" by (metis uint_nat)
  have small: "unat (0 :: 64 word) + 4 * ?k + 4 < 2 ^ 64" using need assms(4) by (simp add: need_def)
  have run: "f_b64_ntop src n target ts m = ntop_tail (src + int (3 * ?k)) (of_nat (length rest)) target ts ?dl ?m"
    if "4 * ?k \<le> unat ts"
    using ntop_loop_spec[OF assms(1-3) small] that by (simp add: f_b64_ntop_def full_def lr)
  have rest: "loads ?m (src + int (3 * ?k)) (length rest) = rest" if "4 * ?k \<le> unat ts"
  proof -
    have "int (4 * ?k) \<le> uint ts" using that by (metis of_nat_le_iff uint_nat)
    then have "src + int (3 * ?k) + int (length rest) \<le> target \<or> target + int (length (base64 full)) \<le> src + int (3 * ?k)"
      using assms(3) xs lf lb unfolding apart_def by (metis (no_types, opaque_lifting) add.assoc add_increasing2 add_left_mono
        length_append of_nat_0_le_iff of_nat_add order_trans)
    then have "loads ?m (src + int (3 * ?k)) (length rest) = loads m (src + int (3 * ?k)) (length rest)"
      by (rule loads_stores_disjoint)
    also have "\<dots> = rest"
    proof -
      have "loads m src (length full + length rest) = full @ rest" using assms(1) xs by (metis length_append)
      then have "loads m (src + int (length full)) (length rest) = rest" by (simp add: loads_append)
      then show ?thesis by (simp only: lf)
    qed
    finally show ?thesis .
  qed
  have tail: "length rest < 3" "unat ?dl + 4 < 2 ^ 31"
    using lr udl need assms(4) by (simp_all add: need_def)
  note spec = ntop_tail_spec[OF rest refl tail, unfolded udl idl]
  show "need < unat ts \<Longrightarrow> f_b64_ntop src n target ts m = (int need, stores m target (base64 xs @ [0]))"
    using run spec(1)[of ts target] by (simp add: need b64 stores_append lb algebra_simps)
  show "unat ts \<le> need \<Longrightarrow> fst (f_b64_ntop src n target ts m) = -1"
  proof (cases "4 * ?k \<le> unat ts")
    case True
    then show "unat ts \<le> need \<Longrightarrow> ?thesis" using run spec(2) by (simp add: need)
  next
    case False
    then have "fst (ntop_loop src n target ts 0 m) = None" by (intro ntop_loop_full[OF assms(1-3) small]) auto
    then show ?thesis by (auto simp: f_b64_ntop_def split: prod.splits option.splits)
  qed
  show "x < target \<or> target + uint ts \<le> x \<Longrightarrow> snd (f_b64_ntop src n target ts m) x = m x"
  proof -
    assume x: "x < target \<or> target + uint ts \<le> x"
    have loop: "snd (ntop_loop src n target ts 0 m) x = m x" by (rule ntop_loop_frame[OF assms(1-3) small x])
    show ?thesis
    proof (cases "4 * ?k \<le> unat ts")
      case True
      have "?m x = m x" using loop ntop_loop_spec[OF assms(1-3) small] True by (simp add: full_def)
      with run[OF True] spec(3)[OF True True x] show ?thesis by simp
    next
      case False
      then have "fst (ntop_loop src n target ts 0 m) = None" by (intro ntop_loop_full[OF assms(1-3) small]) auto
      with loop show ?thesis by (auto simp: f_b64_ntop_def split: prod.splits option.splits)
    qed
  qed
qed

section \<open>The properties of the encoder\<close>

text \<open>C5. The encoder writes the base64 text of RFC 1521 and a terminator and returns the length of the
  text when the buffer is large enough for both, and returns -1 otherwise. It never writes outside the
  buffer, also when it fails.\<close>

theorem f_b64_ntop_correct:
  assumes "loads m src (length xs) = xs" and "length xs = unat n" and "apart src (length xs) target ts"
    and "4 * ((length xs + 2) div 3) < 2 ^ 30"
  shows "\<exists>r m'. f_b64_ntop src n target ts m = (r, m') \<and>
    (if length (base64 xs) < unat ts
     then r = int (length (base64 xs)) \<and> m' = stores m target (base64 xs @ [0])
     else r = -1) \<and>
    (\<forall>x. x < target \<or> target + uint ts \<le> x \<longrightarrow> m' x = m x)"
proof -
  obtain r m' where "f_b64_ntop src n target ts m = (r, m')" by (cases "f_b64_ntop src n target ts m")
  with ntop_result[OF assms] show ?thesis by (auto simp: length_base64)
qed

theorem f_b64_ntop_correct_witness:
  "\<exists>r m'. f_b64_ntop 100 3 200 5 (stores (\<lambda>_. 0) 100 [77, 97, 110]) = (r, m') \<and>
    r = 4 \<and> m' = stores (stores (\<lambda>_. 0) 100 [77, 97, 110]) 200 (base64 [77, 97, 110] @ [0])"
proof -
  have "loads (stores (\<lambda>_. 0) 100 [77, 97, 110]) 100 (length [77, 97, 110 :: byte]) = [77, 97, 110]"
    by (simp add: loads_stores_same)
  from f_b64_ntop_correct[OF this, of 3 200 5] show ?thesis
    by (auto simp: apart_def length_base64 simp del: base64.simps stores.simps)
qed

text \<open>The buffer the callers of the encoder allocate for \<open>n\<close> bytes.\<close>

definition buffer_size :: "nat \<Rightarrow> nat" where
  "buffer_size n = (n * 3 + 2) div 2"

lemma buffer_size_iff:
  "4 * ((n + 2) div 3) < buffer_size n \<longleftrightarrow> n \<notin> {1, 2, 4, 5, 7, 10, 13}"
proof (cases "n < 18")
  case True
  have "list_all (\<lambda>n. (4 * ((n + 2) div 3) < buffer_size n) = (n \<notin> {1, 2, 4, 5, 7, 10, 13})) [0..<18]"
    by code_simp
  with True show ?thesis by (simp add: list_all_iff)
next
  case False
  have "3 * ((n + 2) div 3) \<le> n + 2" "n * 3 + 2 < 2 * buffer_size n + 2"
    using div_mult_mod_eq[of "n * 3 + 2" 2] mod_less_divisor[of 2 "n * 3 + 2"] times_div_less_eq_dividend[of 3 "n + 2"]
    unfolding buffer_size_def by linarith+
  with False show ?thesis by simp
qed

text \<open>With the buffer size that the callers compute, the encoder succeeds except for data of 1, 2, 4, 5,
  7, 10 or 13 bytes. It does for the 16 and 20 bytes of the web socket handshake.\<close>

theorem ntop_with_callers_buffer:
  assumes "loads m src (length xs) = xs" and "length xs = unat n"
    and "apart src (length xs) target (of_nat (buffer_size (length xs)))" and "length xs < 2 ^ 28"
  shows "fst (f_b64_ntop src n target (of_nat (buffer_size (length xs))) m) =
    (if length xs \<in> {1, 2, 4, 5, 7, 10, 13} then -1 else int (length (base64 xs)))"
proof -
  have s: "4 * ((length xs + 2) div 3) < 2 ^ 30"
    using assms(4) times_div_less_eq_dividend[of 3 "length xs + 2"] by simp
  have u: "unat (of_nat (buffer_size (length xs)) :: 64 word) = buffer_size (length xs)"
    using assms(4) by (intro unat_of_nat_64) (simp add: buffer_size_def)
  show ?thesis
    using ntop_result(1,2)[OF assms(1-3) s] buffer_size_iff[of "length xs"] unfolding u
    by (auto simp: length_base64 not_less)
qed

theorem ntop_with_callers_buffer_witness:
  "fst (f_b64_ntop 100 1 200 (of_nat (buffer_size 1)) (stores (\<lambda>_. 0) 100 [77])) = -1"
proof -
  have "loads (stores (\<lambda>_. 0) 100 [77]) 100 (length [77 :: byte]) = [77]"
    by (simp add: loads_stores_same)
  from ntop_with_callers_buffer[OF this, of 1 200] show ?thesis by (simp add: apart_def)
qed

end
