(* ===== verification/FBase64_Decode.thy ===== *)
theory FBase64_Decode
  imports FBase64
begin

text \<open>
  The decoder \<open>f_b64_pton\<close> accepts exactly the base64 texts: \<open>pton_list\<close> is the decoder on lists,
  \<open>pton_list_exact\<close> shows that it inverts the reference \<open>base64\<close>, and \<open>f_b64_pton_run\<close>
  that the C code on memory computes it.
\<close>

section \<open>The decoder on lists\<close>

text \<open>The bytes decoded so far, the number of characters in the open group, and the bits of the
  byte that is not complete.\<close>

type_synonym pton_acc = "byte list \<times> nat \<times> byte"

fun absorb :: "nat \<Rightarrow> byte \<Rightarrow> pton_acc \<Rightarrow> pton_acc option" where
  "absorb cap v (bs, st, x) =
     (if st = 0 then if cap \<le> length bs then None else Some (bs, 1, push_bit 2 v)
      else if st = 1
      then if cap \<le> length bs + 1 then None else Some (bs @ [x OR drop_bit 4 v], 2, push_bit 4 (v AND 15))
      else if st = 2
      then if cap \<le> length bs + 1 then None else Some (bs @ [x OR drop_bit 2 v], 3, push_bit 6 (v AND 3))
      else if cap \<le> length bs then None else Some (bs @ [x OR v], 0, 0))"

fun feed :: "nat \<Rightarrow> byte list \<Rightarrow> pton_acc \<Rightarrow> (pton_acc \<times> byte list option) option" where
  "feed cap [] a = Some (a, None)"
| "feed cap (c # cs) a =
     (if isspace c then feed cap cs a
      else if c = Pad64 then Some (a, Some cs)
      else case strchr Base64 c of
             None \<Rightarrow> None
           | Some v \<Rightarrow> (case absorb cap (of_nat v) a of None \<Rightarrow> None | Some a \<Rightarrow> feed cap cs a))"

definition pton_list :: "nat \<Rightarrow> byte list \<Rightarrow> byte list option" where
  "pton_list cap cs =
     (case feed cap cs ([], 0, 0) of
        None \<Rightarrow> None
      | Some ((bs, st, x), None) \<Rightarrow> if st = 0 then Some bs else None
      | Some ((bs, st, x), Some rest) \<Rightarrow>
          if x = 0 \<and> (st = 2 \<and> filter (\<lambda>c. \<not> isspace c) rest = [Pad64] \<or>
                      st = 3 \<and> filter (\<lambda>c. \<not> isspace c) rest = [])
          then Some bs else None)"

section \<open>The alphabet\<close>

lemma length_Base64 [simp]: "length Base64 = 64" by code_simp
lemma distinct_Base64: "distinct Base64" by code_simp
lemma Base64_plain: "list_all (\<lambda>c. \<not> isspace c \<and> c \<noteq> Pad64 \<and> c \<noteq> 0) Base64" by code_simp
lemma Pad64_plain [simp]: "\<not> isspace Pad64" "Pad64 \<noteq> 0" by code_simp+

lemma strchr_Some: "strchr cs c = Some i \<Longrightarrow> i < length cs \<and> cs ! i = c"
  by (induction cs arbitrary: i) (auto split: if_splits)

lemma strchr_nth: "distinct cs \<Longrightarrow> i < length cs \<Longrightarrow> strchr cs (cs ! i) = Some i"
proof (induction cs arbitrary: i)
  case (Cons c cs)
  then show ?case by (cases i) auto
qed simp

lemma strchr_Base64: "i < 64 \<Longrightarrow> strchr Base64 (Base64 ! i) = Some i"
  using strchr_nth[OF distinct_Base64] by simp

lemma Base64_char:
  "i < 64 \<Longrightarrow> \<not> isspace (Base64 ! i)" "i < 64 \<Longrightarrow> Base64 ! i \<noteq> Pad64" "i < 64 \<Longrightarrow> Base64 ! i \<noteq> 0"
  using Base64_plain by (auto simp: list_all_length)

lemma feed_sextet:
  "unat v < 64 \<Longrightarrow> feed cap (sextet v # cs) a = (case absorb cap v a of None \<Rightarrow> None | Some a \<Rightarrow> feed cap cs a)"
  by (simp add: sextet_def Base64_char strchr_Base64)

section \<open>Four characters are three bytes\<close>

lemma bit_high: "unat (v :: byte) < 64 \<Longrightarrow> 6 \<le> n \<Longrightarrow> bit v n = False"
proof -
  assume "unat v < 64" "6 \<le> n"
  then have "take_bit 6 v = v" by (intro take_bit_small) simp
  with \<open>6 \<le> n\<close> show ?thesis by (metis bit_take_bit_iff not_less)
qed

lemma bit_ge8: "8 \<le> n \<Longrightarrow> bit (v :: byte) n = False"
  using bit_imp_le_length[of v n] by auto

lemma less8: "n < (8 :: nat) \<longleftrightarrow> n = 0 \<or> n = 1 \<or> n = 2 \<or> n = 3 \<or> n = 4 \<or> n = 5 \<or> n = 6 \<or> n = 7"
  by auto

lemma byte_eqI: "(\<And>n. n < 8 \<Longrightarrow> bit a n = bit b n) \<Longrightarrow> a = (b :: byte)"
  by (rule bit_word_eqI) simp

lemma out1_or: "out1 a b = push_bit 4 (a AND 3) OR drop_bit 4 b"
  unfolding out1_def by (rule disjunctive_add) (auto simp: bit_simps dest: bit_imp_le_length)

lemma out2_or: "out2 b c = push_bit 2 (b AND 15) OR drop_bit 6 c"
  unfolding out2_def by (rule disjunctive_add) (auto simp: bit_simps dest: bit_imp_le_length)

lemma mask_bits: "bit (3 :: byte) n \<longleftrightarrow> n < 2" "bit (15 :: byte) n \<longleftrightarrow> n < 4" "bit (63 :: byte) n \<longleftrightarrow> n < 6"
proof -
  have "(3 :: byte) = mask 2" "(15 :: byte) = mask 4" "(63 :: byte) = mask 6" by (simp_all add: mask_eq_exp_minus_1)
  then show "bit (3 :: byte) n \<longleftrightarrow> n < 2" "bit (15 :: byte) n \<longleftrightarrow> n < 4" "bit (63 :: byte) n \<longleftrightarrow> n < 6"
    by (simp_all only: bit_mask_iff) auto
qed

lemma join_split:
  "push_bit 2 (out0 a) OR drop_bit 4 (out1 a b) = a"
  "push_bit 4 (out1 a b AND 15) OR drop_bit 2 (out2 b c) = b"
  "push_bit 6 (out2 b c AND 3) OR out3 c = c"
  unfolding out1_or out2_or out0_def out3_def
  by (rule byte_eqI; auto simp: bit_simps mask_bits bit_ge8 less8; simp add: eval_nat_numeral)+

lemma split_join:
  assumes "unat v0 < 64" "unat v1 < 64" "unat v2 < 64" "unat v3 < 64"
  shows "out0 (push_bit 2 v0 OR drop_bit 4 v1) = v0"
    "out1 (push_bit 2 v0 OR drop_bit 4 v1) (push_bit 4 (v1 AND 15) OR drop_bit 2 v2) = v1"
    "out2 (push_bit 4 (v1 AND 15) OR drop_bit 2 v2) (push_bit 6 (v2 AND 3) OR v3) = v2"
    "out3 (push_bit 6 (v2 AND 3) OR v3) = v3"
  unfolding out1_or out2_or out0_def out3_def
  by (rule byte_eqI; auto simp: assms[THEN bit_high] bit_simps mask_bits bit_ge8 less8; simp add: eval_nat_numeral)+

section \<open>What the decoder accepts\<close>

abbreviation solid :: "byte list \<Rightarrow> byte list" where "solid cs \<equiv> filter (\<lambda>c. \<not> isspace c) cs"

definition feed_end :: "(pton_acc \<times> byte list option) option \<Rightarrow> byte list option" where
  "feed_end r =
     (case r of
        None \<Rightarrow> None
      | Some ((bs, st, x), None) \<Rightarrow> if st = 0 then Some bs else None
      | Some ((bs, st, x), Some rest) \<Rightarrow>
          if x = 0 \<and> (st = 2 \<and> solid rest = [Pad64] \<or> st = 3 \<and> solid rest = []) then Some bs else None)"

lemma pton_list_end: "pton_list cap cs = feed_end (feed cap cs ([], 0, 0))"
  by (simp add: pton_list_def feed_end_def)

lemma feed_end_simps [simp]:
  "feed_end None = None"
  "feed_end (Some ((bs, st, x), None)) = (if st = 0 then Some bs else None)"
  "feed_end (Some ((bs, st, x), Some rest)) =
     (if x = 0 \<and> (st = 2 \<and> solid rest = [Pad64] \<or> st = 3 \<and> solid rest = []) then Some bs else None)"
  by (simp_all add: feed_end_def)

lemma feed_solid: "feed cap (solid cs) a = map_option (\<lambda>(a, r). (a, map_option solid r)) (feed cap cs a)"
proof (induction cs arbitrary: a)
  case (Cons c cs)
  then show ?case by (auto split: option.splits)
qed simp

lemma pton_list_solid: "pton_list cap (solid cs) = pton_list cap cs"
  by (auto simp: pton_list_end feed_solid feed_end_def split: option.splits)

lemma char_cases:
  obtains (pad) "c = Pad64" | (bad) "c \<noteq> Pad64" "strchr Base64 c = None" | (good) v where "unat v < 64" "c = sextet v"
proof (cases "strchr Base64 c")
  case None
  then show ?thesis using pad bad by blast
next
  case (Some i)
  from strchr_Some[OF this] have i: "i < 64" "Base64 ! i = c" by auto
  have "unat (of_nat i :: byte) = i" using i(1) by (simp add: unat_of_nat take_bit_nat_eq_self)
  with i show ?thesis using good[of "of_nat i"] by (simp add: sextet_def)
qed

lemma feed_pad: "feed cap (Pad64 # cs) a = Some (a, Some cs)" by simp

lemma feed_bad: "c \<noteq> Pad64 \<Longrightarrow> \<not> isspace c \<Longrightarrow> strchr Base64 c = None \<Longrightarrow> feed cap (c # cs) a = None" by simp

declare feed.simps(2) [simp del]

lemma out_zero [simp]: "out2 0 0 = 0" "out3 0 = 0" by (simp_all add: out2_def out3_def)

lemma unat_out_less: "unat (out0 a) < 64" "unat (out1 a b) < 64" "unat (out2 b c) < 64" "unat (out3 c) < 64"
  using unat_bound_8[of a] unat_bound_8[of b] unat_bound_8[of c]
    lt64[of "unat a mod 4" "unat b div 16"] lt64'[of "unat b mod 16" "unat c div 64"]
  by (simp_all add: unat_out less_mult_imp_div_less)

definition room :: "byte list \<Rightarrow> nat" where
  "room ys = length ys + (if length ys mod 3 = 0 then 0 else 1)"

lemma pton_accepts_base64:
  "length bs + room ys \<le> cap \<Longrightarrow> feed_end (feed cap (base64 ys) (bs, 0, x)) = Some (bs @ ys)"
proof (induction ys arbitrary: bs x rule: base64.induct)
  case (2 a)
  then show ?case
    using join_split(1)[of a 0] join_split(2)[of a 0 0]
    by (simp add: base64_tail feed_pad feed_sextet unat_out_less room_def del: base64.simps)
next
  case (3 a b)
  then show ?case
    using join_split(1)[of a b] join_split(2)[of a b 0] join_split(3)[of b 0]
    by (simp add: base64_tail feed_pad feed_sextet unat_out_less room_def del: base64.simps)
next
  case (4 a b c ys)
  from 4(2) have "length (bs @ [a, b, c]) + room ys \<le> cap" by (auto simp: room_def mod_Suc split: if_splits)
  from 4(1)[OF this, of 0] 4(2) show ?case
    using join_split(1)[of a b] join_split(2)[of a b c] join_split(3)[of b c]
    by (simp add: base64_nonempty quad64_def feed_pad feed_sextet unat_out_less room_def del: base64.simps)
qed simp


lemma feed_word:
  assumes "\<not> isspace c"
  shows "feed_end (feed cap (c # cs) a) = Some r \<longleftrightarrow>
    (c = Pad64 \<and> feed_end (Some (a, Some cs)) = Some r) \<or>
    (\<exists>v a'. unat v < 64 \<and> c = sextet v \<and> absorb cap v a = Some a' \<and> feed_end (feed cap cs a') = Some r)"
proof (cases c rule: char_cases)
  case pad
  have "sextet v \<noteq> Pad64" if "unat v < 64" for v using Base64_char(2)[OF that] by (simp add: sextet_def)
  with pad show ?thesis by (metis feed_pad)
next
  case bad
  have "strchr Base64 (sextet v) \<noteq> None" if "unat v < 64" for v using strchr_Base64[OF that] by (simp add: sextet_def)
  then have "c \<noteq> sextet v" if "unat v < 64" for v using that bad(2) by metis
  with bad assms show ?thesis by (auto simp: feed_bad)
next
  case (good v)
  have inj: "sextet w = sextet v \<Longrightarrow> w = v" if "unat w < 64" for w
    using that good(1) distinct_Base64 nth_eq_iff_index_eq[of Base64 "unat w" "unat v"]
    by (simp add: sextet_def word_unat_eq_iff[of w v])
  have "sextet v \<noteq> Pad64" using Base64_char(2)[OF good(1)] by (simp add: sextet_def)
  moreover have f: "feed cap (c # cs) a = (case absorb cap v a of None \<Rightarrow> None | Some a' \<Rightarrow> feed cap cs a')"
    unfolding good(2) by (rule feed_sextet[OF good(1)])
  ultimately show ?thesis
  proof (cases "absorb cap v a")
    case None
    with f inj good \<open>sextet v \<noteq> Pad64\<close> show ?thesis by (metis option.simps(3,4) feed_end_simps(1))
  next
    case (Some a')
    with f inj good \<open>sextet v \<noteq> Pad64\<close> show ?thesis by (metis option.inject option.simps(5))
  qed
qed

lemma pton_sound:
  assumes "list_all (\<lambda>c. \<not> isspace c) cs" "feed_end (feed cap cs (bs, 0, x)) = Some r" "length bs \<le> cap"
  shows "\<exists>ys. cs = base64 ys \<and> r = bs @ ys \<and> length bs + room ys \<le> cap"
  using assms
proof (induction cs arbitrary: bs x rule: length_induct)
  case (1 cs)
  show ?case
  proof (cases cs)
    case Nil
    with 1(3,4) show ?thesis by (intro exI[of _ "[]"]) (simp add: room_def)
  next
    case (Cons c0 cs1)
    with 1(2,3) obtain v0 where v0: "unat v0 < 64" "c0 = sextet v0" "length bs < cap"
      and f1: "feed_end (feed cap cs1 (bs, 1, push_bit 2 v0)) = Some r" "list_all (\<lambda>c. \<not> isspace c) cs1"
      by (auto simp: feed_word split: if_splits)
    then obtain c1 cs2 where cs1: "cs1 = c1 # cs2" by (cases cs1) auto
    let ?a = "\<lambda>v1. push_bit 2 v0 OR drop_bit 4 v1"
    from f1 cs1 obtain v1 where v1: "unat v1 < 64" "c1 = sextet v1" "length bs + 1 < cap"
      and f2: "feed_end (feed cap cs2 (bs @ [?a v1], 2, push_bit 4 (v1 AND 15))) = Some r" "list_all (\<lambda>c. \<not> isspace c) cs2"
      by (auto simp: feed_word split: if_splits)
    then obtain c2 cs3 where cs2: "cs2 = c2 # cs3" by (cases cs2) auto
    let ?b = "\<lambda>v2. push_bit 4 (v1 AND 15) OR drop_bit 2 v2"
    from f2 cs2 consider
      (pad) "c2 = Pad64" "solid cs3 = [Pad64]" "push_bit 4 (v1 AND 15) = 0" "r = bs @ [?a v1]"
      | (char) v2 where "unat v2 < 64" "c2 = sextet v2" "length bs + 2 < cap"
        "feed_end (feed cap cs3 (bs @ [?a v1, ?b v2], 3, push_bit 6 (v2 AND 3))) = Some r"
      by (auto simp: feed_word split: if_splits)
    then show ?thesis
    proof cases
      case pad
      have "cs3 = [Pad64]" using pad(2) f2(2) cs2 by (auto simp: list_all_iff filter_id_conv)
      moreover have "out0 (?a v1) = v0" "out1 (?a v1) 0 = v1"
        using split_join[OF v0(1) v1(1), of 0 0] pad(3) by simp_all
      ultimately have "cs = base64 [?a v1]"
        using Cons cs1 cs2 v0 v1 pad(1) by (simp add: base64_tail del: base64.simps)
      with pad(4) v1(3) show ?thesis by (intro exI[of _ "[?a v1]"]) (simp add: room_def)
    next
      case (char v2)
      then obtain c3 cs4 where cs3: "cs3 = c3 # cs4" by (cases cs3) auto
      from char f2(2) cs2 cs3 consider
        (pad) "c3 = Pad64" "solid cs4 = []" "push_bit 6 (v2 AND 3) = 0" "r = bs @ [?a v1, ?b v2]"
        | (char3) v3 where "unat v3 < 64" "c3 = sextet v3"
          "feed_end (feed cap cs4 (bs @ [?a v1, ?b v2, push_bit 6 (v2 AND 3) OR v3], 0, 0)) = Some r"
        by (auto simp: feed_word split: if_splits)
      then show ?thesis
      proof cases
        case pad
        have "cs4 = []" using pad(2) f2(2) cs2 cs3 by (auto simp: list_all_iff filter_empty_conv)
        moreover have "out0 (?a v1) = v0" "out1 (?a v1) (?b v2) = v1" "out2 (?b v2) 0 = v2"
          using split_join[OF v0(1) v1(1) char(1), of 0] pad(3) by simp_all
        ultimately have "cs = base64 [?a v1, ?b v2]"
          using Cons cs1 cs2 cs3 v0 v1 char(2) pad(1) by (simp add: base64_tail del: base64.simps)
        with pad(4) char(3) show ?thesis by (intro exI[of _ "[?a v1, ?b v2]"]) (simp add: room_def)
      next
        case (char3 v3)
        let ?c = "push_bit 6 (v2 AND 3) OR v3"
        obtain ys where ys: "cs4 = base64 ys" "r = (bs @ [?a v1, ?b v2, ?c]) @ ys" "length (bs @ [?a v1, ?b v2, ?c]) + room ys \<le> cap"
          using 1(1)[rule_format, of cs4 "bs @ [?a v1, ?b v2, ?c]" 0] char3(3) f2(2) char(3) Cons cs1 cs2 cs3 by auto
        have "cs = base64 (?a v1 # ?b v2 # ?c # ys)"
          using Cons cs1 cs2 cs3 v0 v1 char(2) char3(2) ys(1) split_join[OF v0(1) v1(1) char(1) char3(1)]
          by (simp add: base64_nonempty quad64_def del: base64.simps)
        with ys(2,3) show ?thesis
          by (intro exI[of _ "?a v1 # ?b v2 # ?c # ys"]) (auto simp: room_def mod_Suc split: if_splits)
      qed
    qed
  qed
qed

lemma pton_list_exact:
  "pton_list cap cs = Some ys \<longleftrightarrow> solid cs = base64 ys \<and> room ys \<le> cap"
proof -
  have "list_all (\<lambda>c. \<not> isspace c) (solid cs)" by (simp add: list_all_iff)
  from pton_sound[OF this, of cap "[]" 0] pton_accepts_base64[of "[]" ys cap 0] show ?thesis
    using pton_list_solid[of cap cs] by (auto simp: pton_list_end)
qed


section \<open>The C code computes the list function\<close>

text \<open>A C string.\<close>

definition cstring :: "mem \<Rightarrow> addr \<Rightarrow> byte list \<Rightarrow> bool" where
  "cstring m p cs \<longleftrightarrow> loads m p (length cs) = cs \<and> m (p + int (length cs)) = 0 \<and> 0 \<notin> set cs"

lemma cstring_Nil: "cstring m p [] \<longleftrightarrow> m p = 0" by (simp add: cstring_def)

lemma cstring_Cons: "cstring m p (c # cs) \<longleftrightarrow> m p = c \<and> c \<noteq> 0 \<and> cstring m (p + 1) cs"
  by (auto simp: cstring_def algebra_simps)

lemma cstring_outside:
  assumes "cstring m p cs" "\<And>x. p \<le> x \<Longrightarrow> x \<le> p + int (length cs) \<Longrightarrow> m' x = m x"
  shows "cstring m' p cs"
  using assms loads_cong[of p "length cs" m' m] by (auto simp: cstring_def)

lemma skip_spaces_run:
  "cstring m p cs \<Longrightarrow>
     \<exists>ch q. skip_spaces m (m p) (p + 1) = Some (ch, q) \<and>
       (case dropWhile isspace cs of [] \<Rightarrow> ch = 0 | c # cs' \<Rightarrow> ch = c \<and> c \<noteq> 0 \<and> cstring m q cs')"
proof (induction cs arbitrary: p)
  case Nil
  then show ?case by (subst skip_spaces.simps) (simp add: cstring_Nil)
next
  case (Cons c cs)
  then have c: "m p = c" "c \<noteq> 0" "cstring m (p + 1) cs" by (auto simp: cstring_Cons)
  show ?case
  proof (cases "isspace c")
    case True
    with c Cons.IH[OF c(3)] show ?thesis by (subst skip_spaces.simps) simp
  qed (use c in \<open>subst skip_spaces.simps, simp\<close>)
qed

lemma solid_dropWhile:
  "solid cs = (case dropWhile isspace cs of [] \<Rightarrow> [] | c # cs' \<Rightarrow> c # solid cs')"
  by (induction cs) auto

lemma pton_pad1_run:
  assumes "cstring m p cs"
  shows "pton_pad1 target (m p) (p + 1) k m =
    Some (if solid cs = [] \<and> (target \<noteq> NULL \<longrightarrow> m (target + uint k) = 0) then sint k else -1)"
  using skip_spaces_run[OF assms] solid_dropWhile[of cs]
  by (auto simp: pton_pad1_def split: list.splits)

text \<open>The memory and the variables of the loop hold an accumulator.\<close>

definition holds :: "addr \<Rightarrow> mem \<Rightarrow> 32 word \<Rightarrow> 32 word \<Rightarrow> pton_acc \<Rightarrow> bool" where
  "holds target m state k a \<longleftrightarrow>
     (case a of (bs, st, x) \<Rightarrow>
        st < 4 \<and> state = of_nat st \<and> unat k = length bs \<and>
        loads m target (length bs) = bs \<and> (st \<noteq> 0 \<longrightarrow> m (target + int (length bs)) = x))"

lemma loads_upd_beyond: "a + int n \<le> y \<Longrightarrow> loads (m(y := b)) a n = loads m a n"
  by (rule loads_cong) auto

lemma loads_snoc: "loads m a (Suc n) = loads m a n @ [m (a + int n)]"
  using loads_append[of m a n 1] by simp

lemma pton_char_cases:
  assumes "target \<noteq> NULL"
  shows "pton_char target ts v 0 k m =
      (if ts \<le> ucast k then None else Some (1, k, m(target + uint k := push_bit 2 v)))"
    "pton_char target ts v 1 k m =
      (if ts \<le> ucast (k + 1) then None
       else Some (2, k + 1, m(target + uint k := m (target + uint k) OR drop_bit 4 v,
                              target + uint (k + 1) := push_bit 4 (v AND 15))))"
    "pton_char target ts v 2 k m =
      (if ts \<le> ucast (k + 1) then None
       else Some (3, k + 1, m(target + uint k := m (target + uint k) OR drop_bit 2 v,
                              target + uint (k + 1) := push_bit 6 (v AND 3))))"
    "pton_char target ts v 3 k m =
      (if ts \<le> ucast k then None else Some (0, k + 1, m(target + uint k := m (target + uint k) OR v)))"
  using assms by (simp_all add: pton_char_def Let_def)

lemma holds_step:
  assumes "loads m target (length bs) = bs" "unat (k + 1) = length bs + 1" "st < 4"
  shows "holds target (m(target + int (length bs) := b, target + (int (length bs) + 1) := x)) (of_nat st) (k + 1) (bs @ [b], st, x)"
    and "holds target (m(target + int (length bs) := b)) 0 (k + 1) (bs @ [b], 0, x)"
  using assms by (simp_all add: holds_def loads_snoc loads_upd_beyond del: loads.simps)

lemma pton_char_absorb:
  assumes "holds target m state k (bs, st, x)" "target \<noteq> NULL" "length bs + 1 < 2 ^ 32"
  shows "case absorb (unat ts) v (bs, st, x) of
      None \<Rightarrow> pton_char target ts v state k m = None
    | Some a \<Rightarrow> \<exists>state' k' m'. pton_char target ts v state k m = Some (state', k', m') \<and>
        holds target m' state' k' a \<and> (\<forall>y. y < target \<or> target + uint ts \<le> y \<longrightarrow> m' y = m y)"
proof -
  have k: "uint k = int (length bs)" 
  proof -
    have "unat k = length bs" using assms(1) by (simp add: holds_def)
    then show ?thesis by (metis uint_nat)
  qed
  have k1: "unat (k + 1) = length bs + 1"
    using assms(1,3) by (simp add: holds_def unat_word_ariths)
  then have uk1: "uint (k + 1) = int (length bs) + 1" by (metis of_nat_1 of_nat_add uint_nat)
  have big: "ts \<le> ucast k \<longleftrightarrow> unat ts \<le> length bs" "ts \<le> ucast (k + 1) \<longleftrightarrow> unat ts \<le> length bs + 1"
    using assms(1) k1 by (simp_all add: word_le_nat_alt holds_def)
  have "st = 0 \<or> st = 1 \<or> st = 2 \<or> st = 3" using assms(1) by (auto simp: holds_def)
  moreover have st: "state = of_nat st" and ld: "loads m target (length bs) = bs"
    and x: "st \<noteq> 0 \<Longrightarrow> m (target + int (length bs)) = x" and uk: "unat k = length bs"
    using assms(1) by (simp_all add: holds_def)
  moreover have inb: "n < unat ts \<Longrightarrow> int n < uint ts" for n by (metis of_nat_less_iff uint_nat)
  ultimately consider (0) "st = 0" "state = 0" | (1) "st = 1" "state = 1" | (2) "st = 2" "state = 2" | (3) "st = 3" "state = 3"
    by auto
  then show ?thesis
  proof cases
    case 0
    have "holds target (m(target + int (length bs) := push_bit 2 v)) 1 k (bs, 1, push_bit 2 v)"
      using ld uk by (simp add: holds_def loads_upd_beyond)
    with 0 inb[of "length bs"] show ?thesis by (auto simp: pton_char_cases(1)[OF assms(2)] big k not_le)
  next
    case 1
    with inb[of "Suc (length bs)"] x holds_step(1)[OF ld k1, of 2 "x OR drop_bit 4 v" "push_bit 4 (v AND 15)"] show ?thesis
      by (auto simp: pton_char_cases(2)[OF assms(2)] big k uk1 not_le)
  next
    case 2
    with inb[of "Suc (length bs)"] x holds_step(1)[OF ld k1, of 3 "x OR drop_bit 2 v" "push_bit 6 (v AND 3)"] show ?thesis
      by (auto simp: pton_char_cases(3)[OF assms(2)] big k uk1 not_le)
  next
    case 3
    with inb[of "length bs"] x holds_step(2)[OF ld k1, of 0 "x OR v" 0] show ?thesis
      by (auto simp: pton_char_cases(4)[OF assms(2)] big k not_le)
  qed
qed


abbreviation outside :: "addr \<Rightarrow> 64 word \<Rightarrow> mem \<Rightarrow> mem \<Rightarrow> bool" where
  "outside target ts m m' \<equiv> \<forall>y. y < target \<or> target + uint ts \<le> y \<longrightarrow> m' y = m y"

lemma cstring_apart:
  assumes "cstring m src cs" "apart src (length cs + 1) target ts" "outside target ts m m'"
  shows "cstring m' src cs"
  using assms(1) by (rule cstring_outside) (use assms(2,3) in \<open>auto simp: apart_def\<close>)

lemma pton_loop_run:
  assumes "cstring m src cs" "apart src (length cs + 1) target ts" "target \<noteq> NULL"
    and "holds target m state k a" "length (fst a) + length cs < 2 ^ 32 - 1"
  shows "case feed (unat ts) cs a of
      None \<Rightarrow> \<exists>m'. pton_loop target ts src state k m = Some (None, m') \<and> outside target ts m m'
    | Some (a', rest) \<Rightarrow>
        \<exists>ch src' state' k' m'. pton_loop target ts src state k m = Some (Some (ch, src', state', k'), m') \<and>
          holds target m' state' k' a' \<and> outside target ts m m' \<and> length (fst a') \<le> length (fst a) + length cs \<and>
          (case rest of None \<Rightarrow> ch = 0 | Some cs' \<Rightarrow> ch = Pad64 \<and> cstring m' src' cs')"
  using assms
proof (induction cs arbitrary: src state k m a)
  case Nil
  then show ?case by (subst pton_loop.simps) (simp add: cstring_Nil Let_def)
next
  case (Cons c cs)
  from Cons.prems(1) have c: "m src = c" "c \<noteq> 0" "cstring m (src + 1) cs" by (auto simp: cstring_Cons)
  have ap: "apart (src + 1) (length cs + 1) target ts" using Cons.prems(2) by (auto simp: apart_def)
  consider (space) "isspace c" | (pad) "c = Pad64" | (bad) "\<not> isspace c" "c \<noteq> Pad64" "strchr Base64 c = None"
    | (char) v where "\<not> isspace c" "c \<noteq> Pad64" "strchr Base64 c = Some v" by blast
  then show ?case
  proof cases
    case space
    with c have "pton_loop target ts src state k m = pton_loop target ts (src + 1) state k m"
      by (subst pton_loop.simps) (simp add: Let_def)
    moreover have "feed (unat ts) (c # cs) a = feed (unat ts) cs a" using space by (simp add: feed.simps)
    moreover have "length (fst a) + length cs < 2 ^ 32 - 1" using Cons.prems(5) by simp
    ultimately show ?thesis
      using Cons.IH[OF c(3) ap Cons.prems(3,4)] by (fastforce split: option.splits)
  next
    case pad
    with c show ?thesis
      using Cons.prems(4) by (subst pton_loop.simps) (simp add: Let_def feed_pad)
  next
    case bad
    with c show ?thesis by (subst pton_loop.simps) (simp add: Let_def feed_bad)
  next
    case (char v)
    obtain bs st x where a: "a = (bs, st, x)" by (cases a)
    have f: "feed (unat ts) (c # cs) a =
        (case absorb (unat ts) (of_nat v) a of None \<Rightarrow> None | Some a \<Rightarrow> feed (unat ts) cs a)"
      using char by (simp add: feed.simps)
    have p: "pton_loop target ts src state k m =
        (case pton_char target ts (of_nat v) state k m of
           None \<Rightarrow> Some (None, m) | Some (state, k, m) \<Rightarrow> pton_loop target ts (src + 1) state k m)"
      using char c by (subst pton_loop.simps) (simp add: Let_def)
    have bs: "length bs + 1 < 2 ^ 32" using Cons.prems(5) a by simp
    note ab = pton_char_absorb[OF Cons.prems(4)[unfolded a] Cons.prems(3) bs, of ts "of_nat v"]
    show ?thesis
    proof (cases "absorb (unat ts) (of_nat v) a")
      case None
      with ab f p a show ?thesis by simp
    next
      case (Some a1)
      with ab a obtain s1 k1 m1 where 1: "pton_char target ts (of_nat v) state k m = Some (s1, k1, m1)"
        "holds target m1 s1 k1 a1" "outside target ts m m1" by auto
      have l1: "length (fst a1) \<le> length (fst a) + 1" using Some a by (auto split: if_splits)
      have "length (fst a1) + length cs < 2 ^ 32 - 1" using l1 Cons.prems(5) by simp
      from Cons.IH[OF cstring_apart[OF c(3) ap 1(3)] ap Cons.prems(3) 1(2) this] 1(1,3) f p Some l1 show ?thesis
        by (fastforce split: option.splits)
    qed
  qed
qed

lemma sint_small: "unat (k :: 32 word) < 2 ^ 31 \<Longrightarrow> sint k = int (unat k)"
proof -
  assume "unat k < 2 ^ 31"
  then have "sint (ucast (ucast k :: 64 word) :: 32 word) = int (unat (ucast k :: 64 word))"
    by (intro sint_of_length) simp
  moreover have "(ucast (ucast k :: 64 word) :: 32 word) = k" by (rule bit_word_eqI) (auto simp: bit_simps)
  ultimately show ?thesis by simp
qed

lemma pton_end_run:
  assumes "holds target m state k (bs, st, x)" "length bs < 2 ^ 31" "target \<noteq> NULL"
    and "case rest of None \<Rightarrow> ch = 0 | Some cs \<Rightarrow> ch = Pad64 \<and> cstring m src cs"
  shows "pton_end target ch src state k m =
    Some (case feed_end (Some ((bs, st, x), rest)) of None \<Rightarrow> -1 | Some ys \<Rightarrow> int (length ys))"
proof -
  have k: "unat k = length bs" "st < 4" "state = of_nat st" "st \<noteq> 0 \<Longrightarrow> m (target + uint k) = x"
    using assms(1) uint_nat[of k] by (auto simp: holds_def simp del: uint_nat)
  have sk: "sint k = int (length bs)" using sint_small[of k] k(1) assms(2) by simp
  have st: "st = 0 \<and> state = 0 \<or> st = 1 \<and> state = 1 \<or> st = 2 \<and> state = 2 \<or> st = 3 \<and> state = 3"
    using k(2,3) by (auto simp: less_Suc_eq eval_nat_numeral)
  show ?thesis
  proof (cases rest)
    case None
    with assms(4) sk show ?thesis using st by (elim disjE) (simp_all add: pton_end_def)
  next
    case (Some cs)
    with assms(4) have c: "ch = Pad64" "cstring m src cs" by auto
    from st consider (2) "st = 2" "state = 2" | (3) "st = 3" "state = 3" | (early) "st < 2" "state = 0 \<or> state = 1" by auto
    then show ?thesis
    proof cases
      case 2
      obtain c q where s: "skip_spaces m (m src) (src + 1) = Some (c, q)"
        "case dropWhile isspace cs of [] \<Rightarrow> c = 0 | c' # cs' \<Rightarrow> c = c' \<and> c' \<noteq> 0 \<and> cstring m q cs'"
        using skip_spaces_run[OF c(2)] by blast
      show ?thesis
      proof (cases "dropWhile isspace cs")
        case Nil
        with s 2 c Some solid_dropWhile[of cs] show ?thesis by (simp add: pton_end_def Let_def)
      next
        case (Cons c' cs')
        with s have "c = c'" "cstring m q cs'" by auto
        with s 2 c Some Cons sk k(4) assms(3) solid_dropWhile[of cs] pton_pad1_run[of m q cs' target k] show ?thesis
          by (auto simp: pton_end_def Let_def)
      qed
    next
      case 3
      with c Some sk k(4) assms(3) pton_pad1_run[OF c(2), of target k] show ?thesis by (auto simp: pton_end_def Let_def)
    qed (use c Some in \<open>auto simp: pton_end_def Let_def\<close>)
  qed
qed

lemma f_b64_pton_run:
  assumes "cstring m src cs" "apart src (length cs + 1) target ts" "target \<noteq> NULL" "length cs < 2 ^ 31"
  shows "\<exists>m'. f_b64_pton src target ts m =
      Some (case pton_list (unat ts) cs of None \<Rightarrow> -1 | Some ys \<Rightarrow> int (length ys), m') \<and> outside target ts m m' \<and>
      (\<forall>ys. pton_list (unat ts) cs = Some ys \<longrightarrow> loads m' target (length ys) = ys)"
proof -
  have z: "holds target m 0 0 ([], 0, 0)" by (simp add: holds_def)
  have len: "length (fst ([] :: byte list, 0 :: nat, 0 :: byte)) + length cs < 2 ^ 32 - 1" using assms(4) by simp
  note run = pton_loop_run[OF assms(1-3) z len]
  show ?thesis
  proof (cases "feed (unat ts) cs ([], 0, 0)")
    case None
    with run show ?thesis by (auto simp: f_b64_pton_def pton_list_end)
  next
    case (Some r)
    obtain bs st x rest where r: "r = ((bs, st, x), rest)" by (cases r) auto
    from run Some r obtain ch src' state' k' m' where
      l: "pton_loop target ts src 0 0 m = Some (Some (ch, src', state', k'), m')"
      and h: "holds target m' state' k' (bs, st, x)" and o: "outside target ts m m'" and len: "length bs < 2 ^ 31"
      and rest: "case rest of None \<Rightarrow> ch = 0 | Some cs' \<Rightarrow> ch = Pad64 \<and> cstring m' src' cs'" using assms(4) by auto
    have "ys = bs" if "pton_list (unat ts) cs = Some ys" for ys
      using that Some r by (cases rest) (auto simp: pton_list_end split: if_splits)
    moreover have "loads m' target (length bs) = bs" using h by (simp add: holds_def)
    ultimately show ?thesis
      using l o pton_end_run[OF h len assms(3) rest] Some r by (auto simp: f_b64_pton_def pton_list_end)
  qed
qed

section \<open>The properties of the decoder\<close>

text \<open>C6. The decoder returns on every terminated text and never writes outside the target. It accepts
  exactly the texts that are, without white space, the base64 text of some bytes (so none with wrong padding
  or stray bits), provided the target has room for the bytes and, unless their number is divisible by three,
  one byte more. Then it stores the bytes and returns their number; otherwise it returns -1.\<close>

theorem f_b64_pton_exact:
  assumes "cstring m src cs" and "apart src (length cs + 1) target ts" and "target \<noteq> NULL" and "length cs < 2 ^ 31"
  shows "\<exists>r m'. f_b64_pton src target ts m = Some (r, m') \<and>
    (\<forall>y. y < target \<or> target + uint ts \<le> y \<longrightarrow> m' y = m y) \<and>
    (\<forall>ys. solid cs = base64 ys \<and> room ys \<le> unat ts \<longrightarrow> r = int (length ys) \<and> loads m' target (length ys) = ys) \<and>
    ((\<nexists>ys. solid cs = base64 ys \<and> room ys \<le> unat ts) \<longrightarrow> r = -1)"
proof -
  from f_b64_pton_run[OF assms] obtain m' where
    m': "f_b64_pton src target ts m =
      Some (case pton_list (unat ts) cs of None \<Rightarrow> -1 | Some ys \<Rightarrow> int (length ys), m')" "outside target ts m m'"
      "\<forall>ys. pton_list (unat ts) cs = Some ys \<longrightarrow> loads m' target (length ys) = ys" by blast
  show ?thesis
  proof (cases "pton_list (unat ts) cs")
    case None
    then have "\<not> (solid cs = base64 ys \<and> room ys \<le> unat ts)" for ys by (metis option.distinct(1) pton_list_exact)
    with m'(1,2) None show ?thesis by auto
  next
    case (Some zs)
    then have "ys = zs" if "solid cs = base64 ys" "room ys \<le> unat ts" for ys
      using that pton_list_exact[of "unat ts" cs ys] by simp
    moreover have "solid cs = base64 zs \<and> room zs \<le> unat ts" using Some by (simp add: pton_list_exact)
    ultimately show ?thesis using m' Some by auto
  qed
qed

lemma cstring_stores: "0 \<notin> set cs \<Longrightarrow> cstring (stores m p (cs @ [0])) p cs"
  by (simp add: cstring_def stores_append loads_upd_beyond loads_stores_same)

lemma set_base64: "set (base64 xs) \<subseteq> insert Pad64 (set Base64)"
  by (induction xs rule: base64.induct) (auto simp: digit_def Let_def)

lemma base64_text: "solid (base64 xs) = base64 xs" "0 \<notin> set (base64 xs)"
proof -
  have "\<not> isspace c \<and> c \<noteq> 0" if "c \<in> set (base64 xs)" for c
    using that set_base64[of xs] Base64_plain by (auto simp: list_all_iff)
  then show "solid (base64 xs) = base64 xs" "0 \<notin> set (base64 xs)" by (auto simp: filter_id_conv)
qed

theorem f_b64_pton_exact_witness:
  "\<exists>r m'. f_b64_pton 100 200 2 (stores (\<lambda>_. 0) 100 (base64 [65] @ [0])) = Some (r, m') \<and> r = 1 \<and> loads m' 200 1 = [65]"
proof -
  have l: "length (base64 [65]) = 4" by (simp add: length_base64)
  have "apart 100 (length (base64 [65]) + 1) 200 2" by (simp add: l apart_def)
  from f_b64_pton_exact[OF cstring_stores[OF base64_text(2)[of "[65]"], of "\<lambda>_. 0" 100] this]
  obtain r m' where "f_b64_pton 100 200 2 (stores (\<lambda>_. 0) 100 (base64 [65] @ [0])) = Some (r, m')"
    "\<forall>ys. solid (base64 [65]) = base64 ys \<and> room ys \<le> unat (2 :: 64 word) \<longrightarrow> r = int (length ys) \<and> loads m' 200 (length ys) = ys"
    using l by auto
  moreover from this(2)[rule_format, of "[65]"] base64_text(1)[of "[65]"] have "r = 1 \<and> loads m' 200 1 = [65]"
    by (simp add: room_def del: base64.simps loads.simps)
  ultimately show ?thesis by blast
qed

text \<open>C7. Decoding what the encoder wrote gives the data back, for every length and contents.\<close>

theorem b64_roundtrip:
  assumes "loads m src (length xs) = xs" and "length xs = unat n" and "apart src (length xs) buf ts"
    and "4 * ((length xs + 2) div 3) < 2 ^ 30" and "length (base64 xs) < unat ts"
    and "apart buf (length (base64 xs) + 1) dst ds" and "dst \<noteq> NULL" and "room xs \<le> unat ds"
  shows "\<exists>m1 m2. f_b64_ntop src n buf ts m = (int (length (base64 xs)), m1) \<and>
    f_b64_pton buf dst ds m1 = Some (int (length xs), m2) \<and> loads m2 dst (length xs) = xs"
proof -
  let ?m = "stores m buf (base64 xs @ [0])"
  have "f_b64_ntop src n buf ts m = (int (length (base64 xs)), ?m)"
    using ntop_result(1)[OF assms(1-4)] assms(5) by (simp add: length_base64)
  moreover have "cstring ?m buf (base64 xs)" by (rule cstring_stores[OF base64_text(2)])
  moreover have "pton_list (unat ds) (base64 xs) = Some xs"
    using assms(8) base64_text(1)[of xs] by (simp add: pton_list_exact)
  moreover have "length (base64 xs) < 2 ^ 31" using assms(4) by (simp add: length_base64)
  ultimately show ?thesis
    using f_b64_pton_run[of ?m buf "base64 xs" dst ds] assms(6,7) by auto
qed

theorem b64_roundtrip_witness:
  "\<exists>m1 m2. f_b64_ntop 100 2 200 5 (stores (\<lambda>_. 0) 100 [72, 105]) = (4, m1) \<and>
    f_b64_pton 200 300 3 m1 = Some (2, m2) \<and> loads m2 300 (Suc (Suc 0)) = [72, 105]"
proof -
  have l: "length (base64 [72, 105]) = 4" by (simp add: length_base64)
  have "loads (stores (\<lambda>_. 0) 100 [72, 105]) 100 (length [72, 105 :: byte]) = [72, 105]"
    by (simp add: loads_stores_same)
  from b64_roundtrip[OF this, of 2 200 5 300 3] show ?thesis
    by (simp add: l apart_def room_def del: base64.simps stores.simps loads.simps)
qed

text \<open>A target that has exactly as many bytes as the data is refused when their number is not divisible
  by three: the decoder asks for room for the byte that holds the left-over bits.\<close>

theorem exact_target_refused:
  assumes "cstring m src (base64 ys)" and "apart src (length (base64 ys) + 1) target ts" and "target \<noteq> NULL"
    and "length (base64 ys) < 2 ^ 31" and "unat ts = length ys" and "length ys mod 3 \<noteq> 0"
  shows "\<exists>m'. f_b64_pton src target ts m = Some (-1, m')"
proof -
  have "pton_list (unat ts) (base64 ys) = None"
  proof (rule ccontr)
    assume "pton_list (unat ts) (base64 ys) \<noteq> None"
    then obtain zs where "base64 ys = base64 zs" "room zs \<le> unat ts"
      by (auto simp: pton_list_exact base64_text(1))
    moreover from this have "pton_list (room ys + room zs) (base64 ys) = Some ys" "pton_list (room ys + room zs) (base64 ys) = Some zs"
      by (simp_all add: pton_list_exact base64_text(1))
    ultimately show False using assms(5,6) by (simp add: room_def)
  qed
  with f_b64_pton_run[OF assms(1-4)] show ?thesis by auto
qed

theorem exact_target_refused_witness:
  "\<exists>m'. f_b64_pton 100 200 1 (stores (\<lambda>_. 0) 100 (base64 [65] @ [0])) = Some (-1, m')"
proof -
  have l: "length (base64 [65]) = 4" by (simp add: length_base64)
  have "apart 100 (length (base64 [65]) + 1) 200 1" by (simp add: l apart_def)
  from exact_target_refused[OF cstring_stores[OF base64_text(2)[of "[65]"], of "\<lambda>_. 0" 100] this] show ?thesis
    by (simp add: l del: base64.simps stores.simps)
qed

end
