(* ===== verification/Ldb_Coding.thy ===== *)
theory Ldb_Coding
  imports Varint
begin

text \<open>
  The encodings of \<^verbatim>\<open>leveldb-library/util/coding.cc\<close> and \<^verbatim>\<open>coding.h\<close>, on which every
  format of leveldb is built.

  A \<^verbatim>\<open>Slice\<close> and a \<^verbatim>\<open>std::string\<close> are the lists of their bytes. A routine that writes
  through a pointer and returns the pointer behind the last byte is the list of the bytes it
  writes; a routine that reads in the range from \<^verbatim>\<open>p\<close> to \<^verbatim>\<open>limit\<close> takes the bytes of the range
  and returns the value with the bytes behind it, or \<open>None\<close> for \<^verbatim>\<open>nullptr\<close>. A getter on a
  \<^verbatim>\<open>Slice*\<close> returns the value, if any, and the slice it leaves.

  The lemmas show that every getter inverts its writer in front of arbitrary further bytes,
  that the unrolled 32-bit writer, the 64-bit loop and the reference \<open>vbytes\<close> agree, and how
  many bytes are used.
\<close>

type_synonym slice = "byte list"
type_synonym 'a getter = "slice \<Rightarrow> 'a option \<times> slice"

section \<open>Fixed-width numbers\<close>

definition kLittleEndian :: bool where
  "kLittleEndian = True"

definition EncodeFixed32 :: "32 word \<Rightarrow> byte list" where
  "EncodeFixed32 value =
     (if kLittleEndian then le_bytes 4 value
      else [ucast (value AND 0xff), ucast (drop_bit 8 value AND 0xff),
            ucast (drop_bit 16 value AND 0xff), ucast (drop_bit 24 value AND 0xff)])"

definition EncodeFixed64 :: "64 word \<Rightarrow> byte list" where
  "EncodeFixed64 value =
     (if kLittleEndian then le_bytes 8 value
      else [ucast (value AND 0xff), ucast (drop_bit 8 value AND 0xff),
            ucast (drop_bit 16 value AND 0xff), ucast (drop_bit 24 value AND 0xff),
            ucast (drop_bit 32 value AND 0xff), ucast (drop_bit 40 value AND 0xff),
            ucast (drop_bit 48 value AND 0xff), ucast (drop_bit 56 value AND 0xff)])"

definition PutFixed32 :: "slice \<Rightarrow> 32 word \<Rightarrow> slice" where
  "PutFixed32 dst value = dst @ EncodeFixed32 value"

definition PutFixed64 :: "slice \<Rightarrow> 64 word \<Rightarrow> slice" where
  "PutFixed64 dst value = dst @ EncodeFixed64 value"

definition DecodeFixed32 :: "byte list \<Rightarrow> 32 word" where
  "DecodeFixed32 ptr =
     (if kLittleEndian then of_le (take 4 ptr)
      else ucast (ptr ! 0) OR push_bit 8 (ucast (ptr ! 1)) OR push_bit 16 (ucast (ptr ! 2)) OR
           push_bit 24 (ucast (ptr ! 3)))"

definition DecodeFixed64 :: "byte list \<Rightarrow> 64 word" where
  "DecodeFixed64 ptr =
     (if kLittleEndian then of_le (take 8 ptr)
      else let lo = ucast (DecodeFixed32 ptr); hi = ucast (DecodeFixed32 (drop 4 ptr))
           in push_bit 32 hi OR lo)"

section \<open>Varints\<close>

definition EncodeVarint32 :: "32 word \<Rightarrow> byte list" where
  "EncodeVarint32 v = (let B = 128 in
     if v < 2 ^ 7 then [ucast v]
     else if v < 2 ^ 14 then [ucast (v OR B), ucast (drop_bit 7 v)]
     else if v < 2 ^ 21 then
       [ucast (v OR B), ucast (drop_bit 7 v OR B), ucast (drop_bit 14 v)]
     else if v < 2 ^ 28 then
       [ucast (v OR B), ucast (drop_bit 7 v OR B), ucast (drop_bit 14 v OR B),
        ucast (drop_bit 21 v)]
     else
       [ucast (v OR B), ucast (drop_bit 7 v OR B), ucast (drop_bit 14 v OR B),
        ucast (drop_bit 21 v OR B), ucast (drop_bit 28 v)])"

definition PutVarint32 :: "slice \<Rightarrow> 32 word \<Rightarrow> slice" where
  "PutVarint32 dst v = dst @ EncodeVarint32 v"

lemma unat_drop_bit: "unat (drop_bit n (v :: 'a::len word)) = unat v div 2 ^ n"
  by (subst unsigned_drop_bit_eq) (simp add: take_bit_nat_eq_self drop_bit_eq_div)

lemma unat_drop_7: "unat (drop_bit 7 (v :: 'a::len word)) = unat v div 128"
  by (simp add: unat_drop_bit)

lemma drop_7_less: "128 \<le> (v :: 64 word) \<Longrightarrow> unat (drop_bit 7 v) < unat v"
  by (simp add: unat_drop_7 word_le_nat_alt)

function EncodeVarint64 :: "64 word \<Rightarrow> byte list" where
  "EncodeVarint64 v = (if 128 \<le> v then ucast (v OR 128) # EncodeVarint64 (drop_bit 7 v) else [ucast v])"
  by pat_completeness auto
termination
  by (relation "measure unat") (auto intro: drop_7_less)

definition PutVarint64 :: "slice \<Rightarrow> 64 word \<Rightarrow> slice" where
  "PutVarint64 dst v = dst @ EncodeVarint64 v"

definition PutLengthPrefixedSlice :: "slice \<Rightarrow> slice \<Rightarrow> slice" where
  "PutLengthPrefixedSlice dst value = PutVarint32 dst (of_nat (length value)) @ value"

function VarintLength_loop :: "64 word \<Rightarrow> nat \<Rightarrow> nat" where
  "VarintLength_loop v len = (if 128 \<le> v then VarintLength_loop (drop_bit 7 v) (len + 1) else len)"
  by pat_completeness auto
termination
  by (relation "measure (unat \<circ> fst)") (auto intro: drop_7_less)

definition VarintLength :: "64 word \<Rightarrow> nat" where
  "VarintLength v = VarintLength_loop v 1"

declare EncodeVarint64.simps [simp del] VarintLength_loop.simps [simp del]

fun GetVarint32PtrFallback_loop :: "nat \<Rightarrow> 32 word \<Rightarrow> slice \<Rightarrow> (32 word \<times> slice) option" where
  "GetVarint32PtrFallback_loop shift result [] = None"
| "GetVarint32PtrFallback_loop shift result (c # p) =
     (if shift \<le> 28 then
        let byte = (ucast c :: 32 word) in
        if byte AND 128 \<noteq> 0
        then GetVarint32PtrFallback_loop (shift + 7) (result OR push_bit shift (byte AND 127)) p
        else Some (result OR push_bit shift byte, p)
      else None)"

definition GetVarint32PtrFallback :: "slice \<Rightarrow> (32 word \<times> slice) option" where
  "GetVarint32PtrFallback p = GetVarint32PtrFallback_loop 0 0 p"

definition GetVarint32Ptr :: "slice \<Rightarrow> (32 word \<times> slice) option" where
  "GetVarint32Ptr p =
     (case p of
        c # q \<Rightarrow>
          let result = (ucast c :: 32 word) in
          if result AND 128 = 0 then Some (result, q) else GetVarint32PtrFallback p
      | [] \<Rightarrow> GetVarint32PtrFallback p)"

definition GetVarint32 :: "32 word getter" where
  "GetVarint32 input =
     (case GetVarint32Ptr input of None \<Rightarrow> (None, input) | Some (value, q) \<Rightarrow> (Some value, q))"

fun GetVarint64Ptr_loop :: "nat \<Rightarrow> 64 word \<Rightarrow> slice \<Rightarrow> (64 word \<times> slice) option" where
  "GetVarint64Ptr_loop shift result [] = None"
| "GetVarint64Ptr_loop shift result (c # p) =
     (if shift \<le> 63 then
        let byte = (ucast c :: 64 word) in
        if byte AND 128 \<noteq> 0
        then GetVarint64Ptr_loop (shift + 7) (result OR push_bit shift (byte AND 127)) p
        else Some (result OR push_bit shift byte, p)
      else None)"

definition GetVarint64Ptr :: "slice \<Rightarrow> (64 word \<times> slice) option" where
  "GetVarint64Ptr p = GetVarint64Ptr_loop 0 0 p"

definition GetVarint64 :: "64 word getter" where
  "GetVarint64 input =
     (case GetVarint64Ptr input of None \<Rightarrow> (None, input) | Some (value, q) \<Rightarrow> (Some value, q))"

text \<open>The two overloads of \<^verbatim>\<open>GetLengthPrefixedSlice\<close>: on a range of bytes and on a slice. The
  second one leaves the slice behind the length when the contents are too short.\<close>

definition GetLengthPrefixedSlicePtr :: "slice \<Rightarrow> (slice \<times> slice) option" where
  "GetLengthPrefixedSlicePtr p =
     (case GetVarint32Ptr p of
        None \<Rightarrow> None
      | Some (len, q) \<Rightarrow>
          if length q < unat len then None else Some (take (unat len) q, drop (unat len) q))"

definition GetLengthPrefixedSlice :: "slice getter" where
  "GetLengthPrefixedSlice input =
     (case GetVarint32 input of
        (None, input) \<Rightarrow> (None, input)
      | (Some len, input) \<Rightarrow>
          if unat len \<le> length input then (Some (take (unat len) input), drop (unat len) input)
          else (None, input))"

section \<open>Fixed-width numbers are little-endian\<close>

lemma EncodeFixed32_eq: "EncodeFixed32 v = le_bytes 4 v"
  by (simp add: EncodeFixed32_def le_bytes_4 and_255 ucast_take_bit_8)

lemma EncodeFixed64_eq: "EncodeFixed64 v = le_bytes 8 v"
  by (simp add: EncodeFixed64_def le_bytes_8 and_255 ucast_take_bit_8)

lemma length_EncodeFixed [simp]: "length (EncodeFixed32 v) = 4" "length (EncodeFixed64 w) = 8"
  by (simp_all add: EncodeFixed32_eq EncodeFixed64_eq)

lemma DecodeFixed32_Encode [simp]: "DecodeFixed32 (EncodeFixed32 v @ rest) = v"
  by (simp add: DecodeFixed32_def kLittleEndian_def EncodeFixed32_eq le_simps take_bit_word_eq_self)

lemma DecodeFixed64_Encode [simp]: "DecodeFixed64 (EncodeFixed64 v @ rest) = v"
  by (simp add: DecodeFixed64_def kLittleEndian_def EncodeFixed64_eq le_simps take_bit_word_eq_self)

lemma EncodeFixed32_Decode: "length bs = 4 \<Longrightarrow> EncodeFixed32 (DecodeFixed32 bs) = bs"
  by (simp add: DecodeFixed32_def kLittleEndian_def EncodeFixed32_eq le_simps)

text \<open>An array of fixed-width numbers.\<close>

lemma fold_PutFixed32: "fold (\<lambda>r buffer. PutFixed32 buffer r) rs buf = buf @ concat (map EncodeFixed32 rs)"
  by (induction rs arbitrary: buf) (auto simp: PutFixed32_def)

lemma drop_fixed32:
  "i < length xs \<Longrightarrow> \<exists>t. drop (4 * i) (concat (map EncodeFixed32 xs) @ r) = EncodeFixed32 (xs ! i) @ t"
proof (induction xs arbitrary: i)
  case (Cons x xs)
  then show ?case by (cases i) (auto simp: algebra_simps)
qed simp

lemma EncodeFixed64_Decode: "length bs = 8 \<Longrightarrow> EncodeFixed64 (DecodeFixed64 bs) = bs"
  by (simp add: DecodeFixed64_def kLittleEndian_def EncodeFixed64_eq le_simps)

section \<open>The writers of varints\<close>

lemma or_128_byte:
  assumes "8 \<le> LENGTH('a)"
  shows "(ucast ((v :: 'a::len word) OR 128) :: byte) = of_nat (unat v mod 128 + 128)"
proof -
  have "(of_nat (unat v mod 128) :: byte) = ucast (take_bit 7 v)"
  proof (rule bit_word_eqI)
    fix n assume "n < LENGTH(8)"
    moreover have "unat v mod 128 = take_bit 7 (unat v)" by (simp add: take_bit_eq_mod)
    ultimately show "bit (of_nat (unat v mod 128) :: byte) n = bit (ucast (take_bit 7 v) :: byte) n"
      by (simp only: bit_of_nat_iff) (auto simp: bit_simps)
  qed
  then have "of_nat (unat v mod 128 + 128) = ucast (take_bit 7 v) + (128 :: byte)" by simp
  also have "\<dots> = ucast (take_bit 7 v) OR 128"
    by (rule disjunctive_add) (auto simp: bit_simps bit_128)
  also have "\<dots> = ucast (v OR 128)"
    using assms by (intro bit_word_eqI) (auto simp: bit_simps bit_128)
  finally show ?thesis by simp
qed

lemma EncodeVarint64_eq: "EncodeVarint64 v = vbytes (unat v)"
proof (induction v rule: EncodeVarint64.induct)
  case (1 v)
  show ?case
  proof (cases "128 \<le> v")
    case True
    then have "128 \<le> unat v" by (simp add: word_le_nat_alt)
    then show ?thesis using 1 True
      by (subst EncodeVarint64.simps) (simp add: vbytes_Cons or_128_byte unat_drop_7)
  next
    case False
    then have "unat v < 128" by (simp add: word_le_nat_alt)
    then show ?thesis using False by (subst EncodeVarint64.simps) (simp add: vbytes_Cons)
  qed
qed

lemma EncodeVarint32_eq: "EncodeVarint32 v = vbytes (unat v)"
proof -
  let ?n = "unat v"
  have d: "unat (drop_bit 14 v) = ?n div 128 div 128" "unat (drop_bit 21 v) = ?n div 128 div 128 div 128"
     "unat (drop_bit 28 v) = ?n div 128 div 128 div 128 div 128"
    by (simp_all add: unat_drop_bit div_mult2_eq[symmetric])
  have u: "(ucast (drop_bit k v) :: byte) = of_nat (unat (drop_bit k v))" for k by simp
  have b: "?n < 2 ^ 32" by (rule unat_bound_32)
  consider "?n < 2 ^ 7" | "2 ^ 7 \<le> ?n" "?n < 2 ^ 14" | "2 ^ 14 \<le> ?n" "?n < 2 ^ 21"
    | "2 ^ 21 \<le> ?n" "?n < 2 ^ 28" | "2 ^ 28 \<le> ?n" by linarith
  then show ?thesis
    by cases (use b in \<open>simp_all add: EncodeVarint32_def Let_def vbytes_Cons or_128_byte unat_drop_7 d u
        word_less_nat_alt less_mult_imp_div_less\<close>)
qed

lemma VarintLength_loop_eq: "VarintLength_loop v len + 1 = len + length (vbytes (unat v))"
proof (induction v len rule: VarintLength_loop.induct)
  case (1 v len)
  show ?case
  proof (cases "128 \<le> v")
    case True
    then have "128 \<le> unat v" by (simp add: word_le_nat_alt)
    then show ?thesis using 1 True
      by (subst VarintLength_loop.simps) (simp add: vbytes_Cons unat_drop_7)
  next
    case False
    then have "unat v < 128" by (simp add: word_le_nat_alt)
    then show ?thesis using False by (subst VarintLength_loop.simps) (simp add: vbytes_Cons)
  qed
qed

lemma VarintLength_eq: "VarintLength v = length (vbytes (unat v))"
  using VarintLength_loop_eq[of v 1] by (simp add: VarintLength_def)

lemma length_vbytes_32: "length (vbytes (unat (v :: 32 word))) \<le> 5"
  by (rule length_vbytes_le) (use unat_bound_32[of v] in auto)

section \<open>The readers of varints\<close>

text \<open>The two loops differ in the width and the largest shift only; \<open>get_loop\<close> is both.\<close>

fun get_loop :: "nat \<Rightarrow> nat \<Rightarrow> 'a::len word \<Rightarrow> slice \<Rightarrow> ('a word \<times> slice) option" where
  "get_loop m shift result [] = None"
| "get_loop m shift result (c # p) =
     (if shift \<le> m then
        if (ucast c :: 'a word) AND 128 \<noteq> 0
        then get_loop m (shift + 7) (result OR push_bit shift (ucast c AND 127)) p
        else Some (result OR push_bit shift (ucast c), p)
      else None)"

lemma GetVarint32PtrFallback_get_loop: "GetVarint32PtrFallback_loop j r p = get_loop 28 j r p"
  by (induction j r p rule: GetVarint32PtrFallback_loop.induct) (auto simp: Let_def)

lemma GetVarint64Ptr_get_loop: "GetVarint64Ptr_loop j r p = get_loop 63 j r p"
  by (induction j r p rule: GetVarint64Ptr_loop.induct) (auto simp: Let_def)

lemma wide_byte_high:
  "8 \<le> LENGTH('a) \<Longrightarrow> (ucast (c :: byte) :: 'a::len word) AND 128 = 0 \<longleftrightarrow> c AND 0x80 = 0"
  using and_exp_eq_0_iff_not_bit[of "ucast c :: 'a word" 7] and_exp_eq_0_iff_not_bit[of c 7]
  by (simp add: bit_simps)

lemma wide_high_nat:
  "8 \<le> LENGTH('a) \<Longrightarrow> x < 256 \<Longrightarrow> (of_nat x :: 'a::len word) AND 128 = 0 \<longleftrightarrow> x < 128"
  using wide_byte_high[of "of_nat x", where 'a = 'a] by (simp add: ucast_of_nat_8 byte_high)

lemma wide_byte_low: "8 \<le> LENGTH('a) \<Longrightarrow> (ucast (c :: byte) :: 'a::len word) AND 127 = ucast (c AND 127)"
  by (simp only: and_127) (auto intro!: bit_word_eqI simp: bit_simps)

lemma get_loop_vbytes:
  fixes r :: "'a::len word"
  assumes "n * 2 ^ j < 2 ^ LENGTH('a)" "j \<le> m" "7 dvd j" "unat r < 2 ^ j"
    and w: "8 \<le> LENGTH('a)" "m < LENGTH('a)" "LENGTH('a) \<le> m + 7" "7 dvd m"
  shows "get_loop m j r (vbytes n @ rest) = Some (of_nat (unat r + n * 2 ^ j), rest)"
  using assms(1-4)
proof (induction n arbitrary: j r rule: vbytes.induct)
  case (1 n)
  let ?x = "n mod 128"
  let ?r = "r OR push_bit j (of_nat ?x)"
  have "?x * 2 ^ j \<le> n * 2 ^ j" by simp
  then have lt: "?x * 2 ^ j < 2 ^ LENGTH('a)" using "1.prems"(1) by (rule order.strict_trans1)
  have step: "unat ?r = unat r + ?x * 2 ^ j" "unat ?r < 2 ^ (j + 7)"
    using varint_step[OF "1.prems"(4) _ lt] "1.prems"(2) w by simp_all
  show ?case
  proof (cases "n < 128")
    case True
    then have "?r = of_nat (unat r + n * 2 ^ j)"
      using step(1) by (metis mod_less of_nat_unat ucast_id)
    then show ?thesis using True "1.prems"(2) w
      by (simp add: vbytes_Cons wide_high_nat ucast_of_nat_8)
  next
    case False
    have sp: "?x * 2 ^ j + (n div 128) * 2 ^ (j + 7) = n * 2 ^ j"
      using mult_split_128[of n j] by simp
    then have lt': "(n div 128) * 2 ^ (j + 7) < 2 ^ LENGTH('a)" using "1.prems"(1) by linarith
    have "1 * 2 ^ (j + 7) \<le> (n div 128) * 2 ^ (j + 7)"
      using False by (intro mult_right_mono) (simp_all add: div_greater_zero_iff Suc_leI)
    with lt' have "(2::nat) ^ (j + 7) < 2 ^ LENGTH('a)" by linarith
    then have "j + 7 < LENGTH('a)" by simp
    with w(3) have "j < m" by simp
    then have "j + 7 \<le> m" using w(4) "1.prems"(3) by (auto elim!: dvdE)
    then have "get_loop m (j + 7) ?r (vbytes (n div 128) @ rest) =
        Some (of_nat (unat ?r + (n div 128) * 2 ^ (j + 7)), rest)"
      using lt' step(2) False "1.prems"(3) by (intro "1.IH") auto
    moreover have "unat ?r + (n div 128) * 2 ^ (j + 7) = unat r + n * 2 ^ j"
      using step(1) sp by simp
    moreover have "(of_nat (?x + 128) :: 'a word) AND 127 = of_nat ?x"
      using wide_byte_low[of "of_nat (?x + 128)", where 'a = 'a] w
      by (simp add: byte_low ucast_of_nat_8 del: of_nat_add)
    then have "push_bit j (of_nat (?x + 128)) AND push_bit j 127 = (push_bit j (of_nat ?x) :: 'a word)"
      by (metis push_bit_and)
    ultimately show ?thesis using False "1.prems"(2) w
      by (simp add: vbytes_Cons wide_high_nat ucast_of_nat_8 del: of_nat_add of_nat_mult)
  qed
qed

lemma GetVarint32Ptr_vbytes:
  "n < 2 ^ 32 \<Longrightarrow> GetVarint32Ptr (vbytes n @ rest) = Some (of_nat n, rest)"
proof (cases "n < 128")
  case True
  then show ?thesis
    by (simp add: GetVarint32Ptr_def Let_def vbytes_Cons wide_high_nat ucast_of_nat_8)
next
  case False
  assume "n < 2 ^ 32"
  then have "GetVarint32PtrFallback (vbytes n @ rest) = Some (of_nat n, rest)"
    using get_loop_vbytes[of n 0 28 "0 :: 32 word" rest]
    by (simp add: GetVarint32PtrFallback_def GetVarint32PtrFallback_get_loop)
  moreover have "(vbytes n @ rest) = of_nat (n mod 128 + 128) # vbytes (n div 128) @ rest"
    using False by (simp add: vbytes_Cons)
  ultimately show ?thesis
    by (simp add: GetVarint32Ptr_def wide_byte_high byte_high del: of_nat_add)
qed

lemma GetVarint64Ptr_vbytes:
  "n < 2 ^ 64 \<Longrightarrow> GetVarint64Ptr (vbytes n @ rest) = Some (of_nat n, rest)"
  using get_loop_vbytes[of n 0 63 "0 :: 64 word" rest]
  by (simp add: GetVarint64Ptr_def GetVarint64Ptr_get_loop)

named_theorems coding_simps \<open>reading back what a writer appended\<close>

lemma GetVarint32_vbytes: "n < 2 ^ 32 \<Longrightarrow> GetVarint32 (vbytes n @ rest) = (Some (of_nat n), rest)"
  by (simp add: GetVarint32_def GetVarint32Ptr_vbytes)

lemma GetVarint32_Encode [coding_simps]: "GetVarint32 (EncodeVarint32 v @ rest) = (Some v, rest)"
  using unat_bound_32[of v] by (simp add: EncodeVarint32_eq GetVarint32_vbytes)

lemma GetVarint64_Encode [coding_simps]: "GetVarint64 (EncodeVarint64 v @ rest) = (Some v, rest)"
  using unat_bound_64[of v] by (simp add: EncodeVarint64_eq GetVarint64_def GetVarint64Ptr_vbytes)

lemma GetVarint32Ptr_Encode [coding_simps]:
  "GetVarint32Ptr (EncodeVarint32 v @ rest) = Some (v, rest)"
  using unat_bound_32[of v] by (simp add: EncodeVarint32_eq GetVarint32Ptr_vbytes)

text \<open>The bytes \<open>PutLengthPrefixedSlice\<close> appends.\<close>

definition prefixed :: "slice \<Rightarrow> slice" where
  "prefixed s = EncodeVarint32 (of_nat (length s)) @ s"

lemma PutLengthPrefixedSlice_eq: "PutLengthPrefixedSlice dst s = dst @ prefixed s"
  by (simp add: PutLengthPrefixedSlice_def PutVarint32_def prefixed_def)

lemma unat_of_nat_32: "n < 2 ^ 32 \<Longrightarrow> unat (of_nat n :: 32 word) = n"
  by (simp add: unat_of_nat take_bit_nat_eq_self)

lemma GetLengthPrefixedSlice_prefixed [coding_simps]:
  "length s < 2 ^ 32 \<Longrightarrow> GetLengthPrefixedSlice (prefixed s @ rest) = (Some s, rest)"
  by (simp add: GetLengthPrefixedSlice_def prefixed_def coding_simps unat_of_nat_32)

lemma GetLengthPrefixedSlicePtr_prefixed [coding_simps]:
  "length s < 2 ^ 32 \<Longrightarrow> GetLengthPrefixedSlicePtr (prefixed s @ rest) = Some (s, rest)"
  by (simp add: GetLengthPrefixedSlicePtr_def prefixed_def coding_simps unat_of_nat_32)

section \<open>What the readers leave\<close>

lemma get_loop_suffix:
  "get_loop m j r p = Some (v, q) \<Longrightarrow> \<exists>k. q = drop k p \<and> 0 < k \<and> k \<le> length p \<and> 7 * k \<le> m + 7 - j"
proof (induction m j r p rule: get_loop.induct)
  case (2 m j r c p)
  show ?case
  proof (cases "(ucast c :: 'a word) AND 128 = 0")
    case True
    with 2(2) show ?thesis by (intro exI[of _ 1]) (auto split: if_splits)
  next
    case False
    with 2(2) have j: "j \<le> m" by (auto split: if_splits)
    with False 2 obtain k where "q = drop k p" "0 < k" "k \<le> length p" "7 * k \<le> m + 7 - (j + 7)"
      by auto
    with j show ?thesis by (intro exI[of _ "Suc k"]) auto
  qed
qed simp

lemma GetVarint32_suffix:
  assumes "GetVarint32 p = (Some v, q)"
  shows "\<exists>k. q = drop k p \<and> 0 < k \<and> k \<le> length p \<and> k \<le> 5"
proof -
  have "get_loop 28 0 0 p = Some (v, q) \<or> (\<exists>c. p = c # q)"
    using assms by (auto simp: GetVarint32_def GetVarint32Ptr_def GetVarint32PtrFallback_def
        GetVarint32PtrFallback_get_loop Let_def split: option.splits list.splits if_splits)
  then show ?thesis by (fastforce dest: get_loop_suffix intro: exI[of _ 1])
qed

lemma GetVarint64_suffix:
  "GetVarint64 p = (Some v, q) \<Longrightarrow> \<exists>k. q = drop k p \<and> 0 < k \<and> k \<le> length p \<and> k \<le> 10"
  by (fastforce simp: GetVarint64_def GetVarint64Ptr_def GetVarint64Ptr_get_loop
      split: option.splits dest: get_loop_suffix)

lemma GetVarint32_length: "GetVarint32 p = (v, q) \<Longrightarrow> length q \<le> length p"
proof (cases v)
  case None
  assume "GetVarint32 p = (v, q)"
  then show ?thesis using None by (auto simp: GetVarint32_def split: option.splits)
next
  case (Some a)
  assume "GetVarint32 p = (v, q)"
  then show ?thesis using Some by (auto dest!: GetVarint32_suffix)
qed

lemma GetLengthPrefixedSlice_length: "GetLengthPrefixedSlice p = (v, q) \<Longrightarrow> length q \<le> length p"
  using GetVarint32_length[of p "fst (GetVarint32 p)" "snd (GetVarint32 p)"]
  by (auto simp: GetLengthPrefixedSlice_def split: prod.splits option.splits if_splits)

text \<open>A varint or a slice that is cut short is not read.\<close>

lemma get_loop_truncated:
  assumes "8 \<le> LENGTH('a)"
  shows "k < length (vbytes n) \<Longrightarrow> get_loop m j (r :: 'a::len word) (take k (vbytes n)) = None"
proof (induction n arbitrary: k j r rule: vbytes.induct)
  case (1 n)
  show ?case
  proof (cases "n < 128")
    case False
    then have v: "vbytes n = of_nat (n mod 128 + 128) # vbytes (n div 128)" by (simp add: vbytes_Cons)
    show ?thesis
    proof (cases k)
      case (Suc k')
      then show ?thesis using 1 False assms
        by (simp add: v wide_high_nat ucast_of_nat_8 del: of_nat_add)
    qed simp
  qed (use "1.prems" in \<open>simp add: vbytes_Cons(2)\<close>)
qed

lemma GetVarint32_truncated:
  assumes "k < length (EncodeVarint32 v)"
  shows "GetVarint32 (take k (EncodeVarint32 v)) = (None, take k (EncodeVarint32 v))"
proof -
  let ?n = "unat v"
  have "GetVarint32Ptr (take k (vbytes ?n)) = None"
  proof (cases k)
    case 0
    then show ?thesis by (simp add: GetVarint32Ptr_def GetVarint32PtrFallback_def)
  next
    case (Suc k')
    then have "\<not> ?n < 128" using assms by (auto simp: EncodeVarint32_eq vbytes_Cons)
    then have v: "vbytes ?n = of_nat (?n mod 128 + 128) # vbytes (?n div 128)" by (simp add: vbytes_Cons)
    have "get_loop 28 0 (0 :: 32 word) (take k (vbytes ?n)) = None"
      using assms by (intro get_loop_truncated) (simp_all add: EncodeVarint32_eq)
    then show ?thesis using Suc
      by (simp add: GetVarint32Ptr_def GetVarint32PtrFallback_def GetVarint32PtrFallback_get_loop v
          wide_high_nat ucast_of_nat_8 del: of_nat_add get_loop.simps)
  qed
  then show ?thesis by (simp add: GetVarint32_def EncodeVarint32_eq)
qed

lemma GetLengthPrefixedSlice_truncated:
  assumes "length s < 2 ^ 32" "k < length (prefixed s)"
  shows "fst (GetLengthPrefixedSlice (take k (prefixed s))) = None"
proof (cases "k < length (EncodeVarint32 (of_nat (length s)))")
  case True
  then show ?thesis
    by (simp add: prefixed_def GetLengthPrefixedSlice_def GetVarint32_truncated)
next
  case False
  then show ?thesis using assms
    by (simp add: prefixed_def GetLengthPrefixedSlice_def GetVarint32_Encode unat_of_nat_32)
qed

section \<open>Properties\<close>

text \<open>C36. The unrolled writer of 32-bit varints, the loop that writes 64-bit varints and the
  reference format agree, so a number below \<open>2 ^ 32\<close> has the same encoding by either;
  \<^verbatim>\<open>VarintLength\<close> is the number of bytes written, and the local buffers of five and ten bytes
  are large enough.\<close>

theorem varint_writers_agree:
  "PutVarint32 dst v = PutVarint64 dst (ucast v) \<and> PutVarint64 dst w = dst @ vbytes (unat w) \<and>
   length (PutVarint64 dst w) = length dst + VarintLength w \<and> VarintLength w \<le> 10 \<and>
   VarintLength (ucast v) \<le> 5"
  using length_vbytes_64[of w] length_vbytes_32[of v]
  by (simp add: PutVarint32_def PutVarint64_def EncodeVarint32_eq EncodeVarint64_eq VarintLength_eq)

text \<open>C37. What the \<^verbatim>\<open>Put\<close> routines append, the \<^verbatim>\<open>Get\<close> routines take off the front again, in
  the same order, whatever follows.\<close>

theorem coding_roundtrip:
  assumes "length s < 2 ^ 32" "length t < 2 ^ 32"
  shows "case GetVarint32 (PutLengthPrefixedSlice (PutLengthPrefixedSlice (PutVarint64 (PutVarint32 [] v) w) s) t @ rest) of
      (v', p) \<Rightarrow> case GetVarint64 p of
      (w', p) \<Rightarrow> case GetLengthPrefixedSlice p of
      (s', p) \<Rightarrow> case GetLengthPrefixedSlice p of
      (t', p) \<Rightarrow> v' = Some v \<and> w' = Some w \<and> s' = Some s \<and> t' = Some t \<and> p = rest"
  using assms
  by (simp add: PutVarint32_def PutVarint64_def PutLengthPrefixedSlice_eq coding_simps)

theorem coding_roundtrip_witness:
  "case GetVarint32 (PutLengthPrefixedSlice (PutLengthPrefixedSlice (PutVarint64 (PutVarint32 [] 300) 5) [7, 8]) [] @ [1]) of
      (v', p) \<Rightarrow> case GetVarint64 p of
      (w', p) \<Rightarrow> case GetLengthPrefixedSlice p of
      (s', p) \<Rightarrow> case GetLengthPrefixedSlice p of
      (t', p) \<Rightarrow> v' = Some 300 \<and> w' = Some 5 \<and> s' = Some [7, 8] \<and> t' = Some [] \<and> p = [1]"
  by (rule coding_roundtrip) simp_all

end
