(* ===== verification/Ldb_Order.thy ===== *)
theory Ldb_Order
  imports Prelude
begin

text \<open>
  The order behind every three-way comparison of leveldb: \<open>compare a b\<close> is negative, zero or
  positive. The locale \<open>compare_order\<close> states the laws on the keys that satisfy \<open>key_ok\<close>; blocks, tables, skip
  lists, memtables and the comparators themselves build on it.
\<close>

text \<open>A key cuts a list into the smaller elements and the others.\<close>

definition below :: "('k \<Rightarrow> 'k \<Rightarrow> int) \<Rightarrow> 'k \<Rightarrow> ('a \<Rightarrow> 'k) \<Rightarrow> 'a list \<Rightarrow> 'a list" where
  "below compare key f xs = filter (\<lambda>x. compare (f x) key < 0) xs"

definition upwards :: "('k \<Rightarrow> 'k \<Rightarrow> int) \<Rightarrow> 'k \<Rightarrow> ('a \<Rightarrow> 'k) \<Rightarrow> 'a list \<Rightarrow> 'a list" where
  "upwards compare key f xs = filter (\<lambda>x. \<not> compare (f x) key < 0) xs"

locale compare_order =
  fixes compare :: "'k \<Rightarrow> 'k \<Rightarrow> int" and key_ok :: "'k \<Rightarrow> bool"
  assumes refl: "key_ok a \<Longrightarrow> compare a a = 0"
    and swap: "key_ok a \<Longrightarrow> key_ok b \<Longrightarrow> compare a b < 0 \<longleftrightarrow> 0 < compare b a"
    and trans: "key_ok a \<Longrightarrow> key_ok b \<Longrightarrow> key_ok c \<Longrightarrow> compare a b \<le> 0 \<Longrightarrow> compare b c \<le> 0 \<Longrightarrow> compare a c \<le> 0"
begin

lemma eq_swap: "key_ok a \<Longrightarrow> key_ok b \<Longrightarrow> compare a b = 0 \<longleftrightarrow> compare b a = 0"
  using swap[of a b] swap[of b a] by linarith

lemma not_less: "key_ok a \<Longrightarrow> key_ok b \<Longrightarrow> \<not> compare a b < 0 \<longleftrightarrow> compare b a \<le> 0"
  using swap[of a b] by linarith

lemma le_less_trans:
  assumes "key_ok a" "key_ok b" "key_ok c" "compare a b \<le> 0" "compare b c < 0"
  shows "compare a c < 0"
proof (rule ccontr)
  assume "\<not> compare a c < 0"
  then have "compare c a \<le> 0" using not_less[of a c] assms by blast
  then have "compare c b \<le> 0" using trans[of c a b] assms by blast
  then show False using not_less[of b c] assms by blast
qed

lemma less_le_trans:
  assumes "key_ok a" "key_ok b" "key_ok c" "compare a b < 0" "compare b c \<le> 0"
  shows "compare a c < 0"
proof (rule ccontr)
  assume "\<not> compare a c < 0"
  then have "compare c a \<le> 0" using not_less[of a c] assms by blast
  then have "compare b a \<le> 0" using trans[of b c a] assms by blast
  then show False using not_less[of a b] assms by blast
qed

lemma less_trans:
  "key_ok a \<Longrightarrow> key_ok b \<Longrightarrow> key_ok c \<Longrightarrow> compare a b < 0 \<Longrightarrow> compare b c < 0 \<Longrightarrow> compare a c < 0"
  using le_less_trans by force

lemma eq_trans:
  assumes "key_ok a" "key_ok b" "key_ok c" "compare a b = 0" "compare b c = 0"
  shows "compare a c = 0"
  using trans[of a b c] trans[of c b a] eq_swap[of a b] eq_swap[of b c] not_less[of a c] assms
  by fastforce

lemma sorted_cut:
  assumes "sorted_wrt (\<lambda>x y. compare (f x) (f y) < 0) xs" "\<forall>x\<in>set xs. key_ok (f x)" "key_ok key"
  shows "xs = below compare key f xs @ upwards compare key f xs"
  using assms(1,2)
proof (induction xs)
  case (Cons x xs)
  show ?case
  proof (cases "compare (f x) key < 0")
    case False
    have "\<not> compare (f y) key < 0" if y: "y \<in> set xs" for y
    proof
      assume "compare (f y) key < 0"
      then have "compare (f x) key < 0"
        using less_trans[of "f x" "f y" key] Cons.prems y assms(3) by auto
      with False show False ..
    qed
    then have "below compare key f xs = []" by (auto simp: below_def filter_empty_conv)
    moreover have "upwards compare key f xs = xs" using calculation Cons by simp
    ultimately show ?thesis using False by (simp add: below_def upwards_def)
  next
    case True
    with Cons show ?thesis by (simp add: below_def upwards_def)
  qed
qed (simp add: below_def upwards_def)

end

end
