(* ===== verification/Ldb_Format.thy ===== *)
theory Ldb_Format
  imports Ldb_Coding Ldb_Order "HOL-Library.List_Lexorder"
begin

text \<open>
  Keys and their order: \<^verbatim>\<open>Slice::compare\<close> of \<^verbatim>\<open>include/leveldb/slice.h\<close>, the bytewise comparator
  of \<^verbatim>\<open>util/comparator.cc\<close>, and the internal keys of \<^verbatim>\<open>db/dbformat.h\<close> and \<^verbatim>\<open>db/dbformat.cc\<close>.

  The abstract class \<^verbatim>\<open>Comparator\<close> is a record of its three operations. Its contract
  (\<^verbatim>\<open>include/leveldb/comparator.h\<close>) is the locale \<open>comparator_contract\<close>: \<open>Compare\<close> is a total order up to
  equivalence, a separator lies between its bounds and a successor is not smaller. The contract
  is proved for the bytewise comparator, and for the comparator of internal keys on top of any
  user comparator that satisfies it.
\<close>

section \<open>Comparing slices\<close>

fun memcmp :: "byte list \<Rightarrow> byte list \<Rightarrow> nat \<Rightarrow> int" where
  "memcmp (x # xs) (y # ys) (Suc n) =
     (if x < y then -1 else if y < x then 1 else memcmp xs ys n)"
| "memcmp xs ys n = 0"

definition compare_slice :: "slice \<Rightarrow> slice \<Rightarrow> int" where
  "compare_slice a b =
     (let min_len = (if length a < length b then length a else length b);
          r = memcmp a b min_len
      in if r = 0 then if length a < length b then -1 else if length a > length b then 1 else r
         else r)"

definition starts_with :: "slice \<Rightarrow> slice \<Rightarrow> bool" where
  "starts_with s x \<longleftrightarrow> length x \<le> length s \<and> memcmp s x (length x) = 0"

definition slice_equal :: "slice \<Rightarrow> slice \<Rightarrow> bool" where
  "slice_equal x y \<longleftrightarrow> length x = length y \<and> memcmp x y (length x) = 0"

record Comparator =
  Compare :: "slice \<Rightarrow> slice \<Rightarrow> int"
  FindShortestSeparator :: "slice \<Rightarrow> slice \<Rightarrow> slice"
  FindShortSuccessor :: "slice \<Rightarrow> slice"

section \<open>The bytewise comparator\<close>

function diff_loop :: "nat \<Rightarrow> slice \<Rightarrow> slice \<Rightarrow> nat \<Rightarrow> nat" where
  "diff_loop min_length start limit diff_index =
     (if diff_index < min_length \<and> start ! diff_index = limit ! diff_index
      then diff_loop min_length start limit (diff_index + 1) else diff_index)"
  by pat_completeness auto
termination
  by (relation "measure (\<lambda>(m, s, l, i). m - i)") auto

definition bytewise_FindShortestSeparator :: "slice \<Rightarrow> slice \<Rightarrow> slice" where
  "bytewise_FindShortestSeparator start limit =
     (let min_length = min (length start) (length limit);
          diff_index = diff_loop min_length start limit 0
      in if diff_index \<ge> min_length then start
         else let diff_byte = start ! diff_index in
           if diff_byte < 0xff \<and> unat diff_byte + 1 < unat (limit ! diff_index)
           then take (diff_index + 1) (start[diff_index := start ! diff_index + 1])
           else start)"

function successor_loop :: "slice \<Rightarrow> nat \<Rightarrow> slice" where
  "successor_loop key i =
     (if i < length key then
        let byte = key ! i in
        if byte \<noteq> 0xff then take (i + 1) (key[i := byte + 1]) else successor_loop key (i + 1)
      else key)"
  by pat_completeness auto
termination
  by (relation "measure (\<lambda>(key, i). length key - i)") auto

definition BytewiseComparator :: Comparator where
  "BytewiseComparator = \<lparr>Compare = compare_slice,
     FindShortestSeparator = bytewise_FindShortestSeparator,
     FindShortSuccessor = (\<lambda>key. successor_loop key 0)\<rparr>"

declare diff_loop.simps [simp del] successor_loop.simps [simp del]

section \<open>Internal keys\<close>

datatype ValueType = kTypeDeletion | kTypeValue

fun type_code :: "ValueType \<Rightarrow> 64 word" where
  "type_code kTypeDeletion = 0"
| "type_code kTypeValue = 1"

definition kValueTypeForSeek :: ValueType where
  "kValueTypeForSeek = kTypeValue"

type_synonym SequenceNumber = "64 word"

definition kMaxSequenceNumber :: SequenceNumber where
  "kMaxSequenceNumber = push_bit 56 1 - 1"

record ParsedInternalKey =
  user_key :: slice
  sequence :: SequenceNumber
  vtype :: ValueType

definition InternalKeyEncodingLength :: "ParsedInternalKey \<Rightarrow> nat" where
  "InternalKeyEncodingLength key = length (user_key key) + 8"

definition PackSequenceAndType :: "64 word \<Rightarrow> ValueType \<Rightarrow> 64 word" where
  "PackSequenceAndType seq t = push_bit 8 seq OR type_code t"

definition AppendInternalKey :: "slice \<Rightarrow> ParsedInternalKey \<Rightarrow> slice" where
  "AppendInternalKey result key =
     PutFixed64 (result @ user_key key) (PackSequenceAndType (sequence key) (vtype key))"

definition ExtractUserKey :: "slice \<Rightarrow> slice" where
  "ExtractUserKey internal_key = take (length internal_key - 8) internal_key"

definition ParseInternalKey :: "slice \<Rightarrow> ParsedInternalKey option" where
  "ParseInternalKey internal_key =
     (let n = length internal_key in
      if n < 8 then None
      else let num = DecodeFixed64 (drop (n - 8) internal_key); c = (ucast (num AND 0xff) :: byte) in
        if c = 0 then Some \<lparr>user_key = take (n - 8) internal_key, sequence = drop_bit 8 num, vtype = kTypeDeletion\<rparr>
        else if c = 1 then Some \<lparr>user_key = take (n - 8) internal_key, sequence = drop_bit 8 num, vtype = kTypeValue\<rparr>
        else None)"

definition ikc_Compare :: "Comparator \<Rightarrow> slice \<Rightarrow> slice \<Rightarrow> int" where
  "ikc_Compare user_comparator akey bkey =
     (let r = Compare user_comparator (ExtractUserKey akey) (ExtractUserKey bkey) in
      if r = 0 then
        let anum = DecodeFixed64 (drop (length akey - 8) akey);
            bnum = DecodeFixed64 (drop (length bkey - 8) bkey)
        in if anum > bnum then -1 else if anum < bnum then 1 else r
      else r)"

definition ikc_FindShortestSeparator :: "Comparator \<Rightarrow> slice \<Rightarrow> slice \<Rightarrow> slice" where
  "ikc_FindShortestSeparator user_comparator start limit =
     (let user_start = ExtractUserKey start; user_limit = ExtractUserKey limit;
          tmp = FindShortestSeparator user_comparator user_start user_limit
      in if length tmp < length user_start \<and> Compare user_comparator user_start tmp < 0
         then PutFixed64 tmp (PackSequenceAndType kMaxSequenceNumber kValueTypeForSeek)
         else start)"

definition ikc_FindShortSuccessor :: "Comparator \<Rightarrow> slice \<Rightarrow> slice" where
  "ikc_FindShortSuccessor user_comparator key =
     (let ukey = ExtractUserKey key; tmp = FindShortSuccessor user_comparator ukey
      in if length tmp < length ukey \<and> Compare user_comparator ukey tmp < 0
         then PutFixed64 tmp (PackSequenceAndType kMaxSequenceNumber kValueTypeForSeek)
         else key)"

definition InternalKeyComparator :: "Comparator \<Rightarrow> Comparator" where
  "InternalKeyComparator user_comparator = \<lparr>Compare = ikc_Compare user_comparator,
     FindShortestSeparator = ikc_FindShortestSeparator user_comparator,
     FindShortSuccessor = ikc_FindShortSuccessor user_comparator\<rparr>"

text \<open>The class \<^verbatim>\<open>InternalKey\<close> is the string \<^verbatim>\<open>rep_\<close> it wraps.\<close>

definition InternalKey :: "slice \<Rightarrow> SequenceNumber \<Rightarrow> ValueType \<Rightarrow> slice" where
  "InternalKey ukey s t = AppendInternalKey [] \<lparr>user_key = ukey, sequence = s, vtype = t\<rparr>"

definition InternalKey_SetFrom :: "ParsedInternalKey \<Rightarrow> slice" where
  "InternalKey_SetFrom p = AppendInternalKey [] p"

text \<open>A lookup key is its array with the position \<open>kstart\<close> where the user key starts. The array
  has \<open>needed\<close> bytes or is the local one of 200 bytes.\<close>

record LookupKey =
  lk_needed :: nat
  lk_data :: "byte list"
  lk_kstart :: nat

definition new_LookupKey :: "slice \<Rightarrow> SequenceNumber \<Rightarrow> LookupKey" where
  "new_LookupKey ukey s =
     (let usize = length ukey; needed = usize + 13; len = EncodeVarint32 (of_nat (usize + 8))
      in \<lparr>lk_needed = (if needed \<le> 200 then 200 else needed),
          lk_data = len @ ukey @ EncodeFixed64 (PackSequenceAndType s kValueTypeForSeek),
          lk_kstart = length len\<rparr>)"

definition memtable_key :: "LookupKey \<Rightarrow> slice" where
  "memtable_key k = lk_data k"

definition internal_key :: "LookupKey \<Rightarrow> slice" where
  "internal_key k = drop (lk_kstart k) (lk_data k)"

definition lk_user_key :: "LookupKey \<Rightarrow> slice" where
  "lk_user_key k = take (length (lk_data k) - lk_kstart k - 8) (drop (lk_kstart k) (lk_data k))"

section \<open>The bytewise order is the lexicographic order\<close>

lemma memcmp_eq_0: "n \<le> length a \<Longrightarrow> n \<le> length b \<Longrightarrow> memcmp a b n = 0 \<longleftrightarrow> take n a = take n b"
  by (induction a b n rule: memcmp.induct) auto

lemma compare_slice_Nil [simp]:
  "compare_slice [] [] = 0" "compare_slice [] (y # ys) = -1" "compare_slice (x # xs) [] = 1"
  by (simp_all add: compare_slice_def Let_def)

lemma compare_slice_Cons [simp]:
  "compare_slice (x # xs) (y # ys) = (if x < y then -1 else if y < x then 1 else compare_slice xs ys)"
  by (simp add: compare_slice_def Let_def)

lemma compare_slice_cases:
  "compare_slice a b = (if a < b then -1 else if b < a then 1 else 0)"
proof (induction a arbitrary: b)
  case Nil
  show ?case by (cases b) auto
next
  case (Cons x a)
  then show ?case by (cases b) auto
qed

lemma compare_slice_order:
  "compare_slice a b < 0 \<longleftrightarrow> a < b" "compare_slice a b \<le> 0 \<longleftrightarrow> a \<le> b"
  "compare_slice a b = 0 \<longleftrightarrow> a = b" "0 < compare_slice a b \<longleftrightarrow> b < a"
  by (auto simp: compare_slice_cases)

lemma starts_with_iff: "starts_with s x \<longleftrightarrow> (\<exists>t. s = x @ t)"
proof
  assume "starts_with s x"
  then have "take (length x) s = x" by (auto simp: starts_with_def memcmp_eq_0)
  then show "\<exists>t. s = x @ t" by (metis append_take_drop_id)
qed (auto simp: starts_with_def memcmp_eq_0)

lemma slice_equal_iff: "slice_equal x y \<longleftrightarrow> x = y"
  by (auto simp: slice_equal_def memcmp_eq_0)

section \<open>The contract of a comparator\<close>

locale comparator_contract = compare_order "Compare C" key_ok
  for C :: Comparator and key_ok :: "slice \<Rightarrow> bool" +
  assumes separator: "key_ok start \<Longrightarrow> key_ok limit \<Longrightarrow> Compare C start limit < 0 \<Longrightarrow>
          key_ok (FindShortestSeparator C start limit) \<and>
          Compare C start (FindShortestSeparator C start limit) \<le> 0 \<and>
          Compare C (FindShortestSeparator C start limit) limit < 0"
    and successor: "key_ok key \<Longrightarrow> key_ok (FindShortSuccessor C key) \<and>
          Compare C key (FindShortSuccessor C key) \<le> 0"
begin

text \<open>Keys that are given in increasing order stay apart by the separators: what an index block
  relies on.\<close>

lemma separator_orders:
  assumes "key_ok a" "key_ok start" "key_ok limit" "key_ok b"
    and "Compare C a start \<le> 0" "Compare C start limit < 0" "Compare C limit b \<le> 0"
  shows "Compare C a (FindShortestSeparator C start limit) \<le> 0 \<and>
         Compare C (FindShortestSeparator C start limit) b < 0"
  using separator[of start limit] trans[of a start "FindShortestSeparator C start limit"]
    less_le_trans[of "FindShortestSeparator C start limit" limit b] assms by blast

end

section \<open>The bytewise comparator satisfies it\<close>

lemma diff_loop_spec:
  assumes "i \<le> m" "m \<le> length s" "m \<le> length l" "take i s = take i l"
  shows "diff_loop m s l i \<le> m \<and> take (diff_loop m s l i) s = take (diff_loop m s l i) l \<and>
    (diff_loop m s l i < m \<longrightarrow> s ! diff_loop m s l i \<noteq> l ! diff_loop m s l i)"
  using assms
proof (induction m s l i rule: diff_loop.induct)
  case (1 m s l i)
  show ?case
  proof (cases "i < m \<and> s ! i = l ! i")
    case True
    with 1 show ?thesis by (subst (1 2 3 4 5 6) diff_loop.simps) (simp add: take_Suc_conv_app_nth)
  next
    case False
    with 1 show ?thesis by (subst (1 2 3 4 5 6) diff_loop.simps) auto
  qed
qed

lemma less_append_iff: "(p @ xs :: byte list) < p @ ys \<longleftrightarrow> xs < ys"
  by (induction p) auto

lemma byte_succ: "(x :: byte) \<noteq> 255 \<Longrightarrow> unat (x + 1) = unat x + 1"
proof -
  assume "x \<noteq> 255"
  then have "unat x \<noteq> 255" by (auto simp: word_unat_eq_iff)
  then show ?thesis using unat_bound_8[of x] by (simp add: unat_word_ariths)
qed

lemma byte_succ_less: "(x :: byte) \<noteq> 255 \<Longrightarrow> x < x + 1"
  by (simp add: word_less_nat_alt byte_succ)

lemma bytewise_separator:
  assumes "start < limit"
  shows "start \<le> bytewise_FindShortestSeparator start limit" (is "_ \<le> ?r")
    and "bytewise_FindShortestSeparator start limit < limit"
    and "length (bytewise_FindShortestSeparator start limit) \<le> length start"
proof -
  let ?m = "min (length start) (length limit)"
  define d where "d = diff_loop ?m start limit 0"
  have d: "take d start = take d limit" "d < ?m \<Longrightarrow> start ! d \<noteq> limit ! d"
    using diff_loop_spec[of 0 ?m start limit] by (simp_all add: d_def)
  have *: "start \<le> ?r \<and> ?r < limit \<and> length ?r \<le> length start"
  proof (cases "d < ?m \<and> unat (start ! d) + 1 < unat (limit ! d) \<and> start ! d < 0xff")
    case True
    let ?p = "take d start" and ?x = "start ! d" and ?y = "limit ! d"
    have s: "start = ?p @ ?x # drop (Suc d) start" using True by (simp add: id_take_nth_drop)
    have l: "limit = ?p @ ?y # drop (Suc d) limit"
      unfolding d(1) using True by (simp add: id_take_nth_drop)
    have r: "?r = ?p @ [?x + 1]"
      using True by (auto simp: bytewise_FindShortestSeparator_def Let_def d_def[symmetric] not_le
          take_Suc_conv_app_nth)
    have "?x \<noteq> 255" using True by auto
    then have lt: "?x < ?x + 1" and "unat (?x + 1) = unat ?x + 1"
      by (rule byte_succ_less, rule byte_succ)
    then have "?x + 1 < ?y" using True by (simp add: word_less_nat_alt)
    then have "?r < limit" by (subst l) (simp add: r less_append_iff)
    moreover have "start < ?r" using lt by (subst s) (simp add: r less_append_iff)
    moreover have "length ?r \<le> length start" using True by (simp add: r)
    ultimately show ?thesis by simp
  next
    case False
    then have "?r = start"
      by (auto simp: bytewise_FindShortestSeparator_def Let_def d_def[symmetric] not_le)
    then show ?thesis using assms by simp
  qed
  then show "start \<le> ?r" "?r < limit" "length ?r \<le> length start" by auto
qed

lemma successor_loop_le: "key \<le> successor_loop key i \<and> length (successor_loop key i) \<le> length key"
proof (induction key i rule: successor_loop.induct)
  case (1 key i)
  show ?case
  proof (cases "i < length key \<and> key ! i \<noteq> 0xff")
    case True
    then have s: "key = take i key @ key ! i # drop (Suc i) key" by (simp add: id_take_nth_drop)
    have "key ! i < key ! i + 1"
      using True by (intro byte_succ_less) simp
    then have "key < take i key @ [key ! i + 1]" by (subst s) (simp add: less_append_iff)
    moreover have "successor_loop key i = take i key @ [key ! i + 1]"
      using True by (subst successor_loop.simps) (simp add: Let_def take_Suc_conv_app_nth)
    ultimately show ?thesis using True by simp
  next
    case False
    with 1 show ?thesis by (subst (1 2) successor_loop.simps) (auto simp: Let_def)
  qed
qed

interpretation bytewise: comparator_contract BytewiseComparator "\<lambda>_. True"
  by unfold_locales
    (auto simp: BytewiseComparator_def compare_slice_order bytewise_separator successor_loop_le)

section \<open>Packing and parsing internal keys\<close>

definition key_num :: "slice \<Rightarrow> 64 word" where
  "key_num key = DecodeFixed64 (drop (length key - 8) key)"

lemma AppendInternalKey_eq:
  "AppendInternalKey r k = r @ user_key k @ EncodeFixed64 (PackSequenceAndType (sequence k) (vtype k))"
  by (simp add: AppendInternalKey_def PutFixed64_def)

lemma InternalKey_eq: "InternalKey u s t = u @ EncodeFixed64 (PackSequenceAndType s t)"
  by (simp add: InternalKey_def AppendInternalKey_eq)

lemma key_parts [simp]:
  "ExtractUserKey (u @ EncodeFixed64 n) = u" "key_num (u @ EncodeFixed64 n) = n"
  using DecodeFixed64_Encode[of n "[]"] by (simp_all add: ExtractUserKey_def key_num_def)

lemma key_split: "8 \<le> length k \<Longrightarrow> k = ExtractUserKey k @ EncodeFixed64 (key_num k)"
  by (simp add: ExtractUserKey_def key_num_def EncodeFixed64_Decode)

lemma type_code_bound: "unat (type_code t) < 2"
  by (cases t) auto

lemma unat_pack:
  assumes "seq \<le> kMaxSequenceNumber"
  shows "unat (PackSequenceAndType seq t) = 256 * unat seq + unat (type_code t)"
proof -
  have b: "unat seq < 2 ^ 56" using assms by (simp add: kMaxSequenceNumber_def word_le_nat_alt)
  have "push_bit 8 seq OR type_code t = type_code t + push_bit 8 seq"
    using or_push_bit[of "type_code t" 8 seq] type_code_bound[of t] by (simp add: or.commute)
  moreover have "unat (push_bit 8 seq) = unat seq * 2 ^ 8"
    using unat_push_bit_small[of "unat seq" 8, where 'a = 64] b by simp
  ultimately show ?thesis
    using b type_code_bound[of t] by (simp add: PackSequenceAndType_def unat_word_ariths)
qed

lemma pack_drop: "seq \<le> kMaxSequenceNumber \<Longrightarrow> drop_bit 8 (PackSequenceAndType seq t) = seq"
  using type_code_bound[of t] by (simp add: word_unat_eq_iff unat_drop_bit unat_pack)

lemma pack_low: "PackSequenceAndType seq t AND 0xff = type_code t"
  by (cases t) (auto intro!: bit_word_eqI simp: PackSequenceAndType_def and_255 bit_simps)

lemma pack_less:
  assumes "s \<le> kMaxSequenceNumber" "s' \<le> kMaxSequenceNumber"
  shows "PackSequenceAndType s t < PackSequenceAndType s' t' \<longleftrightarrow>
           s < s' \<or> s = s' \<and> t = kTypeDeletion \<and> t' = kTypeValue"
  using assms by (cases t; cases t') (auto simp: word_less_nat_alt unat_pack word_unat_eq_iff)

lemma ParseInternalKey_Append:
  "sequence k \<le> kMaxSequenceNumber \<Longrightarrow> ParseInternalKey (AppendInternalKey [] k) = Some k"
  using DecodeFixed64_Encode[of "PackSequenceAndType (sequence k) (vtype k)" "[]"]
  by (cases "vtype k") (simp_all add: ParseInternalKey_def AppendInternalKey_eq pack_low pack_drop Let_def)

lemma pack_parts:
  assumes "num AND 0xff = type_code t"
  shows "PackSequenceAndType (drop_bit 8 num) t = num"
proof -
  have "push_bit 8 (drop_bit 8 num) OR take_bit 8 num = num"
    by (auto intro!: bit_word_eqI simp: bit_simps)
  then show ?thesis using assms by (simp add: PackSequenceAndType_def and_255)
qed

lemma Append_ParseInternalKey:
  assumes "ParseInternalKey key = Some k"
  shows "AppendInternalKey [] k = key"
proof -
  let ?num = "key_num key"
  have n: "8 \<le> length key" and u: "user_key k = ExtractUserKey key" and q: "sequence k = drop_bit 8 ?num"
    and c: "(ucast (?num AND 0xff) :: byte) = ucast (type_code (vtype k))"
    using assms by (auto simp: ParseInternalKey_def ExtractUserKey_def key_num_def Let_def
        split: if_splits)
  have "?num AND 0xff = ucast (ucast (?num AND 0xff) :: byte)"
    by (auto intro!: bit_word_eqI simp: bit_simps and_255)
  also have "\<dots> = type_code (vtype k)" unfolding c by (cases "vtype k") simp_all
  finally show ?thesis using key_split[OF n]
    by (simp add: AppendInternalKey_eq u q pack_parts)
qed

section \<open>The order of internal keys\<close>

context comparator_contract
begin

lemma ikc_less:
  "ikc_Compare C a b < 0 \<longleftrightarrow> Compare C (ExtractUserKey a) (ExtractUserKey b) < 0 \<or>
     Compare C (ExtractUserKey a) (ExtractUserKey b) = 0 \<and> key_num b < key_num a"
  by (auto simp: ikc_Compare_def Let_def key_num_def)

lemma ikc_le:
  "ikc_Compare C a b \<le> 0 \<longleftrightarrow> Compare C (ExtractUserKey a) (ExtractUserKey b) < 0 \<or>
     Compare C (ExtractUserKey a) (ExtractUserKey b) = 0 \<and> key_num b \<le> key_num a"
  by (auto simp: ikc_Compare_def Let_def key_num_def)

lemma ikc_greater:
  "0 < ikc_Compare C a b \<longleftrightarrow> 0 < Compare C (ExtractUserKey a) (ExtractUserKey b) \<or>
     Compare C (ExtractUserKey a) (ExtractUserKey b) = 0 \<and> key_num a < key_num b"
  by (auto simp: ikc_Compare_def Let_def key_num_def split: if_splits)

lemma internal_separator:
  assumes "8 \<le> length a" "8 \<le> length b" "key_ok (ExtractUserKey a)" "key_ok (ExtractUserKey b)" "ikc_Compare C a b < 0"
    and equal: "Compare C (ExtractUserKey a) (ExtractUserKey b) = 0 \<Longrightarrow>
      FindShortestSeparator C (ExtractUserKey a) (ExtractUserKey b) = ExtractUserKey a"
  shows "8 \<le> length (ikc_FindShortestSeparator C a b) \<and> key_ok (ExtractUserKey (ikc_FindShortestSeparator C a b)) \<and>
    ikc_Compare C a (ikc_FindShortestSeparator C a b) \<le> 0 \<and>
    ikc_Compare C (ikc_FindShortestSeparator C a b) b < 0"
proof -
  let ?a = "ExtractUserKey a" and ?b = "ExtractUserKey b"
  let ?tmp = "FindShortestSeparator C ?a ?b"
  show ?thesis
  proof (cases "length ?tmp < length ?a \<and> Compare C ?a ?tmp < 0")
    case True
    have "Compare C ?a ?b < 0"
      using assms True unfolding ikc_less by auto
    then have "key_ok ?tmp" "Compare C ?tmp ?b < 0" using separator[of ?a ?b] assms by auto
    then show ?thesis using True
      by (simp add: ikc_FindShortestSeparator_def Let_def PutFixed64_def ikc_less ikc_le)
  next
    case False
    then have "ikc_FindShortestSeparator C a b = a" by (auto simp: ikc_FindShortestSeparator_def Let_def)
    then show ?thesis using assms refl by (simp add: ikc_le)
  qed
qed

lemma internal_successor:
  assumes "8 \<le> length k" "key_ok (ExtractUserKey k)"
  shows "8 \<le> length (ikc_FindShortSuccessor C k) \<and> key_ok (ExtractUserKey (ikc_FindShortSuccessor C k)) \<and>
    ikc_Compare C k (ikc_FindShortSuccessor C k) \<le> 0"
  using assms successor[of "ExtractUserKey k"] refl[of "ExtractUserKey k"]
  by (auto simp: ikc_FindShortSuccessor_def Let_def PutFixed64_def ikc_le)

end

text \<open>The separator of two versions of one user key is asked for although \<^verbatim>\<open>comparator.h\<close> speaks of
  \<^verbatim>\<open>*start < limit\<close> only. A comparator that satisfies the contract may then return a shorter and greater key, and the
  separator is no longer below the limit.\<close>

definition restless_comparator :: Comparator where
  "restless_comparator = BytewiseComparator\<lparr>FindShortestSeparator := (\<lambda>start limit.
     if compare_slice start limit < 0 then FindShortestSeparator BytewiseComparator start limit else [255])\<rparr>"

lemma restless_contract: "comparator_contract restless_comparator (\<lambda>_. True)"
proof -
  have c: "Compare restless_comparator = Compare BytewiseComparator" "FindShortSuccessor restless_comparator = FindShortSuccessor BytewiseComparator"
    "Compare BytewiseComparator = compare_slice"
    by (simp_all add: restless_comparator_def BytewiseComparator_def)
  have s: "FindShortestSeparator restless_comparator s l = FindShortestSeparator BytewiseComparator s l" if "Compare BytewiseComparator s l < 0" for s l
    using that c(3) by (simp add: restless_comparator_def)
  have o: "compare_order (Compare restless_comparator) (\<lambda>_. True)" unfolding c(1) by (rule bytewise.compare_order_axioms)
  show ?thesis
    by (rule comparator_contract.intro[OF o comparator_contract_axioms.intro]; unfold c(1,2)) (use s bytewise.separator bytewise.successor in auto)
qed

lemma separator_of_versions_unsafe:
  "let C = restless_comparator; a = InternalKey [1, 1] 7 kTypeValue; b = InternalKey [1, 1] 4 kTypeValue
   in comparator_contract C (\<lambda>_. True) \<and> ikc_Compare C a b < 0 \<and> \<not> ikc_Compare C (ikc_FindShortestSeparator C a b) b < 0"
  unfolding Let_def by (intro conjI restless_contract) code_simp+

text \<open>A user comparator for the database must therefore leave the start key alone when it is equivalent to the
  limit. The bytewise comparator does.\<close>

locale user_comparator = comparator_contract C key_ok for C :: Comparator and key_ok +
  assumes separator_equal: "key_ok start \<Longrightarrow> key_ok limit \<Longrightarrow> Compare C start limit = 0 \<Longrightarrow>
    FindShortestSeparator C start limit = start"
begin

abbreviation ikey_ok :: "slice \<Rightarrow> bool" where
  "ikey_ok k \<equiv> 8 \<le> length k \<and> key_ok (ExtractUserKey k)"

end

sublocale user_comparator \<subseteq> internal: comparator_contract "InternalKeyComparator C"
    "\<lambda>k. 8 \<le> length k \<and> key_ok (ExtractUserKey k)"
proof
  fix a b c
  assume a: "8 \<le> length a \<and> key_ok (ExtractUserKey a)" 
  show "Compare (InternalKeyComparator C) a a = 0"
    using a refl by (simp add: InternalKeyComparator_def ikc_Compare_def Let_def)
  assume b: "8 \<le> length b \<and> key_ok (ExtractUserKey b)"
  have sw: "(0 < Compare C (ExtractUserKey b) (ExtractUserKey a)) \<longleftrightarrow> Compare C (ExtractUserKey a) (ExtractUserKey b) < 0"
     "(Compare C (ExtractUserKey b) (ExtractUserKey a) = 0) \<longleftrightarrow> Compare C (ExtractUserKey a) (ExtractUserKey b) = 0"
    using swap eq_swap a b by auto
  show "(Compare (InternalKeyComparator C) a b < 0) = (0 < Compare (InternalKeyComparator C) b a)"
    using sw by (simp add: InternalKeyComparator_def ikc_less ikc_greater)
  assume c: "8 \<le> length c \<and> key_ok (ExtractUserKey c)"
    and "Compare (InternalKeyComparator C) a b \<le> 0" "Compare (InternalKeyComparator C) b c \<le> 0"
  then show "Compare (InternalKeyComparator C) a c \<le> 0"
    using a b le_less_trans[of "ExtractUserKey a" "ExtractUserKey b" "ExtractUserKey c"]
      less_le_trans[of "ExtractUserKey a" "ExtractUserKey b" "ExtractUserKey c"]
      eq_trans[of "ExtractUserKey a" "ExtractUserKey b" "ExtractUserKey c"]
    by (auto simp: InternalKeyComparator_def ikc_le)
qed (use internal_separator separator_equal internal_successor in \<open>auto simp: InternalKeyComparator_def\<close>)

interpretation bytewise_user: user_comparator BytewiseComparator "\<lambda>_. True"
proof
  fix start limit :: slice
  assume "Compare BytewiseComparator start limit = 0"
  then have "start = limit" by (simp add: BytewiseComparator_def compare_slice_order)
  moreover have "bytewise_FindShortestSeparator s s = s" for s
    using diff_loop_spec[of 0 "length s" s s]
    by (auto simp: bytewise_FindShortestSeparator_def Let_def)
  ultimately show "FindShortestSeparator BytewiseComparator start limit = start"
    by (simp add: BytewiseComparator_def)
qed

lemma bytewise_Compare [simp]: "Compare BytewiseComparator = compare_slice"
  by (simp add: BytewiseComparator_def)

lemma internal_Compare [simp]: "Compare (InternalKeyComparator C) = ikc_Compare C"
  by (simp add: InternalKeyComparator_def)

lemma internal_less:
  assumes "sequence k \<le> kMaxSequenceNumber" "sequence k' \<le> kMaxSequenceNumber"
  shows "ikc_Compare BytewiseComparator (AppendInternalKey [] k) (AppendInternalKey [] k') < 0 \<longleftrightarrow>
     user_key k < user_key k' \<or> user_key k = user_key k' \<and>
       (sequence k' < sequence k \<or>
        sequence k = sequence k' \<and> vtype k = kTypeValue \<and> vtype k' = kTypeDeletion)"
  using pack_less[OF assms(2,1)]
  by (auto simp: bytewise.ikc_less AppendInternalKey_eq compare_slice_order)

section \<open>Properties\<close>

text \<open>C34. Comparing slices is comparing their bytes lexicographically as unsigned numbers, a
  prefix first; a separator of two keys in order lies between them, a successor is not smaller,
  and neither is longer than the key it replaces.\<close>

theorem bytewise_comparator_correct:
  "(Compare BytewiseComparator a b < 0 \<longleftrightarrow> a < b) \<and> (Compare BytewiseComparator a b = 0 \<longleftrightarrow> a = b) \<and>
   (0 < Compare BytewiseComparator a b \<longleftrightarrow> b < a) \<and>
   (a < b \<longrightarrow> a \<le> FindShortestSeparator BytewiseComparator a b \<and>
      FindShortestSeparator BytewiseComparator a b < b \<and>
      length (FindShortestSeparator BytewiseComparator a b) \<le> length a) \<and>
   a \<le> FindShortSuccessor BytewiseComparator a \<and>
   length (FindShortSuccessor BytewiseComparator a) \<le> length a"
  by (simp add: BytewiseComparator_def compare_slice_order bytewise_separator successor_loop_le)

theorem bytewise_comparator_correct_witness:
  "[1, 5, 9] \<le> FindShortestSeparator BytewiseComparator [1, 5, 9] [1, 8] \<and>
   FindShortestSeparator BytewiseComparator [1, 5, 9] [1, 8] < [1, 8] \<and>
   FindShortestSeparator BytewiseComparator [1, 5, 9] [1, 8] = [1, 6]"
proof -
  have "FindShortestSeparator BytewiseComparator [1, 5, 9] [1, 8] = [1, 6]" by code_simp
  then show ?thesis using bytewise_comparator_correct[of "[1, 5, 9]" "[1, 8]"] by simp
qed

text \<open>C33. With any user comparator that satisfies the contract of \<^verbatim>\<open>comparator.h\<close>, the comparator of internal keys
  puts a separator between two internal keys in order and a successor behind its key: the
  assertions of \<^verbatim>\<open>InternalKeyComparator\<close> hold. For two versions of one user key, about which the contract says nothing, it is moreover
  assumed that the user comparator leaves the start key as it is.\<close>

theorem internal_separator_correct:
  assumes "comparator_contract C key_ok" "8 \<le> length a" "8 \<le> length b"
    and "key_ok (ExtractUserKey a)" "key_ok (ExtractUserKey b)" "Compare (InternalKeyComparator C) a b < 0"
    and "Compare C (ExtractUserKey a) (ExtractUserKey b) = 0 \<Longrightarrow>
      FindShortestSeparator C (ExtractUserKey a) (ExtractUserKey b) = ExtractUserKey a"
  defines "sep \<equiv> FindShortestSeparator (InternalKeyComparator C) a b"
  shows "Compare (InternalKeyComparator C) a sep \<le> 0 \<and> Compare (InternalKeyComparator C) sep b < 0 \<and>
    8 \<le> length sep \<and> key_ok (ExtractUserKey sep) \<and>
    Compare (InternalKeyComparator C) b (FindShortSuccessor (InternalKeyComparator C) b) \<le> 0"
  using comparator_contract.internal_separator[OF assms(1-5)] comparator_contract.internal_successor[OF assms(1,3,5)] assms(6-8)
  by (simp add: InternalKeyComparator_def)

theorem internal_separator_correct_witness:
  "let a = InternalKey [1, 5, 9] 7 kTypeValue; b = InternalKey [1, 8] 4 kTypeValue;
       sep = FindShortestSeparator (InternalKeyComparator BytewiseComparator) a b
   in Compare (InternalKeyComparator BytewiseComparator) a sep \<le> 0 \<and>
      Compare (InternalKeyComparator BytewiseComparator) sep b < 0 \<and>
      sep = InternalKey [1, 6] kMaxSequenceNumber kValueTypeForSeek"
proof -
  let ?a = "InternalKey [1, 5, 9] 7 kTypeValue" and ?b = "InternalKey [1, 8] 4 kTypeValue"
  have "8 \<le> length ?a" "8 \<le> length ?b" "Compare (InternalKeyComparator BytewiseComparator) ?a ?b < 0"
    "FindShortestSeparator (InternalKeyComparator BytewiseComparator) ?a ?b =
       InternalKey [1, 6] kMaxSequenceNumber kValueTypeForSeek"
    by code_simp+
  moreover have "Compare BytewiseComparator (ExtractUserKey ?a) (ExtractUserKey ?b) \<noteq> 0" by code_simp
  ultimately show ?thesis
    using internal_separator_correct[OF bytewise.comparator_contract_axioms, of ?a ?b] by (simp add: Let_def)
qed

text \<open>C35. An internal key is parsed back into its user key, sequence number and type; keys that
  parse are exactly those that are written; and internal keys are ordered by user key, then
  from the newest to the oldest sequence number, a value before a deletion.\<close>

theorem internal_key_roundtrip:
  assumes "sequence k \<le> kMaxSequenceNumber" "sequence k' \<le> kMaxSequenceNumber"
  shows "ParseInternalKey (AppendInternalKey [] k) = Some k \<and>
    (\<forall>key p. ParseInternalKey key = Some p \<longrightarrow> AppendInternalKey [] p = key) \<and>
    length (AppendInternalKey [] k) = InternalKeyEncodingLength k \<and>
    (Compare (InternalKeyComparator BytewiseComparator) (AppendInternalKey [] k) (AppendInternalKey [] k') < 0 \<longleftrightarrow>
       user_key k < user_key k' \<or> user_key k = user_key k' \<and>
         (sequence k' < sequence k \<or>
          sequence k = sequence k' \<and> vtype k = kTypeValue \<and> vtype k' = kTypeDeletion))"
  using assms ParseInternalKey_Append Append_ParseInternalKey internal_less[OF assms]
  by (simp add: InternalKeyEncodingLength_def) (simp add: AppendInternalKey_eq)

theorem internal_key_roundtrip_witness:
  "ParseInternalKey (AppendInternalKey [] \<lparr>user_key = [97], sequence = 5, vtype = kTypeDeletion\<rparr>) =
     Some \<lparr>user_key = [97], sequence = 5, vtype = kTypeDeletion\<rparr>"
  using internal_key_roundtrip[of "\<lparr>user_key = [97], sequence = 5, vtype = kTypeDeletion\<rparr>"
      "\<lparr>user_key = [97], sequence = 4, vtype = kTypeValue\<rparr>"]
  by (simp add: kMaxSequenceNumber_def word_le_nat_alt)

text \<open>C40. A lookup key fits the array it is built in, holds the user key, and separates the
  versions of the user key at its snapshot: the entries from the lookup key on are those
  whose sequence number is at most the one of the snapshot.\<close>

theorem lookup_key_snapshot:
  assumes "s \<le> kMaxSequenceNumber" "s' \<le> kMaxSequenceNumber" "length u < 2 ^ 32 - 8"
  shows "length (lk_data (new_LookupKey u s)) \<le> lk_needed (new_LookupKey u s) \<and>
    lk_user_key (new_LookupKey u s) = u \<and> internal_key (new_LookupKey u s) = InternalKey u s kValueTypeForSeek \<and>
    GetLengthPrefixedSlicePtr (memtable_key (new_LookupKey u s) @ rest) = Some (internal_key (new_LookupKey u s), rest) \<and>
    (Compare (InternalKeyComparator BytewiseComparator) (internal_key (new_LookupKey u s)) (InternalKey u s' t) \<le> 0
       \<longleftrightarrow> s' \<le> s)"
proof -
  have len: "length (EncodeVarint32 (of_nat (length u + 8))) \<le> 5"
    unfolding EncodeVarint32_eq by (rule length_vbytes_32)
  have i: "internal_key (new_LookupKey u s) = InternalKey u s kValueTypeForSeek"
    by (simp add: internal_key_def new_LookupKey_def Let_def InternalKey_eq)
  have m: "memtable_key (new_LookupKey u s) = prefixed (InternalKey u s kValueTypeForSeek)"
    by (simp add: memtable_key_def new_LookupKey_def Let_def InternalKey_eq prefixed_def)
  have "Compare BytewiseComparator u u = 0" by (rule bytewise.refl) simp
  then have "Compare (InternalKeyComparator BytewiseComparator) (InternalKey u s kValueTypeForSeek) (InternalKey u s' t) \<le> 0
      \<longleftrightarrow> PackSequenceAndType s' t \<le> PackSequenceAndType s kTypeValue"
    using bytewise.ikc_le[of "InternalKey u s kValueTypeForSeek" "InternalKey u s' t"]
    by (simp add: InternalKey_eq InternalKeyComparator_def kValueTypeForSeek_def)
  also have "\<dots> \<longleftrightarrow> s' \<le> s"
    using pack_less[OF assms(1,2), of kTypeValue t] by (simp add: linorder_not_less[symmetric])
  finally show ?thesis using len assms(3)
    by (simp add: i m GetLengthPrefixedSlicePtr_prefixed InternalKey_eq)
       (simp add: new_LookupKey_def lk_user_key_def Let_def)
qed

theorem lookup_key_snapshot_witness:
  "lk_user_key (new_LookupKey [1, 2] 9) = [1, 2] \<and>
   Compare (InternalKeyComparator BytewiseComparator) (internal_key (new_LookupKey [1, 2] 9)) (InternalKey [1, 2] 8 kTypeValue) \<le> 0"
  using lookup_key_snapshot[of 9 8 "[1, 2]" "[]" kTypeValue]
  by (auto simp: kMaxSequenceNumber_def word_le_nat_alt)

end
