(* ===== verification/Ldb_Status.thy ===== *)
theory Ldb_Status
  imports Ldb_Coding
begin

text \<open>
  The result type \<^verbatim>\<open>Status\<close> of \<^verbatim>\<open>include/leveldb/status.h\<close> and \<^verbatim>\<open>util/status.cc\<close>.

  A status is its member \<^verbatim>\<open>state_\<close>: \<open>None\<close> for the null pointer of a success, and otherwise the
  array with the length of the message (four bytes), the code and the message. Texts are
  strings in the source and bytes in the array; \<open>text_bytes\<close> is the conversion. The messages of
  the library are shorter than \<open>2 ^ 31\<close> bytes, so the 32-bit sizes do not wrap.
\<close>

definition text_bytes :: "string \<Rightarrow> slice" where
  "text_bytes s = map of_char s"

type_synonym Status = "byte list option"

datatype Code = kOk | kNotFound | kCorruption | kNotSupported | kInvalidArgument | kIOError

fun code_number :: "Code \<Rightarrow> byte" where
  "code_number kOk = 0"
| "code_number kNotFound = 1"
| "code_number kCorruption = 2"
| "code_number kNotSupported = 3"
| "code_number kInvalidArgument = 4"
| "code_number kIOError = 5"

definition new_Status :: "Code \<Rightarrow> slice \<Rightarrow> slice \<Rightarrow> Status" where
  "new_Status code msg msg2 =
     (let len1 = (of_nat (length msg) :: 32 word); len2 = (of_nat (length msg2) :: 32 word);
          size = len1 + (if len2 \<noteq> 0 then 2 + len2 else 0)
      in Some (le_bytes 4 size @ [code_number code] @ take (unat len1) msg @
          (if len2 \<noteq> 0 then text_bytes '': '' @ take (unat len2) msg2 else [])))"

definition Status_OK :: Status where "Status_OK = None"
definition NotFound :: "slice \<Rightarrow> slice \<Rightarrow> Status" where "NotFound = new_Status kNotFound"
definition Corruption :: "slice \<Rightarrow> slice \<Rightarrow> Status" where "Corruption = new_Status kCorruption"
definition NotSupported :: "slice \<Rightarrow> slice \<Rightarrow> Status" where "NotSupported = new_Status kNotSupported"
definition InvalidArgument :: "slice \<Rightarrow> slice \<Rightarrow> Status" where "InvalidArgument = new_Status kInvalidArgument"
definition IOError :: "slice \<Rightarrow> slice \<Rightarrow> Status" where "IOError = new_Status kIOError"

definition CopyState :: "byte list \<Rightarrow> byte list" where
  "CopyState state = (let size = (of_le (take 4 state) :: 32 word) in take (unat (size + 5)) state)"

definition copy_Status :: "Status \<Rightarrow> Status" where
  "copy_Status rhs = map_option CopyState rhs"

definition Status_ok :: "Status \<Rightarrow> bool" where
  "Status_ok s \<longleftrightarrow> s = None"

definition status_code :: "Status \<Rightarrow> byte" where
  "status_code s = (case s of None \<Rightarrow> code_number kOk | Some state \<Rightarrow> state ! 4)"

definition IsNotFound :: "Status \<Rightarrow> bool" where "IsNotFound s \<longleftrightarrow> status_code s = code_number kNotFound"
definition IsCorruption :: "Status \<Rightarrow> bool" where "IsCorruption s \<longleftrightarrow> status_code s = code_number kCorruption"
definition IsIOError :: "Status \<Rightarrow> bool" where "IsIOError s \<longleftrightarrow> status_code s = code_number kIOError"
definition IsNotSupportedError :: "Status \<Rightarrow> bool" where
  "IsNotSupportedError s \<longleftrightarrow> status_code s = code_number kNotSupported"
definition IsInvalidArgument :: "Status \<Rightarrow> bool" where
  "IsInvalidArgument s \<longleftrightarrow> status_code s = code_number kInvalidArgument"

text \<open>The decimal digits \<^verbatim>\<open>snprintf\<close> prints for \<^verbatim>\<open>%d\<close>.\<close>

fun decimal :: "nat \<Rightarrow> string" where
  "decimal n = (if n < 10 then [char_of (48 + n)] else decimal (n div 10) @ [char_of (48 + n mod 10)])"

declare decimal.simps [simp del]

definition decimal_int :: "int \<Rightarrow> string" where
  "decimal_int i = (if i < 0 then CHR ''-'' # decimal (nat (- i)) else decimal (nat i))"

definition status_type :: "byte \<Rightarrow> string" where
  "status_type c =
     (if c = code_number kOk then ''OK''
      else if c = code_number kNotFound then ''NotFound: ''
      else if c = code_number kCorruption then ''Corruption: ''
      else if c = code_number kNotSupported then ''Not implemented: ''
      else if c = code_number kInvalidArgument then ''Invalid argument: ''
      else if c = code_number kIOError then ''IO error: ''
      else ''Unknown code('' @ decimal_int (sint c) @ ''): '')"

definition Status_ToString :: "Status \<Rightarrow> slice" where
  "Status_ToString s =
     (case s of
        None \<Rightarrow> text_bytes ''OK''
      | Some state \<Rightarrow>
          let len = (of_le (take 4 state) :: 32 word)
          in text_bytes (status_type (status_code s)) @ take (unat len) (drop 5 state))"

section \<open>What a status tells\<close>

lemma code_number_inj [simp]: "code_number c = code_number d \<longleftrightarrow> c = d"
  by (cases c; cases d) auto

lemma status_errors [simp]:
  "Status_ok Status_OK" "\<not> Status_ok (NotFound m n)" "\<not> Status_ok (Corruption m n)"
  "\<not> Status_ok (NotSupported m n)" "\<not> Status_ok (InvalidArgument m n)" "\<not> Status_ok (IOError m n)"
  "NotFound m n \<noteq> Status_OK" "Corruption m n \<noteq> Status_OK" "Status_ok s \<longleftrightarrow> s = Status_OK"
  by (auto simp: Status_ok_def Status_OK_def NotFound_def Corruption_def NotSupported_def
      InvalidArgument_def IOError_def new_Status_def Let_def)

lemma status_code_new [simp]: "status_code (new_Status c m n) = code_number c"
  by (simp add: status_code_def new_Status_def Let_def nth_append)

lemma status_codes [simp]:
  "IsNotFound (NotFound m n)" "IsCorruption (Corruption m n)" "\<not> IsNotFound (Corruption m n)"
  "\<not> IsCorruption (NotFound m n)" "\<not> IsNotFound Status_OK" "\<not> IsCorruption Status_OK"
  by (simp_all add: IsNotFound_def IsCorruption_def NotFound_def Corruption_def)
     (simp_all add: status_code_def Status_OK_def)

text \<open>The message of a status.\<close>

definition status_message :: "slice \<Rightarrow> slice \<Rightarrow> slice" where
  "status_message msg msg2 = msg @ (if msg2 = [] then [] else text_bytes '': '' @ msg2)"

lemma new_Status_small:
  assumes "length msg + length msg2 + 7 < 2 ^ 32"
  shows "new_Status c msg msg2 =
    Some (le_bytes 4 (of_nat (length (status_message msg msg2)) :: 32 word) @ [code_number c] @
      status_message msg msg2)"
proof -
  have u: "unat (of_nat (length msg) :: 32 word) = length msg" "unat (of_nat (length msg2) :: 32 word) = length msg2"
    using assms by (simp_all add: unat_of_nat_32)
  then have "(of_nat (length msg2) :: 32 word) = 0 \<longleftrightarrow> msg2 = []"
    by (metis length_0_conv unat_0 unsigned_word_eqI)
  then show ?thesis
    by (simp add: new_Status_def Let_def u status_message_def text_bytes_def algebra_simps)
qed

text \<open>A status keeps its code and its message: the tests tell the code it was made with, a
  copy is the same status, and the printed form is the name of the error and the message.\<close>

theorem status_faithful:
  assumes "length msg + length msg2 + 7 < 2 ^ 32"
  shows "status_code (new_Status c msg msg2) = code_number c \<and>
    copy_Status (new_Status c msg msg2) = new_Status c msg msg2 \<and>
    Status_ToString (new_Status c msg msg2) =
      text_bytes (status_type (code_number c)) @ status_message msg msg2"
proof -
  let ?m = "status_message msg msg2" and ?n = "of_nat (length (status_message msg msg2)) :: 32 word"
  have l: "length ?m + 5 < 2 ^ 32" using assms by (simp add: status_message_def text_bytes_def)
  then have u: "unat ?n = length ?m" "unat (?n + 5) = length ?m + 5"
    by (simp_all add: unat_of_nat_32 unat_word_ariths)
  have "of_le (le_bytes 4 ?n) = ?n" by (simp add: le_simps take_bit_word_eq_self)
  then show ?thesis
    using u by (simp add: Status_ToString_def copy_Status_def CopyState_def Let_def new_Status_small[OF assms])
               (simp add: status_code_def nth_append)
qed

theorem status_faithful_witness:
  "Status_ToString (new_Status kNotFound (text_bytes ''key'') []) = text_bytes ''NotFound: key''"
  using status_faithful[of "text_bytes ''key''" "[]" kNotFound]
  by (simp add: text_bytes_def status_message_def status_type_def)

end
