(* ===== verification/Ldb_Write_Batch.thy ===== *)
theory Ldb_Write_Batch
  imports Ldb_Format Ldb_Status
begin

text \<open>
  Write batches: \<^verbatim>\<open>db/write_batch.cc\<close> and \<^verbatim>\<open>db/write_batch_internal.h\<close>.

  A batch is its member \<^verbatim>\<open>rep_\<close>: a sequence number (eight bytes), a count (four bytes) and the
  records. A \<^verbatim>\<open>Handler\<close> is a record of its two operations on a state of any type; \<open>Iterate\<close>
  returns the status with the state the handler is left in, also when it stops at an error.
  The counters of type \<^verbatim>\<open>int\<close> are 32-bit words.

  The invariant \<open>batch_rep\<close> says that a batch holds a list of operations; every operation of
  the class keeps it, and \<open>Iterate\<close> replays exactly this list.
\<close>

section \<open>Operations\<close>

definition kHeader :: nat where "kHeader = 12"

record 'h Handler =
  hPut :: "slice \<Rightarrow> slice \<Rightarrow> 'h \<Rightarrow> 'h"
  hDelete :: "slice \<Rightarrow> 'h \<Rightarrow> 'h"

type_synonym WriteBatch = slice

definition WriteBatch_Clear :: WriteBatch where
  "WriteBatch_Clear = replicate kHeader 0"

definition ApproximateSize :: "WriteBatch \<Rightarrow> nat" where
  "ApproximateSize rep = length rep"

definition Count :: "WriteBatch \<Rightarrow> 32 word" where
  "Count rep = DecodeFixed32 (drop 8 rep)"

definition SetCount :: "WriteBatch \<Rightarrow> 32 word \<Rightarrow> WriteBatch" where
  "SetCount rep n = take 8 rep @ EncodeFixed32 n @ drop 12 rep"

definition Sequence :: "WriteBatch \<Rightarrow> SequenceNumber" where
  "Sequence rep = DecodeFixed64 rep"

definition SetSequence :: "WriteBatch \<Rightarrow> SequenceNumber \<Rightarrow> WriteBatch" where
  "SetSequence rep seq = EncodeFixed64 seq @ drop 8 rep"

definition WriteBatch_Put :: "WriteBatch \<Rightarrow> slice \<Rightarrow> slice \<Rightarrow> WriteBatch" where
  "WriteBatch_Put rep key value =
     PutLengthPrefixedSlice (PutLengthPrefixedSlice (SetCount rep (Count rep + 1) @ [1]) key) value"

definition WriteBatch_Delete :: "WriteBatch \<Rightarrow> slice \<Rightarrow> WriteBatch" where
  "WriteBatch_Delete rep key = PutLengthPrefixedSlice (SetCount rep (Count rep + 1) @ [0]) key"

definition WriteBatch_Append :: "WriteBatch \<Rightarrow> WriteBatch \<Rightarrow> WriteBatch" where
  "WriteBatch_Append dst src = SetCount dst (Count dst + Count src) @ drop kHeader src"

definition SetContents :: "slice \<Rightarrow> WriteBatch" where
  "SetContents contents = contents"

function Iterate_loop :: "'h Handler \<Rightarrow> WriteBatch \<Rightarrow> slice \<Rightarrow> 32 word \<Rightarrow> 'h \<Rightarrow> Status \<times> 'h" where
  "Iterate_loop handler rep [] found h =
     (if found \<noteq> Count rep then (Corruption (text_bytes ''WriteBatch has wrong count'') [], h)
      else (Status_OK, h))"
| "Iterate_loop handler rep (tag # input) found h =
     (if tag = 1 then
        case GetLengthPrefixedSlice input of
          (None, _) \<Rightarrow> (Corruption (text_bytes ''bad WriteBatch Put'') [], h)
        | (Some key, input') \<Rightarrow>
            (case GetLengthPrefixedSlice input' of
               (None, _) \<Rightarrow> (Corruption (text_bytes ''bad WriteBatch Put'') [], h)
             | (Some val, input'') \<Rightarrow> Iterate_loop handler rep input'' (found + 1) (hPut handler key val h))
      else if tag = 0 then
        case GetLengthPrefixedSlice input of
          (None, _) \<Rightarrow> (Corruption (text_bytes ''bad WriteBatch Delete'') [], h)
        | (Some key, input') \<Rightarrow> Iterate_loop handler rep input' (found + 1) (hDelete handler key h)
      else (Corruption (text_bytes ''unknown WriteBatch tag'') [], h))"
  by pat_completeness auto
termination
  by (relation "measure (\<lambda>(handler, rep, input, found, h). length input)")
     (auto dest!: GetLengthPrefixedSlice_length[OF sym])

definition Iterate :: "'h Handler \<Rightarrow> WriteBatch \<Rightarrow> 'h \<Rightarrow> Status \<times> 'h" where
  "Iterate handler rep h =
     (if length rep < kHeader
      then (Corruption (text_bytes ''malformed WriteBatch (too small)'') [], h)
      else Iterate_loop handler rep (drop kHeader rep) 0 h)"

section \<open>A batch is a list of operations\<close>

datatype batch_op = OpPut slice slice | OpDelete slice

fun encode_op :: "batch_op \<Rightarrow> slice" where
  "encode_op (OpPut k v) = 1 # prefixed k @ prefixed v"
| "encode_op (OpDelete k) = 0 # prefixed k"

fun op_small :: "batch_op \<Rightarrow> bool" where
  "op_small (OpPut k v) \<longleftrightarrow> length k < 2 ^ 32 \<and> length v < 2 ^ 32"
| "op_small (OpDelete k) \<longleftrightarrow> length k < 2 ^ 32"

fun apply_op :: "batch_op \<Rightarrow> WriteBatch \<Rightarrow> WriteBatch" where
  "apply_op (OpPut k v) b = WriteBatch_Put b k v"
| "apply_op (OpDelete k) b = WriteBatch_Delete b k"

fun handle_op :: "'h Handler \<Rightarrow> batch_op \<Rightarrow> 'h \<Rightarrow> 'h" where
  "handle_op H (OpPut k v) h = hPut H k v h"
| "handle_op H (OpDelete k) h = hDelete H k h"

definition batch_rep :: "WriteBatch \<Rightarrow> SequenceNumber \<Rightarrow> batch_op list \<Rightarrow> bool" where
  "batch_rep b seq ops \<longleftrightarrow>
     b = EncodeFixed64 seq @ EncodeFixed32 (of_nat (length ops)) @ concat (map encode_op ops)"

lemma batch_rep_Clear: "batch_rep WriteBatch_Clear 0 []"
  by (simp add: batch_rep_def WriteBatch_Clear_def kHeader_def EncodeFixed32_eq EncodeFixed64_eq
      le_bytes_4 le_bytes_8 eval_nat_numeral)

lemma batch_rep_Count: "batch_rep b seq ops \<Longrightarrow> Count b = of_nat (length ops)"
  by (simp add: batch_rep_def Count_def)

lemma batch_rep_Sequence: "batch_rep b seq ops \<Longrightarrow> Sequence b = seq"
  by (simp add: batch_rep_def Sequence_def)

lemma batch_rep_SetCount:
  "batch_rep b seq ops \<Longrightarrow> SetCount b n = EncodeFixed64 seq @ EncodeFixed32 n @ concat (map encode_op ops)"
  by (simp add: batch_rep_def SetCount_def)

lemma batch_rep_apply: "batch_rep b seq ops \<Longrightarrow> batch_rep (apply_op op b) seq (ops @ [op])"
  by (cases op)
     (simp_all add: WriteBatch_Put_def WriteBatch_Delete_def batch_rep_SetCount batch_rep_Count
       PutLengthPrefixedSlice_eq, simp_all add: batch_rep_def add.commute)

lemma batch_rep_fold: "batch_rep b seq ops \<Longrightarrow> batch_rep (fold apply_op ops' b) seq (ops @ ops')"
proof (induction ops' arbitrary: b ops)
  case (Cons op ops')
  then show ?case using batch_rep_apply[of b seq ops op] by fastforce
qed simp

lemma batch_rep_SetSequence: "batch_rep b seq ops \<Longrightarrow> batch_rep (SetSequence b seq') seq' ops"
  by (simp add: batch_rep_def SetSequence_def)

lemma batch_rep_Append:
  "batch_rep b seq ops \<Longrightarrow> batch_rep b' seq' ops' \<Longrightarrow> batch_rep (WriteBatch_Append b b') seq (ops @ ops')"
  by (simp add: batch_rep_def[of "WriteBatch_Append b b'"] WriteBatch_Append_def batch_rep_SetCount
      batch_rep_Count)
     (simp add: batch_rep_def kHeader_def)

section \<open>Iterate replays the operations\<close>

lemma Iterate_op:
  assumes "op_small op"
  shows "Iterate_loop H b (encode_op op @ rest) found h = Iterate_loop H b rest (found + 1) (handle_op H op h)"
  using assms by (cases op) (simp_all add: coding_simps)

lemma Iterate_ops:
  assumes "\<forall>op \<in> set ops. op_small op"
  shows "Iterate_loop H b (concat (map encode_op ops) @ rest) found h =
    Iterate_loop H b rest (found + of_nat (length ops)) (fold (handle_op H) ops h)"
  using assms
proof (induction ops arbitrary: found h)
  case (Cons op ops)
  then show ?case by (simp add: Iterate_op add.assoc)
qed simp

lemma batch_rep_Iterate:
  assumes "batch_rep b seq ops" "\<forall>op \<in> set ops. op_small op"
  shows "Iterate H b h = (Status_OK, fold (handle_op H) ops h)"
proof -
  have "drop kHeader b = concat (map encode_op ops) @ []" "\<not> length b < kHeader"
    using assms(1) by (auto simp: batch_rep_def kHeader_def)
  then show ?thesis
    by (simp only: Iterate_def Iterate_ops[OF assms(2)]) (simp add: batch_rep_Count[OF assms(1)])
qed

lemma Iterate_op_truncated:
  assumes "op_small op" "k < length (encode_op op)" "0 < k"
  shows "IsCorruption (fst (Iterate_loop H b (take k (encode_op op)) found h))"
proof (cases op)
  case (OpDelete key)
  obtain k' where k: "k = Suc k'" using assms(3) by (cases k) auto
  show ?thesis using assms OpDelete GetLengthPrefixedSlice_truncated[of key k']
    by (auto simp: k split: prod.splits option.splits)
next
  case (OpPut key v)
  obtain k' where k: "k = Suc k'" using assms(3) by (cases k) auto
  show ?thesis
  proof (cases "k' < length (prefixed key)")
    case True
    then show ?thesis using assms OpPut GetLengthPrefixedSlice_truncated[of key k']
      by (auto simp: k split: prod.splits option.splits)
  next
    case False
    then have "k' - length (prefixed key) < length (prefixed v)" using assms OpPut by (auto simp: k)
    then show ?thesis
      using False assms OpPut GetLengthPrefixedSlice_truncated[of v "k' - length (prefixed key)"]
      by (auto simp: k coding_simps split: prod.splits option.splits)
  qed
qed

lemma Iterate_truncated:
  assumes "\<forall>op \<in> set ops. op_small op" "k < length (concat (map encode_op ops))"
    and "\<And>j. j < length ops \<Longrightarrow> found + of_nat j \<noteq> Count b"
  shows "IsCorruption (fst (Iterate_loop H b (take k (concat (map encode_op ops))) found h))"
  using assms
proof (induction ops arbitrary: k found h)
  case (Cons op ops)
  show ?case
  proof (cases "k < length (encode_op op)")
    case True
    then show ?thesis
    proof (cases "k = 0")
      case True
      then show ?thesis using Cons.prems(3)[of 0] by simp
    qed (use Cons.prems Iterate_op_truncated[of op k] in simp)
  next
    case False
    have "found + 1 + of_nat j \<noteq> Count b" if "j < length ops" for j
      using Cons.prems(3)[of "Suc j"] that by (simp add: add.assoc)
    then have "IsCorruption (fst (Iterate_loop H b (take (k - length (encode_op op)) (concat (map encode_op ops)))
        (found + 1) (handle_op H op h)))"
      using Cons.prems False by (intro Cons.IH) auto
    then show ?thesis using False Cons.prems by (simp add: Iterate_op)
  qed
qed simp

section \<open>Properties\<close>

text \<open>C32. Iterating over a batch calls the handler for the operations put into it, in their
  order, and succeeds; appending one batch to another joins their operations; and setting the
  sequence number changes no operation.\<close>

theorem write_batch_replays:
  assumes "\<forall>op \<in> set (ops @ ops'). op_small op"
  defines "b \<equiv> fold apply_op ops WriteBatch_Clear" and "b' \<equiv> fold apply_op ops' WriteBatch_Clear"
  shows "Iterate H (SetSequence b seq) h = (Status_OK, fold (handle_op H) ops h) \<and>
    Iterate H (WriteBatch_Append b b') h = (Status_OK, fold (handle_op H) (ops @ ops') h) \<and>
    Sequence (SetSequence b seq) = seq \<and> Count (WriteBatch_Append b b') = of_nat (length ops + length ops')"
proof -
  have r: "batch_rep b 0 ops" "batch_rep b' 0 ops'"
    using batch_rep_fold[OF batch_rep_Clear] unfolding b_def b'_def by auto
  show ?thesis
    using batch_rep_Iterate[OF batch_rep_SetSequence[OF r(1), of seq], of H h]
      batch_rep_Iterate[OF batch_rep_Append[OF r], of H h]
      batch_rep_Sequence[OF batch_rep_SetSequence[OF r(1), of seq]]
      batch_rep_Count[OF batch_rep_Append[OF r]] assms(1) by simp
qed

definition trace_handler :: "batch_op list Handler" where
  "trace_handler = \<lparr>hPut = (\<lambda>k v t. t @ [OpPut k v]), hDelete = (\<lambda>k t. t @ [OpDelete k])\<rparr>"

theorem write_batch_replays_witness:
  "Iterate trace_handler (WriteBatch_Append (WriteBatch_Delete (WriteBatch_Put WriteBatch_Clear [1] [2, 3]) [4])
      (WriteBatch_Put WriteBatch_Clear [5] [])) [] =
    (Status_OK, [OpPut [1] [2, 3], OpDelete [4], OpPut [5] []])"
  using write_batch_replays[of "[OpPut [1] [2, 3], OpDelete [4]]" "[OpPut [5] []]" trace_handler 0 "[]"]
  by (simp add: trace_handler_def)

text \<open>A batch that has lost bytes at its end is always recognised: iterating over it ends
  with a corruption error.\<close>

theorem truncated_batch_rejected:
  assumes "\<forall>op \<in> set ops. op_small op" "length ops < 2 ^ 32"
    and "k < length (fold apply_op ops WriteBatch_Clear)"
  shows "IsCorruption (fst (Iterate H (take k (fold apply_op ops WriteBatch_Clear)) h))"
proof (cases "k < kHeader")
  case True
  then show ?thesis by (simp add: Iterate_def min_less_iff_disj)
next
  case False
  let ?b = "fold apply_op ops WriteBatch_Clear"
  have r: "batch_rep ?b 0 ops" using batch_rep_fold[OF batch_rep_Clear] by fastforce
  have c: "Count (take k ?b) = of_nat (length ops)"
  proof -
    have "take k ?b = EncodeFixed64 0 @ EncodeFixed32 (of_nat (length ops)) @ take (k - 12) (concat (map encode_op ops))"
      using False r by (simp add: batch_rep_def kHeader_def)
    then show ?thesis by (simp add: Count_def)
  qed
  have d: "drop kHeader (take k ?b) = take (k - 12) (concat (map encode_op ops))"
    using False r by (simp add: batch_rep_def kHeader_def)
  have "0 + of_nat j \<noteq> Count (take k ?b)" if "j < length ops" for j
    using that assms(2) unat_of_nat_32[of j] unat_of_nat_32[of "length ops"] unfolding c
    by (metis add_0 nat_neq_iff order.strict_trans)
  then have "IsCorruption (fst (Iterate_loop H (take k ?b) (take (k - 12) (concat (map encode_op ops))) 0 h))"
    using assms r False by (intro Iterate_truncated) (auto simp: batch_rep_def kHeader_def)
  then show ?thesis using False assms(3) by (simp add: Iterate_def d)
qed

theorem truncated_batch_rejected_witness:
  "IsCorruption (fst (Iterate trace_handler (take 15 (WriteBatch_Put WriteBatch_Clear [1] [2, 3])) []))"
proof -
  have "length (WriteBatch_Put WriteBatch_Clear [1] [2, 3]) = 18" by code_simp
  then show ?thesis using truncated_batch_rejected[of "[OpPut [1] [2, 3]]" 15 trace_handler "[]"] by simp
qed

end
