(* ===== verification/Ldb_Skiplist.thy ===== *)
theory Ldb_Skiplist
  imports Ldb_Order
begin

text \<open>
  The skip list of \<^verbatim>\<open>db/skiplist.h\<close> with the random numbers of \<^verbatim>\<open>util/random.h\<close>.

  A node is a record of its key and its array of links, one link per level. The nodes of a list
  are kept in the order of their allocation and a pointer is the position of a node there, so a
  link is \<open>None\<close> for \<^verbatim>\<open>nullptr\<close> or the position of a node, and \<^verbatim>\<open>head_\<close> is position \<open>0\<close>. The
  comparison \<^verbatim>\<open>compare_\<close> is a parameter. The searches are loops over pointers that need not end
  on arbitrary links: they are partial functions, where \<open>None\<close> is not returning.

  The invariant \<open>skip_rep\<close> relates the nodes to the list of positions in the order of the keys
  and to the number of levels in which each node is linked. This number is ghost state: it is
  the height of the node except while \<open>Insert\<close> links a new node level by level, so the
  intermediate states of \<open>Insert\<close>, which concurrent readers see, satisfy the invariant too.
  The three searches share their descent through the levels, which is proved once in the locale
  \<open>level_search\<close>.
\<close>

section \<open>Random numbers\<close>

definition new_Random :: "32 word \<Rightarrow> 32 word" where
  "new_Random s =
     (let seed = s AND 0x7fffffff in if seed = 0 \<or> seed = 2147483647 then 1 else seed)"

definition Random_Next :: "32 word \<Rightarrow> 32 word" where
  "Random_Next seed =
     (let M = (2147483647 :: 32 word); A = (16807 :: 64 word);
          product = ucast seed * A;
          seed' = ucast (drop_bit 31 product + (product AND ucast M))
      in if seed' > M then seed' - M else seed')"

definition Random_Uniform :: "32 word \<Rightarrow> 32 word \<Rightarrow> 32 word \<times> 32 word" where
  "Random_Uniform seed n = (let seed' = Random_Next seed in (seed' mod n, seed'))"

definition Random_OneIn :: "32 word \<Rightarrow> 32 word \<Rightarrow> bool \<times> 32 word" where
  "Random_OneIn seed n = (let seed' = Random_Next seed in (seed' mod n = 0, seed'))"

definition Random_Skewed :: "32 word \<Rightarrow> 32 word \<Rightarrow> 32 word \<times> 32 word" where
  "Random_Skewed seed max_log =
     (let (base, seed') = Random_Uniform seed (max_log + 1)
      in Random_Uniform seed' (push_bit (unat base) 1))"

section \<open>Nodes and links\<close>

definition kMaxHeight :: nat where "kMaxHeight = 12"

record 'k node =
  nkey :: 'k
  links :: "nat option list"

record 'k skiplist =
  nodes :: "'k node list"
  max_height :: nat
  rnd :: "32 word"

definition head_node :: nat where "head_node = 0"

definition Next :: "'k node list \<Rightarrow> nat \<Rightarrow> nat \<Rightarrow> nat option" where
  "Next N x n = links (N ! x) ! n"

definition SetNext :: "nat \<Rightarrow> nat \<Rightarrow> nat option \<Rightarrow> 'k node list \<Rightarrow> 'k node list" where
  "SetNext x n y N = N[x := (N ! x)\<lparr>links := (links (N ! x))[n := y]\<rparr>]"

definition NewNode :: "'k \<Rightarrow> nat \<Rightarrow> 'k node list \<Rightarrow> nat \<times> 'k node list" where
  "NewNode key height N = (length N, N @ [\<lparr>nkey = key, links = replicate height None\<rparr>])"

definition new_SkipList :: "'k \<Rightarrow> 'k skiplist" where
  "new_SkipList any_key =
     \<lparr>nodes = fold (\<lambda>i. SetNext head_node i None) [0..<kMaxHeight] (snd (NewNode any_key kMaxHeight [])),
      max_height = 1, rnd = new_Random 0xdeadbeef\<rparr>"

function RandomHeight_loop :: "nat \<Rightarrow> 32 word \<Rightarrow> nat \<times> 32 word" where
  "RandomHeight_loop height r =
     (if height < kMaxHeight then
        let r' = Random_Next r in
        if r' mod 4 = 0 then RandomHeight_loop (height + 1) r' else (height, r')
      else (height, r))"
  by pat_completeness auto
termination
  by (relation "measure (\<lambda>(height, r). kMaxHeight - height)") auto

declare RandomHeight_loop.simps [simp del]

definition RandomHeight :: "32 word \<Rightarrow> nat \<times> 32 word" where
  "RandomHeight r = RandomHeight_loop 1 r"

section \<open>Searching\<close>

definition KeyIsAfterNode :: "('k \<Rightarrow> 'k \<Rightarrow> int) \<Rightarrow> 'k node list \<Rightarrow> 'k \<Rightarrow> nat option \<Rightarrow> bool" where
  "KeyIsAfterNode compare N key n = (case n of None \<Rightarrow> False | Some n \<Rightarrow> compare (nkey (N ! n)) key < 0)"

partial_function (option) find_ge_loop ::
  "('k \<Rightarrow> 'k \<Rightarrow> int) \<Rightarrow> 'k node list \<Rightarrow> 'k \<Rightarrow> nat \<Rightarrow> nat \<Rightarrow> nat list option \<Rightarrow>
   (nat option \<times> nat list option) option" where
  "find_ge_loop compare N key x level prev =
     (let next = Next N x level in
      if KeyIsAfterNode compare N key next then find_ge_loop compare N key (the next) level prev
      else let prev = map_option (\<lambda>p. p[level := x]) prev in
        if level = 0 then Some (next, prev) else find_ge_loop compare N key x (level - 1) prev)"

definition FindGreaterOrEqual ::
  "('k \<Rightarrow> 'k \<Rightarrow> int) \<Rightarrow> 'k skiplist \<Rightarrow> 'k \<Rightarrow> nat list option \<Rightarrow> (nat option \<times> nat list option) option" where
  "FindGreaterOrEqual compare sl key prev =
     find_ge_loop compare (nodes sl) key head_node (max_height sl - 1) prev"

partial_function (option) find_less_loop ::
  "('k \<Rightarrow> 'k \<Rightarrow> int) \<Rightarrow> 'k node list \<Rightarrow> 'k \<Rightarrow> nat \<Rightarrow> nat \<Rightarrow> nat option" where
  "find_less_loop compare N key x level =
     (let next = Next N x level in
      if (case next of None \<Rightarrow> True | Some n \<Rightarrow> compare (nkey (N ! n)) key \<ge> 0)
      then if level = 0 then Some x else find_less_loop compare N key x (level - 1)
      else find_less_loop compare N key (the next) level)"

definition FindLessThan :: "('k \<Rightarrow> 'k \<Rightarrow> int) \<Rightarrow> 'k skiplist \<Rightarrow> 'k \<Rightarrow> nat option" where
  "FindLessThan compare sl key = find_less_loop compare (nodes sl) key head_node (max_height sl - 1)"

partial_function (option) find_last_loop :: "'k node list \<Rightarrow> nat \<Rightarrow> nat \<Rightarrow> nat option" where
  "find_last_loop N x level =
     (let next = Next N x level in
      if next = None then if level = 0 then Some x else find_last_loop N x (level - 1)
      else find_last_loop N (the next) level)"

definition FindLast :: "'k skiplist \<Rightarrow> nat option" where
  "FindLast sl = find_last_loop (nodes sl) head_node (max_height sl - 1)"

section \<open>Insertion\<close>

definition link_level :: "nat list \<Rightarrow> nat \<Rightarrow> nat \<Rightarrow> 'k node list \<Rightarrow> 'k node list" where
  "link_level prev x i N = SetNext (prev ! i) i (Some x) (SetNext x i (Next N (prev ! i) i) N)"

text \<open>The state of \<^verbatim>\<open>Insert\<close> when the new node has been linked in the lowest \<open>k\<close> levels.\<close>

definition insert_upto ::
  "('k \<Rightarrow> 'k \<Rightarrow> int) \<Rightarrow> 'k skiplist \<Rightarrow> 'k \<Rightarrow> (nat \<Rightarrow> nat) \<Rightarrow> 'k skiplist option" where
  "insert_upto compare sl key k =
     (case FindGreaterOrEqual compare sl key (Some (replicate kMaxHeight 0)) of
        None \<Rightarrow> None
      | Some (_, None) \<Rightarrow> None
      | Some (_, Some prev) \<Rightarrow>
          let (height, r) = RandomHeight (rnd sl);
              prev = (if height > max_height sl
                      then fold (\<lambda>i p. p[i := head_node]) [max_height sl..<height] prev else prev);
              mh = (if height > max_height sl then height else max_height sl);
              (x, N) = NewNode key height (nodes sl)
          in Some \<lparr>nodes = fold (link_level prev x) [0..<k height] N, max_height = mh, rnd = r\<rparr>)"

definition SkipList_Insert :: "('k \<Rightarrow> 'k \<Rightarrow> int) \<Rightarrow> 'k skiplist \<Rightarrow> 'k \<Rightarrow> 'k skiplist option" where
  "SkipList_Insert compare sl key = insert_upto compare sl key (\<lambda>height. height)"

definition SkipList_Contains :: "('k \<Rightarrow> 'k \<Rightarrow> int) \<Rightarrow> 'k skiplist \<Rightarrow> 'k \<Rightarrow> bool option" where
  "SkipList_Contains compare sl key =
     map_option (\<lambda>(x, _). case x of None \<Rightarrow> False | Some x \<Rightarrow> compare key (nkey (nodes sl ! x)) = 0)
       (FindGreaterOrEqual compare sl key None)"

section \<open>Iterators\<close>

text \<open>An iterator is its member \<^verbatim>\<open>node_\<close>; the list it belongs to is an argument. Its
  operations return the new position, and \<open>None\<close> on the outside when they do not return.\<close>

type_synonym position = "nat option"

definition Iter_Valid :: "position \<Rightarrow> bool" where
  "Iter_Valid node = (node \<noteq> None)"

definition Iter_key :: "'k skiplist \<Rightarrow> position \<Rightarrow> 'k" where
  "Iter_key sl node = nkey (nodes sl ! the node)"

definition Iter_Next :: "'k skiplist \<Rightarrow> position \<Rightarrow> position" where
  "Iter_Next sl node = Next (nodes sl) (the node) 0"

definition not_head :: "nat \<Rightarrow> position" where
  "not_head x = (if x = head_node then None else Some x)"

definition Iter_Prev :: "('k \<Rightarrow> 'k \<Rightarrow> int) \<Rightarrow> 'k skiplist \<Rightarrow> position \<Rightarrow> position option" where
  "Iter_Prev compare sl node = map_option not_head (FindLessThan compare sl (nkey (nodes sl ! the node)))"

definition Iter_Seek :: "('k \<Rightarrow> 'k \<Rightarrow> int) \<Rightarrow> 'k skiplist \<Rightarrow> 'k \<Rightarrow> position option" where
  "Iter_Seek compare sl target = map_option fst (FindGreaterOrEqual compare sl target None)"

definition Iter_SeekToFirst :: "'k skiplist \<Rightarrow> position" where
  "Iter_SeekToFirst sl = Next (nodes sl) head_node 0"

definition Iter_SeekToLast :: "'k skiplist \<Rightarrow> position option" where
  "Iter_SeekToLast sl = map_option not_head (FindLast sl)"

section \<open>Links\<close>

lemma Next_SetNext:
  "x < length N \<Longrightarrow> n < length (links (N ! x)) \<Longrightarrow>
   Next (SetNext x n y N) z k = (if z = x \<and> k = n then y else Next N z k)"
  by (auto simp: Next_def SetNext_def nth_list_update)

lemma SetNext_nth:
  "SetNext x n y N ! z = (if z = x \<and> x < length N then (N ! x)\<lparr>links := (links (N ! x))[n := y]\<rparr> else N ! z)"
  by (cases "x < length N") (auto simp: SetNext_def list_update_beyond not_less)

lemma Next_SetNext_other [simp]: "k \<noteq> n \<Longrightarrow> Next (SetNext x n y N) z k = Next N z k"
  by (simp add: Next_def SetNext_nth)

lemma SetNext_shape [simp]:
  "length (SetNext x n y N) = length N" "nkey (SetNext x n y N ! z) = nkey (N ! z)"
  "length (links (SetNext x n y N ! z)) = length (links (N ! z))"
  by (simp_all add: SetNext_nth) (simp add: SetNext_def)

fun linked :: "'k node list \<Rightarrow> nat \<Rightarrow> nat list \<Rightarrow> bool" where
  "linked N i [] \<longleftrightarrow> True"
| "linked N i [x] \<longleftrightarrow> Next N x i = None"
| "linked N i (x # y # r) \<longleftrightarrow> Next N x i = Some y \<and> linked N i (y # r)"

lemma linked_cong: "(\<And>x. x \<in> set p \<Longrightarrow> Next N x i = Next N' x i) \<Longrightarrow> linked N i p \<longleftrightarrow> linked N' i p"
  by (induction N i p rule: linked.induct) auto

definition first :: "nat list \<Rightarrow> nat option" where
  "first xs = (case xs of [] \<Rightarrow> None | x # _ \<Rightarrow> Some x)"

lemma linked_Next: "linked N i (a @ x # b) \<Longrightarrow> Next N x i = first b"
proof (induction a)
  case Nil
  then show ?case by (cases b) (auto simp: first_def)
next
  case (Cons y a)
  then show ?case by (cases a) auto
qed

text \<open>Linking a new node behind a node of the list.\<close>

lemma linked_insert:
  assumes "linked N i (a @ p # b)" "distinct (a @ p # b)" "n \<notin> set (a @ p # b)"
    and "Next N' n i = first b" "Next N' p i = Some n"
    and "\<And>z. z \<noteq> n \<Longrightarrow> z \<noteq> p \<Longrightarrow> Next N' z i = Next N z i"
  shows "linked N' i (a @ p # n # b)"
  using assms
proof (induction a)
  case Nil
  have "linked N' i b" if "linked N i (p # b)"
  proof (cases b)
    case (Cons y r)
    with that have "linked N i b" by simp
    moreover have "linked N' i b \<longleftrightarrow> linked N i b"
      using Nil.prems by (intro linked_cong) (metis append_Nil distinct.simps(2) list.set_intros(2))
    ultimately show ?thesis by simp
  qed simp
  with Nil.prems show ?case by (cases b) (auto simp: first_def)
next
  case (Cons y a)
  have "linked N i (a @ p # b)" using Cons.prems(1) by (cases a) auto
  then have "linked N' i (a @ p # n # b)" using Cons by auto
  moreover have "Next N' y i = Next N y i" using Cons.prems by auto
  ultimately show ?case using Cons.prems(1) by (cases a) auto
qed

section \<open>The invariant\<close>

definition at_level :: "(nat \<Rightarrow> nat) \<Rightarrow> nat \<Rightarrow> nat list \<Rightarrow> nat list" where
  "at_level h i xs = filter (\<lambda>x. i < h x) xs"

definition skip_rep :: "('k \<Rightarrow> 'k \<Rightarrow> int) \<Rightarrow> 'k node list \<Rightarrow> nat \<Rightarrow> (nat \<Rightarrow> nat) \<Rightarrow> nat list \<Rightarrow> bool" where
  "skip_rep compare N mh h xs \<longleftrightarrow>
     N \<noteq> [] \<and> length (links (N ! head_node)) = kMaxHeight \<and> 1 \<le> mh \<and> mh \<le> kMaxHeight \<and> distinct xs \<and>
     (\<forall>x \<in> set xs. x \<noteq> head_node \<and> x < length N \<and> 0 < h x \<and> h x \<le> length (links (N ! x)) \<and> h x \<le> mh) \<and>
     sorted_wrt (\<lambda>x y. compare (nkey (N ! x)) (nkey (N ! y)) < 0) xs \<and>
     (\<forall>i < kMaxHeight. linked N i (head_node # at_level h i xs))"

lemma at_level_append [simp]: "at_level h i (a @ b) = at_level h i a @ at_level h i b"
  by (simp add: at_level_def)

lemma set_at_level: "set (at_level h i xs) = {x \<in> set xs. i < h x}"
  by (auto simp: at_level_def)

lemma at_level_0: "\<forall>x \<in> set xs. 0 < h x \<Longrightarrow> at_level h 0 xs = xs"
  by (simp add: at_level_def)

lemma at_level_top: "\<forall>x \<in> set xs. h x \<le> i \<Longrightarrow> at_level h i xs = []"
  by (auto simp: at_level_def filter_empty_conv)

section \<open>Descending through the levels\<close>

text \<open>The last node of a level among the nodes \<open>lo\<close>, the head node before them.\<close>

definition last_at :: "(nat \<Rightarrow> nat) \<Rightarrow> nat list \<Rightarrow> nat \<Rightarrow> nat" where
  "last_at h lo i = last (head_node # at_level h i lo)"

lemma last_at_lower:
  "0 < i \<Longrightarrow> last_at h lo i \<in> set (head_node # at_level h (i - 1) lo)"
  using last_in_set[of "head_node # at_level h i lo"]
  by (auto simp: last_at_def set_at_level simp del: last.simps)

locale level_search =
  fixes N :: "'k node list" and go :: "nat \<Rightarrow> bool"
    and f :: "nat \<Rightarrow> nat \<Rightarrow> 's \<Rightarrow> 'r option"
    and upd :: "nat \<Rightarrow> nat \<Rightarrow> 's \<Rightarrow> 's" and out :: "nat \<Rightarrow> nat option \<Rightarrow> 's \<Rightarrow> 'r"
  assumes step: "f x i st =
    (if (case Next N x i of None \<Rightarrow> False | Some n \<Rightarrow> go n) then f (the (Next N x i)) i st
     else if i = 0 then Some (out x (Next N x 0) (upd 0 x st)) else f x (i - 1) (upd i x st))"
begin

lemma walk:
  assumes "linked N i (head_node # at_level h i (lo @ hi))"
    and "\<forall>x \<in> set lo. go x" "\<forall>x \<in> set hi. \<not> go x"
    and "head_node # at_level h i lo = a @ x # b"
  shows "f x i st =
    (if i = 0 then Some (out (last_at h lo 0) (first (at_level h 0 hi)) (upd 0 (last_at h lo 0) st))
     else f (last_at h lo i) (i - 1) (upd i (last_at h lo i) st))"
  using assms(4)
proof (induction b arbitrary: a x)
  case Nil
  then have x: "x = last_at h lo i" by (simp add: last_at_def)
  have "head_node # at_level h i (lo @ hi) = a @ x # at_level h i hi" using Nil by simp
  then have n: "Next N x i = first (at_level h i hi)" using assms(1) linked_Next by metis
  have "set (at_level h i hi) \<subseteq> set hi" by (auto simp: set_at_level)
  then have "\<not> (case Next N x i of None \<Rightarrow> False | Some n \<Rightarrow> go n)"
    using assms(3) by (auto simp: n first_def split: list.splits)
  then show ?case using n x by (subst step) auto
next
  case (Cons y b)
  have "head_node # at_level h i (lo @ hi) = a @ x # (y # b @ at_level h i hi)" using Cons.prems by simp
  then have "Next N x i = first (y # b @ at_level h i hi)" using assms(1) linked_Next by metis
  then have n: "Next N x i = Some y" by (simp add: first_def)
  have "y \<in> set (at_level h i lo)" using Cons.prems by (cases a) auto
  then have "go y" using assms(2) by (auto simp: set_at_level)
  then have "f x i st = f y i st" using n by (subst step) auto
  then show ?case using Cons.IH[of "a @ [x]" y] Cons.prems by simp
qed

lemma descend:
  assumes "\<forall>j \<le> i. linked N j (head_node # at_level h j (lo @ hi))"
    and "\<forall>x \<in> set lo. go x" "\<forall>x \<in> set hi. \<not> go x"
    and "x \<in> set (head_node # at_level h i lo)"
  shows "f x i st = Some (out (last_at h lo 0) (first (at_level h 0 hi))
    (fold (\<lambda>j. upd j (last_at h lo j)) (rev [0..<Suc i]) st))"
  using assms(1,4)
proof (induction i arbitrary: x st)
  case 0
  then obtain a b where "head_node # at_level h 0 lo = a @ x # b" by (metis split_list)
  with 0 show ?case using walk[of 0 h lo hi a x b] assms by simp
next
  case (Suc i)
  then obtain a b where "head_node # at_level h (Suc i) lo = a @ x # b" by (metis split_list)
  with Suc.prems have "f x (Suc i) st = f (last_at h lo (Suc i)) i (upd (Suc i) (last_at h lo (Suc i)) st)"
    using walk[of "Suc i" h lo hi a x b] assms by simp
  also have "\<dots> = Some (out (last_at h lo 0) (first (at_level h 0 hi))
      (fold (\<lambda>j. upd j (last_at h lo j)) (rev [0..<Suc i]) (upd (Suc i) (last_at h lo (Suc i)) st)))"
    using Suc.prems last_at_lower[of "Suc i" h lo] by (intro Suc.IH) auto
  finally show ?case by simp
qed

end

interpretation ge: level_search N "\<lambda>n. compare (nkey (N ! n)) key < 0" "find_ge_loop compare N key"
    "\<lambda>i x prev. map_option (\<lambda>p. p[i := x]) prev" "\<lambda>x next prev. (next, prev)" for N compare key
  by unfold_locales (subst find_ge_loop.simps, auto simp: KeyIsAfterNode_def Let_def split: option.splits)

interpretation less: level_search N "\<lambda>n. compare (nkey (N ! n)) key < 0"
    "\<lambda>x i (u :: unit). find_less_loop compare N key x i" "\<lambda>i x u. u" "\<lambda>x next u. x" for N compare key
  by unfold_locales (subst find_less_loop.simps, auto simp: Let_def split: option.splits)

interpretation lst: level_search N "\<lambda>n. True" "\<lambda>x i (u :: unit). find_last_loop N x i" "\<lambda>i x u. u"
    "\<lambda>x next u. x" for N :: "'k node list"
  by unfold_locales (subst find_last_loop.simps, auto simp: Let_def split: option.splits)

section \<open>The searches find what they look for\<close>

definition keys_of :: "'k node list \<Rightarrow> nat list \<Rightarrow> 'k list" where
  "keys_of N xs = map (\<lambda>x. nkey (N ! x)) xs"

abbreviation lower :: "('k \<Rightarrow> 'k \<Rightarrow> int) \<Rightarrow> 'k node list \<Rightarrow> 'k \<Rightarrow> nat list \<Rightarrow> nat list" where
  "lower compare N key xs \<equiv> below compare key (\<lambda>x. nkey (N ! x)) xs"

abbreviation upper :: "('k \<Rightarrow> 'k \<Rightarrow> int) \<Rightarrow> 'k node list \<Rightarrow> 'k \<Rightarrow> nat list \<Rightarrow> nat list" where
  "upper compare N key xs \<equiv> upwards compare key (\<lambda>x. nkey (N ! x)) xs"

lemma set_below: "set (below compare key f xs) = {x \<in> set xs. compare (f x) key < 0}"
  by (simp add: below_def)

lemma set_upwards: "set (upwards compare key f xs) = {x \<in> set xs. \<not> compare (f x) key < 0}"
  by (simp add: upwards_def)

lemma fold_map_option:
  "fold (\<lambda>j. map_option (g j)) js (Some p) = Some (fold g js p)"
  by (induction js arbitrary: p) auto

lemma length_fold_update [simp]: "length (fold (\<lambda>j p. p[j := g j]) js p) = length p"
  by (induction js arbitrary: p) auto

lemma nth_fold_update:
  "j < length p \<Longrightarrow> fold (\<lambda>j p. p[j := g j]) js p ! j = (if j \<in> set js then g j else p ! j)"
  by (induction js arbitrary: p) (auto simp: nth_list_update)

context compare_order
begin

definition keys_ok :: "'k node list \<Rightarrow> nat list \<Rightarrow> bool" where
  "keys_ok N xs \<longleftrightarrow> (\<forall>x \<in> set xs. key_ok (nkey (N ! x)))"

lemma skip_cut:
  assumes "skip_rep compare N mh h xs" "keys_ok N xs" "key_ok key"
  shows "lower compare N key xs @ upper compare N key xs = xs"
  using sorted_cut[of "\<lambda>x. nkey (N ! x)" xs key] assms by (simp add: skip_rep_def keys_ok_def)

lemma skip_levels:
  assumes "skip_rep compare N mh h xs" "keys_ok N xs" "key_ok key" "i < kMaxHeight"
  shows "linked N i (head_node # at_level h i (lower compare N key xs @ upper compare N key xs))"
  using assms skip_cut[OF assms(1-3)] by (simp only: skip_rep_def)

lemma skip_level_0:
  "skip_rep compare N mh h xs \<Longrightarrow> set ys \<subseteq> set xs \<Longrightarrow> at_level h 0 ys = ys"
  by (rule at_level_0) (auto simp: skip_rep_def)

lemma find_ge:
  assumes "skip_rep compare N mh h xs" "keys_ok N xs" "key_ok key"
  shows "find_ge_loop compare N key head_node (mh - 1) prev =
    Some (first (upper compare N key xs),
      map_option (fold (\<lambda>j p. p[j := last_at h (lower compare N key xs) j]) (rev [0..<mh])) prev)"
proof -
  have mh: "Suc (mh - 1) = mh" "mh - 1 < kMaxHeight" using assms(1) by (auto simp: skip_rep_def)
  have "find_ge_loop compare N key head_node (mh - 1) prev =
    Some (first (at_level h 0 (upper compare N key xs)),
      fold (\<lambda>j. map_option (\<lambda>p. p[j := last_at h (lower compare N key xs) j])) (rev [0..<Suc (mh - 1)]) prev)"
    using mh skip_levels[OF assms] by (intro ge.descend) (auto simp: set_below set_upwards)
  moreover have "at_level h 0 (upper compare N key xs) = upper compare N key xs"
    using skip_level_0[OF assms(1)] by (simp add: set_upwards)
  moreover have "fold (\<lambda>j. map_option (g j)) js None = None" for g :: "nat \<Rightarrow> nat list \<Rightarrow> nat list" and js
    by (induction js) auto
  ultimately show ?thesis unfolding mh(1) by (cases prev) (simp_all add: fold_map_option)
qed

lemma find_less:
  assumes "skip_rep compare N mh h xs" "keys_ok N xs" "key_ok key"
  shows "find_less_loop compare N key head_node (mh - 1) = Some (last (head_node # lower compare N key xs))"
proof -
  have "mh - 1 < kMaxHeight" using assms(1) by (auto simp: skip_rep_def)
  then have "find_less_loop compare N key head_node (mh - 1) = Some (last_at h (lower compare N key xs) 0)"
    using skip_levels[OF assms] by (intro less.descend[where hi = "upper compare N key xs"]) (auto simp: set_below set_upwards)
  moreover have "at_level h 0 (lower compare N key xs) = lower compare N key xs"
    using skip_level_0[OF assms(1)] by (simp add: set_below)
  ultimately show ?thesis by (simp add: last_at_def)
qed

lemma find_last:
  assumes "skip_rep compare N mh h xs"
  shows "find_last_loop N head_node (mh - 1) = Some (last (head_node # xs))"
proof -
  have "mh - 1 < kMaxHeight" using assms(1) by (auto simp: skip_rep_def)
  then have "find_last_loop N head_node (mh - 1) = Some (last_at h xs 0)"
    using assms by (intro lst.descend[where hi = "[]"]) (auto simp: skip_rep_def)
  then show ?thesis using skip_level_0[OF assms(1)] by (simp add: last_at_def)
qed

end

section \<open>Insertion\<close>

lemma RandomHeight_loop_range:
  "height \<le> kMaxHeight \<Longrightarrow> height \<le> fst (RandomHeight_loop height r) \<and> fst (RandomHeight_loop height r) \<le> kMaxHeight"
proof (induction height r rule: RandomHeight_loop.induct)
  case (1 height r)
  then show ?case by (subst (1 2) RandomHeight_loop.simps) (force simp: Let_def)
qed

lemma RandomHeight_range: "1 \<le> fst (RandomHeight r)" "fst (RandomHeight r) \<le> kMaxHeight"
  using RandomHeight_loop_range[of 1 r] by (auto simp: RandomHeight_def kMaxHeight_def)

lemma link_level_shape [simp]:
  "length (link_level prev x i N) = length N" "nkey (link_level prev x i N ! z) = nkey (N ! z)"
  "length (links (link_level prev x i N ! z)) = length (links (N ! z))"
  by (simp_all add: link_level_def)

lemma link_upto_shape [simp]:
  "length (fold (link_level prev x) js N) = length N" "nkey (fold (link_level prev x) js N ! z) = nkey (N ! z)"
  "length (links (fold (link_level prev x) js N ! z)) = length (links (N ! z))"
  by (induction js arbitrary: N) simp_all

lemma Next_link_level_other: "j \<noteq> i \<Longrightarrow> Next (link_level prev x i N) z j = Next N z j"
  by (simp add: link_level_def)

lemma Next_link_level:
  assumes "prev ! i \<noteq> x" "x < length N" "prev ! i < length N"
    and "i < length (links (N ! x))" "i < length (links (N ! (prev ! i)))"
  shows "Next (link_level prev x i N) z i =
    (if z = prev ! i then Some x else if z = x then Next N (prev ! i) i else Next N z i)"
  using assms by (simp add: link_level_def Next_SetNext)

text \<open>Level \<open>i\<close> while a new node \<open>x\<close> is linked in between \<open>lo\<close> and \<open>hi\<close>.\<close>

definition level_with :: "(nat \<Rightarrow> nat) \<Rightarrow> nat list \<Rightarrow> nat \<Rightarrow> nat list \<Rightarrow> bool \<Rightarrow> nat \<Rightarrow> nat list" where
  "level_with h lo x hi new i =
     head_node # at_level h i lo @ (if new then [x] else []) @ at_level h i hi"

lemma link_step:
  assumes lk: "linked N i (level_with h lo x hi False i)"
    and d: "distinct (head_node # lo @ x # hi)" and p: "prev ! i = last_at h lo i"
    and v: "\<forall>z \<in> set (head_node # at_level h i lo). z < length N \<and> i < length (links (N ! z))"
    and x: "x < length N" "i < length (links (N ! x))"
  shows "linked (link_level prev x i N) i (level_with h lo x hi True i)"
proof -
  let ?p = "last_at h lo i"
  define a where "a = butlast (head_node # at_level h i lo)"
  have a: "head_node # at_level h i lo = a @ [?p]"
    unfolding a_def last_at_def by (rule append_butlast_last_id[symmetric]) simp
  have pin: "?p \<in> set (head_node # at_level h i lo)" by (simp add: a)
  have e: "level_with h lo x hi b i = a @ ?p # (if b then [x] else []) @ at_level h i hi" for b
    using a by (simp add: level_with_def)
  have "set (a @ [?p]) = set (head_node # at_level h i lo)" by (simp only: a)
  then have sub: "set (a @ ?p # at_level h i hi) \<subseteq> set (head_node # lo @ hi)"
    by (auto simp: set_at_level)
  have dd: "distinct (a @ ?p # at_level h i hi)"
  proof -
    have "distinct (level_with h lo x hi False i)"
      using d by (auto simp: level_with_def at_level_def)
    then show ?thesis by (simp add: e)
  qed
  have xn: "x \<notin> set (a @ ?p # at_level h i hi)" using sub d by auto
  have nx: "Next (link_level prev x i N) z i =
      (if z = ?p then Some x else if z = x then Next N ?p i else Next N z i)" for z
    using Next_link_level[of prev i x N z] p v x pin xn by auto
  have "Next N ?p i = first (at_level h i hi)" using lk linked_Next[of N i a ?p] by (simp add: e)
  then have "linked (link_level prev x i N) i (a @ ?p # x # at_level h i hi)"
    using lk dd xn nx by (intro linked_insert[of N i a ?p]) (auto simp: e)
  then show ?thesis by (simp add: e)
qed

lemma link_upto:
  assumes lk: "\<forall>i < kMaxHeight. linked N i (level_with h lo x hi False i)"
    and d: "distinct (head_node # lo @ x # hi)" and p: "\<forall>i < k. prev ! i = last_at h lo i"
    and v: "\<forall>z \<in> set lo. z < length N \<and> h z \<le> length (links (N ! z))"
      "head_node < length N" "length (links (N ! head_node)) = kMaxHeight"
    and x: "x < length N" "k \<le> length (links (N ! x))" "k \<le> kMaxHeight"
  shows "\<forall>i < kMaxHeight. linked (fold (link_level prev x) [0..<k] N) i (level_with h lo x hi (i < k) i)"
  using p x(2,3)
proof (induction k)
  case 0
  then show ?case using lk by simp
next
  case (Suc k)
  let ?N = "fold (link_level prev x) [0..<k] N"
  have IH: "\<forall>i < kMaxHeight. linked ?N i (level_with h lo x hi (i < k) i)" using Suc by simp
  have v': "\<forall>z \<in> set (head_node # at_level h k lo). z < length ?N \<and> k < length (links (?N ! z))"
    using v Suc.prems(3) by (auto simp: set_at_level)
  have "linked ?N k (level_with h lo x hi False k)" using IH Suc.prems(3) by (metis Suc_le_lessD less_irrefl)
  then have new: "linked (link_level prev x k ?N) k (level_with h lo x hi True k)"
    using d Suc.prems v' x by (intro link_step) auto
  have old: "linked (link_level prev x k ?N) i (level_with h lo x hi (i < k) i)" if "i < kMaxHeight" "i \<noteq> k" for i
    using IH that linked_cong[of _ "link_level prev x k ?N" i ?N] by (simp add: Next_link_level_other)
  show ?case
  proof (intro allI impI)
    fix i assume "i < kMaxHeight"
    then show "linked (fold (link_level prev x) [0..<Suc k] N) i (level_with h lo x hi (i < Suc k) i)"
      using new old[of i] by (cases "i = k") (auto simp: less_Suc_eq)
  qed
qed

lemma at_level_new:
  assumes "x \<notin> set (lo @ hi)"
  shows "head_node # at_level (h(x := k)) i (lo @ x # hi) = level_with h lo x hi (i < k) i"
proof -
  have "at_level (h(x := k)) i ys = at_level h i ys" if "x \<notin> set ys" for ys
    using that by (auto simp: at_level_def intro: filter_cong)
  then show ?thesis using assms by (simp add: level_with_def) (simp add: at_level_def)
qed

context compare_order
begin

lemma sorted_insert:
  assumes rep: "skip_rep compare N mh h xs" and ok: "keys_ok N xs" "key_ok key"
    and new: "\<forall>x \<in> set xs. compare (nkey (N ! x)) key \<noteq> 0"
    and K: "\<And>x. x \<in> set xs \<Longrightarrow> nkey (N' ! x) = nkey (N ! x)" "nkey (N' ! n) = key"
  shows "sorted_wrt (\<lambda>x y. compare (nkey (N' ! x)) (nkey (N' ! y)) < 0)
    (lower compare N key xs @ n # upper compare N key xs)"
proof -
  let ?R = "\<lambda>x y. compare (nkey (N' ! x)) (nkey (N' ! y)) < 0"
  have "sorted_wrt (\<lambda>x y. compare (nkey (N ! x)) (nkey (N ! y)) < 0) xs" using rep by (simp add: skip_rep_def)
  then have "sorted_wrt ?R xs" by (rule sorted_wrt_mono_rel[rotated]) (simp add: K)
  then have s: "sorted_wrt ?R (lower compare N key xs @ upper compare N key xs)"
    by (simp only: skip_cut[OF rep ok])
  have "?R n y" if "y \<in> set (upper compare N key xs)" for y
  proof -
    have y: "y \<in> set xs" "\<not> compare (nkey (N ! y)) key < 0" using that by (auto simp: set_upwards)
    then have "0 < compare (nkey (N ! y)) key" using new by fastforce
    then show ?thesis using swap[of key "nkey (N ! y)"] ok y(1) by (simp add: K keys_ok_def)
  qed
  moreover have "?R x n" if "x \<in> set (lower compare N key xs)" for x
    using that by (simp add: K set_below)
  ultimately show ?thesis using s by (auto simp: sorted_wrt_append)
qed

lemma linked_new_node:
  assumes "skip_rep compare N mh h xs" "i < kMaxHeight" "set ys \<subseteq> set xs" "linked N i (head_node # ys)"
  shows "linked (N @ [v]) i (head_node # ys)"
proof -
  have "Next (N @ [v]) z i = Next N z i" if "z \<in> set (head_node # ys)" for z
    using that assms(1,3) by (auto simp: Next_def nth_append skip_rep_def head_node_def)
  then show ?thesis using assms(4) linked_cong[of "head_node # ys" "N @ [v]" i N] by blast
qed

lemma insert_links:
  assumes rep: "skip_rep compare N mh h xs" and ok: "keys_ok N xs" "key_ok key"
    and prev: "\<forall>i < k. prev ! i = last_at h (lower compare N key xs) i"
    and k: "k \<le> height" "height \<le> kMaxHeight"
  defines "N0 \<equiv> N @ [\<lparr>nkey = key, links = replicate height None\<rparr>]"
  shows "\<forall>i < kMaxHeight. linked (fold (link_level prev (length N)) [0..<k] N0) i
    (level_with h (lower compare N key xs) (length N) (upper compare N key xs) (i < k) i)"
proof (rule link_upto)
  let ?lo = "lower compare N key xs" and ?hi = "upper compare N key xs"
  have in_N: "\<forall>x \<in> set xs. x \<noteq> head_node \<and> x < length N \<and> h x \<le> length (links (N ! x))" "N \<noteq> []" "distinct xs"
    and hd: "length (links (N ! head_node)) = kMaxHeight"
    using rep by (auto simp: skip_rep_def)
  have sub: "set (at_level h i ?lo @ at_level h i ?hi) \<subseteq> set xs" for i
    by (auto simp: set_at_level set_below set_upwards)
  show "\<forall>i<kMaxHeight. linked N0 i (level_with h ?lo (length N) ?hi False i)"
    using skip_levels[OF rep ok] linked_new_node[OF rep _ sub] by (simp add: level_with_def N0_def)
  have "distinct (?lo @ ?hi)" using skip_cut[OF rep ok] in_N(3) by simp
  then show "distinct (head_node # ?lo @ length N # ?hi)"
    using in_N by (auto simp: set_below set_upwards head_node_def)
  show "\<forall>z\<in>set ?lo. z < length N0 \<and> h z \<le> length (links (N0 ! z))"
    using in_N by (auto simp: set_below N0_def nth_append)
  show "head_node < length N0" "length (links (N0 ! head_node)) = kMaxHeight"
    using in_N(2) hd by (auto simp: N0_def nth_append head_node_def)
qed (use prev k in \<open>auto simp: N0_def\<close>)

lemma insert_rep:
  assumes rep: "skip_rep compare N mh h xs" and ok: "keys_ok N xs" "key_ok key"
    and new: "\<forall>x \<in> set xs. compare (nkey (N ! x)) key \<noteq> 0"
    and prev: "\<forall>i < k. prev ! i = last_at h (lower compare N key xs) i"
    and k: "k \<le> height" "height \<le> mh'" "mh \<le> mh'" "mh' \<le> kMaxHeight"
  defines "N' \<equiv> fold (link_level prev (length N)) [0..<k] (N @ [\<lparr>nkey = key, links = replicate height None\<rparr>])"
  shows "skip_rep compare N' mh' (h(length N := k))
    (if k = 0 then xs else lower compare N key xs @ length N # upper compare N key xs)"
proof -
  let ?lo = "lower compare N key xs" and ?hi = "upper compare N key xs" and ?n = "length N"
  let ?xs = "if k = 0 then xs else ?lo @ ?n # ?hi"
  have cut: "?lo @ ?hi = xs" by (rule skip_cut[OF rep ok])
  have in_N: "\<forall>x \<in> set xs. x \<noteq> head_node \<and> x < ?n \<and> 0 < h x \<and> h x \<le> length (links (N ! x)) \<and> h x \<le> mh"
     "N \<noteq> []" "distinct xs" "length (links (N ! head_node)) = kMaxHeight"
    using rep by (auto simp: skip_rep_def)
  have fresh: "?n \<notin> set (?lo @ ?hi)" using in_N(1) cut by auto
  have keys: "nkey (N' ! x) = nkey (N ! x)" if "x < ?n" for x using that by (simp add: N'_def nth_append)
  have lens: "length (links (N' ! x)) = length (links (N ! x))" if "x < ?n" for x using that by (simp add: N'_def nth_append)
  have n: "nkey (N' ! ?n) = key" "length (links (N' ! ?n)) = height" "length N' = Suc ?n" by (simp_all add: N'_def)
  have lk: "head_node # at_level (h(?n := k)) i ?xs = level_with h ?lo ?n ?hi (i < k) i" for i
  proof (cases "k = 0")
    case True
    have "at_level (h(?n := 0)) i xs = at_level h i xs" using fresh cut by (auto simp: at_level_def intro!: filter_cong)
    then show ?thesis using True by (simp add: level_with_def flip: at_level_append) (simp add: cut)
  qed (use at_level_new[OF fresh] in simp)
  have srt: "sorted_wrt (\<lambda>x y. compare (nkey (N' ! x)) (nkey (N' ! y)) < 0) (?lo @ ?n # ?hi)"
    by (rule sorted_insert[OF rep ok new]) (use keys in_N n in auto)
  then have "sorted_wrt (\<lambda>x y. compare (nkey (N' ! x)) (nkey (N' ! y)) < 0) (?lo @ ?hi)"
    by (simp add: sorted_wrt_append)
  with srt have "sorted_wrt (\<lambda>x y. compare (nkey (N' ! x)) (nkey (N' ! y)) < 0) ?xs" by (simp only: cut) simp
  moreover have "distinct (?lo @ ?hi)" using in_N(3) cut by simp
  then have "distinct ?xs" using fresh in_N(3) by simp
  moreover have "head_node < ?n" using in_N(2) by (simp add: head_node_def)
  moreover have "set (?lo @ ?hi) = set xs" by (simp only: cut)
  then have "\<forall>x \<in> set ?xs. x = ?n \<and> 0 < k \<or> x \<in> set xs" by auto
  then have "\<forall>x \<in> set ?xs. x \<noteq> head_node \<and> x < length N' \<and> 0 < (h(?n := k)) x \<and>
      (h(?n := k)) x \<le> length (links (N' ! x)) \<and> (h(?n := k)) x \<le> mh'"
    using in_N lens n k by (fastforce simp: head_node_def)
  moreover have "\<forall>i < kMaxHeight. linked N' i (head_node # at_level (h(?n := k)) i ?xs)"
    unfolding lk N'_def using insert_links[OF rep ok prev k(1)] k by simp
  ultimately show ?thesis
    using in_N lens n(3) k rep unfolding skip_rep_def by auto
qed

text \<open>The state in which the new node has been linked in \<open>k\<close> levels represents the keys with the
  new one, or the old keys when \<open>k = 0\<close>; in each the invariant holds.\<close>

lemma insert_upto_rep:
  assumes rep: "skip_rep compare (nodes sl) (max_height sl) h xs" and ok: "keys_ok (nodes sl) xs" "key_ok key"
    and new: "\<forall>x \<in> set xs. compare (nkey (nodes sl ! x)) key \<noteq> 0"
    and k: "\<And>height. k height \<le> height"
  shows "\<exists>sl' h' n. insert_upto compare sl key k = Some sl' \<and> n \<notin> set xs \<and> nkey (nodes sl' ! n) = key \<and>
    (\<forall>x \<in> set xs. nkey (nodes sl' ! x) = nkey (nodes sl ! x)) \<and>
    skip_rep compare (nodes sl') (max_height sl') h'
      (if k (fst (RandomHeight (rnd sl))) = 0 then xs
       else lower compare (nodes sl) key xs @ n # upper compare (nodes sl) key xs)"
proof -
  let ?N = "nodes sl" and ?lo = "lower compare (nodes sl) key xs" and ?hi = "upper compare (nodes sl) key xs"
  define height where "height = fst (RandomHeight (rnd sl))"
  define n where "n = length ?N"
  define mh where "mh = (if height > max_height sl then height else max_height sl)"
  define prev0 where "prev0 = fold (\<lambda>j p. p[j := last_at h ?lo j]) (rev [0..<max_height sl]) (replicate kMaxHeight 0)"
  define prev where "prev = (if height > max_height sl
      then fold (\<lambda>i p. p[i := head_node]) [max_height sl..<height] prev0 else prev0)"
  define N0 where "N0 = ?N @ [\<lparr>nkey = key, links = replicate height None\<rparr>]"
  define N' where "N' = fold (link_level prev n) [0..<k height] N0"
  have hr: "1 \<le> height" "height \<le> kMaxHeight" using RandomHeight_range by (simp_all add: height_def)
  have res: "insert_upto compare sl key k = Some \<lparr>nodes = N', max_height = mh, rnd = snd (RandomHeight (rnd sl))\<rparr>"
    using find_ge[OF rep ok, of "Some (replicate kMaxHeight 0)"]
    by (simp add: insert_upto_def FindGreaterOrEqual_def NewNode_def Let_def split_beta height_def mh_def
        prev_def prev0_def N'_def N0_def n_def)
  have mh: "max_height sl \<le> kMaxHeight" "max_height sl \<le> mh" "height \<le> mh" "mh \<le> kMaxHeight"
    using rep hr by (auto simp: skip_rep_def mh_def)
  have "prev ! i = last_at h ?lo i" if "i < height" for i
  proof (cases "i < max_height sl")
    case True
    then show ?thesis using that hr mh(1)
      by (auto simp: prev_def prev0_def nth_fold_update[where g = "\<lambda>i. head_node"]
          nth_fold_update[where g = "last_at h ?lo"])
  next
    case False
    have "\<forall>x \<in> set ?lo. h x \<le> i" using rep False by (fastforce simp: skip_rep_def set_below)
    then have "last_at h ?lo i = head_node" by (simp add: last_at_def at_level_top)
    then show ?thesis using that False hr mh(1)
      by (auto simp: prev_def prev0_def nth_fold_update[where g = "\<lambda>i. head_node"])
  qed
  then have "skip_rep compare N' mh (h(n := k height)) (if k height = 0 then xs else ?lo @ n # ?hi)"
    unfolding N'_def N0_def n_def using k[of height] mh by (intro insert_rep[OF rep ok new]) auto
  moreover have "\<forall>x \<in> set xs. x < n" using rep by (simp add: skip_rep_def n_def)
  then have "n \<notin> set xs" "nkey (N' ! n) = key" "\<forall>x \<in> set xs. nkey (N' ! x) = nkey (?N ! x)"
    by (auto simp: N'_def N0_def n_def nth_append)
  ultimately show ?thesis
    by (intro exI[of _ "\<lparr>nodes = N', max_height = mh, rnd = snd (RandomHeight (rnd sl))\<rparr>"]
        exI[of _ "h(n := k height)"] exI[of _ n]) (simp add: res height_def[symmetric])
qed

end

section \<open>The list as its clients see it\<close>

text \<open>A skip list holds the sorted list \<open>ks\<close> of keys.\<close>

definition sl_keys :: "('k \<Rightarrow> 'k \<Rightarrow> int) \<Rightarrow> 'k skiplist \<Rightarrow> 'k list \<Rightarrow> bool" where
  "sl_keys compare sl ks \<longleftrightarrow>
     (\<exists>h xs. skip_rep compare (nodes sl) (max_height sl) h xs \<and> keys_of (nodes sl) xs = ks)"

text \<open>The positions of an iterator on a list with the nodes \<open>xs\<close>.\<close>

definition pos_of :: "nat list \<Rightarrow> nat \<Rightarrow> position" where
  "pos_of xs j = (if j < length xs then Some (xs ! j) else None)"

lemma map_below: "map f (below compare key f xs) = below compare key id (map f xs)"
  by (simp add: below_def filter_map comp_def)

lemma map_upwards: "map f (upwards compare key f xs) = upwards compare key id (map f xs)"
  by (simp add: upwards_def filter_map comp_def)

lemma fold_SetNext_None:
  "length (fold (\<lambda>i. SetNext x i None) js N) = length N \<and>
   length (links (fold (\<lambda>i. SetNext x i None) js N ! z)) = length (links (N ! z))"
  by (induction js arbitrary: N) simp_all

lemma fold_SetNext_Next:
  "Next N x i = None \<Longrightarrow> x < length N \<Longrightarrow> Next (fold (\<lambda>i. SetNext x i None) js N) x i = None"
proof (induction js arbitrary: N)
  case (Cons j js)
  have "Next (SetNext x j None N) x i = None"
    using Cons.prems by (cases "j = i"; cases "i < length (links (N ! x))")
      (auto simp: Next_SetNext, auto simp: Next_def SetNext_nth list_update_beyond not_less)
  then show ?case using Cons by simp
qed simp

lemma sl_keys_new: "sl_keys compare (new_SkipList k) []"
proof -
  let ?N = "snd (NewNode k kMaxHeight [])"
  let ?M = "fold (\<lambda>i. SetNext head_node i None) [0..<kMaxHeight] ?N"
  have N: "length ?N = 1" "length (links (?N ! head_node)) = kMaxHeight" "head_node < length ?N"
     "\<And>i. i < kMaxHeight \<Longrightarrow> Next ?N head_node i = None"
    by (auto simp: NewNode_def head_node_def Next_def)
  then have "length ?M = 1" "length (links (?M ! head_node)) = kMaxHeight"
    by (simp_all add: fold_SetNext_None)
  moreover have "\<forall>i < kMaxHeight. Next ?M head_node i = None"
    using N fold_SetNext_Next by blast
  ultimately have "skip_rep compare ?M 1 (\<lambda>_. 0) []"
    by (auto simp: skip_rep_def at_level_def kMaxHeight_def simp del: upt.simps)
  then show ?thesis by (auto simp: sl_keys_def new_SkipList_def keys_of_def intro!: exI[of _ "[]"])
qed

context compare_order
begin

lemma sl_keys_insert_upto:
  assumes "sl_keys compare sl ks" "\<forall>k \<in> set ks. key_ok k \<and> compare k key \<noteq> 0" "key_ok key"
    and "\<And>height. k height \<le> height"
  shows "\<exists>sl'. insert_upto compare sl key k = Some sl' \<and>
    sl_keys compare sl' (if k (fst (RandomHeight (rnd sl))) = 0 then ks
      else below compare key id ks @ key # upwards compare key id ks)"
proof -
  let ?f = "\<lambda>x. nkey (nodes sl ! x)"
  obtain h xs where rep: "skip_rep compare (nodes sl) (max_height sl) h xs" and ks: "ks = map ?f xs"
    using assms(1) by (auto simp: sl_keys_def keys_of_def)
  then obtain sl' h' n where sl': "insert_upto compare sl key k = Some sl'" "nkey (nodes sl' ! n) = key"
      "\<forall>x \<in> set xs. nkey (nodes sl' ! x) = ?f x"
      "skip_rep compare (nodes sl') (max_height sl') h'
        (if k (fst (RandomHeight (rnd sl))) = 0 then xs
         else lower compare (nodes sl) key xs @ n # upper compare (nodes sl) key xs)"
    using insert_upto_rep[OF rep _ assms(3) _ assms(4)] assms(2) by (auto simp: keys_ok_def)
  moreover have "keys_of (nodes sl') ys = map ?f ys" if "set ys \<subseteq> set xs" for ys
    using that sl'(3) by (auto simp: keys_of_def)
  then have "keys_of (nodes sl') xs = ks"
    "keys_of (nodes sl') (lower compare (nodes sl) key xs @ n # upper compare (nodes sl) key xs) =
      below compare key id ks @ key # upwards compare key id ks"
    using sl'(2,3) by (simp_all add: ks keys_of_def set_below set_upwards flip: map_below map_upwards)
  ultimately show ?thesis by (auto simp: sl_keys_def split: if_splits)
qed

lemma sl_keys_insert:
  assumes "sl_keys compare sl ks" "\<forall>k \<in> set ks. key_ok k \<and> compare k key \<noteq> 0" "key_ok key"
  shows "\<exists>sl'. SkipList_Insert compare sl key = Some sl' \<and>
    sl_keys compare sl' (below compare key id ks @ key # upwards compare key id ks)"
proof -
  have "fst (RandomHeight (rnd sl)) \<noteq> 0" using RandomHeight_range(1)[of "rnd sl"] by simp
  then show ?thesis
    using sl_keys_insert_upto[OF assms, of "\<lambda>height. height"] by (simp add: SkipList_Insert_def)
qed

lemma lower_nth:
  assumes rep: "skip_rep compare N mh h xs" and ok: "keys_ok N xs" and j: "j < length xs"
  shows "lower compare N (nkey (N ! (xs ! j))) xs = take j xs"
proof -
  let ?P = "\<lambda>x. compare (nkey (N ! x)) (nkey (N ! (xs ! j))) < 0"
  have srt: "sorted_wrt (\<lambda>x y. compare (nkey (N ! x)) (nkey (N ! y)) < 0) xs" using rep by (simp add: skip_rep_def)
  have "?P x" if "x \<in> set (take j xs)" for x
    using that srt j by (auto simp: in_set_conv_nth sorted_wrt_iff_nth_less)
  moreover have "\<not> ?P x" if x: "x \<in> set (drop j xs)" for x
  proof -
    obtain i where i: "x = xs ! i" "j \<le> i" "i < length xs"
      using x by (auto simp: in_set_conv_nth)
    have kok: "key_ok (nkey (N ! (xs ! i)))" "key_ok (nkey (N ! (xs ! j)))"
      using ok i j by (auto simp: keys_ok_def)
    show ?thesis
    proof (cases "i = j")
      case True
      then show ?thesis using refl[OF kok(1)] i by simp
    next
      case False
      then have "compare (nkey (N ! (xs ! j))) (nkey (N ! (xs ! i))) < 0"
        using srt i by (simp add: sorted_wrt_iff_nth_less)
      then show ?thesis using swap[OF kok(2,1)] i(1) by simp
    qed
  qed
  ultimately have "filter ?P (take j xs @ drop j xs) = take j xs"
    by (simp only: filter_append) (simp add: filter_empty_conv)
  then show ?thesis by (simp add: below_def)
qed

lemma iterator_positions:
  assumes "sl_keys compare sl ks" "\<forall>k \<in> set ks. key_ok k"
  shows "\<exists>pos. (\<forall>j. Iter_Valid (pos j) \<longleftrightarrow> j < length ks) \<and>
    (\<forall>j < length ks. Iter_key sl (pos j) = ks ! j \<and> Iter_Next sl (pos j) = pos (Suc j) \<and>
       Iter_Prev compare sl (pos j) = Some (if j = 0 then None else pos (j - 1))) \<and>
    Iter_SeekToFirst sl = pos 0 \<and> Iter_SeekToLast sl = Some (pos (length ks - 1)) \<and>
    (\<forall>target. key_ok target \<longrightarrow> Iter_Seek compare sl target = Some (pos (length (below compare target id ks))))"
proof -
  let ?f = "\<lambda>x. nkey (nodes sl ! x)"
  obtain h xs where rep: "skip_rep compare (nodes sl) (max_height sl) h xs" and ks: "ks = map ?f xs"
    using assms(1) by (auto simp: sl_keys_def keys_of_def)
  have ok: "keys_ok (nodes sl) xs" using assms(2) by (auto simp: keys_ok_def ks)
  have nh: "\<forall>x \<in> set xs. x \<noteq> head_node" using rep by (auto simp: skip_rep_def)
  have first_drop: "first (drop j xs) = pos_of xs j" for j
    by (cases "j < length xs") (simp_all add: first_def pos_of_def flip: Cons_nth_drop_Suc)
  have "linked (nodes sl) 0 (head_node # at_level h 0 xs)"
    using rep by (simp add: skip_rep_def kMaxHeight_def)
  then have "linked (nodes sl) 0 (head_node # xs)" by (simp only: skip_level_0[OF rep order.refl])
  then have nxt: "Next (nodes sl) head_node 0 = pos_of xs 0"
     "j < length xs \<Longrightarrow> Next (nodes sl) (xs ! j) 0 = pos_of xs (Suc j)" for j
    using linked_Next[of "nodes sl" 0 "[]" head_node xs] linked_Next[of "nodes sl" 0 "head_node # take j xs" "xs ! j" "drop (Suc j) xs"]
      first_drop[of 0] first_drop[of "Suc j"] by (auto simp: id_take_nth_drop[symmetric])
  have prev: "Iter_Prev compare sl (pos_of xs j) = Some (if j = 0 then None else pos_of xs (j - 1))"
    if j: "j < length xs" for j
  proof -
    have "find_less_loop compare (nodes sl) (?f (xs ! j)) head_node (max_height sl - 1) =
        Some (last (head_node # take j xs))"
      using find_less[OF rep ok, of "?f (xs ! j)"] lower_nth[OF rep ok j] ok j by (simp add: keys_ok_def)
    moreover have "not_head (last (head_node # take j xs)) = (if j = 0 then None else pos_of xs (j - 1))"
      using j nh by (cases j) (auto simp: not_head_def pos_of_def last_conv_nth)
    ultimately show ?thesis using j by (simp add: Iter_Prev_def FindLessThan_def pos_of_def)
  qed
  have last: "Iter_SeekToLast sl = Some (pos_of xs (length xs - 1))"
    using find_last[OF rep] nh
    by (cases "xs = []") (auto simp: Iter_SeekToLast_def FindLast_def not_head_def pos_of_def last_conv_nth)
  have seek: "Iter_Seek compare sl t = Some (pos_of xs (length (below compare t id ks)))" if "key_ok t" for t
  proof -
    have "upper compare (nodes sl) t xs = drop (length (lower compare (nodes sl) t xs)) xs"
      using skip_cut[OF rep ok that] by (metis append_eq_conv_conj)
    then show ?thesis using find_ge[OF rep ok that, of None] first_drop
      by (simp add: Iter_Seek_def FindGreaterOrEqual_def ks flip: map_below)
  qed
  show ?thesis
    by (rule exI[of _ "pos_of xs"])
       (use nxt prev last seek in \<open>auto simp: ks Iter_Valid_def Iter_key_def Iter_Next_def Iter_SeekToFirst_def
          pos_of_def\<close>)
qed

end

interpretation int_order: compare_order "\<lambda>a b :: int. a - b" "\<lambda>_. True"
  by unfold_locales auto

section \<open>Properties\<close>

definition random_M :: nat where "random_M = 2147483647"

lemma mersenne_reduce:
  assumes "p < random_M * 2 ^ 31"
  defines "s \<equiv> p div 2 ^ 31 + p mod 2 ^ 31"
  shows "(if s > random_M then s - random_M else s) mod random_M = p mod random_M"
    and "s < 2 * random_M" and "p mod random_M \<noteq> 0 \<Longrightarrow> s \<noteq> random_M"
proof -
  have M: "2 ^ 31 = random_M + 1" by (simp add: random_M_def)
  have q: "p div 2 ^ 31 < random_M" using assms by (simp add: less_mult_imp_div_less)
  have r: "p mod 2 ^ 31 \<le> random_M" using mod_less_divisor[of "2 ^ 31" p] unfolding random_M_def by simp
  from q r show "s < 2 * random_M" by (simp add: s_def)
  have "p = p div 2 ^ 31 * (random_M + 1) + p mod 2 ^ 31" using div_mult_mod_eq[of p "2 ^ 31"] by (simp only: M)
  then have "p = p div 2 ^ 31 * random_M + s" by (simp add: s_def algebra_simps)
  then have "p mod random_M = s mod random_M" by (metis mod_mult_self3)
  then show "(if s > random_M then s - random_M else s) mod random_M = p mod random_M"
    "p mod random_M \<noteq> 0 \<Longrightarrow> s \<noteq> random_M" by (auto simp: le_mod_geq)
qed

lemma Random_Next_unat:
  assumes "unat seed < random_M"
  defines "p \<equiv> unat seed * 16807"
  defines "s \<equiv> p div 2 ^ 31 + p mod 2 ^ 31"
  shows "unat (Random_Next seed) = (if s > random_M then s - random_M else s)"
proof -
  let ?prod = "ucast seed * 16807 :: 64 word"
  have p: "p < 2 ^ 46" using assms(1) by (simp add: p_def random_M_def)
  have u: "unat ?prod = p"
    using p by (simp add: unat_word_ariths p_def)
  have d: "p div 2 ^ 31 < 2 ^ 15" using p by (simp add: less_mult_imp_div_less)
  have "p mod 2 ^ 31 < 2 ^ 31" by simp
  with d have s: "s < 2 ^ 32" unfolding s_def by simp
  have "?prod AND ucast (2147483647 :: 32 word) = take_bit 31 ?prod"
    by (simp add: take_bit_eq_mask mask_eq_exp_minus_1)
  then have "unat (?prod AND ucast (2147483647 :: 32 word)) = p mod 2 ^ 31"
    by (metis take_bit_eq_mod u unsigned_take_bit_eq)
  moreover have "unat (drop_bit 31 ?prod) = p div 2 ^ 31"
    using p by (subst unsigned_drop_bit_eq) (simp add: u drop_bit_eq_div take_bit_nat_eq_self)
  ultimately have "unat (drop_bit 31 ?prod + (?prod AND ucast (2147483647 :: 32 word))) = s"
    using s by (simp add: unat_word_ariths s_def)
  then have "unat (ucast (drop_bit 31 ?prod + (?prod AND ucast (2147483647 :: 32 word))) :: 32 word) = s"
    using s by (simp add: unsigned_ucast_eq take_bit_nat_eq_self)
  then show ?thesis
    unfolding Random_Next_def Let_def by (simp add: word_less_nat_alt random_M_def unat_sub word_le_nat_alt)
qed

text \<open>\<^verbatim>\<open>Random::Next\<close> computes the generator \<open>seed * 16807 mod (2 ^ 31 - 1)\<close> without a
  division and never leaves the range of good seeds, in which a new generator starts.\<close>

theorem random_next_correct:
  assumes "0 < unat seed" "unat seed < random_M"
  shows "unat (Random_Next seed) = unat seed * 16807 mod random_M \<and>
    0 < unat (Random_Next seed) \<and> unat (Random_Next seed) < random_M \<and>
    0 < unat (new_Random s) \<and> unat (new_Random s) < random_M"
proof -
  let ?p = "unat seed * 16807"
  let ?s = "?p div 2 ^ 31 + ?p mod 2 ^ 31" and ?r = "unat (Random_Next seed)"
  have "?p < random_M * 2 ^ 31" using assms by (simp add: random_M_def)
  note red = mersenne_reduce[OF this]
  have "coprime 16807 random_M" unfolding random_M_def by (simp add: coprime_iff_gcd_eq_1 gcd_nat.simps)
  then have nz: "?p mod random_M \<noteq> 0"
    using assms by (metis coprime_commute coprime_dvd_mult_left_iff dvd_imp_le leD mod_eq_0_iff_dvd)
  have r: "?r = (if ?s > random_M then ?s - random_M else ?s)" by (rule Random_Next_unat[OF assms(2)])
  have "?r < random_M" using red(2) red(3)[OF nz] unfolding r by auto
  moreover have "?r mod random_M = ?p mod random_M" using red(1) r by simp
  ultimately have "?r = ?p mod random_M" "0 < ?r" "?r < random_M" using nz by auto
  moreover have "0 < unat (new_Random s)" "unat (new_Random s) < random_M"
  proof -
    let ?t = "s AND 0x7fffffff"
    have "?t = take_bit 31 s" by (simp add: take_bit_eq_mask mask_eq_exp_minus_1)
    then have "unat ?t < 2 ^ 31" using take_bit_nat_less_exp[of 31 "unat s"] by (simp only: unsigned_take_bit_eq)
    then show "0 < unat (new_Random s)" "unat (new_Random s) < random_M"
      by (auto simp: new_Random_def Let_def random_M_def word_unat_eq_iff)
  qed
  ultimately show ?thesis by blast
qed

theorem random_next_correct_witness:
  "unat (Random_Next 5) = 84035 \<and> 0 < unat (new_Random 0xdeadbeef)"
  using random_next_correct[of 5 "0xdeadbeef"] by (simp add: random_M_def)

text \<open>C23. Inserting a key into a skip list returns and gives the list with the key at its place in
  the order; the invariant of the links holds again on all levels, whatever height is drawn.\<close>

theorem skiplist_insert:
  assumes "compare_order compare key_ok" "sl_keys compare sl ks"
    and "\<forall>k \<in> set ks. key_ok k \<and> compare k key \<noteq> 0" "key_ok key"
  shows "\<exists>sl'. SkipList_Insert compare sl key = Some sl' \<and>
    sl_keys compare sl' (below compare key id ks @ key # upwards compare key id ks)"
  by (rule compare_order.sl_keys_insert[OF assms])

theorem skiplist_insert_witness:
  "\<exists>sl'. SkipList_Insert (\<lambda>a b :: int. a - b) (new_SkipList 0) 7 = Some sl' \<and>
    sl_keys (\<lambda>a b. a - b) sl' [7]"
  using skiplist_insert[OF int_order.compare_order_axioms sl_keys_new, of 7 0]
  by (simp add: below_def upwards_def)

text \<open>C25. The iterator of a skip list moves over the keys in order: forward, backward, to both ends,
  and \<^verbatim>\<open>Seek\<close> to the first key that is not smaller than the target; every search returns.\<close>

theorem skiplist_iterator:
  assumes "compare_order compare key_ok" "sl_keys compare sl ks" "\<forall>k \<in> set ks. key_ok k"
  shows "\<exists>pos. (\<forall>j. Iter_Valid (pos j) \<longleftrightarrow> j < length ks) \<and>
    (\<forall>j < length ks. Iter_key sl (pos j) = ks ! j \<and> Iter_Next sl (pos j) = pos (Suc j) \<and>
       Iter_Prev compare sl (pos j) = Some (if j = 0 then None else pos (j - 1))) \<and>
    Iter_SeekToFirst sl = pos 0 \<and> Iter_SeekToLast sl = Some (pos (length ks - 1)) \<and>
    (\<forall>target. key_ok target \<longrightarrow> Iter_Seek compare sl target = Some (pos (length (below compare target id ks))))"
  by (rule compare_order.iterator_positions[OF assms])

lemma two_keys:
  "\<exists>sl1 sl. SkipList_Insert (\<lambda>a b :: int. a - b) (new_SkipList 0) 7 = Some sl1 \<and> SkipList_Insert (\<lambda>a b. a - b) sl1 3 = Some sl \<and>
    sl_keys (\<lambda>a b. a - b) sl [3, 7]"
proof -
  obtain sl1 where 1: "SkipList_Insert (\<lambda>a b :: int. a - b) (new_SkipList 0) 7 = Some sl1" "sl_keys (\<lambda>a b. a - b) sl1 [7]"
    using int_order.sl_keys_insert[OF sl_keys_new, of 7 0] by (auto simp: below_def upwards_def)
  obtain sl where 2: "SkipList_Insert (\<lambda>a b. a - b) sl1 3 = Some sl" "sl_keys (\<lambda>a b. a - b) sl [3, 7]"
    using int_order.sl_keys_insert[OF 1(2), of 3] by (auto simp: below_def upwards_def)
  show ?thesis using 1(1) 2 by blast
qed

theorem skiplist_iterator_witness:
  "\<exists>sl1 sl. SkipList_Insert (\<lambda>a b :: int. a - b) (new_SkipList 0) 7 = Some sl1 \<and> SkipList_Insert (\<lambda>a b. a - b) sl1 3 = Some sl \<and>
    Iter_key sl (Iter_SeekToFirst sl) = 3 \<and> Iter_key sl (Iter_Next sl (Iter_SeekToFirst sl)) = 7 \<and>
    Iter_Seek (\<lambda>a b. a - b) sl 5 = Iter_SeekToLast sl \<and> Iter_SeekToLast sl = Some (Iter_Next sl (Iter_SeekToFirst sl)) \<and>
    \<not> Iter_Valid (Iter_Next sl (Iter_Next sl (Iter_SeekToFirst sl)))"
proof -
  obtain sl1 sl where sl: "SkipList_Insert (\<lambda>a b :: int. a - b) (new_SkipList 0) 7 = Some sl1" "SkipList_Insert (\<lambda>a b. a - b) sl1 3 = Some sl"
    "sl_keys (\<lambda>a b. a - b) sl [3, 7]" using two_keys by blast
  obtain pos where pos: "\<forall>j. Iter_Valid (pos j) \<longleftrightarrow> j < length [3, 7 :: int]"
    "\<forall>j < length [3, 7 :: int]. Iter_key sl (pos j) = [3, 7] ! j \<and> Iter_Next sl (pos j) = pos (Suc j) \<and>
       Iter_Prev (\<lambda>a b. a - b) sl (pos j) = Some (if j = 0 then None else pos (j - 1))"
    "Iter_SeekToFirst sl = pos 0" "Iter_SeekToLast sl = Some (pos (length [3, 7 :: int] - 1))"
    "\<forall>target. True \<longrightarrow> Iter_Seek (\<lambda>a b. a - b) sl target = Some (pos (length (below (\<lambda>a b. a - b) target id [3, 7])))"
    using skiplist_iterator[OF int_order.compare_order_axioms sl(3)] by blast
  have "Iter_key sl (pos 0) = 3 \<and> Iter_Next sl (pos 0) = pos 1" "Iter_key sl (pos 1) = 7 \<and> Iter_Next sl (pos 1) = pos 2"
    using pos(2)[rule_format, of 0] pos(2)[rule_format, of 1] by (simp_all add: numeral_2_eq_2)
  moreover have "Iter_Seek (\<lambda>a b. a - b) sl 5 = Some (pos 1)" using pos(5)[rule_format, of 5] by (simp add: below_def)
  moreover have "\<not> Iter_Valid (pos 2)" "Iter_SeekToLast sl = Some (pos 1)" using pos(1)[rule_format, of 2] pos(4) by simp_all
  ultimately show ?thesis using sl(1,2) pos(3) by metis
qed

text \<open>C24. A reader that looks at the list while an insertion has linked the new node in some of its
  levels sees a well-formed list: the one before the insertion or the one after it.\<close>

theorem skiplist_insert_visible:
  assumes "compare_order compare key_ok" "sl_keys compare sl ks"
    and "\<forall>k \<in> set ks. key_ok k \<and> compare k key \<noteq> 0" "key_ok key" "\<And>height. k height \<le> height"
  shows "\<exists>sl'. insert_upto compare sl key k = Some sl' \<and>
    (sl_keys compare sl' ks \<or> sl_keys compare sl' (below compare key id ks @ key # upwards compare key id ks))"
  using compare_order.sl_keys_insert_upto[OF assms] by (auto split: if_splits)

theorem skiplist_insert_visible_witness:
  "\<exists>sl'. insert_upto (\<lambda>a b :: int. a - b) (new_SkipList 0) 7 (\<lambda>height. height - 1) = Some sl' \<and>
    (sl_keys (\<lambda>a b. a - b) sl' [] \<or> sl_keys (\<lambda>a b. a - b) sl' [7])"
  using skiplist_insert_visible[OF int_order.compare_order_axioms sl_keys_new, of 7 "\<lambda>height. height - 1" 0]
  by (simp add: below_def upwards_def)

end
