(* ===== verification/Ldb_Memtable.thy ===== *)
theory Ldb_Memtable
  imports Ldb_Write_Batch Ldb_Skiplist
begin

text \<open>
  The memtable: \<^verbatim>\<open>db/memtable.h\<close> and \<^verbatim>\<open>db/memtable.cc\<close>, and \<^verbatim>\<open>WriteBatchInternal::InsertInto\<close>.

  A key of the skip list is a pointer to an encoded entry; it is modelled by the bytes from
  there on. Reading a length-prefixed slice through such a pointer looks at no more than five
  bytes for the length; the result \<open>None\<close> is the null pointer that the code assumes not to get.
  The arena that holds the bytes is a theory of its own, and the reference count is kept as in the code.

  The abstract state is the list of entries added. The refinement lemma says that \<open>Get\<close> finds the
  newest entry of the user key that is visible at the sequence number of the lookup key.
\<close>

section \<open>Operations\<close>

definition mt_GetLengthPrefixedSlice :: "slice \<Rightarrow> (slice \<times> slice) option" where
  "mt_GetLengthPrefixedSlice data =
     (case GetVarint32Ptr (take 5 data) of
        None \<Rightarrow> None
      | Some (len, q) \<Rightarrow>
          let p = drop (length (take 5 data) - length q) data
          in Some (take (unat len) p, drop (unat len) p))"

definition KeyComparator :: "Comparator \<Rightarrow> slice \<Rightarrow> slice \<Rightarrow> int" where
  "KeyComparator comparator aptr bptr =
     Compare comparator (fst (the (mt_GetLengthPrefixedSlice aptr)))
       (fst (the (mt_GetLengthPrefixedSlice bptr)))"

definition EncodeKey :: "slice \<Rightarrow> slice" where
  "EncodeKey target = PutVarint32 [] (of_nat (length target)) @ target"

record MemTable =
  mt_user_comparator :: Comparator
  mt_refs :: int
  mt_table :: "slice skiplist"

definition mt_compare :: "MemTable \<Rightarrow> slice \<Rightarrow> slice \<Rightarrow> int" where
  "mt_compare mt = KeyComparator (InternalKeyComparator (mt_user_comparator mt))"

definition new_MemTable :: "Comparator \<Rightarrow> MemTable" where
  "new_MemTable cmp =
     \<lparr>mt_user_comparator = cmp, mt_refs = 0, mt_table = new_SkipList []\<rparr>"

definition MemTable_Ref :: "MemTable \<Rightarrow> MemTable" where
  "MemTable_Ref mt = mt\<lparr>mt_refs := mt_refs mt + 1\<rparr>"

text \<open>The last reference deletes the memtable: the result is \<open>None\<close>.\<close>

definition MemTable_Unref :: "MemTable \<Rightarrow> MemTable option" where
  "MemTable_Unref mt =
     (let mt = mt\<lparr>mt_refs := mt_refs mt - 1\<rparr> in if mt_refs mt \<le> 0 then None else Some mt)"

definition encode_entry :: "SequenceNumber \<Rightarrow> ValueType \<Rightarrow> slice \<Rightarrow> slice \<Rightarrow> slice" where
  "encode_entry s type key val =
     (let internal_key_size = length key + 8
      in EncodeVarint32 (of_nat internal_key_size) @ key @ EncodeFixed64 (push_bit 8 s OR type_code type) @
         EncodeVarint32 (of_nat (length val)) @ val)"

definition encoded_len :: "slice \<Rightarrow> slice \<Rightarrow> nat" where
  "encoded_len key val =
     (let internal_key_size = length key + 8
      in VarintLength (of_nat internal_key_size) + internal_key_size + VarintLength (of_nat (length val)) + length val)"

definition MemTable_Add :: "SequenceNumber \<Rightarrow> ValueType \<Rightarrow> slice \<Rightarrow> slice \<Rightarrow> MemTable \<Rightarrow> MemTable option" where
  "MemTable_Add s type key val mt =
     map_option (\<lambda>t. mt\<lparr>mt_table := t\<rparr>)
       (SkipList_Insert (mt_compare mt) (mt_table mt) (encode_entry s type key val))"

datatype mt_result = MtAbsent | MtValue slice | MtStatus Status

definition MemTable_Get :: "MemTable \<Rightarrow> LookupKey \<Rightarrow> mt_result option" where
  "MemTable_Get mt key =
     (case Iter_Seek (mt_compare mt) (mt_table mt) (memtable_key key) of
        None \<Rightarrow> None
      | Some iter \<Rightarrow>
          if Iter_Valid iter then
            let entry = Iter_key (mt_table mt) iter;
                (key_length, q) = the (GetVarint32Ptr (take 5 entry));
                key_ptr = drop (length (take 5 entry) - length q) entry
            in if Compare (mt_user_comparator mt) (take (unat (key_length - 8)) key_ptr) (lk_user_key key) = 0
               then let tag = DecodeFixed64 (drop (unat key_length - 8) key_ptr) in
                 if tag AND 0xff = type_code kTypeValue
                 then Some (MtValue (fst (the (mt_GetLengthPrefixedSlice (drop (unat key_length) key_ptr)))))
                 else if tag AND 0xff = type_code kTypeDeletion then Some (MtStatus (NotFound [] []))
                 else Some MtAbsent
               else Some MtAbsent
          else Some MtAbsent)"

text \<open>\<^verbatim>\<open>MemTableIterator\<close>: the positions of the skip list with decoded keys and values.\<close>

definition mti_Seek :: "MemTable \<Rightarrow> slice \<Rightarrow> position option" where
  "mti_Seek mt k = Iter_Seek (mt_compare mt) (mt_table mt) (EncodeKey k)"

definition mti_key :: "MemTable \<Rightarrow> position \<Rightarrow> slice" where
  "mti_key mt iter = fst (the (mt_GetLengthPrefixedSlice (Iter_key (mt_table mt) iter)))"

definition mti_value :: "MemTable \<Rightarrow> position \<Rightarrow> slice" where
  "mti_value mt iter =
     fst (the (mt_GetLengthPrefixedSlice (snd (the (mt_GetLengthPrefixedSlice (Iter_key (mt_table mt) iter))))))"

text \<open>\<^verbatim>\<open>MemTableInserter\<close> with its two members, and \<^verbatim>\<open>InsertInto\<close>.\<close>

definition MemTableInserter :: "(SequenceNumber \<times> MemTable option) Handler" where
  "MemTableInserter =
     \<lparr>hPut = (\<lambda>key val (seq, mem). (seq + 1, Option.bind mem (MemTable_Add seq kTypeValue key val))),
      hDelete = (\<lambda>key (seq, mem). (seq + 1, Option.bind mem (MemTable_Add seq kTypeDeletion key [])))\<rparr>"

definition InsertInto :: "WriteBatch \<Rightarrow> MemTable \<Rightarrow> Status \<times> MemTable option" where
  "InsertInto b memtable =
     (case Iterate MemTableInserter b (Sequence b, Some memtable) of (s, (_, mem)) \<Rightarrow> (s, mem))"

section \<open>Entries\<close>

lemma GetVarint32Ptr_take5:
  "GetVarint32Ptr (take 5 (EncodeVarint32 v @ rest)) = Some (v, take (5 - length (EncodeVarint32 v)) rest)"
proof -
  have "length (EncodeVarint32 v) \<le> 5" unfolding EncodeVarint32_eq by (rule length_vbytes_32)
  then show ?thesis by (simp add: GetVarint32Ptr_Encode)
qed

lemma take5_drop:
  "drop (length (take 5 (EncodeVarint32 v @ rest)) - length (take (5 - length (EncodeVarint32 v)) rest))
     (EncodeVarint32 v @ rest) = rest"
proof -
  have "length (EncodeVarint32 v) \<le> 5" unfolding EncodeVarint32_eq by (rule length_vbytes_32)
  then have e: "length (take 5 (EncodeVarint32 v @ rest)) - length (take (5 - length (EncodeVarint32 v)) rest) =
      length (EncodeVarint32 v)" by simp
  show ?thesis unfolding e by simp
qed

lemma mt_prefixed [simp]:
  assumes "length s < 2 ^ 32"
  shows "mt_GetLengthPrefixedSlice (prefixed s @ rest) = Some (s, rest)"
proof -
  let ?v = "of_nat (length s) :: 32 word"
  have "mt_GetLengthPrefixedSlice (EncodeVarint32 ?v @ s @ rest) = Some (take (unat ?v) (s @ rest), drop (unat ?v) (s @ rest))"
    unfolding mt_GetLengthPrefixedSlice_def GetVarint32Ptr_take5 option.case prod.case Let_def take5_drop ..
  then show ?thesis using assms by (simp add: prefixed_def unat_of_nat_32)
qed

lemma encode_entry_eq:
  "encode_entry s t k v = prefixed (InternalKey k s t) @ prefixed v"
  by (simp add: encode_entry_def prefixed_def InternalKey_eq PackSequenceAndType_def Let_def)

text \<open>The assertion of \<^verbatim>\<open>Add\<close>: the entry has the length computed for it.\<close>

lemma encode_entry_length:
  "length k + 8 < 2 ^ 32 \<Longrightarrow> length v < 2 ^ 32 \<Longrightarrow> length (encode_entry s t k v) = encoded_len k v"
  using unat_of_nat_32[of "length k + 8"] unat_of_nat_64[of "length k + 8"] unat_of_nat_32[of "length v"]
    unat_of_nat_64[of "length v"]
  by (simp add: encode_entry_def encoded_len_def Let_def EncodeVarint32_eq VarintLength_eq del: of_nat_add)

lemma EncodeKey_eq: "EncodeKey t = prefixed t"
  by (simp add: EncodeKey_def PutVarint32_def prefixed_def)

text \<open>The keys the skip list of a memtable compares: an internal key with its length, and
  possibly more.\<close>

definition ikey_of :: "slice \<Rightarrow> slice" where
  "ikey_of e = fst (the (mt_GetLengthPrefixedSlice e))"

lemma ikey_of_prefixed [simp]: "length k < 2 ^ 32 \<Longrightarrow> ikey_of (prefixed k @ r) = k"
  by (simp add: ikey_of_def)

lemma ikey_of_prefixed' [simp]: "length k < 2 ^ 32 \<Longrightarrow> ikey_of (prefixed k) = k"
  using ikey_of_prefixed[of k "[]"] by simp

lemma KeyComparator_eq: "KeyComparator C a b = Compare C (ikey_of a) (ikey_of b)"
  by (simp add: KeyComparator_def ikey_of_def)

lemma compare_order_image:
  assumes "compare_order c ok"
  shows "compare_order (\<lambda>a b. c (f a) (f b)) (\<lambda>a. ok (f a))"
proof -
  note L = compare_order.refl[OF assms] compare_order.swap[OF assms] compare_order.trans[OF assms]
  show ?thesis by unfold_locales (use L in blast)+
qed

section \<open>The memtable refines a list of entries\<close>

type_synonym entry = "ParsedInternalKey \<times> slice"

definition entry_bytes :: "entry \<Rightarrow> slice" where
  "entry_bytes e = encode_entry (sequence (fst e)) (vtype (fst e)) (user_key (fst e)) (snd e)"

definition entry_small :: "entry \<Rightarrow> bool" where
  "entry_small e \<longleftrightarrow> length (user_key (fst e)) + 8 < 2 ^ 32 \<and> length (snd e) < 2 ^ 32 \<and>
     sequence (fst e) \<le> kMaxSequenceNumber"

text \<open>The newest entry of a user key that is visible at a sequence number, and what a lookup
  should answer.\<close>

definition visible :: "Comparator \<Rightarrow> slice \<Rightarrow> SequenceNumber \<Rightarrow> entry \<Rightarrow> bool" where
  "visible C u s e \<longleftrightarrow> Compare C (user_key (fst e)) u = 0 \<and> sequence (fst e) \<le> s"

fun newest :: "entry list \<Rightarrow> entry option" where
  "newest [] = None"
| "newest (e # es) =
     (case newest es of None \<Rightarrow> Some e
      | Some e' \<Rightarrow> if sequence (fst e) < sequence (fst e') then Some e' else Some e)"

fun answer :: "entry option \<Rightarrow> mt_result" where
  "answer None = MtAbsent"
| "answer (Some (k, v)) = (if vtype k = kTypeValue then MtValue v else MtStatus (NotFound [] []))"

definition lookup :: "Comparator \<Rightarrow> entry list \<Rightarrow> slice \<Rightarrow> SequenceNumber \<Rightarrow> mt_result" where
  "lookup C es u s = answer (newest (filter (visible C u s) es))"

definition mt_rep :: "(slice \<Rightarrow> bool) \<Rightarrow> MemTable \<Rightarrow> entry list \<Rightarrow> bool" where
  "mt_rep user_ok mt es \<longleftrightarrow>
     (\<exists>es'. set es' = set es \<and> sl_keys (mt_compare mt) (mt_table mt) (map entry_bytes es')) \<and>
     (\<forall>e \<in> set es. entry_small e \<and> user_ok (user_key (fst e))) \<and> distinct (map (\<lambda>e. sequence (fst e)) es)"

lemma newest_Nil_iff [simp]: "newest es = None \<longleftrightarrow> es = []"
  by (cases es) (auto split: option.splits)

lemma newest_in: "newest es = Some e \<Longrightarrow> e \<in> set es \<and> (\<forall>e' \<in> set es. sequence (fst e') \<le> sequence (fst e))"
proof (induction es arbitrary: e)
  case (Cons a es)
  then show ?case by (cases "newest es") (force split: if_splits)+
qed simp

lemma newest_unique:
  assumes "e \<in> set es" "\<forall>e' \<in> set es. e' = e \<or> sequence (fst e') < sequence (fst e)"
  shows "newest es = Some e"
proof -
  obtain n where n: "newest es = Some n" using assms(1) by (cases "newest es") auto
  then show ?thesis using newest_in[OF n] assms by (metis leD)
qed

lemma ikey_of_entry:
  assumes "entry_small e"
  shows "ikey_of (entry_bytes e) = InternalKey (user_key (fst e)) (sequence (fst e)) (vtype (fst e))"
  using assms by (simp add: entry_bytes_def encode_entry_eq entry_small_def InternalKey_eq)

lemma memtable_key_eq: "memtable_key (new_LookupKey u s) = prefixed (InternalKey u s kTypeValue)"
  by (simp add: memtable_key_def new_LookupKey_def Let_def prefixed_def InternalKey_eq kValueTypeForSeek_def)

lemma lk_user_key_eq: "lk_user_key (new_LookupKey u s) = u"
  by (simp add: lk_user_key_def new_LookupKey_def Let_def)

lemma InternalKey_parts [simp]:
  "ExtractUserKey (InternalKey u s t) = u" "key_num (InternalKey u s t) = PackSequenceAndType s t"
  "length (InternalKey u s t) = length u + 8"
  by (simp_all add: InternalKey_eq)

lemma pack_le_seek:
  "s \<le> kMaxSequenceNumber \<Longrightarrow> s' \<le> kMaxSequenceNumber \<Longrightarrow>
   PackSequenceAndType s' t \<le> PackSequenceAndType s kTypeValue \<longleftrightarrow> s' \<le> s"
  using pack_less[of s s' kTypeValue t] by (simp add: linorder_not_less[symmetric])

lemma sl_keys_sorted: "sl_keys compare sl ks \<Longrightarrow> sorted_wrt (\<lambda>a b. compare a b < 0) ks"
  by (auto simp: sl_keys_def skip_rep_def keys_of_def sorted_wrt_map)

text \<open>What \<^verbatim>\<open>Get\<close> does with the entry it has found.\<close>

definition decode_entry :: "Comparator \<Rightarrow> slice \<Rightarrow> LookupKey \<Rightarrow> mt_result" where
  "decode_entry C entry key =
     (let (key_length, q) = the (GetVarint32Ptr (take 5 entry));
          key_ptr = drop (length (take 5 entry) - length q) entry
      in if Compare C (take (unat (key_length - 8)) key_ptr) (lk_user_key key) = 0
         then let tag = DecodeFixed64 (drop (unat key_length - 8) key_ptr) in
           if tag AND 0xff = type_code kTypeValue
           then MtValue (fst (the (mt_GetLengthPrefixedSlice (drop (unat key_length) key_ptr))))
           else if tag AND 0xff = type_code kTypeDeletion then MtStatus (NotFound [] []) else MtAbsent
         else MtAbsent)"

lemma MemTable_Get_eq:
  "MemTable_Get mt key =
     map_option (\<lambda>iter. if Iter_Valid iter then decode_entry (mt_user_comparator mt) (Iter_key (mt_table mt) iter) key
       else MtAbsent) (Iter_Seek (mt_compare mt) (mt_table mt) (memtable_key key))"
  by (auto simp: MemTable_Get_def decode_entry_def Let_def split_beta split: option.splits)

lemma decode_entry_bytes:
  assumes "entry_small e"
  shows "decode_entry C (entry_bytes e) (new_LookupKey u s) =
    (if Compare C (user_key (fst e)) u = 0 then answer (Some e) else MtAbsent)"
proof -
  obtain k v where e: "e = (k, v)" by (cases e)
  let ?ik = "InternalKey (user_key k) (sequence k) (vtype k)" and ?n = "of_nat (length (user_key k) + 8) :: 32 word"
  have n: "unat ?n = length (user_key k) + 8" using assms e by (simp add: entry_small_def unat_of_nat_32 del: of_nat_add)
  have n8: "unat (?n - 8) = length (user_key k)"
    using assms e unat_of_nat_32[of "length (user_key k)"] by (simp add: entry_small_def)
  have b: "entry_bytes e = EncodeVarint32 ?n @ ?ik @ prefixed v"
    by (simp add: e entry_bytes_def encode_entry_eq prefixed_def)
  have "decode_entry C (entry_bytes e) (new_LookupKey u s) =
      (if Compare C (take (unat (?n - 8)) (?ik @ prefixed v)) u = 0 then
         let tag = DecodeFixed64 (drop (unat ?n - 8) (?ik @ prefixed v)) in
         if tag AND 0xff = type_code kTypeValue
         then MtValue (fst (the (mt_GetLengthPrefixedSlice (drop (unat ?n) (?ik @ prefixed v)))))
         else if tag AND 0xff = type_code kTypeDeletion then MtStatus (NotFound [] []) else MtAbsent
       else MtAbsent)"
    unfolding b decode_entry_def GetVarint32Ptr_take5 option.sel prod.case Let_def take5_drop lk_user_key_eq ..
  also have "\<dots> = (if Compare C (user_key k) u = 0 then answer (Some e) else MtAbsent)"
    using assms mt_prefixed[of v "[]"] unfolding n n8
    by (cases "vtype k") (auto simp: InternalKey_eq pack_low e entry_small_def)
  finally show ?thesis by (simp add: e)
qed

context user_comparator
begin

abbreviation mkey_ok :: "slice \<Rightarrow> bool" where
  "mkey_ok e \<equiv> 8 \<le> length (ikey_of e) \<and> key_ok (ExtractUserKey (ikey_of e))"

lemma mt_order: "compare_order (KeyComparator (InternalKeyComparator C)) mkey_ok"
  using compare_order_image[OF internal.compare_order_axioms, of ikey_of]
  by (simp add: KeyComparator_eq[abs_def])

lemma mt_less:
  "KeyComparator (InternalKeyComparator C) a b < 0 \<longleftrightarrow>
     Compare C (ExtractUserKey (ikey_of a)) (ExtractUserKey (ikey_of b)) < 0 \<or>
     Compare C (ExtractUserKey (ikey_of a)) (ExtractUserKey (ikey_of b)) = 0 \<and> key_num (ikey_of b) < key_num (ikey_of a)"
  by (simp add: KeyComparator_eq ikc_less)

lemma mt_equal:
  "KeyComparator (InternalKeyComparator C) a b = 0 \<longleftrightarrow>
     Compare C (ExtractUserKey (ikey_of a)) (ExtractUserKey (ikey_of b)) = 0 \<and> key_num (ikey_of b) = key_num (ikey_of a)"
  by (auto simp: KeyComparator_eq ikc_Compare_def Let_def key_num_def)

lemma mt_rep_keys:
  assumes "mt_rep key_ok mt es" "e \<in> set es"
  shows "mkey_ok (entry_bytes e)"
  using assms by (auto simp: mt_rep_def ikey_of_entry)

lemma mt_rep_new: "mt_rep key_ok (new_MemTable C) []"
  using sl_keys_new by (auto simp: mt_rep_def new_MemTable_def)

lemma mt_rep_Add:
  assumes "mt_rep key_ok mt es" "mt_user_comparator mt = C" "entry_small (k, v)" "key_ok (user_key k)"
    and "sequence k \<notin> (\<lambda>e. sequence (fst e)) ` set es"
  shows "\<exists>mt'. MemTable_Add (sequence k) (vtype k) (user_key k) v mt = Some mt' \<and>
    mt_rep key_ok mt' (es @ [(k, v)]) \<and> mt_user_comparator mt' = C"
proof -
  let ?c = "KeyComparator (InternalKeyComparator C)" and ?e = "entry_bytes (k, v)"
  obtain es' where es': "set es' = set es" "sl_keys ?c (mt_table mt) (map entry_bytes es')"
    using assms(1,2) by (auto simp: mt_rep_def mt_compare_def)
  have small: "entry_small e" if "e \<in> set es" for e using that assms(1) by (auto simp: mt_rep_def)
  have "?c (entry_bytes e) ?e \<noteq> 0" if "e \<in> set es" for e
  proof -
    have "PackSequenceAndType (sequence k) (vtype k) \<noteq> PackSequenceAndType (sequence (fst e)) (vtype (fst e))"
      using that assms(3,5) small[OF that] pack_drop unfolding entry_small_def by (metis fst_conv image_eqI)
    then show ?thesis using small[OF that] assms(3) by (auto simp: mt_equal ikey_of_entry)
  qed
  moreover have ok: "mkey_ok ?e" using assms(3,4) by (simp add: ikey_of_entry)
  ultimately have "\<forall>x \<in> set (map entry_bytes es'). mkey_ok x \<and> ?c x ?e \<noteq> 0"
    using mt_rep_keys[OF assms(1)] es'(1) by simp
  from compare_order.sl_keys_insert[OF mt_order es'(2) this] ok
  obtain t where t: "SkipList_Insert ?c (mt_table mt) ?e = Some t"
    "sl_keys ?c t (below ?c ?e id (map entry_bytes es') @ ?e # upwards ?c ?e id (map entry_bytes es'))" by blast
  let ?es = "below ?c ?e entry_bytes es' @ (k, v) # upwards ?c ?e entry_bytes es'"
  have "sl_keys ?c t (map entry_bytes ?es)" using t(2) by (simp add: map_below map_upwards)
  moreover have "set ?es = set (es @ [(k, v)])" using es'(1) by (auto simp: set_below set_upwards)
  ultimately have "\<exists>es''. set es'' = set (es @ [(k, v)]) \<and> sl_keys ?c t (map entry_bytes es'')" by blast
  moreover have "MemTable_Add (sequence k) (vtype k) (user_key k) v mt = Some (mt\<lparr>mt_table := t\<rparr>)"
    using t(1) assms(2) by (simp add: MemTable_Add_def mt_compare_def entry_bytes_def)
  ultimately show ?thesis using assms by (simp add: mt_rep_def mt_compare_def)
qed

lemma visible_upwards:
  assumes "entry_small e" "s \<le> kMaxSequenceNumber" "length u + 8 < 2 ^ 32"
  shows "visible C u s e \<longleftrightarrow> Compare C (user_key (fst e)) u = 0 \<and>
    \<not> KeyComparator (InternalKeyComparator C) (entry_bytes e) (memtable_key (new_LookupKey u s)) < 0"
  using assms pack_le_seek[of s "sequence (fst e)" "vtype (fst e)"]
  by (auto simp: visible_def mt_less ikey_of_entry memtable_key_eq entry_small_def linorder_not_less)

lemma newest_visible:
  assumes rep: "mt_rep key_ok mt es" and u: "key_ok u" "length u + 8 < 2 ^ 32" and s: "s \<le> kMaxSequenceNumber"
    and es': "set es' = set es" and srt: "sorted_wrt (\<lambda>a b. KeyComparator (InternalKeyComparator C) (entry_bytes a) (entry_bytes b) < 0) es'"
  defines "U \<equiv> upwards (KeyComparator (InternalKeyComparator C)) (memtable_key (new_LookupKey u s)) entry_bytes es'"
  shows "newest (filter (visible C u s) es) =
    (case U of [] \<Rightarrow> None | e # _ \<Rightarrow> if Compare C (user_key (fst e)) u = 0 then Some e else None)"
proof -
  let ?c = "KeyComparator (InternalKeyComparator C)" and ?T = "memtable_key (new_LookupKey u s)"
  have es: "entry_small e" "key_ok (user_key (fst e))" if "e \<in> set es" for e
    using that rep by (auto simp: mt_rep_def)
  have vis: "visible C u s e \<longleftrightarrow> e \<in> set U \<and> Compare C (user_key (fst e)) u = 0" if "e \<in> set es" for e
    using visible_upwards[OF es(1)[OF that] s u(2)] that es' by (auto simp: U_def set_upwards)
  show ?thesis
  proof (cases U)
    case Nil
    then have "filter (visible C u s) es = []" using vis by (auto simp: filter_empty_conv)
    then show ?thesis using Nil by simp
  next
    case (Cons e U')
    have "sorted_wrt (\<lambda>a b. ?c (entry_bytes a) (entry_bytes b) < 0) U"
      using srt unfolding U_def upwards_def by (rule sorted_wrt_filter)
    then have after: "?c (entry_bytes e) (entry_bytes e') < 0" if "e' \<in> set U'" for e' using that Cons by simp
    have U_es: "set U \<subseteq> set es" using es' by (auto simp: U_def set_upwards)
    moreover have "e \<in> set U" by (simp add: Cons)
    ultimately have e: "e \<in> set es" "\<not> ?c (entry_bytes e) ?T < 0" using \<open>e \<in> set U\<close> by (auto simp: U_def set_upwards)
    have after': "Compare C (user_key (fst e)) (user_key (fst e')) < 0 \<or> Compare C (user_key (fst e)) (user_key (fst e')) = 0 \<and>
        PackSequenceAndType (sequence (fst e')) (vtype (fst e')) < PackSequenceAndType (sequence (fst e)) (vtype (fst e))"
      if "e' \<in> set U'" for e'
    proof -
      have "e' \<in> set es" using that U_es Cons by auto
      then have "entry_small e'" by (rule es(1))
      then show ?thesis using after[OF that] es(1)[OF e(1)] by (simp add: mt_less ikey_of_entry)
    qed
    show ?thesis
    proof (cases "Compare C (user_key (fst e)) u = 0")
      case True
      have "e' = e \<or> sequence (fst e') < sequence (fst e)" if e': "e' \<in> set (filter (visible C u s) es)" for e'
      proof (rule disjCI)
        assume "\<not> sequence (fst e') < sequence (fst e)"
        moreover have v: "e' \<in> set es" "e' \<in> set U" "Compare C (user_key (fst e')) u = 0"
          using e' vis[of e'] by simp_all
        then have "Compare C (user_key (fst e)) (user_key (fst e')) = 0"
          using eq_trans[of "user_key (fst e)" u "user_key (fst e')"] eq_swap[of "user_key (fst e')" u] True es e u by blast
        moreover have "e' \<in> set U' \<or> e' = e" using v(2) Cons by auto
        moreover have "sequence (fst e') = sequence (fst e) \<Longrightarrow> e' = e"
          using rep e(1) v(1) by (auto simp: mt_rep_def distinct_map inj_on_def)
        ultimately show "e' = e" using after'[of e'] pack_less es(1)[OF v(1)] es(1)[OF e(1)]
          unfolding entry_small_def by fastforce
      qed
      then have "newest (filter (visible C u s) es) = Some e"
        using True vis e(1) Cons by (intro newest_unique) auto
      then show ?thesis using True Cons by simp
    next
      case False
      have "\<not> visible C u s e'" if e': "e' \<in> set es" for e'
      proof
        assume "visible C u s e'"
        then have v: "e' \<in> set U" "Compare C (user_key (fst e')) u = 0" using vis[of e'] e' by simp_all
        with False have "e' \<in> set U'" using Cons by auto
        then have "Compare C (user_key (fst e)) (user_key (fst e')) \<le> 0" using after'[of e'] by auto
        then have "Compare C (user_key (fst e)) u \<le> 0"
          using trans[of "user_key (fst e)" "user_key (fst e')" u] v es e e' u by simp
        with False have "?c (entry_bytes e) ?T < 0"
          using es(1)[OF e(1)] u(2) by (simp add: mt_less ikey_of_entry memtable_key_eq)
        with e(2) show False ..
      qed
      then have "filter (visible C u s) es = []" by (auto simp: filter_empty_conv)
      then show ?thesis using False Cons by simp
    qed
  qed
qed

lemma MemTable_Get_lookup:
  assumes rep: "mt_rep key_ok mt es" and C: "mt_user_comparator mt = C"
    and u: "key_ok u" "length u + 8 < 2 ^ 32" and s: "s \<le> kMaxSequenceNumber"
  shows "MemTable_Get mt (new_LookupKey u s) = Some (lookup C es u s)"
proof -
  let ?c = "KeyComparator (InternalKeyComparator C)" and ?T = "memtable_key (new_LookupKey u s)"
  obtain es' where es': "set es' = set es" and sl: "sl_keys ?c (mt_table mt) (map entry_bytes es')"
    using rep C by (auto simp: mt_rep_def mt_compare_def)
  have srt: "sorted_wrt (\<lambda>a b. ?c (entry_bytes a) (entry_bytes b) < 0) es'"
    using sl_keys_sorted[OF sl] by (simp add: sorted_wrt_map)
  have ok: "\<forall>k \<in> set (map entry_bytes es'). mkey_ok k" using mt_rep_keys[OF rep] es' by simp
  have T: "mkey_ok ?T" using u by (simp add: memtable_key_eq)
  let ?B = "below ?c ?T entry_bytes es'" and ?U = "upwards ?c ?T entry_bytes es'"
  have cut: "es' = ?B @ ?U" using compare_order.sorted_cut[OF mt_order srt _ T] ok by simp
  have lB: "length (below ?c ?T id (map entry_bytes es')) = length ?B" by (simp flip: map_below)
  obtain pos where pos: "\<forall>j. Iter_Valid (pos j) \<longleftrightarrow> j < length es'"
      "\<forall>j < length es'. Iter_key (mt_table mt) (pos j) = entry_bytes (es' ! j)"
      "Iter_Seek ?c (mt_table mt) ?T = Some (pos (length ?B))"
    using compare_order.iterator_positions[OF mt_order sl ok] T lB by auto
  have get: "MemTable_Get mt (new_LookupKey u s) = Some (case ?U of [] \<Rightarrow> MtAbsent
      | e # _ \<Rightarrow> decode_entry C (entry_bytes e) (new_LookupKey u s))"
  proof (cases ?U)
    case Nil
    then have "length es' = length ?B" using cut by (metis append_Nil2)
    then show ?thesis using pos C Nil by (simp add: MemTable_Get_eq mt_compare_def)
  next
    case (Cons e U')
    then have "length ?B < length es'" "es' ! length ?B = e"
      using cut by (metis length_append less_add_same_cancel1 length_greater_0_conv list.discI, metis nth_append_length)
    then show ?thesis using pos C Cons by (simp add: MemTable_Get_eq mt_compare_def)
  qed
  have "set ?U \<subseteq> set es" using es' by (auto simp: set_upwards)
  then have "entry_small e" if "?U = e # U'" for e U' using that rep by (auto simp: mt_rep_def)
  then show ?thesis unfolding get lookup_def newest_visible[OF rep u s es' srt]
    by (cases ?U) (simp_all add: decode_entry_bytes)
qed

end

section \<open>Batches\<close>

fun op_key :: "batch_op \<Rightarrow> slice" where
  "op_key (OpPut k v) = k"
| "op_key (OpDelete k) = k"

fun op_entry :: "SequenceNumber \<Rightarrow> batch_op \<Rightarrow> entry" where
  "op_entry seq (OpPut k v) = (\<lparr>user_key = k, sequence = seq, vtype = kTypeValue\<rparr>, v)"
| "op_entry seq (OpDelete k) = (\<lparr>user_key = k, sequence = seq, vtype = kTypeDeletion\<rparr>, [])"

fun batch_entries :: "SequenceNumber \<Rightarrow> batch_op list \<Rightarrow> entry list" where
  "batch_entries seq [] = []"
| "batch_entries seq (op # ops) = op_entry seq op # batch_entries (seq + 1) ops"

lemma op_entry_simps [simp]:
  "user_key (fst (op_entry seq op)) = op_key op" "sequence (fst (op_entry seq op)) = seq"
  by (cases op; simp)+

text \<open>A batch has its sequence numbers for itself: they are above those of the memtable and
  do not pass the largest one.\<close>

definition seq_room :: "entry list \<Rightarrow> SequenceNumber \<Rightarrow> nat \<Rightarrow> bool" where
  "seq_room es seq n \<longleftrightarrow> unat seq + n \<le> unat kMaxSequenceNumber + 1 \<and>
     (\<forall>e \<in> set es. unat (sequence (fst e)) < unat seq)"

definition batch_ok :: "(slice \<Rightarrow> bool) \<Rightarrow> batch_op list \<Rightarrow> bool" where
  "batch_ok user_ok ops \<longleftrightarrow>
     (\<forall>op \<in> set ops. op_small op \<and> user_ok (op_key op) \<and> length (op_key op) + 8 < 2 ^ 32)"

lemma unat_kMax: "unat kMaxSequenceNumber = 2 ^ 56 - 1"
  by (simp add: kMaxSequenceNumber_def)

lemma seq_room_Suc:
  assumes "seq_room es seq (Suc n)"
  shows "unat (seq + 1) = unat seq + 1" "seq \<le> kMaxSequenceNumber" "seq_room (es @ [op_entry seq op]) (seq + 1) n"
proof -
  show u: "unat (seq + 1) = unat seq + 1"
    using assms unat_plus_64[of seq 1] by (simp add: seq_room_def unat_kMax)
  show "seq \<le> kMaxSequenceNumber" using assms by (simp add: seq_room_def word_le_nat_alt)
  show "seq_room (es @ [op_entry seq op]) (seq + 1) n" using assms u by (auto simp: seq_room_def)
qed

context user_comparator
begin

lemma handle_ops_rep:
  assumes "mt_rep key_ok mt es" "mt_user_comparator mt = C" "batch_ok key_ok ops" "seq_room es seq (length ops)"
  shows "\<exists>mt'. fold (handle_op MemTableInserter) ops (seq, Some mt) = (seq + of_nat (length ops), Some mt') \<and>
    mt_rep key_ok mt' (es @ batch_entries seq ops) \<and> mt_user_comparator mt' = C"
  using assms
proof (induction ops arbitrary: seq mt es)
  case (Cons op ops)
  obtain k v where kv: "op_entry seq op = (k, v)" by (cases "op_entry seq op")
  have room: "seq_room es seq (Suc (length ops))" using Cons.prems(4) by simp
  have k: "user_key k = op_key op" "sequence k = seq" using op_entry_simps[of seq op] kv by auto
  have "length v < 2 ^ 32" using Cons.prems(3) kv by (cases op) (auto simp: batch_ok_def)
  then have "entry_small (k, v)" "key_ok (user_key k)"
    using Cons.prems(3) seq_room_Suc(2)[OF room] by (auto simp: entry_small_def k batch_ok_def)
  moreover have "sequence k \<notin> (\<lambda>e. sequence (fst e)) ` set es"
    using room by (auto simp: seq_room_def k)
  ultimately obtain mt1 where mt1: "MemTable_Add (sequence k) (vtype k) (user_key k) v mt = Some mt1"
      "mt_rep key_ok mt1 (es @ [op_entry seq op])" "mt_user_comparator mt1 = C"
    using mt_rep_Add[OF Cons.prems(1,2)] unfolding kv by blast
  have step: "handle_op MemTableInserter op (seq, Some mt) = (seq + 1, Some mt1)"
    using mt1(1) kv by (cases op) (auto simp: MemTableInserter_def)
  have "batch_ok key_ok ops" using Cons.prems(3) by (simp add: batch_ok_def)
  from Cons.IH[OF mt1(2,3) this seq_room_Suc(3)[OF room]] show ?case
    by (auto simp: step add.assoc)
qed simp

lemma InsertInto_rep:
  assumes "mt_rep key_ok mt es" "mt_user_comparator mt = C" "batch_ok key_ok ops" "seq_room es seq (length ops)"
    and "batch_rep b seq ops"
  shows "\<exists>mt'. InsertInto b mt = (Status_OK, Some mt') \<and> mt_rep key_ok mt' (es @ batch_entries seq ops) \<and>
    mt_user_comparator mt' = C"
proof -
  have "\<forall>op \<in> set ops. op_small op" using assms(3) by (simp add: batch_ok_def)
  then show ?thesis
    using handle_ops_rep[OF assms(1-4)] batch_rep_Iterate[OF assms(5), of MemTableInserter "(seq, Some mt)"]
    by (auto simp: InsertInto_def batch_rep_Sequence[OF assms(5)])
qed

end

lemma newest_append_later:
  assumes "newest ys = Some y" "\<forall>x \<in> set xs. sequence (fst x) < sequence (fst y)"
  shows "newest (xs @ ys) = Some y"
  using assms by (induction xs) auto

text \<open>The last operation of a batch on a key.\<close>

definition last_op :: "slice \<Rightarrow> batch_op list \<Rightarrow> batch_op option" where
  "last_op u ops = find (\<lambda>op. op_key op = u) (rev ops)"

fun op_result :: "batch_op \<Rightarrow> mt_result" where
  "op_result (OpPut k v) = MtValue v"
| "op_result (OpDelete k) = MtStatus (NotFound [] [])"

lemma batch_entries_append:
  "batch_entries seq (ops @ [op]) = batch_entries seq ops @ [op_entry (seq + of_nat (length ops)) op]"
  by (induction ops arbitrary: seq) (simp_all add: add.assoc)

lemma batch_entries_seq:
  "e \<in> set (batch_entries seq ops) \<Longrightarrow> unat seq + length ops \<le> 2 ^ 64 - 1 \<Longrightarrow> unat (sequence (fst e)) < unat seq + length ops"
proof (induction ops arbitrary: seq)
  case (Cons op ops)
  have "unat (seq + 1) = unat seq + 1" using Cons.prems unat_plus_64[of seq 1] by simp
  then show ?case using Cons by fastforce
qed simp

lemma lookup_batch:
  assumes "seq_room es seq (length ops)" "unat seq + length ops \<le> unat s + 1"
  shows "lookup BytewiseComparator (es @ batch_entries seq ops) u s =
    (case last_op u ops of Some op \<Rightarrow> op_result op | None \<Rightarrow> lookup BytewiseComparator es u s)"
  using assms
proof (induction ops rule: rev_induct)
  case (snoc op ops)
  let ?e = "op_entry (seq + of_nat (length ops)) op" and ?xs = "es @ batch_entries seq ops"
  have b: "unat seq + Suc (length ops) \<le> 2 ^ 56" using snoc.prems(1) by (simp add: seq_room_def unat_kMax)
  then have n: "unat (seq + of_nat (length ops)) = unat seq + length ops" by (intro unat_plus_64) simp
  have room: "seq_room es seq (length ops)" using snoc.prems(1) by (simp add: seq_room_def)
  show ?case
  proof (cases "op_key op = u")
    case True
    have "visible BytewiseComparator u s ?e"
      using True snoc.prems(2) n by (simp add: visible_def compare_slice_order word_le_nat_alt)
    moreover have "sequence (fst x) < sequence (fst ?e)" if "x \<in> set ?xs" for x
      using that room b batch_entries_seq[of x seq ops] by (auto simp: word_less_nat_alt n seq_room_def)
    ultimately have "newest (filter (visible BytewiseComparator u s) (?xs @ [?e])) = Some ?e"
      using newest_append_later[of "[?e]" ?e "filter (visible BytewiseComparator u s) ?xs"] by fastforce
    then have "lookup BytewiseComparator (?xs @ [?e]) u s = op_result op"
      unfolding lookup_def by (cases op) simp_all
    then show ?thesis using True by (simp add: batch_entries_append last_op_def)
  next
    case False
    then have "\<not> visible BytewiseComparator u s ?e" by (simp add: visible_def compare_slice_order)
    then have "lookup BytewiseComparator (?xs @ [?e]) u s = lookup BytewiseComparator ?xs u s"
      by (simp add: lookup_def)
    then show ?thesis using False snoc room by (simp add: batch_entries_append last_op_def)
  qed
qed (simp add: last_op_def)

section \<open>Properties\<close>

text \<open>C22. The memtable, with its skip list of encoded entries, refines the list of the entries
  added: adding an entry with a new sequence number returns and extends the list, an entry takes the
  number of bytes computed for it, and looking up a user key at a sequence number returns the
  newest visible entry: its value, ``not found'' for a deletion, or nothing.\<close>

theorem memtable_refines:
  assumes "user_comparator C user_ok" "mt_rep user_ok mt es" "mt_user_comparator mt = C"
    and "entry_small (k, v)" "user_ok (user_key k)" "sequence k \<notin> (\<lambda>e. sequence (fst e)) ` set es"
    and "user_ok u" "length u + 8 < 2 ^ 32" "s \<le> kMaxSequenceNumber"
  shows "MemTable_Get mt (new_LookupKey u s) = Some (lookup C es u s) \<and>
    (\<exists>mt'. MemTable_Add (sequence k) (vtype k) (user_key k) v mt = Some mt' \<and> mt_rep user_ok mt' (es @ [(k, v)]) \<and>
      mt_user_comparator mt' = C) \<and>
    length (encode_entry (sequence k) (vtype k) (user_key k) v) = encoded_len (user_key k) v"
  using user_comparator.MemTable_Get_lookup[OF assms(1-3,7-9)] user_comparator.mt_rep_Add[OF assms(1-6)]
    encode_entry_length assms(4) by (simp add: entry_small_def)

theorem memtable_refines_witness:
  "MemTable_Get (new_MemTable BytewiseComparator) (new_LookupKey [1] 5) = Some MtAbsent \<and>
   (\<exists>mt'. MemTable_Add 3 kTypeValue [1] [9] (new_MemTable BytewiseComparator) = Some mt')"
  using memtable_refines[OF bytewise_user.user_comparator_axioms bytewise_user.mt_rep_new,
      of "\<lparr>user_key = [1], sequence = 3, vtype = kTypeValue\<rparr>" "[9]" "[1]" 5]
  by (auto simp: lookup_def entry_small_def kMaxSequenceNumber_def word_le_nat_alt new_MemTable_def)

text \<open>C21. Reads see writes: after a batch has been inserted into a memtable, a lookup at a snapshot
  that includes the batch gives, for a key of the batch, the effect of the last operation on it,
  and for any other key what the memtable held before.\<close>

theorem batch_read_your_writes:
  assumes "mt_rep (\<lambda>_. True) mt es" "mt_user_comparator mt = BytewiseComparator" "batch_ok (\<lambda>_. True) ops"
    and "seq_room es seq (length ops)" "s \<le> kMaxSequenceNumber" "unat seq + length ops \<le> unat s + 1"
    and "length u + 8 < 2 ^ 32"
  shows "\<exists>mt'. InsertInto (SetSequence (fold apply_op ops WriteBatch_Clear) seq) mt = (Status_OK, Some mt') \<and>
    MemTable_Get mt' (new_LookupKey u s) =
      (case last_op u ops of Some op \<Rightarrow> Some (op_result op) | None \<Rightarrow> MemTable_Get mt (new_LookupKey u s))"
proof -
  have "batch_rep (fold apply_op ops WriteBatch_Clear) 0 ops"
    using batch_rep_fold[OF batch_rep_Clear] by fastforce
  from bytewise_user.InsertInto_rep[OF assms(1-4) batch_rep_SetSequence[OF this]]
  obtain mt' where mt': "InsertInto (SetSequence (fold apply_op ops WriteBatch_Clear) seq) mt = (Status_OK, Some mt')"
    "mt_rep (\<lambda>_. True) mt' (es @ batch_entries seq ops)" "mt_user_comparator mt' = BytewiseComparator" by blast
  moreover have "MemTable_Get mt' (new_LookupKey u s) = Some (lookup BytewiseComparator (es @ batch_entries seq ops) u s)"
    "MemTable_Get mt (new_LookupKey u s) = Some (lookup BytewiseComparator es u s)"
    using bytewise_user.MemTable_Get_lookup mt'(2,3) assms by simp_all
  ultimately show ?thesis using lookup_batch[OF assms(4,6), of u] by (auto split: option.splits)
qed

theorem batch_read_your_writes_witness:
  "\<exists>mt'. InsertInto (SetSequence (fold apply_op [OpPut [1] [2], OpPut [7] [], OpDelete [1]] WriteBatch_Clear) 10)
      (new_MemTable BytewiseComparator) = (Status_OK, Some mt') \<and>
    MemTable_Get mt' (new_LookupKey [1] 12) = Some (MtStatus (NotFound [] []))"
  using batch_read_your_writes[OF bytewise_user.mt_rep_new, of "[OpPut [1] [2], OpPut [7] [], OpDelete [1]]" 10 12 "[1]"]
  by (simp add: new_MemTable_def batch_ok_def seq_room_def kMaxSequenceNumber_def word_le_nat_alt last_op_def)

end
