(* ===== verification/Ldb_Version_Edit.thy ===== *)
theory Ldb_Version_Edit
  imports Ldb_Format Ldb_Status "HOL-Library.Product_Lexorder"
begin

text \<open>
  Version edits, the records of the manifest: \<^verbatim>\<open>db/version_edit.h\<close> and \<^verbatim>\<open>db/version_edit.cc\<close>.

  The edit is a record with the members of the class. The set of deleted files is ordered; it
  is the sorted list of its elements. A level, of type \<^verbatim>\<open>int\<close>, is an integer, converted to 32 bits
  where it is written.

  The lemmas show that decoding inverts encoding. To this end an encoded edit is seen as a sequence of
  fields, each with its tag.
\<close>

section \<open>Data\<close>

definition kNumLevels :: nat where "kNumLevels = 7"

record FileMetaData =
  refs :: int
  allowed_seeks :: int
  fnumber :: "64 word"
  file_size :: "64 word"
  smallest :: slice
  largest :: slice

definition new_FileMetaData :: FileMetaData where
  "new_FileMetaData = \<lparr>refs = 0, allowed_seeks = 2 ^ 30, fnumber = 0, file_size = 0, smallest = [], largest = []\<rparr>"

record VersionEdit =
  comparator_name :: slice
  log_number :: "64 word"
  prev_log_number :: "64 word"
  next_file_number :: "64 word"
  last_sequence :: SequenceNumber
  has_comparator :: bool
  has_log_number :: bool
  has_prev_log_number :: bool
  has_next_file_number :: bool
  has_last_sequence :: bool
  compact_pointers :: "(int \<times> slice) list"
  deleted_files :: "(int \<times> 64 word) list"
  new_files :: "(int \<times> FileMetaData) list"

definition VersionEdit_Clear :: "VersionEdit \<Rightarrow> VersionEdit" where
  "VersionEdit_Clear v = v\<lparr>comparator_name := [], log_number := 0, prev_log_number := 0,
     last_sequence := 0, next_file_number := 0, has_comparator := False, has_log_number := False,
     has_prev_log_number := False, has_next_file_number := False, has_last_sequence := False,
     deleted_files := [], new_files := []\<rparr>"

definition new_VersionEdit :: VersionEdit where
  "new_VersionEdit = VersionEdit_Clear \<lparr>comparator_name = [], log_number = 0, prev_log_number = 0,
     next_file_number = 0, last_sequence = 0, has_comparator = False, has_log_number = False,
     has_prev_log_number = False, has_next_file_number = False, has_last_sequence = False,
     compact_pointers = [], deleted_files = [], new_files = []\<rparr>"

definition SetComparatorName :: "slice \<Rightarrow> VersionEdit \<Rightarrow> VersionEdit" where
  "SetComparatorName name v = v\<lparr>has_comparator := True, comparator_name := name\<rparr>"
definition SetLogNumber :: "64 word \<Rightarrow> VersionEdit \<Rightarrow> VersionEdit" where
  "SetLogNumber num v = v\<lparr>has_log_number := True, log_number := num\<rparr>"
definition SetPrevLogNumber :: "64 word \<Rightarrow> VersionEdit \<Rightarrow> VersionEdit" where
  "SetPrevLogNumber num v = v\<lparr>has_prev_log_number := True, prev_log_number := num\<rparr>"
definition SetNextFile :: "64 word \<Rightarrow> VersionEdit \<Rightarrow> VersionEdit" where
  "SetNextFile num v = v\<lparr>has_next_file_number := True, next_file_number := num\<rparr>"
definition SetLastSequence :: "SequenceNumber \<Rightarrow> VersionEdit \<Rightarrow> VersionEdit" where
  "SetLastSequence seq v = v\<lparr>has_last_sequence := True, last_sequence := seq\<rparr>"
definition SetCompactPointer :: "int \<Rightarrow> slice \<Rightarrow> VersionEdit \<Rightarrow> VersionEdit" where
  "SetCompactPointer level key v = v\<lparr>compact_pointers := compact_pointers v @ [(level, key)]\<rparr>"
definition AddFile :: "int \<Rightarrow> 64 word \<Rightarrow> 64 word \<Rightarrow> slice \<Rightarrow> slice \<Rightarrow> VersionEdit \<Rightarrow> VersionEdit" where
  "AddFile level file fsize small large v =
     v\<lparr>new_files := new_files v @
       [(level, new_FileMetaData\<lparr>fnumber := file, file_size := fsize, smallest := small, largest := large\<rparr>)]\<rparr>"
definition DeleteFile :: "int \<Rightarrow> 64 word \<Rightarrow> VersionEdit \<Rightarrow> VersionEdit" where
  "DeleteFile level file v = v\<lparr>deleted_files := insort_insert (level, file) (deleted_files v)\<rparr>"

section \<open>Encoding\<close>

definition kComparator :: "32 word" where "kComparator = 1"
definition kLogNumber :: "32 word" where "kLogNumber = 2"
definition kNextFileNumber :: "32 word" where "kNextFileNumber = 3"
definition kLastSequence :: "32 word" where "kLastSequence = 4"
definition kCompactPointer :: "32 word" where "kCompactPointer = 5"
definition kDeletedFile :: "32 word" where "kDeletedFile = 6"
definition kNewFile :: "32 word" where "kNewFile = 7"
definition kPrevLogNumber :: "32 word" where "kPrevLogNumber = 9"

lemmas tag_defs = kComparator_def kLogNumber_def kNextFileNumber_def kLastSequence_def
  kCompactPointer_def kDeletedFile_def kNewFile_def kPrevLogNumber_def

definition VersionEdit_EncodeTo :: "VersionEdit \<Rightarrow> slice \<Rightarrow> slice" where
  "VersionEdit_EncodeTo v dst =
     (let dst = (if has_comparator v then PutLengthPrefixedSlice (PutVarint32 dst kComparator) (comparator_name v) else dst);
          dst = (if has_log_number v then PutVarint64 (PutVarint32 dst kLogNumber) (log_number v) else dst);
          dst = (if has_prev_log_number v then PutVarint64 (PutVarint32 dst kPrevLogNumber) (prev_log_number v) else dst);
          dst = (if has_next_file_number v then PutVarint64 (PutVarint32 dst kNextFileNumber) (next_file_number v) else dst);
          dst = (if has_last_sequence v then PutVarint64 (PutVarint32 dst kLastSequence) (last_sequence v) else dst);
          dst = fold (\<lambda>(level, key) dst.
                  PutLengthPrefixedSlice (PutVarint32 (PutVarint32 dst kCompactPointer) (word_of_int level)) key)
                (compact_pointers v) dst;
          dst = fold (\<lambda>(level, number) dst.
                  PutVarint64 (PutVarint32 (PutVarint32 dst kDeletedFile) (word_of_int level)) number)
                (deleted_files v) dst
      in fold (\<lambda>(level, f) dst.
           PutLengthPrefixedSlice (PutLengthPrefixedSlice (PutVarint64 (PutVarint64 (PutVarint32
             (PutVarint32 dst kNewFile) (word_of_int level)) (fnumber f)) (file_size f)) (smallest f)) (largest f))
         (new_files v) dst)"

section \<open>Decoding\<close>

definition GetInternalKey :: "slice getter" where
  "GetInternalKey input = GetLengthPrefixedSlice input"

definition GetLevel :: "int getter" where
  "GetLevel input =
     (case GetVarint32 input of
        (None, input) \<Rightarrow> (None, input)
      | (Some v, input) \<Rightarrow> if unat v < kNumLevels then (Some (uint v), input) else (None, input))"

text \<open>One tag of the loop: the edit it leaves, the message of an error, and the rest of the input. The
  condition \<open>a && b\<close> on two getters is \<open>get_then\<close>.\<close>

definition get_then :: "'a getter \<Rightarrow> ('a \<Rightarrow> 'b getter) \<Rightarrow> 'b getter" where
  "get_then g k input = (case g input of (None, input) \<Rightarrow> (None, input) | (Some x, input) \<Rightarrow> k x input)"

definition get_return :: "'a \<Rightarrow> 'a getter" where
  "get_return x input = (Some x, input)"

definition got :: "string \<Rightarrow> VersionEdit \<Rightarrow> VersionEdit getter \<Rightarrow> slice \<Rightarrow> VersionEdit \<times> string option \<times> slice" where
  "got msg v g input =
     (case g input of (None, input) \<Rightarrow> (v, Some msg, input) | (Some v', input) \<Rightarrow> (v', None, input))"

definition decode_field :: "32 word \<Rightarrow> VersionEdit \<Rightarrow> slice \<Rightarrow> VersionEdit \<times> string option \<times> slice" where
  "decode_field tag v input =
     (if tag = kComparator then got ''comparator name'' v
        (get_then GetLengthPrefixedSlice (\<lambda>str. get_return (v\<lparr>comparator_name := str, has_comparator := True\<rparr>))) input
      else if tag = kLogNumber then got ''log number'' v
        (get_then GetVarint64 (\<lambda>n. get_return (v\<lparr>log_number := n, has_log_number := True\<rparr>))) input
      else if tag = kPrevLogNumber then got ''previous log number'' v
        (get_then GetVarint64 (\<lambda>n. get_return (v\<lparr>prev_log_number := n, has_prev_log_number := True\<rparr>))) input
      else if tag = kNextFileNumber then got ''next file number'' v
        (get_then GetVarint64 (\<lambda>n. get_return (v\<lparr>next_file_number := n, has_next_file_number := True\<rparr>))) input
      else if tag = kLastSequence then got ''last sequence number'' v
        (get_then GetVarint64 (\<lambda>n. get_return (v\<lparr>last_sequence := n, has_last_sequence := True\<rparr>))) input
      else if tag = kCompactPointer then got ''compaction pointer'' v
        (get_then GetLevel (\<lambda>level. get_then GetInternalKey (\<lambda>key.
           get_return (v\<lparr>compact_pointers := compact_pointers v @ [(level, key)]\<rparr>)))) input
      else if tag = kDeletedFile then got ''deleted file'' v
        (get_then GetLevel (\<lambda>level. get_then GetVarint64 (\<lambda>number.
           get_return (v\<lparr>deleted_files := insort_insert (level, number) (deleted_files v)\<rparr>)))) input
      else if tag = kNewFile then got ''new-file entry'' v
        (get_then GetLevel (\<lambda>level. get_then GetVarint64 (\<lambda>number. get_then GetVarint64 (\<lambda>fsize.
           get_then GetInternalKey (\<lambda>small. get_then GetInternalKey (\<lambda>large.
             get_return (v\<lparr>new_files := new_files v @ [(level, new_FileMetaData\<lparr>fnumber := number,
               file_size := fsize, smallest := small, largest := large\<rparr>)]\<rparr>))))))) input
      else (v, Some ''unknown tag'', input))"

lemma GetVarint64_length: "GetVarint64 p = (v, q) \<Longrightarrow> length q \<le> length p"
proof (cases v)
  case None
  assume "GetVarint64 p = (v, q)"
  then show ?thesis using None by (auto simp: GetVarint64_def split: option.splits)
next
  case (Some a)
  assume "GetVarint64 p = (v, q)"
  then show ?thesis using Some by (auto dest!: GetVarint64_suffix)
qed

definition shortens :: "'a getter \<Rightarrow> bool" where
  "shortens g \<longleftrightarrow> (\<forall>p. length (snd (g p)) \<le> length p)"

lemma shortensI: "(\<And>p v q. g p = (v, q) \<Longrightarrow> length q \<le> length p) \<Longrightarrow> shortens g"
  by (metis prod.collapse shortens_def)

lemma shortensD: "shortens g \<Longrightarrow> g p = (v, q) \<Longrightarrow> length q \<le> length p"
  by (metis shortens_def snd_conv)

lemma shortens_getters [simp, intro]:
  "shortens GetVarint32" "shortens GetVarint64" "shortens GetLengthPrefixedSlice" "shortens GetInternalKey"
  "shortens (get_return x)"
  by (rule shortensI, erule GetVarint32_length GetVarint64_length GetLengthPrefixedSlice_length
      GetLengthPrefixedSlice_length[folded GetInternalKey_def])+
     (simp add: shortens_def get_return_def)

lemma shortens_GetLevel [simp, intro]: "shortens GetLevel"
proof (rule shortensI)
  fix p v q assume "GetLevel p = (v, q)"
  then have "\<exists>w. GetVarint32 p = (w, q)" by (auto simp: GetLevel_def split: prod.splits option.splits if_splits)
  then show "length q \<le> length p" using GetVarint32_length by blast
qed

lemma shortens_then [intro]:
  assumes "shortens g" "\<And>x. shortens (k x)"
  shows "shortens (get_then g k)"
proof (rule shortensI)
  fix p v q assume *: "get_then g k p = (v, q)"
  obtain w r where gr: "g p = (w, r)" by (cases "g p")
  then have "length r \<le> length p" by (rule shortensD[OF assms(1)])
  moreover have "length q \<le> length r"
    using * gr shortensD[OF assms(2)] by (cases w) (auto simp: get_then_def)
  ultimately show "length q \<le> length p" by simp
qed

lemma got_length:
  assumes "shortens g"
  shows "length (snd (snd (got msg v g p))) \<le> length p"
proof -
  obtain w r where "g p = (w, r)" by (cases "g p")
  with shortensD[OF assms this] show ?thesis by (cases w) (simp_all add: got_def)
qed

lemma decode_field_length: "length (snd (snd (decode_field tag v p))) \<le> length p"
  unfolding decode_field_def by (simp, intro conjI impI got_length shortens_then; simp)

lemma decode_step_less:
  assumes "(Some tag, q) = GetVarint32 p" "(v', m, r) = decode_field tag v q"
  shows "length r < length p"
proof -
  have "length q < length p" using GetVarint32_suffix[OF assms(1)[symmetric]] by auto
  moreover have "length r \<le> length q" using decode_field_length[of tag v q] by (simp flip: assms(2))
  ultimately show ?thesis by simp
qed

function decode_loop :: "VersionEdit \<Rightarrow> slice \<Rightarrow> VersionEdit \<times> string option \<times> slice" where
  "decode_loop v input =
     (case GetVarint32 input of
        (None, input) \<Rightarrow> (v, None, input)
      | (Some tag, input) \<Rightarrow>
          (case decode_field tag v input of
             (v, Some msg, input) \<Rightarrow> (v, Some msg, input)
           | (v, None, input) \<Rightarrow> decode_loop v input))"
  by pat_completeness auto
termination
  by (relation "measure (\<lambda>(v, input). length input)") (auto intro: decode_step_less)

declare decode_loop.simps [simp del]

definition VersionEdit_DecodeFrom :: "VersionEdit \<Rightarrow> slice \<Rightarrow> Status \<times> VersionEdit" where
  "VersionEdit_DecodeFrom v src =
     (let (v, msg, input) = decode_loop (VersionEdit_Clear v) src;
          msg = (if msg = None \<and> input \<noteq> [] then Some ''invalid tag'' else msg)
      in (case msg of None \<Rightarrow> Status_OK | Some m \<Rightarrow> Corruption (text_bytes ''VersionEdit'') (text_bytes m), v))"

section \<open>An edit as a sequence of fields\<close>

datatype field =
    FComparator slice | FLog "64 word" | FPrev "64 word" | FNext "64 word" | FSeq "64 word"
  | FPointer int slice | FDeleted int "64 word" | FNew int "64 word" "64 word" slice slice

fun field_tag :: "field \<Rightarrow> 32 word" where
  "field_tag (FComparator s) = kComparator"
| "field_tag (FLog n) = kLogNumber"
| "field_tag (FPrev n) = kPrevLogNumber"
| "field_tag (FNext n) = kNextFileNumber"
| "field_tag (FSeq n) = kLastSequence"
| "field_tag (FPointer l k) = kCompactPointer"
| "field_tag (FDeleted l n) = kDeletedFile"
| "field_tag (FNew l n z a b) = kNewFile"

fun field_body :: "field \<Rightarrow> slice" where
  "field_body (FComparator s) = prefixed s"
| "field_body (FLog n) = EncodeVarint64 n"
| "field_body (FPrev n) = EncodeVarint64 n"
| "field_body (FNext n) = EncodeVarint64 n"
| "field_body (FSeq n) = EncodeVarint64 n"
| "field_body (FPointer l k) = EncodeVarint32 (word_of_int l) @ prefixed k"
| "field_body (FDeleted l n) = EncodeVarint32 (word_of_int l) @ EncodeVarint64 n"
| "field_body (FNew l n z a b) =
     EncodeVarint32 (word_of_int l) @ EncodeVarint64 n @ EncodeVarint64 z @ prefixed a @ prefixed b"

definition encode_field :: "field \<Rightarrow> slice" where
  "encode_field f = EncodeVarint32 (field_tag f) @ field_body f"

fun apply_field :: "field \<Rightarrow> VersionEdit \<Rightarrow> VersionEdit" where
  "apply_field (FComparator s) v = v\<lparr>comparator_name := s, has_comparator := True\<rparr>"
| "apply_field (FLog n) v = v\<lparr>log_number := n, has_log_number := True\<rparr>"
| "apply_field (FPrev n) v = v\<lparr>prev_log_number := n, has_prev_log_number := True\<rparr>"
| "apply_field (FNext n) v = v\<lparr>next_file_number := n, has_next_file_number := True\<rparr>"
| "apply_field (FSeq n) v = v\<lparr>last_sequence := n, has_last_sequence := True\<rparr>"
| "apply_field (FPointer l k) v = v\<lparr>compact_pointers := compact_pointers v @ [(l, k)]\<rparr>"
| "apply_field (FDeleted l n) v = v\<lparr>deleted_files := insort_insert (l, n) (deleted_files v)\<rparr>"
| "apply_field (FNew l n z a b) v = v\<lparr>new_files := new_files v @
     [(l, new_FileMetaData\<lparr>fnumber := n, file_size := z, smallest := a, largest := b\<rparr>)]\<rparr>"

definition level_ok :: "int \<Rightarrow> bool" where
  "level_ok l \<longleftrightarrow> 0 \<le> l \<and> l < int kNumLevels"

fun field_ok :: "field \<Rightarrow> bool" where
  "field_ok (FComparator s) \<longleftrightarrow> length s < 2 ^ 32"
| "field_ok (FPointer l k) \<longleftrightarrow> level_ok l \<and> length k < 2 ^ 32"
| "field_ok (FDeleted l n) \<longleftrightarrow> level_ok l"
| "field_ok (FNew l n z a b) \<longleftrightarrow> level_ok l \<and> length a < 2 ^ 32 \<and> length b < 2 ^ 32"
| "field_ok f \<longleftrightarrow> True"

lemma GetLevel_Encode [coding_simps]:
  assumes "level_ok l"
  shows "GetLevel (EncodeVarint32 (word_of_int l) @ rest) = (Some l, rest)"
proof -
  have u: "uint (word_of_int l :: 32 word) = l"
    using assms by (simp add: level_ok_def kNumLevels_def uint_word_of_int_eq take_bit_int_eq_self)
  then have "unat (word_of_int l :: 32 word) < kNumLevels"
    using assms by (metis level_ok_def nat_less_iff uint_nat unat_eq_nat_uint nat_int)
  then show ?thesis by (simp add: GetLevel_def coding_simps u)
qed

lemma decode_field_body:
  "field_ok f \<Longrightarrow> decode_field (field_tag f) v (field_body f @ rest) = (apply_field f v, None, rest)"
  by (cases f) (simp_all add: decode_field_def tag_defs got_def get_then_def get_return_def GetInternalKey_def coding_simps)

lemma decode_loop_field:
  "field_ok f \<Longrightarrow> decode_loop v (encode_field f @ rest) = decode_loop (apply_field f v) rest"
  by (subst decode_loop.simps) (simp add: coding_simps encode_field_def decode_field_body)

lemma decode_loop_fields:
  "\<forall>f \<in> set fs. field_ok f \<Longrightarrow> decode_loop v (concat (map encode_field fs)) = (fold apply_field fs v, None, [])"
proof (induction fs arbitrary: v)
  case Nil
  show ?case by (subst decode_loop.simps) (simp add: GetVarint32_def GetVarint32Ptr_def GetVarint32PtrFallback_def)
next
  case (Cons f fs)
  then show ?case by (simp add: decode_loop_field)
qed

definition fields_of :: "VersionEdit \<Rightarrow> field list" where
  "fields_of v =
     (if has_comparator v then [FComparator (comparator_name v)] else []) @
     (if has_log_number v then [FLog (log_number v)] else []) @
     (if has_prev_log_number v then [FPrev (prev_log_number v)] else []) @
     (if has_next_file_number v then [FNext (next_file_number v)] else []) @
     (if has_last_sequence v then [FSeq (last_sequence v)] else []) @
     map (\<lambda>(l, k). FPointer l k) (compact_pointers v) @ map (\<lambda>(l, n). FDeleted l n) (deleted_files v) @
     map (\<lambda>(l, f). FNew l (fnumber f) (file_size f) (smallest f) (largest f)) (new_files v)"

lemma fold_puts: "(\<And>x d. put x d = d @ enc x) \<Longrightarrow> fold put xs d = d @ concat (map enc xs)"
  by (induction xs arbitrary: d) auto

lemma EncodeTo_fields: "VersionEdit_EncodeTo v dst = dst @ concat (map encode_field (fields_of v))"
proof -
  have p: "fold (\<lambda>(level, key) dst.
        PutLengthPrefixedSlice (PutVarint32 (PutVarint32 dst kCompactPointer) (word_of_int level)) key) ps d =
      d @ concat (map encode_field (map (\<lambda>(l, k). FPointer l k) ps))" for ps d
    by (subst fold_puts[where enc = "encode_field \<circ> (\<lambda>(l, k). FPointer l k)"])
       (auto simp: PutVarint32_def PutLengthPrefixedSlice_eq encode_field_def)
  have d: "fold (\<lambda>(level, number) dst.
        PutVarint64 (PutVarint32 (PutVarint32 dst kDeletedFile) (word_of_int level)) number) ps d =
      d @ concat (map encode_field (map (\<lambda>(l, k). FDeleted l k) ps))" for ps d
    by (subst fold_puts[where enc = "encode_field \<circ> (\<lambda>(l, k). FDeleted l k)"])
       (auto simp: PutVarint32_def PutVarint64_def encode_field_def)
  have n: "fold (\<lambda>(level, f) dst.
        PutLengthPrefixedSlice (PutLengthPrefixedSlice (PutVarint64 (PutVarint64 (PutVarint32
          (PutVarint32 dst kNewFile) (word_of_int level)) (fnumber f)) (file_size f)) (smallest f)) (largest f)) ps d =
      d @ concat (map encode_field (map (\<lambda>(l, f). FNew l (fnumber f) (file_size f) (smallest f) (largest f)) ps))" for ps d
    by (subst fold_puts[where enc = "encode_field \<circ> (\<lambda>(l, f). FNew l (fnumber f) (file_size f) (smallest f) (largest f))"])
       (auto simp: PutVarint32_def PutVarint64_def PutLengthPrefixedSlice_eq encode_field_def)
  show ?thesis unfolding VersionEdit_EncodeTo_def Let_def p d n
    by (simp add: fields_of_def PutVarint32_def PutVarint64_def PutLengthPrefixedSlice_eq encode_field_def)
qed

section \<open>Decoding inverts encoding\<close>

text \<open>An edit as the operations of the class make it.\<close>

definition ve_ok :: "VersionEdit \<Rightarrow> bool" where
  "ve_ok v \<longleftrightarrow> (\<forall>f \<in> set (fields_of v). field_ok f) \<and>
     (\<not> has_comparator v \<longrightarrow> comparator_name v = []) \<and> (\<not> has_log_number v \<longrightarrow> log_number v = 0) \<and>
     (\<not> has_prev_log_number v \<longrightarrow> prev_log_number v = 0) \<and> (\<not> has_next_file_number v \<longrightarrow> next_file_number v = 0) \<and>
     (\<not> has_last_sequence v \<longrightarrow> last_sequence v = 0) \<and>
     sorted (deleted_files v) \<and> distinct (deleted_files v) \<and>
     (\<forall>(l, f) \<in> set (new_files v). refs f = 0 \<and> allowed_seeks f = 2 ^ 30)"

lemma fold_pointers:
  "fold apply_field (map (\<lambda>(l, k). FPointer l k) ps) v = v\<lparr>compact_pointers := compact_pointers v @ ps\<rparr>"
  by (induction ps arbitrary: v) auto

lemma fold_new:
  assumes "\<forall>(l, f) \<in> set ps. refs f = 0 \<and> allowed_seeks f = 2 ^ 30"
  shows "fold apply_field (map (\<lambda>(l, f). FNew l (fnumber f) (file_size f) (smallest f) (largest f)) ps) v =
    v\<lparr>new_files := new_files v @ ps\<rparr>"
  using assms
proof (induction ps arbitrary: v)
  case (Cons p ps)
  obtain l f where p: "p = (l, f)" by (cases p)
  have "new_FileMetaData\<lparr>fnumber := fnumber f, file_size := file_size f, smallest := smallest f, largest := largest f\<rparr> = f"
    using Cons.prems by (cases f) (simp add: p new_FileMetaData_def)
  then show ?case using Cons by (simp add: p)
qed simp

lemma fold_deleted:
  assumes "sorted (deleted_files v @ ds)" "distinct (deleted_files v @ ds)"
  shows "fold apply_field (map (\<lambda>(l, n). FDeleted l n) ds) v = v\<lparr>deleted_files := deleted_files v @ ds\<rparr>"
  using assms
proof (induction ds arbitrary: v)
  case (Cons d ds)
  obtain l n where d: "d = (l, n)" by (cases d)
  have "insort_insert d (deleted_files v) = deleted_files v @ [d]"
    using Cons.prems by (auto simp: insort_insert_key_def sorted_append intro!: sorted_insort_is_snoc)
  then show ?case using Cons by (simp add: d)
qed simp

lemma fold_fields:
  assumes "ve_ok v"
  shows "fold apply_field (fields_of v) (VersionEdit_Clear v0) =
    v\<lparr>compact_pointers := compact_pointers v0 @ compact_pointers v\<rparr>"
  using assms unfolding ve_ok_def
  by (cases v) (auto simp: fields_of_def fold_pointers fold_new fold_deleted VersionEdit_Clear_def split: if_splits)

section \<open>Properties\<close>

text \<open>C31. A manifest record is read back as the edit that was written. The exception is the
  compaction pointers: \<^verbatim>\<open>Clear\<close> leaves them in place, so \<^verbatim>\<open>DecodeFrom\<close> into an edit that has been
  used appends the new pointers to the old ones; into a new edit it gives exactly what was encoded.\<close>

theorem version_edit_roundtrip:
  assumes "ve_ok v"
  shows "VersionEdit_DecodeFrom v0 (VersionEdit_EncodeTo v []) =
      (Status_OK, v\<lparr>compact_pointers := compact_pointers v0 @ compact_pointers v\<rparr>) \<and>
    VersionEdit_DecodeFrom new_VersionEdit (VersionEdit_EncodeTo v []) = (Status_OK, v)"
proof -
  have "\<forall>f \<in> set (fields_of v). field_ok f" using assms by (simp add: ve_ok_def)
  then have *: "VersionEdit_DecodeFrom w (VersionEdit_EncodeTo v []) =
      (Status_OK, v\<lparr>compact_pointers := compact_pointers w @ compact_pointers v\<rparr>)" for w
    by (simp add: VersionEdit_DecodeFrom_def EncodeTo_fields decode_loop_fields fold_fields[OF assms])
  show ?thesis using *[of v0] *[of new_VersionEdit] by (simp add: new_VersionEdit_def VersionEdit_Clear_def)
qed

definition sample_edit :: VersionEdit where
  "sample_edit = DeleteFile 2 17 (AddFile 1 40 4096 [97, 0, 0, 0, 0, 0, 0, 0, 1] [98, 0, 0, 0, 0, 0, 0, 0, 1]
     (SetCompactPointer 3 [99] (SetLogNumber 41 (SetComparatorName [120] new_VersionEdit))))"

theorem version_edit_roundtrip_witness:
  "VersionEdit_DecodeFrom (SetCompactPointer 0 [7] new_VersionEdit) (VersionEdit_EncodeTo sample_edit []) =
    (Status_OK, sample_edit\<lparr>compact_pointers := [(0, [7]), (3, [99])]\<rparr>)"
proof -
  have "ve_ok sample_edit"
    by (simp add: ve_ok_def sample_edit_def fields_of_def new_VersionEdit_def VersionEdit_Clear_def DeleteFile_def
        AddFile_def SetCompactPointer_def SetLogNumber_def SetComparatorName_def level_ok_def kNumLevels_def
        new_FileMetaData_def insort_insert_key_def)
  from version_edit_roundtrip[OF this, of "SetCompactPointer 0 [7] new_VersionEdit"] show ?thesis
    by (simp add: sample_edit_def SetCompactPointer_def new_VersionEdit_def VersionEdit_Clear_def DeleteFile_def
        AddFile_def SetLogNumber_def SetComparatorName_def)
qed

end
