(* ===== verification/Ldb_Log.thy ===== *)
theory Ldb_Log
  imports Ldb_Status Ldb_Crc32c
begin

text \<open>
  The log: \<^verbatim>\<open>db/log_format.h\<close> and \<^verbatim>\<open>db/log_writer.cc\<close>.

  A file is a value of a type the theories leave open, with the operations of the interface
  \<^verbatim>\<open>WritableFile\<close> of \<^verbatim>\<open>include/leveldb/env.h\<close> as a record of functions; what the interface promises is
  the predicate \<open>appends_to\<close>. The checksums are computed at address 0: the result is the same at
  every address (theorem \<open>crc32c_extend_correct\<close>).
\<close>

section \<open>The format\<close>

datatype RecordType = kZeroType | kFullType | kFirstType | kMiddleType | kLastType

fun record_number :: "RecordType \<Rightarrow> nat" where
  "record_number kZeroType = 0"
| "record_number kFullType = 1"
| "record_number kFirstType = 2"
| "record_number kMiddleType = 3"
| "record_number kLastType = 4"

definition kMaxRecordType :: nat where "kMaxRecordType = record_number kLastType"
definition kBlockSize :: nat where "kBlockSize = 32768"
definition kHeaderSize :: nat where "kHeaderSize = 4 + 2 + 1"

section \<open>The writer\<close>

record 'f WritableFile =
  wf_Append :: "slice \<Rightarrow> 'f \<Rightarrow> Status \<times> 'f"
  wf_Flush :: "'f \<Rightarrow> Status \<times> 'f"

record 'f LogWriter =
  lw_ops :: "'f WritableFile"
  lw_dest :: 'f
  lw_block_offset :: int
  lw_type_crc :: "32 word list"

definition InitTypeCrc :: "32 word list" where
  "InitTypeCrc = map (\<lambda>i. crc_Value 0 [of_nat i]) [0..<kMaxRecordType + 1]"

definition new_LogWriter :: "'f WritableFile \<Rightarrow> 'f \<Rightarrow> 64 word \<Rightarrow> 'f LogWriter" where
  "new_LogWriter ops dest dest_length =
     \<lparr>lw_ops = ops, lw_dest = dest, lw_block_offset = uint dest_length mod int kBlockSize, lw_type_crc = InitTypeCrc\<rparr>"

definition EmitPhysicalRecord :: "RecordType \<Rightarrow> slice \<Rightarrow> 'f LogWriter \<Rightarrow> Status \<times> 'f LogWriter" where
  "EmitPhysicalRecord t ptr w =
     (let len = length ptr;
          crc = Mask (Extend (lw_type_crc w ! record_number t) 0 ptr);
          buf = EncodeFixed32 crc @ [of_nat (len mod 256), of_nat (len div 256), of_nat (record_number t)];
          (s, f) = wf_Append (lw_ops w) buf (lw_dest w);
          (s, f) =
            (if Status_ok s then
               let (s, f) = wf_Append (lw_ops w) ptr f
               in if Status_ok s then wf_Flush (lw_ops w) f else (s, f)
             else (s, f))
      in (s, w\<lparr>lw_dest := f, lw_block_offset := lw_block_offset w + int kHeaderSize + int len\<rparr>))"

definition switch_block :: "'f LogWriter \<Rightarrow> 'f LogWriter" where
  "switch_block w =
     (let leftover = int kBlockSize - lw_block_offset w in
      if leftover < int kHeaderSize
      then let w = (if leftover > 0
                    then w\<lparr>lw_dest := snd (wf_Append (lw_ops w) (replicate (nat leftover) 0) (lw_dest w))\<rparr> else w)
           in w\<lparr>lw_block_offset := 0\<rparr>
      else w)"

definition fragment_type :: "bool \<Rightarrow> bool \<Rightarrow> RecordType" where
  "fragment_type is_first is_end =
     (if is_first \<and> is_end then kFullType else if is_first then kFirstType else if is_end then kLastType else kMiddleType)"

text \<open>The room for data in the current block.\<close>

definition avail :: "'f LogWriter \<Rightarrow> nat" where
  "avail w = nat (int kBlockSize - lw_block_offset w - int kHeaderSize)"

lemma block_offset_Emit:
  "lw_block_offset (snd (EmitPhysicalRecord t ptr w)) = lw_block_offset w + int kHeaderSize + int (length ptr)"
  by (simp add: EmitPhysicalRecord_def Let_def split: prod.split)

lemma switch_block_room: "lw_block_offset (switch_block w) \<le> int kBlockSize - int kHeaderSize"
  by (simp add: switch_block_def Let_def kBlockSize_def kHeaderSize_def)

definition loop_measure :: "bool \<times> slice \<times> 'f LogWriter \<Rightarrow> nat" where
  "loop_measure = (\<lambda>(b, ptr, w). 2 * length ptr + (if avail (switch_block w) = 0 then 1 else 0))"

function AddRecord_loop :: "bool \<Rightarrow> slice \<Rightarrow> 'f LogWriter \<Rightarrow> Status \<times> 'f LogWriter" where
  "AddRecord_loop is_first ptr w =
     (let w = switch_block w;
          fragment_length = (if length ptr < avail w then length ptr else avail w);
          is_end = (length ptr = fragment_length);
          (s, w) = EmitPhysicalRecord (fragment_type is_first is_end) (take fragment_length ptr) w;
          left = drop fragment_length ptr
      in if Status_ok s \<and> left \<noteq> [] then AddRecord_loop False left w else (s, w))"
  by pat_completeness auto

termination
proof (relation "measure loop_measure", simp)
  fix is_first :: bool and ptr :: slice and w w1 :: "'f LogWriter" and n e p s w2 left
  assume w1: "w1 = switch_block w" and n: "n = (if length ptr < avail w1 then length ptr else avail w1)"
    and emit: "p = EmitPhysicalRecord (fragment_type is_first e) (take n ptr) w1" "(s, w2) = p"
    and left: "left = drop n ptr" "Status_ok s \<and> left \<noteq> []"
  have off: "lw_block_offset w2 = lw_block_offset w1 + int kHeaderSize + int (length (take n ptr))"
    using block_offset_Emit[of "fragment_type is_first e" "take n ptr" w1] emit by (metis snd_conv)
  have nn: "n = avail w1" "n < length ptr" using n left by (auto split: if_splits)
  show "((False, left, w2), is_first, ptr, w) \<in> measure loop_measure"
  proof (cases "n = 0")
    case False
    then have "Suc (2 * length left) < 2 * length ptr" using nn(2) by (simp add: left)
    then show ?thesis by (simp add: loop_measure_def)
  next
    case True
    then have "lw_block_offset w1 = int kBlockSize - int kHeaderSize"
      using nn(1) switch_block_room[of w] by (simp add: avail_def w1)
    then have "lw_block_offset w2 = int kBlockSize" using off True by simp
    then have "avail (switch_block w2) \<noteq> 0"
      by (simp add: switch_block_def avail_def Let_def kHeaderSize_def kBlockSize_def)
    then show ?thesis using True nn by (simp add: loop_measure_def left w1[symmetric])
  qed
qed

definition AddRecord :: "slice \<Rightarrow> 'f LogWriter \<Rightarrow> Status \<times> 'f LogWriter" where
  "AddRecord record w = AddRecord_loop True record w"


declare AddRecord_loop.simps [simp del]

section \<open>The bytes of a record\<close>

definition phys :: "RecordType \<Rightarrow> slice \<Rightarrow> slice" where
  "phys t payload =
     EncodeFixed32 (Mask (crc32c 0 (of_nat (record_number t) # payload))) @
     [of_nat (length payload mod 256), of_nat (length payload div 256), of_nat (record_number t)] @ payload"

text \<open>The zeros that fill the rest of a block at offset \<open>off\<close>, and where the next header goes.\<close>

definition pad :: "nat \<Rightarrow> slice" where
  "pad off = (if kBlockSize - off < kHeaderSize then replicate (kBlockSize - off) 0 else [])"

definition head_off :: "nat \<Rightarrow> nat" where
  "head_off off = (if kBlockSize - off < kHeaderSize then 0 else off)"

definition room :: "nat \<Rightarrow> nat" where
  "room off = kBlockSize - head_off off - kHeaderSize"

text \<open>The fragments of a record written at offset \<open>off\<close>: the type and the payload of each.\<close>

function frags :: "bool \<Rightarrow> nat \<Rightarrow> slice \<Rightarrow> (RecordType \<times> slice) list" where
  "frags is_first off ptr =
     (let n = min (length ptr) (room off) in
      (fragment_type is_first (length ptr = n), take n ptr) #
      (if n < length ptr then frags False (head_off off + kHeaderSize + n) (drop n ptr) else []))"
  by pat_completeness auto
termination
  by (relation "measure (\<lambda>(b, off, ptr). 2 * length ptr + (if room off = 0 then 1 else 0))")
     (auto simp: room_def head_off_def kBlockSize_def kHeaderSize_def min_def split: if_splits)

declare frags.simps [simp del]

text \<open>A list of fragments from offset \<open>off\<close> on, and the offset behind it.\<close>

fun frag_bytes :: "nat \<Rightarrow> (RecordType \<times> slice) list \<Rightarrow> slice" where
  "frag_bytes off [] = []"
| "frag_bytes off ((t, d) # fs) = pad off @ phys t d @ frag_bytes (head_off off + kHeaderSize + length d) fs"

fun frag_off :: "nat \<Rightarrow> (RecordType \<times> slice) list \<Rightarrow> nat" where
  "frag_off off [] = off"
| "frag_off off ((t, d) # fs) = frag_off (head_off off + kHeaderSize + length d) fs"

fun log_frags :: "nat \<Rightarrow> slice list \<Rightarrow> (RecordType \<times> slice) list list" where
  "log_frags off [] = []"
| "log_frags off (x # xs) = frags True off x # log_frags (frag_off off (frags True off x)) xs"

definition log_bytes :: "nat \<Rightarrow> slice list \<Rightarrow> slice" where
  "log_bytes off xs = frag_bytes off (concat (log_frags off xs))"

lemma frag_bytes_append: "frag_bytes off (fs @ gs) = frag_bytes off fs @ frag_bytes (frag_off off fs) gs"
  by (induction off fs rule: frag_bytes.induct) auto

lemma frag_off_append: "frag_off off (fs @ gs) = frag_off (frag_off off fs) gs"
  by (induction off fs rule: frag_bytes.induct) auto

lemma frags_payload: "concat (map snd (frags b off ptr)) = ptr"
  by (induction b off ptr rule: frags.induct) (subst frags.simps, auto simp: Let_def min_def)

text \<open>Every fragment fits behind its header in its block.\<close>

fun fits :: "nat \<Rightarrow> (RecordType \<times> slice) list \<Rightarrow> bool" where
  "fits off [] \<longleftrightarrow> True"
| "fits off ((t, d) # fs) \<longleftrightarrow>
     head_off off + kHeaderSize + length d \<le> kBlockSize \<and> fits (head_off off + kHeaderSize + length d) fs"

lemma head_off_room: "head_off off + kHeaderSize \<le> kBlockSize"
  by (simp add: head_off_def kBlockSize_def kHeaderSize_def) arith

lemma fits_frags: "fits off (frags b off ptr)"
proof (induction b off ptr rule: frags.induct)
  case (1 b off ptr)
  then show ?case using head_off_room[of off]
    by (subst frags.simps) (auto simp: Let_def room_def)
qed

lemma fits_append: "fits off (fs @ gs) \<longleftrightarrow> fits off fs \<and> fits (frag_off off fs) gs"
  by (induction off fs rule: frag_bytes.induct) auto

lemma fits_log: "fits off (concat (log_frags off xs))"
  by (induction off xs rule: log_frags.induct) (simp_all add: fits_append fits_frags)

section \<open>The writer writes the format\<close>

text \<open>What \<^verbatim>\<open>WritableFile\<close> promises: an operation that succeeds has added its bytes to the contents.\<close>

definition appends_to :: "'f WritableFile \<Rightarrow> ('f \<Rightarrow> slice) \<Rightarrow> bool" where
  "appends_to W contents \<longleftrightarrow>
     (\<forall>s f. Status_ok (fst (wf_Append W s f)) \<longrightarrow> contents (snd (wf_Append W s f)) = contents f @ s) \<and>
     (\<forall>f. contents (snd (wf_Flush W f)) = contents f)"

text \<open>The code ignores the status of the append that fills a block.\<close>

definition trailer_ok :: "'f LogWriter \<Rightarrow> bool" where
  "trailer_ok w \<longleftrightarrow>
     (let leftover = int kBlockSize - lw_block_offset w in
      0 < leftover \<and> leftover < int kHeaderSize \<longrightarrow>
        Status_ok (fst (wf_Append (lw_ops w) (replicate (nat leftover) 0) (lw_dest w))))"

definition writer_at :: "'f LogWriter \<Rightarrow> nat \<Rightarrow> bool" where
  "writer_at w off \<longleftrightarrow> lw_block_offset w = int off \<and> off \<le> kBlockSize \<and> lw_type_crc w = InitTypeCrc"

lemma InitTypeCrc_nth: "InitTypeCrc ! record_number t = crc32c 0 [of_nat (record_number t)]"
  by (cases t) (simp_all add: InitTypeCrc_def kMaxRecordType_def crc_Value_def Extend_correct numeral_eq_Suc)

lemma Emit_ok:
  assumes W: "appends_to (lw_ops w) contents" and w: "writer_at w off" and fit: "off + kHeaderSize + length d \<le> kBlockSize"
    and emit: "EmitPhysicalRecord t d w = (s, w')" and ok: "Status_ok s"
  shows "contents (lw_dest w') = contents (lw_dest w) @ phys t d \<and> lw_ops w' = lw_ops w \<and>
    writer_at w' (off + kHeaderSize + length d)"
proof -
  let ?h = "EncodeFixed32 (Mask (Extend (lw_type_crc w ! record_number t) 0 d)) @
      [of_nat (length d mod 256), of_nat (length d div 256), of_nat (record_number t)]"
  have crc: "Extend (lw_type_crc w ! record_number t) 0 d = crc32c 0 (of_nat (record_number t) # d)"
    using w by (simp add: writer_at_def InitTypeCrc_nth Extend_correct crc32c_def)
  obtain s1 f1 where 1: "wf_Append (lw_ops w) ?h (lw_dest w) = (s1, f1)" by fastforce
  obtain s2 f2 where 2: "wf_Append (lw_ops w) d f1 = (s2, f2)" by fastforce
  obtain s3 f3 where 3: "wf_Flush (lw_ops w) f2 = (s3, f3)" by fastforce
  have oks: "Status_ok s1" "Status_ok s2"
    using emit ok 1 2 3 by (auto simp: EmitPhysicalRecord_def Let_def simp del: status_errors(9) split: if_splits)
  have "contents f1 = contents (lw_dest w) @ ?h" "contents f2 = contents f1 @ d" "contents f3 = contents f2"
    using W 1 2 3 oks unfolding appends_to_def by (metis fst_conv snd_conv)+
  then show ?thesis using emit oks 1 2 3 w fit
    by (auto simp: EmitPhysicalRecord_def Let_def phys_def crc writer_at_def simp del: status_errors(9))
qed

lemma switch_ok:
  assumes W: "appends_to (lw_ops w) contents" and w: "writer_at w off" and "trailer_ok w"
  shows "contents (lw_dest (switch_block w)) = contents (lw_dest w) @ pad off \<and>
    lw_ops (switch_block w) = lw_ops w \<and> writer_at (switch_block w) (head_off off) \<and> avail (switch_block w) = room off"
proof -
  have "contents (lw_dest (switch_block w)) = contents (lw_dest w) @ pad off"
  proof (cases "kBlockSize - off < kHeaderSize \<and> off < kBlockSize")
    case True
    then have lt: "int kBlockSize - int off < int kHeaderSize" by arith
    with True have "Status_ok (fst (wf_Append (lw_ops w) (replicate (kBlockSize - off) 0) (lw_dest w)))"
      using assms(3) w by (simp add: trailer_ok_def Let_def writer_at_def nat_diff_distrib' del: status_errors(9))
    then show ?thesis using W w True lt
      by (simp add: appends_to_def switch_block_def Let_def writer_at_def pad_def nat_diff_distrib' del: status_errors(9))
  next
    case False
    then show ?thesis using w by (auto simp: switch_block_def Let_def writer_at_def pad_def kHeaderSize_def kBlockSize_def)
  qed
  moreover have "lw_ops (switch_block w) = lw_ops w" "writer_at (switch_block w) (head_off off)"
    using w by (auto simp: switch_block_def Let_def writer_at_def head_off_def kHeaderSize_def kBlockSize_def)
  moreover have "avail (switch_block w) = room off"
    using calculation(3) by (simp add: avail_def room_def writer_at_def)
  ultimately show ?thesis by simp
qed

lemma AddRecord_loop_ok:
  assumes "appends_to (lw_ops w) contents" "writer_at w off" "trailer_ok w"
    and "AddRecord_loop is_first ptr w = (s, w')" "Status_ok s"
  shows "contents (lw_dest w') = contents (lw_dest w) @ frag_bytes off (frags is_first off ptr) \<and>
    lw_ops w' = lw_ops w \<and> writer_at w' (frag_off off (frags is_first off ptr))"
  using assms
proof (induction is_first ptr w arbitrary: off rule: AddRecord_loop.induct)
  case (1 is_first ptr w)
  define w1 where "w1 = switch_block w"
  have w1: "contents (lw_dest w1) = contents (lw_dest w) @ pad off" "lw_ops w1 = lw_ops w"
      "writer_at w1 (head_off off)" "avail w1 = room off"
    using switch_ok[OF 1(2-4)] by (simp_all add: w1_def)
  define n where "n = min (length ptr) (room off)"
  have n: "n = (if length ptr < avail w1 then length ptr else avail w1)" by (simp add: n_def w1(4))
  obtain s1 w2 where emit: "EmitPhysicalRecord (fragment_type is_first (length ptr = n)) (take n ptr) w1 = (s1, w2)"
    by fastforce
  have loop: "AddRecord_loop is_first ptr w =
      (if Status_ok s1 \<and> drop n ptr \<noteq> [] then AddRecord_loop False (drop n ptr) w2 else (s1, w2))"
    using emit by (subst AddRecord_loop.simps)
      (simp add: Let_def w1(4) min_def n_def del: status_errors(9) flip: w1_def split: if_splits)
  have ok1: "Status_ok s1" using loop 1(5,6) by (auto simp del: status_errors(9) split: if_splits)
  have fit: "head_off off + kHeaderSize + length (take n ptr) \<le> kBlockSize"
    using head_off_room[of off] by (simp add: n_def room_def)
  have e: "contents (lw_dest w2) = contents (lw_dest w1) @ phys (fragment_type is_first (length ptr = n)) (take n ptr)"
      "lw_ops w2 = lw_ops w1" "writer_at w2 (head_off off + kHeaderSize + length (take n ptr))"
    using Emit_ok[OF _ w1(3) fit emit ok1, of contents] 1(2) w1(2) by simp_all
  have ln: "length (take n ptr) = n" by (simp add: n_def)
  show ?case
  proof (cases "n < length ptr")
    case False
    then show ?thesis using loop 1(5) e w1 ln
      by (subst (1 2) frags.simps) (auto simp: Let_def simp flip: n_def split: if_splits)
  next
    case True
    then have full: "n = room off" by (simp add: n_def)
    then have "head_off off + kHeaderSize + n = kBlockSize" using head_off_room[of off] by (simp add: room_def)
    then have "trailer_ok w2" using e(3) ln by (simp add: trailer_ok_def Let_def writer_at_def)
    moreover have rec: "AddRecord_loop False (drop n ptr) w2 = (s, w')" using loop True 1(5) ok1 by (simp split: if_splits)
    ultimately have "contents (lw_dest w') = contents (lw_dest w2) @
          frag_bytes (head_off off + kHeaderSize + n) (frags False (head_off off + kHeaderSize + n) (drop n ptr)) \<and>
        lw_ops w' = lw_ops w2 \<and>
        writer_at w' (frag_off (head_off off + kHeaderSize + n) (frags False (head_off off + kHeaderSize + n) (drop n ptr)))"
      using 1(1)[OF w1_def n refl emit[symmetric] refl refl] ok1 True 1(2,6) e w1 ln by simp
    then show ?thesis using e w1 ln True
      by (subst (1 2) frags.simps) (simp add: Let_def flip: n_def)
  qed
qed

lemma AddRecord_ok:
  assumes "appends_to (lw_ops w) contents" "writer_at w off" "trailer_ok w" "AddRecord x w = (s, w')" "Status_ok s"
  shows "contents (lw_dest w') = contents (lw_dest w) @ frag_bytes off (frags True off x) \<and>
    lw_ops w' = lw_ops w \<and> writer_at w' (frag_off off (frags True off x))"
  using AddRecord_loop_ok[OF assms(1-3) _ assms(5)] assms(4) by (simp add: AddRecord_def)

text \<open>Several records, until an error.\<close>

fun AddRecords :: "slice list \<Rightarrow> 'f LogWriter \<Rightarrow> Status \<times> 'f LogWriter" where
  "AddRecords [] w = (Status_OK, w)"
| "AddRecords (x # xs) w = (case AddRecord x w of (s, w) \<Rightarrow> if Status_ok s then AddRecords xs w else (s, w))"

definition trailers_ok :: "'f WritableFile \<Rightarrow> bool" where
  "trailers_ok W \<longleftrightarrow> (\<forall>n < kHeaderSize. \<forall>f. Status_ok (fst (wf_Append W (replicate n 0) f)))"

lemma AddRecords_ok:
  assumes "appends_to W contents" "trailers_ok W" "lw_ops w = W" "writer_at w off" "AddRecords xs w = (s, w')" "Status_ok s"
  shows "contents (lw_dest w') = contents (lw_dest w) @ log_bytes off xs"
  using assms(3-)
proof (induction xs arbitrary: w off)
  case (Cons x xs)
  obtain s1 w1 where x: "AddRecord x w = (s1, w1)" by fastforce
  have ok: "Status_ok s1" "AddRecords xs w1 = (s, w')" using Cons.prems(3,4) x by (auto simp del: status_errors(9) split: if_splits)
  have t: "trailer_ok w"
    using assms(2) Cons.prems(1,2) unfolding trailer_ok_def trailers_ok_def Let_def
    by (metis nat_int of_nat_less_iff int_nat_eq order_less_imp_le)
  note a = AddRecord_ok[OF _ Cons.prems(2) t x ok(1), of contents]
  have "contents (lw_dest w1) = contents (lw_dest w) @ frag_bytes off (frags True off x)"
     "lw_ops w1 = W" "writer_at w1 (frag_off off (frags True off x))"
    using a assms(1) Cons.prems(1) by simp_all
  then show ?case using Cons.IH[OF _ _ ok(2) Cons.prems(4)] by (simp add: log_bytes_def frag_bytes_append)
qed (simp add: log_bytes_def)

lemma writer_at_new:
  assumes "length c < 2 ^ 64"
  shows "writer_at (new_LogWriter W f (of_nat (length c))) (length c mod kBlockSize)"
  using assms mod_less_divisor[of kBlockSize "length c"]
  by (simp add: writer_at_def new_LogWriter_def zmod_int uint_nat unat_of_nat_64 kBlockSize_def less_imp_le)

text \<open>The error of the append that fills a block is lost: the record is reported as written although
  the block is short by the trailer, and all later records of the file are out of place.\<close>

definition failing_trailer :: "slice WritableFile" where
  "failing_trailer =
     \<lparr>wf_Append = (\<lambda>s f. if s = [0, 0, 0] then (IOError (text_bytes ''log'') (text_bytes ''no space''), f) else (Status_OK, f @ s)),
      wf_Flush = (\<lambda>f. (Status_OK, f))\<rparr>"

lemma trailer_error_lost:
  fixes f :: slice
  assumes "length f = 32765"
  defines "w \<equiv> new_LogWriter failing_trailer f (of_nat (length f))"
  shows "appends_to failing_trailer id \<and> fst (AddRecord [] w) = Status_OK \<and>
    lw_dest (snd (AddRecord [] w)) = f @ phys kFullType []"
proof (intro conjI)
  let ?w = "w\<lparr>lw_block_offset := 0\<rparr>"
  show W: "appends_to failing_trailer id" 
    by (auto simp: appends_to_def failing_trailer_def IOError_def new_Status_def Status_OK_def Let_def)
  have w: "lw_block_offset w = 32765" "lw_ops w = failing_trailer" "lw_dest w = f" "lw_type_crc w = InitTypeCrc"
    using assms(1) by (simp_all add: w_def new_LogWriter_def kBlockSize_def)
  have "switch_block w = ?w"
    by (simp add: switch_block_def Let_def w kBlockSize_def kHeaderSize_def)
       (simp add: failing_trailer_def numeral_3_eq_3, use w(3) in \<open>cases w, simp\<close>)
  moreover have at: "writer_at ?w 0" by (simp add: writer_at_def w)
  obtain s w' where emit: "EmitPhysicalRecord kFullType [] ?w = (s, w')" by fastforce
  have "s = Status_OK"
    using emit by (auto simp: EmitPhysicalRecord_def Let_def w failing_trailer_def split: if_splits)
  ultimately have "AddRecord [] w = (Status_OK, w')"
    using emit by (simp add: AddRecord_def AddRecord_loop.simps[of True "[]" w] Let_def fragment_type_def avail_def
        kBlockSize_def kHeaderSize_def)
  then show "fst (AddRecord [] w) = Status_OK" "lw_dest (snd (AddRecord [] w)) = f @ phys kFullType []"
    using Emit_ok[OF _ at _ emit, of id] W \<open>s = Status_OK\<close> by (simp_all add: w kBlockSize_def kHeaderSize_def)
qed

text \<open>A file in memory.\<close>

definition memory_writer :: "slice WritableFile" where
  "memory_writer = \<lparr>wf_Append = (\<lambda>s f. (Status_OK, f @ s)), wf_Flush = (\<lambda>f. (Status_OK, f))\<rparr>"

lemma memory_appends: "appends_to memory_writer id"
  by (simp add: memory_writer_def appends_to_def)

end
