(* ===== verification/Ldb_Log_Reader.thy ===== *)
theory Ldb_Log_Reader
  imports Ldb_Log
begin

text \<open>
  Reading the log: \<^verbatim>\<open>db/log_reader.cc\<close>.

  A reader has the members of the class. The reporter is a flag (whether there is one) and the list of the calls
  it has received. The variables the code passes by reference, \<^verbatim>\<open>result\<close>, \<^verbatim>\<open>record\<close> and \<^verbatim>\<open>scratch\<close>, are
  arguments and results; \<^verbatim>\<open>scratch\<close>, temporary storage of a call, is local. The loop of \<open>ReadRecord\<close> is a partial function: over a file that never ends it need
  not end.
\<close>

section \<open>The reader\<close>

record 'f SequentialFile =
  sf_Read :: "nat \<Rightarrow> 'f \<Rightarrow> Status \<times> slice \<times> 'f"
  sf_Skip :: "64 word \<Rightarrow> 'f \<Rightarrow> Status \<times> 'f"

record 'f LogReader =
  lr_ops :: "'f SequentialFile"
  lr_file :: 'f
  lr_reporter :: bool
  lr_reports :: "(64 word \<times> Status) list"
  lr_checksum :: bool
  lr_buffer :: slice
  lr_eof :: bool
  lr_last_record_offset :: "64 word"
  lr_end_of_buffer_offset :: "64 word"
  lr_initial_offset :: "64 word"
  lr_resyncing :: bool

definition new_LogReader :: "'f SequentialFile \<Rightarrow> 'f \<Rightarrow> bool \<Rightarrow> bool \<Rightarrow> 64 word \<Rightarrow> 'f LogReader" where
  "new_LogReader ops file reporter checksum initial_offset =
     \<lparr>lr_ops = ops, lr_file = file, lr_reporter = reporter, lr_reports = [], lr_checksum = checksum, lr_buffer = [],
      lr_eof = False, lr_last_record_offset = 0, lr_end_of_buffer_offset = 0, lr_initial_offset = initial_offset,
      lr_resyncing = (initial_offset > 0)\<rparr>"

definition kEof :: "32 word" where "kEof = of_nat (kMaxRecordType + 1)"
definition kBadRecord :: "32 word" where "kBadRecord = of_nat (kMaxRecordType + 2)"

definition ReportDrop :: "64 word \<Rightarrow> Status \<Rightarrow> 'f LogReader \<Rightarrow> 'f LogReader" where
  "ReportDrop bytes reason r =
     (if lr_reporter r \<and> lr_end_of_buffer_offset r - of_nat (length (lr_buffer r)) - bytes \<ge> lr_initial_offset r
      then r\<lparr>lr_reports := lr_reports r @ [(bytes, reason)]\<rparr> else r)"

definition ReportCorruption :: "64 word \<Rightarrow> string \<Rightarrow> 'f LogReader \<Rightarrow> 'f LogReader" where
  "ReportCorruption bytes reason r = ReportDrop bytes (Corruption (text_bytes reason) []) r"

definition SkipToInitialBlock :: "'f LogReader \<Rightarrow> bool \<times> 'f LogReader" where
  "SkipToInitialBlock r =
     (let offset_in_block = lr_initial_offset r mod of_nat kBlockSize;
          block_start_location = lr_initial_offset r - offset_in_block;
          block_start_location =
            (if offset_in_block > of_nat (kBlockSize - 6) then block_start_location + of_nat kBlockSize else block_start_location);
          r = r\<lparr>lr_end_of_buffer_offset := block_start_location\<rparr>
      in if block_start_location > 0 then
           let (skip_status, f) = sf_Skip (lr_ops r) block_start_location (lr_file r);
               r = r\<lparr>lr_file := f\<rparr>
           in if \<not> Status_ok skip_status then (False, ReportDrop block_start_location skip_status r) else (True, r)
         else (True, r))"

text \<open>Parsing a physical record from a buffer with at least a header.\<close>

definition parse_physical :: "slice \<Rightarrow> 'f LogReader \<Rightarrow> 32 word \<times> slice \<times> 'f LogReader" where
  "parse_physical result r =
     (let header = lr_buffer r;
          a = (ucast (header ! 4) :: 32 word); b = (ucast (header ! 5) :: 32 word);
          type = (scast (header ! 6) :: 32 word);
          len = unat (a OR push_bit 8 b)
      in if kHeaderSize + len > length (lr_buffer r) then
           let drop_size = of_nat (length (lr_buffer r)); r = r\<lparr>lr_buffer := []\<rparr>
           in if \<not> lr_eof r then (kBadRecord, result, ReportCorruption drop_size ''bad record length'' r)
              else (kEof, result, r)
         else if type = of_nat (record_number kZeroType) \<and> len = 0 then (kBadRecord, result, r\<lparr>lr_buffer := []\<rparr>)
         else if lr_checksum r \<and>
             crc_Value 0 (take (1 + len) (drop 6 header)) \<noteq> Unmask (DecodeFixed32 header) then
           let drop_size = of_nat (length (lr_buffer r)); r = r\<lparr>lr_buffer := []\<rparr>
           in (kBadRecord, result, ReportCorruption drop_size ''checksum mismatch'' r)
         else let r = r\<lparr>lr_buffer := drop (kHeaderSize + len) (lr_buffer r)\<rparr> in
           if lr_end_of_buffer_offset r - of_nat (length (lr_buffer r)) - of_nat kHeaderSize - of_nat len < lr_initial_offset r
           then (kBadRecord, [], r)
           else (type, take len (drop kHeaderSize header), r))"

function ReadPhysicalRecord :: "slice \<Rightarrow> 'f LogReader \<Rightarrow> 32 word \<times> slice \<times> 'f LogReader" where
  "ReadPhysicalRecord result r =
     (if length (lr_buffer r) < kHeaderSize then
        if \<not> lr_eof r then
          let (status, buffer, f) = sf_Read (lr_ops r) kBlockSize (lr_file r);
              r = r\<lparr>lr_buffer := buffer, lr_file := f,
                    lr_end_of_buffer_offset := lr_end_of_buffer_offset r + of_nat (length buffer)\<rparr>
          in if \<not> Status_ok status then (kEof, result, (ReportDrop (of_nat kBlockSize) status (r\<lparr>lr_buffer := []\<rparr>))\<lparr>lr_eof := True\<rparr>)
             else ReadPhysicalRecord result (if length buffer < kBlockSize then r\<lparr>lr_eof := True\<rparr> else r)
        else (kEof, result, r\<lparr>lr_buffer := []\<rparr>)
      else parse_physical result r)"
  by pat_completeness auto
termination
  by (relation "measure (\<lambda>(result, r). if length (lr_buffer r) < kHeaderSize \<and> \<not> lr_eof r then 1 else 0)")
     (auto simp: kHeaderSize_def kBlockSize_def)

declare ReadPhysicalRecord.simps [simp del]

definition kFull :: "32 word" where "kFull = of_nat (record_number kFullType)"
definition kFirst :: "32 word" where "kFirst = of_nat (record_number kFirstType)"
definition kMiddle :: "32 word" where "kMiddle = of_nat (record_number kMiddleType)"
definition kLast :: "32 word" where "kLast = of_nat (record_number kLastType)"

lemmas type_defs = kEof_def kBadRecord_def kFull_def kFirst_def kMiddle_def kLast_def kMaxRecordType_def

partial_function (option) ReadRecord_loop ::
  "bool \<Rightarrow> 64 word \<Rightarrow> slice \<Rightarrow> slice \<Rightarrow> 'f LogReader \<Rightarrow> (slice option \<times> 'f LogReader) option" where
  "ReadRecord_loop in_fragmented_record prospective fragment scratch r =
     (let (record_type, fragment, r) = ReadPhysicalRecord fragment r;
          physical_record_offset = lr_end_of_buffer_offset r - of_nat (length (lr_buffer r)) - of_nat kHeaderSize -
            of_nat (length fragment)
      in if lr_resyncing r \<and> record_type = kMiddle then ReadRecord_loop in_fragmented_record prospective fragment scratch r
         else if lr_resyncing r \<and> record_type = kLast
         then ReadRecord_loop in_fragmented_record prospective fragment scratch (r\<lparr>lr_resyncing := False\<rparr>)
         else let r = (if lr_resyncing r then r\<lparr>lr_resyncing := False\<rparr> else r) in
           if record_type = kFull then
             let r = (if in_fragmented_record \<and> scratch \<noteq> []
                      then ReportCorruption (of_nat (length scratch)) ''partial record without end(1)'' r else r)
             in Some (Some fragment, r\<lparr>lr_last_record_offset := physical_record_offset\<rparr>)
           else if record_type = kFirst then
             let r = (if in_fragmented_record \<and> scratch \<noteq> []
                      then ReportCorruption (of_nat (length scratch)) ''partial record without end(2)'' r else r)
             in ReadRecord_loop True physical_record_offset fragment fragment r
           else if record_type = kMiddle then
             if \<not> in_fragmented_record
             then ReadRecord_loop in_fragmented_record prospective fragment scratch
                    (ReportCorruption (of_nat (length fragment)) ''missing start of fragmented record(1)'' r)
             else ReadRecord_loop in_fragmented_record prospective fragment (scratch @ fragment) r
           else if record_type = kLast then
             if \<not> in_fragmented_record
             then ReadRecord_loop in_fragmented_record prospective fragment scratch
                    (ReportCorruption (of_nat (length fragment)) ''missing start of fragmented record(2)'' r)
             else Some (Some (scratch @ fragment), r\<lparr>lr_last_record_offset := prospective\<rparr>)
           else if record_type = kEof then
             Some (None, r)
           else if record_type = kBadRecord then
             if in_fragmented_record
             then ReadRecord_loop False prospective fragment []
                    (ReportCorruption (of_nat (length scratch)) ''error in middle of record'' r)
             else ReadRecord_loop in_fragmented_record prospective fragment scratch r
           else ReadRecord_loop False prospective fragment []
                  (ReportCorruption
                     (of_nat (length fragment) + (if in_fragmented_record then of_nat (length scratch) else 0))
                     (''unknown record type '' @ decimal (unat record_type)) r))"

definition ReadRecord :: "'f LogReader \<Rightarrow> (slice option \<times> 'f LogReader) option" where
  "ReadRecord r =
     (let (ok, r) = (if lr_last_record_offset r < lr_initial_offset r then SkipToInitialBlock r else (True, r))
      in if \<not> ok then Some (None, r) else ReadRecord_loop False 0 [] [] r)"

section \<open>Every file is read to its end\<close>

text \<open>What \<^verbatim>\<open>SequentialFile\<close> promises: a read that succeeds returns the next bytes.\<close>

definition reads_from :: "'f SequentialFile \<Rightarrow> ('f \<Rightarrow> slice) \<Rightarrow> bool" where
  "reads_from S rest \<longleftrightarrow>
     (\<forall>n f st bs f'. sf_Read S n f = (st, bs, f') \<longrightarrow> Status_ok st \<longrightarrow> bs = take n (rest f) \<and> rest f' = drop n (rest f))"

definition never_fails :: "'f SequentialFile \<Rightarrow> bool" where
  "never_fails S \<longleftrightarrow> (\<forall>n f. Status_ok (fst (sf_Read S n f)))"

lemma Report_simps [simp]:
  "lr_ops (ReportDrop n st r) = lr_ops r" "lr_file (ReportDrop n st r) = lr_file r"
  "lr_buffer (ReportDrop n st r) = lr_buffer r" "lr_eof (ReportDrop n st r) = lr_eof r"
  "lr_initial_offset (ReportDrop n st r) = lr_initial_offset r" "lr_resyncing (ReportDrop n st r) = lr_resyncing r"
  by (simp_all add: ReportDrop_def)

lemma ReportCorruption_simps [simp]:
  "lr_ops (ReportCorruption n msg r) = lr_ops r" "lr_file (ReportCorruption n msg r) = lr_file r"
  "lr_buffer (ReportCorruption n msg r) = lr_buffer r" "lr_eof (ReportCorruption n msg r) = lr_eof r"
  "lr_initial_offset (ReportCorruption n msg r) = lr_initial_offset r" "lr_resyncing (ReportCorruption n msg r) = lr_resyncing r"
  by (simp_all add: ReportCorruption_def)

definition unread :: "('f \<Rightarrow> slice) \<Rightarrow> 'f LogReader \<Rightarrow> nat" where
  "unread rest r = length (lr_buffer r) + (if lr_eof r then 0 else length (rest (lr_file r)))"

lemma parse_progress:
  assumes "parse_physical result r = (t, result', r')" "kHeaderSize \<le> length (lr_buffer r)"
  shows "unread rest r' < unread rest r" "lr_ops r' = lr_ops r"
  using assms by (auto simp: parse_physical_def Let_def unread_def kHeaderSize_def split: if_splits)

lemma Physical_progress:
  assumes S: "reads_from (lr_ops r) rest" and "ReadPhysicalRecord result r = (t, result', r')"
  shows "(t = kEof \<or> unread rest r' < unread rest r) \<and> lr_ops r' = lr_ops r"
  using assms
proof (induction result r rule: ReadPhysicalRecord.induct)
  case (1 result r)
  show ?case
  proof (cases "length (lr_buffer r) < kHeaderSize")
    case False
    then have "parse_physical result r = (t, result', r')" using 1(3) by (subst (asm) ReadPhysicalRecord.simps) simp
    then show ?thesis using parse_progress[of result r t result' r'] False by (simp add: not_less)
  next
    case True
    show ?thesis
    proof (cases "lr_eof r")
      case eof: True
      then show ?thesis using 1(3) True by (subst (asm) ReadPhysicalRecord.simps) auto
    next
      case eof: False
      obtain st bs f where rd: "sf_Read (lr_ops r) kBlockSize (lr_file r) = (st, bs, f)" by (metis prod_cases3)
      define r1 where "r1 = r\<lparr>lr_buffer := bs, lr_file := f,
          lr_end_of_buffer_offset := lr_end_of_buffer_offset r + of_nat (length bs)\<rparr>"
      define r2 where "r2 = (if length bs < kBlockSize then r1\<lparr>lr_eof := True\<rparr> else r1)"
      have step: "ReadPhysicalRecord result r =
          (if \<not> Status_ok st then (kEof, result, (ReportDrop (of_nat kBlockSize) st (r1\<lparr>lr_buffer := []\<rparr>))\<lparr>lr_eof := True\<rparr>)
           else ReadPhysicalRecord result r2)"
        using True eof rd by (subst ReadPhysicalRecord.simps) (simp add: Let_def r1_def r2_def)
      show ?thesis
      proof (cases "Status_ok st")
        case False
        then show ?thesis using 1(3) step by (auto simp: r1_def)
      next
        case ok: True
        then have read: "ReadPhysicalRecord result r2 = (t, result', r')" using 1(3) step by simp
        have bs: "bs = take kBlockSize (rest (lr_file r))" "rest f = drop kBlockSize (rest (lr_file r))"
          using 1(2) rd ok unfolding reads_from_def by blast+
        have ops: "lr_ops r2 = lr_ops r" by (simp add: r2_def r1_def)
        have "unread rest r2 \<le> unread rest r" using bs eof by (simp add: r2_def r1_def unread_def)
        moreover have "(t = kEof \<or> unread rest r' < unread rest r2) \<and> lr_ops r' = lr_ops r2"
          using 1(1)[OF True eof rd[symmetric] refl refl] ok 1(2) ops read
          unfolding r2_def r1_def by (simp del: status_errors(9))
        ultimately show ?thesis using ops by auto
      qed
    qed
  qed
qed

lemma ReadRecord_loop_returns:
  assumes "reads_from (lr_ops r) rest"
  shows "ReadRecord_loop in_frag prospective fragment scratch r \<noteq> None"
  using assms
proof (induction "unread rest r" arbitrary: in_frag prospective fragment scratch r rule: less_induct)
  case less
  obtain t fr r1 where ph: "ReadPhysicalRecord fragment r = (t, fr, r1)" by (metis prod_cases3)
  note prog = Physical_progress[OF less.prems ph]
  have rec: "ReadRecord_loop f p g s r' \<noteq> None"
    if "t \<noteq> kEof" "unread rest r' = unread rest r1" "lr_ops r' = lr_ops r1" for f p g s r'
    using less.hyps[of r' f p g s] prog that less.prems by simp
  have u: "unread rest (r\<lparr>lr_resyncing := b\<rparr>) = unread rest r" "unread rest (ReportCorruption n msg r) = unread rest r"
    for b n msg and r :: "'a LogReader"
    by (simp_all add: unread_def)
  show ?case
    by (subst ReadRecord_loop.simps)
       (auto simp: ph Let_def u rec type_defs simp del: not_None_eq)
qed

section \<open>Reading what the writer wrote\<close>

text \<open>The reader has \<open>U\<close> before it, the next byte at offset \<open>off\<close> of a block.\<close>

definition log_at :: "('f \<Rightarrow> slice) \<Rightarrow> 'f LogReader \<Rightarrow> slice \<Rightarrow> nat \<Rightarrow> bool" where
  "log_at rest r U off \<longleftrightarrow> off \<le> kBlockSize \<and> lr_buffer r @ rest (lr_file r) = U \<and>
     length (lr_buffer r) \<le> kBlockSize - off \<and>
     (if lr_eof r then rest (lr_file r) = [] else length (lr_buffer r) = kBlockSize - off) \<and>
     lr_initial_offset r = 0 \<and> \<not> lr_resyncing r \<and> reads_from (lr_ops r) rest \<and> never_fails (lr_ops r)"

lemma log_at_reports [simp]:
  "log_at rest (r\<lparr>lr_last_record_offset := n\<rparr>) U off = log_at rest r U off"
  by (simp add: log_at_def)

lemma log_at_length:
  assumes "log_at rest r U off"
  shows "length (lr_buffer r) + length (rest (lr_file r)) = length U" "lr_eof r \<Longrightarrow> lr_buffer r = U"
proof -
  have U: "U = lr_buffer r @ rest (lr_file r)" using assms by (simp add: log_at_def)
  show "length (lr_buffer r) + length (rest (lr_file r)) = length U" by (simp add: U)
  show "lr_eof r \<Longrightarrow> lr_buffer r = U" using assms by (auto simp: log_at_def)
qed

lemma length_phys [simp]: "length (phys t d) = kHeaderSize + length d"
  by (simp add: phys_def kHeaderSize_def)

lemma type_byte: "scast (of_nat (record_number t) :: byte) = (of_nat (record_number t) :: 32 word)"
  by (cases t) simp_all

lemma length_bytes:
  assumes "n < 65536"
  shows "unat (ucast (of_nat (n mod 256) :: byte) OR push_bit 8 (ucast (of_nat (n div 256) :: byte)) :: 32 word) = n"
proof -
  define a b where "a = n mod 256" and "b = n div 256"
  have ab: "n = a + b * 256" "a < 256" "b < 256" using assms by (simp_all add: a_def b_def)
  then have "unat (of_nat a :: 32 word) = a" by (intro unat_of_nat_32) simp
  then have "(of_nat a OR push_bit 8 (of_nat b) :: 32 word) = of_nat a + push_bit 8 (of_nat b)"
    using ab(2) by (intro or_push_bit) simp
  also have "\<dots> = of_nat n" by (simp add: push_bit_eq_mult ab(1))
  finally have "(of_nat a OR push_bit 8 (of_nat b) :: 32 word) = of_nat n" .
  moreover have "unat (of_nat n :: 32 word) = n" using assms by (intro unat_of_nat_32) simp
  ultimately show ?thesis using ab(2,3) unfolding a_def[symmetric] b_def[symmetric] by (simp add: ucast_of_nat_8)
qed

text \<open>A whole physical record at the front of the buffer.\<close>

lemma parse_whole:
  assumes "lr_buffer r = phys t d @ x" "length d < 65536" "t \<noteq> kZeroType" "lr_initial_offset r = 0"
  shows "parse_physical result r = (of_nat (record_number t), d, r\<lparr>lr_buffer := x\<rparr>)"
proof -
  let ?h = "phys t d @ x"
  have h: "?h ! 4 = of_nat (length d mod 256)" "?h ! 5 = of_nat (length d div 256)" "?h ! 6 = of_nat (record_number t)"
    "take (1 + length d) (drop 6 ?h) = of_nat (record_number t) # d" "drop kHeaderSize ?h = d @ x"
    "drop (kHeaderSize + length d) ?h = x"
    by (simp_all add: phys_def nth_append kHeaderSize_def numeral_3_eq_3)
  have crc: "Unmask (DecodeFixed32 ?h) = crc32c 0 (of_nat (record_number t) # d)" by (simp add: phys_def)
  have z: "(of_nat (record_number t) :: 32 word) \<noteq> of_nat (record_number kZeroType)" using assms(3) by (cases t) simp_all
  show ?thesis unfolding parse_physical_def Let_def assms(1) h type_byte length_bytes[OF assms(2)] crc
    using assms(4) z by (simp add: crc_Value_def Extend_correct)
qed

lemma parse_cut:
  assumes "lr_buffer r = take n (phys t d)" "n < kHeaderSize + length d" "kHeaderSize \<le> n" "length d < 65536" "lr_eof r"
  shows "parse_physical result r = (kEof, result, r\<lparr>lr_buffer := []\<rparr>)"
proof -
  have "take n (phys t d) ! 4 = phys t d ! 4" "take n (phys t d) ! 5 = phys t d ! 5"
    using assms(2,3) by (simp_all add: kHeaderSize_def)
  then have h: "take n (phys t d) ! 4 = of_nat (length d mod 256)" "take n (phys t d) ! 5 = of_nat (length d div 256)"
    by (simp_all add: phys_def nth_append)
  show ?thesis unfolding parse_physical_def Let_def assms(1) h length_bytes[OF assms(4)]
    using assms(2,5) by simp
qed

text \<open>At the end of a block the reader fetches the next one.\<close>

lemma refill:
  assumes at: "log_at rest r U off" and short: "kBlockSize - off < kHeaderSize" and eof: "\<not> lr_eof r"
  shows "\<exists>r'. ReadPhysicalRecord result r = ReadPhysicalRecord result r' \<and> log_at rest r' (drop (kBlockSize - off) U) 0 \<and>
    lr_reports r' = lr_reports r"
proof -
  obtain st bs f where rd: "sf_Read (lr_ops r) kBlockSize (lr_file r) = (st, bs, f)" by (metis prod_cases3)
  define r1 where "r1 = r\<lparr>lr_buffer := bs, lr_file := f,
      lr_end_of_buffer_offset := lr_end_of_buffer_offset r + of_nat (length bs)\<rparr>"
  define r2 where "r2 = (if length bs < kBlockSize then r1\<lparr>lr_eof := True\<rparr> else r1)"
  have ok: "Status_ok st" using at rd unfolding log_at_def never_fails_def by (metis fst_conv)
  then have bs: "bs = take kBlockSize (rest (lr_file r))" "rest f = drop kBlockSize (rest (lr_file r))"
    using at rd unfolding log_at_def reads_from_def by blast+
  have len: "length (lr_buffer r) = kBlockSize - off" using at eof by (simp add: log_at_def)
  have "ReadPhysicalRecord result r = ReadPhysicalRecord result r2"
    using short len eof rd ok by (subst ReadPhysicalRecord.simps) (simp add: Let_def r1_def r2_def)
  moreover have "U = lr_buffer r @ rest (lr_file r)" using at by (simp add: log_at_def)
  then have U: "drop (kBlockSize - off) U = rest (lr_file r)" using len by simp
  moreover have "log_at rest r2 (rest (lr_file r)) 0"
    using at bs eof by (auto simp: log_at_def r2_def r1_def)
  ultimately show ?thesis by (intro exI[of _ r2]) (simp add: r2_def r1_def)
qed

text \<open>A whole record is read, a cut one is taken for the end of the file.\<close>

lemma Physical_parse:
  "kHeaderSize \<le> length (lr_buffer r) \<Longrightarrow> ReadPhysicalRecord result r = parse_physical result r"
  by (subst ReadPhysicalRecord.simps) simp

lemma Physical_whole_here:
  assumes at: "log_at rest r (phys t d @ U) off" and fit: "off + kHeaderSize + length d \<le> kBlockSize" and t: "t \<noteq> kZeroType"
  shows "\<exists>r'. ReadPhysicalRecord result r = (of_nat (record_number t), d, r') \<and>
    log_at rest r' U (off + kHeaderSize + length d) \<and> lr_reports r' = lr_reports r"
proof -
  let ?n = "kHeaderSize + length d"
  have split: "lr_buffer r @ rest (lr_file r) = phys t d @ U" using at by (simp add: log_at_def)
  have len: "?n \<le> length (lr_buffer r)"
  proof (cases "lr_eof r")
    case True
    then have "length (lr_buffer r) = ?n + length U" using log_at_length(2)[OF at] by simp
    then show ?thesis by simp
  next
    case False
    then show ?thesis using at fit by (simp add: log_at_def)
  qed
  define x where "x = drop ?n (lr_buffer r)"
  have "take ?n (lr_buffer r) = phys t d" "x @ rest (lr_file r) = U"
    using arg_cong[OF split, of "take ?n"] arg_cong[OF split, of "drop ?n"] len by (simp_all add: x_def)
  then have x: "lr_buffer r = phys t d @ x" "x @ rest (lr_file r) = U"
    using append_take_drop_id[of ?n "lr_buffer r"] by (simp_all add: x_def)
  have d: "length d < 65536" using fit by (simp add: kBlockSize_def)
  have "ReadPhysicalRecord result r = (of_nat (record_number t), d, r\<lparr>lr_buffer := x\<rparr>)"
    using parse_whole[OF x(1) d t] at len by (simp add: Physical_parse log_at_def)
  moreover have "log_at rest (r\<lparr>lr_buffer := x\<rparr>) U (off + ?n)"
  proof -
    have lx: "length x = length (lr_buffer r) - ?n" by (simp add: x_def)
    moreover have "length (lr_buffer r) \<le> kBlockSize - off" "\<not> lr_eof r \<Longrightarrow> length (lr_buffer r) = kBlockSize - off"
      using at by (simp_all add: log_at_def)
    ultimately have "length x \<le> kBlockSize - (off + ?n)" "\<not> lr_eof r \<Longrightarrow> length x = kBlockSize - (off + ?n)"
      using len by linarith+
    then show ?thesis using at x(2) fit unfolding log_at_def by auto
  qed
  ultimately show ?thesis by (auto simp: add.assoc)
qed

lemma Physical_whole:
  assumes at: "log_at rest r (pad off @ phys t d @ U) off" and fit: "head_off off + kHeaderSize + length d \<le> kBlockSize"
    and t: "t \<noteq> kZeroType"
  shows "\<exists>r'. ReadPhysicalRecord result r = (of_nat (record_number t), d, r') \<and>
    log_at rest r' U (head_off off + kHeaderSize + length d) \<and> lr_reports r' = lr_reports r"
proof (cases "kBlockSize - off < kHeaderSize")
  case False
  then show ?thesis using Physical_whole_here[of rest r t d U off] assms by (simp add: pad_def head_off_def)
next
  case True
  have "\<not> lr_eof r"
  proof
    assume "lr_eof r"
    then have "length (lr_buffer r) = length (pad off @ phys t d @ U)" using log_at_length(2)[OF at] by simp
    moreover have "length (lr_buffer r) < kHeaderSize" using at True by (simp add: log_at_def)
    ultimately show False by simp
  qed
  from refill[OF at True this] obtain r1 where r1: "ReadPhysicalRecord result r = ReadPhysicalRecord result r1"
      "log_at rest r1 (phys t d @ U) 0" "lr_reports r1 = lr_reports r"
    using True by (auto simp: pad_def)
  then show ?thesis using Physical_whole_here[OF r1(2) _ t, of result] fit True by (simp add: head_off_def)
qed

lemma Physical_end:
  assumes at: "log_at rest r U off" and short: "length U < kHeaderSize" and eof: "lr_eof r \<or> U = []"
  shows "\<exists>r'. ReadPhysicalRecord result r = (kEof, result, r') \<and> lr_reports r' = lr_reports r"
proof (cases "lr_eof r")
  case True
  then have "length (lr_buffer r) < kHeaderSize" using at short by (auto simp: log_at_def)
  then show ?thesis using True by (subst ReadPhysicalRecord.simps) simp
next
  case False
  then have U: "U = []" "lr_buffer r = []" "off = kBlockSize" using at eof by (auto simp: log_at_def)
  then have "kBlockSize - off < kHeaderSize" by (simp add: kHeaderSize_def)
  from refill[OF at this False] U obtain r1 where r1: "ReadPhysicalRecord result r = ReadPhysicalRecord result r1"
      "log_at rest r1 [] 0" "lr_reports r1 = lr_reports r" by auto
  have "lr_eof r1 \<and> lr_buffer r1 = []" using r1(2) by (auto simp: log_at_def kBlockSize_def split: if_splits)
  then have "ReadPhysicalRecord result r1 = (kEof, result, r1)"
    by (subst ReadPhysicalRecord.simps) (auto simp: kHeaderSize_def)
  then show ?thesis using r1 by auto
qed

lemma Physical_cut_here:
  assumes at: "log_at rest r (take n (phys t d)) off" and n: "n < kHeaderSize + length d"
    and fit: "off + kHeaderSize + length d \<le> kBlockSize"
  shows "\<exists>r'. ReadPhysicalRecord result r = (kEof, result, r') \<and> lr_reports r' = lr_reports r"
proof -
  have len: "length (lr_buffer r) + length (rest (lr_file r)) = n"
    using log_at_length(1)[OF at] n by simp
  have eof: "lr_eof r" using at len n fit by (auto simp: log_at_def split: if_splits)
  then have buf: "lr_buffer r = take n (phys t d)" "length (lr_buffer r) = n" using at len by (auto simp: log_at_def)
  have d: "length d < 65536" using fit by (simp add: kBlockSize_def)
  show ?thesis
  proof (cases "n < kHeaderSize")
    case True
    then show ?thesis using Physical_end[OF at] eof by simp
  next
    case False
    then show ?thesis using parse_cut[OF buf(1) n _ d eof] buf(2) by (simp add: Physical_parse)
  qed
qed

lemma Physical_cut:
  assumes at: "log_at rest r (take n (pad off @ phys t d)) off" and n: "n < length (pad off) + kHeaderSize + length d"
    and fit: "head_off off + kHeaderSize + length d \<le> kBlockSize"
  shows "\<exists>r'. ReadPhysicalRecord result r = (kEof, result, r') \<and> lr_reports r' = lr_reports r"
proof (cases "kBlockSize - off < kHeaderSize")
  case False
  then show ?thesis using Physical_cut_here[of rest r n t d off] assms by (simp add: pad_def head_off_def)
next
  case True
  let ?p = "kBlockSize - off"
  have pad: "length (pad off) = ?p" using True by (simp add: pad_def)
  show ?thesis
  proof (cases "lr_eof r")
    case eof: True
    have "length (lr_buffer r) \<le> ?p" using at by (simp add: log_at_def)
    then have "length (take n (pad off @ phys t d)) < kHeaderSize"
      using True unfolding log_at_length(2)[OF at eof] by linarith
    then show ?thesis using Physical_end[OF at] eof by blast
  next
    case eof: False
    have "length (lr_buffer r) = ?p" using at eof by (simp add: log_at_def)
    then have np: "?p \<le> n" using log_at_length(1)[OF at] by simp
    from refill[OF at True eof] obtain r1 where r1: "ReadPhysicalRecord result r = ReadPhysicalRecord result r1"
        "log_at rest r1 (take (n - ?p) (phys t d)) 0" "lr_reports r1 = lr_reports r"
      using np pad by auto
    then show ?thesis using Physical_cut_here[OF r1(2), of result] n pad np fit True by (simp add: head_off_def)
  qed
qed

section \<open>Reading records\<close>

lemma loop_steps:
  assumes "ReadPhysicalRecord fr r = (of_nat (record_number t), d, r1)" "\<not> lr_resyncing r1"
  shows "t = kFullType \<Longrightarrow> \<exists>n. ReadRecord_loop False p fr s r = Some (Some d, r1\<lparr>lr_last_record_offset := n\<rparr>)"
    "t = kFirstType \<Longrightarrow> \<exists>n. ReadRecord_loop False p fr s r = ReadRecord_loop True n d d r1"
    "t = kMiddleType \<Longrightarrow> ReadRecord_loop True p fr s r = ReadRecord_loop True p d (s @ d) r1"
    "t = kLastType \<Longrightarrow> ReadRecord_loop True p fr s r = Some (Some (s @ d), r1\<lparr>lr_last_record_offset := p\<rparr>)"
proof -
  note unfold = ReadRecord_loop.simps[of _ _ fr s r, unfolded Let_def assms(1) prod.case]
  show "t = kFullType \<Longrightarrow> \<exists>n. ReadRecord_loop False p fr s r = Some (Some d, r1\<lparr>lr_last_record_offset := n\<rparr>)"
    by (subst unfold) (use assms(2) in \<open>auto simp: type_defs\<close>)
  show "t = kFirstType \<Longrightarrow> \<exists>n. ReadRecord_loop False p fr s r = ReadRecord_loop True n d d r1"
    by (subst unfold) (use assms(2) in \<open>auto simp: type_defs\<close>)
  show "t = kMiddleType \<Longrightarrow> ReadRecord_loop True p fr s r = ReadRecord_loop True p d (s @ d) r1"
    by (subst unfold) (use assms(2) in \<open>simp add: type_defs\<close>)
  show "t = kLastType \<Longrightarrow> ReadRecord_loop True p fr s r = Some (Some (s @ d), r1\<lparr>lr_last_record_offset := p\<rparr>)"
    by (subst unfold) (use assms(2) in \<open>simp add: type_defs\<close>)
qed

lemma loop_eof:
  assumes "ReadPhysicalRecord fr r = (kEof, d, r1)"
  shows "\<exists>r'. ReadRecord_loop in_frag p fr s r = Some (None, r') \<and> lr_reports r' = lr_reports r1"
  using assms by (subst ReadRecord_loop.simps) (auto simp: Let_def type_defs)

lemma log_at_quiet: "log_at rest r U off \<Longrightarrow> \<not> lr_resyncing r"
  by (simp add: log_at_def)

lemma fragment_type_nonzero: "fragment_type a b \<noteq> kZeroType"
  by (simp add: fragment_type_def)

text \<open>One turn of the loop on the first fragment of a record: either the record is complete, or
  the loop goes on with the data collected so far.\<close>

lemma loop_fragment:
  fixes s :: slice
  assumes ph: "ReadPhysicalRecord fr r = (of_nat (record_number (fragment_type is_first is_end)), d, r1)"
    and q: "\<not> lr_resyncing r1"
  defines "collected \<equiv> (if is_first then [] else s) @ d"
  shows "if is_end then \<exists>n. ReadRecord_loop (\<not> is_first) p fr s r = Some (Some collected, r1\<lparr>lr_last_record_offset := n\<rparr>)
    else \<exists>n. ReadRecord_loop (\<not> is_first) p fr s r = ReadRecord_loop True n d collected r1"
proof -
  let ?t = "fragment_type is_first is_end"
  show ?thesis
  proof (cases is_first)
    case first: True
    show ?thesis
    proof (cases is_end)
      case True
      then have "?t = kFullType" using first by (simp add: fragment_type_def)
      from loop_steps(1)[OF ph q this, where p = p and s = s] show ?thesis using first True by (simp add: collected_def)
    next
      case False
      then have "?t = kFirstType" using first by (simp add: fragment_type_def)
      from loop_steps(2)[OF ph q this, where p = p and s = s] show ?thesis using first False by (simp add: collected_def)
    qed
  next
    case first: False
    show ?thesis
    proof (cases is_end)
      case True
      then have "?t = kLastType" using first by (simp add: fragment_type_def)
      from loop_steps(4)[OF ph q this, where p = p and s = s] show ?thesis using first True
        by (auto simp: collected_def)
    next
      case False
      then have "?t = kMiddleType" using first by (simp add: fragment_type_def)
      from loop_steps(3)[OF ph q this, where p = p and s = s] show ?thesis using first False
        by (auto simp: collected_def)
    qed
  qed
qed

lemma read_frags:
  assumes "log_at rest r (frag_bytes off (frags is_first off ptr) @ U) off"
  shows "\<exists>r'. ReadRecord_loop (\<not> is_first) p fr s r = Some (Some ((if is_first then [] else s) @ ptr), r') \<and>
    log_at rest r' U (frag_off off (frags is_first off ptr)) \<and> lr_reports r' = lr_reports r"
  using assms
proof (induction is_first off ptr arbitrary: r p fr s rule: frags.induct)
  case (1 is_first off ptr)
  define n where "n = min (length ptr) (room off)"
  let ?t = "fragment_type is_first (length ptr = n)" and ?o = "head_off off + kHeaderSize + n"
  let ?fs = "if n < length ptr then frags False ?o (drop n ptr) else []"
  have fs: "frags is_first off ptr = (?t, take n ptr) # ?fs"
    by (subst frags.simps) (simp add: Let_def flip: n_def)
  have ln: "length (take n ptr) = n" by (simp add: n_def)
  have fit: "head_off off + kHeaderSize + length (take n ptr) \<le> kBlockSize"
    using head_off_room[of off] by (simp add: n_def room_def)
  have at: "log_at rest r (pad off @ phys ?t (take n ptr) @ frag_bytes ?o ?fs @ U) off"
    using 1(2) by (simp only: fs frag_bytes.simps ln append_assoc)
  obtain r1 where r1: "ReadPhysicalRecord fr r = (of_nat (record_number ?t), take n ptr, r1)"
      "log_at rest r1 (frag_bytes ?o ?fs @ U) ?o" "lr_reports r1 = lr_reports r"
    using Physical_whole[OF at fit fragment_type_nonzero, of fr] ln by auto
  note step = loop_fragment[OF r1(1) log_at_quiet[OF r1(2)], where s = s and p = p]
  show ?case
  proof (cases "n < length ptr")
    case False
    then have "length ptr = n" by (simp add: n_def)
    then show ?thesis using step r1 by (auto simp: fs)
  next
    case True
    obtain m where m: "ReadRecord_loop (\<not> is_first) p fr s r =
        ReadRecord_loop True m (take n ptr) ((if is_first then [] else s) @ take n ptr) r1"
      using step True by auto
    have "\<exists>r'. ReadRecord_loop (\<not> False) m (take n ptr) ((if is_first then [] else s) @ take n ptr) r1 =
        Some (Some ((if False then [] else (if is_first then [] else s) @ take n ptr) @ drop n ptr), r') \<and>
      log_at rest r' U (frag_off ?o (frags False ?o (drop n ptr))) \<and> lr_reports r' = lr_reports r1"
      by (rule 1(1)[OF n_def True]) (use r1(2) True in simp)
    then show ?thesis using m r1(3) True ln by (simp add: fs)
  qed
qed

lemma cut_frags:
  assumes "log_at rest r (take k (frag_bytes off (frags is_first off ptr))) off"
    and "k < length (frag_bytes off (frags is_first off ptr))"
  shows "\<exists>r'. ReadRecord_loop (\<not> is_first) p fr s r = Some (None, r') \<and> lr_reports r' = lr_reports r"
  using assms
proof (induction is_first off ptr arbitrary: k r p fr s rule: frags.induct)
  case (1 is_first off ptr)
  define n where "n = min (length ptr) (room off)"
  let ?t = "fragment_type is_first (length ptr = n)" and ?o = "head_off off + kHeaderSize + n"
  let ?fs = "if n < length ptr then frags False ?o (drop n ptr) else []"
  let ?l = "length (pad off) + kHeaderSize + n"
  have fs: "frags is_first off ptr = (?t, take n ptr) # ?fs"
    by (subst frags.simps) (simp add: Let_def flip: n_def)
  have ln: "length (take n ptr) = n" by (simp add: n_def)
  have fit: "head_off off + kHeaderSize + length (take n ptr) \<le> kBlockSize"
    using head_off_room[of off] by (simp add: n_def room_def)
  have bytes: "frag_bytes off (frags is_first off ptr) = (pad off @ phys ?t (take n ptr)) @ frag_bytes ?o ?fs"
    by (simp only: fs frag_bytes.simps ln append_assoc)
  have l: "length (pad off @ phys ?t (take n ptr)) = ?l" using ln by simp
  show ?case
  proof (cases "k < ?l")
    case True
    then have "take k (frag_bytes off (frags is_first off ptr)) = take k (pad off @ phys ?t (take n ptr))"
      unfolding bytes take_append[of k "pad off @ phys ?t (take n ptr)" "frag_bytes ?o ?fs"] l by simp
    then have at: "log_at rest r (take k (pad off @ phys ?t (take n ptr))) off" using 1(2) by simp
    obtain r1 where "ReadPhysicalRecord fr r = (kEof, fr, r1)" "lr_reports r1 = lr_reports r"
      using Physical_cut[OF at _ fit, of fr] True ln by auto
    then show ?thesis using loop_eof[of fr r fr r1] by metis
  next
    case False
    have "take k (frag_bytes off (frags is_first off ptr)) =
        pad off @ phys ?t (take n ptr) @ take (k - ?l) (frag_bytes ?o ?fs)"
      unfolding bytes take_append[of k "pad off @ phys ?t (take n ptr)" "frag_bytes ?o ?fs"] l
      using False l by simp
    then have at: "log_at rest r (pad off @ phys ?t (take n ptr) @ take (k - ?l) (frag_bytes ?o ?fs)) off"
      using 1(2) by simp
    have more: "n < length ptr" using 1(3) False unfolding bytes length_append[of "pad off @ phys ?t (take n ptr)"] l
      by (auto split: if_splits)
    obtain r1 where r1: "ReadPhysicalRecord fr r = (of_nat (record_number ?t), take n ptr, r1)"
        "log_at rest r1 (take (k - ?l) (frag_bytes ?o ?fs)) ?o" "lr_reports r1 = lr_reports r"
      using Physical_whole[OF at fit fragment_type_nonzero, of fr] ln by auto
    obtain m where m: "ReadRecord_loop (\<not> is_first) p fr s r =
        ReadRecord_loop True m (take n ptr) ((if is_first then [] else s) @ take n ptr) r1"
      using loop_fragment[OF r1(1) log_at_quiet[OF r1(2)], where s = s and p = p] more by auto
    have "\<exists>r'. ReadRecord_loop (\<not> False) m (take n ptr) ((if is_first then [] else s) @ take n ptr) r1 = Some (None, r') \<and>
        lr_reports r' = lr_reports r1"
      by (rule 1(1)[OF n_def more, of _ "k - ?l"])
         (use r1(2) more 1(3) False in \<open>simp_all add: bytes ln\<close>)
    then show ?thesis using m r1(3) by simp
  qed
qed

text \<open>Reading record after record gives \<open>xs\<close>, then the end, and nothing is reported.\<close>

fun log_yields :: "'f LogReader \<Rightarrow> slice list \<Rightarrow> bool" where
  "log_yields r [] =
     (case ReadRecord r of Some (None, r') \<Rightarrow> lr_reports r' = lr_reports r | _ \<Rightarrow> False)"
| "log_yields r (x # xs) =
     (case ReadRecord r of Some (Some y, r') \<Rightarrow> y = x \<and> lr_reports r' = lr_reports r \<and> log_yields r' xs | _ \<Rightarrow> False)"

lemma ReadRecord_start: "lr_initial_offset r = 0 \<Longrightarrow> ReadRecord r = ReadRecord_loop False 0 [] [] r"
  by (simp add: ReadRecord_def)

lemma ReadRecord_start_at: "log_at rest r U off \<Longrightarrow> ReadRecord r = ReadRecord_loop False 0 [] [] r"
  by (rule ReadRecord_start) (simp add: log_at_def)

lemma log_bytes_Cons:
  "log_bytes off (x # xs) = frag_bytes off (frags True off x) @ log_bytes (frag_off off (frags True off x)) xs"
  by (simp add: log_bytes_def frag_bytes_append)

lemma log_bytes_append: "\<exists>off'. log_bytes off (xs @ ys) = log_bytes off xs @ log_bytes off' ys"
proof (induction xs arbitrary: off)
  case (Cons x xs)
  then show ?case by (simp add: log_bytes_Cons)
qed (auto simp: log_bytes_def)

lemma yields_prefix:
  assumes "log_at rest r (take n (log_bytes off xs)) off"
  shows "\<exists>k \<le> length xs. length (log_bytes off (take k xs)) \<le> n \<and>
    (k < length xs \<longrightarrow> n < length (log_bytes off (take (Suc k) xs))) \<and> log_yields r (take k xs)"
  using assms
proof (induction xs arbitrary: r n off)
  case Nil
  then have at: "log_at rest r [] off" by (simp add: log_bytes_def)
  obtain r1 where "ReadPhysicalRecord [] r = (kEof, [], r1)" "lr_reports r1 = lr_reports r"
    using Physical_end[OF at, of "[]"] by (auto simp: kHeaderSize_def)
  then show ?case using loop_eof[of "[]" r "[]" r1 False 0 "[]"] ReadRecord_start_at[OF at] by (auto simp: log_bytes_def)
next
  case (Cons x xs)
  let ?fs = "frags True off x"
  let ?l = "length (frag_bytes off ?fs)" and ?o = "frag_off off ?fs"
  show ?case
  proof (cases "n < ?l")
    case True
    then have at: "log_at rest r (take n (frag_bytes off ?fs)) off" using Cons.prems by (simp add: log_bytes_Cons)
    obtain r' where "ReadRecord_loop False 0 [] [] r = Some (None, r')" "lr_reports r' = lr_reports r"
      using cut_frags[OF at True, of 0 "[]" "[]"] by auto
    then have "log_yields r []" using ReadRecord_start_at[OF at] by simp
    moreover have "n < length (log_bytes off (take (Suc 0) (x # xs)))"
      using True by (simp add: log_bytes_Cons)
    ultimately show ?thesis by (intro exI[of _ 0]) (simp add: log_bytes_def)
  next
    case False
    then have at: "log_at rest r (frag_bytes off ?fs @ take (n - ?l) (log_bytes ?o xs)) off"
      using Cons.prems by (simp add: log_bytes_Cons)
    obtain r' where r': "ReadRecord_loop False 0 [] [] r = Some (Some x, r')" "lr_reports r' = lr_reports r"
        "log_at rest r' (take (n - ?l) (log_bytes ?o xs)) ?o"
      using read_frags[OF at, of 0 "[]" "[]"] by auto
    obtain k where k: "k \<le> length xs" "length (log_bytes ?o (take k xs)) \<le> n - ?l"
        "k < length xs \<longrightarrow> n - ?l < length (log_bytes ?o (take (Suc k) xs))" "log_yields r' (take k xs)"
      using Cons.IH[OF r'(3)] by blast
    have "log_yields r (take (Suc k) (x # xs))" using ReadRecord_start_at[OF at] r' k(4) by simp
    then show ?thesis using k False by (intro exI[of _ "Suc k"]) (auto simp: log_bytes_Cons)
  qed
qed

lemma log_at_new:
  assumes "reads_from S rest" "never_fails S"
  shows "log_at rest (new_LogReader S g reporter checksum 0) (rest g) kBlockSize"
  using assms by (simp add: log_at_def new_LogReader_def)

lemma log_bytes_start: "log_bytes kBlockSize xs = log_bytes 0 xs"
proof (cases xs)
  case (Cons x xs')
  have r: "room kBlockSize = room 0" "head_off kBlockSize = head_off 0" "pad kBlockSize = pad 0"
    by (simp_all add: room_def head_off_def pad_def kBlockSize_def kHeaderSize_def)
  have "frags True kBlockSize x = frags True 0 x" by (subst (1 2) frags.simps) (simp only: r)
  moreover have "frag_off kBlockSize fs = frag_off 0 fs" "frag_bytes kBlockSize fs = frag_bytes 0 fs" if "fs \<noteq> []" for fs
    using that r by (cases fs; auto)+
  moreover have "frags True 0 x \<noteq> []" by (subst frags.simps) (simp add: Let_def)
  ultimately show ?thesis by (simp add: Cons log_bytes_Cons)
qed (simp add: log_bytes_def)

section \<open>The properties\<close>

text \<open>C29. Reading returns on every file, also on arbitrary contents and when reads fail: \<open>ReadRecord\<close> always
  comes to a record or to the end. The hypothesis is the promise of \<^verbatim>\<open>SequentialFile\<close> that a read
  which succeeds returns the next bytes.\<close>

theorem log_reader_returns:
  assumes "reads_from (lr_ops r) rest"
  shows "\<exists>res. ReadRecord r = Some res"
proof -
  have "lr_ops (snd (SkipToInitialBlock r)) = lr_ops r"
    by (simp add: SkipToInitialBlock_def Let_def split: prod.split)
  then have "ReadRecord_loop False 0 [] [] (snd (SkipToInitialBlock r)) \<noteq> None"
    using assms by (intro ReadRecord_loop_returns) simp
  moreover have "ReadRecord_loop False 0 [] [] r \<noteq> None" using assms by (rule ReadRecord_loop_returns)
  ultimately show ?thesis by (auto simp: ReadRecord_def Let_def split: prod.split)
qed

text \<open>C20. A log survives a crash of its writer. Of a file that holds any prefix of what the writer wrote for the
  records \<open>xs\<close>, the reader returns exactly the records that are completely in the prefix, in their order,
  and then the end of the file; it reports no corruption, with and without checksums. For the whole file
  these are all records. The writer's appends have succeeded, those that fill blocks included.\<close>

theorem log_crash_safe:
  assumes W: "appends_to W contents" "trailers_ok W" and empty: "contents f = []"
    and written: "AddRecords xs (new_LogWriter W f 0) = (s, w)" "Status_ok s"
    and S: "reads_from S rest" "never_fails S" and prefix: "rest g = take n (contents (lw_dest w))"
  shows "\<exists>k \<le> length xs. (length (contents (lw_dest w)) \<le> n \<longrightarrow> k = length xs) \<and>
    length (log_bytes 0 (take k xs)) \<le> n \<and> (k < length xs \<longrightarrow> n < length (log_bytes 0 (take (Suc k) xs))) \<and>
    log_yields (new_LogReader S g reporter checksum 0) (take k xs)"
proof -
  have at: "writer_at (new_LogWriter W f 0) 0" using writer_at_new[of "[]" W f] by simp
  have c: "contents (lw_dest w) = log_bytes 0 xs"
    using AddRecords_ok[OF W _ at written] empty by (simp add: new_LogWriter_def)
  have "log_at rest (new_LogReader S g reporter checksum 0) (take n (log_bytes kBlockSize xs)) kBlockSize"
    using log_at_new[OF S, of g reporter checksum] prefix c by (simp add: log_bytes_start)
  from yields_prefix[OF this] obtain k where k: "k \<le> length xs" "length (log_bytes 0 (take k xs)) \<le> n"
      "k < length xs \<longrightarrow> n < length (log_bytes 0 (take (Suc k) xs))"
      "log_yields (new_LogReader S g reporter checksum 0) (take k xs)"
    unfolding log_bytes_start by blast
  have "k = length xs" if "length (contents (lw_dest w)) \<le> n"
  proof (rule ccontr)
    assume "k \<noteq> length xs"
    then have "n < length (log_bytes 0 (take (Suc k) xs))" using k by simp
    moreover have "length (log_bytes 0 (take (Suc k) xs)) \<le> length (log_bytes 0 xs)"
      using log_bytes_append[of 0 "take (Suc k) xs" "drop (Suc k) xs"] by auto
    ultimately show False using that c by simp
  qed
  then show ?thesis using k by blast
qed

text \<open>A file in memory, for the witnesses.\<close>

definition memory_reader :: "slice SequentialFile" where
  "memory_reader = \<lparr>sf_Read = (\<lambda>n f. (Status_OK, take n f, drop n f)), sf_Skip = (\<lambda>n f. (Status_OK, drop (unat n) f))\<rparr>"

lemma memory_files:
  "appends_to memory_writer id" "trailers_ok memory_writer" "reads_from memory_reader id" "never_fails memory_reader"
  by (auto simp: memory_writer_def memory_reader_def appends_to_def trailers_ok_def reads_from_def never_fails_def)

theorem log_reader_returns_witness:
  "\<exists>res. ReadRecord (new_LogReader memory_reader (replicate 40 77) True True 3) = Some res"
  using log_reader_returns[of "new_LogReader memory_reader (replicate 40 77) True True 3" id] memory_files(3)
  by (simp add: new_LogReader_def)

lemma memory_writes: "Status_ok (fst (AddRecords xs (new_LogWriter memory_writer f n)))"
proof -
  have emit: "lw_ops w = memory_writer \<Longrightarrow> Status_ok (fst (EmitPhysicalRecord t d w)) \<and>
      lw_ops (snd (EmitPhysicalRecord t d w)) = memory_writer" for t d and w :: "slice LogWriter"
    by (simp add: EmitPhysicalRecord_def Let_def memory_writer_def)
  have switch: "lw_ops (switch_block w) = lw_ops w" for w :: "slice LogWriter" by (simp add: switch_block_def Let_def)
  have loop: "lw_ops w = memory_writer \<Longrightarrow> Status_ok (fst (AddRecord_loop b ptr w)) \<and>
      lw_ops (snd (AddRecord_loop b ptr w)) = memory_writer" for b ptr and w :: "slice LogWriter"
  proof (induction b ptr w rule: AddRecord_loop.induct)
    case (1 b ptr w)
    define n where "n = (if length ptr < avail (switch_block w) then length ptr else avail (switch_block w))"
    obtain s w2 where e: "EmitPhysicalRecord (fragment_type b (length ptr = n)) (take n ptr) (switch_block w) = (s, w2)" by fastforce
    then have s: "Status_ok s" "lw_ops w2 = memory_writer"
      using emit[of "switch_block w" "fragment_type b (length ptr = n)" "take n ptr"] switch[of w] 1(2) by simp_all
    show ?case using 1(1)[OF refl n_def refl e[symmetric] refl refl] s e
      by (subst (1 2) AddRecord_loop.simps) (simp add: Let_def flip: n_def)
  qed
  have "lw_ops w = memory_writer \<Longrightarrow> Status_ok (fst (AddRecords xs w))" for w :: "slice LogWriter"
  proof (induction xs arbitrary: w)
    case (Cons x xs)
    then show ?case using loop[of w True x] by (auto simp: AddRecord_def split: prod.split)
  qed simp
  then show ?thesis by (simp add: new_LogWriter_def)
qed

theorem log_crash_safe_witness:
  "log_yields (new_LogReader memory_reader (take 12 (lw_dest (snd (AddRecords [[1, 2, 3], []] (new_LogWriter memory_writer [] 0))))) True True 0)
     [[1, 2, 3]]"
proof -
  let ?xs = "[[1, 2, 3], []] :: slice list"
  obtain s w where w: "AddRecords ?xs (new_LogWriter memory_writer [] 0) = (s, w)" by fastforce
  have ok: "Status_ok s" using memory_writes[of ?xs "[]" 0] w by simp
  obtain k where k: "k \<le> length ?xs" "length (log_bytes 0 (take k ?xs)) \<le> 12"
      "k < length ?xs \<longrightarrow> 12 < length (log_bytes 0 (take (Suc k) ?xs))"
      "log_yields (new_LogReader memory_reader (take 12 (lw_dest w)) True True 0) (take k ?xs)"
    using log_crash_safe[OF memory_files(1,2) _ w ok memory_files(3,4), of "take 12 (lw_dest w)" 12 True True] by auto
  have one: "frags True 0 [1, 2, 3] = [(kFullType, [1, 2, 3])]" "frags True 10 [] = [(kFullType, [])]"
    by (subst frags.simps, simp add: Let_def room_def head_off_def kBlockSize_def kHeaderSize_def fragment_type_def)+
  have l: "length (log_bytes 0 [[1, 2, 3]]) = 10" "length (log_bytes 0 ?xs) = 17"
    by (simp_all add: log_bytes_def one head_off_def pad_def kBlockSize_def kHeaderSize_def)
  have "k = 0 \<or> k = 1 \<or> k = 2" using k(1) by auto
  then have "k = 1" using k(2,3) l by auto
  then show ?thesis using k(4) w by simp
qed

text \<open>C28. Damage is detected: when checksums are verified, a physical record whose payload has changed within
  four consecutive bytes is never returned. The rest of the block is dropped and reported.\<close>

theorem log_damage_detected:
  assumes r: "lr_checksum r" "lr_reporter r" "lr_initial_offset r = 0"
    and len: "length (a @ w @ b) < 65536" "length w = 4" "length w' = 4" "w \<noteq> w'"
    and buffer: "lr_buffer r = take kHeaderSize (phys t (a @ w @ b)) @ a @ w' @ b @ x"
  shows "\<exists>r'. ReadPhysicalRecord result r = (kBadRecord, result, r') \<and> lr_buffer r' = [] \<and>
    lr_reports r' = lr_reports r @ [(of_nat (length (lr_buffer r)), Corruption (text_bytes ''checksum mismatch'') [])]"
proof -
  let ?d = "a @ w @ b" and ?d' = "a @ w' @ b"
  let ?h = "take kHeaderSize (phys t ?d) @ a @ w' @ b @ x"
  have l: "length ?d' = length ?d" using len by simp
  have h3: "?h ! 4 = of_nat (length ?d mod 256)" "?h ! 5 = of_nat (length ?d div 256)" "?h ! 6 = of_nat (record_number t)"
    using len by (simp_all add: phys_def nth_append kHeaderSize_def)
  have d6: "drop 6 ?h = of_nat (record_number t) # ?d' @ x" by (simp add: phys_def kHeaderSize_def)
  have h4: "take (1 + length ?d) (drop 6 ?h) = of_nat (record_number t) # ?d'" unfolding d6 l[symmetric] by simp
  note h = h3 h4
  have "DecodeFixed32 ?h = Mask (crc32c 0 (of_nat (record_number t) # ?d))"
    by (simp add: phys_def kHeaderSize_def)
  then have crc: "crc_Value 0 (of_nat (record_number t) # ?d') \<noteq> Unmask (DecodeFixed32 ?h)"
    using burst_changes_crc[OF len(2-4), of 0 "of_nat (record_number t) # a" b]
    by (simp add: crc_Value_def Extend_correct)
  have n: "kHeaderSize + length ?d \<le> length ?h" using len by (simp add: kHeaderSize_def)
  have nz: "w \<noteq> []" using len(2) by auto
  have "parse_physical result r = (kBadRecord, result, ReportCorruption (of_nat (length ?h)) ''checksum mismatch'' (r\<lparr>lr_buffer := []\<rparr>))"
    unfolding parse_physical_def Let_def buffer h type_byte length_bytes[OF len(1)] using r(1) crc n nz by (simp add: not_less)
  moreover have "kHeaderSize \<le> length (lr_buffer r)" using n unfolding buffer by linarith
  ultimately show ?thesis using r by (simp add: Physical_parse ReportCorruption_def ReportDrop_def buffer)
qed

theorem log_damage_detected_witness:
  "\<exists>r'. ReadPhysicalRecord [] ((new_LogReader memory_reader [] True True 0)
      \<lparr>lr_buffer := take kHeaderSize (phys kFullType [1, 2, 3, 4, 5]) @ [1, 2, 3, 0, 5]\<rparr>) = (kBadRecord, [], r')"
  using log_damage_detected[of "(new_LogReader memory_reader [] True True 0)
      \<lparr>lr_buffer := take kHeaderSize (phys kFullType [1, 2, 3, 4, 5]) @ [1, 2, 3, 0, 5]\<rparr>" "[1]" "[2, 3, 4, 5]" "[]"
      "[2, 3, 0, 5]" kFullType "[]" "[]"]
  by (auto simp: new_LogReader_def)

end
