(* ===== verification/Ldb_Block.thy ===== *)
theory Ldb_Block
  imports Ldb_Format Ldb_Status
begin

text \<open>
  The blocks of a table: \<^verbatim>\<open>table/block_builder.cc\<close> and \<^verbatim>\<open>table/block.cc\<close>.

  The builder is a record with the members of the class; the option it uses, the restart
  interval, is a member too. An iterator is a record with the members of \<^verbatim>\<open>Block::Iter\<close>; its value,
  a slice of the block, is kept as offset and length, because the code computes the next entry
  from the end of the value. Numbers of type \<^verbatim>\<open>uint32_t\<close> are words.

  The loops over the entries end on arbitrary contents: each step moves the offset of the next
  entry forward, also when the lengths of a corrupt entry wrap around. The binary search of
  \<open>Seek\<close> computes its middle in 32 bits and is a partial function.
\<close>

section \<open>Building a block\<close>

record BlockBuilder =
  bb_interval :: nat
  bb_buffer :: slice
  bb_restarts :: "32 word list"
  bb_counter :: nat
  bb_finished :: bool
  bb_last_key :: slice

definition new_BlockBuilder :: "nat \<Rightarrow> BlockBuilder" where
  "new_BlockBuilder interval =
     \<lparr>bb_interval = interval, bb_buffer = [], bb_restarts = [0], bb_counter = 0, bb_finished = False, bb_last_key = []\<rparr>"

definition BlockBuilder_Reset :: "BlockBuilder \<Rightarrow> BlockBuilder" where
  "BlockBuilder_Reset b =
     b\<lparr>bb_buffer := [], bb_restarts := [0], bb_counter := 0, bb_finished := False, bb_last_key := []\<rparr>"

definition CurrentSizeEstimate :: "BlockBuilder \<Rightarrow> nat" where
  "CurrentSizeEstimate b = length (bb_buffer b) + length (bb_restarts b) * 4 + 4"

definition BlockBuilder_Finish :: "BlockBuilder \<Rightarrow> slice \<times> BlockBuilder" where
  "BlockBuilder_Finish b =
     (let buffer = fold (\<lambda>r buffer. PutFixed32 buffer r) (bb_restarts b) (bb_buffer b);
          buffer = PutFixed32 buffer (of_nat (length (bb_restarts b)))
      in (buffer, b\<lparr>bb_buffer := buffer, bb_finished := True\<rparr>))"

definition shared_length :: "slice \<Rightarrow> slice \<Rightarrow> nat" where
  "shared_length last_key key = diff_loop (min (length last_key) (length key)) last_key key 0"

definition BlockBuilder_Add :: "slice \<Rightarrow> slice \<Rightarrow> BlockBuilder \<Rightarrow> BlockBuilder" where
  "BlockBuilder_Add key val b =
     (let restart = \<not> bb_counter b < bb_interval b;
          shared = (if restart then 0 else shared_length (bb_last_key b) key);
          restarts = (if restart then bb_restarts b @ [of_nat (length (bb_buffer b))] else bb_restarts b);
          counter = (if restart then 0 else bb_counter b);
          non_shared = length key - shared;
          buffer = PutVarint32 (PutVarint32 (PutVarint32 (bb_buffer b) (of_nat shared)) (of_nat non_shared))
                     (of_nat (length val));
          buffer = buffer @ take non_shared (drop shared key) @ val
      in b\<lparr>bb_restarts := restarts, bb_buffer := buffer,
           bb_last_key := take shared (bb_last_key b) @ take non_shared (drop shared key),
           bb_counter := counter + 1\<rparr>)"

section \<open>Reading a block\<close>

record Block =
  blk_data :: slice
  blk_size :: nat
  blk_restart_offset :: "32 word"

definition NumRestarts :: "slice \<Rightarrow> nat \<Rightarrow> 32 word" where
  "NumRestarts data sz = DecodeFixed32 (drop (sz - 4) data)"

definition new_Block :: "slice \<Rightarrow> Block" where
  "new_Block contents =
     (let sz = length contents in
      if sz < 4 then \<lparr>blk_data = contents, blk_size = 0, blk_restart_offset = 0\<rparr>
      else let max_restarts_allowed = (sz - 4) div 4 in
        if unat (NumRestarts contents sz) > max_restarts_allowed
        then \<lparr>blk_data = contents, blk_size = 0, blk_restart_offset = 0\<rparr>
        else \<lparr>blk_data = contents, blk_size = sz,
              blk_restart_offset = of_nat (sz - unat (1 + NumRestarts contents sz) * 4)\<rparr>)"

definition DecodeEntry :: "slice \<Rightarrow> (32 word \<times> 32 word \<times> 32 word \<times> slice) option" where
  "DecodeEntry p =
     (if length p < 3 then None
      else let shared = ucast (p ! 0) :: 32 word; non_shared = ucast (p ! 1) :: 32 word;
               value_length = ucast (p ! 2) :: 32 word;
               decoded =
                 (if shared OR non_shared OR value_length < 128
                  then Some (shared, non_shared, value_length, drop 3 p)
                  else case GetVarint32Ptr p of None \<Rightarrow> None
                    | Some (shared, p) \<Rightarrow> (case GetVarint32Ptr p of None \<Rightarrow> None
                    | Some (non_shared, p) \<Rightarrow> (case GetVarint32Ptr p of None \<Rightarrow> None
                    | Some (value_length, p) \<Rightarrow> Some (shared, non_shared, value_length, p))))
           in case decoded of None \<Rightarrow> None
              | Some (shared, non_shared, value_length, p) \<Rightarrow>
                  if (of_nat (length p) :: 32 word) < non_shared + value_length then None
                  else Some (shared, non_shared, value_length, p))"

record BlockIter =
  bi_comparator :: Comparator
  bi_data :: slice
  bi_restarts :: "32 word"
  bi_num_restarts :: "32 word"
  bi_current :: "32 word"
  bi_restart_index :: "32 word"
  bi_key :: slice
  bi_value_off :: nat
  bi_value_len :: nat
  bi_status :: Status

definition new_BlockIter :: "Comparator \<Rightarrow> slice \<Rightarrow> 32 word \<Rightarrow> 32 word \<Rightarrow> BlockIter" where
  "new_BlockIter cmp data restarts num_restarts =
     \<lparr>bi_comparator = cmp, bi_data = data, bi_restarts = restarts, bi_num_restarts = num_restarts,
      bi_current = restarts, bi_restart_index = num_restarts, bi_key = [], bi_value_off = 0, bi_value_len = 0,
      bi_status = Status_OK\<rparr>"

definition bi_Valid :: "BlockIter \<Rightarrow> bool" where
  "bi_Valid it \<longleftrightarrow> bi_current it < bi_restarts it"

definition bi_value :: "BlockIter \<Rightarrow> slice" where
  "bi_value it = take (bi_value_len it) (drop (bi_value_off it) (bi_data it))"

definition NextEntryOffset :: "BlockIter \<Rightarrow> 32 word" where
  "NextEntryOffset it = of_nat (bi_value_off it + bi_value_len it)"

definition GetRestartPoint :: "BlockIter \<Rightarrow> 32 word \<Rightarrow> 32 word" where
  "GetRestartPoint it index = DecodeFixed32 (drop (unat (bi_restarts it) + unat index * 4) (bi_data it))"

definition SeekToRestartPoint :: "32 word \<Rightarrow> BlockIter \<Rightarrow> BlockIter" where
  "SeekToRestartPoint index it =
     it\<lparr>bi_key := [], bi_restart_index := index,
        bi_value_off := unat (GetRestartPoint it index), bi_value_len := 0\<rparr>"

definition CorruptionError :: "BlockIter \<Rightarrow> BlockIter" where
  "CorruptionError it =
     it\<lparr>bi_current := bi_restarts it, bi_restart_index := bi_num_restarts it,
        bi_status := Corruption (text_bytes ''bad entry in block'') [],
        bi_key := [], bi_value_off := 0, bi_value_len := 0\<rparr>"

lemma restart_measure: "(i :: 32 word) + 1 < n \<Longrightarrow> unat (n - 1 - (i + 1)) < unat (n - 1 - i)"
proof -
  assume "i + 1 < n"
  then have nz: "n - 1 - i \<noteq> 0" by (auto simp: algebra_simps)
  have "n - 1 - (i + 1) = (n - 1 - i) - 1" by simp
  then have "unat (n - 1 - (i + 1)) = unat (n - 1 - i) - 1" using unat_minus_one[OF nz] by simp
  moreover have "0 < unat (n - 1 - i)" using nz by (metis gr0I unat_eq_zero)
  ultimately show ?thesis by simp
qed

function advance_restart :: "BlockIter \<Rightarrow> 32 word \<Rightarrow> 32 word" where
  "advance_restart it restart_index =
     (if restart_index + 1 < bi_num_restarts it \<and> GetRestartPoint it (restart_index + 1) < bi_current it
      then advance_restart it (restart_index + 1) else restart_index)"
  by pat_completeness auto
termination
  by (relation "measure (\<lambda>(it, i). unat (bi_num_restarts it - 1 - i))")
     (simp, simp only: in_measure split_conv, rule restart_measure, blast)

declare advance_restart.simps [simp del]

definition ParseNextKey :: "BlockIter \<Rightarrow> bool \<times> BlockIter" where
  "ParseNextKey it =
     (let it = it\<lparr>bi_current := NextEntryOffset it\<rparr> in
      if bi_current it \<ge> bi_restarts it
      then (False, it\<lparr>bi_current := bi_restarts it, bi_restart_index := bi_num_restarts it\<rparr>)
      else let p = drop (unat (bi_current it)) (take (unat (bi_restarts it)) (bi_data it)) in
        case DecodeEntry p of
          None \<Rightarrow> (False, CorruptionError it)
        | Some (shared, non_shared, value_length, q) \<Rightarrow>
            if length (bi_key it) < unat shared then (False, CorruptionError it)
            else let q_off = unat (bi_current it) + (length p - length q);
                     it = it\<lparr>bi_key := take (unat shared) (bi_key it) @ take (unat non_shared) (drop q_off (bi_data it)),
                             bi_value_off := q_off + unat non_shared, bi_value_len := unat value_length\<rparr>
                 in (True, it\<lparr>bi_restart_index := advance_restart it (bi_restart_index it)\<rparr>))"

section \<open>Every step moves forward\<close>

lemma GetVarint32Ptr_shorter: "GetVarint32Ptr p = Some (v, q) \<Longrightarrow> length q < length p"
  using GetVarint32_suffix[of p v q] by (auto simp: GetVarint32_def)

lemma DecodeEntry_rest:
  assumes "DecodeEntry p = Some (s, n, v, q)"
  shows "length q < length p" "\<not> (of_nat (length q) :: 32 word) < n + v"
  using assms
  by (auto simp: DecodeEntry_def Let_def split: if_splits option.splits prod.splits dest!: GetVarint32Ptr_shorter)

lemma ParseNextKey_forward:
  assumes "ParseNextKey it = (True, it')"
  shows "bi_restarts it' = bi_restarts it" "unat (NextEntryOffset it) < unat (NextEntryOffset it')"
    "unat (NextEntryOffset it') \<le> unat (bi_restarts it)"
    "bi_current it' = NextEntryOffset it" "NextEntryOffset it < bi_restarts it"
    "bi_data it' = bi_data it" "bi_num_restarts it' = bi_num_restarts it" "bi_comparator it' = bi_comparator it"
proof -
  define c where "c = NextEntryOffset it"
  define p where "p = drop (unat c) (take (unat (bi_restarts it)) (bi_data it))"
  obtain s n v q where d: "DecodeEntry p = Some (s, n, v, q)"
    using assms by (auto simp: ParseNextKey_def Let_def c_def p_def split: if_splits option.splits)
  have c: "c < bi_restarts it" and it': "bi_value_off it' = unat c + (length p - length q) + unat n" "bi_value_len it' = unat v"
    "bi_restarts it' = bi_restarts it" "bi_current it' = c" "bi_data it' = bi_data it" "bi_num_restarts it' = bi_num_restarts it"
    "bi_comparator it' = bi_comparator it"
    using assms d by (auto simp: ParseNextKey_def Let_def c_def p_def split: if_splits)
  have lp: "unat c + length p \<le> unat (bi_restarts it)" using c by (auto simp: p_def word_less_nat_alt)
  then have "length q < 2 ^ 32" using DecodeEntry_rest(1)[OF d] unat_bound_32[of "bi_restarts it"] by simp
  then have nv: "unat (n + v) \<le> length q"
    using DecodeEntry_rest(2)[OF d] by (simp add: word_less_nat_alt unat_of_nat_32)
  let ?x = "unat c + (length p - length q)"
  have "NextEntryOffset it' = of_nat ?x + (n + v)" by (simp add: NextEntryOffset_def it')
  moreover have x: "?x + unat (n + v) < 2 ^ 32"
    using lp nv DecodeEntry_rest(1)[OF d] unat_bound_32[of "bi_restarts it"] by simp
  ultimately have u: "unat (NextEntryOffset it') = ?x + unat (n + v)"
    using unat_of_nat_32[of ?x] by (simp add: unat_word_ariths)
  show "unat (NextEntryOffset it) < unat (NextEntryOffset it')" "unat (NextEntryOffset it') \<le> unat (bi_restarts it)"
    using u lp nv DecodeEntry_rest(1)[OF d] by (simp_all add: c_def)
  show "bi_restarts it' = bi_restarts it" "bi_current it' = NextEntryOffset it" "NextEntryOffset it < bi_restarts it"
    "bi_data it' = bi_data it" "bi_num_restarts it' = bi_num_restarts it" "bi_comparator it' = bi_comparator it"
    using it' c c_def by auto
qed

lemma ParseNextKey_measure:
  "ParseNextKey it = (True, it') \<Longrightarrow>
   unat (bi_restarts it') - unat (NextEntryOffset it') < unat (bi_restarts it) - unat (NextEntryOffset it)"
  using ParseNextKey_forward[of it it'] by (simp add: word_less_nat_alt)

section \<open>The operations of the iterator\<close>

definition bi_Next :: "BlockIter \<Rightarrow> BlockIter" where
  "bi_Next it = snd (ParseNextKey it)"

function prev_restart :: "BlockIter \<Rightarrow> 32 word \<Rightarrow> 32 word \<Rightarrow> 32 word option" where
  "prev_restart it original restart_index =
     (if GetRestartPoint it restart_index \<ge> original
      then if restart_index = 0 then None else prev_restart it original (restart_index - 1)
      else Some restart_index)"
  by pat_completeness auto
termination
  by (relation "measure (\<lambda>(it, original, i). unat i)") (auto simp: unat_minus_one unat_gt_0)

function skip_until :: "32 word \<Rightarrow> BlockIter \<Rightarrow> BlockIter" where
  "skip_until limit it =
     (case ParseNextKey it of
        (False, it') \<Rightarrow> it'
      | (True, it') \<Rightarrow> if NextEntryOffset it' < limit then skip_until limit it' else it')"
  by pat_completeness auto
termination
  by (relation "measure (\<lambda>(limit, it). unat (bi_restarts it) - unat (NextEntryOffset it))")
     (auto intro: ParseNextKey_measure[OF sym])

definition bi_Prev :: "BlockIter \<Rightarrow> BlockIter" where
  "bi_Prev it =
     (let original = bi_current it in
      case prev_restart it original (bi_restart_index it) of
        None \<Rightarrow> it\<lparr>bi_current := bi_restarts it, bi_restart_index := bi_num_restarts it\<rparr>
      | Some restart_index \<Rightarrow> skip_until original (SeekToRestartPoint restart_index it))"

partial_function (option) seek_search :: "BlockIter \<Rightarrow> slice \<Rightarrow> 32 word \<Rightarrow> 32 word \<Rightarrow> 32 word option option" where
  "seek_search it target left right =
     (if left < right then
        let mid = (left + right + 1) div 2; region_offset = GetRestartPoint it mid in
        (case DecodeEntry (drop (unat region_offset) (take (unat (bi_restarts it)) (bi_data it))) of
           None \<Rightarrow> Some None
         | Some (shared, non_shared, value_length, q) \<Rightarrow>
             if shared \<noteq> 0 then Some None
             else if Compare (bi_comparator it)
                 (take (unat non_shared) (drop (unat (bi_restarts it) - length q) (bi_data it))) target < 0
             then seek_search it target mid right
             else seek_search it target left (mid - 1))
      else Some (Some left))"

function seek_linear :: "slice \<Rightarrow> BlockIter \<Rightarrow> BlockIter" where
  "seek_linear target it =
     (case ParseNextKey it of
        (False, it') \<Rightarrow> it'
      | (True, it') \<Rightarrow>
          if Compare (bi_comparator it') (bi_key it') target \<ge> 0 then it' else seek_linear target it')"
  by pat_completeness auto
termination
  by (relation "measure (\<lambda>(target, it). unat (bi_restarts it) - unat (NextEntryOffset it))")
     (auto intro: ParseNextKey_measure[OF sym])

declare prev_restart.simps [simp del] skip_until.simps [simp del] seek_linear.simps [simp del]

definition bi_Seek :: "slice \<Rightarrow> BlockIter \<Rightarrow> BlockIter option" where
  "bi_Seek target it =
     (case seek_search it target 0 (bi_num_restarts it - 1) of
        None \<Rightarrow> None
      | Some None \<Rightarrow> Some (CorruptionError it)
      | Some (Some left) \<Rightarrow> Some (seek_linear target (SeekToRestartPoint left it)))"

definition bi_SeekToFirst :: "BlockIter \<Rightarrow> BlockIter" where
  "bi_SeekToFirst it = snd (ParseNextKey (SeekToRestartPoint 0 it))"

definition bi_SeekToLast :: "BlockIter \<Rightarrow> BlockIter" where
  "bi_SeekToLast it = skip_until (bi_restarts it) (SeekToRestartPoint (bi_num_restarts it - 1) it)"

text \<open>\<^verbatim>\<open>NewIterator\<close> gives an iterator over the block, or an empty one with a status.\<close>

datatype NewIter = ErrorIterator Status | EmptyIterator | EntryIterator BlockIter

definition Block_NewIterator :: "Comparator \<Rightarrow> Block \<Rightarrow> NewIter" where
  "Block_NewIterator cmp b =
     (if blk_size b < 4 then ErrorIterator (Corruption (text_bytes ''bad block contents'') [])
      else let num_restarts = NumRestarts (blk_data b) (blk_size b) in
        if num_restarts = 0 then EmptyIterator
        else EntryIterator (new_BlockIter cmp (blk_data b) (blk_restart_offset b) num_restarts))"

section \<open>The layout of a block\<close>

text \<open>The entry with number \<open>j\<close> of the list \<open>kvs\<close> of keys and values: every \<open>R\<close>-th one has its full key, the
  others leave out what they share with the key before.\<close>

definition enc_entry :: "nat \<Rightarrow> slice \<Rightarrow> slice \<Rightarrow> slice" where
  "enc_entry s k v = EncodeVarint32 (of_nat s) @ EncodeVarint32 (of_nat (length k - s)) @
     EncodeVarint32 (of_nat (length v)) @ drop s k @ v"

definition shared_of :: "nat \<Rightarrow> (slice \<times> slice) list \<Rightarrow> nat \<Rightarrow> nat" where
  "shared_of R kvs j = (if j mod R = 0 then 0 else shared_length (fst (kvs ! (j - 1))) (fst (kvs ! j)))"

definition entry_at :: "nat \<Rightarrow> (slice \<times> slice) list \<Rightarrow> nat \<Rightarrow> slice" where
  "entry_at R kvs j = enc_entry (shared_of R kvs j) (fst (kvs ! j)) (snd (kvs ! j))"

definition entry_off :: "nat \<Rightarrow> (slice \<times> slice) list \<Rightarrow> nat \<Rightarrow> nat" where
  "entry_off R kvs j = length (concat (map (entry_at R kvs) [0..<j]))"

definition block_body :: "nat \<Rightarrow> (slice \<times> slice) list \<Rightarrow> slice" where
  "block_body R kvs = concat (map (entry_at R kvs) [0..<length kvs])"

definition nrestarts :: "nat \<Rightarrow> nat \<Rightarrow> nat" where
  "nrestarts R n = (if n = 0 then 1 else (n - 1) div R + 1)"

definition restart_list :: "nat \<Rightarrow> (slice \<times> slice) list \<Rightarrow> 32 word list" where
  "restart_list R kvs = map (\<lambda>i. of_nat (entry_off R kvs (i * R))) [0..<nrestarts R (length kvs)]"

definition bb_rep :: "BlockBuilder \<Rightarrow> nat \<Rightarrow> (slice \<times> slice) list \<Rightarrow> bool" where
  "bb_rep b R kvs \<longleftrightarrow> bb_interval b = R \<and> bb_buffer b = block_body R kvs \<and> bb_restarts b = restart_list R kvs \<and>
     bb_counter b = (if kvs = [] then 0 else (length kvs - 1) mod R + 1) \<and>
     bb_last_key b = (if kvs = [] then [] else fst (last kvs))"

lemma shared_length_spec:
  "take (shared_length a b) a = take (shared_length a b) b" "shared_length a b \<le> length a" "shared_length a b \<le> length b"
  using diff_loop_spec[of 0 "min (length a) (length b)" a b] by (simp_all add: shared_length_def)

lemma entry_at_append: "j < length kvs \<Longrightarrow> entry_at R (kvs @ kvs') j = entry_at R kvs j"
  by (simp add: entry_at_def shared_of_def nth_append less_imp_diff_less)

lemma entry_off_append: "j \<le> length kvs \<Longrightarrow> entry_off R (kvs @ kvs') j = entry_off R kvs j"
proof -
  assume "j \<le> length kvs"
  then have "map (entry_at R (kvs @ kvs')) [0..<j] = map (entry_at R kvs) [0..<j]"
    by (auto simp: entry_at_append)
  then show ?thesis unfolding entry_off_def by (rule arg_cong)
qed

lemma block_body_append: "block_body R (kvs @ [kv]) = block_body R kvs @ entry_at R (kvs @ [kv]) (length kvs)"
proof -
  have "map (entry_at R (kvs @ [kv])) [0..<length kvs] = map (entry_at R kvs) [0..<length kvs]"
    by (auto simp: entry_at_append)
  then have "concat (map (entry_at R (kvs @ [kv])) [0..<length kvs]) = block_body R kvs"
    unfolding block_body_def by (rule arg_cong)
  then show ?thesis by (simp add: block_body_def[of R "kvs @ [kv]"])
qed

lemma length_block_body: "length (block_body R kvs) = entry_off R kvs (length kvs)"
  by (simp add: block_body_def entry_off_def)

lemma nrestarts_Suc:
  "0 < R \<Longrightarrow> 0 < n \<Longrightarrow> nrestarts R (Suc n) = (if n mod R = 0 then Suc (nrestarts R n) else nrestarts R n)"
  using div_Suc[of "n - 1" R] by (simp add: nrestarts_def)

lemma restart_index_bound: "i < nrestarts R n \<Longrightarrow> 0 < R \<Longrightarrow> 0 < n \<Longrightarrow> i * R < n"
  by (auto simp: nrestarts_def less_Suc_eq_le) (metis Suc_pred le_imp_less_Suc less_eq_div_iff_mult_less_eq)

lemma nrestarts_mult: "0 < R \<Longrightarrow> 0 < n \<Longrightarrow> n mod R = 0 \<Longrightarrow> nrestarts R n * R = n"
  using div_Suc[of "n - 1" R] div_mult_mod_eq[of n R] by (simp add: nrestarts_def)

lemma bb_rep_new: "bb_rep (new_BlockBuilder R) R []"
  by (simp add: bb_rep_def new_BlockBuilder_def block_body_def restart_list_def nrestarts_def entry_off_def)

lemma bb_rep_Reset: "bb_rep b R kvs \<Longrightarrow> bb_rep (BlockBuilder_Reset b) R []"
  by (simp add: bb_rep_def BlockBuilder_Reset_def block_body_def restart_list_def nrestarts_def entry_off_def)

lemma restart_list_append:
  assumes "0 < R" "kvs \<noteq> []"
  shows "restart_list R (kvs @ [kv]) =
    restart_list R kvs @ (if length kvs mod R = 0 then [of_nat (length (block_body R kvs))] else [])"
proof -
  let ?n = "length kvs"
  have "map (\<lambda>i. of_nat (entry_off R (kvs @ [kv]) (i * R)) :: 32 word) [0..<nrestarts R ?n] =
      map (\<lambda>i. of_nat (entry_off R kvs (i * R))) [0..<nrestarts R ?n]"
    using restart_index_bound[of _ R ?n] assms by (auto simp: entry_off_append less_imp_le)
  then show ?thesis using assms nrestarts_Suc[of R ?n] nrestarts_mult[of R ?n]
    by (simp add: restart_list_def length_block_body entry_off_append)
qed

lemma bb_rep_Add:
  assumes "bb_rep b R kvs" "0 < R"
  shows "bb_rep (BlockBuilder_Add k v b) R (kvs @ [(k, v)])"
proof (cases "kvs = []")
  case True
  have "shared_length [] k = 0" using shared_length_spec(2)[of "[]" k] by simp
  then show ?thesis using assms True
    by (simp add: bb_rep_def BlockBuilder_Add_def Let_def block_body_def entry_at_def shared_of_def enc_entry_def
        PutVarint32_def restart_list_def nrestarts_def entry_off_def)
next
  case False
  let ?n = "length kvs"
  have c: "bb_counter b = (?n - 1) mod R + 1" and l: "bb_last_key b = fst (kvs ! (?n - 1))"
    using assms(1) False by (simp_all add: bb_rep_def last_conv_nth)
  have m: "?n mod R = (if (?n - 1) mod R + 1 = R then 0 else (?n - 1) mod R + 1)"
    using mod_Suc[of "?n - 1" R] False by simp
  have "(?n - 1) mod R + 1 \<le> R" using assms(2) by (simp add: Suc_leI)
  then have restart: "bb_counter b < R \<longleftrightarrow> ?n mod R \<noteq> 0" using c m by (auto simp: le_less)
  have sh: "shared_of R (kvs @ [(k, v)]) ?n = (if bb_counter b < R then shared_length (bb_last_key b) k else 0)"
    using restart l False by (simp add: shared_of_def nth_append)
  have R: "bb_interval b = R" using assms(1) by (simp add: bb_rep_def)
  let ?s = "shared_of R (kvs @ [(k, v)]) ?n"
  have key: "take ?s (bb_last_key b) @ drop ?s k = k"
    using shared_length_spec(1)[of "bb_last_key b" k] sh by auto
  have buf: "bb_buffer (BlockBuilder_Add k v b) = block_body R (kvs @ [(k, v)])"
    using assms(1) sh R by (simp add: BlockBuilder_Add_def Let_def bb_rep_def block_body_append entry_at_def enc_entry_def PutVarint32_def)
  moreover have "bb_restarts (BlockBuilder_Add k v b) = restart_list R (kvs @ [(k, v)])"
    using assms restart False R by (simp add: BlockBuilder_Add_def Let_def bb_rep_def restart_list_append)
  moreover have "bb_last_key (BlockBuilder_Add k v b) = k"
    using key sh R by (simp add: BlockBuilder_Add_def Let_def split: if_splits)
  moreover have "bb_counter (BlockBuilder_Add k v b) = ?n mod R + 1"
    using restart c m R by (simp add: BlockBuilder_Add_def Let_def)
  ultimately show ?thesis using R by (simp add: bb_rep_def BlockBuilder_Add_def Let_def)
qed

lemma bb_rep_Finish:
  "bb_rep b R kvs \<Longrightarrow> fst (BlockBuilder_Finish b) =
     block_body R kvs @ concat (map EncodeFixed32 (restart_list R kvs)) @ EncodeFixed32 (of_nat (nrestarts R (length kvs)))"
  by (simp add: BlockBuilder_Finish_def Let_def fold_PutFixed32 bb_rep_def) (simp add: PutFixed32_def restart_list_def)

section \<open>Decoding the entries of a block\<close>

lemma less_128_or: "(x OR y :: 32 word) < 128 \<longleftrightarrow> x < 128 \<and> y < 128"
proof -
  have t: "(z :: 32 word) < 128 \<longleftrightarrow> drop_bit 7 z = 0" for z
    by (simp add: word_less_nat_alt word_unat_eq_iff unat_drop_bit div_eq_0_iff)
  show ?thesis unfolding t by (simp add: or_eq_0_iff)
qed

lemma varint_first_byte:
  "ucast (hd (EncodeVarint32 v)) < (128 :: 32 word) \<longleftrightarrow> unat v < 128"
  "unat v < 128 \<Longrightarrow> EncodeVarint32 v = [ucast v]"
proof -
  show "unat v < 128 \<Longrightarrow> EncodeVarint32 v = [ucast v]" by (simp add: EncodeVarint32_eq vbytes_Cons)
  have "ucast (ucast v :: byte) = v" if "unat v < 128" using ucast_of_nat_8[of "unat v", where 'a = 32] that by simp
  then show "ucast (hd (EncodeVarint32 v)) < (128 :: 32 word) \<longleftrightarrow> unat v < 128"
    by (cases "unat v < 128")
       (auto simp: EncodeVarint32_eq vbytes_Cons word_less_nat_alt ucast_of_nat_8 unat_of_nat_32 unat_of_nat_8
         simp del: of_nat_add)
qed

lemma EncodeVarint32_Cons: "EncodeVarint32 v = hd (EncodeVarint32 v) # tl (EncodeVarint32 v)"
  by (simp add: EncodeVarint32_eq)

lemma DecodeEntry_Encode_eq:
  "DecodeEntry (EncodeVarint32 a @ EncodeVarint32 b @ EncodeVarint32 c @ r) =
     (if of_nat (length r) < b + c then None else Some (a, b, c, r))"
proof -
  let ?p = "EncodeVarint32 a @ EncodeVarint32 b @ EncodeVarint32 c @ r"
  have len: "1 \<le> length (EncodeVarint32 v)" for v by (subst EncodeVarint32_Cons) simp
  have lp: "\<not> length ?p < 3" using len[of a] len[of b] len[of c] by simp
  have slow: "GetVarint32Ptr ?p = Some (a, EncodeVarint32 b @ EncodeVarint32 c @ r)" by (simp add: coding_simps)
  show ?thesis
  proof (cases "unat a < 128 \<and> unat b < 128 \<and> unat c < 128")
    case True
    then have e: "?p = ucast a # ucast b # ucast c # r" by (simp add: varint_first_byte(2))
    have u: "ucast (ucast v :: byte) = v" if "unat v < 128" for v :: "32 word"
      using ucast_of_nat_8[of "unat v", where 'a = 32] that by simp
    have "a < 128" "b < 128" "c < 128" using True by (simp_all add: word_less_nat_alt)
    then have "a OR b OR c < 128" by (simp add: less_128_or)
    then show ?thesis unfolding e DecodeEntry_def using True u by (simp add: Let_def)
  next
    case False
    have "\<not> (ucast (?p ! 0) OR ucast (?p ! 1) OR ucast (?p ! 2) :: 32 word) < 128"
    proof
      assume *: "(ucast (?p ! 0) OR ucast (?p ! 1) OR ucast (?p ! 2) :: 32 word) < 128"
      have "?p ! 0 = hd (EncodeVarint32 a)" by (subst EncodeVarint32_Cons) simp
      with * have a: "unat a < 128" by (simp add: less_128_or varint_first_byte(1))
      then have "?p ! 1 = hd (EncodeVarint32 b)"
        using varint_first_byte(2)[OF a] by (subst (2) EncodeVarint32_Cons) simp
      with * have b: "unat b < 128" by (simp add: less_128_or varint_first_byte(1))
      then have "?p ! 2 = hd (EncodeVarint32 c)"
        using varint_first_byte(2)[OF a] varint_first_byte(2)[OF b] by (subst (3) EncodeVarint32_Cons) simp
      with * have "unat c < 128" by (simp add: less_128_or varint_first_byte(1))
      with a b False show False by simp
    qed
    then show ?thesis using lp slow by (simp add: DecodeEntry_def Let_def coding_simps)
  qed
qed

lemma DecodeEntry_Encode:
  assumes "unat b + unat c \<le> length r" "length r < 2 ^ 32"
  shows "DecodeEntry (EncodeVarint32 a @ EncodeVarint32 b @ EncodeVarint32 c @ r) = Some (a, b, c, r)"
proof -
  have "unat (b + c) = unat b + unat c" using assms by (simp add: unat_word_ariths)
  then have "\<not> (of_nat (length r) :: 32 word) < b + c" using assms by (simp add: word_less_nat_alt unat_of_nat_32)
  then show ?thesis by (simp add: DecodeEntry_Encode_eq)
qed

section \<open>Iterators on a block with known entries\<close>

definition iter_on :: "BlockIter \<Rightarrow> nat \<Rightarrow> (slice \<times> slice) list \<Rightarrow> bool" where
  "iter_on it R kvs \<longleftrightarrow> 0 < R \<and>
     (\<exists>tail. bi_data it = block_body R kvs @ concat (map EncodeFixed32 (restart_list R kvs)) @ tail) \<and>
     bi_restarts it = of_nat (length (block_body R kvs)) \<and> length (block_body R kvs) < 2 ^ 32 \<and>
     bi_num_restarts it = of_nat (nrestarts R (length kvs)) \<and> nrestarts R (length kvs) < 2 ^ 31 \<and>
     (\<forall>kv \<in> set kvs. length (fst kv) < 2 ^ 32)"

lemma entry_off_Suc: "entry_off R kvs (Suc j) = entry_off R kvs j + length (entry_at R kvs j)"
  by (simp add: entry_off_def)

lemma entry_at_pos: "0 < length (entry_at R kvs j)"
  by (simp add: entry_at_def enc_entry_def) (simp add: EncodeVarint32_eq)

lemma entry_off_less: "i < j \<Longrightarrow> entry_off R kvs i < entry_off R kvs j"
proof (induction j)
  case (Suc j)
  have "entry_off R kvs j < entry_off R kvs (Suc j)" using entry_at_pos by (simp add: entry_off_Suc)
  then show ?case using Suc by (cases "i = j") auto
qed simp

lemma entry_off_less_iff: "entry_off R kvs i < entry_off R kvs j \<longleftrightarrow> i < j"
  by (metis entry_off_less linorder_less_linear not_less_iff_gr_or_eq)

lemma entry_off_le_iff: "entry_off R kvs i \<le> entry_off R kvs j \<longleftrightarrow> i \<le> j"
  by (meson leD le_less_linear entry_off_less entry_off_less_iff)

lemma block_body_split:
  assumes "j < length kvs"
  shows "\<exists>rest. drop (entry_off R kvs j) (block_body R kvs) = entry_at R kvs j @ rest \<and>
    length rest = length (block_body R kvs) - entry_off R kvs (Suc j)"
proof -
  have "[0..<length kvs] = [0..<j] @ j # [Suc j..<length kvs]"
    using assms by (metis less_imp_le_nat upt_conv_Cons zero_le upt_add_eq_append le_add_diff_inverse add.left_neutral)
  then have "block_body R kvs = concat (map (entry_at R kvs) [0..<j]) @ entry_at R kvs j @
      concat (map (entry_at R kvs) [Suc j..<length kvs])" (is "_ = ?a @ _ @ ?rest")
    by (simp add: block_body_def)
  then show ?thesis by (intro exI[of _ ?rest]) (simp add: entry_off_Suc entry_off_def)
qed

lemma entry_off_word:
  assumes "iter_on it R kvs" "i \<le> length kvs"
  shows "unat (of_nat (entry_off R kvs i) :: 32 word) = entry_off R kvs i" "entry_off R kvs i \<le> length (block_body R kvs)"
proof -
  show "entry_off R kvs i \<le> length (block_body R kvs)" using assms(2) by (simp add: length_block_body entry_off_le_iff)
  then show "unat (of_nat (entry_off R kvs i) :: 32 word) = entry_off R kvs i"
    using assms(1) by (intro unat_of_nat_32) (simp add: iter_on_def)
qed

lemma entry_off_word_less:
  assumes "iter_on it R kvs" "i \<le> length kvs" "j \<le> length kvs"
  shows "(of_nat (entry_off R kvs i) :: 32 word) < of_nat (entry_off R kvs j) \<longleftrightarrow> i < j"
  using entry_off_word(1)[OF assms(1)] assms by (simp add: word_less_nat_alt entry_off_less_iff)

lemma restarts_word: "iter_on it R kvs \<Longrightarrow> bi_restarts it = of_nat (entry_off R kvs (length kvs))"
  by (simp add: iter_on_def length_block_body)

lemma iter_on_index:
  assumes "iter_on it R kvs" "r < nrestarts R (length kvs)"
  shows "unat (of_nat r :: 32 word) = r" "r * R \<le> length kvs" "r < 2 ^ 31"
proof -
  show "r < 2 ^ 31" using assms by (simp add: iter_on_def)
  then show "unat (of_nat r :: 32 word) = r" by (intro unat_of_nat_32) simp
  show "r * R \<le> length kvs"
    using assms restart_index_bound[of r R "length kvs"] by (cases "kvs = []") (auto simp: iter_on_def nrestarts_def)
qed

lemma GetRestartPoint_on:
  assumes on: "iter_on it R kvs" and r: "r < nrestarts R (length kvs)"
  shows "GetRestartPoint it (of_nat r) = of_nat (entry_off R kvs (r * R))"
proof -
  obtain tail where d: "bi_data it = block_body R kvs @ concat (map EncodeFixed32 (restart_list R kvs)) @ tail"
    using on by (auto simp: iter_on_def)
  have n: "unat (bi_restarts it) = length (block_body R kvs)"
    using on entry_off_word(1)[OF on, of "length kvs"] by (simp add: iter_on_def length_block_body)
  have "r < length (restart_list R kvs)" using r by (simp add: restart_list_def)
  then obtain t where "drop (4 * r) (concat (map EncodeFixed32 (restart_list R kvs)) @ tail) =
      EncodeFixed32 (restart_list R kvs ! r) @ t"
    using drop_fixed32 by blast
  then show ?thesis using iter_on_index[OF on r] r
    by (simp add: GetRestartPoint_def d n mult.commute restart_list_def)
qed

lemma shared_of_le:
  assumes "j < length kvs"
  shows "shared_of R kvs j \<le> length (fst (kvs ! j))"
  using shared_length_spec(3) by (simp add: shared_of_def)

lemma entry_decodes:
  assumes on: "iter_on it R kvs" and j: "j < length kvs"
  defines "p \<equiv> drop (entry_off R kvs j) (take (unat (bi_restarts it)) (bi_data it))"
  defines "s \<equiv> shared_of R kvs j" and "k \<equiv> fst (kvs ! j)" and "v \<equiv> snd (kvs ! j)"
  shows "\<exists>q. DecodeEntry p = Some (of_nat s, of_nat (length k - s), of_nat (length v), q) \<and>
    unat (of_nat s :: 32 word) = s \<and> unat (of_nat (length k - s) :: 32 word) = length k - s \<and>
    unat (of_nat (length v) :: 32 word) = length v \<and>
    entry_off R kvs j + (length p - length q) + (length k - s) + length v = entry_off R kvs (Suc j) \<and>
    unat (bi_restarts it) - length q = entry_off R kvs j + (length p - length q) \<and>
    take (length k - s) (drop (entry_off R kvs j + (length p - length q)) (bi_data it)) = drop s k \<and>
    take (length v) (drop (entry_off R kvs j + (length p - length q) + (length k - s)) (bi_data it)) = v"
proof -
  obtain tail where d: "bi_data it = block_body R kvs @ tail" using on by (auto simp: iter_on_def)
  have n: "unat (bi_restarts it) = length (block_body R kvs)"
    using on entry_off_word(1)[OF on, of "length kvs"] by (simp add: iter_on_def length_block_body)
  obtain rest where rest: "drop (entry_off R kvs j) (block_body R kvs) = entry_at R kvs j @ rest"
      "length rest = length (block_body R kvs) - entry_off R kvs (Suc j)"
    using block_body_split[OF j] by blast
  let ?q = "drop s k @ v @ rest"
  let ?h = "EncodeVarint32 (of_nat s) @ EncodeVarint32 (of_nat (length k - s)) @ EncodeVarint32 (of_nat (length v))"
  have p: "p = ?h @ ?q" using rest(1) by (simp add: p_def d n entry_at_def enc_entry_def s_def k_def v_def)
  have len: "length (block_body R kvs) < 2 ^ 32" using on by (simp add: iter_on_def)
  have lp: "length p = length (block_body R kvs) - entry_off R kvs j" by (simp add: p_def d n)
  have kl: "length k < 2 ^ 32" using on j by (auto simp: iter_on_def k_def)
  have sk: "s \<le> length k" unfolding s_def k_def by (rule shared_of_le[OF j])
  have small: "length v < 2 ^ 32" "length ?q < 2 ^ 32" using lp len p by auto
  have u: "unat (of_nat s :: 32 word) = s" "unat (of_nat (length k - s) :: 32 word) = length k - s"
      "unat (of_nat (length v) :: 32 word) = length v"
    by (rule unat_of_nat_32, use kl sk small in simp)+
  have dec: "DecodeEntry p = Some (of_nat s, of_nat (length k - s), of_nat (length v), ?q)"
    unfolding p append_assoc by (rule DecodeEntry_Encode) (use u small in auto)
  have lq: "length p - length ?q = length ?h" by (simp add: p)
  have e: "entry_off R kvs (Suc j) = entry_off R kvs j + length ?h + (length k - s) + length v"
    by (simp add: entry_off_Suc entry_at_def enc_entry_def s_def k_def v_def)
  have oj: "entry_off R kvs j \<le> length (block_body R kvs)" using entry_off_word(2)[OF on] j by simp
  have rr: "unat (bi_restarts it) - length ?q = entry_off R kvs j + length ?h" using lp oj unfolding n p by simp
  have dd: "drop (entry_off R kvs j) (bi_data it) = ?h @ drop s k @ v @ rest @ tail"
    using oj rest(1) by (simp add: d entry_at_def enc_entry_def s_def k_def v_def)
  have d2: "drop (a + b) xs = drop b (drop a xs)" for a b and xs :: slice by (simp add: add.commute)
  have d3: "drop (entry_off R kvs j + length ?h) (bi_data it) = drop s k @ v @ rest @ tail"
    unfolding d2 dd by simp
  have d4: "drop (entry_off R kvs j + length ?h + (length k - s)) (bi_data it) = v @ rest @ tail"
    unfolding d2[of "entry_off R kvs j + length ?h"] d3 by simp
  show ?thesis
    by (intro exI[of _ ?q] conjI, rule dec, (rule u)+; unfold lq)
       (rule e[symmetric], rule rr, simp only: d3, simp, simp only: d4, simp)
qed

text \<open>The iterator stands on entry \<open>j\<close>, or is about to parse it. In both cases the restart index is
  that of a restart point at or before the entry.\<close>

definition index_ok :: "BlockIter \<Rightarrow> nat \<Rightarrow> (slice \<times> slice) list \<Rightarrow> nat \<Rightarrow> bool" where
  "index_ok it R kvs j \<longleftrightarrow>
     (\<exists>r < nrestarts R (length kvs). bi_restart_index it = of_nat r \<and> r * R \<le> j)"

definition at_entry :: "BlockIter \<Rightarrow> nat \<Rightarrow> (slice \<times> slice) list \<Rightarrow> nat \<Rightarrow> bool" where
  "at_entry it R kvs j \<longleftrightarrow> iter_on it R kvs \<and> j < length kvs \<and> index_ok it R kvs j \<and>
     bi_current it = of_nat (entry_off R kvs j) \<and> bi_key it = fst (kvs ! j) \<and> bi_value it = snd (kvs ! j) \<and>
     bi_value_off it + bi_value_len it = entry_off R kvs (Suc j)"

definition before_entry :: "BlockIter \<Rightarrow> nat \<Rightarrow> (slice \<times> slice) list \<Rightarrow> nat \<Rightarrow> bool" where
  "before_entry it R kvs j \<longleftrightarrow> iter_on it R kvs \<and> j \<le> length kvs \<and> index_ok it R kvs j \<and>
     bi_value_off it + bi_value_len it = entry_off R kvs j \<and>
     (j < length kvs \<longrightarrow> shared_of R kvs j \<le> length (bi_key it) \<and>
        take (shared_of R kvs j) (bi_key it) = take (shared_of R kvs j) (fst (kvs ! j)))"

definition at_end :: "BlockIter \<Rightarrow> nat \<Rightarrow> (slice \<times> slice) list \<Rightarrow> bool" where
  "at_end it R kvs \<longleftrightarrow> iter_on it R kvs \<and> bi_current it = bi_restarts it"

lemma iter_on_update [simp]:
  "iter_on (it\<lparr>bi_current := c\<rparr>) R kvs = iter_on it R kvs" "iter_on (it\<lparr>bi_restart_index := i\<rparr>) R kvs = iter_on it R kvs"
  "iter_on (it\<lparr>bi_key := key\<rparr>) R kvs = iter_on it R kvs" "iter_on (it\<lparr>bi_value_off := a\<rparr>) R kvs = iter_on it R kvs"
  "iter_on (it\<lparr>bi_value_len := l\<rparr>) R kvs = iter_on it R kvs"
  by (simp_all add: iter_on_def)

lemma GetRestartPoint_update [simp]:
  "GetRestartPoint (it\<lparr>bi_current := c\<rparr>) = GetRestartPoint it" "GetRestartPoint (it\<lparr>bi_key := key\<rparr>) = GetRestartPoint it"
  "GetRestartPoint (it\<lparr>bi_value_off := a\<rparr>) = GetRestartPoint it" "GetRestartPoint (it\<lparr>bi_value_len := l\<rparr>) = GetRestartPoint it"
  by (simp_all add: GetRestartPoint_def fun_eq_iff)

lemma advance_restart_ok:
  assumes on: "iter_on it R kvs" and cur: "bi_current it = of_nat (entry_off R kvs j)" "j < length kvs"
  shows "r < nrestarts R (length kvs) \<Longrightarrow> r * R \<le> j \<Longrightarrow>
    \<exists>r' < nrestarts R (length kvs). advance_restart it (of_nat r) = of_nat r' \<and> r' * R \<le> j"
proof (induction "nrestarts R (length kvs) - r" arbitrary: r)
  case 0
  then show ?case by simp
next
  case (Suc d)
  let ?n = "nrestarts R (length kvs)"
  have num: "bi_num_restarts it = of_nat ?n" "?n < 2 ^ 31" using on by (auto simp: iter_on_def)
  have w: "(of_nat r + 1 :: 32 word) = of_nat (Suc r)" by simp
  have lt: "of_nat (Suc r) < bi_num_restarts it \<longleftrightarrow> Suc r < ?n"
    using num Suc.prems(1) by (simp add: word_less_nat_alt unat_of_nat_32 del: of_nat_Suc)
  show ?case
  proof (cases "Suc r < ?n \<and> GetRestartPoint it (of_nat (Suc r)) < bi_current it")
    case True
    then have "Suc r * R < j"
      using entry_off_word_less[OF on, of "Suc r * R" j] iter_on_index(2)[OF on, of "Suc r"] cur
        GetRestartPoint_on[OF on, of "Suc r"] by (simp del: of_nat_Suc)
    then have "\<exists>r' < ?n. advance_restart it (of_nat (Suc r)) = of_nat r' \<and> r' * R \<le> j"
      using Suc.hyps True by (intro Suc.hyps(1)) auto
    then show ?thesis using True lt by (subst advance_restart.simps) (simp only: w, auto simp del: of_nat_Suc)
  next
    case False
    then show ?thesis using lt Suc.prems by (subst advance_restart.simps) (simp only: w, auto simp del: of_nat_Suc)
  qed
qed

lemma Parse_entry:
  assumes b: "before_entry it R kvs j" and j: "j < length kvs"
  shows "\<exists>it'. ParseNextKey it = (True, it') \<and> at_entry it' R kvs j \<and> bi_status it' = bi_status it"
proof -
  have on: "iter_on it R kvs" and v: "bi_value_off it + bi_value_len it = entry_off R kvs j"
    and sh: "shared_of R kvs j \<le> length (bi_key it)"
      "take (shared_of R kvs j) (bi_key it) = take (shared_of R kvs j) (fst (kvs ! j))"
    using b j by (auto simp: before_entry_def)
  obtain r where r: "r < nrestarts R (length kvs)" "bi_restart_index it = of_nat r" "r * R \<le> j"
    using b by (auto simp: before_entry_def index_ok_def)
  define c where "c = NextEntryOffset it"
  have c: "c = of_nat (entry_off R kvs j)" "unat c = entry_off R kvs j" "c < bi_restarts it"
    using v entry_off_word(1)[OF on] entry_off_word_less[OF on, of j "length kvs"] j
    by (simp_all add: c_def NextEntryOffset_def restarts_word[OF on])
  define p where "p = drop (entry_off R kvs j) (take (unat (bi_restarts it)) (bi_data it))"
  define s where "s = shared_of R kvs j"
  define k where "k = fst (kvs ! j)"
  obtain q where q: "DecodeEntry p = Some (of_nat s, of_nat (length k - s), of_nat (length (snd (kvs ! j))), q)"
     "unat (of_nat s :: 32 word) = s" "unat (of_nat (length k - s) :: 32 word) = length k - s"
     "unat (of_nat (length (snd (kvs ! j))) :: 32 word) = length (snd (kvs ! j))"
     "entry_off R kvs j + (length p - length q) + (length k - s) + length (snd (kvs ! j)) = entry_off R kvs (Suc j)"
     "take (length k - s) (drop (entry_off R kvs j + (length p - length q)) (bi_data it)) = drop s k"
     "take (length (snd (kvs ! j))) (drop (entry_off R kvs j + (length p - length q) + (length k - s)) (bi_data it)) = snd (kvs ! j)"
    using entry_decodes[OF on j] unfolding p_def[symmetric] s_def[symmetric] k_def[symmetric] by blast
  let ?o = "entry_off R kvs j + (length p - length q)"
  define it1 where "it1 = it\<lparr>bi_current := c, bi_key := k, bi_value_off := ?o + (length k - s),
      bi_value_len := length (snd (kvs ! j))\<rparr>"
  have key: "take s (bi_key it) @ drop s k = k" using sh unfolding s_def k_def by simp
  have parse: "ParseNextKey it = (True, it1\<lparr>bi_restart_index := advance_restart it1 (bi_restart_index it)\<rparr>)"
    using c(3) q(1-4,6) sh(1) key
    by (simp add: ParseNextKey_def Let_def c(2) p_def[symmetric] it1_def s_def[symmetric] flip: c_def del: of_nat_diff)
  have on1: "iter_on it1 R kvs" using on by (simp add: it1_def)
  obtain r' where r': "r' < nrestarts R (length kvs)" "advance_restart it1 (of_nat r) = of_nat r'" "r' * R \<le> j"
    using advance_restart_ok[OF on1 _ j r(1,3)] c(1) by (auto simp: it1_def)
  have "at_entry (it1\<lparr>bi_restart_index := advance_restart it1 (bi_restart_index it)\<rparr>) R kvs j"
    using on1 j r' q(5,7) c(1) unfolding r(2) by (auto simp: at_entry_def index_ok_def it1_def bi_value_def k_def)
  then show ?thesis using parse by (auto simp: it1_def)
qed

lemma Parse_end:
  assumes "before_entry it R kvs (length kvs)"
  shows "\<exists>it'. ParseNextKey it = (False, it') \<and> at_end it' R kvs \<and> bi_status it' = bi_status it"
proof -
  have on: "iter_on it R kvs" and v: "bi_value_off it + bi_value_len it = entry_off R kvs (length kvs)"
    using assms by (auto simp: before_entry_def)
  have "NextEntryOffset it = bi_restarts it" using v by (simp add: NextEntryOffset_def restarts_word[OF on])
  then show ?thesis using on by (simp add: ParseNextKey_def Let_def at_end_def)
qed

lemma before_next:
  assumes "at_entry it R kvs j"
  shows "before_entry it R kvs (Suc j)"
proof -
  have "shared_of R kvs (Suc j) \<le> length (fst (kvs ! j))"
    "take (shared_of R kvs (Suc j)) (fst (kvs ! j)) = take (shared_of R kvs (Suc j)) (fst (kvs ! Suc j))"
    using shared_length_spec(1,2) by (auto simp: shared_of_def)
  then show ?thesis using assms by (fastforce simp: at_entry_def before_entry_def index_ok_def)
qed

lemma before_restart:
  assumes on: "iter_on it R kvs" and r: "r < nrestarts R (length kvs)"
  shows "before_entry (SeekToRestartPoint (of_nat r) it) R kvs (r * R)"
proof -
  have "unat (GetRestartPoint it (of_nat r)) = entry_off R kvs (r * R)"
    using GetRestartPoint_on[OF on r] entry_off_word(1)[OF on iter_on_index(2)[OF on r]] by simp
  then show ?thesis using on r iter_on_index(2)[OF on r]
    by (auto simp: before_entry_def SeekToRestartPoint_def index_ok_def shared_of_def)
qed

section \<open>The operations move between the entries\<close>

text \<open>Position \<open>i\<close> is entry \<open>i\<close>, or the end when \<open>i\<close> is the number of entries.\<close>

definition stands_at :: "nat \<Rightarrow> (slice \<times> slice) list \<Rightarrow> BlockIter \<Rightarrow> nat \<Rightarrow> bool" where
  "stands_at R kvs it i \<longleftrightarrow>
     (if i < length kvs then at_entry it R kvs i else i = length kvs \<and> at_end it R kvs)"

lemma stands_on: "stands_at R kvs it i \<Longrightarrow> iter_on it R kvs"
  by (auto simp: stands_at_def at_entry_def at_end_def split: if_splits)

lemma at_entry_next: "at_entry it R kvs j \<Longrightarrow> NextEntryOffset it = of_nat (entry_off R kvs (Suc j))"
  by (simp add: at_entry_def NextEntryOffset_def)

lemma Parse_stands:
  assumes "before_entry it R kvs j"
  shows "\<exists>it'. ParseNextKey it = (j < length kvs, it') \<and> stands_at R kvs it' j \<and> bi_status it' = bi_status it"
proof (cases "j < length kvs")
  case True
  then show ?thesis using Parse_entry[OF assms] by (auto simp: stands_at_def)
next
  case False
  then have "j = length kvs" using assms by (simp add: before_entry_def)
  then show ?thesis using Parse_end[of it R kvs] assms by (auto simp: stands_at_def)
qed

lemma skip_until_entry:
  assumes "before_entry it R kvs j" "j < m" "m \<le> length kvs"
  shows "at_entry (skip_until (of_nat (entry_off R kvs m)) it) R kvs (m - 1) \<and>
    bi_status (skip_until (of_nat (entry_off R kvs m)) it) = bi_status it"
  using assms
proof (induction "m - j" arbitrary: j it)
  case (Suc d)
  obtain it' where it': "ParseNextKey it = (True, it')" "at_entry it' R kvs j" "bi_status it' = bi_status it"
    using Parse_entry[OF Suc.prems(1)] Suc.prems by auto
  have on: "iter_on it' R kvs" using it'(2) by (simp add: at_entry_def)
  have lt: "NextEntryOffset it' < of_nat (entry_off R kvs m) \<longleftrightarrow> Suc j < m"
    using at_entry_next[OF it'(2)] entry_off_word_less[OF on, of "Suc j" m] Suc.prems by simp
  show ?case
  proof (cases "Suc j < m")
    case True
    have "d = m - Suc j" using Suc.hyps(2) by simp
    from Suc.hyps(1)[OF this before_next[OF it'(2)] True Suc.prems(3)] show ?thesis
      using True lt it' by (subst (1 2) skip_until.simps) simp
  next
    case False
    then have "m - 1 = j" using Suc.prems by simp
    then show ?thesis using False lt it' by (subst (1 2) skip_until.simps) simp
  qed
qed simp

lemma prev_restart_ok:
  assumes on: "iter_on it R kvs" and j: "j \<le> length kvs"
  shows "r < nrestarts R (length kvs) \<Longrightarrow> r * R \<le> j \<Longrightarrow>
    (if j = 0 then prev_restart it (of_nat (entry_off R kvs j)) (of_nat r) = None
     else \<exists>r' < nrestarts R (length kvs). prev_restart it (of_nat (entry_off R kvs j)) (of_nat r) = Some (of_nat r') \<and> r' * R < j)"
proof (induction r)
  case 0
  have "of_nat (entry_off R kvs 0) \<ge> (of_nat (entry_off R kvs j) :: 32 word) \<longleftrightarrow> j = 0"
    using entry_off_word_less[OF on, of 0 j] j by (simp add: linorder_not_less[symmetric])
  then show ?case using GetRestartPoint_on[OF on 0(1)] 0
    by (subst (1 2) prev_restart.simps) (auto intro!: exI[of _ 0])
next
  case (Suc r)
  have "R > 0" using on by (simp add: iter_on_def)
  then have j0: "j \<noteq> 0" using Suc.prems by auto
  have ge: "of_nat (entry_off R kvs (Suc r * R)) \<ge> (of_nat (entry_off R kvs j) :: 32 word) \<longleftrightarrow> \<not> Suc r * R < j"
    using entry_off_word_less[OF on, of "Suc r * R" j] j Suc.prems(2) by (simp add: linorder_not_less[symmetric])
  have w: "(of_nat (Suc r) :: 32 word) - 1 = of_nat r" "(of_nat (Suc r) :: 32 word) \<noteq> 0"
    using iter_on_index(1)[OF on Suc.prems(1)] by (simp, metis nat.distinct(1) unat_0)
  show ?case
  proof (cases "Suc r * R < j")
    case True
    then show ?thesis using GetRestartPoint_on[OF on Suc.prems(1)] ge j0 Suc.prems(1)
      by (subst (1 2) prev_restart.simps) (auto simp del: of_nat_Suc mult_Suc)
  next
    case False
    have "r < nrestarts R (length kvs)" "r * R \<le> j" using Suc.prems by auto
    from Suc.IH[OF this] show ?thesis
      using False GetRestartPoint_on[OF on Suc.prems(1)] ge j0 w
      by (subst (1 2) prev_restart.simps) (simp del: of_nat_Suc mult_Suc)
  qed
qed

lemma Prev_stands:
  assumes "at_entry it R kvs j"
  shows "stands_at R kvs (bi_Prev it) (if j = 0 then length kvs else j - 1) \<and> bi_status (bi_Prev it) = bi_status it"
proof -
  have on: "iter_on it R kvs" and j: "j < length kvs" and cur: "bi_current it = of_nat (entry_off R kvs j)"
    using assms by (auto simp: at_entry_def)
  obtain r where r: "r < nrestarts R (length kvs)" "bi_restart_index it = of_nat r" "r * R \<le> j"
    using assms by (auto simp: at_entry_def index_ok_def)
  note pr = prev_restart_ok[OF on less_imp_le[OF j] r(1,3)]
  show ?thesis
  proof (cases "j = 0")
    case True
    then show ?thesis using pr on cur r(2) by (simp add: bi_Prev_def Let_def stands_at_def at_end_def)
  next
    case False
    then obtain r' where r': "r' < nrestarts R (length kvs)"
        "prev_restart it (bi_current it) (bi_restart_index it) = Some (of_nat r')" "r' * R < j"
      using pr cur r(2) by auto
    have "j - 1 < length kvs" using j by simp
    with skip_until_entry[OF before_restart[OF on r'(1)] r'(3) less_imp_le[OF j]] False r'(2) show ?thesis
      by (simp add: bi_Prev_def Let_def cur stands_at_def) (simp add: SeekToRestartPoint_def)
  qed
qed

lemma SeekToFirst_stands:
  assumes "iter_on it R kvs"
  shows "stands_at R kvs (bi_SeekToFirst it) 0 \<and> bi_status (bi_SeekToFirst it) = bi_status it"
proof -
  have "before_entry (SeekToRestartPoint 0 it) R kvs 0"
    using before_restart[OF assms, of 0] by (simp add: nrestarts_def)
  from Parse_stands[OF this] show ?thesis
    by (auto simp: bi_SeekToFirst_def) (simp add: SeekToRestartPoint_def)
qed

lemma SeekToLast_stands:
  assumes on: "iter_on it R kvs"
  shows "stands_at R kvs (bi_SeekToLast it) (length kvs - 1) \<and> bi_status (bi_SeekToLast it) = bi_status it"
proof -
  define r where "r = nrestarts R (length kvs) - 1"
  have r: "r < nrestarts R (length kvs)" "bi_num_restarts it - 1 = of_nat r"
    using on by (simp_all add: r_def iter_on_def nrestarts_def)
  note b = before_restart[OF on r(1)]
  show ?thesis
  proof (cases "kvs = []")
    case True
    then have "before_entry (SeekToRestartPoint (of_nat r) it) R kvs 0" using b r(1) by (simp add: nrestarts_def)
    from Parse_stands[OF this] show ?thesis unfolding bi_SeekToLast_def r(2) using True
      by (subst (1 2) skip_until.simps) (auto, simp add: SeekToRestartPoint_def)
  next
    case False
    have "r * R < length kvs"
      using restart_index_bound[OF r(1)] on False by (simp add: iter_on_def)
    from skip_until_entry[OF b this le_refl] show ?thesis unfolding bi_SeekToLast_def r(2) restarts_word[OF on]
      using False by (simp add: stands_at_def) (simp add: SeekToRestartPoint_def)
  qed
qed

lemma Next_stands:
  "at_entry it R kvs j \<Longrightarrow> stands_at R kvs (bi_Next it) (Suc j) \<and> bi_status (bi_Next it) = bi_status it"
  using Parse_stands[OF before_next] by (fastforce simp: bi_Next_def)

lemma restart_key:
  assumes on: "iter_on it R kvs" and r: "r < nrestarts R (length kvs)" and ne: "kvs \<noteq> []"
  shows "\<exists>v q. DecodeEntry (drop (unat (GetRestartPoint it (of_nat r))) (take (unat (bi_restarts it)) (bi_data it))) =
      Some (0, of_nat (length (fst (kvs ! (r * R)))), v, q) \<and>
    take (unat (of_nat (length (fst (kvs ! (r * R)))) :: 32 word)) (drop (unat (bi_restarts it) - length q) (bi_data it)) =
      fst (kvs ! (r * R))"
proof -
  have j: "r * R < length kvs" using restart_index_bound[OF r] on ne by (simp add: iter_on_def)
  have s: "shared_of R kvs (r * R) = 0" by (simp add: shared_of_def)
  have g: "unat (GetRestartPoint it (of_nat r)) = entry_off R kvs (r * R)"
    using GetRestartPoint_on[OF on r] entry_off_word(1)[OF on less_imp_le[OF j]] by simp
  show ?thesis using entry_decodes[OF on j] unfolding s g by (elim exE conjE) (intro exI conjI, simp, simp)
qed

lemma seek_search_ok:
  fixes target :: slice
  assumes on: "iter_on it R kvs"
  defines "lss \<equiv> \<lambda>r. Compare (bi_comparator it) (fst (kvs ! (r * R))) target < 0"
  shows "l \<le> r \<Longrightarrow> r < nrestarts R (length kvs) \<Longrightarrow> l = 0 \<or> lss l \<Longrightarrow>
    \<exists>l' < nrestarts R (length kvs). seek_search it target (of_nat l) (of_nat r) = Some (Some (of_nat l')) \<and> (l' = 0 \<or> lss l')"
proof (induction "r - l" arbitrary: l r rule: less_induct)
  case less
  have lt: "(of_nat l :: 32 word) < of_nat r \<longleftrightarrow> l < r"
    using iter_on_index(1)[OF on, of l] iter_on_index(1)[OF on, of r] less.prems by (simp add: word_less_nat_alt)
  show ?case
  proof (cases "l < r")
    case True
    define m where "m = (l + r + 1) div 2"
    have m: "l < m" "m \<le> r" "m < nrestarts R (length kvs)" "l + r + 1 < 2 ^ 32"
      using True less.prems iter_on_index(3)[OF on, of r] by (auto simp: m_def)
    have sum: "(of_nat l + of_nat r + 1 :: 32 word) = of_nat (l + r + 1)" by simp
    have mid: "(of_nat l + of_nat r + 1 :: 32 word) div 2 = of_nat m"
      unfolding sum word_arith_nat_div unat_of_nat_32[OF m(4)] by (simp add: m_def)
    have mm: "(of_nat m :: 32 word) - 1 = of_nat (m - 1)" using m(1) by simp
    have ne: "kvs \<noteq> []" using True less.prems by (auto simp: nrestarts_def)
    obtain v q where d: "DecodeEntry (drop (unat (GetRestartPoint it (of_nat m))) (take (unat (bi_restarts it)) (bi_data it))) =
        Some (0, of_nat (length (fst (kvs ! (m * R)))), v, q)"
      "take (unat (of_nat (length (fst (kvs ! (m * R)))) :: 32 word)) (drop (unat (bi_restarts it) - length q) (bi_data it)) =
        fst (kvs ! (m * R))"
      using restart_key[OF on m(3) ne] by blast
    have step: "seek_search it target (of_nat l) (of_nat r) =
        (if lss m then seek_search it target (of_nat m) (of_nat r) else seek_search it target (of_nat l) (of_nat (m - 1)))"
      using True lt d by (subst seek_search.simps) (simp add: Let_def mid mm lss_def del: of_nat_diff)
    show ?thesis
    proof (cases "lss m")
      case True
      then show ?thesis using less.hyps[of r m] m less.prems step by auto
    next
      case False
      then show ?thesis using less.hyps[of "m - 1" l] m less.prems step by auto
    qed
  next
    case False
    then show ?thesis using lt less.prems by (subst seek_search.simps) auto
  qed
qed

lemma seek_linear_stands:
  assumes "before_entry it R kvs j" "j \<le> m" "m \<le> length kvs"
    and "\<forall>i < length kvs. Compare (bi_comparator it) (fst (kvs ! i)) target < 0 \<longleftrightarrow> i < m"
  shows "stands_at R kvs (seek_linear target it) m \<and> bi_status (seek_linear target it) = bi_status it"
  using assms
proof (induction "m - j" arbitrary: j it)
  case 0
  then have j: "j = m" by simp
  obtain it' where it': "ParseNextKey it = (j < length kvs, it')" "stands_at R kvs it' j" "bi_status it' = bi_status it"
    using Parse_stands[OF 0(2)] by blast
  have "Compare (bi_comparator it') (bi_key it') target \<ge> 0" if "j < length kvs"
  proof -
    have "ParseNextKey it = (True, it')" using it'(1) that by simp
    then have "bi_comparator it' = bi_comparator it" by (rule ParseNextKey_forward(8))
    then show ?thesis using it'(2) that 0(5) j by (auto simp: stands_at_def at_entry_def not_less[symmetric])
  qed
  then show ?case using it' j by (subst (1 2) seek_linear.simps) (auto split: bool.splits)
next
  case (Suc d)
  then have j: "j < m" "j < length kvs" by auto
  obtain it' where it': "ParseNextKey it = (True, it')" "at_entry it' R kvs j" "bi_status it' = bi_status it"
    using Parse_entry[OF Suc.prems(1) j(2)] by blast
  have cmp: "bi_comparator it' = bi_comparator it" using it'(1) by (rule ParseNextKey_forward(8))
  then have less: "\<not> Compare (bi_comparator it') (bi_key it') target \<ge> 0"
    using it'(2) Suc.prems(4) j by (simp add: at_entry_def not_le)
  have "d = m - Suc j" using Suc.hyps(2) by simp
  from Suc.hyps(1)[OF this before_next[OF it'(2)]] j cmp Suc.prems(3,4) less it'(1,3) show ?case
    by (subst (1 2) seek_linear.simps) simp
qed

lemma Seek_stands:
  assumes on: "iter_on it R kvs" and order: "compare_order (Compare (bi_comparator it)) ok"
    and sorted: "sorted_wrt (\<lambda>x y. Compare (bi_comparator it) (fst x) (fst y) < 0) kvs"
    and ok: "\<forall>kv \<in> set kvs. ok (fst kv)" "ok target"
  shows "\<exists>it'. bi_Seek target it = Some it' \<and> bi_status it' = bi_status it \<and>
    stands_at R kvs it' (length (below (Compare (bi_comparator it)) target fst kvs))"
proof -
  let ?c = "Compare (bi_comparator it)"
  define m where "m = length (below ?c target fst kvs)"
  have cut: "kvs = below ?c target fst kvs @ upwards ?c target fst kvs"
    using compare_order.sorted_cut[OF order sorted ok] .
  have m: "?c (fst (kvs ! i)) target < 0 \<longleftrightarrow> i < m" if "i < length kvs" for i
  proof (cases "i < m")
    case True
    then have "kvs ! i \<in> set (below ?c target fst kvs)" by (subst cut) (simp add: nth_append m_def)
    then show ?thesis using True by (simp add: below_def)
  next
    case False
    have "length kvs = m + length (upwards ?c target fst kvs)" by (subst cut) (simp add: m_def)
    then have "kvs ! i \<in> set (upwards ?c target fst kvs)"
      using False that by (subst cut) (simp add: nth_append m_def)
    then show ?thesis using False by (simp add: upwards_def)
  qed
  have ml: "m \<le> length kvs" by (simp add: m_def below_def)
  define n where "n = nrestarts R (length kvs)"
  have n: "n - 1 < n" "bi_num_restarts it - 1 = of_nat (n - 1)"
    using on by (simp_all add: n_def iter_on_def nrestarts_def)
  obtain l where l: "l < n" "seek_search it target 0 (of_nat (n - 1)) = Some (Some (of_nat l))"
      "l = 0 \<or> ?c (fst (kvs ! (l * R))) target < 0"
    using seek_search_ok[OF on, of 0 "n - 1" target] n(1) unfolding n_def by (auto simp del: of_nat_diff)
  have "l * R \<le> m"
  proof (cases "l = 0")
    case False
    have "l * R < length kvs" using restart_index_bound[of l R "length kvs"] l(1) on False
      by (cases "kvs = []") (auto simp: iter_on_def n_def nrestarts_def)
    then show ?thesis using m l(3) False by (simp add: less_imp_le)
  qed simp
  moreover have "before_entry (SeekToRestartPoint (of_nat l) it) R kvs (l * R)"
    using before_restart[OF on] l(1) by (simp add: n_def)
  moreover have "bi_comparator (SeekToRestartPoint (of_nat l) it) = bi_comparator it"
      "bi_status (SeekToRestartPoint (of_nat l) it) = bi_status it"
    by (simp_all add: SeekToRestartPoint_def)
  ultimately show ?thesis
    using seek_linear_stands[of "SeekToRestartPoint (of_nat l) it" R kvs "l * R" m target] m ml l(2) n(2)
    by (simp add: bi_Seek_def flip: m_def)
qed

section \<open>From the builder to the iterator\<close>

lemma length_entry_at: "length (entry_at R kvs j) \<le> 15 + length (fst (kvs ! j)) + length (snd (kvs ! j))"
proof -
  have "length (EncodeVarint32 v) \<le> 5" for v
    using unat_bound_32[of v] by (simp add: EncodeVarint32_eq length_vbytes_le[of _ 5])
  from this[of "of_nat (shared_of R kvs j)"] this[of "of_nat (length (fst (kvs ! j)) - shared_of R kvs j)"]
    this[of "of_nat (length (snd (kvs ! j)))"]
  show ?thesis by (simp add: entry_at_def enc_entry_def del: of_nat_diff)
qed

lemma key_length_off: "j < length kvs \<Longrightarrow> length (fst (kvs ! j)) \<le> entry_off R kvs (Suc j)"
proof (induction j)
  case 0
  then show ?case by (simp add: entry_off_Suc entry_at_def enc_entry_def shared_of_def)
next
  case (Suc j)
  have "shared_of R kvs (Suc j) \<le> length (fst (kvs ! j))"
    using shared_length_spec(2) by (simp add: shared_of_def)
  with Suc have "shared_of R kvs (Suc j) \<le> entry_off R kvs (Suc j)" by simp
  moreover have "length (fst (kvs ! Suc j)) \<le> shared_of R kvs (Suc j) + length (entry_at R kvs (Suc j))"
    by (simp add: entry_at_def enc_entry_def)
  ultimately show ?case by (simp add: entry_off_Suc[of R kvs "Suc j"])
qed

definition build_block :: "nat \<Rightarrow> (slice \<times> slice) list \<Rightarrow> slice" where
  "build_block R kvs = fst (BlockBuilder_Finish (fold (\<lambda>(k, v). BlockBuilder_Add k v) kvs (new_BlockBuilder R)))"

lemma bb_rep_fold: "bb_rep b R xs \<Longrightarrow> 0 < R \<Longrightarrow> bb_rep (fold (\<lambda>(k, v). BlockBuilder_Add k v) kvs b) R (xs @ kvs)"
proof (induction kvs arbitrary: b xs)
  case (Cons kv kvs)
  then show ?case using Cons.IH[of "BlockBuilder_Add (fst kv) (snd kv) b" "xs @ [kv]"] bb_rep_Add[of b R xs "fst kv" "snd kv"]
    by (simp add: case_prod_beta)
qed simp

lemma build_block_eq:
  "0 < R \<Longrightarrow> build_block R kvs =
     block_body R kvs @ concat (map EncodeFixed32 (restart_list R kvs)) @ EncodeFixed32 (of_nat (nrestarts R (length kvs)))"
  using bb_rep_fold[OF bb_rep_new] by (simp add: build_block_def bb_rep_Finish)

lemma block_open:
  assumes R: "0 < R" and len: "length (build_block R kvs) < 2 ^ 32"
  shows "\<exists>it. Block_NewIterator C (new_Block (build_block R kvs)) = EntryIterator it \<and> stands_at R kvs it (length kvs) \<and>
    bi_status it = Status_OK \<and> bi_comparator it = C"
proof -
  define n where "n = nrestarts R (length kvs)"
  let ?rs = "concat (map EncodeFixed32 (restart_list R kvs))"
  let ?d = "build_block R kvs"
  have d: "?d = (block_body R kvs @ ?rs) @ EncodeFixed32 (of_nat n)" by (simp add: build_block_eq[OF R] n_def)
  have lr: "length ?rs = 4 * n" by (simp add: length_concat o_def restart_list_def sum_list_triv n_def)
  have ld: "length ?d = length (block_body R kvs) + 4 * n + 4" by (simp add: d lr)
  have n: "n < 2 ^ 30" "0 < n" using len ld by (auto simp: n_def nrestarts_def)
  have un: "unat (of_nat n :: 32 word) = n" "unat (1 + of_nat n :: 32 word) = n + 1"
    using n(1) unat_of_nat_32[of n] unat_of_nat_32[of "n + 1"] by (simp_all add: add.commute)
  have nr: "NumRestarts ?d (length ?d) = of_nat n"
  proof -
    have "drop (length ?d - 4) ?d = EncodeFixed32 (of_nat n)" by (subst (2) d) (simp add: ld lr)
    then show ?thesis using DecodeFixed32_Encode[of "of_nat n" "[]"] by (simp add: NumRestarts_def)
  qed
  have blk: "new_Block ?d = \<lparr>blk_data = ?d, blk_size = length ?d, blk_restart_offset = of_nat (length (block_body R kvs))\<rparr>"
    using un n by (simp add: new_Block_def Let_def nr) (simp add: ld)
  have "\<forall>kv \<in> set kvs. length (fst kv) < 2 ^ 32"
  proof
    fix kv assume "kv \<in> set kvs"
    then obtain j where j: "j < length kvs" "kv = kvs ! j" by (auto simp: in_set_conv_nth)
    have "length (fst kv) \<le> entry_off R kvs (length kvs)"
      using key_length_off[OF j(1), of R] j entry_off_le_iff[of R kvs "Suc j" "length kvs"] by fastforce
    then show "length (fst kv) < 2 ^ 32" using len ld length_block_body[of R kvs] by simp
  qed
  then have "iter_on (new_BlockIter C ?d (of_nat (length (block_body R kvs))) (of_nat n)) R kvs"
    using R len ld n by (simp add: iter_on_def new_BlockIter_def) (simp add: d n_def)
  moreover have "(of_nat n :: 32 word) \<noteq> 0" using un(1) n(2) by (metis unat_0 less_numeral_extra(3))
  ultimately show ?thesis using nr blk ld
    by (auto simp: Block_NewIterator_def Let_def stands_at_def at_end_def new_BlockIter_def)
qed

lemma comparator_Parse [simp]: "bi_comparator (snd (ParseNextKey it)) = bi_comparator it"
  by (simp add: ParseNextKey_def Let_def CorruptionError_def split: option.split prod.split)

lemma comparator_kept [simp]:
  "bi_comparator (SeekToRestartPoint r it) = bi_comparator it"
  "bi_comparator (skip_until limit it) = bi_comparator it"
  "bi_comparator (seek_linear target it) = bi_comparator it"
proof -
  show "bi_comparator (SeekToRestartPoint r it) = bi_comparator it" by (simp add: SeekToRestartPoint_def)
  show "bi_comparator (skip_until limit it) = bi_comparator it"
    by (induction limit it rule: skip_until.induct)
       (subst skip_until.simps, use comparator_Parse in \<open>auto split: prod.split bool.split simp: prod_eq_iff\<close>)
  show "bi_comparator (seek_linear target it) = bi_comparator it"
    by (induction target it rule: seek_linear.induct)
       (subst seek_linear.simps, use comparator_Parse in \<open>auto split: prod.split bool.split simp: prod_eq_iff\<close>)
qed

lemma comparator_ops [simp]:
  "bi_comparator (bi_Next it) = bi_comparator it" "bi_comparator (bi_Prev it) = bi_comparator it"
  "bi_comparator (bi_SeekToFirst it) = bi_comparator it" "bi_comparator (bi_SeekToLast it) = bi_comparator it"
  by (simp_all add: bi_Next_def bi_Prev_def Let_def bi_SeekToFirst_def bi_SeekToLast_def split: option.split)

lemma comparator_Seek: "bi_Seek target it = Some it' \<Longrightarrow> bi_comparator it' = bi_comparator it"
  by (auto simp: bi_Seek_def CorruptionError_def split: option.splits)

lemma stands_view:
  assumes "stands_at R kvs it i"
  shows "i \<le> length kvs" "bi_Valid it \<longleftrightarrow> i < length kvs" "i < length kvs \<Longrightarrow> (bi_key it, bi_value it) = kvs ! i"
proof -
  note on = stands_on[OF assms]
  show "i \<le> length kvs" using assms by (simp add: stands_at_def split: if_splits)
  show "bi_Valid it \<longleftrightarrow> i < length kvs"
    using assms entry_off_word_less[OF on, of i "length kvs"]
    by (auto simp: stands_at_def bi_Valid_def at_entry_def at_end_def restarts_word[OF on] split: if_splits)
  show "i < length kvs \<Longrightarrow> (bi_key it, bi_value it) = kvs ! i"
    using assms by (simp add: stands_at_def at_entry_def)
qed

definition block_at :: "Comparator \<Rightarrow> nat \<Rightarrow> (slice \<times> slice) list \<Rightarrow> BlockIter \<Rightarrow> nat \<Rightarrow> bool" where
  "block_at C R kvs it i \<longleftrightarrow> stands_at R kvs it i \<and> bi_status it = Status_OK \<and> bi_comparator it = C"

section \<open>The properties\<close>

text \<open>C26. A block written by the builder is read back by the iterator. Its position is a number, the number of
  entries when it is not valid; on a valid position it shows the entry with that number, and every operation
  moves the position as \<^verbatim>\<open>include/leveldb/iterator.h\<close> says: \<open>Seek\<close> goes to the first entry whose key is not
  before the target, by a binary search over the restart points and a scan, and always returns. The status
  stays OK. The block is smaller than 4 GiB, its keys are in strictly ascending order.\<close>

theorem block_iterator:
  assumes order: "compare_order (Compare C) ok" and R: "0 < R" and len: "length (build_block R kvs) < 2 ^ 32"
    and sorted: "sorted_wrt (\<lambda>x y. Compare C (fst x) (fst y) < 0) kvs" and ok: "\<forall>kv \<in> set kvs. ok (fst kv)"
  shows "\<exists>at it0. Block_NewIterator C (new_Block (build_block R kvs)) = EntryIterator it0 \<and> at it0 (length kvs) \<and>
    (\<forall>it i. at it i \<longrightarrow>
       i \<le> length kvs \<and> (bi_Valid it \<longleftrightarrow> i < length kvs) \<and> bi_status it = Status_OK \<and>
       (i < length kvs \<longrightarrow> (bi_key it, bi_value it) = kvs ! i \<and>
          at (bi_Next it) (i + 1) \<and> at (bi_Prev it) (if i = 0 then length kvs else i - 1)) \<and>
       at (bi_SeekToFirst it) 0 \<and> at (bi_SeekToLast it) (length kvs - 1) \<and>
       (\<forall>target. ok target \<longrightarrow>
          (\<exists>it'. bi_Seek target it = Some it' \<and> at it' (length (below (Compare C) target fst kvs)))))"
proof -
  obtain it0 where it0: "Block_NewIterator C (new_Block (build_block R kvs)) = EntryIterator it0"
      "stands_at R kvs it0 (length kvs)" "bi_status it0 = Status_OK" "bi_comparator it0 = C"
    using block_open[OF R len] by blast
  show ?thesis
  proof (rule exI[of _ "block_at C R kvs"], rule exI[of _ it0], intro conjI allI impI)
    fix it i assume at: "block_at C R kvs it i"
    then have at': "stands_at R kvs it i" and on: "iter_on it R kvs" using stands_on by (auto simp: block_at_def)
    show "i \<le> length kvs" "bi_Valid it \<longleftrightarrow> i < length kvs" using stands_view[OF at'] by blast+
    show "block_at C R kvs (bi_SeekToFirst it) 0" "block_at C R kvs (bi_SeekToLast it) (length kvs - 1)"
      using SeekToFirst_stands[OF on] SeekToLast_stands[OF on] at by (simp_all add: block_at_def)
    show "\<exists>it'. bi_Seek target it = Some it' \<and> block_at C R kvs it' (length (below (Compare C) target fst kvs))"
      if "ok target" for target
      using Seek_stands[OF on, of ok target] order sorted ok at comparator_Seek[of target it] that
      by (auto simp: block_at_def)
    show "(bi_key it, bi_value it) = kvs ! i" if "i < length kvs" using stands_view(3)[OF at' that] .
    have e: "at_entry it R kvs i" if "i < length kvs" using at' that by (simp add: stands_at_def)
    show "block_at C R kvs (bi_Next it) (i + 1)" "block_at C R kvs (bi_Prev it) (if i = 0 then length kvs else i - 1)"
      if "i < length kvs"
      using Next_stands[OF e[OF that]] Prev_stands[OF e[OF that]] at by (simp_all add: block_at_def)
  qed (use it0 in \<open>auto simp: block_at_def\<close>)
qed

theorem block_iterator_witness:
  "\<exists>it0 it'. Block_NewIterator BytewiseComparator (new_Block (build_block 2 [([1, 2], [7]), ([1, 3], []), ([2], [8, 9])])) = EntryIterator it0 \<and>
     bi_Seek [1, 4] it0 = Some it' \<and> bi_Valid it' \<and> (bi_key it', bi_value it') = ([2], [8, 9])"
proof -
  define kvs :: "(slice \<times> slice) list" where kvs: "kvs = [([1, 2], [7]), ([1, 3], []), ([2], [8, 9])]"
  have cut: "length (below (Compare BytewiseComparator) [1, 4] fst kvs) = 2" unfolding kvs by code_simp
  have "length (block_body 2 kvs) \<le> 60"
    using length_entry_at[of 2 kvs 0] length_entry_at[of 2 kvs 1] length_entry_at[of 2 kvs 2]
    by (simp add: block_body_def kvs numeral_2_eq_2)
  then have len: "length (build_block 2 kvs) < 2 ^ 32"
    by (simp add: build_block_eq length_concat o_def restart_list_def sum_list_triv) (simp add: nrestarts_def kvs)
  have sorted: "sorted_wrt (\<lambda>x y. Compare BytewiseComparator (fst x) (fst y) < 0) kvs" unfolding kvs by code_simp
  obtain at it0 where it0: "Block_NewIterator BytewiseComparator (new_Block (build_block 2 kvs)) = EntryIterator it0"
      "at it0 (length kvs)"
    and at: "\<And>it i. at it i \<Longrightarrow> bi_Valid it \<longleftrightarrow> i < length kvs"
      "\<And>it i. at it i \<Longrightarrow> i < length kvs \<Longrightarrow> (bi_key it, bi_value it) = kvs ! i"
      "\<And>it i target. at it i \<Longrightarrow>
         \<exists>it'. bi_Seek target it = Some it' \<and> at it' (length (below (Compare BytewiseComparator) target fst kvs))"
    using block_iterator[OF bytewise.compare_order_axioms _ len sorted] by auto
  obtain it' where it': "bi_Seek [1, 4] it0 = Some it'" "at it' 2" using at(3)[OF it0(2), of "[1, 4]"] cut by auto
  have "bi_Valid it'" "(bi_key it', bi_value it') = ([2], [8, 9])"
    using at(1,2)[OF it'(2)] by (simp_all add: kvs)
  then show ?thesis using it0(1) it'(1) unfolding kvs by blast
qed

text \<open>What \<open>DecodeEntry\<close> accepts after the three lengths: it adds the length of the key and that of the value in
  32 bits. Two lengths whose sum wraps around pass the test whatever is left of the block, so that the entry
  reaches past the end of the block.\<close>

theorem decode_entry_wraps:
  "DecodeEntry (EncodeVarint32 shared @ EncodeVarint32 non_shared @ EncodeVarint32 value_length @ rest) =
     (if of_nat (length rest) < non_shared + value_length then None
      else Some (shared, non_shared, value_length, rest)) \<and>
   DecodeEntry (EncodeVarint32 shared @ EncodeVarint32 non_shared @ EncodeVarint32 (- non_shared) @ []) =
     Some (shared, non_shared, - non_shared, [])"
  by (simp only: DecodeEntry_Encode_eq) simp

end
