(* ===== verification/Ldb_Iterator.thy ===== *)
theory Ldb_Iterator
  imports Ldb_Block
begin

text \<open>
  The interface \<^verbatim>\<open>include/leveldb/iterator.h\<close> and the wrapper of \<^verbatim>\<open>table/iterator_wrapper.h\<close>.

  An implementation of the interface is a record of functions on its own type of states. A call that does not
  return is \<open>None\<close>. The locale \<open>sorted_iterator\<close> is the contract: the iterator moves over a list of entries with
  strictly ascending keys. Its parameter \<open>at\<close> relates a state to the entries and to the position in them, the
  number of entries when the iterator is not valid. The iterators over blocks are an interpretation; the wrapper
  carries the contract over.
\<close>

record 'i Iterator =
  it_Valid :: "'i \<Rightarrow> bool"
  it_SeekToFirst :: "'i \<Rightarrow> 'i option"
  it_SeekToLast :: "'i \<Rightarrow> 'i option"
  it_Seek :: "slice \<Rightarrow> 'i \<Rightarrow> 'i option"
  it_Next :: "'i \<Rightarrow> 'i option"
  it_Prev :: "'i \<Rightarrow> 'i option"
  it_key :: "'i \<Rightarrow> slice"
  it_value :: "'i \<Rightarrow> slice"
  it_status :: "'i \<Rightarrow> Status"

type_synonym entries = "(slice \<times> slice) list"

definition ascending :: "(slice \<Rightarrow> slice \<Rightarrow> int) \<Rightarrow> (slice \<Rightarrow> bool) \<Rightarrow> entries \<Rightarrow> bool" where
  "ascending compare ok kvs \<longleftrightarrow> compare_order compare ok \<and> (\<forall>kv \<in> set kvs. ok (fst kv)) \<and>
     sorted_wrt (\<lambda>x y. compare (fst x) (fst y) < 0) kvs"

lemma ascending_Cons:
  "ascending compare ok (x # kvs) \<longleftrightarrow>
     ascending compare ok kvs \<and> ok (fst x) \<and> (\<forall>y \<in> set kvs. compare (fst x) (fst y) < 0)"
  by (auto simp: ascending_def)

lemma ascending_append:
  "ascending compare ok (xs @ ys) \<longleftrightarrow>
     ascending compare ok xs \<and> ascending compare ok ys \<and> (\<forall>x \<in> set xs. \<forall>y \<in> set ys. compare (fst x) (fst y) < 0)"
  by (auto simp: ascending_def sorted_wrt_append)

lemma ascending_drop: "ascending compare ok kvs \<Longrightarrow> ascending compare ok (drop j kvs)"
  by (metis append_take_drop_id ascending_append)

lemma ascending_take: "ascending compare ok kvs \<Longrightarrow> ascending compare ok (take j kvs)"
  by (metis append_take_drop_id ascending_append)

lemma below_key:
  assumes asc: "ascending compare ok kvs" and j: "j < length kvs"
  shows "length (below compare (fst (kvs ! j)) fst kvs) = j"
proof -
  have order: "compare_order compare ok" and okj: "ok (fst (kvs ! j))" using asc j by (auto simp: ascending_def)
  have "kvs = take j kvs @ kvs ! j # drop (Suc j) kvs" using j by (simp add: id_take_nth_drop)
  then have parts: "ascending compare ok (take j kvs @ kvs ! j # drop (Suc j) kvs)" using asc by simp
  have lo: "below compare (fst (kvs ! j)) fst (take j kvs) = take j kvs"
    unfolding below_def using parts by (intro filter_True) (auto simp: ascending_append)
  have "\<not> compare (fst x) (fst (kvs ! j)) < 0" if "x \<in> set (drop (Suc j) kvs)" for x
  proof -
    have "compare (fst (kvs ! j)) (fst x) < 0" "ok (fst x)"
      using parts that by (simp_all add: ascending_append ascending_Cons) (simp add: ascending_def)
    then show ?thesis using compare_order.swap[OF order okj, of "fst x"] by simp
  qed
  then have hi: "below compare (fst (kvs ! j)) fst (drop (Suc j) kvs) = []" by (simp add: below_def filter_empty_conv)
  have "below compare (fst (kvs ! j)) fst kvs = below compare (fst (kvs ! j)) fst (take j kvs @ kvs ! j # drop (Suc j) kvs)"
    using j by (simp add: id_take_nth_drop[symmetric])
  also have "\<dots> = take j kvs"
    using lo hi compare_order.refl[OF order okj] by (simp add: below_def)
  finally show ?thesis using j by simp
qed

locale sorted_iterator =
  fixes I :: "'i Iterator" and compare :: "slice \<Rightarrow> slice \<Rightarrow> int" and ok :: "slice \<Rightarrow> bool"
    and at :: "'i \<Rightarrow> entries \<Rightarrow> nat \<Rightarrow> bool"
  assumes ascending: "at it kvs i \<Longrightarrow> ascending compare ok kvs"
    and bound: "at it kvs i \<Longrightarrow> i \<le> length kvs"
    and Valid: "at it kvs i \<Longrightarrow> it_Valid I it \<longleftrightarrow> i < length kvs"
    and entry: "at it kvs i \<Longrightarrow> i < length kvs \<Longrightarrow> (it_key I it, it_value I it) = kvs ! i"
    and status: "at it kvs i \<Longrightarrow> it_status I it = Status_OK"
    and SeekToFirst: "at it kvs i \<Longrightarrow> \<exists>it'. it_SeekToFirst I it = Some it' \<and> at it' kvs 0"
    and SeekToLast: "at it kvs i \<Longrightarrow> \<exists>it'. it_SeekToLast I it = Some it' \<and> at it' kvs (length kvs - 1)"
    and Seek: "at it kvs i \<Longrightarrow> ok target \<Longrightarrow>
      \<exists>it'. it_Seek I target it = Some it' \<and> at it' kvs (length (below compare target fst kvs))"
    and Next: "at it kvs i \<Longrightarrow> i < length kvs \<Longrightarrow> \<exists>it'. it_Next I it = Some it' \<and> at it' kvs (Suc i)"
    and Prev: "at it kvs i \<Longrightarrow> i < length kvs \<Longrightarrow>
      \<exists>it'. it_Prev I it = Some it' \<and> at it' kvs (if i = 0 then length kvs else i - 1)"
begin

lemma key: "at it kvs i \<Longrightarrow> i < length kvs \<Longrightarrow> it_key I it = fst (kvs ! i)"
  by (metis entry fst_conv)

lemma val: "at it kvs i \<Longrightarrow> i < length kvs \<Longrightarrow> it_value I it = snd (kvs ! i)"
  by (metis entry snd_conv)

end

section \<open>The iterators over blocks\<close>

definition block_iterators :: "BlockIter Iterator" where
  "block_iterators =
     \<lparr>it_Valid = bi_Valid, it_SeekToFirst = (\<lambda>it. Some (bi_SeekToFirst it)),
      it_SeekToLast = (\<lambda>it. Some (bi_SeekToLast it)), it_Seek = bi_Seek, it_Next = (\<lambda>it. Some (bi_Next it)),
      it_Prev = (\<lambda>it. Some (bi_Prev it)), it_key = bi_key, it_value = bi_value, it_status = bi_status\<rparr>"

definition block_pos :: "Comparator \<Rightarrow> (slice \<Rightarrow> bool) \<Rightarrow> BlockIter \<Rightarrow> entries \<Rightarrow> nat \<Rightarrow> bool" where
  "block_pos C ok it kvs i \<longleftrightarrow> (\<exists>R. block_at C R kvs it i) \<and> ascending (Compare C) ok kvs"

interpretation block_iters: sorted_iterator block_iterators "Compare C" ok "block_pos C ok" for C ok
proof
  fix it kvs i assume pos: "block_pos C ok it kvs i"
  then obtain R where at: "stands_at R kvs it i" "bi_status it = Status_OK" "bi_comparator it = C"
    and asc: "ascending (Compare C) ok kvs"
    by (auto simp: block_pos_def block_at_def)
  note on = stands_on[OF at(1)] and view = stands_view[OF at(1)]
  have mk: "block_pos C ok it' kvs j" if "stands_at R kvs it' j \<and> bi_status it' = bi_status it" "bi_comparator it' = C" for it' j
    using that at(2) asc by (auto simp: block_pos_def block_at_def)
  show "ascending (Compare C) ok kvs" by (rule asc)
  show "i \<le> length kvs" using view by simp
  show "it_Valid block_iterators it \<longleftrightarrow> i < length kvs" using view by (simp add: block_iterators_def)
  show "(it_key block_iterators it, it_value block_iterators it) = kvs ! i" if "i < length kvs"
    using view that by (simp add: block_iterators_def)
  show "it_status block_iterators it = Status_OK" using at(2) by (simp add: block_iterators_def)
  show "\<exists>it'. it_SeekToFirst block_iterators it = Some it' \<and> block_pos C ok it' kvs 0"
    using mk[OF SeekToFirst_stands[OF on]] at(3) by (simp add: block_iterators_def)
  show "\<exists>it'. it_SeekToLast block_iterators it = Some it' \<and> block_pos C ok it' kvs (length kvs - 1)"
    using mk[OF SeekToLast_stands[OF on]] at(3) by (simp add: block_iterators_def)
  show "\<exists>it'. it_Seek block_iterators target it = Some it' \<and> block_pos C ok it' kvs (length (below (Compare C) target fst kvs))"
    if okt: "ok target" for target
  proof -
    obtain it' where found: "bi_Seek target it = Some it'" "bi_status it' = bi_status it"
      "stands_at R kvs it' (length (below (Compare C) target fst kvs))"
      using Seek_stands[OF on, of ok target] asc[unfolded ascending_def] okt unfolding at(3) by blast
    then have "block_pos C ok it' kvs (length (below (Compare C) target fst kvs))"
      using mk[of it'] comparator_Seek[OF found(1)] at(3) by simp
    then show ?thesis using found(1) by (simp add: block_iterators_def)
  qed
  assume i: "i < length kvs"
  then have e: "at_entry it R kvs i" using at(1) by (simp add: stands_at_def)
  show "\<exists>it'. it_Next block_iterators it = Some it' \<and> block_pos C ok it' kvs (Suc i)"
    using mk[OF Next_stands[OF e]] at(3) by (simp add: block_iterators_def)
  show "\<exists>it'. it_Prev block_iterators it = Some it' \<and> block_pos C ok it' kvs (if i = 0 then length kvs else i - 1)"
    using mk[OF Prev_stands[OF e]] at(3) by (simp add: block_iterators_def del: if_split)
qed

text \<open>What \<^verbatim>\<open>Block::NewIterator\<close> returns.\<close>

definition opened_iterators :: "NewIter Iterator" where
  "opened_iterators =
     \<lparr>it_Valid = (\<lambda>n. case n of EntryIterator it \<Rightarrow> bi_Valid it | _ \<Rightarrow> False),
      it_SeekToFirst = (\<lambda>n. case n of EntryIterator it \<Rightarrow> Some (EntryIterator (bi_SeekToFirst it)) | _ \<Rightarrow> Some n),
      it_SeekToLast = (\<lambda>n. case n of EntryIterator it \<Rightarrow> Some (EntryIterator (bi_SeekToLast it)) | _ \<Rightarrow> Some n),
      it_Seek = (\<lambda>target n. case n of EntryIterator it \<Rightarrow> map_option EntryIterator (bi_Seek target it) | _ \<Rightarrow> Some n),
      it_Next = (\<lambda>n. case n of EntryIterator it \<Rightarrow> Some (EntryIterator (bi_Next it)) | _ \<Rightarrow> None),
      it_Prev = (\<lambda>n. case n of EntryIterator it \<Rightarrow> Some (EntryIterator (bi_Prev it)) | _ \<Rightarrow> None),
      it_key = (\<lambda>n. case n of EntryIterator it \<Rightarrow> bi_key it | _ \<Rightarrow> []),
      it_value = (\<lambda>n. case n of EntryIterator it \<Rightarrow> bi_value it | _ \<Rightarrow> []),
      it_status = (\<lambda>n. case n of EntryIterator it \<Rightarrow> bi_status it | EmptyIterator \<Rightarrow> Status_OK | ErrorIterator s \<Rightarrow> s)\<rparr>"

definition opened_at :: "Comparator \<Rightarrow> (slice \<Rightarrow> bool) \<Rightarrow> NewIter \<Rightarrow> entries \<Rightarrow> nat \<Rightarrow> bool" where
  "opened_at C ok n kvs i \<longleftrightarrow> (\<exists>it. n = EntryIterator it \<and> block_pos C ok it kvs i)"

interpretation opened_iters: sorted_iterator opened_iterators "Compare C" ok "opened_at C ok" for C ok
proof
  fix n kvs i assume "opened_at C ok n kvs i"
  then obtain it where n: "n = EntryIterator it" and at: "block_pos C ok it kvs i" by (auto simp: opened_at_def)
  note facts = n opened_iterators_def opened_at_def block_iterators_def
  show "ascending (Compare C) ok kvs" "i \<le> length kvs"
    using block_iters.ascending[OF at] block_iters.bound[OF at] by auto
  show "it_Valid opened_iterators n \<longleftrightarrow> i < length kvs" using block_iters.Valid[OF at] by (simp add: facts)
  show "it_status opened_iterators n = Status_OK" using block_iters.status[OF at] by (simp add: facts)
  show "(it_key opened_iterators n, it_value opened_iterators n) = kvs ! i" if "i < length kvs"
    using block_iters.entry[OF at that] by (simp add: facts)
  show "\<exists>n'. it_SeekToFirst opened_iterators n = Some n' \<and> opened_at C ok n' kvs 0"
    using block_iters.SeekToFirst[OF at] by (simp add: facts)
  show "\<exists>n'. it_SeekToLast opened_iterators n = Some n' \<and> opened_at C ok n' kvs (length kvs - 1)"
    using block_iters.SeekToLast[OF at] by (simp add: facts)
  show "\<exists>n'. it_Seek opened_iterators target n = Some n' \<and> opened_at C ok n' kvs (length (below (Compare C) target fst kvs))"
    if "ok target" for target
    using block_iters.Seek[OF at that] by (auto simp: facts)
  show "\<exists>n'. it_Next opened_iterators n = Some n' \<and> opened_at C ok n' kvs (Suc i)" if "i < length kvs"
    using block_iters.Next[OF at that] by (simp add: facts)
  show "\<exists>n'. it_Prev opened_iterators n = Some n' \<and> opened_at C ok n' kvs (if i = 0 then length kvs else i - 1)"
    if "i < length kvs"
    using block_iters.Prev[OF at that] by (simp add: facts del: if_split)
qed

lemma length_build_block:
  assumes "0 < R"
  shows "length (build_block R kvs) \<le> (\<Sum>kv \<leftarrow> kvs. 15 + length (fst kv) + length (snd kv)) + 4 * length kvs + 8"
proof -
  have "length (block_body R kvs) = (\<Sum>j \<leftarrow> [0..<length kvs]. length (entry_at R kvs j))"
    by (simp add: block_body_def length_concat o_def)
  also have "\<dots> \<le> (\<Sum>j \<leftarrow> [0..<length kvs]. 15 + length (fst (kvs ! j)) + length (snd (kvs ! j)))"
    by (intro sum_list_mono length_entry_at)
  also have "\<dots> = sum_list (map (\<lambda>kv. 15 + length (fst kv) + length (snd kv)) (map ((!) kvs) [0..<length kvs]))"
    by (simp only: map_map o_def)
  also have "\<dots> = (\<Sum>kv \<leftarrow> kvs. 15 + length (fst kv) + length (snd kv))" by (simp only: map_nth)
  finally have "length (block_body R kvs) \<le> (\<Sum>kv \<leftarrow> kvs. 15 + length (fst kv) + length (snd kv))" .
  moreover have "nrestarts R (length kvs) \<le> length kvs + 1"
    by (simp add: nrestarts_def le_trans[OF div_le_dividend])
  ultimately show ?thesis
    by (simp add: build_block_eq[OF assms] length_concat o_def restart_list_def sum_list_triv)
qed

lemma opened_block:
  assumes "0 < R" "length (build_block R kvs) < 2 ^ 32" "ascending (Compare C) ok kvs"
  shows "opened_at C ok (Block_NewIterator C (new_Block (build_block R kvs))) kvs (length kvs)"
  using block_open[OF assms(1,2), of C] assms(3) by (auto simp: opened_at_def block_pos_def block_at_def)

section \<open>Empty iterators and iterators of two kinds\<close>

text \<open>\<^verbatim>\<open>NewEmptyIterator\<close> and \<^verbatim>\<open>NewErrorIterator\<close>; and the dispatch to the method of the class of the object, for two
  classes.\<close>

definition empty_iterators :: "Status Iterator" where
  "empty_iterators =
     \<lparr>it_Valid = (\<lambda>s. False), it_SeekToFirst = Some, it_SeekToLast = Some, it_Seek = (\<lambda>target. Some),
      it_Next = (\<lambda>s. None), it_Prev = (\<lambda>s. None), it_key = (\<lambda>s. []), it_value = (\<lambda>s. []), it_status = (\<lambda>s. s)\<rparr>"

definition NewEmptyIterator :: Status where
  "NewEmptyIterator = Status_OK"

definition NewErrorIterator :: "Status \<Rightarrow> Status" where
  "NewErrorIterator status = status"

definition it_sum :: "'a Iterator \<Rightarrow> 'b Iterator \<Rightarrow> ('a + 'b) Iterator" where
  "it_sum I J =
     \<lparr>it_Valid = case_sum (it_Valid I) (it_Valid J),
      it_SeekToFirst = case_sum (map_option Inl \<circ> it_SeekToFirst I) (map_option Inr \<circ> it_SeekToFirst J),
      it_SeekToLast = case_sum (map_option Inl \<circ> it_SeekToLast I) (map_option Inr \<circ> it_SeekToLast J),
      it_Seek = (\<lambda>target. case_sum (map_option Inl \<circ> it_Seek I target) (map_option Inr \<circ> it_Seek J target)),
      it_Next = case_sum (map_option Inl \<circ> it_Next I) (map_option Inr \<circ> it_Next J),
      it_Prev = case_sum (map_option Inl \<circ> it_Prev I) (map_option Inr \<circ> it_Prev J),
      it_key = case_sum (it_key I) (it_key J), it_value = case_sum (it_value I) (it_value J),
      it_status = case_sum (it_status I) (it_status J)\<rparr>"

definition empty_at :: "(slice \<Rightarrow> slice \<Rightarrow> int) \<Rightarrow> (slice \<Rightarrow> bool) \<Rightarrow> Status \<Rightarrow> entries \<Rightarrow> nat \<Rightarrow> bool" where
  "empty_at compare ok s kvs i \<longleftrightarrow> s = Status_OK \<and> kvs = [] \<and> i = 0 \<and> compare_order compare ok"

interpretation empty_iters: sorted_iterator empty_iterators compare ok "empty_at compare ok" for compare ok
  by unfold_locales (auto simp: empty_at_def empty_iterators_def ascending_def below_def)

lemma sum_contract:
  assumes I: "sorted_iterator I compare ok at" and J: "sorted_iterator J compare ok at'"
  shows "sorted_iterator (it_sum I J) compare ok (case_sum at at')"
proof
  fix s kvs i assume s: "case_sum at at' s kvs i"
  show "ascending compare ok kvs" "i \<le> length kvs" "it_Valid (it_sum I J) s \<longleftrightarrow> i < length kvs"
    "it_status (it_sum I J) s = Status_OK"
    using s I[THEN sorted_iterator.ascending] J[THEN sorted_iterator.ascending]
      I[THEN sorted_iterator.bound] J[THEN sorted_iterator.bound]
      I[THEN sorted_iterator.Valid] J[THEN sorted_iterator.Valid]
      I[THEN sorted_iterator.status] J[THEN sorted_iterator.status]
    by (auto simp: it_sum_def split: sum.splits)
  show "\<exists>s'. it_SeekToFirst (it_sum I J) s = Some s' \<and> case_sum at at' s' kvs 0"
    "\<exists>s'. it_SeekToLast (it_sum I J) s = Some s' \<and> case_sum at at' s' kvs (length kvs - 1)"
    using s I[THEN sorted_iterator.SeekToFirst] J[THEN sorted_iterator.SeekToFirst]
      I[THEN sorted_iterator.SeekToLast] J[THEN sorted_iterator.SeekToLast]
    by (cases s; fastforce simp: it_sum_def)+
  show "\<exists>s'. it_Seek (it_sum I J) target s = Some s' \<and> case_sum at at' s' kvs (length (below compare target fst kvs))"
    if "ok target" for target
    using s I[THEN sorted_iterator.Seek, OF _ that] J[THEN sorted_iterator.Seek, OF _ that]
    by (cases s; fastforce simp: it_sum_def)
  assume i: "i < length kvs"
  show "(it_key (it_sum I J) s, it_value (it_sum I J) s) = kvs ! i"
    using s i I[THEN sorted_iterator.entry] J[THEN sorted_iterator.entry] by (cases s) (simp_all add: it_sum_def)
  show "\<exists>s'. it_Next (it_sum I J) s = Some s' \<and> case_sum at at' s' kvs (Suc i)"
    using s i I[THEN sorted_iterator.Next, OF _ i] J[THEN sorted_iterator.Next, OF _ i]
    by (cases s; fastforce simp: it_sum_def)
  show "\<exists>s'. it_Prev (it_sum I J) s = Some s' \<and> case_sum at at' s' kvs (if i = 0 then length kvs else i - 1)"
    using s i I[THEN sorted_iterator.Prev, OF _ i] J[THEN sorted_iterator.Prev, OF _ i]
    by (cases s; fastforce simp: it_sum_def)
qed

section \<open>The wrapper\<close>

record 'i IteratorWrapper =
  iw_iter :: "'i option"
  iw_valid :: bool
  iw_cached_key :: slice

definition new_IteratorWrapper :: "'i IteratorWrapper" where
  "new_IteratorWrapper = \<lparr>iw_iter = None, iw_valid = False, iw_cached_key = []\<rparr>"

definition iw_Update :: "'i Iterator \<Rightarrow> 'i \<Rightarrow> 'i IteratorWrapper \<Rightarrow> 'i IteratorWrapper" where
  "iw_Update I it w =
     (let w = w\<lparr>iw_iter := Some it, iw_valid := it_Valid I it\<rparr>
      in if iw_valid w then w\<lparr>iw_cached_key := it_key I it\<rparr> else w)"

definition iw_Set :: "'i Iterator \<Rightarrow> 'i option \<Rightarrow> 'i IteratorWrapper \<Rightarrow> 'i IteratorWrapper" where
  "iw_Set I iter w =
     (case iter of None \<Rightarrow> w\<lparr>iw_iter := None, iw_valid := False\<rparr> | Some it \<Rightarrow> iw_Update I it w)"

definition iw_call :: "'i Iterator \<Rightarrow> ('i \<Rightarrow> 'i option) \<Rightarrow> 'i IteratorWrapper \<Rightarrow> 'i IteratorWrapper option" where
  "iw_call I f w =
     (case iw_iter w of None \<Rightarrow> None
      | Some it \<Rightarrow> (case f it of None \<Rightarrow> None | Some it \<Rightarrow> Some (iw_Update I it w)))"

definition iw_Next :: "'i Iterator \<Rightarrow> 'i IteratorWrapper \<Rightarrow> 'i IteratorWrapper option" where
  "iw_Next I = iw_call I (it_Next I)"
definition iw_Prev :: "'i Iterator \<Rightarrow> 'i IteratorWrapper \<Rightarrow> 'i IteratorWrapper option" where
  "iw_Prev I = iw_call I (it_Prev I)"
definition iw_Seek :: "'i Iterator \<Rightarrow> slice \<Rightarrow> 'i IteratorWrapper \<Rightarrow> 'i IteratorWrapper option" where
  "iw_Seek I k = iw_call I (it_Seek I k)"
definition iw_SeekToFirst :: "'i Iterator \<Rightarrow> 'i IteratorWrapper \<Rightarrow> 'i IteratorWrapper option" where
  "iw_SeekToFirst I = iw_call I (it_SeekToFirst I)"
definition iw_SeekToLast :: "'i Iterator \<Rightarrow> 'i IteratorWrapper \<Rightarrow> 'i IteratorWrapper option" where
  "iw_SeekToLast I = iw_call I (it_SeekToLast I)"

definition iw_value :: "'i Iterator \<Rightarrow> 'i IteratorWrapper \<Rightarrow> slice" where
  "iw_value I w = it_value I (the (iw_iter w))"
definition iw_status :: "'i Iterator \<Rightarrow> 'i IteratorWrapper \<Rightarrow> Status" where
  "iw_status I w = it_status I (the (iw_iter w))"

definition wrapped :: "'i Iterator \<Rightarrow> 'i IteratorWrapper Iterator" where
  "wrapped I =
     \<lparr>it_Valid = iw_valid, it_SeekToFirst = iw_SeekToFirst I, it_SeekToLast = iw_SeekToLast I, it_Seek = iw_Seek I,
      it_Next = iw_Next I, it_Prev = iw_Prev I, it_key = iw_cached_key, it_value = iw_value I, it_status = iw_status I\<rparr>"

definition wrapped_at :: "'i Iterator \<Rightarrow> ('i \<Rightarrow> entries \<Rightarrow> nat \<Rightarrow> bool) \<Rightarrow> 'i IteratorWrapper \<Rightarrow> entries \<Rightarrow> nat \<Rightarrow> bool" where
  "wrapped_at I at w kvs i \<longleftrightarrow>
     (\<exists>it. iw_iter w = Some it \<and> at it kvs i \<and> iw_valid w = it_Valid I it \<and> (iw_valid w \<longrightarrow> iw_cached_key w = it_key I it))"

lemma wrapped_Update: "at it kvs i \<Longrightarrow> wrapped_at I at (iw_Update I it w) kvs i"
  by (auto simp: wrapped_at_def iw_Update_def Let_def)

lemma wrapped_call:
  "wrapped_at I at w kvs i \<Longrightarrow> (\<And>it. at it kvs i \<Longrightarrow> \<exists>it'. f it = Some it' \<and> at it' kvs j) \<Longrightarrow>
   \<exists>w'. iw_call I f w = Some w' \<and> wrapped_at I at w' kvs j"
  by (fastforce simp: wrapped_at_def iw_call_def intro: wrapped_Update[unfolded wrapped_at_def])

context sorted_iterator
begin

lemma wrapped_contract: "sorted_iterator (wrapped I) compare ok (wrapped_at I at)"
proof
  fix w kvs i assume w: "wrapped_at I at w kvs i"
  then obtain it where it: "iw_iter w = Some it" "at it kvs i" "iw_valid w = it_Valid I it" "iw_valid w \<longrightarrow> iw_cached_key w = it_key I it"
    by (auto simp: wrapped_at_def)
  show "ascending compare ok kvs" "i \<le> length kvs" using ascending[OF it(2)] bound[OF it(2)] by auto
  show "it_Valid (wrapped I) w \<longleftrightarrow> i < length kvs" "it_status (wrapped I) w = Status_OK"
    "i < length kvs \<Longrightarrow> (it_key (wrapped I) w, it_value (wrapped I) w) = kvs ! i"
    using it Valid[OF it(2)] entry[OF it(2)] status[OF it(2)] by (auto simp: wrapped_def iw_status_def iw_value_def)
  show "\<exists>w'. it_SeekToFirst (wrapped I) w = Some w' \<and> wrapped_at I at w' kvs 0"
    "\<exists>w'. it_SeekToLast (wrapped I) w = Some w' \<and> wrapped_at I at w' kvs (length kvs - 1)"
    using wrapped_call[OF w SeekToFirst] wrapped_call[OF w SeekToLast]
    by (simp_all add: wrapped_def iw_SeekToFirst_def iw_SeekToLast_def)
  show "\<exists>w'. it_Seek (wrapped I) target w = Some w' \<and> wrapped_at I at w' kvs (length (below compare target fst kvs))"
    if "ok target" for target
    using wrapped_call[OF w Seek[OF _ that]] by (simp add: wrapped_def iw_Seek_def)
  assume i: "i < length kvs"
  show "\<exists>w'. it_Next (wrapped I) w = Some w' \<and> wrapped_at I at w' kvs (Suc i)"
    "\<exists>w'. it_Prev (wrapped I) w = Some w' \<and> wrapped_at I at w' kvs (if i = 0 then length kvs else i - 1)"
    using wrapped_call[OF w Next[OF _ i]] wrapped_call[OF w Prev[OF _ i]]
    by (simp_all add: wrapped_def iw_Next_def iw_Prev_def)
qed

lemma wrapped_facts:
  assumes w: "wrapped_at I at w kvs i"
  shows "i \<le> length kvs" "iw_valid w \<longleftrightarrow> i < length kvs"
    "i < length kvs \<Longrightarrow> iw_cached_key w = fst (kvs ! i)" "i < length kvs \<Longrightarrow> iw_value I w = snd (kvs ! i)"
    "iw_status I w = Status_OK"
  using sorted_iterator.bound[OF wrapped_contract w] sorted_iterator.Valid[OF wrapped_contract w]
    sorted_iterator.key[OF wrapped_contract w] sorted_iterator.val[OF wrapped_contract w]
    sorted_iterator.status[OF wrapped_contract w]
  by (simp_all add: wrapped_def)

lemma wrapped_moves:
  assumes w: "wrapped_at I at w kvs i"
  shows "\<exists>w'. iw_SeekToFirst I w = Some w' \<and> wrapped_at I at w' kvs 0"
    "\<exists>w'. iw_SeekToLast I w = Some w' \<and> wrapped_at I at w' kvs (length kvs - 1)"
    "ok target \<Longrightarrow> \<exists>w'. iw_Seek I target w = Some w' \<and> wrapped_at I at w' kvs (length (below compare target fst kvs))"
    "i < length kvs \<Longrightarrow> \<exists>w'. iw_Next I w = Some w' \<and> wrapped_at I at w' kvs (Suc i)"
    "i < length kvs \<Longrightarrow> \<exists>w'. iw_Prev I w = Some w' \<and> wrapped_at I at w' kvs (if i = 0 then length kvs else i - 1)"
  using sorted_iterator.SeekToFirst[OF wrapped_contract w] sorted_iterator.SeekToLast[OF wrapped_contract w]
    sorted_iterator.Seek[OF wrapped_contract w] sorted_iterator.Next[OF wrapped_contract w]
    sorted_iterator.Prev[OF wrapped_contract w]
  by (simp_all add: wrapped_def del: if_split)

end

end
