(* ===== verification/Ldb_Merger.thy ===== *)
theory Ldb_Merger
  imports Ldb_Iterator
begin

text \<open>
  The iterator over the merge of several iterators: \<^verbatim>\<open>table/merger.cc\<close>.

  The children have the type of states \<open>'i\<close> and the operations \<open>I\<close>; iterators of several kinds are one sum type. A
  pointer to a child is its index. The merge of the children's entries is a list with the number of the owner
  of each entry; \<open>merging_contract\<close> shows that the merging iterator satisfies the contract of iterators for
  that list, in both directions and over every change of direction.
\<close>

datatype Direction = kForward | kReverse

record 'i MergingIterator =
  mg_comparator :: Comparator
  mg_children :: "'i IteratorWrapper list"
  mg_current :: "nat option"
  mg_direction :: Direction

definition new_MergingIterator :: "'i Iterator \<Rightarrow> Comparator \<Rightarrow> 'i list \<Rightarrow> 'i MergingIterator" where
  "new_MergingIterator I comparator children =
     \<lparr>mg_comparator = comparator, mg_children = map (\<lambda>it. iw_Set I (Some it) new_IteratorWrapper) children,
      mg_current = None, mg_direction = kForward\<rparr>"

definition mg_Valid :: "'i MergingIterator \<Rightarrow> bool" where
  "mg_Valid m \<longleftrightarrow> mg_current m \<noteq> None"

definition find_child :: "(nat \<Rightarrow> bool) \<Rightarrow> (nat \<Rightarrow> nat \<Rightarrow> bool) \<Rightarrow> nat list \<Rightarrow> nat option" where
  "find_child valid better =
     foldl (\<lambda>found i. if valid i then (case found of None \<Rightarrow> Some i | Some d \<Rightarrow> if better i d then Some i else Some d)
                      else found) None"

definition FindSmallest :: "'i MergingIterator \<Rightarrow> 'i MergingIterator" where
  "FindSmallest m =
     (let child = (\<lambda>i. mg_children m ! i)
      in m\<lparr>mg_current := find_child (\<lambda>i. iw_valid (child i))
            (\<lambda>i smallest. Compare (mg_comparator m) (iw_cached_key (child i)) (iw_cached_key (child smallest)) < 0)
            [0..<length (mg_children m)]\<rparr>)"

definition FindLargest :: "'i MergingIterator \<Rightarrow> 'i MergingIterator" where
  "FindLargest m =
     (let child = (\<lambda>i. mg_children m ! i)
      in m\<lparr>mg_current := find_child (\<lambda>i. iw_valid (child i))
            (\<lambda>i largest. Compare (mg_comparator m) (iw_cached_key (child i)) (iw_cached_key (child largest)) > 0)
            (rev [0..<length (mg_children m)])\<rparr>)"

definition each_child ::
  "(nat \<Rightarrow> 'i IteratorWrapper \<Rightarrow> 'i IteratorWrapper option) \<Rightarrow> 'i MergingIterator \<Rightarrow> 'i MergingIterator option" where
  "each_child f m =
     (case those (map (\<lambda>i. f i (mg_children m ! i)) [0..<length (mg_children m)]) of
        None \<Rightarrow> None | Some ws \<Rightarrow> Some (m\<lparr>mg_children := ws\<rparr>))"

definition mg_SeekToFirst :: "'i Iterator \<Rightarrow> 'i MergingIterator \<Rightarrow> 'i MergingIterator option" where
  "mg_SeekToFirst I m =
     (case each_child (\<lambda>i. iw_SeekToFirst I) m of None \<Rightarrow> None
      | Some m \<Rightarrow> Some ((FindSmallest m)\<lparr>mg_direction := kForward\<rparr>))"

definition mg_SeekToLast :: "'i Iterator \<Rightarrow> 'i MergingIterator \<Rightarrow> 'i MergingIterator option" where
  "mg_SeekToLast I m =
     (case each_child (\<lambda>i. iw_SeekToLast I) m of None \<Rightarrow> None
      | Some m \<Rightarrow> Some ((FindLargest m)\<lparr>mg_direction := kReverse\<rparr>))"

definition mg_Seek :: "'i Iterator \<Rightarrow> slice \<Rightarrow> 'i MergingIterator \<Rightarrow> 'i MergingIterator option" where
  "mg_Seek I target m =
     (case each_child (\<lambda>i. iw_Seek I target) m of None \<Rightarrow> None
      | Some m \<Rightarrow> Some ((FindSmallest m)\<lparr>mg_direction := kForward\<rparr>))"

definition mg_key :: "'i MergingIterator \<Rightarrow> slice" where
  "mg_key m = iw_cached_key (mg_children m ! the (mg_current m))"

definition mg_value :: "'i Iterator \<Rightarrow> 'i MergingIterator \<Rightarrow> slice" where
  "mg_value I m = iw_value I (mg_children m ! the (mg_current m))"

definition mg_forward_child :: "'i Iterator \<Rightarrow> 'i MergingIterator \<Rightarrow> nat \<Rightarrow> 'i IteratorWrapper \<Rightarrow> 'i IteratorWrapper option" where
  "mg_forward_child I m i child =
     (if Some i \<noteq> mg_current m then
        (case iw_Seek I (mg_key m) child of None \<Rightarrow> None
         | Some child \<Rightarrow>
             if iw_valid child \<and> Compare (mg_comparator m) (mg_key m) (iw_cached_key child) = 0
             then iw_Next I child else Some child)
      else Some child)"

definition mg_reverse_child :: "'i Iterator \<Rightarrow> 'i MergingIterator \<Rightarrow> nat \<Rightarrow> 'i IteratorWrapper \<Rightarrow> 'i IteratorWrapper option" where
  "mg_reverse_child I m i child =
     (if Some i \<noteq> mg_current m then
        (case iw_Seek I (mg_key m) child of None \<Rightarrow> None
         | Some child \<Rightarrow> if iw_valid child then iw_Prev I child else iw_SeekToLast I child)
      else Some child)"

definition step_current ::
  "('i IteratorWrapper \<Rightarrow> 'i IteratorWrapper option) \<Rightarrow> 'i MergingIterator \<Rightarrow> 'i MergingIterator option" where
  "step_current f m =
     (case mg_current m of None \<Rightarrow> None
      | Some c \<Rightarrow> (case f (mg_children m ! c) of None \<Rightarrow> None
                  | Some w \<Rightarrow> Some (m\<lparr>mg_children := (mg_children m)[c := w]\<rparr>)))"

definition mg_Next :: "'i Iterator \<Rightarrow> 'i MergingIterator \<Rightarrow> 'i MergingIterator option" where
  "mg_Next I m =
     (if \<not> mg_Valid m then None
      else (case (if mg_direction m \<noteq> kForward
                  then map_option (mg_direction_update (\<lambda>_. kForward)) (each_child (mg_forward_child I m) m)
                  else Some m) of
              None \<Rightarrow> None
            | Some m \<Rightarrow> map_option FindSmallest (step_current (iw_Next I) m)))"

definition mg_Prev :: "'i Iterator \<Rightarrow> 'i MergingIterator \<Rightarrow> 'i MergingIterator option" where
  "mg_Prev I m =
     (if \<not> mg_Valid m then None
      else (case (if mg_direction m \<noteq> kReverse
                  then map_option (mg_direction_update (\<lambda>_. kReverse)) (each_child (mg_reverse_child I m) m)
                  else Some m) of
              None \<Rightarrow> None
            | Some m \<Rightarrow> map_option FindLargest (step_current (iw_Prev I) m)))"

definition mg_status :: "'i Iterator \<Rightarrow> 'i MergingIterator \<Rightarrow> Status" where
  "mg_status I m =
     foldl (\<lambda>status child. if Status_ok status then iw_status I child else status) Status_OK (mg_children m)"

definition merging :: "'i Iterator \<Rightarrow> 'i MergingIterator Iterator" where
  "merging I =
     \<lparr>it_Valid = mg_Valid, it_SeekToFirst = mg_SeekToFirst I, it_SeekToLast = mg_SeekToLast I, it_Seek = mg_Seek I,
      it_Next = mg_Next I, it_Prev = mg_Prev I, it_key = mg_key, it_value = mg_value I, it_status = mg_status I\<rparr>"

section \<open>The merge of lists of entries\<close>

type_synonym owned_entry = "nat \<times> slice \<times> slice"

definition own :: "nat \<Rightarrow> owned_entry list \<Rightarrow> entries" where
  "own c T = map snd (filter (\<lambda>x. fst x = c) T)"

fun merge_owned :: "(slice \<Rightarrow> slice \<Rightarrow> int) \<Rightarrow> owned_entry list \<Rightarrow> owned_entry list \<Rightarrow> owned_entry list" where
  "merge_owned compare (x # xs) (y # ys) =
     (if compare (fst (snd x)) (fst (snd y)) < 0 then x # merge_owned compare xs (y # ys)
      else y # merge_owned compare (x # xs) ys)"
| "merge_owned compare [] ys = ys"
| "merge_owned compare xs [] = xs"

definition merge_lists :: "(slice \<Rightarrow> slice \<Rightarrow> int) \<Rightarrow> entries list \<Rightarrow> owned_entry list" where
  "merge_lists compare L =
     foldl (\<lambda>T c. merge_owned compare T (map (Pair c) (L ! c))) [] [0..<length L]"

lemma own_simps [simp]:
  "own c [] = []" "own c (x # T) = (if fst x = c then snd x # own c T else own c T)" "own c (T @ U) = own c T @ own c U"
  by (simp_all add: own_def)

lemma own_split: "own c T = own c (take j T) @ own c (drop j T)"
  by (metis append_take_drop_id own_simps(3))

lemma own_nth: "own c (drop j T) \<noteq> [] \<Longrightarrow> own c T ! length (own c (take j T)) = hd (own c (drop j T))"
  by (metis hd_conv_nth nth_append_length_plus own_split add_0_right)

lemma length_own: "length (own c T) = length (own c (take j T)) + length (own c (drop j T))"
  by (metis length_append own_split)

lemma own_drop_iff: "length (own c (take j T)) < length (own c T) \<longleftrightarrow> own c (drop j T) \<noteq> []"
  using length_own[of c T j] by simp

lemma own_take_le: "length (own c (take j T)) \<le> length (own c T)"
  using length_own[of c T j] by simp

lemma own_nth_last: "own c (take j T) \<noteq> [] \<Longrightarrow> own c T ! (length (own c (take j T)) - 1) = last (own c (take j T))"
  by (subst own_split[of c T j]) (simp add: nth_append last_conv_nth)

lemma own_take_Suc:
  "j < length T \<Longrightarrow> own c (take (Suc j) T) = own c (take j T) @ (if fst (T ! j) = c then [snd (T ! j)] else [])"
  by (simp add: take_Suc_conv_app_nth)

lemma own_mem: "x \<in> set (own c T) \<longleftrightarrow> (c, x) \<in> set T"
  by (force simp: own_def)

lemma own_ascending: "ascending compare ok (map snd T) \<Longrightarrow> ascending compare ok (own c T)"
  unfolding ascending_def own_def by (auto simp: sorted_wrt_map intro: sorted_wrt_filter)

lemma own_none: "(\<And>x. x \<in> set T \<Longrightarrow> fst x \<noteq> c) \<Longrightarrow> own c T = []"
  by (auto simp: own_def filter_empty_conv)

lemma own_pair: "own c (map (Pair d) kvs) = (if c = d then kvs else [])"
  by (induction kvs) auto

lemma own_below: "below compare target fst (own c T) = own c (below compare target (fst \<circ> snd) T)"
  by (induction T) (auto simp: below_def own_def)

lemma set_merge_owned [simp]: "set (merge_owned compare xs ys) = set xs \<union> set ys"
  by (induction compare xs ys rule: merge_owned.induct) auto

lemma own_merge_owned:
  "own c xs = [] \<or> own c ys = [] \<Longrightarrow> own c (merge_owned compare xs ys) = own c xs @ own c ys"
  by (induction compare xs ys rule: merge_owned.induct) (auto split: if_splits)

definition keys_apart :: "(slice \<Rightarrow> slice \<Rightarrow> int) \<Rightarrow> entries \<Rightarrow> entries \<Rightarrow> bool" where
  "keys_apart compare xs ys \<longleftrightarrow> (\<forall>x \<in> set xs. \<forall>y \<in> set ys. compare (fst x) (fst y) \<noteq> 0)"

lemma ascending_merge_owned:
  assumes "ascending compare ok (map snd xs)" "ascending compare ok (map snd ys)"
    "keys_apart compare (map snd xs) (map snd ys)"
  shows "ascending compare ok (map snd (merge_owned compare xs ys))"
  using assms
proof (induction compare xs ys rule: merge_owned.induct)
  case (1 compare x xs y ys)
  have order: "compare_order compare ok" using 1(3) by (simp add: ascending_def)
  have x: "ascending compare ok (map snd xs)" "ok (fst (snd x))" "\<forall>z \<in> set (map snd xs). compare (fst (snd x)) (fst z) < 0"
    and y: "ascending compare ok (map snd ys)" "ok (fst (snd y))" "\<forall>z \<in> set (map snd ys). compare (fst (snd y)) (fst z) < 0"
    using 1(3,4) by (simp_all add: ascending_Cons)
  have ok: "\<forall>z \<in> set (map snd xs) \<union> set (map snd ys). ok (fst z)" using x(1) y(1) by (auto simp: ascending_def)
  note trans = compare_order.less_trans[OF order]
  show ?case
  proof (cases "compare (fst (snd x)) (fst (snd y)) < 0")
    case True
    have "\<forall>z \<in> set (map snd ys). compare (fst (snd x)) (fst z) < 0"
      using trans[OF x(2) y(2) _ True] y(3) ok by blast
    then have "\<forall>z \<in> set (map snd (merge_owned compare xs (y # ys))). compare (fst (snd x)) (fst z) < 0"
      using x(3) True by auto
    moreover have "keys_apart compare (map snd xs) (map snd (y # ys))" using 1(5) by (simp add: keys_apart_def)
    ultimately show ?thesis using 1(1)[OF True x(1) 1(4)] x(2) True by (simp add: ascending_Cons del: set_map)
  next
    case False
    then have less: "compare (fst (snd y)) (fst (snd x)) < 0"
      using 1(5) compare_order.swap[OF order y(2) x(2)] by (simp add: keys_apart_def)
    have "\<forall>z \<in> set (map snd xs). compare (fst (snd y)) (fst z) < 0"
      using trans[OF y(2) x(2) _ less] x(3) ok by blast
    then have "\<forall>z \<in> set (map snd (merge_owned compare (x # xs) ys)). compare (fst (snd y)) (fst z) < 0"
      using y(3) less by auto
    moreover have "keys_apart compare (map snd (x # xs)) (map snd ys)" using 1(5) by (simp add: keys_apart_def)
    ultimately show ?thesis using 1(2)[OF False 1(3) y(1)] y(2) False by (simp add: ascending_Cons del: set_map)
  qed
qed auto

lemma merge_lists_ok:
  assumes order: "compare_order compare ok"
    and asc: "\<And>c. c < length L \<Longrightarrow> ascending compare ok (L ! c)"
    and apart: "\<And>c d. c < d \<Longrightarrow> d < length L \<Longrightarrow> keys_apart compare (L ! c) (L ! d)"
    and n: "n \<le> length L"
  defines "T \<equiv> foldl (\<lambda>T c. merge_owned compare T (map (Pair c) (L ! c))) [] [0..<n]"
  shows "ascending compare ok (map snd T) \<and> (\<forall>x \<in> set T. fst x < n) \<and> (\<forall>c < n. own c T = L ! c)"
  using n unfolding T_def
proof (induction n)
  case 0
  show ?case using order by (simp add: ascending_def)
next
  case (Suc n)
  define U where "U = foldl (\<lambda>T c. merge_owned compare T (map (Pair c) (L ! c))) [] [0..<n]"
  have IH: "ascending compare ok (map snd U)" "\<forall>x \<in> set U. fst x < n" "\<forall>c < n. own c U = L ! c"
    using Suc by (simp_all add: U_def)
  have none: "own n U = []" using IH(2) by (intro own_none) auto
  have "keys_apart compare (map snd U) (L ! n)"
    unfolding keys_apart_def
  proof (intro ballI)
    fix x y assume x: "x \<in> set (map snd U)" and y: "y \<in> set (L ! n)"
    obtain c where "(c, x) \<in> set U" using x by auto
    then have "c < n" "x \<in> set (L ! c)" using IH own_mem[of x c U] by force+
    then show "compare (fst x) (fst y) \<noteq> 0" using apart[of c n] Suc.prems y by (auto simp: keys_apart_def)
  qed
  then have "ascending compare ok (map snd (merge_owned compare U (map (Pair n) (L ! n))))"
    using ascending_merge_owned[of compare ok U "map (Pair n) (L ! n)"] IH(1) asc[of n] Suc.prems by (simp add: comp_def)
  moreover have "own c (merge_owned compare U (map (Pair n) (L ! n))) = L ! c" if "c < Suc n" for c
  proof (cases "c = n")
    case True
    then show ?thesis using none by (simp add: own_merge_owned own_pair)
  next
    case False
    then show ?thesis using that IH(3) by (simp add: own_merge_owned own_pair)
  qed
  ultimately show ?case using IH(2) by (auto simp: U_def[symmetric])
qed

section \<open>The children of the iterator\<close>

lemma find_child_none: "\<forall>c \<in> set xs. \<not> valid c \<Longrightarrow> find_child valid better xs = None"
  by (induction xs rule: rev_induct) (auto simp: find_child_def)

lemma find_child_best:
  assumes best: "\<And>c. c \<in> set xs \<Longrightarrow> valid c \<Longrightarrow> c \<noteq> b \<Longrightarrow> better b c \<and> \<not> better c b"
    and b: "b \<in> set xs" "valid b" "\<not> better b b"
  shows "find_child valid better xs = Some b"
proof -
  have "if b \<in> set xs then find_child valid better xs = Some b
        else \<forall>d. find_child valid better xs = Some d \<longrightarrow> d \<in> set xs \<and> valid d" 
    using best
  proof (induction xs rule: rev_induct)
    case (snoc x xs)
    have IH: "if b \<in> set xs then find_child valid better xs = Some b
        else \<forall>d. find_child valid better xs = Some d \<longrightarrow> d \<in> set xs \<and> valid d"
      using snoc by auto
    have step: "find_child valid better (xs @ [x]) =
        (if valid x then (case find_child valid better xs of None \<Rightarrow> Some x | Some d \<Rightarrow> if better x d then Some x else Some d)
         else find_child valid better xs)"
      by (simp add: find_child_def)
    show ?case
    proof (cases "b \<in> set xs")
      case True
      then show ?thesis using IH step snoc.prems[of x] b by (cases "x = b") auto
    next
      case False
      then have "\<And>d. find_child valid better xs = Some d \<Longrightarrow> d \<noteq> b \<and> d \<in> set xs \<and> valid d" using IH by auto
      then show ?thesis using step snoc.prems b False by (cases "x = b") (auto split: option.splits)
    qed
  qed (simp add: find_child_def)
  then show ?thesis using b by simp
qed

lemma each_child_ok:
  assumes "\<And>i. i < length (mg_children m) \<Longrightarrow> \<exists>w. f i (mg_children m ! i) = Some w \<and> P i w"
  shows "\<exists>ws. each_child f m = Some (m\<lparr>mg_children := ws\<rparr>) \<and> length ws = length (mg_children m) \<and> (\<forall>i < length ws. P i (ws ! i))"
proof -
  let ?n = "length (mg_children m)"
  define ws where "ws = map (\<lambda>i. the (f i (mg_children m ! i))) [0..<?n]"
  have get: "f i (mg_children m ! i) = Some (the (f i (mg_children m ! i))) \<and> P i (the (f i (mg_children m ! i)))" if "i < ?n" for i
    using assms[OF that] by auto
  have "those (map (\<lambda>i. f i (mg_children m ! i)) [0..<k]) = Some (map (\<lambda>i. the (f i (mg_children m ! i))) [0..<k])"
    if "k \<le> ?n" for k
    using that
  proof (induction k)
    case (Suc k)
    have snoc: "those (xs @ [x]) = (case those xs of None \<Rightarrow> None | Some ys \<Rightarrow> map_option (\<lambda>y. ys @ [y]) x)" for xs and x :: "'b option"
      by (induction xs) (cases x, auto split: option.splits)+
    show ?case using Suc get[of k] by (auto simp: snoc)
  qed simp
  then have "each_child f m = Some (m\<lparr>mg_children := ws\<rparr>)" by (simp add: each_child_def ws_def)
  then show ?thesis using get by (auto simp: ws_def)
qed

definition owners_ok :: "nat \<Rightarrow> owned_entry list \<Rightarrow> bool" where
  "owners_ok n T \<longleftrightarrow> (\<forall>x \<in> set T. fst x < n)"

definition children_at ::
  "'i Iterator \<Rightarrow> ('i \<Rightarrow> entries \<Rightarrow> nat \<Rightarrow> bool) \<Rightarrow> 'i IteratorWrapper list \<Rightarrow> owned_entry list \<Rightarrow> (nat \<Rightarrow> nat) \<Rightarrow> bool" where
  "children_at I at ws T pos \<longleftrightarrow> (\<forall>c < length ws. wrapped_at I at (ws ! c) (own c T) (pos c))"

definition from_pos :: "owned_entry list \<Rightarrow> nat \<Rightarrow> nat \<Rightarrow> nat" where
  "from_pos T j c = length (own c (take j T))"

definition upto_pos :: "owned_entry list \<Rightarrow> nat \<Rightarrow> nat \<Rightarrow> nat" where
  "upto_pos T j c = (if from_pos T j c = 0 then length (own c T) else from_pos T j c - 1)"

definition current_at :: "owned_entry list \<Rightarrow> nat \<Rightarrow> nat option" where
  "current_at T j = (if j < length T then Some (fst (T ! j)) else None)"

definition merging_at ::
  "'i Iterator \<Rightarrow> (slice \<Rightarrow> slice \<Rightarrow> int) \<Rightarrow> (slice \<Rightarrow> bool) \<Rightarrow> ('i \<Rightarrow> entries \<Rightarrow> nat \<Rightarrow> bool) \<Rightarrow>
   'i MergingIterator \<Rightarrow> entries \<Rightarrow> nat \<Rightarrow> bool" where
  "merging_at I compare ok at m kvs j \<longleftrightarrow>
     (\<exists>T. kvs = map snd T \<and> ascending compare ok kvs \<and> owners_ok (length (mg_children m)) T \<and>
          Compare (mg_comparator m) = compare \<and> j \<le> length T \<and> mg_current m = current_at T j \<and>
          (\<exists>pos. children_at I at (mg_children m) T pos \<and>
             (j < length T \<longrightarrow> pos = (if mg_direction m = kForward then from_pos T j else upto_pos T (Suc j)))))"

context sorted_iterator
begin

lemma smallest_child:
  assumes asc: "ascending compare ok (map snd T)" and owners: "owners_ok (length (mg_children m)) T"
    and comp: "Compare (mg_comparator m) = compare" and at: "children_at I at (mg_children m) T (from_pos T j)"
  shows "FindSmallest m = m\<lparr>mg_current := current_at T j\<rparr>"
proof -
  let ?w = "\<lambda>c. mg_children m ! c"
  have valid: "iw_valid (?w c) \<longleftrightarrow> own c (drop j T) \<noteq> []" if "c < length (mg_children m)" for c
    using wrapped_facts(2)[of "?w c" "own c T" "from_pos T j c"] at that own_drop_iff[of c j T]
    by (simp add: children_at_def from_pos_def)
  have key: "iw_cached_key (?w c) = fst (hd (own c (drop j T)))"
    if "c < length (mg_children m)" "own c (drop j T) \<noteq> []" for c
    using wrapped_facts(3)[of "?w c" "own c T" "from_pos T j c"] at that own_drop_iff[of c j T] own_nth[of c j T]
    by (simp add: children_at_def from_pos_def)
  show ?thesis
  proof (cases "j < length T")
    case False
    then have "find_child (\<lambda>i. iw_valid (?w i)) b [0..<length (mg_children m)] = None" for b
      using valid by (intro find_child_none) simp
    then show ?thesis using False by (simp add: FindSmallest_def Let_def current_at_def)
  next
    case True
    define b where "b = fst (T ! j)"
    have split: "drop j T = T ! j # drop (Suc j) T" using True by (simp add: Cons_nth_drop_Suc)
    have b: "b < length (mg_children m)" using owners True by (auto simp: owners_ok_def b_def)
    have own_b: "own b (drop j T) = snd (T ! j) # own b (drop (Suc j) T)" by (simp add: split b_def)
    have later: "compare (fst (snd (T ! j))) (fst x) < 0 \<and> ok (fst x)" if "x \<in> set (map snd (drop (Suc j) T))" for x
    proof -
      have "ascending compare ok (map snd (drop j T))" using ascending_drop[OF asc] by (simp add: drop_map)
      then show ?thesis using that unfolding split by (auto simp: ascending_Cons ascending_def)
    qed
    have okb: "ok (fst (snd (T ! j)))" using asc True by (auto simp: ascending_def)
    have order: "compare_order compare ok" using asc by (simp add: ascending_def)
    have "find_child (\<lambda>i. iw_valid (?w i)) (\<lambda>i d. compare (iw_cached_key (?w i)) (iw_cached_key (?w d)) < 0)
        [0..<length (mg_children m)] = Some b"
    proof (rule find_child_best)
      fix c assume c: "c \<in> set [0..<length (mg_children m)]" "iw_valid (?w c)" "c \<noteq> b"
      then have "own c (drop j T) \<noteq> []" "own c (drop j T) = own c (drop (Suc j) T)"
        using valid by (auto simp: split b_def)
      then have "hd (own c (drop j T)) \<in> set (map snd (drop (Suc j) T))"
        by (metis hd_in_set own_mem image_eqI list.set_map snd_conv)
      from later[OF this] show "compare (iw_cached_key (?w b)) (iw_cached_key (?w c)) < 0 \<and>
          \<not> compare (iw_cached_key (?w c)) (iw_cached_key (?w b)) < 0"
        using key[of c] key[of b] c b own_b \<open>own c (drop j T) \<noteq> []\<close>
          compare_order.swap[OF order okb, of "fst (hd (own c (drop j T)))"] by simp
    next
      show "\<not> compare (iw_cached_key (?w b)) (iw_cached_key (?w b)) < 0"
        using key[of b] b own_b compare_order.refl[OF order okb] by simp
    qed (use b valid[of b] own_b in simp_all)
    then show ?thesis using True comp by (simp add: FindSmallest_def Let_def current_at_def b_def)
  qed
qed

lemma largest_child:
  assumes asc: "ascending compare ok (map snd T)" and owners: "owners_ok (length (mg_children m)) T"
    and comp: "Compare (mg_comparator m) = compare" and at: "children_at I at (mg_children m) T (upto_pos T j)"
    and j: "j \<le> length T"
  shows "FindLargest m = m\<lparr>mg_current := (if j = 0 then None else Some (fst (T ! (j - 1))))\<rparr>"
proof -
  let ?w = "\<lambda>c. mg_children m ! c"
  have less: "upto_pos T j c < length (own c T) \<longleftrightarrow> own c (take j T) \<noteq> []" for c
    using own_take_le[of c j T] by (cases "own c (take j T)") (auto simp: upto_pos_def from_pos_def)
  have valid: "iw_valid (?w c) \<longleftrightarrow> own c (take j T) \<noteq> []" if "c < length (mg_children m)" for c
    using wrapped_facts(2)[of "?w c" "own c T" "upto_pos T j c"] at that less by (simp add: children_at_def)
  have key: "iw_cached_key (?w c) = fst (last (own c (take j T)))"
    if "c < length (mg_children m)" "own c (take j T) \<noteq> []" for c
  proof -
    have "upto_pos T j c = length (own c (take j T)) - 1" using that(2) by (simp add: upto_pos_def from_pos_def)
    then show ?thesis
      using wrapped_facts(3)[of "?w c" "own c T" "upto_pos T j c"] at that less[of c] own_nth_last[of c j T]
      unfolding children_at_def by metis
  qed
  show ?thesis
  proof (cases j)
    case 0
    then have "find_child (\<lambda>i. iw_valid (?w i)) b (rev [0..<length (mg_children m)]) = None" for b
      using valid by (intro find_child_none) simp
    then show ?thesis using 0 by (simp add: FindLargest_def Let_def)
  next
    case (Suc k)
    define b where "b = fst (T ! k)"
    have k: "k < length T" using Suc j by simp
    have split: "take j T = take k T @ [T ! k]" using k Suc by (simp add: take_Suc_conv_app_nth)
    have b: "b < length (mg_children m)" using owners k by (auto simp: owners_ok_def b_def)
    have own_b: "own b (take j T) = own b (take k T) @ [snd (T ! k)]" by (simp add: split b_def)
    have earlier: "compare (fst x) (fst (snd (T ! k))) < 0 \<and> ok (fst x)" if "x \<in> set (map snd (take k T))" for x
    proof -
      have "ascending compare ok (map snd (take j T))" using ascending_take[OF asc] by (simp add: take_map)
      then have "ascending compare ok (map snd (take k T))"
        "\<forall>x \<in> set (map snd (take k T)). compare (fst x) (fst (snd (T ! k))) < 0"
        unfolding split by (simp_all add: ascending_append)
      then show ?thesis using that by (auto simp: ascending_def)
    qed
    have okb: "ok (fst (snd (T ! k)))" using asc k by (auto simp: ascending_def)
    have order: "compare_order compare ok" using asc by (simp add: ascending_def)
    have "find_child (\<lambda>i. iw_valid (?w i)) (\<lambda>i d. compare (iw_cached_key (?w i)) (iw_cached_key (?w d)) > 0)
        (rev [0..<length (mg_children m)]) = Some b"
    proof (rule find_child_best)
      fix c assume c: "c \<in> set (rev [0..<length (mg_children m)])" "iw_valid (?w c)" "c \<noteq> b"
      then have "own c (take j T) \<noteq> []" "own c (take j T) = own c (take k T)"
        using valid by (auto simp: split b_def)
      then have "last (own c (take j T)) \<in> set (map snd (take k T))"
        by (metis last_in_set own_mem image_eqI list.set_map snd_conv)
      from earlier[OF this] show "compare (iw_cached_key (?w b)) (iw_cached_key (?w c)) > 0 \<and>
          \<not> compare (iw_cached_key (?w c)) (iw_cached_key (?w b)) > 0"
        using key[of c] key[of b] c b own_b \<open>own c (take j T) \<noteq> []\<close>
          compare_order.swap[OF order _ okb, of "fst (last (own c (take j T)))"] by simp
    next
      show "\<not> compare (iw_cached_key (?w b)) (iw_cached_key (?w b)) > 0"
        using key[of b] b own_b compare_order.refl[OF order okb] by simp
    qed (use b valid[of b] own_b in simp_all)
    then show ?thesis using Suc comp by (simp add: FindLargest_def Let_def b_def)
  qed
qed

lemma below_take:
  assumes "ascending compare ok (map snd T)" "ok target"
  shows "below compare target (fst \<circ> snd) T = take (length (below compare target fst (map snd T))) T"
proof -
  have "T = below compare target (fst \<circ> snd) T @ upwards compare target (fst \<circ> snd) T"
    by (rule compare_order.sorted_cut[of _ ok]) (use assms in \<open>auto simp: ascending_def sorted_wrt_map\<close>)
  moreover have "length (below compare target fst (map snd T)) = length (below compare target (fst \<circ> snd) T)"
    by (simp add: below_def filter_map comp_def)
  ultimately show ?thesis by (metis append_eq_conv_conj)
qed

lemma own_below_from:
  assumes "ascending compare ok (map snd T)" "ok target"
  shows "length (below compare target fst (own c T)) = from_pos T (length (below compare target fst (map snd T))) c"
  by (simp add: own_below below_take[OF assms] from_pos_def)

lemma children_each:
  assumes at: "children_at I at (mg_children m) T pos"
    and move: "\<And>c w. c < length (mg_children m) \<Longrightarrow> wrapped_at I at w (own c T) (pos c) \<Longrightarrow>
      \<exists>w'. f c w = Some w' \<and> wrapped_at I at w' (own c T) (pos' c)"
  shows "\<exists>ws. each_child f m = Some (m\<lparr>mg_children := ws\<rparr>) \<and> length ws = length (mg_children m) \<and> children_at I at ws T pos'"
  using each_child_ok[of m f "\<lambda>c w. wrapped_at I at w (own c T) (pos' c)"] at move unfolding children_at_def by blast

lemma children_step:
  assumes at: "children_at I at (mg_children m) T pos" and c: "mg_current m = Some c" "c < length (mg_children m)"
    and move: "\<exists>w'. f (mg_children m ! c) = Some w' \<and> wrapped_at I at w' (own c T) (pos' c)"
    and same: "\<And>d. d \<noteq> c \<Longrightarrow> pos' d = pos d"
  shows "\<exists>ws. step_current f m = Some (m\<lparr>mg_children := ws\<rparr>) \<and> length ws = length (mg_children m) \<and> children_at I at ws T pos'"
proof -
  obtain w where w: "f (mg_children m ! c) = Some w" "wrapped_at I at w (own c T) (pos' c)" using move by blast
  have "wrapped_at I at ((mg_children m)[c := w] ! d) (own d T) (pos' d)" if "d < length (mg_children m)" for d
    using at same[of d] w(2) that by (cases "d = c") (simp_all add: children_at_def)
  then show ?thesis
    using w(1) c by (intro exI[of _ "(mg_children m)[c := w]"]) (simp add: step_current_def children_at_def)
qed

lemma from_pos_Suc:
  "j < length T \<Longrightarrow> from_pos T (Suc j) c = (if c = fst (T ! j) then Suc (from_pos T j c) else from_pos T j c)"
  by (simp add: from_pos_def own_take_Suc)

lemma upto_pos_Suc:
  "j < length T \<Longrightarrow> upto_pos T (Suc j) c = (if c = fst (T ! j) then from_pos T j c else upto_pos T j c)"
  by (simp add: upto_pos_def from_pos_Suc)

lemma owner_pos:
  assumes "j < length T"
  shows "from_pos T j (fst (T ! j)) < length (own (fst (T ! j)) T)"
    and "own (fst (T ! j)) T ! from_pos T j (fst (T ! j)) = snd (T ! j)"
proof -
  have "drop j T = T ! j # drop (Suc j) T" using assms by (simp add: Cons_nth_drop_Suc)
  then have "own (fst (T ! j)) (drop j T) = snd (T ! j) # own (fst (T ! j)) (drop (Suc j) T)" by simp
  then show "from_pos T j (fst (T ! j)) < length (own (fst (T ! j)) T)"
    "own (fst (T ! j)) T ! from_pos T j (fst (T ! j)) = snd (T ! j)"
    using own_drop_iff[of "fst (T ! j)" j T] own_nth[of "fst (T ! j)" j T] by (simp_all add: from_pos_def)
qed

lemma merging_view:
  assumes m: "merging_at I compare ok at m kvs j" and j: "j < length kvs"
  obtains T where "kvs = map snd T" "ascending compare ok (map snd T)"
    "owners_ok (length (mg_children m)) T" "Compare (mg_comparator m) = compare" "j < length T"
    "mg_current m = Some (fst (T ! j))" "fst (T ! j) < length (mg_children m)"
    "mg_key m = fst (snd (T ! j))" "mg_value I m = snd (snd (T ! j))"
    "children_at I at (mg_children m) T (if mg_direction m = kForward then from_pos T j else upto_pos T (Suc j))"
proof -
  from m j obtain T where T: "kvs = map snd T" "ascending compare ok (map snd T)" "owners_ok (length (mg_children m)) T"
    "Compare (mg_comparator m) = compare" "j < length T" "mg_current m = current_at T j"
    "children_at I at (mg_children m) T (if mg_direction m = kForward then from_pos T j else upto_pos T (Suc j))"
    unfolding merging_at_def by auto
  let ?c = "fst (T ! j)"
  have c: "?c < length (mg_children m)" using T by (auto simp: owners_ok_def)
  have cur: "mg_current m = Some ?c" using T by (simp add: current_at_def)
  have w: "wrapped_at I at (mg_children m ! ?c) (own ?c T) (from_pos T j ?c)"
    using T(7) c T(5) by (auto simp: children_at_def upto_pos_Suc split: if_splits)
  show thesis
    by (rule that[of T])
      (use T(1-5,7) c cur wrapped_facts(3,4)[OF w owner_pos(1)[OF T(5)]] owner_pos(2)[OF T(5)] in \<open>simp_all add: mg_key_def mg_value_def\<close>)
qed

lemma merging_forward:
  assumes T: "ascending compare ok (map snd T)" "owners_ok (length (mg_children m)) T" "Compare (mg_comparator m) = compare"
    and at: "children_at I at (mg_children m) T (from_pos T j)" and j: "j \<le> length T" and dir: "d = kForward"
  shows "merging_at I compare ok at ((FindSmallest m)\<lparr>mg_direction := d\<rparr>) (map snd T) j"
  unfolding merging_at_def smallest_child[OF T at] dir
  by (rule exI[of _ T]) (use T at j in \<open>auto\<close>)

lemma merging_reverse:
  assumes T: "ascending compare ok (map snd T)" "owners_ok (length (mg_children m)) T" "Compare (mg_comparator m) = compare"
    and at: "children_at I at (mg_children m) T (upto_pos T j)" and j: "j \<le> length T" and dir: "d = kReverse"
  shows "merging_at I compare ok at ((FindLargest m)\<lparr>mg_direction := d\<rparr>) (map snd T)
    (if j = 0 then length T else j - 1)"
  unfolding merging_at_def largest_child[OF T at j] dir
  by (rule exI[of _ T]) (use T at j in \<open>auto simp: current_at_def\<close>)

lemma merging_new:
  assumes "ascending compare ok (map snd T)" "owners_ok (length its) T" "Compare C = compare"
    and "\<And>c. c < length its \<Longrightarrow> \<exists>i. at (its ! c) (own c T) i"
  shows "merging_at I compare ok at (new_MergingIterator I C its) (map snd T) (length T)"
proof -
  have "\<exists>i. wrapped_at I at (mg_children (new_MergingIterator I C its) ! c) (own c T) i" if "c < length its" for c
    using assms(4)[OF that] that wrapped_Update by (fastforce simp: new_MergingIterator_def iw_Set_def)
  then obtain pos where "\<And>c. c < length its \<Longrightarrow>
      wrapped_at I at (mg_children (new_MergingIterator I C its) ! c) (own c T) (pos c)" by metis
  then show ?thesis using assms(1-3)
    by (auto simp: merging_at_def children_at_def new_MergingIterator_def current_at_def)
qed

lemma foldl_status_ok: "(\<And>w. w \<in> set ws \<Longrightarrow> iw_status I w = Status_OK) \<Longrightarrow>
  foldl (\<lambda>status child. if Status_ok status then iw_status I child else status) Status_OK ws = Status_OK"
  by (induction ws) auto

lemma turn_forward:
  assumes T: "ascending compare ok (map snd T)" "Compare (mg_comparator m) = compare" "j < length T"
    and key: "mg_key m = fst (snd (T ! j))" and cur: "mg_current m = Some (fst (T ! j))"
    and at: "children_at I at (mg_children m) T (upto_pos T (Suc j))"
  shows "\<exists>ws. each_child (mg_forward_child I m) m = Some (m\<lparr>mg_children := ws\<rparr>) \<and>
    length ws = length (mg_children m) \<and> children_at I at ws T (from_pos T j)"
proof (rule children_each[OF at])
  fix c w assume c: "c < length (mg_children m)" and w: "wrapped_at I at w (own c T) (upto_pos T (Suc j) c)"
  show "\<exists>w'. mg_forward_child I m c w = Some w' \<and> wrapped_at I at w' (own c T) (from_pos T j c)"
  proof (cases "c = fst (T ! j)")
    case True
    then show ?thesis using w T(3) cur by (simp add: mg_forward_child_def upto_pos_Suc)
  next
    case False
    have okk: "ok (mg_key m)" using T(1,3) key by (auto simp: ascending_def)
    have len: "length (below compare (mg_key m) fst (map snd T)) = j" using below_key[OF T(1), of j] T(3) key by simp
    obtain w' where w': "iw_Seek I (mg_key m) w = Some w'" "wrapped_at I at w' (own c T) (from_pos T j c)"
      using wrapped_moves(3)[OF w okk] own_below_from[OF T(1) okk, of c] len by auto
    have "compare (mg_key m) (iw_cached_key w') \<noteq> 0" if valid: "iw_valid w'"
    proof -
      have some: "own c (drop j T) \<noteq> []" using wrapped_facts(2)[OF w'(2)] valid own_drop_iff[of c j T] by (simp add: from_pos_def)
      have k: "iw_cached_key w' = fst (hd (own c (drop j T)))"
        using wrapped_facts(3)[OF w'(2)] own_nth[OF some] own_drop_iff[of c j T] some by (simp add: from_pos_def)
      have split: "drop j T = T ! j # drop (Suc j) T" using T(3) by (simp add: Cons_nth_drop_Suc)
      then have "own c (drop j T) = own c (drop (Suc j) T)" using False by simp
      then have "hd (own c (drop j T)) \<in> set (map snd (drop (Suc j) T))"
        using some by (metis hd_in_set own_mem image_eqI list.set_map snd_conv)
      moreover have "ascending compare ok (map snd (drop j T))" using ascending_drop[OF T(1)] by (simp add: drop_map)
      ultimately show ?thesis unfolding split k key by (auto simp: ascending_Cons)
    qed
    then show ?thesis using False cur w' T(2) by (auto simp: mg_forward_child_def)
  qed
qed

lemma turn_reverse:
  assumes T: "ascending compare ok (map snd T)" "Compare (mg_comparator m) = compare" "j < length T"
    and key: "mg_key m = fst (snd (T ! j))" and cur: "mg_current m = Some (fst (T ! j))"
    and at: "children_at I at (mg_children m) T (from_pos T j)"
  shows "\<exists>ws. each_child (mg_reverse_child I m) m = Some (m\<lparr>mg_children := ws\<rparr>) \<and>
    length ws = length (mg_children m) \<and> children_at I at ws T (upto_pos T (Suc j))"
proof (rule children_each[OF at])
  fix c w assume c: "c < length (mg_children m)" and w: "wrapped_at I at w (own c T) (from_pos T j c)"
  show "\<exists>w'. mg_reverse_child I m c w = Some w' \<and> wrapped_at I at w' (own c T) (upto_pos T (Suc j) c)"
  proof (cases "c = fst (T ! j)")
    case True
    then show ?thesis using w T(3) cur by (simp add: mg_reverse_child_def upto_pos_Suc)
  next
    case False
    have okk: "ok (mg_key m)" using T(1,3) key by (auto simp: ascending_def)
    have len: "length (below compare (mg_key m) fst (map snd T)) = j" using below_key[OF T(1), of j] T(3) key by simp
    obtain w' where w': "iw_Seek I (mg_key m) w = Some w'" "wrapped_at I at w' (own c T) (from_pos T j c)"
      using wrapped_moves(3)[OF w okk] own_below_from[OF T(1) okk, of c] len by auto
    have "\<exists>w''. (if iw_valid w' then iw_Prev I w' else iw_SeekToLast I w') = Some w'' \<and>
        wrapped_at I at w'' (own c T) (upto_pos T j c)"
    proof (cases "iw_valid w'")
      case True
      then show ?thesis using wrapped_moves(5)[OF w'(2)] wrapped_facts(2)[OF w'(2)] by (simp add: upto_pos_def)
    next
      case False
      then have "from_pos T j c = length (own c T)" using wrapped_facts(1,2)[OF w'(2)] by simp
      then have "upto_pos T j c = length (own c T) - 1" by (simp add: upto_pos_def)
      then show ?thesis using False wrapped_moves(2)[OF w'(2)] by simp
    qed
    then show ?thesis using False cur w' T(3) by (simp add: mg_reverse_child_def upto_pos_Suc)
  qed
qed

lemma merging_Next:
  assumes m: "merging_at I compare ok at m kvs j" and j: "j < length kvs"
  shows "\<exists>m'. mg_Next I m = Some m' \<and> merging_at I compare ok at m' kvs (Suc j)"
proof -
  obtain T where T: "kvs = map snd T" "ascending compare ok (map snd T)"
    "owners_ok (length (mg_children m)) T" "Compare (mg_comparator m) = compare" "j < length T"
    "mg_current m = Some (fst (T ! j))" "fst (T ! j) < length (mg_children m)" "mg_key m = fst (snd (T ! j))"
    "children_at I at (mg_children m) T (if mg_direction m = kForward then from_pos T j else upto_pos T (Suc j))"
    using merging_view[OF m j] by blast
  have "\<exists>ws. (if mg_direction m \<noteq> kForward
        then map_option (mg_direction_update (\<lambda>_. kForward)) (each_child (mg_forward_child I m) m)
        else Some m) = Some (m\<lparr>mg_children := ws, mg_direction := kForward\<rparr>) \<and>
      length ws = length (mg_children m) \<and> children_at I at ws T (from_pos T j)"
  proof (cases "mg_direction m = kForward")
    case True
    then show ?thesis using T(9) by (intro exI[of _ "mg_children m"]) simp
  next
    case False
    then show ?thesis using turn_forward[OF T(2,4,5,8,6)] T(9) by auto
  qed
  then obtain ws where ws: "(if mg_direction m \<noteq> kForward
        then map_option (mg_direction_update (\<lambda>_. kForward)) (each_child (mg_forward_child I m) m)
        else Some m) = Some (m\<lparr>mg_children := ws, mg_direction := kForward\<rparr>)"
    "length ws = length (mg_children m)" "children_at I at ws T (from_pos T j)" by blast
  let ?m = "m\<lparr>mg_children := ws, mg_direction := kForward\<rparr>"
  have "\<exists>ws'. step_current (iw_Next I) ?m = Some (?m\<lparr>mg_children := ws'\<rparr>) \<and>
      length ws' = length (mg_children ?m) \<and> children_at I at ws' T (from_pos T (Suc j))"
    by (rule children_step[of ?m T "from_pos T j" "fst (T ! j)"])
      (use T ws owner_pos(1)[OF T(5)] wrapped_moves(4) in \<open>auto simp: from_pos_Suc children_at_def\<close>)
  then obtain ws' where ws': "step_current (iw_Next I) ?m = Some (?m\<lparr>mg_children := ws'\<rparr>)"
    "length ws' = length (mg_children m)" "children_at I at ws' T (from_pos T (Suc j))" using ws(2) by auto
  have "mg_Valid m" using T(6) by (simp add: mg_Valid_def)
  then have "mg_Next I m = Some (FindSmallest (?m\<lparr>mg_children := ws'\<rparr>))" unfolding mg_Next_def ws(1) using ws'(1) by simp
  moreover have "(FindSmallest (?m\<lparr>mg_children := ws'\<rparr>))\<lparr>mg_direction := kForward\<rparr> = FindSmallest (?m\<lparr>mg_children := ws'\<rparr>)"
    by (simp add: FindSmallest_def Let_def)
  moreover have "merging_at I compare ok at ((FindSmallest (?m\<lparr>mg_children := ws'\<rparr>))\<lparr>mg_direction := kForward\<rparr>) (map snd T) (Suc j)"
    by (rule merging_forward) (use T ws' in simp_all)
  ultimately show ?thesis using T(1) by simp
qed

lemma merging_Prev:
  assumes m: "merging_at I compare ok at m kvs j" and j: "j < length kvs"
  shows "\<exists>m'. mg_Prev I m = Some m' \<and> merging_at I compare ok at m' kvs (if j = 0 then length kvs else j - 1)"
proof -
  obtain T where T: "kvs = map snd T" "ascending compare ok (map snd T)"
    "owners_ok (length (mg_children m)) T" "Compare (mg_comparator m) = compare" "j < length T"
    "mg_current m = Some (fst (T ! j))" "fst (T ! j) < length (mg_children m)" "mg_key m = fst (snd (T ! j))"
    "children_at I at (mg_children m) T (if mg_direction m = kForward then from_pos T j else upto_pos T (Suc j))"
    using merging_view[OF m j] by blast
  have "\<exists>ws. (if mg_direction m \<noteq> kReverse
        then map_option (mg_direction_update (\<lambda>_. kReverse)) (each_child (mg_reverse_child I m) m)
        else Some m) = Some (m\<lparr>mg_children := ws, mg_direction := kReverse\<rparr>) \<and>
      length ws = length (mg_children m) \<and> children_at I at ws T (upto_pos T (Suc j))"
  proof (cases "mg_direction m = kForward")
    case True
    then show ?thesis using turn_reverse[OF T(2,4,5,8,6)] T(9) by auto
  next
    case False
    then have "mg_direction m = kReverse" by (cases "mg_direction m") simp_all
    then show ?thesis using T(9) by (intro exI[of _ "mg_children m"]) simp
  qed
  then obtain ws where ws: "(if mg_direction m \<noteq> kReverse
        then map_option (mg_direction_update (\<lambda>_. kReverse)) (each_child (mg_reverse_child I m) m)
        else Some m) = Some (m\<lparr>mg_children := ws, mg_direction := kReverse\<rparr>)"
    "length ws = length (mg_children m)" "children_at I at ws T (upto_pos T (Suc j))" by blast
  let ?m = "m\<lparr>mg_children := ws, mg_direction := kReverse\<rparr>"
  have "\<exists>ws'. step_current (iw_Prev I) ?m = Some (?m\<lparr>mg_children := ws'\<rparr>) \<and>
      length ws' = length (mg_children ?m) \<and> children_at I at ws' T (upto_pos T j)"
  proof (rule children_step[of ?m T "upto_pos T (Suc j)" "fst (T ! j)"])
    have "wrapped_at I at (ws ! fst (T ! j)) (own (fst (T ! j)) T) (from_pos T j (fst (T ! j)))"
      using ws(3)[unfolded children_at_def, rule_format, of "fst (T ! j)"] ws(2) T(7) by (simp add: upto_pos_Suc[OF T(5)])
    then show "\<exists>w'. iw_Prev I (mg_children ?m ! fst (T ! j)) = Some w' \<and> wrapped_at I at w' (own (fst (T ! j)) T) (upto_pos T j (fst (T ! j)))"
      using wrapped_moves(5) owner_pos(1)[OF T(5)] by (simp add: upto_pos_def del: if_split)
  qed (use T ws in \<open>simp_all add: upto_pos_Suc\<close>)
  then obtain ws' where ws': "step_current (iw_Prev I) ?m = Some (?m\<lparr>mg_children := ws'\<rparr>)"
    "length ws' = length (mg_children m)" "children_at I at ws' T (upto_pos T j)" using ws(2) by auto
  have "mg_Valid m" using T(6) by (simp add: mg_Valid_def)
  then have "mg_Prev I m = Some (FindLargest (?m\<lparr>mg_children := ws'\<rparr>))" unfolding mg_Prev_def ws(1) using ws'(1) by simp
  moreover have "(FindLargest (?m\<lparr>mg_children := ws'\<rparr>))\<lparr>mg_direction := kReverse\<rparr> = FindLargest (?m\<lparr>mg_children := ws'\<rparr>)"
    by (simp add: FindLargest_def Let_def)
  moreover have "merging_at I compare ok at ((FindLargest (?m\<lparr>mg_children := ws'\<rparr>))\<lparr>mg_direction := kReverse\<rparr>) (map snd T)
      (if j = 0 then length T else j - 1)"
    by (rule merging_reverse) (use T ws' in simp_all)
  ultimately show ?thesis unfolding T(1) length_map by metis
qed

lemma merging_contract: "sorted_iterator (merging I) compare ok (merging_at I compare ok at)"
proof
  fix m kvs j assume m: "merging_at I compare ok at m kvs j"
  then obtain T pos where T: "kvs = map snd T" "ascending compare ok (map snd T)" "owners_ok (length (mg_children m)) T"
    "Compare (mg_comparator m) = compare" "j \<le> length T" "mg_current m = current_at T j"
    "children_at I at (mg_children m) T pos"
    unfolding merging_at_def by auto
  note each = children_each[OF T(7)]
  show "ascending compare ok kvs" "j \<le> length kvs" using T by simp_all
  show "it_Valid (merging I) m \<longleftrightarrow> j < length kvs"
    using T(1,6) by (simp add: merging_def mg_Valid_def current_at_def)
  show "(it_key (merging I) m, it_value (merging I) m) = kvs ! j" if "j < length kvs"
    by (rule merging_view[OF m that]) (simp add: merging_def nth_map)
  show "it_status (merging I) m = Status_OK"
  proof -
    have "mg_status I m = Status_OK"
      unfolding mg_status_def
      by (rule foldl_status_ok) (use T(7) wrapped_facts(5) in \<open>auto simp: children_at_def in_set_conv_nth\<close>)
    then show ?thesis by (simp add: merging_def)
  qed
  show "\<exists>m'. it_SeekToFirst (merging I) m = Some m' \<and> merging_at I compare ok at m' kvs 0"
  proof -
    obtain ws where "each_child (\<lambda>i. iw_SeekToFirst I) m = Some (m\<lparr>mg_children := ws\<rparr>)"
      "length ws = length (mg_children m)" "children_at I at ws T (from_pos T 0)"
      using each[of "\<lambda>i. iw_SeekToFirst I" "from_pos T 0"] wrapped_moves(1) by (auto simp: from_pos_def)
    then show ?thesis using merging_forward[OF T(2), of "m\<lparr>mg_children := ws\<rparr>" 0] T(1,3,4)
      by (simp add: merging_def mg_SeekToFirst_def)
  qed
  show "\<exists>m'. it_SeekToLast (merging I) m = Some m' \<and> merging_at I compare ok at m' kvs (length kvs - 1)"
  proof -
    have "upto_pos T (length T) c = length (own c T) - 1" for c by (simp add: upto_pos_def from_pos_def)
    then obtain ws where "each_child (\<lambda>i. iw_SeekToLast I) m = Some (m\<lparr>mg_children := ws\<rparr>)"
      "length ws = length (mg_children m)" "children_at I at ws T (upto_pos T (length T))"
      using each[of "\<lambda>i. iw_SeekToLast I" "upto_pos T (length T)"] wrapped_moves(2) by auto
    then show ?thesis using merging_reverse[OF T(2), of "m\<lparr>mg_children := ws\<rparr>" "length T"] T(1,3,4)
      by (simp add: merging_def mg_SeekToLast_def split: if_splits)
  qed
  show "\<exists>m'. it_Seek (merging I) target m = Some m' \<and> merging_at I compare ok at m' kvs (length (below compare target fst kvs))"
    if okt: "ok target" for target
  proof -
    let ?j = "length (below compare target fst kvs)"
    have "\<exists>w'. iw_Seek I target w = Some w' \<and> wrapped_at I at w' (own c T) (from_pos T ?j c)"
      if "wrapped_at I at w (own c T) (pos c)" for c w
      using wrapped_moves(3)[OF that okt] own_below_from[OF T(2) okt, of c] T(1) by simp
    then obtain ws where "each_child (\<lambda>i. iw_Seek I target) m = Some (m\<lparr>mg_children := ws\<rparr>)"
      "length ws = length (mg_children m)" "children_at I at ws T (from_pos T ?j)"
      using each[of "\<lambda>i. iw_Seek I target" "from_pos T ?j"] by blast
    moreover have "?j \<le> length T" using T(1) by (simp add: below_def le_trans[OF length_filter_le])
    ultimately show ?thesis using merging_forward[OF T(2), of "m\<lparr>mg_children := ws\<rparr>" ?j] T(1,3,4)
      by (simp add: merging_def mg_Seek_def)
  qed
  assume j: "j < length kvs"
  show "\<exists>m'. it_Next (merging I) m = Some m' \<and> merging_at I compare ok at m' kvs (Suc j)"
    using merging_Next[OF m j] by (simp add: merging_def)
  show "\<exists>m'. it_Prev (merging I) m = Some m' \<and> merging_at I compare ok at m' kvs (if j = 0 then length kvs else j - 1)"
    using merging_Prev[OF m j] by (simp add: merging_def)
qed

end

section \<open>The properties\<close>

definition NewMergingIterator :: "'i Iterator \<Rightarrow> Comparator \<Rightarrow> 'i list \<Rightarrow> Status + 'i + 'i MergingIterator" where
  "NewMergingIterator I comparator children =
     (if length children = 0 then Inl NewEmptyIterator
      else if length children = 1 then Inr (Inl (children ! 0))
      else Inr (Inr (new_MergingIterator I comparator children)))"

definition merged :: "'i Iterator \<Rightarrow> (Status + 'i + 'i MergingIterator) Iterator" where
  "merged I = it_sum empty_iterators (it_sum I (merging I))"

definition merged_at ::
  "'i Iterator \<Rightarrow> (slice \<Rightarrow> slice \<Rightarrow> int) \<Rightarrow> (slice \<Rightarrow> bool) \<Rightarrow> ('i \<Rightarrow> entries \<Rightarrow> nat \<Rightarrow> bool) \<Rightarrow>
   Status + 'i + 'i MergingIterator \<Rightarrow> entries \<Rightarrow> nat \<Rightarrow> bool" where
  "merged_at I compare ok at = case_sum (empty_at compare ok) (case_sum at (merging_at I compare ok at))"

interpretation block_merging: sorted_iterator "merging block_iterators" "Compare C" ok
    "merging_at block_iterators (Compare C) ok (block_pos C ok)" for C ok
  by (rule block_iters.merging_contract)

definition mutually_apart :: "(slice \<Rightarrow> slice \<Rightarrow> int) \<Rightarrow> entries list \<Rightarrow> bool" where
  "mutually_apart compare L \<longleftrightarrow> (\<forall>d < length L. \<forall>c < d. keys_apart compare (L ! c) (L ! d))"

lemma merge_lists_merged:
  assumes "compare_order compare ok" "\<And>c. c < length L \<Longrightarrow> ascending compare ok (L ! c)" "mutually_apart compare L"
  shows "ascending compare ok (map snd (merge_lists compare L))" "owners_ok (length L) (merge_lists compare L)"
    "\<And>c. c < length L \<Longrightarrow> own c (merge_lists compare L) = L ! c"
  using merge_lists_ok[OF assms(1,2), of "length L"] assms(3)
  by (auto simp: merge_lists_def owners_ok_def mutually_apart_def)

lemma set_merge_lists:
  assumes "owners_ok (length L) T" "\<And>c. c < length L \<Longrightarrow> own c T = L ! c"
  shows "set (map snd T) = \<Union> (set (map set L))"
proof (intro set_eqI iffI)
  fix x assume "x \<in> set (map snd T)"
  then obtain c where "(c, x) \<in> set T" by auto
  then have "c < length L" "x \<in> set (L ! c)" using assms own_mem[of x c T] by (auto simp: owners_ok_def)
  then show "x \<in> \<Union> (set (map set L))" by auto
next
  fix x assume "x \<in> \<Union> (set (map set L))"
  then obtain c where "c < length L" "x \<in> set (L ! c)" by (auto simp: set_conv_nth[of L])
  then have "(c, x) \<in> set T" using assms(2) own_mem[of x c T] by simp
  then show "x \<in> set (map snd T)" by force
qed

lemma merged_new:
  assumes order: "compare_order compare ok" and I: "sorted_iterator I compare ok at" and C: "Compare C = compare"
    and len: "length its = length L" and apart: "mutually_apart compare L"
    and at: "\<And>c. c < length its \<Longrightarrow> \<exists>i. at (its ! c) (L ! c) i"
  shows "\<exists>j. merged_at I compare ok at (NewMergingIterator I C its) (map snd (merge_lists compare L)) j"
proof -
  have asc: "ascending compare ok (L ! c)" if "c < length L" for c
    using at[of c] sorted_iterator.ascending[OF I] that len by metis
  note T = merge_lists_merged[OF order asc apart]
  consider "length its = 0" | "length its = 1" | "length its > 1" by linarith
  then show ?thesis
  proof cases
    case 1
    then show ?thesis using len order
      by (simp add: merged_at_def NewMergingIterator_def NewEmptyIterator_def empty_at_def merge_lists_def)
  next
    case 2
    then have "map snd (merge_lists compare L) = L ! 0" using len by (simp add: merge_lists_def comp_def)
    then show ?thesis using 2 at[of 0] by (simp add: merged_at_def NewMergingIterator_def)
  next
    case 3
    have "merging_at I compare ok at (new_MergingIterator I C its) (map snd (merge_lists compare L)) (length (merge_lists compare L))"
      by (rule sorted_iterator.merging_new[OF I]) (use T C at len in auto)
    then show ?thesis using 3 by (auto simp: merged_at_def NewMergingIterator_def)
  qed
qed

text \<open>C17. The merging iterator satisfies the contract of iterators for the merge of the entries of its children,
  which are iterators of any kind that satisfies the contract, none, one or many, and have no key in common. So the keys
  come out in order, each entry of a child exactly once, also when the direction changes in the middle.\<close>

theorem merging_iterator:
  assumes order: "compare_order compare ok" and I: "sorted_iterator I compare ok at" and C: "Compare C = compare"
    and len: "length its = length L" and apart: "mutually_apart compare L"
    and at: "\<And>c. c < length its \<Longrightarrow> \<exists>i. at (its ! c) (L ! c) i"
  shows "sorted_iterator (merged I) compare ok (merged_at I compare ok at) \<and>
    (\<exists>j. merged_at I compare ok at (NewMergingIterator I C its) (map snd (merge_lists compare L)) j) \<and>
    set (map snd (merge_lists compare L)) = \<Union> (set (map set L))"
proof (intro conjI)
  show "sorted_iterator (merged I) compare ok (merged_at I compare ok at)"
    unfolding merged_def merged_at_def
    by (intro sum_contract empty_iters.sorted_iterator_axioms I sorted_iterator.merging_contract[OF I])
  show "\<exists>j. merged_at I compare ok at (NewMergingIterator I C its) (map snd (merge_lists compare L)) j"
    by (rule merged_new[OF assms])
  have asc: "ascending compare ok (L ! c)" if "c < length L" for c
    using at[of c] sorted_iterator.ascending[OF I] that len by metis
  show "set (map snd (merge_lists compare L)) = \<Union> (set (map set L))"
    by (rule set_merge_lists) (use merge_lists_merged[OF order asc apart] in auto)
qed

definition sample_blocks :: "entries list" where
  "sample_blocks = [[([1], [10]), ([3], [30])], [([2], [20])]]"

theorem merging_iterator_witness:
  "\<exists>m m'. NewMergingIterator opened_iterators BytewiseComparator
       (map (\<lambda>kvs. Block_NewIterator BytewiseComparator (new_Block (build_block 1 kvs))) sample_blocks) = m \<and>
     it_Seek (merged opened_iterators) [2] m = Some m' \<and> it_Valid (merged opened_iterators) m' \<and>
     (it_key (merged opened_iterators) m', it_value (merged opened_iterators) m') = ([2], [20])"
proof -
  let ?I = "opened_iterators" and ?C = BytewiseComparator
  let ?its = "map (\<lambda>kvs. Block_NewIterator ?C (new_Block (build_block 1 kvs))) sample_blocks"
  let ?at = "merged_at ?I (Compare ?C) (\<lambda>_. True) (opened_at ?C (\<lambda>_. True))"
  have order: "compare_order (Compare ?C) (\<lambda>_. True)" by (rule bytewise.compare_order_axioms)
  have apart: "mutually_apart (Compare ?C) sample_blocks"
    unfolding mutually_apart_def keys_apart_def sample_blocks_def by code_simp
  have m: "map snd (merge_lists (Compare ?C) sample_blocks) = [([1], [10]), ([2], [20]), ([3], [30])]"
    unfolding sample_blocks_def by code_simp
  have cut: "length (below (Compare ?C) [2] fst [([1], [10]), ([2], [20]), ([3], [30 :: 8 word])]) = 1" by code_simp
  have sorted: "ascending (Compare ?C) (\<lambda>_. True) (sample_blocks ! c)" if "c < length sample_blocks" for c
  proof -
    have "Compare ?C [1] [3] < 0" by code_simp
    then show ?thesis using that order by (auto simp: sample_blocks_def ascending_def less_Suc_eq)
  qed
  have open_at: "opened_at ?C (\<lambda>_. True) (?its ! c) (sample_blocks ! c) (length (sample_blocks ! c))" if "c < length ?its" for c
  proof -
    have "length (build_block 1 (sample_blocks ! c)) < 2 ^ 32"
      using length_build_block[of 1 "sample_blocks ! c"] that by (auto simp: sample_blocks_def less_Suc_eq)
    then show ?thesis using opened_block[of 1 "sample_blocks ! c" ?C "\<lambda>_. True"] sorted[of c] that by simp
  qed
  have contract: "sorted_iterator (merged ?I) (Compare ?C) (\<lambda>_. True) ?at"
    and "\<exists>j. ?at (NewMergingIterator ?I ?C ?its) (map snd (merge_lists (Compare ?C) sample_blocks)) j"
    using merging_iterator[OF order opened_iters.sorted_iterator_axioms refl _ apart, of ?its] open_at by auto
  then obtain j where j: "?at (NewMergingIterator ?I ?C ?its) [([1], [10]), ([2], [20]), ([3], [30])] j" unfolding m by blast
  obtain m' where m': "it_Seek (merged ?I) [2] (NewMergingIterator ?I ?C ?its) = Some m'"
      "?at m' [([1], [10]), ([2], [20]), ([3], [30])] 1"
    using sorted_iterator.Seek[OF contract j, of "[2]"] unfolding cut by blast
  then show ?thesis
    using sorted_iterator.Valid[OF contract m'(2)] sorted_iterator.entry[OF contract m'(2)] by auto
qed

end
