(* ===== verification/Ldb_Db_Iter.thy ===== *)
theory Ldb_Db_Iter
  imports Ldb_Merger Ldb_Memtable
begin

text \<open>
  The iterator of a database: \<^verbatim>\<open>db/db_iter.cc\<close>.

  It turns an iterator over internal keys into one over user keys: of the entries of a user key it shows the
  newest that the snapshot includes, unless that is a deletion. \<open>user_view\<close> is the list of what is to be seen; the
  locale \<open>db_iterator\<close> shows that the iterator satisfies the contract of iterators for it, in both directions.
  The string \<^verbatim>\<open>skip\<close> of the code is \<^verbatim>\<open>saved_key_\<close> in every call. The samples that are reported to the database
  are the list \<open>di_samples\<close>. The capacity of a string, which decides whether its memory is given back, is not
  observable and not modelled.
\<close>

record 'i DBIter =
  di_user_comparator :: Comparator
  di_iter :: 'i
  di_sequence :: SequenceNumber
  di_status :: Status
  di_saved_key :: slice
  di_saved_value :: slice
  di_direction :: Direction
  di_valid :: bool
  di_rnd :: "32 word"
  di_bytes_until_read_sampling :: nat
  di_samples :: "slice list"

definition kReadBytesPeriod :: "32 word" where
  "kReadBytesPeriod = 1048576"

definition RandomCompactionPeriod :: "32 word \<Rightarrow> nat \<times> 32 word" where
  "RandomCompactionPeriod rn = (let (n, rn) = Random_Uniform rn (2 * kReadBytesPeriod) in (unat n, rn))"

definition NewDBIterator :: "Comparator \<Rightarrow> 'i \<Rightarrow> SequenceNumber \<Rightarrow> 32 word \<Rightarrow> 'i DBIter" where
  "NewDBIterator cmp iter s seed =
     (let (n, rn) = RandomCompactionPeriod (new_Random seed) in
      \<lparr>di_user_comparator = cmp, di_iter = iter, di_sequence = s, di_status = Status_OK, di_saved_key = [],
       di_saved_value = [], di_direction = kForward, di_valid = False, di_rnd = rn,
       di_bytes_until_read_sampling = n, di_samples = []\<rparr>)"

definition di_key :: "'i Iterator \<Rightarrow> 'i DBIter \<Rightarrow> slice" where
  "di_key I d = (if di_direction d = kForward then ExtractUserKey (it_key I (di_iter d)) else di_saved_key d)"

definition di_value :: "'i Iterator \<Rightarrow> 'i DBIter \<Rightarrow> slice" where
  "di_value I d = (if di_direction d = kForward then it_value I (di_iter d) else di_saved_value d)"

definition di_the_status :: "'i Iterator \<Rightarrow> 'i DBIter \<Rightarrow> Status" where
  "di_the_status I d = (if Status_ok (di_status d) then it_status I (di_iter d) else di_status d)"

text \<open>The loop that schedules samples, and \<^verbatim>\<open>ParseKey\<close>.\<close>

partial_function (option) sample_loop :: "slice \<Rightarrow> nat \<Rightarrow> 'i DBIter \<Rightarrow> 'i DBIter option" where
  "sample_loop k bytes_read d =
     (if di_bytes_until_read_sampling d < bytes_read then
        let (n, rn) = RandomCompactionPeriod (di_rnd d) in
        sample_loop k bytes_read
          (d\<lparr>di_rnd := rn, di_bytes_until_read_sampling := di_bytes_until_read_sampling d + n,
             di_samples := di_samples d @ [k]\<rparr>)
      else Some d)"

definition ParseKey :: "'i Iterator \<Rightarrow> 'i DBIter \<Rightarrow> (ParsedInternalKey option \<times> 'i DBIter) option" where
  "ParseKey I d =
     (let k = it_key I (di_iter d);
          bytes_read = length k + length (it_value I (di_iter d))
      in case sample_loop k bytes_read d of
           None \<Rightarrow> None
         | Some d \<Rightarrow>
             let d = d\<lparr>di_bytes_until_read_sampling := di_bytes_until_read_sampling d - bytes_read\<rparr> in
             (case ParseInternalKey k of
                None \<Rightarrow> Some (None, d\<lparr>di_status := Corruption (text_bytes ''corrupted internal key in DBIter'') []\<rparr>)
              | Some ikey \<Rightarrow> Some (Some ikey, d)))"

text \<open>One round of the forward loop: \<open>None\<close> when the entry is to be yielded.\<close>

definition skip_entry :: "bool \<Rightarrow> ParsedInternalKey option \<Rightarrow> 'i DBIter \<Rightarrow> (bool \<times> 'i DBIter) option" where
  "skip_entry skipping ikey d =
     (case ikey of
        None \<Rightarrow> Some (skipping, d)
      | Some k \<Rightarrow>
          if sequence k \<le> di_sequence d then
            (case vtype k of
               kTypeDeletion \<Rightarrow> Some (True, d\<lparr>di_saved_key := user_key k\<rparr>)
             | kTypeValue \<Rightarrow>
                 if skipping \<and> Compare (di_user_comparator d) (user_key k) (di_saved_key d) \<le> 0
                 then Some (skipping, d) else None)
          else Some (skipping, d))"

partial_function (option) FindNextUserEntry :: "'i Iterator \<Rightarrow> bool \<Rightarrow> 'i DBIter \<Rightarrow> 'i DBIter option" where
  "FindNextUserEntry I skipping d =
     (case ParseKey I d of
        None \<Rightarrow> None
      | Some (ikey, d) \<Rightarrow>
          (case skip_entry skipping ikey d of
             None \<Rightarrow> Some (d\<lparr>di_valid := True, di_saved_key := []\<rparr>)
           | Some (skipping, d) \<Rightarrow>
               (case it_Next I (di_iter d) of
                  None \<Rightarrow> None
                | Some it \<Rightarrow>
                    if it_Valid I it then FindNextUserEntry I skipping (d\<lparr>di_iter := it\<rparr>)
                    else Some (d\<lparr>di_iter := it, di_saved_key := [], di_valid := False\<rparr>))))"

definition di_Next :: "'i Iterator \<Rightarrow> 'i DBIter \<Rightarrow> 'i DBIter option" where
  "di_Next I d =
     (if di_direction d = kReverse then
        (case (if \<not> it_Valid I (di_iter d) then it_SeekToFirst I (di_iter d) else it_Next I (di_iter d)) of
           None \<Rightarrow> None
         | Some it \<Rightarrow>
             let d = d\<lparr>di_direction := kForward, di_iter := it\<rparr> in
             if \<not> it_Valid I it then Some (d\<lparr>di_valid := False, di_saved_key := []\<rparr>)
             else FindNextUserEntry I True d)
      else FindNextUserEntry I True (d\<lparr>di_saved_key := ExtractUserKey (it_key I (di_iter d))\<rparr>))"

text \<open>One round of the backward loop: \<open>None\<close> for its \<^verbatim>\<open>break\<close>.\<close>

definition keep_entry ::
  "'i Iterator \<Rightarrow> ValueType \<Rightarrow> ParsedInternalKey option \<Rightarrow> 'i DBIter \<Rightarrow> (ValueType \<times> 'i DBIter) option" where
  "keep_entry I value_type ikey d =
     (case ikey of
        None \<Rightarrow> Some (value_type, d)
      | Some k \<Rightarrow>
          if sequence k \<le> di_sequence d then
            if value_type \<noteq> kTypeDeletion \<and> Compare (di_user_comparator d) (user_key k) (di_saved_key d) < 0 then None
            else if vtype k = kTypeDeletion
            then Some (vtype k, d\<lparr>di_saved_key := [], di_saved_value := []\<rparr>)
            else Some (vtype k, d\<lparr>di_saved_key := ExtractUserKey (it_key I (di_iter d)),
                                  di_saved_value := it_value I (di_iter d)\<rparr>)
          else Some (value_type, d))"

partial_function (option) find_prev_loop :: "'i Iterator \<Rightarrow> ValueType \<Rightarrow> 'i DBIter \<Rightarrow> (ValueType \<times> 'i DBIter) option" where
  "find_prev_loop I value_type d =
     (case ParseKey I d of
        None \<Rightarrow> None
      | Some (ikey, d) \<Rightarrow>
          (case keep_entry I value_type ikey d of
             None \<Rightarrow> Some (value_type, d)
           | Some (value_type, d) \<Rightarrow>
               (case it_Prev I (di_iter d) of
                  None \<Rightarrow> None
                | Some it \<Rightarrow>
                    if it_Valid I it then find_prev_loop I value_type (d\<lparr>di_iter := it\<rparr>)
                    else Some (value_type, d\<lparr>di_iter := it\<rparr>))))"

definition FindPrevUserEntry :: "'i Iterator \<Rightarrow> 'i DBIter \<Rightarrow> 'i DBIter option" where
  "FindPrevUserEntry I d =
     map_option (\<lambda>(value_type, d).
         if value_type = kTypeDeletion
         then d\<lparr>di_valid := False, di_saved_key := [], di_saved_value := [], di_direction := kForward\<rparr>
         else d\<lparr>di_valid := True\<rparr>)
       (if it_Valid I (di_iter d) then find_prev_loop I kTypeDeletion d else Some (kTypeDeletion, d))"

text \<open>The loop of \<^verbatim>\<open>Prev\<close> that leaves the entries of the current key; the flag says whether it did.\<close>

partial_function (option) leave_key :: "'i Iterator \<Rightarrow> 'i DBIter \<Rightarrow> (bool \<times> 'i DBIter) option" where
  "leave_key I d =
     (case it_Prev I (di_iter d) of
        None \<Rightarrow> None
      | Some it \<Rightarrow>
          let d = d\<lparr>di_iter := it\<rparr> in
          if \<not> it_Valid I it then Some (False, d\<lparr>di_valid := False, di_saved_key := [], di_saved_value := []\<rparr>)
          else if Compare (di_user_comparator d) (ExtractUserKey (it_key I it)) (di_saved_key d) < 0 then Some (True, d)
          else leave_key I d)"

definition di_Prev :: "'i Iterator \<Rightarrow> 'i DBIter \<Rightarrow> 'i DBIter option" where
  "di_Prev I d =
     (if di_direction d = kForward then
        (case leave_key I (d\<lparr>di_saved_key := ExtractUserKey (it_key I (di_iter d))\<rparr>) of
           None \<Rightarrow> None
         | Some (left, d) \<Rightarrow> if left then FindPrevUserEntry I (d\<lparr>di_direction := kReverse\<rparr>) else Some d)
      else FindPrevUserEntry I d)"

definition di_Seek :: "'i Iterator \<Rightarrow> slice \<Rightarrow> 'i DBIter \<Rightarrow> 'i DBIter option" where
  "di_Seek I target d =
     (let saved_key = AppendInternalKey [] \<lparr>user_key = target, sequence = di_sequence d, vtype = kValueTypeForSeek\<rparr> in
      case it_Seek I saved_key (di_iter d) of
        None \<Rightarrow> None
      | Some it \<Rightarrow>
          let d = d\<lparr>di_direction := kForward, di_saved_value := [], di_saved_key := saved_key, di_iter := it\<rparr> in
          if it_Valid I it then FindNextUserEntry I False d else Some (d\<lparr>di_valid := False\<rparr>))"

definition di_SeekToFirst :: "'i Iterator \<Rightarrow> 'i DBIter \<Rightarrow> 'i DBIter option" where
  "di_SeekToFirst I d =
     (case it_SeekToFirst I (di_iter d) of
        None \<Rightarrow> None
      | Some it \<Rightarrow>
          let d = d\<lparr>di_direction := kForward, di_saved_value := [], di_iter := it\<rparr> in
          if it_Valid I it then FindNextUserEntry I False d else Some (d\<lparr>di_valid := False\<rparr>))"

definition di_SeekToLast :: "'i Iterator \<Rightarrow> 'i DBIter \<Rightarrow> 'i DBIter option" where
  "di_SeekToLast I d =
     (case it_SeekToLast I (di_iter d) of
        None \<Rightarrow> None
      | Some it \<Rightarrow> FindPrevUserEntry I (d\<lparr>di_direction := kReverse, di_saved_value := [], di_iter := it\<rparr>))"

definition db_iterators :: "'i Iterator \<Rightarrow> 'i DBIter Iterator" where
  "db_iterators I =
     \<lparr>it_Valid = di_valid, it_SeekToFirst = di_SeekToFirst I, it_SeekToLast = di_SeekToLast I, it_Seek = di_Seek I,
      it_Next = di_Next I, it_Prev = di_Prev I, it_key = di_key I, it_value = di_value I, it_status = di_the_status I\<rparr>"


section \<open>Sampling ends\<close>

definition seed_ok :: "32 word \<Rightarrow> bool" where
  "seed_ok r \<longleftrightarrow> 0 < unat r \<and> unat r < random_M"

lemma seed_ok_Next: "seed_ok r \<Longrightarrow> seed_ok (Random_Next r)" and seed_ok_new: "seed_ok (new_Random s)"
  using random_next_correct[of r s] random_next_correct[of 1 s] by (auto simp: seed_ok_def random_M_def)

lemma RandomCompactionPeriod_eq: "RandomCompactionPeriod r = (unat (Random_Next r) mod 2 ^ 21, Random_Next r)"
  by (simp add: RandomCompactionPeriod_def Random_Uniform_def Let_def kReadBytesPeriod_def unat_mod)

text \<open>Of two periods in a row one is positive.\<close>

lemma period_positive:
  assumes "seed_ok r" "unat r mod 2 ^ 21 = 0"
  shows "unat (Random_Next r) mod 2 ^ 21 \<noteq> 0"
proof -
  obtain k where k: "unat r = k * 2 ^ 21" using assms(2) by (metis dvd_def mod_eq_0_iff_dvd mult.commute)
  have r: "0 < k" "k < 1024" using assms(1) k by (auto simp: seed_ok_def random_M_def)
  define a b where "a = k * 16807 div 1024" and "b = k * 16807 mod 1024"
  have ab: "k * 16807 = a * 1024 + b" "b < 1024" by (simp_all add: a_def b_def)
  have "unat r * 16807 = (a * 1024 + b) * 2 ^ 21" using k ab(1) by (simp add: algebra_simps)
  also have "\<dots> = a * random_M + (a + b * 2 ^ 21)" by (simp add: random_M_def algebra_simps)
  finally have e: "unat r * 16807 = a * random_M + (a + b * 2 ^ 21)" .
  have a: "0 < a" "a < 2 ^ 21" using ab r by simp_all
  have "a + b * 2 ^ 21 < random_M" using ab(2) a r ab(1) by (simp add: random_M_def)
  then have "unat (Random_Next r) = a + b * 2 ^ 21"
    using random_next_correct[of r 0] assms(1) e by (simp add: seed_ok_def)
  then show ?thesis using a by simp
qed

definition sampled :: "'i DBIter \<Rightarrow> 'i DBIter \<Rightarrow> bool" where
  "sampled d d' \<longleftrightarrow> (\<exists>r n s. d' = d\<lparr>di_rnd := r, di_bytes_until_read_sampling := n, di_samples := s\<rparr> \<and> seed_ok r)"

lemma sample_loop_returns:
  assumes "seed_ok (di_rnd d)"
  shows "\<exists>d'. sample_loop k b d = Some d' \<and> sampled d d' \<and> b \<le> di_bytes_until_read_sampling d'"
  using assms
proof (induction "2 * (b - di_bytes_until_read_sampling d) + (if unat (Random_Next (di_rnd d)) mod 2 ^ 21 = 0 then 1 else 0)"
    arbitrary: d rule: less_induct)
  case less
  show ?case
  proof (cases "di_bytes_until_read_sampling d < b")
    case False
    then have "sample_loop k b d = Some d" by (subst sample_loop.simps) simp
    moreover have "sampled d d"
      unfolding sampled_def using less.prems
      by (intro exI[of _ "di_rnd d"] exI[of _ "di_bytes_until_read_sampling d"] exI[of _ "di_samples d"]) simp
    ultimately show ?thesis using False by simp
  next
    case True
    let ?r = "Random_Next (di_rnd d)"
    define d1 where "d1 = d\<lparr>di_rnd := ?r, di_bytes_until_read_sampling := di_bytes_until_read_sampling d + unat ?r mod 2 ^ 21,
      di_samples := di_samples d @ [k]\<rparr>"
    have step: "sample_loop k b d = sample_loop k b d1"
      using True by (subst sample_loop.simps) (simp add: RandomCompactionPeriod_eq d1_def)
    have ok: "seed_ok (di_rnd d1)" using seed_ok_Next[OF less.prems] by (simp add: d1_def)
    have "2 * (b - di_bytes_until_read_sampling d1) + (if unat (Random_Next (di_rnd d1)) mod 2 ^ 21 = 0 then 1 else 0)
      < 2 * (b - di_bytes_until_read_sampling d) + (if unat (Random_Next (di_rnd d)) mod 2 ^ 21 = 0 then 1 else 0)"
    proof (cases "unat ?r mod 2 ^ 21 = 0")
      case True
      then show ?thesis using period_positive[OF seed_ok_Next[OF less.prems]] by (simp add: d1_def)
    next
      case False
      then have "0 < unat ?r mod 2 ^ 21" by simp
      then show ?thesis using True by (simp add: d1_def) linarith
    qed
    from less.hyps[OF this ok] obtain d' where d': "sample_loop k b d1 = Some d'" "sampled d1 d'"
      "b \<le> di_bytes_until_read_sampling d'" by blast
    have "sampled d d'" using d'(2) by (auto simp: sampled_def d1_def)
    then show ?thesis using d' step by simp
  qed
qed

lemma ParseKey_returns:
  assumes "seed_ok (di_rnd d)" "ParseInternalKey (it_key I (di_iter d)) = Some p"
  shows "\<exists>d'. ParseKey I d = Some (Some p, d') \<and> sampled d d'"
proof -
  obtain d' where d': "sample_loop (it_key I (di_iter d)) (length (it_key I (di_iter d)) + length (it_value I (di_iter d))) d = Some d'"
    "sampled d d'" using sample_loop_returns[OF assms(1)] by blast
  then obtain r n s where "d' = d\<lparr>di_rnd := r, di_bytes_until_read_sampling := n, di_samples := s\<rparr>" "seed_ok r"
    by (auto simp: sampled_def)
  then have "sampled d (d'\<lparr>di_bytes_until_read_sampling :=
      di_bytes_until_read_sampling d' - (length (it_key I (di_iter d)) + length (it_value I (di_iter d)))\<rparr>)"
    unfolding sampled_def
    by (intro exI[of _ r] exI[of _ "n - (length (it_key I (di_iter d)) + length (it_value I (di_iter d)))"] exI[of _ s]) simp
  then show ?thesis using d'(1) assms(2) by (simp add: ParseKey_def Let_def)
qed

section \<open>What the user sees\<close>

definition ent_user :: "entries \<Rightarrow> nat \<Rightarrow> slice" where
  "ent_user kvs j = ExtractUserKey (fst (kvs ! j))"

definition ent_seq :: "entries \<Rightarrow> nat \<Rightarrow> SequenceNumber" where
  "ent_seq kvs j = sequence (the (ParseInternalKey (fst (kvs ! j))))"

definition ent_live :: "entries \<Rightarrow> nat \<Rightarrow> bool" where
  "ent_live kvs j \<longleftrightarrow> vtype (the (ParseInternalKey (fst (kvs ! j)))) = kTypeValue"

definition shows_at :: "Comparator \<Rightarrow> SequenceNumber \<Rightarrow> entries \<Rightarrow> nat \<Rightarrow> bool" where
  "shows_at C s kvs j \<longleftrightarrow> j < length kvs \<and> ent_live kvs j \<and> ent_seq kvs j \<le> s \<and>
     (\<forall>i < j. Compare C (ent_user kvs i) (ent_user kvs j) = 0 \<longrightarrow> s < ent_seq kvs i)"

definition user_view :: "Comparator \<Rightarrow> SequenceNumber \<Rightarrow> entries \<Rightarrow> entries" where
  "user_view C s kvs = map (\<lambda>j. (ent_user kvs j, snd (kvs ! j))) (filter (shows_at C s kvs) [0..<length kvs])"

definition view_rank :: "Comparator \<Rightarrow> SequenceNumber \<Rightarrow> entries \<Rightarrow> nat \<Rightarrow> nat" where
  "view_rank C s kvs j = length (filter (shows_at C s kvs) [0..<j])"

lemma rank_Suc: "view_rank C s kvs (Suc j) = view_rank C s kvs j + (if shows_at C s kvs j then 1 else 0)"
  by (simp add: view_rank_def)

lemma rank_none:
  "(\<And>m. a \<le> m \<Longrightarrow> m < b \<Longrightarrow> \<not> shows_at C s kvs m) \<Longrightarrow> a \<le> b \<Longrightarrow> view_rank C s kvs a = view_rank C s kvs b"
proof (induction "b - a" arbitrary: b)
  case (Suc n)
  then obtain c where c: "b = Suc c" "a \<le> c" by (cases b) auto
  then have "view_rank C s kvs a = view_rank C s kvs c" using Suc(1)[of c] Suc(2,3) by auto
  then show ?case using Suc(3)[of c] c by (simp add: rank_Suc)
qed simp

lemma rank_positive: "view_rank C s kvs (Suc i) \<noteq> 0 \<longleftrightarrow> (\<exists>m \<le> i. shows_at C s kvs m)"
  unfolding view_rank_def length_0_conv filter_empty_conv by (auto simp: less_Suc_eq_le simp del: upt_Suc)

lemma length_user_view: "length (user_view C s kvs) = view_rank C s kvs (length kvs)"
  by (simp add: user_view_def view_rank_def)

lemma rank_shows:
  assumes "shows_at C s kvs j"
  shows "view_rank C s kvs j < length (user_view C s kvs)"
    "user_view C s kvs ! view_rank C s kvs j = (ent_user kvs j, snd (kvs ! j))"
proof -
  have "j < length kvs" using assms by (simp add: shows_at_def)
  then have "[0..<length kvs] = [0..<j] @ j # [Suc j..<length kvs]"
    by (metis le_add_diff_inverse less_imp_le upt_add_eq_append upt_conv_Cons zero_le)
  then have f: "filter (shows_at C s kvs) [0..<length kvs] =
    filter (shows_at C s kvs) [0..<j] @ j # filter (shows_at C s kvs) [Suc j..<length kvs]" using assms by simp
  show "view_rank C s kvs j < length (user_view C s kvs)" by (simp add: user_view_def view_rank_def f)
  show "user_view C s kvs ! view_rank C s kvs j = (ent_user kvs j, snd (kvs ! j))"
    by (simp add: user_view_def view_rank_def f nth_append)
qed


section \<open>The contract\<close>

definition db_keys_ok :: "entries \<Rightarrow> bool" where
  "db_keys_ok kvs \<longleftrightarrow> (\<forall>kv \<in> set kvs. ParseInternalKey (fst kv) \<noteq> None)"

text \<open>Moving forward from the entry \<open>i\<close> finds the first entry to be shown from \<open>b\<close> on: what is skipped is
  what is hidden.\<close>

definition may_skip :: "Comparator \<Rightarrow> SequenceNumber \<Rightarrow> entries \<Rightarrow> nat \<Rightarrow> bool \<Rightarrow> slice \<Rightarrow> nat \<Rightarrow> bool" where
  "may_skip C s kvs b skipping skip i \<longleftrightarrow>
     (\<forall>m. i \<le> m \<and> m < length kvs \<and> ent_seq kvs m \<le> s \<and> ent_live kvs m \<and>
          (\<forall>l. i \<le> l \<and> l < m \<and> Compare C (ent_user kvs l) (ent_user kvs m) = 0 \<longrightarrow> s < ent_seq kvs l) \<longrightarrow>
          (skipping \<and> Compare C (ent_user kvs m) skip \<le> 0 \<longleftrightarrow> \<not> (shows_at C s kvs m \<and> b \<le> m))) \<and>
     (skipping \<longrightarrow> (\<forall>m. i \<le> m \<and> m < length kvs \<and> ent_seq kvs m \<le> s \<longrightarrow> Compare C skip (ent_user kvs m) \<le> 0)) \<and>
     (\<forall>m < i. b \<le> m \<longrightarrow> \<not> shows_at C s kvs m)"

definition same_db :: "'i DBIter \<Rightarrow> 'i DBIter \<Rightarrow> bool" where
  "same_db d d' \<longleftrightarrow> di_user_comparator d' = di_user_comparator d \<and> di_sequence d' = di_sequence d \<and>
     di_status d' = di_status d \<and> seed_ok (di_rnd d')"

lemma sampledD:
  assumes "sampled d d'"
  shows "same_db d d'" "di_iter d' = di_iter d" "di_saved_key d' = di_saved_key d" "di_saved_value d' = di_saved_value d"
    "di_direction d' = di_direction d" "di_valid d' = di_valid d"
  using assms by (auto simp: sampled_def same_db_def)

text \<open>Moving backward: the entry that is kept is the newest so far of its user key that the snapshot includes.\<close>

definition kept_entry :: "SequenceNumber \<Rightarrow> entries \<Rightarrow> nat \<Rightarrow> 'i DBIter \<Rightarrow> nat \<Rightarrow> bool" where
  "kept_entry s kvs lo d c \<longleftrightarrow> lo \<le> c \<and> c < length kvs \<and> ent_live kvs c \<and> ent_seq kvs c \<le> s \<and>
     (di_saved_key d, di_saved_value d) = (ent_user kvs c, snd (kvs ! c)) \<and> (\<forall>m. lo \<le> m \<and> m < c \<longrightarrow> s < ent_seq kvs m)"

definition behind :: "entries \<Rightarrow> nat \<Rightarrow> nat \<Rightarrow> bool" where
  "behind kvs j lo \<longleftrightarrow> j = length kvs \<and> lo = 0 \<or> Suc j = lo"

text \<open>The states of the iterator: the position \<open>p\<close> in what the user sees, and where the inner iterator stands for it.\<close>

definition db_on :: "Comparator \<Rightarrow> ('i \<Rightarrow> entries \<Rightarrow> nat \<Rightarrow> bool) \<Rightarrow> 'i DBIter \<Rightarrow> entries \<Rightarrow> nat \<Rightarrow> bool" where
  "db_on C at d kvs j \<longleftrightarrow> at (di_iter d) kvs j \<and> db_keys_ok kvs \<and> di_user_comparator d = C \<and>
     di_sequence d \<le> kMaxSequenceNumber \<and> di_status d = Status_OK \<and> seed_ok (di_rnd d)"

definition db_at :: "Comparator \<Rightarrow> ('i \<Rightarrow> entries \<Rightarrow> nat \<Rightarrow> bool) \<Rightarrow> 'i DBIter \<Rightarrow> entries \<Rightarrow> nat \<Rightarrow> bool" where
  "db_at C at d vis p \<longleftrightarrow>
     (\<exists>kvs j. db_on C at d kvs j \<and> vis = user_view C (di_sequence d) kvs \<and>
        (if di_valid d
         then \<exists>c. shows_at C (di_sequence d) kvs c \<and> p = view_rank C (di_sequence d) kvs c \<and>
                (if di_direction d = kForward then j = c
                 else \<exists>lo. behind kvs j lo \<and> kept_entry (di_sequence d) kvs lo d c)
         else p = length vis))"

lemma db_onD:
  assumes "db_on C at d kvs j"
  shows "at (di_iter d) kvs j" "db_keys_ok kvs" "di_user_comparator d = C" "di_sequence d \<le> kMaxSequenceNumber"
    "di_status d = Status_OK" "seed_ok (di_rnd d)"
  using assms by (simp_all add: db_on_def)

lemma db_on_same: "db_on C at d kvs j \<Longrightarrow> same_db d d' \<Longrightarrow> at (di_iter d') kvs i \<Longrightarrow> db_on C at d' kvs i"
  by (simp add: db_on_def same_db_def)

lemma split_index:
  assumes "xs = ys @ zs" "j < length xs"
  shows "j < length ys \<and> xs ! j \<in> set ys \<or> \<not> j < length ys \<and> xs ! j \<in> set zs"
  using assms(2) unfolding assms(1) by (auto simp: nth_append)

lemma seq_of_num: "drop_bit 8 (n :: 64 word) \<le> kMaxSequenceNumber"
proof -
  have "unat (drop_bit 8 n) < 2 ^ 56" using unat_bound_64[of n] by (simp add: drop_bit_eq_div unat_div less_mult_imp_div_less)
  then show ?thesis by (simp add: kMaxSequenceNumber_def word_le_nat_alt)
qed

locale db_iterator = user_comparator C key_ok + inner: sorted_iterator I "Compare (InternalKeyComparator C)"
    "\<lambda>k. 8 \<le> length k \<and> key_ok (ExtractUserKey k)" at
  for C key_ok and I :: "'i Iterator" and at
begin

definition found_from :: "SequenceNumber \<Rightarrow> entries \<Rightarrow> nat \<Rightarrow> 'i DBIter \<Rightarrow> nat \<Rightarrow> bool" where
  "found_from s kvs b d i \<longleftrightarrow> at (di_iter d) kvs i \<and>
     (if di_valid d then shows_at C s kvs i \<and> b \<le> i \<and> (\<forall>m < i. b \<le> m \<longrightarrow> \<not> shows_at C s kvs m)
      else \<forall>m \<ge> b. \<not> shows_at C s kvs m)"

lemma ent_key_ok:
  assumes "at it kvs i" "j < length kvs"
  shows "key_ok (ent_user kvs j)" "8 \<le> length (fst (kvs ! j))"
  using inner.ascending[OF assms(1)] assms(2) by (auto simp: ascending_def ent_user_def)

lemma ent_sorted:
  assumes "at it kvs i" "l < m" "m < length kvs"
  shows "Compare C (ent_user kvs l) (ent_user kvs m) \<le> 0"
proof -
  have "Compare (InternalKeyComparator C) (fst (kvs ! l)) (fst (kvs ! m)) < 0"
    using inner.ascending[OF assms(1)] assms(2,3) by (simp add: ascending_def sorted_wrt_iff_nth_less)
  then show ?thesis by (auto simp: ikc_less ent_user_def)
qed

lemma ent_parsed:
  assumes "db_keys_ok kvs" "at it kvs i" "i < length kvs"
  shows "\<exists>p. ParseInternalKey (it_key I it) = Some p \<and> user_key p = ent_user kvs i \<and> sequence p = ent_seq kvs i \<and>
    (vtype p = kTypeValue \<longleftrightarrow> ent_live kvs i)"
proof -
  have k: "it_key I it = fst (kvs ! i)" by (rule inner.key[OF assms(2,3)])
  obtain p where p: "ParseInternalKey (fst (kvs ! i)) = Some p" using assms(1,3) by (fastforce simp: db_keys_ok_def)
  moreover have "user_key p = ExtractUserKey (fst (kvs ! i))"
    using p by (auto simp: ParseInternalKey_def ExtractUserKey_def Let_def split: if_splits)
  ultimately show ?thesis by (simp add: k ent_user_def ent_seq_def ent_live_def)
qed

lemma may_skip_step:
  assumes at: "at it kvs i" and i: "i < length kvs" and m: "may_skip C s kvs b skipping skip i"
    and sk: "skipping \<longrightarrow> key_ok skip"
  shows "\<not> ent_seq kvs i \<le> s \<Longrightarrow> may_skip C s kvs b skipping skip (Suc i)"
    and "ent_seq kvs i \<le> s \<Longrightarrow> \<not> ent_live kvs i \<Longrightarrow> may_skip C s kvs b True (ent_user kvs i) (Suc i)"
    and "ent_seq kvs i \<le> s \<Longrightarrow> ent_live kvs i \<Longrightarrow> skipping \<Longrightarrow> Compare C (ent_user kvs i) skip \<le> 0 \<Longrightarrow>
      may_skip C s kvs b skipping skip (Suc i)"
    and "ent_seq kvs i \<le> s \<Longrightarrow> ent_live kvs i \<Longrightarrow> \<not> (skipping \<and> Compare C (ent_user kvs i) skip \<le> 0) \<Longrightarrow>
      shows_at C s kvs i \<and> b \<le> i"
proof -
  have hid: "skipping \<and> Compare C (ent_user kvs l) skip \<le> 0 \<longleftrightarrow> \<not> (shows_at C s kvs l \<and> b \<le> l)"
    if "i \<le> l" "l < length kvs" "ent_seq kvs l \<le> s" "ent_live kvs l"
      "\<And>l'. i \<le> l' \<Longrightarrow> l' < l \<Longrightarrow> Compare C (ent_user kvs l') (ent_user kvs l) = 0 \<Longrightarrow> s < ent_seq kvs l'" for l
    using m that unfolding may_skip_def by blast
  have low: "Compare C skip (ent_user kvs l) \<le> 0" if "skipping" "i \<le> l" "l < length kvs" "ent_seq kvs l \<le> s" for l
    using m that unfolding may_skip_def by blast
  have no: "\<not> shows_at C s kvs l" if "l < i" "b \<le> l" for l using m that unfolding may_skip_def by blast
  have before: "\<not> shows_at C s kvs l" if "i < l" "Compare C (ent_user kvs i) (ent_user kvs l) = 0" "ent_seq kvs i \<le> s" for l
    using that by (force simp: shows_at_def)
  note k = ent_key_ok(1)[OF at]
  show "may_skip C s kvs b skipping skip (Suc i)" if "\<not> ent_seq kvs i \<le> s"
  proof -
    have "\<not> shows_at C s kvs i" using that by (simp add: shows_at_def)
    then have c3: "\<forall>l < Suc i. b \<le> l \<longrightarrow> \<not> shows_at C s kvs l" using no by (auto simp: less_Suc_eq)
    have c1: "skipping \<and> Compare C (ent_user kvs l) skip \<le> 0 \<longleftrightarrow> \<not> (shows_at C s kvs l \<and> b \<le> l)"
      if a: "Suc i \<le> l" "l < length kvs" "ent_seq kvs l \<le> s" "ent_live kvs l"
        "\<forall>l'. Suc i \<le> l' \<and> l' < l \<and> Compare C (ent_user kvs l') (ent_user kvs l) = 0 \<longrightarrow> s < ent_seq kvs l'" for l
    proof (rule hid)
      fix l' assume "i \<le> l'" "l' < l" "Compare C (ent_user kvs l') (ent_user kvs l) = 0"
      then show "s < ent_seq kvs l'" using a(5) \<open>\<not> ent_seq kvs i \<le> s\<close> by (cases "l' = i") auto
    qed (use a in auto)
    show ?thesis unfolding may_skip_def using c1 c3 low by (meson Suc_leD)
  qed
  show "may_skip C s kvs b True (ent_user kvs i) (Suc i)" if del: "ent_seq kvs i \<le> s" "\<not> ent_live kvs i"
  proof -
    have "\<not> shows_at C s kvs i" using del by (simp add: shows_at_def)
    then have c3: "\<forall>l < Suc i. b \<le> l \<longrightarrow> \<not> shows_at C s kvs l" using no by (auto simp: less_Suc_eq)
    have c1: "Compare C (ent_user kvs l) (ent_user kvs i) \<le> 0 \<longleftrightarrow> \<not> (shows_at C s kvs l \<and> b \<le> l)"
      if a: "Suc i \<le> l" "l < length kvs" "ent_seq kvs l \<le> s" "ent_live kvs l"
        "\<forall>l'. Suc i \<le> l' \<and> l' < l \<and> Compare C (ent_user kvs l') (ent_user kvs l) = 0 \<longrightarrow> s < ent_seq kvs l'" for l
    proof (cases "Compare C (ent_user kvs i) (ent_user kvs l) = 0")
      case True
      then show ?thesis using before[of l] a del eq_swap[OF k[OF i] k[OF a(2)]] by auto
    next
      case False
      then have less: "Compare C (ent_user kvs i) (ent_user kvs l) < 0" using ent_sorted[OF at, of i l] a by simp
      then have "\<not> Compare C (ent_user kvs l) (ent_user kvs i) \<le> 0" using swap[OF k[OF i] k[OF a(2)]] by simp
      moreover have "\<not> (skipping \<and> Compare C (ent_user kvs l) skip \<le> 0)"
      proof
        assume h: "skipping \<and> Compare C (ent_user kvs l) skip \<le> 0"
        then have "Compare C (ent_user kvs l) (ent_user kvs i) \<le> 0"
          using trans[OF k[OF a(2)] _ k[OF i]] sk low[of i] i del(1) by simp
        with less show False using swap[OF k[OF i] k[OF a(2)]] by simp
      qed
      moreover have "skipping \<and> Compare C (ent_user kvs l) skip \<le> 0 \<longleftrightarrow> \<not> (shows_at C s kvs l \<and> b \<le> l)"
      proof (rule hid)
        fix l' assume "i \<le> l'" "l' < l" "Compare C (ent_user kvs l') (ent_user kvs l) = 0"
        then show "s < ent_seq kvs l'" using a(5) False by (cases "l' = i") auto
      qed (use a in auto)
      ultimately show ?thesis by blast
    qed
    have c2: "Compare C (ent_user kvs i) (ent_user kvs l) \<le> 0" if "Suc i \<le> l" "l < length kvs" for l
      using ent_sorted[OF at, of i l] that by simp
    show ?thesis unfolding may_skip_def using c1 c2 c3 by blast
  qed
  show "may_skip C s kvs b skipping skip (Suc i)"
    if h: "ent_seq kvs i \<le> s" "ent_live kvs i" "skipping" "Compare C (ent_user kvs i) skip \<le> 0"
  proof -
    have "\<not> (shows_at C s kvs i \<and> b \<le> i)" using hid[of i] h i by simp
    then have c3: "\<forall>l < Suc i. b \<le> l \<longrightarrow> \<not> shows_at C s kvs l" using no by (auto simp: less_Suc_eq)
    have c1: "skipping \<and> Compare C (ent_user kvs l) skip \<le> 0 \<longleftrightarrow> \<not> (shows_at C s kvs l \<and> b \<le> l)"
      if a: "Suc i \<le> l" "l < length kvs" "ent_seq kvs l \<le> s" "ent_live kvs l"
        "\<forall>l'. Suc i \<le> l' \<and> l' < l \<and> Compare C (ent_user kvs l') (ent_user kvs l) = 0 \<longrightarrow> s < ent_seq kvs l'" for l
    proof (cases "Compare C (ent_user kvs i) (ent_user kvs l) = 0")
      case True
      then have "Compare C (ent_user kvs l) (ent_user kvs i) \<le> 0" using eq_swap[OF k[OF i] k[OF a(2)]] by simp
      then have "Compare C (ent_user kvs l) skip \<le> 0" using trans[OF k[OF a(2)] k[OF i]] sk h by simp
      then show ?thesis using before[of l] True a h by auto
    next
      case False
      show ?thesis
      proof (rule hid)
        fix l' assume "i \<le> l'" "l' < l" "Compare C (ent_user kvs l') (ent_user kvs l) = 0"
        then show "s < ent_seq kvs l'" using a(5) False by (cases "l' = i") auto
      qed (use a in auto)
    qed
    show ?thesis unfolding may_skip_def using c1 c3 low by (meson Suc_leD)
  qed
  show "shows_at C s kvs i \<and> b \<le> i"
    if "ent_seq kvs i \<le> s" "ent_live kvs i" "\<not> (skipping \<and> Compare C (ent_user kvs i) skip \<le> 0)"
    using hid[of i] that i by auto
qed

lemma FindNext_finds:
  assumes "at (di_iter d) kvs i" "i < length kvs" "db_keys_ok kvs" "seed_ok (di_rnd d)"
    "di_user_comparator d = C" "may_skip C (di_sequence d) kvs b skipping (di_saved_key d) i"
    "skipping \<longrightarrow> key_ok (di_saved_key d)"
  shows "\<exists>d' j. FindNextUserEntry I skipping d = Some d' \<and> same_db d d' \<and> di_direction d' = di_direction d \<and>
    found_from (di_sequence d) kvs b d' j"
  using assms
proof (induction "length kvs - i" arbitrary: d i skipping)
  case (Suc n)
  note at = Suc.prems(1) and i = Suc.prems(2) and keys = Suc.prems(3) and skip = Suc.prems(6)
  let ?s = "di_sequence d"
  obtain p where p: "ParseInternalKey (it_key I (di_iter d)) = Some p" "user_key p = ent_user kvs i"
    "sequence p = ent_seq kvs i" "vtype p = kTypeValue \<longleftrightarrow> ent_live kvs i" using ent_parsed[OF keys at i] by blast
  obtain d1 where d1: "ParseKey I d = Some (Some p, d1)" "sampled d d1"
    using ParseKey_returns[OF Suc.prems(4) p(1)] by blast
  note s1 = sampledD[OF d1(2)]
  have c1: "di_user_comparator d1 = C" "di_sequence d1 = ?s" "seed_ok (di_rnd d1)" "di_status d1 = di_status d"
    using s1(1) Suc.prems(5) by (simp_all add: same_db_def)
  note step = may_skip_step[OF at i skip Suc.prems(7)]
  show ?case
  proof (cases "skip_entry skipping (Some p) d1")
    case None
    then have found: "ent_seq kvs i \<le> ?s" "ent_live kvs i" "\<not> (skipping \<and> Compare C (ent_user kvs i) (di_saved_key d) \<le> 0)"
      using p s1(3) c1 by (auto simp: skip_entry_def split: if_splits ValueType.splits)
    have "FindNextUserEntry I skipping d = Some (d1\<lparr>di_valid := True, di_saved_key := []\<rparr>)"
      by (subst FindNextUserEntry.simps) (simp add: d1(1) None)
    moreover have "found_from ?s kvs b (d1\<lparr>di_valid := True, di_saved_key := []\<rparr>) i"
      using step(4)[OF found] at s1(2) skip by (simp add: found_from_def may_skip_def)
    ultimately show ?thesis using s1 by (intro exI[of _ "d1\<lparr>di_valid := True, di_saved_key := []\<rparr>"] exI[of _ i]) (simp add: same_db_def)
  next
    case (Some r)
    obtain skipping' d2 where r: "r = (skipping', d2)" by fastforce
    have d2: "\<exists>x. d2 = d1\<lparr>di_saved_key := x\<rparr> \<and> may_skip C ?s kvs b skipping' x (Suc i) \<and> (skipping' \<longrightarrow> key_ok x)"
    proof (cases "ent_seq kvs i \<le> ?s")
      case False
      then have "r = (skipping, d1)" using Some p c1 by (simp add: skip_entry_def)
      then show ?thesis using r step(1)[OF False] Suc.prems(7) s1(3) by (intro exI[of _ "di_saved_key d"]) simp
    next
      case seq: True
      show ?thesis
      proof (cases "ent_live kvs i")
        case False
        then have "vtype p = kTypeDeletion" using p(4) by (cases "vtype p") auto
        then have "r = (True, d1\<lparr>di_saved_key := ent_user kvs i\<rparr>)" using Some p c1 seq by (simp add: skip_entry_def)
        then show ?thesis using r step(2)[OF seq False] ent_key_ok(1)[OF at i] by (intro exI[of _ "ent_user kvs i"]) simp
      next
        case True
        then have h: "skipping \<and> Compare C (ent_user kvs i) (di_saved_key d) \<le> 0" "r = (skipping, d1)"
          using Some p c1 seq s1(3) by (auto simp: skip_entry_def split: if_splits)
        then show ?thesis using r step(3)[OF seq True] Suc.prems(7) s1(3) by (intro exI[of _ "di_saved_key d"]) simp
      qed
    qed
    then obtain x where x: "d2 = d1\<lparr>di_saved_key := x\<rparr>" "may_skip C ?s kvs b skipping' x (Suc i)" "skipping' \<longrightarrow> key_ok x" by blast
    have it2: "di_iter d2 = di_iter d" using x(1) s1(2) by simp
    obtain it where it: "it_Next I (di_iter d) = Some it" "at it kvs (Suc i)" using inner.Next[OF at i] by blast
    show ?thesis
    proof (cases "Suc i < length kvs")
      case False
      let ?d' = "d2\<lparr>di_iter := it, di_saved_key := [], di_valid := False\<rparr>"
      have "\<not> it_Valid I it" using inner.Valid[OF it(2)] False by simp
      then have "FindNextUserEntry I skipping d = Some ?d'"
        by (subst FindNextUserEntry.simps) (simp add: d1(1) Some r it2 it(1))
      moreover have "found_from ?s kvs b ?d' (Suc i)"
        using it(2) x(2) False by (auto simp: found_from_def may_skip_def shows_at_def)
      ultimately show ?thesis using x(1) s1 by (intro exI[of _ ?d'] exI[of _ "Suc i"]) (simp add: same_db_def)
    next
      case True
      then have v: "it_Valid I it" using inner.Valid[OF it(2)] by simp
      let ?d = "d2\<lparr>di_iter := it\<rparr>"
      have "\<exists>d' j. FindNextUserEntry I skipping' ?d = Some d' \<and> same_db ?d d' \<and> di_direction d' = di_direction ?d \<and>
        found_from (di_sequence ?d) kvs b d' j"
        by (rule Suc.hyps(1)[of "Suc i"]) (use Suc.hyps(2) True it(2) keys c1 x in simp_all)
      moreover have "FindNextUserEntry I skipping d = FindNextUserEntry I skipping' ?d"
        by (subst FindNextUserEntry.simps) (simp add: d1(1) Some r it2 it(1) v)
      ultimately show ?thesis using x(1) c1 s1(1,5) Suc.prems(5) by (auto simp: same_db_def)
    qed
  qed
qed simp

definition back_inv :: "SequenceNumber \<Rightarrow> entries \<Rightarrow> nat \<Rightarrow> nat \<Rightarrow> ValueType \<Rightarrow> 'i DBIter \<Rightarrow> bool" where
  "back_inv s kvs st lo vt d \<longleftrightarrow> (\<exists>c. (vt = kTypeValue \<longrightarrow> c \<le> st \<and> kept_entry s kvs lo d c) \<and>
     (\<forall>m. lo \<le> m \<and> m \<le> st \<and> shows_at C s kvs m \<longrightarrow> vt = kTypeValue \<and> m = c))"

definition last_shown :: "SequenceNumber \<Rightarrow> entries \<Rightarrow> nat \<Rightarrow> ValueType \<Rightarrow> 'i DBIter \<Rightarrow> bool" where
  "last_shown s kvs st vt d \<longleftrightarrow> (\<exists>j. at (di_iter d) kvs j \<and>
     (if vt = kTypeDeletion then \<forall>m \<le> st. \<not> shows_at C s kvs m
      else \<exists>c \<le> st. \<exists>lo. shows_at C s kvs c \<and> (\<forall>m. c < m \<and> m \<le> st \<longrightarrow> \<not> shows_at C s kvs m) \<and>
             behind kvs j lo \<and> kept_entry s kvs lo d c))"

lemma kept_shows:
  assumes "at it kvs i" "kept_entry s kvs lo d c"
    and "\<And>m. m < lo \<Longrightarrow> Compare C (ent_user kvs m) (ent_user kvs c) < 0"
  shows "shows_at C s kvs c"
  using assms(2) assms(3)[of m for m] unfolding kept_entry_def shows_at_def
  by (metis less_irrefl linorder_not_less)

lemma keep_entry_step:
  assumes at: "at (di_iter d) kvs i" and i: "i < length kvs" and inv: "back_inv s kvs st (Suc i) vt d" and st: "i \<le> st"
    and p: "user_key p = ent_user kvs i" "sequence p = ent_seq kvs i" "vtype p = kTypeValue \<longleftrightarrow> ent_live kvs i"
    and d: "di_user_comparator d = C" "di_sequence d = s"
  shows "case keep_entry I vt (Some p) d of
      None \<Rightarrow> vt = kTypeValue \<and> (\<exists>c. back_inv s kvs st (Suc i) vt d \<and> c \<le> st \<and> kept_entry s kvs (Suc i) d c \<and>
        Compare C (ent_user kvs i) (ent_user kvs c) < 0 \<and> (\<forall>m. Suc i \<le> m \<and> m \<le> st \<and> shows_at C s kvs m \<longrightarrow> m = c))
    | Some (vt', d') \<Rightarrow> back_inv s kvs st i vt' d' \<and> (\<exists>x y. d' = d\<lparr>di_saved_key := x, di_saved_value := y\<rparr>)"
proof -
  obtain c where c: "vt = kTypeValue \<Longrightarrow> c \<le> st \<and> kept_entry s kvs (Suc i) d c"
    "\<And>m. Suc i \<le> m \<Longrightarrow> m \<le> st \<Longrightarrow> shows_at C s kvs m \<Longrightarrow> vt = kTypeValue \<and> m = c"
    using inv unfolding back_inv_def by blast
  have same: "\<exists>x y. d = d\<lparr>di_saved_key := x, di_saved_value := y\<rparr>"
    by (rule exI[of _ "di_saved_key d"], rule exI[of _ "di_saved_value d"]) simp
  show ?thesis
  proof (cases "ent_seq kvs i \<le> s")
    case False
    have k: "kept_entry s kvs i d c" if "kept_entry s kvs (Suc i) d c"
      using that False unfolding kept_entry_def by (auto simp: not_le intro: Suc_leI le_neq_implies_less)
    have n: "\<not> shows_at C s kvs i" using False by (simp add: shows_at_def)
    have "back_inv s kvs st i vt d" unfolding back_inv_def
    proof (rule exI[of _ c], intro conjI allI impI)
      show "c \<le> st" "kept_entry s kvs i d c" if "vt = kTypeValue" using c(1)[OF that] k by auto
      show "vt = kTypeValue" "m = c" if "i \<le> m \<and> m \<le> st \<and> shows_at C s kvs m" for m
        using c(2)[of m] that n by (cases "m = i"; auto)+
    qed
    then show ?thesis using False p d same by (simp add: keep_entry_def)
  next
    case seq: True
    show ?thesis
    proof (cases "vt = kTypeValue \<and> Compare C (ent_user kvs i) (di_saved_key d) < 0")
      case True
      then have "keep_entry I vt (Some p) d = None" using seq p d by (simp add: keep_entry_def)
      moreover have "di_saved_key d = ent_user kvs c" using c(1) True by (simp add: kept_entry_def)
      ultimately show ?thesis using True c inv by auto
    next
      case False
      text \<open>The entry that was kept is older than the entry \<open>i\<close> of the same user key.\<close>
      have old: "\<not> shows_at C s kvs m" if m: "Suc i \<le> m" "m \<le> st" for m
      proof
        assume sh: "shows_at C s kvs m"
        then have mc: "vt = kTypeValue" "m = c" using c(2)[OF m] by auto
        then have "kept_entry s kvs (Suc i) d c" using c(1) by blast
        then have k: "di_saved_key d = ent_user kvs c" "c < length kvs" by (auto simp: kept_entry_def)
        then have "\<not> Compare C (ent_user kvs i) (ent_user kvs c) < 0" using False mc(1) by simp
        then have "Compare C (ent_user kvs i) (ent_user kvs c) = 0" using ent_sorted[OF at, of i c] m k(2) mc(2) by simp
        then show False using sh mc(2) m(1) seq by (fastforce simp: shows_at_def Suc_le_eq)
      qed
      have keepi: "back_inv s kvs st i (vtype p) d'"
        if "vtype p = kTypeValue \<Longrightarrow> (di_saved_key d', di_saved_value d') = (ent_user kvs i, snd (kvs ! i))" for d'
        unfolding back_inv_def
      proof (rule exI[of _ i], intro conjI allI impI)
        show "i \<le> st" by (rule st)
        show "kept_entry s kvs i d' i" if "vtype p = kTypeValue"
          using that \<open>vtype p = kTypeValue \<Longrightarrow> _\<close> i p(3) seq by (auto simp: kept_entry_def)
        show "vtype p = kTypeValue" "m = i" if "i \<le> m \<and> m \<le> st \<and> shows_at C s kvs m" for m
          using old[of m] that p(3) by (cases "m = i"; auto simp: shows_at_def)+
      qed
      have kv: "ExtractUserKey (it_key I (di_iter d)) = ent_user kvs i" "it_value I (di_iter d) = snd (kvs ! i)"
        using inner.key[OF at i] inner.val[OF at i] by (simp_all add: ent_user_def)
      have "keep_entry I vt (Some p) d = Some (vtype p, if vtype p = kTypeDeletion then d\<lparr>di_saved_key := [], di_saved_value := []\<rparr>
          else d\<lparr>di_saved_key := ent_user kvs i, di_saved_value := snd (kvs ! i)\<rparr>)"
        using seq p d False kv by (cases vt) (auto simp: keep_entry_def)
      then show ?thesis using keepi by auto
    qed
  qed
qed

text \<open>The loop, by induction on the number of entries that are left.\<close>

lemma last_shown_end:
  assumes "back_inv s kvs st 0 vt d" "at (di_iter d) kvs (length kvs)"
  shows "last_shown s kvs st vt d"
proof -
  obtain c where c: "vt = kTypeValue \<longrightarrow> c \<le> st \<and> kept_entry s kvs 0 d c"
    "\<forall>m. m \<le> st \<and> shows_at C s kvs m \<longrightarrow> vt = kTypeValue \<and> m = c"
    using assms(1) by (auto simp: back_inv_def)
  show ?thesis
  proof (cases vt)
    case kTypeDeletion
    then show ?thesis using c(2) assms(2) by (auto simp: last_shown_def)
  next
    case kTypeValue
    then have k: "c \<le> st" "kept_entry s kvs 0 d c" using c(1) by auto
    have "shows_at C s kvs c" using kept_shows[OF assms(2) k(2)] by simp
    moreover have "\<forall>m. c < m \<and> m \<le> st \<longrightarrow> \<not> shows_at C s kvs m" using c(2) by auto
    moreover have "behind kvs (length kvs) 0" by (simp add: behind_def)
    ultimately show ?thesis unfolding last_shown_def using k assms(2) kTypeValue by (metis ValueType.distinct(1))
  qed
qed

lemma find_prev_finds:
  assumes "at (di_iter d) kvs i" "i < length kvs" "db_keys_ok kvs" "seed_ok (di_rnd d)"
    "di_user_comparator d = C" "back_inv (di_sequence d) kvs st (Suc i) vt d" "i \<le> st"
  shows "\<exists>vt' d'. find_prev_loop I vt d = Some (vt', d') \<and> same_db d d' \<and> di_direction d' = di_direction d \<and>
    last_shown (di_sequence d) kvs st vt' d'"
  using assms
proof (induction i arbitrary: d vt rule: less_induct)
  case (less i)
  note at = less.prems(1) and i = less.prems(2) and keys = less.prems(3)
  let ?s = "di_sequence d"
  obtain p where p: "ParseInternalKey (it_key I (di_iter d)) = Some p" "user_key p = ent_user kvs i"
    "sequence p = ent_seq kvs i" "vtype p = kTypeValue \<longleftrightarrow> ent_live kvs i" using ent_parsed[OF keys at i] by blast
  obtain d1 where d1: "ParseKey I d = Some (Some p, d1)" "sampled d d1"
    using ParseKey_returns[OF less.prems(4) p(1)] by blast
  note s1 = sampledD[OF d1(2)]
  have c1: "di_user_comparator d1 = C" "di_sequence d1 = ?s" "seed_ok (di_rnd d1)" "di_status d1 = di_status d"
    using s1(1) less.prems(5) by (simp_all add: same_db_def)
  have at1: "at (di_iter d1) kvs i" using at s1(2) by simp
  have inv1: "back_inv ?s kvs st (Suc i) vt d1"
    using less.prems(6) s1(3,4) by (simp add: back_inv_def kept_entry_def)
  note step = keep_entry_step[OF at1 i inv1 less.prems(7) p(2-4) c1(1,2)]
  show ?case
  proof (cases "keep_entry I vt (Some p) d1")
    case None
    then obtain c where c: "vt = kTypeValue" "c \<le> st" "kept_entry ?s kvs (Suc i) d1 c"
      "Compare C (ent_user kvs i) (ent_user kvs c) < 0" "\<forall>m. Suc i \<le> m \<and> m \<le> st \<and> shows_at C ?s kvs m \<longrightarrow> m = c"
      using step by auto
    have ic: "i < c" "c < length kvs" using c(3) by (auto simp: kept_entry_def)
    have "Compare C (ent_user kvs m) (ent_user kvs c) < 0" if "m < Suc i" for m
    proof (cases "m = i")
      case False
      then have "Compare C (ent_user kvs m) (ent_user kvs i) \<le> 0" using ent_sorted[OF at, of m i] that i by simp
      then show ?thesis using le_less_trans[OF _ _ _ _ c(4)] ent_key_ok(1)[OF at] that i ic by simp
    qed (use c(4) in simp)
    from kept_shows[OF at1 c(3) this] have "shows_at C ?s kvs c" .
    moreover have "\<forall>m. c < m \<and> m \<le> st \<longrightarrow> \<not> shows_at C ?s kvs m"
      using c(5) ic(1) by (metis Suc_leI less_irrefl less_trans_Suc order.strict_trans)
    moreover have "behind kvs i (Suc i)" by (simp add: behind_def)
    ultimately have "last_shown ?s kvs st vt d1"
      unfolding last_shown_def using c(1-3) at1 by (metis ValueType.distinct(1))
    moreover have "find_prev_loop I vt d = Some (vt, d1)" by (subst find_prev_loop.simps) (simp add: d1(1) None)
    ultimately show ?thesis using s1 by blast
  next
    case (Some r)
    obtain vt' d2 where r: "r = (vt', d2)" by fastforce
    obtain x y where d2: "d2 = d1\<lparr>di_saved_key := x, di_saved_value := y\<rparr>" and inv2: "back_inv ?s kvs st i vt' d2"
      using step Some r by auto
    obtain it where it: "it_Prev I (di_iter d) = Some it" "at it kvs (if i = 0 then length kvs else i - 1)"
      using inner.Prev[OF at i] by blast
    have it2: "di_iter d2 = di_iter d" using d2 s1(2) by simp
    let ?d = "d2\<lparr>di_iter := it\<rparr>"
    have inv: "back_inv ?s kvs st i vt' ?d" using inv2 by (simp add: back_inv_def kept_entry_def)
    show ?thesis
    proof (cases i)
      case 0
      then have "\<not> it_Valid I it" using inner.Valid[OF it(2)] by simp
      then have "find_prev_loop I vt d = Some (vt', ?d)" by (subst find_prev_loop.simps) (simp add: d1(1) Some r it2 it(1))
      moreover have "last_shown ?s kvs st vt' ?d" using last_shown_end[of ?s kvs st vt' ?d] inv it(2) 0 by simp
      ultimately show ?thesis using d2 s1 by (auto simp: same_db_def)
    next
      case (Suc l)
      have v: "it_Valid I it" using inner.Valid[OF it(2)] Suc i by simp
      have "\<exists>vt'' d'. find_prev_loop I vt' ?d = Some (vt'', d') \<and> same_db ?d d' \<and> di_direction d' = di_direction ?d \<and>
        last_shown (di_sequence ?d) kvs st vt'' d'"
        by (rule less.IH[of l]) (use Suc it(2) i keys c1 d2 inv less.prems(7) in simp_all)
      moreover have "find_prev_loop I vt d = find_prev_loop I vt' ?d"
        by (subst find_prev_loop.simps) (simp add: d1(1) Some r it2 it(1) v)
      ultimately show ?thesis using d2 c1 s1(1,5) by (auto simp: same_db_def)
    qed
  qed
qed

definition found_back :: "SequenceNumber \<Rightarrow> entries \<Rightarrow> nat \<Rightarrow> 'i DBIter \<Rightarrow> bool" where
  "found_back s kvs st d \<longleftrightarrow> last_shown s kvs st (if di_valid d then kTypeValue else kTypeDeletion) d \<and>
     di_direction d = (if di_valid d then kReverse else kForward)"

lemma FindPrev_finds:
  assumes "at (di_iter d) kvs i" "db_keys_ok kvs" "seed_ok (di_rnd d)" "di_user_comparator d = C" "di_direction d = kReverse"
    and "i < length kvs \<and> st = i \<or> i = length kvs \<and> (\<forall>m \<le> st. \<not> shows_at C (di_sequence d) kvs m)"
  shows "\<exists>d'. FindPrevUserEntry I d = Some d' \<and> same_db d d' \<and> found_back (di_sequence d) kvs st d'"
proof (cases "i < length kvs")
  case True
  have v: "it_Valid I (di_iter d)" using inner.Valid[OF assms(1)] True by simp
  have st: "st = i" using assms(6) True by simp
  have inv: "back_inv (di_sequence d) kvs st (Suc i) kTypeDeletion d" using st by (auto simp: back_inv_def)
  obtain vt d' where f: "find_prev_loop I kTypeDeletion d = Some (vt, d')" "same_db d d'" "di_direction d' = di_direction d"
    "last_shown (di_sequence d) kvs st vt d'"
    using find_prev_finds[OF assms(1) True assms(2-4) inv] st by blast
  show ?thesis
    using f v assms(5) by (cases vt) (auto simp: FindPrevUserEntry_def found_back_def last_shown_def same_db_def kept_entry_def)
next
  case False
  then have "\<not> it_Valid I (di_iter d)" using inner.Valid[OF assms(1)] by simp
  then show ?thesis
    using assms False by (auto simp: FindPrevUserEntry_def found_back_def last_shown_def same_db_def)
qed

lemma leave_key_leaves:
  assumes "at (di_iter d) kvs i" "i \<le> c" "shows_at C s kvs c" "seed_ok (di_rnd d)" "di_user_comparator d = C"
    "di_saved_key d = ent_user kvs c" "\<forall>m. i \<le> m \<and> m < c \<longrightarrow> \<not> shows_at C s kvs m"
  shows "\<exists>b d' j. leave_key I d = Some (b, d') \<and> same_db d d' \<and> di_direction d' = di_direction d \<and> at (di_iter d') kvs j \<and>
    (if b then j < i \<and> (\<forall>m. j < m \<and> m < c \<longrightarrow> \<not> shows_at C s kvs m)
     else \<not> di_valid d' \<and> (\<forall>m < c. \<not> shows_at C s kvs m))"
  using assms
proof (induction i arbitrary: d rule: less_induct)
  case (less i)
  note at = less.prems(1)
  have ic: "i \<le> c" "c < length kvs" using less.prems(2,3) by (simp_all add: shows_at_def)
  obtain it where it: "it_Prev I (di_iter d) = Some it" "at it kvs (if i = 0 then length kvs else i - 1)"
    using inner.Prev[OF at] ic by force
  show ?case
  proof (cases i)
    case 0
    let ?d = "d\<lparr>di_iter := it, di_valid := False, di_saved_key := [], di_saved_value := []\<rparr>"
    have "\<not> it_Valid I it" using inner.Valid[OF it(2)] 0 by simp
    then have "leave_key I d = Some (False, ?d)" by (subst leave_key.simps) (simp add: it(1))
    then show ?thesis using it(2) 0 less.prems by (intro exI[of _ False] exI[of _ ?d] exI[of _ "length kvs"]) (simp add: same_db_def)
  next
    case (Suc l)
    have at1: "at it kvs l" using it(2) Suc by simp
    have l: "l < length kvs" "l < c" using Suc ic by simp_all
    have v: "it_Valid I it" using inner.Valid[OF at1] l by simp
    have u: "ExtractUserKey (it_key I it) = ent_user kvs l" using inner.key[OF at1 l(1)] by (simp add: ent_user_def)
    show ?thesis
    proof (cases "Compare C (ent_user kvs l) (ent_user kvs c) < 0")
      case True
      then have "leave_key I d = Some (True, d\<lparr>di_iter := it\<rparr>)"
        using v u less.prems(5,6) by (subst leave_key.simps) (simp add: it(1))
      moreover have "\<forall>m. l < m \<and> m < c \<longrightarrow> \<not> shows_at C s kvs m" using less.prems(7) Suc by auto
      ultimately show ?thesis using at1 Suc less.prems
        by (intro exI[of _ True] exI[of _ "d\<lparr>di_iter := it\<rparr>"] exI[of _ l]) (simp add: same_db_def)
    next
      case False
      then have eq: "Compare C (ent_user kvs l) (ent_user kvs c) = 0" using ent_sorted[OF at1 l(2)] ic by simp
      then have "s < ent_seq kvs l" using less.prems(3) l by (simp add: shows_at_def)
      then have "\<not> shows_at C s kvs l" by (auto simp: shows_at_def)
      then have no: "\<forall>m. l \<le> m \<and> m < c \<longrightarrow> \<not> shows_at C s kvs m" using less.prems(7) Suc by (metis Suc_leI le_neq_implies_less)
      have step: "leave_key I d = leave_key I (d\<lparr>di_iter := it\<rparr>)"
        using v u False less.prems(5,6) by (subst leave_key.simps) (simp add: it(1))
      have "\<exists>b d' j. leave_key I (d\<lparr>di_iter := it\<rparr>) = Some (b, d') \<and> same_db (d\<lparr>di_iter := it\<rparr>) d' \<and>
        di_direction d' = di_direction (d\<lparr>di_iter := it\<rparr>) \<and> at (di_iter d') kvs j \<and>
        (if b then j < l \<and> (\<forall>m. j < m \<and> m < c \<longrightarrow> \<not> shows_at C s kvs m)
         else \<not> di_valid d' \<and> (\<forall>m < c. \<not> shows_at C s kvs m))"
        by (rule less.IH[of l]) (use Suc at1 l less.prems no in simp_all)
      then obtain b d' j where r: "leave_key I (d\<lparr>di_iter := it\<rparr>) = Some (b, d')" "same_db (d\<lparr>di_iter := it\<rparr>) d'"
        "di_direction d' = di_direction d" "at (di_iter d') kvs j"
        "if b then j < l \<and> (\<forall>m. j < m \<and> m < c \<longrightarrow> \<not> shows_at C s kvs m)
         else \<not> di_valid d' \<and> (\<forall>m < c. \<not> shows_at C s kvs m)" by auto
      then show ?thesis using Suc step
        by (intro exI[of _ b] exI[of _ d'] exI[of _ j]) (auto simp: same_db_def split: if_splits)
    qed
  qed
qed

lemma may_skip_next:
  assumes at: "at it kvs i" and c: "shows_at C s kvs c" and lo: "lo \<le> c" "\<forall>m. lo \<le> m \<and> m < c \<longrightarrow> s < ent_seq kvs m"
  shows "may_skip C s kvs (Suc c) True (ent_user kvs c) lo"
proof -
  note k = ent_key_ok(1)[OF at]
  have cl: "c < length kvs" using c by (simp add: shows_at_def)
  have le: "Compare C (ent_user kvs c) (ent_user kvs m) \<le> 0" if "c \<le> m" "m < length kvs" for m
    using ent_sorted[OF at, of c m] refl[OF k[OF cl]] that by (cases "c = m") auto
  have from_c: "c \<le> m" if "lo \<le> m" "ent_seq kvs m \<le> s" for m using lo(2) that by (meson leD leI)
  have hid: "Compare C (ent_user kvs m) (ent_user kvs c) \<le> 0 \<longleftrightarrow> \<not> (shows_at C s kvs m \<and> Suc c \<le> m)"
    if m: "lo \<le> m" "m < length kvs" "ent_seq kvs m \<le> s" "ent_live kvs m"
      "\<forall>l. lo \<le> l \<and> l < m \<and> Compare C (ent_user kvs l) (ent_user kvs m) = 0 \<longrightarrow> s < ent_seq kvs l" for m
  proof (cases "Compare C (ent_user kvs m) (ent_user kvs c) \<le> 0")
    case True
    then have "Compare C (ent_user kvs c) (ent_user kvs m) = 0"
      using le[OF from_c[OF m(1,3)] m(2)] not_less[OF k[OF cl] k[OF m(2)]] by linarith
    moreover have "ent_seq kvs c \<le> s" using c by (simp add: shows_at_def)
    ultimately have "\<not> (shows_at C s kvs m \<and> Suc c \<le> m)" unfolding shows_at_def by (metis Suc_le_eq leD)
    then show ?thesis using True by simp
  next
    case False
    then have less: "Compare C (ent_user kvs c) (ent_user kvs m) < 0" using not_less[OF k[OF cl] k[OF m(2)]] by simp
    have "m \<noteq> c" using False refl[OF k[OF cl]] by auto
    then have cm: "Suc c \<le> m" using from_c[OF m(1,3)] by simp
    have "s < ent_seq kvs l" if l: "l < m" "Compare C (ent_user kvs l) (ent_user kvs m) = 0" for l
    proof (cases "lo \<le> l")
      case False
      then have lc: "l < c" using lo(1) by simp
      have lm: "l < length kvs" using l m by simp
      have "Compare C (ent_user kvs l) (ent_user kvs m) < 0"
        using le_less_trans[OF k[OF lm] k[OF cl] k[OF m(2)] ent_sorted[OF at lc cl] less] .
      then show ?thesis using l by simp
    qed (use m l in blast)
    then have "shows_at C s kvs m" using m by (simp add: shows_at_def)
    then show ?thesis using False cm by simp
  qed
  show ?thesis unfolding may_skip_def using hid le from_c lo(1) by auto
qed

lemma may_skip_start: "may_skip C s kvs 0 False skip 0"
  by (auto simp: may_skip_def shows_at_def)

lemma seek_cut:
  assumes at: "at it kvs i" and t: "key_ok t" and s: "s \<le> kMaxSequenceNumber" and keys: "db_keys_ok kvs"
  defines "i0 \<equiv> length (below (Compare (InternalKeyComparator C)) (InternalKey t s kTypeValue) fst kvs)"
  shows "i0 \<le> length kvs"
    "j < length kvs \<Longrightarrow> j < i0 \<longleftrightarrow> Compare C (ent_user kvs j) t < 0 \<or> Compare C (ent_user kvs j) t = 0 \<and> s < ent_seq kvs j"
proof -
  let ?T = "InternalKey t s kTypeValue" and ?IC = "Compare (InternalKeyComparator C)"
  have asc: "ascending ?IC (\<lambda>k. 8 \<le> length k \<and> key_ok (ExtractUserKey k)) kvs" by (rule inner.ascending[OF at])
  have order: "compare_order ?IC (\<lambda>k. 8 \<le> length k \<and> key_ok (ExtractUserKey k))" using asc by (simp add: ascending_def)
  have cut: "kvs = below ?IC ?T fst kvs @ upwards ?IC ?T fst kvs"
    using compare_order.sorted_cut[OF order, where key = ?T and f = fst and xs = kvs] asc t by (simp add: ascending_def)
  show "i0 \<le> length kvs" by (simp add: i0_def below_def)
  show "j < i0 \<longleftrightarrow> Compare C (ent_user kvs j) t < 0 \<or> Compare C (ent_user kvs j) t = 0 \<and> s < ent_seq kvs j" if j: "j < length kvs"
  proof -
    have "j < i0 \<longleftrightarrow> ?IC (fst (kvs ! j)) ?T < 0"
      using split_index[OF cut j] by (auto simp: i0_def below_def upwards_def)
    moreover have "PackSequenceAndType s kTypeValue < key_num (fst (kvs ! j)) \<longleftrightarrow> s < ent_seq kvs j"
    proof -
      obtain p where p: "ParseInternalKey (fst (kvs ! j)) = Some p" using keys j by (fastforce simp: db_keys_ok_def)
      have n: "key_num (fst (kvs ! j)) = PackSequenceAndType (sequence p) (vtype p)"
        using Append_ParseInternalKey[OF p] by (metis AppendInternalKey_eq append_Nil key_parts(2))
      have "sequence p = drop_bit 8 (key_num (fst (kvs ! j)))"
        using p by (auto simp: ParseInternalKey_def key_num_def Let_def split: if_splits)
      then have "sequence p \<le> kMaxSequenceNumber" using seq_of_num by simp
      then show ?thesis using pack_le_seek[OF s, of "sequence p" "vtype p"] p by (simp add: n ent_seq_def not_le[symmetric])
    qed
    ultimately show ?thesis by (simp add: ikc_less ent_user_def)
  qed
qed

lemma may_skip_seek:
  assumes "at it kvs i" "key_ok t" "s \<le> kMaxSequenceNumber" "db_keys_ok kvs"
  defines "i0 \<equiv> length (below (Compare (InternalKeyComparator C)) (InternalKey t s kTypeValue) fst kvs)"
  shows "may_skip C s kvs i0 False x i0"
    "view_rank C s kvs i0 = length (below (Compare C) t fst (user_view C s kvs))"
proof -
  note cut = seek_cut[OF assms(1-4), folded i0_def] and k = ent_key_ok(1)[OF assms(1)]
  have "shows_at C s kvs m"
    if m: "i0 \<le> m" "m < length kvs" "ent_seq kvs m \<le> s" "ent_live kvs m"
      "\<forall>l. i0 \<le> l \<and> l < m \<and> Compare C (ent_user kvs l) (ent_user kvs m) = 0 \<longrightarrow> s < ent_seq kvs l" for m
  proof -
    have "s < ent_seq kvs l" if l: "l < m" "Compare C (ent_user kvs l) (ent_user kvs m) = 0" for l
    proof (cases "i0 \<le> l")
      case False
      have ll: "l < length kvs" using l m by simp
      have "\<not> Compare C (ent_user kvs m) t < 0" using cut(2)[OF m(2)] m(1) by auto
      then have tm: "Compare C t (ent_user kvs m) \<le> 0" using not_less[OF k[OF m(2)] assms(2)] by simp
      have ml: "Compare C (ent_user kvs m) (ent_user kvs l) \<le> 0" using l eq_swap[OF k[OF ll] k[OF m(2)]] by simp
      have "\<not> Compare C (ent_user kvs l) t < 0"
        using trans[OF assms(2) k[OF m(2)] k[OF ll] tm ml] not_less[OF k[OF ll] assms(2)] by simp
      then show ?thesis using cut(2)[OF ll] False by auto
    qed (use m l in blast)
    then show ?thesis using m by (simp add: shows_at_def)
  qed
  then show "may_skip C s kvs i0 False x i0" unfolding may_skip_def by auto
  have sh: "shows_at C s kvs j \<and> j < i0 \<longleftrightarrow> shows_at C s kvs j \<and> Compare C (ent_user kvs j) t < 0" for j
    using cut(2)[of j] by (auto simp: shows_at_def)
  have "length (below (Compare C) t fst (user_view C s kvs)) =
    length (filter (\<lambda>j. shows_at C s kvs j \<and> Compare C (ent_user kvs j) t < 0) [0..<length kvs])"
    by (simp add: below_def user_view_def filter_map comp_def conj_commute)
  also have "\<dots> = length (filter (\<lambda>j. shows_at C s kvs j \<and> j < i0) [0..<length kvs])" by (simp only: sh)
  also have "\<dots> = length (filter (shows_at C s kvs) [0..<i0])"
  proof -
    have "[0..<length kvs] = [0..<i0] @ [i0..<length kvs]" using cut(1) by (metis le_add_diff_inverse upt_add_eq_append zero_le)
    moreover have "filter (\<lambda>j. shows_at C s kvs j \<and> j < i0) [0..<i0] = filter (shows_at C s kvs) [0..<i0]"
      by (rule filter_cong) auto
    moreover have "filter (\<lambda>j. shows_at C s kvs j \<and> j < i0) [i0..<length kvs] = []" by (auto simp: filter_empty_conv)
    ultimately show ?thesis by simp
  qed
  finally show "view_rank C s kvs i0 = length (below (Compare C) t fst (user_view C s kvs))" by (simp add: view_rank_def)
qed

lemma user_view_ascending:
  assumes "at it kvs i"
  shows "ascending (Compare C) key_ok (user_view C s kvs)"
proof -
  have "Compare C (ent_user kvs a) (ent_user kvs b) < 0" if "shows_at C s kvs a" "shows_at C s kvs b" "a < b" for a b
  proof -
    have "Compare C (ent_user kvs a) (ent_user kvs b) \<noteq> 0" using that by (auto simp: shows_at_def)
    then show ?thesis using ent_sorted[OF assms that(3)] that by (simp add: shows_at_def)
  qed
  then have "sorted_wrt (\<lambda>a b. Compare C (ent_user kvs a) (ent_user kvs b) < 0) (filter (shows_at C s kvs) [0..<length kvs])"
    by (intro sorted_wrt_mono_rel[OF _ sorted_wrt_filter[OF sorted_wrt_upt]]) auto
  moreover have "compare_order (Compare C) key_ok" by unfold_locales
  moreover have "key_ok (ent_user kvs j)" if "j < length kvs" for j using ent_key_ok(1)[OF assms that] .
  ultimately show ?thesis by (auto simp: ascending_def user_view_def sorted_wrt_map)
qed

lemma shown_rank:
  assumes "found_from s kvs b d j"
  shows "(if di_valid d then view_rank C s kvs j else length (user_view C s kvs)) = view_rank C s kvs b"
proof (cases "di_valid d")
  case True
  then have "b \<le> j" "\<forall>m < j. b \<le> m \<longrightarrow> \<not> shows_at C s kvs m" using assms by (simp_all add: found_from_def)
  then show ?thesis using rank_none[of b j C s kvs] True by auto
next
  case False
  then have n: "\<not> shows_at C s kvs m" if "b \<le> m" for m using assms that by (simp add: found_from_def)
  have "view_rank C s kvs b = view_rank C s kvs (length kvs)"
  proof (cases "b \<le> length kvs")
    case True
    then show ?thesis using rank_none[of b "length kvs" C s kvs] n by blast
  next
    case False
    then show ?thesis using rank_none[of "length kvs" b C s kvs] by (auto simp: shows_at_def)
  qed
  then show ?thesis using False by (simp add: length_user_view)
qed

lemma db_at_found:
  assumes "found_from (di_sequence d) kvs b d' j" "same_db d d'" "di_direction d' = kForward" "db_keys_ok kvs"
    "di_user_comparator d = C" "di_sequence d \<le> kMaxSequenceNumber" "di_status d = Status_OK"
  shows "db_at C at d' (user_view C (di_sequence d) kvs) (view_rank C (di_sequence d) kvs b)"
  unfolding db_at_def db_on_def
  by (rule exI[of _ kvs], rule exI[of _ j])
    (use assms shown_rank[OF assms(1)] in \<open>auto simp: found_from_def same_db_def\<close>)

lemma db_at_back:
  assumes "found_back (di_sequence d) kvs st d'" "same_db d d'" "db_keys_ok kvs"
    "di_user_comparator d = C" "di_sequence d \<le> kMaxSequenceNumber" "di_status d = Status_OK"
    and p: "p = (if \<exists>m \<le> st. shows_at C (di_sequence d) kvs m then view_rank C (di_sequence d) kvs (Suc st) - 1
      else length (user_view C (di_sequence d) kvs))"
  shows "db_at C at d' (user_view C (di_sequence d) kvs) p"
proof -
  let ?s = "di_sequence d"
  obtain j where j: "at (di_iter d') kvs j" using assms(1) by (auto simp: found_back_def last_shown_def)
  have base: "db_keys_ok kvs" "di_user_comparator d' = C" "di_sequence d' = ?s" "?s \<le> kMaxSequenceNumber"
    "di_status d' = Status_OK" "seed_ok (di_rnd d')"
    using assms by (simp_all add: same_db_def)
  show ?thesis
  proof (cases "di_valid d'")
    case False
    then have "\<not> (\<exists>m \<le> st. shows_at C ?s kvs m)" using assms(1) by (auto simp: found_back_def last_shown_def)
    then show ?thesis unfolding db_at_def db_on_def using j base False p by auto
  next
    case True
    then obtain j c lo where c: "at (di_iter d') kvs j" "c \<le> st" "shows_at C ?s kvs c"
      "\<forall>m. c < m \<and> m \<le> st \<longrightarrow> \<not> shows_at C ?s kvs m" "behind kvs j lo" "kept_entry ?s kvs lo d' c" "di_direction d' = kReverse"
      using assms(1) unfolding found_back_def last_shown_def by auto
    have "view_rank C ?s kvs (Suc c) = view_rank C ?s kvs (Suc st)" by (rule rank_none) (use c(2,4) in auto)
    then have "p = view_rank C ?s kvs c" using p c(2,3) by (auto simp: rank_Suc)
    then show ?thesis unfolding db_at_def db_on_def using base True c by (intro exI[of _ kvs] exI[of _ j]) auto
  qed
qed

lemma db_at_valid:
  assumes "db_at C at d vis p" "p < length vis"
  shows "\<exists>kvs j c. db_on C at d kvs j \<and> vis = user_view C (di_sequence d) kvs \<and> shows_at C (di_sequence d) kvs c \<and>
    p = view_rank C (di_sequence d) kvs c \<and>
    (if di_direction d = kForward then j = c else \<exists>lo. behind kvs j lo \<and> kept_entry (di_sequence d) kvs lo d c)"
  using assms unfolding db_at_def by (metis less_irrefl)

lemma db_entry:
  assumes "db_at C at d vis p" "p < length vis"
  shows "(it_key (db_iterators I) d, it_value (db_iterators I) d) = vis ! p"
proof -
  obtain kvs j c where on: "db_on C at d kvs j" and vis: "vis = user_view C (di_sequence d) kvs"
    and c: "shows_at C (di_sequence d) kvs c" "p = view_rank C (di_sequence d) kvs c"
      "if di_direction d = kForward then j = c else \<exists>lo. behind kvs j lo \<and> kept_entry (di_sequence d) kvs lo d c"
    using db_at_valid[OF assms] by blast
  note at = db_onD(1)[OF on] and keys = db_onD(2)[OF on] and UC = db_onD(3)[OF on] and s = db_onD(4)[OF on]
    and st = db_onD(5)[OF on] and seed = db_onD(6)[OF on]
  let ?s = "di_sequence d"
  have cl: "c < length kvs" using c(1) by (simp add: shows_at_def)
  show ?thesis
    using c rank_shows(2)[OF c(1)] vis inner.key[OF at] inner.val[OF at] cl
    by (auto simp: db_iterators_def di_key_def di_value_def ent_user_def kept_entry_def)
qed

lemma db_SeekToFirst:
  assumes "db_at C at d vis p"
  shows "\<exists>it'. it_SeekToFirst (db_iterators I) d = Some it' \<and> db_at C at it' vis 0"
proof -
  obtain kvs j where on: "db_on C at d kvs j" and vis: "vis = user_view C (di_sequence d) kvs"
    using assms(1) unfolding db_at_def by blast
  note at = db_onD(1)[OF on] and keys = db_onD(2)[OF on] and UC = db_onD(3)[OF on] and s = db_onD(4)[OF on]
    and st = db_onD(5)[OF on] and seed = db_onD(6)[OF on]
  let ?s = "di_sequence d"
  obtain it where it: "it_SeekToFirst I (di_iter d) = Some it" "at it kvs 0" using inner.SeekToFirst[OF at] by blast
  let ?d = "d\<lparr>di_direction := kForward, di_saved_value := [], di_iter := it\<rparr>"
  show ?thesis
  proof (cases "kvs = []")
    case True
    have "\<not> it_Valid I it" using inner.Valid[OF it(2)] True by simp
    then have "di_SeekToFirst I d = Some (?d\<lparr>di_valid := False\<rparr>)" by (simp add: di_SeekToFirst_def it(1) Let_def)
    moreover have "db_at C at (?d\<lparr>di_valid := False\<rparr>) vis 0"
      unfolding db_at_def db_on_def using it(2) keys UC s st seed vis True
      by (intro exI[of _ kvs] exI[of _ 0]) (simp add: user_view_def)
    ultimately show ?thesis by (simp add: db_iterators_def)
  next
    case False
    have v: "it_Valid I it" using inner.Valid[OF it(2)] False by simp
    obtain d' j' where d': "FindNextUserEntry I False ?d = Some d'" "same_db ?d d'" "di_direction d' = di_direction ?d"
      "found_from (di_sequence ?d) kvs 0 d' j'"
      using FindNext_finds[of ?d kvs 0 0 False] it(2) False keys seed UC may_skip_start by auto
    have "db_at C at d' (user_view C (di_sequence ?d) kvs) (view_rank C (di_sequence ?d) kvs 0)"
      by (rule db_at_found[OF d'(4,2)]) (use d'(3) keys UC s st in simp_all)
    moreover have "di_SeekToFirst I d = Some d'" using d'(1) v by (simp add: di_SeekToFirst_def it(1) Let_def)
    ultimately show ?thesis using vis by (simp add: db_iterators_def view_rank_def)
  qed
qed

lemma db_SeekToLast:
  assumes "db_at C at d vis p"
  shows "\<exists>it'. it_SeekToLast (db_iterators I) d = Some it' \<and> db_at C at it' vis (length vis - 1)"
proof -
  obtain kvs j where on: "db_on C at d kvs j" and vis: "vis = user_view C (di_sequence d) kvs"
    using assms(1) unfolding db_at_def by blast
  note at = db_onD(1)[OF on] and keys = db_onD(2)[OF on] and UC = db_onD(3)[OF on] and s = db_onD(4)[OF on]
    and st = db_onD(5)[OF on] and seed = db_onD(6)[OF on]
  let ?s = "di_sequence d"
  obtain it where it: "it_SeekToLast I (di_iter d) = Some it" "at it kvs (length kvs - 1)" using inner.SeekToLast[OF at] by blast
  let ?d = "d\<lparr>di_direction := kReverse, di_saved_value := [], di_iter := it\<rparr>"
  obtain d' where d': "FindPrevUserEntry I ?d = Some d'" "same_db ?d d'" "found_back (di_sequence ?d) kvs (length kvs - 1) d'"
    using FindPrev_finds[of ?d kvs "length kvs - 1" "length kvs - 1"] it(2) keys seed UC
    by (cases kvs) (auto simp: shows_at_def)
  have all: "(\<exists>m \<le> length kvs - 1. shows_at C ?s kvs m) \<longleftrightarrow> vis \<noteq> []"
  proof -
    have "vis \<noteq> [] \<longleftrightarrow> (\<exists>m < length kvs. shows_at C ?s kvs m)" unfolding vis user_view_def by (auto simp: filter_empty_conv)
    moreover have "m \<le> length kvs - 1" if "shows_at C ?s kvs m" for m using that by (auto simp: shows_at_def)
    moreover have "m < length kvs" if "shows_at C ?s kvs m" for m using that by (auto simp: shows_at_def)
    ultimately show ?thesis by blast
  qed
  have "view_rank C ?s kvs (Suc (length kvs - 1)) = length vis"
    unfolding vis length_user_view by (cases kvs) (simp_all add: view_rank_def shows_at_def)
  then have p': "length vis - 1 = (if \<exists>m \<le> length kvs - 1. shows_at C (di_sequence ?d) kvs m
      then view_rank C (di_sequence ?d) kvs (Suc (length kvs - 1)) - 1 else length (user_view C (di_sequence ?d) kvs))"
    using all vis by auto
  have "db_at C at d' (user_view C (di_sequence ?d) kvs) (length vis - 1)"
    by (rule db_at_back[OF d'(3,2) keys _ _ _ p']) (use UC s st in simp_all)
  moreover have "di_SeekToLast I d = Some d'" using d'(1) by (simp add: di_SeekToLast_def it(1) Let_def)
  ultimately show ?thesis using vis by (simp add: db_iterators_def)
qed

lemma db_Seek:
  assumes "db_at C at d vis p" and t: "key_ok target"
  shows "\<exists>it'. it_Seek (db_iterators I) target d = Some it' \<and> db_at C at it' vis (length (below (Compare C) target fst vis))"
proof -
  obtain kvs j where on: "db_on C at d kvs j" and vis: "vis = user_view C (di_sequence d) kvs"
    using assms(1) unfolding db_at_def by blast
  note at = db_onD(1)[OF on] and keys = db_onD(2)[OF on] and UC = db_onD(3)[OF on] and s = db_onD(4)[OF on]
    and st = db_onD(5)[OF on] and seed = db_onD(6)[OF on]
  let ?s = "di_sequence d"
  let ?T = "InternalKey target ?s kTypeValue"
  let ?i = "length (below (Compare (InternalKeyComparator C)) ?T fst kvs)"
  note ms = may_skip_seek[OF at t s keys]
  obtain it where it: "it_Seek I ?T (di_iter d) = Some it" "at it kvs ?i" using inner.Seek[OF at, of ?T] t by auto
  have T: "AppendInternalKey [] \<lparr>user_key = target, sequence = ?s, vtype = kValueTypeForSeek\<rparr> = ?T"
    by (simp add: InternalKey_def kValueTypeForSeek_def)
  let ?d = "d\<lparr>di_direction := kForward, di_saved_value := [], di_saved_key := ?T, di_iter := it\<rparr>"
  show ?thesis
  proof (cases "?i < length kvs")
    case False
    have "?i = length kvs" using inner.bound[OF it(2)] False by simp
    then have r: "length (below (Compare C) target fst vis) = length vis" using ms(2) vis by (simp add: length_user_view)
    have "\<not> it_Valid I it" using inner.Valid[OF it(2)] False by simp
    then have "di_Seek I target d = Some (?d\<lparr>di_valid := False\<rparr>)" by (simp add: di_Seek_def T it(1) Let_def)
    moreover have "db_at C at (?d\<lparr>di_valid := False\<rparr>) vis (length vis)"
      unfolding db_at_def db_on_def using it(2) keys UC s st seed vis by (intro exI[of _ kvs] exI[of _ ?i]) simp
    ultimately show ?thesis using r by (simp add: db_iterators_def)
  next
    case True
    have v: "it_Valid I it" using inner.Valid[OF it(2)] True by simp
    obtain d' j' where d': "FindNextUserEntry I False ?d = Some d'" "same_db ?d d'" "di_direction d' = di_direction ?d"
      "found_from (di_sequence ?d) kvs ?i d' j'"
      using FindNext_finds[of ?d kvs ?i ?i False] it(2) True keys seed UC ms(1) by auto
    have "db_at C at d' (user_view C (di_sequence ?d) kvs) (view_rank C (di_sequence ?d) kvs ?i)"
      by (rule db_at_found[OF d'(4,2)]) (use d'(3) keys UC s st in simp_all)
    moreover have "di_Seek I target d = Some d'" using d'(1) v by (simp add: di_Seek_def T it(1) Let_def)
    ultimately show ?thesis using vis ms(2) by (simp add: db_iterators_def)
  qed
qed

lemma db_Next:
  assumes "db_at C at d vis p" "p < length vis"
  shows "\<exists>it'. it_Next (db_iterators I) d = Some it' \<and> db_at C at it' vis (Suc p)"
proof -
  obtain kvs j c where on: "db_on C at d kvs j" and vis: "vis = user_view C (di_sequence d) kvs"
    and c: "shows_at C (di_sequence d) kvs c" "p = view_rank C (di_sequence d) kvs c"
      "if di_direction d = kForward then j = c else \<exists>lo. behind kvs j lo \<and> kept_entry (di_sequence d) kvs lo d c"
    using db_at_valid[OF assms] by blast
  note at = db_onD(1)[OF on] and keys = db_onD(2)[OF on] and UC = db_onD(3)[OF on] and s = db_onD(4)[OF on]
    and st = db_onD(5)[OF on] and seed = db_onD(6)[OF on]
  let ?s = "di_sequence d"
  have cl: "c < length kvs" using c(1) by (simp add: shows_at_def)
  obtain d1 lo where d1: "di_Next I d = FindNextUserEntry I True d1" "at (di_iter d1) kvs lo" "lo \<le> c" "same_db d d1"
    "di_direction d1 = kForward" "di_saved_key d1 = ent_user kvs c" "\<forall>m. lo \<le> m \<and> m < c \<longrightarrow> ?s < ent_seq kvs m"
  proof (cases "di_direction d")
    case kForward
    then have jc: "j = c" using c(3) by simp
    show ?thesis
      by (rule that[of "d\<lparr>di_saved_key := ExtractUserKey (it_key I (di_iter d))\<rparr>" c])
        (use kForward at jc seed inner.key[OF at] cl in \<open>auto simp: di_Next_def same_db_def ent_user_def\<close>)
  next
    case kReverse
    then obtain lo where lo: "behind kvs j lo" "kept_entry ?s kvs lo d c" using c(3) by auto
    have k: "lo \<le> c" "di_saved_key d = ent_user kvs c" "\<forall>m. lo \<le> m \<and> m < c \<longrightarrow> ?s < ent_seq kvs m"
      using lo(2) by (simp_all add: kept_entry_def)
    obtain it where it: "(if \<not> it_Valid I (di_iter d) then it_SeekToFirst I (di_iter d) else it_Next I (di_iter d)) = Some it"
      "at it kvs lo"
      using inner.SeekToFirst[OF at] inner.Next[OF at] inner.Valid[OF at] lo(1) k(1) cl by (auto simp: behind_def)
    have "it_Valid I it" using inner.Valid[OF it(2)] k(1) cl by simp
    then show ?thesis
      by (intro that[of "d\<lparr>di_direction := kForward, di_iter := it\<rparr>" lo])
        (use kReverse it k seed in \<open>simp_all add: di_Next_def same_db_def\<close>)
  qed
  have sd: "di_sequence d1 = ?s" "di_user_comparator d1 = C" "di_status d1 = Status_OK" "seed_ok (di_rnd d1)"
    using d1(4) UC st by (simp_all add: same_db_def)
  have "may_skip C ?s kvs (Suc c) True (ent_user kvs c) lo" by (rule may_skip_next[OF at c(1) d1(3,7)])
  then obtain d' j' where d': "FindNextUserEntry I True d1 = Some d'" "same_db d1 d'" "di_direction d' = di_direction d1"
    "found_from (di_sequence d1) kvs (Suc c) d' j'"
    using FindNext_finds[of d1 kvs lo "Suc c" True] d1(2,3,6) cl keys sd ent_key_ok(1)[OF at cl] by auto
  have "db_at C at d' (user_view C (di_sequence d1) kvs) (view_rank C (di_sequence d1) kvs (Suc c))"
    by (rule db_at_found[OF d'(4,2)]) (use d'(3) d1(5) keys sd s in simp_all)
  then show ?thesis using d1(1) d'(1) vis sd(1) c(1,2) by (simp add: db_iterators_def rank_Suc)
qed

text \<open>Scanning backward from an entry behind which nothing is shown before \<open>c\<close>.\<close>

lemma scan_back:
  assumes on: "db_on C at d kvs i" and dir: "di_direction d = kReverse" and c: "c < length kvs"
    and lo: "behind kvs i lo" "lo \<le> c" "\<forall>m. lo \<le> m \<and> m < c \<longrightarrow> \<not> shows_at C (di_sequence d) kvs m"
  defines "vis \<equiv> user_view C (di_sequence d) kvs" and "p \<equiv> view_rank C (di_sequence d) kvs c"
  shows "\<exists>d'. FindPrevUserEntry I d = Some d' \<and> db_at C at d' vis (if p = 0 then length vis else p - 1)"
proof -
  note d = db_onD[OF on]
  let ?s = "di_sequence d"
  have r: "view_rank C ?s kvs lo = p" unfolding p_def by (rule rank_none) (use lo in auto)
  show ?thesis
  proof (cases "i < length kvs")
    case True
    then have li: "Suc i = lo" using lo(1) by (simp add: behind_def)
    obtain d' where d': "FindPrevUserEntry I d = Some d'" "same_db d d'" "found_back ?s kvs i d'"
      using FindPrev_finds[OF d(1,2,6,3) dir, of i] True by blast
    have "(\<exists>m \<le> i. shows_at C ?s kvs m) \<longleftrightarrow> p \<noteq> 0" using rank_positive[of C ?s kvs i] r li by simp
    then have "db_at C at d' vis (if p = 0 then length vis else p - 1)"
      unfolding vis_def by (intro db_at_back[OF d'(3,2) d(2-5)]) (use r li in auto)
    then show ?thesis using d'(1) by simp
  next
    case False
    then have li: "i = length kvs" "lo = 0" using lo(1,2) c by (auto simp: behind_def)
    have "\<not> it_Valid I (di_iter d)" using inner.Valid[OF d(1)] li by simp
    then have "FindPrevUserEntry I d =
      Some (d\<lparr>di_valid := False, di_saved_key := [], di_saved_value := [], di_direction := kForward\<rparr>)"
      by (simp add: FindPrevUserEntry_def)
    moreover have "p = 0" using r li by (simp add: view_rank_def)
    moreover have "db_at C at (d\<lparr>di_valid := False, di_saved_key := [], di_saved_value := [], di_direction := kForward\<rparr>) vis (length vis)"
      unfolding db_at_def by (intro exI[of _ kvs] exI[of _ i]) (use d in \<open>simp add: db_on_def vis_def\<close>)
    ultimately show ?thesis by simp
  qed
qed

lemma db_Prev:
  assumes "db_at C at d vis p" "p < length vis"
  shows "\<exists>it'. it_Prev (db_iterators I) d = Some it' \<and> db_at C at it' vis (if p = 0 then length vis else p - 1)"
proof -
  obtain kvs j c where on: "db_on C at d kvs j" and vis: "vis = user_view C (di_sequence d) kvs"
    and c: "shows_at C (di_sequence d) kvs c" "p = view_rank C (di_sequence d) kvs c"
      "if di_direction d = kForward then j = c else \<exists>lo. behind kvs j lo \<and> kept_entry (di_sequence d) kvs lo d c"
    using db_at_valid[OF assms] by blast
  note d = db_onD[OF on]
  let ?s = "di_sequence d"
  have cl: "c < length kvs" using c(1) by (simp add: shows_at_def)
  show ?thesis
  proof (cases "di_direction d")
    case kReverse
    then obtain lo where lo: "behind kvs j lo" "kept_entry ?s kvs lo d c" using c(3) by auto
    have "\<forall>m. lo \<le> m \<and> m < c \<longrightarrow> \<not> shows_at C ?s kvs m" using lo(2) by (force simp: kept_entry_def shows_at_def)
    moreover have "lo \<le> c" using lo(2) by (simp add: kept_entry_def)
    ultimately show ?thesis
      using scan_back[OF on kReverse cl lo(1)] kReverse unfolding c(2) vis
      by (simp add: db_iterators_def di_Prev_def split del: if_split)
  next
    case kForward
    then have jc: "j = c" using c(3) by simp
    let ?d = "d\<lparr>di_saved_key := ExtractUserKey (it_key I (di_iter d))\<rparr>"
    have sk: "di_saved_key ?d = ent_user kvs c" using inner.key[OF d(1)] jc cl by (simp add: ent_user_def)
    obtain b d1 i where l: "leave_key I ?d = Some (b, d1)" "same_db ?d d1" "di_direction d1 = di_direction ?d"
      "at (di_iter d1) kvs i"
      "if b then i < c \<and> (\<forall>m. i < m \<and> m < c \<longrightarrow> \<not> shows_at C ?s kvs m)
       else \<not> di_valid d1 \<and> (\<forall>m < c. \<not> shows_at C ?s kvs m)"
    proof -
      have "\<forall>m. c \<le> m \<and> m < c \<longrightarrow> \<not> shows_at C ?s kvs m" by auto
      moreover have "at (di_iter ?d) kvs c" "seed_ok (di_rnd ?d)" "di_user_comparator ?d = C" using d jc by simp_all
      ultimately show ?thesis using that leave_key_leaves[of ?d kvs c c ?s] c(1) sk by blast
    qed
    have sd: "same_db d d1" using l(2) by (simp add: same_db_def)
    have on1: "db_on C at d1 kvs i" by (rule db_on_same[OF on sd l(4)])
    show ?thesis
    proof (cases b)
      case False
      then have "view_rank C ?s kvs 0 = view_rank C ?s kvs c" using l(5) by (intro rank_none) auto
      then have p0: "p = 0" using c(2) by (simp add: view_rank_def)
      have "db_at C at d1 vis (length vis)"
        unfolding db_at_def by (intro exI[of _ kvs] exI[of _ i]) (use on1 False l(5) sd vis in \<open>simp add: same_db_def\<close>)
      then show ?thesis using p0 False l(1) kForward by (simp add: db_iterators_def di_Prev_def)
    next
      case True
      have on2: "db_on C at (d1\<lparr>di_direction := kReverse\<rparr>) kvs i" using on1 by (simp add: db_on_def)
      have q: "di_sequence (d1\<lparr>di_direction := kReverse\<rparr>) = ?s" using sd by (simp add: same_db_def)
      have "\<forall>m. Suc i \<le> m \<and> m < c \<longrightarrow> \<not> shows_at C ?s kvs m" "Suc i \<le> c" using l(5) True by (auto simp: Suc_le_eq)
      then have "\<exists>d'. FindPrevUserEntry I (d1\<lparr>di_direction := kReverse\<rparr>) = Some d' \<and>
        db_at C at d' vis (if p = 0 then length vis else p - 1)"
        using scan_back[OF on2 _ cl, of "Suc i"] unfolding q vis c(2) by (simp add: behind_def split del: if_split)
      then show ?thesis using True l(1) kForward by (simp add: db_iterators_def di_Prev_def split del: if_split)
    qed
  qed
qed

theorem db_contract: "sorted_iterator (db_iterators I) (Compare C) key_ok (db_at C at)"
proof
  fix d vis p assume pos: "db_at C at d vis p"
  then obtain kvs j where on: "db_on C at d kvs j" and vis: "vis = user_view C (di_sequence d) kvs" unfolding db_at_def by blast
  show "ascending (Compare C) key_ok vis" unfolding vis by (rule user_view_ascending[OF db_onD(1)[OF on]])
  show "p \<le> length vis" using pos rank_shows(1) unfolding db_at_def by (metis less_imp_le order_refl)
  show val: "it_Valid (db_iterators I) d \<longleftrightarrow> p < length vis"
    using pos rank_shows(1) unfolding db_at_def by (simp add: db_iterators_def) (metis less_irrefl)
  show "it_status (db_iterators I) d = Status_OK"
    using db_onD(5)[OF on] inner.status[OF db_onD(1)[OF on]] by (simp add: db_iterators_def di_the_status_def)
  show "(it_key (db_iterators I) d, it_value (db_iterators I) d) = vis ! p" if "p < length vis" using db_entry[OF pos that] .
  show "\<exists>it'. it_SeekToFirst (db_iterators I) d = Some it' \<and> db_at C at it' vis 0" by (rule db_SeekToFirst[OF pos])
  show "\<exists>it'. it_SeekToLast (db_iterators I) d = Some it' \<and> db_at C at it' vis (length vis - 1)" by (rule db_SeekToLast[OF pos])
  show "\<exists>it'. it_Seek (db_iterators I) target d = Some it' \<and> db_at C at it' vis (length (below (Compare C) target fst vis))"
    if "key_ok target" for target using db_Seek[OF pos that] .
  assume p: "p < length vis"
  show "\<exists>it'. it_Next (db_iterators I) d = Some it' \<and> db_at C at it' vis (Suc p)" by (rule db_Next[OF pos p])
  show "\<exists>it'. it_Prev (db_iterators I) d = Some it' \<and> db_at C at it' vis (if p = 0 then length vis else p - 1)"
    by (rule db_Prev[OF pos p])
qed

lemma db_new:
  assumes "at it kvs j" "db_keys_ok kvs" "s \<le> kMaxSequenceNumber"
  shows "db_at C at (NewDBIterator C it s seed) (user_view C s kvs) (length (user_view C s kvs))"
  unfolding db_at_def db_on_def using assms seed_ok_Next[OF seed_ok_new]
  by (intro exI[of _ kvs] exI[of _ j]) (simp add: NewDBIterator_def RandomCompactionPeriod_eq)

end

end
