(* ===== verification/Ldb_Table_Format.thy ===== *)
theory Ldb_Table_Format
  imports Ldb_Status Ldb_Crc32c
begin

text \<open>
  The format of a table file: \<^verbatim>\<open>table/format.h\<close> and \<^verbatim>\<open>table/format.cc\<close>.

  A file that is read is the function \<^verbatim>\<open>Read\<close> of the interface \<^verbatim>\<open>RandomAccessFile\<close>: it returns a status, the bytes, and
  whether they are in the buffer of the caller (a file mapped into memory returns a pointer of its own). Snappy is
  not code of the repository: it is a record of functions, and \<open>snappy_ok\<close> says that they are inverse. An access
  outside the bytes read has no value, \<open>None\<close>.
\<close>

section \<open>Handles and footers\<close>

record BlockHandle =
  bh_offset :: "64 word"
  bh_size :: "64 word"

definition new_BlockHandle :: BlockHandle where
  "new_BlockHandle = \<lparr>bh_offset = - 1, bh_size = - 1\<rparr>"

definition BlockHandle_EncodeTo :: "BlockHandle \<Rightarrow> slice \<Rightarrow> slice" where
  "BlockHandle_EncodeTo h dst = PutVarint64 (PutVarint64 dst (bh_offset h)) (bh_size h)"

definition BlockHandle_DecodeFrom :: "slice \<Rightarrow> BlockHandle \<Rightarrow> Status \<times> slice \<times> BlockHandle" where
  "BlockHandle_DecodeFrom input h =
     (case GetVarint64 input of
        (None, input) \<Rightarrow> (Corruption (text_bytes ''bad block handle'') [], input, h)
      | (Some offset, input) \<Rightarrow>
          (let h = h\<lparr>bh_offset := offset\<rparr> in
           case GetVarint64 input of
             (None, input) \<Rightarrow> (Corruption (text_bytes ''bad block handle'') [], input, h)
           | (Some sz, input) \<Rightarrow> (Status_OK, input, h\<lparr>bh_size := sz\<rparr>)))"

record Footer =
  ft_metaindex_handle :: BlockHandle
  ft_index_handle :: BlockHandle

definition kMaxEncodedLength :: nat where "kMaxEncodedLength = 10 + 10"
definition kEncodedLength :: nat where "kEncodedLength = 2 * kMaxEncodedLength + 8"
definition kTableMagicNumber :: "64 word" where "kTableMagicNumber = 0xdb4775248b80fb57"
definition kBlockTrailerSize :: nat where "kBlockTrailerSize = 5"

definition new_Footer :: Footer where
  "new_Footer = \<lparr>ft_metaindex_handle = new_BlockHandle, ft_index_handle = new_BlockHandle\<rparr>"

definition resize :: "slice \<Rightarrow> nat \<Rightarrow> slice" where
  "resize s n = take n s @ replicate (n - length s) 0"

definition Footer_EncodeTo :: "Footer \<Rightarrow> slice \<Rightarrow> slice" where
  "Footer_EncodeTo ft dst =
     (let dst = BlockHandle_EncodeTo (ft_metaindex_handle ft) dst;
          dst = BlockHandle_EncodeTo (ft_index_handle ft) dst;
          dst = resize dst (2 * kMaxEncodedLength);
          dst = PutFixed32 dst (ucast (kTableMagicNumber AND 0xffffffff))
      in PutFixed32 dst (ucast (drop_bit 32 kTableMagicNumber)))"

definition Footer_DecodeFrom :: "slice \<Rightarrow> Footer \<Rightarrow> Status \<times> slice \<times> Footer" where
  "Footer_DecodeFrom input ft =
     (let magic_ptr = drop (kEncodedLength - 8) input;
          magic_lo = DecodeFixed32 magic_ptr;
          magic_hi = DecodeFixed32 (drop 4 magic_ptr);
          magic = (push_bit 32 (ucast magic_hi) OR ucast magic_lo :: 64 word)
      in if magic \<noteq> kTableMagicNumber
         then (Corruption (text_bytes ''not an sstable (bad magic number)'') [], input, ft)
         else let (result, rest, h) = BlockHandle_DecodeFrom input (ft_metaindex_handle ft);
                  ft = ft\<lparr>ft_metaindex_handle := h\<rparr>
           in if \<not> Status_ok result then (result, rest, ft)
              else let (result, rest, h) = BlockHandle_DecodeFrom rest (ft_index_handle ft);
                       ft = ft\<lparr>ft_index_handle := h\<rparr>
                in (result, if Status_ok result then drop 8 magic_ptr else rest, ft))"

section \<open>Reading a block of the file\<close>

record RandomAccessFile =
  raf_Read :: "64 word \<Rightarrow> 64 word \<Rightarrow> Status \<times> slice \<times> bool"

record Snappy =
  Snappy_Compress :: "slice \<Rightarrow> slice option"
  Snappy_GetUncompressedLength :: "slice \<Rightarrow> nat option"
  Snappy_Uncompress :: "slice \<Rightarrow> slice option"

datatype CompressionType = kNoCompression | kSnappyCompression

fun compression_byte :: "CompressionType \<Rightarrow> byte" where
  "compression_byte kNoCompression = 0"
| "compression_byte kSnappyCompression = 1"

record BlockContents =
  bc_data :: slice
  bc_cachable :: bool
  bc_heap_allocated :: bool

definition no_contents :: BlockContents where
  "no_contents = \<lparr>bc_data = [], bc_cachable = False, bc_heap_allocated = False\<rparr>"

text \<open>The test of the checksum: \<open>n + 1\<close> is computed in 64 bits, and the bytes of the checksum and the ones it covers are read from the buffer.\<close>

definition block_checksum_ok :: "slice \<Rightarrow> 64 word \<Rightarrow> bool option" where
  "block_checksum_ok data n =
     (let m = unat (n + 1) in
      if length data < m + 4 then None else Some (crc_Value 0 (take m data) = Unmask (DecodeFixed32 (drop m data))))"

definition ReadBlock ::
  "Snappy \<Rightarrow> RandomAccessFile \<Rightarrow> bool \<Rightarrow> BlockHandle \<Rightarrow> (Status \<times> BlockContents) option" where
  "ReadBlock snappy file verify_checksums handle =
     (let n = bh_size handle;
          (s, contents, in_buf) = raf_Read file (bh_offset handle) (n + of_nat kBlockTrailerSize)
      in if \<not> Status_ok s then Some (s, no_contents)
         else if length contents \<noteq> unat (n + of_nat kBlockTrailerSize)
         then Some (Corruption (text_bytes ''truncated block read'') [], no_contents)
         else let data = contents in
           case if verify_checksums then block_checksum_ok data n else Some True of
             None \<Rightarrow> None
           | Some False \<Rightarrow> Some (Corruption (text_bytes ''block checksum mismatch'') [], no_contents)
           | Some True \<Rightarrow>
           let n = unat n in
           if length data \<le> n then None
           else if data ! n = compression_byte kNoCompression
           then Some (Status_OK, \<lparr>bc_data = take n data, bc_cachable = in_buf, bc_heap_allocated = in_buf\<rparr>)
           else if data ! n = compression_byte kSnappyCompression
           then (case Snappy_GetUncompressedLength snappy (take n data) of
                   None \<Rightarrow> Some (Corruption (text_bytes ''corrupted compressed block contents'') [], no_contents)
                 | Some ulength \<Rightarrow>
                     (case Snappy_Uncompress snappy (take n data) of
                        None \<Rightarrow> Some (Corruption (text_bytes ''corrupted compressed block contents'') [], no_contents)
                      | Some ubuf \<Rightarrow> Some (Status_OK, \<lparr>bc_data = resize ubuf ulength, bc_cachable = True, bc_heap_allocated = True\<rparr>)))
           else Some (Corruption (text_bytes ''bad block type'') [], no_contents))"

text \<open>What the code relies on: the library undoes its compression, and a file whose contents are \<open>bs\<close> returns the
  bytes of every range inside it.\<close>

definition snappy_ok :: "Snappy \<Rightarrow> bool" where
  "snappy_ok S \<longleftrightarrow> (\<forall>raw c. Snappy_Compress S raw = Some c \<longrightarrow>
     Snappy_GetUncompressedLength S c = Some (length raw) \<and> Snappy_Uncompress S c = Some raw)"

definition file_reads :: "RandomAccessFile \<Rightarrow> slice \<Rightarrow> bool" where
  "file_reads F bs \<longleftrightarrow> (\<forall>off n. unat off + unat n \<le> length bs \<longrightarrow>
     (\<exists>in_buf. raf_Read F off n = (Status_OK, take (unat n) (drop (unat off) bs), in_buf)))"

section \<open>Round trips\<close>

lemma BlockHandle_EncodeTo_eq: "BlockHandle_EncodeTo h dst = dst @ EncodeVarint64 (bh_offset h) @ EncodeVarint64 (bh_size h)"
  by (simp add: BlockHandle_EncodeTo_def PutVarint64_def)

lemma BlockHandle_DecodeFrom_Encode [simp]:
  "BlockHandle_DecodeFrom (BlockHandle_EncodeTo h [] @ rest) h' = (Status_OK, rest, h)"
  by (simp add: BlockHandle_EncodeTo_eq BlockHandle_DecodeFrom_def coding_simps)

lemma BlockHandle_Decode_Encode' [simp]:
  "BlockHandle_DecodeFrom (BlockHandle_EncodeTo h []) h' = (Status_OK, [], h)"
  using BlockHandle_DecodeFrom_Encode[of h "[]"] by simp

lemma BlockHandle_Encode_inj: "BlockHandle_EncodeTo h [] = BlockHandle_EncodeTo h' [] \<Longrightarrow> h = h'"
  by (metis BlockHandle_Decode_Encode' prod.inject)

lemma length_vbytes64: "length (vbytes (unat (v :: 64 word))) \<le> 10"
  by (rule length_vbytes_le) (use unat_bound_64[of v] in auto)

lemma length_handle: "length (BlockHandle_EncodeTo h []) \<le> 20"
  using length_vbytes64[of "bh_offset h"] length_vbytes64[of "bh_size h"]
  by (simp add: BlockHandle_EncodeTo_eq EncodeVarint64_eq)

lemma Footer_EncodeTo_eq:
  "\<exists>pad. Footer_EncodeTo ft [] = BlockHandle_EncodeTo (ft_metaindex_handle ft) [] @ BlockHandle_EncodeTo (ft_index_handle ft) [] @
     pad @ EncodeFixed32 0x8b80fb57 @ EncodeFixed32 0xdb477524 \<and>
   length (BlockHandle_EncodeTo (ft_metaindex_handle ft) [] @ BlockHandle_EncodeTo (ft_index_handle ft) [] @ pad) = 40"
proof -
  let ?m = "BlockHandle_EncodeTo (ft_metaindex_handle ft) []" and ?i = "BlockHandle_EncodeTo (ft_index_handle ft) []"
  have e: "BlockHandle_EncodeTo h d = d @ BlockHandle_EncodeTo h []" for h d by (simp add: BlockHandle_EncodeTo_eq)
  have le: "length ?m + length ?i \<le> 40"
    using length_handle[of "ft_metaindex_handle ft"] length_handle[of "ft_index_handle ft"] by simp
  have m: "(ucast (kTableMagicNumber AND 0xffffffff) :: 32 word) = 0x8b80fb57" "(ucast (drop_bit 32 kTableMagicNumber) :: 32 word) = 0xdb477524"
    by (simp_all add: kTableMagicNumber_def)
  show ?thesis
    by (rule exI[of _ "replicate (40 - (length ?m + length ?i)) 0"])
      (use le in \<open>simp add: Footer_EncodeTo_def Let_def e[of _ ?m] resize_def kMaxEncodedLength_def PutFixed32_def m\<close>)
qed

lemma length_Footer [simp]: "length (Footer_EncodeTo ft []) = kEncodedLength"
  using Footer_EncodeTo_eq[of ft] by (auto simp: kEncodedLength_def kMaxEncodedLength_def)

lemma Footer_DecodeFrom_Encode: "Footer_DecodeFrom (Footer_EncodeTo ft [] @ rest) ft' = (Status_OK, rest, ft)"
proof -
  obtain pad where p: "Footer_EncodeTo ft [] = BlockHandle_EncodeTo (ft_metaindex_handle ft) [] @
      BlockHandle_EncodeTo (ft_index_handle ft) [] @ pad @ EncodeFixed32 0x8b80fb57 @ EncodeFixed32 0xdb477524"
    "length (BlockHandle_EncodeTo (ft_metaindex_handle ft) [] @ BlockHandle_EncodeTo (ft_index_handle ft) [] @ pad) = 40"
    using Footer_EncodeTo_eq by blast
  define F where "F = Footer_EncodeTo ft [] @ rest"
  have d: "drop 40 F = EncodeFixed32 0x8b80fb57 @ EncodeFixed32 0xdb477524 @ rest"
    unfolding F_def p(1) using p(2) by simp
  then have "drop 4 (drop 40 F) = EncodeFixed32 0xdb477524 @ rest" "drop 8 (drop 40 F) = rest" by (simp_all del: drop_drop)
  then have d4: "drop 44 F = EncodeFixed32 0xdb477524 @ rest" "drop 48 F = rest" by simp_all
  have k: "kEncodedLength - 8 = 40" by (simp add: kEncodedLength_def kMaxEncodedLength_def)
  have magic: "(push_bit 32 (ucast (0xdb477524 :: 32 word)) OR ucast (0x8b80fb57 :: 32 word) :: 64 word) = kTableMagicNumber"
    by (simp add: kTableMagicNumber_def)
  have body: "F = BlockHandle_EncodeTo (ft_metaindex_handle ft) [] @
      BlockHandle_EncodeTo (ft_index_handle ft) [] @ pad @ EncodeFixed32 0x8b80fb57 @ EncodeFixed32 0xdb477524 @ rest"
    by (simp add: p(1) F_def)
  show ?thesis
    unfolding Footer_DecodeFrom_def Let_def k drop_drop F_def[symmetric]
    using d d4 magic by (simp add: body split del: if_split)
qed

section \<open>Stored blocks\<close>

text \<open>A block in the file: its bytes, the type and the masked checksum of both.\<close>

definition block_image :: "CompressionType \<Rightarrow> slice \<Rightarrow> slice" where
  "block_image t data = data @ [compression_byte t] @ EncodeFixed32 (Mask (crc32c 0 (data @ [compression_byte t])))"

definition expands :: "Snappy \<Rightarrow> CompressionType \<Rightarrow> slice \<Rightarrow> slice \<Rightarrow> bool" where
  "expands S t data raw \<longleftrightarrow>
     (case t of kNoCompression \<Rightarrow> data = raw
      | kSnappyCompression \<Rightarrow> Snappy_GetUncompressedLength S data = Some (length raw) \<and> Snappy_Uncompress S data = Some raw)"

lemma length_block_image [simp]: "length (block_image t data) = length data + kBlockTrailerSize"
  by (simp add: block_image_def kBlockTrailerSize_def)

lemma resize_all [simp]: "resize s (length s) = s"
  by (simp add: resize_def)

lemma unat_size_trailer: "unat n + 5 < 2 ^ 64 \<Longrightarrow> unat ((n :: 64 word) + 5) = unat n + 5"
  using unat_add_lem[of n 5] by simp

lemma block_checksum_read:
  assumes "unat n + 5 < 2 ^ 64" "unat n + 5 \<le> length data"
  shows "block_checksum_ok data n = Some (crc_Value 0 (take (unat n + 1) data) = Unmask (DecodeFixed32 (drop (unat n + 1) data)))"
proof -
  have "unat (n + 1) = unat n + 1" using unat_add_lem[of n 1] assms(1) by simp
  then show ?thesis using assms(2) by (simp add: block_checksum_ok_def)
qed


lemma ReadBlock_stored:
  assumes F: "file_reads F bs" and bs: "take (length data + kBlockTrailerSize) (drop (unat (bh_offset h)) bs) = block_image t data"
    and sz: "unat (bh_size h) = length data" and len: "length bs < 2 ^ 63" and raw: "expands S t data raw"
  shows "\<exists>b. ReadBlock S F v h = Some (Status_OK, b) \<and> bc_data b = raw"
proof -
  let ?n = "length data"
  have fit: "unat (bh_offset h) + (?n + kBlockTrailerSize) \<le> length bs"
    using arg_cong[OF bs, of length] by (simp add: kBlockTrailerSize_def)
  have n5: "unat (bh_size h + of_nat kBlockTrailerSize) = ?n + kBlockTrailerSize"
    using unat_size_trailer[of "bh_size h"] sz fit len by (simp add: kBlockTrailerSize_def)
  obtain in_buf where r: "raf_Read F (bh_offset h) (bh_size h + of_nat kBlockTrailerSize) = (Status_OK, block_image t data, in_buf)"
    using F n5 fit bs by (metis file_reads_def)
  have "unat (bh_size h) + 5 < 2 ^ 64" using sz fit len by (simp add: kBlockTrailerSize_def)
  then have crc: "block_checksum_ok (block_image t data) (bh_size h) = Some True"
    by (subst block_checksum_read) (simp_all add: sz crc_Value_def Extend_correct block_image_def kBlockTrailerSize_def,
      metis DecodeFixed32_Encode Unmask_Mask append_Nil2)
  have nth: "block_image t data ! ?n = compression_byte t" "take ?n (block_image t data) = data"
    by (simp_all add: block_image_def)
  show ?thesis
    by (cases t) (use r n5 sz crc nth raw in \<open>simp_all add: ReadBlock_def Let_def expands_def, simp_all add: kBlockTrailerSize_def\<close>)
qed

text \<open>Damage inside four consecutive bytes of a stored block is noticed.\<close>

lemma checksum_refuses:
  assumes "length w = 4" "length w' = 4" "w \<noteq> w'"
    and "length data = unat n + 1" "unat n + 5 < 2 ^ 64" "data = a @ w @ b" "stored = a @ w' @ b @ EncodeFixed32 (Mask (crc32c 0 data)) @ rest"
  shows "block_checksum_ok stored n = Some False"
proof -
  have t: "take (unat n + 1) stored = a @ w' @ b" "drop (unat n + 1) stored = EncodeFixed32 (Mask (crc32c 0 data)) @ rest"
    and l: "unat n + 5 \<le> length stored"
    using assms by simp_all
  have "crc_Value 0 (take (unat n + 1) stored) \<noteq> Unmask (DecodeFixed32 (drop (unat n + 1) stored))"
    using burst_changes_crc[OF assms(1-3), of 0 a b] assms(6)
    unfolding t crc_Value_def Extend_correct DecodeFixed32_Encode Unmask_Mask by metis
  then show ?thesis using block_checksum_read[OF assms(5) l] by simp
qed


section \<open>Properties\<close>

text \<open>C18. What \<^verbatim>\<open>ReadBlock\<close> returns with checksums on, when the range of the block in the file differs from
  the stored block inside four consecutive bytes: the status \<open>block checksum mismatch\<close> and no contents.\<close>

theorem read_block_detects_damage:
  assumes F: "file_reads F bs" and len: "length bs < 2 ^ 63" and sz: "unat (bh_size h) = length data"
    and image: "data @ [compression_byte t] = a @ w @ b" and w: "length w = 4" "length w' = 4" "w \<noteq> w'"
    and bs: "take (length data + kBlockTrailerSize) (drop (unat (bh_offset h)) bs) =
      a @ w' @ b @ EncodeFixed32 (Mask (crc32c 0 (data @ [compression_byte t])))"
  shows "ReadBlock S F True h = Some (Corruption (text_bytes ''block checksum mismatch'') [], no_contents)"
proof -
  let ?n = "length data"
  let ?bad = "a @ w' @ b @ EncodeFixed32 (Mask (crc32c 0 (data @ [compression_byte t])))"
  have ln: "length ?bad = ?n + kBlockTrailerSize" using arg_cong[OF image, of length] w by (simp add: kBlockTrailerSize_def)
  have fit: "unat (bh_offset h) + (?n + kBlockTrailerSize) \<le> length bs"
    using arg_cong[OF bs, of length] ln by (simp add: kBlockTrailerSize_def)
  have n5: "unat (bh_size h + of_nat kBlockTrailerSize) = ?n + kBlockTrailerSize"
    using unat_size_trailer[of "bh_size h"] sz fit len by (simp add: kBlockTrailerSize_def)
  obtain in_buf where r: "raf_Read F (bh_offset h) (bh_size h + of_nat kBlockTrailerSize) = (Status_OK, ?bad, in_buf)"
    using F n5 fit bs by (metis file_reads_def)
  have "unat (bh_size h) + 5 < 2 ^ 64" using sz fit len by (simp add: kBlockTrailerSize_def)
  then have "block_checksum_ok ?bad (bh_size h) = Some False"
    using checksum_refuses[OF w _ _ image, of "bh_size h" ?bad "[]"] sz by simp
  then show ?thesis using r n5 sz ln by (simp add: ReadBlock_def Let_def del: append_assoc length_append)
qed

definition memory_table :: "slice \<Rightarrow> RandomAccessFile" where
  "memory_table bs = \<lparr>raf_Read = (\<lambda>off n. (Status_OK, take (unat n) (drop (unat off) bs), True))\<rparr>"

lemma memory_table_reads: "file_reads (memory_table bs) bs"
  by (auto simp: file_reads_def memory_table_def)

definition no_snappy :: Snappy where
  "no_snappy = \<lparr>Snappy_Compress = (\<lambda>raw. None), Snappy_GetUncompressedLength = (\<lambda>c. None), Snappy_Uncompress = (\<lambda>c. None)\<rparr>"

theorem read_block_detects_damage_witness:
  "ReadBlock no_snappy (memory_table ([9, 9] @ [1, 2, 3, 7, 5] @ [0] @ EncodeFixed32 (Mask (crc32c 0 [1, 2, 3, 4, 5, 0])))) True
     \<lparr>bh_offset = 2, bh_size = 5\<rparr> = Some (Corruption (text_bytes ''block checksum mismatch'') [], no_contents)"
  using read_block_detects_damage[OF memory_table_reads, of "[9, 9] @ [1, 2, 3, 7, 5] @ [0] @ EncodeFixed32 (Mask (crc32c 0 [1, 2, 3, 4, 5, 0]))"
      "\<lparr>bh_offset = 2, bh_size = 5\<rparr>" "[1, 2, 3, 4, 5]" kNoCompression "[1]" "[2, 3, 4, 5]" "[0]" "[2, 3, 7, 5]"]
  by (simp add: kBlockTrailerSize_def)



end
