(* ===== verification/Ldb_Two_Level.thy ===== *)
theory Ldb_Two_Level
  imports Ldb_Iterator
begin

text \<open>
  The two-level iterator: \<^verbatim>\<open>table/two_level_iterator.cc\<close>.

  The index iterator has the operations \<open>I\<close>, the iterators over blocks have the operations \<open>D\<close>; the block
  function with its argument and the options is \<open>B\<close>. The loops that skip empty blocks end when the index iterator ends; they are
  partial functions, and \<open>two_level_contract\<close> shows that they return and that the iterator satisfies the contract
  of iterators for the concatenation of the blocks.
\<close>

record ('x, 'd) TwoLevelIterator =
  tl_status :: Status
  tl_index_iter :: "'x IteratorWrapper"
  tl_data_iter :: "'d IteratorWrapper"
  tl_data_block_handle :: slice

definition NewTwoLevelIterator :: "'x Iterator \<Rightarrow> 'x \<Rightarrow> ('x, 'd) TwoLevelIterator" where
  "NewTwoLevelIterator I index_iter =
     \<lparr>tl_status = Status_OK, tl_index_iter = iw_Set I (Some index_iter) new_IteratorWrapper,
      tl_data_iter = new_IteratorWrapper, tl_data_block_handle = []\<rparr>"

definition tl_SaveError :: "Status \<Rightarrow> ('x, 'd) TwoLevelIterator \<Rightarrow> ('x, 'd) TwoLevelIterator" where
  "tl_SaveError s t = (if Status_ok (tl_status t) \<and> \<not> Status_ok s then t\<lparr>tl_status := s\<rparr> else t)"

definition SetDataIterator ::
  "'d Iterator \<Rightarrow> 'd option \<Rightarrow> ('x, 'd) TwoLevelIterator \<Rightarrow> ('x, 'd) TwoLevelIterator" where
  "SetDataIterator D data_iter t =
     (let t = (if iw_iter (tl_data_iter t) \<noteq> None then tl_SaveError (iw_status D (tl_data_iter t)) t else t)
      in t\<lparr>tl_data_iter := iw_Set D data_iter (tl_data_iter t)\<rparr>)"

definition InitDataBlock ::
  "'x Iterator \<Rightarrow> 'd Iterator \<Rightarrow> (slice \<Rightarrow> 'd option) \<Rightarrow> ('x, 'd) TwoLevelIterator \<Rightarrow> ('x, 'd) TwoLevelIterator option" where
  "InitDataBlock I D B t =
     (if \<not> iw_valid (tl_index_iter t) then Some (SetDataIterator D None t)
      else let handle = iw_value I (tl_index_iter t) in
        if iw_iter (tl_data_iter t) \<noteq> None \<and> handle = tl_data_block_handle t then Some t
        else (case B handle of None \<Rightarrow> None
              | Some it \<Rightarrow> Some (SetDataIterator D (Some it) (t\<lparr>tl_data_block_handle := handle\<rparr>))))"

definition data_call ::
  "('d IteratorWrapper \<Rightarrow> 'd IteratorWrapper option) \<Rightarrow> ('x, 'd) TwoLevelIterator \<Rightarrow> ('x, 'd) TwoLevelIterator option" where
  "data_call f t = map_option (\<lambda>w. t\<lparr>tl_data_iter := w\<rparr>) (f (tl_data_iter t))"

definition index_call ::
  "('x IteratorWrapper \<Rightarrow> 'x IteratorWrapper option) \<Rightarrow> ('x, 'd) TwoLevelIterator \<Rightarrow> ('x, 'd) TwoLevelIterator option" where
  "index_call f t = map_option (\<lambda>w. t\<lparr>tl_index_iter := w\<rparr>) (f (tl_index_iter t))"

text \<open>The sequence that every positioning shares: move the index iterator, open its block, and, when there is one,
  move the iterator over the block.\<close>

definition move_both ::
  "'x Iterator \<Rightarrow> 'd Iterator \<Rightarrow> (slice \<Rightarrow> 'd option) \<Rightarrow> ('x IteratorWrapper \<Rightarrow> 'x IteratorWrapper option) \<Rightarrow>
   ('d IteratorWrapper \<Rightarrow> 'd IteratorWrapper option) \<Rightarrow> ('x, 'd) TwoLevelIterator \<Rightarrow> ('x, 'd) TwoLevelIterator option" where
  "move_both I D B f g t =
     (case index_call f t of None \<Rightarrow> None
      | Some t \<Rightarrow> (case InitDataBlock I D B t of None \<Rightarrow> None
                  | Some t \<Rightarrow> if iw_iter (tl_data_iter t) \<noteq> None then data_call g t else Some t))"

partial_function (option) SkipEmptyDataBlocksForward ::
  "'x Iterator \<Rightarrow> 'd Iterator \<Rightarrow> (slice \<Rightarrow> 'd option) \<Rightarrow> ('x, 'd) TwoLevelIterator \<Rightarrow> ('x, 'd) TwoLevelIterator option" where
  "SkipEmptyDataBlocksForward I D B t =
     (if iw_iter (tl_data_iter t) = None \<or> \<not> iw_valid (tl_data_iter t) then
        if \<not> iw_valid (tl_index_iter t) then Some (SetDataIterator D None t)
        else (case move_both I D B (iw_Next I) (iw_SeekToFirst D) t of None \<Rightarrow> None
              | Some t \<Rightarrow> SkipEmptyDataBlocksForward I D B t)
      else Some t)"

partial_function (option) SkipEmptyDataBlocksBackward ::
  "'x Iterator \<Rightarrow> 'd Iterator \<Rightarrow> (slice \<Rightarrow> 'd option) \<Rightarrow> ('x, 'd) TwoLevelIterator \<Rightarrow> ('x, 'd) TwoLevelIterator option" where
  "SkipEmptyDataBlocksBackward I D B t =
     (if iw_iter (tl_data_iter t) = None \<or> \<not> iw_valid (tl_data_iter t) then
        if \<not> iw_valid (tl_index_iter t) then Some (SetDataIterator D None t)
        else (case move_both I D B (iw_Prev I) (iw_SeekToLast D) t of None \<Rightarrow> None
              | Some t \<Rightarrow> SkipEmptyDataBlocksBackward I D B t)
      else Some t)"

definition tl_Seek ::
  "'x Iterator \<Rightarrow> 'd Iterator \<Rightarrow> (slice \<Rightarrow> 'd option) \<Rightarrow> slice \<Rightarrow> ('x, 'd) TwoLevelIterator \<Rightarrow> ('x, 'd) TwoLevelIterator option" where
  "tl_Seek I D B target t =
     (case move_both I D B (iw_Seek I target) (iw_Seek D target) t of None \<Rightarrow> None
      | Some t \<Rightarrow> SkipEmptyDataBlocksForward I D B t)"

definition tl_SeekToFirst ::
  "'x Iterator \<Rightarrow> 'd Iterator \<Rightarrow> (slice \<Rightarrow> 'd option) \<Rightarrow> ('x, 'd) TwoLevelIterator \<Rightarrow> ('x, 'd) TwoLevelIterator option" where
  "tl_SeekToFirst I D B t =
     (case move_both I D B (iw_SeekToFirst I) (iw_SeekToFirst D) t of None \<Rightarrow> None
      | Some t \<Rightarrow> SkipEmptyDataBlocksForward I D B t)"

definition tl_SeekToLast ::
  "'x Iterator \<Rightarrow> 'd Iterator \<Rightarrow> (slice \<Rightarrow> 'd option) \<Rightarrow> ('x, 'd) TwoLevelIterator \<Rightarrow> ('x, 'd) TwoLevelIterator option" where
  "tl_SeekToLast I D B t =
     (case move_both I D B (iw_SeekToLast I) (iw_SeekToLast D) t of None \<Rightarrow> None
      | Some t \<Rightarrow> SkipEmptyDataBlocksBackward I D B t)"

definition tl_Valid :: "('x, 'd) TwoLevelIterator \<Rightarrow> bool" where
  "tl_Valid t = iw_valid (tl_data_iter t)"

definition tl_Next ::
  "'x Iterator \<Rightarrow> 'd Iterator \<Rightarrow> (slice \<Rightarrow> 'd option) \<Rightarrow> ('x, 'd) TwoLevelIterator \<Rightarrow> ('x, 'd) TwoLevelIterator option" where
  "tl_Next I D B t =
     (if \<not> tl_Valid t then None
      else case data_call (iw_Next D) t of None \<Rightarrow> None | Some t \<Rightarrow> SkipEmptyDataBlocksForward I D B t)"

definition tl_Prev ::
  "'x Iterator \<Rightarrow> 'd Iterator \<Rightarrow> (slice \<Rightarrow> 'd option) \<Rightarrow> ('x, 'd) TwoLevelIterator \<Rightarrow> ('x, 'd) TwoLevelIterator option" where
  "tl_Prev I D B t =
     (if \<not> tl_Valid t then None
      else case data_call (iw_Prev D) t of None \<Rightarrow> None | Some t \<Rightarrow> SkipEmptyDataBlocksBackward I D B t)"

definition tl_key :: "('x, 'd) TwoLevelIterator \<Rightarrow> slice" where
  "tl_key t = iw_cached_key (tl_data_iter t)"

definition tl_value :: "'d Iterator \<Rightarrow> ('x, 'd) TwoLevelIterator \<Rightarrow> slice" where
  "tl_value D t = iw_value D (tl_data_iter t)"

definition tl_the_status :: "'x Iterator \<Rightarrow> 'd Iterator \<Rightarrow> ('x, 'd) TwoLevelIterator \<Rightarrow> Status" where
  "tl_the_status I D t =
     (if \<not> Status_ok (iw_status I (tl_index_iter t)) then iw_status I (tl_index_iter t)
      else if iw_iter (tl_data_iter t) \<noteq> None \<and> \<not> Status_ok (iw_status D (tl_data_iter t)) then iw_status D (tl_data_iter t)
      else tl_status t)"

definition two_level :: "'x Iterator \<Rightarrow> 'd Iterator \<Rightarrow> (slice \<Rightarrow> 'd option) \<Rightarrow> ('x, 'd) TwoLevelIterator Iterator" where
  "two_level I D B =
     \<lparr>it_Valid = tl_Valid, it_SeekToFirst = tl_SeekToFirst I D B, it_SeekToLast = tl_SeekToLast I D B,
      it_Seek = tl_Seek I D B, it_Next = tl_Next I D B, it_Prev = tl_Prev I D B, it_key = tl_key, it_value = tl_value D,
      it_status = tl_the_status I D\<rparr>"

section \<open>Blocks under an index\<close>

text \<open>An entry of the index is a key and the handle of a block; \<open>K\<close> gives the entries of the block with a handle.
  The key of the index is not before any key of its block, and before every key of the blocks that follow.\<close>

definition block_entries :: "(slice \<Rightarrow> entries) \<Rightarrow> entries \<Rightarrow> entries" where
  "block_entries K idx = concat (map (K \<circ> snd) idx)"

definition index_ok :: "(slice \<Rightarrow> slice \<Rightarrow> int) \<Rightarrow> (slice \<Rightarrow> entries) \<Rightarrow> entries \<Rightarrow> bool" where
  "index_ok compare K idx \<longleftrightarrow>
     (\<forall>x \<in> set idx. \<forall>kv \<in> set (K (snd x)). compare (fst kv) (fst x) \<le> 0) \<and>
     sorted_wrt (\<lambda>x y. \<forall>kv \<in> set (K (snd y)). compare (fst x) (fst kv) < 0) idx"

definition block_off :: "(slice \<Rightarrow> entries) \<Rightarrow> entries \<Rightarrow> nat \<Rightarrow> nat" where
  "block_off K idx b = length (block_entries K (take b idx))"

definition standing ::
  "'x Iterator \<Rightarrow> 'd Iterator \<Rightarrow> ('x \<Rightarrow> entries \<Rightarrow> nat \<Rightarrow> bool) \<Rightarrow> ('d \<Rightarrow> entries \<Rightarrow> nat \<Rightarrow> bool) \<Rightarrow>
   (slice \<Rightarrow> entries) \<Rightarrow> entries \<Rightarrow> ('x, 'd) TwoLevelIterator \<Rightarrow> nat \<Rightarrow> nat \<Rightarrow> bool" where
  "standing I D at dat K idx t b i \<longleftrightarrow>
     wrapped_at I at (tl_index_iter t) idx b \<and> tl_status t = Status_OK \<and>
     (if b < length idx then tl_data_block_handle t = snd (idx ! b) \<and>
        wrapped_at D dat (tl_data_iter t) (K (snd (idx ! b))) i
      else iw_iter (tl_data_iter t) = None \<and> \<not> iw_valid (tl_data_iter t) \<and> i = 0)"

definition resting ::
  "'x Iterator \<Rightarrow> 'd Iterator \<Rightarrow> ('x \<Rightarrow> entries \<Rightarrow> nat \<Rightarrow> bool) \<Rightarrow> ('d \<Rightarrow> entries \<Rightarrow> nat \<Rightarrow> bool) \<Rightarrow>
   (slice \<Rightarrow> entries) \<Rightarrow> entries \<Rightarrow> ('x, 'd) TwoLevelIterator \<Rightarrow> nat \<Rightarrow> bool" where
  "resting I D at dat K idx t j \<longleftrightarrow>
     (\<exists>b i. standing I D at dat K idx t b i \<and> b < length idx \<and> i < length (K (snd (idx ! b))) \<and> j = block_off K idx b + i) \<or>
     (\<exists>b. wrapped_at I at (tl_index_iter t) idx b) \<and> tl_status t = Status_OK \<and>
     iw_iter (tl_data_iter t) = None \<and> \<not> iw_valid (tl_data_iter t) \<and> j = length (block_entries K idx)"

definition two_level_at ::
  "'x Iterator \<Rightarrow> 'd Iterator \<Rightarrow> (slice \<Rightarrow> 'd option) \<Rightarrow> (slice \<Rightarrow> slice \<Rightarrow> int) \<Rightarrow> (slice \<Rightarrow> bool) \<Rightarrow>
   ('x \<Rightarrow> entries \<Rightarrow> nat \<Rightarrow> bool) \<Rightarrow> ('d \<Rightarrow> entries \<Rightarrow> nat \<Rightarrow> bool) \<Rightarrow>
   ('x, 'd) TwoLevelIterator \<Rightarrow> entries \<Rightarrow> nat \<Rightarrow> bool" where
  "two_level_at I D B compare ok at dat t kvs j \<longleftrightarrow>
     (\<exists>K idx. kvs = block_entries K idx \<and> ascending compare ok kvs \<and> ascending compare ok idx \<and> index_ok compare K idx \<and>
        (\<forall>x \<in> set idx. \<exists>it i. B (snd x) = Some it \<and> dat it (K (snd x)) i) \<and> resting I D at dat K idx t j)"

lemma block_entries_simps [simp]:
  "block_entries K [] = []" "block_entries K (x # idx) = K (snd x) @ block_entries K idx"
  "block_entries K (idx @ idx') = block_entries K idx @ block_entries K idx'"
  by (simp_all add: block_entries_def)

lemma block_off_0 [simp]: "block_off K idx 0 = 0"
  by (simp add: block_off_def)

lemma block_off_Suc: "b < length idx \<Longrightarrow> block_off K idx (Suc b) = block_off K idx b + length (K (snd (idx ! b)))"
  by (simp add: block_off_def take_Suc_conv_app_nth)

lemma block_off_all: "length idx \<le> b \<Longrightarrow> block_off K idx b = length (block_entries K idx)"
  by (simp add: block_off_def)

lemma block_entries_at:
  assumes b: "b < length idx"
  shows "block_entries K idx = block_entries K (take b idx) @ K (snd (idx ! b)) @ block_entries K (drop (Suc b) idx)"
proof -
  have "idx = take b idx @ idx ! b # drop (Suc b) idx" using b by (simp add: id_take_nth_drop)
  then show ?thesis by (metis block_entries_simps(2,3))
qed

lemma block_entries_nth:
  assumes "b < length idx" "i < length (K (snd (idx ! b)))"
  shows "block_entries K idx ! (block_off K idx b + i) = K (snd (idx ! b)) ! i"
    and "block_off K idx b + i < length (block_entries K idx)"
  using assms by (simp_all add: block_entries_at[OF assms(1), of K] nth_append block_off_def)

lemma set_block_entries: "kv \<in> set (block_entries K idx) \<longleftrightarrow> (\<exists>x \<in> set idx. kv \<in> set (K (snd x)))"
  by (auto simp: block_entries_def)

lemma below_blocks:
  assumes asc: "ascending compare ok (block_entries K idx)" "ascending compare ok idx" and idx: "index_ok compare K idx"
    and okt: "ok target"
  defines "b \<equiv> length (below compare target fst idx)"
  shows "length (below compare target fst (block_entries K idx)) =
    block_off K idx b + (if b < length idx then length (below compare target fst (K (snd (idx ! b)))) else 0)"
proof -
  have order: "compare_order compare ok" using asc by (simp add: ascending_def)
  have okb: "ok (fst kv)" if "x \<in> set idx" "kv \<in> set (K (snd x))" for x kv
    using asc(1) that by (auto simp: ascending_def set_block_entries)
  have oki: "ok (fst x)" if "x \<in> set idx" for x using asc(2) that by (simp add: ascending_def)
  have cut: "idx = below compare target fst idx @ upwards compare target fst idx"
    by (rule compare_order.sorted_cut[OF order]) (use asc(2) okt in \<open>auto simp: ascending_def\<close>)
  then have take_b: "take b idx = below compare target fst idx" by (metis b_def append_eq_conv_conj)
  have early: "below compare target fst (block_entries K (take b idx)) = block_entries K (take b idx)"
    unfolding below_def
  proof (rule filter_True, rule ballI)
    fix kv assume "kv \<in> set (block_entries K (take b idx))"
    then obtain x where x: "x \<in> set idx" "compare (fst x) target < 0" "kv \<in> set (K (snd x))"
      unfolding take_b by (auto simp: set_block_entries below_def)
    then have "compare (fst kv) (fst x) \<le> 0" using idx by (auto simp: index_ok_def)
    then show "compare (fst kv) target < 0"
      using compare_order.le_less_trans[OF order okb[OF x(1,3)] oki[OF x(1)] okt] x(2) by blast
  qed
  show ?thesis
  proof (cases "b < length idx")
    case False
    then have "take b idx = idx" by simp
    then show ?thesis using early False by (simp add: block_off_def)
  next
    case True
    have "idx ! b \<in> set (upwards compare target fst idx)"
      using cut True b_def by (metis nth_append_right nth_mem order_refl diff_self_eq_0 length_append nat_add_left_cancel_less add_0_right)
    then have up: "\<not> compare (fst (idx ! b)) target < 0" by (simp add: upwards_def)
    have late: "below compare target fst (block_entries K (drop (Suc b) idx)) = []"
      unfolding below_def
    proof (rule filter_False, rule ballI)
      fix kv assume "kv \<in> set (block_entries K (drop (Suc b) idx))"
      then obtain y where y: "y \<in> set (drop (Suc b) idx)" "kv \<in> set (K (snd y))" by (auto simp: set_block_entries)
      have "idx = take b idx @ idx ! b # drop (Suc b) idx" using True by (simp add: id_take_nth_drop)
      then have "sorted_wrt (\<lambda>x y. \<forall>kv \<in> set (K (snd y)). compare (fst x) (fst kv) < 0) (take b idx @ idx ! b # drop (Suc b) idx)"
        using idx unfolding index_ok_def by metis
      then have "compare (fst (idx ! b)) (fst kv) < 0" using y by (simp add: sorted_wrt_append)
      moreover have "ok (fst kv)" "ok (fst (idx ! b))" using okb[of y kv] y oki[of "idx ! b"] True in_set_dropD by fastforce+
      ultimately show "\<not> compare (fst kv) target < 0"
        using compare_order.less_trans[OF order, of "fst (idx ! b)" "fst kv" target] okt up by blast
    qed
    show ?thesis
      unfolding block_entries_at[OF True, of K] using early late True by (simp add: below_def block_off_def)
  qed
qed

section \<open>The moves\<close>

lemma option_bind_ex: "f = Some x \<and> P x \<Longrightarrow> \<exists>y. f = Some y \<and> P y"
  by blast

locale two_level_iterators =
  index: sorted_iterator I compare ok at + data: sorted_iterator D compare ok dat
  for I :: "'x Iterator" and compare ok at and D :: "'d Iterator" and dat +
  fixes B :: "slice \<Rightarrow> 'd option"
begin

lemma SetDataIterator_none:
  assumes "iw_iter (tl_data_iter t) \<noteq> None \<Longrightarrow> iw_status D (tl_data_iter t) = Status_OK"
  shows "iw_iter (tl_data_iter (SetDataIterator D None t)) = None"
    "\<not> iw_valid (tl_data_iter (SetDataIterator D None t))"
    "tl_index_iter (SetDataIterator D None t) = tl_index_iter t"
    "tl_status (SetDataIterator D None t) = tl_status t"
  using assms by (auto simp: SetDataIterator_def Let_def iw_Set_def tl_SaveError_def)

lemma InitDataBlock_stands:
  assumes w: "wrapped_at I at (tl_index_iter t) idx b" and st: "tl_status t = Status_OK"
    and dat: "iw_iter (tl_data_iter t) = None \<or> (\<exists>i. wrapped_at D dat (tl_data_iter t) (K (tl_data_block_handle t)) i)"
    and blocks: "\<forall>x \<in> set idx. \<exists>it i. B (snd x) = Some it \<and> dat it (K (snd x)) i"
  shows "\<exists>t' i. InitDataBlock I D B t = Some t' \<and> standing I D at dat K idx t' b i"
proof (cases "b < length idx")
  case False
  have ok: "iw_iter (tl_data_iter t) \<noteq> None \<Longrightarrow> iw_status D (tl_data_iter t) = Status_OK"
    using dat data.wrapped_facts(5) by auto
  have "InitDataBlock I D B t = Some (SetDataIterator D None t)"
    using index.wrapped_facts(2)[OF w] False by (simp add: InitDataBlock_def)
  then show ?thesis using SetDataIterator_none[of t, OF ok] w st False by (simp add: standing_def)
next
  case True
  have h: "iw_valid (tl_index_iter t)" "iw_value I (tl_index_iter t) = snd (idx ! b)"
    using index.wrapped_facts(2,4)[OF w] True by simp_all
  show ?thesis
  proof (cases "iw_iter (tl_data_iter t) \<noteq> None \<and> snd (idx ! b) = tl_data_block_handle t")
    case True
    then show ?thesis using h w st dat \<open>b < length idx\<close> by (auto simp: InitDataBlock_def standing_def)
  next
    case False
    have ok: "iw_iter (tl_data_iter t) \<noteq> None \<Longrightarrow> iw_status D (tl_data_iter t) = Status_OK"
      using dat data.wrapped_facts(5) by auto
    obtain it i where it: "B (snd (idx ! b)) = Some it" "dat it (K (snd (idx ! b))) i" using blocks \<open>b < length idx\<close> by (metis nth_mem)
    have "wrapped_at D dat (iw_Update D it (tl_data_iter t)) (K (snd (idx ! b))) i" using it(2) by (rule wrapped_Update)
    moreover have "InitDataBlock I D B t = Some (SetDataIterator D (Some it) (t\<lparr>tl_data_block_handle := snd (idx ! b)\<rparr>))"
      using h False it(1) by (auto simp: InitDataBlock_def Let_def)
    ultimately show ?thesis using w st ok \<open>b < length idx\<close>
      by (auto simp: standing_def SetDataIterator_def Let_def iw_Set_def tl_SaveError_def)
  qed
qed

lemma data_kept:
  "standing I D at dat K idx t b i \<Longrightarrow>
     iw_iter (tl_data_iter t) = None \<or> (\<exists>i. wrapped_at D dat (tl_data_iter t) (K (tl_data_block_handle t)) i)"
  by (auto simp: standing_def split: if_splits)

lemma move_both_stands:
  assumes f: "\<exists>w. f (tl_index_iter t) = Some w \<and> wrapped_at I at w idx b" and st: "tl_status t = Status_OK"
    and dat: "iw_iter (tl_data_iter t) = None \<or> (\<exists>i. wrapped_at D dat (tl_data_iter t) (K (tl_data_block_handle t)) i)"
    and blocks: "\<forall>x \<in> set idx. \<exists>it i. B (snd x) = Some it \<and> dat it (K (snd x)) i"
    and g: "\<And>w i. b < length idx \<Longrightarrow> wrapped_at D dat w (K (snd (idx ! b))) i \<Longrightarrow>
      \<exists>w'. g w = Some w' \<and> wrapped_at D dat w' (K (snd (idx ! b))) (h (length (K (snd (idx ! b)))))"
  shows "\<exists>t'. move_both I D B f g t = Some t' \<and>
    standing I D at dat K idx t' b (if b < length idx then h (length (K (snd (idx ! b)))) else 0)"
proof -
  obtain w where w: "f (tl_index_iter t) = Some w" "wrapped_at I at w idx b" using f by blast
  let ?t = "t\<lparr>tl_index_iter := w\<rparr>"
  obtain t1 i where s: "InitDataBlock I D B ?t = Some t1" "standing I D at dat K idx t1 b i"
    using InitDataBlock_stands[of ?t idx b K] w(2) st dat blocks by auto
  have call: "index_call f t = Some ?t" using w(1) by (simp add: index_call_def)
  show ?thesis
  proof (cases "b < length idx")
    case True
    then have d: "wrapped_at D dat (tl_data_iter t1) (K (snd (idx ! b))) i" using s(2) by (simp add: standing_def)
    then have some: "iw_iter (tl_data_iter t1) \<noteq> None" by (auto simp: wrapped_at_def)
    obtain w' where "g (tl_data_iter t1) = Some w'" "wrapped_at D dat w' (K (snd (idx ! b))) (h (length (K (snd (idx ! b)))))"
      using g[OF True d] by blast
    then show ?thesis using True s some call by (auto simp: move_both_def data_call_def standing_def)
  next
    case False
    then have "i = 0" "iw_iter (tl_data_iter t1) = None" using s(2) by (simp_all add: standing_def)
    then show ?thesis using False s call by (simp add: move_both_def)
  qed
qed

lemma rest_end:
  assumes "standing I D at dat K idx t b i" "length idx \<le> b"
  shows "resting I D at dat K idx (SetDataIterator D None t) (length (block_entries K idx))"
  using assms SetDataIterator_none[of t] by (auto simp: resting_def standing_def)

lemma standing_facts:
  assumes "standing I D at dat K idx t b i"
  shows "wrapped_at I at (tl_index_iter t) idx b" "tl_status t = Status_OK" "b \<le> length idx"
    "iw_valid (tl_index_iter t) \<longleftrightarrow> b < length idx"
    "b < length idx \<Longrightarrow> i \<le> length (K (snd (idx ! b)))"
    "iw_iter (tl_data_iter t) \<noteq> None \<and> iw_valid (tl_data_iter t) \<longleftrightarrow> b < length idx \<and> i < length (K (snd (idx ! b)))"
proof -
  show w: "wrapped_at I at (tl_index_iter t) idx b" "tl_status t = Status_OK" using assms by (simp_all add: standing_def)
  show "b \<le> length idx" "iw_valid (tl_index_iter t) \<longleftrightarrow> b < length idx" using index.wrapped_facts(1,2)[OF w(1)] by simp_all
  have d: "wrapped_at D dat (tl_data_iter t) (K (snd (idx ! b))) i" if "b < length idx"
    using assms that by (simp add: standing_def)
  show "b < length idx \<Longrightarrow> i \<le> length (K (snd (idx ! b)))" using data.wrapped_facts(1)[OF d] .
  show "iw_iter (tl_data_iter t) \<noteq> None \<and> iw_valid (tl_data_iter t) \<longleftrightarrow> b < length idx \<and> i < length (K (snd (idx ! b)))"
  proof (cases "b < length idx")
    case True
    then show ?thesis using data.wrapped_facts(2)[OF d[OF True]] d[OF True] by (auto simp: wrapped_at_def)
  next
    case False
    then show ?thesis using assms by (simp add: standing_def)
  qed
qed

lemma skip_forward:
  assumes "standing I D at dat K idx t b i" and blocks: "\<forall>x \<in> set idx. \<exists>it i. B (snd x) = Some it \<and> dat it (K (snd x)) i"
  shows "\<exists>t'. SkipEmptyDataBlocksForward I D B t = Some t' \<and> resting I D at dat K idx t' (block_off K idx b + i)"
  using assms(1)
proof (induction "length idx - b" arbitrary: t b i rule: less_induct)
  case less
  note s = less.prems and facts = standing_facts[OF less.prems]
  show ?case
  proof (cases "b < length idx \<and> i < length (K (snd (idx ! b)))")
    case True
    then show ?thesis using facts(6) s
      by (subst SkipEmptyDataBlocksForward.simps) (auto simp: resting_def)
  next
    case False
    show ?thesis
    proof (cases "b < length idx")
      case over: False
      then have "i = 0" "b = length idx" using s facts(3) by (simp_all add: standing_def)
      then show ?thesis using rest_end[OF s] over facts(4,6)
        by (subst SkipEmptyDataBlocksForward.simps) (auto simp: block_off_all)
    next
      case in_idx: True
      then have i: "i = length (K (snd (idx ! b)))" using False facts(5) by simp
      obtain t' where t': "move_both I D B (iw_Next I) (iw_SeekToFirst D) t = Some t'"
        "standing I D at dat K idx t' (Suc b) (if Suc b < length idx then 0 else 0)"
        using move_both_stands[of "iw_Next I" t idx "Suc b" K "iw_SeekToFirst D" "\<lambda>_. 0"] facts(2) data_kept[OF s] blocks
          index.wrapped_moves(4)[OF facts(1) in_idx] data.wrapped_moves(1) by auto
      then obtain t'' where "SkipEmptyDataBlocksForward I D B t' = Some t''"
        "resting I D at dat K idx t'' (block_off K idx (Suc b) + 0)"
        using less.hyps[of "Suc b" t' 0] in_idx diff_less_mono2[OF lessI in_idx] by auto
      then show ?thesis using t'(1) in_idx False facts(4,6) i
        by (subst SkipEmptyDataBlocksForward.simps) (auto simp: block_off_Suc)
    qed
  qed
qed

lemma skip_backward:
  assumes "standing I D at dat K idx t b i" and blocks: "\<forall>x \<in> set idx. \<exists>it i. B (snd x) = Some it \<and> dat it (K (snd x)) i"
  shows "\<exists>t'. SkipEmptyDataBlocksBackward I D B t = Some t' \<and>
    resting I D at dat K idx t'
      (if b < length idx then
         if i < length (K (snd (idx ! b))) then block_off K idx b + i
         else if block_off K idx b = 0 then length (block_entries K idx) else block_off K idx b - 1
       else length (block_entries K idx))"
  using assms(1)
proof (induction b arbitrary: t i rule: less_induct)
  case (less b)
  note s = less.prems and facts = standing_facts[OF less.prems]
  show ?case
  proof (cases "b < length idx \<and> i < length (K (snd (idx ! b)))")
    case True
    then show ?thesis using facts(6) s
      by (subst SkipEmptyDataBlocksBackward.simps) (auto simp: resting_def)
  next
    case False
    show ?thesis
    proof (cases "b < length idx")
      case over: False
      then show ?thesis using rest_end[OF s] facts(4,6)
        by (subst SkipEmptyDataBlocksBackward.simps) auto
    next
      case in_idx: True
      let ?c = "if b = 0 then length idx else b - 1"
      have last: "\<exists>w'. iw_SeekToLast D w = Some w' \<and> wrapped_at D dat w' (K (snd (idx ! ?c))) (length (K (snd (idx ! ?c))) - 1)"
        if "wrapped_at D dat w (K (snd (idx ! ?c))) i" for w i
        using data.wrapped_moves(2)[OF that] .
      have "\<exists>t'. move_both I D B (iw_Prev I) (iw_SeekToLast D) t = Some t' \<and>
          standing I D at dat K idx t' ?c (if ?c < length idx then length (K (snd (idx ! ?c))) - 1 else 0)"
        by (rule move_both_stands[where h = "\<lambda>n. n - 1"], rule index.wrapped_moves(5)[OF facts(1) in_idx], rule facts(2),
            rule data_kept[OF s], rule blocks, rule last)
      then obtain t' where t': "move_both I D B (iw_Prev I) (iw_SeekToLast D) t = Some t'"
        "standing I D at dat K idx t' ?c (if ?c < length idx then length (K (snd (idx ! ?c))) - 1 else 0)" by blast
      have step: "SkipEmptyDataBlocksBackward I D B t = SkipEmptyDataBlocksBackward I D B t'"
        using t'(1) in_idx False facts(4,6) by (subst SkipEmptyDataBlocksBackward.simps) auto
      show ?thesis
      proof (cases "b = 0")
        case True
        have fin: "\<not> iw_valid (tl_index_iter t')" "iw_iter (tl_data_iter t') = None"
          using standing_facts(4)[OF t'(2)] t'(2) True by (simp_all add: standing_def)
        have "SkipEmptyDataBlocksBackward I D B t' = Some (SetDataIterator D None t')"
          using fin by (subst SkipEmptyDataBlocksBackward.simps) simp
        then show ?thesis using True False in_idx step rest_end[OF t'(2)] by simp
      next
        case b: False
        let ?n = "length (K (snd (idx ! (b - 1))))"
        have c: "b - 1 < length idx" "block_off K idx b = block_off K idx (b - 1) + ?n"
          using b in_idx block_off_Suc[of "b - 1" idx K] by auto
        obtain t'' where t'': "SkipEmptyDataBlocksBackward I D B t' = Some t''"
          "resting I D at dat K idx t''
            (if ?n - 1 < ?n then block_off K idx (b - 1) + (?n - 1)
             else if block_off K idx (b - 1) = 0 then length (block_entries K idx) else block_off K idx (b - 1) - 1)"
          using less.IH[of "b - 1" t' "?n - 1"] t'(2) b c(1) by auto
        show ?thesis
        proof (cases "?n = 0")
          case True
          then show ?thesis using t'' step c False in_idx by auto
        next
          case nonempty: False
          then have "block_off K idx (b - 1) + (?n - 1) = block_off K idx b - 1" "block_off K idx b \<noteq> 0"
            using c(2) by linarith+
          then show ?thesis using t'' nonempty step False in_idx by auto
        qed
      qed
    qed
  qed
qed

lemma resting_facts:
  assumes r: "resting I D at dat K idx t j" and asc: "ascending compare ok (block_entries K idx)"
  shows "j \<le> length (block_entries K idx)" "tl_Valid t \<longleftrightarrow> j < length (block_entries K idx)"
    "j < length (block_entries K idx) \<Longrightarrow> (tl_key t, tl_value D t) = block_entries K idx ! j"
    "tl_the_status I D t = Status_OK" "\<exists>b. wrapped_at I at (tl_index_iter t) idx b" "tl_status t = Status_OK"
    "iw_iter (tl_data_iter t) = None \<or> (\<exists>i. wrapped_at D dat (tl_data_iter t) (K (tl_data_block_handle t)) i)"
proof -
  consider (on) b i where "standing I D at dat K idx t b i" "b < length idx" "i < length (K (snd (idx ! b)))" "j = block_off K idx b + i"
    | (off) "\<exists>b. wrapped_at I at (tl_index_iter t) idx b" "tl_status t = Status_OK" "iw_iter (tl_data_iter t) = None"
        "\<not> iw_valid (tl_data_iter t)" "j = length (block_entries K idx)"
    using r unfolding resting_def by (elim disjE exE conjE) blast+
  then have "j \<le> length (block_entries K idx) \<and> (tl_Valid t \<longleftrightarrow> j < length (block_entries K idx)) \<and>
    (j < length (block_entries K idx) \<longrightarrow> (tl_key t, tl_value D t) = block_entries K idx ! j) \<and>
    tl_the_status I D t = Status_OK \<and> (\<exists>b. wrapped_at I at (tl_index_iter t) idx b) \<and> tl_status t = Status_OK \<and>
    (iw_iter (tl_data_iter t) = None \<or> (\<exists>i. wrapped_at D dat (tl_data_iter t) (K (tl_data_block_handle t)) i))"
  proof cases
    case on
    note nth = block_entries_nth[where K = K, OF on(2,3)] and sf = standing_facts[OF on(1)]
    have d: "wrapped_at D dat (tl_data_iter t) (K (snd (idx ! b))) i" using on(1,2) by (simp add: standing_def)
    show ?thesis using on nth sf data_kept[OF on(1)] data.wrapped_facts(3-5)[OF d] index.wrapped_facts(5)[OF sf(1)]
      by (auto simp: tl_Valid_def tl_key_def tl_value_def tl_the_status_def)
  next
    case off
    then show ?thesis using index.wrapped_facts(5) by (auto simp: tl_Valid_def tl_the_status_def)
  qed
  then show "j \<le> length (block_entries K idx)" "tl_Valid t \<longleftrightarrow> j < length (block_entries K idx)"
    "j < length (block_entries K idx) \<Longrightarrow> (tl_key t, tl_value D t) = block_entries K idx ! j"
    "tl_the_status I D t = Status_OK" "\<exists>b. wrapped_at I at (tl_index_iter t) idx b" "tl_status t = Status_OK"
    "iw_iter (tl_data_iter t) = None \<or> (\<exists>i. wrapped_at D dat (tl_data_iter t) (K (tl_data_block_handle t)) i)"
    by blast+
qed

lemma resting_valid:
  assumes "resting I D at dat K idx t j" "j < length (block_entries K idx)"
  obtains b i where "standing I D at dat K idx t b i" "b < length idx" "i < length (K (snd (idx ! b)))" "j = block_off K idx b + i"
  using assms unfolding resting_def by auto

lemma two_level_contract: "sorted_iterator (two_level I D B) compare ok (two_level_at I D B compare ok at dat)"
proof
  fix t kvs j assume t: "two_level_at I D B compare ok at dat t kvs j"
  then obtain K idx where K: "kvs = block_entries K idx" "ascending compare ok kvs" "ascending compare ok idx" "index_ok compare K idx"
    and blocks: "\<forall>x \<in> set idx. \<exists>it i. B (snd x) = Some it \<and> dat it (K (snd x)) i" and r: "resting I D at dat K idx t j"
    unfolding two_level_at_def by blast
  have mk: "two_level_at I D B compare ok at dat t' kvs j'" if "resting I D at dat K idx t' j'" for t' j'
    unfolding two_level_at_def using K blocks that by blast
  note rf = resting_facts[OF r K(2)[unfolded K(1)]]
  obtain b0 where w: "wrapped_at I at (tl_index_iter t) idx b0" using rf(5) by blast
  note moved = move_both_stands[OF _ rf(6,7) blocks]
  show "ascending compare ok kvs" by (rule K(2))
  show "j \<le> length kvs" using rf(1) K(1) by simp
  show "it_Valid (two_level I D B) t \<longleftrightarrow> j < length kvs" using rf(2) K(1) by (simp add: two_level_def)
  show "(it_key (two_level I D B) t, it_value (two_level I D B) t) = kvs ! j" if "j < length kvs"
    using rf(3) that K(1) by (simp add: two_level_def)
  show "it_status (two_level I D B) t = Status_OK" using rf(4) by (simp add: two_level_def)
  show "\<exists>t'. it_SeekToFirst (two_level I D B) t = Some t' \<and> two_level_at I D B compare ok at dat t' kvs 0"
  proof -
    have "\<exists>t'. move_both I D B (iw_SeekToFirst I) (iw_SeekToFirst D) t = Some t' \<and>
        standing I D at dat K idx t' 0 (if 0 < length idx then 0 else 0)"
      by (rule moved[where h = "\<lambda>_. 0"], rule index.wrapped_moves(1)[OF w], rule data.wrapped_moves(1))
    then obtain t1 where t1: "move_both I D B (iw_SeekToFirst I) (iw_SeekToFirst D) t = Some t1" "standing I D at dat K idx t1 0 0"
      by auto
    obtain t2 where "SkipEmptyDataBlocksForward I D B t1 = Some t2" "resting I D at dat K idx t2 0"
      using skip_forward[OF t1(2) blocks] by auto
    then show ?thesis using t1(1) mk by (simp add: two_level_def tl_SeekToFirst_def)
  qed
  show "\<exists>t'. it_SeekToLast (two_level I D B) t = Some t' \<and> two_level_at I D B compare ok at dat t' kvs (length kvs - 1)"
  proof -
    let ?b = "length idx - 1"
    let ?i = "if ?b < length idx then length (K (snd (idx ! ?b))) - 1 else 0"
    have "\<exists>t'. move_both I D B (iw_SeekToLast I) (iw_SeekToLast D) t = Some t' \<and> standing I D at dat K idx t' ?b ?i"
      by (rule moved[where h = "\<lambda>n. n - 1"], rule index.wrapped_moves(2)[OF w], rule data.wrapped_moves(2))
    then obtain t1 where t1: "move_both I D B (iw_SeekToLast I) (iw_SeekToLast D) t = Some t1" "standing I D at dat K idx t1 ?b ?i"
      by blast
    obtain t2 where t2: "SkipEmptyDataBlocksBackward I D B t1 = Some t2" "resting I D at dat K idx t2
        (if ?b < length idx then
         if ?i < length (K (snd (idx ! ?b))) then block_off K idx ?b + ?i
         else if block_off K idx ?b = 0 then length (block_entries K idx) else block_off K idx ?b - 1
       else length (block_entries K idx))"
      using skip_backward[OF t1(2) blocks] by blast
    have "(if ?b < length idx then
         if ?i < length (K (snd (idx ! ?b))) then block_off K idx ?b + ?i
         else if block_off K idx ?b = 0 then length (block_entries K idx) else block_off K idx ?b - 1
       else length (block_entries K idx)) = length kvs - 1"
    proof (cases "idx = []")
      case False
      then have "block_off K idx ?b + length (K (snd (idx ! ?b))) = length kvs"
        using block_off_Suc[of ?b idx K] block_off_all[of idx "length idx" K] K(1) by simp
      then show ?thesis using K(1) False by (cases "K (snd (idx ! ?b))") auto
    qed (simp add: K(1))
    then show ?thesis using t1(1) t2 mk by (simp add: two_level_def tl_SeekToLast_def)
  qed
  show "\<exists>t'. it_Seek (two_level I D B) target t = Some t' \<and>
      two_level_at I D B compare ok at dat t' kvs (length (below compare target fst kvs))" if okt: "ok target" for target
  proof -
    let ?b = "length (below compare target fst idx)"
    let ?i = "length (below compare target fst (K (snd (idx ! ?b))))"
    have "\<exists>t'. move_both I D B (iw_Seek I target) (iw_Seek D target) t = Some t' \<and>
        standing I D at dat K idx t' ?b (if ?b < length idx then ?i else 0)"
      by (rule moved[where h = "\<lambda>_. ?i"], rule index.wrapped_moves(3)[OF w okt], rule data.wrapped_moves(3)[OF _ okt])
    then obtain t1 where t1: "move_both I D B (iw_Seek I target) (iw_Seek D target) t = Some t1"
      "standing I D at dat K idx t1 ?b (if ?b < length idx then ?i else 0)" by blast
    obtain t2 where "SkipEmptyDataBlocksForward I D B t1 = Some t2"
      "resting I D at dat K idx t2 (length (below compare target fst kvs))"
      using skip_forward[OF t1(2) blocks] unfolding below_blocks[OF K(2)[unfolded K(1)] K(3,4) okt, folded K(1)] by blast
    then show ?thesis using t1(1) mk by (simp add: two_level_def tl_Seek_def)
  qed
  assume j: "j < length kvs"
  obtain b i where s: "standing I D at dat K idx t b i" "b < length idx" "i < length (K (snd (idx ! b)))" "j = block_off K idx b + i"
    using resting_valid[OF r] j K(1) by auto
  have valid: "tl_Valid t" using rf(2) j K(1) by simp
  have d: "wrapped_at D dat (tl_data_iter t) (K (snd (idx ! b))) i" using s(1,2) by (simp add: standing_def)
  have moved: "standing I D at dat K idx (t\<lparr>tl_data_iter := w\<rparr>) b i'" if "wrapped_at D dat w (K (snd (idx ! b))) i'" for w i'
    using s(1,2) that by (simp add: standing_def)
  show "\<exists>t'. it_Next (two_level I D B) t = Some t' \<and> two_level_at I D B compare ok at dat t' kvs (Suc j)"
  proof -
    obtain w where w: "iw_Next D (tl_data_iter t) = Some w" "wrapped_at D dat w (K (snd (idx ! b))) (Suc i)"
      using data.wrapped_moves(4)[OF d s(3)] by blast
    obtain t2 where "SkipEmptyDataBlocksForward I D B (t\<lparr>tl_data_iter := w\<rparr>) = Some t2" "resting I D at dat K idx t2 (Suc j)"
      using skip_forward[OF moved[OF w(2)] blocks] s(4) by auto
    then show ?thesis using w(1) mk valid by (simp add: two_level_def tl_Next_def data_call_def)
  qed
  show "\<exists>t'. it_Prev (two_level I D B) t = Some t' \<and>
      two_level_at I D B compare ok at dat t' kvs (if j = 0 then length kvs else j - 1)"
  proof -
    let ?i = "if i = 0 then length (K (snd (idx ! b))) else i - 1"
    obtain w where w: "iw_Prev D (tl_data_iter t) = Some w" "wrapped_at D dat w (K (snd (idx ! b))) ?i"
      using data.wrapped_moves(5)[OF d s(3)] by blast
    obtain t2 where t2: "SkipEmptyDataBlocksBackward I D B (t\<lparr>tl_data_iter := w\<rparr>) = Some t2" "resting I D at dat K idx t2
        (if b < length idx then
         if ?i < length (K (snd (idx ! b))) then block_off K idx b + ?i
         else if block_off K idx b = 0 then length (block_entries K idx) else block_off K idx b - 1
       else length (block_entries K idx))"
      using skip_backward[OF moved[OF w(2)] blocks] by blast
    have "(if b < length idx then
         if ?i < length (K (snd (idx ! b))) then block_off K idx b + ?i
         else if block_off K idx b = 0 then length (block_entries K idx) else block_off K idx b - 1
       else length (block_entries K idx)) = (if j = 0 then length kvs else j - 1)"
      using s K(1) by auto
    then show ?thesis using w(1) mk valid t2 by (simp add: two_level_def tl_Prev_def data_call_def)
  qed
qed

lemma two_level_new:
  assumes "ascending compare ok (block_entries K idx)" "index_ok compare K idx"
    and "\<forall>x \<in> set idx. \<exists>it i. B (snd x) = Some it \<and> dat it (K (snd x)) i" and "at it idx i"
  shows "two_level_at I D B compare ok at dat (NewTwoLevelIterator I it) (block_entries K idx) (length (block_entries K idx))"
proof -
  have "wrapped_at I at (iw_Update I it new_IteratorWrapper) idx i" using assms(4) by (rule wrapped_Update)
  then have "resting I D at dat K idx (NewTwoLevelIterator I it) (length (block_entries K idx))"
    unfolding resting_def by (intro disjI2) (auto simp: NewTwoLevelIterator_def iw_Set_def new_IteratorWrapper_def)
  then show ?thesis using assms(1-3) index.ascending[OF assms(4)] unfolding two_level_at_def by blast
qed

end

section \<open>Blocks under a block\<close>

interpretation block_levels: two_level_iterators opened_iterators "Compare C" ok "opened_at C ok" opened_iterators "opened_at C ok" B
  for C ok B
  by unfold_locales

end
