(* ===== verification/Ldb_Filter.thy ===== *)
theory Ldb_Filter
  imports Ldb_Format
begin

text \<open>
  Filters: \<^verbatim>\<open>util/hash.cc\<close>, \<^verbatim>\<open>util/bloom.cc\<close>, the filter policy of internal keys in
  \<^verbatim>\<open>db/dbformat.cc\<close>, and the filter block of a table in \<^verbatim>\<open>table/filter_block.cc\<close>.

  The abstract class \<^verbatim>\<open>FilterPolicy\<close> is a record of its operations. Its contract, that a filter
  made for some keys is appended to the string and matches each of these keys, is the locale \<open>filter_contract\<close>; it is
  proved for bloom filters and carried over to internal keys, and the filter block is verified
  for every policy that satisfies it.
\<close>

section \<open>Hash\<close>

definition hash_m :: "32 word" where "hash_m = 0xc6a4a793"

fun Hash_loop :: "32 word \<Rightarrow> byte list \<Rightarrow> 32 word \<times> byte list" where
  "Hash_loop h (a # b # c # d # data) =
     (let h = h + DecodeFixed32 [a, b, c, d]; h = h * hash_m; h = h XOR drop_bit 16 h in Hash_loop h data)"
| "Hash_loop h data = (h, data)"

definition Hash :: "byte list \<Rightarrow> 32 word \<Rightarrow> 32 word" where
  "Hash data seed =
     (let (h, rest) = Hash_loop (seed XOR (of_nat (length data) * hash_m)) data;
          h = (if length rest = 3 then h + push_bit 16 (ucast (rest ! 2)) else h);
          h = (if length rest \<ge> 2 then h + push_bit 8 (ucast (rest ! 1)) else h)
      in if length rest \<ge> 1
         then let h = h + ucast (rest ! 0); h = h * hash_m in h XOR drop_bit 24 h
         else h)"

section \<open>Bloom filters\<close>

record FilterPolicy =
  CreateFilter :: "slice list \<Rightarrow> slice \<Rightarrow> slice"
  KeyMayMatch :: "slice \<Rightarrow> slice \<Rightarrow> bool"

definition BloomHash :: "slice \<Rightarrow> 32 word" where
  "BloomHash key = Hash key 0xbc9f1d34"

text \<open>The number of probes is the integral part of the product with 0.69; between one and
  43 bits per key the product is no integer, and from 44 on the number is cut to 30.\<close>

definition bloom_k :: "nat \<Rightarrow> nat" where
  "bloom_k bits_per_key =
     (let k = bits_per_key * 69 div 100; k = (if k < 1 then 1 else k) in if k > 30 then 30 else k)"

definition bloom_delta :: "32 word \<Rightarrow> 32 word" where
  "bloom_delta h = drop_bit 17 h OR push_bit 15 h"

fun bloom_probe :: "nat \<Rightarrow> 32 word \<Rightarrow> 32 word \<Rightarrow> nat \<Rightarrow> byte list \<Rightarrow> byte list" where
  "bloom_probe bits h delta 0 array = array"
| "bloom_probe bits h delta (Suc j) array =
     (let bitpos = unat h mod bits
      in bloom_probe bits (h + delta) delta j
           (array[bitpos div 8 := array ! (bitpos div 8) OR push_bit (bitpos mod 8) 1]))"

definition bloom_add :: "nat \<Rightarrow> nat \<Rightarrow> slice \<Rightarrow> byte list \<Rightarrow> byte list" where
  "bloom_add bits k key array =
     (let h = BloomHash key in bloom_probe bits h (bloom_delta h) k array)"

definition bloom_CreateFilter :: "nat \<Rightarrow> slice list \<Rightarrow> slice \<Rightarrow> slice" where
  "bloom_CreateFilter bits_per_key keys dst =
     (let bits = length keys * bits_per_key; bits = (if bits < 64 then 64 else bits);
          bytes = (bits + 7) div 8; bits = bytes * 8;
          array = fold (bloom_add bits (bloom_k bits_per_key)) keys (replicate bytes 0)
      in dst @ array @ [of_nat (bloom_k bits_per_key)])"

fun bloom_check :: "nat \<Rightarrow> 32 word \<Rightarrow> 32 word \<Rightarrow> nat \<Rightarrow> byte list \<Rightarrow> bool" where
  "bloom_check bits h delta 0 array = True"
| "bloom_check bits h delta (Suc j) array =
     (let bitpos = unat h mod bits
      in if array ! (bitpos div 8) AND push_bit (bitpos mod 8) 1 = 0 then False
         else bloom_check bits (h + delta) delta j array)"

definition bloom_KeyMayMatch :: "slice \<Rightarrow> slice \<Rightarrow> bool" where
  "bloom_KeyMayMatch key bloom_filter =
     (let len = length bloom_filter in
      if len < 2 then False
      else let bits = (len - 1) * 8; k = unat (bloom_filter ! (len - 1)) in
        if k > 30 then True
        else let h = BloomHash key in bloom_check bits h (bloom_delta h) k bloom_filter)"

definition NewBloomFilterPolicy :: "nat \<Rightarrow> FilterPolicy" where
  "NewBloomFilterPolicy bits_per_key =
     \<lparr>CreateFilter = bloom_CreateFilter bits_per_key, KeyMayMatch = bloom_KeyMayMatch\<rparr>"

definition InternalFilterPolicy :: "FilterPolicy \<Rightarrow> FilterPolicy" where
  "InternalFilterPolicy user_policy =
     \<lparr>CreateFilter = (\<lambda>keys dst. CreateFilter user_policy (map ExtractUserKey keys) dst),
      KeyMayMatch = (\<lambda>key f. KeyMayMatch user_policy (ExtractUserKey key) f)\<rparr>"

section \<open>The filter block\<close>

definition kFilterBaseLg :: nat where "kFilterBaseLg = 11"
definition kFilterBase :: nat where "kFilterBase = 2 ^ kFilterBaseLg"

record FilterBlockBuilder =
  fb_policy :: FilterPolicy
  fb_keys :: slice
  fb_start :: "nat list"
  fb_result :: slice
  fb_filter_offsets :: "32 word list"

definition new_FilterBlockBuilder :: "FilterPolicy \<Rightarrow> FilterBlockBuilder" where
  "new_FilterBlockBuilder policy =
     \<lparr>fb_policy = policy, fb_keys = [], fb_start = [], fb_result = [], fb_filter_offsets = []\<rparr>"

definition GenerateFilter :: "FilterBlockBuilder \<Rightarrow> FilterBlockBuilder" where
  "GenerateFilter b =
     (let num_keys = length (fb_start b) in
      if num_keys = 0
      then b\<lparr>fb_filter_offsets := fb_filter_offsets b @ [of_nat (length (fb_result b))]\<rparr>
      else let start = fb_start b @ [length (fb_keys b)];
               tmp_keys = map (\<lambda>i. take (start ! (i + 1) - start ! i) (drop (start ! i) (fb_keys b))) [0..<num_keys]
           in b\<lparr>fb_filter_offsets := fb_filter_offsets b @ [of_nat (length (fb_result b))],
                fb_result := CreateFilter (fb_policy b) tmp_keys (fb_result b),
                fb_keys := [], fb_start := []\<rparr>)"

lemma length_offsets_Generate [simp]:
  "length (fb_filter_offsets (GenerateFilter b)) = Suc (length (fb_filter_offsets b))"
  by (simp add: GenerateFilter_def Let_def)

function StartBlock_loop :: "nat \<Rightarrow> FilterBlockBuilder \<Rightarrow> FilterBlockBuilder" where
  "StartBlock_loop filter_index b =
     (if filter_index > length (fb_filter_offsets b) then StartBlock_loop filter_index (GenerateFilter b) else b)"
  by pat_completeness auto
termination
  by (relation "measure (\<lambda>(i, b). i - length (fb_filter_offsets b))") auto

declare StartBlock_loop.simps [simp del]

definition StartBlock :: "64 word \<Rightarrow> FilterBlockBuilder \<Rightarrow> FilterBlockBuilder" where
  "StartBlock block_offset b = StartBlock_loop (unat block_offset div kFilterBase) b"

definition AddKey :: "slice \<Rightarrow> FilterBlockBuilder \<Rightarrow> FilterBlockBuilder" where
  "AddKey key b = b\<lparr>fb_start := fb_start b @ [length (fb_keys b)], fb_keys := fb_keys b @ key\<rparr>"

definition FilterBlock_Finish :: "FilterBlockBuilder \<Rightarrow> slice \<times> FilterBlockBuilder" where
  "FilterBlock_Finish b =
     (let b = (if fb_start b \<noteq> [] then GenerateFilter b else b);
          array_offset = (of_nat (length (fb_result b)) :: 32 word);
          result = fold (\<lambda>off r. PutFixed32 r off) (fb_filter_offsets b) (fb_result b);
          result = PutFixed32 result array_offset @ [of_nat kFilterBaseLg]
      in (result, b\<lparr>fb_result := result\<rparr>))"

text \<open>A reader is its policy, the contents, the offset of the offset array in it, the number of
  offsets and the base. With contents it cannot use it has no offsets.\<close>

text \<open>\<open>base_lg_\<close> is read from a \<^verbatim>\<open>char\<close>, which has a sign. A shift by 64 bits or more, which C++ leaves undefined and only a damaged
  block asks for, gives 0 here.\<close>

record FilterBlockReader =
  fr_policy :: FilterPolicy
  fr_data :: slice
  fr_offset :: nat
  fr_num :: nat
  fr_base_lg :: "64 word"

definition new_FilterBlockReader :: "FilterPolicy \<Rightarrow> slice \<Rightarrow> FilterBlockReader" where
  "new_FilterBlockReader policy contents =
     (let n = length contents;
          r = \<lparr>fr_policy = policy, fr_data = [], fr_offset = 0, fr_num = 0, fr_base_lg = 0\<rparr>
      in if n < 5 then r
         else let r = r\<lparr>fr_base_lg := scast (contents ! (n - 1))\<rparr>;
                  last_word = unat (DecodeFixed32 (drop (n - 5) contents))
              in if last_word > n - 5 then r
                 else r\<lparr>fr_data := contents, fr_offset := last_word, fr_num := (n - 5 - last_word) div 4\<rparr>)"

definition FilterBlock_KeyMayMatch :: "FilterBlockReader \<Rightarrow> 64 word \<Rightarrow> slice \<Rightarrow> bool" where
  "FilterBlock_KeyMayMatch r block_offset key =
     (let index = unat (drop_bit (unat (fr_base_lg r)) block_offset) in
      if index < fr_num r then
        let start = unat (DecodeFixed32 (drop (fr_offset r + index * 4) (fr_data r)));
            limit = unat (DecodeFixed32 (drop (fr_offset r + index * 4 + 4) (fr_data r)))
        in if start \<le> limit \<and> limit \<le> fr_offset r
           then KeyMayMatch (fr_policy r) key (take (limit - start) (drop start (fr_data r)))
           else if start = limit then False else True
      else True)"

section \<open>The contract of a filter policy\<close>

locale filter_contract =
  fixes P :: FilterPolicy
  assumes appends: "CreateFilter P keys dst = dst @ CreateFilter P keys []"
    and no_false_negative: "key \<in> set keys \<Longrightarrow> KeyMayMatch P key (CreateFilter P keys [])"

locale user_filter = filter_contract P for P :: FilterPolicy

sublocale user_filter \<subseteq> internal_filter: filter_contract "InternalFilterPolicy P"
proof
  fix keys dst
  show "CreateFilter (InternalFilterPolicy P) keys dst = dst @ CreateFilter (InternalFilterPolicy P) keys []"
    by (simp add: InternalFilterPolicy_def appends[of "map ExtractUserKey keys" dst])
  fix key assume "key \<in> set keys"
  then show "KeyMayMatch (InternalFilterPolicy P) key (CreateFilter (InternalFilterPolicy P) keys [])"
    by (simp add: InternalFilterPolicy_def no_false_negative)
qed

section \<open>Bloom filters satisfy it\<close>

definition bit_set :: "byte list \<Rightarrow> nat \<Rightarrow> bool" where
  "bit_set array b \<longleftrightarrow> bit (array ! (b div 8)) (b mod 8)"

definition bits_le :: "byte list \<Rightarrow> byte list \<Rightarrow> bool" where
  "bits_le a a' \<longleftrightarrow> length a = length a' \<and> (\<forall>b < 8 * length a. bit_set a b \<longrightarrow> bit_set a' b)"

lemma bits_le_refl [simp]: "bits_le a a"
  by (simp add: bits_le_def)

lemma bits_le_trans: "bits_le a b \<Longrightarrow> bits_le b c \<Longrightarrow> bits_le a c"
  by (auto simp: bits_le_def)

lemma bits_le_length: "bits_le a b \<Longrightarrow> length a = length b"
  by (simp add: bits_le_def)

lemma set_one_bit:
  assumes "b < 8 * length a"
  defines "a' \<equiv> a[b div 8 := a ! (b div 8) OR push_bit (b mod 8) 1]"
  shows "bits_le a a'" "bit_set a' b"
proof -
  have d: "b div 8 < length a" using assms(1) by (simp add: less_mult_imp_div_less mult.commute)
  show "bit_set a' b" using d by (simp add: a'_def bit_set_def bit_simps)
  show "bits_le a a'" using d by (auto simp: a'_def bits_le_def bit_set_def nth_list_update bit_simps)
qed

lemma bloom_probe_le:
  "length a * 8 = bits \<Longrightarrow> 0 < bits \<Longrightarrow> bits_le a (bloom_probe bits h d k a)"
proof (induction bits h d k a rule: bloom_probe.induct)
  case (2 bits h d j a)
  let ?b = "unat h mod bits"
  let ?a = "a[?b div 8 := a ! (?b div 8) OR push_bit (?b mod 8) 1]"
  have "bits_le a ?a" using 2 by (intro set_one_bit) (simp add: mult.commute)
  moreover have "bits_le ?a (bloom_probe bits (h + d) d j ?a)" using 2 by (simp add: Let_def)
  ultimately show ?case by (auto simp: Let_def intro: bits_le_trans)
qed simp

lemma bloom_check_iff:
  "0 < bits \<Longrightarrow> bits \<le> length a * 8 \<Longrightarrow>
   bloom_check bits h d k a \<longleftrightarrow> (\<forall>j < k. bit_set a (unat (h + of_nat j * d) mod bits))"
proof (induction bits h d k a rule: bloom_check.induct)
  case (2 bits h d j a)
  have "(\<forall>i < Suc j. bit_set a (unat (h + of_nat i * d) mod bits)) \<longleftrightarrow>
      bit_set a (unat h mod bits) \<and> (\<forall>i < j. bit_set a (unat (h + of_nat (Suc i) * d) mod bits))"
    by (simp add: All_less_Suc2)
  then show ?case using 2 by (simp add: Let_def and_exp_eq_0_iff_not_bit bit_set_def algebra_simps)
qed simp

lemma bloom_probe_sets:
  "length a * 8 = bits \<Longrightarrow> 0 < bits \<Longrightarrow> j < k \<Longrightarrow> bit_set (bloom_probe bits h d k a) (unat (h + of_nat j * d) mod bits)"
proof (induction bits h d k a arbitrary: j rule: bloom_probe.induct)
  case (2 bits h d i a)
  let ?b = "unat h mod bits"
  let ?a = "a[?b div 8 := a ! (?b div 8) OR push_bit (?b mod 8) 1]"
  have b: "?b < 8 * length a" using "2.prems" by (simp add: mult.commute)
  show ?case
  proof (cases j)
    case 0
    have "bits_le ?a (bloom_probe bits (h + d) d i ?a)" using "2.prems" by (intro bloom_probe_le) simp_all
    then show ?thesis using set_one_bit(2)[OF b] b 0 by (simp add: Let_def bits_le_def)
  next
    case (Suc j')
    then show ?thesis using 2(1)[of ?b j'] "2.prems" by (simp add: Let_def algebra_simps)
  qed
qed simp

lemma bloom_adds_le:
  "length a * 8 = bits \<Longrightarrow> 0 < bits \<Longrightarrow> bits_le a (fold (bloom_add bits k) keys a)"
proof (induction keys arbitrary: a)
  case (Cons key keys)
  have "bits_le a (bloom_add bits k key a)" using Cons.prems by (simp add: bloom_add_def Let_def bloom_probe_le)
  moreover from this have "bits_le (bloom_add bits k key a) (fold (bloom_add bits k) keys (bloom_add bits k key a))"
    using Cons by (auto dest: bits_le_length)
  ultimately show ?case using bits_le_trans by auto
qed simp

lemma bloom_adds_set:
  assumes "key \<in> set keys" "length a * 8 = bits" "0 < bits" "j < k"
  shows "bit_set (fold (bloom_add bits k) keys a) (unat (BloomHash key + of_nat j * bloom_delta (BloomHash key)) mod bits)"
proof -
  let ?b = "unat (BloomHash key + of_nat j * bloom_delta (BloomHash key)) mod bits"
  obtain xs ys where k: "keys = xs @ key # ys" using assms(1) by (meson split_list)
  let ?a1 = "fold (bloom_add bits k) xs a"
  have l1: "length ?a1 * 8 = bits" using bits_le_length[OF bloom_adds_le[OF assms(2,3)]] assms(2) by simp
  let ?a2 = "bloom_add bits k key ?a1"
  have s: "bit_set ?a2 ?b" using bloom_probe_sets[OF l1 assms(3,4)] by (simp add: bloom_add_def Let_def)
  have l2: "length ?a2 * 8 = bits"
    using bits_le_length[OF bloom_probe_le[OF l1 assms(3)]] l1 by (simp add: bloom_add_def Let_def)
  have "?b < 8 * length ?a2" using l2 assms(3) by (simp add: mult.commute)
  then show ?thesis using s bloom_adds_le[OF l2 assms(3), of k ys] by (simp add: k bits_le_def)
qed

lemma bloom_k_range: "1 \<le> bloom_k n" "bloom_k n \<le> 30"
  by (auto simp: bloom_k_def Let_def)

lemma bloom_match:
  assumes "key \<in> set keys"
  shows "bloom_KeyMayMatch key (bloom_CreateFilter n keys [])"
proof -
  let ?k = "bloom_k n"
  define bits0 where "bits0 = (if length keys * n < 64 then 64 else length keys * n)"
  define bytes where "bytes = (bits0 + 7) div 8"
  let ?bits = "bytes * 8"
  let ?a = "fold (bloom_add ?bits ?k) keys (replicate bytes 0)"
  have "64 \<le> bits0" by (simp add: bits0_def)
  then have pos: "0 < bytes" by (simp add: bytes_def div_greater_zero_iff)
  have f: "bloom_CreateFilter n keys [] = ?a @ [of_nat ?k]"
    by (simp add: bloom_CreateFilter_def Let_def bytes_def bits0_def)
  have la: "length ?a = bytes"
    using bits_le_length[OF bloom_adds_le[of "replicate bytes 0" ?bits ?k keys]] pos by simp
  have k: "unat (of_nat ?k :: byte) = ?k" using bloom_k_range(2)[of n] by (simp add: unat_of_nat take_bit_nat_eq_self)
  have "bit_set (?a @ [of_nat ?k]) (unat (BloomHash key + of_nat j * bloom_delta (BloomHash key)) mod ?bits)"
    if "j < ?k" for j
  proof -
    let ?b = "unat (BloomHash key + of_nat j * bloom_delta (BloomHash key)) mod ?bits"
    have "?b div 8 < bytes" using pos by (simp add: less_mult_imp_div_less)
    then show ?thesis using bloom_adds_set[OF assms _ _ that, of "replicate bytes 0" ?bits] pos la
      by (simp add: bit_set_def nth_append)
  qed
  then show ?thesis
    using pos la k bloom_k_range(2)[of n]
    by (simp add: f bloom_KeyMayMatch_def Let_def nth_append bloom_check_iff)
qed

interpretation bloom: user_filter "NewBloomFilterPolicy n"
  by unfold_locales (auto simp: NewBloomFilterPolicy_def bloom_match, simp add: bloom_CreateFilter_def Let_def)

section \<open>The filter block\<close>

text \<open>The builder has filters for the key lists of \<open>groups\<close> and collects \<open>pending\<close>.\<close>

definition group_filter :: "FilterPolicy \<Rightarrow> slice list \<Rightarrow> slice" where
  "group_filter P keys = (if keys = [] then [] else CreateFilter P keys [])"

definition group_offset :: "FilterPolicy \<Rightarrow> slice list list \<Rightarrow> nat \<Rightarrow> nat" where
  "group_offset P groups i = length (concat (map (group_filter P) (take i groups)))"

fun starts :: "nat \<Rightarrow> slice list \<Rightarrow> nat list" where
  "starts n [] = []"
| "starts n (k # ks) = n # starts (n + length k) ks"

definition fb_rep :: "FilterBlockBuilder \<Rightarrow> slice list list \<Rightarrow> slice list \<Rightarrow> bool" where
  "fb_rep b groups pending \<longleftrightarrow>
     fb_keys b = concat pending \<and> fb_start b = starts 0 pending \<and>
     fb_result b = concat (map (group_filter (fb_policy b)) groups) \<and>
     fb_filter_offsets b = map (\<lambda>i. of_nat (group_offset (fb_policy b) groups i)) [0..<length groups]"

lemma starts_Nil_iff [simp]: "starts n ks = [] \<longleftrightarrow> ks = []"
  by (cases ks) auto

lemma length_starts [simp]: "length (starts n ks) = length ks"
  by (induction ks arbitrary: n) auto

lemma starts_append: "starts n (ks @ [k]) = starts n ks @ [n + length (concat ks)]"
  by (induction ks arbitrary: n) auto

lemma starts_nth:
  "i \<le> length ks \<Longrightarrow> (starts n ks @ [n + length (concat ks)]) ! i = n + length (concat (take i ks))"
proof (induction ks arbitrary: n i)
  case (Cons k ks)
  then show ?case using Cons.IH[of "i - 1" "n + length k"] by (cases i) (simp_all add: add.assoc)
qed simp

lemma starts_slices:
  "map (\<lambda>i. take ((starts 0 ks @ [length (concat ks)]) ! (i + 1) - (starts 0 ks @ [length (concat ks)]) ! i)
      (drop ((starts 0 ks @ [length (concat ks)]) ! i) (concat ks))) [0..<length ks] = ks"
proof (rule nth_equalityI)
  fix i assume "i < length (map (\<lambda>i. take ((starts 0 ks @ [length (concat ks)]) ! (i + 1) - (starts 0 ks @ [length (concat ks)]) ! i)
      (drop ((starts 0 ks @ [length (concat ks)]) ! i) (concat ks))) [0..<length ks])"
  then have i: "i < length ks" by simp
  have "(starts 0 ks @ [length (concat ks)]) ! i = length (concat (take i ks))" using starts_nth[of i ks 0] i by simp
  moreover have "(starts 0 ks @ [length (concat ks)]) ! (i + 1) = length (concat (take (i + 1) ks))"
    using starts_nth[of "i + 1" ks 0] i by simp
  moreover have "concat ks = concat (take i ks) @ ks ! i @ concat (drop (Suc i) ks)"
    using i by (metis concat.simps(2) concat_append id_take_nth_drop)
  ultimately show "map (\<lambda>i. take ((starts 0 ks @ [length (concat ks)]) ! (i + 1) - (starts 0 ks @ [length (concat ks)]) ! i)
      (drop ((starts 0 ks @ [length (concat ks)]) ! i) (concat ks))) [0..<length ks] ! i = ks ! i"
    using i by (simp add: take_Suc_conv_app_nth)
qed simp

lemma group_offset_append:
  "i \<le> length groups \<Longrightarrow> group_offset P (groups @ [g]) i = group_offset P groups i"
  by (simp add: group_offset_def)

lemma fb_rep_new: "fb_rep (new_FilterBlockBuilder P) [] []"
  by (simp add: fb_rep_def new_FilterBlockBuilder_def)

lemma fb_rep_AddKey: "fb_rep b groups pending \<Longrightarrow> fb_rep (AddKey k b) groups (pending @ [k])"
  by (simp add: fb_rep_def AddKey_def starts_append)

lemma AddKey_policy [simp]: "fb_policy (AddKey k b) = fb_policy b"
  by (simp add: AddKey_def)

lemma Generate_policy [simp]: "fb_policy (GenerateFilter b) = fb_policy b"
  by (simp add: GenerateFilter_def Let_def)

context filter_contract
begin

lemma fb_rep_Generate:
  assumes "fb_rep b groups pending" "fb_policy b = P"
  shows "fb_rep (GenerateFilter b) (groups @ [pending]) []"
proof -
  have off: "fb_filter_offsets (GenerateFilter b) =
      map (\<lambda>i. of_nat (group_offset P (groups @ [pending]) i)) [0..<length (groups @ [pending])]"
  proof -
    have "map (\<lambda>i. of_nat (group_offset P (groups @ [pending]) i)) [0..<length groups] =
        (map (\<lambda>i. of_nat (group_offset P groups i)) [0..<length groups] :: 32 word list)"
      by (rule map_cong) (auto simp: group_offset_append)
    then show ?thesis using assms
      by (auto simp: fb_rep_def GenerateFilter_def Let_def group_offset_append) (simp_all add: group_offset_def)
  qed
  show ?thesis
  proof (cases "pending = []")
    case True
    then show ?thesis using assms off by (simp add: fb_rep_def GenerateFilter_def Let_def group_filter_def)
  next
    case False
    then have "fb_result (GenerateFilter b) = CreateFilter P pending (fb_result b)"
      using assms starts_slices[of pending] by (simp add: fb_rep_def GenerateFilter_def Let_def)
    then show ?thesis using assms off False appends[of pending "fb_result b"]
      by (simp add: fb_rep_def group_filter_def) (simp add: GenerateFilter_def Let_def)
  qed
qed

lemma StartBlock_loop_rep:
  assumes "fb_rep b groups pending" "fb_policy b = P"
  shows "\<exists>groups' pending'. fb_rep (StartBlock_loop i b) groups' pending' \<and> fb_policy (StartBlock_loop i b) = P \<and>
    (if i > length groups then groups' = groups @ pending # replicate (i - length groups - 1) [] \<and> pending' = []
     else groups' = groups \<and> pending' = pending)"
  using assms
proof (induction i b arbitrary: groups pending rule: StartBlock_loop.induct)
  case (1 i b)
  have len: "length (fb_filter_offsets b) = length groups" using "1.prems" by (simp add: fb_rep_def)
  show ?case
  proof (cases "i > length groups")
    case True
    have "fb_rep (GenerateFilter b) (groups @ [pending]) []" using fb_rep_Generate "1.prems" by blast
    then obtain g p where gp: "fb_rep (StartBlock_loop i (GenerateFilter b)) g p"
        "fb_policy (StartBlock_loop i (GenerateFilter b)) = P"
        "if i > length (groups @ [pending]) then g = (groups @ [pending]) @ [] # replicate (i - length (groups @ [pending]) - 1) [] \<and> p = []
         else g = groups @ [pending] \<and> p = []"
      using "1.IH"[of "groups @ [pending]" "[]"] True len "1.prems"(2) by auto
    have "g = groups @ pending # replicate (i - length groups - 1) [] \<and> p = []"
    proof (cases "i > Suc (length groups)")
      case b: True
      then have "i - length groups - 1 = Suc (i - Suc (length groups) - 1)" by simp
      then show ?thesis using gp(3) b by simp
    qed (use gp(3) True in auto)
    then show ?thesis using gp(1,2) True len by (subst (1 2) StartBlock_loop.simps) auto
  next
    case False
    then show ?thesis using len "1.prems" by (subst (1 2) StartBlock_loop.simps) auto
  qed
qed

lemma AddKeys_rep:
  "fb_rep b groups pending \<Longrightarrow> fb_policy b = P \<Longrightarrow>
   fb_rep (fold AddKey keys b) groups (pending @ keys) \<and> fb_policy (fold AddKey keys b) = P"
proof (induction keys arbitrary: b pending)
  case (Cons k keys)
  then show ?case using Cons.IH[OF fb_rep_AddKey[OF Cons.prems(1)]] by simp
qed simp

end

text \<open>One block of a table: its offset and the keys added for it. A key is in its slot when it is
  in the key list with the number of its block offset.\<close>

type_synonym fblock = "64 word \<times> slice list"

definition slot :: "64 word \<Rightarrow> nat" where
  "slot off = unat off div kFilterBase"

definition add_block :: "fblock \<Rightarrow> FilterBlockBuilder \<Rightarrow> FilterBlockBuilder" where
  "add_block blk b = fold AddKey (snd blk) (StartBlock (fst blk) b)"

definition in_slot :: "slice list list \<Rightarrow> slice list \<Rightarrow> fblock \<Rightarrow> bool" where
  "in_slot groups pending blk \<longleftrightarrow> (\<forall>key \<in> set (snd blk).
     slot (fst blk) < length groups \<and> key \<in> set (groups ! slot (fst blk)) \<or>
     slot (fst blk) = length groups \<and> key \<in> set pending)"

context filter_contract
begin

lemma add_block_rep:
  assumes "fb_rep b groups pending" "fb_policy b = P" "length groups \<le> slot (fst blk)"
    and "\<forall>x \<in> set older. in_slot groups pending x"
  shows "\<exists>groups' pending'. fb_rep (add_block blk b) groups' pending' \<and> fb_policy (add_block blk b) = P \<and>
    length groups' = slot (fst blk) \<and> (\<forall>x \<in> set (older @ [blk]). in_slot groups' pending' x)"
proof -
  let ?i = "slot (fst blk)"
  obtain g p where gp: "fb_rep (StartBlock (fst blk) b) g p" "fb_policy (StartBlock (fst blk) b) = P"
      "if ?i > length groups then g = groups @ pending # replicate (?i - length groups - 1) [] \<and> p = []
       else g = groups \<and> p = pending"
    using StartBlock_loop_rep[OF assms(1,2), of ?i] by (auto simp: StartBlock_def slot_def)
  have lg: "length g = ?i" using gp(3) assms(3) by (auto split: if_splits)
  have old: "in_slot g (p @ snd blk) x" if "x \<in> set older" for x
    using assms(4) that gp(3) assms(3)
    by (fastforce simp: in_slot_def nth_append split: if_splits)
  have "in_slot g (p @ snd blk) blk" using lg by (auto simp: in_slot_def)
  with old show ?thesis using AddKeys_rep[OF gp(1,2), of "snd blk"] lg
    by (intro exI[of _ g] exI[of _ "p @ snd blk"]) (simp add: add_block_def)
qed

lemma add_blocks_rep:
  assumes "fb_rep b groups pending" "fb_policy b = P" "\<forall>x \<in> set older. in_slot groups pending x"
    and "sorted (map (slot \<circ> fst) blks)" "\<forall>x \<in> set blks. length groups \<le> slot (fst x)"
  shows "\<exists>groups' pending'. fb_rep (fold add_block blks b) groups' pending' \<and> fb_policy (fold add_block blks b) = P \<and>
    (\<forall>x \<in> set (older @ blks). in_slot groups' pending' x)"
  using assms
proof (induction blks arbitrary: b groups pending older)
  case (Cons blk blks)
  obtain g p where gp: "fb_rep (add_block blk b) g p" "fb_policy (add_block blk b) = P"
      "length g = slot (fst blk)" "\<forall>x \<in> set (older @ [blk]). in_slot g p x"
    using add_block_rep[OF Cons.prems(1,2) _ Cons.prems(3), of blk] Cons.prems(5) by auto
  show ?case using Cons.IH[OF gp(1,2,4)] Cons.prems(4) gp(3) by auto
qed auto

lemma Finish_contents:
  assumes "fb_rep b groups pending" "fb_policy b = P"
  defines "G \<equiv> groups @ (if pending = [] then [] else [pending])"
  shows "fst (FilterBlock_Finish b) = concat (map (group_filter P) G) @
    concat (map (\<lambda>i. EncodeFixed32 (of_nat (group_offset P G i))) [0..<Suc (length G)]) @ [11]"
proof -
  define b' where "b' = (if fb_start b \<noteq> [] then GenerateFilter b else b)"
  have rep: "fb_rep b' G []" "fb_policy b' = P"
    using assms(1,2) fb_rep_Generate[OF assms(1,2)] by (auto simp: b'_def G_def fb_rep_def)
  have "fst (FilterBlock_Finish b) = fb_result b' @ concat (map EncodeFixed32 (fb_filter_offsets b')) @
      EncodeFixed32 (of_nat (length (fb_result b'))) @ [11]"
    by (simp add: FilterBlock_Finish_def Let_def fold_PutFixed32 kFilterBaseLg_def flip: b'_def) (simp add: PutFixed32_def)
  moreover have "fb_result b' = concat (map (group_filter P) G)"
    "fb_filter_offsets b' = map (\<lambda>i. of_nat (group_offset P G i)) [0..<length G]"
    "length (fb_result b') = group_offset P G (length G)"
    using rep by (simp_all add: fb_rep_def group_offset_def)
  ultimately show ?thesis by (simp add: comp_def)
qed

end

lemma group_offset_mono:
  assumes "i < length G"
  shows "group_offset P G (Suc i) = group_offset P G i + length (group_filter P (G ! i))"
    "group_offset P G (Suc i) \<le> group_offset P G (length G)"
proof -
  show "group_offset P G (Suc i) = group_offset P G i + length (group_filter P (G ! i))"
    using assms by (simp add: group_offset_def take_Suc_conv_app_nth)
  have "G = take (Suc i) G @ drop (Suc i) G" by simp
  then have "group_offset P G (length G) = group_offset P G (Suc i) + length (concat (map (group_filter P) (drop (Suc i) G)))"
    by (metis concat_append group_offset_def length_append map_append take_all_iff order_refl)
  then show "group_offset P G (Suc i) \<le> group_offset P G (length G)" by simp
qed

lemma group_slice:
  assumes "i < length G"
  shows "take (group_offset P G (Suc i) - group_offset P G i)
    (drop (group_offset P G i) (concat (map (group_filter P) G) @ r)) = group_filter P (G ! i)"
proof -
  have "concat (map (group_filter P) G) = concat (map (group_filter P) (take i G)) @ group_filter P (G ! i) @
      concat (map (group_filter P) (drop (Suc i) G))"
    using assms by (metis concat.simps(2) concat_append id_take_nth_drop list.simps(9) map_append)
  then show ?thesis using group_offset_mono(1)[OF assms] by (simp add: group_offset_def)
qed

text \<open>The reader finds the filter of a slot.\<close>

lemma reader_finds:
  fixes P G
  defines "D \<equiv> concat (map (group_filter P) G)"
  defines "offs \<equiv> map (\<lambda>i. of_nat (group_offset P G i) :: 32 word) [0..<Suc (length G)]"
  defines "r \<equiv> new_FilterBlockReader P (D @ concat (map EncodeFixed32 offs) @ [11])"
  assumes D: "length D < 2 ^ 32"
  shows "FilterBlock_KeyMayMatch r off key =
    (slot off < length G \<longrightarrow> KeyMayMatch P key (group_filter P (G ! slot off)))"
proof -
  let ?m = "length G" and ?E = "concat (map EncodeFixed32 offs)"
  let ?c = "D @ ?E @ [11]"
  have offs: "length offs = Suc ?m" "\<And>i. i \<le> ?m \<Longrightarrow> offs ! i = of_nat (group_offset P G i)"
    unfolding offs_def by (simp_all del: upt_Suc)
  have E: "length ?E = 4 * Suc ?m"
    unfolding offs(1)[symmetric] by (induction offs) simp_all
  have total: "group_offset P G ?m = length D" by (simp add: group_offset_def D_def)
  have le: "i \<le> ?m \<Longrightarrow> group_offset P G i \<le> length D" for i
    using group_offset_mono(2)[of "i - 1" G P] total by (cases i) (auto simp: group_offset_def)
  have at: "DecodeFixed32 (drop (length D + 4 * i) ?c) = of_nat (group_offset P G i)" if "i \<le> ?m" for i
  proof -
    have "i < length offs" using that offs(1) by simp
    then obtain t where "drop (4 * i) (?E @ [11]) = EncodeFixed32 (offs ! i) @ t"
      using drop_fixed32 by blast
    then show ?thesis using offs(2)[OF that] by (simp add: DecodeFixed32_Encode)
  qed
  have n: "length ?c = length D + 4 * ?m + 5" using E by simp
  have u: "unat (of_nat (group_offset P G i) :: 32 word) = group_offset P G i" if "i \<le> ?m" for i
    using le[OF that] D by (intro unat_of_nat_32) simp
  have r: "fr_policy r = P" "fr_data r = ?c" "fr_offset r = length D" "fr_num r = ?m" "fr_base_lg r = 11"
    using n at[of ?m] u[of ?m] total E
    by (simp_all add: r_def new_FilterBlockReader_def Let_def nth_append)
  have slot: "unat (drop_bit 11 off) = slot off"
    by (simp add: slot_def unat_drop_bit kFilterBase_def kFilterBaseLg_def)
  show ?thesis
  proof (cases "slot off < ?m")
    case True
    let ?i = "slot off"
    have sl: "take (group_offset P G (Suc ?i) - group_offset P G ?i) (drop (group_offset P G ?i) ?c) = group_filter P (G ! ?i)"
      unfolding D_def by (rule group_slice[OF True])
    have "DecodeFixed32 (drop (length D + ?i * 4) ?c) = of_nat (group_offset P G ?i)"
      "DecodeFixed32 (drop (length D + ?i * 4 + 4) ?c) = of_nat (group_offset P G (Suc ?i))"
      using at[of ?i] at[of "Suc ?i"] True by (simp_all add: algebra_simps)
    then show ?thesis using True u[of ?i] u[of "Suc ?i"] le[of "Suc ?i"] group_offset_mono(1)[OF True, of P] sl
      by (simp add: FilterBlock_KeyMayMatch_def Let_def r slot)
  qed (simp add: FilterBlock_KeyMayMatch_def Let_def r slot)
qed

text \<open>What the properties of tables build on.\<close>

lemma filter_block_matches:
  assumes "filter_contract P" "sorted (map (slot \<circ> fst) blks)" "(off, keys) \<in> set blks" "key \<in> set keys"
    and "length (fst (FilterBlock_Finish (fold add_block blks (new_FilterBlockBuilder P)))) < 2 ^ 32"
  shows "FilterBlock_KeyMayMatch
    (new_FilterBlockReader P (fst (FilterBlock_Finish (fold add_block blks (new_FilterBlockBuilder P))))) off key"
proof -
  let ?b = "fold add_block blks (new_FilterBlockBuilder P)"
  obtain groups pending where rep: "fb_rep ?b groups pending" "fb_policy ?b = P"
      "\<forall>x \<in> set blks. in_slot groups pending x"
    using filter_contract.add_blocks_rep[OF assms(1) fb_rep_new[of P], where blks = blks and older = "[]"] assms(2)
    by (auto simp: new_FilterBlockBuilder_def)
  define G where "G = groups @ (if pending = [] then [] else [pending])"
  note fin = filter_contract.Finish_contents[OF assms(1) rep(1,2), folded G_def]
  have small: "length (concat (map (group_filter P) G)) < 2 ^ 32" using assms(5) by (simp add: fin)
  have "in_slot groups pending (off, keys)" using rep(3) assms(3) by blast
  then have s: "slot off < length G" "key \<in> set (G ! slot off)"
    using assms(4) by (auto simp: in_slot_def G_def nth_append split: if_splits)
  then have "G ! slot off \<noteq> []" by auto
  then have "KeyMayMatch P key (group_filter P (G ! slot off))"
    using filter_contract.no_false_negative[OF assms(1) s(2)] by (simp add: group_filter_def)
  then show ?thesis unfolding fin using reader_finds[OF small, of off key] by (simp add: comp_def del: upt_Suc)
qed

section \<open>Properties\<close>

text \<open>C30. The filter block of a table never rules out a key that is there: whatever filter policy
  satisfies its contract, when the blocks of a table are added in the order of their offsets and
  the filters take less than four gigabytes, the reader answers ``may match'' for every key of a
  block at the offset of the block.\<close>

theorem filter_block_no_false_negatives:
  assumes "filter_contract P" "sorted (map (slot \<circ> fst) blks)" "(off, keys) \<in> set blks" "key \<in> set keys"
    and "length (fst (FilterBlock_Finish (fold add_block blks (new_FilterBlockBuilder P)))) < 2 ^ 32"
  shows "FilterBlock_KeyMayMatch
    (new_FilterBlockReader P (fst (FilterBlock_Finish (fold add_block blks (new_FilterBlockBuilder P))))) off key"
  by (rule filter_block_matches[OF assms])

lemma length_bloom_filter:
  "length (bloom_CreateFilter n keys dst) = length dst + (max 64 (length keys * n) + 7) div 8 + 1"
proof -
  let ?m = "max 64 (length keys * n)"
  let ?B = "(?m + 7) div 8"
  have "0 < ?B" by (simp add: div_greater_zero_iff)
  then have "length (fold (bloom_add (?B * 8) (bloom_k n)) keys (replicate ?B 0)) = ?B"
    using bits_le_length[OF bloom_adds_le[of "replicate ?B 0" "?B * 8" "bloom_k n" keys]] by simp
  moreover have "(if length keys * n < 64 then 64 else length keys * n) = ?m" by simp
  ultimately show ?thesis by (simp only: bloom_CreateFilter_def Let_def length_append) simp
qed

theorem filter_block_no_false_negatives_witness:
  "FilterBlock_KeyMayMatch (new_FilterBlockReader (NewBloomFilterPolicy 10)
     (fst (FilterBlock_Finish (add_block (100, [[1, 2], [3]]) (new_FilterBlockBuilder (NewBloomFilterPolicy 10)))))) 100 [3]"
proof -
  let ?P = "NewBloomFilterPolicy 10"
  let ?b = "add_block (100, [[1, 2], [3]]) (new_FilterBlockBuilder ?P)"
  have "fb_start ?b \<noteq> [] \<and> fb_result ?b = [] \<and> fb_filter_offsets ?b = [] \<and> fb_policy ?b = ?P \<and> length (fb_start ?b) = 2"
    by (simp add: add_block_def StartBlock_def kFilterBase_def kFilterBaseLg_def StartBlock_loop.simps AddKey_def
        new_FilterBlockBuilder_def)
  then have "length (fst (FilterBlock_Finish ?b)) < 2 ^ 32"
    by (simp add: FilterBlock_Finish_def GenerateFilter_def Let_def PutFixed32_def NewBloomFilterPolicy_def length_bloom_filter)
  then show ?thesis
    using filter_block_no_false_negatives[OF bloom.filter_contract_axioms, of "[(100, [[1, 2], [3]])]" 100 "[[1, 2], [3]]" "[3]" 10]
    by simp
qed

text \<open>A bloom filter made for some keys matches each of them, also when it is appended behind
  other bytes and when the keys are internal keys, of which it sees the user keys.\<close>

theorem bloom_no_false_negatives:
  assumes "key \<in> set keys"
  shows "bloom_KeyMayMatch key (drop (length dst) (bloom_CreateFilter bits_per_key keys dst)) \<and>
    KeyMayMatch (InternalFilterPolicy (NewBloomFilterPolicy bits_per_key)) key
      (CreateFilter (InternalFilterPolicy (NewBloomFilterPolicy bits_per_key)) keys [])"
  using bloom_match[OF assms, of bits_per_key] bloom.internal_filter.no_false_negative[OF assms, of bits_per_key]
  by (simp add: bloom_CreateFilter_def Let_def)

theorem bloom_no_false_negatives_witness:
  "bloom_KeyMayMatch [7] (drop 2 (bloom_CreateFilter 10 [[5], [7]] [1, 2]))"
  using bloom_no_false_negatives[of "[7]" "[[5], [7]]" "[1, 2]" 10] by (simp add: numeral_2_eq_2)

end
