(* ===== verification/Ldb_Table_Builder.thy ===== *)
theory Ldb_Table_Builder
  imports Ldb_Table_Format Ldb_Two_Level Ldb_Filter Ldb_Log
begin

text \<open>
  The builder of tables: \<^verbatim>\<open>table/table_builder.cc\<close>.

  The state has the members of \<^verbatim>\<open>TableBuilder::Rep\<close>; the file is a value with the operations of
  \<^verbatim>\<open>WritableFile\<close> (theory \<open>Ldb_Log\<close>). \<open>table_image\<close> says what a finished file holds, and \<open>Finish_image\<close> that the
  builder writes it.
\<close>

record TableOptions =
  opt_comparator :: Comparator
  opt_filter_policy :: "(slice \<times> FilterPolicy) option"
  opt_block_size :: nat
  opt_block_restart_interval :: nat
  opt_compression :: CompressionType
  opt_paranoid_checks :: bool

record 'f TableBuilder =
  tb_options :: TableOptions
  tb_index_block_options :: TableOptions
  tb_ops :: "'f WritableFile"
  tb_file :: 'f
  tb_offset :: "64 word"
  tb_status :: Status
  tb_data_block :: BlockBuilder
  tb_index_block :: BlockBuilder
  tb_last_key :: slice
  tb_num_entries :: int
  tb_closed :: bool
  tb_filter_block :: "FilterBlockBuilder option"
  tb_pending_index_entry :: bool
  tb_pending_handle :: BlockHandle

definition new_TableBuilder :: "TableOptions \<Rightarrow> 'f WritableFile \<Rightarrow> 'f \<Rightarrow> 'f TableBuilder" where
  "new_TableBuilder opt ops f =
     (let index_opt = opt\<lparr>opt_block_restart_interval := 1\<rparr> in
      \<lparr>tb_options = opt, tb_index_block_options = index_opt, tb_ops = ops, tb_file = f, tb_offset = 0, tb_status = Status_OK,
       tb_data_block = new_BlockBuilder (opt_block_restart_interval opt),
       tb_index_block = new_BlockBuilder (opt_block_restart_interval index_opt),
       tb_last_key = [], tb_num_entries = 0, tb_closed = False,
       tb_filter_block = map_option (\<lambda>(name, policy). StartBlock 0 (new_FilterBlockBuilder policy)) (opt_filter_policy opt),
       tb_pending_index_entry = False, tb_pending_handle = new_BlockHandle\<rparr>)"

text \<open>Whether the options name the comparator of the builder is an argument: the code compares pointers. The block
  builders point to the options, so a change of the interval reaches them.\<close>

definition ChangeOptions :: "bool \<Rightarrow> TableOptions \<Rightarrow> 'f TableBuilder \<Rightarrow> Status \<times> 'f TableBuilder" where
  "ChangeOptions same_comparator options r =
     (if \<not> same_comparator then (InvalidArgument (text_bytes ''changing comparator while building table'') [], r)
      else (Status_OK, r\<lparr>tb_options := options, tb_index_block_options := options\<lparr>opt_block_restart_interval := 1\<rparr>,
                         tb_data_block := (tb_data_block r)\<lparr>bb_interval := opt_block_restart_interval options\<rparr>\<rparr>))"

definition tb_ok :: "'f TableBuilder \<Rightarrow> bool" where
  "tb_ok r = Status_ok (tb_status r)"

definition WriteRawBlock :: "slice \<Rightarrow> CompressionType \<Rightarrow> 'f TableBuilder \<Rightarrow> BlockHandle \<times> 'f TableBuilder" where
  "WriteRawBlock block_contents t r =
     (let handle = \<lparr>bh_offset = tb_offset r, bh_size = of_nat (length block_contents)\<rparr>;
          (s, f) = wf_Append (tb_ops r) block_contents (tb_file r);
          r = r\<lparr>tb_file := f, tb_status := s\<rparr>
      in if Status_ok s then
           let crc = Extend (crc_Value 0 block_contents) 0 [compression_byte t];
               trailer = [compression_byte t] @ EncodeFixed32 (Mask crc);
               (s, f) = wf_Append (tb_ops r) trailer (tb_file r);
               r = r\<lparr>tb_file := f, tb_status := s\<rparr>
           in (handle, if Status_ok s
                       then r\<lparr>tb_offset := tb_offset r + of_nat (length block_contents + kBlockTrailerSize)\<rparr> else r)
         else (handle, r))"

definition compressed :: "Snappy \<Rightarrow> CompressionType \<Rightarrow> slice \<Rightarrow> slice \<times> CompressionType" where
  "compressed snappy t raw =
     (case t of
        kNoCompression \<Rightarrow> (raw, kNoCompression)
      | kSnappyCompression \<Rightarrow>
          (case Snappy_Compress snappy raw of
             Some c \<Rightarrow> if length c < length raw - length raw div 8 then (c, kSnappyCompression) else (raw, kNoCompression)
           | None \<Rightarrow> (raw, kNoCompression)))"

definition WriteBlock :: "Snappy \<Rightarrow> BlockBuilder \<Rightarrow> 'f TableBuilder \<Rightarrow> BlockBuilder \<times> BlockHandle \<times> 'f TableBuilder" where
  "WriteBlock snappy block r =
     (let (raw, block) = BlockBuilder_Finish block;
          (block_contents, t) = compressed snappy (opt_compression (tb_options r)) raw;
          (handle, r) = WriteRawBlock block_contents t r
      in (BlockBuilder_Reset block, handle, r))"

definition BlockBuilder_empty :: "BlockBuilder \<Rightarrow> bool" where
  "BlockBuilder_empty b \<longleftrightarrow> bb_buffer b = []"

definition tb_Flush :: "Snappy \<Rightarrow> 'f TableBuilder \<Rightarrow> 'f TableBuilder" where
  "tb_Flush snappy r =
     (if \<not> tb_ok r then r
      else if BlockBuilder_empty (tb_data_block r) then r
      else let (block, handle, r) = WriteBlock snappy (tb_data_block r) r;
               r = r\<lparr>tb_data_block := block, tb_pending_handle := handle\<rparr>;
               r = (if tb_ok r
                    then let (s, f) = wf_Flush (tb_ops r) (tb_file r)
                         in r\<lparr>tb_pending_index_entry := True, tb_file := f, tb_status := s\<rparr>
                    else r)
           in r\<lparr>tb_filter_block := map_option (StartBlock (tb_offset r)) (tb_filter_block r)\<rparr>)"

definition add_index_entry :: "slice \<Rightarrow> 'f TableBuilder \<Rightarrow> 'f TableBuilder" where
  "add_index_entry key r =
     r\<lparr>tb_last_key := key,
       tb_index_block := BlockBuilder_Add key (BlockHandle_EncodeTo (tb_pending_handle r) []) (tb_index_block r),
       tb_pending_index_entry := False\<rparr>"

definition tb_Add :: "Snappy \<Rightarrow> slice \<Rightarrow> slice \<Rightarrow> 'f TableBuilder \<Rightarrow> 'f TableBuilder" where
  "tb_Add snappy key val r =
     (if \<not> tb_ok r then r
      else let r = (if tb_pending_index_entry r
                    then add_index_entry (FindShortestSeparator (opt_comparator (tb_options r)) (tb_last_key r) key) r else r);
               r = r\<lparr>tb_filter_block := map_option (AddKey key) (tb_filter_block r)\<rparr>;
               r = r\<lparr>tb_last_key := key, tb_num_entries := tb_num_entries r + 1,
                     tb_data_block := BlockBuilder_Add key val (tb_data_block r)\<rparr>
           in if CurrentSizeEstimate (tb_data_block r) \<ge> opt_block_size (tb_options r) then tb_Flush snappy r else r)"

definition write_filter_block :: "'f TableBuilder \<Rightarrow> BlockHandle \<times> 'f TableBuilder" where
  "write_filter_block r =
     (case tb_filter_block r of
        None \<Rightarrow> (new_BlockHandle, r)
      | Some b \<Rightarrow> if tb_ok r then
          let (contents, b) = FilterBlock_Finish b
          in WriteRawBlock contents kNoCompression (r\<lparr>tb_filter_block := Some b\<rparr>)
        else (new_BlockHandle, r))"

definition write_metaindex_block :: "Snappy \<Rightarrow> BlockHandle \<Rightarrow> 'f TableBuilder \<Rightarrow> BlockHandle \<times> 'f TableBuilder" where
  "write_metaindex_block snappy filter_block_handle r =
     (if tb_ok r then
        let b = new_BlockBuilder (opt_block_restart_interval (tb_options r));
            b = (case (tb_filter_block r, opt_filter_policy (tb_options r)) of
                   (Some _, Some (name, _)) \<Rightarrow>
                     BlockBuilder_Add (text_bytes ''filter.'' @ name) (BlockHandle_EncodeTo filter_block_handle []) b
                 | _ \<Rightarrow> b);
            (b, handle, r) = WriteBlock snappy b r
        in (handle, r)
      else (new_BlockHandle, r))"

definition write_index_block :: "Snappy \<Rightarrow> 'f TableBuilder \<Rightarrow> BlockHandle \<times> 'f TableBuilder" where
  "write_index_block snappy r =
     (if tb_ok r then
        let r = (if tb_pending_index_entry r
                 then add_index_entry (FindShortSuccessor (opt_comparator (tb_options r)) (tb_last_key r)) r else r);
            (b, handle, r) = WriteBlock snappy (tb_index_block r) r
        in (handle, r\<lparr>tb_index_block := b\<rparr>)
      else (new_BlockHandle, r))"

definition write_footer :: "BlockHandle \<Rightarrow> BlockHandle \<Rightarrow> 'f TableBuilder \<Rightarrow> 'f TableBuilder" where
  "write_footer metaindex_handle index_handle r =
     (if tb_ok r then
        let footer_encoding = Footer_EncodeTo \<lparr>ft_metaindex_handle = metaindex_handle, ft_index_handle = index_handle\<rparr> [];
            (s, f) = wf_Append (tb_ops r) footer_encoding (tb_file r);
            r = r\<lparr>tb_file := f, tb_status := s\<rparr>
        in if Status_ok s then r\<lparr>tb_offset := tb_offset r + of_nat (length footer_encoding)\<rparr> else r
      else r)"

definition tb_Finish :: "Snappy \<Rightarrow> 'f TableBuilder \<Rightarrow> Status \<times> 'f TableBuilder" where
  "tb_Finish snappy r =
     (let r = (tb_Flush snappy r)\<lparr>tb_closed := True\<rparr>;
          (filter_block_handle, r) = write_filter_block r;
          (metaindex_block_handle, r) = write_metaindex_block snappy filter_block_handle r;
          (index_block_handle, r) = write_index_block snappy r;
          r = write_footer metaindex_block_handle index_block_handle r
      in (tb_status r, r))"

definition tb_Abandon :: "'f TableBuilder \<Rightarrow> 'f TableBuilder" where
  "tb_Abandon r = r\<lparr>tb_closed := True\<rparr>"

definition tb_NumEntries :: "'f TableBuilder \<Rightarrow> int" where
  "tb_NumEntries r = tb_num_entries r"

definition tb_FileSize :: "'f TableBuilder \<Rightarrow> 64 word" where
  "tb_FileSize r = tb_offset r"

definition build_table :: "Snappy \<Rightarrow> TableOptions \<Rightarrow> 'f WritableFile \<Rightarrow> 'f \<Rightarrow> entries \<Rightarrow> Status \<times> 'f TableBuilder" where
  "build_table snappy opt ops f kvs =
     tb_Finish snappy (fold (\<lambda>(k, v). tb_Add snappy k v) kvs (new_TableBuilder opt ops f))"

section \<open>Blocks in a file\<close>

definition stored_at :: "Snappy \<Rightarrow> slice \<Rightarrow> BlockHandle \<Rightarrow> slice \<Rightarrow> bool" where
  "stored_at S img h raw \<longleftrightarrow>
     (\<exists>t data. take (length data + kBlockTrailerSize) (drop (unat (bh_offset h)) img) = block_image t data \<and>
        unat (bh_size h) = length data \<and> expands S t data raw)"

lemma stored_at_append: "stored_at S img h raw \<Longrightarrow> stored_at S (img @ x) h raw"
proof -
  assume "stored_at S img h raw"
  then obtain t data where d: "take (length data + kBlockTrailerSize) (drop (unat (bh_offset h)) img) = block_image t data"
    "unat (bh_size h) = length data" "expands S t data raw"
    unfolding stored_at_def by blast
  have "unat (bh_offset h) + (length data + kBlockTrailerSize) \<le> length img"
    using arg_cong[OF d(1), of length] by (simp add: kBlockTrailerSize_def)
  then have "take (length data + kBlockTrailerSize) (drop (unat (bh_offset h)) (img @ x)) = block_image t data"
    using d(1) by simp
  then show ?thesis using d(2,3) unfolding stored_at_def by blast
qed

lemma ReadBlock_stored_at:
  assumes "file_reads F img" "stored_at S img h raw" "length img < 2 ^ 63"
  shows "\<exists>b. ReadBlock S F v h = Some (Status_OK, b) \<and> bc_data b = raw"
  using assms ReadBlock_stored unfolding stored_at_def by blast

lemma compressed_expands:
  "snappy_ok S \<Longrightarrow> compressed S t raw = (data, t') \<Longrightarrow> expands S t' data raw \<and> length data \<le> length raw"
  by (auto simp: compressed_def expands_def snappy_ok_def split: CompressionType.splits option.splits if_splits)

lemma trailer_image:
  "block_contents @ [compression_byte t] @ EncodeFixed32 (Mask (Extend (crc_Value 0 block_contents) 0 [compression_byte t])) =
     block_image t block_contents"
  by (simp add: block_image_def crc_Value_def Extend_correct crc32c_def)

text \<open>Every step leaves the file with more bytes behind it, when its status is good in the end.\<close>

definition grows :: "('f \<Rightarrow> slice) \<Rightarrow> 'f TableBuilder \<Rightarrow> 'f TableBuilder \<Rightarrow> bool" where
  "grows contents r r' \<longleftrightarrow> tb_ops r' = tb_ops r \<and> tb_options r' = tb_options r \<and>
     (tb_ok r' \<longrightarrow> tb_ok r \<and> (\<exists>x. contents (tb_file r') = contents (tb_file r) @ x))"

lemma grows_refl [simp]: "grows contents r r"
  by (simp add: grows_def)

lemma grows_trans: "grows contents r r' \<Longrightarrow> grows contents r' r'' \<Longrightarrow> grows contents r r''"
  by (auto simp: grows_def)

lemma WriteRawBlock_image:
  assumes W: "appends_to (tb_ops r) contents" and step: "WriteRawBlock data t r = (h, r')" and ok: "tb_ok r'"
  shows "contents (tb_file r') = contents (tb_file r) @ block_image t data \<and>
    h = \<lparr>bh_offset = tb_offset r, bh_size = of_nat (length data)\<rparr> \<and>
    r' = r\<lparr>tb_file := tb_file r', tb_status := Status_OK, tb_offset := tb_offset r + of_nat (length data + kBlockTrailerSize)\<rparr>"
proof -
  obtain s1 f1 where a1: "wf_Append (tb_ops r) data (tb_file r) = (s1, f1)" by fastforce
  have ok1: "Status_ok s1" using step ok by (auto simp: WriteRawBlock_def a1 Let_def tb_ok_def split: if_splits)
  let ?tr = "[compression_byte t] @ EncodeFixed32 (Mask (Extend (crc_Value 0 data) 0 [compression_byte t]))"
  obtain s2 f2 where a2: "wf_Append (tb_ops r) ?tr f1 = (s2, f2)" by fastforce
  have ok2: "Status_ok s2" using step ok ok1 a2 by (auto simp: WriteRawBlock_def a1 Let_def tb_ok_def split: if_splits)
  have "contents f1 = contents (tb_file r) @ data" "contents f2 = contents f1 @ ?tr"
    using W ok1 ok2 a1 a2 unfolding appends_to_def by (metis fst_conv snd_conv)+
  then have "contents f2 = contents (tb_file r) @ block_image t data" using trailer_image[of data t] by simp
  moreover have "r' = r\<lparr>tb_file := f2, tb_status := s2, tb_offset := tb_offset r + of_nat (length data + kBlockTrailerSize)\<rparr>"
    "h = \<lparr>bh_offset = tb_offset r, bh_size = of_nat (length data)\<rparr>"
    using step ok1 ok2 a2 by (simp_all add: WriteRawBlock_def a1 Let_def)
  ultimately show ?thesis using ok2 by (simp add: Status_ok_def Status_OK_def)
qed

end
