(* ===== verification/Ldb_Table_Image.thy ===== *)
theory Ldb_Table_Image
  imports Ldb_Table_Builder
begin

text \<open>
  What the builder of tables writes.

  The invariant \<open>tb_rep\<close> relates the state of the builder to the blocks that are in the file, the entries of the
  open block and the separators in the index; \<open>Add_rep\<close> and \<open>Flush_rep\<close> show that it is kept, \<open>Finish_image\<close> that the
  finished file is a \<open>table_image\<close>: footer, index, blocks and filter are where the handles say.
\<close>

type_synonym stored_block = "BlockHandle \<times> entries"

definition all_entries :: "stored_block list \<Rightarrow> entries" where
  "all_entries bs = concat (map snd bs)"

definition blocks_in :: "Snappy \<Rightarrow> nat \<Rightarrow> slice \<Rightarrow> stored_block list \<Rightarrow> bool" where
  "blocks_in S R img bs \<longleftrightarrow>
     (\<forall>b \<in> set bs. stored_at S img (fst b) (build_block R (snd b)) \<and> snd b \<noteq> [] \<and> unat (bh_offset (fst b)) < length img) \<and>
     sorted_wrt (\<lambda>b b'. bh_offset (fst b) < bh_offset (fst b')) bs"

text \<open>The separators: each is not before any key of its block and before every key that follows.\<close>

definition seps_ok :: "Comparator \<Rightarrow> (slice \<Rightarrow> bool) \<Rightarrow> slice list \<Rightarrow> stored_block list \<Rightarrow> entries \<Rightarrow> bool" where
  "seps_ok C ok ss bs cur \<longleftrightarrow> (\<forall>i < length ss. ok (ss ! i) \<and>
     (\<forall>kv \<in> set (snd (bs ! i)). Compare C (fst kv) (ss ! i) \<le> 0) \<and>
     (\<forall>kv \<in> set (all_entries (drop (Suc i) bs) @ cur). Compare C (ss ! i) (fst kv) < 0))"

definition seps_from :: "Comparator \<Rightarrow> slice list \<Rightarrow> stored_block list \<Rightarrow> entries \<Rightarrow> bool" where
  "seps_from C ss bs cur \<longleftrightarrow> (\<forall>i < length ss.
     let a = fst (last (snd (bs ! i))); rest = all_entries (drop (Suc i) bs) @ cur
     in ss ! i = (if rest = [] then FindShortSuccessor C a else FindShortestSeparator C a (fst (hd rest))))"

definition index_entries :: "slice list \<Rightarrow> stored_block list \<Rightarrow> entries" where
  "index_entries ss bs = zip ss (map (\<lambda>b. BlockHandle_EncodeTo (fst b) []) bs)"

definition filter_blocks :: "stored_block list \<Rightarrow> fblock list" where
  "filter_blocks bs = map (\<lambda>b. (bh_offset (fst b), map fst (snd b))) bs"

definition filter_rep :: "TableOptions \<Rightarrow> 64 word \<Rightarrow> stored_block list \<Rightarrow> entries \<Rightarrow> FilterBlockBuilder option" where
  "filter_rep opt off bs cur =
     map_option (\<lambda>(name, P). fold AddKey (map fst cur) (StartBlock off (fold add_block (filter_blocks bs) (new_FilterBlockBuilder P))))
       (opt_filter_policy opt)"

definition off_ok :: "('f \<Rightarrow> slice) \<Rightarrow> 'f TableBuilder \<Rightarrow> bool" where
  "off_ok contents r \<longleftrightarrow> unat (tb_offset r) = length (contents (tb_file r))"

definition tb_rep ::
  "Snappy \<Rightarrow> (slice \<Rightarrow> bool) \<Rightarrow> ('f \<Rightarrow> slice) \<Rightarrow> 'f TableBuilder \<Rightarrow> stored_block list \<Rightarrow> slice list \<Rightarrow> entries \<Rightarrow> bool" where
  "tb_rep S ok contents r bs ss cur \<longleftrightarrow>
     (let C = opt_comparator (tb_options r); R = opt_block_restart_interval (tb_options r) in
      tb_ok r \<and> off_ok contents r \<and> blocks_in S R (contents (tb_file r)) bs \<and>
      bb_rep (tb_data_block r) R cur \<and> bb_rep (tb_index_block r) 1 (index_entries ss bs) \<and>
      (tb_pending_index_entry r \<longleftrightarrow> cur = [] \<and> bs \<noteq> []) \<and>
      (if tb_pending_index_entry r then length bs = Suc (length ss) \<and> tb_pending_handle r = fst (last bs)
       else length bs = length ss) \<and>
      ascending (Compare C) ok (all_entries bs @ cur) \<and>
      (all_entries bs @ cur \<noteq> [] \<longrightarrow> tb_last_key r = fst (last (all_entries bs @ cur))) \<and>
      seps_ok C ok ss bs cur \<and> seps_from C ss bs cur \<and> tb_filter_block r = filter_rep (tb_options r) (tb_offset r) bs cur)"

lemma all_entries_simps [simp]:
  "all_entries [] = []" "all_entries (b # bs) = snd b @ all_entries bs" "all_entries (bs @ bs') = all_entries bs @ all_entries bs'"
  by (simp_all add: all_entries_def)

lemma set_all_entries: "kv \<in> set (all_entries bs) \<longleftrightarrow> (\<exists>b \<in> set bs. kv \<in> set (snd b))"
  by (auto simp: all_entries_def)

lemma full_all_entries: "bs \<noteq> [] \<Longrightarrow> (\<And>b. b \<in> set bs \<Longrightarrow> snd b \<noteq> []) \<Longrightarrow> all_entries bs \<noteq> []"
  by (cases bs) auto

lemma last_all_entries:
  assumes "bs \<noteq> []" "\<And>b. b \<in> set bs \<Longrightarrow> snd b \<noteq> []"
  shows "last (all_entries bs) = last (snd (last bs))"
proof -
  obtain bs' b where bs: "bs = bs' @ [b]" using assms(1) by (cases bs rule: rev_cases) auto
  then have "snd b \<noteq> []" using assms(2) by auto
  then show ?thesis by (simp add: bs)
qed

lemma tb_rep_new:
  assumes "comparator_contract (opt_comparator opt) ok" "contents f = []"
  shows "tb_rep S ok contents (new_TableBuilder opt ops f) [] [] []"
  using assms(2) comparator_contract.axioms(1)[OF assms(1)] bb_rep_new
  by (auto simp: tb_rep_def new_TableBuilder_def Let_def tb_ok_def Status_ok_def Status_OK_def off_ok_def blocks_in_def
      index_entries_def seps_ok_def seps_from_def ascending_def filter_rep_def filter_blocks_def split: option.splits)

lemma body_empty_iff: "block_body R kvs = [] \<longleftrightarrow> kvs = []"
proof
  assume "block_body R kvs = []"
  then show "kvs = []" using entry_at_pos[of R kvs 0] by (cases kvs) (auto simp: block_body_def upt_conv_Cons simp del: upt_Suc)
qed (simp add: block_body_def)

lemma seps_ok_snoc_sep:
  assumes seps: "seps_ok C ok ss bs []" and len: "length bs = Suc (length ss)" and oks: "ok s"
    and le: "\<And>kv. kv \<in> set (snd (last bs)) \<Longrightarrow> Compare C (fst kv) s \<le> 0"
  shows "seps_ok C ok (ss @ [s]) bs []"
proof -
  have "bs ! length ss = last bs" using len by (metis diff_Suc_1 last_conv_nth length_0_conv nat.distinct(1))
  then show ?thesis using seps len oks le by (auto simp: seps_ok_def nth_append less_Suc_eq)
qed

lemma seps_ok_snoc_entry:
  assumes C: "compare_order (Compare C) ok" and seps: "seps_ok C ok ss bs cur" and len: "length ss \<le> length bs"
    and asc: "ascending (Compare C) ok (all_entries bs @ cur @ [kv])"
    and last: "length ss = length bs \<Longrightarrow> cur = [] \<Longrightarrow> bs \<noteq> [] \<Longrightarrow> Compare C (last ss) (fst kv) < 0"
    and full: "\<And>b. b \<in> set bs \<Longrightarrow> snd b \<noteq> []"
  shows "seps_ok C ok ss bs (cur @ [kv])"
proof -
  have okkv: "ok (fst kv)" using asc by (simp add: ascending_def)
  have "Compare C (ss ! i) (fst kv) < 0" if i: "i < length ss" for i
  proof (cases "all_entries (drop (Suc i) bs) @ cur = []")
    case True
    have "snd b \<noteq> []" if "b \<in> set (drop (Suc i) bs)" for b using full in_set_dropD[OF that] by blast
    then have "drop (Suc i) bs = []" using True by (cases "drop (Suc i) bs") auto
    then have "Suc i = length ss" "length ss = length bs" using i len by simp_all
    then have "ss ! i = last ss" "bs \<noteq> []" using i by (auto simp: last_conv_nth) (metis diff_Suc_1 last_conv_nth list.size(3) nat.distinct(1))
    then show ?thesis using last \<open>length ss = length bs\<close> True by simp
  next
    case False
    then obtain x where x: "x \<in> set (all_entries (drop (Suc i) bs) @ cur)" by (meson last_in_set)
    then have "x \<in> set (all_entries bs @ cur)" by (auto simp: set_all_entries dest: in_set_dropD)
    then have "Compare C (fst x) (fst kv) < 0" "ok (fst x)"
      using asc by (auto simp: ascending_def sorted_wrt_append)
    moreover have "Compare C (ss ! i) (fst x) < 0" "ok (ss ! i)" using seps i x by (auto simp: seps_ok_def)
    ultimately show ?thesis using compare_order.less_trans[OF C _ _ okkv] by blast
  qed
  then show ?thesis using seps by (auto simp: seps_ok_def)
qed

lemma ascending_snoc:
  assumes "ascending compare ok (kvs @ [kv])"
  shows "\<And>x. x \<in> set kvs \<Longrightarrow> compare (fst x) (fst kv) < 0" "\<And>x. x \<in> set kvs \<Longrightarrow> ok (fst x)" "ok (fst kv)"
  using assms by (auto simp: ascending_append) (auto simp: ascending_def)

section \<open>Adding an entry\<close>

text \<open>The part of \<^verbatim>\<open>Add\<close> before the flush.\<close>

definition put_entry :: "slice \<Rightarrow> slice \<Rightarrow> 'f TableBuilder \<Rightarrow> 'f TableBuilder" where
  "put_entry key val r =
     (let r = (if tb_pending_index_entry r
               then add_index_entry (FindShortestSeparator (opt_comparator (tb_options r)) (tb_last_key r) key) r else r);
          r = r\<lparr>tb_filter_block := map_option (AddKey key) (tb_filter_block r)\<rparr>
      in r\<lparr>tb_last_key := key, tb_num_entries := tb_num_entries r + 1,
           tb_data_block := BlockBuilder_Add key val (tb_data_block r)\<rparr>)"

lemma tb_Add_put:
  "tb_Add snappy key val r =
     (if \<not> tb_ok r then r
      else let r = put_entry key val r
           in if CurrentSizeEstimate (tb_data_block r) \<ge> opt_block_size (tb_options r) then tb_Flush snappy r else r)"
  by (simp add: tb_Add_def put_entry_def Let_def)

lemma put_entry_kept [simp]:
  "tb_ops (put_entry k v r) = tb_ops r" "tb_options (put_entry k v r) = tb_options r" "tb_file (put_entry k v r) = tb_file r"
  "tb_offset (put_entry k v r) = tb_offset r" "tb_status (put_entry k v r) = tb_status r"
  "tb_pending_index_entry (put_entry k v r) = False"
  by (simp_all add: put_entry_def add_index_entry_def Let_def)

lemma put_entry_rep:
  assumes C: "comparator_contract (opt_comparator (tb_options r)) ok" and R: "0 < opt_block_restart_interval (tb_options r)"
    and rep: "tb_rep S ok contents r bs ss cur"
    and asc: "ascending (Compare (opt_comparator (tb_options r))) ok (all_entries bs @ cur @ [(k, v)])"
  shows "\<exists>ss'. tb_rep S ok contents (put_entry k v r) bs ss' (cur @ [(k, v)])"
proof -
  let ?C = "opt_comparator (tb_options r)"
  let ?E = "all_entries bs @ cur"
  note order = comparator_contract.axioms(1)[OF C]
  have full: "\<And>b. b \<in> set bs \<Longrightarrow> snd b \<noteq> []" using rep by (auto simp: tb_rep_def Let_def blocks_in_def)
  define s where "s = FindShortestSeparator ?C (tb_last_key r) k"
  define ss' where "ss' = (if tb_pending_index_entry r then ss @ [s] else ss)"
  have idx: "bb_rep (tb_index_block (put_entry k v r)) 1 (index_entries ss' bs)"
  proof (cases "tb_pending_index_entry r")
    case True
    then have p: "length bs = Suc (length ss)" "tb_pending_handle r = fst (last bs)" "bb_rep (tb_index_block r) 1 (index_entries ss bs)"
      using rep by (simp_all add: tb_rep_def Let_def)
    obtain bs' b where bs: "bs = bs' @ [b]" "length bs' = length ss" using p(1) by (cases bs rule: rev_cases) auto
    have "index_entries ss' bs = index_entries ss bs @ [(s, BlockHandle_EncodeTo (tb_pending_handle r) [])]"
      using True bs p(2) by (simp add: ss'_def index_entries_def zip_append1 zip_append2)
    then show ?thesis using bb_rep_Add[OF p(3)] True by (simp add: put_entry_def add_index_entry_def s_def Let_def)
  next
    case False
    then show ?thesis using rep by (simp add: put_entry_def ss'_def tb_rep_def Let_def)
  qed
  have sep: "ok s \<and> (\<forall>kv \<in> set ?E. Compare ?C (fst kv) s \<le> 0) \<and> Compare ?C s k < 0" if pend: "tb_pending_index_entry r"
  proof -
    have cur: "cur = []" and "bs \<noteq> []" using rep pend by (simp_all add: tb_rep_def Let_def)
    then have E: "?E \<noteq> []" using full by (cases bs) auto
    then have last: "tb_last_key r = fst (last ?E)" using rep by (simp add: tb_rep_def Let_def)
    have asc': "ascending (Compare ?C) ok (?E @ [(k, v)])" using asc by simp
    have okl: "ok (tb_last_key r)" "ok k" "Compare ?C (tb_last_key r) k < 0"
      using ascending_snoc[OF asc'] last_in_set[OF E] last by (simp_all del: last_append append_is_Nil_conv)
    note s = comparator_contract.separator[OF C okl, folded s_def]
    have "Compare ?C (fst kv) s \<le> 0" if kv: "kv \<in> set ?E" for kv
    proof -
      have okv: "ok (fst kv)" using asc' kv by (auto simp: ascending_def)
      have "Compare ?C (fst kv) (tb_last_key r) \<le> 0"
      proof (cases "kv = last ?E")
        case True
        then show ?thesis using last compare_order.refl[OF order okv] by simp
      next
        case False
        have split: "?E = butlast ?E @ [last ?E]" using E by simp
        then have "kv \<in> set (butlast ?E)" using kv False by (metis Un_iff set_append set_ConsD empty_iff list.set(1))
        moreover have "ascending (Compare ?C) ok (butlast ?E @ [last ?E])" using asc' split by (simp add: ascending_append)
        ultimately show ?thesis using last unfolding ascending_append by fastforce
      qed
      then show ?thesis using s compare_order.trans[OF order okv okl(1)] by blast
    qed
    then show ?thesis using s by blast
  qed
  have seps': "seps_ok ?C ok ss' bs cur"
  proof (cases "tb_pending_index_entry r")
    case True
    then have p: "length bs = Suc (length ss)" "cur = []" "seps_ok ?C ok ss bs []" using rep by (auto simp: tb_rep_def Let_def)
    have "bs \<noteq> []" using p(1) by auto
    then have "kv \<in> set ?E" if "kv \<in> set (snd (last bs))" for kv
      using set_all_entries[of kv bs] last_in_set[of bs] that by auto
    then show ?thesis using seps_ok_snoc_sep[OF p(3,1)] sep[OF True] True p(2) by (auto simp: ss'_def)
  next
    case False
    then show ?thesis using rep by (simp add: ss'_def tb_rep_def Let_def)
  qed
  have len: "length ss' = length bs" using rep by (auto simp: ss'_def tb_rep_def Let_def)
  have "seps_ok ?C ok ss' bs (cur @ [(k, v)])"
  proof (rule seps_ok_snoc_entry[OF order seps'])
    assume "cur = []" "bs \<noteq> []"
    then have "tb_pending_index_entry r" using rep by (simp add: tb_rep_def Let_def)
    then show "Compare ?C (last ss') (fst (k, v)) < 0" using sep by (simp add: ss'_def)
  qed (use len asc full in auto)
  moreover have "seps_from ?C ss' bs (cur @ [(k, v)])"
    unfolding seps_from_def Let_def
  proof (intro allI impI)
    fix i assume i: "i < length ss'"
    let ?rest = "all_entries (drop (Suc i) bs) @ cur"
    let ?rest' = "all_entries (drop (Suc i) bs) @ cur @ [(k, v)]" and ?a = "fst (last (snd (bs ! i)))"
    have "ss' ! i = FindShortestSeparator ?C ?a (fst (hd ?rest'))"
    proof (cases "?rest = []")
      case False
      have il: "i < length ss"
      proof (cases "tb_pending_index_entry r")
        case True
        then have p: "length bs = Suc (length ss)" "cur = []" using rep by (simp_all add: tb_rep_def Let_def)
        have "drop (Suc i) bs \<noteq> []" using False p(2) by (cases "drop (Suc i) bs") auto
        then show ?thesis using p(1) by simp
      next
        case no: False
        then show ?thesis using i by (simp add: ss'_def)
      qed
      have "ss' ! i = ss ! i" unfolding ss'_def using il by (simp add: nth_append)
      moreover have "seps_from ?C ss bs cur" using rep by (simp add: tb_rep_def Let_def)
      ultimately have "ss' ! i = FindShortestSeparator ?C (fst (last (snd (bs ! i)))) (fst (hd ?rest))"
        using False il unfolding seps_from_def Let_def by metis
      moreover have "hd (?rest @ [(k, v)]) = hd ?rest" using False by (rule hd_append2)
      ultimately show ?thesis by simp
    next
      case True
      have "snd b \<noteq> []" if "b \<in> set (drop (Suc i) bs)" for b using full in_set_dropD[OF that] by blast
      then have "drop (Suc i) bs = []" using True by (cases "drop (Suc i) bs") auto
      then have last_i: "Suc i = length bs" "cur = []" "bs \<noteq> []" using i len True by auto
      then have pend: "tb_pending_index_entry r" using rep by (simp add: tb_rep_def Let_def)
      then have "length bs = Suc (length ss)" using rep by (simp add: tb_rep_def Let_def)
      then have "ss' ! i = s" using last_i pend by (simp add: ss'_def nth_append)
      moreover have "bs ! i = last bs" using last_i by (metis diff_Suc_1 last_conv_nth)
      moreover have "tb_last_key r = fst (last (snd (last bs)))"
        using rep last_i last_all_entries[OF last_i(3) full] full_all_entries[OF last_i(3) full] by (simp add: tb_rep_def Let_def)
      ultimately show ?thesis using \<open>drop (Suc i) bs = []\<close> last_i(2) by (simp add: s_def)
    qed
    then show "ss' ! i = (if ?rest' = [] then FindShortSuccessor ?C ?a else FindShortestSeparator ?C ?a (fst (hd ?rest')))"
      by simp
  qed
  moreover have "bb_rep (tb_data_block (put_entry k v r)) (opt_block_restart_interval (tb_options r)) (cur @ [(k, v)])"
  proof -
    have "bb_rep (tb_data_block r) (opt_block_restart_interval (tb_options r)) cur" using rep by (simp add: tb_rep_def Let_def)
    from bb_rep_Add[OF this R] show ?thesis by (simp add: put_entry_def add_index_entry_def Let_def)
  qed
  moreover have "tb_filter_block (put_entry k v r) = filter_rep (tb_options r) (tb_offset r) bs (cur @ [(k, v)])"
  proof -
    have "tb_filter_block r = filter_rep (tb_options r) (tb_offset r) bs cur" using rep by (simp add: tb_rep_def Let_def)
    then show ?thesis
      by (cases "opt_filter_policy (tb_options r)") (auto simp: filter_rep_def put_entry_def add_index_entry_def Let_def)
  qed
  moreover have "tb_last_key (put_entry k v r) = k" by (simp add: put_entry_def Let_def)
  ultimately have "tb_rep S ok contents (put_entry k v r) bs ss' (cur @ [(k, v)])"
    using rep idx len asc by (simp add: tb_rep_def Let_def tb_ok_def off_ok_def)
  then show ?thesis ..
qed

section \<open>Writing the open block\<close>

lemma write_stores:
  assumes W: "appends_to (tb_ops r) contents" and off: "off_ok contents r" and step: "WriteRawBlock data t r = (h, r')"
    and ok: "tb_ok r'" and len: "length (contents (tb_file r')) < 2 ^ 63" and raw: "expands S t data raw"
  shows "off_ok contents r'" "stored_at S (contents (tb_file r')) h raw" "bh_offset h = tb_offset r"
    "contents (tb_file r') = contents (tb_file r) @ block_image t data"
    "r' = r\<lparr>tb_file := tb_file r', tb_status := Status_OK, tb_offset := tb_offset r'\<rparr>"
proof -
  note img = WriteRawBlock_image[OF W step ok]
  then have c: "contents (tb_file r') = contents (tb_file r) @ block_image t data"
    and h: "h = \<lparr>bh_offset = tb_offset r, bh_size = of_nat (length data)\<rparr>"
    and o: "tb_offset r' = tb_offset r + of_nat (length data + kBlockTrailerSize)"
    by (metis TableBuilder.select_convs(5) TableBuilder.update_convs(3,5,6) TableBuilder.surjective)+
  have bound: "length (contents (tb_file r)) + (length data + kBlockTrailerSize) < 2 ^ 63" using len by (simp add: c)
  have u: "unat (of_nat (length data + kBlockTrailerSize) :: 64 word) = length data + kBlockTrailerSize"
    "unat (of_nat (length data) :: 64 word) = length data"
    using bound by (intro unat_of_nat_64; simp)+
  show "off_ok contents r'"
    using unat_add_lem[of "tb_offset r" "of_nat (length data + kBlockTrailerSize)"] off u bound unfolding off_ok_def o c
    by (simp del: of_nat_add)
  show "stored_at S (contents (tb_file r')) h raw"
    unfolding stored_at_def
    by (rule exI[of _ t], rule exI[of _ data]) (use off raw u in \<open>simp add: h c off_ok_def\<close>)
  show "bh_offset h = tb_offset r" by (simp add: h)
  show "contents (tb_file r') = contents (tb_file r) @ block_image t data" by (rule c)
  show "r' = r\<lparr>tb_file := tb_file r', tb_status := Status_OK, tb_offset := tb_offset r'\<rparr>"
    using img o by metis
qed

lemma Finish_build: "bb_rep b R kvs \<Longrightarrow> 0 < R \<Longrightarrow> fst (BlockBuilder_Finish b) = build_block R kvs"
  by (simp add: bb_rep_Finish build_block_eq)

lemma WriteBlock_stores:
  assumes W: "appends_to (tb_ops r) contents" and S: "snappy_ok S" and off: "off_ok contents r"
    and b: "bb_rep b R kvs" "0 < R" and step: "WriteBlock S b r = (b', h, r')"
    and ok: "tb_ok r'" and len: "length (contents (tb_file r')) < 2 ^ 63"
  shows "bb_rep b' R []" "off_ok contents r'" "stored_at S (contents (tb_file r')) h (build_block R kvs)"
    "bh_offset h = tb_offset r" "\<exists>x. x \<noteq> [] \<and> contents (tb_file r') = contents (tb_file r) @ x"
    "r' = r\<lparr>tb_file := tb_file r', tb_status := Status_OK, tb_offset := tb_offset r'\<rparr>"
proof -
  obtain data t where d: "compressed S (opt_compression (tb_options r)) (build_block R kvs) = (data, t)" by fastforce
  obtain b1 where fin: "BlockBuilder_Finish b = (build_block R kvs, b1)" using Finish_build[OF b] by (metis prod.collapse)
  have raw: "WriteRawBlock data t r = (h, r')" "b' = BlockBuilder_Reset b1"
    using step by (simp_all add: WriteBlock_def fin d split: prod.splits)
  have b1: "bb_interval b1 = R" using fin b(1) by (auto simp: BlockBuilder_Finish_def Let_def bb_rep_def)
  show "bb_rep b' R []" using b1 raw(2)
    by (simp add: bb_rep_def BlockBuilder_Reset_def block_body_def restart_list_def nrestarts_def entry_off_def)
  note st = write_stores[OF W off raw(1) ok len] and e = compressed_expands[OF S d]
  show "off_ok contents r'" "stored_at S (contents (tb_file r')) h (build_block R kvs)" "bh_offset h = tb_offset r"
    "r' = r\<lparr>tb_file := tb_file r', tb_status := Status_OK, tb_offset := tb_offset r'\<rparr>"
    using st e by blast+
  show "\<exists>x. x \<noteq> [] \<and> contents (tb_file r') = contents (tb_file r) @ x"
    using st(4) e by (metis append_is_Nil_conv block_image_def not_Cons_self2)
qed

lemma WriteRawBlock_kept:
  assumes "WriteRawBlock data t r = (h, r')"
  shows "tb_ops r' = tb_ops r" "tb_options r' = tb_options r" "tb_filter_block r' = tb_filter_block r"
  using assms by (auto simp: WriteRawBlock_def Let_def split: prod.splits if_splits)

lemma WriteBlock_kept:
  assumes "WriteBlock S b r = (b', h, r')"
  shows "tb_ops r' = tb_ops r" "tb_options r' = tb_options r" "tb_filter_block r' = tb_filter_block r"
  using assms WriteRawBlock_kept by (fastforce simp: WriteBlock_def split: prod.splits)+

lemma WriteRawBlock_grows:
  assumes W: "appends_to (tb_ops r) contents" and "WriteRawBlock data t r = (h, r')" "tb_ok r"
  shows "grows contents r r'"
  using WriteRawBlock_image[OF W assms(2)] WriteRawBlock_kept[OF assms(2)] assms(3) unfolding grows_def by blast

lemma WriteBlock_grows:
  assumes W: "appends_to (tb_ops r) contents" and "WriteBlock S b r = (b', h, r')" "tb_ok r"
  shows "grows contents r r'"
  using assms WriteRawBlock_grows[OF W] by (auto simp: WriteBlock_def split: prod.splits)

lemma appends_Flush: "appends_to W contents \<Longrightarrow> wf_Flush W f = (s, f') \<Longrightarrow> contents f' = contents f"
  unfolding appends_to_def by (metis snd_conv)

lemma Flush_cases:
  assumes W: "appends_to (tb_ops r) contents" and ok: "tb_ok (tb_Flush S r)" and full: "\<not> BlockBuilder_empty (tb_data_block r)"
  shows "\<exists>b h r1 f. tb_ok r \<and> WriteBlock S (tb_data_block r) r = (b, h, r1) \<and> tb_ok r1 \<and> contents f = contents (tb_file r1) \<and>
    tb_Flush S r = r1\<lparr>tb_data_block := b, tb_pending_handle := h, tb_pending_index_entry := True, tb_file := f, tb_status := Status_OK,
      tb_filter_block := map_option (StartBlock (tb_offset r1)) (tb_filter_block r1)\<rparr>"
proof -
  have okr: "tb_ok r" using ok by (auto simp: tb_Flush_def split: if_splits)
  obtain b h r1 where w: "WriteBlock S (tb_data_block r) r = (b, h, r1)" by (metis prod_cases3)
  have ok1: "tb_ok r1" using ok full okr by (auto simp: tb_Flush_def w Let_def tb_ok_def split: prod.splits if_splits)
  obtain s f where f: "wf_Flush (tb_ops r1) (tb_file r1) = (s, f)" by fastforce
  have "tb_ok (r1\<lparr>tb_data_block := b, tb_pending_handle := h\<rparr>)" using ok1 by (simp add: tb_ok_def)
  then have fl: "tb_Flush S r = r1\<lparr>tb_data_block := b, tb_pending_handle := h, tb_pending_index_entry := True, tb_file := f, tb_status := s,
      tb_filter_block := map_option (StartBlock (tb_offset r1)) (tb_filter_block r1)\<rparr>"
    using full okr f by (simp add: tb_Flush_def w Let_def)
  have "s = Status_OK" using ok fl by (simp add: tb_ok_def Status_ok_def Status_OK_def)
  moreover have "contents f = contents (tb_file r1)" using appends_Flush[OF _ f] W WriteBlock_kept[OF w] by simp
  ultimately show ?thesis using okr w ok1 fl by blast
qed

lemma Flush_grows:
  assumes W: "appends_to (tb_ops r) contents"
  shows "grows contents r (tb_Flush S r)"
proof (cases "tb_ok r \<and> \<not> BlockBuilder_empty (tb_data_block r)")
  case False
  then show ?thesis by (auto simp: tb_Flush_def)
next
  case True
  have kept: "tb_ops (tb_Flush S r) = tb_ops r" "tb_options (tb_Flush S r) = tb_options r"
    using WriteBlock_kept by (fastforce simp: tb_Flush_def Let_def split: prod.splits)+
  show ?thesis
  proof (cases "tb_ok (tb_Flush S r)")
    case ok: True
    then obtain b h r1 f where w: "WriteBlock S (tb_data_block r) r = (b, h, r1)" "tb_ok r1" "contents f = contents (tb_file r1)"
      "tb_file (tb_Flush S r) = f"
      using Flush_cases[OF W ok] True by auto
    then show ?thesis using WriteBlock_grows[OF W w(1)] True kept by (auto simp: grows_def)
  next
    case False
    then show ?thesis using kept by (simp add: grows_def)
  qed
qed

lemma Add_grows:
  assumes W: "appends_to (tb_ops r) contents"
  shows "grows contents r (tb_Add S k v r)"
proof -
  have "grows contents r (put_entry k v r)" by (simp add: grows_def tb_ok_def)
  moreover have "grows contents (put_entry k v r) (tb_Flush S (put_entry k v r))" using Flush_grows[of "put_entry k v r"] W by simp
  ultimately show ?thesis using grows_trans by (auto simp: tb_Add_put Let_def)
qed

lemma Flush_rep:
  assumes W: "appends_to (tb_ops r) contents" and S: "snappy_ok S" and R: "0 < opt_block_restart_interval (tb_options r)"
    and rep: "tb_rep S ok contents r bs ss cur" and cur: "cur \<noteq> []"
    and ok: "tb_ok (tb_Flush S r)" and len: "length (contents (tb_file (tb_Flush S r))) < 2 ^ 63"
  shows "\<exists>h. tb_rep S ok contents (tb_Flush S r) (bs @ [(h, cur)]) ss []"
proof -
  let ?R = "opt_block_restart_interval (tb_options r)"
  have db: "bb_rep (tb_data_block r) ?R cur" and off: "off_ok contents r" using rep by (simp_all add: tb_rep_def Let_def)
  have full: "\<not> BlockBuilder_empty (tb_data_block r)" using db cur by (simp add: BlockBuilder_empty_def bb_rep_def body_empty_iff)
  obtain b h r1 f where w: "WriteBlock S (tb_data_block r) r = (b, h, r1)" "tb_ok r1" "contents f = contents (tb_file r1)"
    "tb_Flush S r = r1\<lparr>tb_data_block := b, tb_pending_handle := h, tb_pending_index_entry := True, tb_file := f, tb_status := Status_OK,
      tb_filter_block := map_option (StartBlock (tb_offset r1)) (tb_filter_block r1)\<rparr>"
    using Flush_cases[OF W ok full] by blast
  have len1: "length (contents (tb_file r1)) < 2 ^ 63" using len w(3,4) by simp
  note st = WriteBlock_stores[OF W S off db R w(1,2) len1]
  obtain x where x: "x \<noteq> []" "contents (tb_file r1) = contents (tb_file r) @ x" using st(5) by blast
  have pend: "\<not> tb_pending_index_entry r" "length bs = length ss" using rep cur by (auto simp: tb_rep_def Let_def split: if_splits)
  have older: "bh_offset (fst b') < tb_offset r" if "b' \<in> set bs" for b'
    using rep that off by (auto simp: tb_rep_def Let_def blocks_in_def off_ok_def word_less_nat_alt)
  have blocks: "blocks_in S ?R (contents f) (bs @ [(h, cur)])"
    using rep older st(3,4) x cur off w(3) unfolding tb_rep_def Let_def blocks_in_def off_ok_def
    by (auto simp: sorted_wrt_append stored_at_append trans_less_add1 ball_Un)
  obtain f1 o1 where r1: "r1 = r\<lparr>tb_file := f1, tb_status := Status_OK, tb_offset := o1\<rparr>" using st(6) by blast
  have idx: "index_entries ss (bs @ [(h, cur)]) = index_entries ss bs" using pend(2) by (simp add: index_entries_def zip_append2)
  have seps: "seps_ok (opt_comparator (tb_options r)) ok ss (bs @ [(h, cur)]) []"
    using rep pend(2) by (auto simp: tb_rep_def Let_def seps_ok_def nth_append)
  have seps_fr: "seps_from (opt_comparator (tb_options r)) ss (bs @ [(h, cur)]) []"
    using rep pend(2) by (auto simp: tb_rep_def Let_def seps_from_def nth_append)
  have filt: "map_option (StartBlock (tb_offset r1)) (tb_filter_block r) =
      filter_rep (tb_options r) (tb_offset r1) (bs @ [(h, cur)]) []"
  proof -
    have "tb_filter_block r = filter_rep (tb_options r) (tb_offset r) bs cur" using rep by (simp add: tb_rep_def Let_def)
    then show ?thesis using st(4)
      by (cases "opt_filter_policy (tb_options r)") (auto simp: filter_rep_def filter_blocks_def add_block_def)
  qed
  have "off_ok contents (tb_Flush S r)" using st(2) w(3,4) by (simp add: off_ok_def)
  then have "tb_rep S ok contents (tb_Flush S r) (bs @ [(h, cur)]) ss []"
    using rep blocks idx seps seps_fr filt st(1) pend w(4) ok unfolding tb_rep_def Let_def by (simp add: r1)
  then show ?thesis ..
qed

lemma Add_rep:
  assumes W: "appends_to (tb_ops r) contents" and S: "snappy_ok S" and R: "0 < opt_block_restart_interval (tb_options r)"
    and C: "comparator_contract (opt_comparator (tb_options r)) ok"
    and rep: "tb_rep S ok contents r bs ss cur"
    and asc: "ascending (Compare (opt_comparator (tb_options r))) ok (all_entries bs @ cur @ [(k, v)])"
    and ok: "tb_ok (tb_Add S k v r)" and len: "length (contents (tb_file (tb_Add S k v r))) < 2 ^ 63"
  shows "\<exists>bs' ss' cur'. tb_rep S ok contents (tb_Add S k v r) bs' ss' cur' \<and> all_entries bs' @ cur' = all_entries bs @ cur @ [(k, v)]"
proof -
  obtain ss' where p: "tb_rep S ok contents (put_entry k v r) bs ss' (cur @ [(k, v)])" using put_entry_rep[OF C R rep asc] by blast
  have okr: "tb_ok r" using rep by (simp add: tb_rep_def Let_def)
  show ?thesis
  proof (cases "CurrentSizeEstimate (tb_data_block (put_entry k v r)) \<ge> opt_block_size (tb_options r)")
    case True
    then have e: "tb_Add S k v r = tb_Flush S (put_entry k v r)" using okr by (simp add: tb_Add_put Let_def)
    obtain h where "tb_rep S ok contents (tb_Add S k v r) (bs @ [(h, cur @ [(k, v)])]) ss' []"
      using Flush_rep[OF _ S _ p] W R ok len by (auto simp: e)
    then show ?thesis by fastforce
  next
    case False
    then show ?thesis using p okr by (fastforce simp: tb_Add_put Let_def)
  qed
qed

lemma Adds_kept:
  assumes W: "appends_to (tb_ops r0) contents"
  shows "tb_ops (fold (\<lambda>(k, v). tb_Add S k v) kvs r0) = tb_ops r0 \<and> tb_options (fold (\<lambda>(k, v). tb_Add S k v) kvs r0) = tb_options r0"
proof (induction kvs rule: rev_induct)
  case (snoc kv kvs)
  have "grows contents (fold (\<lambda>(k, v). tb_Add S k v) kvs r0) (tb_Add S (fst kv) (snd kv) (fold (\<lambda>(k, v). tb_Add S k v) kvs r0))"
    by (rule Add_grows) (use snoc W in simp)
  then show ?case using snoc by (cases kv) (simp add: grows_def)
qed simp

lemma Adds_rep:
  fixes r0 :: "'f TableBuilder"
  assumes W: "appends_to (tb_ops r0) contents" and S: "snappy_ok S" and R: "0 < opt_block_restart_interval (tb_options r0)"
    and C: "comparator_contract (opt_comparator (tb_options r0)) ok"
    and rep: "tb_rep S ok contents r0 [] [] []" and asc: "ascending (Compare (opt_comparator (tb_options r0))) ok kvs"
  defines "r \<equiv> fold (\<lambda>(k, v). tb_Add S k v) kvs r0"
  assumes ok: "tb_ok r" and len: "length (contents (tb_file r)) < 2 ^ 63"
  shows "\<exists>bs ss cur. tb_rep S ok contents r bs ss cur \<and> all_entries bs @ cur = kvs"
proof -
  note kept = Adds_kept[OF W, of S]
  show "\<exists>bs ss cur. tb_rep S ok contents r bs ss cur \<and> all_entries bs @ cur = kvs"
    using asc ok len unfolding r_def
  proof (induction kvs rule: rev_induct)
    case Nil
    then show ?case using rep by (intro exI[of _ "[]"] exI) auto
  next
    case (snoc kv kvs)
    obtain k v where kv: "kv = (k, v)" by fastforce
    let ?r = "fold (\<lambda>(k, v). tb_Add S k v) kvs r0"
    have g: "grows contents ?r (tb_Add S k v ?r)" using Add_grows[of ?r] kept[of kvs] W by simp
    have ok: "tb_ok (tb_Add S k v ?r)" "length (contents (tb_file (tb_Add S k v ?r))) < 2 ^ 63" using snoc.prems kv by simp_all
    then have "tb_ok ?r" "length (contents (tb_file ?r)) < 2 ^ 63" using g by (auto simp: grows_def)
    then obtain bs ss cur where rep: "tb_rep S ok contents ?r bs ss cur" "all_entries bs @ cur = kvs"
      using snoc.IH snoc.prems(1) by (auto simp: ascending_append)
    have "ascending (Compare (opt_comparator (tb_options ?r))) ok (all_entries bs @ cur @ [(k, v)])"
      using snoc.prems(1) rep(2) kv kept[of kvs] by (metis append_assoc)
    then show ?case using Add_rep[OF _ S _ _ rep(1) _ ok] kept[of kvs] W R C rep(2) kv by (simp del: append_assoc) (metis append_assoc)
  qed
qed

section \<open>Finishing the file\<close>

definition filter_contents :: "FilterPolicy \<Rightarrow> stored_block list \<Rightarrow> 64 word \<Rightarrow> slice" where
  "filter_contents P bs off = fst (FilterBlock_Finish (fold add_block (filter_blocks bs @ [(off, [])]) (new_FilterBlockBuilder P)))"

definition filter_image :: "Snappy \<Rightarrow> TableOptions \<Rightarrow> slice \<Rightarrow> BlockHandle \<Rightarrow> stored_block list \<Rightarrow> bool" where
  "filter_image S opt img mh bs \<longleftrightarrow>
     (case opt_filter_policy opt of
        None \<Rightarrow> stored_at S img mh (build_block (opt_block_restart_interval opt) [])
      | Some (name, P) \<Rightarrow> \<exists>fh off.
          stored_at S img mh (build_block (opt_block_restart_interval opt) [(text_bytes ''filter.'' @ name, BlockHandle_EncodeTo fh [])]) \<and>
          stored_at S img fh (filter_contents P bs off) \<and> length (filter_contents P bs off) \<le> length img \<and>
          (\<forall>b \<in> set bs. bh_offset (fst b) \<le> off))"

definition table_image ::
  "Snappy \<Rightarrow> (slice \<Rightarrow> bool) \<Rightarrow> TableOptions \<Rightarrow> slice \<Rightarrow> stored_block list \<Rightarrow> slice list \<Rightarrow> bool" where
  "table_image S ok opt img bs ss \<longleftrightarrow>
     (\<exists>mh ih body. img = body @ Footer_EncodeTo \<lparr>ft_metaindex_handle = mh, ft_index_handle = ih\<rparr> [] \<and>
        stored_at S img ih (build_block 1 (index_entries ss bs)) \<and> length ss = length bs \<and>
        seps_ok (opt_comparator opt) ok ss bs [] \<and> seps_from (opt_comparator opt) ss bs [] \<and> blocks_in S (opt_block_restart_interval opt) img bs \<and>
        ascending (Compare (opt_comparator opt)) ok (all_entries bs) \<and> filter_image S opt img mh bs)"

lemma write_filter_grows:
  assumes W: "appends_to (tb_ops r) contents" and "write_filter_block r = (h, r')"
  shows "grows contents r r'" "opt_filter_policy (tb_options r) = opt_filter_policy (tb_options r')"
proof -
  have g: "grows contents r r' \<and> tb_options r' = tb_options r"
  proof (cases "tb_filter_block r")
    case None
    then show ?thesis using assms(2) by (simp add: write_filter_block_def)
  next
    case (Some b)
    show ?thesis
    proof (cases "tb_ok r")
      case True
      obtain c b' where f: "FilterBlock_Finish b = (c, b')" by fastforce
      let ?r = "r\<lparr>tb_filter_block := Some b'\<rparr>"
      have w: "WriteRawBlock c kNoCompression ?r = (h, r')" using assms(2) Some True f by (simp add: write_filter_block_def)
      have "grows contents ?r r'" by (rule WriteRawBlock_grows[OF _ w]) (use W True in \<open>simp_all add: tb_ok_def\<close>)
      then show ?thesis by (simp add: grows_def tb_ok_def)
    next
      case False
      then show ?thesis using assms(2) Some by (simp add: write_filter_block_def)
    qed
  qed
  then show "grows contents r r'" "opt_filter_policy (tb_options r) = opt_filter_policy (tb_options r')" by simp_all
qed

lemma write_metaindex_grows:
  assumes W: "appends_to (tb_ops r) contents" and "write_metaindex_block S fh r = (h, r')"
  shows "grows contents r r'"
  using assms WriteBlock_grows[OF W] by (auto simp: write_metaindex_block_def Let_def split: if_splits prod.splits)

lemma write_index_grows:
  assumes W: "appends_to (tb_ops r) contents" and "write_index_block S r = (h, r')"
  shows "grows contents r r'"
proof (cases "tb_ok r")
  case True
  let ?r = "if tb_pending_index_entry r
      then add_index_entry (FindShortSuccessor (opt_comparator (tb_options r)) (tb_last_key r)) r else r"
  obtain b r1 where w: "WriteBlock S (tb_index_block ?r) ?r = (b, h, r1)" and r': "r' = r1\<lparr>tb_index_block := b\<rparr>"
    using assms(2) True by (auto simp: write_index_block_def Let_def split: prod.splits)
  have "grows contents ?r r1" by (rule WriteBlock_grows[OF _ w]) (use W True in \<open>simp_all add: add_index_entry_def tb_ok_def\<close>)
  then show ?thesis by (simp add: grows_def r' tb_ok_def add_index_entry_def split: if_splits)
next
  case False
  then show ?thesis using assms(2) by (simp add: write_index_block_def)
qed

lemma write_footer_image:
  assumes W: "appends_to (tb_ops r) contents" and ok: "tb_ok (write_footer mh ih r)"
  shows "tb_ok r" "contents (tb_file (write_footer mh ih r)) =
    contents (tb_file r) @ Footer_EncodeTo \<lparr>ft_metaindex_handle = mh, ft_index_handle = ih\<rparr> []"
proof -
  show okr: "tb_ok r" using ok by (auto simp: write_footer_def split: if_splits)
  let ?e = "Footer_EncodeTo \<lparr>ft_metaindex_handle = mh, ft_index_handle = ih\<rparr> []"
  obtain s f where a: "wf_Append (tb_ops r) ?e (tb_file r) = (s, f)" by fastforce
  have "Status_ok s" using ok okr by (auto simp: write_footer_def Let_def a tb_ok_def split: if_splits)
  moreover have "tb_file (write_footer mh ih r) = f" using okr by (simp add: write_footer_def Let_def a)
  moreover have "contents f = contents (tb_file r) @ ?e"
    using W a \<open>Status_ok s\<close> unfolding appends_to_def by (metis fst_conv snd_conv)
  ultimately show "contents (tb_file (write_footer mh ih r)) = contents (tb_file r) @ ?e" by simp
qed

lemma write_index_stores:
  assumes W: "appends_to (tb_ops r) contents" and S: "snappy_ok S" and C: "comparator_contract (opt_comparator (tb_options r)) ok"
    and off: "off_ok contents r" and idx: "bb_rep (tb_index_block r) 1 (index_entries ss bs)"
    and pend: "tb_pending_index_entry r \<longleftrightarrow> bs \<noteq> []"
      "tb_pending_index_entry r \<Longrightarrow> length bs = Suc (length ss) \<and> tb_pending_handle r = fst (last bs)" "bs = [] \<Longrightarrow> ss = []"
    and asc: "ascending (Compare (opt_comparator (tb_options r))) ok (all_entries bs)" and full: "\<forall>b \<in> set bs. snd b \<noteq> []"
    and last: "bs \<noteq> [] \<Longrightarrow> tb_last_key r = fst (last (all_entries bs))"
    and seps: "seps_ok (opt_comparator (tb_options r)) ok ss bs []" "seps_from (opt_comparator (tb_options r)) ss bs []"
    and step: "write_index_block S r = (h, r')" and ok: "tb_ok r'" and len: "length (contents (tb_file r')) < 2 ^ 63"
  shows "\<exists>ss'. length ss' = length bs \<and> seps_ok (opt_comparator (tb_options r)) ok ss' bs [] \<and>
    seps_from (opt_comparator (tb_options r)) ss' bs [] \<and>
    stored_at S (contents (tb_file r')) h (build_block 1 (index_entries ss' bs))"
proof -
  let ?C = "opt_comparator (tb_options r)"
  let ?s = "FindShortSuccessor ?C (tb_last_key r)"
  let ?r = "if tb_pending_index_entry r then add_index_entry ?s r else r"
  let ?ss = "if tb_pending_index_entry r then ss @ [?s] else ss"
  note order = comparator_contract.axioms(1)[OF C]
  have okr: "tb_ok r" using write_index_grows[OF W step] ok by (simp add: grows_def)
  then obtain b r1 where w: "WriteBlock S (tb_index_block ?r) ?r = (b, h, r1)" and r': "r' = r1\<lparr>tb_index_block := b\<rparr>"
    using step by (auto simp: write_index_block_def Let_def split: prod.splits)
  have idx': "bb_rep (tb_index_block ?r) 1 (index_entries ?ss bs)"
  proof (cases "tb_pending_index_entry r")
    case True
    then have p: "length bs = Suc (length ss)" "tb_pending_handle r = fst (last bs)" using pend(2) by simp_all
    obtain bs' b where bs: "bs = bs' @ [b]" "length bs' = length ss" using p(1) by (cases bs rule: rev_cases) auto
    have "index_entries (ss @ [?s]) bs = index_entries ss bs @ [(?s, BlockHandle_EncodeTo (tb_pending_handle r) [])]"
      using True bs p(2) by (simp add: index_entries_def zip_append1 zip_append2)
    then show ?thesis using bb_rep_Add[OF idx] True by (simp add: add_index_entry_def)
  qed (use idx in simp)
  have seps': "seps_ok ?C ok ?ss bs []"
  proof (cases "tb_pending_index_entry r")
    case True
    then have p: "length bs = Suc (length ss)" "bs \<noteq> []" using pend by simp_all
    let ?E = "all_entries bs"
    have E: "?E \<noteq> []" using p(2) full by (cases bs) auto
    have okl: "ok (tb_last_key r)" using last[OF p(2)] asc last_in_set[OF E] by (simp add: ascending_def)
    note s = comparator_contract.successor[OF C okl]
    have split: "ascending (Compare ?C) ok (butlast ?E @ [List.last ?E])" using asc E by simp
    have "Compare ?C (fst kv) ?s \<le> 0" if "kv \<in> set (snd (List.last bs))" for kv
    proof -
      have kv: "kv \<in> set ?E" using set_all_entries[of kv bs] last_in_set[of bs] that p(2) by auto
      have okv: "ok (fst kv)" using asc kv by (auto simp: ascending_def)
      have "kv = List.last ?E \<or> kv \<in> set (butlast ?E)"
        using kv E by (metis append_butlast_last_id in_set_conv_decomp rotate1.simps(2) set_ConsD set_rotate1)
      then have "Compare ?C (fst kv) (tb_last_key r) \<le> 0"
        using ascending_snoc(1)[OF split, of kv] last[OF p(2)] compare_order.refl[OF order okv] by fastforce
      then show ?thesis using s compare_order.trans[OF order okv okl] by blast
    qed
    then show ?thesis using seps_ok_snoc_sep[OF seps(1) p(1)] s True by simp
  qed (use seps in simp)
  have seps_fr: "seps_from ?C ?ss bs []"
  proof (cases "tb_pending_index_entry r")
    case True
    then have p: "length bs = Suc (length ss)" "bs \<noteq> []" using pend by simp_all
    have "bs ! length ss = List.last bs" using p by (simp add: last_conv_nth)
    then have "tb_last_key r = fst (List.last (snd (bs ! length ss)))"
      using last[OF p(2)] last_all_entries[OF p(2)] full by simp
    then show ?thesis using seps(2) True p(1) by (auto simp: seps_from_def Let_def nth_append less_Suc_eq)
  qed (use seps in simp)
  have okr1: "tb_ok r1" "length (contents (tb_file r1)) < 2 ^ 63" using ok len r' by (simp_all add: tb_ok_def)
  have W': "appends_to (tb_ops ?r) contents" "off_ok contents ?r" using W off by (simp_all add: add_index_entry_def off_ok_def)
  have "stored_at S (contents (tb_file r1)) h (build_block 1 (index_entries ?ss bs))"
    by (rule WriteBlock_stores(3)[OF W'(1) S W'(2) idx' _ w okr1]) simp
  moreover have "length ?ss = length bs" using pend by auto
  ultimately show ?thesis using seps' seps_fr r' by (intro exI[of _ ?ss]) simp
qed

text \<open>Two states that differ in the file, its length, the status and the filter only.\<close>

definition same_rest :: "'f TableBuilder \<Rightarrow> 'f TableBuilder \<Rightarrow> bool" where
  "same_rest r r' \<longleftrightarrow> tb_ops r' = tb_ops r \<and> tb_options r' = tb_options r \<and> tb_index_block r' = tb_index_block r \<and>
     tb_pending_index_entry r' = tb_pending_index_entry r \<and> tb_pending_handle r' = tb_pending_handle r \<and>
     tb_last_key r' = tb_last_key r \<and> (tb_filter_block r' = None \<longleftrightarrow> tb_filter_block r = None)"

lemma write_filter_stores:
  assumes W: "appends_to (tb_ops r) contents" and off: "off_ok contents r" and step: "write_filter_block r = (h, r')"
    and ok: "tb_ok r'" and len: "length (contents (tb_file r')) < 2 ^ 63"
  shows "off_ok contents r'" "same_rest r r'"
    "tb_filter_block r = Some b \<Longrightarrow> stored_at S (contents (tb_file r')) h (fst (FilterBlock_Finish b)) \<and>
       length (fst (FilterBlock_Finish b)) \<le> length (contents (tb_file r'))"
proof -
  have okr: "tb_ok r" using write_filter_grows[OF W step] ok by (simp add: grows_def)
  have "off_ok contents r' \<and> same_rest r r' \<and> (\<forall>b. tb_filter_block r = Some b \<longrightarrow>
      stored_at S (contents (tb_file r')) h (fst (FilterBlock_Finish b)) \<and>
      length (fst (FilterBlock_Finish b)) \<le> length (contents (tb_file r')))"
  proof (cases "tb_filter_block r")
    case None
    then show ?thesis using step off by (simp add: write_filter_block_def same_rest_def)
  next
    case (Some b)
    obtain c b' where f: "FilterBlock_Finish b = (c, b')" by fastforce
    let ?r = "r\<lparr>tb_filter_block := Some b'\<rparr>"
    have w: "WriteRawBlock c kNoCompression ?r = (h, r')" using step Some okr f by (simp add: write_filter_block_def)
    have pre: "appends_to (tb_ops ?r) contents" "off_ok contents ?r" using W off by (simp_all add: off_ok_def)
    have e: "expands S kNoCompression c c" by (simp add: expands_def)
    note st = write_stores[OF pre w ok len e]
    have "same_rest r r'" by (subst st(5)) (simp add: same_rest_def Some)
    then show ?thesis using st(1,2,4) Some f by simp
  qed
  then show "off_ok contents r'" "same_rest r r'"
    "tb_filter_block r = Some b \<Longrightarrow> stored_at S (contents (tb_file r')) h (fst (FilterBlock_Finish b)) \<and>
       length (fst (FilterBlock_Finish b)) \<le> length (contents (tb_file r'))" by blast+
qed

definition meta_entries :: "TableOptions \<Rightarrow> BlockHandle \<Rightarrow> entries" where
  "meta_entries opt fh =
     (case opt_filter_policy opt of None \<Rightarrow> []
      | Some (name, P) \<Rightarrow> [(text_bytes ''filter.'' @ name, BlockHandle_EncodeTo fh [])])"

lemma write_metaindex_stores:
  assumes W: "appends_to (tb_ops r) contents" and S: "snappy_ok S" and R: "0 < opt_block_restart_interval (tb_options r)"
    and off: "off_ok contents r" and filt: "tb_filter_block r = None \<longleftrightarrow> opt_filter_policy (tb_options r) = None"
    and step: "write_metaindex_block S fh r = (h, r')" and ok: "tb_ok r'" and len: "length (contents (tb_file r')) < 2 ^ 63"
  shows "off_ok contents r'" "same_rest r r'"
    "stored_at S (contents (tb_file r')) h (build_block (opt_block_restart_interval (tb_options r)) (meta_entries (tb_options r) fh))"
proof -
  let ?R = "opt_block_restart_interval (tb_options r)"
  have okr: "tb_ok r" using write_metaindex_grows[OF W step] ok by (simp add: grows_def)
  define b where "b = (case (tb_filter_block r, opt_filter_policy (tb_options r)) of
      (Some _, Some (name, _)) \<Rightarrow> BlockBuilder_Add (text_bytes ''filter.'' @ name) (BlockHandle_EncodeTo fh []) (new_BlockBuilder ?R)
    | _ \<Rightarrow> new_BlockBuilder ?R)"
  obtain b' where w: "WriteBlock S b r = (b', h, r')"
    using step okr unfolding write_metaindex_block_def Let_def b_def[symmetric] by (auto split: prod.splits)
  have rep: "bb_rep b ?R (meta_entries (tb_options r) fh)"
    using bb_rep_new[of ?R] bb_rep_Add[OF bb_rep_new[of ?R] R] filt
    by (auto simp: b_def meta_entries_def split: option.splits prod.splits)
  note st = WriteBlock_stores[OF W S off rep R w ok len]
  show "off_ok contents r'" "stored_at S (contents (tb_file r')) h (build_block ?R (meta_entries (tb_options r) fh))" using st by blast+
  show "same_rest r r'" by (subst st(6)) (simp add: same_rest_def)
qed

lemma blocks_in_append: "blocks_in S R img bs \<Longrightarrow> blocks_in S R (img @ x) bs"
  by (auto simp: blocks_in_def stored_at_append trans_less_add1)

lemma Finish_grows:
  assumes W: "appends_to (tb_ops r) contents" and fin: "tb_Finish S r = (s, r')" and ok: "Status_ok s"
  shows "tb_ok r \<and> length (contents (tb_file r)) \<le> length (contents (tb_file r'))"
proof -
  define r1 where "r1 = (tb_Flush S r)\<lparr>tb_closed := True\<rparr>"
  obtain fh r2 where s2: "write_filter_block r1 = (fh, r2)" by fastforce
  obtain mh r3 where s3: "write_metaindex_block S fh r2 = (mh, r3)" by fastforce
  obtain ih r4 where s4: "write_index_block S r3 = (ih, r4)" by fastforce
  have r': "r' = write_footer mh ih r4" "tb_ok r'"
    using fin ok by (simp_all add: tb_Finish_def Let_def r1_def[symmetric] s2 s3 s4 tb_ok_def) auto
  have g1: "grows contents r r1" using Flush_grows[OF W, of S] by (simp add: r1_def grows_def tb_ok_def)
  have g2: "grows contents r1 r2" using write_filter_grows(1)[OF _ s2] W g1 by (simp add: grows_def)
  have g3: "grows contents r2 r3" using write_metaindex_grows[OF _ s3] W g1 g2 by (simp add: grows_def)
  have g4: "grows contents r3 r4" using write_index_grows[OF _ s4] W g1 g2 g3 by (simp add: grows_def)
  have "grows contents r r4" using g1 g2 g3 g4 grows_trans by blast
  then show ?thesis using write_footer_image[of r4 contents mh ih] r' W by (auto simp: grows_def)
qed

lemma Finish_flushed:
  assumes W: "appends_to (tb_ops r) contents" and S: "snappy_ok S" and R: "0 < opt_block_restart_interval (tb_options r)"
    and rep: "tb_rep S ok contents r bs ss cur" and ok: "tb_ok (tb_Flush S r)"
    and len: "length (contents (tb_file (tb_Flush S r))) < 2 ^ 63"
  shows "\<exists>bs'. tb_rep S ok contents (tb_Flush S r) bs' ss [] \<and> all_entries bs' = all_entries bs @ cur"
proof (cases "cur = []")
  case True
  then have "tb_Flush S r = r"
    using rep by (simp add: tb_rep_def Let_def tb_Flush_def BlockBuilder_empty_def bb_rep_def body_empty_iff)
  then show ?thesis using rep True by auto
next
  case False
  then show ?thesis using Flush_rep[OF W S R rep False ok len] by fastforce
qed

lemma Finish_image:
  assumes W: "appends_to (tb_ops r) contents" and S: "snappy_ok S" and R: "0 < opt_block_restart_interval (tb_options r)"
    and C: "comparator_contract (opt_comparator (tb_options r)) ok" and rep: "tb_rep S ok contents r bs ss cur"
    and fin: "tb_Finish S r = (s, r')" and ok: "Status_ok s" and len: "length (contents (tb_file r')) < 2 ^ 63"
  shows "\<exists>bs' ss'. table_image S ok (tb_options r) (contents (tb_file r')) bs' ss' \<and> all_entries bs' = all_entries bs @ cur"
proof -
  let ?opt = "tb_options r"
  define r1 where "r1 = (tb_Flush S r)\<lparr>tb_closed := True\<rparr>"
  obtain fh r2 where s2: "write_filter_block r1 = (fh, r2)" by fastforce
  obtain mh r3 where s3: "write_metaindex_block S fh r2 = (mh, r3)" by fastforce
  obtain ih r4 where s4: "write_index_block S r3 = (ih, r4)" by fastforce
  have r': "r' = write_footer mh ih r4" "tb_ok r'"
    using fin ok by (simp_all add: tb_Finish_def Let_def r1_def[symmetric] s2 s3 s4 tb_ok_def) auto
  have k1: "tb_ops r1 = tb_ops r" "tb_options r1 = ?opt" using Flush_grows[OF W, of S] by (simp_all add: r1_def grows_def)
  have W1: "appends_to (tb_ops r1) contents" using W k1 by simp
  note g2 = write_filter_grows(1)[OF W1 s2]
  have W2: "appends_to (tb_ops r2) contents" using W1 g2 by (simp add: grows_def)
  note g3 = write_metaindex_grows[OF W2 s3]
  have W3: "appends_to (tb_ops r3) contents" using W2 g3 by (simp add: grows_def)
  note g4 = write_index_grows[OF W3 s4]
  have W4: "appends_to (tb_ops r4) contents" using W3 g4 by (simp add: grows_def)
  note foot = write_footer_image[OF W4 r'(2)[unfolded r'(1)], folded r'(1)]
  obtain x4 where x4: "tb_ok r3" "contents (tb_file r4) = contents (tb_file r3) @ x4" using g4 foot(1) by (auto simp: grows_def)
  obtain x3 where x3: "tb_ok r2" "contents (tb_file r3) = contents (tb_file r2) @ x3" using g3 x4(1) by (auto simp: grows_def)
  obtain x2 where x2: "tb_ok r1" "contents (tb_file r2) = contents (tb_file r1) @ x2" using g2 x3(1) by (auto simp: grows_def)
  have l: "length (contents (tb_file r4)) < 2 ^ 63" "length (contents (tb_file r3)) < 2 ^ 63"
    "length (contents (tb_file r2)) < 2 ^ 63" "length (contents (tb_file r1)) < 2 ^ 63"
    using len foot(2) x4 x3 x2 by simp_all
  obtain bs' where rep1: "tb_rep S ok contents (tb_Flush S r) bs' ss []" and all: "all_entries bs' = all_entries bs @ cur"
    using Finish_flushed[OF W S R rep] x2(1) l(4) by (auto simp: r1_def tb_ok_def)
  have opt: "tb_options (tb_Flush S r) = ?opt" using Flush_grows[OF W, of S] by (simp add: grows_def)
  have f1: "off_ok contents r1" "tb_filter_block r1 = filter_rep ?opt (tb_offset r1) bs' []"
    using rep1 opt by (simp_all add: tb_rep_def Let_def r1_def off_ok_def)
  note st2 = write_filter_stores[OF W1 f1(1) s2 x3(1) l(3)]
  have opt2: "tb_options r2 = ?opt" using st2(2) k1 by (simp add: same_rest_def)
  have filt2: "tb_filter_block r2 = None \<longleftrightarrow> opt_filter_policy (tb_options r2) = None"
    using st2(2) f1(2) k1 by (auto simp: same_rest_def filter_rep_def)
  have R2: "0 < opt_block_restart_interval (tb_options r2)" using R opt2 by simp
  note st3 = write_metaindex_stores[OF W2 S R2 st2(1) filt2 s3 x4(1) l(2)]
  have same: "tb_options r3 = ?opt" "tb_index_block r3 = tb_index_block (tb_Flush S r)"
    "tb_pending_index_entry r3 = tb_pending_index_entry (tb_Flush S r)" "tb_pending_handle r3 = tb_pending_handle (tb_Flush S r)"
    "tb_last_key r3 = tb_last_key (tb_Flush S r)"
    using st2(2) st3(2) opt by (simp_all add: same_rest_def r1_def)
  have "\<exists>ss'. length ss' = length bs' \<and> seps_ok (opt_comparator (tb_options r3)) ok ss' bs' [] \<and>
      seps_from (opt_comparator (tb_options r3)) ss' bs' [] \<and>
      stored_at S (contents (tb_file r4)) ih (build_block 1 (index_entries ss' bs'))"
  proof (rule write_index_stores[OF W3 S _ st3(1) _ _ _ _ _ _ _ _ _ s4 foot(1) l(1)])
    show "bs' = [] \<Longrightarrow> ss = []" using rep1 by (auto simp: tb_rep_def Let_def split: if_splits)
    show "\<forall>b \<in> set bs'. snd b \<noteq> []" using rep1 by (simp add: tb_rep_def Let_def blocks_in_def)
    show "bs' \<noteq> [] \<Longrightarrow> tb_last_key r3 = fst (last (all_entries bs'))"
      using rep1 same(5) by (cases bs') (auto simp: tb_rep_def Let_def blocks_in_def)
  qed (use C rep1 opt same in \<open>simp_all add: tb_rep_def Let_def\<close>)
  then obtain ss' where ss': "length ss' = length bs'" "seps_ok (opt_comparator ?opt) ok ss' bs' []" "seps_from (opt_comparator ?opt) ss' bs' []"
    "stored_at S (contents (tb_file r4)) ih (build_block 1 (index_entries ss' bs'))" using same(1) by auto
  let ?img = "contents (tb_file r')"
  have blocks: "blocks_in S (opt_block_restart_interval ?opt) (contents (tb_file r1)) bs'"
    "ascending (Compare (opt_comparator ?opt)) ok (all_entries bs')"
    using rep1 opt by (simp_all add: tb_rep_def Let_def r1_def)
  have img: "?img = contents (tb_file r1) @ x2 @ x3 @ x4 @ Footer_EncodeTo \<lparr>ft_metaindex_handle = mh, ft_index_handle = ih\<rparr> []"
    using foot(2) x4 x3 x2 by simp
  have meta: "stored_at S ?img mh (build_block (opt_block_restart_interval ?opt) (meta_entries ?opt fh))"
    using stored_at_append[OF st3(3)] foot(2) x4(2) opt2 by simp
  have "filter_image S ?opt ?img mh bs'"
  proof (cases "opt_filter_policy ?opt")
    case None
    then show ?thesis using meta by (simp add: filter_image_def meta_entries_def)
  next
    case (Some p)
    obtain name P where p: "p = (name, P)" by fastforce
    have "tb_filter_block r1 = Some (fold add_block (filter_blocks bs' @ [(tb_offset r1, [])]) (new_FilterBlockBuilder P))"
      using f1(2) Some p by (simp add: filter_rep_def add_block_def)
    then have fs: "stored_at S (contents (tb_file r2)) fh (filter_contents P bs' (tb_offset r1)) \<and>
        length (filter_contents P bs' (tb_offset r1)) \<le> length (contents (tb_file r2))"
      using st2(3) by (simp add: filter_contents_def)
    have "?img = contents (tb_file r2) @ x3 @ x4 @ Footer_EncodeTo \<lparr>ft_metaindex_handle = mh, ft_index_handle = ih\<rparr> []"
      using foot(2) x4(2) x3(2) by simp
    then have "stored_at S ?img fh (filter_contents P bs' (tb_offset r1)) \<and>
        length (filter_contents P bs' (tb_offset r1)) \<le> length ?img"
      using fs stored_at_append by simp
    moreover have "bh_offset (fst b) \<le> tb_offset r1" if "b \<in> set bs'" for b
      using blocks(1) that f1(1) by (auto simp: blocks_in_def off_ok_def word_le_nat_alt)
    ultimately show ?thesis using meta Some p
      unfolding filter_image_def meta_entries_def Some p option.case prod.case by blast
  qed
  note filt = this
  have "table_image S ok ?opt ?img bs' ss'"
    unfolding table_image_def
  proof (rule exI[of _ mh], rule exI[of _ ih], rule exI[of _ "contents (tb_file r4)"], intro conjI)
    show "stored_at S ?img ih (build_block 1 (index_entries ss' bs'))" using stored_at_append[OF ss'(4)] foot(2) by simp
    show "blocks_in S (opt_block_restart_interval ?opt) ?img bs'" using blocks_in_append[OF blocks(1)] by (simp add: img)
  qed (use foot(2) ss' blocks(2) filt in simp_all)
  then show ?thesis using all by blast
qed

end
