(* ===== verification/Ldb_Table.thy ===== *)
theory Ldb_Table
  imports Ldb_Table_Image
begin

text \<open>
  Tables that are read: \<^verbatim>\<open>table/table.cc\<close>.

  A table is opened from its footer; the iterators over it are two-level iterators whose block function is
  \<^verbatim>\<open>BlockReader\<close>. This is the code path without a block cache; \<open>table_roundtrip\<close> and \<open>table_get\<close> show that
  what the builder wrote is found again. The result is \<open>None\<close> where the code reads outside a buffer.
\<close>

record Table =
  tbl_options :: TableOptions
  tbl_file :: RandomAccessFile
  tbl_filter :: "FilterBlockReader option"
  tbl_metaindex_handle :: BlockHandle
  tbl_index_block :: Block

definition ReadFilter :: "Snappy \<Rightarrow> slice \<Rightarrow> Table \<Rightarrow> Table option" where
  "ReadFilter snappy filter_handle_value T =
     (let (s, v, filter_handle) = BlockHandle_DecodeFrom filter_handle_value new_BlockHandle in
      if \<not> Status_ok s then Some T
      else case ReadBlock snappy (tbl_file T) (opt_paranoid_checks (tbl_options T)) filter_handle of
             None \<Rightarrow> None
           | Some (s, block) \<Rightarrow>
               if \<not> Status_ok s then Some T
               else (case opt_filter_policy (tbl_options T) of
                       None \<Rightarrow> Some T
                     | Some (name, policy) \<Rightarrow> Some (T\<lparr>tbl_filter := Some (new_FilterBlockReader policy (bc_data block))\<rparr>)))"

definition ReadMeta :: "Snappy \<Rightarrow> Footer \<Rightarrow> Table \<Rightarrow> Table option" where
  "ReadMeta snappy footer T =
     (case opt_filter_policy (tbl_options T) of
        None \<Rightarrow> Some T
      | Some (name, policy) \<Rightarrow>
          (case ReadBlock snappy (tbl_file T) (opt_paranoid_checks (tbl_options T)) (ft_metaindex_handle footer) of
             None \<Rightarrow> None
           | Some (s, contents) \<Rightarrow>
               if \<not> Status_ok s then Some T
               else let key = text_bytes ''filter.'' @ name in
                 (case it_Seek opened_iterators key (Block_NewIterator BytewiseComparator (new_Block (bc_data contents))) of
                    None \<Rightarrow> None
                  | Some iter \<Rightarrow>
                      if it_Valid opened_iterators iter \<and> slice_equal (it_key opened_iterators iter) key
                      then ReadFilter snappy (it_value opened_iterators iter) T else Some T)))"

definition Table_Open ::
  "Snappy \<Rightarrow> TableOptions \<Rightarrow> RandomAccessFile \<Rightarrow> 64 word \<Rightarrow> (Status \<times> Table option) option" where
  "Table_Open snappy options file sz =
     (if unat sz < kEncodedLength
      then Some (Corruption (text_bytes ''file is too short to be an sstable'') [], None)
      else let (s, footer_input, in_buf) = raf_Read file (sz - of_nat kEncodedLength) (of_nat kEncodedLength) in
        if \<not> Status_ok s then Some (s, None)
        else if length footer_input < kEncodedLength then None
        else let (s, rest, footer) = Footer_DecodeFrom footer_input new_Footer in
          if \<not> Status_ok s then Some (s, None)
          else (case ReadBlock snappy file (opt_paranoid_checks options) (ft_index_handle footer) of
                  None \<Rightarrow> None
                | Some (s, index_block_contents) \<Rightarrow>
                    if \<not> Status_ok s then Some (s, None)
                    else map_option (\<lambda>T. (s, Some T))
                           (ReadMeta snappy footer
                             \<lparr>tbl_options = options, tbl_file = file, tbl_filter = None,
                              tbl_metaindex_handle = ft_metaindex_handle footer,
                              tbl_index_block = new_Block (bc_data index_block_contents)\<rparr>)))"

definition BlockReader :: "Snappy \<Rightarrow> Table \<Rightarrow> bool \<Rightarrow> slice \<Rightarrow> NewIter option" where
  "BlockReader snappy T verify_checksums index_value =
     (let (s, input, handle) = BlockHandle_DecodeFrom index_value new_BlockHandle in
      if \<not> Status_ok s then Some (ErrorIterator s)
      else case ReadBlock snappy (tbl_file T) verify_checksums handle of
             None \<Rightarrow> None
           | Some (s, contents) \<Rightarrow>
               if Status_ok s then Some (Block_NewIterator (opt_comparator (tbl_options T)) (new_Block (bc_data contents)))
               else Some (ErrorIterator s))"

definition index_iterator :: "Table \<Rightarrow> NewIter" where
  "index_iterator T = Block_NewIterator (opt_comparator (tbl_options T)) (tbl_index_block T)"

definition Table_NewIterator :: "Table \<Rightarrow> (NewIter, NewIter) TwoLevelIterator" where
  "Table_NewIterator T = NewTwoLevelIterator opened_iterators (index_iterator T)"

definition table_iterators :: "Snappy \<Rightarrow> Table \<Rightarrow> bool \<Rightarrow> (NewIter, NewIter) TwoLevelIterator Iterator" where
  "table_iterators snappy T verify_checksums = two_level opened_iterators opened_iterators (BlockReader snappy T verify_checksums)"

text \<open>The second result is what \<^verbatim>\<open>handle_result\<close> is called with, if it is called.\<close>

definition InternalGet :: "Snappy \<Rightarrow> Table \<Rightarrow> bool \<Rightarrow> slice \<Rightarrow> (Status \<times> (slice \<times> slice) option) option" where
  "InternalGet snappy T verify_checksums k =
     (case it_Seek opened_iterators k (index_iterator T) of
        None \<Rightarrow> None
      | Some iiter \<Rightarrow>
          if \<not> it_Valid opened_iterators iiter then Some (it_status opened_iterators iiter, None)
          else let (s, rest, handle) = BlockHandle_DecodeFrom (it_value opened_iterators iiter) new_BlockHandle in
            if (case tbl_filter T of None \<Rightarrow> False
                | Some f \<Rightarrow> Status_ok s \<and> \<not> FilterBlock_KeyMayMatch f (bh_offset handle) k)
            then Some (it_status opened_iterators iiter, None)
            else (case BlockReader snappy T verify_checksums (it_value opened_iterators iiter) of
                    None \<Rightarrow> None
                  | Some block_iter \<Rightarrow>
                      (case it_Seek opened_iterators k block_iter of
                         None \<Rightarrow> None
                       | Some block_iter \<Rightarrow>
                           let found = (if it_Valid opened_iterators block_iter
                                        then Some (it_key opened_iterators block_iter, it_value opened_iterators block_iter) else None);
                               s = it_status opened_iterators block_iter
                           in Some (if Status_ok s then it_status opened_iterators iiter else s, found))))"

definition ApproximateOffsetOf :: "Table \<Rightarrow> slice \<Rightarrow> 64 word option" where
  "ApproximateOffsetOf T key =
     (case it_Seek opened_iterators key (index_iterator T) of
        None \<Rightarrow> None
      | Some index_iter \<Rightarrow>
          if it_Valid opened_iterators index_iter
          then let (s, input, handle) = BlockHandle_DecodeFrom (it_value opened_iterators index_iter) new_BlockHandle
               in Some (if Status_ok s then bh_offset handle else bh_offset (tbl_metaindex_handle T))
          else Some (bh_offset (tbl_metaindex_handle T)))"

section \<open>The sizes\<close>

text \<open>A bound for the size of every block of a table, before compression.\<close>

definition short_separators :: "Comparator \<Rightarrow> bool" where
  "short_separators C \<longleftrightarrow> (\<forall>a b. length (FindShortestSeparator C a b) \<le> length a) \<and> (\<forall>a. length (FindShortSuccessor C a) \<le> length a)"

definition table_bytes :: "entries \<Rightarrow> nat" where
  "table_bytes kvs = (\<Sum>kv \<leftarrow> kvs. 40 + length (fst kv) + length (snd kv)) + 16"

lemma table_bytes_append: "table_bytes (xs @ ys) + 16 = table_bytes xs + table_bytes ys"
  by (simp add: table_bytes_def)

lemma length_block_bytes:
  assumes "0 < R"
  shows "length (build_block R kvs) \<le> table_bytes kvs"
proof -
  have "(\<Sum>kv \<leftarrow> kvs. 15 + length (fst kv) + length (snd kv)) + 4 * length kvs \<le>
      (\<Sum>kv \<leftarrow> kvs. 40 + length (fst kv) + length (snd kv))"
    by (induction kvs) simp_all
  then show ?thesis using length_build_block[OF assms, of kvs] by (simp add: table_bytes_def)
qed

lemma table_bytes_member: "b \<in> set bs \<Longrightarrow> table_bytes (snd b) \<le> table_bytes (all_entries bs)"
  by (induction bs) (auto simp: table_bytes_def)

text \<open>The index is not larger: no separator is longer than the last key of its block.\<close>

lemma seps_short:
  assumes "short_separators C" "seps_from C ss bs []" "i < length ss"
  shows "length (ss ! i) \<le> length (fst (last (snd (bs ! i))))"
  using assms unfolding seps_from_def short_separators_def Let_def by (metis (no_types, lifting))

lemma table_bytes_index:
  assumes "length ss = length bs" "\<And>i. i < length ss \<Longrightarrow> length (ss ! i) \<le> length (fst (last (snd (bs ! i))))"
    and "\<forall>b \<in> set bs. snd b \<noteq> []"
  shows "(\<Sum>kv \<leftarrow> index_entries ss bs. 15 + length (fst kv) + length (snd kv)) + 4 * length (index_entries ss bs) + 16 \<le>
    table_bytes (all_entries bs)"
  using assms
proof (induction ss bs rule: list_induct2)
  case (Cons s ss b bs)
  have "(\<Sum>kv \<leftarrow> index_entries ss bs. 15 + length (fst kv) + length (snd kv)) + 4 * length (index_entries ss bs) + 16 \<le>
      table_bytes (all_entries bs)"
    using Cons.IH Cons.prems(1)[of "Suc _"] Cons.prems(2) by auto
  moreover have "15 + length s + length (BlockHandle_EncodeTo (fst b) []) + 4 \<le> 40 + length (fst (last (snd b)))"
    using Cons.prems(1)[of 0] length_handle[of "fst b"] by simp
  moreover have "40 + length (fst (last (snd b))) + 16 \<le> table_bytes (snd b)"
  proof -
    have "snd b \<noteq> []" using Cons.prems(2) by simp
    then have "snd b = butlast (snd b) @ [last (snd b)]" by simp
    then have "table_bytes (snd b) + 16 = table_bytes (butlast (snd b)) + table_bytes [last (snd b)]"
      by (metis table_bytes_append)
    then show ?thesis by (simp add: table_bytes_def)
  qed
  ultimately show ?case using table_bytes_append[of "snd b" "all_entries bs"] by (simp add: index_entries_def)
qed (simp add: index_entries_def table_bytes_def)

lemma length_index_bytes:
  assumes "length ss = length bs" "short_separators C" "seps_from C ss bs []" "\<forall>b \<in> set bs. snd b \<noteq> []"
  shows "length (build_block 1 (index_entries ss bs)) \<le> table_bytes (all_entries bs)"
  using length_build_block[of 1 "index_entries ss bs"] table_bytes_index[OF assms(1) seps_short[OF assms(2,3)] assms(4)] by simp

section \<open>The index of a table\<close>

definition handle_entries :: "stored_block list \<Rightarrow> slice \<Rightarrow> entries" where
  "handle_entries bs h = the (map_of (map (\<lambda>b. (BlockHandle_EncodeTo (fst b) [], snd b)) bs) h)"

lemma handle_entries_nth:
  assumes "sorted_wrt (\<lambda>b b'. bh_offset (fst b) < bh_offset (fst b')) bs" "i < length bs"
  shows "handle_entries bs (BlockHandle_EncodeTo (fst (bs ! i)) []) = snd (bs ! i)"
proof -
  let ?m = "map (\<lambda>b. (BlockHandle_EncodeTo (fst b) [], snd b)) bs"
  have "BlockHandle_EncodeTo (fst (bs ! j)) [] \<noteq> BlockHandle_EncodeTo (fst (bs ! k)) []" if "j < k" "k < length bs" for j k
  proof
    assume "BlockHandle_EncodeTo (fst (bs ! j)) [] = BlockHandle_EncodeTo (fst (bs ! k)) []"
    then have "fst (bs ! j) = fst (bs ! k)" by (rule BlockHandle_Encode_inj)
    then show False using sorted_wrt_nth_less[OF assms(1) that] by simp
  qed
  then have "distinct (map fst ?m)" by (auto simp: distinct_conv_nth) (metis linorder_neqE_nat)
  then have "map_of ?m (BlockHandle_EncodeTo (fst (bs ! i)) []) = Some (snd (bs ! i))"
    using assms(2) by (intro map_of_is_SomeI) (auto simp: in_set_conv_nth intro!: exI[of _ i])
  then show ?thesis by (simp add: handle_entries_def)
qed

lemma index_nth [simp]:
  "length ss = length bs \<Longrightarrow> i < length bs \<Longrightarrow> index_entries ss bs ! i = (ss ! i, BlockHandle_EncodeTo (fst (bs ! i)) [])"
  "length ss = length bs \<Longrightarrow> length (index_entries ss bs) = length bs"
  by (simp_all add: index_entries_def)

lemma later_block: "i < j \<Longrightarrow> j < length bs \<Longrightarrow> bs ! j \<in> set (drop (Suc i) bs)"
  unfolding in_set_conv_nth by (rule exI[of _ "j - Suc i"]) simp

lemma index_entries_of_handles:
  assumes sorted: "sorted_wrt (\<lambda>b b'. bh_offset (fst b) < bh_offset (fst b')) bs" and len: "length ss = length bs"
  shows "block_entries (handle_entries bs) (index_entries ss bs) = all_entries bs"
    and "take n (index_entries ss bs) = index_entries (take n ss) (take n bs)"
    and "block_off (handle_entries bs) (index_entries ss bs) n = length (all_entries (take n bs))"
proof -
  have e: "map (handle_entries bs \<circ> snd) (index_entries ss bs) = map snd bs"
    using len handle_entries_nth[OF sorted] by (auto simp: list_eq_iff_nth_eq index_entries_def)
  then show "block_entries (handle_entries bs) (index_entries ss bs) = all_entries bs"
    by (simp add: block_entries_def all_entries_def)
  show "take n (index_entries ss bs) = index_entries (take n ss) (take n bs)"
    by (simp add: index_entries_def take_zip take_map)
  have "map (handle_entries bs \<circ> snd) (take n (index_entries ss bs)) = take n (map snd bs)"
    using e by (metis take_map)
  then show "block_off (handle_entries bs) (index_entries ss bs) n = length (all_entries (take n bs))"
    by (simp add: block_off_def block_entries_def all_entries_def take_map)
qed

lemma seps_before:
  assumes "seps_ok C ok ss bs []" "i < length ss" "i < j" "j < length bs" "kv \<in> set (snd (bs ! j))"
  shows "Compare C (ss ! i) (fst kv) < 0"
proof -
  have "kv \<in> set (all_entries (drop (Suc i) bs) @ [])"
    using later_block[OF assms(3,4)] assms(5) by (auto simp: set_all_entries)
  then show ?thesis using assms(1,2) unfolding seps_ok_def by blast
qed

lemma index_ascending:
  assumes C: "comparator_contract C ok" and seps: "seps_ok C ok ss bs []" and len: "length ss = length bs"
    and full: "\<forall>b \<in> set bs. snd b \<noteq> []" and asc: "ascending (Compare C) ok (all_entries bs)"
  shows "ascending (Compare C) ok (index_entries ss bs)"
proof -
  note order = comparator_contract.axioms(1)[OF C]
  have "Compare C (ss ! i) (ss ! j) < 0" if ij: "i < j" "j < length ss" for i j
  proof -
    obtain kv where kv: "kv \<in> set (snd (bs ! j))" using full ij len by (metis last_in_set nth_mem)
    have "Compare C (ss ! i) (fst kv) < 0" using seps_before[OF seps _ ij(1) _ kv] ij len by simp
    moreover have "Compare C (fst kv) (ss ! j) \<le> 0" "ok (ss ! i)" "ok (ss ! j)" using seps ij kv by (auto simp: seps_ok_def)
    moreover have "ok (fst kv)" using asc kv ij len by (auto simp: ascending_def set_all_entries)
    ultimately show ?thesis using compare_order.less_le_trans[OF order] by blast
  qed
  moreover have "ok (ss ! i)" if "i < length ss" for i using seps that by (simp add: seps_ok_def)
  ultimately show ?thesis using order len
    by (auto simp: ascending_def sorted_wrt_iff_nth_less in_set_conv_nth index_entries_def)
qed

lemma index_separates:
  assumes seps: "seps_ok C ok ss bs []" and len: "length ss = length bs"
    and sorted: "sorted_wrt (\<lambda>b b'. bh_offset (fst b) < bh_offset (fst b')) bs"
  shows "index_ok (Compare C) (handle_entries bs) (index_entries ss bs)"
  unfolding index_ok_def
proof (intro conjI ballI)
  fix x kv assume x: "x \<in> set (index_entries ss bs)" and kv: "kv \<in> set (handle_entries bs (snd x))"
  then obtain i where i: "i < length bs" "x = index_entries ss bs ! i" using len by (auto simp: in_set_conv_nth)
  then show "Compare C (fst kv) (fst x) \<le> 0"
    using seps kv len handle_entries_nth[OF sorted i(1)] by (auto simp: seps_ok_def)
next
  show "sorted_wrt (\<lambda>x y. \<forall>kv \<in> set (handle_entries bs (snd y)). Compare C (fst x) (fst kv) < 0) (index_entries ss bs)"
    unfolding sorted_wrt_iff_nth_less
  proof (intro allI impI ballI)
    fix i j kv assume ij: "i < j" "j < length (index_entries ss bs)" and kv: "kv \<in> set (handle_entries bs (snd (index_entries ss bs ! j)))"
    have j: "j < length bs" using ij len by (simp add: index_entries_def)
    have "kv \<in> set (snd (bs ! j))" using kv len j handle_entries_nth[OF sorted j] by simp
    then show "Compare C (fst (index_entries ss bs ! i)) (fst kv) < 0"
      using seps_before[OF seps _ ij(1) j] ij j len by simp
  qed
qed

section \<open>Opening a table\<close>

definition table_open ::
  "Snappy \<Rightarrow> (slice \<Rightarrow> bool) \<Rightarrow> TableOptions \<Rightarrow> slice \<Rightarrow> stored_block list \<Rightarrow> slice list \<Rightarrow> Table \<Rightarrow> bool" where
  "table_open S ok opt img bs ss T \<longleftrightarrow>
     tbl_options T = opt \<and> file_reads (tbl_file T) img \<and>
     opened_at (opt_comparator opt) ok (index_iterator T) (index_entries ss bs) (length (index_entries ss bs)) \<and>
     (case opt_filter_policy opt of
        None \<Rightarrow> tbl_filter T = None
      | Some (name, P) \<Rightarrow> \<exists>off. tbl_filter T = Some (new_FilterBlockReader P (filter_contents P bs off)) \<and>
          length (filter_contents P bs off) < 2 ^ 32 \<and> (\<forall>b \<in> set bs. bh_offset (fst b) \<le> off))"

definition filter_name_ok :: "TableOptions \<Rightarrow> bool" where
  "filter_name_ok opt \<longleftrightarrow> (case opt_filter_policy opt of None \<Rightarrow> True | Some (name, P) \<Rightarrow> length name < 2 ^ 30)"

lemma meta_seek:
  assumes R: "0 < R" and len: "length key + length val < 2 ^ 31"
  shows "\<exists>it. it_Seek opened_iterators key (Block_NewIterator BytewiseComparator (new_Block (build_block R [(key, val)]))) = Some it \<and>
    it_Valid opened_iterators it \<and> it_key opened_iterators it = key \<and> it_value opened_iterators it = val"
proof -
  have asc: "ascending (Compare BytewiseComparator) (\<lambda>_. True) [(key, val)]"
    using bytewise.compare_order_axioms by (simp add: ascending_def)
  have "length (build_block R [(key, val)]) < 2 ^ 32" using length_build_block[OF R, of "[(key, val)]"] len by simp
  note op = opened_block[OF R this asc]
  have "below (Compare BytewiseComparator) key fst [(key, val)] = []"
    using bytewise.refl[of key] by (simp add: below_def)
  then obtain it where it: "it_Seek opened_iterators key (Block_NewIterator BytewiseComparator (new_Block (build_block R [(key, val)]))) = Some it"
    "opened_at BytewiseComparator (\<lambda>_. True) it [(key, val)] 0"
    using opened_iters.Seek[OF op, of key] by auto
  then show ?thesis using opened_iters.Valid[OF it(2)] opened_iters.key[OF it(2)] opened_iters.val[OF it(2)] by simp
qed

lemma ReadFilter_stored:
  assumes F: "file_reads (tbl_file T) img" and len: "length img < 2 ^ 63" and P: "opt_filter_policy (tbl_options T) = Some (name, P)"
    and st: "stored_at S img fh fc"
  shows "ReadFilter S (BlockHandle_EncodeTo fh []) T = Some (T\<lparr>tbl_filter := Some (new_FilterBlockReader P fc)\<rparr>)"
proof -
  obtain b where "ReadBlock S (tbl_file T) (opt_paranoid_checks (tbl_options T)) fh = Some (Status_OK, b)" "bc_data b = fc"
    using ReadBlock_stored_at[OF F st len] by blast
  then show ?thesis using P by (simp add: ReadFilter_def)
qed

lemma ReadMeta_stored:
  assumes F: "file_reads (tbl_file T) img" and len: "length img < 2 ^ 32" and R: "0 < opt_block_restart_interval opt"
    and opt: "tbl_options T = opt" and filt: "filter_image S opt img (ft_metaindex_handle ft) bs" and none: "tbl_filter T = None"
    and name: "filter_name_ok opt"
  shows "\<exists>T'. ReadMeta S ft T = Some T' \<and> tbl_options T' = opt \<and> tbl_file T' = tbl_file T \<and> tbl_index_block T' = tbl_index_block T \<and>
    tbl_metaindex_handle T' = tbl_metaindex_handle T \<and>
    (case opt_filter_policy opt of
        None \<Rightarrow> tbl_filter T' = None
      | Some (name, P) \<Rightarrow> \<exists>off. tbl_filter T' = Some (new_FilterBlockReader P (filter_contents P bs off)) \<and>
          length (filter_contents P bs off) < 2 ^ 32 \<and> (\<forall>b \<in> set bs. bh_offset (fst b) \<le> off))"
proof (cases "opt_filter_policy opt")
  case None
  then show ?thesis using opt none by (simp add: ReadMeta_def)
next
  case (Some p)
  obtain name P where p: "p = (name, P)" by fastforce
  have len': "length img < 2 ^ 63" using len by simp
  obtain fh off where f: "stored_at S img (ft_metaindex_handle ft)
        (build_block (opt_block_restart_interval opt) [(text_bytes ''filter.'' @ name, BlockHandle_EncodeTo fh [])])"
    "stored_at S img fh (filter_contents P bs off)" "\<forall>b \<in> set bs. bh_offset (fst b) \<le> off"
    "length (filter_contents P bs off) \<le> length img"
    using filt Some p by (auto simp: filter_image_def)
  obtain b where b: "ReadBlock S (tbl_file T) (opt_paranoid_checks opt) (ft_metaindex_handle ft) = Some (Status_OK, b)"
    "bc_data b = build_block (opt_block_restart_interval opt) [(text_bytes ''filter.'' @ name, BlockHandle_EncodeTo fh [])]"
    using ReadBlock_stored_at[OF F f(1) len'] by blast
  have "length (text_bytes ''filter.'' @ name) + length (BlockHandle_EncodeTo fh []) < 2 ^ 31"
    using name Some p length_handle[of fh] by (simp add: text_bytes_def filter_name_ok_def)
  from meta_seek[OF R this] obtain it where it: "it_Seek opened_iterators (text_bytes ''filter.'' @ name)
      (Block_NewIterator BytewiseComparator (new_Block (bc_data b))) = Some it"
    "it_Valid opened_iterators it" "it_key opened_iterators it = text_bytes ''filter.'' @ name"
    "it_value opened_iterators it = BlockHandle_EncodeTo fh []"
    unfolding b(2) by blast
  have "ReadMeta S ft T = Some (T\<lparr>tbl_filter := Some (new_FilterBlockReader P (filter_contents P bs off))\<rparr>)"
    using ReadFilter_stored[OF F len' _ f(2)] Some p opt b it by (simp add: ReadMeta_def Let_def slice_equal_iff)
  then show ?thesis using Some p opt f(3,4) len by auto
qed

lemma Open_ok:
  assumes img: "table_image S ok opt img bs ss" and F: "file_reads F img" and sz: "unat sz = length img" "length img < 2 ^ 32"
    and C: "comparator_contract (opt_comparator opt) ok" and short: "short_separators (opt_comparator opt)"
    and bytes: "table_bytes (all_entries bs) < 2 ^ 32" and R: "0 < opt_block_restart_interval opt"
    and name: "filter_name_ok opt"
  shows "\<exists>T. Table_Open S opt F sz = Some (Status_OK, Some T) \<and> table_open S ok opt img bs ss T"
proof -
  let ?C = "opt_comparator opt"
  obtain mh ih body where i: "img = body @ Footer_EncodeTo \<lparr>ft_metaindex_handle = mh, ft_index_handle = ih\<rparr> []"
    "stored_at S img ih (build_block 1 (index_entries ss bs))" "length ss = length bs" "seps_ok ?C ok ss bs []" "seps_from ?C ss bs []"
    "blocks_in S (opt_block_restart_interval opt) img bs" "ascending (Compare ?C) ok (all_entries bs)" "filter_image S opt img mh bs"
    using img unfolding table_image_def by blast
  let ?ft = "\<lparr>ft_metaindex_handle = mh, ft_index_handle = ih\<rparr>"
  have full: "\<forall>b \<in> set bs. snd b \<noteq> []" using i(6) by (simp add: blocks_in_def)
  have le: "kEncodedLength \<le> unat sz" using sz(1) i(1) by simp
  have k: "unat (of_nat kEncodedLength :: 64 word) = kEncodedLength" by (simp add: kEncodedLength_def kMaxEncodedLength_def)
  then have "unat (sz - of_nat kEncodedLength) = unat sz - kEncodedLength" using le by (simp add: unat_sub word_le_nat_alt)
  then have off: "unat (sz - of_nat kEncodedLength) = length body" using sz(1) i(1) by simp
  obtain in_buf where rd: "raf_Read F (sz - of_nat kEncodedLength) (of_nat kEncodedLength) = (Status_OK, Footer_EncodeTo ?ft [], in_buf)"
  proof -
    have "unat (sz - of_nat kEncodedLength) + unat (of_nat kEncodedLength :: 64 word) \<le> length img" using off k i(1) by simp
    then obtain in_buf where "raf_Read F (sz - of_nat kEncodedLength) (of_nat kEncodedLength) =
        (Status_OK, take kEncodedLength (drop (length body) img), in_buf)"
      using F off k by (metis file_reads_def)
    then show thesis using that by (simp add: i(1))
  qed
  have dec: "Footer_DecodeFrom (Footer_EncodeTo ?ft []) new_Footer = (Status_OK, [], ?ft)"
    using Footer_DecodeFrom_Encode[of ?ft "[]"] by simp
  obtain b where b: "ReadBlock S F (opt_paranoid_checks opt) ih = Some (Status_OK, b)" "bc_data b = build_block 1 (index_entries ss bs)"
    using ReadBlock_stored_at[OF F i(2)] sz(2) by auto
  define T where "T = \<lparr>tbl_options = opt, tbl_file = F, tbl_filter = None, tbl_metaindex_handle = mh, tbl_index_block = new_Block (bc_data b)\<rparr>"
  have FT: "file_reads (tbl_file T) img" "tbl_options T = opt" "tbl_filter T = None" using F by (simp_all add: T_def)
  have filt: "filter_image S opt img (ft_metaindex_handle ?ft) bs" using i(8) by simp
  obtain T' where T': "ReadMeta S ?ft T = Some T'" "tbl_options T' = opt" "tbl_file T' = F" "tbl_index_block T' = new_Block (bc_data b)"
    "case opt_filter_policy opt of
        None \<Rightarrow> tbl_filter T' = None
      | Some (name, P) \<Rightarrow> \<exists>off. tbl_filter T' = Some (new_FilterBlockReader P (filter_contents P bs off)) \<and>
          length (filter_contents P bs off) < 2 ^ 32 \<and> (\<forall>b \<in> set bs. bh_offset (fst b) \<le> off)"
    using ReadMeta_stored[OF FT(1) sz(2) R FT(2) filt FT(3) name] by (auto simp: T_def)
  have "Table_Open S opt F sz = Some (Status_OK, Some T')"
    using le rd dec b(1) T'(1) by (simp add: Table_Open_def Let_def T_def)
  moreover have "opened_at ?C ok (index_iterator T') (index_entries ss bs) (length (index_entries ss bs))"
    unfolding index_iterator_def T'(2,4) b(2)
    by (rule opened_block)
      (use length_index_bytes[OF i(3) short i(5) full] bytes index_ascending[OF C i(4,3) full i(7)] in simp_all)
  ultimately show ?thesis using T' F by (auto simp: table_open_def)
qed

lemma BlockReader_opens:
  assumes T: "table_open S ok opt img bs ss T" and img: "table_image S ok opt img bs ss" and len: "length img < 2 ^ 63"
    and bytes: "table_bytes (all_entries bs) < 2 ^ 32" and R: "0 < opt_block_restart_interval opt" and b: "b \<in> set bs"
  shows "\<exists>it. BlockReader S T v (BlockHandle_EncodeTo (fst b) []) = Some it \<and> opened_at (opt_comparator opt) ok it (snd b) (length (snd b))"
proof -
  let ?R = "opt_block_restart_interval opt"
  have st: "stored_at S img (fst b) (build_block ?R (snd b))" and asc: "ascending (Compare (opt_comparator opt)) ok (all_entries bs)"
    using img b by (auto simp: table_image_def blocks_in_def)
  obtain bs1 bs2 where "bs = bs1 @ b # bs2" using b by (meson split_list)
  then have "ascending (Compare (opt_comparator opt)) ok (snd b)" using asc by (simp add: ascending_append)
  moreover have "length (build_block ?R (snd b)) < 2 ^ 32"
    using length_block_bytes[OF R, of "snd b"] table_bytes_member[OF b] bytes by simp
  moreover obtain c where "ReadBlock S (tbl_file T) v (fst b) = Some (Status_OK, c)" "bc_data c = build_block ?R (snd b)"
    using ReadBlock_stored_at[OF _ st len] T by (auto simp: table_open_def)
  ultimately show ?thesis using opened_block[OF R] T by (simp add: BlockReader_def table_open_def)
qed

section \<open>Searching a table\<close>

definition table_at ::
  "Snappy \<Rightarrow> Table \<Rightarrow> bool \<Rightarrow> Comparator \<Rightarrow> (slice \<Rightarrow> bool) \<Rightarrow> (NewIter, NewIter) TwoLevelIterator \<Rightarrow> entries \<Rightarrow> nat \<Rightarrow> bool" where
  "table_at S T v C ok =
     two_level_at opened_iterators opened_iterators (BlockReader S T v) (Compare C) ok (opened_at C ok) (opened_at C ok)"

interpretation tables: sorted_iterator "table_iterators S T v" "Compare C" ok "table_at S T v C ok" for S T v C ok
  unfolding table_iterators_def table_at_def by (rule block_levels.two_level_contract)

definition readable ::
  "Snappy \<Rightarrow> (slice \<Rightarrow> bool) \<Rightarrow> TableOptions \<Rightarrow> slice \<Rightarrow> stored_block list \<Rightarrow> slice list \<Rightarrow> Table \<Rightarrow> bool" where
  "readable S ok opt img bs ss T \<longleftrightarrow>
     table_open S ok opt img bs ss T \<and> table_image S ok opt img bs ss \<and> length img < 2 ^ 32 \<and>
     table_bytes (all_entries bs) < 2 ^ 32 \<and> 0 < opt_block_restart_interval opt \<and> comparator_contract (opt_comparator opt) ok"

text \<open>The block that is searched for a key, the position in it, and the answer of the filter.\<close>

definition key_block :: "Comparator \<Rightarrow> slice list \<Rightarrow> stored_block list \<Rightarrow> slice \<Rightarrow> nat" where
  "key_block C ss bs k = length (below (Compare C) k fst (index_entries ss bs))"

definition block_pos_of :: "Comparator \<Rightarrow> slice list \<Rightarrow> stored_block list \<Rightarrow> slice \<Rightarrow> nat" where
  "block_pos_of C ss bs k = length (below (Compare C) k fst (snd (bs ! key_block C ss bs k)))"

definition filter_accepts :: "Table \<Rightarrow> Comparator \<Rightarrow> slice list \<Rightarrow> stored_block list \<Rightarrow> slice \<Rightarrow> bool" where
  "filter_accepts T C ss bs k \<longleftrightarrow>
     (case tbl_filter T of None \<Rightarrow> True
      | Some f \<Rightarrow> FilterBlock_KeyMayMatch f (bh_offset (fst (bs ! key_block C ss bs k))) k)"

lemma readable_facts:
  assumes "readable S ok opt img bs ss T"
  shows "table_open S ok opt img bs ss T" "table_image S ok opt img bs ss" "length img < 2 ^ 32" "length img < 2 ^ 63"
    "table_bytes (all_entries bs) < 2 ^ 32" "0 < opt_block_restart_interval opt"
    "comparator_contract (opt_comparator opt) ok" "compare_order (Compare (opt_comparator opt)) ok"
  using assms comparator_contract.axioms(1) by (auto simp: readable_def)

lemma readable_parts:
  assumes "readable S ok opt img bs ss T"
  shows "length ss = length bs" "seps_ok (opt_comparator opt) ok ss bs []" "seps_from (opt_comparator opt) ss bs []"
  "ascending (Compare (opt_comparator opt)) ok (all_entries bs)" "\<forall>b \<in> set bs. snd b \<noteq> []"
  "sorted_wrt (\<lambda>b b'. bh_offset (fst b) < bh_offset (fst b')) bs"
  using readable_facts(2)[OF assms] by (auto simp: table_image_def blocks_in_def)

lemma reads_block:
  assumes tab: "readable S ok opt img bs ss T" and b: "b \<in> set bs"
  shows "\<exists>it. BlockReader S T v (BlockHandle_EncodeTo (fst b) []) = Some it \<and> opened_at (opt_comparator opt) ok it (snd b) (length (snd b))"
  by (rule BlockReader_opens[OF readable_facts(1,2,4,5,6)[OF tab] b])

lemma iterator_at:
  assumes tab: "readable S ok opt img bs ss T"
  shows "table_at S T v (opt_comparator opt) ok (Table_NewIterator T) (all_entries bs) (length (all_entries bs))"
proof -
  let ?C = "opt_comparator opt" and ?K = "handle_entries bs" and ?idx = "index_entries ss bs"
  have blocks: "\<forall>x \<in> set ?idx. \<exists>it i. BlockReader S T v (snd x) = Some it \<and> opened_at ?C ok it (?K (snd x)) i"
  proof
    fix x assume "x \<in> set ?idx"
    then obtain i where i: "i < length bs" "x = ?idx ! i" using readable_parts(1)[OF tab] by (auto simp: in_set_conv_nth)
    then show "\<exists>it i. BlockReader S T v (snd x) = Some it \<and> opened_at ?C ok it (?K (snd x)) i"
      using reads_block[OF tab, of "bs ! i" v] handle_entries_nth[OF readable_parts(6)[OF tab] i(1)] readable_parts(1)[OF tab] by auto
  qed
  have asc: "ascending (Compare ?C) ok (block_entries ?K ?idx)"
    using readable_parts(4)[OF tab] index_entries_of_handles(1)[OF readable_parts(6,1)[OF tab]] by simp
  have at: "opened_at ?C ok (index_iterator T) ?idx (length ?idx)" using readable_facts(1)[OF tab] by (simp add: table_open_def)
  from block_levels.two_level_new[OF asc index_separates[OF readable_parts(2,1,6)[OF tab]] blocks at] show ?thesis
    by (simp add: table_at_def Table_NewIterator_def index_entries_of_handles(1)[OF readable_parts(6,1)[OF tab]])
qed

lemma get_spec:
  assumes tab: "readable S ok opt img bs ss T" and k: "ok k"
  shows "InternalGet S T v k = Some (Status_OK,
    if key_block (opt_comparator opt) ss bs k < length bs \<and> filter_accepts T (opt_comparator opt) ss bs k \<and> block_pos_of (opt_comparator opt) ss bs k < length (snd (bs ! key_block (opt_comparator opt) ss bs k))
    then Some (snd (bs ! key_block (opt_comparator opt) ss bs k) ! block_pos_of (opt_comparator opt) ss bs k) else None)"
proof -
  let ?C = "opt_comparator opt" and ?I = opened_iterators and ?idx = "index_entries ss bs"
  have at: "opened_at ?C ok (index_iterator T) ?idx (length ?idx)" using readable_facts(1)[OF tab] by (simp add: table_open_def)
  obtain it where it: "it_Seek ?I k (index_iterator T) = Some it" "opened_at ?C ok it ?idx (key_block (opt_comparator opt) ss bs k)"
    using opened_iters.Seek[OF at k] by (auto simp: key_block_def)
  have lidx: "length ?idx = length bs" using readable_parts(1)[OF tab] by simp
  have st: "it_status ?I it = Status_OK" by (rule opened_iters.status[OF it(2)])
  show ?thesis
  proof (cases "key_block (opt_comparator opt) ss bs k < length bs")
    case False
    then have "\<not> it_Valid ?I it" using opened_iters.Valid[OF it(2)] lidx by simp
    then show ?thesis using it(1) st False by (simp add: InternalGet_def)
  next
    case True
    then have valid: "it_Valid ?I it" "it_value ?I it = BlockHandle_EncodeTo (fst (bs ! key_block (opt_comparator opt) ss bs k)) []"
      using opened_iters.Valid[OF it(2)] opened_iters.val[OF it(2)] lidx readable_parts(1)[OF tab] by simp_all
    have b: "bs ! key_block (opt_comparator opt) ss bs k \<in> set bs" using True by simp
    obtain bit where bit: "BlockReader S T v (BlockHandle_EncodeTo (fst (bs ! key_block (opt_comparator opt) ss bs k)) []) = Some bit"
      "opened_at ?C ok bit (snd (bs ! key_block (opt_comparator opt) ss bs k)) (length (snd (bs ! key_block (opt_comparator opt) ss bs k)))"
      using reads_block[OF tab b] by blast
    obtain bit' where bit': "it_Seek ?I k bit = Some bit'" "opened_at ?C ok bit' (snd (bs ! key_block (opt_comparator opt) ss bs k)) (block_pos_of (opt_comparator opt) ss bs k)"
      using opened_iters.Seek[OF bit(2) k] by (auto simp: block_pos_of_def)
    have e: "it_status ?I bit' = Status_OK" "it_Valid ?I bit' \<longleftrightarrow> block_pos_of (opt_comparator opt) ss bs k < length (snd (bs ! key_block (opt_comparator opt) ss bs k))"
      using opened_iters.status[OF bit'(2)] opened_iters.Valid[OF bit'(2)] by simp_all
    have kv: "block_pos_of (opt_comparator opt) ss bs k < length (snd (bs ! key_block (opt_comparator opt) ss bs k)) \<Longrightarrow>
        (it_key ?I bit', it_value ?I bit') = snd (bs ! key_block (opt_comparator opt) ss bs k) ! block_pos_of (opt_comparator opt) ss bs k"
      by (rule opened_iters.entry[OF bit'(2)])
    show ?thesis using it(1) valid st bit(1) bit'(1) e kv True
      by (cases "tbl_filter T") (auto simp: InternalGet_def filter_accepts_def Let_def)
  qed
qed

lemma found_entry:
  assumes tab: "readable S ok opt img bs ss T" and k: "ok k" and b: "key_block (opt_comparator opt) ss bs k < length bs" and p: "block_pos_of (opt_comparator opt) ss bs k < length (snd (bs ! key_block (opt_comparator opt) ss bs k))"
  defines "m \<equiv> length (below (Compare (opt_comparator opt)) k fst (all_entries bs))"
  shows "m < length (all_entries bs)" "all_entries bs ! m = snd (bs ! key_block (opt_comparator opt) ss bs k) ! block_pos_of (opt_comparator opt) ss bs k"
proof -
  let ?C = "opt_comparator opt" and ?K = "handle_entries bs" and ?idx = "index_entries ss bs"
  note e = index_entries_of_handles[OF readable_parts(6,1)[OF tab]]
  have idx: "key_block (opt_comparator opt) ss bs k < length ?idx" "?K (snd (?idx ! key_block (opt_comparator opt) ss bs k)) = snd (bs ! key_block (opt_comparator opt) ss bs k)"
    using b readable_parts(1)[OF tab] handle_entries_nth[OF readable_parts(6)[OF tab] b] by simp_all
  have asc: "ascending (Compare ?C) ok (block_entries ?K ?idx)" using readable_parts(4)[OF tab] e(1) by simp
  have "m = block_off ?K ?idx (key_block (opt_comparator opt) ss bs k) + block_pos_of (opt_comparator opt) ss bs k"
    using below_blocks[OF asc index_ascending[OF readable_facts(7)[OF tab] readable_parts(2,1,5,4)[OF tab]] index_separates[OF readable_parts(2,1,6)[OF tab]] k]
    unfolding m_def e(1) key_block_def[symmetric] block_pos_of_def using idx by simp
  then show "m < length (all_entries bs)" "all_entries bs ! m = snd (bs ! key_block (opt_comparator opt) ss bs k) ! block_pos_of (opt_comparator opt) ss bs k"
    using block_entries_nth[OF idx(1), of "block_pos_of (opt_comparator opt) ss bs k" ?K] p idx(2) by (simp_all add: e(1))
qed

text \<open>A key that is not behind some entry of a block and behind the separators before it is looked for there.\<close>

lemma nth_second_part: "xs = ys @ zs \<Longrightarrow> length ys < length xs \<Longrightarrow> xs ! length ys \<in> set zs"
  by (cases zs) auto

lemma nth_first_part: "xs = ys @ zs \<Longrightarrow> j < length ys \<Longrightarrow> xs ! j \<in> set ys"
  by (simp add: nth_append)

lemma in_block:
  assumes tab: "readable S ok opt img bs ss T" and k: "ok k" and j: "j < length bs" and kv: "kv \<in> set (snd (bs ! j))"
    and le: "Compare (opt_comparator opt) k (fst kv) \<le> 0"
    and seps: "\<And>i. i < j \<Longrightarrow> Compare (opt_comparator opt) (ss ! i) k < 0"
  shows "key_block (opt_comparator opt) ss bs k = j" "block_pos_of (opt_comparator opt) ss bs k < length (snd (bs ! j))"
proof -
  let ?C = "opt_comparator opt" and ?idx = "index_entries ss bs"
  have okv: "ok (fst kv)" using readable_parts(4)[OF tab] kv j by (auto simp: ascending_def set_all_entries)
  have oks: "ok (ss ! i)" if "i < length bs" for i using readable_parts(1,2)[OF tab] that by (simp add: seps_ok_def)
  have "Compare ?C (fst kv) (ss ! j) \<le> 0" using readable_parts(1,2)[OF tab] j kv by (simp add: seps_ok_def)
  then have ksj: "Compare ?C k (ss ! j) \<le> 0" using compare_order.trans[OF readable_facts(8)[OF tab] k okv oks[OF j]] le by blast
  have asc: "ascending (Compare ?C) ok ?idx" by (rule index_ascending[OF readable_facts(7)[OF tab] readable_parts(2,1,5,4)[OF tab]])
  have cut: "?idx = below (Compare ?C) k fst ?idx @ upwards (Compare ?C) k fst ?idx"
    by (rule compare_order.sorted_cut[OF readable_facts(8)[OF tab]]) (use asc k in \<open>auto simp: ascending_def\<close>)
  have sep_nth: "fst (?idx ! i) = ss ! i" if "i < length bs" for i using that readable_parts(1)[OF tab] by simp
  let ?b = "key_block ?C ss bs k"
  have "\<not> ?b < j"
  proof
    assume l: "?b < j"
    then have "?idx ! ?b \<in> set (upwards (Compare ?C) k fst ?idx)"
      using nth_second_part[OF cut] j readable_parts(1)[OF tab] by (simp add: key_block_def)
    then have "\<not> Compare ?C (fst (?idx ! ?b)) k < 0" by (simp add: upwards_def)
    then show False using seps[OF l] sep_nth[of ?b] l j by simp
  qed
  moreover have "\<not> j < ?b"
  proof
    assume "j < ?b"
    then have "?idx ! j \<in> set (below (Compare ?C) k fst ?idx)" using nth_first_part[OF cut] by (simp add: key_block_def)
    then have "Compare ?C (fst (?idx ! j)) k < 0" by (simp add: below_def)
    then show False using ksj compare_order.swap[OF readable_facts(8)[OF tab] oks[OF j] k] sep_nth[OF j] by simp
  qed
  ultimately show kb: "key_block (opt_comparator opt) ss bs k = j" by simp
  have "\<not> Compare ?C (fst kv) k < 0" using le compare_order.swap[OF readable_facts(8)[OF tab] okv k] by simp
  from length_filter_less[where P = "\<lambda>x. Compare ?C (fst x) k < 0", OF kv this]
  show "block_pos_of (opt_comparator opt) ss bs k < length (snd (bs ! j))"
    unfolding block_pos_of_def kb below_def .
qed

lemma KeyMayMatch_same:
  "KeyMayMatch (fr_policy r) k = KeyMayMatch (fr_policy r) k' \<Longrightarrow> FilterBlock_KeyMayMatch r off k = FilterBlock_KeyMayMatch r off k'"
  by (simp only: FilterBlock_KeyMayMatch_def)

lemma filter_matches:
  assumes tab: "readable S ok opt img bs ss T" and P: "\<And>name P. opt_filter_policy opt = Some (name, P) \<Longrightarrow>
      filter_contract P \<and> KeyMayMatch P k = KeyMayMatch P (fst kv)"
    and b: "key_block (opt_comparator opt) ss bs k < length bs" and kv: "kv \<in> set (snd (bs ! key_block (opt_comparator opt) ss bs k))"
  shows "filter_accepts T (opt_comparator opt) ss bs k"
proof (cases "opt_filter_policy opt")
  case None
  then show ?thesis using readable_facts(1)[OF tab] by (simp add: filter_accepts_def table_open_def)
next
  case (Some p)
  obtain name P where p: "p = (name, P)" by fastforce
  obtain off where f: "tbl_filter T = Some (new_FilterBlockReader P (filter_contents P bs off))"
    "length (filter_contents P bs off) < 2 ^ 32" "\<forall>b \<in> set bs. bh_offset (fst b) \<le> off"
    using readable_facts(1)[OF tab] Some p by (auto simp: table_open_def)
  let ?b = "bs ! key_block (opt_comparator opt) ss bs k"
  have slots: "sorted (map (slot \<circ> fst) (filter_blocks bs @ [(off, [])]))"
  proof -
    have mono: "slot a \<le> slot c" if "a \<le> c" for a c :: "64 word"
      using that by (simp add: slot_def word_le_nat_alt div_le_mono)
    have "sorted_wrt (\<lambda>b b'. slot (bh_offset (fst b)) \<le> slot (bh_offset (fst b'))) bs"
      using readable_parts(6)[OF tab] by (rule sorted_wrt_mono_rel[rotated]) (simp add: mono)
    then show ?thesis using f(3) mono by (auto simp: sorted_append filter_blocks_def sorted_map comp_def)
  qed
  have "(bh_offset (fst ?b), map fst (snd ?b)) \<in> set (filter_blocks bs @ [(off, [])])" using b by (auto simp: filter_blocks_def)
  moreover have "fst kv \<in> set (map fst (snd ?b))" using kv by simp
  ultimately have "FilterBlock_KeyMayMatch (new_FilterBlockReader P (filter_contents P bs off)) (bh_offset (fst ?b)) (fst kv)"
    using filter_block_matches[of P "filter_blocks bs @ [(off, [])]"] P[of name P] Some p slots f(2)
    unfolding filter_contents_def by blast
  moreover have "fr_policy (new_FilterBlockReader P c) = P" for c by (simp add: new_FilterBlockReader_def Let_def)
  ultimately have "FilterBlock_KeyMayMatch (new_FilterBlockReader P (filter_contents P bs off)) (bh_offset (fst ?b)) k"
    using KeyMayMatch_same[of "new_FilterBlockReader P (filter_contents P bs off)" k "fst kv"] P[of name P] Some p by simp
  then show ?thesis using f(1) by (simp add: filter_accepts_def)
qed

section \<open>From the builder to the reader\<close>

definition table_setup :: "Snappy \<Rightarrow> (slice \<Rightarrow> bool) \<Rightarrow> TableOptions \<Rightarrow> 'f WritableFile \<Rightarrow> ('f \<Rightarrow> slice) \<Rightarrow> 'f \<Rightarrow> entries \<Rightarrow> bool" where
  "table_setup S ok opt W contents f kvs \<longleftrightarrow>
     comparator_contract (opt_comparator opt) ok \<and> short_separators (opt_comparator opt) \<and> snappy_ok S \<and>
     appends_to W contents \<and> contents f = [] \<and> 0 < opt_block_restart_interval opt \<and> filter_name_ok opt \<and>
     ascending (Compare (opt_comparator opt)) ok kvs \<and> table_bytes kvs < 2 ^ 32"

lemma build_table_image:
  assumes set: "table_setup S ok opt W contents f kvs" and build: "build_table S opt W f kvs = (Status_OK, r)"
    and len: "length (contents (tb_file r)) < 2 ^ 32"
  shows "\<exists>bs ss. table_image S ok opt (contents (tb_file r)) bs ss \<and> all_entries bs = kvs"
proof -
  let ?r0 = "new_TableBuilder opt W f"
  let ?r1 = "fold (\<lambda>(k, v). tb_Add S k v) kvs ?r0"
  have s: "comparator_contract (opt_comparator opt) ok" "snappy_ok S" "appends_to W contents" "contents f = []"
    "0 < opt_block_restart_interval opt" "ascending (Compare (opt_comparator opt)) ok kvs"
    using set by (simp_all add: table_setup_def)
  have r0: "tb_ops ?r0 = W" "tb_options ?r0 = opt" by (simp_all add: new_TableBuilder_def Let_def)
  have rep0: "tb_rep S ok contents ?r0 [] [] []" using tb_rep_new[of opt ok contents f S W] s(1,4) by simp
  have fin: "tb_Finish S ?r1 = (Status_OK, r)" using build by (simp add: build_table_def)
  have kept: "tb_ops ?r1 = W" "tb_options ?r1 = opt"
    using Adds_kept[of ?r0 contents S kvs] s(3) r0 by simp_all
  have g: "tb_ok ?r1 \<and> length (contents (tb_file ?r1)) \<le> length (contents (tb_file r))"
    using Finish_grows[OF _ fin] s(3) kept by (simp add: Status_ok_def Status_OK_def)
  then have len1: "length (contents (tb_file ?r1)) < 2 ^ 63" using len by simp
  obtain bs ss cur where rep: "tb_rep S ok contents ?r1 bs ss cur" "all_entries bs @ cur = kvs"
    using Adds_rep(1)[of ?r0 contents S ok kvs] s r0 rep0 g len1 by auto
  show ?thesis
    using Finish_image[OF _ s(2) _ _ rep(1) fin] s kept len rep(2) by (simp add: Status_ok_def Status_OK_def)
qed

lemma built_table_opens:
  assumes set: "table_setup S ok opt W contents f kvs" and build: "build_table S opt W f kvs = (Status_OK, r)"
    and len: "length (contents (tb_file r)) < 2 ^ 32" and F: "file_reads F (contents (tb_file r))"
  shows "\<exists>T bs ss. Table_Open S opt F (of_nat (length (contents (tb_file r)))) = Some (Status_OK, Some T) \<and>
    readable S ok opt (contents (tb_file r)) bs ss T \<and> all_entries bs = kvs"
proof -
  let ?img = "contents (tb_file r)"
  obtain bs ss where i: "table_image S ok opt ?img bs ss" "all_entries bs = kvs" using build_table_image[OF assms(1-3)] by blast
  have s: "comparator_contract (opt_comparator opt) ok" "short_separators (opt_comparator opt)"
    "0 < opt_block_restart_interval opt" "filter_name_ok opt" "table_bytes (all_entries bs) < 2 ^ 32"
    using set i(2) by (simp_all add: table_setup_def)
  have sz: "unat (of_nat (length ?img) :: 64 word) = length ?img" using len by (intro unat_of_nat_64) simp
  obtain T where "Table_Open S opt F (of_nat (length ?img)) = Some (Status_OK, Some T)" "table_open S ok opt ?img bs ss T"
    using Open_ok[OF i(1) F sz len s(1,2,5,3,4)] by blast
  then show ?thesis using i s len unfolding readable_def by blast
qed

text \<open>The entry that \<^verbatim>\<open>InternalGet\<close> hands over is the first that is not before the key.\<close>

lemma get_first:
  assumes tab: "readable S ok opt img bs ss T" and k: "ok k"
  shows "\<exists>r. InternalGet S T v k = Some (Status_OK, r) \<and>
    (\<forall>e. r = Some e \<longrightarrow> length (below (Compare (opt_comparator opt)) k fst (all_entries bs)) < length (all_entries bs) \<and>
       e = all_entries bs ! length (below (Compare (opt_comparator opt)) k fst (all_entries bs)))"
  using get_spec[OF tab k] found_entry[OF tab k] by (auto split: if_splits)

lemma get_in_block:
  assumes tab: "readable S ok opt img bs ss T" and k: "ok k" and j: "j < length bs" and kv: "kv \<in> set (snd (bs ! j))"
    and le: "Compare (opt_comparator opt) k (fst kv) \<le> 0"
    and seps: "\<And>i. i < j \<Longrightarrow> Compare (opt_comparator opt) (ss ! i) k < 0"
    and P: "\<And>name P. opt_filter_policy opt = Some (name, P) \<Longrightarrow> filter_contract P \<and> KeyMayMatch P k = KeyMayMatch P (fst kv)"
  shows "InternalGet S T v k = Some (Status_OK, Some (all_entries bs ! length (below (Compare (opt_comparator opt)) k fst (all_entries bs))))"
proof -
  note ib = in_block[OF tab k j kv le seps]
  have b: "key_block (opt_comparator opt) ss bs k < length bs" using ib(1) j by simp
  have p: "block_pos_of (opt_comparator opt) ss bs k < length (snd (bs ! key_block (opt_comparator opt) ss bs k))" using ib by simp
  have "filter_accepts T (opt_comparator opt) ss bs k" by (rule filter_matches[OF tab P b]) (use kv ib(1) in simp_all)
  then show ?thesis using get_spec[OF tab k, of v] found_entry(2)[OF tab k b p] b p by simp
qed


lemma internal_reaches:
  assumes tab: "readable S ok opt img bs ss T" and U: "user_comparator U uok" "opt_comparator opt = InternalKeyComparator U"
    "ok = (\<lambda>k. 8 \<le> length k \<and> uok (ExtractUserKey k))"
    and k: "ok k" and j: "j < length bs" and kv: "kv \<in> set (snd (bs ! j))" and same: "ExtractUserKey (fst kv) = ExtractUserKey k"
    and first: "\<And>e. e \<in> set (all_entries (take j bs)) \<Longrightarrow> Compare (opt_comparator opt) (fst e) k < 0" and i: "i < j"
  shows "Compare (opt_comparator opt) (ss ! i) k < 0"
proof (rule ccontr)
  let ?C = "opt_comparator opt" and ?c = "Compare U"
  assume not: "\<not> Compare ?C (ss ! i) k < 0"
  note parts = readable_parts[OF tab] and order = readable_facts(8)[OF tab]
  have ib: "i < length bs" and iss: "i < length ss" using i j parts(1) by simp_all
  let ?a = "fst (last (snd (bs ! i)))" and ?rest = "all_entries (drop (Suc i) bs)"
  have full: "snd (bs ! i) \<noteq> []" "snd (bs ! j) \<noteq> []" using parts(5) ib j by simp_all
  have rest: "?rest \<noteq> []"
  proof -
    have "kv \<in> set ?rest" using later_block[OF i j] kv by (auto simp: set_all_entries)
    then show ?thesis by auto
  qed
  have okkv: "ok (fst kv)" using parts(4) kv j by (auto simp: ascending_def set_all_entries)
  have oks: "ok (ss ! i)" using parts(2) iss by (simp add: seps_ok_def)
  have "bs ! i \<in> set (take j bs)" using i ib by (metis in_set_conv_nth length_take min_less_iff_conj nth_take)
  then have "last (snd (bs ! i)) \<in> set (all_entries (take j bs))" using last_in_set[OF full(1)] set_all_entries by blast
  then have a: "Compare ?C ?a k < 0" by (rule first)
  have sep: "ss ! i = FindShortestSeparator ?C ?a (fst (hd ?rest))"
    using parts(3) iss rest unfolding seps_from_def Let_def by simp
  let ?s = "FindShortestSeparator U (ExtractUserKey ?a) (ExtractUserKey (fst (hd ?rest)))"
  have skv: "Compare ?C (ss ! i) (fst kv) < 0" by (rule seps_before[OF parts(2) iss i j kv])
  have "ss ! i \<noteq> ?a" using a not by metis
  then have s: "ss ! i = PutFixed64 ?s (PackSequenceAndType kMaxSequenceNumber kValueTypeForSeek)"
      "?c (ExtractUserKey ?a) ?s < 0"
    using sep U(2) by (auto simp: InternalKeyComparator_def ikc_FindShortestSeparator_def Let_def split: if_splits)
  have us: "ExtractUserKey (ss ! i) = ?s" by (simp add: s(1) PutFixed64_def)
  have ks: "Compare ?C k (ss ! i) \<le> 0" using not compare_order.not_less[OF order oks k] by simp
  have okc: "ok (fst (hd ?rest))" "ok ?a"
  proof -
    have "hd ?rest \<in> set (all_entries bs)" using hd_in_set[OF rest] by (auto simp: set_all_entries dest: in_set_dropD)
    then show "ok (fst (hd ?rest))" using parts(4) by (auto simp: ascending_def)
    have "last (snd (bs ! i)) \<in> set (all_entries bs)" using last_in_set[OF full(1)] ib by (auto simp: set_all_entries)
    then show "ok ?a" using parts(4) by (auto simp: ascending_def)
  qed
  note uorder = comparator_contract.axioms(1)[OF user_comparator.axioms(1)[OF U(1)]]
  have u: "uok (ExtractUserKey (fst (hd ?rest)))" "uok (ExtractUserKey ?a)" "uok (ExtractUserKey k)"
    using okc k U(3) by simp_all
  have hd_le: "Compare ?C (fst (hd ?rest)) (fst kv) \<le> 0"
  proof -
    have "kv \<in> set ?rest" using later_block[OF i j] kv by (auto simp: set_all_entries)
    then have "kv = hd ?rest \<or> kv \<in> set (tl ?rest)" using rest by (cases ?rest) auto
    moreover have "ascending (Compare ?C) ok (hd ?rest # tl ?rest)"
    proof -
      have "all_entries bs = all_entries (take (Suc i) bs) @ ?rest" by (metis all_entries_simps(3) append_take_drop_id)
      then show ?thesis using parts(4) rest by (simp add: ascending_append)
    qed
    ultimately show ?thesis
      using compare_order.refl[OF order okkv] by (auto simp: ascending_Cons)
  qed
  have lt: "?c (ExtractUserKey ?a) (ExtractUserKey (fst (hd ?rest))) < 0"
  proof (rule ccontr)
    assume n: "\<not> ?c (ExtractUserKey ?a) (ExtractUserKey (fst (hd ?rest))) < 0"
    have "Compare ?C ?a (ss ! i) \<le> 0"
      using parts(2) iss last_in_set[OF full(1)] by (auto simp: seps_ok_def)
    moreover have "Compare ?C (ss ! i) (fst (hd ?rest)) < 0"
      using parts(2) iss hd_in_set[OF rest] by (auto simp: seps_ok_def)
    ultimately have "Compare ?C ?a (fst (hd ?rest)) < 0"
      using compare_order.le_less_trans[OF order okc(2) oks okc(1)] by blast
    then have "?c (ExtractUserKey ?a) (ExtractUserKey (fst (hd ?rest))) = 0"
      using n U(2) comparator_contract.ikc_less[OF user_comparator.axioms(1)[OF U(1)]] by auto
    then have "?s = ExtractUserKey ?a" by (rule user_comparator.separator_equal[OF U(1) u(2,1)])
    then show False using s(2) compare_order.refl[OF uorder u(2)] by simp
  qed
  have "?c ?s (ExtractUserKey (fst (hd ?rest))) < 0" "uok ?s"
    using comparator_contract.separator[OF user_comparator.axioms(1)[OF U(1)] u(2,1) lt] by simp_all
  moreover have "?c (ExtractUserKey (fst (hd ?rest))) (ExtractUserKey k) \<le> 0"
    using hd_le U(2) comparator_contract.ikc_le[OF user_comparator.axioms(1)[OF U(1)]] same by auto
  ultimately have "?c ?s (ExtractUserKey k) < 0"
    using compare_order.less_le_trans[OF uorder _ u(1,3)] by blast
  moreover have "?c (ExtractUserKey k) ?s \<le> 0"
    using ks U(2) comparator_contract.ikc_le[OF user_comparator.axioms(1)[OF U(1)]] us by auto
  ultimately show False using compare_order.not_less[OF uorder \<open>uok ?s\<close> u(3)] by simp
qed

context user_filter
begin

lemma internal_contract: "filter_contract (InternalFilterPolicy P)"
  by (rule internal_filter.filter_contract_axioms)

end

lemma split_all_entries:
  assumes "m < length (all_entries bs)"
  shows "\<exists>j < length bs. all_entries bs ! m \<in> set (snd (bs ! j)) \<and> length (all_entries (take j bs)) \<le> m"
  using assms
proof (induction bs arbitrary: m)
  case (Cons b bs)
  show ?case
  proof (cases "m < length (snd b)")
    case True
    then show ?thesis by (intro exI[of _ 0]) (simp add: nth_append)
  next
    case False
    have "m - length (snd b) < length (all_entries bs)" using False Cons.prems by simp
    from Cons.IH[OF this] obtain j where "j < length bs" "all_entries bs ! (m - length (snd b)) \<in> set (snd (bs ! j))"
      "length (all_entries (take j bs)) \<le> m - length (snd b)" by blast
    then show ?thesis using False by (intro exI[of _ "Suc j"]) (simp add: nth_append)
  qed
qed simp

lemma get_at:
  assumes tab: "readable S ok opt img bs ss T" and U: "user_comparator U uok" "opt_comparator opt = InternalKeyComparator U"
      "ok = (\<lambda>k. 8 \<le> length k \<and> uok (ExtractUserKey k))" and k: "ok k"
    and m: "m < length (all_entries bs)" "m = length (below (Compare (opt_comparator opt)) k fst (all_entries bs))"
    and same: "ExtractUserKey (fst (all_entries bs ! m)) = ExtractUserKey k"
    and P: "opt_filter_policy opt = None \<or> (\<exists>name P. opt_filter_policy opt = Some (name, InternalFilterPolicy P) \<and> user_filter P)"
  shows "InternalGet S T v k = Some (Status_OK, Some (all_entries bs ! m))"
proof -
  let ?C = "opt_comparator opt" and ?e = "all_entries bs ! m"
  note order = readable_facts(8)[OF tab]
  obtain j where j: "j < length bs" "?e \<in> set (snd (bs ! j))" "length (all_entries (take j bs)) \<le> m"
    using split_all_entries[OF m(1)] by blast
  have cut: "all_entries bs = below (Compare ?C) k fst (all_entries bs) @ upwards (Compare ?C) k fst (all_entries bs)"
    by (rule compare_order.sorted_cut[OF order]) (use readable_parts(4)[OF tab] k in \<open>auto simp: ascending_def\<close>)
  have "?e \<in> set (upwards (Compare ?C) k fst (all_entries bs))" using nth_second_part[OF cut] m by simp
  then have nless: "\<not> Compare ?C (fst ?e) k < 0" by (simp add: upwards_def)
  have "ok (fst ?e)" using readable_parts(4)[OF tab] m(1) by (auto simp: ascending_def)
  then have le: "Compare ?C k (fst ?e) \<le> 0" using nless compare_order.not_less[OF order _ k] by simp
  have first: "Compare ?C (fst e) k < 0" if e: "e \<in> set (all_entries (take j bs))" for e
  proof -
    have "all_entries bs = all_entries (take j bs) @ all_entries (drop j bs)" by (metis all_entries_simps(3) append_take_drop_id)
    moreover obtain i where i: "i < length (all_entries (take j bs))" "e = all_entries (take j bs) ! i"
      using e by (auto simp: in_set_conv_nth)
    ultimately have "e = all_entries bs ! i" by (simp add: nth_append)
    then have "e \<in> set (below (Compare ?C) k fst (all_entries bs))"
      using nth_first_part[OF cut, of i] i(1) j(3) m(2) by simp
    then show ?thesis by (simp add: below_def)
  qed
  have filt: "filter_contract Q \<and> KeyMayMatch Q k = KeyMayMatch Q (fst ?e)" if "opt_filter_policy opt = Some (name, Q)" for name Q
    using P that same user_filter.internal_contract by (auto simp: InternalFilterPolicy_def)
  show ?thesis
    by (rule get_in_block[OF tab k j(1,2) le internal_reaches[OF tab U k j(1,2) same first] filt, folded m(2)])
qed

section \<open>A table in memory\<close>

definition in_memory :: "slice TableBuilder \<Rightarrow> bool" where
  "in_memory r \<longleftrightarrow> tb_ops r = memory_writer \<and> tb_ok r"

lemma memory_ops [simp]: "wf_Append memory_writer s f = (Status_OK, f @ s)" "wf_Flush memory_writer f = (Status_OK, f)"
  by (simp_all add: memory_writer_def)

lemma memory_raw:
  assumes "in_memory r" "WriteRawBlock d t r = (h, r')"
  shows "in_memory r'" "length (tb_file r') = length (tb_file r) + length d + 5"
    "tb_offset r' = tb_offset r + of_nat (length d + 5)"
    "r' = r\<lparr>tb_file := tb_file r', tb_status := Status_OK, tb_offset := tb_offset r'\<rparr>"
proof -
  have ok: "tb_ok r'" using assms by (auto simp: in_memory_def WriteRawBlock_def Let_def tb_ok_def Status_ok_def Status_OK_def)
  have img: "id (tb_file r') = id (tb_file r) @ block_image t d \<and> h = \<lparr>bh_offset = tb_offset r, bh_size = of_nat (length d)\<rparr> \<and>
    r' = r\<lparr>tb_file := tb_file r', tb_status := Status_OK, tb_offset := tb_offset r + of_nat (length d + kBlockTrailerSize)\<rparr>"
    by (rule WriteRawBlock_image[where contents = id, OF _ assms(2) ok]) (use assms(1) memory_appends in_memory_def in metis)
  then show "length (tb_file r') = length (tb_file r) + length d + 5" by (simp add: kBlockTrailerSize_def block_image_def)
  show "tb_offset r' = tb_offset r + of_nat (length d + 5)"
    using img by (metis TableBuilder.select_convs(5) TableBuilder.update_convs(3,5,6) TableBuilder.surjective kBlockTrailerSize_def)
  obtain x y where xy: "r' = r\<lparr>tb_file := x, tb_status := Status_OK, tb_offset := y\<rparr>" using img by blast
  show e: "r' = r\<lparr>tb_file := tb_file r', tb_status := Status_OK, tb_offset := tb_offset r'\<rparr>"
    by (simp add: xy)
  show "in_memory r'" using ok assms(1) by (subst e) (simp add: in_memory_def tb_ok_def Status_ok_def Status_OK_def)
qed

lemma memory_block:
  assumes "in_memory r" "WriteBlock no_snappy b r = (b', h, r')"
  shows "in_memory r'" "length (tb_file r') = length (tb_file r) + length (fst (BlockBuilder_Finish b)) + 5"
    "tb_offset r' = tb_offset r + of_nat (length (fst (BlockBuilder_Finish b)) + 5)"
    "r' = r\<lparr>tb_file := tb_file r', tb_status := Status_OK, tb_offset := tb_offset r'\<rparr>"
proof -
  have "compressed no_snappy t raw = (raw, kNoCompression)" for t raw
    by (cases t) (simp_all add: compressed_def no_snappy_def)
  then obtain t where "WriteRawBlock (fst (BlockBuilder_Finish b)) t r = (h, r')"
    using assms(2) by (auto simp: WriteBlock_def split: prod.splits)
  from memory_raw[OF assms(1) this] show "in_memory r'"
    "length (tb_file r') = length (tb_file r) + length (fst (BlockBuilder_Finish b)) + 5"
    "tb_offset r' = tb_offset r + of_nat (length (fst (BlockBuilder_Finish b)) + 5)"
    "r' = r\<lparr>tb_file := tb_file r', tb_status := Status_OK, tb_offset := tb_offset r'\<rparr>" by blast+
qed

lemma memory_Flush:
  assumes "in_memory r"
  shows "in_memory (tb_Flush no_snappy r)"
    "length (tb_file (tb_Flush no_snappy r)) \<le> length (tb_file r) + length (fst (BlockBuilder_Finish (tb_data_block r))) + 5"
    "tb_index_block (tb_Flush no_snappy r) = tb_index_block r" "tb_options (tb_Flush no_snappy r) = tb_options r"
    "tb_last_key (tb_Flush no_snappy r) = tb_last_key r"
    "tb_filter_block (tb_Flush no_snappy r) = tb_filter_block r \<or>
       tb_filter_block (tb_Flush no_snappy r) =
         map_option (StartBlock (tb_offset r + of_nat (length (fst (BlockBuilder_Finish (tb_data_block r))) + 5))) (tb_filter_block r)"
proof -
  obtain b h r1 where w: "WriteBlock no_snappy (tb_data_block r) r = (b, h, r1)" by (metis prod_cases3)
  note m = memory_block[OF assms w]
  obtain f o1 where r1: "r1 = r\<lparr>tb_file := f, tb_status := Status_OK, tb_offset := o1\<rparr>" using m(4) by blast
  have ok: "tb_ok r" "tb_ok (r1\<lparr>tb_data_block := b, tb_pending_handle := h\<rparr>)"
    using assms by (simp_all add: in_memory_def r1 tb_ok_def Status_ok_def Status_OK_def)
  have ops: "tb_ops r = memory_writer" using assms by (simp add: in_memory_def)
  have "tb_Flush no_snappy r = (if BlockBuilder_empty (tb_data_block r) then r
    else r1\<lparr>tb_data_block := b, tb_pending_handle := h, tb_pending_index_entry := True, tb_filter_block := map_option (StartBlock o1) (tb_filter_block r)\<rparr>)"
    using ok ops by (simp add: tb_Flush_def w Let_def) (simp add: r1)
  then show "in_memory (tb_Flush no_snappy r)"
    "length (tb_file (tb_Flush no_snappy r)) \<le> length (tb_file r) + length (fst (BlockBuilder_Finish (tb_data_block r))) + 5"
    "tb_index_block (tb_Flush no_snappy r) = tb_index_block r" "tb_options (tb_Flush no_snappy r) = tb_options r"
    "tb_last_key (tb_Flush no_snappy r) = tb_last_key r"
    "tb_filter_block (tb_Flush no_snappy r) = tb_filter_block r \<or>
       tb_filter_block (tb_Flush no_snappy r) =
         map_option (StartBlock (tb_offset r + of_nat (length (fst (BlockBuilder_Finish (tb_data_block r))) + 5))) (tb_filter_block r)"
    using assms m(1-3) by (auto simp: in_memory_def r1 tb_ok_def)
qed

lemma memory_Finish:
  assumes "in_memory r" "length (fst (BlockBuilder_Finish (tb_data_block r))) \<le> n"
    and "\<And>b. tb_filter_block r = Some b \<Longrightarrow> length (fst (FilterBlock_Finish b)) \<le> n \<and>
      (\<forall>i \<le> n. length (fst (FilterBlock_Finish (StartBlock (tb_offset r + of_nat (i + 5)) b))) \<le> n)"
    and "\<And>fh. length (fst (BlockBuilder_Finish (case (tb_filter_block r, opt_filter_policy (tb_options r)) of
        (Some _, Some (name, _)) \<Rightarrow> BlockBuilder_Add (text_bytes ''filter.'' @ name) (BlockHandle_EncodeTo fh [])
          (new_BlockBuilder (opt_block_restart_interval (tb_options r)))
      | _ \<Rightarrow> new_BlockBuilder (opt_block_restart_interval (tb_options r))))) \<le> n"
    and "length (fst (BlockBuilder_Finish (tb_index_block r))) \<le> n"
    and "\<And>h. length (fst (BlockBuilder_Finish (BlockBuilder_Add
        (FindShortSuccessor (opt_comparator (tb_options r)) (tb_last_key r)) (BlockHandle_EncodeTo h []) (tb_index_block r)))) \<le> n"
  shows "\<exists>r'. tb_Finish no_snappy r = (Status_OK, r') \<and> length (tb_file r') \<le> length (tb_file r) + 4 * n + 68"
proof -
  define r1 where "r1 = (tb_Flush no_snappy r)\<lparr>tb_closed := True\<rparr>"
  note fl = memory_Flush[OF assms(1)]
  have m1: "in_memory r1" "length (tb_file r1) \<le> length (tb_file r) + n + 5" "tb_index_block r1 = tb_index_block r"
    "tb_options r1 = tb_options r" "tb_last_key r1 = tb_last_key r"
    using fl assms(2) by (simp_all add: r1_def in_memory_def tb_ok_def)
  have filt: "length (fst (FilterBlock_Finish b)) \<le> n" if "tb_filter_block r1 = Some b" for b
  proof (cases "tb_filter_block r")
    case None
    then show ?thesis using fl(6) that by (simp add: r1_def)
  next
    case (Some c)
    then have "b = c \<or> b = StartBlock (tb_offset r + of_nat (length (fst (BlockBuilder_Finish (tb_data_block r))) + 5)) c"
      using fl(6) that by (auto simp: r1_def)
    then show ?thesis using assms(3)[OF Some] assms(2) by blast
  qed
  have none: "tb_filter_block r1 = None \<longleftrightarrow> tb_filter_block r = None" using fl(6) by (auto simp: r1_def)
  obtain fh r2 where s2: "write_filter_block r1 = (fh, r2)" by fastforce
  have m2: "in_memory r2 \<and> length (tb_file r2) \<le> length (tb_file r1) + n + 5 \<and> same_rest r1 r2"
  proof (cases "tb_filter_block r1")
    case None
    then show ?thesis using s2 m1(1) by (simp add: write_filter_block_def same_rest_def)
  next
    case (Some b)
    obtain c b' where f: "FilterBlock_Finish b = (c, b')" by fastforce
    have w: "WriteRawBlock c kNoCompression (r1\<lparr>tb_filter_block := Some b'\<rparr>) = (fh, r2)"
      using s2 Some m1(1) f by (simp add: write_filter_block_def in_memory_def)
    have im: "in_memory (r1\<lparr>tb_filter_block := Some b'\<rparr>)" using m1(1) by (simp add: in_memory_def tb_ok_def)
    note mw = memory_raw[OF im w]
    have "same_rest r1 r2" by (subst mw(4)) (simp add: same_rest_def Some)
    then show ?thesis using mw(1,2) filt[OF Some] f by simp
  qed
  obtain mh r3 where s3: "write_metaindex_block no_snappy fh r2 = (mh, r3)" by fastforce
  have m3: "in_memory r3 \<and> length (tb_file r3) \<le> length (tb_file r2) + n + 5 \<and> same_rest r2 r3"
  proof -
    define b where "b = (case (tb_filter_block r2, opt_filter_policy (tb_options r2)) of
        (Some _, Some (name, _)) \<Rightarrow> BlockBuilder_Add (text_bytes ''filter.'' @ name) (BlockHandle_EncodeTo fh [])
          (new_BlockBuilder (opt_block_restart_interval (tb_options r2)))
      | _ \<Rightarrow> new_BlockBuilder (opt_block_restart_interval (tb_options r2)))"
    have bn: "length (fst (BlockBuilder_Finish b)) \<le> n"
      using assms(4)[of fh] m2 m1(4) none by (auto simp: b_def same_rest_def split: option.splits)
    obtain b' where w: "WriteBlock no_snappy b r2 = (b', mh, r3)"
      using s3 m2 unfolding write_metaindex_block_def Let_def b_def[symmetric] in_memory_def by (auto split: prod.splits)
    note mw = memory_block[OF m2[THEN conjunct1] w]
    have "same_rest r2 r3" by (subst mw(4)) (simp add: same_rest_def)
    then show ?thesis using mw(1,2) bn by simp
  qed
  obtain ih r4 where s4: "write_index_block no_snappy r3 = (ih, r4)" by fastforce
  have m4: "in_memory r4 \<and> length (tb_file r4) \<le> length (tb_file r3) + n + 5"
  proof -
    let ?r = "if tb_pending_index_entry r3
        then add_index_entry (FindShortSuccessor (opt_comparator (tb_options r3)) (tb_last_key r3)) r3 else r3"
    obtain b r5 where w: "WriteBlock no_snappy (tb_index_block ?r) ?r = (b, ih, r5)" and r4: "r4 = r5\<lparr>tb_index_block := b\<rparr>"
      using s4 m3 by (auto simp: write_index_block_def Let_def in_memory_def split: prod.splits)
    have im: "in_memory ?r" using m3 by (simp add: in_memory_def add_index_entry_def tb_ok_def)
    have "length (fst (BlockBuilder_Finish (tb_index_block ?r))) \<le> n"
      using assms(5,6) m1 m2 m3 by (simp add: same_rest_def add_index_entry_def)
    then show ?thesis using memory_block(1,2)[OF im w] r4 by (auto simp: in_memory_def tb_ok_def add_index_entry_def)
  qed
  let ?r5 = "write_footer mh ih r4"
  have "tb_status ?r5 = Status_OK \<and> length (tb_file ?r5) = length (tb_file r4) + 48"
    using m4 by (simp add: write_footer_def in_memory_def Let_def Status_ok_def Status_OK_def kEncodedLength_def kMaxEncodedLength_def)
  moreover have "tb_Finish no_snappy r = (tb_status ?r5, ?r5)"
    by (simp add: tb_Finish_def Let_def r1_def[symmetric] s2 s3 s4)
  ultimately show ?thesis using m1(2) m2 m3 m4 by auto
qed

definition sample_options :: TableOptions where
  "sample_options =
     \<lparr>opt_comparator = InternalKeyComparator BytewiseComparator,
      opt_filter_policy = Some (text_bytes ''leveldb.BuiltinBloomFilter2'', InternalFilterPolicy (NewBloomFilterPolicy 10)),
      opt_block_size = 4096, opt_block_restart_interval = 16, opt_compression = kNoCompression, opt_paranoid_checks = True\<rparr>"

definition sample_key :: slice where
  "sample_key = InternalKey [1] 7 kTypeValue"

lemma sample_key_eq: "sample_key = [1, 1, 7, 0, 0, 0, 0, 0, 0]"
  unfolding sample_key_def by code_simp

lemma sample_builds:
  "\<exists>r. build_table no_snappy sample_options memory_writer [] [(sample_key, [42])] = (Status_OK, r) \<and> length (tb_file r) < 2 ^ 32"
proof -
  let ?P = "InternalFilterPolicy (NewBloomFilterPolicy 10)" and ?C = "InternalKeyComparator BytewiseComparator"
  define r0 where "r0 = new_TableBuilder sample_options memory_writer []"
  let ?r = "tb_Add no_snappy sample_key [42] r0"
  have new_tb: "tb_status r0 = Status_OK" "tb_ops r0 = memory_writer" "tb_options r0 = sample_options" "tb_file r0 = []"
    "tb_pending_index_entry r0 = False" "tb_closed r0 = False" "tb_data_block r0 = new_BlockBuilder 16" "tb_index_block r0 = new_BlockBuilder 1"
    "tb_filter_block r0 = Some (StartBlock 0 (new_FilterBlockBuilder ?P))" "tb_offset r0 = 0"
    by (simp_all add: r0_def new_TableBuilder_def Let_def sample_options_def)
  have put_new: "tb_data_block (put_entry k v r) = BlockBuilder_Add k v (tb_data_block r)" "tb_last_key (put_entry k v r) = k"
    "tb_filter_block (put_entry k v r) = map_option (AddKey k) (tb_filter_block r)" "tb_closed (put_entry k v r) = tb_closed r"
    "\<not> tb_pending_index_entry r \<Longrightarrow> tb_index_block (put_entry k v r) = tb_index_block r" for k v and r :: "slice TableBuilder"
    by (simp_all add: put_entry_def add_index_entry_def Let_def)
  have len: "length (build_block R [(k, v)]) \<le> 27 + length k + length v" if "0 < R" for R k v
    using length_build_block[OF that, of "[(k, v)]"] by simp
  have fin: "fst (BlockBuilder_Finish (BlockBuilder_Add k v (new_BlockBuilder R))) = build_block R [(k, v)]" for R k v
    by (simp add: build_block_def)
  have "CurrentSizeEstimate (tb_data_block (put_entry sample_key [42] r0)) < 4096"
    unfolding put_new new_tb sample_key_eq by code_simp
  then have r: "?r = put_entry sample_key [42] r0"
    by (simp add: tb_Add_put tb_ok_def new_tb Status_ok_def Status_OK_def Let_def) (simp add: sample_options_def)
  have fields: "tb_data_block ?r = BlockBuilder_Add sample_key [42] (new_BlockBuilder 16)" "tb_index_block ?r = new_BlockBuilder 1"
    "tb_options ?r = sample_options" "tb_last_key ?r = sample_key" "tb_file ?r = []"
    "tb_filter_block ?r = Some (AddKey sample_key (StartBlock 0 (new_FilterBlockBuilder ?P)))" "in_memory ?r" "tb_offset ?r = 0"
    unfolding r in_memory_def tb_ok_def by (simp_all add: new_tb put_new Status_ok_def Status_OK_def)
  have "\<exists>r'. tb_Finish no_snappy ?r = (Status_OK, r') \<and> length (tb_file r') \<le> length (tb_file ?r) + 4 * 200 + 68"
  proof (rule memory_Finish)
    show "in_memory ?r" by (rule fields)
    show "length (fst (BlockBuilder_Finish (tb_data_block ?r))) \<le> 200"
      unfolding fields fin using len[of 16 sample_key "[42]"] by (simp add: sample_key_eq)
    show "length (fst (FilterBlock_Finish b)) \<le> 200 \<and>
      (\<forall>i \<le> 200. length (fst (FilterBlock_Finish (StartBlock (tb_offset ?r + of_nat (i + 5)) b))) \<le> 200)"
      if "tb_filter_block ?r = Some b" for b
    proof -
      have b: "b = AddKey sample_key (StartBlock 0 (new_FilterBlockBuilder ?P))" using that unfolding fields by simp
      have "unat (of_nat (i + 5) :: 64 word) div kFilterBase = 0" if "i \<le> 200" for i
        using that by (subst unat_of_nat_64) (simp_all add: kFilterBase_def kFilterBaseLg_def)
      then have "StartBlock (tb_offset ?r + of_nat (i + 5)) b = b" if "i \<le> 200" for i
        using that by (simp add: StartBlock_def StartBlock_loop.simps fields(8) del: of_nat_add)
      moreover have "length (fst (FilterBlock_Finish b)) \<le> 200" unfolding b
        by (simp add: FilterBlock_Finish_def GenerateFilter_def Let_def PutFixed32_def NewBloomFilterPolicy_def
          length_bloom_filter StartBlock_def StartBlock_loop.simps AddKey_def new_FilterBlockBuilder_def InternalFilterPolicy_def)
      ultimately show ?thesis by simp
    qed
    show "length (fst (BlockBuilder_Finish (case (tb_filter_block ?r, opt_filter_policy (tb_options ?r)) of
        (Some _, Some (name, _)) \<Rightarrow> BlockBuilder_Add (text_bytes ''filter.'' @ name) (BlockHandle_EncodeTo fh [])
          (new_BlockBuilder (opt_block_restart_interval (tb_options ?r)))
      | _ \<Rightarrow> new_BlockBuilder (opt_block_restart_interval (tb_options ?r))))) \<le> 200" for fh
    proof -
      have "length (text_bytes ''filter.'' @ text_bytes ''leveldb.BuiltinBloomFilter2'') = 34" by (simp add: text_bytes_def)
      then show ?thesis unfolding fields sample_options_def
        using len[of 16 "text_bytes ''filter.'' @ text_bytes ''leveldb.BuiltinBloomFilter2''" "BlockHandle_EncodeTo fh []"] length_handle[of fh]
        by (simp add: fin)
    qed
    show "length (fst (BlockBuilder_Finish (tb_index_block ?r))) \<le> 200" unfolding fields by code_simp
    show "length (fst (BlockBuilder_Finish (BlockBuilder_Add
        (FindShortSuccessor (opt_comparator (tb_options ?r)) (tb_last_key ?r)) (BlockHandle_EncodeTo h []) (tb_index_block ?r)))) \<le> 200" for h
    proof -
      have "length (FindShortSuccessor ?C sample_key) \<le> 9" by code_simp
      then show ?thesis unfolding fields
        using len[of 1 "FindShortSuccessor ?C sample_key" "BlockHandle_EncodeTo h []"] length_handle[of h]
        by (simp add: fin sample_options_def)
    qed
  qed
  then show ?thesis by (auto simp: build_table_def fields r0_def[symmetric])
qed


lemma short_internal: "short_separators (InternalKeyComparator C)"
  by (auto simp: short_separators_def InternalKeyComparator_def ikc_FindShortestSeparator_def ikc_FindShortSuccessor_def
      Let_def PutFixed64_def ExtractUserKey_def)

definition sample_ok :: "slice \<Rightarrow> bool" where
  "sample_ok k \<longleftrightarrow> 8 \<le> length k"

lemma sample_setup:
  "table_setup no_snappy sample_ok sample_options memory_writer id [] [(sample_key, [42])]"
proof -
  have C: "comparator_contract (InternalKeyComparator BytewiseComparator) sample_ok"
    using bytewise_user.internal.comparator_contract_axioms by (simp add: sample_ok_def [abs_def])
  have S: "snappy_ok no_snappy" by (simp add: snappy_ok_def no_snappy_def)
  show ?thesis unfolding table_setup_def
    using C comparator_contract.axioms(1)[OF C] S memory_appends short_internal[of BytewiseComparator]
    by (simp add: sample_options_def filter_name_ok_def text_bytes_def ascending_def table_bytes_def sample_ok_def sample_key_eq)
qed

section \<open>Properties\<close>

text \<open>C16. A table that was built without an error is opened again, whatever the options, the compression
  and the sizes of its blocks are, and the iterator over it satisfies the contract of iterators for exactly the entries that were
  added: every operation returns, the status stays OK, and seeking goes through the index, the block and the
  blocks behind it to the first entry that is not before the target. The keys are added in ascending order, the
  file is smaller than 4 GiB, and so are the data before compression.\<close>

theorem table_roundtrip:
  assumes "table_setup S ok opt W contents f kvs" and "build_table S opt W f kvs = (Status_OK, r)"
    and "length (contents (tb_file r)) < 2 ^ 32" and "file_reads F (contents (tb_file r))"
  shows "\<exists>T. Table_Open S opt F (of_nat (length (contents (tb_file r)))) = Some (Status_OK, Some T) \<and>
    sorted_iterator (table_iterators S T v) (Compare (opt_comparator opt)) ok (table_at S T v (opt_comparator opt) ok) \<and>
    table_at S T v (opt_comparator opt) ok (Table_NewIterator T) kvs (length kvs)"
  using built_table_opens[OF assms] iterator_at tables.sorted_iterator_axioms by metis

theorem table_roundtrip_witness:
  "\<exists>r T. build_table no_snappy sample_options memory_writer [] [(sample_key, [42])] = (Status_OK, r) \<and>
    Table_Open no_snappy sample_options (memory_table (tb_file r)) (of_nat (length (tb_file r))) = Some (Status_OK, Some T) \<and>
    table_at no_snappy T True (InternalKeyComparator BytewiseComparator) sample_ok (Table_NewIterator T) [(sample_key, [42])] 1"
proof -
  obtain r where r: "build_table no_snappy sample_options memory_writer [] [(sample_key, [42])] = (Status_OK, r)"
    "length (id (tb_file r)) < 2 ^ 32" using sample_builds by auto
  have F: "file_reads (memory_table (tb_file r)) (id (tb_file r))" using memory_table_reads by simp
  show ?thesis using table_roundtrip[OF sample_setup r F, of True] r(1) by (auto simp: sample_options_def)
qed

text \<open>C15. Point lookups in a table of internal keys. \<^verbatim>\<open>InternalGet\<close> always returns with status OK. What it hands
  over is the first entry of the table that is not before the key it looks for; and it hands that entry over
  whenever it has the user key that is looked for. Neither the filter nor the shortened keys of the index
  hide an entry: the block that is searched is the one with the entry.\<close>

theorem table_get:
  assumes set: "table_setup S ok opt W contents f kvs" and build: "build_table S opt W f kvs = (Status_OK, r)"
    and len: "length (contents (tb_file r)) < 2 ^ 32" and F: "file_reads F (contents (tb_file r))"
    and U: "user_comparator U uok" "opt_comparator opt = InternalKeyComparator U"
      "ok = (\<lambda>k. 8 \<le> length k \<and> uok (ExtractUserKey k))"
    and P: "opt_filter_policy opt = None \<or> (\<exists>name P. opt_filter_policy opt = Some (name, InternalFilterPolicy P) \<and> user_filter P)"
    and T: "Table_Open S opt F (of_nat (length (contents (tb_file r)))) = Some (Status_OK, Some T)" and k: "ok k"
  defines "m \<equiv> length (below (Compare (opt_comparator opt)) k fst kvs)"
  shows "\<exists>r. InternalGet S T v k = Some (Status_OK, r) \<and> (\<forall>e. r = Some e \<longrightarrow> m < length kvs \<and> e = kvs ! m) \<and>
    (m < length kvs \<and> ExtractUserKey (fst (kvs ! m)) = ExtractUserKey k \<longrightarrow> r = Some (kvs ! m))"
proof -
  let ?C = "opt_comparator opt"
  obtain bs ss where tab: "readable S ok opt (contents (tb_file r)) bs ss T" and all: "all_entries bs = kvs"
    using built_table_opens[OF set build len F] T by auto
  obtain res where res: "InternalGet S T v k = Some (Status_OK, res)" "\<forall>e. res = Some e \<longrightarrow> m < length kvs \<and> e = kvs ! m"
    using get_first[OF tab k, of v] unfolding all m_def by blast
  have "res = Some (kvs ! m)" if m: "m < length kvs" and same: "ExtractUserKey (fst (kvs ! m)) = ExtractUserKey k"
  proof -
    have "InternalGet S T v k = Some (Status_OK, Some (kvs ! m))"
      using get_at[OF tab U k _ _ _ P, of m v] m same unfolding all m_def by blast
    then show ?thesis using res(1) by simp
  qed
  then show ?thesis using res by blast
qed

theorem table_get_witness:
  "\<exists>r T. build_table no_snappy sample_options memory_writer [] [(sample_key, [42])] = (Status_OK, r) \<and>
    Table_Open no_snappy sample_options (memory_table (tb_file r)) (of_nat (length (tb_file r))) = Some (Status_OK, Some T) \<and>
    InternalGet no_snappy T True (InternalKey [1] 9 kValueTypeForSeek) = Some (Status_OK, Some (sample_key, [42]))"
proof -
  let ?k = "InternalKey [1] 9 kValueTypeForSeek"
  have k: "?k = [1, 1, 9, 0, 0, 0, 0, 0, 0]" by code_simp
  obtain r where r: "build_table no_snappy sample_options memory_writer [] [(sample_key, [42])] = (Status_OK, r)"
    "length (id (tb_file r)) < 2 ^ 32" using sample_builds by auto
  have F: "file_reads (memory_table (tb_file r)) (id (tb_file r))" using memory_table_reads by simp
  obtain T bs ss where T: "Table_Open no_snappy sample_options (memory_table (tb_file r)) (of_nat (length (id (tb_file r)))) =
    Some (Status_OK, Some T)" using built_table_opens[OF sample_setup r F] by blast
  have ok: "sample_ok = (\<lambda>k. 8 \<le> length k \<and> True)" by (simp add: sample_ok_def fun_eq_iff)
  have P: "opt_filter_policy sample_options = None \<or>
    (\<exists>name P. opt_filter_policy sample_options = Some (name, InternalFilterPolicy P) \<and> user_filter P)"
    using bloom.user_filter_axioms by (auto simp: sample_options_def)
  have below: "below (Compare (opt_comparator sample_options)) ?k fst [(sample_key, [42 :: byte])] = []"
    unfolding k sample_key_eq sample_options_def by code_simp
  have "ExtractUserKey sample_key = ExtractUserKey ?k" unfolding k sample_key_eq by code_simp
  then show ?thesis
    using table_get[OF sample_setup r F bytewise_user.user_comparator_axioms _ ok P T, of ?k True] r(1) T below
    by (simp add: sample_options_def sample_ok_def k)
qed

end
