(* ===== verification/Ldb_Db_View.thy ===== *)
theory Ldb_Db_View
  imports Ldb_Db_Iter Ldb_Table
begin

text \<open>
  What a reader of a database sees: the iterator of \<^verbatim>\<open>db/db_iter.cc\<close> over the merging iterator over iterators
  of memtables (\<^verbatim>\<open>db/memtable.cc\<close>) and of tables (\<^verbatim>\<open>table/table.cc\<close>). Each part satisfies the contract of
  iterators; \<open>database_iterator\<close> composes them.
\<close>

section \<open>The iterator of a memtable\<close>

definition mem_iterators :: "MemTable \<Rightarrow> position Iterator" where
  "mem_iterators mt =
     \<lparr>it_Valid = Iter_Valid, it_SeekToFirst = (\<lambda>iter. Some (Iter_SeekToFirst (mt_table mt))),
      it_SeekToLast = (\<lambda>iter. Iter_SeekToLast (mt_table mt)), it_Seek = (\<lambda>k iter. mti_Seek mt k),
      it_Next = (\<lambda>iter. Some (Iter_Next (mt_table mt) iter)),
      it_Prev = Iter_Prev (mt_compare mt) (mt_table mt),
      it_key = mti_key mt, it_value = mti_value mt, it_status = (\<lambda>iter. Status_OK)\<rparr>"

definition entry_kv :: "entry \<Rightarrow> slice \<times> slice" where
  "entry_kv e = (InternalKey (user_key (fst e)) (sequence (fst e)) (vtype (fst e)), snd e)"

definition stands_in :: "MemTable \<Rightarrow> (slice \<Rightarrow> bool) \<Rightarrow> slice list \<Rightarrow> (nat \<Rightarrow> position) \<Rightarrow> bool" where
  "stands_in mt ok ks pos \<longleftrightarrow>
     (\<forall>j. Iter_Valid (pos j) \<longleftrightarrow> j < length ks) \<and>
     (\<forall>j < length ks. Iter_key (mt_table mt) (pos j) = ks ! j \<and> Iter_Next (mt_table mt) (pos j) = pos (Suc j) \<and>
        Iter_Prev (mt_compare mt) (mt_table mt) (pos j) = Some (if j = 0 then None else pos (j - 1))) \<and>
     Iter_SeekToFirst (mt_table mt) = pos 0 \<and> Iter_SeekToLast (mt_table mt) = Some (pos (length ks - 1)) \<and>
     (\<forall>target. ok target \<longrightarrow> Iter_Seek (mt_compare mt) (mt_table mt) target =
        Some (pos (length (below (mt_compare mt) target id ks))))"

definition mem_at :: "Comparator \<Rightarrow> (slice \<Rightarrow> bool) \<Rightarrow> MemTable \<Rightarrow> position \<Rightarrow> entries \<Rightarrow> nat \<Rightarrow> bool" where
  "mem_at C key_ok mt iter kvs i \<longleftrightarrow> mt_user_comparator mt = C \<and>
     (\<exists>es pos. kvs = map entry_kv es \<and> (\<forall>e \<in> set es. entry_small e) \<and> i \<le> length es \<and> iter = pos i \<and>
        stands_in mt (\<lambda>e. 8 \<le> length (ikey_of e) \<and> key_ok (ExtractUserKey (ikey_of e))) (map entry_bytes es) pos) \<and>
     ascending (Compare (InternalKeyComparator C)) (\<lambda>k. 8 \<le> length k \<and> key_ok (ExtractUserKey k)) kvs"

definition short_keys :: "(slice \<Rightarrow> bool) \<Rightarrow> bool" where
  "short_keys key_ok \<longleftrightarrow> (\<forall>u. key_ok u \<longrightarrow> length u + 8 < 2 ^ 32)"

lemma mti_entry:
  assumes "entry_small e" "Iter_key (mt_table mt) iter = entry_bytes e"
  shows "mti_key mt iter = fst (entry_kv e)" "mti_value mt iter = snd (entry_kv e)"
  using assms mt_prefixed[of "snd e" "[]"]
  by (simp_all add: mti_key_def mti_value_def entry_bytes_def encode_entry_eq entry_kv_def entry_small_def InternalKey_eq)

lemma below_entries:
  assumes "mt_user_comparator mt = C" "\<forall>e \<in> set es. entry_small e" "length k < 2 ^ 32"
  shows "length (below (mt_compare mt) (EncodeKey k) id (map entry_bytes es)) =
    length (below (Compare (InternalKeyComparator C)) k fst (map entry_kv es))"
proof -
  have "mt_compare mt (entry_bytes e) (EncodeKey k) = Compare (InternalKeyComparator C) (fst (entry_kv e)) k" if "e \<in> set es" for e
    using assms that ikey_of_entry[of e]
    by (simp add: mt_compare_def KeyComparator_eq EncodeKey_eq entry_kv_def)
  then show ?thesis by (auto simp: below_def filter_map comp_def cong: filter_cong)
qed

context user_comparator
begin

lemma mem_contract:
  assumes short: "short_keys key_ok"
  shows "sorted_iterator (mem_iterators mt) (Compare (InternalKeyComparator C))
    (\<lambda>k. 8 \<le> length k \<and> key_ok (ExtractUserKey k)) (mem_at C key_ok mt)"
proof
  fix iter kvs i assume at: "mem_at C key_ok mt iter kvs i"
  then obtain es pos where C: "mt_user_comparator mt = C" and kvs: "kvs = map entry_kv es" and small: "\<forall>e \<in> set es. entry_small e"
    and i: "i \<le> length es" and iter: "iter = pos i"
    and st: "stands_in mt (\<lambda>e. 8 \<le> length (ikey_of e) \<and> key_ok (ExtractUserKey (ikey_of e))) (map entry_bytes es) pos"
    and asc: "ascending (Compare (InternalKeyComparator C)) (\<lambda>k. 8 \<le> length k \<and> key_ok (ExtractUserKey k)) kvs"
    unfolding mem_at_def by blast
  have mk: "mem_at C key_ok mt (pos j) kvs j" if "j \<le> length es" for j
    unfolding mem_at_def using C kvs small st asc that by blast
  have valid: "Iter_Valid (pos j) \<longleftrightarrow> j < length es" for j using st by (simp add: stands_in_def)
  show "ascending (Compare (InternalKeyComparator C)) (\<lambda>k. 8 \<le> length k \<and> key_ok (ExtractUserKey k)) kvs" by (rule asc)
  show "i \<le> length kvs" using i kvs by simp
  show "it_Valid (mem_iterators mt) iter \<longleftrightarrow> i < length kvs" using valid iter kvs by (simp add: mem_iterators_def)
  show "it_status (mem_iterators mt) iter = Status_OK" by (simp add: mem_iterators_def)
  show "\<exists>it'. it_SeekToFirst (mem_iterators mt) iter = Some it' \<and> mem_at C key_ok mt it' kvs 0"
    using mk[of 0] st by (simp add: mem_iterators_def stands_in_def)
  show "\<exists>it'. it_SeekToLast (mem_iterators mt) iter = Some it' \<and> mem_at C key_ok mt it' kvs (length kvs - 1)"
    using mk[of "length es - 1"] st kvs by (simp add: mem_iterators_def stands_in_def)
  show "\<exists>it'. it_Seek (mem_iterators mt) target iter = Some it' \<and>
      mem_at C key_ok mt it' kvs (length (below (Compare (InternalKeyComparator C)) target fst kvs))"
    if t: "8 \<le> length target \<and> key_ok (ExtractUserKey target)" for target
  proof -
    have len: "length target < 2 ^ 32" using short t by (auto simp: short_keys_def ExtractUserKey_def)
    let ?n = "length (below (Compare (InternalKeyComparator C)) target fst kvs)"
    have n: "?n \<le> length es" unfolding kvs below_def by (metis length_filter_le length_map)
    have "mti_Seek mt target = Some (pos ?n)"
      using st t len below_entries[OF C small len] by (simp add: stands_in_def mti_Seek_def EncodeKey_eq kvs)
    then show ?thesis using mk[OF n] by (simp add: mem_iterators_def)
  qed
  assume il: "i < length kvs"
  then have e: "Iter_key (mt_table mt) iter = entry_bytes (es ! i)" "entry_small (es ! i)"
    using st small iter kvs by (simp_all add: stands_in_def)
  show "(it_key (mem_iterators mt) iter, it_value (mem_iterators mt) iter) = kvs ! i"
    using mti_entry[OF e(2,1)] il kvs by (simp add: mem_iterators_def)
  show "\<exists>it'. it_Next (mem_iterators mt) iter = Some it' \<and> mem_at C key_ok mt it' kvs (Suc i)"
    using mk[of "Suc i"] st il kvs iter by (simp add: mem_iterators_def stands_in_def)
  show "\<exists>it'. it_Prev (mem_iterators mt) iter = Some it' \<and> mem_at C key_ok mt it' kvs (if i = 0 then length kvs else i - 1)"
  proof (cases i)
    case 0
    have "pos (length es) = None" using valid[of "length es"] by (simp add: Iter_Valid_def)
    then show ?thesis using 0 mk[of "length es"] st il kvs iter by (simp add: mem_iterators_def stands_in_def)
  next
    case (Suc j)
    then show ?thesis using mk[of j] st il kvs iter by (simp add: mem_iterators_def stands_in_def)
  qed
qed

lemma mem_at_new:
  assumes rep: "mt_rep key_ok mt es" and C: "mt_user_comparator mt = C"
  shows "\<exists>kvs. mem_at C key_ok mt None kvs (length kvs) \<and> set kvs = entry_kv ` set es"
proof -
  obtain es' where es': "set es' = set es" "sl_keys (mt_compare mt) (mt_table mt) (map entry_bytes es')"
    using rep by (auto simp: mt_rep_def)
  have small: "\<forall>e \<in> set es'. entry_small e" using rep es'(1) by (simp add: mt_rep_def)
  have ok: "\<forall>e \<in> set (map entry_bytes es'). 8 \<le> length (ikey_of e) \<and> key_ok (ExtractUserKey (ikey_of e))"
    using mt_rep_keys[OF rep] es'(1) by auto
  have cmp: "mt_compare mt = KeyComparator (InternalKeyComparator C)" using C by (simp add: mt_compare_def)
  obtain pos where pos: "stands_in mt (\<lambda>e. 8 \<le> length (ikey_of e) \<and> key_ok (ExtractUserKey (ikey_of e))) (map entry_bytes es') pos"
    using compare_order.iterator_positions[OF mt_order, of "mt_table mt" "map entry_bytes es'"] es'(2) ok
    unfolding stands_in_def cmp by blast
  have none: "pos (length es') = None" using pos by (auto simp: stands_in_def Iter_Valid_def)
  have "sorted_wrt (\<lambda>a b. mt_compare mt (entry_bytes a) (entry_bytes b) < 0) es'"
    using sl_keys_sorted[OF es'(2)] by (simp add: sorted_wrt_map)
  then have "sorted_wrt (\<lambda>a b. Compare (InternalKeyComparator C) (fst (entry_kv a)) (fst (entry_kv b)) < 0) es'"
    by (rule sorted_wrt_mono_rel[rotated])
      (use small in \<open>simp add: cmp KeyComparator_eq ikey_of_entry entry_kv_def\<close>)
  then have "ascending (Compare (InternalKeyComparator C)) (\<lambda>k. 8 \<le> length k \<and> key_ok (ExtractUserKey k)) (map entry_kv es')"
    using internal.compare_order_axioms rep es'(1)
    by (auto simp: ascending_def sorted_wrt_map entry_kv_def mt_rep_def)
  then have "mem_at C key_ok mt None (map entry_kv es') (length (map entry_kv es'))"
    unfolding mem_at_def using C small pos none by (intro conjI exI[of _ es'] exI[of _ pos]) simp_all
  then show ?thesis using es'(1) by (intro exI[of _ "map entry_kv es'"]) simp
qed

end


section \<open>Iterators of objects\<close>

text \<open>A call through a pointer: the object an iterator belongs to is part of its state.\<close>

definition it_object :: "('c \<Rightarrow> 'i Iterator) \<Rightarrow> ('c \<times> 'i) Iterator" where
  "it_object I =
     \<lparr>it_Valid = (\<lambda>(c, it). it_Valid (I c) it), it_SeekToFirst = (\<lambda>(c, it). map_option (Pair c) (it_SeekToFirst (I c) it)),
      it_SeekToLast = (\<lambda>(c, it). map_option (Pair c) (it_SeekToLast (I c) it)),
      it_Seek = (\<lambda>target (c, it). map_option (Pair c) (it_Seek (I c) target it)),
      it_Next = (\<lambda>(c, it). map_option (Pair c) (it_Next (I c) it)),
      it_Prev = (\<lambda>(c, it). map_option (Pair c) (it_Prev (I c) it)),
      it_key = (\<lambda>(c, it). it_key (I c) it), it_value = (\<lambda>(c, it). it_value (I c) it),
      it_status = (\<lambda>(c, it). it_status (I c) it)\<rparr>"

lemma object_contract:
  assumes I: "\<And>c. sorted_iterator (I c) compare ok (at c)"
  shows "sorted_iterator (it_object I) compare ok (\<lambda>(c, it). at c it)"
proof
  fix x kvs i assume "(case x of (c, it) \<Rightarrow> at c it) kvs i"
  then obtain c it where x: "x = (c, it)" and at: "at c it kvs i" by (cases x) auto
  note J = I[of c]
  show "ascending compare ok kvs" "i \<le> length kvs" by (rule sorted_iterator.ascending[OF J at], rule sorted_iterator.bound[OF J at])
  show "it_Valid (it_object I) x \<longleftrightarrow> i < length kvs" "it_status (it_object I) x = Status_OK"
    using sorted_iterator.Valid[OF J at] sorted_iterator.status[OF J at] by (simp_all add: x it_object_def)
  show "\<exists>x'. it_SeekToFirst (it_object I) x = Some x' \<and> (case x' of (c, it) \<Rightarrow> at c it) kvs 0"
    "\<exists>x'. it_SeekToLast (it_object I) x = Some x' \<and> (case x' of (c, it) \<Rightarrow> at c it) kvs (length kvs - 1)"
    using sorted_iterator.SeekToFirst[OF J at] sorted_iterator.SeekToLast[OF J at] by (auto simp: x it_object_def)
  show "\<exists>x'. it_Seek (it_object I) target x = Some x' \<and> (case x' of (c, it) \<Rightarrow> at c it) kvs (length (below compare target fst kvs))"
    if "ok target" for target using sorted_iterator.Seek[OF J at that] by (auto simp: x it_object_def)
  assume i: "i < length kvs"
  show "(it_key (it_object I) x, it_value (it_object I) x) = kvs ! i"
    using sorted_iterator.entry[OF J at i] by (simp add: x it_object_def)
  show "\<exists>x'. it_Next (it_object I) x = Some x' \<and> (case x' of (c, it) \<Rightarrow> at c it) kvs (Suc i)"
    using sorted_iterator.Next[OF J at i] by (auto simp: x it_object_def)
  show "\<exists>x'. it_Prev (it_object I) x = Some x' \<and> (case x' of (c, it) \<Rightarrow> at c it) kvs (if i = 0 then length kvs else i - 1)"
    using sorted_iterator.Prev[OF J at i] by (auto simp: x it_object_def simp del: split_paired_Ex)
qed

type_synonym child = "(MemTable \<times> position) + (Table \<times> (NewIter, NewIter) TwoLevelIterator)"

definition child_iterators :: "Snappy \<Rightarrow> bool \<Rightarrow> child Iterator" where
  "child_iterators S v = it_sum (it_object mem_iterators) (it_object (\<lambda>T. table_iterators S T v))"

definition child_at :: "Comparator \<Rightarrow> (slice \<Rightarrow> bool) \<Rightarrow> Snappy \<Rightarrow> bool \<Rightarrow> child \<Rightarrow> entries \<Rightarrow> nat \<Rightarrow> bool" where
  "child_at C key_ok S v =
     case_sum (\<lambda>(mt, it). mem_at C key_ok mt it)
       (\<lambda>(T, it). table_at S T v (InternalKeyComparator C) (\<lambda>k. 8 \<le> length k \<and> key_ok (ExtractUserKey k)) it)"

definition internal_at ::
  "Comparator \<Rightarrow> (slice \<Rightarrow> bool) \<Rightarrow> Snappy \<Rightarrow> bool \<Rightarrow> Status + child + child MergingIterator \<Rightarrow> entries \<Rightarrow> nat \<Rightarrow> bool" where
  "internal_at C key_ok S v =
     merged_at (child_iterators S v) (Compare (InternalKeyComparator C))
       (\<lambda>k. 8 \<le> length k \<and> key_ok (ExtractUserKey k)) (child_at C key_ok S v)"

context user_comparator
begin

lemma child_contract:
  assumes "short_keys key_ok"
  shows "sorted_iterator (child_iterators S v) (Compare (InternalKeyComparator C))
    (\<lambda>k. 8 \<le> length k \<and> key_ok (ExtractUserKey k)) (child_at C key_ok S v)"
  unfolding child_iterators_def child_at_def
  by (intro sum_contract object_contract mem_contract[OF assms] tables.sorted_iterator_axioms)

lemma internal_contract:
  assumes "short_keys key_ok"
  shows "sorted_iterator (merged (child_iterators S v)) (Compare (InternalKeyComparator C))
    (\<lambda>k. 8 \<le> length k \<and> key_ok (ExtractUserKey k)) (internal_at C key_ok S v)"
  unfolding merged_def merged_at_def internal_at_def
  by (intro sum_contract empty_iters.sorted_iterator_axioms child_contract[OF assms]
      sorted_iterator.merging_contract[OF child_contract[OF assms]])

lemma db_over_children:
  assumes "short_keys key_ok"
  shows "db_iterator C key_ok (merged (child_iterators S v)) (internal_at C key_ok S v)"
  by (intro db_iterator.intro user_comparator_axioms internal_contract[OF assms])

end

text \<open>Keys of less than 2 GiB, under the order of bytes.\<close>

definition short_key :: "slice \<Rightarrow> bool" where
  "short_key u \<longleftrightarrow> length u < 2 ^ 31"

interpretation short_bytewise: user_comparator BytewiseComparator short_key
proof
  fix a b c :: slice
  note L = bytewise.refl bytewise.swap bytewise.trans bytewise.separator bytewise.successor
  assume a: "short_key a"
  show "Compare BytewiseComparator a a = 0" using L(1) by simp
  show "short_key (FindShortSuccessor BytewiseComparator a) \<and> Compare BytewiseComparator a (FindShortSuccessor BytewiseComparator a) \<le> 0"
    using bytewise.successor[of a] successor_loop_le[of a 0] a by (simp add: short_key_def BytewiseComparator_def)
  assume b: "short_key b"
  show "(Compare BytewiseComparator a b < 0) = (0 < Compare BytewiseComparator b a)" using L(2) by blast
  show "FindShortestSeparator BytewiseComparator a b = a" if "Compare BytewiseComparator a b = 0"
    using bytewise_user.separator_equal[OF _ _ that] by blast
  show "short_key (FindShortestSeparator BytewiseComparator a b) \<and>
      Compare BytewiseComparator a (FindShortestSeparator BytewiseComparator a b) \<le> 0 \<and>
      Compare BytewiseComparator (FindShortestSeparator BytewiseComparator a b) b < 0"
    if "Compare BytewiseComparator a b < 0"
    using bytewise.separator[OF _ _ that] bytewise_separator(3)[of a b] that a
    by (simp add: short_key_def BytewiseComparator_def compare_slice_order)
  show "Compare BytewiseComparator a c \<le> 0" if "short_key c" "Compare BytewiseComparator a b \<le> 0" "Compare BytewiseComparator b c \<le> 0"
    using L(3) that by blast
qed

lemma short_keys_short: "short_keys short_key"
  by (simp add: short_keys_def short_key_def)

interpretation bytewise_db: db_iterator BytewiseComparator short_key "merged (child_iterators S v)"
    "internal_at BytewiseComparator short_key S v" for S v
  by (rule short_bytewise.db_over_children[OF short_keys_short])

section \<open>What is seen, independent of the order\<close>

lemma ent_of_mem: "kvs ! j = (k, v) \<Longrightarrow> ent_user kvs j = ExtractUserKey k \<and> ent_seq kvs j = sequence (the (ParseInternalKey k)) \<and>
    (ent_live kvs j \<longleftrightarrow> vtype (the (ParseInternalKey k)) = kTypeValue)"
  by (simp add: ent_user_def ent_seq_def ent_live_def)

definition newest_at :: "Comparator \<Rightarrow> SequenceNumber \<Rightarrow> (slice \<times> slice) set \<Rightarrow> slice \<Rightarrow> slice \<Rightarrow> bool" where
  "newest_at C s E k v \<longleftrightarrow> (k, v) \<in> E \<and> vtype (the (ParseInternalKey k)) = kTypeValue \<and> sequence (the (ParseInternalKey k)) \<le> s \<and>
     (\<forall>(k', v') \<in> E. Compare C (ExtractUserKey k') (ExtractUserKey k) = 0 \<longrightarrow> key_num k < key_num k' \<longrightarrow>
        s < sequence (the (ParseInternalKey k')))"

context user_comparator
begin

lemma internal_order: "compare_order (Compare (InternalKeyComparator C)) (\<lambda>k. 8 \<le> length k \<and> key_ok (ExtractUserKey k))"
  by (rule internal.compare_order_axioms)

lemma user_view_newest:
  assumes "ascending (Compare (InternalKeyComparator C)) (\<lambda>k. 8 \<le> length k \<and> key_ok (ExtractUserKey k)) kvs"
  shows "(u, v) \<in> set (user_view C s kvs) \<longleftrightarrow> (\<exists>k. newest_at C s (set kvs) k v \<and> ExtractUserKey k = u)"
proof -
  have sorted: "i < j \<Longrightarrow> j < length kvs \<Longrightarrow> ikc_Compare C (fst (kvs ! i)) (fst (kvs ! j)) < 0" for i j
    using assms by (simp add: ascending_def sorted_wrt_iff_nth_less)
  have okk: "i < length kvs \<Longrightarrow> key_ok (ent_user kvs i)" for i using assms by (auto simp: ascending_def ent_user_def)
  have before: "key_num (fst (kvs ! j)) < key_num (fst (kvs ! i)) \<longleftrightarrow> i < j"
    if "i < length kvs" "j < length kvs" "Compare C (ent_user kvs i) (ent_user kvs j) = 0" for i j
  proof -
    have eq: "Compare C (ent_user kvs j) (ent_user kvs i) = 0" using that eq_swap[OF okk okk] by simp
    show ?thesis
      using sorted[of i j] sorted[of j i] that eq by (cases i j rule: linorder_cases) (auto simp: ikc_less ent_user_def)
  qed
  have shows_newest: "shows_at C s kvs j \<longleftrightarrow> newest_at C s (set kvs) (fst (kvs ! j)) (snd (kvs ! j))" if j: "j < length kvs" for j
  proof -
    have "(\<forall>i < j. Compare C (ent_user kvs i) (ent_user kvs j) = 0 \<longrightarrow> s < ent_seq kvs i) \<longleftrightarrow>
      (\<forall>i < length kvs. Compare C (ent_user kvs i) (ent_user kvs j) = 0 \<longrightarrow>
         key_num (fst (kvs ! j)) < key_num (fst (kvs ! i)) \<longrightarrow> s < ent_seq kvs i)"
    proof (intro iffI allI impI)
      fix i
      assume "\<forall>i < j. Compare C (ent_user kvs i) (ent_user kvs j) = 0 \<longrightarrow> s < ent_seq kvs i" "i < length kvs"
        "Compare C (ent_user kvs i) (ent_user kvs j) = 0" "key_num (fst (kvs ! j)) < key_num (fst (kvs ! i))"
      then show "s < ent_seq kvs i" using before[of i j] j by blast
    next
      fix i
      assume "\<forall>i < length kvs. Compare C (ent_user kvs i) (ent_user kvs j) = 0 \<longrightarrow>
         key_num (fst (kvs ! j)) < key_num (fst (kvs ! i)) \<longrightarrow> s < ent_seq kvs i" "i < j" "Compare C (ent_user kvs i) (ent_user kvs j) = 0"
      then show "s < ent_seq kvs i" using before[of i j] j by simp
    qed
    also have "\<dots> \<longleftrightarrow> (\<forall>(k', v') \<in> set kvs. Compare C (ExtractUserKey k') (ExtractUserKey (fst (kvs ! j))) = 0 \<longrightarrow>
         key_num (fst (kvs ! j)) < key_num k' \<longrightarrow> s < sequence (the (ParseInternalKey k')))"
      unfolding all_set_conv_all_nth case_prod_beta ent_user_def ent_seq_def by simp
    finally have all: "(\<forall>i < j. Compare C (ent_user kvs i) (ent_user kvs j) = 0 \<longrightarrow> s < ent_seq kvs i) \<longleftrightarrow>
      (\<forall>(k', v') \<in> set kvs. Compare C (ExtractUserKey k') (ExtractUserKey (fst (kvs ! j))) = 0 \<longrightarrow>
         key_num (fst (kvs ! j)) < key_num k' \<longrightarrow> s < sequence (the (ParseInternalKey k')))" .
    have "shows_at C s kvs j \<longleftrightarrow> ent_live kvs j \<and> ent_seq kvs j \<le> s \<and>
      (\<forall>i < j. Compare C (ent_user kvs i) (ent_user kvs j) = 0 \<longrightarrow> s < ent_seq kvs i)" using j by (simp add: shows_at_def)
    then show ?thesis unfolding all newest_at_def using j by (simp add: ent_live_def ent_seq_def)
  qed
  have "(u, v) \<in> set (user_view C s kvs) \<longleftrightarrow> (\<exists>j < length kvs. shows_at C s kvs j \<and> ent_user kvs j = u \<and> snd (kvs ! j) = v)"
    by (auto simp: user_view_def image_iff)
  also have "\<dots> \<longleftrightarrow> (\<exists>k. newest_at C s (set kvs) k v \<and> ExtractUserKey k = u)"
  proof
    assume "\<exists>j < length kvs. shows_at C s kvs j \<and> ent_user kvs j = u \<and> snd (kvs ! j) = v"
    then show "\<exists>k. newest_at C s (set kvs) k v \<and> ExtractUserKey k = u" using shows_newest by (auto simp: ent_user_def)
  next
    assume "\<exists>k. newest_at C s (set kvs) k v \<and> ExtractUserKey k = u"
    then obtain k where k: "newest_at C s (set kvs) k v" "ExtractUserKey k = u" by blast
    then obtain j where j: "j < length kvs" "kvs ! j = (k, v)" by (auto simp: newest_at_def in_set_conv_nth)
    then show "\<exists>j < length kvs. shows_at C s kvs j \<and> ent_user kvs j = u \<and> snd (kvs ! j) = v"
      using k shows_newest[OF j(1)] by (intro exI[of _ j]) (simp add: ent_user_def)
  qed
  finally show ?thesis .
qed

end

section \<open>Properties\<close>

text \<open>C8. The iterator of a database. Its children are iterators over memtables and over tables, any number of them, with
  no internal key in common. The iterator satisfies the contract of iterators in the order of user keys: every operation returns,
  forward and backward and across changes of direction. What it runs over is, for each user key, the value of its newest entry that the snapshot
  includes, wherever it is stored, and nothing for a key whose newest such entry is a deletion.\<close>

theorem database_iterator:
  assumes U: "user_comparator U uok" and short: "short_keys uok" and len: "length its = length L"
    and at: "\<And>c. c < length its \<Longrightarrow> \<exists>i. child_at U uok S v (its ! c) (L ! c) i"
    and apart: "mutually_apart (Compare (InternalKeyComparator U)) L"
    and keys: "\<forall>kvs \<in> set L. db_keys_ok kvs" and s: "s \<le> kMaxSequenceNumber"
  shows "\<exists>vis. sorted_iterator (db_iterators (merged (child_iterators S v))) (Compare U) uok (db_at U (internal_at U uok S v)) \<and>
    db_at U (internal_at U uok S v)
      (NewDBIterator U (NewMergingIterator (child_iterators S v) (InternalKeyComparator U) its) s seed) vis (length vis) \<and>
    (\<forall>u val. (u, val) \<in> set vis \<longleftrightarrow> (\<exists>k. newest_at U s (\<Union> (set (map set L))) k val \<and> ExtractUserKey k = u))"
proof -
  let ?IC = "InternalKeyComparator U" and ?ok = "\<lambda>k. 8 \<le> length k \<and> uok (ExtractUserKey k)"
  let ?kvs = "map snd (merge_lists (Compare ?IC) L)"
  note child = user_comparator.child_contract[OF U short, of S v]
  have order: "compare_order (Compare ?IC) ?ok"
    using user_comparator.internal_order[OF U] .
  obtain j where j: "internal_at U uok S v (NewMergingIterator (child_iterators S v) ?IC its) ?kvs j"
    using merged_new[OF order child refl len apart at] unfolding internal_at_def by blast
  have asc: "ascending (Compare ?IC) ?ok (L ! c)" if "c < length L" for c
    using at[of c] sorted_iterator.ascending[OF child] that len by metis
  have set: "set ?kvs = \<Union> (set (map set L))"
    by (rule set_merge_lists) (use merge_lists_merged[OF order asc apart] in auto)
  have keys': "db_keys_ok ?kvs" using keys unfolding db_keys_ok_def set by auto
  have db: "db_iterator U uok (merged (child_iterators S v)) (internal_at U uok S v)"
    by (rule user_comparator.db_over_children[OF U short])
  have asc_all: "ascending (Compare ?IC) ?ok ?kvs" using sorted_iterator.ascending[OF db_iterator.axioms(2)[OF db] j] .
  show ?thesis
    using db_iterator.db_contract[OF db] db_iterator.db_new[OF db j keys' s]
      user_comparator.user_view_newest[OF U asc_all] unfolding set by blast
qed

lemma short_setup:
  "table_setup no_snappy (\<lambda>k. 8 \<le> length k \<and> short_key (ExtractUserKey k)) sample_options memory_writer id [] [(sample_key, [42])]"
proof -
  have C: "comparator_contract (InternalKeyComparator BytewiseComparator) (\<lambda>k. 8 \<le> length k \<and> short_key (ExtractUserKey k))"
    by (rule short_bytewise.internal.comparator_contract_axioms)
  have "8 \<le> length sample_key \<and> short_key (ExtractUserKey sample_key)"
    by (simp add: sample_key_eq short_key_def ExtractUserKey_def)
  then show ?thesis unfolding table_setup_def
    using C comparator_contract.axioms(1)[OF C] sample_setup by (simp add: table_setup_def ascending_def sample_options_def)
qed

theorem database_iterator_witness:
  "\<exists>its vis. length its = 2 \<and>
    db_at BytewiseComparator (internal_at BytewiseComparator short_key no_snappy True)
      (NewDBIterator BytewiseComparator (NewMergingIterator (child_iterators no_snappy True)
         (InternalKeyComparator BytewiseComparator) its) 8 1) vis (length vis) \<and> ([1], [42]) \<in> set vis"
proof -
  let ?U = BytewiseComparator and ?IC = "InternalKeyComparator BytewiseComparator"
  let ?e = "(\<lparr>user_key = [1], sequence = 9, vtype = kTypeValue\<rparr>, [43]) :: entry"
  have small: "entry_small ?e" by (simp add: entry_small_def kMaxSequenceNumber_def)
  obtain mt where mt: "mt_rep short_key mt [?e]" "mt_user_comparator mt = ?U"
    using short_bytewise.mt_rep_Add[OF short_bytewise.mt_rep_new _ small] by (auto simp: new_MemTable_def short_key_def)
  obtain kvs where kvs: "mem_at ?U short_key mt None kvs (length kvs)" "set kvs = {entry_kv ?e}"
    using short_bytewise.mem_at_new[OF mt] by auto
  obtain r where r: "build_table no_snappy sample_options memory_writer [] [(sample_key, [42])] = (Status_OK, r)"
    "length (id (tb_file r)) < 2 ^ 32" using sample_builds by auto
  have F: "file_reads (memory_table (tb_file r)) (id (tb_file r))" using memory_table_reads by simp
  obtain T bs ss where T: "readable no_snappy (\<lambda>k. 8 \<le> length k \<and> short_key (ExtractUserKey k)) sample_options (id (tb_file r)) bs ss T"
    "all_entries bs = [(sample_key, [42])]" using built_table_opens[OF short_setup r F] by blast
  have tab: "table_at no_snappy T True ?IC (\<lambda>k. 8 \<le> length k \<and> short_key (ExtractUserKey k)) (Table_NewIterator T) [(sample_key, [42])] 1"
    using iterator_at[OF T(1)] unfolding T(2) by (simp add: sample_options_def)
  let ?its = "[Inl (mt, None), Inr (T, Table_NewIterator T)] :: child list" and ?L = "[kvs, [(sample_key, [42])]]"
  have ek: "entry_kv ?e = ([1, 1, 9, 0, 0, 0, 0, 0, 0], [43])" unfolding entry_kv_def by code_simp
  have pk: "ParseInternalKey sample_key = Some \<lparr>user_key = [1], sequence = 7, vtype = kTypeValue\<rparr>"
    "ParseInternalKey [1, 1, 9, 0, 0, 0, 0, 0, 0] = Some \<lparr>user_key = [1], sequence = 9, vtype = kTypeValue\<rparr>"
    unfolding sample_key_eq by code_simp+
  have ne: "Compare ?IC sample_key [1, 1, 9, 0, 0, 0, 0, 0, 0] \<noteq> 0" "Compare ?IC [1, 1, 9, 0, 0, 0, 0, 0, 0] sample_key \<noteq> 0"
    unfolding sample_key_eq by code_simp+
  have at: "\<exists>i. child_at ?U short_key no_snappy True (?its ! c) (?L ! c) i" if "c < length ?its" for c
    using that kvs(1) tab by (auto simp: child_at_def less_Suc_eq)
  have apart: "mutually_apart (Compare ?IC) ?L"
    using ne kvs(2) ek by (auto simp: mutually_apart_def keys_apart_def less_Suc_eq)
  have keys: "\<forall>kvs \<in> set ?L. db_keys_ok kvs" using kvs(2) ek pk by (auto simp: db_keys_ok_def)
  obtain vis where vis: "db_at ?U (internal_at ?U short_key no_snappy True)
      (NewDBIterator ?U (NewMergingIterator (child_iterators no_snappy True) ?IC ?its) 8 1) vis (length vis)"
    "\<forall>u val. (u, val) \<in> set vis \<longleftrightarrow> (\<exists>k. newest_at ?U 8 (\<Union> (set (map set ?L))) k val \<and> ExtractUserKey k = u)"
    using database_iterator[OF short_bytewise.user_comparator_axioms short_keys_short _ at apart keys, of 8 1]
    by (auto simp: kMaxSequenceNumber_def)
  have "newest_at ?U 8 (\<Union> (set (map set ?L))) sample_key [42]"
    using kvs(2) ek pk by (auto simp: newest_at_def)
  moreover have "ExtractUserKey sample_key = [1]" unfolding sample_key_eq by code_simp
  ultimately have "([1], [42]) \<in> set vis" using vis(2) by blast
  moreover have "length ?its = 2" by simp
  ultimately show ?thesis using vis(1) by blast
qed

end
