(* ===== verification/Ldb_Files.thy ===== *)
theory Ldb_Files
  imports Ldb_Version_Edit Ldb_Db_View
begin

text \<open>
  The files of a level and the searches in them: the first part of \<^verbatim>\<open>db/version_set.cc\<close>.

  A \<^verbatim>\<open>FileMetaData*\<close> is a value of some type \<open>'f\<close>, and \<open>F\<close> gives the structure it points to. The
  internal-key comparator is given by its user comparator, the only member it has. Index variables of type \<^verbatim>\<open>uint32_t\<close>
  are 32-bit words, so the binary search is a partial function; it is shown to return on fewer than \<open>2 ^ 31\<close> files. So is the loop of
  \<^verbatim>\<open>GetOverlappingInputs\<close>, which starts over in level 0 whenever a file widens the range; it is shown to return the
  least set of files that contains those in the range and every file that overlaps one of them.
\<close>

section \<open>Searching\<close>

partial_function (option) find_file_loop ::
  "Comparator \<Rightarrow> ('f \<Rightarrow> FileMetaData) \<Rightarrow> 'f list \<Rightarrow> slice \<Rightarrow> 32 word \<Rightarrow> 32 word \<Rightarrow> 32 word option" where
  "find_file_loop U F files key left right =
     (if left < right then
        let mid = (left + right) div 2; f = F (files ! unat mid) in
        if ikc_Compare U (largest f) key < 0 then find_file_loop U F files key (mid + 1) right
        else find_file_loop U F files key left mid
      else Some right)"

definition FindFile :: "Comparator \<Rightarrow> ('f \<Rightarrow> FileMetaData) \<Rightarrow> 'f list \<Rightarrow> slice \<Rightarrow> 32 word option" where
  "FindFile U F files key = find_file_loop U F files key 0 (of_nat (length files))"

text \<open>A null pointer to a user key is \<open>None\<close>.\<close>

definition AfterFile :: "Comparator \<Rightarrow> slice option \<Rightarrow> FileMetaData \<Rightarrow> bool" where
  "AfterFile U ukey f = (case ukey of None \<Rightarrow> False | Some k \<Rightarrow> Compare U k (ExtractUserKey (largest f)) > 0)"

definition BeforeFile :: "Comparator \<Rightarrow> slice option \<Rightarrow> FileMetaData \<Rightarrow> bool" where
  "BeforeFile U ukey f = (case ukey of None \<Rightarrow> False | Some k \<Rightarrow> Compare U k (ExtractUserKey (smallest f)) < 0)"

fun some_overlap_loop ::
  "Comparator \<Rightarrow> ('f \<Rightarrow> FileMetaData) \<Rightarrow> slice option \<Rightarrow> slice option \<Rightarrow> 'f list \<Rightarrow> bool" where
  "some_overlap_loop U F small large [] = False"
| "some_overlap_loop U F small large (f # files) =
     (if AfterFile U small (F f) \<or> BeforeFile U large (F f) then some_overlap_loop U F small large files else True)"

definition SomeFileOverlapsRange ::
  "Comparator \<Rightarrow> bool \<Rightarrow> ('f \<Rightarrow> FileMetaData) \<Rightarrow> 'f list \<Rightarrow> slice option \<Rightarrow> slice option \<Rightarrow> bool option" where
  "SomeFileOverlapsRange U disjoint_sorted_files F files smallest_user_key largest_user_key =
     (if \<not> disjoint_sorted_files then Some (some_overlap_loop U F smallest_user_key largest_user_key files)
      else case (case smallest_user_key of
                   None \<Rightarrow> Some 0
                 | Some k \<Rightarrow> FindFile U F files (InternalKey k kMaxSequenceNumber kValueTypeForSeek)) of
             None \<Rightarrow> None
           | Some index \<Rightarrow>
               if unat index \<ge> length files then Some False
               else Some (\<not> BeforeFile U largest_user_key (F (files ! unat index))))"

section \<open>The files that overlap a range\<close>

text \<open>The loop of \<^verbatim>\<open>Version::GetOverlappingInputs\<close>. The bounds are \<open>user_begin\<close> and \<open>user_end\<close>, which are
  meaningful when the pointers \<open>begin\<close> and \<open>end\<close> are not null.\<close>

partial_function (option) overlap_loop ::
  "Comparator \<Rightarrow> ('f \<Rightarrow> FileMetaData) \<Rightarrow> 'f list \<Rightarrow> nat \<Rightarrow> bool \<Rightarrow> bool \<Rightarrow> nat \<Rightarrow> slice \<Rightarrow> slice \<Rightarrow> 'f list \<Rightarrow> 'f list option" where
  "overlap_loop U F files level has_begin has_end i user_begin user_end inputs =
     (if i < length files then
        let f = files ! i; file_start = ExtractUserKey (smallest (F f)); file_limit = ExtractUserKey (largest (F f)) in
        if has_begin \<and> Compare U file_limit user_begin < 0 then
          overlap_loop U F files level has_begin has_end (i + 1) user_begin user_end inputs
        else if has_end \<and> Compare U file_start user_end > 0 then
          overlap_loop U F files level has_begin has_end (i + 1) user_begin user_end inputs
        else if level = 0 \<and> has_begin \<and> Compare U file_start user_begin < 0 then
          overlap_loop U F files level has_begin has_end 0 file_start user_end []
        else if level = 0 \<and> has_end \<and> Compare U file_limit user_end > 0 then
          overlap_loop U F files level has_begin has_end 0 user_begin file_limit []
        else overlap_loop U F files level has_begin has_end (i + 1) user_begin user_end (inputs @ [f])
      else Some inputs)"

definition GetOverlappingInputs ::
  "Comparator \<Rightarrow> ('f \<Rightarrow> FileMetaData) \<Rightarrow> (nat \<Rightarrow> 'f list) \<Rightarrow> nat \<Rightarrow> slice option \<Rightarrow> slice option \<Rightarrow> 'f list option" where
  "GetOverlappingInputs U F files level b e =
     overlap_loop U F (files level) level (b \<noteq> None) (e \<noteq> None) 0
       (case b of None \<Rightarrow> [] | Some k \<Rightarrow> ExtractUserKey k) (case e of None \<Rightarrow> [] | Some k \<Rightarrow> ExtractUserKey k) []"

section \<open>Ranges and boundary files\<close>

fun range_loop :: "Comparator \<Rightarrow> ('f \<Rightarrow> FileMetaData) \<Rightarrow> 'f list \<Rightarrow> slice \<times> slice \<Rightarrow> slice \<times> slice" where
  "range_loop U F [] r = r"
| "range_loop U F (f # inputs) (small, large) = range_loop U F inputs
     (if ikc_Compare U (smallest (F f)) small < 0 then smallest (F f) else small,
      if ikc_Compare U (largest (F f)) large > 0 then largest (F f) else large)"

definition GetRange :: "Comparator \<Rightarrow> ('f \<Rightarrow> FileMetaData) \<Rightarrow> 'f list \<Rightarrow> slice \<times> slice" where
  "GetRange U F inputs =
     (case inputs of [] \<Rightarrow> ([], []) | f # fs \<Rightarrow> range_loop U F fs (smallest (F f), largest (F f)))"

definition GetRange2 :: "Comparator \<Rightarrow> ('f \<Rightarrow> FileMetaData) \<Rightarrow> 'f list \<Rightarrow> 'f list \<Rightarrow> slice \<times> slice" where
  "GetRange2 U F inputs1 inputs2 = GetRange U F (inputs1 @ inputs2)"

fun largest_key_loop :: "Comparator \<Rightarrow> ('f \<Rightarrow> FileMetaData) \<Rightarrow> 'f list \<Rightarrow> slice \<Rightarrow> slice" where
  "largest_key_loop U F [] large = large"
| "largest_key_loop U F (f # files) large =
     largest_key_loop U F files (if ikc_Compare U (largest (F f)) large > 0 then largest (F f) else large)"

definition FindLargestKey :: "Comparator \<Rightarrow> ('f \<Rightarrow> FileMetaData) \<Rightarrow> 'f list \<Rightarrow> slice option" where
  "FindLargestKey U F files =
     (case files of [] \<Rightarrow> None | f # fs \<Rightarrow> Some (largest_key_loop U F fs (largest (F f))))"

definition boundary_file :: "Comparator \<Rightarrow> FileMetaData \<Rightarrow> slice \<Rightarrow> bool" where
  "boundary_file U f largest_key \<longleftrightarrow> ikc_Compare U (smallest f) largest_key > 0 \<and>
     Compare U (ExtractUserKey (smallest f)) (ExtractUserKey largest_key) = 0"

fun boundary_loop :: "Comparator \<Rightarrow> ('f \<Rightarrow> FileMetaData) \<Rightarrow> slice \<Rightarrow> 'f list \<Rightarrow> 'f option \<Rightarrow> 'f option" where
  "boundary_loop U F largest_key [] found = found"
| "boundary_loop U F largest_key (f # files) found = boundary_loop U F largest_key files
     (if boundary_file U (F f) largest_key \<and>
         (case found of None \<Rightarrow> True | Some g \<Rightarrow> ikc_Compare U (smallest (F f)) (smallest (F g)) < 0)
      then Some f else found)"

definition FindSmallestBoundaryFile :: "Comparator \<Rightarrow> ('f \<Rightarrow> FileMetaData) \<Rightarrow> 'f list \<Rightarrow> slice \<Rightarrow> 'f option" where
  "FindSmallestBoundaryFile U F level_files largest_key = boundary_loop U F largest_key level_files None"

partial_function (option) add_boundary_loop ::
  "Comparator \<Rightarrow> ('f \<Rightarrow> FileMetaData) \<Rightarrow> 'f list \<Rightarrow> slice \<Rightarrow> 'f list \<Rightarrow> 'f list option" where
  "add_boundary_loop U F level_files largest_key compaction_files =
     (case FindSmallestBoundaryFile U F level_files largest_key of
        None \<Rightarrow> Some compaction_files
      | Some f \<Rightarrow> add_boundary_loop U F level_files (largest (F f)) (compaction_files @ [f]))"

definition AddBoundaryInputs :: "Comparator \<Rightarrow> ('f \<Rightarrow> FileMetaData) \<Rightarrow> 'f list \<Rightarrow> 'f list \<Rightarrow> 'f list option" where
  "AddBoundaryInputs U F level_files compaction_files =
     (case FindLargestKey U F compaction_files of
        None \<Rightarrow> Some compaction_files
      | Some k \<Rightarrow> add_boundary_loop U F level_files k compaction_files)"

fun TotalFileSize :: "('f \<Rightarrow> FileMetaData) \<Rightarrow> 'f list \<Rightarrow> 64 word" where
  "TotalFileSize F [] = 0"
| "TotalFileSize F (f # files) = file_size (F f) + TotalFileSize F files"


section \<open>The binary search\<close>

lemma parsed_num:
  assumes "ParseInternalKey k = Some p"
  shows "key_num k = PackSequenceAndType (sequence p) (vtype p)" "sequence p \<le> kMaxSequenceNumber"
    "ExtractUserKey k = user_key p"
proof -
  have k: "k = user_key p @ EncodeFixed64 (PackSequenceAndType (sequence p) (vtype p))"
    using Append_ParseInternalKey[OF assms] by (simp add: AppendInternalKey_eq)
  then show "key_num k = PackSequenceAndType (sequence p) (vtype p)" "ExtractUserKey k = user_key p" by simp_all
  show "sequence p \<le> kMaxSequenceNumber"
    using assms seq_of_num by (auto simp: ParseInternalKey_def Let_def split: if_splits)
qed

lemma parsed_le:
  assumes "ParseInternalKey k \<noteq> None"
  shows "key_num k \<le> PackSequenceAndType kMaxSequenceNumber kValueTypeForSeek"
proof -
  obtain p where p: "ParseInternalKey k = Some p" using assms by blast
  have "\<not> PackSequenceAndType kMaxSequenceNumber kTypeValue < PackSequenceAndType (sequence p) (vtype p)"
    using pack_less[OF _ parsed_num(2)[OF p], of kMaxSequenceNumber kTypeValue "vtype p"] parsed_num(2)[OF p] by auto
  then show ?thesis using parsed_num(1)[OF p] by (simp add: kValueTypeForSeek_def not_less)
qed

lemma find_file_loop_finds:
  assumes n: "length files < 2 ^ 31"
    and cut: "\<And>i j. i \<le> j \<Longrightarrow> j < length files \<Longrightarrow> ikc_Compare U (largest (F (files ! j))) key < 0 \<Longrightarrow>
      ikc_Compare U (largest (F (files ! i))) key < 0"
    and r: "unat left \<le> unat right" "unat right \<le> length files"
    and lo: "\<And>i. i < unat left \<Longrightarrow> ikc_Compare U (largest (F (files ! i))) key < 0"
    and hi: "\<And>i. unat right \<le> i \<Longrightarrow> i < length files \<Longrightarrow> \<not> ikc_Compare U (largest (F (files ! i))) key < 0"
  shows "\<exists>m. find_file_loop U F files key left right = Some m \<and> unat m \<le> length files \<and>
    (\<forall>i < length files. ikc_Compare U (largest (F (files ! i))) key < 0 \<longleftrightarrow> i < unat m)"
  using r lo hi
proof (induction "unat right - unat left" arbitrary: left right rule: less_induct)
  case less
  let ?P = "\<lambda>i. ikc_Compare U (largest (F (files ! i))) key < 0"
  show ?case
  proof (cases "left < right")
    case False
    then have "unat left = unat right" using less.prems(1) by (simp add: word_less_nat_alt)
    then have "?P i \<longleftrightarrow> i < unat right" if "i < length files" for i
      using less.prems(3,4)[of i] that not_less by metis
    moreover have "find_file_loop U F files key left right = Some right"
      using False by (subst find_file_loop.simps) simp
    ultimately show ?thesis using less.prems(2) by blast
  next
    case True
    let ?mid = "(left + right) div 2"
    have lr: "unat left < unat right" using True by (simp add: word_less_nat_alt)
    have "unat (left + right) = unat left + unat right"
      using less.prems(2) n lr by (simp add: unat_word_ariths)
    then have mid: "unat ?mid = (unat left + unat right) div 2" by (simp add: unat_div_distrib)
    then have bounds: "unat left \<le> unat ?mid" "unat ?mid < unat right" using lr by auto
    have mid1: "unat (?mid + 1) = unat ?mid + 1" using bounds less.prems(2) n by (simp add: unat_word_ariths)
    show ?thesis
    proof (cases "?P (unat ?mid)")
      case True': True
      have "\<exists>m. find_file_loop U F files key (?mid + 1) right = Some m \<and> unat m \<le> length files \<and>
          (\<forall>i < length files. ?P i \<longleftrightarrow> i < unat m)"
      proof (rule less.hyps)
        show "unat right - unat (?mid + 1) < unat right - unat left" using mid1 bounds lr by linarith
        show "unat (?mid + 1) \<le> unat right" using mid1 bounds by linarith
        show "?P i" if "i < unat (?mid + 1)" for i
          using cut[of i "unat ?mid"] True' that mid1 bounds less.prems(2) by simp
      qed (use less.prems in auto)
      then show ?thesis using True True' by (subst find_file_loop.simps) (simp add: Let_def)
    next
      case False
      have "\<exists>m. find_file_loop U F files key left ?mid = Some m \<and> unat m \<le> length files \<and>
          (\<forall>i < length files. ?P i \<longleftrightarrow> i < unat m)"
      proof (rule less.hyps)
        show "unat ?mid - unat left < unat right - unat left" using bounds by linarith
        show "\<not> ?P i" if "unat ?mid \<le> i" "i < length files" for i
          using cut[of "unat ?mid" i] False that by auto
      qed (use less.prems bounds in auto)
      then show ?thesis using True False by (subst find_file_loop.simps) (simp add: Let_def)
    qed
  qed
qed

lemma FindFile_finds:
  assumes "length files < 2 ^ 31"
    and "\<And>i j. i \<le> j \<Longrightarrow> j < length files \<Longrightarrow> ikc_Compare U (largest (F (files ! j))) key < 0 \<Longrightarrow>
      ikc_Compare U (largest (F (files ! i))) key < 0"
  shows "\<exists>m. FindFile U F files key = Some m \<and> unat m \<le> length files \<and>
    (\<forall>i < length files. ikc_Compare U (largest (F (files ! i))) key < 0 \<longleftrightarrow> i < unat m)"
proof -
  have "unat (of_nat (length files) :: 32 word) = length files"
    using assms(1) by (intro unat_of_nat_32) simp
  then show ?thesis unfolding FindFile_def using assms by (intro find_file_loop_finds) auto
qed

lemma restart_less: "(a :: nat) < b \<Longrightarrow> (a + c) * (n + 1) + (n - 0) < (b + c) * (n + 1) + (n - i)"
proof -
  assume "a < b"
  then have "(a + c + 1) * (n + 1) \<le> (b + c) * (n + 1)" by (intro mult_le_mono1) simp
  then show ?thesis by simp
qed

definition bound :: "bool \<Rightarrow> slice \<Rightarrow> slice option" where
  "bound has k = (if has then Some k else None)"

definition in_range :: "Comparator \<Rightarrow> slice option \<Rightarrow> slice option \<Rightarrow> FileMetaData \<Rightarrow> bool" where
  "in_range U b e f \<longleftrightarrow>
     (case b of None \<Rightarrow> True | Some k \<Rightarrow> \<not> Compare U (ExtractUserKey (largest f)) k < 0) \<and>
     (case e of None \<Rightarrow> True | Some k \<Rightarrow> \<not> Compare U (ExtractUserKey (smallest f)) k > 0)"

definition files_overlap :: "Comparator \<Rightarrow> FileMetaData \<Rightarrow> FileMetaData \<Rightarrow> bool" where
  "files_overlap U f g \<longleftrightarrow> in_range U (Some (ExtractUserKey (smallest g))) (Some (ExtractUserKey (largest g))) f"

context user_comparator
begin

abbreviation usmall :: "FileMetaData \<Rightarrow> slice" where "usmall f \<equiv> ExtractUserKey (smallest f)"
abbreviation ularge :: "FileMetaData \<Rightarrow> slice" where "ularge f \<equiv> ExtractUserKey (largest f)"

definition file_ok :: "FileMetaData \<Rightarrow> bool" where
  "file_ok f \<longleftrightarrow> ikey_ok (smallest f) \<and> ikey_ok (largest f) \<and> ParseInternalKey (smallest f) \<noteq> None \<and>
     ParseInternalKey (largest f) \<noteq> None \<and> ikc_Compare C (smallest f) (largest f) \<le> 0"

definition range_ok :: "slice option \<Rightarrow> bool" where
  "range_ok b \<longleftrightarrow> (case b of None \<Rightarrow> True | Some k \<Rightarrow> key_ok k)"

definition disjoint_files :: "FileMetaData list \<Rightarrow> bool" where
  "disjoint_files fs \<longleftrightarrow> (\<forall>f \<in> set fs. file_ok f) \<and> sorted_wrt (\<lambda>f g. ikc_Compare C (largest f) (smallest g) < 0) fs"

lemma file_okD:
  assumes "file_ok f"
  shows "key_ok (usmall f)" "key_ok (ularge f)" "Compare C (usmall f) (ularge f) \<le> 0" "\<not> Compare C (ularge f) (usmall f) < 0"
  using assms not_less[of "ularge f" "usmall f"] by (auto simp: file_ok_def ikc_le)

lemma disjoint_largest:
  assumes d: "disjoint_files fs" and ij: "i < j" "j < length fs"
  shows "ikc_Compare C (largest (fs ! i)) (largest (fs ! j)) < 0"
proof -
  have "ikc_Compare C (largest (fs ! i)) (smallest (fs ! j)) < 0"
    using d ij by (simp add: disjoint_files_def sorted_wrt_iff_nth_less)
  moreover have "file_ok (fs ! i)" "file_ok (fs ! j)" using d ij by (auto simp: disjoint_files_def)
  ultimately show ?thesis
    using internal.less_le_trans[of "largest (fs ! i)" "smallest (fs ! j)" "largest (fs ! j)"] by (simp add: file_ok_def)
qed

lemma FindFile_disjoint:
  assumes n: "length files < 2 ^ 31" and d: "disjoint_files (map F files)" and k: "ikey_ok key"
  shows "\<exists>m. FindFile C F files key = Some m \<and> unat m \<le> length files \<and>
    (\<forall>i < length files. ikc_Compare C (largest (F (files ! i))) key < 0 \<longleftrightarrow> i < unat m)"
proof (rule FindFile_finds[OF n])
  fix i j
  assume ij: "i \<le> j" "j < length files" and less: "ikc_Compare C (largest (F (files ! j))) key < 0"
  have "file_ok (F (files ! i))" "file_ok (F (files ! j))" using d ij by (auto simp: disjoint_files_def)
  then show "ikc_Compare C (largest (F (files ! i))) key < 0"
    using disjoint_largest[OF d, of i j] internal.less_trans[of "largest (F (files ! i))" "largest (F (files ! j))" key] ij less k
    by (cases "i = j") (auto simp: file_ok_def)
qed

lemma in_range_iff:
  assumes "file_ok f" "range_ok b" "range_ok e"
  shows "in_range C b e f \<longleftrightarrow> \<not> AfterFile C b f \<and> \<not> BeforeFile C e f"
  using file_okD[OF assms(1)] assms(2,3) swap not_less
  by (cases b; cases e) (force simp: in_range_def AfterFile_def BeforeFile_def range_ok_def)+

lemma some_overlap_exact:
  assumes "\<forall>f \<in> set files. file_ok (F f)" "range_ok b" "range_ok e"
  shows "some_overlap_loop C F b e files \<longleftrightarrow> (\<exists>f \<in> set files. in_range C b e (F f))"
  using assms(1) in_range_iff[OF _ assms(2,3)] by (induction files) auto

lemma seek_key_less:
  assumes "ParseInternalKey k \<noteq> None"
  shows "ikc_Compare C k (InternalKey u kMaxSequenceNumber kValueTypeForSeek) < 0 \<longleftrightarrow> Compare C (ExtractUserKey k) u < 0"
  using parsed_le[OF assms] by (auto simp: ikc_less InternalKey_eq not_less)

lemma disjoint_smallest:
  assumes d: "disjoint_files fs" and ij: "i \<le> j" "j < length fs"
  shows "Compare C (usmall (fs ! i)) (usmall (fs ! j)) \<le> 0"
proof (cases "i = j")
  case True
  have "file_ok (fs ! j)" using d ij by (simp add: disjoint_files_def)
  then show ?thesis using True refl[of "usmall (fs ! j)"] by (simp add: file_ok_def)
next
  case False
  have fi: "file_ok (fs ! i)" and fj: "file_ok (fs ! j)" using d ij by (auto simp: disjoint_files_def)
  have "ikc_Compare C (largest (fs ! i)) (smallest (fs ! j)) < 0"
    using d ij False by (simp add: disjoint_files_def sorted_wrt_iff_nth_less)
  then have "Compare C (ularge (fs ! i)) (usmall (fs ! j)) \<le> 0" by (auto simp: ikc_less)
  then show ?thesis using file_okD[OF fi] file_okD[OF fj] trans by blast
qed

lemma SomeFileOverlapsRange_exact:
  assumes n: "length files < 2 ^ 31" and ok: "\<forall>f \<in> set files. file_ok (F f)" and b: "range_ok b" and e: "range_ok e"
    and d: "disjoint \<Longrightarrow> disjoint_files (map F files)"
  shows "SomeFileOverlapsRange C disjoint F files b e = Some (\<exists>f \<in> set files. in_range C b e (F f))"
proof (cases disjoint)
  case False
  then show ?thesis using some_overlap_exact[OF ok b e] by (simp add: SomeFileOverlapsRange_def)
next
  case True
  note d = d[OF True]
  let ?idx = "case b of None \<Rightarrow> Some 0 | Some k \<Rightarrow> FindFile C F files (InternalKey k kMaxSequenceNumber kValueTypeForSeek)"
  have fok: "file_ok (F (files ! i))" if "i < length files" for i using ok that by simp
  obtain m where m: "?idx = Some m" "unat m \<le> length files"
    "\<And>i. i < length files \<Longrightarrow> AfterFile C b (F (files ! i)) \<longleftrightarrow> i < unat m"
  proof (cases b)
    case None
    then show ?thesis using that[of 0] by (simp add: AfterFile_def)
  next
    case (Some k)
    have k: "ikey_ok (InternalKey k kMaxSequenceNumber kValueTypeForSeek)"
      using b Some by (simp add: range_ok_def InternalKey_eq)
    obtain m where m: "FindFile C F files (InternalKey k kMaxSequenceNumber kValueTypeForSeek) = Some m" "unat m \<le> length files"
      "\<And>i. i < length files \<Longrightarrow> ikc_Compare C (largest (F (files ! i))) (InternalKey k kMaxSequenceNumber kValueTypeForSeek) < 0 \<longleftrightarrow> i < unat m"
      using FindFile_disjoint[OF n d k] by blast
    have "AfterFile C b (F (files ! i)) \<longleftrightarrow> i < unat m" if i: "i < length files" for i
    proof -
      have "0 < Compare C k (ularge (F (files ! i))) \<longleftrightarrow> Compare C (ularge (F (files ! i))) k < 0"
        using swap[of "ularge (F (files ! i))" k] fok[OF i] b Some by (simp add: file_ok_def range_ok_def)
      moreover have "ParseInternalKey (largest (F (files ! i))) \<noteq> None" using fok[OF i] by (simp add: file_ok_def)
      ultimately show ?thesis using m(3)[OF i] seek_key_less[of "largest (F (files ! i))" k] Some by (simp add: AfterFile_def)
    qed
    then show ?thesis using that[OF _ m(2)] m(1) Some by simp
  qed
  have rng: "in_range C b e (F (files ! i)) \<longleftrightarrow> unat m \<le> i \<and> \<not> BeforeFile C e (F (files ! i))" if "i < length files" for i
    using in_range_iff[OF fok[OF that] b e] m(3)[OF that] by (auto simp: not_less)
  have first: "\<not> BeforeFile C e (F (files ! unat m))" if i: "i < length files" "unat m \<le> i" "\<not> BeforeFile C e (F (files ! i))" for i
  proof (cases e)
    case (Some k)
    have *: "Compare C (usmall (F (files ! unat m))) (usmall (F (files ! i))) \<le> 0"
      using disjoint_smallest[OF d, of "unat m" i] i by simp
    have ks: "key_ok k" "key_ok (usmall (F (files ! unat m)))" "key_ok (usmall (F (files ! i)))"
      using e Some fok[of "unat m"] fok[of i] i by (auto simp: range_ok_def file_ok_def)
    show ?thesis using i(3) Some trans[OF ks(2,3,1) *] not_less[OF ks(1,3)] not_less[OF ks(1,2)] by (simp add: BeforeFile_def)
  qed (simp add: BeforeFile_def)
  have "(\<exists>f \<in> set files. in_range C b e (F f)) \<longleftrightarrow> (\<exists>i < length files. in_range C b e (F (files ! i)))"
    by (metis in_set_conv_nth)
  also have "\<dots> \<longleftrightarrow> unat m < length files \<and> \<not> BeforeFile C e (F (files ! unat m))"
    using rng first m(2) by (meson order_le_less_trans order_refl)
  finally show ?thesis using True m(1) by (auto simp: SomeFileOverlapsRange_def not_le)
qed

definition overlap_closed :: "('f \<Rightarrow> FileMetaData) \<Rightarrow> 'f list \<Rightarrow> 'f set \<Rightarrow> bool" where
  "overlap_closed F files S \<longleftrightarrow> (\<forall>f \<in> S. \<forall>g \<in> set files. files_overlap C (F f) (F g) \<longrightarrow> g \<in> S)"

definition in_files :: "('f \<Rightarrow> FileMetaData) \<Rightarrow> 'f list \<Rightarrow> slice option \<Rightarrow> slice option \<Rightarrow> 'f set" where
  "in_files F files b e = {g \<in> set files. in_range C b e (F g)}"

lemma in_range_bound:
  "in_range C (bound hb ub) (bound he ue) f \<longleftrightarrow>
     (hb \<longrightarrow> \<not> Compare C (ularge f) ub < 0) \<and> (he \<longrightarrow> \<not> Compare C (usmall f) ue > 0)"
  by (simp add: in_range_def bound_def)

lemma overlap_loop_sorted:
  assumes "level \<noteq> 0" "i \<le> length files"
  shows "overlap_loop C F files level hb he i ub ue inputs =
    Some (inputs @ filter (\<lambda>f. in_range C (bound hb ub) (bound he ue) (F f)) (drop i files))"
  using assms(2)
proof (induction "length files - i" arbitrary: i inputs)
  case 0
  then show ?case by (subst overlap_loop.simps) simp
next
  case (Suc n)
  then have i: "i < length files" by simp
  have "overlap_loop C F files level hb he (i + 1) ub ue inputs' =
    Some (inputs' @ filter (\<lambda>f. in_range C (bound hb ub) (bound he ue) (F f)) (drop (i + 1) files))" for inputs'
    by (rule Suc.hyps(1)) (use Suc in simp_all)
  then show ?case
    using i assms(1) by (subst overlap_loop.simps, cases hb; cases he)
      (simp_all add: Let_def Cons_nth_drop_Suc[OF i, symmetric] in_range_bound)
qed

text \<open>Widening the range by a file that reaches out of it adds only files that overlap the file.\<close>

lemma widen_begin:
  assumes S: "overlap_closed F files S" "in_files F files (Some b) e \<subseteq> S"
    and ok: "\<forall>f \<in> set files. file_ok (F f)" "key_ok b" and f: "f \<in> in_files F files (Some b) e" "Compare C (usmall (F f)) b < 0"
  shows "in_files F files (Some (usmall (F f))) e \<subseteq> S"
proof
  fix g assume g: "g \<in> in_files F files (Some (usmall (F f))) e"
  have fok: "file_ok (F f)" and gok: "file_ok (F g)" using f g ok(1) by (auto simp: in_files_def)
  show "g \<in> S"
  proof (cases "Compare C (ularge (F g)) b < 0")
    case False
    then have "g \<in> in_files F files (Some b) e" using g by (auto simp: in_files_def in_range_def)
    then show ?thesis using S(2) by blast
  next
    case True
    have "\<not> Compare C (ularge (F f)) b < 0" using f by (auto simp: in_files_def in_range_def)
    then have "Compare C b (ularge (F f)) \<le> 0" using not_less[of "ularge (F f)" b] file_okD(2)[OF fok] ok(2) by blast
    moreover have "Compare C (usmall (F g)) b < 0"
      using le_less_trans[of "usmall (F g)" "ularge (F g)" b] file_okD[OF gok] True ok(2) by blast
    ultimately have "Compare C (usmall (F g)) (ularge (F f)) < 0"
      using less_le_trans[of "usmall (F g)" b "ularge (F f)"] file_okD[OF gok] file_okD[OF fok] ok(2) by blast
    then have "\<not> Compare C (ularge (F f)) (usmall (F g)) < 0"
      using swap[of "usmall (F g)" "ularge (F f)"] file_okD[OF gok] file_okD[OF fok] by auto
    moreover have "\<not> 0 < Compare C (usmall (F f)) (ularge (F g))"
      using g swap[of "ularge (F g)" "usmall (F f)"] file_okD[OF gok] file_okD[OF fok] by (auto simp: in_files_def in_range_def)
    ultimately have "files_overlap C (F f) (F g)" by (simp add: files_overlap_def in_range_def)
    then show ?thesis using S f g by (auto simp: overlap_closed_def in_files_def)
  qed
qed

lemma widen_end:
  assumes S: "overlap_closed F files S" "in_files F files b (Some e) \<subseteq> S"
    and ok: "\<forall>f \<in> set files. file_ok (F f)" "key_ok e" and f: "f \<in> in_files F files b (Some e)" "Compare C (ularge (F f)) e > 0"
  shows "in_files F files b (Some (ularge (F f))) \<subseteq> S"
proof
  fix g assume g: "g \<in> in_files F files b (Some (ularge (F f)))"
  have fok: "file_ok (F f)" and gok: "file_ok (F g)" using f g ok(1) by (auto simp: in_files_def)
  show "g \<in> S"
  proof (cases "Compare C (usmall (F g)) e > 0")
    case False
    then have "g \<in> in_files F files b (Some e)" using g by (auto simp: in_files_def in_range_def)
    then show ?thesis using S(2) by blast
  next
    case True
    have "\<not> Compare C (usmall (F f)) e > 0" using f by (auto simp: in_files_def in_range_def)
    then have "Compare C (usmall (F f)) e \<le> 0" by simp
    moreover have "Compare C e (usmall (F g)) < 0"
      using swap[of e "usmall (F g)"] file_okD(1)[OF gok] True ok(2) by blast
    ultimately have "Compare C (usmall (F f)) (usmall (F g)) < 0"
      using le_less_trans[of "usmall (F f)" e "usmall (F g)"] file_okD[OF gok] file_okD[OF fok] ok(2) by blast
    then have "Compare C (usmall (F f)) (ularge (F g)) < 0"
      using less_le_trans[of "usmall (F f)" "usmall (F g)" "ularge (F g)"] file_okD[OF gok] file_okD[OF fok] by blast
    moreover have "\<not> Compare C (ularge (F f)) (usmall (F g)) < 0"
      using g swap[of "ularge (F f)" "usmall (F g)"] file_okD[OF gok] file_okD[OF fok] by (auto simp: in_files_def in_range_def)
    ultimately have "files_overlap C (F f) (F g)" by (simp add: files_overlap_def in_range_def)
    then show ?thesis using S f g by (auto simp: overlap_closed_def in_files_def)
  qed
qed

lemma wider_begin:
  assumes "\<forall>f \<in> set files. file_ok (F f)" "key_ok k" "key_ok k'" "Compare C k' k < 0"
  shows "in_files F files (Some k) e \<subseteq> in_files F files (Some k') e"
  using assms less_trans[of "ularge (F g)" k' k for g] file_okD(2) by (fastforce simp: in_files_def in_range_def)

lemma wider_end:
  assumes "\<forall>f \<in> set files. file_ok (F f)" "key_ok k" "key_ok k'" "Compare C k' k > 0"
  shows "in_files F files b (Some k) \<subseteq> in_files F files b (Some k')"
proof
  fix g assume g: "g \<in> in_files F files b (Some k)"
  have kk: "Compare C k k' < 0" using assms swap by blast
  have gok: "key_ok (usmall (F g))" using g assms(1) file_okD(1) by (auto simp: in_files_def)
  have "Compare C (usmall (F g)) k \<le> 0" using g by (auto simp: in_files_def in_range_def)
  then have "Compare C (usmall (F g)) k' < 0" using le_less_trans[OF gok assms(2,3) _ kk] by blast
  then show "g \<in> in_files F files b (Some k')" using g by (auto simp: in_files_def in_range_def)
qed

lemma inside_closed:
  assumes ok: "\<forall>f \<in> set files. file_ok (F f)" "hb \<Longrightarrow> key_ok ub" "he \<Longrightarrow> key_ok ue"
    and inside: "\<forall>f \<in> in_files F files (bound hb ub) (bound he ue).
      (hb \<longrightarrow> \<not> Compare C (usmall (F f)) ub < 0) \<and> (he \<longrightarrow> \<not> Compare C (ularge (F f)) ue > 0)"
  shows "overlap_closed F files (in_files F files (bound hb ub) (bound he ue))"
  unfolding overlap_closed_def
proof (intro ballI impI)
  fix f g assume f: "f \<in> in_files F files (bound hb ub) (bound he ue)" and g: "g \<in> set files" and fg: "files_overlap C (F f) (F g)"
  have fok: "file_ok (F f)" and gok: "file_ok (F g)" using f g ok(1) by (auto simp: in_files_def)
  have le: "Compare C (usmall (F f)) (ularge (F g)) \<le> 0" "\<not> Compare C (ularge (F f)) (usmall (F g)) < 0"
    using fg by (auto simp: files_overlap_def in_range_def)
  have "\<not> Compare C (ularge (F g)) ub < 0" if hb
    using inside f that le(1) le_less_trans[of "usmall (F f)" "ularge (F g)" ub] file_okD[OF fok] file_okD[OF gok] ok(2) by blast
  moreover have "\<not> Compare C (usmall (F g)) ue > 0" if he
  proof -
    have "Compare C (ularge (F f)) ue \<le> 0" using inside f that by auto
    moreover have "Compare C (usmall (F g)) (ularge (F f)) \<le> 0"
      using not_less[of "ularge (F f)" "usmall (F g)"] le(2) file_okD[OF fok] file_okD[OF gok] by blast
    ultimately show ?thesis
      using trans[of "usmall (F g)" "ularge (F f)" ue] file_okD[OF fok] file_okD[OF gok] ok(3) that by fastforce
  qed
  ultimately show "g \<in> in_files F files (bound hb ub) (bound he ue)" using g by (simp add: in_files_def in_range_bound)
qed

text \<open>What the loop returns: the files in a wider range, and these are the least set that contains the files in the
  range and is closed under overlapping.\<close>

definition least_overlap :: "('f \<Rightarrow> FileMetaData) \<Rightarrow> 'f list \<Rightarrow> slice option \<Rightarrow> slice option \<Rightarrow> 'f list \<Rightarrow> bool" where
  "least_overlap F files b e R \<longleftrightarrow> (\<exists>b' e'. R = filter (\<lambda>f. in_range C b' e' (F f)) files) \<and>
     in_files F files b e \<subseteq> set R \<and> overlap_closed F files (set R) \<and>
     (\<forall>S. overlap_closed F files S \<and> in_files F files b e \<subseteq> S \<longrightarrow> set R \<subseteq> S)"

lemma least_overlapD:
  assumes "least_overlap F files b e R"
  shows "in_files F files b e \<subseteq> set R" "overlap_closed F files (set R)" "set R \<subseteq> set files"
    "overlap_closed F files S \<Longrightarrow> in_files F files b e \<subseteq> S \<Longrightarrow> set R \<subseteq> S"
  using assms by (auto simp: least_overlap_def)

lemma least_overlap_wider:
  assumes "least_overlap F files b' e' R" "in_files F files b e \<subseteq> in_files F files b' e'"
    and "\<And>S. overlap_closed F files S \<Longrightarrow> in_files F files b e \<subseteq> S \<Longrightarrow> in_files F files b' e' \<subseteq> S"
  shows "least_overlap F files b e R"
  using assms unfolding least_overlap_def by blast

lemma filter_shorter:
  assumes "x \<in> set xs" "Q x" "\<not> P x" "\<And>y. y \<in> set xs \<Longrightarrow> P y \<Longrightarrow> Q y"
  shows "length (filter P xs) < length (filter Q xs)"
proof -
  have "filter P xs = filter P (filter Q xs)" using assms(4) by (auto intro: filter_cong)
  moreover have "length (filter P (filter Q xs)) < length (filter Q xs)"
    using assms(1-3) by (intro length_filter_less[of x]) auto
  ultimately show ?thesis by simp
qed

definition outside_begin :: "('f \<Rightarrow> FileMetaData) \<Rightarrow> 'f list \<Rightarrow> bool \<Rightarrow> slice \<Rightarrow> nat" where
  "outside_begin F files hb ub = length (filter (\<lambda>g. hb \<and> Compare C (usmall (F g)) ub < 0) files)"

definition outside_end :: "('f \<Rightarrow> FileMetaData) \<Rightarrow> 'f list \<Rightarrow> bool \<Rightarrow> slice \<Rightarrow> nat" where
  "outside_end F files he ue = length (filter (\<lambda>g. he \<and> Compare C (ularge (F g)) ue > 0) files)"

lemma outside_less:
  assumes "\<forall>f \<in> set files. file_ok (F f)" "f \<in> set files"
  shows "hb \<Longrightarrow> key_ok ub \<Longrightarrow> Compare C (usmall (F f)) ub < 0 \<Longrightarrow>
      outside_begin F files hb (usmall (F f)) < outside_begin F files hb ub"
    and "he \<Longrightarrow> key_ok ue \<Longrightarrow> Compare C (ularge (F f)) ue > 0 \<Longrightarrow>
      outside_end F files he (ularge (F f)) < outside_end F files he ue"
proof -
  have fok: "key_ok (usmall (F f))" "key_ok (ularge (F f))" using file_okD[of "F f"] assms by auto
  show "outside_begin F files hb (usmall (F f)) < outside_begin F files hb ub"
    if "hb" "key_ok ub" "Compare C (usmall (F f)) ub < 0"
    unfolding outside_begin_def
    by (rule filter_shorter[of f])
      (use assms that fok refl[of "usmall (F f)"] less_trans[OF _ fok(1) that(2) _ that(3)] file_okD(1) in auto)
  show "outside_end F files he (ularge (F f)) < outside_end F files he ue"
    if h: "he" "key_ok ue" "Compare C (ularge (F f)) ue > 0"
    unfolding outside_end_def
  proof (rule filter_shorter[of f])
    fix g assume g: "g \<in> set files" "he \<and> 0 < Compare C (ularge (F g)) (ularge (F f))"
    have gk: "key_ok (ularge (F g))" using g assms file_okD(2) by blast
    have "Compare C ue (ularge (F f)) < 0" "Compare C (ularge (F f)) (ularge (F g)) < 0"
      using h g swap gk fok by blast+
    then have "Compare C ue (ularge (F g)) < 0" using less_trans gk fok h by blast
    then show "he \<and> 0 < Compare C (ularge (F g)) ue" using swap gk h by blast
  qed (use assms that fok refl[of "ularge (F f)"] in auto)
qed

lemma overlap_loop_level0:
  assumes ok: "\<forall>f \<in> set files. file_ok (F f)" and bounds: "hb \<Longrightarrow> key_ok ub" "he \<Longrightarrow> key_ok ue"
    and i: "i \<le> length files"
    and inputs: "inputs = filter (\<lambda>f. in_range C (bound hb ub) (bound he ue) (F f)) (take i files)"
    and inside: "\<forall>f \<in> set inputs. (hb \<longrightarrow> \<not> Compare C (usmall (F f)) ub < 0) \<and> (he \<longrightarrow> \<not> Compare C (ularge (F f)) ue > 0)"
  shows "\<exists>R. overlap_loop C F files 0 hb he i ub ue inputs = Some R \<and> least_overlap F files (bound hb ub) (bound he ue) R"
  using bounds i inputs inside
proof (induction "(outside_begin F files hb ub + outside_end F files he ue) * (length files + 1) + (length files - i)"
    arbitrary: i ub ue inputs rule: less_induct)
  case less
  let ?in = "\<lambda>f. in_range C (bound hb ub) (bound he ue) (F f)"
  show ?case
  proof (cases "i < length files")
    case False
    have R: "inputs = filter ?in files" "set inputs = in_files F files (bound hb ub) (bound he ue)"
      using less.prems(3,4) False by (auto simp: in_files_def)
    then have "least_overlap F files (bound hb ub) (bound he ue) inputs"
      unfolding least_overlap_def using inside_closed[OF ok less.prems(1,2)] less.prems(5) by auto
    then show ?thesis using False by (subst overlap_loop.simps) simp
  next
    case True
    let ?f = "files ! i"
    have f: "?f \<in> set files" and fok: "file_ok (F ?f)" using True ok by auto
    have take: "take (i + 1) files = take i files @ [?f]" using True by (simp add: take_Suc_conv_app_nth)
    have step: "\<exists>R. overlap_loop C F files 0 hb he (i + 1) ub ue inputs' = Some R \<and>
        least_overlap F files (bound hb ub) (bound he ue) R"
      if "inputs' = filter ?in (take (i + 1) files)"
        "\<forall>f \<in> set inputs'. (hb \<longrightarrow> \<not> Compare C (usmall (F f)) ub < 0) \<and> (he \<longrightarrow> \<not> Compare C (ularge (F f)) ue > 0)" for inputs'
      by (rule less.hyps) (use True less.prems that in auto)
    consider (out) "\<not> ?in ?f" | (left) "?in ?f" "hb" "Compare C (usmall (F ?f)) ub < 0"
      | (right) "?in ?f" "\<not> (hb \<and> Compare C (usmall (F ?f)) ub < 0)" "he" "Compare C (ularge (F ?f)) ue > 0"
      | (within) "?in ?f" "\<not> (hb \<and> Compare C (usmall (F ?f)) ub < 0)" "\<not> (he \<and> Compare C (ularge (F ?f)) ue > 0)"
      by blast
    then show ?thesis
    proof cases
      case out
      have same: "overlap_loop C F files 0 hb he i ub ue inputs = overlap_loop C F files 0 hb he (i + 1) ub ue inputs"
        using True out by (subst overlap_loop.simps) (auto simp: Let_def in_range_bound)
      have "inputs = filter ?in (take (i + 1) files)" using less.prems(4) take out by simp
      then show ?thesis unfolding same using less.prems(5) by (intro step)
    next
      case within
      have same: "overlap_loop C F files 0 hb he i ub ue inputs = overlap_loop C F files 0 hb he (i + 1) ub ue (inputs @ [?f])"
        using True within by (subst overlap_loop.simps) (auto simp: Let_def in_range_bound)
      have "inputs @ [?f] = filter ?in (take (i + 1) files)" using take within less.prems(4) by simp
      moreover have "\<forall>f \<in> set (inputs @ [?f]). (hb \<longrightarrow> \<not> Compare C (usmall (F f)) ub < 0) \<and> (he \<longrightarrow> \<not> Compare C (ularge (F f)) ue > 0)"
        using less.prems(5) within by auto
      ultimately show ?thesis unfolding same by (rule step)
    next
      case left
      let ?b = "usmall (F ?f)"
      have b: "key_ok ?b" "key_ok ub" using file_okD(1)[OF fok] less.prems(1) left(2) by auto
      have "\<exists>R. overlap_loop C F files 0 hb he 0 ?b ue [] = Some R \<and> least_overlap F files (bound hb ?b) (bound he ue) R"
      proof (rule less.hyps)
        have "outside_begin F files hb ?b < outside_begin F files hb ub"
          using outside_less(1)[OF ok f left(2) b(2) left(3)] .
        then show "(outside_begin F files hb ?b + outside_end F files he ue) * (length files + 1) + (length files - 0)
          < (outside_begin F files hb ub + outside_end F files he ue) * (length files + 1) + (length files - i)"
          by (rule restart_less)
      qed (use b less.prems in auto)
      moreover have "overlap_loop C F files 0 hb he i ub ue inputs = overlap_loop C F files 0 hb he 0 ?b ue []"
        using True left by (subst overlap_loop.simps) (auto simp: Let_def in_range_bound)
      moreover have "least_overlap F files (bound hb ub) (bound he ue) R" if R: "least_overlap F files (bound hb ?b) (bound he ue) R" for R
      proof (rule least_overlap_wider[OF R])
        show "in_files F files (bound hb ub) (bound he ue) \<subseteq> in_files F files (bound hb ?b) (bound he ue)"
          using wider_begin[OF ok b(2,1) left(3)] left(2) by (simp add: bound_def)
        show "in_files F files (bound hb ?b) (bound he ue) \<subseteq> S"
          if "overlap_closed F files S" "in_files F files (bound hb ub) (bound he ue) \<subseteq> S" for S
          using widen_begin[OF that(1) _ ok b(2) _ left(3), of "bound he ue"] that(2) left f by (simp add: bound_def in_files_def)
      qed
      ultimately show ?thesis by metis
    next
      case right
      let ?e = "ularge (F ?f)"
      have e: "key_ok ?e" "key_ok ue" using file_okD(2)[OF fok] less.prems(2) right(3) by auto
      have "\<exists>R. overlap_loop C F files 0 hb he 0 ub ?e [] = Some R \<and> least_overlap F files (bound hb ub) (bound he ?e) R"
      proof (rule less.hyps)
        have "outside_end F files he ?e < outside_end F files he ue"
          using outside_less(2)[OF ok f right(3) e(2) right(4)] .
        then show "(outside_begin F files hb ub + outside_end F files he ?e) * (length files + 1) + (length files - 0)
          < (outside_begin F files hb ub + outside_end F files he ue) * (length files + 1) + (length files - i)"
          by (subst (1 2) add.commute[of "outside_begin F files hb ub"]) (rule restart_less)
      qed (use e less.prems in auto)
      moreover have "overlap_loop C F files 0 hb he i ub ue inputs = overlap_loop C F files 0 hb he 0 ub ?e []"
        using True right by (subst overlap_loop.simps) (auto simp: Let_def in_range_bound)
      moreover have "least_overlap F files (bound hb ub) (bound he ue) R" if R: "least_overlap F files (bound hb ub) (bound he ?e) R" for R
      proof (rule least_overlap_wider[OF R])
        show "in_files F files (bound hb ub) (bound he ue) \<subseteq> in_files F files (bound hb ub) (bound he ?e)"
          using wider_end[OF ok e(2,1) right(4)] right(3) by (simp add: bound_def)
        show "in_files F files (bound hb ub) (bound he ?e) \<subseteq> S"
          if "overlap_closed F files S" "in_files F files (bound hb ub) (bound he ue) \<subseteq> S" for S
          using widen_end[OF that(1) _ ok e(2) _ right(4), of "bound hb ub"] that(2) right f by (simp add: bound_def in_files_def)
      qed
      ultimately show ?thesis by metis
    qed
  qed
qed

lemma GetOverlappingInputs_level0:
  assumes ok: "\<forall>f \<in> set (files 0). file_ok (F f)"
    and b: "range_ok (map_option ExtractUserKey b)" and e: "range_ok (map_option ExtractUserKey e)"
  shows "\<exists>R. GetOverlappingInputs C F files 0 b e = Some R \<and>
    least_overlap F (files 0) (map_option ExtractUserKey b) (map_option ExtractUserKey e) R"
proof -
  let ?k = "\<lambda>b. case b of None \<Rightarrow> [] | Some k \<Rightarrow> ExtractUserKey k"
  have eq: "bound (b \<noteq> None) (?k b) = map_option ExtractUserKey b" for b by (cases b) (simp_all add: bound_def)
  have "b \<noteq> None \<Longrightarrow> key_ok (?k b)" "e \<noteq> None \<Longrightarrow> key_ok (?k e)" using b e by (auto simp: range_ok_def)
  then have "\<exists>R. overlap_loop C F (files 0) 0 (b \<noteq> None) (e \<noteq> None) 0 (?k b) (?k e) [] = Some R \<and>
      least_overlap F (files 0) (bound (b \<noteq> None) (?k b)) (bound (e \<noteq> None) (?k e)) R"
    by (intro overlap_loop_level0[OF ok]) simp_all
  then show ?thesis unfolding GetOverlappingInputs_def eq .
qed

lemma GetOverlappingInputs_sorted:
  "level \<noteq> 0 \<Longrightarrow> GetOverlappingInputs C F files level b e =
     Some (filter (\<lambda>f. in_range C (map_option ExtractUserKey b) (map_option ExtractUserKey e) (F f)) (files level))"
  unfolding GetOverlappingInputs_def by (cases b; cases e) (simp_all add: overlap_loop_sorted bound_def)

section \<open>Ranges and boundary files\<close>

definition upper_of :: "('f \<Rightarrow> FileMetaData) \<Rightarrow> 'f list \<Rightarrow> slice \<Rightarrow> bool" where
  "upper_of F fs L \<longleftrightarrow> (\<exists>f \<in> set fs. L = largest (F f)) \<and> (\<forall>f \<in> set fs. ikc_Compare C (largest (F f)) L \<le> 0)"

definition lower_of :: "('f \<Rightarrow> FileMetaData) \<Rightarrow> 'f list \<Rightarrow> slice \<Rightarrow> bool" where
  "lower_of F fs L \<longleftrightarrow> (\<exists>f \<in> set fs. L = smallest (F f)) \<and> (\<forall>f \<in> set fs. ikc_Compare C L (smallest (F f)) \<le> 0)"

lemma upper_of_add:
  assumes "upper_of F fs L" "\<forall>f \<in> set (fs @ [g]). file_ok (F f)"
  shows "upper_of F (fs @ [g]) (if ikc_Compare C (largest (F g)) L > 0 then largest (F g) else L)"
proof (cases "ikc_Compare C (largest (F g)) L > 0")
  case True
  have L: "ikey_ok L" "ikey_ok (largest (F g))" using assms by (auto simp: upper_of_def file_ok_def)
  then have "ikc_Compare C L (largest (F g)) < 0" using True internal.swap[of L "largest (F g)"] by simp
  then have "ikc_Compare C (largest (F f)) (largest (F g)) \<le> 0" if "f \<in> set fs" for f
    using internal.trans[of "largest (F f)" L "largest (F g)"] assms that L by (auto simp: upper_of_def file_ok_def)
  moreover have "ikc_Compare C (largest (F g)) (largest (F g)) = 0" using internal.refl[of "largest (F g)"] L by simp
  ultimately show ?thesis using True by (simp add: upper_of_def)
next
  case False
  then show ?thesis using assms(1) by (auto simp: upper_of_def)
qed

lemma lower_of_add:
  assumes "lower_of F fs L" "\<forall>f \<in> set (fs @ [g]). file_ok (F f)"
  shows "lower_of F (fs @ [g]) (if ikc_Compare C (smallest (F g)) L < 0 then smallest (F g) else L)"
proof (cases "ikc_Compare C (smallest (F g)) L < 0")
  case True
  have L: "ikey_ok L" "ikey_ok (smallest (F g))" using assms by (auto simp: lower_of_def file_ok_def)
  have "ikc_Compare C (smallest (F g)) (smallest (F f)) \<le> 0" if "f \<in> set fs" for f
    using True internal.trans[of "smallest (F g)" L "smallest (F f)"] assms that L by (auto simp: lower_of_def file_ok_def)
  moreover have "ikc_Compare C (smallest (F g)) (smallest (F g)) = 0" using internal.refl[of "smallest (F g)"] L by simp
  ultimately show ?thesis using True by (simp add: lower_of_def)
next
  case False
  have "ikey_ok L" "ikey_ok (smallest (F g))" using assms by (auto simp: lower_of_def file_ok_def)
  then have "ikc_Compare C L (smallest (F g)) \<le> 0" using False internal.not_less[of "smallest (F g)" L] by simp
  then show ?thesis using False assms(1) by (auto simp: lower_of_def)
qed

lemma largest_key_loop_upper:
  assumes "upper_of F fs L" "\<forall>f \<in> set (fs @ gs). file_ok (F f)"
  shows "upper_of F (fs @ gs) (largest_key_loop C F gs L)"
  using assms
proof (induction gs arbitrary: fs L)
  case (Cons g gs)
  show ?case using Cons.IH[OF upper_of_add[OF Cons.prems(1)]] Cons.prems(2) by simp
qed simp

lemma upper_of_single: "file_ok (F f) \<Longrightarrow> upper_of F [f] (largest (F f))"
  using internal.refl[of "largest (F f)"] by (simp add: upper_of_def file_ok_def)

lemma lower_of_single: "file_ok (F f) \<Longrightarrow> lower_of F [f] (smallest (F f))"
  using internal.refl[of "smallest (F f)"] by (simp add: lower_of_def file_ok_def)

lemma FindLargestKey_upper:
  assumes "fs \<noteq> []" "\<forall>f \<in> set fs. file_ok (F f)"
  shows "\<exists>L. FindLargestKey C F fs = Some L \<and> upper_of F fs L"
proof -
  obtain f gs where fs: "fs = f # gs" using assms(1) by (cases fs) auto
  show ?thesis using largest_key_loop_upper[OF upper_of_single, of F f gs] assms(2) by (simp add: fs FindLargestKey_def)
qed

lemma range_loop_range:
  assumes "lower_of F fs s" "upper_of F fs l" "\<forall>f \<in> set (fs @ gs). file_ok (F f)"
  shows "\<exists>s' l'. range_loop C F gs (s, l) = (s', l') \<and> lower_of F (fs @ gs) s' \<and> upper_of F (fs @ gs) l'"
  using assms
proof (induction gs arbitrary: fs s l)
  case (Cons g gs)
  show ?case using Cons.IH[OF lower_of_add[OF Cons.prems(1)] upper_of_add[OF Cons.prems(2)]] Cons.prems(3) by simp
qed simp

lemma GetRange_range:
  assumes "fs \<noteq> []" "\<forall>f \<in> set fs. file_ok (F f)"
  shows "\<exists>s l. GetRange C F fs = (s, l) \<and> lower_of F fs s \<and> upper_of F fs l"
proof -
  obtain f gs where fs: "fs = f # gs" using assms(1) by (cases fs) auto
  show ?thesis using range_loop_range[OF lower_of_single upper_of_single, of F f gs] assms(2) by (simp add: fs GetRange_def)
qed

definition next_boundary :: "('f \<Rightarrow> FileMetaData) \<Rightarrow> slice \<Rightarrow> 'f set \<Rightarrow> 'f option \<Rightarrow> bool" where
  "next_boundary F L G found \<longleftrightarrow> (case found of
     None \<Rightarrow> \<forall>g \<in> G. \<not> boundary_file C (F g) L
   | Some f \<Rightarrow> f \<in> G \<and> boundary_file C (F f) L \<and>
       (\<forall>g \<in> G. boundary_file C (F g) L \<longrightarrow> ikc_Compare C (smallest (F f)) (smallest (F g)) \<le> 0))"

lemma boundary_loop_next:
  assumes "next_boundary F L G found" "\<forall>f \<in> G \<union> set fs. file_ok (F f)"
  shows "next_boundary F L (G \<union> set fs) (boundary_loop C F L fs found)"
  using assms
proof (induction fs arbitrary: G found)
  case (Cons f fs)
  let ?found = "if boundary_file C (F f) L \<and> (case found of None \<Rightarrow> True | Some g \<Rightarrow> ikc_Compare C (smallest (F f)) (smallest (F g)) < 0)
    then Some f else found"
  have fok: "ikey_ok (smallest (F g))" if "g \<in> insert f G" for g using Cons.prems(2) that by (auto simp: file_ok_def)
  have rf: "ikc_Compare C (smallest (F f)) (smallest (F f)) \<le> 0" using internal.refl[of "smallest (F f)"] fok by simp
  have "next_boundary F L (insert f G) ?found"
  proof (cases found)
    case None
    then show ?thesis using Cons.prems(1) rf by (auto simp: next_boundary_def)
  next
    case (Some g)
    then have g: "g \<in> G" "boundary_file C (F g) L"
      "\<And>h. h \<in> G \<Longrightarrow> boundary_file C (F h) L \<Longrightarrow> ikc_Compare C (smallest (F g)) (smallest (F h)) \<le> 0"
      using Cons.prems(1) by (auto simp: next_boundary_def)
    show ?thesis
    proof (cases "boundary_file C (F f) L \<and> ikc_Compare C (smallest (F f)) (smallest (F g)) < 0")
      case True
      have "ikc_Compare C (smallest (F f)) (smallest (F h)) \<le> 0" if h: "h \<in> G" "boundary_file C (F h) L" for h
        using internal.trans[of "smallest (F f)" "smallest (F g)" "smallest (F h)"] fok g h True by simp
      then show ?thesis using True Some rf by (simp add: next_boundary_def)
    next
      case False
      then have "boundary_file C (F f) L \<Longrightarrow> ikc_Compare C (smallest (F g)) (smallest (F f)) \<le> 0"
        using internal.not_less[of "smallest (F f)" "smallest (F g)"] fok g by simp
      then show ?thesis using False Some g by (auto simp: next_boundary_def)
    qed
  qed
  then have "next_boundary F L (insert f G \<union> set fs) (boundary_loop C F L fs ?found)"
    using Cons.prems(2) by (intro Cons.IH) auto
  then show ?case by simp
qed simp

lemma FindSmallestBoundaryFile_next:
  "\<forall>f \<in> set fs. file_ok (F f) \<Longrightarrow> next_boundary F L (set fs) (FindSmallestBoundaryFile C F fs L)"
  using boundary_loop_next[of F L "{}" None fs] by (simp add: FindSmallestBoundaryFile_def next_boundary_def)

lemma disjoint_less:
  assumes d: "disjoint_files fs" and ij: "i < j" "j < length fs"
  shows "ikc_Compare C (largest (fs ! i)) (smallest (fs ! j)) < 0" "ikc_Compare C (smallest (fs ! i)) (smallest (fs ! j)) < 0"
proof -
  show l: "ikc_Compare C (largest (fs ! i)) (smallest (fs ! j)) < 0"
    using d ij by (simp add: disjoint_files_def sorted_wrt_iff_nth_less)
  have "file_ok (fs ! i)" "file_ok (fs ! j)" using d ij by (auto simp: disjoint_files_def)
  then show "ikc_Compare C (smallest (fs ! i)) (smallest (fs ! j)) < 0"
    using l internal.le_less_trans[of "smallest (fs ! i)" "largest (fs ! i)" "smallest (fs ! j)"] by (simp add: file_ok_def)
qed

definition boundary_at :: "('f \<Rightarrow> FileMetaData) \<Rightarrow> 'f list \<Rightarrow> nat \<Rightarrow> bool" where
  "boundary_at F fs k \<longleftrightarrow> k < length fs \<and> Compare C (usmall (F (fs ! k))) (ularge (F (fs ! (k - 1)))) = 0"

lemma boundary_next:
  assumes d: "disjoint_files (map F fs)" and k: "0 < k" "k \<le> length fs"
  shows "FindSmallestBoundaryFile C F fs (largest (F (fs ! (k - 1)))) = (if boundary_at F fs k then Some (fs ! k) else None)"
proof -
  let ?L = "largest (F (fs ! (k - 1)))" and ?r = "FindSmallestBoundaryFile C F fs (largest (F (fs ! (k - 1))))"
  have ok: "file_ok (F (fs ! j))" if "j < length fs" for j using d that by (auto simp: disjoint_files_def)
  then have fok: "\<forall>f \<in> set fs. file_ok (F f)" by (auto simp: in_set_conv_nth)
  have less: "ikc_Compare C (largest (F (fs ! i))) (smallest (F (fs ! j))) < 0"
    "ikc_Compare C (smallest (F (fs ! i))) (smallest (F (fs ! j))) < 0" if "i < j" "j < length fs" for i j
    using disjoint_less[OF d, of i j] that by simp_all
  have L: "ikey_ok ?L" using ok[of "k - 1"] k by (simp add: file_ok_def)
  have later: "k \<le> j" if j: "j < length fs" "boundary_file C (F (fs ! j)) ?L" for j
  proof (rule ccontr)
    assume "\<not> k \<le> j"
    then have "j = k - 1 \<or> j < k - 1" by linarith
    moreover have "k - 1 < length fs" using k by linarith
    ultimately have "ikc_Compare C (largest (F (fs ! j))) ?L \<le> 0"
      using disjoint_largest[OF d, of j "k - 1"] internal.refl[of ?L] L k by auto
    then have "ikc_Compare C (smallest (F (fs ! j))) ?L \<le> 0"
      using internal.trans[of "smallest (F (fs ! j))" "largest (F (fs ! j))" ?L] ok[OF j(1)] L by (simp add: file_ok_def)
    then show False using j(2) by (simp add: boundary_file_def)
  qed
  have here: "boundary_file C (F (fs ! k)) ?L \<longleftrightarrow> Compare C (usmall (F (fs ! k))) (ularge (F (fs ! (k - 1)))) = 0" if "k < length fs"
    using less(1)[of "k - 1" k] internal.swap[of ?L "smallest (F (fs ! k))"] ok[OF that] L k that
    by (simp add: boundary_file_def file_ok_def)
  have first: "boundary_at F fs k" if j: "j < length fs" "boundary_file C (F (fs ! j)) ?L" for j
  proof -
    have kj: "k \<le> j" using later[OF j] .
    have "Compare C (usmall (F (fs ! k))) (usmall (F (fs ! j))) \<le> 0" using disjoint_smallest[OF d, of k j] kj j(1) by simp
    moreover have "Compare C (usmall (F (fs ! j))) (ularge (F (fs ! (k - 1)))) = 0" using j(2) by (simp add: boundary_file_def)
    moreover have "Compare C (ularge (F (fs ! (k - 1)))) (usmall (F (fs ! k))) \<le> 0"
      using less(1)[of "k - 1" k] k kj j(1) by (auto simp: ikc_less)
    moreover have keys: "key_ok (usmall (F (fs ! k)))" "key_ok (usmall (F (fs ! j)))" "key_ok (ularge (F (fs ! (k - 1))))"
      using ok[of k] ok[OF j(1)] ok[of "k - 1"] kj j(1) k by (auto simp: file_ok_def)
    ultimately have "Compare C (usmall (F (fs ! k))) (ularge (F (fs ! (k - 1)))) \<le> 0" using trans[OF keys] by simp
    then have "Compare C (usmall (F (fs ! k))) (ularge (F (fs ! (k - 1)))) = 0"
      using \<open>Compare C (ularge (F (fs ! (k - 1)))) (usmall (F (fs ! k))) \<le> 0\<close> not_less[OF keys(1,3)] by linarith
    then show ?thesis using kj j(1) by (simp add: boundary_at_def)
  qed
  have nb: "next_boundary F ?L (set fs) ?r" by (rule FindSmallestBoundaryFile_next[OF fok])
  show ?thesis
  proof (cases ?r)
    case None
    then have "\<not> boundary_at F fs k" using nb here k by (auto simp: next_boundary_def boundary_at_def)
    then show ?thesis using None by simp
  next
    case (Some f)
    then have f: "f \<in> set fs" "boundary_file C (F f) ?L"
      "\<And>g. g \<in> set fs \<Longrightarrow> boundary_file C (F g) ?L \<Longrightarrow> ikc_Compare C (smallest (F f)) (smallest (F g)) \<le> 0"
      using nb by (auto simp: next_boundary_def)
    obtain j where j: "j < length fs" "f = fs ! j" using f(1) by (auto simp: in_set_conv_nth)
    have bk: "boundary_at F fs k" using first[OF j(1)] f(2) j(2) by simp
    then have kl: "k < length fs" and "boundary_file C (F (fs ! k)) ?L" using here by (auto simp: boundary_at_def)
    then have le: "ikc_Compare C (smallest (F f)) (smallest (F (fs ! k))) \<le> 0" using f(3) by simp
    have "\<not> k < j"
      using less(2)[of k j] le j internal.not_less[of "smallest (F (fs ! k))" "smallest (F f)"] ok[OF kl] ok[OF j(1)]
      by (auto simp: file_ok_def)
    then have "j = k" using later[OF j(1)] f(2) j(2) by simp
    then show ?thesis using Some bk j(2) by simp
  qed
qed

lemma slice_mem:
  assumes "i + n \<le> length fs"
  shows "f \<in> set (take n (drop i fs)) \<longleftrightarrow> (\<exists>j. i \<le> j \<and> j < i + n \<and> f = fs ! j)"
proof
  assume "f \<in> set (take n (drop i fs))"
  then obtain m where "m < n" "f = fs ! (i + m)" using assms by (auto simp: in_set_conv_nth)
  then show "\<exists>j. i \<le> j \<and> j < i + n \<and> f = fs ! j" by (intro exI[of _ "i + m"]) simp
next
  assume "\<exists>j. i \<le> j \<and> j < i + n \<and> f = fs ! j"
  then obtain j where "i \<le> j" "j < i + n" "f = fs ! j" by blast
  then have "j - i < length (take n (drop i fs))" "take n (drop i fs) ! (j - i) = f" using assms by auto
  then show "f \<in> set (take n (drop i fs))" by (metis nth_mem)
qed

lemma slice_add: "i + n < length fs \<Longrightarrow> take n (drop i fs) @ [fs ! (i + n)] = take (Suc n) (drop i fs)"
  by (simp add: take_Suc_conv_app_nth)

lemma add_boundary_slice:
  assumes d: "disjoint_files (map F fs)"
  shows "0 < n \<Longrightarrow> i + n \<le> length fs \<Longrightarrow>
    \<exists>n'. add_boundary_loop C F fs (largest (F (fs ! (i + n - 1)))) (take n (drop i fs)) = Some (take n' (drop i fs)) \<and>
      n \<le> n' \<and> i + n' \<le> length fs \<and> \<not> boundary_at F fs (i + n')"
proof (induction "length fs - (i + n)" arbitrary: n rule: less_induct)
  case less
  note next' = boundary_next[OF d, of "i + n"]
  show ?case
  proof (cases "boundary_at F fs (i + n)")
    case False
    then have "add_boundary_loop C F fs (largest (F (fs ! (i + n - 1)))) (take n (drop i fs)) = Some (take n (drop i fs))"
      using next' less.prems by (subst add_boundary_loop.simps) simp
    then show ?thesis using False less.prems by blast
  next
    case True
    then have l: "i + n < length fs" by (simp add: boundary_at_def)
    then have "add_boundary_loop C F fs (largest (F (fs ! (i + n - 1)))) (take n (drop i fs)) =
      add_boundary_loop C F fs (largest (F (fs ! (i + Suc n - 1)))) (take (Suc n) (drop i fs))"
      using next' less.prems True by (subst add_boundary_loop.simps) (simp add: slice_add)
    moreover have smaller: "length fs - (i + Suc n) < length fs - (i + n)" using l by simp
    moreover obtain n' where "add_boundary_loop C F fs (largest (F (fs ! (i + Suc n - 1)))) (take (Suc n) (drop i fs)) = Some (take n' (drop i fs))"
      "Suc n \<le> n'" "i + n' \<le> length fs" "\<not> boundary_at F fs (i + n')"
      using less.hyps[OF smaller] l by auto
    ultimately show ?thesis using Suc_leD by metis
  qed
qed

lemma AddBoundaryInputs_slice:
  assumes d: "disjoint_files (map F fs)" and n: "0 < n" "i + n \<le> length fs"
  shows "\<exists>n'. AddBoundaryInputs C F fs (take n (drop i fs)) = Some (take n' (drop i fs)) \<and>
      n \<le> n' \<and> i + n' \<le> length fs \<and> \<not> boundary_at F fs (i + n')"
proof -
  let ?s = "take n (drop i fs)"
  have ok: "file_ok (F (fs ! j))" if "j < length fs" for j using d that by (auto simp: disjoint_files_def)
  have mem: "f \<in> set ?s \<longleftrightarrow> (\<exists>j. i \<le> j \<and> j < i + n \<and> f = fs ! j)" for f
    using slice_mem[OF n(2)] .
  have "?s \<noteq> []" "\<forall>f \<in> set ?s. file_ok (F f)" using n ok mem by auto
  then obtain L where L: "FindLargestKey C F ?s = Some L" "upper_of F ?s L" using FindLargestKey_upper by blast
  obtain j where j: "i \<le> j" "j < i + n" "L = largest (F (fs ! j))" using L(2) mem by (auto simp: upper_of_def)
  have "fs ! (i + n - 1) \<in> set ?s" using mem n by (intro mem[THEN iffD2] exI[of _ "i + n - 1"]) auto
  then have le: "ikc_Compare C (largest (F (fs ! (i + n - 1)))) L \<le> 0" using L(2) by (simp add: upper_of_def)
  have "j = i + n - 1"
  proof (rule ccontr)
    assume "j \<noteq> i + n - 1"
    then have "ikc_Compare C (largest (F (fs ! j))) (largest (F (fs ! (i + n - 1)))) < 0"
      using disjoint_largest[OF d, of j "i + n - 1"] j n by simp
    then show False
      using le j(3) internal.not_less[of "largest (F (fs ! j))" "largest (F (fs ! (i + n - 1)))"] ok[of j] ok[of "i + n - 1"] j n
      by (simp add: file_ok_def)
  qed
  then show ?thesis using add_boundary_slice[OF d n(1,2)] L(1) j(3) by (simp add: AddBoundaryInputs_def)
qed

end

section \<open>The files of a range are neighbours\<close>

lemma filter_upward: "sorted_wrt (\<lambda>x y. P x \<longrightarrow> P y) xs \<Longrightarrow> \<exists>i \<le> length xs. filter P xs = drop i xs"
proof (induction xs)
  case (Cons x xs)
  show ?case
  proof (cases "P x")
    case True
    then have "filter P (x # xs) = drop 0 (x # xs)" using Cons.prems by (auto simp: filter_id_conv)
    then show ?thesis by blast
  next
    case False
    obtain i where "i \<le> length xs" "filter P xs = drop i xs" using Cons by auto
    then show ?thesis using False by (intro exI[of _ "Suc i"]) simp
  qed
qed simp

lemma filter_downward: "sorted_wrt (\<lambda>x y. Q y \<longrightarrow> Q x) xs \<Longrightarrow> \<exists>n \<le> length xs. filter Q xs = take n xs"
proof (induction xs)
  case (Cons x xs)
  show ?case
  proof (cases "Q x")
    case True
    obtain n where "n \<le> length xs" "filter Q xs = take n xs" using Cons by auto
    then show ?thesis using True by (intro exI[of _ "Suc n"]) simp
  next
    case False
    then have "filter Q (x # xs) = take 0 (x # xs)" using Cons.prems by (auto simp: filter_empty_conv)
    then show ?thesis by blast
  qed
qed simp

lemma filter_slice:
  assumes "sorted_wrt (\<lambda>x y. P x \<longrightarrow> P y) xs" "sorted_wrt (\<lambda>x y. Q y \<longrightarrow> Q x) xs"
  shows "\<exists>i n. filter (\<lambda>x. P x \<and> Q x) xs = take n (drop i xs) \<and> i + n \<le> length xs"
proof -
  obtain i where i: "i \<le> length xs" "filter P xs = drop i xs" using filter_upward[OF assms(1)] by blast
  have "sorted_wrt (\<lambda>x y. Q y \<longrightarrow> Q x) (drop i xs)" using assms(2) by (rule sorted_wrt_drop)
  then obtain n where n: "n \<le> length (drop i xs)" "filter Q (drop i xs) = take n (drop i xs)" using filter_downward by blast
  have "filter (\<lambda>x. P x \<and> Q x) xs = filter Q (filter P xs)" by (simp add: conj_commute)
  then show ?thesis using i n by (intro exI[of _ i] exI[of _ n]) simp
qed

context user_comparator
begin

lemma disjoint_user:
  assumes d: "disjoint_files fs" and ij: "i < j" "j < length fs"
  shows "Compare C (ularge (fs ! i)) (usmall (fs ! j)) \<le> 0" "Compare C (usmall (fs ! i)) (usmall (fs ! j)) \<le> 0"
    "Compare C (ularge (fs ! i)) (ularge (fs ! j)) \<le> 0"
proof -
  show "Compare C (ularge (fs ! i)) (usmall (fs ! j)) \<le> 0"
    using disjoint_less(1)[OF d ij] by (auto simp: ikc_less)
  show "Compare C (usmall (fs ! i)) (usmall (fs ! j)) \<le> 0"
    using disjoint_less(2)[OF d ij] by (auto simp: ikc_less)
  show "Compare C (ularge (fs ! i)) (ularge (fs ! j)) \<le> 0"
    using disjoint_largest[OF d ij] by (auto simp: ikc_less)
qed

lemma in_range_slice:
  assumes d: "disjoint_files (map F fs)" and b: "range_ok b" and e: "range_ok e"
  shows "\<exists>i n. filter (\<lambda>f. in_range C b e (F f)) fs = take n (drop i fs) \<and> i + n \<le> length fs"
proof -
  have ok: "file_ok (F (fs ! j))" if "j < length fs" for j using d that by (auto simp: disjoint_files_def)
  let ?P = "\<lambda>f. case b of None \<Rightarrow> True | Some k \<Rightarrow> \<not> Compare C (ularge (F f)) k < 0"
  let ?Q = "\<lambda>f. case e of None \<Rightarrow> True | Some k \<Rightarrow> \<not> Compare C (usmall (F f)) k > 0"
  have P: "?P (fs ! j)" if "i < j" "j < length fs" "?P (fs ! i)" for i j
  proof (cases b)
    case (Some k)
    have "Compare C (ularge (F (fs ! i))) (ularge (F (fs ! j))) \<le> 0" using disjoint_user(3)[OF d, of i j] that by simp
    then show ?thesis
      using that Some b le_less_trans[of "ularge (F (fs ! i))" "ularge (F (fs ! j))" k] ok[of i] ok[of j]
      by (auto simp: range_ok_def file_ok_def)
  qed simp
  have Q: "?Q (fs ! i)" if "i < j" "j < length fs" "?Q (fs ! j)" for i j
  proof (cases e)
    case (Some k)
    have "Compare C (usmall (F (fs ! i))) (usmall (F (fs ! j))) \<le> 0" using disjoint_user(2)[OF d, of i j] that by simp
    then show ?thesis
      using that Some e trans[of "usmall (F (fs ! i))" "usmall (F (fs ! j))" k] ok[of i] ok[of j]
      by (auto simp: range_ok_def file_ok_def not_less not_le)
  qed simp
  have "sorted_wrt (\<lambda>f g. ?P f \<longrightarrow> ?P g) fs" "sorted_wrt (\<lambda>f g. ?Q g \<longrightarrow> ?Q f) fs"
    using P Q by (auto simp: sorted_wrt_iff_nth_less)
  from filter_slice[OF this] show ?thesis by (simp add: in_range_def)
qed

text \<open>A set of level-0 files that is closed under overlapping has no boundary file.\<close>

lemma AddBoundaryInputs_closed:
  assumes ok: "\<forall>f \<in> set fs. file_ok (F f)" and S: "overlap_closed F fs (set cs)" "set cs \<subseteq> set fs" "cs \<noteq> []"
  shows "AddBoundaryInputs C F fs cs = Some cs"
proof -
  have okc: "\<forall>f \<in> set cs. file_ok (F f)" using ok S by blast
  obtain L where L: "FindLargestKey C F cs = Some L" "upper_of F cs L" using FindLargestKey_upper[OF S(3) okc] by blast
  obtain f where f: "f \<in> set cs" "L = largest (F f)" using L(2) by (auto simp: upper_of_def)
  have "\<not> boundary_file C (F g) L" if g: "g \<in> set fs" for g
  proof
    assume b: "boundary_file C (F g) L"
    then have eq: "Compare C (usmall (F g)) (ularge (F f)) = 0" by (simp add: boundary_file_def f)
    have gok: "file_ok (F g)" and fok: "file_ok (F f)" using g f okc ok by auto
    have eq': "Compare C (ularge (F f)) (usmall (F g)) = 0"
      using eq eq_swap[of "usmall (F g)" "ularge (F f)"] file_okD[OF gok] file_okD[OF fok] by blast
    have "Compare C (usmall (F f)) (usmall (F g)) \<le> 0"
      using trans[of "usmall (F f)" "ularge (F f)" "usmall (F g)"] eq' file_okD[OF gok] file_okD[OF fok] by simp
    then have "Compare C (usmall (F f)) (ularge (F g)) \<le> 0"
      using trans[of "usmall (F f)" "usmall (F g)" "ularge (F g)"] file_okD[OF gok] file_okD[OF fok] by blast
    then have "files_overlap C (F f) (F g)" using eq' by (auto simp: files_overlap_def in_range_def)
    then have "g \<in> set cs" using S f g by (auto simp: overlap_closed_def)
    then have "ikc_Compare C (largest (F g)) L \<le> 0" using L(2) by (simp add: upper_of_def)
    then have "ikc_Compare C (smallest (F g)) L \<le> 0"
      using internal.trans[of "smallest (F g)" "largest (F g)" L] gok fok f by (simp add: file_ok_def)
    then show False using b by (simp add: boundary_file_def)
  qed
  then have "FindSmallestBoundaryFile C F fs L = None"
    using FindSmallestBoundaryFile_next[OF ok, of L] by (auto simp: next_boundary_def split: option.splits)
  then show ?thesis using L(1) by (simp add: AddBoundaryInputs_def add_boundary_loop.simps)
qed

end

end
