(* ===== verification/Ldb_Version.thy ===== *)
theory Ldb_Version
  imports Complex_Main Ldb_Files Ldb_Db_View "HOL-Library.Monad_Syntax"
begin

text \<open>
  A version and the reads in it: \<^verbatim>\<open>Version\<close> and the bookkeeping of \<^verbatim>\<open>VersionSet\<close> in \<^verbatim>\<open>db/version_set.cc\<close>.

  A version has its files per level. The memory \<open>F\<close> gives the structure a file pointer points to; the only operation
  here that writes to it is \<^verbatim>\<open>UpdateStats\<close>. The table cache is a parameter: an operation \<open>get\<close> on a state \<open>'c\<close>, which returns the status and what
  \<^verbatim>\<open>handle_result\<close> is called with, if it is called. Its contract is the locale \<open>table_cache\<close> of the theory with
  the properties of \<^verbatim>\<open>Version::Get\<close>. The score of a compaction, a \<^verbatim>\<open>double\<close>, is an exact rational number.
\<close>

section \<open>Versions\<close>

record 'f Version =
  v_files :: "nat \<Rightarrow> 'f list"
  v_file_to_compact :: "'f option"
  v_file_to_compact_level :: int
  v_compaction_score :: rat
  v_compaction_level :: int

definition new_Version :: "'f Version" where
  "new_Version = \<lparr>v_files = (\<lambda>_. []), v_file_to_compact = None, v_file_to_compact_level = -1,
     v_compaction_score = -1, v_compaction_level = -1\<rparr>"

record 'f VersionSet =
  vs_user_comparator :: Comparator
  vs_max_file_size :: "64 word"
  vs_next_file_number :: "64 word"
  vs_manifest_file_number :: "64 word"
  vs_last_sequence :: "64 word"
  vs_log_number :: "64 word"
  vs_prev_log_number :: "64 word"
  vs_current :: "'f Version"
  vs_compact_pointer :: "nat \<Rightarrow> slice"

definition kL0_CompactionTrigger :: nat where "kL0_CompactionTrigger = 4"
definition kMaxMemCompactLevel :: nat where "kMaxMemCompactLevel = 2"

definition MaxGrandParentOverlapBytes :: "64 word \<Rightarrow> 64 word" where
  "MaxGrandParentOverlapBytes max_file_size = 10 * max_file_size"

definition ExpandedCompactionByteSizeLimit :: "64 word \<Rightarrow> 64 word" where
  "ExpandedCompactionByteSizeLimit max_file_size = 25 * max_file_size"

definition MaxBytesForLevel :: "nat \<Rightarrow> rat" where
  "MaxBytesForLevel level = 10485760 * 10 ^ (level - 1)"

definition MaxFileSizeForLevel :: "64 word \<Rightarrow> nat \<Rightarrow> 64 word" where
  "MaxFileSizeForLevel max_file_size level = max_file_size"

definition NewFileNumber :: "'f VersionSet \<Rightarrow> 64 word \<times> 'f VersionSet" where
  "NewFileNumber vs = (vs_next_file_number vs, vs\<lparr>vs_next_file_number := vs_next_file_number vs + 1\<rparr>)"

definition ReuseFileNumber :: "64 word \<Rightarrow> 'f VersionSet \<Rightarrow> 'f VersionSet" where
  "ReuseFileNumber file_number vs =
     (if vs_next_file_number vs = file_number + 1 then vs\<lparr>vs_next_file_number := file_number\<rparr> else vs)"

definition MarkFileNumberUsed :: "64 word \<Rightarrow> 'f VersionSet \<Rightarrow> 'f VersionSet" where
  "MarkFileNumberUsed number vs =
     (if vs_next_file_number vs \<le> number then vs\<lparr>vs_next_file_number := number + 1\<rparr> else vs)"

text \<open>The level that needs a compaction most.\<close>

definition level_score :: "('f \<Rightarrow> FileMetaData) \<Rightarrow> 'f Version \<Rightarrow> nat \<Rightarrow> rat" where
  "level_score F v level =
     (if level = 0 then of_nat (length (v_files v level)) / of_nat kL0_CompactionTrigger
      else of_nat (unat (TotalFileSize F (v_files v level))) / MaxBytesForLevel level)"

fun best_level_loop :: "('f \<Rightarrow> FileMetaData) \<Rightarrow> 'f Version \<Rightarrow> nat list \<Rightarrow> int \<times> rat \<Rightarrow> int \<times> rat" where
  "best_level_loop F v [] best = best"
| "best_level_loop F v (level # levels) (best_level, best_score) = best_level_loop F v levels
     (let score = level_score F v level in if score > best_score then (int level, score) else (best_level, best_score))"

definition Finalize :: "('f \<Rightarrow> FileMetaData) \<Rightarrow> 'f Version \<Rightarrow> 'f Version" where
  "Finalize F v =
     (let (best_level, best_score) = best_level_loop F v [0..<kNumLevels - 1] (-1, -1)
      in v\<lparr>v_compaction_level := best_level, v_compaction_score := best_score\<rparr>)"

definition NeedsCompaction :: "'f VersionSet \<Rightarrow> bool" where
  "NeedsCompaction vs \<longleftrightarrow> v_compaction_score (vs_current vs) \<ge> 1 \<or> v_file_to_compact (vs_current vs) \<noteq> None"

section \<open>Reading\<close>

datatype SaverState = kSaverNotFound | kFound | kDeleted | kCorrupt

text \<open>What \<^verbatim>\<open>SaveValue\<close> leaves in the state and in \<open>*value\<close>, when the state was \<open>kSaverNotFound\<close>.\<close>

definition SaveValue :: "Comparator \<Rightarrow> slice \<Rightarrow> slice \<Rightarrow> slice \<Rightarrow> SaverState \<times> slice option" where
  "SaveValue ucmp ukey ikey v =
     (case ParseInternalKey ikey of
        None \<Rightarrow> (kCorrupt, None)
      | Some parsed_key \<Rightarrow>
          if Compare ucmp (user_key parsed_key) ukey = 0 then
            (case vtype parsed_key of kTypeValue \<Rightarrow> (kFound, Some v) | kTypeDeletion \<Rightarrow> (kDeleted, None))
          else (kSaverNotFound, None))"

definition NewestFirst :: "FileMetaData \<Rightarrow> FileMetaData \<Rightarrow> bool" where
  "NewestFirst a b \<longleftrightarrow> fnumber a > fnumber b"

fun insert_file :: "('f \<Rightarrow> FileMetaData) \<Rightarrow> 'f \<Rightarrow> 'f list \<Rightarrow> 'f list" where
  "insert_file F f [] = [f]"
| "insert_file F f (g # fs) = (if NewestFirst (F g) (F f) then g # insert_file F f fs else f # g # fs)"

fun sort_files :: "('f \<Rightarrow> FileMetaData) \<Rightarrow> 'f list \<Rightarrow> 'f list" where
  "sort_files F [] = []"
| "sort_files F (f # fs) = insert_file F f (sort_files F fs)"

text \<open>The files of a level in which a key is searched.\<close>

definition level0_files :: "Comparator \<Rightarrow> ('f \<Rightarrow> FileMetaData) \<Rightarrow> 'f list \<Rightarrow> slice \<Rightarrow> 'f list" where
  "level0_files ucmp F files ukey = sort_files F (filter (\<lambda>f. Compare ucmp ukey (ExtractUserKey (smallest (F f))) \<ge> 0 \<and>
     Compare ucmp ukey (ExtractUserKey (largest (F f))) \<le> 0) files)"

definition sorted_level_file :: "Comparator \<Rightarrow> ('f \<Rightarrow> FileMetaData) \<Rightarrow> 'f list \<Rightarrow> slice \<Rightarrow> slice \<Rightarrow> 'f list option" where
  "sorted_level_file ucmp F files ukey ikey = do {
     index \<leftarrow> FindFile ucmp F files ikey;
     if unat index \<ge> length files then Some []
     else let f = files ! unat index in
       if Compare ucmp ukey (ExtractUserKey (smallest (F f))) < 0 then Some [] else Some [f] }"

definition search_files :: "Comparator \<Rightarrow> ('f \<Rightarrow> FileMetaData) \<Rightarrow> 'f Version \<Rightarrow> slice \<Rightarrow> slice \<Rightarrow> nat \<Rightarrow> 'f list option" where
  "search_files ucmp F v ukey ikey level =
     (if v_files v level = [] then Some []
      else if level = 0 then Some (level0_files ucmp F (v_files v 0) ukey)
      else sorted_level_file ucmp F (v_files v level) ukey ikey)"

text \<open>\<^verbatim>\<open>Version::ForEachOverlapping\<close>: the files it calls the function with, for a function that always asks for more,
  and the loop that stops when the function returns false.\<close>

fun visit_loop :: "('s \<Rightarrow> nat \<Rightarrow> 'f \<Rightarrow> bool \<times> 's) \<Rightarrow> nat \<Rightarrow> 'f list \<Rightarrow> 's \<Rightarrow> bool \<times> 's" where
  "visit_loop func level [] s = (True, s)"
| "visit_loop func level (f # fs) s =
     (case func s level f of (True, s) \<Rightarrow> visit_loop func level fs s | (False, s) \<Rightarrow> (False, s))"

fun overlapping_levels ::
  "Comparator \<Rightarrow> ('f \<Rightarrow> FileMetaData) \<Rightarrow> 'f Version \<Rightarrow> slice \<Rightarrow> slice \<Rightarrow> ('s \<Rightarrow> nat \<Rightarrow> 'f \<Rightarrow> bool \<times> 's) \<Rightarrow> nat list \<Rightarrow> 's \<Rightarrow> 's option" where
  "overlapping_levels ucmp F v ukey ikey func [] s = Some s"
| "overlapping_levels ucmp F v ukey ikey func (level # levels) s = do {
     files \<leftarrow> search_files ucmp F v ukey ikey level;
     case visit_loop func level files s of
       (True, s) \<Rightarrow> overlapping_levels ucmp F v ukey ikey func levels s
     | (False, s) \<Rightarrow> Some s }"

definition ForEachOverlapping ::
  "Comparator \<Rightarrow> ('f \<Rightarrow> FileMetaData) \<Rightarrow> 'f Version \<Rightarrow> slice \<Rightarrow> slice \<Rightarrow> ('s \<Rightarrow> nat \<Rightarrow> 'f \<Rightarrow> bool \<times> 's) \<Rightarrow> 's \<Rightarrow> 's option" where
  "ForEachOverlapping ucmp F v ukey ikey func s = overlapping_levels ucmp F v ukey ikey func [0..<kNumLevels] s"

text \<open>The statistics: \<open>seek_file\<close> with \<open>seek_file_level\<close>. The state of a search is the statistics, the file that was
  read last with its level, and the table cache.\<close>

type_synonym 'f GetStats = "'f option \<times> int"

definition charge_seek :: "'f option \<times> int \<Rightarrow> 'f GetStats \<Rightarrow> 'f GetStats" where
  "charge_seek lst stats = (if fst lst \<noteq> None \<and> fst stats = None then lst else stats)"

type_synonym 'c table_get = "64 word \<Rightarrow> 64 word \<Rightarrow> slice \<Rightarrow> 'c \<Rightarrow> ((Status \<times> (slice \<times> slice) option) \<times> 'c) option"

fun search_loop ::
  "Comparator \<Rightarrow> ('f \<Rightarrow> FileMetaData) \<Rightarrow> 'c table_get \<Rightarrow> slice \<Rightarrow> slice \<Rightarrow> nat \<Rightarrow> 'f list \<Rightarrow>
   'f GetStats \<times> ('f option \<times> int) \<times> 'c \<Rightarrow> ((Status \<times> slice option) option \<times> 'f GetStats \<times> ('f option \<times> int) \<times> 'c) option" where
  "search_loop ucmp F get ukey ikey level [] (stats, lst, c) = Some (None, stats, lst, c)"
| "search_loop ucmp F get ukey ikey level (f # fs) (stats, lst, c) =
     (let stats = charge_seek lst stats; lst = (Some f, int level) in do {
        ((s, called), c) \<leftarrow> get (fnumber (F f)) (file_size (F f)) ikey c;
        let (state, val) = (case called of None \<Rightarrow> (kSaverNotFound, None) | Some (k, v) \<Rightarrow> SaveValue ucmp ukey k v);
        if \<not> Status_ok s then Some (Some (s, val), stats, lst, c)
        else case state of
          kSaverNotFound \<Rightarrow> search_loop ucmp F get ukey ikey level fs (stats, lst, c)
        | kFound \<Rightarrow> Some (Some (s, val), stats, lst, c)
        | kDeleted \<Rightarrow> Some (Some (NotFound [] [], val), stats, lst, c)
        | kCorrupt \<Rightarrow> Some (Some (Corruption (text_bytes ''corrupted key for '') ukey, val), stats, lst, c) })"

fun search_levels ::
  "Comparator \<Rightarrow> ('f \<Rightarrow> FileMetaData) \<Rightarrow> 'f Version \<Rightarrow> 'c table_get \<Rightarrow> slice \<Rightarrow> slice \<Rightarrow> nat list \<Rightarrow>
   'f GetStats \<times> ('f option \<times> int) \<times> 'c \<Rightarrow> ((Status \<times> slice option) \<times> 'f GetStats \<times> 'c) option" where
  "search_levels ucmp F v get ukey ikey [] (stats, lst, c) = Some ((NotFound [] [], None), stats, c)"
| "search_levels ucmp F v get ukey ikey (level # levels) st = do {
     files \<leftarrow> search_files ucmp F v ukey ikey level;
     (res, stats, lst, c) \<leftarrow> search_loop ucmp F get ukey ikey level files st;
     case res of
       Some r \<Rightarrow> Some (r, stats, c)
     | None \<Rightarrow> search_levels ucmp F v get ukey ikey levels (stats, lst, c) }"

definition Version_Get ::
  "Comparator \<Rightarrow> ('f \<Rightarrow> FileMetaData) \<Rightarrow> 'f Version \<Rightarrow> 'c table_get \<Rightarrow> LookupKey \<Rightarrow> 'c \<Rightarrow>
   ((Status \<times> slice option) \<times> 'f GetStats \<times> 'c) option" where
  "Version_Get ucmp F v get k c =
     search_levels ucmp F v get (lk_user_key k) (internal_key k) [0..<kNumLevels] ((None, -1), (None, -1), c)"

section \<open>Statistics and placement\<close>

definition UpdateStats :: "'f GetStats \<Rightarrow> ('f \<Rightarrow> FileMetaData) \<times> 'f Version \<Rightarrow> bool \<times> ('f \<Rightarrow> FileMetaData) \<times> 'f Version" where
  "UpdateStats stats = (\<lambda>(F, v).
     case fst stats of
       None \<Rightarrow> (False, F, v)
     | Some f \<Rightarrow>
         let F = F(f := (F f)\<lparr>allowed_seeks := allowed_seeks (F f) - 1\<rparr>) in
         if allowed_seeks (F f) \<le> 0 \<and> v_file_to_compact v = None
         then (True, F, v\<lparr>v_file_to_compact := Some f, v_file_to_compact_level := snd stats\<rparr>)
         else (False, F, v))"

text \<open>The callback of \<^verbatim>\<open>RecordReadSample\<close>: the statistics and the number of matches.\<close>

definition Match :: "'f GetStats \<times> nat \<Rightarrow> nat \<Rightarrow> 'f \<Rightarrow> bool \<times> ('f GetStats \<times> nat)" where
  "Match st level f =
     (let matches = snd st + 1; stats = (if matches = 1 then (Some f, int level) else fst st)
      in (matches < 2, stats, matches))"

definition RecordReadSample ::
  "Comparator \<Rightarrow> slice \<Rightarrow> ('f \<Rightarrow> FileMetaData) \<times> 'f Version \<Rightarrow> (bool \<times> ('f \<Rightarrow> FileMetaData) \<times> 'f Version) option" where
  "RecordReadSample ucmp ikey = (\<lambda>(F, v).
     case ParseInternalKey ikey of
       None \<Rightarrow> Some (False, F, v)
     | Some k \<Rightarrow> do {
         (stats, matches) \<leftarrow> ForEachOverlapping ucmp F v (user_key k) ikey Match ((None, -1), 0);
         Some (if matches \<ge> 2 then UpdateStats stats (F, v) else (False, F, v)) })"

definition OverlapInLevel ::
  "Comparator \<Rightarrow> ('f \<Rightarrow> FileMetaData) \<Rightarrow> 'f Version \<Rightarrow> nat \<Rightarrow> slice option \<Rightarrow> slice option \<Rightarrow> bool option" where
  "OverlapInLevel ucmp F v level small large = SomeFileOverlapsRange ucmp (level > 0) F (v_files v level) small large"

fun pick_level_loop ::
  "Comparator \<Rightarrow> 64 word \<Rightarrow> ('f \<Rightarrow> FileMetaData) \<Rightarrow> 'f Version \<Rightarrow> slice \<Rightarrow> slice \<Rightarrow> nat \<Rightarrow> nat \<Rightarrow> nat option" where
  "pick_level_loop ucmp max_file_size F v small large 0 level = Some level"
| "pick_level_loop ucmp max_file_size F v small large (Suc n) level = do {
     overlap \<leftarrow> OverlapInLevel ucmp F v (level + 1) (Some small) (Some large);
     if overlap then Some level
     else do {
       too_much \<leftarrow> (if level + 2 < kNumLevels then do {
           overlaps \<leftarrow> GetOverlappingInputs ucmp F (v_files v) (level + 2)
             (Some (InternalKey small kMaxSequenceNumber kValueTypeForSeek)) (Some (InternalKey large 0 kTypeDeletion));
           Some (sint (TotalFileSize F overlaps) > sint (MaxGrandParentOverlapBytes max_file_size)) }
         else Some False);
       if too_much then Some level
       else pick_level_loop ucmp max_file_size F v small large n (level + 1) } }"

text \<open>The loop runs while the level is below \<^verbatim>\<open>kMaxMemCompactLevel\<close>; its first argument counts the rounds left.\<close>

definition PickLevelForMemTableOutput ::
  "Comparator \<Rightarrow> 64 word \<Rightarrow> ('f \<Rightarrow> FileMetaData) \<Rightarrow> 'f Version \<Rightarrow> slice \<Rightarrow> slice \<Rightarrow> nat option" where
  "PickLevelForMemTableOutput ucmp max_file_size F v small large = do {
     overlap \<leftarrow> OverlapInLevel ucmp F v 0 (Some small) (Some large);
     if overlap then Some 0 else pick_level_loop ucmp max_file_size F v small large kMaxMemCompactLevel 0 }"

text \<open>The levels are in order: every file has its bounds in order, and the files of the levels above 0 are sorted and disjoint.\<close>

context user_comparator
begin

definition version_levels :: "('f \<Rightarrow> FileMetaData) \<Rightarrow> (nat \<Rightarrow> 'f list) \<Rightarrow> bool" where
  "version_levels F files \<longleftrightarrow> (\<forall>l < kNumLevels. length (files l) < 2 ^ 31 \<and> (\<forall>f \<in> set (files l). file_ok (F f)) \<and>
     (0 < l \<longrightarrow> disjoint_files (map F (files l))))"

end

text \<open>The entries of a file, and the order of entries between files.\<close>

definition file_covers :: "Comparator \<Rightarrow> FileMetaData \<Rightarrow> entries \<Rightarrow> bool" where
  "file_covers C f kvs \<longleftrightarrow> kvs \<noteq> [] \<and> fst (hd kvs) = smallest f \<and> fst (last kvs) = largest f \<and> db_keys_ok kvs"

context user_comparator
begin

abbreviation asc :: "entries \<Rightarrow> bool" where "asc \<equiv> ascending (ikc_Compare C) ikey_ok"

lemma asc_nth:
  assumes "asc kvs" "i < j" "j < length kvs"
  shows "ikc_Compare C (fst (kvs ! i)) (fst (kvs ! j)) < 0"
  using assms by (simp add: ascending_def sorted_wrt_iff_nth_less)

lemma asc_nth_le:
  assumes "asc kvs" "i \<le> j" "j < length kvs"
  shows "ikc_Compare C (fst (kvs ! i)) (fst (kvs ! j)) \<le> 0"
proof (cases "i = j")
  case True
  have "ikey_ok (fst (kvs ! j))" using assms by (simp add: ascending_def)
  then show ?thesis using True internal.refl by simp
next
  case False
  then show ?thesis using asc_nth[of kvs i j] assms by simp
qed

lemma covers_bounds:
  assumes c: "file_covers C f kvs" and a: "asc kvs" and e: "e \<in> set kvs"
  shows "ikc_Compare C (smallest f) (fst e) \<le> 0" "ikc_Compare C (fst e) (largest f) \<le> 0"
proof -
  obtain j where j: "j < length kvs" "e = kvs ! j" using e by (auto simp: in_set_conv_nth)
  have ends: "smallest f = fst (kvs ! 0)" "largest f = fst (kvs ! (length kvs - 1))"
    using c unfolding file_covers_def by (metis hd_conv_nth, metis last_conv_nth)
  show "ikc_Compare C (smallest f) (fst e) \<le> 0" using asc_nth_le[OF a, of 0 j] ends j by simp
  show "ikc_Compare C (fst e) (largest f) \<le> 0" using asc_nth_le[OF a, of j "length kvs - 1"] ends j by simp
qed

lemma covers_user:
  assumes c: "file_covers C f kvs" and a: "asc kvs" and e: "e \<in> set kvs"
  shows "Compare C (usmall f) (ExtractUserKey (fst e)) \<le> 0" "Compare C (ExtractUserKey (fst e)) (ularge f) \<le> 0"
  using covers_bounds[OF assms] by (auto simp: ikc_le)

lemma covers_file_ok:
  assumes c: "file_covers C f kvs" and a: "asc kvs"
  shows "file_ok f"
proof -
  have h: "(smallest f, snd (hd kvs)) \<in> set kvs" "(largest f, snd (last kvs)) \<in> set kvs"
    using c unfolding file_covers_def by (metis hd_in_set prod.collapse, metis last_in_set prod.collapse)
  then have "ikey_ok (smallest f) \<and> ikey_ok (largest f)" using a by (auto simp: ascending_def)
  moreover have "ParseInternalKey (smallest f) \<noteq> None \<and> ParseInternalKey (largest f) \<noteq> None"
    using c h by (force simp: file_covers_def db_keys_ok_def)
  ultimately show ?thesis using covers_bounds(2)[OF c a h(1)] by (simp add: file_ok_def)
qed

end

text \<open>A list of entries is newer than another when its entries for a user key are.\<close>

definition newer_entries :: "Comparator \<Rightarrow> entries \<Rightarrow> entries \<Rightarrow> bool" where
  "newer_entries C kvs kvs' \<longleftrightarrow> (\<forall>e \<in> set kvs. \<forall>e' \<in> set kvs'.
     Compare C (ExtractUserKey (fst e)) (ExtractUserKey (fst e')) = 0 \<longrightarrow> key_num (fst e') < key_num (fst e))"

definition version_newer :: "Comparator \<Rightarrow> ('f \<Rightarrow> FileMetaData) \<Rightarrow> (nat \<Rightarrow> 'f list) \<Rightarrow> ('f \<Rightarrow> entries) \<Rightarrow> bool" where
  "version_newer C F files K \<longleftrightarrow>
     (\<forall>l' < kNumLevels. \<forall>l < l'. \<forall>f \<in> set (files l). \<forall>g \<in> set (files l'). newer_entries C (K f) (K g)) \<and>
     distinct (files 0) \<and> inj_on (\<lambda>f. fnumber (F f)) (set (files 0)) \<and>
     (\<forall>f \<in> set (files 0). \<forall>g \<in> set (files 0). fnumber (F g) < fnumber (F f) \<longrightarrow> newer_entries C (K f) (K g))"

definition version_entries :: "(nat \<Rightarrow> 'f list) \<Rightarrow> ('f \<Rightarrow> entries) \<Rightarrow> (slice \<times> slice) set" where
  "version_entries files K = (\<Union>l < kNumLevels. \<Union>f \<in> set (files l). set (K f))"

end
