(* ===== verification/Ldb_Compaction.thy ===== *)
theory Ldb_Compaction
  imports Ldb_Version
begin

text \<open>
  Compactions: \<^verbatim>\<open>VersionSet::PickCompaction\<close>, \<^verbatim>\<open>CompactRange\<close>, \<^verbatim>\<open>SetupOtherInputs\<close> and the class \<^verbatim>\<open>Compaction\<close> of \<^verbatim>\<open>db/version_set.cc\<close>.

  The input version is a value. The members of the options that are read are the maximal file size of the version set.
  The inputs of a compaction are such that what stays behind in the level is
  newer than what is moved, and that every file of the next level with a key in their range is an input.
\<close>

record 'f Compaction =
  c_level :: nat
  c_max_output_file_size :: "64 word"
  c_input_version :: "'f Version option"
  c_edit :: VersionEdit
  c_inputs0 :: "'f list"
  c_inputs1 :: "'f list"
  c_grandparents :: "'f list"
  c_grandparent_index :: nat
  c_seen_key :: bool
  c_overlapped_bytes :: "64 word"
  c_level_ptrs :: "nat \<Rightarrow> nat"

definition new_Compaction :: "64 word \<Rightarrow> nat \<Rightarrow> 'f Compaction" where
  "new_Compaction max_file_size level =
     \<lparr>c_level = level, c_max_output_file_size = MaxFileSizeForLevel max_file_size level, c_input_version = None,
      c_edit = new_VersionEdit, c_inputs0 = [], c_inputs1 = [], c_grandparents = [], c_grandparent_index = 0,
      c_seen_key = False, c_overlapped_bytes = 0, c_level_ptrs = (\<lambda>_. 0)\<rparr>"

section \<open>Choosing the inputs\<close>

text \<open>The attempt to take more files of the level without taking more of the next: the range, the inputs and the whole
  range of the compaction.\<close>

type_synonym 'f chosen = "(slice \<times> slice) \<times> 'f list \<times> 'f list \<times> (slice \<times> slice)"

definition grow_inputs ::
  "Comparator \<Rightarrow> 64 word \<Rightarrow> ('f \<Rightarrow> FileMetaData) \<Rightarrow> (nat \<Rightarrow> 'f list) \<Rightarrow> nat \<Rightarrow> 'f chosen \<Rightarrow> 'f chosen option" where
  "grow_inputs U max_file_size F files level = (\<lambda>(rg, inputs0, inputs1, (all_start, all_limit)). do {
     expanded0 \<leftarrow> GetOverlappingInputs U F files level (Some all_start) (Some all_limit);
     expanded0 \<leftarrow> AddBoundaryInputs U F (files level) expanded0;
     let inputs1_size = TotalFileSize F inputs1;
     let expanded0_size = TotalFileSize F expanded0;
     if length expanded0 > length inputs0 \<and>
        sint (inputs1_size + expanded0_size) < sint (ExpandedCompactionByteSizeLimit max_file_size)
     then do {
       let (new_start, new_limit) = GetRange U F expanded0;
       expanded1 \<leftarrow> GetOverlappingInputs U F files (level + 1) (Some new_start) (Some new_limit);
       if length expanded1 = length inputs1
       then Some ((new_start, new_limit), expanded0, expanded1, GetRange2 U F expanded0 expanded1)
       else Some (rg, inputs0, inputs1, (all_start, all_limit)) }
     else Some (rg, inputs0, inputs1, (all_start, all_limit)) })"

definition choose_inputs ::
  "Comparator \<Rightarrow> 64 word \<Rightarrow> ('f \<Rightarrow> FileMetaData) \<Rightarrow> (nat \<Rightarrow> 'f list) \<Rightarrow> nat \<Rightarrow> 'f list \<Rightarrow> 'f chosen option" where
  "choose_inputs U max_file_size F files level inputs0 = do {
     inputs0 \<leftarrow> AddBoundaryInputs U F (files level) inputs0;
     let (small, large) = GetRange U F inputs0;
     inputs1 \<leftarrow> GetOverlappingInputs U F files (level + 1) (Some small) (Some large);
     let chosen = ((small, large), inputs0, inputs1, GetRange2 U F inputs0 inputs1);
     if inputs1 \<noteq> [] then grow_inputs U max_file_size F files level chosen else Some chosen }"

definition SetupOtherInputs ::
  "('f \<Rightarrow> FileMetaData) \<Rightarrow> 'f Compaction \<Rightarrow> 'f VersionSet \<Rightarrow> ('f Compaction \<times> 'f VersionSet) option" where
  "SetupOtherInputs F c vs = do {
     let level = c_level c;
     let U = vs_user_comparator vs;
     let files = v_files (vs_current vs);
     ((small, large), inputs0, inputs1, (all_start, all_limit)) \<leftarrow>
       choose_inputs U (vs_max_file_size vs) F files level (c_inputs0 c);
     grandparents \<leftarrow> (if level + 2 < kNumLevels
       then GetOverlappingInputs U F files (level + 2) (Some all_start) (Some all_limit) else Some (c_grandparents c));
     Some (c\<lparr>c_inputs0 := inputs0, c_inputs1 := inputs1, c_grandparents := grandparents,
             c_edit := SetCompactPointer (int level) large (c_edit c)\<rparr>,
           vs\<lparr>vs_compact_pointer := (vs_compact_pointer vs)(level := large)\<rparr>) }"

fun after_pointer :: "Comparator \<Rightarrow> ('f \<Rightarrow> FileMetaData) \<Rightarrow> slice \<Rightarrow> 'f list \<Rightarrow> 'f list" where
  "after_pointer U F pointer [] = []"
| "after_pointer U F pointer (f # files) =
     (if pointer = [] \<or> ikc_Compare U (largest (F f)) pointer > 0 then [f] else after_pointer U F pointer files)"

text \<open>The level and the file of a compaction.\<close>

definition pick_file :: "('f \<Rightarrow> FileMetaData) \<Rightarrow> 'f VersionSet \<Rightarrow> (nat \<times> 'f list) option" where
  "pick_file F vs =
     (let v = vs_current vs in
      if v_compaction_score v \<ge> 1 then
        let level = nat (v_compaction_level v);
            picked = after_pointer (vs_user_comparator vs) F (vs_compact_pointer vs level) (v_files v level)
        in Some (level, if picked = [] then [v_files v level ! 0] else picked)
      else case v_file_to_compact v of
        Some f \<Rightarrow> Some (nat (v_file_to_compact_level v), [f])
      | None \<Rightarrow> None)"

definition PickCompaction :: "('f \<Rightarrow> FileMetaData) \<Rightarrow> 'f VersionSet \<Rightarrow> ('f Compaction option \<times> 'f VersionSet) option" where
  "PickCompaction F vs =
     (case pick_file F vs of
        None \<Rightarrow> Some (None, vs)
      | Some (level, picked) \<Rightarrow> do {
          let c = (new_Compaction (vs_max_file_size vs) level)\<lparr>c_inputs0 := picked, c_input_version := Some (vs_current vs)\<rparr>;
          inputs0 \<leftarrow> (if level = 0 then
              let (small, large) = GetRange (vs_user_comparator vs) F picked in
              GetOverlappingInputs (vs_user_comparator vs) F (v_files (vs_current vs)) 0 (Some small) (Some large)
            else Some picked);
          (c, vs) \<leftarrow> SetupOtherInputs F (c\<lparr>c_inputs0 := inputs0\<rparr>) vs;
          Some (Some c, vs) })"

text \<open>The files up to the one with which the sum of the sizes reaches the limit.\<close>

fun cut_inputs :: "('f \<Rightarrow> FileMetaData) \<Rightarrow> 64 word \<Rightarrow> 64 word \<Rightarrow> 'f list \<Rightarrow> 'f list" where
  "cut_inputs F limit acc [] = []"
| "cut_inputs F limit acc (f # files) =
     (let acc = acc + file_size (F f) in if acc \<ge> limit then [f] else f # cut_inputs F limit acc files)"

definition VersionSet_CompactRange ::
  "('f \<Rightarrow> FileMetaData) \<Rightarrow> nat \<Rightarrow> slice option \<Rightarrow> slice option \<Rightarrow> 'f VersionSet \<Rightarrow> ('f Compaction option \<times> 'f VersionSet) option" where
  "VersionSet_CompactRange F level b e vs = do {
     inputs \<leftarrow> GetOverlappingInputs (vs_user_comparator vs) F (v_files (vs_current vs)) level b e;
     if inputs = [] then Some (None, vs)
     else do {
       let inputs = (if level > 0 then cut_inputs F (MaxFileSizeForLevel (vs_max_file_size vs) level) 0 inputs else inputs);
       (c, vs) \<leftarrow> SetupOtherInputs F ((new_Compaction (vs_max_file_size vs) level)
         \<lparr>c_input_version := Some (vs_current vs), c_inputs0 := inputs\<rparr>) vs;
       Some (Some c, vs) } }"

section \<open>During a compaction\<close>

definition IsTrivialMove :: "('f \<Rightarrow> FileMetaData) \<Rightarrow> 64 word \<Rightarrow> 'f Compaction \<Rightarrow> bool" where
  "IsTrivialMove F max_file_size c \<longleftrightarrow> length (c_inputs0 c) = 1 \<and> length (c_inputs1 c) = 0 \<and>
     sint (TotalFileSize F (c_grandparents c)) \<le> sint (MaxGrandParentOverlapBytes max_file_size)"

definition AddInputDeletions :: "('f \<Rightarrow> FileMetaData) \<Rightarrow> 'f Compaction \<Rightarrow> VersionEdit \<Rightarrow> VersionEdit" where
  "AddInputDeletions F c edit =
     fold (\<lambda>f. DeleteFile (int (c_level c + 1)) (fnumber (F f))) (c_inputs1 c)
       (fold (\<lambda>f. DeleteFile (int (c_level c)) (fnumber (F f))) (c_inputs0 c) edit)"

text \<open>One level of \<^verbatim>\<open>IsBaseLevelForKey\<close>: whether the key is in the range of the file that is reached, and the new position.\<close>

function base_level_loop :: "Comparator \<Rightarrow> ('f \<Rightarrow> FileMetaData) \<Rightarrow> 'f list \<Rightarrow> slice \<Rightarrow> nat \<Rightarrow> bool \<times> nat" where
  "base_level_loop U F files ukey p =
     (if p < length files then
        let f = F (files ! p) in
        if Compare U ukey (ExtractUserKey (largest f)) \<le> 0
        then (Compare U ukey (ExtractUserKey (smallest f)) \<ge> 0, p)
        else base_level_loop U F files ukey (p + 1)
      else (False, p))"
  by pat_completeness auto
termination
  by (relation "measure (\<lambda>(U, F, files, ukey, p). length files - p)") auto

fun base_levels :: "Comparator \<Rightarrow> ('f \<Rightarrow> FileMetaData) \<Rightarrow> (nat \<Rightarrow> 'f list) \<Rightarrow> slice \<Rightarrow> nat list \<Rightarrow> (nat \<Rightarrow> nat) \<Rightarrow> bool \<times> (nat \<Rightarrow> nat)" where
  "base_levels U F files ukey [] ptrs = (True, ptrs)"
| "base_levels U F files ukey (lvl # lvls) ptrs =
     (let (inside, p) = base_level_loop U F (files lvl) ukey (ptrs lvl); ptrs = ptrs(lvl := p)
      in if inside then (False, ptrs) else base_levels U F files ukey lvls ptrs)"

definition IsBaseLevelForKey :: "Comparator \<Rightarrow> ('f \<Rightarrow> FileMetaData) \<Rightarrow> slice \<Rightarrow> 'f Compaction \<Rightarrow> bool \<times> 'f Compaction" where
  "IsBaseLevelForKey U F ukey c =
     (let (base, ptrs) = base_levels U F (v_files (the (c_input_version c))) ukey [c_level c + 2..<kNumLevels] (c_level_ptrs c)
      in (base, c\<lparr>c_level_ptrs := ptrs\<rparr>))"

function grandparent_loop :: "Comparator \<Rightarrow> ('f \<Rightarrow> FileMetaData) \<Rightarrow> slice \<Rightarrow> 'f list \<Rightarrow> bool \<Rightarrow> nat \<Rightarrow> 64 word \<Rightarrow> nat \<times> 64 word" where
  "grandparent_loop U F ikey grandparents seen_key i bytes =
     (if i < length grandparents \<and> ikc_Compare U ikey (largest (F (grandparents ! i))) > 0
      then grandparent_loop U F ikey grandparents seen_key (i + 1)
             (if seen_key then bytes + file_size (F (grandparents ! i)) else bytes)
      else (i, bytes))"
  by pat_completeness auto
termination
  by (relation "measure (\<lambda>(U, F, ikey, grandparents, seen_key, i, bytes). length grandparents - i)") auto

definition ShouldStopBefore :: "Comparator \<Rightarrow> 64 word \<Rightarrow> ('f \<Rightarrow> FileMetaData) \<Rightarrow> slice \<Rightarrow> 'f Compaction \<Rightarrow> bool \<times> 'f Compaction" where
  "ShouldStopBefore U max_file_size F ikey c =
     (let (i, bytes) = grandparent_loop U F ikey (c_grandparents c) (c_seen_key c) (c_grandparent_index c) (c_overlapped_bytes c);
          c = c\<lparr>c_grandparent_index := i, c_overlapped_bytes := bytes, c_seen_key := True\<rparr>
      in if sint bytes > sint (MaxGrandParentOverlapBytes max_file_size)
         then (True, c\<lparr>c_overlapped_bytes := 0\<rparr>) else (False, c))"

definition ReleaseInputs :: "'f Compaction \<Rightarrow> 'f Compaction" where
  "ReleaseInputs c = c\<lparr>c_input_version := None\<rparr>"

declare base_level_loop.simps [simp del] grandparent_loop.simps [simp del]

section \<open>What the inputs are\<close>

context user_comparator
begin

text \<open>In a sorted level the inputs are neighbours, and no later file of the level starts with the user key the inputs end with; in level 0
  they are closed under overlapping.\<close>

definition neighbours :: "'f list \<Rightarrow> 'f list \<Rightarrow> nat \<Rightarrow> nat \<Rightarrow> bool" where
  "neighbours fs cs i n \<longleftrightarrow> cs = take n (drop i fs) \<and> 0 < n \<and> i + n \<le> length fs"

definition start_inputs :: "('f \<Rightarrow> FileMetaData) \<Rightarrow> 'f list \<Rightarrow> nat \<Rightarrow> 'f list \<Rightarrow> bool" where
  "start_inputs F fs level cs \<longleftrightarrow>
     (if level = 0 then cs \<noteq> [] \<and> set cs \<subseteq> set fs \<and> overlap_closed F fs (set cs) else \<exists>i n. neighbours fs cs i n)"

definition clean_inputs :: "('f \<Rightarrow> FileMetaData) \<Rightarrow> 'f list \<Rightarrow> nat \<Rightarrow> 'f list \<Rightarrow> bool" where
  "clean_inputs F fs level cs \<longleftrightarrow>
     (if level = 0 then cs \<noteq> [] \<and> set cs \<subseteq> set fs \<and> overlap_closed F fs (set cs)
      else \<exists>i n. neighbours fs cs i n \<and> \<not> boundary_at F fs (i + n))"

definition chosen_ok :: "('f \<Rightarrow> FileMetaData) \<Rightarrow> (nat \<Rightarrow> 'f list) \<Rightarrow> nat \<Rightarrow> slice \<times> slice \<Rightarrow> 'f list \<Rightarrow> 'f list \<Rightarrow> bool" where
  "chosen_ok F files level rg in0 in1 \<longleftrightarrow> clean_inputs F (files level) level in0 \<and>
     lower_of F in0 (fst rg) \<and> upper_of F in0 (snd rg) \<and>
     in1 = filter (\<lambda>f. in_range C (Some (ExtractUserKey (fst rg))) (Some (ExtractUserKey (snd rg))) (F f)) (files (level + 1))"

lemma clean_inputs_facts:
  assumes "clean_inputs F fs level cs"
  shows "cs \<noteq> []" "set cs \<subseteq> set fs"
  using assms slice_mem by (force simp: clean_inputs_def neighbours_def split: if_splits)+

lemma level_files_ok:
  assumes "version_levels F files" "level < kNumLevels"
  shows "\<forall>f \<in> set (files level). file_ok (F f)" "level \<noteq> 0 \<Longrightarrow> disjoint_files (map F (files level))"
  using assms by (auto simp: version_levels_def)

lemma AddBoundaryInputs_clean:
  assumes l: "version_levels F files" "level < kNumLevels" and s: "start_inputs F (files level) level cs"
  shows "\<exists>in0. AddBoundaryInputs C F (files level) cs = Some in0 \<and> clean_inputs F (files level) level in0"
proof (cases "level = 0")
  case True
  then have c: "set cs \<subseteq> set (files level)" "overlap_closed F (files level) (set cs)" "cs \<noteq> []" using s by (auto simp: start_inputs_def)
  then show ?thesis using AddBoundaryInputs_closed[OF level_files_ok(1)[OF l] c(2,1,3)] True by (simp add: clean_inputs_def)
next
  case False
  then obtain i n where n: "cs = take n (drop i (files level))" "0 < n" "i + n \<le> length (files level)"
    using s by (auto simp: start_inputs_def neighbours_def)
  obtain n' where n': "AddBoundaryInputs C F (files level) cs = Some (take n' (drop i (files level)))" "n \<le> n'"
    "i + n' \<le> length (files level)" "\<not> boundary_at F (files level) (i + n')"
    using AddBoundaryInputs_slice[OF level_files_ok(2)[OF l False] n(2,3)] unfolding n(1) by blast
  then have "neighbours (files level) (take n' (drop i (files level))) i n'" using n(2) by (simp add: neighbours_def)
  then have "clean_inputs F (files level) level (take n' (drop i (files level)))"
    using False n'(4) unfolding clean_inputs_def by auto
  then show ?thesis using n'(1) by blast
qed

lemma inputs_ok:
  assumes l: "version_levels F files" "level < kNumLevels" and c: "clean_inputs F (files level) level in0"
  shows "\<forall>f \<in> set in0. file_ok (F f)"
  using level_files_ok(1)[OF l] clean_inputs_facts(2)[OF c] by blast

lemma range_bounds_ok:
  assumes "lower_of F fs small" "upper_of F fs large" "\<forall>f \<in> set fs. file_ok (F f)"
  shows "range_ok (Some (ExtractUserKey small))" "range_ok (Some (ExtractUserKey large))"
  using assms by (auto simp: lower_of_def upper_of_def range_ok_def file_ok_def)

lemma next_level_inputs:
  assumes l: "version_levels F files" "level + 1 < kNumLevels" and c: "clean_inputs F (files level) level in0"
  shows "\<exists>small large in1. GetRange C F in0 = (small, large) \<and>
    GetOverlappingInputs C F files (level + 1) (Some small) (Some large) = Some in1 \<and> chosen_ok F files level (small, large) in0 in1"
proof -
  have lev: "level < kNumLevels" using l(2) by simp
  obtain small large where r: "GetRange C F in0 = (small, large)" "lower_of F in0 small" "upper_of F in0 large"
    using GetRange_range[OF clean_inputs_facts(1)[OF c] inputs_ok[OF l(1) lev c]] by blast
  then show ?thesis using c GetOverlappingInputs_sorted[of "level + 1" F files "Some small" "Some large"] by (simp add: chosen_ok_def)
qed

lemma overlapping_start:
  assumes l: "version_levels F files" "level < kNumLevels"
    and b: "range_ok (Some (ExtractUserKey b))" "range_ok (Some (ExtractUserKey e))"
  shows "\<exists>cs. GetOverlappingInputs C F files level (Some b) (Some e) = Some cs \<and> (cs = [] \<or> start_inputs F (files level) level cs)"
proof (cases "level = 0")
  case True
  obtain R where R: "GetOverlappingInputs C F files 0 (Some b) (Some e) = Some R"
    "least_overlap F (files 0) (Some (ExtractUserKey b)) (Some (ExtractUserKey e)) R"
    using GetOverlappingInputs_level0[of files F "Some b" "Some e"] level_files_ok(1)[OF l] b True by auto
  then show ?thesis using True least_overlapD(2,3)[OF R(2)] by (auto simp: start_inputs_def)
next
  case False
  obtain i n where n: "filter (\<lambda>f. in_range C (Some (ExtractUserKey b)) (Some (ExtractUserKey e)) (F f)) (files level) = take n (drop i (files level))"
    "i + n \<le> length (files level)"
    using in_range_slice[OF level_files_ok(2)[OF l False] b] by blast
  have "n \<noteq> 0 \<Longrightarrow> neighbours (files level) (take n (drop i (files level))) i n" using n(2) by (simp add: neighbours_def)
  then have "take n (drop i (files level)) = [] \<or> start_inputs F (files level) level (take n (drop i (files level)))"
    using False unfolding start_inputs_def by (cases "n = 0") auto
  then show ?thesis using GetOverlappingInputs_sorted[OF False, of F files "Some b" "Some e"] n(1) by simp
qed

lemma grow_inputs_ok:
  assumes l: "version_levels F files" "level + 1 < kNumLevels" and c: "chosen_ok F files level rg in0 in1"
    and whole: "lower_of F (in0 @ in1) (fst whole)" "upper_of F (in0 @ in1) (snd whole)"
  shows "\<exists>rg' in0' in1' whole'. grow_inputs C mx F files level (rg, in0, in1, whole) = Some (rg', in0', in1', whole') \<and>
    chosen_ok F files level rg' in0' in1' \<and> lower_of F (in0' @ in1') (fst whole') \<and> upper_of F (in0' @ in1') (snd whole')"
proof -
  have lev: "level < kNumLevels" using l(2) by simp
  obtain s e where w: "whole = (s, e)" by fastforce
  have ok: "\<forall>f \<in> set (in0 @ in1). file_ok (F f)"
    using c inputs_ok[OF l(1) lev] level_files_ok(1)[OF l] by (auto simp: chosen_ok_def)
  have b: "range_ok (Some (ExtractUserKey s))" "range_ok (Some (ExtractUserKey e))"
    using range_bounds_ok[OF whole ok] w by simp_all
  obtain cs where cs: "GetOverlappingInputs C F files level (Some s) (Some e) = Some cs" "cs = [] \<or> start_inputs F (files level) level cs"
    using overlapping_start[OF l(1) lev b] by blast
  show ?thesis
  proof (cases "cs = []")
    case True
    then have "AddBoundaryInputs C F (files level) cs = Some []" by (simp add: AddBoundaryInputs_def FindLargestKey_def)
    then show ?thesis using cs(1) w c whole by (simp add: grow_inputs_def Let_def)
  next
    case False
    then obtain x where x: "AddBoundaryInputs C F (files level) cs = Some x" "clean_inputs F (files level) level x"
      using AddBoundaryInputs_clean[OF l(1) lev] cs(2) by blast
    obtain ns nl x1 where n: "GetRange C F x = (ns, nl)" "GetOverlappingInputs C F files (level + 1) (Some ns) (Some nl) = Some x1"
      "chosen_ok F files level (ns, nl) x x1" using next_level_inputs[OF l x(2)] by blast
    have "x @ x1 \<noteq> []" "\<forall>f \<in> set (x @ x1). file_ok (F f)"
      using clean_inputs_facts(1)[OF x(2)] n(3) inputs_ok[OF l(1) lev x(2)] level_files_ok(1)[OF l] by (auto simp: chosen_ok_def)
    then obtain s' e' where "GetRange2 C F x x1 = (s', e')" "lower_of F (x @ x1) s'" "upper_of F (x @ x1) e'"
      unfolding GetRange2_def using GetRange_range by blast
    then show ?thesis using cs(1) x(1) n w c whole by (cases rg) (simp add: grow_inputs_def Let_def)
  qed
qed

lemma choose_inputs_ok:
  assumes l: "version_levels F files" "level + 1 < kNumLevels" and s: "start_inputs F (files level) level cs"
  shows "\<exists>rg in0 in1 whole. choose_inputs C mx F files level cs = Some (rg, in0, in1, whole) \<and>
    chosen_ok F files level rg in0 in1 \<and> lower_of F (in0 @ in1) (fst whole) \<and> upper_of F (in0 @ in1) (snd whole)"
proof -
  have lev: "level < kNumLevels" using l(2) by simp
  obtain x where x: "AddBoundaryInputs C F (files level) cs = Some x" "clean_inputs F (files level) level x"
    using AddBoundaryInputs_clean[OF l(1) lev s] by blast
  obtain ns nl x1 where n: "GetRange C F x = (ns, nl)" "GetOverlappingInputs C F files (level + 1) (Some ns) (Some nl) = Some x1"
    "chosen_ok F files level (ns, nl) x x1" using next_level_inputs[OF l x(2)] by blast
  have "x @ x1 \<noteq> []" "\<forall>f \<in> set (x @ x1). file_ok (F f)"
    using clean_inputs_facts(1)[OF x(2)] n(3) inputs_ok[OF l(1) lev x(2)] level_files_ok(1)[OF l] by (auto simp: chosen_ok_def)
  then obtain s' e' where w: "GetRange2 C F x x1 = (s', e')" "lower_of F (x @ x1) s'" "upper_of F (x @ x1) e'"
    unfolding GetRange2_def using GetRange_range by blast
  show ?thesis
  proof (cases "x1 = []")
    case True
    then show ?thesis using x(1) n w by (simp add: choose_inputs_def Let_def)
  next
    case False
    then show ?thesis using x(1) n w grow_inputs_ok[OF l n(3), of "(s', e')"] by (simp add: choose_inputs_def Let_def)
  qed
qed

lemma after_pointer_neighbours:
  "after_pointer U F p fs = [] \<or> (\<exists>i < length fs. after_pointer U F p fs = take 1 (drop i fs))"
proof (induction fs)
  case (Cons f fs)
  show ?case
  proof (cases "p = [] \<or> ikc_Compare U (largest (F f)) p > 0")
    case True
    then show ?thesis by (intro disjI2 exI[of _ 0]) simp
  next
    case False
    then have eq: "after_pointer U F p (f # fs) = after_pointer U F p fs" by simp
    from Cons.IH show ?thesis
    proof
      assume "\<exists>i < length fs. after_pointer U F p fs = take 1 (drop i fs)"
      then obtain i where "i < length fs" "after_pointer U F p fs = take 1 (drop i fs)" by blast
      then show ?thesis unfolding eq by (intro disjI2 exI[of _ "Suc i"]) simp
    next
      assume "after_pointer U F p fs = []"
      then show ?thesis unfolding eq by blast
    qed
  qed
qed simp

lemma cut_inputs_neighbours:
  "fs \<noteq> [] \<Longrightarrow> \<exists>n. 0 < n \<and> n \<le> length fs \<and> cut_inputs F cap acc fs = take n fs"
proof (induction fs arbitrary: acc)
  case (Cons f fs)
  show ?case
  proof (cases "acc + file_size (F f) \<ge> cap \<or> fs = []")
    case True
    then show ?thesis by (intro exI[of _ 1]) (auto simp: Let_def)
  next
    case False
    then obtain n where "0 < n" "n \<le> length fs" "cut_inputs F cap (acc + file_size (F f)) fs = take n fs" using Cons.IH by blast
    then show ?thesis using False by (intro exI[of _ "Suc n"]) auto
  qed
qed simp

end

lemma best_level_loop_score:
  assumes "snd best \<ge> 1 \<Longrightarrow> 0 \<le> fst best \<and> nat (fst best) < n \<and> v_files v (nat (fst best)) \<noteq> []" "\<forall>l \<in> set ls. l < n"
  shows "snd (best_level_loop F v ls best) \<ge> 1 \<Longrightarrow>
    0 \<le> fst (best_level_loop F v ls best) \<and> nat (fst (best_level_loop F v ls best)) < n \<and>
    v_files v (nat (fst (best_level_loop F v ls best))) \<noteq> []"
  using assms
proof (induction ls arbitrary: best)
  case (Cons l ls)
  obtain bl bs where b: "best = (bl, bs)" by fastforce
  have "v_files v l \<noteq> []" if "level_score F v l \<ge> 1" using that by (auto simp: level_score_def split: if_splits)
  then have "snd best' \<ge> 1 \<Longrightarrow> 0 \<le> fst best' \<and> nat (fst best') < n \<and> v_files v (nat (fst best')) \<noteq> []"
    if "best' = (if level_score F v l > bs then (int l, level_score F v l) else (bl, bs))" for best'
    using that Cons.prems(2,3) b by (auto split: if_splits)
  then show ?case using Cons.IH Cons.prems(1,3) b by (simp add: Let_def)
qed simp

text \<open>A version with a score of at least 1 has a level to compact, and files in it.\<close>

lemma Finalize_level:
  assumes "v_compaction_score (Finalize F v) \<ge> 1"
  shows "0 \<le> v_compaction_level (Finalize F v)" "nat (v_compaction_level (Finalize F v)) + 1 < kNumLevels"
    "v_files v (nat (v_compaction_level (Finalize F v))) \<noteq> []" "v_files (Finalize F v) = v_files v"
  using best_level_loop_score[of "(-1, -1)" "kNumLevels - 1" v "[0..<kNumLevels - 1]" F] assms
  by (auto simp: Finalize_def split_beta kNumLevels_def)

context user_comparator
begin

definition compaction_ok :: "('f \<Rightarrow> FileMetaData) \<Rightarrow> 'f Version \<Rightarrow> 'f Compaction \<Rightarrow> bool" where
  "compaction_ok F v c \<longleftrightarrow> c_level c + 1 < kNumLevels \<and> c_input_version c = Some v \<and>
     (\<exists>rg. chosen_ok F (v_files v) (c_level c) rg (c_inputs0 c) (c_inputs1 c))"

definition may_pick :: "'f VersionSet \<Rightarrow> bool" where
  "may_pick vs \<longleftrightarrow> vs_user_comparator vs = C \<and>
     (let v = vs_current vs in
      if v_compaction_score v \<ge> 1
      then nat (v_compaction_level v) + 1 < kNumLevels \<and> v_files v (nat (v_compaction_level v)) \<noteq> []
      else (\<forall>f. v_file_to_compact v = Some f \<longrightarrow>
        nat (v_file_to_compact_level v) + 1 < kNumLevels \<and> f \<in> set (v_files v (nat (v_file_to_compact_level v)))))"

lemma SetupOtherInputs_ok:
  assumes l: "version_levels F (v_files v)" "c_level c + 1 < kNumLevels" and v: "vs_current vs = v" "vs_user_comparator vs = C"
    and s: "start_inputs F (v_files v (c_level c)) (c_level c) (c_inputs0 c)" and c: "c_input_version c = Some v"
  shows "\<exists>c' vs'. SetupOtherInputs F c vs = Some (c', vs') \<and> compaction_ok F v c' \<and> vs_current vs' = v"
proof -
  obtain rg in0 in1 whole where ch: "choose_inputs C (vs_max_file_size vs) F (v_files v) (c_level c) (c_inputs0 c) = Some (rg, in0, in1, whole)"
    "chosen_ok F (v_files v) (c_level c) rg in0 in1" using choose_inputs_ok[OF l s, of "vs_max_file_size vs"] by auto
  obtain s e a b where p: "rg = (s, e)" "whole = (a, b)" by fastforce
  obtain g where g: "(if c_level c + 2 < kNumLevels then GetOverlappingInputs C F (v_files v) (c_level c + 2) (Some a) (Some b)
      else Some (c_grandparents c)) = Some g"
    by (cases "c_level c + 2 < kNumLevels") (simp_all add: GetOverlappingInputs_sorted)
  have "SetupOtherInputs F c vs = Some (c\<lparr>c_inputs0 := in0, c_inputs1 := in1, c_grandparents := g,
      c_edit := SetCompactPointer (int (c_level c)) e (c_edit c)\<rparr>, vs\<lparr>vs_compact_pointer := (vs_compact_pointer vs)(c_level c := e)\<rparr>)"
    unfolding SetupOtherInputs_def Let_def v ch(1) p by (simp only: g option.case bind.bind_lunit split)
  then show ?thesis using ch(2) l(2) v(1) c p(1) by (auto simp: compaction_ok_def)
qed

lemma pick_file_picks:
  assumes m: "may_pick vs" and p: "pick_file F vs = Some (level, picked)"
  shows "level + 1 < kNumLevels" "\<exists>i n. neighbours (v_files (vs_current vs) level) picked i n \<and> n = 1"
proof -
  let ?v = "vs_current vs"
  have *: "level + 1 < kNumLevels \<and> (\<exists>i n. neighbours (v_files ?v level) picked i n \<and> n = 1)"
  proof (cases "v_compaction_score ?v \<ge> 1")
    case True
    have lev: "level = nat (v_compaction_level ?v)" using p True by (simp add: pick_file_def Let_def)
    have ne: "v_files ?v level \<noteq> []" using m True lev by (simp add: may_pick_def Let_def)
    then have "take 1 (drop 0 (v_files ?v level)) = [v_files ?v level ! 0]" by (cases "v_files ?v level") auto
    then have "neighbours (v_files ?v level) [v_files ?v level ! 0] 0 1" using ne by (simp add: neighbours_def Suc_leI)
    moreover have "\<exists>i. neighbours (v_files ?v level) (after_pointer C F ptr (v_files ?v level)) i 1"
      if "after_pointer C F ptr (v_files ?v level) \<noteq> []" for ptr
      using after_pointer_neighbours[of C F ptr "v_files ?v level"] that by (auto simp: neighbours_def)
    ultimately show ?thesis using p m True lev by (auto simp: pick_file_def may_pick_def Let_def)
  next
    case False
    then obtain f where f: "v_file_to_compact ?v = Some f" "level = nat (v_file_to_compact_level ?v)" "picked = [f]"
      using p by (auto simp: pick_file_def Let_def split: option.splits)
    then have "level + 1 < kNumLevels" "f \<in> set (v_files ?v level)" using m False by (auto simp: may_pick_def Let_def)
    then obtain i where "i < length (v_files ?v level)" "v_files ?v level ! i = f" by (auto simp: in_set_conv_nth)
    then have "neighbours (v_files ?v level) picked i 1" using f(3) by (simp add: neighbours_def take_Suc_conv_app_nth Cons_nth_drop_Suc[symmetric])
    then show ?thesis using \<open>level + 1 < kNumLevels\<close> by blast
  qed
  then show "level + 1 < kNumLevels" "\<exists>i n. neighbours (v_files ?v level) picked i n \<and> n = 1" by blast+
qed

lemma level0_start:
  assumes ok: "\<forall>f \<in> set (files 0). file_ok (F f)" and f: "f \<in> set (files 0)"
  shows "\<exists>small large cs. GetRange C F [f] = (small, large) \<and>
    GetOverlappingInputs C F files 0 (Some small) (Some large) = Some cs \<and> start_inputs F (files 0) 0 cs"
proof -
  have fok: "file_ok (F f)" using ok f by blast
  have b: "range_ok (map_option ExtractUserKey (Some (smallest (F f))))" "range_ok (map_option ExtractUserKey (Some (largest (F f))))"
    using fok by (auto simp: range_ok_def file_ok_def)
  obtain R where R: "GetOverlappingInputs C F files 0 (Some (smallest (F f))) (Some (largest (F f))) = Some R"
    "least_overlap F (files 0) (Some (usmall (F f))) (Some (ularge (F f))) R"
    using GetOverlappingInputs_level0[of files F "Some (smallest (F f))" "Some (largest (F f))"] ok b by auto
  have "f \<in> in_files F (files 0) (Some (usmall (F f))) (Some (ularge (F f)))"
    using f file_okD(3,4)[OF fok] by (simp add: in_files_def in_range_def)
  then have "R \<noteq> []" using least_overlapD(1)[OF R(2)] by auto
  then show ?thesis using R(1) least_overlapD(2,3)[OF R(2)] by (simp add: GetRange_def start_inputs_def)
qed

lemma PickCompaction_ok:
  assumes l: "version_levels F (v_files v)" and v: "vs_current vs = v" and m: "may_pick vs"
  shows "\<exists>c vs'. PickCompaction F vs = Some (c, vs') \<and> vs_current vs' = v \<and>
    (case c of None \<Rightarrow> \<not> NeedsCompaction vs | Some c \<Rightarrow> compaction_ok F v c)"
proof (cases "pick_file F vs")
  case None
  then show ?thesis using v by (auto simp: PickCompaction_def pick_file_def NeedsCompaction_def Let_def split: if_splits option.splits)
next
  case (Some lp)
  obtain level picked where lp: "lp = (level, picked)" by fastforce
  note p = pick_file_picks[OF m Some[unfolded lp]]
  have U: "vs_user_comparator vs = C" using m by (simp add: may_pick_def)
  obtain i where i: "neighbours (v_files v level) picked i 1" using p(2) v by auto
  have "\<exists>cs. (if level = 0 then case GetRange C F picked of (small, large) \<Rightarrow> GetOverlappingInputs C F (v_files v) 0 (Some small) (Some large)
      else Some picked) = Some cs \<and> start_inputs F (v_files v level) level cs"
  proof (cases "level = 0")
    case True
    then obtain f where f: "picked = [f]" "f \<in> set (v_files v 0)"
      using i by (auto simp: neighbours_def take_Suc_conv_app_nth Cons_nth_drop_Suc[symmetric])
    show ?thesis using level0_start[of "v_files v" F f] f(2) level_files_ok(1)[OF l, of 0] p(1) True f(1) by auto
  next
    case False
    then show ?thesis using i by (auto simp: start_inputs_def)
  qed
  then obtain cs where cs: "(if level = 0 then case GetRange C F picked of (small, large) \<Rightarrow> GetOverlappingInputs C F (v_files v) 0 (Some small) (Some large)
      else Some picked) = Some cs" "start_inputs F (v_files v level) level cs" by blast
  let ?c = "(new_Compaction (vs_max_file_size vs) level)\<lparr>c_inputs0 := cs, c_input_version := Some v\<rparr>"
  have "\<exists>c' vs'. SetupOtherInputs F ?c vs = Some (c', vs') \<and> compaction_ok F v c' \<and> vs_current vs' = v"
    by (rule SetupOtherInputs_ok[OF l]) (use p(1) v U cs(2) in \<open>simp_all add: new_Compaction_def\<close>)
  then show ?thesis using Some lp cs(1) v U by (auto simp: PickCompaction_def Let_def new_Compaction_def)
qed

lemma CompactRange_ok:
  assumes l: "version_levels F (v_files v)" and lev: "level + 1 < kNumLevels" and v: "vs_current vs = v" "vs_user_comparator vs = C"
    and b: "range_ok (map_option ExtractUserKey b)" "range_ok (map_option ExtractUserKey e)"
  shows "\<exists>c vs'. VersionSet_CompactRange F level b e vs = Some (c, vs') \<and> vs_current vs' = v \<and>
    (case c of None \<Rightarrow> in_files F (v_files v level) (map_option ExtractUserKey b) (map_option ExtractUserKey e) = {}
     | Some c \<Rightarrow> compaction_ok F v c \<and> c_level c = level)"
proof -
  have levk: "level < kNumLevels" using lev by simp
  let ?b = "map_option ExtractUserKey b" and ?e = "map_option ExtractUserKey e" and ?fs = "v_files v level"
  obtain cs where cs: "GetOverlappingInputs C F (v_files v) level b e = Some cs" "in_files F ?fs ?b ?e \<subseteq> set cs"
    "cs = [] \<or> start_inputs F ?fs level cs"
  proof (cases "level = 0")
    case True
    obtain R where R: "GetOverlappingInputs C F (v_files v) 0 b e = Some R" "least_overlap F (v_files v 0) ?b ?e R"
      using GetOverlappingInputs_level0[of "v_files v" F b e] level_files_ok(1)[OF l levk] b True by auto
    then show ?thesis using that[of R] True least_overlapD(1-3)[OF R(2)] by (auto simp: start_inputs_def)
  next
    case False
    obtain i n where n: "filter (\<lambda>f. in_range C ?b ?e (F f)) ?fs = take n (drop i ?fs)" "i + n \<le> length ?fs"
      using in_range_slice[OF level_files_ok(2)[OF l levk False] b] by blast
    have "n \<noteq> 0 \<Longrightarrow> neighbours ?fs (take n (drop i ?fs)) i n" using n(2) by (simp add: neighbours_def)
    then have "take n (drop i ?fs) = [] \<or> start_inputs F ?fs level (take n (drop i ?fs))"
      using False unfolding start_inputs_def by (cases "n = 0") auto
    moreover have "in_files F ?fs ?b ?e \<subseteq> set (take n (drop i ?fs))" unfolding n(1)[symmetric] by (auto simp: in_files_def)
    ultimately show ?thesis using that[of "take n (drop i ?fs)"] GetOverlappingInputs_sorted[OF False, of F "v_files v" b e] n(1) by simp
  qed
  show ?thesis
  proof (cases "cs = []")
    case True
    then show ?thesis using cs v by (simp add: VersionSet_CompactRange_def)
  next
    case False
    let ?cs = "if level > 0 then cut_inputs F (MaxFileSizeForLevel (vs_max_file_size vs) level) 0 cs else cs"
    let ?c = "(new_Compaction (vs_max_file_size vs) level)\<lparr>c_input_version := Some v, c_inputs0 := ?cs\<rparr>"
    have s: "start_inputs F ?fs level ?cs"
    proof (cases "level = 0")
      case True
      then show ?thesis using cs(3) False by simp
    next
      case lev0: False
      obtain i n where n: "neighbours ?fs cs i n" using cs(3) False lev0 by (auto simp: start_inputs_def)
      obtain m where m: "0 < m" "m \<le> length cs" "cut_inputs F (MaxFileSizeForLevel (vs_max_file_size vs) level) 0 cs = take m cs"
        using cut_inputs_neighbours[OF False] by blast
      have "m \<le> n" using n m(2) by (simp add: neighbours_def)
      then have "neighbours ?fs (take m cs) i m" using n m(1) by (simp add: neighbours_def min_def)
      then show ?thesis using m(3) lev0 by (auto simp: start_inputs_def)
    qed
    obtain c' vs' where c': "SetupOtherInputs F ?c vs = Some (c', vs')" "compaction_ok F v c'" "vs_current vs' = v"
      using SetupOtherInputs_ok[OF l, of ?c vs] lev v s by (auto simp: new_Compaction_def)
    have "c_level c' = level" using c'(1) by (auto simp: SetupOtherInputs_def Let_def new_Compaction_def split: Option.bind_splits)
    then show ?thesis using c' cs(1) False v by (auto simp: VersionSet_CompactRange_def Let_def)
  qed
qed

end

end
