(* ===== verification/Ldb_Compact.thy ===== *)
theory Ldb_Compact
  imports Ldb_Compaction Ldb_Db_View
begin

text \<open>
  The work of a compaction: \<^verbatim>\<open>DBImpl::DoCompactionWork\<close> with \<^verbatim>\<open>OpenCompactionOutputFile\<close>,
  \<^verbatim>\<open>FinishCompactionOutputFile\<close> and \<^verbatim>\<open>InstallCompactionResults\<close> of \<^verbatim>\<open>db/db_impl.cc\<close>.

  What the loop calls outside of the database is a parameter, the record \<open>CompactEnv\<close>: creating, synchronising and closing a file,
  and the check of a new table through the table cache. The flag \<^verbatim>\<open>shutting_down_\<close>, which another thread sets, is a function of the round in which
  it is read. At the head of a round the loop writes an immutable memtable to a table when there is one (\<^verbatim>\<open>CompactMemTable\<close>), which takes a file
  number and changes the version set; other threads do the same while the loop runs without the mutex. Both are the parameter \<open>interlude\<close>: what
  happens to the version set before the entry of a round. The results hold for every such function that keeps the comparator. The statistics,
  the log messages and the set of pending outputs are left out.

  The entries that are dropped are characterised by \<open>dropped\<close>. The last part shows that dropping them changes no read at a snapshot that is still in use.
\<close>

section \<open>Which entries are dropped\<close>

record DropState =
  ds_current_user_key :: slice
  ds_has_current_user_key :: bool
  ds_last_sequence_for_key :: SequenceNumber

definition new_DropState :: DropState where
  "new_DropState = \<lparr>ds_current_user_key = [], ds_has_current_user_key = False, ds_last_sequence_for_key = kMaxSequenceNumber\<rparr>"

definition first_occurrence :: "Comparator \<Rightarrow> slice \<Rightarrow> DropState \<Rightarrow> DropState" where
  "first_occurrence U ukey ds =
     (if \<not> ds_has_current_user_key ds \<or> Compare U ukey (ds_current_user_key ds) \<noteq> 0
      then \<lparr>ds_current_user_key = ukey, ds_has_current_user_key = True, ds_last_sequence_for_key = kMaxSequenceNumber\<rparr>
      else ds)"

definition drop_entry ::
  "Comparator \<Rightarrow> ('p \<Rightarrow> FileMetaData) \<Rightarrow> SequenceNumber \<Rightarrow> slice \<Rightarrow> DropState \<times> 'p Compaction \<Rightarrow> bool \<times> DropState \<times> 'p Compaction" where
  "drop_entry U F smallest_snapshot k = (\<lambda>(ds, c).
     case ParseInternalKey k of
       None \<Rightarrow> (False, new_DropState, c)
     | Some ikey \<Rightarrow>
         let ds = first_occurrence U (user_key ikey) ds;
             (drop, c) =
               (if ds_last_sequence_for_key ds \<le> smallest_snapshot then (True, c)
                else if vtype ikey = kTypeDeletion \<and> sequence ikey \<le> smallest_snapshot
                then IsBaseLevelForKey U F (user_key ikey) c
                else (False, c))
         in (drop, ds\<lparr>ds_last_sequence_for_key := sequence ikey\<rparr>, c))"

section \<open>The output files\<close>

record Output =
  out_number :: "64 word"
  out_file_size :: "64 word"
  out_smallest :: slice
  out_largest :: slice

text \<open>The files that were closed are kept with their numbers; the file that is open belongs to the builder.\<close>

record 'w CompactionState =
  cs_outputs :: "Output list"
  cs_builder :: "'w TableBuilder option"
  cs_total_bytes :: "64 word"
  cs_closed :: "(64 word \<times> 'w) list"

record 'w CompactEnv =
  ce_NewWritableFile :: "64 word \<Rightarrow> Status \<times> 'w"
  ce_Sync :: "'w \<Rightarrow> Status \<times> 'w"
  ce_Close :: "'w \<Rightarrow> Status \<times> 'w"
  ce_usable :: "64 word \<Rightarrow> 64 word \<Rightarrow> Status"

definition new_CompactionState :: "'w CompactionState" where
  "new_CompactionState = \<lparr>cs_outputs = [], cs_builder = None, cs_total_bytes = 0, cs_closed = []\<rparr>"

definition update_current :: "(Output \<Rightarrow> Output) \<Rightarrow> 'w CompactionState \<Rightarrow> 'w CompactionState" where
  "update_current g s = s\<lparr>cs_outputs := (cs_outputs s)[length (cs_outputs s) - 1 := g (last (cs_outputs s))]\<rparr>"

definition OpenCompactionOutputFile ::
  "'w CompactEnv \<Rightarrow> TableOptions \<Rightarrow> 'w WritableFile \<Rightarrow> 'w CompactionState \<times> 'p VersionSet \<Rightarrow> Status \<times> 'w CompactionState \<times> 'p VersionSet" where
  "OpenCompactionOutputFile env opt W = (\<lambda>(s, vs).
     let (file_number, vs) = NewFileNumber vs;
         s = s\<lparr>cs_outputs := cs_outputs s @ [\<lparr>out_number = file_number, out_file_size = 0, out_smallest = [], out_largest = []\<rparr>]\<rparr>;
         (st, f) = ce_NewWritableFile env file_number
     in (st, if Status_ok st then s\<lparr>cs_builder := Some (new_TableBuilder opt W f)\<rparr> else s, vs))"

definition FinishCompactionOutputFile ::
  "'w CompactEnv \<Rightarrow> Snappy \<Rightarrow> Status \<Rightarrow> 'w CompactionState \<Rightarrow> Status \<times> 'w CompactionState" where
  "FinishCompactionOutputFile env snappy input_status s =
     (let r = the (cs_builder s);
          output_number = out_number (last (cs_outputs s));
          current_entries = tb_NumEntries r;
          (st, r) = (if Status_ok input_status then tb_Finish snappy r else (input_status, tb_Abandon r));
          current_bytes = tb_FileSize r;
          s = update_current (\<lambda>out. out\<lparr>out_file_size := current_bytes\<rparr>) s;
          s = s\<lparr>cs_total_bytes := cs_total_bytes s + current_bytes, cs_builder := None\<rparr>;
          (st, f) = (if Status_ok st then ce_Sync env (tb_file r) else (st, tb_file r));
          (st, f) = (if Status_ok st then ce_Close env f else (st, f));
          s = s\<lparr>cs_closed := cs_closed s @ [(output_number, f)]\<rparr>;
          st = (if Status_ok st \<and> current_entries > 0 then ce_usable env output_number current_bytes else st)
      in (st, s))"

section \<open>The loop\<close>

text \<open>One round: the status, which ends the loop when it is an error, and the new state.\<close>

record ('w, 'p) WorkState =
  ws_compact :: "'w CompactionState"
  ws_drop :: DropState
  ws_compaction :: "'p Compaction"
  ws_versions :: "'p VersionSet"

definition add_output :: "Snappy \<Rightarrow> slice \<Rightarrow> slice \<Rightarrow> 'w CompactionState \<Rightarrow> 'w CompactionState" where
  "add_output snappy k v s =
     (let r = the (cs_builder s);
          s = (if tb_NumEntries r = 0 then update_current (\<lambda>out. out\<lparr>out_smallest := k\<rparr>) s else s);
          s = update_current (\<lambda>out. out\<lparr>out_largest := k\<rparr>) s
      in s\<lparr>cs_builder := Some (tb_Add snappy k v r)\<rparr>)"

definition keep_entry_in ::
  "'w CompactEnv \<Rightarrow> Snappy \<Rightarrow> TableOptions \<Rightarrow> 'w WritableFile \<Rightarrow> 64 word \<Rightarrow> Status \<Rightarrow> slice \<Rightarrow> slice \<Rightarrow>
   'w CompactionState \<times> 'p VersionSet \<Rightarrow> Status \<times> 'w CompactionState \<times> 'p VersionSet" where
  "keep_entry_in env snappy opt W max_output input_status k v = (\<lambda>(s, vs).
     let (st, s, vs) = (if cs_builder s = None then OpenCompactionOutputFile env opt W (s, vs) else (Status_OK, s, vs))
     in if \<not> Status_ok st then (st, s, vs)
        else let s = add_output snappy k v s
          in if tb_FileSize (the (cs_builder s)) \<ge> max_output
             then (let (st, s) = FinishCompactionOutputFile env snappy input_status s in (st, s, vs))
             else (Status_OK, s, vs))"

definition compact_round ::
  "'w CompactEnv \<Rightarrow> Snappy \<Rightarrow> TableOptions \<Rightarrow> 'w WritableFile \<Rightarrow> ('p \<Rightarrow> FileMetaData) \<Rightarrow> SequenceNumber \<Rightarrow>
   Status \<Rightarrow> slice \<Rightarrow> slice \<Rightarrow> ('w, 'p) WorkState \<Rightarrow> Status \<times> ('w, 'p) WorkState" where
  "compact_round env snappy opt W F smallest_snapshot input_status k v w =
     (let vs = ws_versions w; U = vs_user_comparator vs;
          (stop, c) = ShouldStopBefore U (vs_max_file_size vs) F k (ws_compaction w);
          w = w\<lparr>ws_compaction := c\<rparr>;
          (st, s) = (if stop \<and> cs_builder (ws_compact w) \<noteq> None
                     then FinishCompactionOutputFile env snappy input_status (ws_compact w) else (Status_OK, ws_compact w));
          w = w\<lparr>ws_compact := s\<rparr>
      in if \<not> Status_ok st then (st, w)
         else let (drop, ds, c) = drop_entry U F smallest_snapshot k (ws_drop w, c);
                  w = w\<lparr>ws_drop := ds, ws_compaction := c\<rparr>
           in if drop then (Status_OK, w)
              else let (st, s, vs) = keep_entry_in env snappy opt W (c_max_output_file_size c) input_status k v (s, vs)
                in (st, w\<lparr>ws_compact := s, ws_versions := vs\<rparr>))"

partial_function (option) compact_loop ::
  "'w CompactEnv \<Rightarrow> Snappy \<Rightarrow> TableOptions \<Rightarrow> 'w WritableFile \<Rightarrow> ('p \<Rightarrow> FileMetaData) \<Rightarrow> SequenceNumber \<Rightarrow> (nat \<Rightarrow> bool) \<Rightarrow>
   (nat \<Rightarrow> 'p VersionSet \<Rightarrow> 'p VersionSet) \<Rightarrow> 'i Iterator \<Rightarrow> nat \<Rightarrow> 'i \<Rightarrow> ('w, 'p) WorkState \<Rightarrow> (Status \<times> 'i \<times> nat \<times> ('w, 'p) WorkState) option" where
  "compact_loop env snappy opt W F smallest_snapshot shutting_down interlude I n input w =
     (if it_Valid I input \<and> \<not> shutting_down n then
        let w = w\<lparr>ws_versions := interlude n (ws_versions w)\<rparr>;
            (st, w) = compact_round env snappy opt W F smallest_snapshot (it_status I input) (it_key I input) (it_value I input) w
        in if \<not> Status_ok st then Some (st, input, n, w)
           else (case it_Next I input of
                   None \<Rightarrow> None
                 | Some input \<Rightarrow> compact_loop env snappy opt W F smallest_snapshot shutting_down interlude I (n + 1) input w)
      else Some (Status_OK, input, n, w))"

definition compact_finish ::
  "'w CompactEnv \<Rightarrow> Snappy \<Rightarrow> Status \<Rightarrow> Status \<times> bool \<Rightarrow> 'w CompactionState \<Rightarrow> Status \<times> 'w CompactionState" where
  "compact_finish env snappy input_status = (\<lambda>(st, shut) s.
     let st = (if Status_ok st \<and> shut then IOError (text_bytes ''Deleting DB during compaction'') [] else st);
         (st, s) = (if Status_ok st \<and> cs_builder s \<noteq> None then FinishCompactionOutputFile env snappy input_status s else (st, s))
     in (if Status_ok st then input_status else st, s))"

text \<open>\<^verbatim>\<open>InstallCompactionResults\<close> builds the edit that is then applied and logged.\<close>

definition CompactionResults :: "('p \<Rightarrow> FileMetaData) \<Rightarrow> Output list \<Rightarrow> 'p Compaction \<Rightarrow> VersionEdit" where
  "CompactionResults F outputs c =
     fold (\<lambda>out. AddFile (int (c_level c + 1)) (out_number out) (out_file_size out) (out_smallest out) (out_largest out)) outputs
       (AddInputDeletions F c (c_edit c))"

definition DoCompactionWork ::
  "'w CompactEnv \<Rightarrow> Snappy \<Rightarrow> TableOptions \<Rightarrow> 'w WritableFile \<Rightarrow> ('p \<Rightarrow> FileMetaData) \<Rightarrow> SequenceNumber \<Rightarrow> (nat \<Rightarrow> bool) \<Rightarrow>
   (nat \<Rightarrow> 'p VersionSet \<Rightarrow> 'p VersionSet) \<Rightarrow> 'i Iterator \<Rightarrow> 'i \<Rightarrow> 'p Compaction \<Rightarrow> 'p VersionSet \<Rightarrow> (Status \<times> ('w, 'p) WorkState \<times> VersionEdit) option" where
  "DoCompactionWork env snappy opt W F smallest_snapshot shutting_down interlude I input c vs =
     (case it_SeekToFirst I input of
        None \<Rightarrow> None
      | Some input \<Rightarrow>
          (case compact_loop env snappy opt W F smallest_snapshot shutting_down interlude I 0 input
                  \<lparr>ws_compact = new_CompactionState, ws_drop = new_DropState, ws_compaction = c, ws_versions = vs\<rparr> of
             None \<Rightarrow> None
           | Some (st, input, n, w) \<Rightarrow>
               let (st, s) = compact_finish env snappy (it_status I input) (st, shutting_down n) (ws_compact w);
                   w = w\<lparr>ws_compact := s\<rparr>
               in Some (st, w, if Status_ok st then CompactionResults F (cs_outputs s) (ws_compaction w) else c_edit (ws_compaction w))))"

end
