(* ===== verification/Ldb_Compact_View.thy ===== *)
theory Ldb_Compact_View
  imports Ldb_Compact
begin

text \<open>
  What a compaction drops, and why no read sees it. The entries the loop drops are those of the predicate \<open>dropped\<close>: an entry with a newer
  one for its user key that every snapshot in use includes, and a deletion that every snapshot in use includes when no deeper
  level can have the key. Without them the newest entry that a snapshot includes is, when it is a value, the same for every user key.
\<close>

section \<open>Levels that cannot have a key\<close>

definition base_key :: "Comparator \<Rightarrow> ('p \<Rightarrow> FileMetaData) \<Rightarrow> (nat \<Rightarrow> 'p list) \<Rightarrow> nat \<Rightarrow> slice \<Rightarrow> bool" where
  "base_key U F files level u \<longleftrightarrow> (\<forall>lvl. level + 2 \<le> lvl \<and> lvl < kNumLevels \<longrightarrow> (\<forall>f \<in> set (files lvl).
     \<not> (Compare U u (ExtractUserKey (smallest (F f))) \<ge> 0 \<and> Compare U u (ExtractUserKey (largest (F f))) \<le> 0)))"

definition ptr_behind :: "Comparator \<Rightarrow> ('p \<Rightarrow> FileMetaData) \<Rightarrow> 'p list \<Rightarrow> slice \<Rightarrow> nat \<Rightarrow> bool" where
  "ptr_behind U F files u p \<longleftrightarrow> p \<le> length files \<and> (\<forall>j < p. Compare U (ExtractUserKey (largest (F (files ! j)))) u < 0)"

context user_comparator
begin

definition in_key_range :: "FileMetaData \<Rightarrow> slice \<Rightarrow> bool" where
  "in_key_range f u \<longleftrightarrow> Compare C u (usmall f) \<ge> 0 \<and> Compare C u (ularge f) \<le> 0"

lemma base_level_loop_spec:
  assumes d: "disjoint_files (map F files)" and u: "key_ok u" and p: "ptr_behind C F files u p"
  shows "\<exists>p'. base_level_loop C F files u p = ((\<exists>f \<in> set files. in_key_range (F f) u), p') \<and> ptr_behind C F files u p'"
  using p
proof (induction "length files - p" arbitrary: p rule: less_induct)
  case less
  have ok: "file_ok (F (files ! j))" if "j < length files" for j using d that by (auto simp: disjoint_files_def)
  have before: "\<not> in_key_range (F (files ! j)) u" if j: "j < p" for j
  proof -
    have jl: "j < length files" and "Compare C (ularge (F (files ! j))) u < 0" using less.prems j by (auto simp: ptr_behind_def)
    then show ?thesis using swap[of "ularge (F (files ! j))" u] file_okD(2)[OF ok[OF jl]] u by (simp add: in_key_range_def)
  qed
  show ?case
  proof (cases "p < length files")
    case False
    then have "p = length files" using less.prems by (simp add: ptr_behind_def)
    then have "\<not> (\<exists>f \<in> set files. in_key_range (F f) u)" using before by (auto simp: in_set_conv_nth)
    then show ?thesis using False less.prems by (subst base_level_loop.simps) simp
  next
    case True
    let ?f = "F (files ! p)"
    have fok: "file_ok ?f" using ok[OF True] .
    show ?thesis
    proof (cases "Compare C u (ularge ?f) \<le> 0")
      case below: True
      have "in_key_range ?f u \<longleftrightarrow> (\<exists>f \<in> set files. in_key_range (F f) u)"
      proof
        assume "\<exists>f \<in> set files. in_key_range (F f) u"
        then obtain j where j: "j < length files" "in_key_range (F (files ! j)) u" by (auto simp: in_set_conv_nth)
        have pj: "p \<le> j" using before j(2) not_le by blast
        have "Compare C (usmall ?f) (usmall (F (files ! j))) \<le> 0" using disjoint_smallest[OF d, of p j] pj j(1) by simp
        moreover have "Compare C (usmall (F (files ! j))) u \<le> 0"
          using j(2) not_less[of u "usmall (F (files ! j))"] u file_okD(1)[OF ok[OF j(1)]] by (simp add: in_key_range_def)
        ultimately have "Compare C (usmall ?f) u \<le> 0" using trans file_okD(1)[OF fok] file_okD(1)[OF ok[OF j(1)]] u by blast
        then show "in_key_range ?f u"
          using below not_less[of u "usmall ?f"] u file_okD(1)[OF fok] by (simp add: in_key_range_def)
      qed (use True in auto)
      then have "base_level_loop C F files u p = ((\<exists>f \<in> set files. in_key_range (F f) u), p)"
        using True below by (subst base_level_loop.simps) (simp add: Let_def in_key_range_def)
      then show ?thesis using less.prems by blast
    next
      case False
      then have "Compare C (ularge ?f) u < 0" using swap[of "ularge ?f" u] file_okD(2)[OF fok] u by simp
      then have "ptr_behind C F files u (p + 1)" using less.prems True by (auto simp: ptr_behind_def less_Suc_eq)
      moreover have "base_level_loop C F files u p = base_level_loop C F files u (p + 1)"
        using True False by (subst base_level_loop.simps) (simp add: Let_def)
      moreover have "length files - (p + 1) < length files - p" using True by simp
      ultimately show ?thesis using less.hyps by metis
    qed
  qed
qed

definition ptrs_behind :: "('p \<Rightarrow> FileMetaData) \<Rightarrow> (nat \<Rightarrow> 'p list) \<Rightarrow> nat \<Rightarrow> slice \<Rightarrow> (nat \<Rightarrow> nat) \<Rightarrow> bool" where
  "ptrs_behind F files level u ptrs \<longleftrightarrow> (\<forall>lvl. level + 2 \<le> lvl \<and> lvl < kNumLevels \<longrightarrow> ptr_behind C F (files lvl) u (ptrs lvl))"

lemma base_levels_spec:
  assumes d: "\<forall>lvl \<in> set lvls. disjoint_files (map F (files lvl))" and u: "key_ok u"
    and p: "\<forall>lvl. P lvl \<longrightarrow> ptr_behind C F (files lvl) u (ptrs lvl)" and P: "\<forall>lvl \<in> set lvls. P lvl"
  shows "\<exists>ptrs'. base_levels C F files u lvls ptrs = ((\<forall>lvl \<in> set lvls. \<forall>f \<in> set (files lvl). \<not> in_key_range (F f) u), ptrs') \<and>
    (\<forall>lvl. P lvl \<longrightarrow> ptr_behind C F (files lvl) u (ptrs' lvl))"
  using d p P
proof (induction lvls arbitrary: ptrs)
  case (Cons lvl lvls)
  obtain p' where p': "base_level_loop C F (files lvl) u (ptrs lvl) = ((\<exists>f \<in> set (files lvl). in_key_range (F f) u), p')"
    "ptr_behind C F (files lvl) u p'" using base_level_loop_spec[of F "files lvl" u "ptrs lvl"] Cons.prems u by auto
  have inv: "\<forall>l. P l \<longrightarrow> ptr_behind C F (files l) u ((ptrs(lvl := p')) l)" using Cons.prems p'(2) by simp
  show ?case
  proof (cases "\<exists>f \<in> set (files lvl). in_key_range (F f) u")
    case True
    then have "base_levels C F files u (lvl # lvls) ptrs =
        ((\<forall>lvl \<in> set (lvl # lvls). \<forall>f \<in> set (files lvl). \<not> in_key_range (F f) u), ptrs(lvl := p'))"
      using p'(1) by (simp add: Let_def)
    then show ?thesis using inv by blast
  next
    case False
    obtain ptrs' where r: "base_levels C F files u lvls (ptrs(lvl := p')) =
        ((\<forall>lvl \<in> set lvls. \<forall>f \<in> set (files lvl). \<not> in_key_range (F f) u), ptrs')"
      "\<forall>lvl. P lvl \<longrightarrow> ptr_behind C F (files lvl) u (ptrs' lvl)"
      using Cons.IH[OF _ inv] Cons.prems(1,3) by (auto simp del: fun_upd_apply)
    then show ?thesis using p'(1) False by (intro exI[of _ ptrs']) (simp add: Let_def)
  qed
qed simp

lemma IsBaseLevelForKey_spec:
  assumes l: "version_levels F (v_files v)" and c: "c_input_version c = Some v" and u: "key_ok u"
    and p: "ptrs_behind F (v_files v) (c_level c) u (c_level_ptrs c)"
  shows "\<exists>ptrs. IsBaseLevelForKey C F u c = (base_key C F (v_files v) (c_level c) u, c\<lparr>c_level_ptrs := ptrs\<rparr>) \<and>
    ptrs_behind F (v_files v) (c_level c) u ptrs"
proof -
  let ?P = "\<lambda>lvl. c_level c + 2 \<le> lvl \<and> lvl < kNumLevels"
  have P: "\<forall>lvl \<in> set [c_level c + 2..<kNumLevels]. ?P lvl" by auto
  have d: "\<forall>lvl \<in> set [c_level c + 2..<kNumLevels]. disjoint_files (map F (v_files v lvl))"
    using l by (auto simp: version_levels_def)
  have b: "(\<forall>lvl \<in> set [c_level c + 2..<kNumLevels]. \<forall>f \<in> set (v_files v lvl). \<not> in_key_range (F f) u) \<longleftrightarrow>
      base_key C F (v_files v) (c_level c) u"
    by (auto simp: base_key_def in_key_range_def)
  obtain ptrs where "base_levels C F (v_files v) u [c_level c + 2..<kNumLevels] (c_level_ptrs c) =
      (base_key C F (v_files v) (c_level c) u, ptrs)" "\<forall>lvl. ?P lvl \<longrightarrow> ptr_behind C F (v_files v lvl) u (ptrs lvl)"
    using base_levels_spec[OF d u p[unfolded ptrs_behind_def] P] unfolding b by blast
  then have "IsBaseLevelForKey C F u c = (base_key C F (v_files v) (c_level c) u, c\<lparr>c_level_ptrs := ptrs\<rparr>)"
    "ptrs_behind F (v_files v) (c_level c) u ptrs"
    using c by (simp_all add: IsBaseLevelForKey_def ptrs_behind_def)
  then show ?thesis by blast
qed

lemma ptrs_behind_mono:
  assumes l: "version_levels F files" and p: "ptrs_behind F files level u ptrs" and le: "Compare C u u' \<le> 0" and k: "key_ok u" "key_ok u'"
  shows "ptrs_behind F files level u' ptrs"
proof -
  have "Compare C (ularge (F (files lvl ! j))) u' < 0"
    if "level + 2 \<le> lvl" "lvl < kNumLevels" "j < ptrs lvl" for lvl j
  proof -
    have "j < length (files lvl)" "Compare C (ularge (F (files lvl ! j))) u < 0"
      using p that by (auto simp: ptrs_behind_def ptr_behind_def)
    moreover have "file_ok (F (files lvl ! j))" using l that calculation(1) by (simp add: version_levels_def)
    ultimately show ?thesis using less_le_trans[OF _ k] le file_okD(2) by blast
  qed
  then show ?thesis using p unfolding ptrs_behind_def ptr_behind_def by simp
qed

end

section \<open>The entries that are dropped\<close>

definition dropped :: "Comparator \<Rightarrow> SequenceNumber \<Rightarrow> (slice \<Rightarrow> bool) \<Rightarrow> entries \<Rightarrow> nat \<Rightarrow> bool" where
  "dropped C snap base kvs i \<longleftrightarrow>
     (\<exists>j < i. Compare C (ent_user kvs j) (ent_user kvs i) = 0 \<and> ent_seq kvs j \<le> snap) \<or>
     (\<not> ent_live kvs i \<and> ent_seq kvs i \<le> snap \<and> base (ent_user kvs i))"

definition kept_entries :: "Comparator \<Rightarrow> SequenceNumber \<Rightarrow> (slice \<Rightarrow> bool) \<Rightarrow> entries \<Rightarrow> nat \<Rightarrow> entries" where
  "kept_entries C snap base kvs n = map ((!) kvs) (filter (\<lambda>i. \<not> dropped C snap base kvs i) [0..<n])"

lemma kept_entries_Suc:
  "kept_entries C snap base kvs (Suc n) =
     kept_entries C snap base kvs n @ (if dropped C snap base kvs n then [] else [kvs ! n])"
  by (simp add: kept_entries_def)

context user_comparator
begin

lemma entry_parsed:
  assumes "db_keys_ok kvs" "i < length kvs"
  shows "\<exists>p. ParseInternalKey (fst (kvs ! i)) = Some p \<and> user_key p = ent_user kvs i \<and> sequence p = ent_seq kvs i \<and>
    (vtype p = kTypeValue \<longleftrightarrow> ent_live kvs i)"
proof -
  obtain p where p: "ParseInternalKey (fst (kvs ! i)) = Some p" using assms nth_mem[of i kvs] by (fastforce simp: db_keys_ok_def)
  then show ?thesis using parsed_num(3)[OF p] by (simp add: ent_user_def ent_seq_def ent_live_def)
qed

lemma entry_user_ok: "asc kvs \<Longrightarrow> i < length kvs \<Longrightarrow> key_ok (ent_user kvs i)"
  by (auto simp: ascending_def ent_user_def)

lemma entries_ordered:
  assumes a: "asc kvs" and k: "db_keys_ok kvs" and ij: "i < j" "j < length kvs"
  shows "Compare C (ent_user kvs i) (ent_user kvs j) \<le> 0"
    "Compare C (ent_user kvs i) (ent_user kvs j) = 0 \<Longrightarrow> ent_seq kvs j \<le> ent_seq kvs i \<and> key_num (fst (kvs ! j)) < key_num (fst (kvs ! i))"
proof -
  have less: "ikc_Compare C (fst (kvs ! i)) (fst (kvs ! j)) < 0" using asc_nth[OF a ij] .
  then show "Compare C (ent_user kvs i) (ent_user kvs j) \<le> 0" by (auto simp: ikc_less ent_user_def)
  assume "Compare C (ent_user kvs i) (ent_user kvs j) = 0"
  then have num: "key_num (fst (kvs ! j)) < key_num (fst (kvs ! i))" using less by (simp add: ikc_less ent_user_def)
  have il: "i < length kvs" using ij by simp
  obtain p q where p: "ParseInternalKey (fst (kvs ! i)) = Some p" and q: "ParseInternalKey (fst (kvs ! j)) = Some q"
    using entry_parsed[OF k il] entry_parsed[OF k ij(2)] by blast
  have "sequence q \<le> sequence p"
    using num pack_less[OF parsed_num(2)[OF q] parsed_num(2)[OF p], of "vtype q" "vtype p"] parsed_num(1)[OF p] parsed_num(1)[OF q] by auto
  then show "ent_seq kvs j \<le> ent_seq kvs i \<and> key_num (fst (kvs ! j)) < key_num (fst (kvs ! i))"
    using num p q by (simp add: ent_seq_def)
qed

text \<open>The state of the loop before the entry \<open>i\<close>.\<close>

definition drop_state :: "entries \<Rightarrow> nat \<Rightarrow> DropState \<Rightarrow> bool" where
  "drop_state kvs i ds \<longleftrightarrow>
     (if i = 0 then ds = new_DropState
      else ds_has_current_user_key ds \<and> key_ok (ds_current_user_key ds) \<and>
        Compare C (ds_current_user_key ds) (ent_user kvs (i - 1)) = 0 \<and> ds_last_sequence_for_key ds = ent_seq kvs (i - 1))"

lemma same_as_previous:
  assumes a: "asc kvs" and k: "db_keys_ok kvs" and i: "i < length kvs" and j: "j < i" "Compare C (ent_user kvs j) (ent_user kvs i) = 0"
  shows "Compare C (ent_user kvs (i - 1)) (ent_user kvs i) = 0 \<and> ent_seq kvs (i - 1) \<le> ent_seq kvs j"
proof (cases "j = i - 1")
  case False
  then have ji: "j < i - 1" "i - 1 < i" "i - 1 < length kvs" using j i by auto
  have ok: "key_ok (ent_user kvs j)" "key_ok (ent_user kvs (i - 1))" "key_ok (ent_user kvs i)" using entry_user_ok[OF a] ji j i by auto
  note 1 = entries_ordered(1)[OF a k ji(1,3)] and 2 = entries_ordered(1)[OF a k ji(2) i]
  have j0: "Compare C (ent_user kvs i) (ent_user kvs j) = 0" using j(2) eq_swap[OF ok(1,3)] by simp
  have "Compare C (ent_user kvs i) (ent_user kvs (i - 1)) \<le> 0" using trans[OF ok(3,1,2) _ 1] j0 by simp
  then have "Compare C (ent_user kvs (i - 1)) (ent_user kvs i) = 0" using 2 not_less[OF ok(2,3)] by linarith
  moreover have "Compare C (ent_user kvs j) (ent_user kvs (i - 1)) = 0"
    using eq_trans[OF ok(1,3,2) j(2)] calculation eq_swap[OF ok(2,3)] by simp
  ultimately show ?thesis using entries_ordered(2)[OF a k ji(1,3)] by simp
qed (use j in simp)

lemma first_occurrence_spec:
  assumes a: "asc kvs" and k: "db_keys_ok kvs" and i: "i < length kvs" and ds: "drop_state kvs i ds" and s: "snap < kMaxSequenceNumber"
  defines "ds' \<equiv> first_occurrence C (ent_user kvs i) ds"
  shows "ds_has_current_user_key ds' \<and> key_ok (ds_current_user_key ds') \<and> Compare C (ds_current_user_key ds') (ent_user kvs i) = 0"
    "ds_last_sequence_for_key ds' \<le> snap \<longleftrightarrow> (\<exists>j < i. Compare C (ent_user kvs j) (ent_user kvs i) = 0 \<and> ent_seq kvs j \<le> snap)"
proof -
  let ?u = "ent_user kvs i"
  have u: "key_ok ?u" by (rule entry_user_ok[OF a i])
  have "(ds_has_current_user_key ds' \<and> key_ok (ds_current_user_key ds') \<and> Compare C (ds_current_user_key ds') ?u = 0) \<and>
    (ds_last_sequence_for_key ds' \<le> snap \<longleftrightarrow> (\<exists>j < i. Compare C (ent_user kvs j) ?u = 0 \<and> ent_seq kvs j \<le> snap))"
  proof (cases "\<not> ds_has_current_user_key ds \<or> Compare C ?u (ds_current_user_key ds) \<noteq> 0")
    case True
    have "\<not> Compare C (ent_user kvs j) ?u = 0" if j: "j < i" for j
    proof
      assume "Compare C (ent_user kvs j) ?u = 0"
      then have p: "Compare C (ent_user kvs (i - 1)) ?u = 0" using same_as_previous[OF a k i j] by blast
      have d: "ds_has_current_user_key ds" "key_ok (ds_current_user_key ds)" "Compare C (ds_current_user_key ds) (ent_user kvs (i - 1)) = 0"
        using ds j by (auto simp: drop_state_def split: if_splits)
      have "key_ok (ent_user kvs (i - 1))" using entry_user_ok[OF a, of "i - 1"] i by simp
      then have "Compare C (ds_current_user_key ds) ?u = 0" using eq_trans[OF d(2) _ u d(3) p] by blast
      then show False using True d(1) eq_swap[OF d(2) u] by simp
    qed
    then show ?thesis using True u refl[OF u] s by (auto simp: ds'_def first_occurrence_def)
  next
    case False
    have i0: "i \<noteq> 0"
    proof
      assume "i = 0"
      then have "ds = new_DropState" using ds by (simp add: drop_state_def)
      then show False using False by (simp add: new_DropState_def)
    qed
    then have d: "ds_has_current_user_key ds" "key_ok (ds_current_user_key ds)" "Compare C (ds_current_user_key ds) (ent_user kvs (i - 1)) = 0"
      "ds_last_sequence_for_key ds = ent_seq kvs (i - 1)"
      using ds by (auto simp: drop_state_def)
    have c: "Compare C (ds_current_user_key ds) ?u = 0" using False eq_swap[OF d(2) u] by simp
    have pk: "key_ok (ent_user kvs (i - 1))" using entry_user_ok[OF a, of "i - 1"] i by simp
    have prev: "Compare C (ent_user kvs (i - 1)) ?u = 0"
      using eq_trans[OF pk d(2) u _ c] eq_swap[OF d(2) pk] d(3) by simp
    have "ent_seq kvs (i - 1) \<le> snap \<longleftrightarrow> (\<exists>j < i. Compare C (ent_user kvs j) ?u = 0 \<and> ent_seq kvs j \<le> snap)"
    proof
      assume "ent_seq kvs (i - 1) \<le> snap"
      then show "\<exists>j < i. Compare C (ent_user kvs j) ?u = 0 \<and> ent_seq kvs j \<le> snap" using prev i0 by (intro exI[of _ "i - 1"]) simp
    next
      assume "\<exists>j < i. Compare C (ent_user kvs j) ?u = 0 \<and> ent_seq kvs j \<le> snap"
      then obtain j where j: "j < i" "Compare C (ent_user kvs j) ?u = 0" "ent_seq kvs j \<le> snap" by blast
      then show "ent_seq kvs (i - 1) \<le> snap" using same_as_previous[OF a k i j(1,2)] by (auto intro: order_trans)
    qed
    then show ?thesis using False d c by (simp add: ds'_def first_occurrence_def)
  qed
  then show "ds_has_current_user_key ds' \<and> key_ok (ds_current_user_key ds') \<and> Compare C (ds_current_user_key ds') ?u = 0"
    "ds_last_sequence_for_key ds' \<le> snap \<longleftrightarrow> (\<exists>j < i. Compare C (ent_user kvs j) ?u = 0 \<and> ent_seq kvs j \<le> snap)" by blast+
qed

lemma drop_entry_spec:
  assumes a: "asc kvs" and k: "db_keys_ok kvs" and i: "i < length kvs" and ds: "drop_state kvs i ds" and s: "snap < kMaxSequenceNumber"
    and l: "version_levels F (v_files v)" and c: "c_input_version c = Some v"
    and p: "0 < i \<Longrightarrow> ptrs_behind F (v_files v) (c_level c) (ent_user kvs (i - 1)) (c_level_ptrs c)"
    and p0: "i = 0 \<Longrightarrow> \<forall>lvl. c_level_ptrs c lvl = 0"
  shows "\<exists>ds' ptrs. drop_entry C F snap (fst (kvs ! i)) (ds, c) =
      (dropped C snap (base_key C F (v_files v) (c_level c)) kvs i, ds', c\<lparr>c_level_ptrs := ptrs\<rparr>) \<and>
    drop_state kvs (Suc i) ds' \<and> ptrs_behind F (v_files v) (c_level c) (ent_user kvs i) ptrs"
proof -
  let ?u = "ent_user kvs i"
  have u: "key_ok ?u" by (rule entry_user_ok[OF a i])
  obtain q where q: "ParseInternalKey (fst (kvs ! i)) = Some q" "user_key q = ?u" "sequence q = ent_seq kvs i"
    "vtype q = kTypeValue \<longleftrightarrow> ent_live kvs i" using entry_parsed[OF k i] by blast
  have behind: "ptrs_behind F (v_files v) (c_level c) ?u (c_level_ptrs c)"
  proof (cases "i = 0")
    case True
    then show ?thesis using p0 by (simp add: ptrs_behind_def ptr_behind_def)
  next
    case False
    then have "key_ok (ent_user kvs (i - 1))" using entry_user_ok[OF a, of "i - 1"] i by simp
    then show ?thesis
      using ptrs_behind_mono[OF l p entries_ordered(1)[OF a k, of "i - 1" i]] False i u by simp
  qed
  obtain ptrs where b: "IsBaseLevelForKey C F ?u c = (base_key C F (v_files v) (c_level c) ?u, c\<lparr>c_level_ptrs := ptrs\<rparr>)"
    "ptrs_behind F (v_files v) (c_level c) ?u ptrs" using IsBaseLevelForKey_spec[OF l c u behind] by blast
  define ds1 where "ds1 = first_occurrence C ?u ds"
  note f = first_occurrence_spec[OF a k i ds s, folded ds1_def]
  have st: "drop_state kvs (Suc i) (ds1\<lparr>ds_last_sequence_for_key := ent_seq kvs i\<rparr>)" using f(1) by (simp add: drop_state_def)
  have same: "c = c\<lparr>c_level_ptrs := c_level_ptrs c\<rparr>" by simp
  have type: "vtype q = kTypeDeletion \<longleftrightarrow> \<not> ent_live kvs i" using q(4) by (cases "vtype q") auto
  have de: "drop_entry C F snap (fst (kvs ! i)) (ds, c) =
    (let (drop, c) = (if ds_last_sequence_for_key ds1 \<le> snap then (True, c)
                else if \<not> ent_live kvs i \<and> ent_seq kvs i \<le> snap then IsBaseLevelForKey C F ?u c else (False, c))
     in (drop, ds1\<lparr>ds_last_sequence_for_key := ent_seq kvs i\<rparr>, c))"
    unfolding drop_entry_def by (simp add: q(1-3) ds1_def Let_def type)
  consider (old) "ds_last_sequence_for_key ds1 \<le> snap"
    | (del) "\<not> ds_last_sequence_for_key ds1 \<le> snap" "\<not> ent_live kvs i \<and> ent_seq kvs i \<le> snap"
    | (keep) "\<not> ds_last_sequence_for_key ds1 \<le> snap" "\<not> (\<not> ent_live kvs i \<and> ent_seq kvs i \<le> snap)" by blast
  then show ?thesis
  proof cases
    case old
    then have "dropped C snap (base_key C F (v_files v) (c_level c)) kvs i" using f(2) by (simp add: dropped_def)
    then show ?thesis using de old st behind by (intro exI[of _ "ds1\<lparr>ds_last_sequence_for_key := ent_seq kvs i\<rparr>"] exI[of _ "c_level_ptrs c"]) simp
  next
    case del
    then have "\<not> (\<exists>j < i. Compare C (ent_user kvs j) ?u = 0 \<and> ent_seq kvs j \<le> snap)" using f(2) by blast
    then have "dropped C snap (base_key C F (v_files v) (c_level c)) kvs i \<longleftrightarrow> base_key C F (v_files v) (c_level c) ?u"
      unfolding dropped_def using del(2) by blast
    then show ?thesis using de del st b by (intro exI[of _ "ds1\<lparr>ds_last_sequence_for_key := ent_seq kvs i\<rparr>"] exI[of _ ptrs]) simp
  next
    case keep
    then have "\<not> dropped C snap (base_key C F (v_files v) (c_level c)) kvs i" using f(2) by (auto simp: dropped_def)
    then show ?thesis using de keep st behind
      by (intro exI[of _ "ds1\<lparr>ds_last_sequence_for_key := ent_seq kvs i\<rparr>"] exI[of _ "c_level_ptrs c"]) auto
  qed
qed

end

section \<open>No read sees what is dropped\<close>

context user_comparator
begin

definition older_is_deeper :: "(slice \<Rightarrow> bool) \<Rightarrow> entries \<Rightarrow> (slice \<times> slice) set \<Rightarrow> bool" where
  "older_is_deeper base kvs R \<longleftrightarrow> (\<forall>e \<in> R. key_ok (ExtractUserKey (fst e))) \<and>
     (\<forall>e \<in> R. \<forall>i < length kvs. Compare C (ent_user kvs i) (ExtractUserKey (fst e)) = 0 \<longrightarrow>
       key_num (fst e) < key_num (fst (kvs ! i)) \<longrightarrow> \<not> base (ent_user kvs i))"

lemma kept_mem: "e \<in> set (kept_entries C snap base kvs n) \<longleftrightarrow> (\<exists>i < n. \<not> dropped C snap base kvs i \<and> kvs ! i = e)"
  by (auto simp: kept_entries_def)

lemma kept_subset: "set (kept_entries C snap base kvs (length kvs)) \<subseteq> set kvs"
  unfolding kept_entries_def by auto

lemma newest_atD:
  assumes "newest_at C s E k v" "e \<in> E" "Compare C (ExtractUserKey (fst e)) (ExtractUserKey k) = 0" "key_num k < key_num (fst e)"
  shows "s < sequence (the (ParseInternalKey (fst e)))"
  using assms unfolding newest_at_def by (cases e) auto

lemma newest_atI:
  assumes "(k, v) \<in> E" "vtype (the (ParseInternalKey k)) = kTypeValue" "sequence (the (ParseInternalKey k)) \<le> s"
    and "\<And>e. e \<in> E \<Longrightarrow> Compare C (ExtractUserKey (fst e)) (ExtractUserKey k) = 0 \<Longrightarrow> key_num k < key_num (fst e) \<Longrightarrow>
      s < sequence (the (ParseInternalKey (fst e)))"
  shows "newest_at C s E k v"
  using assms unfolding newest_at_def by fastforce

lemma newest_not_dropped:
  assumes a: "asc kvs" and k: "db_keys_ok kvs" and i: "i < length kvs" and s: "snap \<le> s"
    and n: "newest_at C s E (fst (kvs ! i)) v" and E: "set kvs \<subseteq> E"
  shows "\<not> dropped C snap base kvs i"
proof
  assume "dropped C snap base kvs i"
  then consider (old) j where "j < i" "Compare C (ent_user kvs j) (ent_user kvs i) = 0" "ent_seq kvs j \<le> snap"
    | (del) "\<not> ent_live kvs i" by (auto simp: dropped_def)
  then show False
  proof cases
    case old
    have "kvs ! j \<in> E" using E old(1) i by auto
    then have "s < ent_seq kvs j"
      using old newest_atD[OF n, of "kvs ! j"] entries_ordered(2)[OF a k old(1) i old(2)] i by (auto simp: ent_user_def ent_seq_def)
    then show False using old(3) s by (meson leD order_trans)
  next
    case del
    then show False using n by (simp add: newest_at_def ent_live_def)
  qed
qed

text \<open>The newest entry that every snapshot includes covers a dropped entry: it is kept, or it is a deletion and nothing older is left.\<close>

lemma dropped_covered:
  assumes a: "asc kvs" and k: "db_keys_ok kvs" and i: "i < length kvs" and d: "dropped C snap base kvs i"
  shows "\<exists>m \<le> i. Compare C (ent_user kvs m) (ent_user kvs i) = 0 \<and> ent_seq kvs m \<le> snap \<and>
    (dropped C snap base kvs m \<longrightarrow> base (ent_user kvs m))"
proof -
  let ?S = "\<lambda>m. m \<le> i \<and> Compare C (ent_user kvs m) (ent_user kvs i) = 0 \<and> ent_seq kvs m \<le> snap"
  have u: "key_ok (ent_user kvs m)" if "m \<le> i" for m using entry_user_ok[OF a, of m] that i by simp
  have "\<exists>m. ?S m"
    using d unfolding dropped_def
  proof
    assume "\<exists>j < i. Compare C (ent_user kvs j) (ent_user kvs i) = 0 \<and> ent_seq kvs j \<le> snap"
    then show ?thesis using less_imp_le by blast
  next
    assume "\<not> ent_live kvs i \<and> ent_seq kvs i \<le> snap \<and> base (ent_user kvs i)"
    then show ?thesis using refl[OF u[OF order_refl]] by (intro exI[of _ i]) simp
  qed
  then have m: "?S (LEAST m. ?S m)" by (rule LeastI_ex)
  let ?m = "LEAST m. ?S m"
  have none: "\<not> (Compare C (ent_user kvs j) (ent_user kvs ?m) = 0 \<and> ent_seq kvs j \<le> snap)" if j: "j < ?m" for j
  proof
    assume h: "Compare C (ent_user kvs j) (ent_user kvs ?m) = 0 \<and> ent_seq kvs j \<le> snap"
    then have "?S j" using eq_trans[of "ent_user kvs j" "ent_user kvs ?m" "ent_user kvs i"] u[of j] u[of ?m] u[of i] m j by auto
    then show False using not_less_Least[OF j] by blast
  qed
  have "dropped C snap base kvs ?m \<longrightarrow> base (ent_user kvs ?m)" unfolding dropped_def using none by blast
  then show ?thesis using m by blast
qed

lemma compaction_view:
  assumes a: "asc kvs" and k: "db_keys_ok kvs" and R: "older_is_deeper base kvs R" and s: "snap \<le> s"
  shows "newest_at C s (set (kept_entries C snap base kvs (length kvs)) \<union> R) key v \<longleftrightarrow> newest_at C s (set kvs \<union> R) key v"
    (is "newest_at C s (?out \<union> R) key v \<longleftrightarrow> newest_at C s (set kvs \<union> R) key v")
proof
  assume n: "newest_at C s (set kvs \<union> R) key v"
  have "(key, v) \<in> ?out \<union> R"
  proof (cases "(key, v) \<in> R")
    case False
    then have "(key, v) \<in> set kvs" using n by (simp add: newest_at_def)
    then obtain i where i: "i < length kvs" "kvs ! i = (key, v)" by (auto simp: in_set_conv_nth)
    then have "\<not> dropped C snap base kvs i" using newest_not_dropped[OF a k i(1) s, of "set kvs \<union> R" v base] n by simp
    then show ?thesis using i by (auto simp: kept_mem)
  qed simp
  moreover have "?out \<subseteq> set kvs" by (rule kept_subset)
  ultimately show "newest_at C s (?out \<union> R) key v" using n unfolding newest_at_def by blast
next
  assume n: "newest_at C s (?out \<union> R) key v"
  have mem: "(key, v) \<in> ?out \<union> R" using n by (simp add: newest_at_def)
  then have memE: "(key, v) \<in> set kvs \<union> R" using kept_subset by blast
  then have ku: "key_ok (ExtractUserKey key)" using R a by (auto simp: older_is_deeper_def ascending_def)
  have "s < sequence (the (ParseInternalKey (fst e)))"
    if e: "e \<in> set kvs \<union> R" "Compare C (ExtractUserKey (fst e)) (ExtractUserKey key) = 0" "key_num key < key_num (fst e)" for e
  proof (cases "e \<in> ?out \<union> R")
    case True
    then show ?thesis using newest_atD[OF n] e by blast
  next
    case False
    then have "e \<in> set kvs" "e \<notin> ?out" using e(1) by auto
    then obtain i where "i < length kvs" "kvs ! i = e" by (metis in_set_conv_nth)
    then have i: "i < length kvs" "kvs ! i = e" "dropped C snap base kvs i" using \<open>e \<notin> ?out\<close> kept_mem by blast+
    obtain m where m: "m \<le> i" "Compare C (ent_user kvs m) (ent_user kvs i) = 0" "ent_seq kvs m \<le> snap"
      "dropped C snap base kvs m \<Longrightarrow> base (ent_user kvs m)" using dropped_covered[OF a k i(1,3)] by blast
    have ml: "m < length kvs" using m(1) i(1) by simp
    have same: "Compare C (ent_user kvs m) (ExtractUserKey key) = 0"
      using eq_trans[OF entry_user_ok[OF a ml] entry_user_ok[OF a i(1)] ku m(2)] e(2) i(2) by (simp add: ent_user_def)
    have num: "key_num key < key_num (fst (kvs ! m))"
    proof (cases "m = i")
      case False
      then show ?thesis using entries_ordered(2)[OF a k _ i(1) m(2)] m(1) e(3) i(2) by (auto intro: order.strict_trans)
    qed (use e(3) i(2) in simp)
    have "base (ent_user kvs m)"
    proof (rule m(4), rule ccontr)
      assume "\<not> dropped C snap base kvs m"
      then have "kvs ! m \<in> ?out \<union> R" using ml by (auto simp: kept_mem)
      then have "s < ent_seq kvs m" using newest_atD[OF n, of "kvs ! m"] same num by (simp add: ent_user_def ent_seq_def)
      then show False using m(3) s by (meson leD order_trans)
    qed
    then have "(key, v) \<notin> R" using R same num ml by (auto simp: older_is_deeper_def)
    then obtain j where j: "j < length kvs" "\<not> dropped C snap base kvs j" "kvs ! j = (key, v)" using mem by (auto simp: kept_mem)
    have uj: "Compare C (ent_user kvs m) (ent_user kvs j) = 0" using same j(3) by (simp add: ent_user_def)
    have "\<not> j < m" using entries_ordered(2)[OF a k _ ml, of j] eq_swap[OF entry_user_ok[OF a ml] entry_user_ok[OF a j(1)]] uj num j(3) by auto
    moreover have "j \<noteq> m" using num j(3) by auto
    ultimately have "dropped C snap base kvs j" using uj m(3) unfolding dropped_def by (intro disjI1 exI[of _ m]) simp
    then show ?thesis using j(2) by blast
  qed
  moreover have "vtype (the (ParseInternalKey key)) = kTypeValue" "sequence (the (ParseInternalKey key)) \<le> s"
    using n by (simp_all add: newest_at_def)
  ultimately show "newest_at C s (set kvs \<union> R) key v" using memE by (intro newest_atI)
qed

end


section \<open>A value behind a dropped deletion\<close>

text \<open>Every entry of the user key \<open>u\<close> that is newer than the key \<open>k\<close> is too new for the snapshot.\<close>

definition none_newer :: "Comparator \<Rightarrow> SequenceNumber \<Rightarrow> (slice \<times> slice) set \<Rightarrow> slice \<Rightarrow> slice \<Rightarrow> bool" where
  "none_newer U t E u k \<longleftrightarrow> (\<forall>(k', v') \<in> E. Compare U (ExtractUserKey k') u = 0 \<and> key_num k < key_num k' \<longrightarrow>
     t < sequence (the (ParseInternalKey k')))"

lemma none_newerD:
  "none_newer U t E u k \<Longrightarrow> e \<in> E \<Longrightarrow> Compare U (ExtractUserKey (fst e)) u = 0 \<Longrightarrow> key_num k < key_num (fst e) \<Longrightarrow>
   t < sequence (the (ParseInternalKey (fst e)))"
  by (cases e) (auto simp: none_newer_def)

lemma same_num_type:
  assumes p: "ParseInternalKey k = Some p" and q: "ParseInternalKey k' = Some q" and n: "key_num k = key_num k'"
  shows "vtype p = vtype q"
proof -
  note less = pack_less[OF parsed_num(2)[OF p] parsed_num(2)[OF q], of "vtype p" "vtype q"]
    pack_less[OF parsed_num(2)[OF q] parsed_num(2)[OF p], of "vtype q" "vtype p"]
  show ?thesis using less parsed_num(1)[OF p] parsed_num(1)[OF q] n by (cases "vtype p"; cases "vtype q") auto
qed

context user_comparator
begin

lemma deleted_not_newest:
  assumes E: "\<forall>e \<in> E. key_ok (ExtractUserKey (fst e)) \<and> ParseInternalKey (fst e) \<noteq> None"
    and d: "(kd, vd) \<in> E" "ParseInternalKey kd = Some pd" "vtype pd = kTypeDeletion" "sequence pd \<le> t"
    and top: "none_newer C t E (user_key pd) kd" and same: "Compare C (ExtractUserKey key) (user_key pd) = 0"
  shows "\<not> newest_at C t E key val"
proof
  assume n: "newest_at C t E key val"
  then have mem: "(key, val) \<in> E" "vtype (the (ParseInternalKey key)) = kTypeValue" "sequence (the (ParseInternalKey key)) \<le> t"
    by (simp_all add: newest_at_def)
  have ok: "key_ok (ExtractUserKey key)" "key_ok (user_key pd)" using E mem(1) d(1) parsed_num(3)[OF d(2)] by fastforce+
  obtain p where p: "ParseInternalKey key = Some p" using E mem(1) by fastforce
  have "\<not> key_num key < key_num kd"
    using newest_atD[OF n d(1)] eq_swap[OF ok] same d(2,4) parsed_num(3)[OF d(2)] by fastforce
  moreover have "\<not> key_num kd < key_num key" using none_newerD[OF top mem(1)] same mem(3) by fastforce
  ultimately have "key_num key = key_num kd" by simp
  then show False using same_num_type[OF p d(2)] mem(2) p d(3) by simp
qed

lemma hidden_value_returns:
  assumes a: "asc kvs" and k: "db_keys_ok kvs"
    and d: "(kd, vd) \<in> set kvs" "ParseInternalKey kd = Some pd" "vtype pd = kTypeDeletion" "sequence pd \<le> snap" and base: "base (user_key pd)"
    and old: "(ko, vo) \<in> R" "ParseInternalKey ko = Some po" "vtype po = kTypeValue" "key_ok (user_key po)"
      "Compare C (user_key po) (user_key pd) = 0" "key_num ko < key_num kd"
    and t: "snap \<le> t" and top: "none_newer C t (set kvs) (user_key pd) kd" and left: "none_newer C t R (user_key pd) ko"
    and R: "\<forall>e \<in> R. key_ok (ExtractUserKey (fst e))"
  shows "newest_at C t (set (kept_entries C snap base kvs (length kvs)) \<union> R) ko vo"
proof (rule newest_atI)
  show "(ko, vo) \<in> set (kept_entries C snap base kvs (length kvs)) \<union> R" "vtype (the (ParseInternalKey ko)) = kTypeValue" using old by simp_all
  have "sequence po \<le> sequence pd"
    using old(6) pack_less[OF parsed_num(2)[OF old(2)] parsed_num(2)[OF d(2)]] parsed_num(1)[OF old(2)] parsed_num(1)[OF d(2)] by auto
  then show "sequence (the (ParseInternalKey ko)) \<le> t" using old(2) d(4) t by simp
  fix e assume e: "e \<in> set (kept_entries C snap base kvs (length kvs)) \<union> R" "Compare C (ExtractUserKey (fst e)) (ExtractUserKey ko) = 0"
    "key_num ko < key_num (fst e)"
  have du: "key_ok (user_key pd)" using a d(1) parsed_num(3)[OF d(2)] by (fastforce simp: ascending_def)
  have eok: "key_ok (ExtractUserKey (fst e))" using e(1) R a kept_subset[of snap base kvs] by (fastforce simp: ascending_def)
  have eu: "Compare C (ExtractUserKey (fst e)) (user_key pd) = 0"
    using eq_trans[OF eok old(4) du] e(2) old(5) parsed_num(3)[OF old(2)] by simp
  show "t < sequence (the (ParseInternalKey (fst e)))"
  proof (cases "e \<in> R")
    case True
    then show ?thesis using none_newerD[OF left _ eu e(3)] by blast
  next
    case False
    then obtain i where i: "i < length kvs" "\<not> dropped C snap base kvs i" "kvs ! i = e" using e(1) by (auto simp: kept_mem)
    obtain j where j: "j < length kvs" "kvs ! j = (kd, vd)" using d(1) by (auto simp: in_set_conv_nth)
    have je: "ent_user kvs j = user_key pd" "ent_seq kvs j = sequence pd" "\<not> ent_live kvs j"
      using j(2) d(2,3) parsed_num(3)[OF d(2)] by (simp_all add: ent_user_def ent_seq_def ent_live_def)
    have "dropped C snap base kvs j" unfolding dropped_def je using je(3) d(4) base by blast
    then have "i \<noteq> j" using i(2) by blast
    moreover have "Compare C (ent_user kvs j) (ent_user kvs i) = 0" using eu eq_swap[OF eok du] je(1) i(3) by (simp add: ent_user_def)
    then have "\<not> j < i" using i(2) d(4) je(2) unfolding dropped_def by auto
    ultimately have "i < j" by simp
    then have "key_num kd < key_num (fst e)"
      using entries_ordered(2)[OF a k _ j(1), of i] eu i(3) j(2) je(1) by (simp add: ent_user_def)
    moreover have "e \<in> set kvs" using i nth_mem by blast
    ultimately show ?thesis using none_newerD[OF top _ eu] by blast
  qed
qed

end

end
