(* ===== verification/Ldb_Compact_Safe.thy ===== *)
theory Ldb_Compact_Safe
  imports Ldb_Compact_View
begin

text \<open>
  Compactions of a version in order. The inputs that \<^verbatim>\<open>SetupOtherInputs\<close> chooses, together with the order of the entries between the levels,
  give what the dropping of entries relies on: an entry that stays behind and is older than an input with the same user key is in a level
  that \<^verbatim>\<open>IsBaseLevelForKey\<close> looks at.

  One more condition is needed, and the code does not establish it: the last input of the next level must not share its largest
  user key with the file behind it. \<^verbatim>\<open>AddBoundaryInputs\<close> is called for the inputs of the level only.
\<close>

definition left_behind :: "('p \<Rightarrow> entries) \<Rightarrow> (nat \<Rightarrow> 'p list) \<Rightarrow> nat \<Rightarrow> 'p list \<Rightarrow> 'p list \<Rightarrow> (slice \<times> slice) set" where
  "left_behind K files level in0 in1 = (\<Union>l < kNumLevels. \<Union>f \<in> set (files l) -
     (if l = level then set in0 else if l = level + 1 then set in1 else {}). set (K f))"

definition input_entries :: "('p \<Rightarrow> entries) \<Rightarrow> 'p list \<Rightarrow> 'p list \<Rightarrow> (slice \<times> slice) set" where
  "input_entries K in0 in1 = (\<Union>f \<in> set in0 \<union> set in1. set (K f))"

context user_comparator
begin

definition version_filled :: "('p \<Rightarrow> FileMetaData) \<Rightarrow> (nat \<Rightarrow> 'p list) \<Rightarrow> ('p \<Rightarrow> entries) \<Rightarrow> bool" where
  "version_filled F files K \<longleftrightarrow> (\<forall>l < kNumLevels. \<forall>f \<in> set (files l). file_covers C (F f) (K f) \<and> asc (K f))"

definition no_split :: "('p \<Rightarrow> FileMetaData) \<Rightarrow> 'p list \<Rightarrow> 'p list \<Rightarrow> bool" where
  "no_split F fs cs \<longleftrightarrow> (\<forall>j. j + 1 < length fs \<and> fs ! j \<in> set cs \<and> fs ! (j + 1) \<notin> set cs \<longrightarrow> \<not> boundary_at F fs (j + 1))"

text \<open>Two entries of a sorted level for one user key, the older one in a file behind: every file in between is at the boundary.\<close>

lemma later_file_boundary:
  assumes d: "disjoint_files (map F fs)" and ij: "i < j" "j < length fs"
    and x: "Compare C x (ularge (F (fs ! i))) \<le> 0" "key_ok x" and y: "Compare C (usmall (F (fs ! j))) x \<le> 0" and k: "i < k" "k \<le> j"
  shows "boundary_at F fs k"
proof -
  have ok: "file_ok (F (fs ! l))" if "l < length fs" for l using d that by (auto simp: disjoint_files_def)
  have kl: "k < length fs" "k - 1 < length fs" using k ij by auto
  have lg: "key_ok (ularge (F (fs ! (k - 1))))" and sm: "key_ok (usmall (F (fs ! k)))" using ok[OF kl(1)] ok[OF kl(2)] by (auto simp: file_ok_def)
  have il: "i < length fs" using ij by simp
  have a: "Compare C (ularge (F (fs ! i))) (ularge (F (fs ! (k - 1)))) \<le> 0"
  proof (cases "i = k - 1")
    case True
    then show ?thesis using refl[OF lg] by simp
  next
    case False
    then show ?thesis using disjoint_user(3)[OF d, of i "k - 1"] k kl by simp
  qed
  have b: "Compare C (ularge (F (fs ! (k - 1)))) (usmall (F (fs ! k))) \<le> 0" using disjoint_user(1)[OF d, of "k - 1" k] k kl by simp
  have c: "Compare C (usmall (F (fs ! k))) (usmall (F (fs ! j))) \<le> 0" using disjoint_smallest[OF d, of k j] k ij by simp
  have oki: "key_ok (ularge (F (fs ! i)))" and okj: "key_ok (usmall (F (fs ! j)))" using ok[OF il] ok[OF ij(2)] by (auto simp: file_ok_def)
  have "Compare C x (ularge (F (fs ! (k - 1)))) \<le> 0" using trans[OF x(2) oki lg x(1) a] .
  moreover have "Compare C (usmall (F (fs ! k))) x \<le> 0" using trans[OF sm okj x(2) c y] .
  ultimately have "Compare C (usmall (F (fs ! k))) (ularge (F (fs ! (k - 1)))) \<le> 0" using trans[OF sm x(2) lg] by blast
  then have "Compare C (usmall (F (fs ! k))) (ularge (F (fs ! (k - 1)))) = 0" using b not_less[OF sm lg] by linarith
  then show ?thesis using kl(1) by (simp add: boundary_at_def)
qed

text \<open>In a sorted level, an entry of another file that is older than an entry with the same user key is in a file behind.\<close>

lemma older_in_later_file:
  assumes d: "disjoint_files (map F fs)" and i: "i < length fs" and j: "j < length fs" "i \<noteq> j"
    and ci: "file_covers C (F (fs ! i)) (K (fs ! i))" "asc (K (fs ! i))" and cj: "file_covers C (F (fs ! j)) (K (fs ! j))" "asc (K (fs ! j))"
    and x: "x \<in> set (K (fs ! i))" and e: "e \<in> set (K (fs ! j))"
    and same: "Compare C (ExtractUserKey (fst x)) (ExtractUserKey (fst e)) = 0" and old: "key_num (fst e) < key_num (fst x)"
  shows "i < j"
proof (rule ccontr)
  assume "\<not> i < j"
  then have ji: "j < i" using j(2) by simp
  have oke: "ikey_ok (fst e)" and okx: "ikey_ok (fst x)" using ci(2) cj(2) x e by (auto simp: ascending_def)
  have fi: "file_ok (F (fs ! i))" and fj: "file_ok (F (fs ! j))" using d i j(1) by (auto simp: disjoint_files_def)
  have "ikc_Compare C (fst e) (smallest (F (fs ! i))) < 0"
    using covers_bounds(2)[OF cj e] disjoint_less(1)[OF d, of j i] ji i oke fi fj
      internal.le_less_trans[of "fst e" "largest (F (fs ! j))" "smallest (F (fs ! i))"] by (simp add: file_ok_def)
  then have "ikc_Compare C (fst e) (fst x) < 0"
    using covers_bounds(1)[OF ci x] oke okx fi internal.less_le_trans[of "fst e" "smallest (F (fs ! i))" "fst x"] by (simp add: file_ok_def)
  moreover have "Compare C (ExtractUserKey (fst e)) (ExtractUserKey (fst x)) = 0" using same eq_swap oke okx by blast
  ultimately show False using old by (simp add: ikc_less)
qed

lemma covers_overlap:
  assumes "file_covers C f kvs" "asc kvs" "file_covers C g kvs'" "asc kvs'" and x: "x \<in> set kvs" and e: "e \<in> set kvs'"
    and same: "Compare C (ExtractUserKey (fst x)) (ExtractUserKey (fst e)) = 0"
  shows "Compare C (usmall f) (ularge g) \<le> 0" "Compare C (usmall g) (ularge f) \<le> 0"
proof -
  have ok: "key_ok (ExtractUserKey (fst x))" "key_ok (ExtractUserKey (fst e))" using assms by (auto simp: ascending_def)
  note f = covers_user[OF assms(1,2) x] and g = covers_user[OF assms(3,4) e]
  have okf: "key_ok (usmall f)" "key_ok (ularge f)" and okg: "key_ok (usmall g)" "key_ok (ularge g)"
    using covers_file_ok[OF assms(1,2)] covers_file_ok[OF assms(3,4)] by (auto simp: file_ok_def)
  have same': "Compare C (ExtractUserKey (fst e)) (ExtractUserKey (fst x)) = 0" using same eq_swap[OF ok] by simp
  have "Compare C (usmall f) (ExtractUserKey (fst e)) \<le> 0" using trans[OF okf(1) ok f(1)] same by simp
  then show "Compare C (usmall f) (ularge g) \<le> 0" using trans[OF okf(1) ok(2) okg(2)] g(2) by blast
  have "Compare C (usmall g) (ExtractUserKey (fst x)) \<le> 0" using trans[OF okg(1) ok(2,1) g(1)] same' by simp
  then show "Compare C (usmall g) (ularge f) \<le> 0" using trans[OF okg(1) ok(1) okf(2)] f(2) by blast
qed

text \<open>In the level itself nothing older stays behind.\<close>

lemma level_left_newer:
  assumes l: "version_levels F files" "level < kNumLevels" and h: "version_filled F files K"
    and c: "clean_inputs F (files level) level in0" and f: "f \<in> set in0" and g: "g \<in> set (files level)" "g \<notin> set in0"
    and x: "x \<in> set (K f)" and e: "e \<in> set (K g)"
    and same: "Compare C (ExtractUserKey (fst x)) (ExtractUserKey (fst e)) = 0"
  shows "\<not> key_num (fst e) < key_num (fst x)"
proof
  assume old: "key_num (fst e) < key_num (fst x)"
  have fl: "f \<in> set (files level)" using clean_inputs_facts(2)[OF c] f by blast
  have cf: "file_covers C (F f) (K f)" "asc (K f)" and cg: "file_covers C (F g) (K g)" "asc (K g)"
    using h l(2) fl g(1) by (auto simp: version_filled_def)
  show False
  proof (cases "level = 0")
    case True
    have ok: "key_ok (usmall (F f))" "key_ok (ularge (F f))" "key_ok (usmall (F g))" "key_ok (ularge (F g))"
      using covers_file_ok[OF cf] covers_file_ok[OF cg] by (auto simp: file_ok_def)
    have "files_overlap C (F f) (F g)"
      using covers_overlap[OF cf cg x e same] swap[OF ok(2,3)] not_less ok swap by (fastforce simp: files_overlap_def in_range_def)
    then show False using c True f g by (auto simp: clean_inputs_def overlap_closed_def)
  next
    case False
    note d = level_files_ok(2)[OF l False]
    obtain i n where n: "in0 = take n (drop i (files level))" "0 < n" "i + n \<le> length (files level)" "\<not> boundary_at F (files level) (i + n)"
      using c False by (auto simp: clean_inputs_def neighbours_def)
    obtain p where p: "i \<le> p" "p < i + n" "f = files level ! p" using f slice_mem[OF n(3)] n(1) by blast
    obtain q where q: "q < length (files level)" "g = files level ! q" using g(1) by (auto simp: in_set_conv_nth)
    have "\<not> (i \<le> q \<and> q < i + n)" using g(2) q(2) slice_mem[OF n(3)] n(1) by blast
    moreover have pl: "p < length (files level)" using p(2) n(3) by simp
    moreover have "p \<noteq> q" using p q calculation by auto
    ultimately have pq: "p < q" using older_in_later_file[OF d pl q(1), of K x e] cf cg x e same old p(3) q(2) by auto
    then have iq: "i + n \<le> q" using \<open>\<not> (i \<le> q \<and> q < i + n)\<close> p(1) by linarith
    have okx: "key_ok (ExtractUserKey (fst x))" "key_ok (ExtractUserKey (fst e))" using cf(2) cg(2) x e by (auto simp: ascending_def)
    have "Compare C (ExtractUserKey (fst e)) (ExtractUserKey (fst x)) = 0" using same eq_swap[OF okx] by simp
    then have "Compare C (usmall (F g)) (ExtractUserKey (fst x)) \<le> 0"
      using trans[OF _ okx(2,1) covers_user(1)[OF cg e]] covers_file_ok[OF cg] by (simp add: file_ok_def)
    then have "boundary_at F (files level) (i + n)"
      using later_file_boundary[OF d pq q(1), of "ExtractUserKey (fst x)" "i + n"] covers_user(2)[OF cf x] okx(1) p q(2) iq by simp
    then show False using n(4) by blast
  qed
qed

text \<open>In the next level a file that is not an input holds no key of the inputs of the level, and nothing older than the inputs of the next level.\<close>

lemma next_level_apart:
  assumes c: "chosen_ok F files level rg in0 in1" and f: "f \<in> set in0" and g: "g \<in> set (files (level + 1))" "g \<notin> set in1"
    and cf: "file_covers C (F f) (K f)" "asc (K f)" and cg: "file_covers C (F g) (K g)" "asc (K g)" and x: "x \<in> set (K f)" and e: "e \<in> set (K g)"
    and rok: "\<forall>f \<in> set in0. file_ok (F f)"
  shows "Compare C (ExtractUserKey (fst x)) (ExtractUserKey (fst e)) \<noteq> 0"
proof
  assume same: "Compare C (ExtractUserKey (fst x)) (ExtractUserKey (fst e)) = 0"
  note o = covers_overlap[OF cf cg x e same]
  have fok: "file_ok (F f)" and gok: "file_ok (F g)" using covers_file_ok[OF cf] covers_file_ok[OF cg] .
  have lo: "lower_of F in0 (fst rg)" and up: "upper_of F in0 (snd rg)" using c by (auto simp: chosen_ok_def)
  have okr: "key_ok (ExtractUserKey (fst rg))" "key_ok (ExtractUserKey (snd rg))"
    using range_bounds_ok[OF lo up rok] by (auto simp: range_ok_def)
  have a: "Compare C (ExtractUserKey (fst rg)) (usmall (F f)) \<le> 0" using lo f by (auto simp: lower_of_def ikc_le)
  have b: "Compare C (ularge (F f)) (ExtractUserKey (snd rg)) \<le> 0" using up f by (auto simp: upper_of_def ikc_le)
  have a': "Compare C (ExtractUserKey (fst rg)) (ularge (F g)) \<le> 0"
    using trans[OF okr(1) file_okD(1)[OF fok] file_okD(2)[OF gok] a o(1)] .
  have b': "Compare C (usmall (F g)) (ExtractUserKey (snd rg)) \<le> 0"
    using trans[OF file_okD(1)[OF gok] file_okD(2)[OF fok] okr(2) o(2) b] .
  have "in_range C (Some (ExtractUserKey (fst rg))) (Some (ExtractUserKey (snd rg))) (F g)"
    using a' b' not_less[OF file_okD(2)[OF gok] okr(1)] by (simp add: in_range_def)
  then show False using g c by (simp add: chosen_ok_def)
qed

lemma next_level_left_newer:
  assumes d: "disjoint_files (map F fs)" and n: "no_split F fs cs" and h: "\<forall>f \<in> set fs. file_covers C (F f) (K f) \<and> asc (K f)"
    and f: "f \<in> set fs" "f \<in> set cs" and g: "g \<in> set fs" "g \<notin> set cs" and x: "x \<in> set (K f)" and e: "e \<in> set (K g)"
    and same: "Compare C (ExtractUserKey (fst x)) (ExtractUserKey (fst e)) = 0"
  shows "\<not> key_num (fst e) < key_num (fst x)"
proof
  assume old: "key_num (fst e) < key_num (fst x)"
  obtain i where i: "i < length fs" "f = fs ! i" using f(1) by (auto simp: in_set_conv_nth)
  obtain j where j: "j < length fs" "g = fs ! j" using g(1) by (auto simp: in_set_conv_nth)
  have cf: "file_covers C (F f) (K f)" "asc (K f)" and cg: "file_covers C (F g) (K g)" "asc (K g)" using h f g by auto
  have "i \<noteq> j" using f(2) g(2) i j by auto
  then have ij: "i < j" using older_in_later_file[OF d i(1) j(1), of K x e] cf cg x e same old i(2) j(2) by auto
  have okx: "key_ok (ExtractUserKey (fst x))" "key_ok (ExtractUserKey (fst e))" using cf(2) cg(2) x e by (auto simp: ascending_def)
  have "Compare C (ExtractUserKey (fst e)) (ExtractUserKey (fst x)) = 0" using same eq_swap[OF okx] by simp
  then have lo: "Compare C (usmall (F g)) (ExtractUserKey (fst x)) \<le> 0"
    using trans[OF _ okx(2,1) covers_user(1)[OF cg e]] covers_file_ok[OF cg] by (simp add: file_ok_def)
  let ?k = "LEAST k. i < k \<and> fs ! k \<notin> set cs"
  have k: "i < ?k \<and> fs ! ?k \<notin> set cs" by (rule LeastI[of _ j]) (use ij g j in simp)
  have kj: "?k \<le> j" by (rule Least_le) (use ij g j in simp)
  have "fs ! (?k - 1) \<in> set cs"
  proof (cases "?k - 1 = i")
    case False
    then show ?thesis using not_less_Least[of "?k - 1" "\<lambda>k. i < k \<and> fs ! k \<notin> set cs"] k by auto
  qed (use f i in simp)
  moreover have "?k - 1 + 1 = ?k" using k by linarith
  moreover have "?k < length fs" using kj j(1) by (rule order.strict_trans1)
  ultimately have "\<not> boundary_at F fs ?k" using n k unfolding no_split_def by metis
  moreover have "boundary_at F fs ?k"
    using later_file_boundary[OF d ij j(1), of "ExtractUserKey (fst x)" ?k] covers_user(2)[OF cf x] okx(1) lo i j k kj by simp
  ultimately show False by blast
qed

lemma deeper_not_base:
  assumes l: "level + 2 \<le> l" "l < kNumLevels" and g: "g \<in> set (files l)" and cg: "file_covers C (F g) (K g)" "asc (K g)"
    and e: "e \<in> set (K g)" and u: "key_ok u" "Compare C u (ExtractUserKey (fst e)) = 0"
  shows "\<not> base_key C F files level u"
proof -
  have ok: "key_ok (ExtractUserKey (fst e))" using cg(2) e by (auto simp: ascending_def)
  have gok: "file_ok (F g)" using covers_file_ok[OF cg] .
  have "Compare C (ExtractUserKey (fst e)) u = 0" using u eq_swap[OF u(1) ok] by simp
  then have "Compare C (usmall (F g)) u \<le> 0" "Compare C u (ularge (F g)) \<le> 0"
    using trans[OF file_okD(1)[OF gok] ok u(1) covers_user(1)[OF cg e]] trans[OF u(1) ok file_okD(2)[OF gok] _ covers_user(2)[OF cg e]] u(2)
    by simp_all
  then have "Compare C u (usmall (F g)) \<ge> 0" "Compare C u (ularge (F g)) \<le> 0"
    using not_less[OF u(1) file_okD(1)[OF gok]] by auto
  then show ?thesis using l g unfolding base_key_def by blast
qed

text \<open>The entries that stay behind: those of the files that are no inputs, and newer ones, of the memtables.\<close>

definition newer_set :: "(nat \<Rightarrow> 'p list) \<Rightarrow> ('p \<Rightarrow> entries) \<Rightarrow> (slice \<times> slice) set \<Rightarrow> bool" where
  "newer_set files K M \<longleftrightarrow> (\<forall>e \<in> M. key_ok (ExtractUserKey (fst e)) \<and> (\<forall>e' \<in> version_entries files K.
     Compare C (ExtractUserKey (fst e')) (ExtractUserKey (fst e)) = 0 \<longrightarrow> key_num (fst e') < key_num (fst e)))"

lemma left_behind_mem:
  "e \<in> left_behind K files level in0 in1 \<longleftrightarrow>
     (\<exists>l < kNumLevels. \<exists>f \<in> set (files l). (l = level \<longrightarrow> f \<notin> set in0) \<and> (l = level + 1 \<longrightarrow> f \<notin> set in1) \<and> e \<in> set (K f))"
proof -
  have mem: "f \<in> set (files l) - (if l = level then set in0 else if l = level + 1 then set in1 else {}) \<longleftrightarrow>
    f \<in> set (files l) \<and> (l = level \<longrightarrow> f \<notin> set in0) \<and> (l = level + 1 \<longrightarrow> f \<notin> set in1)" for l f by simp
  show ?thesis by (simp only: left_behind_def UN_iff Bex_def mem lessThan_iff conj_assoc)
qed

lemma input_in_version:
  assumes l: "version_levels F files" "level + 1 < kNumLevels" and c: "chosen_ok F files level rg in0 in1" and f: "f \<in> set in0 \<union> set in1"
  obtains lf where "lf \<in> {level, level + 1}" "f \<in> set (files lf)" "lf < kNumLevels" "f \<in> set in0 \<longrightarrow> lf = level" "f \<notin> set in0 \<longrightarrow> lf = level + 1"
proof -
  have i0: "set in0 \<subseteq> set (files level)" using c clean_inputs_facts(2)[of F "files level" level in0] by (auto simp: chosen_ok_def)
  have i1: "set in1 \<subseteq> set (files (level + 1))" using c by (auto simp: chosen_ok_def)
  show ?thesis
    by (rule that[of "if f \<in> set in0 then level else level + 1"]) (use f i0 i1 l(2) in auto)
qed

lemma left_behind_older:
  assumes l: "version_levels F files" "level + 1 < kNumLevels" and h: "version_filled F files K" and n: "version_newer C F files K"
    and c: "chosen_ok F files level rg in0 in1" and sp: "no_split F (files (level + 1)) in1"
    and e: "e \<in> left_behind K files level in0 in1" and x: "x \<in> input_entries K in0 in1"
    and same: "Compare C (ExtractUserKey (fst x)) (ExtractUserKey (fst e)) = 0" and old: "key_num (fst e) < key_num (fst x)"
  shows "\<not> base_key C F files level (ExtractUserKey (fst x))"
proof -
  obtain lg g where g: "lg < kNumLevels" "g \<in> set (files lg)" "lg = level \<Longrightarrow> g \<notin> set in0" "lg = level + 1 \<Longrightarrow> g \<notin> set in1" "e \<in> set (K g)"
    using e unfolding left_behind_mem by blast
  obtain f where f: "f \<in> set in0 \<union> set in1" "x \<in> set (K f)" using x by (auto simp: input_entries_def)
  obtain lf where lf: "lf \<in> {level, level + 1}" "f \<in> set (files lf)" "lf < kNumLevels" "f \<in> set in0 \<longrightarrow> lf = level" "f \<notin> set in0 \<longrightarrow> lf = level + 1"
    using input_in_version[OF l c f(1)] by blast
  have cg: "file_covers C (F g) (K g)" "asc (K g)" and cf: "file_covers C (F f) (K f)" "asc (K f)"
    using h g(1,2) lf(2,3) by (auto simp: version_filled_def)
  have okx: "key_ok (ExtractUserKey (fst x))" "key_ok (ExtractUserKey (fst e))" using cf(2) cg(2) f(2) g(5) by (auto simp: ascending_def)
  have cl: "clean_inputs F (files level) level in0" using c by (simp add: chosen_ok_def)
  have "level < kNumLevels" using l(2) by simp
  then have inok: "\<forall>f \<in> set in0. file_ok (F f)" using inputs_ok[OF l(1) _ cl] by blast
  have upper: "\<not> lg < lf"
  proof
    assume "lg < lf"
    then have "newer_entries C (K g) (K f)" using n g(1,2) lf(2,3) unfolding version_newer_def by blast
    then have "key_num (fst x) < key_num (fst e)" using same eq_swap[OF okx] f(2) g(5) unfolding newer_entries_def by blast
    then show False using old by (rule order.asym)
  qed
  consider "lg = level" | "lg = level + 1" | "level + 2 \<le> lg" using upper lf(1) by force
  then show ?thesis
  proof cases
    case 1
    then have "f \<in> set in0" using upper lf(5) by auto
    then show ?thesis using level_left_newer[OF l(1) \<open>level < kNumLevels\<close> h cl _ _ g(3)[OF 1] f(2) g(5) same] g(2) 1 old by blast
  next
    case 2
    show ?thesis
    proof (cases "f \<in> set in0")
      case True
      then show ?thesis using next_level_apart[OF c True _ g(4)[OF 2] cf cg f(2) g(5) inok] g(2) 2 same by blast
    next
      case False
      then have lev: "lf = level + 1" "f \<in> set in1" using lf(5) f(1) by auto
      have d: "disjoint_files (map F (files (level + 1)))" using level_files_ok(2)[OF l] by simp
      have "\<forall>f \<in> set (files (level + 1)). file_covers C (F f) (K f) \<and> asc (K f)" using h l(2) by (auto simp: version_filled_def)
      then show ?thesis using next_level_left_newer[OF d sp _ _ lev(2) _ g(4)[OF 2] f(2) g(5) same] lf(2) g(2) 2 lev(1) old by blast
    qed
  next
    case 3
    then show ?thesis using deeper_not_base[of level lg g files F K e "ExtractUserKey (fst x)"] g(1,2,5) cg okx(1) same by blast
  qed
qed

lemma left_older_is_deeper:
  assumes l: "version_levels F files" "level + 1 < kNumLevels" and h: "version_filled F files K" and n: "version_newer C F files K"
    and c: "chosen_ok F files level rg in0 in1" and sp: "no_split F (files (level + 1)) in1"
    and kvs: "set kvs = input_entries K in0 in1" and M: "newer_set files K M"
  shows "older_is_deeper (base_key C F files level) kvs (left_behind K files level in0 in1 \<union> M)"
proof -
  have inv: "input_entries K in0 in1 \<subseteq> version_entries files K"
  proof
    fix x assume "x \<in> input_entries K in0 in1"
    then obtain f where f: "f \<in> set in0 \<union> set in1" "x \<in> set (K f)" by (auto simp: input_entries_def)
    obtain lf where "f \<in> set (files lf)" "lf < kNumLevels" using input_in_version[OF l c f(1)] by blast
    then show "x \<in> version_entries files K" using f(2) by (auto simp: version_entries_def)
  qed
  have "key_ok (ExtractUserKey (fst e))" if "e \<in> left_behind K files level in0 in1 \<union> M" for e
    using that h M unfolding Un_iff left_behind_mem by (fastforce simp: version_filled_def newer_set_def ascending_def)
  moreover have "\<not> base_key C F files level (ent_user kvs i)"
    if e: "e \<in> left_behind K files level in0 in1 \<union> M" and i: "i < length kvs"
      and same: "Compare C (ent_user kvs i) (ExtractUserKey (fst e)) = 0" and old: "key_num (fst e) < key_num (fst (kvs ! i))" for e i
  proof -
    have x: "kvs ! i \<in> input_entries K in0 in1" using i kvs nth_mem by blast
    show ?thesis
    proof (cases "e \<in> M")
      case True
      then show ?thesis using M x inv same old unfolding newer_set_def ent_user_def by (meson in_mono order.asym)
    next
      case False
      then show ?thesis using left_behind_older[OF l h n c sp _ x] e same old by (auto simp: ent_user_def)
    qed
  qed
  ultimately show ?thesis unfolding older_is_deeper_def by blast
qed

lemma version_split:
  assumes l: "version_levels F files" "level + 1 < kNumLevels" and c: "chosen_ok F files level rg in0 in1"
  shows "input_entries K in0 in1 \<union> left_behind K files level in0 in1 = version_entries files K"
proof
  show "input_entries K in0 in1 \<union> left_behind K files level in0 in1 \<subseteq> version_entries files K"
  proof
    fix x assume x: "x \<in> input_entries K in0 in1 \<union> left_behind K files level in0 in1"
    show "x \<in> version_entries files K"
    proof (cases "x \<in> input_entries K in0 in1")
      case True
      then obtain f where f: "f \<in> set in0 \<union> set in1" "x \<in> set (K f)" by (auto simp: input_entries_def)
      obtain lf where "f \<in> set (files lf)" "lf < kNumLevels" using input_in_version[OF l c f(1)] by blast
      then show ?thesis using f(2) by (auto simp: version_entries_def)
    qed (use x in \<open>auto simp: version_entries_def left_behind_mem\<close>)
  qed
  show "version_entries files K \<subseteq> input_entries K in0 in1 \<union> left_behind K files level in0 in1"
    unfolding version_entries_def input_entries_def by (intro subsetI UnCI) (simp add: left_behind_mem, blast)
qed

end
end
