(* ===== verification/Ldb_Compact_Work.thy ===== *)
theory Ldb_Compact_Work
  imports Ldb_Compact_Safe Ldb_Table
begin

text \<open>
  What \<^verbatim>\<open>DoCompactionWork\<close> writes. The entries that are kept are split among the output files, in order and without loss; each file is a table
  that the builder finished, and its description has its first and its last key and its size. Its number was handed out for it alone, whatever other
  threads take from the counter meanwhile. The edit is the one that removes the inputs and adds the outputs.
\<close>

section \<open>What the compaction object keeps\<close>

definition same_compaction :: "'p Compaction \<Rightarrow> 'p Compaction \<Rightarrow> bool" where
  "same_compaction c c' \<longleftrightarrow> c_level c' = c_level c \<and> c_input_version c' = c_input_version c \<and> c_level_ptrs c' = c_level_ptrs c \<and>
     c_max_output_file_size c' = c_max_output_file_size c \<and>
     c_inputs0 c' = c_inputs0 c \<and> c_inputs1 c' = c_inputs1 c \<and> c_edit c' = c_edit c"

lemma ShouldStopBefore_same: "same_compaction c (snd (ShouldStopBefore U m F k c))"
  by (auto simp: ShouldStopBefore_def same_compaction_def Let_def split: prod.splits)

section \<open>The output files\<close>

text \<open>A file that was finished: a description, the number and contents of the closed file, and the entries in it.\<close>

definition finished_output ::
  "'w CompactEnv \<Rightarrow> Snappy \<Rightarrow> TableOptions \<Rightarrow> 'w WritableFile \<Rightarrow> Output \<Rightarrow> 64 word \<times> 'w \<Rightarrow> entries \<Rightarrow> bool" where
  "finished_output env S opt W out file kvs \<longleftrightarrow> kvs \<noteq> [] \<and> fst file = out_number out \<and>
     out_smallest out = fst (hd kvs) \<and> out_largest out = fst (last kvs) \<and>
     (\<exists>f r st f1 st1. ce_NewWritableFile env (out_number out) = (st1, f) \<and> Status_ok st1 \<and>
        build_table S opt W f kvs = (st, r) \<and> Status_ok st \<and> out_file_size out = tb_FileSize r \<and>
        ce_Sync env (tb_file r) = (Status_OK, f1) \<and> ce_Close env f1 = (Status_OK, snd file) \<and>
        Status_ok (ce_usable env (out_number out) (out_file_size out)))"

definition open_output ::
  "'w CompactEnv \<Rightarrow> Snappy \<Rightarrow> TableOptions \<Rightarrow> 'w WritableFile \<Rightarrow> Output \<Rightarrow> 'w TableBuilder \<Rightarrow> entries \<Rightarrow> bool" where
  "open_output env S opt W out r kvs \<longleftrightarrow> kvs \<noteq> [] \<and>
     (\<exists>f st. ce_NewWritableFile env (out_number out) = (st, f) \<and> Status_ok st \<and>
        r = fold (\<lambda>(k, v). tb_Add S k v) kvs (new_TableBuilder opt W f)) \<and>
     (tb_ok r \<longrightarrow> tb_NumEntries r = int (length kvs) \<and> out_smallest out = fst (hd kvs) \<and> out_largest out = fst (last kvs))"

fun outputs_hold ::
  "'w CompactEnv \<Rightarrow> Snappy \<Rightarrow> TableOptions \<Rightarrow> 'w WritableFile \<Rightarrow> Output list \<Rightarrow> (64 word \<times> 'w) list \<Rightarrow> entries list \<Rightarrow> bool" where
  "outputs_hold env S opt W [] [] [] = True"
| "outputs_hold env S opt W (out # outs) (file # files) (g # gs) =
     (finished_output env S opt W out file g \<and> outputs_hold env S opt W outs files gs)"
| "outputs_hold env S opt W _ _ _ = False"

lemma outputs_hold_snoc:
  "outputs_hold env S opt W outs files gs \<Longrightarrow> finished_output env S opt W out file g \<Longrightarrow>
   outputs_hold env S opt W (outs @ [out]) (files @ [file]) (gs @ [g])"
  by (induction env S opt W outs files gs rule: outputs_hold.induct) auto

text \<open>What may happen to the version set between two entries: the comparator stays. When no file number is given back, the outputs have
  ascending numbers from \<open>start\<close> on, all of them below the next one; the exception is the largest 64-bit number, after which the counter starts again.\<close>

definition keeps_comparator :: "(nat \<Rightarrow> 'p VersionSet \<Rightarrow> 'p VersionSet) \<Rightarrow> bool" where
  "keeps_comparator g \<longleftrightarrow> (\<forall>n vs. vs_user_comparator (g n vs) = vs_user_comparator vs)"

definition numbers_grow :: "(nat \<Rightarrow> 'p VersionSet \<Rightarrow> 'p VersionSet) \<Rightarrow> bool" where
  "numbers_grow g \<longleftrightarrow> (\<forall>n vs. vs_next_file_number vs \<le> vs_next_file_number (g n vs))"

definition handed_out :: "64 word \<Rightarrow> 64 word \<Rightarrow> 64 word list \<Rightarrow> bool" where
  "handed_out start next_number ns \<longleftrightarrow> - 1 \<in> set ns \<or>
     (sorted_wrt (<) ns \<and> start \<le> next_number \<and> (\<forall>n \<in> set ns. start \<le> n \<and> n < next_number))"

lemma handed_out_snoc:
  assumes "handed_out start next_number ns"
  shows "handed_out start (next_number + 1) (ns @ [next_number])"
proof (cases "next_number = - 1")
  case False
  then have "unat next_number \<noteq> unat (- 1 :: 64 word)" by (simp only: word_unat_eq_iff not_False_eq_True)
  then have "unat next_number + 1 < 2 ^ 64" using unat_bound_64[of next_number] by (simp add: unsigned_minus_1_eq_mask mask_eq_exp_minus_1)
  then have "next_number < next_number + 1" using unat_add_lem[of next_number 1] by (simp add: word_less_nat_alt)
  then show ?thesis using assms by (auto simp: handed_out_def sorted_wrt_append)
qed (simp add: handed_out_def)

lemma handed_out_mono: "handed_out start next_number ns \<Longrightarrow> next_number \<le> next_number' \<Longrightarrow> handed_out start next_number' ns"
  by (auto simp: handed_out_def)

text \<open>The files so far hold the entries \<open>kept\<close>, the last of them possibly in a file that is still open.\<close>


definition writes ::
  "'w CompactEnv \<Rightarrow> Snappy \<Rightarrow> TableOptions \<Rightarrow> 'w WritableFile \<Rightarrow> 'w CompactionState \<Rightarrow> entries \<Rightarrow> bool" where
  "writes env S opt W s kept \<longleftrightarrow>
     (case cs_builder s of
        None \<Rightarrow> \<exists>gs. outputs_hold env S opt W (cs_outputs s) (cs_closed s) gs \<and> concat gs = kept
      | Some r \<Rightarrow> \<exists>outs out gs cur. cs_outputs s = outs @ [out] \<and> outputs_hold env S opt W outs (cs_closed s) gs \<and>
          open_output env S opt W out r cur \<and> concat gs @ cur = kept)"

section \<open>One file\<close>

lemma Add_count:
  assumes "tb_ok r"
  shows "tb_NumEntries (tb_Add S k v r) = tb_NumEntries r + 1"
proof -
  have raw: "tb_num_entries (snd (WriteRawBlock d t r)) = tb_num_entries r" for d t and r :: "'a TableBuilder"
    by (auto simp: WriteRawBlock_def Let_def split: prod.splits)
  then have block: "tb_num_entries (snd (snd (WriteBlock S b r))) = tb_num_entries r" for b and r :: "'a TableBuilder"
    by (auto simp: WriteBlock_def split: prod.splits)
  then have "tb_num_entries (tb_Flush S r) = tb_num_entries r" for r :: "'a TableBuilder"
    by (auto simp: tb_Flush_def Let_def split: prod.splits) (metis snd_conv)+
  then show ?thesis using assms by (simp add: tb_Add_def tb_NumEntries_def Let_def add_index_entry_def)
qed

lemma update_current_snoc: "cs_outputs s = outs @ [out] \<Longrightarrow> cs_outputs (update_current g s) = outs @ [g out]"
  by (simp add: update_current_def)

lemma update_current_keeps [simp]:
  "cs_builder (update_current g s) = cs_builder s" "cs_closed (update_current g s) = cs_closed s"
  "cs_total_bytes (update_current g s) = cs_total_bytes s"
  by (simp_all add: update_current_def)

lemma add_output_writes:
  assumes W: "appends_to W contents" and s: "cs_builder s = Some r" and w: "writes env S opt W s kept"
  shows "writes env S opt W (add_output S k v s) (kept @ [(k, v)]) \<and> cs_builder (add_output S k v s) = Some (tb_Add S k v r) \<and>
    map out_number (cs_outputs (add_output S k v s)) = map out_number (cs_outputs s)"
proof -
  obtain outs out gs cur where o: "cs_outputs s = outs @ [out]" "outputs_hold env S opt W outs (cs_closed s) gs"
    "open_output env S opt W out r cur" "concat gs @ cur = kept"
    using w s by (auto simp: writes_def)
  let ?out = "(if tb_NumEntries r = 0 then out\<lparr>out_smallest := k\<rparr> else out)\<lparr>out_largest := k\<rparr>"
  have s': "cs_outputs (add_output S k v s) = outs @ [?out]" "cs_builder (add_output S k v s) = Some (tb_Add S k v r)"
    "cs_closed (add_output S k v s) = cs_closed s"
    using s o(1) by (simp_all add: add_output_def Let_def update_current_def)
  obtain f st where f: "ce_NewWritableFile env (out_number out) = (st, f)" "Status_ok st"
    "r = fold (\<lambda>(k, v). tb_Add S k v) cur (new_TableBuilder opt W f)" using o(3) by (auto simp: open_output_def)
  have "appends_to (tb_ops r) contents"
    using Adds_kept[of "new_TableBuilder opt W f" contents S cur] W f(3) by (simp add: new_TableBuilder_def Let_def)
  then have "tb_ok (tb_Add S k v r) \<longrightarrow> tb_ok r" using Add_grows[of r contents S k v] by (simp add: grows_def)
  moreover have "tb_NumEntries r = int (length cur) \<and> out_smallest out = fst (hd cur)" if "tb_ok r" using that o(3) by (simp add: open_output_def)
  moreover have "cur \<noteq> []" using o(3) by (simp add: open_output_def)
  ultimately have "open_output env S opt W ?out (tb_Add S k v r) (cur @ [(k, v)])"
    unfolding open_output_def using f Add_count[of r S k v] by auto
  then have "writes env S opt W (add_output S k v s) (kept @ [(k, v)])"
    unfolding writes_def s' option.case using o(2,4) by (intro exI[of _ outs] exI[of _ ?out] exI[of _ gs] exI[of _ "cur @ [(k, v)]"]) simp
  then show ?thesis using s' o(1) by simp
qed

lemma Finish_output:
  assumes W: "appends_to W contents" and s: "cs_builder s = Some r" and w: "writes env S opt W s kept"
    and fin: "FinishCompactionOutputFile env S Status_OK s = (st, s')" and ok: "Status_ok st"
  shows "writes env S opt W s' kept \<and> cs_builder s' = None \<and> map out_number (cs_outputs s') = map out_number (cs_outputs s)"
proof -
  obtain outs out gs cur where o: "cs_outputs s = outs @ [out]" "outputs_hold env S opt W outs (cs_closed s) gs"
    "open_output env S opt W out r cur" "concat gs @ cur = kept"
    using w s by (auto simp: writes_def)
  obtain f st0 where f: "ce_NewWritableFile env (out_number out) = (st0, f)" "Status_ok st0"
    "r = fold (\<lambda>(k, v). tb_Add S k v) cur (new_TableBuilder opt W f)" "cur \<noteq> []" using o(3) by (auto simp: open_output_def)
  obtain st1 r1 where r1: "tb_Finish S r = (st1, r1)" by fastforce
  obtain st2 f2 where f2: "ce_Sync env (tb_file r1) = (st2, f2)" by fastforce
  obtain st3 f3 where f3: "ce_Close env f2 = (st3, f3)" by fastforce
  let ?out = "out\<lparr>out_file_size := tb_FileSize r1\<rparr>"
  have oks: "Status_ok st1" "Status_ok st2" "Status_ok st3"
    using fin ok s r1 f2 f3 by (auto simp: FinishCompactionOutputFile_def Let_def split: if_splits prod.splits)
  have ops: "appends_to (tb_ops r) contents"
    using Adds_kept[of "new_TableBuilder opt W f" contents S cur] W f(3) by (simp add: new_TableBuilder_def Let_def)
  have rok: "tb_ok r" using Finish_grows[OF ops r1 oks(1)] by blast
  have cnt: "tb_NumEntries r = int (length cur)" "out_smallest out = fst (hd cur)" "out_largest out = fst (last cur)"
    using o(3) rok by (auto simp: open_output_def)
  have fin': "st = ce_usable env (out_number out) (tb_FileSize r1)" "cs_outputs s' = outs @ [?out]" "cs_builder s' = None"
    "cs_closed s' = cs_closed s @ [(out_number out, f3)]"
    using fin oks s r1 f2 f3 o(1) cnt(1) f(4) by (auto simp: FinishCompactionOutputFile_def Let_def update_current_def split: if_splits)
  have "finished_output env S opt W ?out (out_number out, f3) cur"
    using f cnt r1 f2 f3 oks fin'(1) ok unfolding finished_output_def build_table_def Status_ok_def Status_OK_def by simp
  then have "outputs_hold env S opt W (cs_outputs s') (cs_closed s') (gs @ [cur])"
    using outputs_hold_snoc[OF o(2)] fin' by simp
  then show ?thesis using fin' o(1,4) unfolding writes_def by (auto intro!: exI[of _ "gs @ [cur]"])
qed

lemma Open_output:
  assumes s: "cs_builder s = None" and w: "writes env S opt W s kept"
    and op: "OpenCompactionOutputFile env opt W (s, vs) = (st, s', vs')" and ok: "Status_ok st"
  shows "\<exists>outs out gs f. cs_builder s' = Some (new_TableBuilder opt W f) \<and> cs_outputs s' = outs @ [out] \<and>
    outputs_hold env S opt W outs (cs_closed s') gs \<and> concat gs = kept \<and> ce_NewWritableFile env (out_number out) = (st, f) \<and>
    map out_number (cs_outputs s') = map out_number (cs_outputs s) @ [vs_next_file_number vs] \<and>
    vs' = vs\<lparr>vs_next_file_number := vs_next_file_number vs + 1\<rparr>"
proof -
  obtain gs where gs: "outputs_hold env S opt W (cs_outputs s) (cs_closed s) gs" "concat gs = kept" using w s by (auto simp: writes_def)
  obtain st1 f where f: "ce_NewWritableFile env (vs_next_file_number vs) = (st1, f)" by fastforce
  have "st1 = st" using op f by (simp add: OpenCompactionOutputFile_def NewFileNumber_def Let_def)
  then show ?thesis using op f ok gs by (auto simp: OpenCompactionOutputFile_def NewFileNumber_def Let_def)
qed

section \<open>One entry\<close>

definition out_state ::
  "'w CompactEnv \<Rightarrow> Snappy \<Rightarrow> TableOptions \<Rightarrow> 'w WritableFile \<Rightarrow> (nat \<Rightarrow> 'p VersionSet \<Rightarrow> 'p VersionSet) \<Rightarrow> 'p VersionSet \<Rightarrow>
   'w CompactionState \<times> 'p VersionSet \<Rightarrow> entries \<Rightarrow> bool" where
  "out_state env S opt W g vs0 = (\<lambda>(s, vs) kept. writes env S opt W s kept \<and> vs_user_comparator vs = vs_user_comparator vs0 \<and>
     (numbers_grow g \<longrightarrow> handed_out (vs_next_file_number vs0) (vs_next_file_number vs) (map out_number (cs_outputs s))))"

lemma interlude_state:
  "keeps_comparator g \<Longrightarrow> out_state env S opt W g vs0 (s, vs) kept \<Longrightarrow> out_state env S opt W g vs0 (s, g n vs) kept"
  using handed_out_mono by (fastforce simp: out_state_def keeps_comparator_def numbers_grow_def)

lemma finish_state:
  assumes W: "appends_to W contents" and "cs_builder s \<noteq> None" and w: "out_state env S opt W g vs0 (s, vs) kept"
    and fin: "FinishCompactionOutputFile env S Status_OK s = (st, s')" and ok: "Status_ok st"
  shows "out_state env S opt W g vs0 (s', vs) kept \<and> cs_builder s' = None"
proof -
  obtain r where r: "cs_builder s = Some r" using assms(2) by blast
  have "writes env S opt W s' kept" "cs_builder s' = None" "map out_number (cs_outputs s') = map out_number (cs_outputs s)"
    using Finish_output[OF W r _ fin ok] w unfolding out_state_def by auto
  then show ?thesis using w by (simp add: out_state_def)
qed

lemma open_state:
  assumes s: "cs_builder s = None" and W: "appends_to W contents" and w: "out_state env S opt W g vs0 (s, vs) kept"
    and op: "OpenCompactionOutputFile env opt W (s, vs) = (st, s', vs')" and ok: "Status_ok st"
  shows "out_state env S opt W g vs0 (add_output S k v s', vs') (kept @ [(k, v)]) \<and> cs_builder (add_output S k v s') \<noteq> None"
proof -
  have ws: "writes env S opt W s kept" using w by (simp add: out_state_def)
  obtain outs out gs f where o: "cs_builder s' = Some (new_TableBuilder opt W f)" "cs_outputs s' = outs @ [out]"
    "outputs_hold env S opt W outs (cs_closed s') gs" "concat gs = kept" "ce_NewWritableFile env (out_number out) = (st, f)"
    "map out_number (cs_outputs s') = map out_number (cs_outputs s) @ [vs_next_file_number vs]"
    "vs' = vs\<lparr>vs_next_file_number := vs_next_file_number vs + 1\<rparr>"
    using Open_output[OF s ws op ok] by blast
  let ?out = "out\<lparr>out_smallest := k, out_largest := k\<rparr>" and ?r = "new_TableBuilder opt W f"
  have n0: "tb_NumEntries ?r = 0" "tb_ok ?r" by (simp_all add: new_TableBuilder_def tb_NumEntries_def tb_ok_def Let_def)
  have s2: "cs_outputs (add_output S k v s') = outs @ [?out]" "cs_builder (add_output S k v s') = Some (tb_Add S k v ?r)"
    "cs_closed (add_output S k v s') = cs_closed s'"
    using o(1,2) n0 by (simp_all add: add_output_def Let_def update_current_def)
  have "open_output env S opt W ?out (tb_Add S k v ?r) [(k, v)]"
    using o(5) ok Add_count[OF n0(2), of S k v] n0(1) by (simp add: open_output_def)
  then have "writes env S opt W (add_output S k v s') (kept @ [(k, v)])"
    unfolding writes_def s2 option.case using o(3,4) by (intro exI[of _ outs] exI[of _ ?out] exI[of _ gs] exI[of _ "[(k, v)]"]) simp
  moreover have "map out_number (cs_outputs (add_output S k v s')) = map out_number (cs_outputs s) @ [vs_next_file_number vs]"
    using o(2,6) s2(1) by simp
  ultimately show ?thesis using w handed_out_snoc s2(2) by (simp add: out_state_def o(7))
qed

lemma keep_entry_state:
  assumes W: "appends_to W contents" and w: "out_state env S opt W g vs0 (s, vs) kept"
    and step: "keep_entry_in env S opt W m Status_OK k v (s, vs) = (st, s', vs')" and ok: "Status_ok st"
  shows "out_state env S opt W g vs0 (s', vs') (kept @ [(k, v)])"
proof -
  obtain st1 s1 vs1 where op: "(if cs_builder s = None then OpenCompactionOutputFile env opt W (s, vs) else (Status_OK, s, vs)) = (st1, s1, vs1)"
    by (metis prod_cases3)
  have ok1: "Status_ok st1" using step ok op by (auto simp: keep_entry_in_def split: if_splits)
  have added: "out_state env S opt W g vs0 (add_output S k v s1, vs1) (kept @ [(k, v)]) \<and> cs_builder (add_output S k v s1) \<noteq> None"
  proof (cases "cs_builder s = None")
    case False
    then have eq: "s1 = s" "vs1 = vs" using op by auto
    obtain r where r: "cs_builder s = Some r" using False by blast
    then show ?thesis using add_output_writes[OF W r, of env S opt kept k v] w unfolding eq by (simp add: out_state_def)
  next
    case True
    then show ?thesis using open_state[OF True W w _ ok1] op by simp
  qed
  show ?thesis
  proof (cases "tb_FileSize (the (cs_builder (add_output S k v s1))) \<ge> m")
    case True
    then have "FinishCompactionOutputFile env S Status_OK (add_output S k v s1) = (st, s')" "vs' = vs1"
      using step op ok1 by (auto simp: keep_entry_in_def Let_def split: prod.splits)
    then show ?thesis using finish_state[OF W _ _ _ ok] added by blast
  next
    case False
    then have "s' = add_output S k v s1" "vs' = vs1" using step op ok1 by (auto simp: keep_entry_in_def Let_def)
    then show ?thesis using added by simp
  qed
qed

section \<open>The loop\<close>

definition same_inputs :: "'p Compaction \<Rightarrow> 'p Compaction \<Rightarrow> bool" where
  "same_inputs c c' \<longleftrightarrow> c_level c' = c_level c \<and> c_input_version c' = c_input_version c \<and>
     c_max_output_file_size c' = c_max_output_file_size c \<and>
     c_inputs0 c' = c_inputs0 c \<and> c_inputs1 c' = c_inputs1 c \<and> c_edit c' = c_edit c"

lemma same_inputs_steps:
  "same_inputs c c' \<Longrightarrow> same_compaction c' c'' \<Longrightarrow> same_inputs c c''" "same_inputs c c' \<Longrightarrow> same_inputs c (c'\<lparr>c_level_ptrs := p\<rparr>)"
  by (simp_all add: same_inputs_def same_compaction_def)

lemma CompactionResults_same: "same_inputs c c' \<Longrightarrow> CompactionResults F outs c' = CompactionResults F outs c"
  by (simp add: CompactionResults_def AddInputDeletions_def same_inputs_def)

lemma finish_at:
  assumes W: "appends_to W contents" and w: "out_state env S opt W g vs0 (s, vs) kept"
    and fin: "compact_finish env S Status_OK (st0, stop) s = (st, s')" and ok: "Status_ok st"
  shows "Status_ok st0 \<and> \<not> stop \<and> out_state env S opt W g vs0 (s', vs) kept \<and> cs_builder s' = None"
proof -
  have ok0: "Status_ok st0" "\<not> stop" using fin ok by (auto simp: compact_finish_def Let_def IOError_def new_Status_def Status_OK_def split: if_splits)
  show ?thesis
  proof (cases "cs_builder s = None")
    case True
    then show ?thesis using fin ok0 w by (simp add: compact_finish_def)
  next
    case False
    obtain st1 s1 where f: "FinishCompactionOutputFile env S Status_OK s = (st1, s1)" by fastforce
    then have "s' = s1" "Status_ok st1" using fin ok0 ok False by (auto simp: compact_finish_def split: if_splits)
    then show ?thesis using finish_state[OF W False w f] ok0 by simp
  qed
qed

text \<open>The result of a compaction.\<close>

definition compacted ::
  "'w CompactEnv \<Rightarrow> Snappy \<Rightarrow> TableOptions \<Rightarrow> 'w WritableFile \<Rightarrow> ('p \<Rightarrow> FileMetaData) \<Rightarrow> (nat \<Rightarrow> 'p VersionSet \<Rightarrow> 'p VersionSet) \<Rightarrow>
   'p Compaction \<Rightarrow> 'p VersionSet \<Rightarrow> entries \<Rightarrow> ('w, 'p) WorkState \<Rightarrow> VersionEdit \<Rightarrow> bool" where
  "compacted env S opt W F g c vs kept w edit \<longleftrightarrow>
     (let s = ws_compact w in cs_builder s = None \<and>
        (\<exists>gs. outputs_hold env S opt W (cs_outputs s) (cs_closed s) gs \<and> concat gs = kept) \<and>
        same_inputs c (ws_compaction w) \<and> vs_user_comparator (ws_versions w) = vs_user_comparator vs \<and>
        (numbers_grow g \<longrightarrow> handed_out (vs_next_file_number vs) (vs_next_file_number (ws_versions w)) (map out_number (cs_outputs s))) \<and>
        edit = CompactionResults F (cs_outputs s) c)"

context user_comparator
begin

text \<open>The state before the entry \<open>i\<close>: \<open>c\<close> is the compaction at the start and \<open>vs\<close> the version set.\<close>

definition work_at ::
  "'w CompactEnv \<Rightarrow> Snappy \<Rightarrow> TableOptions \<Rightarrow> 'w WritableFile \<Rightarrow> ('p \<Rightarrow> FileMetaData) \<Rightarrow> SequenceNumber \<Rightarrow>
   (nat \<Rightarrow> 'p VersionSet \<Rightarrow> 'p VersionSet) \<Rightarrow> 'p Version \<Rightarrow> 'p Compaction \<Rightarrow> 'p VersionSet \<Rightarrow> entries \<Rightarrow> nat \<Rightarrow> ('w, 'p) WorkState \<Rightarrow> bool" where
  "work_at env S opt W F snap g v c vs kvs i w \<longleftrightarrow> drop_state kvs i (ws_drop w) \<and> same_inputs c (ws_compaction w) \<and>
     (0 < i \<longrightarrow> ptrs_behind F (v_files v) (c_level c) (ent_user kvs (i - 1)) (c_level_ptrs (ws_compaction w))) \<and>
     (i = 0 \<longrightarrow> (\<forall>lvl. c_level_ptrs (ws_compaction w) lvl = 0)) \<and>
     out_state env S opt W g vs (ws_compact w, ws_versions w) (kept_entries C snap (base_key C F (v_files v) (c_level c)) kvs i)"

lemma round_at:
  assumes W: "appends_to W contents" and a: "asc kvs" and k: "db_keys_ok kvs" and i: "i < length kvs" and s: "snap < kMaxSequenceNumber"
    and l: "version_levels F (v_files v)" and c: "c_input_version c = Some v" and vs: "vs_user_comparator vs = C"
    and w: "work_at env S opt W F snap g v c vs kvs i w"
    and step: "compact_round env S opt W F snap Status_OK (fst (kvs ! i)) (snd (kvs ! i)) w = (st, w')" and ok: "Status_ok st"
  shows "work_at env S opt W F snap g v c vs kvs (Suc i) w'"
proof -
  let ?k = "fst (kvs ! i)" and ?v = "snd (kvs ! i)" and ?base = "base_key C F (v_files v) (c_level c)"
  let ?K = "\<lambda>i. kept_entries C snap ?base kvs i"
  have o: "out_state env S opt W g vs (ws_compact w, ws_versions w) (?K i)" using w by (simp add: work_at_def)
  then have U: "vs_user_comparator (ws_versions w) = C"
    using vs by (auto simp: out_state_def)
  obtain stop c1 where c1: "ShouldStopBefore C (vs_max_file_size (ws_versions w)) F ?k (ws_compaction w) = (stop, c1)" by fastforce
  have sc: "same_compaction (ws_compaction w) c1" using ShouldStopBefore_same c1 by (metis snd_conv)
  obtain st1 s1 where s1: "(if stop \<and> cs_builder (ws_compact w) \<noteq> None
      then FinishCompactionOutputFile env S Status_OK (ws_compact w) else (Status_OK, ws_compact w)) = (st1, s1)" by fastforce
  have ok1: "Status_ok st1" using step ok s1 by (auto simp: compact_round_def U c1 Let_def split: if_splits)
  have o1: "out_state env S opt W g vs (s1, ws_versions w) (?K i)"
    using s1 o finish_state[OF W _ o _ ok1, of s1] by (auto split: if_splits)
  have si: "same_inputs c c1" using w same_inputs_steps(1)[OF _ sc] by (simp add: work_at_def)
  have c1v: "c_input_version c1 = Some v" "c_level c1 = c_level c" using si c by (simp_all add: same_inputs_def)
  have ptrs: "c_level_ptrs c1 = c_level_ptrs (ws_compaction w)" using sc by (simp add: same_compaction_def)
  obtain ds p where d: "drop_entry C F snap ?k (ws_drop w, c1) = (dropped C snap ?base kvs i, ds, c1\<lparr>c_level_ptrs := p\<rparr>)"
    "drop_state kvs (Suc i) ds" "ptrs_behind F (v_files v) (c_level c) (ent_user kvs i) p"
    using drop_entry_spec[OF a k i _ s l c1v(1), of "ws_drop w"] w unfolding work_at_def ptrs c1v(2) by blast
  show ?thesis
  proof (cases "dropped C snap ?base kvs i")
    case True
    then have "w' = w\<lparr>ws_compact := s1, ws_drop := ds, ws_compaction := c1\<lparr>c_level_ptrs := p\<rparr>\<rparr>"
      using step s1 ok1 d(1) by (auto simp: compact_round_def U c1 Let_def cong: if_cong)
    then show ?thesis using True o1 d(2,3) same_inputs_steps(2)[OF si] by (simp add: work_at_def kept_entries_Suc)
  next
    case False
    obtain st2 s2 vs2 where ke: "keep_entry_in env S opt W (c_max_output_file_size c1) Status_OK ?k ?v (s1, ws_versions w) = (st2, s2, vs2)"
      by (metis prod_cases3)
    have w': "st2 = st" "w' = w\<lparr>ws_drop := ds, ws_compaction := c1\<lparr>c_level_ptrs := p\<rparr>, ws_compact := s2, ws_versions := vs2\<rparr>"
      using step s1 ok1 d(1) False ke by (auto simp: compact_round_def U c1 Let_def cong: if_cong)
    have "out_state env S opt W g vs (s2, vs2) (?K i @ [(?k, ?v)])" using keep_entry_state[OF W o1 ke] ok w'(1) by simp
    then show ?thesis using w'(2) False d(2,3) same_inputs_steps(2)[OF si] by (simp add: work_at_def kept_entries_Suc)
  qed
qed

lemma loop_at:
  assumes it: "sorted_iterator I (ikc_Compare C) ikey_ok pos" and W: "appends_to W contents" and g: "keeps_comparator g" and k: "db_keys_ok kvs"
    and s: "snap < kMaxSequenceNumber" and l: "version_levels F (v_files v)" and c: "c_input_version c = Some v"
    and vs: "vs_user_comparator vs = C"
  shows "pos input kvs i \<Longrightarrow> work_at env S opt W F snap g v c vs kvs i w \<Longrightarrow>
    \<exists>st input' n' w' i'. compact_loop env S opt W F snap shut g I n input w = Some (st, input', n', w') \<and> pos input' kvs i' \<and>
      (Status_ok st \<longrightarrow> (i' = length kvs \<or> shut n') \<and> work_at env S opt W F snap g v c vs kvs i' w')"
proof (induction "length kvs - i" arbitrary: input i n w rule: less_induct)
  case less
  note at = less.prems(1)
  have a: "asc kvs" and b: "i \<le> length kvs" using sorted_iterator.ascending[OF it at] sorted_iterator.bound[OF it at] .
  have st: "it_status I input = Status_OK" using sorted_iterator.status[OF it at] .
  show ?case
  proof (cases "i < length kvs \<and> \<not> shut n")
    case False
    then have stop: "(it_Valid I input \<and> \<not> shut n) = False" using sorted_iterator.Valid[OF it at] by simp
    have "compact_loop env S opt W F snap shut g I n input w = Some (Status_OK, input, n, w)"
      by (subst compact_loop.simps) (simp only: stop if_False)
    then show ?thesis using at less.prems(2) False b by auto
  next
    case True
    then have i: "i < length kvs" and valid: "it_Valid I input \<and> \<not> shut n" using sorted_iterator.Valid[OF it at] by simp_all
    let ?w = "w\<lparr>ws_versions := g n (ws_versions w)\<rparr>"
    have at0: "work_at env S opt W F snap g v c vs kvs i ?w" using less.prems(2) interlude_state[OF g, of env S opt W vs "ws_compact w" "ws_versions w"]
      by (simp add: work_at_def)
    obtain st1 w1 where r: "compact_round env S opt W F snap Status_OK (fst (kvs ! i)) (snd (kvs ! i)) ?w = (st1, w1)" by fastforce
    have kv: "it_key I input = fst (kvs ! i)" "it_value I input = snd (kvs ! i)"
      using sorted_iterator.key[OF it at i] sorted_iterator.val[OF it at i] by simp_all
    show ?thesis
    proof (cases "Status_ok st1")
      case False
      then have "compact_loop env S opt W F snap shut g I n input w = Some (st1, input, n, w1)"
        using valid r kv st by (subst compact_loop.simps) simp
      then show ?thesis using at False by auto
    next
      case ok: True
      obtain input1 where nx: "it_Next I input = Some input1" "pos input1 kvs (Suc i)" using sorted_iterator.Next[OF it at i] by blast
      have "compact_loop env S opt W F snap shut g I n input w = compact_loop env S opt W F snap shut g I (n + 1) input1 w1"
        using valid r kv st ok nx(1) by (subst compact_loop.simps) simp
      moreover have "work_at env S opt W F snap g v c vs kvs (Suc i) w1" using round_at[OF W a k i s l c vs at0 r ok] .
      ultimately show ?thesis using less.hyps[of "Suc i" input1 w1 "n + 1"] nx(2) i by simp
    qed
  qed
qed

lemma DoCompactionWork_writes:
  assumes it: "sorted_iterator I (ikc_Compare C) ikey_ok pos" and p: "pos input kvs i" and W: "appends_to W contents" and g: "keeps_comparator g" and k: "db_keys_ok kvs"
    and s: "snap < kMaxSequenceNumber" and l: "version_levels F (v_files v)" and c: "c_input_version c = Some v" "c_level_ptrs c = (\<lambda>_. 0)"
    and vs: "vs_user_comparator vs = C"
  shows "\<exists>st w edit. DoCompactionWork env S opt W F snap shut g I input c vs = Some (st, w, edit) \<and>
    (Status_ok st \<longrightarrow> compacted env S opt W F g c vs (kept_entries C snap (base_key C F (v_files v) (c_level c)) kvs (length kvs)) w edit)"
proof -
  let ?kept = "kept_entries C snap (base_key C F (v_files v) (c_level c)) kvs (length kvs)"
  let ?w0 = "\<lparr>ws_compact = new_CompactionState, ws_drop = new_DropState, ws_compaction = c, ws_versions = vs\<rparr>"
  obtain input0 where f: "it_SeekToFirst I input = Some input0" "pos input0 kvs 0" using sorted_iterator.SeekToFirst[OF it p] by blast
  have "out_state env S opt W g vs (new_CompactionState, vs) []"
    by (simp add: out_state_def writes_def new_CompactionState_def handed_out_def) (rule exI[of _ "[]"], simp)
  then have w0: "work_at env S opt W F snap g v c vs kvs 0 ?w0"
    using c(2) by (simp add: work_at_def drop_state_def same_inputs_def kept_entries_def)
  obtain st input' n w i' where r: "compact_loop env S opt W F snap shut g I 0 input0 ?w0 = Some (st, input', n, w)" "pos input' kvs i'"
    "Status_ok st \<longrightarrow> (i' = length kvs \<or> shut n) \<and> work_at env S opt W F snap g v c vs kvs i' w"
    using loop_at[OF it W g k s l c(1) vs f(2) w0, of shut 0] by blast
  have ist: "it_status I input' = Status_OK" using sorted_iterator.status[OF it r(2)] .
  obtain st1 s1 where cf: "compact_finish env S Status_OK (st, shut n) (ws_compact w) = (st1, s1)" by fastforce
  have D: "DoCompactionWork env S opt W F snap shut g I input c vs = Some (st1, w\<lparr>ws_compact := s1\<rparr>,
      if Status_ok st1 then CompactionResults F (cs_outputs s1) (ws_compaction w) else c_edit (ws_compaction w))"
    using f(1) r(1) ist cf by (simp add: DoCompactionWork_def Let_def)
  have "compacted env S opt W F g c vs ?kept (w\<lparr>ws_compact := s1\<rparr>) (CompactionResults F (cs_outputs s1) (ws_compaction w))" if ok: "Status_ok st1"
  proof -
    have "Status_ok st" "\<not> shut n" using cf ok by (auto simp: compact_finish_def Let_def IOError_def new_Status_def Status_OK_def split: if_splits)
    then have at: "i' = length kvs" "work_at env S opt W F snap g v c vs kvs i' w" using r(3) by auto
    have si: "same_inputs c (ws_compaction w)" and o: "out_state env S opt W g vs (ws_compact w, ws_versions w) ?kept"
      using at by (simp_all add: work_at_def)
    have "out_state env S opt W g vs (s1, ws_versions w) ?kept \<and> cs_builder s1 = None" using finish_at[OF W o cf ok] by blast
    then show ?thesis using si CompactionResults_same[OF si] by (auto simp: compacted_def out_state_def writes_def)
  qed
  then show ?thesis using D by auto
qed

end

section \<open>When nothing fails\<close>

definition never_fails :: "'w WritableFile \<Rightarrow> bool" where
  "never_fails W \<longleftrightarrow> (\<forall>s f. Status_ok (fst (wf_Append W s f)) \<and> Status_ok (fst (wf_Flush W f)))"

definition env_fine :: "'w CompactEnv \<Rightarrow> bool" where
  "env_fine env \<longleftrightarrow> (\<forall>n. Status_ok (fst (ce_NewWritableFile env n))) \<and> (\<forall>f. Status_ok (fst (ce_Sync env f)) \<and> Status_ok (fst (ce_Close env f))) \<and>
     (\<forall>n size. Status_ok (ce_usable env n size))"

definition fine :: "'w TableBuilder \<Rightarrow> bool" where
  "fine r \<longleftrightarrow> tb_ok r \<and> never_fails (tb_ops r)"

lemma fine_updates [simp]:
  "fine (r\<lparr>tb_data_block := b\<rparr>) = fine r" "fine (r\<lparr>tb_index_block := b\<rparr>) = fine r" "fine (r\<lparr>tb_pending_handle := h\<rparr>) = fine r"
  "fine (r\<lparr>tb_pending_index_entry := p\<rparr>) = fine r" "fine (r\<lparr>tb_filter_block := fb\<rparr>) = fine r" "fine (r\<lparr>tb_last_key := k\<rparr>) = fine r"
  "fine (r\<lparr>tb_num_entries := n\<rparr>) = fine r" "fine (r\<lparr>tb_closed := cl\<rparr>) = fine r" "fine (r\<lparr>tb_file := f\<rparr>) = fine r"
  "fine (r\<lparr>tb_offset := off\<rparr>) = fine r"
  by (simp_all add: fine_def tb_ok_def)

lemma fine_raw: "fine r \<Longrightarrow> WriteRawBlock d t r = (h, r') \<Longrightarrow> fine r'"
  by (auto simp: WriteRawBlock_def Let_def fine_def tb_ok_def never_fails_def split: prod.splits if_splits) (metis fst_conv)+

lemma fine_block: "fine r \<Longrightarrow> WriteBlock S b r = (b', h, r') \<Longrightarrow> fine r'"
  using fine_raw by (fastforce simp: WriteBlock_def split: prod.splits)

lemma fine_Flush: "fine r \<Longrightarrow> fine (tb_Flush S r)"
proof -
  assume r: "fine r"
  obtain b h r1 where w: "WriteBlock S (tb_data_block r) r = (b, h, r1)" by (metis prod_cases3)
  have r1: "fine r1" using fine_block[OF r w] .
  obtain s f where f: "wf_Flush (tb_ops r1) (tb_file r1) = (s, f)" by fastforce
  have "Status_ok s" using r1 f unfolding fine_def never_fails_def by (metis fst_conv)
  then have "fine (r1\<lparr>tb_status := s\<rparr>)" using r1 by (simp add: fine_def tb_ok_def)
  moreover have "fine (r1\<lparr>tb_pending_index_entry := True, tb_file := f, tb_status := s, tb_filter_block := fb\<rparr>) = fine (r1\<lparr>tb_status := s\<rparr>)" for fb
    by (simp add: fine_def tb_ok_def)
  ultimately show ?thesis using r r1 f w by (simp add: tb_Flush_def Let_def fine_def tb_ok_def)
qed

lemma fine_Add: "fine r \<Longrightarrow> fine (tb_Add S k v r)"
  by (simp add: tb_Add_def Let_def add_index_entry_def fine_Flush)

lemma fine_Finish: "fine r \<Longrightarrow> tb_Finish S r = (st, r') \<Longrightarrow> Status_ok st"
proof -
  assume r: "fine r" and fin: "tb_Finish S r = (st, r')"
  define r1 where "r1 = (tb_Flush S r)\<lparr>tb_closed := True\<rparr>"
  obtain fh r2 where s2: "write_filter_block r1 = (fh, r2)" by fastforce
  obtain mh r3 where s3: "write_metaindex_block S fh r2 = (mh, r3)" by fastforce
  obtain ih r4 where s4: "write_index_block S r3 = (ih, r4)" by fastforce
  have r1: "fine r1" using fine_Flush[OF r, of S] by (simp add: r1_def)
  have r2: "fine r2" using r1 s2 by (auto simp: write_filter_block_def dest!: fine_raw[rotated] split: option.splits if_splits prod.splits)
  have r3: "fine r3" using r2 s3 by (auto simp: write_metaindex_block_def Let_def dest!: fine_block[rotated] split: if_splits prod.splits)
  have r4: "fine r4" using r3 s4 by (auto simp: write_index_block_def Let_def add_index_entry_def dest!: fine_block[rotated] split: if_splits prod.splits)
  obtain s f where f: "wf_Append (tb_ops r4) (Footer_EncodeTo \<lparr>ft_metaindex_handle = mh, ft_index_handle = ih\<rparr> []) (tb_file r4) = (s, f)" by fastforce
  have "Status_ok s" using r4 f unfolding fine_def never_fails_def by (metis fst_conv)
  then have "tb_ok (write_footer mh ih r4)" using r4 f by (simp add: write_footer_def fine_def tb_ok_def Let_def)
  then show ?thesis using fin by (simp add: tb_Finish_def Let_def r1_def[symmetric] s2 s3 s4 tb_ok_def)
qed

definition builder_fine :: "'w CompactionState \<Rightarrow> bool" where
  "builder_fine s \<longleftrightarrow> (\<forall>r. cs_builder s = Some r \<longrightarrow> fine r)"

lemma Finish_fine:
  assumes e: "env_fine env" and s: "builder_fine s" "cs_builder s \<noteq> None" and fin: "FinishCompactionOutputFile env S Status_OK s = (st, s')"
  shows "Status_ok st \<and> builder_fine s'"
proof -
  obtain r where r: "cs_builder s = Some r" "fine r" using s by (auto simp: builder_fine_def)
  obtain st1 r1 where r1: "tb_Finish S r = (st1, r1)" by fastforce
  obtain st2 f2 where f2: "ce_Sync env (tb_file r1) = (st2, f2)" by fastforce
  obtain st3 f3 where f3: "ce_Close env f2 = (st3, f3)" by fastforce
  have "st1 = Status_OK" using fine_Finish[OF r(2) r1] by simp
  moreover have "st2 = Status_OK" "st3 = Status_OK" "ce_usable env n m = Status_OK" for n m
    using e f2 f3 unfolding env_fine_def status_errors by (metis fst_conv)+
  ultimately show ?thesis using fin r(1) r1 f2 f3 by (auto simp: FinishCompactionOutputFile_def Let_def builder_fine_def)
qed

lemma keep_fine:
  assumes W: "never_fails W" and e: "env_fine env" and s: "builder_fine s"
    and step: "keep_entry_in env S opt W m Status_OK k v (s, vs) = (st, s', vs')"
  shows "Status_ok st \<and> builder_fine s'"
proof -
  obtain st1 s1 vs1 where op: "(if cs_builder s = None then OpenCompactionOutputFile env opt W (s, vs) else (Status_OK, s, vs)) = (st1, s1, vs1)"
    by (metis prod_cases3)
  have "fine (new_TableBuilder opt W f)" for f using W by (simp add: fine_def tb_ok_def new_TableBuilder_def Let_def)
  moreover have "Status_ok (fst (ce_NewWritableFile env n))" for n using e by (simp add: env_fine_def)
  ultimately have s1: "st1 = Status_OK" "\<exists>r. cs_builder s1 = Some r \<and> fine r"
    using op s by (auto simp: OpenCompactionOutputFile_def NewFileNumber_def Let_def builder_fine_def split: if_splits prod.splits) (metis fst_conv)+
  then obtain r where r: "cs_builder s1 = Some r" "fine r" by blast
  have a: "cs_builder (add_output S k v s1) = Some (tb_Add S k v r)" using r(1) by (simp add: add_output_def Let_def)
  then have "builder_fine (add_output S k v s1)" "cs_builder (add_output S k v s1) \<noteq> None"
    using fine_Add[OF r(2)] by (simp_all add: builder_fine_def)
  then show ?thesis using step op s1(1) Finish_fine[OF e, of "add_output S k v s1" S]
    by (auto simp: keep_entry_in_def Let_def split: prod.splits if_splits)
qed

lemma round_fine:
  assumes W: "never_fails W" and e: "env_fine env" and w: "builder_fine (ws_compact w)"
    and step: "compact_round env S opt W F snap Status_OK k v w = (st, w')"
  shows "Status_ok st \<and> builder_fine (ws_compact w')"
proof -
  let ?U = "vs_user_comparator (ws_versions w)"
  obtain stop c1 where c1: "ShouldStopBefore ?U (vs_max_file_size (ws_versions w)) F k (ws_compaction w) = (stop, c1)" by fastforce
  obtain st1 s1 where s1: "(if stop \<and> cs_builder (ws_compact w) \<noteq> None
      then FinishCompactionOutputFile env S Status_OK (ws_compact w) else (Status_OK, ws_compact w)) = (st1, s1)" by fastforce
  have ok1: "st1 = Status_OK" "builder_fine s1"
    using s1 w Finish_fine[OF e w, of S st1 s1] by (auto split: if_splits)
  obtain drop ds c2 where d: "drop_entry ?U F snap k (ws_drop w, c1) = (drop, ds, c2)" by (metis prod_cases3)
  obtain st2 s2 vs2 where ke: "keep_entry_in env S opt W (c_max_output_file_size c2) Status_OK k v (s1, ws_versions w) = (st2, s2, vs2)"
    by (metis prod_cases3)
  have "Status_ok st2 \<and> builder_fine s2" using keep_fine[OF W e ok1(2) ke] .
  then show ?thesis using step c1 s1 ok1 d ke by (cases drop) (auto simp: compact_round_def Let_def cong: if_cong)
qed

lemma finish_fine:
  assumes "env_fine env" "builder_fine s" and fin: "compact_finish env S Status_OK (Status_OK, False) s = (st, s')"
  shows "Status_ok st"
  using Finish_fine[OF assms(1,2)] fin by (auto simp: compact_finish_def split: if_splits prod.splits)

context user_comparator
begin

lemma loop_fine:
  assumes it: "sorted_iterator I (ikc_Compare C) ikey_ok pos" and W: "never_fails W" and e: "env_fine env"
  shows "pos input kvs i \<Longrightarrow> builder_fine (ws_compact w) \<Longrightarrow>
    \<exists>input' n' w' i'. compact_loop env S opt W F snap (\<lambda>_. False) g I n input w = Some (Status_OK, input', n', w') \<and> pos input' kvs i' \<and>
      builder_fine (ws_compact w')"
proof (induction "length kvs - i" arbitrary: input i n w rule: less_induct)
  case less
  note p = less.prems(1)
  have st: "it_status I input = Status_OK" using sorted_iterator.status[OF it p] .
  show ?case
  proof (cases "i < length kvs")
    case False
    then have "\<not> it_Valid I input" using sorted_iterator.Valid[OF it p] by simp
    then show ?thesis using less.prems by (subst compact_loop.simps) auto
  next
    case i: True
    then have valid: "it_Valid I input" using sorted_iterator.Valid[OF it p] by simp
    let ?w = "w\<lparr>ws_versions := g n (ws_versions w)\<rparr>"
    obtain st1 w1 where r: "compact_round env S opt W F snap Status_OK (it_key I input) (it_value I input) ?w = (st1, w1)" by fastforce
    have "builder_fine (ws_compact ?w)" using less.prems(2) by simp
    then have ok: "st1 = Status_OK" "builder_fine (ws_compact w1)" using round_fine[OF W e _ r] by simp_all
    obtain input1 where nx: "it_Next I input = Some input1" "pos input1 kvs (Suc i)" using sorted_iterator.Next[OF it p i] by blast
    have "compact_loop env S opt W F snap (\<lambda>_. False) g I n input w = compact_loop env S opt W F snap (\<lambda>_. False) g I (n + 1) input1 w1"
      using valid r st ok nx(1) by (subst compact_loop.simps) simp
    then show ?thesis using less.hyps[of "Suc i" input1 w1 "n + 1"] nx(2) i ok(2) by simp
  qed
qed

lemma DoCompactionWork_succeeds:
  assumes it: "sorted_iterator I (ikc_Compare C) ikey_ok pos" and p: "pos input kvs i" and W: "never_fails W" and e: "env_fine env"
    and D: "DoCompactionWork env S opt W F snap (\<lambda>_. False) g I input c vs = Some (st, w, edit)"
  shows "Status_ok st"
proof -
  let ?w0 = "\<lparr>ws_compact = new_CompactionState, ws_drop = new_DropState, ws_compaction = c, ws_versions = vs\<rparr>"
  obtain input0 where f: "it_SeekToFirst I input = Some input0" "pos input0 kvs 0" using sorted_iterator.SeekToFirst[OF it p] by blast
  have "builder_fine (ws_compact ?w0)" by (simp add: builder_fine_def new_CompactionState_def)
  then obtain input' n w' i' where r: "compact_loop env S opt W F snap (\<lambda>_. False) g I 0 input0 ?w0 = Some (Status_OK, input', n, w')"
    "pos input' kvs i'" "builder_fine (ws_compact w')" using loop_fine[OF it W e f(2)] by blast
  have ist: "it_status I input' = Status_OK" using sorted_iterator.status[OF it r(2)] .
  obtain st1 s1 where cf: "compact_finish env S Status_OK (Status_OK, False) (ws_compact w') = (st1, s1)" by fastforce
  have "st = st1" using D f(1) r(1) ist cf by (simp add: DoCompactionWork_def Let_def)
  then show ?thesis using finish_fine[OF e r(3) cf] by simp
qed

end

end
