(* ===== verification/Ldb_Version_Results.thy ===== *)
theory Ldb_Version_Results
  imports Ldb_Compact_Work
begin

text \<open>
  Properties of versions and compactions: the files of a range, the level for a new table, the inputs that are chosen, the entries that the work writes and keeps
  readable at every snapshot in use, and the case in which a deleted value comes back.
\<close>

section \<open>The level for a new table\<close>

context user_comparator
begin

definition level_clear :: "('f \<Rightarrow> FileMetaData) \<Rightarrow> (nat \<Rightarrow> 'f list) \<Rightarrow> slice \<Rightarrow> slice \<Rightarrow> nat \<Rightarrow> bool" where
  "level_clear F files small large l \<longleftrightarrow> (\<forall>f \<in> set (files l). \<not> in_range C (Some small) (Some large) (F f))"

lemma OverlapInLevel_exact:
  assumes "version_levels F (v_files v)" "key_ok small" "key_ok large" "l < kNumLevels"
  shows "OverlapInLevel C F v l (Some small) (Some large) = Some (\<not> level_clear F (v_files v) small large l)"
proof -
  have "SomeFileOverlapsRange C (l > 0) F (v_files v l) (Some small) (Some large) =
      Some (\<exists>f \<in> set (v_files v l). in_range C (Some small) (Some large) (F f))"
    using assms by (intro SomeFileOverlapsRange_exact) (auto simp: version_levels_def range_ok_def)
  then show ?thesis by (simp add: OverlapInLevel_def level_clear_def)
qed

lemma pick_level_loop_clear:
  assumes l: "version_levels F (v_files v)" and k: "key_ok small" "key_ok large"
  shows "level + n \<le> kMaxMemCompactLevel \<Longrightarrow> \<forall>l' \<le> level. level_clear F (v_files v) small large l' \<Longrightarrow>
    \<exists>r. pick_level_loop C mx F v small large n level = Some r \<and> level \<le> r \<and> r \<le> level + n \<and>
      (\<forall>l' \<le> r. level_clear F (v_files v) small large l')"
proof (induction n arbitrary: level)
  case (Suc n)
  have lt: "level + 1 < kNumLevels" using Suc.prems(1) by (simp add: kMaxMemCompactLevel_def kNumLevels_def)
  note o = OverlapInLevel_exact[OF l k lt]
  show ?case
  proof (cases "level_clear F (v_files v) small large (level + 1)")
    case False
    then show ?thesis using o Suc.prems by auto
  next
    case True
    then have clear: "\<forall>l' \<le> level + 1. level_clear F (v_files v) small large l'" using Suc.prems(2) le_Suc_eq by auto
    obtain r where r: "pick_level_loop C mx F v small large n (level + 1) = Some r" "level + 1 \<le> r" "r \<le> level + 1 + n"
      "\<forall>l' \<le> r. level_clear F (v_files v) small large l'"
      using Suc.IH[OF _ clear] Suc.prems(1) by auto
    show ?thesis using o True r Suc.prems(2) by (auto simp: GetOverlappingInputs_sorted)
  qed
qed simp

lemma PickLevel_clear:
  assumes l: "version_levels F (v_files v)" and k: "key_ok small" "key_ok large"
  shows "\<exists>r. PickLevelForMemTableOutput C mx F v small large = Some r \<and> r \<le> kMaxMemCompactLevel \<and>
    (r \<noteq> 0 \<longrightarrow> (\<forall>l' \<le> r. level_clear F (v_files v) small large l'))"
proof -
  have z: "0 < kNumLevels" by (simp add: kNumLevels_def)
  show ?thesis
  proof (cases "level_clear F (v_files v) small large 0")
    case True
    then show ?thesis using OverlapInLevel_exact[OF l k z] pick_level_loop_clear[OF l k, of 0 kMaxMemCompactLevel mx]
      by (force simp: PickLevelForMemTableOutput_def)
  next
    case False
    then show ?thesis using OverlapInLevel_exact[OF l k z] by (simp add: PickLevelForMemTableOutput_def)
  qed
qed

end

context user_comparator
begin

lemma filled_keys:
  assumes "version_filled F files K"
  shows "\<forall>e \<in> version_entries files K. key_ok (ExtractUserKey (fst e)) \<and> ParseInternalKey (fst e) \<noteq> None"
  using assms by (fastforce simp: version_entries_def version_filled_def file_covers_def db_keys_ok_def ascending_def)

end

section \<open>Properties\<close>

text \<open>C12. The files of a range. In level 0 \<^verbatim>\<open>GetOverlappingInputs\<close> returns, and its result is the least set of files that contains
  every file with a user key in the range and every file that overlaps one of the set: the loop that starts again with a wider range ends. In the other
  levels it returns exactly the files with a key in the range.\<close>

theorem overlapping_inputs:
  assumes U: "user_comparator U uok" and ok: "user_comparator.version_levels U uok F files" "level < kNumLevels"
    and b: "user_comparator.range_ok uok (map_option ExtractUserKey b)" and e: "user_comparator.range_ok uok (map_option ExtractUserKey e)"
  shows "\<exists>R. GetOverlappingInputs U F files level b e = Some R \<and>
    (if level = 0 then user_comparator.least_overlap U F (files 0) (map_option ExtractUserKey b) (map_option ExtractUserKey e) R
     else R = filter (\<lambda>f. in_range U (map_option ExtractUserKey b) (map_option ExtractUserKey e) (F f)) (files level))"
proof (cases "level = 0")
  case True
  have "\<forall>f \<in> set (files 0). user_comparator.file_ok U uok (F f)"
    using user_comparator.level_files_ok(1)[OF U ok] True by blast
  then show ?thesis using user_comparator.GetOverlappingInputs_level0[OF U _ b e] True by simp
next
  case False
  then show ?thesis using user_comparator.GetOverlappingInputs_sorted[OF U False] by simp
qed

text \<open>C13. The table of a memtable. \<^verbatim>\<open>PickLevelForMemTableOutput\<close> returns a level of at most 2. Unless it is 0, no file of this level and of the
  levels above it has a key in the range of the table, so the newer entries stay above the older ones.\<close>

theorem memtable_output_level:
  assumes U: "user_comparator U uok" and l: "user_comparator.version_levels U uok F (v_files v)" and k: "uok small" "uok large"
  shows "\<exists>r. PickLevelForMemTableOutput U mx F v small large = Some r \<and> r \<le> 2 \<and>
    (r \<noteq> 0 \<longrightarrow> (\<forall>l \<le> r. \<forall>f \<in> set (v_files v l). \<not> in_range U (Some small) (Some large) (F f)))"
  using user_comparator.PickLevel_clear[OF U l k, of mx]
  by (auto simp: user_comparator.level_clear_def[OF U] kMaxMemCompactLevel_def)

text \<open>C11. The inputs of a compaction. In a version that \<^verbatim>\<open>Finalize\<close> scored, \<^verbatim>\<open>PickCompaction\<close> returns; it chooses a compaction exactly when
  one is needed. Its inputs of the level are such that every file that stays in the level holds only newer entries of their keys: in level 0 they are closed under
  overlapping, in the other levels they are neighbours, and the file behind them does not share the last user key. Its
  inputs of the next level are exactly the files with a key in the range of the first.\<close>

theorem pick_compaction:
  assumes U: "user_comparator U uok" and l: "user_comparator.version_levels U uok F (v_files v)"
    and v: "vs_current vs = v" "vs_user_comparator vs = U"
    and fin: "v_compaction_score v = v_compaction_score (Finalize F v)" "v_compaction_level v = v_compaction_level (Finalize F v)"
    and seek: "\<forall>f. v_file_to_compact v = Some f \<longrightarrow>
      nat (v_file_to_compact_level v) + 1 < kNumLevels \<and> f \<in> set (v_files v (nat (v_file_to_compact_level v)))"
  shows "\<exists>c vs'. PickCompaction F vs = Some (c, vs') \<and> vs_current vs' = v \<and> (c = None \<longleftrightarrow> \<not> NeedsCompaction vs) \<and>
    (\<forall>c'. c = Some c' \<longrightarrow> user_comparator.compaction_ok U F v c')"
proof -
  have "user_comparator.may_pick U vs"
    using v seek Finalize_level[of F v] unfolding user_comparator.may_pick_def[OF U] by (auto simp: Let_def fin)
  then obtain c vs' where c: "PickCompaction F vs = Some (c, vs')" "vs_current vs' = v"
    "case c of None \<Rightarrow> \<not> NeedsCompaction vs | Some c \<Rightarrow> user_comparator.compaction_ok U F v c"
    using user_comparator.PickCompaction_ok[OF U l v(1)] by blast
  moreover have "NeedsCompaction vs" if "c = Some c'" for c'
    using c(1) that unfolding PickCompaction_def pick_file_def NeedsCompaction_def
    by (auto simp: Let_def split: if_splits option.splits)
  ultimately show ?thesis by (cases c) auto
qed

text \<open>C10. The work of a compaction ends, for every iterator that runs over the inputs in order. When its status is good, the output files hold
  exactly the entries that are not dropped, in order, each file a table the builder finished that describes its first and last key and its size, and
  the edit removes the inputs and adds the outputs. The version set may change before every entry, by the memtable that is written then or
  by other threads, as long as its comparator stays; if these give no file number back, the outputs have ascending numbers below the next one, unless one has the largest of all
  numbers. The status is good when no file operation fails and the database is not shut down.\<close>

theorem compaction_work:
  assumes U: "user_comparator U uok" and it: "sorted_iterator I (ikc_Compare U) (\<lambda>k. 8 \<le> length k \<and> uok (ExtractUserKey k)) pos" and p: "pos input kvs i"
    and W: "appends_to W contents" and k: "db_keys_ok kvs" and s: "snap < kMaxSequenceNumber"
    and l: "user_comparator.version_levels U uok F (v_files v)" and c: "c_input_version c = Some v" "c_level_ptrs c = (\<lambda>_. 0)"
    and vs: "vs_user_comparator vs = U" and g: "keeps_comparator g"
  shows "\<exists>st w edit. DoCompactionWork env S opt W F snap shut g I input c vs = Some (st, w, edit) \<and>
    (Status_ok st \<longrightarrow> compacted env S opt W F g c vs (kept_entries U snap (base_key U F (v_files v) (c_level c)) kvs (length kvs)) w edit) \<and>
    (never_fails W \<and> env_fine env \<and> (\<forall>n. \<not> shut n) \<longrightarrow> Status_ok st)"
proof -
  obtain st w edit where D: "DoCompactionWork env S opt W F snap shut g I input c vs = Some (st, w, edit)"
    "Status_ok st \<longrightarrow> compacted env S opt W F g c vs (kept_entries U snap (base_key U F (v_files v) (c_level c)) kvs (length kvs)) w edit"
    using user_comparator.DoCompactionWork_writes[OF U it p W g k s l c vs] by blast
  moreover have "Status_ok st" if "never_fails W \<and> env_fine env \<and> (\<forall>n. \<not> shut n)"
  proof -
    have "shut = (\<lambda>_. False)" using that by auto
    then show ?thesis using user_comparator.DoCompactionWork_succeeds[OF U it p] D(1) that by blast
  qed
  ultimately show ?thesis by blast
qed

text \<open>C9. A compaction changes no read. The inputs are those that the choice of a compaction gives for a version whose levels are sorted and newer than the
  levels below them, and no input of the next level ends with the user key with which the file behind it begins. When the work succeeds, whatever
  other threads did to the version set meanwhile as long as its comparator stays, a
  read at the oldest snapshot in use or later finds in the output files, the files that are left and the memtables
  exactly the entry it found before.\<close>

theorem compaction_safe:
  assumes U: "user_comparator U uok" and it: "sorted_iterator I (ikc_Compare U) (\<lambda>k. 8 \<le> length k \<and> uok (ExtractUserKey k)) pos"
    and p: "pos input kvs i" and W: "appends_to W contents" and k: "db_keys_ok kvs" and s: "snap < kMaxSequenceNumber"
    and l: "user_comparator.version_levels U uok F (v_files v)" and filled: "user_comparator.version_filled U uok F (v_files v) K"
    and newer: "version_newer U F (v_files v) K" and ok: "user_comparator.compaction_ok U F v c" and z: "c_level_ptrs c = (\<lambda>_. 0)"
    and split: "user_comparator.no_split U F (v_files v (c_level c + 1)) (c_inputs1 c)"
    and kvs: "set kvs = input_entries K (c_inputs0 c) (c_inputs1 c)" and M: "user_comparator.newer_set U uok (v_files v) K M"
    and vs: "vs_user_comparator vs = U" and g: "keeps_comparator g"
    and D: "DoCompactionWork env S opt W F snap shut g I input c vs = Some (st, w, edit)" and fine: "Status_ok st"
  shows "\<exists>gs. outputs_hold env S opt W (cs_outputs (ws_compact w)) (cs_closed (ws_compact w)) gs \<and>
    (\<forall>t \<ge> snap. \<forall>key val.
       newest_at U t (set (concat gs) \<union> left_behind K (v_files v) (c_level c) (c_inputs0 c) (c_inputs1 c) \<union> M) key val \<longleftrightarrow>
       newest_at U t (version_entries (v_files v) K \<union> M) key val)"
proof -
  let ?base = "base_key U F (v_files v) (c_level c)" and ?R = "left_behind K (v_files v) (c_level c) (c_inputs0 c) (c_inputs1 c)"
  obtain rg where lev: "c_level c + 1 < kNumLevels" and c: "c_input_version c = Some v"
    and ch: "user_comparator.chosen_ok U F (v_files v) (c_level c) rg (c_inputs0 c) (c_inputs1 c)"
    using ok user_comparator.compaction_ok_def[OF U, of F v c] by blast
  have "compacted env S opt W F g c vs (kept_entries U snap ?base kvs (length kvs)) w edit"
    using user_comparator.DoCompactionWork_writes[OF U it p W g k s l c z vs, of env S opt shut] D fine by auto
  then obtain gs where gs: "outputs_hold env S opt W (cs_outputs (ws_compact w)) (cs_closed (ws_compact w)) gs"
    "concat gs = kept_entries U snap ?base kvs (length kvs)" by (auto simp: compacted_def Let_def)
  have a: "ascending (ikc_Compare U) (\<lambda>k. 8 \<le> length k \<and> uok (ExtractUserKey k)) kvs" using sorted_iterator.ascending[OF it p] .
  note old = user_comparator.left_older_is_deeper[OF U l lev filled newer ch split kvs M]
  have view: "newest_at U t (set (concat gs) \<union> (?R \<union> M)) key val \<longleftrightarrow> newest_at U t (set kvs \<union> (?R \<union> M)) key val" if "snap \<le> t" for t key val
    using user_comparator.compaction_view[OF U a k old that] unfolding gs(2) .
  have all: "set kvs \<union> (?R \<union> M) = version_entries (v_files v) K \<union> M"
    using user_comparator.version_split[OF U l lev ch, of K] kvs by blast
  show ?thesis using gs(1) view[unfolded all] unfolding sup_assoc by blast
qed

text \<open>C14. A deleted value can come back. The work of a compaction succeeds, its inputs chosen as the code chooses them. Among the inputs
  is a deletion that every snapshot in use includes, of a user key no level below the next one has in the range of a file; an older value of the key is in a
  file that stays behind. For a snapshot in use, the deletion is the newest entry of the key that it includes, and the value the newest of those that stay behind.
  Then a read of the key at this snapshot finds nothing before the compaction, and finds the value afterwards: the deletion
  is dropped, and the value it hid is left. \<^verbatim>\<open>SetupOtherInputs\<close> adds the files behind its inputs that begin with their last user key to the inputs
  of the level only, and not to those of the next level; the witness runs it on such a version, all of whose levels are sorted and newer than the next.\<close>

theorem deleted_value_returns:
  assumes U: "user_comparator U uok" and it: "sorted_iterator I (ikc_Compare U) (\<lambda>k. 8 \<le> length k \<and> uok (ExtractUserKey k)) pos"
    and p: "pos input kvs i" and W: "appends_to W contents" and k: "db_keys_ok kvs" and s: "snap < kMaxSequenceNumber"
    and l: "user_comparator.version_levels U uok F (v_files v)" and filled: "user_comparator.version_filled U uok F (v_files v) K"
    and ok: "user_comparator.compaction_ok U F v c" and z: "c_level_ptrs c = (\<lambda>_. 0)"
    and kvs: "set kvs = input_entries K (c_inputs0 c) (c_inputs1 c)" and vs: "vs_user_comparator vs = U" and g: "keeps_comparator g"
    and D: "DoCompactionWork env S opt W F snap shut g I input c vs = Some (st, w, edit)" and fine: "Status_ok st"
    and del: "(kd, vd) \<in> set kvs" "ParseInternalKey kd = Some pd" "vtype pd = kTypeDeletion" "sequence pd \<le> snap"
    and base: "base_key U F (v_files v) (c_level c) (user_key pd)"
    and old: "(ko, vo) \<in> left_behind K (v_files v) (c_level c) (c_inputs0 c) (c_inputs1 c)" "ParseInternalKey ko = Some po" "vtype po = kTypeValue"
      "Compare U (user_key po) (user_key pd) = 0" "key_num ko < key_num kd"
    and t: "snap \<le> t" and top: "none_newer U t (version_entries (v_files v) K) (user_key pd) kd"
    and left: "none_newer U t (left_behind K (v_files v) (c_level c) (c_inputs0 c) (c_inputs1 c)) (user_key pd) ko"
  shows "(\<nexists>key val. Compare U (ExtractUserKey key) (user_key pd) = 0 \<and> newest_at U t (version_entries (v_files v) K) key val) \<and>
    (\<exists>gs. outputs_hold env S opt W (cs_outputs (ws_compact w)) (cs_closed (ws_compact w)) gs \<and>
       newest_at U t (set (concat gs) \<union> left_behind K (v_files v) (c_level c) (c_inputs0 c) (c_inputs1 c)) ko vo)"
proof -
  let ?base = "base_key U F (v_files v) (c_level c)" and ?R = "left_behind K (v_files v) (c_level c) (c_inputs0 c) (c_inputs1 c)"
  obtain rg where lev: "c_level c + 1 < kNumLevels" and c: "c_input_version c = Some v"
    and ch: "user_comparator.chosen_ok U F (v_files v) (c_level c) rg (c_inputs0 c) (c_inputs1 c)"
    using ok user_comparator.compaction_ok_def[OF U, of F v c] by blast
  have "compacted env S opt W F g c vs (kept_entries U snap ?base kvs (length kvs)) w edit"
    using user_comparator.DoCompactionWork_writes[OF U it p W g k s l c z vs, of env S opt shut] D fine by auto
  then obtain gs where gs: "outputs_hold env S opt W (cs_outputs (ws_compact w)) (cs_closed (ws_compact w)) gs"
    "concat gs = kept_entries U snap ?base kvs (length kvs)" by (auto simp: compacted_def Let_def)
  have a: "ascending (ikc_Compare U) (\<lambda>k. 8 \<le> length k \<and> uok (ExtractUserKey k)) kvs" using sorted_iterator.ascending[OF it p] .
  have all: "set kvs \<union> ?R = version_entries (v_files v) K" using user_comparator.version_split[OF U l lev ch, of K] kvs by blast
  have keys: "\<forall>e \<in> version_entries (v_files v) K. uok (ExtractUserKey (fst e)) \<and> ParseInternalKey (fst e) \<noteq> None"
    using user_comparator.filled_keys[OF U filled] .
  then have "\<forall>e \<in> ?R. uok (ExtractUserKey (fst e))" using all by blast
  moreover have "(ko, vo) \<in> version_entries (v_files v) K" using old(1) all by blast
  then have "uok (user_key po)" using keys parsed_num(3)[OF old(2)] by fastforce
  moreover have "none_newer U t (set kvs) (user_key pd) kd" using top all by (auto simp: none_newer_def)
  ultimately have "newest_at U t (set (concat gs) \<union> ?R) ko vo"
    using user_comparator.hidden_value_returns[OF U a k del, of ?base ko vo ?R po t] base old t left unfolding gs(2) by blast
  moreover have "\<not> newest_at U t (version_entries (v_files v) K) key val" if "Compare U (ExtractUserKey key) (user_key pd) = 0" for key val
  proof -
    have "(kd, vd) \<in> version_entries (v_files v) K" using del(1) all by blast
    moreover have "sequence pd \<le> t" using del(4) t by (rule order_trans)
    ultimately show ?thesis using user_comparator.deleted_not_newest[OF U keys _ del(2,3) _ top that] by blast
  qed
  ultimately show ?thesis using gs(1) by blast
qed

section \<open>Witnesses\<close>

text \<open>Two levels: a file of level 1, and two files of level 2 that share the user key 2, a deletion behind which an older value stands.\<close>

definition skey :: "slice \<Rightarrow> SequenceNumber \<Rightarrow> ValueType \<Rightarrow> slice" where
  "skey u n t = AppendInternalKey [] \<lparr>user_key = u, sequence = n, vtype = t\<rparr>"

definition split_entries :: "nat \<Rightarrow> entries" where
  "split_entries f = (if f = 0 then [(skey [1] 20 kTypeValue, [11])]
     else if f = 1 then [(skey [1] 10 kTypeValue, [12]), (skey [2] 9 kTypeDeletion, [])]
     else [(skey [2] 8 kTypeValue, [13]), (skey [3] 7 kTypeValue, [14])])"

definition split_meta :: "nat \<Rightarrow> FileMetaData" where
  "split_meta f = new_FileMetaData\<lparr>fnumber := of_nat f + 1, file_size := 100, smallest := fst (hd (split_entries f)), largest := fst (last (split_entries f))\<rparr>"

definition split_files :: "nat \<Rightarrow> nat list" where
  "split_files l = (if l = 1 then [0] else if l = 2 then [1, 2] else [])"


lemma split_keys:
  "skey [1] 20 kTypeValue = [1, 1, 20, 0, 0, 0, 0, 0, 0]" "skey [1] 10 kTypeValue = [1, 1, 10, 0, 0, 0, 0, 0, 0]"
  "skey [2] 9 kTypeDeletion = [2, 0, 9, 0, 0, 0, 0, 0, 0]" "skey [2] 8 kTypeValue = [2, 1, 8, 0, 0, 0, 0, 0, 0]"
  "skey [3] 7 kTypeValue = [3, 1, 7, 0, 0, 0, 0, 0, 0]"
  by code_simp+

lemma split_parsed:
  "ParseInternalKey (skey [1] 20 kTypeValue) = Some \<lparr>user_key = [1], sequence = 20, vtype = kTypeValue\<rparr>"
  "ParseInternalKey (skey [1] 10 kTypeValue) = Some \<lparr>user_key = [1], sequence = 10, vtype = kTypeValue\<rparr>"
  "ParseInternalKey (skey [2] 9 kTypeDeletion) = Some \<lparr>user_key = [2], sequence = 9, vtype = kTypeDeletion\<rparr>"
  "ParseInternalKey (skey [2] 8 kTypeValue) = Some \<lparr>user_key = [2], sequence = 8, vtype = kTypeValue\<rparr>"
  "ParseInternalKey (skey [3] 7 kTypeValue) = Some \<lparr>user_key = [3], sequence = 7, vtype = kTypeValue\<rparr>"
  unfolding split_keys by code_simp+

lemma split_user:
  "ExtractUserKey (skey [1] 20 kTypeValue) = [1]" "ExtractUserKey (skey [1] 10 kTypeValue) = [1]"
  "ExtractUserKey (skey [2] 9 kTypeDeletion) = [2]" "ExtractUserKey (skey [2] 8 kTypeValue) = [2]"
  "ExtractUserKey (skey [3] 7 kTypeValue) = [3]"
  unfolding split_keys by code_simp+

lemma split_num:
  "key_num (skey [1] 20 kTypeValue) = 20 * 256 + 1" "key_num (skey [1] 10 kTypeValue) = 10 * 256 + 1"
  "key_num (skey [2] 9 kTypeDeletion) = 9 * 256" "key_num (skey [2] 8 kTypeValue) = 8 * 256 + 1"
  "key_num (skey [3] 7 kTypeValue) = 7 * 256 + 1"
  unfolding split_keys by code_simp+

lemma small_compare:
  "Compare BytewiseComparator [1] [1] = 0" "Compare BytewiseComparator [2] [2] = 0" "Compare BytewiseComparator [3] [3] = 0"
  "Compare BytewiseComparator [1] [2] = -1" "Compare BytewiseComparator [2] [1] = 1" "Compare BytewiseComparator [1] [3] = -1"
  "Compare BytewiseComparator [3] [1] = 1" "Compare BytewiseComparator [2] [3] = -1" "Compare BytewiseComparator [3] [2] = 1"
  by code_simp+

lemmas split_simps = split_parsed split_user split_num small_compare split_meta_def split_entries_def new_FileMetaData_def

lemma split_ok: "short_bytewise.file_ok (split_meta f)"
  by (auto simp: short_bytewise.file_ok_def split_simps short_key_def short_bytewise.ikc_le) (simp_all add: split_keys)

lemma split_levels: "short_bytewise.version_levels split_meta split_files"
  by (auto simp: short_bytewise.version_levels_def short_bytewise.disjoint_files_def split_ok split_files_def)
     (simp_all add: split_simps short_bytewise.ikc_less)

lemma split_filled: "short_bytewise.version_filled split_meta split_files split_entries"
proof -
  have "file_covers BytewiseComparator (split_meta f) (split_entries f)" for f
    by (auto simp: file_covers_def split_simps db_keys_ok_def)
  moreover have "short_bytewise.asc (split_entries f)" for f
    using short_bytewise.internal.compare_order_axioms
    by (auto simp: ascending_def split_simps short_bytewise.ikc_less short_key_def) (simp_all add: split_keys)
  ultimately show ?thesis by (simp add: short_bytewise.version_filled_def)
qed

lemma split_newer: "version_newer BytewiseComparator split_meta split_files split_entries"
  by (auto simp: version_newer_def newer_entries_def split_files_def split_simps)

lemma split_level_inputs:
  "choose_inputs BytewiseComparator 2097152 split_meta split_files 1 [0] =
     Some ((skey [1] 20 kTypeValue, skey [1] 20 kTypeValue), [0], [1],
       (skey [1] 20 kTypeValue, skey [2] 9 kTypeDeletion))"
proof -
  have range: "GetOverlappingInputs BytewiseComparator split_meta split_files 2 (Some (skey [1] 20 kTypeValue))
      (Some (skey [1] 20 kTypeValue)) = Some [1]"
    by (simp add: short_bytewise.GetOverlappingInputs_sorted split_files_def in_range_def split_simps)
  have grow: "GetOverlappingInputs BytewiseComparator split_meta split_files 1 (Some (skey [1] 20 kTypeValue))
      (Some (skey [2] 9 kTypeDeletion)) = Some [0]"
    by (simp add: short_bytewise.GetOverlappingInputs_sorted split_files_def in_range_def split_simps)
  have one: "\<not> short_bytewise.boundary_at split_meta [0] (0 + n)" if "0 < n" for n
    using that by (simp add: short_bytewise.boundary_at_def)
  have add: "AddBoundaryInputs BytewiseComparator split_meta (split_files 1) [0] = Some [0]"
    using short_bytewise.AddBoundaryInputs_slice[of split_meta "[0]" 1 0] split_ok
    by (auto simp: short_bytewise.disjoint_files_def split_files_def)
  have "ikc_Compare BytewiseComparator (skey [1] 20 kTypeValue) (skey [1] 10 kTypeValue) < 0"
    "ikc_Compare BytewiseComparator (skey [2] 9 kTypeDeletion) (skey [1] 20 kTypeValue) > 0"
    by (simp_all add: short_bytewise.ikc_less short_bytewise.ikc_greater split_simps)
  moreover have "\<not> ikc_Compare BytewiseComparator (skey [1] 10 kTypeValue) (skey [1] 20 kTypeValue) < 0"
    by (simp add: short_bytewise.ikc_less split_simps)
  ultimately have r: "GetRange BytewiseComparator split_meta [0] = (skey [1] 20 kTypeValue, skey [1] 20 kTypeValue)"
    "GetRange2 BytewiseComparator split_meta [0] [1] = (skey [1] 20 kTypeValue, skey [2] 9 kTypeDeletion)"
    by (simp_all add: GetRange_def GetRange2_def split_meta_def split_entries_def)
  show ?thesis using range[unfolded numeral_2_eq_2] grow add r by (simp add: choose_inputs_def grow_inputs_def)
qed

definition memory_env :: "slice CompactEnv" where
  "memory_env = \<lparr>ce_NewWritableFile = (\<lambda>_. (Status_OK, [])), ce_Sync = (\<lambda>f. (Status_OK, f)), ce_Close = (\<lambda>f. (Status_OK, f)),
     ce_usable = (\<lambda>_ _. Status_OK)\<rparr>"

lemma memory_fine: "never_fails memory_writer" "env_fine memory_env"
  by (simp_all add: never_fails_def env_fine_def memory_env_def)

definition split_version :: "nat Version" where
  "split_version = new_Version\<lparr>v_files := split_files\<rparr>"

definition split_versions :: "nat VersionSet" where
  "split_versions = \<lparr>vs_user_comparator = BytewiseComparator, vs_max_file_size = 2097152, vs_next_file_number = 4, vs_manifest_file_number = 1,
     vs_last_sequence = 20, vs_log_number = 1, vs_prev_log_number = 0, vs_current = split_version, vs_compact_pointer = (\<lambda>_. [])\<rparr>"

definition split_compaction :: "nat Compaction" where
  "split_compaction = (new_Compaction 2097152 2)\<lparr>c_inputs0 := [1, 2], c_input_version := Some split_version\<rparr>"

text \<open>The iterator of a memtable runs over any few entries with different sequence numbers.\<close>

lemma memtable_input:
  assumes "\<forall>e \<in> set es. entry_small e \<and> short_key (user_key (fst e))" "distinct (map (\<lambda>e. sequence (fst e)) es)"
  shows "\<exists>input kvs. child_at BytewiseComparator short_key no_snappy True input kvs (length kvs) \<and> set kvs = entry_kv ` set es"
proof -
  have "\<exists>mt. mt_rep short_key mt es \<and> mt_user_comparator mt = BytewiseComparator"
    using assms
  proof (induction es rule: rev_induct)
    case Nil
    show ?case using short_bytewise.mt_rep_new by (intro exI[of _ "new_MemTable BytewiseComparator"]) (simp add: new_MemTable_def)
  next
    case (snoc e es)
    then obtain mt where mt: "mt_rep short_key mt es" "mt_user_comparator mt = BytewiseComparator" by auto
    show ?case using short_bytewise.mt_rep_Add[of mt es "fst e" "snd e"] mt snoc.prems by auto
  qed
  then obtain mt where mt: "mt_rep short_key mt es" "mt_user_comparator mt = BytewiseComparator" by blast
  obtain kvs where kvs: "mem_at BytewiseComparator short_key mt None kvs (length kvs)" "set kvs = entry_kv ` set es"
    using short_bytewise.mem_at_new[OF mt] by auto
  then show ?thesis by (intro exI[of _ "Inl (mt, None)"] exI[of _ kvs]) (simp add: child_at_def)
qed

definition split_memtable :: "nat \<Rightarrow> entry list" where
  "split_memtable f =
     (if f = 0 then [(\<lparr>user_key = [1], sequence = 20, vtype = kTypeValue\<rparr>, [11])]
      else if f = 1 then [(\<lparr>user_key = [1], sequence = 10, vtype = kTypeValue\<rparr>, [12]), (\<lparr>user_key = [2], sequence = 9, vtype = kTypeDeletion\<rparr>, [])]
      else [(\<lparr>user_key = [2], sequence = 8, vtype = kTypeValue\<rparr>, [13]), (\<lparr>user_key = [3], sequence = 7, vtype = kTypeValue\<rparr>, [14])])"

lemma split_input:
  assumes "(f, g) = (1, 2) \<or> (f, g) = (0, 1)"
  shows "\<exists>input kvs. child_at BytewiseComparator short_key no_snappy True input kvs (length kvs) \<and>
    set kvs = set (split_entries f) \<union> set (split_entries g) \<and> db_keys_ok kvs"
proof -
  let ?es = "split_memtable f @ split_memtable g"
  have "\<forall>e \<in> set ?es. entry_small e \<and> short_key (user_key (fst e))" "distinct (map (\<lambda>e. sequence (fst e)) ?es)"
    using assms by (auto simp: split_memtable_def entry_small_def kMaxSequenceNumber_def short_key_def)
  then obtain input kvs where i: "child_at BytewiseComparator short_key no_snappy True input kvs (length kvs)" "set kvs = entry_kv ` set ?es"
    using memtable_input by blast
  have e: "set kvs = set (split_entries f) \<union> set (split_entries g)"
    using assms unfolding i(2) by (auto simp: split_memtable_def split_entries_def entry_kv_def skey_def InternalKey_def)
  then have "db_keys_ok kvs" using assms by (auto simp: db_keys_ok_def split_simps)
  then show ?thesis using i(1) e by blast
qed

lemma split_compaction_ok: "short_bytewise.compaction_ok split_meta split_version split_compaction"
proof -
  have n: "short_bytewise.clean_inputs split_meta [1, 2] 2 [1, 2]"
    unfolding short_bytewise.clean_inputs_def short_bytewise.neighbours_def short_bytewise.boundary_at_def
    by (simp, intro exI[of _ 0] exI[of _ 2]) simp
  have "short_bytewise.chosen_ok split_meta split_files 2 (skey [1] 10 kTypeValue, skey [3] 7 kTypeValue) [1, 2] []"
    using n by (simp add: short_bytewise.chosen_ok_def split_files_def short_bytewise.lower_of_def short_bytewise.upper_of_def
        split_simps short_bytewise.ikc_le)
  then show ?thesis
    by (auto simp: short_bytewise.compaction_ok_def split_compaction_def split_version_def new_Compaction_def new_Version_def kNumLevels_def)
qed

lemma split_compaction_fields:
  "c_input_version split_compaction = Some split_version" "c_level_ptrs split_compaction = (\<lambda>_. 0)" "c_level split_compaction = 2"
  "c_inputs0 split_compaction = [1, 2]" "c_inputs1 split_compaction = []" "v_files split_version = split_files"
  "vs_user_comparator split_versions = BytewiseComparator"
  by (simp_all add: split_compaction_def split_version_def split_versions_def new_Compaction_def new_Version_def)

lemma split_contract:
  "sorted_iterator (child_iterators no_snappy True) (ikc_Compare BytewiseComparator) (\<lambda>k. 8 \<le> length k \<and> short_key (ExtractUserKey k))
     (child_at BytewiseComparator short_key no_snappy True)"
proof -
  have "Compare (InternalKeyComparator BytewiseComparator) = ikc_Compare BytewiseComparator" by (simp add: InternalKeyComparator_def)
  then show ?thesis using short_bytewise.child_contract[OF short_keys_short, of no_snappy True] by simp
qed

lemma split_work:
  "\<exists>input kvs. child_at BytewiseComparator short_key no_snappy True input kvs (length kvs) \<and>
    set kvs = input_entries split_entries [1, 2] [] \<and> db_keys_ok kvs"
  "\<exists>input kvs. child_at BytewiseComparator short_key no_snappy True input kvs (length kvs) \<and>
    set kvs = input_entries split_entries [0] [1] \<and> db_keys_ok kvs"
  using split_input[of 1 2] split_input[of 0 1] by (simp_all add: input_entries_def Un_commute)

text \<open>Between two entries a memtable is written, or a writer starts a log: each takes a file number.\<close>

definition takes_number :: "nat \<Rightarrow> 'p VersionSet \<Rightarrow> 'p VersionSet" where
  "takes_number n vs = (if n = 1 \<and> vs_next_file_number vs \<noteq> - 1 then snd (NewFileNumber vs) else vs)"

lemma takes_number_ok: "keeps_comparator takes_number" "numbers_grow takes_number"
proof -
  show "keeps_comparator takes_number" by (simp add: keeps_comparator_def takes_number_def NewFileNumber_def)
  have "x \<le> x + 1" if "x \<noteq> - 1" for x :: "64 word"
    using handed_out_snoc[of x x "[]"] that by (simp add: handed_out_def)
  then show "numbers_grow takes_number" by (simp add: numbers_grow_def takes_number_def NewFileNumber_def)
qed

theorem compaction_work_witness:
  "\<exists>input kvs w edit. set kvs = input_entries split_entries [1, 2] [] \<and>
    DoCompactionWork memory_env no_snappy sample_options memory_writer split_meta 100 (\<lambda>_. False) takes_number (child_iterators no_snappy True) input
      split_compaction split_versions = Some (Status_OK, w, edit) \<and>
    compacted memory_env no_snappy sample_options memory_writer split_meta takes_number split_compaction split_versions
      (kept_entries BytewiseComparator 100 (base_key BytewiseComparator split_meta split_files 2) kvs (length kvs)) w edit"
proof -
  note f = split_compaction_fields
  obtain input kvs where i: "child_at BytewiseComparator short_key no_snappy True input kvs (length kvs)"
    "set kvs = input_entries split_entries [1, 2] []" "db_keys_ok kvs" using split_work(1) by blast
  have s: "(100 :: SequenceNumber) < kMaxSequenceNumber" by (simp add: kMaxSequenceNumber_def)
  have l: "short_bytewise.version_levels split_meta (v_files split_version)" using split_levels f by simp
  obtain st w edit where "DoCompactionWork memory_env no_snappy sample_options memory_writer split_meta 100 (\<lambda>_. False) takes_number
      (child_iterators no_snappy True) input split_compaction split_versions = Some (st, w, edit)" "Status_ok st"
    "Status_ok st \<longrightarrow> compacted memory_env no_snappy sample_options memory_writer split_meta takes_number split_compaction split_versions
      (kept_entries BytewiseComparator 100 (base_key BytewiseComparator split_meta (v_files split_version) (c_level split_compaction)) kvs (length kvs)) w edit"
    using compaction_work[OF short_bytewise.user_comparator_axioms
        split_contract i(1) memory_appends i(3) s l f(1,2,7) takes_number_ok(1),
        of memory_env no_snappy sample_options "\<lambda>_. False"] memory_fine by blast
  then show ?thesis using i(2) f by auto
qed

theorem compaction_safe_witness:
  "\<exists>input w edit gs.
    DoCompactionWork memory_env no_snappy sample_options memory_writer split_meta 100 (\<lambda>_. False) takes_number (child_iterators no_snappy True) input
      split_compaction split_versions = Some (Status_OK, w, edit) \<and>
    outputs_hold memory_env no_snappy sample_options memory_writer (cs_outputs (ws_compact w)) (cs_closed (ws_compact w)) gs \<and>
    newest_at BytewiseComparator 100 (set (concat gs) \<union> left_behind split_entries split_files 2 [1, 2] []) (skey [3] 7 kTypeValue) [14]"
proof -
  note f = split_compaction_fields
  obtain input kvs where i: "child_at BytewiseComparator short_key no_snappy True input kvs (length kvs)"
    "set kvs = input_entries split_entries [1, 2] []" "db_keys_ok kvs" using split_work(1) by blast
  have s: "(100 :: SequenceNumber) < kMaxSequenceNumber" by (simp add: kMaxSequenceNumber_def)
  have l: "short_bytewise.version_levels split_meta (v_files split_version)" using split_levels f by simp
  obtain st w edit where D: "DoCompactionWork memory_env no_snappy sample_options memory_writer split_meta 100 (\<lambda>_. False) takes_number
      (child_iterators no_snappy True) input split_compaction split_versions = Some (st, w, edit)"
    using short_bytewise.DoCompactionWork_writes[OF split_contract i(1) memory_appends takes_number_ok(1) i(3) s l f(1,2,7)] by blast
  have ok: "Status_ok st" using short_bytewise.DoCompactionWork_succeeds[OF split_contract i(1) memory_fine D] .
  have split: "short_bytewise.no_split split_meta (v_files split_version (c_level split_compaction + 1)) (c_inputs1 split_compaction)"
    by (simp add: short_bytewise.no_split_def f split_files_def)
  have kvs: "set kvs = input_entries split_entries (c_inputs0 split_compaction) (c_inputs1 split_compaction)" using i(2) f by simp
  have M: "short_bytewise.newer_set (v_files split_version) split_entries {}" by (simp add: short_bytewise.newer_set_def)
  have filled: "short_bytewise.version_filled split_meta (v_files split_version) split_entries"
    "version_newer BytewiseComparator split_meta (v_files split_version) split_entries" using split_filled split_newer f by simp_all
  obtain gs where gs: "outputs_hold memory_env no_snappy sample_options memory_writer (cs_outputs (ws_compact w)) (cs_closed (ws_compact w)) gs"
    "\<forall>t \<ge> 100. \<forall>key val. newest_at BytewiseComparator t (set (concat gs) \<union> left_behind split_entries split_files 2 [1, 2] [] \<union> {}) key val \<longleftrightarrow>
       newest_at BytewiseComparator t (version_entries split_files split_entries \<union> {}) key val"
    using compaction_safe[OF short_bytewise.user_comparator_axioms split_contract i(1) memory_appends i(3) s l filled split_compaction_ok f(2)
        split kvs M f(7) takes_number_ok(1) D ok] unfolding f by blast
  have "(skey [3] 7 kTypeValue, [14]) \<in> version_entries split_files split_entries"
    unfolding version_entries_def by (rule UN_I[of 2]) (auto simp: kNumLevels_def split_files_def split_entries_def)
  moreover have "key_num k' \<le> key_num (skey [3] 7 kTypeValue)"
    if "(k', v') \<in> version_entries split_files split_entries" "Compare BytewiseComparator (ExtractUserKey k') [3] = 0" for k' v'
    using that by (auto simp: version_entries_def split_files_def split_simps split: if_splits)
  ultimately have "newest_at BytewiseComparator 100 (version_entries split_files split_entries) (skey [3] 7 kTypeValue) [14]"
    by (fastforce simp: newest_at_def split_simps)
  then have "newest_at BytewiseComparator 100 (set (concat gs) \<union> left_behind split_entries split_files 2 [1, 2] []) (skey [3] 7 kTypeValue) [14]"
    using gs(2) unfolding Un_empty_right by blast
  moreover have "st = Status_OK" using ok by simp
  ultimately show ?thesis using D gs(1) by blast
qed

theorem overlapping_inputs_witness:
  "GetOverlappingInputs BytewiseComparator split_meta split_files 2 (Some (skey [1] 20 kTypeValue)) None = Some [1, 2] \<and>
   (\<exists>R. GetOverlappingInputs BytewiseComparator split_meta (\<lambda>_. [1, 2]) 0 (Some (skey [3] 7 kTypeValue)) None = Some R \<and> set R = {1, 2})"
proof -
  have r: "short_bytewise.range_ok (map_option ExtractUserKey (Some (skey [1] 20 kTypeValue)))"
    "short_bytewise.range_ok (map_option ExtractUserKey (Some (skey [3] 7 kTypeValue)))" "short_bytewise.range_ok (map_option ExtractUserKey None)"
    by (simp_all add: short_bytewise.range_ok_def split_simps short_key_def)
  have l: "short_bytewise.version_levels split_meta (\<lambda>_. [1, 2])"
    by (auto simp: short_bytewise.version_levels_def short_bytewise.disjoint_files_def split_ok) (simp add: split_simps short_bytewise.ikc_less)
  have k: "2 < kNumLevels" "0 < kNumLevels" by (simp_all add: kNumLevels_def)
  have 1: "GetOverlappingInputs BytewiseComparator split_meta split_files 2 (Some (skey [1] 20 kTypeValue)) None = Some [1, 2]"
    using overlapping_inputs[OF short_bytewise.user_comparator_axioms split_levels k(1) r(1,3)] by (simp add: split_files_def in_range_def split_simps)
  obtain R where R: "GetOverlappingInputs BytewiseComparator split_meta (\<lambda>_. [1, 2]) 0 (Some (skey [3] 7 kTypeValue)) None = Some R"
    "short_bytewise.least_overlap split_meta [1, 2] (Some [3]) None R"
    using overlapping_inputs[OF short_bytewise.user_comparator_axioms l k(2) r(2,3)] by (auto simp: split_simps)
  have "2 \<in> set R" using short_bytewise.least_overlapD(1)[OF R(2)]
    by (auto simp: short_bytewise.in_files_def in_range_def split_simps)
  moreover have "files_overlap BytewiseComparator (split_meta 2) (split_meta 1)" by (simp add: files_overlap_def in_range_def split_simps)
  ultimately have "{1, 2} \<subseteq> set R" using short_bytewise.least_overlapD(2)[OF R(2)] by (auto simp: short_bytewise.overlap_closed_def)
  then have "set R = {1, 2}" using short_bytewise.least_overlapD(3)[OF R(2)] by auto
  then show ?thesis using 1 R(1) by blast
qed

theorem memtable_output_level_witness:
  "\<exists>r. PickLevelForMemTableOutput BytewiseComparator 2097152 split_meta (new_Version\<lparr>v_files := split_files\<rparr>) [2] [3] = Some r \<and> r \<le> 1"
proof -
  have l: "short_bytewise.version_levels split_meta (v_files (new_Version\<lparr>v_files := split_files\<rparr>))" using split_levels by simp
  have k: "short_key [2]" "short_key [3]" by (simp_all add: short_key_def)
  obtain r where r: "PickLevelForMemTableOutput BytewiseComparator 2097152 split_meta (new_Version\<lparr>v_files := split_files\<rparr>) [2] [3] = Some r"
    "r \<le> 2" "r \<noteq> 0 \<longrightarrow> (\<forall>l \<le> r. \<forall>f \<in> set (split_files l). \<not> in_range BytewiseComparator (Some [2]) (Some [3]) (split_meta f))"
    using memtable_output_level[OF short_bytewise.user_comparator_axioms l k, of 2097152] by auto
  have "in_range BytewiseComparator (Some [2]) (Some [3]) (split_meta 1)" "1 \<in> set (split_files 2)"
    by (simp_all add: in_range_def split_simps split_files_def)
  then have "r \<noteq> 2" using r(3) by auto
  then show ?thesis using r(1,2) by auto
qed

theorem pick_compaction_witness:
  "\<exists>c vs'. PickCompaction split_meta
     (\<lparr>vs_user_comparator = BytewiseComparator, vs_max_file_size = 2097152, vs_next_file_number = 4, vs_manifest_file_number = 1,
       vs_last_sequence = 20, vs_log_number = 1, vs_prev_log_number = 0,
       vs_current = (Finalize split_meta (new_Version\<lparr>v_files := split_files\<rparr>))\<lparr>v_file_to_compact := Some 0, v_file_to_compact_level := 1\<rparr>,
       vs_compact_pointer = (\<lambda>_. [])\<rparr>) = Some (Some c, vs')"
proof -
  let ?v = "(Finalize split_meta (new_Version\<lparr>v_files := split_files\<rparr>))\<lparr>v_file_to_compact := Some 0, v_file_to_compact_level := 1\<rparr>"
  let ?vs = "\<lparr>vs_user_comparator = BytewiseComparator, vs_max_file_size = 2097152, vs_next_file_number = 4, vs_manifest_file_number = 1,
       vs_last_sequence = 20, vs_log_number = 1, vs_prev_log_number = 0, vs_current = ?v, vs_compact_pointer = (\<lambda>_. [])\<rparr>"
  have f: "v_files ?v = split_files" by (simp add: Finalize_def split_beta)
  have same: "level_score split_meta ?v = level_score split_meta (new_Version\<lparr>v_files := split_files\<rparr>)"
    by (rule ext) (simp add: level_score_def f)
  have loop: "best_level_loop split_meta v ls best = best_level_loop split_meta v' ls best"
    if "level_score split_meta v = level_score split_meta v'" for v v' :: "nat Version" and ls best
    using that by (induction ls arbitrary: best) (auto simp: Let_def)
  have fin: "v_compaction_score ?v = v_compaction_score (Finalize split_meta ?v)" "v_compaction_level ?v = v_compaction_level (Finalize split_meta ?v)"
    using loop[OF same] by (simp_all add: Finalize_def split_beta)
  have seek: "\<forall>f. v_file_to_compact ?v = Some f \<longrightarrow>
      nat (v_file_to_compact_level ?v) + 1 < kNumLevels \<and> f \<in> set (v_files ?v (nat (v_file_to_compact_level ?v)))"
    unfolding f by (simp add: kNumLevels_def split_files_def)
  have l: "short_bytewise.version_levels split_meta (v_files ?v)" using split_levels f by simp
  obtain c vs' where "PickCompaction split_meta ?vs = Some (c, vs')" "c = None \<longleftrightarrow> \<not> NeedsCompaction ?vs"
    using pick_compaction[OF short_bytewise.user_comparator_axioms l _ _ fin seek, of ?vs] by auto
  moreover have "NeedsCompaction ?vs" by (simp add: NeedsCompaction_def)
  ultimately show ?thesis by (cases c) auto
qed

text \<open>The version of the example: the file 1 of level 1 is compacted with the file 2 of level 2, and the file 3 stays behind.\<close>

definition split_start :: "nat Compaction" where
  "split_start = (new_Compaction 2097152 1)\<lparr>c_inputs0 := [0], c_input_version := Some split_version\<rparr>"

lemma split_start_setup:
  "\<exists>c vs. SetupOtherInputs split_meta split_start (split_versions :: nat VersionSet) = Some (c, vs) \<and> c_level c = 1 \<and> c_inputs0 c = [0] \<and> c_inputs1 c = [1] \<and>
    c_input_version c = Some split_version \<and> c_level_ptrs c = (\<lambda>_. 0) \<and> vs_user_comparator vs = BytewiseComparator \<and>
    short_bytewise.compaction_ok split_meta split_version c"
proof -
  have v: "vs_current split_versions = split_version" "vs_user_comparator split_versions = BytewiseComparator"
    "vs_max_file_size split_versions = 2097152" "v_files split_version = split_files"
    by (simp_all add: split_versions_def split_version_def new_Version_def)
  have c: "c_level split_start = 1" "c_inputs0 split_start = [0]" "c_input_version split_start = Some split_version" "c_level_ptrs split_start = (\<lambda>_. 0)"
    by (simp_all add: split_start_def new_Compaction_def)
  have "short_bytewise.start_inputs split_meta (split_files 1) 1 [0]"
    by (simp add: short_bytewise.start_inputs_def short_bytewise.neighbours_def split_files_def) (intro exI[of _ 0] exI[of _ 1], simp add: short_bytewise.neighbours_def)
  then obtain c' vs' where s: "SetupOtherInputs split_meta split_start split_versions = Some (c', vs')"
    "short_bytewise.compaction_ok split_meta split_version c'"
    using short_bytewise.SetupOtherInputs_ok[OF _ _ v(1,2) _ c(3), of split_meta] split_levels v(4) c by (auto simp: kNumLevels_def)
  then show ?thesis using split_level_inputs c v
    by (auto simp: SetupOtherInputs_def Let_def split: Option.bind_splits)
qed

theorem deleted_value_returns_witness:
  "short_bytewise.version_filled split_meta split_files split_entries \<and> version_newer BytewiseComparator split_meta split_files split_entries \<and>
   (\<exists>c vs input w edit gs. SetupOtherInputs split_meta split_start split_versions = Some (c, vs) \<and> c_inputs0 c = [0] \<and> c_inputs1 c = [1] \<and>
      DoCompactionWork memory_env no_snappy sample_options memory_writer split_meta 100 (\<lambda>_. False) takes_number (child_iterators no_snappy True) input
        c vs = Some (Status_OK, w, edit) \<and>
      outputs_hold memory_env no_snappy sample_options memory_writer (cs_outputs (ws_compact w)) (cs_closed (ws_compact w)) gs \<and>
      (\<nexists>key val. Compare BytewiseComparator (ExtractUserKey key) [2] = 0 \<and>
         newest_at BytewiseComparator 100 (version_entries split_files split_entries) key val) \<and>
      newest_at BytewiseComparator 100 (set (concat gs) \<union> left_behind split_entries split_files 1 [0] [1]) (skey [2] 8 kTypeValue) [13])"
proof -
  obtain c vs where c: "SetupOtherInputs split_meta split_start split_versions = Some (c, vs)" "c_level c = 1" "c_inputs0 c = [0]" "c_inputs1 c = [1]"
    "c_input_version c = Some split_version" "c_level_ptrs c = (\<lambda>_. 0)" "vs_user_comparator vs = BytewiseComparator"
    "short_bytewise.compaction_ok split_meta split_version c"
    using split_start_setup by blast
  have f: "v_files split_version = split_files" by (simp add: split_version_def new_Version_def)
  obtain input kvs where i: "child_at BytewiseComparator short_key no_snappy True input kvs (length kvs)"
    "set kvs = input_entries split_entries (c_inputs0 c) (c_inputs1 c)" "db_keys_ok kvs" using split_work(2) unfolding c(3,4) by blast
  have s: "(100 :: SequenceNumber) < kMaxSequenceNumber" by (simp add: kMaxSequenceNumber_def)
  have l: "short_bytewise.version_levels split_meta (v_files split_version)" using split_levels f by simp
  have filled: "short_bytewise.version_filled split_meta (v_files split_version) split_entries" using split_filled f by simp
  obtain st w edit where D: "DoCompactionWork memory_env no_snappy sample_options memory_writer split_meta 100 (\<lambda>_. False) takes_number
      (child_iterators no_snappy True) input c vs = Some (st, w, edit)"
    using short_bytewise.DoCompactionWork_writes[OF split_contract i(1) memory_appends takes_number_ok(1) i(3) s l c(5-7)] by blast
  have ok: "Status_ok st" using short_bytewise.DoCompactionWork_succeeds[OF split_contract i(1) memory_fine D] .
  have levels: "{..<kNumLevels} = {0, 1, 2, 3, 4, 5, 6}" by (auto simp: kNumLevels_def)
  have left: "left_behind split_entries split_files 1 [0] [1] = set (split_entries 2)"
    unfolding left_behind_def levels split_files_def by (simp add: insert_Diff_if)
  have ents: "version_entries split_files split_entries = set (split_entries 0) \<union> set (split_entries 1) \<union> set (split_entries 2)"
    unfolding version_entries_def levels split_files_def by (simp add: Un_assoc)
  have del: "(skey [2] 9 kTypeDeletion, []) \<in> set kvs" unfolding i(2) c(3,4) by (simp add: input_entries_def split_entries_def)
  have base: "base_key BytewiseComparator split_meta (v_files split_version) (c_level c) [2]" unfolding c(2) f by (simp add: base_key_def split_files_def)
  have old: "(skey [2] 8 kTypeValue, [13]) \<in> left_behind split_entries (v_files split_version) (c_level c) (c_inputs0 c) (c_inputs1 c)"
    unfolding c(2-4) f left by (simp add: split_entries_def)
  have top: "none_newer BytewiseComparator 100 (version_entries (v_files split_version) split_entries) [2] (skey [2] 9 kTypeDeletion)"
    unfolding f ents by (simp add: none_newer_def split_simps)
  have lft: "none_newer BytewiseComparator 100 (left_behind split_entries (v_files split_version) (c_level c) (c_inputs0 c) (c_inputs1 c)) [2] (skey [2] 8 kTypeValue)"
    unfolding c(2-4) f left by (simp add: none_newer_def split_simps)
  obtain gs where "outputs_hold memory_env no_snappy sample_options memory_writer (cs_outputs (ws_compact w)) (cs_closed (ws_compact w)) gs"
    "newest_at BytewiseComparator 100 (set (concat gs) \<union> left_behind split_entries split_files 1 [0] [1]) (skey [2] 8 kTypeValue) [13]"
    "\<nexists>key val. Compare BytewiseComparator (ExtractUserKey key) [2] = 0 \<and> newest_at BytewiseComparator 100 (version_entries split_files split_entries) key val"
    using deleted_value_returns[OF short_bytewise.user_comparator_axioms split_contract i(1) memory_appends i(3) s l filled c(8,6) i(2) c(7) takes_number_ok(1)
        D ok del split_parsed(3) _ _ _ old split_parsed(4), of 100] base top lft split_num small_compare unfolding c(2-4) f by auto
  moreover have "st = Status_OK" using ok by simp
  ultimately show ?thesis using D c(1,3,4) split_filled split_newer by blast
qed

end
