(* ===== verification/Spec2Isabelle.thy ===== *)
theory Spec2Isabelle
  imports Pb_Messages Pb_Decode_Safe Pb_Roundtrip FBase64_Decode Ldb_Memtable Ldb_Version_Edit Ldb_Log_Reader Ldb_Merger Ldb_Version_Results
begin

text \<open>
  A verification library for the C and C++ code that ships with the application Twitter-Lite.

  The application is a Swift user interface (\<^verbatim>\<open>src/TwitterLite/TwitterLite\<close>) over vendored pods. Its own
  sources hold no C; the C code that runs in the process is the code of three pods, and that is what the
  library models:

  \<^item> nanopb, the protocol-buffer runtime of the analytics upload, and the generated messages it is used with;
  \<^item> the base64 routines of SocketRocket, with which the Firebase database client opens its web socket;
  \<^item> leveldb, the key-value store behind the persistence of the Firebase clients.

  The parts and the theories

  \<^item> \<open>Prelude\<close>: the machine (byte memory, little-endian words, 64-bit addresses), the results of calls, lemmas on
    words. \<open>Varint\<close>: the varint format as a reference, shared by nanopb and leveldb.
  \<^item> nanopb: \<open>Pb_Types\<close> (\<^verbatim>\<open>pb.h\<close>: descriptors and their macros), \<open>Pb_Common\<close> (\<^verbatim>\<open>pb_common.c\<close>: the field
    iterator), \<open>Pb_Write\<close> and \<open>Pb_Encode\<close> (\<^verbatim>\<open>pb_encode.c\<close>: streams, primitive encoders, fields, messages),
    \<open>Pb_Read\<close> and \<open>Pb_Decode\<close> (\<^verbatim>\<open>pb_decode.c\<close>). A structure of the application is an address in memory;
    pointer arithmetic is that of the code, in the widths of the code. Callbacks of the user, the heap and the
    extension tables are arguments. \<open>Pb_Wire\<close> defines the wire form of a message and proves that the encoder
    produces it, \<open>Pb_Encode_Total\<close> that the encoder returns (messages without
    extension fields, callbacks that return), \<open>Pb_Roundtrip\<close> that the primitive decoders undo the
    primitive encoders, \<open>Pb_Progress\<close> that readers never give bytes back, \<open>Pb_Decode_Safe\<close> that decoding a
    message of static fields returns on every input and stays inside the structure. \<open>Pb_Messages\<close>: the generated descriptors of
    \<^verbatim>\<open>cct.nanopb.c\<close> and \<^verbatim>\<open>firebasecore.nanopb.c\<close>, with the C layout of their structures.
  \<^item> base64: \<open>FBase64\<close> and \<open>FBase64_Decode\<close> (\<^verbatim>\<open>fbase64.c\<close>): the encoder writes the text of RFC 1521, the
    decoder accepts exactly these texts, white space aside.
  \<^item> leveldb, from the bottom up: \<open>Ldb_Coding\<close> (\<^verbatim>\<open>util/coding\<close>), \<open>Ldb_Status\<close> (\<^verbatim>\<open>status\<close>), \<open>Ldb_Crc32c\<close>
    (\<^verbatim>\<open>util/crc32c\<close>), \<open>Ldb_Order\<close> (the locale \<open>compare_order\<close>, the order laws everything sorted rests on),
    \<open>Ldb_Format\<close> (comparators and internal keys: \<^verbatim>\<open>util/comparator\<close>, \<^verbatim>\<open>db/dbformat\<close>), \<open>Ldb_Write_Batch\<close>
    (\<^verbatim>\<open>db/write_batch\<close>), \<open>Ldb_Skiplist\<close> (\<^verbatim>\<open>db/skiplist.h\<close>, \<^verbatim>\<open>util/random.h\<close>), \<open>Ldb_Memtable\<close> (\<^verbatim>\<open>db/memtable\<close>),
    \<open>Ldb_Log\<close> and \<open>Ldb_Log_Reader\<close> (\<^verbatim>\<open>db/log_writer\<close>, \<^verbatim>\<open>db/log_reader\<close>), \<open>Ldb_Filter\<close> (\<^verbatim>\<open>util/hash\<close>, \<^verbatim>\<open>util/bloom\<close>,
    \<^verbatim>\<open>table/filter_block\<close>), \<open>Ldb_Block\<close> (\<^verbatim>\<open>table/block_builder\<close>, \<^verbatim>\<open>table/block\<close>), \<open>Ldb_Version_Edit\<close>
    (\<^verbatim>\<open>db/version_edit\<close>).
  \<^item> leveldb, iterators and tables: \<open>Ldb_Iterator\<close> (the interface of iterators as a record of functions, its contract
    \<open>sorted_iterator\<close>, the iterators over blocks), \<open>Ldb_Merger\<close> (\<^verbatim>\<open>table/merger.cc\<close>), \<open>Ldb_Two_Level\<close>
    (\<^verbatim>\<open>table/two_level_iterator.cc\<close>), \<open>Ldb_Table_Format\<close> (\<^verbatim>\<open>table/format\<close>), \<open>Ldb_Table_Builder\<close> and \<open>Ldb_Table_Image\<close>
    (\<^verbatim>\<open>table/table_builder.cc\<close>: the builder, and what is in a file it finished), \<open>Ldb_Table\<close> (\<^verbatim>\<open>table/table.cc\<close>), \<open>Ldb_Db_Iter\<close> and
    \<open>Ldb_Db_View\<close> (\<^verbatim>\<open>db/db_iter.cc\<close>, with the view of the user it gives over memtables and tables).
  \<^item> leveldb, versions: \<open>Ldb_Files\<close> (searches in the files of a level, ranges, boundary files), \<open>Ldb_Version\<close> (\<^verbatim>\<open>Version\<close> and the
    numbers of \<^verbatim>\<open>VersionSet\<close>), \<open>Ldb_Compaction\<close> (the choice of a compaction), all of \<^verbatim>\<open>db/version_set.cc\<close>; \<open>Ldb_Compact\<close>
    (\<^verbatim>\<open>DBImpl::DoCompactionWork\<close> of \<^verbatim>\<open>db/db_impl.cc\<close>), with \<open>Ldb_Compact_View\<close> (the entries that are dropped), \<open>Ldb_Compact_Safe\<close>
    (why no read sees it), \<open>Ldb_Compact_Work\<close> (the files that are written) and the properties in \<open>Ldb_Version_Results\<close>.

  How the parts interact

  A write reaches leveldb as a batch. The batch is a record of the log, which is cut into fragments with
  checksums, and it is replayed into the memtable, a skip list of encoded entries under the order of internal
  keys. A full memtable becomes a table: blocks with restart points, filter blocks, and a record of the manifest
  that is an encoded version edit. Each of these formats has its writer and its reader in the library, and the
  properties join them: what was written is read back, damaged input is reported or at least keeps the reader inside
  its buffers, and every search returns.

  The database reads through one iterator over memtables and tables, which shows each user its newest visible value. Compactions
  rewrite tables in the background: the version chooses inputs, the loop drops entries no snapshot needs, while
  a function of the round stands for what the flush of a memtable and other threads do to the version set; the properties say that no read changes, except in one case which the code does not exclude, and that in this case a deleted value comes back.

  Interfaces are locales: \<open>sorted_iterator\<close> (what every iterator promises; interpreted by the iterators over blocks and tables, and
  kept by the merging and the two-level iterator), \<open>two_level_iterators\<close>, \<open>db_iterator\<close>, \<open>compare_order\<close>, \<open>comparator_contract\<close> and \<open>user_comparator\<close> (interpreted by the bytewise comparator,
  and carried to internal keys by a sublocale; it asks one thing more than \<^verbatim>\<open>comparator.h\<close>, that the separator of two equal keys is the first of them,
  because leveldb asks for it), \<open>level_search\<close> (three searches of the skip list),
  \<open>filter_contract\<close> (bloom filters), the encoder and fuel contracts of nanopb. Files and system calls are not code of the repository:
  they are records of functions, and what the code relies on is a predicate on such a record.

  Conventions

  \<^item> Integers keep their width where it matters (\<open>32 word\<close>, \<open>64 word\<close>); sizes of strings in memory are natural numbers.
  \<^item> Errors are values: a Boolean and an error message for nanopb, \<open>Status\<close> for leveldb, \<open>option\<close> where the C
    semantics gives no result.
  \<^item> Fuel occurs in the recursion over nested messages only; \<open>msg_depth\<close> bounds it, five is enough for every message of the
    application. Loops of leveldb are functions with a termination measure; those whose end depends on the
    data (the binary search of a block, the search of a skip list, the loop over the records of a log)
    are partial functions, with theorems that they return.
  \<^item> The theorems of the manifest carry their number in the text above them. Theorems whose statement shows a defect (a
    wrapped length, a lost error, a buffer that is too short) are kept with the others: they state what the code does.

  Not modelled

  \<^item> The Swift and Objective-C sources, and the other pods: user interface, network and account handling; headers without logic.
  \<^item> nanopb: the portability macros, static assertions, and the variants the build does not compile.
  \<^item> leveldb: the environment (files, threads, locks), statistics and log messages; of \<^verbatim>\<open>db_impl.cc\<close> all but the work of a compaction; of
    \<^verbatim>\<open>version_set.cc\<close> the manifest and the reference counts of versions; the caches, which are parameters; the arena.
  \<^item> The memory order of atomic accesses: the intermediate states of an insertion are modelled, their visibility is
    taken as sequentially consistent.
\<close>

section \<open>Decoding the messages of the application\<close>

definition idle_dec_env :: pb_dec_env where
  "idle_dec_env = \<lparr>denv_read = quiet_read, denv_decode = (\<lambda>fn f arg s. Some (True, s)),
     denv_ext_decode = (\<lambda>fn e t wt s. Some (True, s)), denv_ext_fields = (\<lambda>a. []),
     denv_realloc = (\<lambda>b p n. 0)\<rparr>"

definition qos_input :: dec_state where
  "qos_input = \<lparr>instr = pb_istream_from_buffer (stores (\<lambda>_. 0) 64 [16, 1, 24, 13, 255]) 64 5,
     dmem = (\<lambda>_. 0), blocks = Map.empty, fixed_count_size = 0\<rparr>"

lemma static_messages:
  "static_msg_ok gdt_cct_QosTierConfiguration_fields (csizeof gdt_cct_QosTierConfiguration)"
  "static_msg_ok gdt_cct_NetworkConnectionInfo_fields (csizeof gdt_cct_NetworkConnectionInfo)"
  "csizeof gdt_cct_QosTierConfiguration = 16" "msg_depth gdt_cct_QosTierConfiguration_fields = 1"
  by code_simp+

theorem pb_decode_contained_witness:
  "\<exists>ok s'. pb_decode 3 idle_dec_env gdt_cct_QosTierConfiguration_fields 4096 qos_input = Some (ok, s') \<and>
    (\<forall>x. x < 4096 \<or> 4112 \<le> x \<longrightarrow> dmem s' x = dmem qos_input x) \<and>
    blocks s' = blocks qos_input \<and> bytes_left (instr s') \<le> bytes_left (instr qos_input)"
  using pb_decode_contained[OF static_messages(1), of 3 4096 idle_dec_env qos_input]
  by (simp add: static_messages(3,4))

end
